(* ===== verification/Prelude.thy ===== *)
theory Prelude
  imports Main "HOL-Library.Multiset"
begin

text \<open>
  What the components share: the result type of operations that can fault, sequencing and
  folding over it, C++ integer division and rounding, and the unordered-vector removal
  that every scene component uses (overwrite the element by the last one, pop the last).

  A fault is a point where the C++ program has no defined continuation: a failed
  \<open>assert\<close>, an index outside an allocated array, a null or dangling pointer, an
  allocation of negative size, a division by zero, a loop without end, a Lua error that is raised
  where nothing catches it. An operation that
  cannot reach one is a plain function; an operation that can returns \<open>fault + 'a\<close>.
  Ordinary error codes of the source (\<open>-1\<close>, \<open>false\<close>) are ordinary values of the result.
\<close>

section \<open>Faults and results\<close>

datatype fault = AssertionFailed | OutOfRange | NullDeref | BadAlloc | Dangling | DivByZero | Diverged | Uncaught

type_synonym 'a result = "fault + 'a"

named_theorems res_simps \<open>unfolding of sequenced results\<close>

definition bind_res :: "'a result \<Rightarrow> ('a \<Rightarrow> 'b result) \<Rightarrow> 'b result" where
  "bind_res m f = (case m of Inl e \<Rightarrow> Inl e | Inr x \<Rightarrow> f x)"

lemma bind_res_simps [simp, res_simps]:
  "bind_res (Inl e) f = Inl e"
  "bind_res (Inr x) f = f x"
  by (simp_all add: bind_res_def)

lemma bind_res_eq_Inr [res_simps]:
  "bind_res m f = Inr y \<longleftrightarrow> (\<exists>x. m = Inr x \<and> f x = Inr y)"
  by (cases m) auto

lemma bind_res_cong [fundef_cong]:
  "m = m' \<Longrightarrow> (\<And>x. m' = Inr x \<Longrightarrow> f x = f' x) \<Longrightarrow> bind_res m f = bind_res m' f'"
  by (cases m') auto

definition check :: "bool \<Rightarrow> fault \<Rightarrow> unit result" where
  "check b e = (if b then Inr () else Inl e)"

lemma check_simps [simp, res_simps]:
  "check True e = Inr ()"
  "check False e = Inl e"
  "check b e = Inr u \<longleftrightarrow> b"
  by (auto simp: check_def)

text \<open>A loop over a fixed sequence whose body can fault.\<close>

fun fold_res :: "('a \<Rightarrow> 's \<Rightarrow> 's result) \<Rightarrow> 'a list \<Rightarrow> 's \<Rightarrow> 's result" where
  "fold_res f [] s = Inr s"
| "fold_res f (x # xs) s = bind_res (f x s) (fold_res f xs)"

lemma fold_res_append:
  "fold_res f (xs @ ys) s = bind_res (fold_res f xs s) (fold_res f ys)"
proof (induction xs arbitrary: s)
  case (Cons x xs)
  then show ?case by (cases "f x s") simp_all
qed simp

lemma fold_res_cong:
  "(\<And>x s. x \<in> set xs \<Longrightarrow> f x s = g x s) \<Longrightarrow> fold_res f xs s = fold_res g xs s"
  by (induction xs arbitrary: s) (auto intro!: bind_res_cong)

lemma fold_res_pure:
  "(\<And>x s. x \<in> set xs \<Longrightarrow> P s \<Longrightarrow> f x s = Inr (g x s) \<and> P (g x s)) \<Longrightarrow> P s \<Longrightarrow>
     fold_res f xs s = Inr (fold g xs s) \<and> P (fold g xs s)"
  by (induction xs arbitrary: s) auto

lemma fold_res_invariant:
  assumes "\<And>x s. x \<in> set xs \<Longrightarrow> P s \<Longrightarrow> \<exists>s'. f x s = Inr s' \<and> P s'" and "P s"
  shows "\<exists>s'. fold_res f xs s = Inr s' \<and> P s'"
  using assms
proof (induction xs arbitrary: s)
  case (Cons x xs)
  then obtain s' where s': "f x s = Inr s'" "P s'" by (metis list.set_intros(1))
  with Cons.IH [of s'] Cons.prems(1) show ?case by auto
qed simp

section \<open>Runs of operations\<close>

text \<open>
  A component is driven by a sequence of calls. \<open>safe_steps\<close> is the contract its operations
  share: from a state that satisfies the invariant every call returns, without a fault, in
  such a state. Every run is then free of faults, and what one call keeps a run keeps.
\<close>

fun run_ops :: "('c \<Rightarrow> 's \<Rightarrow> ('r \<times> 's) result) \<Rightarrow> 'c list \<Rightarrow> 's \<Rightarrow> ('r list \<times> 's) result" where
  "run_ops step [] s = Inr ([], s)"
| "run_ops step (c # cs) s =
     bind_res (step c s) (\<lambda>(r, s'). bind_res (run_ops step cs s') (\<lambda>(rs, s''). Inr (r # rs, s'')))"

locale safe_steps =
  fixes inv :: "'s \<Rightarrow> bool" and step :: "'c \<Rightarrow> 's \<Rightarrow> ('r \<times> 's) result"
  assumes step_safe: "inv s \<Longrightarrow> \<exists>r s'. step c s = Inr (r, s') \<and> inv s'"
begin

lemma run_safe: "inv s \<Longrightarrow> \<exists>rs s'. run_ops step cs s = Inr (rs, s') \<and> inv s' \<and> length rs = length cs"
proof (induction cs arbitrary: s)
  case (Cons c cs)
  obtain r s' where s': "step c s = Inr (r, s')" "inv s'" using step_safe [OF Cons.prems] by blast
  with Cons.IH [OF s'(2)] show ?case by fastforce
qed simp

lemma run_keeps:
  assumes keep: "\<And>c s r s'. inv s \<Longrightarrow> step c s = Inr (r, s') \<Longrightarrow> f s' = f s"
    and "inv s" "run_ops step cs s = Inr (rs, s')"
  shows "f s' = f s"
  using assms(2,3)
proof (induction cs arbitrary: s rs)
  case (Cons c cs)
  obtain r t where t: "step c s = Inr (r, t)" "inv t" using step_safe [OF Cons.prems(1)] by blast
  obtain rs' where "run_ops step cs t = Inr (rs', s')"
    using Cons.prems(2) t(1) by (auto simp: bind_res_eq_Inr)
  then show ?case using Cons.IH [OF t(2)] keep [OF Cons.prems(1) t(1)] by simp
qed simp

end

section \<open>What operations keep\<close>

text \<open>
  An operation relates the state it starts from to the one it returns, alone or next to a
  value. For a reflexive and transitive relation the operations that are composed of related
  steps are related, whatever their control flow.
\<close>

definition ret_keeps :: "('s \<Rightarrow> 's \<Rightarrow> bool) \<Rightarrow> 's \<Rightarrow> 's result \<Rightarrow> bool" where
  "ret_keeps R s r \<longleftrightarrow> (\<forall>s'. r = Inr s' \<longrightarrow> R s s')"

definition val_keeps :: "('s \<Rightarrow> 's \<Rightarrow> bool) \<Rightarrow> 's \<Rightarrow> ('a \<times> 's) result \<Rightarrow> bool" where
  "val_keeps R s r \<longleftrightarrow> (\<forall>x s'. r = Inr (x, s') \<longrightarrow> R s s')"

locale keeps =
  fixes R :: "'s \<Rightarrow> 's \<Rightarrow> bool"
  assumes R_refl: "R s s" and R_trans: "R s t \<Longrightarrow> R t u \<Longrightarrow> R s u"
begin

lemma bind_ret:
  "ret_keeps R s m \<Longrightarrow> (\<And>t. ret_keeps R t (f t)) \<Longrightarrow> ret_keeps R s (bind_res m f)"
  "ret_keeps R s m \<Longrightarrow> (\<And>t. val_keeps R t (g t)) \<Longrightarrow> val_keeps R s (bind_res m g)"
  by (auto simp: ret_keeps_def val_keeps_def bind_res_eq_Inr intro: R_trans)

lemma bind_val:
  "val_keeps R s m \<Longrightarrow> (\<And>x t. ret_keeps R t (f (x, t))) \<Longrightarrow> ret_keeps R s (bind_res m f)"
  "val_keeps R s m \<Longrightarrow> (\<And>x t. val_keeps R t (g (x, t))) \<Longrightarrow> val_keeps R s (bind_res m g)"
  by (auto simp: ret_keeps_def val_keeps_def bind_res_eq_Inr intro: R_trans)

lemma bind_pure:
  "(\<And>x. ret_keeps R s (f x)) \<Longrightarrow> ret_keeps R s (bind_res m f)"
  "(\<And>x. val_keeps R s (g x)) \<Longrightarrow> val_keeps R s (bind_res m g)"
  by (auto simp: ret_keeps_def val_keeps_def bind_res_eq_Inr)

lemma bind_eq:
  "(\<And>x. m = Inr x \<Longrightarrow> ret_keeps R s (f x)) \<Longrightarrow> ret_keeps R s (bind_res m f)"
  "(\<And>x. m = Inr x \<Longrightarrow> val_keeps R s (g x)) \<Longrightarrow> val_keeps R s (bind_res m g)"
  by (auto simp: ret_keeps_def val_keeps_def bind_res_eq_Inr)

lemma pair:
  "ret_keeps R s (h x y) \<Longrightarrow> ret_keeps R s (case (x, y) of (a, b) \<Rightarrow> h a b)"
  "val_keeps R s (h' x y) \<Longrightarrow> val_keeps R s (case (x, y) of (a, b) \<Rightarrow> h' a b)"
  "(\<And>a b. ret_keeps R s (k a b m)) \<Longrightarrow> ret_keeps R s ((case w of (a, b) \<Rightarrow> k a b) m)"
  "(\<And>a b. val_keeps R s (k' a b m)) \<Longrightarrow> val_keeps R s ((case w of (a, b) \<Rightarrow> k' a b) m)"
  by (simp_all split: prod.split)

lemma cases:
  "ret_keeps R s x \<Longrightarrow> ret_keeps R s y \<Longrightarrow> ret_keeps R s (if b then x else y)"
  "val_keeps R s x' \<Longrightarrow> val_keeps R s y' \<Longrightarrow> val_keeps R s (if b then x' else y')"
  "ret_keeps R s x \<Longrightarrow> (\<And>z. ret_keeps R s (f z)) \<Longrightarrow> ret_keeps R s (case m of None \<Rightarrow> x | Some z \<Rightarrow> f z)"
  "val_keeps R s x' \<Longrightarrow> (\<And>z. val_keeps R s (f' z)) \<Longrightarrow> val_keeps R s (case m of None \<Rightarrow> x' | Some z \<Rightarrow> f' z)"
  "(\<And>a b. ret_keeps R s (h a b)) \<Longrightarrow> ret_keeps R s (case w of (a, b) \<Rightarrow> h a b)"
  "(\<And>a b. val_keeps R s (h' a b)) \<Longrightarrow> val_keeps R s (case w of (a, b) \<Rightarrow> h' a b)"
  by (auto split: option.split prod.split)

lemma ret:
  "ret_keeps R s (Inr s)" "val_keeps R s (Inr (x, s))" "ret_keeps R s (Inl e)" "val_keeps R s (Inl e)"
  by (simp_all add: ret_keeps_def val_keeps_def R_refl)

lemmas rules = pair bind_ret bind_val bind_pure cases ret

lemma from_state:
  "R s t \<Longrightarrow> ret_keeps R t r \<Longrightarrow> ret_keeps R s r"
  "R s t \<Longrightarrow> val_keeps R t r' \<Longrightarrow> val_keeps R s r'"
  by (auto simp: ret_keeps_def val_keeps_def intro: R_trans)

lemma fold:
  assumes "\<And>x t. ret_keeps R t (f x t)"
  shows "ret_keeps R s (fold_res f xs s)"
proof (induction xs arbitrary: s)
  case (Cons x xs)
  show ?case unfolding fold_res.simps by (rule bind_ret(1) [OF assms Cons.IH])
qed (simp add: ret)

end

section \<open>C++ integer arithmetic on \<open>int\<close>\<close>

text \<open>
  \<open>int32_t\<close> values are modelled as \<^typ>\<open>int\<close>: signed overflow is undefined in C++,
  so on every run that has a meaning the two agree. Division truncates towards zero.
\<close>

definition c_div :: "int \<Rightarrow> int \<Rightarrow> int" where
  "c_div a b = sgn a * sgn b * (\<bar>a\<bar> div \<bar>b\<bar>)"

lemma c_div_nonneg: "0 \<le> a \<Longrightarrow> 0 < b \<Longrightarrow> c_div a b = a div b"
  by (cases "a = 0") (auto simp: c_div_def)

lemma c_div_small: "\<bar>a\<bar> < b \<Longrightarrow> c_div a b = 0"
  by (simp add: c_div_def)

text \<open>
  \<open>(int32_t)std::ceil(((double)a) / b)\<close>. The quotient of two 32-bit integers, when it is
  not an integer, is further from every integer than the rounding error of a double, so
  the double computation is the exact ceiling.
\<close>

definition ceil_div :: "int \<Rightarrow> int \<Rightarrow> int" where
  "ceil_div a b = - ((- a) div b)"

lemma ceil_div_bounds:
  assumes "0 < b"
  shows "a \<le> ceil_div a b * b" "(ceil_div a b - 1) * b < a"
proof -
  define q where "q = (- a) div b"
  have eq: "- a = b * q + (- a) mod b" by (simp add: q_def)
  have "0 \<le> (- a) mod b" "(- a) mod b < b" using assms by simp_all
  with eq show "a \<le> ceil_div a b * b" "(ceil_div a b - 1) * b < a"
    unfolding ceil_div_def q_def [symmetric] by (simp_all add: algebra_simps)
qed

section \<open>Unordered vectors\<close>

text \<open>
  The position of the first element equal to \<open>x\<close>, as the range-\<open>for\<close> finds it, and the
  removal that overwrites it with \<open>back()\<close> and calls \<open>pop_back()\<close>. The Boolean is the
  return value of the C++ function.
\<close>

fun first_index :: "'a \<Rightarrow> 'a list \<Rightarrow> nat option" where
  "first_index x [] = None"
| "first_index x (y # ys) = (if y = x then Some 0 else map_option Suc (first_index x ys))"

definition vec_remove :: "'a list \<Rightarrow> 'a \<Rightarrow> bool \<times> 'a list" where
  "vec_remove xs x =
     (case first_index x xs of
        None \<Rightarrow> (False, xs)
      | Some i \<Rightarrow> (True, butlast (xs[i := last xs])))"

lemma first_index_None: "first_index x xs = None \<longleftrightarrow> x \<notin> set xs"
  by (induction xs) auto

lemma first_index_notin [simp]: "x \<notin> set xs \<Longrightarrow> first_index x xs = None"
  by (simp add: first_index_None)

lemma first_index_SomeD: "first_index x xs = Some i \<Longrightarrow> i < length xs \<and> xs ! i = x"
  by (induction xs arbitrary: i) (auto split: if_splits)

lemma mset_butlast_upd:
  assumes "i < length xs"
  shows "mset (butlast (xs[i := last xs])) = mset xs - {#xs ! i#}"
proof -
  have ne: "xs \<noteq> []" using assms by auto
  let ?ys = "xs[i := last xs]"
  have "?ys \<noteq> []" using ne by simp
  then have "mset (butlast ?ys) + {#last ?ys#} = mset ?ys"
    by (metis append_butlast_last_id mset.simps mset_append)
  moreover have "last ?ys = last xs"
    using ne by (simp add: last_list_update)
  moreover have "mset ?ys = mset xs - {#xs ! i#} + {#last xs#}"
    using assms by (simp add: mset_update add_mset_commute)
  ultimately show ?thesis by (metis add_right_cancel)
qed

lemma vec_remove_mset: "mset (snd (vec_remove xs x)) = mset xs - {#x#}"
proof (cases "first_index x xs")
  case None
  then have "x \<notin> set xs" by (simp add: first_index_None)
  with None show ?thesis by (simp add: vec_remove_def diff_single_trivial)
next
  case (Some i)
  with first_index_SomeD [OF Some] show ?thesis
    by (simp add: vec_remove_def mset_butlast_upd)
qed

lemma vec_remove_fst [simp]: "fst (vec_remove xs x) \<longleftrightarrow> x \<in> set xs"
  using first_index_None [of x xs]
  by (cases "first_index x xs") (simp_all add: vec_remove_def)

lemma vec_remove_notin [simp]: "x \<notin> set xs \<Longrightarrow> vec_remove xs x = (False, xs)"
  by (simp add: vec_remove_def)

lemma vec_remove_count:
  "count (mset (snd (vec_remove xs x))) a = count (mset xs) a - (if a = x then 1 else 0)"
  by (simp add: vec_remove_mset)

lemma vec_remove_set [simp]:
  assumes "distinct xs"
  shows "set (snd (vec_remove xs x)) = set xs - {x}"
proof -
  let ?ys = "snd (vec_remove xs x)"
  have pos: "(a \<in> set zs) = (0 < count (mset zs) a)" for a and zs :: "'a list"
    by simp
  have one: "count (mset xs) a = (if a \<in> set xs then 1 else 0)" for a
    using assms unfolding distinct_count_atmost_1 by blast
  have "(a \<in> set ?ys) = (a \<in> set xs - {x})" for a
    unfolding pos [of a ?ys] vec_remove_count one by simp
  then show ?thesis by blast
qed

lemma vec_remove_distinct [simp]:
  assumes "distinct xs"
  shows "distinct (snd (vec_remove xs x))"
proof -
  have "count (mset xs) a = (if a \<in> set xs then 1 else 0)" for a
    using assms unfolding distinct_count_atmost_1 by blast
  then show ?thesis
    unfolding distinct_count_atmost_1 vec_remove_count vec_remove_set [OF assms] by simp
qed

text \<open>Appending through a pointer that may be null.\<close>

definition push_opt :: "'a list option \<Rightarrow> 'a list \<Rightarrow> 'a list option" where
  "push_opt l xs = map_option (\<lambda>ys. ys @ xs) l"

lemma push_opt_simps [simp]:
  "push_opt None xs = None"
  "push_opt (Some ys) xs = Some (ys @ xs)"
  by (simp_all add: push_opt_def)

end
