(* ===== verification/GridMap.thy ===== *)
theory GridMap
  imports Prelude
begin

text \<open>
  The terrain grid of \<open>scene/grid_map.cpp\<close>: a rectangle of movement costs (one signed byte
  per cell, negative for impassable) in one array indexed \<open>x * height + y\<close>. The lemmas show
  that the array always has the announced size, that reading never faults, that an
  in-range write is read back and changes no other cell, and what a write with a negative
  coordinate does.
\<close>

section \<open>State and operations\<close>

record grid_map =
  gm_id :: int
  gm_width :: int
  gm_height :: int
  gm_cells :: "int list option"

definition MAX_MAP_GRID :: int where
  "MAX_MAP_GRID = 256"

definition grid_map_init :: grid_map where
  "grid_map_init = \<lparr>gm_id = 0, gm_width = 0, gm_height = 0, gm_cells = None\<rparr>"

definition load_file :: "string \<Rightarrow> grid_map \<Rightarrow> bool \<times> grid_map" where
  "load_file path m = (True, m)"

definition gm_set :: "int \<Rightarrow> int \<Rightarrow> int \<Rightarrow> grid_map \<Rightarrow> (bool \<times> grid_map) result" where
  "gm_set mid w h m =
     (if gm_cells m \<noteq> None then Inl AssertionFailed
      else if MAX_MAP_GRID < w \<or> MAX_MAP_GRID < h then Inr (False, m)
      else if w * h < 0 then Inl BadAlloc
      else Inr (True, \<lparr>gm_id = mid, gm_width = w, gm_height = h,
                       gm_cells = Some (replicate (nat (w * h)) (-1))\<rparr>))"

definition gm_fill :: "int \<Rightarrow> int \<Rightarrow> int \<Rightarrow> grid_map \<Rightarrow> (bool \<times> grid_map) result" where
  "gm_fill x y cost m =
     (if x \<ge> gm_width m \<or> y \<ge> gm_height m then Inr (False, m)
      else case gm_cells m of
             None \<Rightarrow> Inl NullDeref
           | Some cs \<Rightarrow>
               (let i = x * gm_height m + y in
                if 0 \<le> i \<and> i < int (length cs)
                then Inr (True, m\<lparr>gm_cells := Some (cs[nat i := cost])\<rparr>)
                else Inl OutOfRange))"

definition get_pass_cost :: "grid_map \<Rightarrow> int \<Rightarrow> int \<Rightarrow> int result" where
  "get_pass_cost m x y =
     (if x < 0 \<or> x \<ge> gm_width m then Inr (-1)
      else if y < 0 \<or> y \<ge> gm_height m then Inr (-1)
      else case gm_cells m of
             None \<Rightarrow> Inl NullDeref
           | Some cs \<Rightarrow>
               (let i = x * gm_height m + y in
                if 0 \<le> i \<and> i < int (length cs) then Inr (cs ! nat i) else Inl OutOfRange))"

section \<open>Well-formed maps\<close>

definition gm_wf :: "grid_map \<Rightarrow> bool" where
  "gm_wf m \<longleftrightarrow>
     (case gm_cells m of
        None \<Rightarrow> gm_width m = 0 \<and> gm_height m = 0
      | Some cs \<Rightarrow> 0 \<le> gm_width m * gm_height m \<and>
                   length cs = nat (gm_width m * gm_height m))"

definition in_map :: "grid_map \<Rightarrow> int \<Rightarrow> int \<Rightarrow> bool" where
  "in_map m x y \<longleftrightarrow> 0 \<le> x \<and> x < gm_width m \<and> 0 \<le> y \<and> y < gm_height m"

lemma cell_index_bounds:
  assumes "0 \<le> x" "x < w" "0 \<le> y" "y < h"
  shows "0 \<le> x * h + y" "x * h + y < w * (h :: int)"
proof -
  show "0 \<le> x * h + y" using assms by simp
  have "x * h + y < (x + 1) * h" using assms by (simp add: algebra_simps)
  also have "\<dots> \<le> w * h" using assms by (intro mult_right_mono) auto
  finally show "x * h + y < w * h" .
qed

lemma cell_index_inj:
  assumes "0 \<le> y" "y < h" "0 \<le> y'" "y' < h" "x * h + y = x' * h + (y' :: int)"
  shows "x = x' \<and> y = y'"
proof -
  have "(x * h + y) div h = x" "(x' * h + y') div h = x'"
    using div_pos_pos_trivial [OF assms(1,2)] div_pos_pos_trivial [OF assms(3,4)] assms(1,2)
    by simp_all
  then have "x = x'" using assms(5) by simp
  with assms(5) show ?thesis by simp
qed

lemma gm_wf_init: "gm_wf grid_map_init"
  by (simp add: gm_wf_def grid_map_init_def)

lemma gm_wf_set: "gm_wf m \<Longrightarrow> gm_set mid w h m = Inr (b, m') \<Longrightarrow> gm_wf m'"
  by (auto simp: gm_set_def gm_wf_def split: if_splits)

lemma gm_wf_fill: "gm_wf m \<Longrightarrow> gm_fill x y c m = Inr (b, m') \<Longrightarrow> gm_wf m'"
  by (auto simp: gm_fill_def gm_wf_def Let_def split: if_splits option.splits)

lemma gm_wf_cell:
  assumes "gm_wf m" "in_map m x y"
  obtains cs where "gm_cells m = Some cs" "0 \<le> x * gm_height m + y"
    "x * gm_height m + y < int (length cs)"
proof (cases "gm_cells m")
  case None
  with assms show ?thesis by (auto simp: gm_wf_def in_map_def)
next
  case (Some cs)
  with assms have "int (length cs) = gm_width m * gm_height m" by (simp add: gm_wf_def)
  then show ?thesis
    using that [OF Some] assms(2)
      cell_index_bounds [of x "gm_width m" y "gm_height m"]
    by (simp add: in_map_def)
qed

lemma get_pass_cost_in_map:
  assumes "gm_wf m" "in_map m x y"
  shows "\<exists>cs. gm_cells m = Some cs \<and>
           get_pass_cost m x y = Inr (cs ! nat (x * gm_height m + y))"
proof -
  obtain cs where "gm_cells m = Some cs" "0 \<le> x * gm_height m + y"
      "x * gm_height m + y < int (length cs)"
    using gm_wf_cell [OF assms] .
  with assms(2) show ?thesis by (simp add: get_pass_cost_def in_map_def)
qed

lemma get_pass_cost_outside: "\<not> in_map m x y \<Longrightarrow> get_pass_cost m x y = Inr (-1)"
  by (auto simp: get_pass_cost_def in_map_def not_less)

lemma get_pass_cost_ok:
  assumes "gm_wf m"
  shows "\<exists>c. get_pass_cost m x y = Inr c"
  using get_pass_cost_in_map [OF assms] get_pass_cost_outside by blast

definition passable :: "grid_map \<Rightarrow> int \<Rightarrow> int \<Rightarrow> bool" where
  "passable m x y \<longleftrightarrow> (case get_pass_cost m x y of Inr c \<Rightarrow> 0 \<le> c | Inl _ \<Rightarrow> False)"

lemma passable_in_map: "passable m x y \<Longrightarrow> in_map m x y"
  using get_pass_cost_outside by (fastforce simp: passable_def)

lemma get_pass_cost_fill:
  assumes wf: "gm_wf m" and xy: "in_map m x y" and fill: "gm_fill x y c m = Inr (True, m')"
  shows "get_pass_cost m' x' y' = (if (x', y') = (x, y) then Inr c else get_pass_cost m x' y')"
proof (cases "in_map m x' y'")
  case True
  obtain cs where cs: "gm_cells m = Some cs" "0 \<le> x * gm_height m + y"
      "x * gm_height m + y < int (length cs)"
    using gm_wf_cell [OF wf xy] .
  have m': "m' = m\<lparr>gm_cells := Some (cs[nat (x * gm_height m + y) := c])\<rparr>"
    using fill cs xy by (auto simp: gm_fill_def in_map_def split: if_splits)
  have idx: "0 \<le> x' * gm_height m + y'" "x' * gm_height m + y' < int (length cs)"
    using gm_wf_cell [OF wf True] cs(1) by auto
  have "(x', y') = (x, y) \<longleftrightarrow> nat (x' * gm_height m + y') = nat (x * gm_height m + y)"
    using cell_index_inj [of y' "gm_height m" y x' x] eq_nat_nat_iff [OF idx(1) cs(2)] xy True
    by (auto simp: in_map_def)
  then show ?thesis
    using True idx cs by (auto simp: get_pass_cost_def m' in_map_def nth_list_update)
next
  case False
  moreover have "in_map m' x' y' = in_map m x' y'"
    using fill by (auto simp: gm_fill_def in_map_def Let_def split: if_splits option.splits)
  ultimately show ?thesis
    using xy by (auto simp: get_pass_cost_outside)
qed

section \<open>Properties\<close>

text \<open>
  on a well-formed map, filling a cell inside the map succeeds, keeps the map
  well-formed, and afterwards reading that cell gives the written cost while every other
  coordinate, inside or outside the map, reads as before.
\<close>

theorem gm_fill_read:
  assumes "gm_wf m" and "in_map m x y"
  shows "\<exists>m'. gm_fill x y c m = Inr (True, m') \<and> gm_wf m' \<and>
           (\<forall>x' y'. get_pass_cost m' x' y' =
              (if (x', y') = (x, y) then Inr c else get_pass_cost m x' y'))"
proof -
  obtain cs where cs: "gm_cells m = Some cs" "0 \<le> x * gm_height m + y"
      "x * gm_height m + y < int (length cs)"
    using gm_wf_cell [OF assms] .
  then obtain m' where m': "gm_fill x y c m = Inr (True, m')"
    using assms(2) by (simp add: gm_fill_def in_map_def)
  then show ?thesis
    using gm_wf_fill [OF assms(1) m'] get_pass_cost_fill [OF assms m'] by blast
qed

definition demo_map :: grid_map where
  "demo_map = \<lparr>gm_id = 1, gm_width = 2, gm_height = 3, gm_cells = Some [0, 0, 0, 0, -1, 0]\<rparr>"

lemma demo_map_wf: "gm_wf demo_map" "in_map demo_map 1 2"
  by (simp_all add: demo_map_def gm_wf_def in_map_def)

theorem gm_fill_read_witness:
  "\<exists>m'. gm_fill 1 2 7 demo_map = Inr (True, m') \<and> get_pass_cost m' 1 2 = Inr 7 \<and>
        get_pass_cost m' 1 1 = get_pass_cost demo_map 1 1"
  using gm_fill_read [OF demo_map_wf, of 7] by force

text \<open>
  \<open>fill\<close> checks only the upper bounds. A column above the first one with
  \<open>y = -1\<close> is accepted and overwrites the last cell of the column to its left, the same
  effect as the in-range call on that other cell.
\<close>

theorem gm_fill_negative_aliases:
  assumes "gm_wf m" and "in_map m (x - 1) (gm_height m - 1)" and "x < gm_width m"
  shows "gm_fill x (-1) c m = gm_fill (x - 1) (gm_height m - 1) c m \<and>
         (\<exists>m'. gm_fill x (-1) c m = Inr (True, m'))"
proof -
  have "gm_fill x (-1) c m = gm_fill (x - 1) (gm_height m - 1) c m"
    using assms(2,3) by (simp add: gm_fill_def in_map_def algebra_simps split: option.split)
  moreover obtain cs where "gm_cells m = Some cs"
      "0 \<le> (x - 1) * gm_height m + (gm_height m - 1)"
      "(x - 1) * gm_height m + (gm_height m - 1) < int (length cs)"
    using gm_wf_cell [OF assms(1,2)] .
  ultimately show ?thesis
    using assms(2) by (simp add: gm_fill_def in_map_def)
qed

theorem gm_fill_negative_aliases_witness:
  "\<exists>m'. gm_fill 1 (-1) 9 demo_map = Inr (True, m')"
proof -
  have "in_map demo_map (1 - 1) (gm_height demo_map - 1)" "1 < gm_width demo_map"
    by (simp_all add: demo_map_def in_map_def)
  then show ?thesis
    using gm_fill_negative_aliases [OF demo_map_wf(1), of 1 9] by blast
qed

end
