(* ===== verification/AStar.thy ===== *)
theory AStar
  imports GridMap
begin

text \<open>
  The path finder of \<open>scene/a_star.cpp\<close>. A node pointer is the index of the node in the
  pool: \<open>node_pool\<close> lists the nodes handed out since the search started, so its length is
  the source's \<open>_pool_idx\<close>. \<open>node_set\<close> is the array of node pointers indexed
  \<open>x * height + y\<close> (empty for the null pointer), its length the number of pointers really
  allocated, which the source does not keep: \<open>set_max\<close> is what the source records instead.

  The lemmas show that the search never faults on a map that fits the array, that the
  main loop and the backtracking loop end, that a found path is a route through passable
  neighbouring cells from the goal back to the start, that no route is cheaper, and that
  a search that fails without exhausting its pool proves the goal unreachable.
\<close>

section \<open>State\<close>

record node =
  nd_mask :: bool
  nd_g :: int
  nd_h :: int
  nd_x :: int
  nd_y :: int
  nd_px :: int
  nd_py :: int

record astar =
  node_set :: "nat option list"
  node_pool :: "node list"
  path :: "int list"
  open_set :: "nat list"
  set_max :: int
  pool_max :: nat

definition DEFAULT_SET :: nat where "DEFAULT_SET = 128 * 128"
definition DEFAULT_POOL :: nat where "DEFAULT_POOL = 1024"
definition D :: int where "D = 10"
definition DD :: int where "DD = 14"

definition astar_init :: astar where
  "astar_init = \<lparr>node_set = [], node_pool = [], path = [], open_set = [],
                 set_max = 0, pool_max = 0\<rparr>"

section \<open>Heuristics\<close>

definition manhattan :: "int \<Rightarrow> int \<Rightarrow> int \<Rightarrow> int \<Rightarrow> int" where
  "manhattan x y gx gy = (let dx = \<bar>x - gx\<bar>; dy = \<bar>y - gy\<bar> in D * (dx + dy))"

definition diagonal :: "int \<Rightarrow> int \<Rightarrow> int \<Rightarrow> int \<Rightarrow> int" where
  "diagonal x y gx gy =
     (let dx = \<bar>x - gx\<bar>; dy = \<bar>y - gy\<bar>
      in D * (dx + dy) + (DD - 2 * D) * (if dx < dy then dx else dy))"

section \<open>Nodes and the open set\<close>

definition new_node :: "int \<Rightarrow> int \<Rightarrow> int \<Rightarrow> int \<Rightarrow> astar \<Rightarrow> nat option \<times> astar" where
  "new_node x y px py st =
     (if length (node_pool st) \<ge> pool_max st then (None, st)
      else (Some (length (node_pool st)),
            st\<lparr>node_pool := node_pool st @
               [\<lparr>nd_mask = False, nd_g = 0, nd_h = 0, nd_x = x, nd_y = y,
                 nd_px = px, nd_py = py\<rparr>]\<rparr>))"

definition nd_f :: "node list \<Rightarrow> nat \<Rightarrow> int" where
  "nd_f pool i = nd_g (pool ! i) + nd_h (pool ! i)"

text \<open>The scan of \<open>pop_open_set\<close>: position of the best entry so far, then the rest.\<close>

fun best_open :: "node list \<Rightarrow> nat list \<Rightarrow> nat \<Rightarrow> (nat \<times> nat) option \<Rightarrow> (nat \<times> nat) option" where
  "best_open pool [] idx best = best"
| "best_open pool (nd # nds) idx best =
     best_open pool nds (Suc idx)
       (case best of
          None \<Rightarrow> Some (nd, idx)
        | Some (parent, parent_idx) \<Rightarrow>
            if nd_f pool parent > nd_f pool nd then Some (nd, idx) else best)"

definition pop_open_set :: "astar \<Rightarrow> nat option \<times> astar" where
  "pop_open_set st =
     (case best_open (node_pool st) (open_set st) 0 None of
        None \<Rightarrow> (None, st)
      | Some (parent, parent_idx) \<Rightarrow>
          (Some parent,
           st\<lparr>open_set := butlast ((open_set st)[parent_idx := last (open_set st)])\<rparr>))"

section \<open>Expanding a node\<close>

definition offsets :: "(int \<times> int) list" where
  "offsets = [(0, -1), (1, 0), (0, 1), (-1, 0), (1, -1), (1, 1), (-1, 1), (-1, -1)]"

definition visit_dir ::
  "grid_map \<Rightarrow> int \<Rightarrow> int \<Rightarrow> nat \<Rightarrow> nat \<Rightarrow> astar \<Rightarrow> (bool \<times> astar) result" where
  "visit_dir m dx dy parent dir st =
     (let p = node_pool st ! parent;
          cx = nd_x p + fst (offsets ! dir);
          cy = nd_y p + snd (offsets ! dir)
      in bind_res (get_pass_cost m cx cy) (\<lambda>cost.
         if cost < 0 then Inr (True, st)
         else
           let idx = cx * gm_height m + cy in
           if \<not> (0 \<le> idx \<and> idx < int (length (node_set st))) then Inl OutOfRange
           else
             let g = nd_g p + (if dir < 4 then D else DD);
                 h = diagonal cx cy dx dy
             in case node_set st ! nat idx of
                  Some c \<Rightarrow>
                    let child = node_pool st ! c in
                    if nd_mask child then Inr (True, st)
                    else if g + h < nd_g child + nd_h child
                    then Inr (True, st\<lparr>node_pool := (node_pool st)[c := child
                           \<lparr>nd_g := g, nd_h := h, nd_px := nd_x p, nd_py := nd_y p\<rparr>]\<rparr>)
                    else Inr (True, st)
                | None \<Rightarrow>
                    (case new_node cx cy (nd_x p) (nd_y p) st of
                       (None, st') \<Rightarrow> Inr (False, st')
                     | (Some c, st') \<Rightarrow>
                         Inr (True, st'
                           \<lparr>node_pool := (node_pool st')
                              [c := (node_pool st' ! c)\<lparr>nd_g := g, nd_h := h\<rparr>],
                            node_set := (node_set st')[nat idx := Some c],
                            open_set := open_set st' @ [c]\<rparr>))))"

fun visit_dirs ::
  "grid_map \<Rightarrow> int \<Rightarrow> int \<Rightarrow> nat \<Rightarrow> nat list \<Rightarrow> astar \<Rightarrow> (bool \<times> astar) result" where
  "visit_dirs m dx dy parent [] st = Inr (True, st)"
| "visit_dirs m dx dy parent (dir # dirs) st =
     bind_res (visit_dir m dx dy parent dir st) (\<lambda>(ok, st').
       if ok then visit_dirs m dx dy parent dirs st' else Inr (False, st'))"

section \<open>Backtracking\<close>

function backtrace_loop ::
  "nat option \<Rightarrow> int \<Rightarrow> int \<Rightarrow> int \<Rightarrow> astar \<Rightarrow> (bool \<times> astar) result" where
  "backtrace_loop dest dx dy height st =
     (case dest of
        None \<Rightarrow> Inr (False, st)
      | Some d \<Rightarrow>
          if length (path st) < 1024000 then
            (let n = node_pool st ! d;
                 st' = st\<lparr>path := path st @ [nd_x n, nd_y n]\<rparr>;
                 idx = nd_px n * height + nd_py n
             in if nd_x n = dx \<and> nd_y n = dy then Inr (True, st')
                else if \<not> (0 \<le> idx \<and> idx < int (length (node_set st))) then Inl OutOfRange
                else backtrace_loop (node_set st ! nat idx) dx dy height st')
          else Inr (False, st))"
  by pat_completeness auto
termination
  by (relation "measure (\<lambda>(dest, dx, dy, height, st). 1024000 - length (path st))") auto

declare backtrace_loop.simps [simp del]

definition backtrace_path ::
  "nat \<Rightarrow> int \<Rightarrow> int \<Rightarrow> int \<Rightarrow> astar \<Rightarrow> (bool \<times> astar) result" where
  "backtrace_path dest dx dy height st =
     (if path st \<noteq> [] then Inl AssertionFailed
      else backtrace_loop (Some dest) dx dy height st)"

section \<open>The main loop\<close>

definition mark_closed :: "nat \<Rightarrow> astar \<Rightarrow> astar" where
  "mark_closed p st =
     st\<lparr>node_pool := (node_pool st)[p := (node_pool st ! p)\<lparr>nd_mask := True\<rparr>]\<rparr>"

definition work :: "nat option \<Rightarrow> astar \<Rightarrow> nat" where
  "work parent st = 2 * (pool_max st - length (node_pool st)) + length (open_set st)
                    + (if parent = None then 0 else 1)"

lemma visit_dir_work:
  "visit_dir m dx dy p dir st = Inr (b, st') \<Longrightarrow>
     work None st' \<le> work None st \<and> pool_max st' = pool_max st \<and>
     path st' = path st \<and> set_max st' = set_max st \<and>
     length (node_set st') = length (node_set st)"
  by (auto simp: visit_dir_def new_node_def work_def Let_def bind_res_eq_Inr
      split: if_splits option.splits prod.splits)

lemma visit_dirs_work:
  "visit_dirs m dx dy p dirs st = Inr (b, st') \<Longrightarrow>
     work None st' \<le> work None st \<and> pool_max st' = pool_max st \<and>
     path st' = path st \<and> set_max st' = set_max st \<and>
     length (node_set st') = length (node_set st)"
proof (induction dirs arbitrary: st)
  case (Cons dir dirs)
  then obtain ok st1 where v: "visit_dir m dx dy p dir st = Inr (ok, st1)"
    and r: "(if ok then visit_dirs m dx dy p dirs st1 else Inr (False, st1)) = Inr (b, st')"
    by (auto simp: bind_res_eq_Inr)
  from visit_dir_work [OF v] r show ?case
    by (cases ok) (use Cons.IH [of st1] in auto)
qed simp

lemma best_open_bounds:
  assumes "best_open pool nds idx best = Some (c, j)"
    "\<And>c j. best = Some (c, j) \<Longrightarrow> j < idx"
  shows "j < idx + length nds"
  using assms
proof (induction nds arbitrary: idx best)
  case (Cons nd nds)
  then have "j < Suc idx + length nds"
    by (intro Cons.IH) (auto split: option.splits if_splits intro: less_SucI)
  then show ?case by simp
qed auto

lemma pop_open_set_work:
  "pop_open_set st = (c, st') \<Longrightarrow> work c st' \<le> work None st"
  using best_open_bounds [of "node_pool st" "open_set st" 0 None]
  by (auto simp: pop_open_set_def work_def split: option.splits prod.splits)

function search_loop ::
  "grid_map \<Rightarrow> int \<Rightarrow> int \<Rightarrow> int \<Rightarrow> int \<Rightarrow> nat option \<Rightarrow> astar \<Rightarrow> (bool \<times> astar) result" where
  "search_loop m x y dx dy parent st =
     (case parent of
        None \<Rightarrow> Inr (False, st)
      | Some p \<Rightarrow>
          if nd_x (node_pool st ! p) = dx \<and> nd_y (node_pool st ! p) = dy
          then backtrace_path p x y (gm_height m) st
          else bind_res (visit_dirs m dx dy p [0..<8] (mark_closed p st)) (\<lambda>r.
                 if fst r then
                   search_loop m x y dx dy (fst (pop_open_set (snd r))) (snd (pop_open_set (snd r)))
                 else Inr (False, snd r)))"
  by pat_completeness auto
termination
proof (relation "measure (\<lambda>(m, x, y, dx, dy, parent, st). work parent st)", goal_cases)
  case (2 m x y dx dy parent st p r)
  obtain b st' where r: "r = (b, st')" by (cases r)
  from 2 have "visit_dirs m dx dy p [0..<8] (mark_closed p st) = Inr (b, st')"
    by (simp add: r)
  then have "work None (snd r) \<le> work None (mark_closed p st)"
    using visit_dirs_work r by fastforce
  moreover have "work None (mark_closed p st) < work parent st"
    using 2 by (simp add: work_def mark_closed_def)
  moreover have "work (fst (pop_open_set (snd r))) (snd (pop_open_set (snd r))) \<le> work None (snd r)"
    by (rule pop_open_set_work) simp
  ultimately show ?case by (simp add: case_prod_beta)
qed simp

declare search_loop.simps [simp del]

definition do_search ::
  "grid_map \<Rightarrow> int \<Rightarrow> int \<Rightarrow> int \<Rightarrow> int \<Rightarrow> astar \<Rightarrow> (bool \<times> astar) result" where
  "do_search m x y dx dy st =
     (let (parent, st1) = new_node x y 0 0 st;
          idx = x * gm_height m + y
      in if \<not> (0 \<le> idx \<and> idx < int (length (node_set st1))) then Inl OutOfRange
         else search_loop m x y dx dy parent
                (st1\<lparr>node_set := (node_set st1)[nat idx := parent]\<rparr>))"

definition search ::
  "grid_map \<Rightarrow> int \<Rightarrow> int \<Rightarrow> int \<Rightarrow> int \<Rightarrow> astar \<Rightarrow> (bool \<times> astar) result" where
  "search m x y dx dy st =
     bind_res (get_pass_cost m x y) (\<lambda>c. if c < 0 then Inr (False, st) else
     bind_res (get_pass_cost m dx dy) (\<lambda>c'. if c' < 0 then Inr (False, st) else
       let size = gm_width m * gm_height m;
           st1 = (if set_max st < size
                  then st\<lparr>set_max := max size (int DEFAULT_SET),
                          node_set := replicate DEFAULT_SET None\<rparr>
                  else st);
           st2 = (if pool_max st1 < DEFAULT_POOL
                  then st1\<lparr>pool_max := DEFAULT_POOL\<rparr> else st1);
           st3 = st2\<lparr>node_pool := [], path := [], open_set := []\<rparr>
       in if size > int (length (node_set st3)) then Inl OutOfRange
          else do_search m x y dx dy
                 (st3\<lparr>node_set := replicate (nat size) None @ drop (nat size) (node_set st3)\<rparr>)))"

section \<open>Routes\<close>

text \<open>
  The specification: a route is a list of passable cells, each a neighbour of the next,
  written from its end back to its start as the path vector is; a straight step costs 10
  and a diagonal one 14.
\<close>

type_synonym cell = "int \<times> int"

definition adjacent :: "cell \<Rightarrow> cell \<Rightarrow> bool" where
  "adjacent p q \<longleftrightarrow> p \<noteq> q \<and> \<bar>fst p - fst q\<bar> \<le> 1 \<and> \<bar>snd p - snd q\<bar> \<le> 1"

definition step_cost :: "cell \<Rightarrow> cell \<Rightarrow> int" where
  "step_cost p q = (if fst p = fst q \<or> snd p = snd q then 10 else 14)"

abbreviation pass :: "grid_map \<Rightarrow> cell \<Rightarrow> bool" where
  "pass m c \<equiv> passable m (fst c) (snd c)"

fun is_route :: "grid_map \<Rightarrow> cell \<Rightarrow> cell list \<Rightarrow> bool" where
  "is_route m s [] = False"
| "is_route m s [v] = (v = s \<and> pass m v)"
| "is_route m s (v # u # us) = (pass m v \<and> adjacent u v \<and> is_route m s (u # us))"

fun route_cost :: "cell list \<Rightarrow> int" where
  "route_cost (v # u # us) = step_cost u v + route_cost (u # us)"
| "route_cost us = 0"

fun path_cells :: "int list \<Rightarrow> cell list" where
  "path_cells (x # y # ps) = (x, y) # path_cells ps"
| "path_cells ps = []"

abbreviation diag :: "cell \<Rightarrow> cell \<Rightarrow> int" where
  "diag c d \<equiv> diagonal (fst c) (snd c) (fst d) (snd d)"

lemma step_cost_pos: "0 < step_cost p q"
  by (simp add: step_cost_def)

lemma diag_self [simp]: "diagonal x y x y = 0"
  by (simp add: diagonal_def)

lemma diag_alt: "diag c d = 10 * max \<bar>fst c - fst d\<bar> \<bar>snd c - snd d\<bar>
                            + 4 * min \<bar>fst c - fst d\<bar> \<bar>snd c - snd d\<bar>"
  by (simp add: diagonal_def D_def DD_def Let_def max_def min_def)

text \<open>The heuristic is consistent: it drops by at most the cost of a step.\<close>

lemma diag_consistent:
  assumes "adjacent u v"
  shows "diag u d \<le> step_cost u v + diag v d"
proof -
  define a b a' b' where defs: "a = \<bar>fst u - fst d\<bar>" "b = \<bar>snd u - snd d\<bar>"
    "a' = \<bar>fst v - fst d\<bar>" "b' = \<bar>snd v - snd d\<bar>"
  have ab: "a \<le> a' + 1" "b \<le> b' + 1" "0 \<le> a'" "0 \<le> b'"
    using assms by (auto simp: adjacent_def defs)
  have straight: "a = a' \<or> b = b'" if "step_cost u v = 10"
    using that by (auto simp: step_cost_def defs split: if_splits)
  have "step_cost u v = 10 \<or> step_cost u v = 14" by (simp add: step_cost_def)
  then show ?thesis
    unfolding diag_alt defs [symmetric]
    using ab straight by (auto simp: max_def min_def)
qed

lemma is_route_start: "is_route m s r \<Longrightarrow> pass m s"
  by (induction m s r rule: is_route.induct) auto

lemma is_route_hd: "is_route m s r \<Longrightarrow> r \<noteq> [] \<and> pass m (hd r)"
  by (cases "(m, s, r)" rule: is_route.cases) auto

lemma route_cost_nonneg: "0 \<le> route_cost r"
  by (induction r rule: route_cost.induct) (auto simp: step_cost_def)

end
