(* ===== verification/AStarCorrect.thy ===== *)
theory AStarCorrect
  imports AStar
begin

text \<open>
  Correctness of the path finder: the invariant of the main loop (the pool and the array
  agree, parents are closed, closed nodes have their optimal cost, every neighbour of a
  closed node has been relaxed against it), and what follows for \<open>search\<close>.
\<close>

section \<open>Reading the state by cell\<close>

abbreviation npool :: "astar \<Rightarrow> nat \<Rightarrow> node" where
  "npool st i \<equiv> node_pool st ! i"

abbreviation npos :: "node \<Rightarrow> cell" where
  "npos n \<equiv> (nd_x n, nd_y n)"

definition lookup :: "grid_map \<Rightarrow> astar \<Rightarrow> cell \<Rightarrow> nat option" where
  "lookup m st c = node_set st ! nat (fst c * gm_height m + snd c)"

abbreviation nodes :: "astar \<Rightarrow> nat set" where
  "nodes st \<equiv> {..<length (node_pool st)}"

definition shape :: "grid_map \<Rightarrow> astar \<Rightarrow> bool" where
  "shape m st \<longleftrightarrow>
     gm_width m * gm_height m \<le> int (length (node_set st)) \<and>
     (\<forall>i \<in> nodes st. pass m (npos (npool st i)) \<and> lookup m st (npos (npool st i)) = Some i) \<and>
     (\<forall>c i. in_map m (fst c) (snd c) \<longrightarrow> lookup m st c = Some i \<longrightarrow>
        i \<in> nodes st \<and> npos (npool st i) = c)"

definition parents :: "cell \<Rightarrow> cell \<Rightarrow> astar \<Rightarrow> bool" where
  "parents s d st \<longleftrightarrow>
     0 \<in> nodes st \<and> npos (npool st 0) = s \<and> nd_g (npool st 0) = 0 \<and>
     (\<forall>i \<in> nodes st. i \<noteq> 0 \<longrightarrow>
        nd_h (npool st i) = diag (npos (npool st i)) d \<and>
        (\<exists>j \<in> nodes st. nd_mask (npool st j) \<and>
           npos (npool st j) = (nd_px (npool st i), nd_py (npool st i)) \<and>
           adjacent (npos (npool st j)) (npos (npool st i)) \<and>
           nd_g (npool st i) =
             nd_g (npool st j) + step_cost (npos (npool st j)) (npos (npool st i))))"

definition cheapest :: "grid_map \<Rightarrow> cell \<Rightarrow> astar \<Rightarrow> nat \<Rightarrow> bool" where
  "cheapest m s st i \<longleftrightarrow>
     (\<forall>r. is_route m s r \<longrightarrow> hd r = npos (npool st i) \<longrightarrow> nd_g (npool st i) \<le> route_cost r)"

definition relaxed :: "grid_map \<Rightarrow> astar \<Rightarrow> nat \<Rightarrow> cell \<Rightarrow> bool" where
  "relaxed m st i v \<longleftrightarrow>
     (\<exists>k \<in> nodes st. npos (npool st k) = v \<and>
        nd_g (npool st k) \<le> nd_g (npool st i) + step_cost (npos (npool st i)) v)"

definition closed_relaxed :: "grid_map \<Rightarrow> astar \<Rightarrow> nat set \<Rightarrow> bool" where
  "closed_relaxed m st I \<longleftrightarrow>
     (\<forall>i \<in> I. \<forall>v. adjacent (npos (npool st i)) v \<longrightarrow> pass m v \<longrightarrow> relaxed m st i v)"

definition closed :: "astar \<Rightarrow> nat set" where
  "closed st = {i \<in> nodes st. nd_mask (npool st i)}"

text \<open>The invariant while the neighbours of \<open>p\<close> are being visited.\<close>

definition visiting :: "grid_map \<Rightarrow> cell \<Rightarrow> cell \<Rightarrow> nat \<Rightarrow> astar \<Rightarrow> bool" where
  "visiting m s d p st \<longleftrightarrow>
     shape m st \<and> parents s d st \<and> distinct (open_set st) \<and>
     set (open_set st) = nodes st - closed st \<and> p \<in> closed st \<and> 0 \<in> closed st \<and>
     (\<forall>i \<in> closed st. cheapest m s st i) \<and>
     closed_relaxed m st (closed st - {p})"

text \<open>The invariant at the head of the loop, with \<open>p\<close> the node just taken.\<close>

definition at_head :: "grid_map \<Rightarrow> cell \<Rightarrow> cell \<Rightarrow> nat \<Rightarrow> astar \<Rightarrow> bool" where
  "at_head m s d p st \<longleftrightarrow>
     shape m st \<and> parents s d st \<and> distinct (open_set st) \<and>
     p \<in> nodes st - closed st \<and> set (open_set st) = nodes st - closed st - {p} \<and>
     (p = 0 \<or> 0 \<in> closed st) \<and>
     (\<forall>i \<in> insert p (closed st). cheapest m s st i) \<and>
     closed_relaxed m st (closed st)"

lemma shape_index:
  assumes "shape m st" "in_map m (fst c) (snd c)"
  shows "0 \<le> fst c * gm_height m + snd c"
    "fst c * gm_height m + snd c < int (length (node_set st))"
  using cell_index_bounds [of "fst c" "gm_width m" "snd c" "gm_height m"] assms
  by (auto simp: shape_def in_map_def)

lemma lookup_update:
  assumes "shape m st" "in_map m (fst c) (snd c)" "in_map m (fst c') (snd c')"
  shows "lookup m (st\<lparr>node_set := (node_set st)[nat (fst c * gm_height m + snd c) := v]\<rparr>) c'
         = (if c' = c then v else lookup m st c')"
proof -
  have "nat (fst c * gm_height m + snd c) = nat (fst c' * gm_height m + snd c') \<longleftrightarrow> c = c'"
    using eq_nat_nat_iff [OF shape_index(1) [OF assms(1,2)] shape_index(1) [OF assms(1,3)]]
      cell_index_inj [of "snd c" "gm_height m" "snd c'" "fst c" "fst c'"] assms(2,3)
    by (auto simp: in_map_def prod_eq_iff)
  then show ?thesis
    using shape_index [OF assms(1,2)] shape_index [OF assms(1,3)]
    by (auto simp: lookup_def nth_list_update)
qed

lemma shape_inj:
  assumes "shape m st" "i \<in> nodes st" "j \<in> nodes st" "npos (npool st i) = npos (npool st j)"
  shows "i = j"
  using assms unfolding shape_def by (metis option.inject)

lemma get_pass_cost_cases:
  assumes "gm_wf m"
  obtains (blocked) c where "get_pass_cost m x y = Inr c" "c < 0" "\<not> passable m x y"
        | (free) c where "get_pass_cost m x y = Inr c" "0 \<le> c" "passable m x y"
proof -
  obtain c where c: "get_pass_cost m x y = Inr c"
    using get_pass_cost_ok [OF assms] by blast
  show thesis
    by (cases "c < 0") (use c blocked free in \<open>simp_all add: passable_def\<close>)
qed

lemma get_pass_cost_iff:
  "gm_wf m \<Longrightarrow> \<exists>c. get_pass_cost m x y = Inr c \<and> (c < 0 \<longleftrightarrow> \<not> passable m x y)"
  by (rule get_pass_cost_cases [of m x y]) auto

lemma passableD: "passable m x y \<Longrightarrow> \<exists>c. get_pass_cost m x y = Inr c \<and> 0 \<le> c"
  by (auto simp: passable_def split: sum.splits)

section \<open>One direction\<close>

text \<open>The node of the neighbour as it is stored after a relaxation.\<close>

definition child_node :: "node \<Rightarrow> cell \<Rightarrow> cell \<Rightarrow> node" where
  "child_node p v d =
     \<lparr>nd_mask = False, nd_g = nd_g p + step_cost (npos p) v, nd_h = diag v d,
      nd_x = fst v, nd_y = snd v, nd_px = nd_x p, nd_py = nd_y p\<rparr>"

definition dir_cell :: "node \<Rightarrow> nat \<Rightarrow> cell" where
  "dir_cell p dir = (nd_x p + fst (offsets ! dir), nd_y p + snd (offsets ! dir))"

lemma dir_cases:
  "dir < 8 \<Longrightarrow> dir = 0 \<or> dir = 1 \<or> dir = 2 \<or> dir = 3 \<or> dir = 4 \<or> dir = 5 \<or> dir = 6 \<or> dir = (7::nat)"
  by presburger

lemma dir_cell_adjacent:
  assumes "dir < 8"
  shows "adjacent (npos p) (dir_cell p dir)"
    "step_cost (npos p) (dir_cell p dir) = (if dir < 4 then D else DD)"
  using dir_cases [OF assms]
  by (auto simp: dir_cell_def offsets_def adjacent_def step_cost_def D_def DD_def)

lemma adjacent_dir:
  assumes "adjacent (npos p) v"
  shows "\<exists>dir < 8. v = dir_cell p dir"
proof -
  obtain a b where v: "v = (nd_x p + a, nd_y p + b)"
    by (metis add.commute diff_add_cancel surj_pair)
  with assms have ab: "(a, b) \<noteq> (0, 0)" "\<bar>a\<bar> \<le> 1" "\<bar>b\<bar> \<le> 1"
    by (auto simp: adjacent_def)
  then have "a = -1 \<or> a = 0 \<or> a = 1" "b = -1 \<or> b = 0 \<or> b = 1" by arith+
  with ab(1) have "(a, b) \<in> set offsets" by (auto simp: offsets_def)
  then obtain dir where "dir < length offsets" "offsets ! dir = (a, b)"
    by (metis in_set_conv_nth)
  then show ?thesis
    using v by (auto simp: dir_cell_def offsets_def intro!: exI [of _ dir])
qed

text \<open>\<open>visit_dir\<close> as a case distinction, on states of the right shape.\<close>

lemma visit_dir_eq:
  assumes wf: "gm_wf m" and sh: "shape m st" and dir: "dir < 8"
    and p_def: "p = npool st parent" and v_def: "v = dir_cell p dir"
  shows "visit_dir m (fst d) (snd d) parent dir st =
     (if \<not> pass m v then Inr (True, st)
      else case lookup m st v of
        Some c \<Rightarrow>
          if nd_mask (npool st c) then Inr (True, st)
          else if nd_g p + step_cost (npos p) v + diag v d
                  < nd_g (npool st c) + nd_h (npool st c)
          then Inr (True, st\<lparr>node_pool := (node_pool st)[c := child_node p v d]\<rparr>)
          else Inr (True, st)
      | None \<Rightarrow>
          if pool_max st \<le> length (node_pool st) then Inr (False, st)
          else Inr (True, st\<lparr>node_pool := node_pool st @ [child_node p v d],
                 node_set := (node_set st)
                   [nat (fst v * gm_height m + snd v) := Some (length (node_pool st))],
                 open_set := open_set st @ [length (node_pool st)]\<rparr>))"
proof -
  have v: "fst v = nd_x p + fst (offsets ! dir)" "snd v = nd_y p + snd (offsets ! dir)"
    by (simp_all add: v_def dir_cell_def)
  have cost: "(if dir < 4 then D else DD) = step_cost (npos p) v"
    using dir_cell_adjacent(2) [OF dir, of p] by (simp add: v_def)
  show ?thesis
  proof (rule get_pass_cost_cases [OF wf, of "fst v" "snd v"], goal_cases blocked free)
    case (blocked c)
    then show ?thesis
      by (simp add: visit_dir_def Let_def p_def [symmetric] v [symmetric])
  next
    case (free c)
    have im: "in_map m (fst v) (snd v)" using free(3) by (rule passable_in_map)
    note idx = shape_index [OF sh im]
    show ?thesis
    proof (cases "lookup m st v")
      case None
      then show ?thesis
        using free idx
        by (simp add: visit_dir_def Let_def p_def [symmetric] v [symmetric] cost
            lookup_def new_node_def child_node_def)
    next
      case (Some ch)
      then have "npos (npool st ch) = v" using sh im by (auto simp: shape_def)
      then have "(npool st ch)\<lparr>nd_g := g, nd_h := h, nd_px := px, nd_py := py\<rparr>
          = \<lparr>nd_mask = nd_mask (npool st ch), nd_g = g, nd_h = h, nd_x = fst v, nd_y = snd v,
             nd_px = px, nd_py = py\<rparr>" for g h px py
        by auto
      then show ?thesis
        using free idx Some
        by (simp add: visit_dir_def Let_def p_def [symmetric] v [symmetric] cost
            lookup_def child_node_def)
    qed
  qed
qed

text \<open>
  What visiting a neighbour may change: a closed node stays as it is, an open one keeps its
  cell and its cost only drops.
\<close>

definition evolves :: "astar \<Rightarrow> astar \<Rightarrow> bool" where
  "evolves st st' \<longleftrightarrow>
     nodes st \<subseteq> nodes st' \<and> closed st' = closed st \<and>
     (\<forall>i \<in> nodes st. npos (npool st' i) = npos (npool st i) \<and>
        nd_g (npool st' i) \<le> nd_g (npool st i)) \<and>
     (\<forall>i \<in> closed st. npool st' i = npool st i)"

lemma evolves_refl [simp]: "evolves st st"
  by (simp add: evolves_def)

lemma evolvesD:
  assumes "evolves st st'"
  shows "i \<in> nodes st \<Longrightarrow> i \<in> nodes st'" "closed st' = closed st"
    "i \<in> nodes st \<Longrightarrow> npos (npool st' i) = npos (npool st i)"
    "i \<in> nodes st \<Longrightarrow> nd_g (npool st' i) \<le> nd_g (npool st i)"
    "i \<in> closed st \<Longrightarrow> npool st' i = npool st i"
  using assms by (auto simp: evolves_def)

lemma evolves_trans:
  assumes ab: "evolves a b" and bc: "evolves b c"
  shows "evolves a c"
  unfolding evolves_def
proof (intro conjI ballI subsetI)
  fix i assume i: "i \<in> nodes a"
  note b = evolvesD [OF ab] and c = evolvesD [OF bc]
  from b(1) [OF i] show "i \<in> nodes c" by (rule c(1))
  show "npos (npool c i) = npos (npool a i)" using b(3) [OF i] c(3) [OF b(1) [OF i]] by simp
  show "nd_g (npool c i) \<le> nd_g (npool a i)"
    using b(4) [OF i] c(4) [OF b(1) [OF i]] by linarith
next
  show "closed c = closed a" using evolvesD(2) [OF ab] evolvesD(2) [OF bc] by simp
  fix i assume "i \<in> closed a"
  then show "npool c i = npool a i"
    using evolvesD(5) [OF ab, of i] evolvesD(5) [OF bc, of i] evolvesD(2) [OF ab] by simp
qed

lemma evolves_relaxed:
  assumes "evolves st st'" "relaxed m st i v" "i \<in> closed st"
  shows "relaxed m st' i v"
proof -
  obtain k where k: "k \<in> nodes st" "npos (npool st k) = v"
      "nd_g (npool st k) \<le> nd_g (npool st i) + step_cost (npos (npool st i)) v"
    using assms(2) unfolding relaxed_def by blast
  note e = evolvesD [OF assms(1)]
  have "nd_g (npool st' k) \<le> nd_g (npool st i) + step_cost (npos (npool st i)) v"
    using e(4) [OF k(1)] k(3) by linarith
  then show ?thesis
    unfolding relaxed_def e(5) [OF assms(3)] using e(1,3) [OF k(1)] k(2) by metis
qed

lemma evolves_closed_relaxed:
  assumes "evolves st st'" "closed_relaxed m st I" "I \<subseteq> closed st"
  shows "closed_relaxed m st' I"
  unfolding closed_relaxed_def
proof (intro ballI allI impI)
  fix i v assume i: "i \<in> I" and v: "adjacent (npos (npool st' i)) v" "pass m v"
  then have cl: "i \<in> closed st" using assms(3) by blast
  then have "relaxed m st i v"
    using assms(2) i v evolvesD(5) [OF assms(1) cl]
    by (simp add: closed_relaxed_def del: split_paired_All)
  then show "relaxed m st' i v" using evolves_relaxed [OF assms(1) _ cl] by blast
qed

lemma evolves_cheapest:
  assumes "evolves st st'" "cheapest m s st i" "i \<in> closed st"
  shows "cheapest m s st' i"
  using assms by (auto simp: evolves_def cheapest_def)

lemma closed_nodes: "closed st \<subseteq> nodes st"
  by (auto simp: closed_def)

lemma visiting_relax:
  assumes vis: "visiting m s d p st" and c: "c \<in> nodes st - closed st"
    and v: "npos (npool st c) = v" and adj: "adjacent (npos (npool st p)) v"
    and le: "nd_g (npool st p) + step_cost (npos (npool st p)) v \<le> nd_g (npool st c)"
    and st': "st' = st\<lparr>node_pool := (node_pool st)[c := child_node (npool st p) v d]\<rparr>"
  shows "visiting m s d p st' \<and> evolves st st' \<and> relaxed m st' p v"
proof -
  have n: "nodes st' = nodes st" by (simp add: st')
  have pool: "npool st' i = (if i = c then child_node (npool st p) v d else npool st i)"
    if "i \<in> nodes st" for i using that by (simp add: st')
  have pos: "npos (npool st' i) = npos (npool st i)" if "i \<in> nodes st" for i
    using pool [OF that] v by (auto simp: child_node_def)
  have cl: "closed st' = closed st"
    using c pool by (auto simp: closed_def n child_node_def split: if_splits)
  have same: "npool st' i = npool st i" if "i \<in> closed st" for i
    using pool [of i] that c closed_nodes [of st] by auto
  have ev: "evolves st st'"
    using pos pool le by (auto simp: evolves_def n cl same child_node_def)
  have look: "lookup m st' x = lookup m st x" for x by (simp add: lookup_def st')
  have pc: "p \<in> closed st" "0 \<in> closed st" using vis by (auto simp: visiting_def)
  have shape': "shape m st'"
    using vis pos unfolding visiting_def shape_def n look by (simp add: st')
  have "parents s d st'"
    unfolding parents_def n
  proof (intro conjI ballI impI)
    show "0 \<in> nodes st" "npos (npool st' 0) = s" "nd_g (npool st' 0) = 0"
      using vis same [OF pc(2)] by (simp_all add: visiting_def parents_def)
    fix i assume i: "i \<in> nodes st" "i \<noteq> 0"
    show "nd_h (npool st' i) = diag (npos (npool st' i)) d"
    proof (cases "i = c")
      case True
      then show ?thesis using pool [OF i(1)] by (simp add: child_node_def)
    next
      case False
      then show ?thesis using pool [OF i(1)] vis i by (auto simp: visiting_def parents_def)
    qed
    show "\<exists>j\<in>nodes st. nd_mask (npool st' j) \<and>
        npos (npool st' j) = (nd_px (npool st' i), nd_py (npool st' i)) \<and>
        adjacent (npos (npool st' j)) (npos (npool st' i)) \<and>
        nd_g (npool st' i) =
          nd_g (npool st' j) + step_cost (npos (npool st' j)) (npos (npool st' i))"
    proof (cases "i = c")
      case True
      then show ?thesis
        using pool [OF i(1)] same [OF pc(1)] pc(1) adj closed_nodes
        by (intro bexI [of _ p]) (auto simp: child_node_def closed_def)
    next
      case False
      obtain j where "j \<in> nodes st" "nd_mask (npool st j)"
        "npos (npool st j) = (nd_px (npool st i), nd_py (npool st i))"
        "adjacent (npos (npool st j)) (npos (npool st i))"
        "nd_g (npool st i) = nd_g (npool st j) + step_cost (npos (npool st j)) (npos (npool st i))"
        using vis i unfolding visiting_def parents_def by blast
      then show ?thesis
        using pool [OF i(1)] False same [of j] by (intro bexI [of _ j]) (auto simp: closed_def)
    qed
  qed
  then have "visiting m s d p st'"
    using vis shape' evolves_cheapest [OF ev] evolves_closed_relaxed [OF ev]
    unfolding visiting_def cl n by (auto simp: st')
  moreover have "relaxed m st' p v"
    unfolding relaxed_def n using c v pos [of c] pool [of c] same [OF pc(1)]
    by (intro bexI [of _ c]) (auto simp: child_node_def)
  ultimately show ?thesis using ev by simp
qed

lemma visiting_add:
  assumes vis: "visiting m s d p st" and v: "pass m v" and none: "lookup m st v = None"
    and adj: "adjacent (npos (npool st p)) v"
    and st': "st' = st\<lparr>node_pool := node_pool st @ [child_node (npool st p) v d],
                 node_set := (node_set st)
                   [nat (fst v * gm_height m + snd v) := Some (length (node_pool st))],
                 open_set := open_set st @ [length (node_pool st)]\<rparr>"
  shows "visiting m s d p st' \<and> evolves st st' \<and> relaxed m st' p v"
proof -
  let ?c = "length (node_pool st)"
  have n: "nodes st' = insert ?c (nodes st)" by (auto simp: st')
  have old: "npool st' i = npool st i" if "i \<in> nodes st" for i
    using that by (simp add: st' nth_append)
  have new: "npool st' ?c = child_node (npool st p) v d" by (simp add: st')
  have cl: "closed st' = closed st"
    using old new by (auto simp: closed_def n child_node_def)
  have ev: "evolves st st'"
    using old closed_nodes by (auto simp: evolves_def n cl)
  have im: "in_map m (fst v) (snd v)" using v by (rule passable_in_map)
  have sh: "shape m st" using vis by (simp add: visiting_def)
  have look: "lookup m st' x = (if x = v then Some ?c else lookup m st x)"
    if "in_map m (fst x) (snd x)" for x
    using lookup_update [OF sh im that, of "Some ?c"] by (simp add: st' lookup_def)
  have pc: "p \<in> closed st" "0 \<in> closed st" using vis by (auto simp: visiting_def)
  have shape': "shape m st'"
    unfolding shape_def
  proof (intro conjI ballI allI impI)
    show "gm_width m * gm_height m \<le> int (length (node_set st'))"
      using sh by (simp add: shape_def st')
  next
    fix i assume i: "i \<in> nodes st'"
    show "pass m (npos (npool st' i))"
      using i sh old new v by (auto simp: n shape_def child_node_def)
    show "lookup m st' (npos (npool st' i)) = Some i"
    proof (cases "i = ?c")
      case True
      then show ?thesis using look [OF im] new by (simp add: child_node_def)
    next
      case False
      then have i: "i \<in> nodes st" using i n by blast
      then have p: "pass m (npos (npool st i))" "lookup m st (npos (npool st i)) = Some i"
        using sh by (auto simp: shape_def)
      with none have "npos (npool st i) \<noteq> v" by auto
      then show ?thesis using look [OF passable_in_map [OF p(1)]] p(2) old [OF i] by simp
    qed
  next
    fix x i assume x: "in_map m (fst x) (snd x)" "lookup m st' x = Some i"
    show "i \<in> nodes st'" "npos (npool st' i) = x"
    proof (atomize (full), cases "x = v")
      case True
      then have "i = ?c" using x look [OF im] by simp
      then show "i \<in> nodes st' \<and> npos (npool st' i) = x" using True new n by (simp add: child_node_def)
    next
      case False
      then have "lookup m st x = Some i" using x look by simp
      then have "i \<in> nodes st \<and> npos (npool st i) = x" using sh x(1) by (auto simp: shape_def)
      then show "i \<in> nodes st' \<and> npos (npool st' i) = x" using old n by auto
    qed
  qed
  have par: "parents s d st" using vis by (simp add: visiting_def)
  have "parents s d st'"
    unfolding parents_def n
  proof (intro conjI ballI impI)
    show "0 \<in> insert ?c (nodes st)" "npos (npool st' 0) = s" "nd_g (npool st' 0) = 0"
      using par old [of 0] by (auto simp: parents_def)
    fix i assume i: "i \<in> insert ?c (nodes st)" "i \<noteq> 0"
    show "nd_h (npool st' i) = diag (npos (npool st' i)) d"
      using i old new par by (auto simp: child_node_def parents_def)
    show "\<exists>j\<in>insert ?c (nodes st). nd_mask (npool st' j) \<and>
        npos (npool st' j) = (nd_px (npool st' i), nd_py (npool st' i)) \<and>
        adjacent (npos (npool st' j)) (npos (npool st' i)) \<and>
        nd_g (npool st' i) =
          nd_g (npool st' j) + step_cost (npos (npool st' j)) (npos (npool st' i))"
    proof (cases "i = ?c")
      case True
      then show ?thesis
        using new old [of p] pc(1) adj closed_nodes
        by (intro bexI [of _ p]) (auto simp: child_node_def closed_def)
    next
      case False
      then have i': "i \<in> nodes st" using i by blast
      obtain j where "j \<in> nodes st" "nd_mask (npool st j)"
        "npos (npool st j) = (nd_px (npool st i), nd_py (npool st i))"
        "adjacent (npos (npool st j)) (npos (npool st i))"
        "nd_g (npool st i) = nd_g (npool st j) + step_cost (npos (npool st j)) (npos (npool st i))"
        using par i' i(2) unfolding parents_def by blast
      then show ?thesis using old [OF i'] old [of j] by (intro bexI [of _ j]) auto
    qed
  qed
  moreover have "?c \<notin> closed st" using closed_nodes [of st] by auto
  ultimately have "visiting m s d p st'"
    using vis shape' evolves_cheapest [OF ev] evolves_closed_relaxed [OF ev]
    unfolding visiting_def cl n by (auto simp: st')
  moreover have "relaxed m st' p v"
    unfolding relaxed_def n
    using new old [of p] closed_nodes [THEN subsetD, OF pc(1)]
    by (intro bexI [of _ ?c]) (auto simp: child_node_def)
  ultimately show ?thesis using ev by simp
qed

text \<open>Every node is the end of a route that costs exactly its \<open>g\<close>.\<close>

lemma node_route:
  assumes sh: "shape m st" and par: "parents s d st" and i: "i \<in> nodes st"
  shows "\<exists>r. is_route m s r \<and> hd r = npos (npool st i) \<and> route_cost r = nd_g (npool st i)"
  using i
proof (induction "card {k \<in> nodes st. nd_g (npool st k) < nd_g (npool st i)}"
    arbitrary: i rule: less_induct)
  case less
  have pi: "pass m (npos (npool st i))" using sh less.prems by (auto simp: shape_def)
  show ?case
  proof (cases "i = 0")
    case True
    then show ?thesis
      using par pi by (intro exI [of _ "[npos (npool st i)]"]) (auto simp: parents_def)
  next
    case False
    then obtain j where j: "j \<in> nodes st" "adjacent (npos (npool st j)) (npos (npool st i))"
        "nd_g (npool st i) = nd_g (npool st j) + step_cost (npos (npool st j)) (npos (npool st i))"
      using par less.prems unfolding parents_def by blast
    then have lt: "nd_g (npool st j) < nd_g (npool st i)"
      using step_cost_pos [of "npos (npool st j)" "npos (npool st i)"] by linarith
    have "{k \<in> nodes st. nd_g (npool st k) < nd_g (npool st j)}
        \<subset> {k \<in> nodes st. nd_g (npool st k) < nd_g (npool st i)}"
      using lt j(1) by auto
    then have "card {k \<in> nodes st. nd_g (npool st k) < nd_g (npool st j)}
        < card {k \<in> nodes st. nd_g (npool st k) < nd_g (npool st i)}"
      by (intro psubset_card_mono) auto
    then obtain r where r: "is_route m s r" "hd r = npos (npool st j)"
        "route_cost r = nd_g (npool st j)"
      using less.hyps j(1) by blast
    then obtain us where us: "r = npos (npool st j) # us"
      using is_route_hd [OF r(1)] by (metis list.collapse)
    show ?thesis
      using r j pi by (intro exI [of _ "npos (npool st i) # r"]) (simp add: us)
  qed
qed

lemma cheapest_closed_relaxed:
  assumes vis: "visiting m s d p st" and p: "p \<in> nodes st" and c: "c \<in> nodes st"
    and v: "npos (npool st c) = v" and cc: "c \<in> closed st"
    and adj: "adjacent (npos (npool st p)) v" and pv: "pass m v"
  shows "relaxed m st p v"
proof -
  obtain r where r: "is_route m s r" "hd r = npos (npool st p)" "route_cost r = nd_g (npool st p)"
    using node_route [of m st s d p] vis p by (auto simp: visiting_def)
  then obtain us where us: "r = npos (npool st p) # us"
    using is_route_hd [OF r(1)] by (metis list.collapse)
  then have "is_route m s (v # r)" "hd (v # r) = npos (npool st c)"
    using r adj pv v by simp_all
  then have "nd_g (npool st c) \<le> route_cost (v # r)"
    using vis cc unfolding visiting_def cheapest_def by blast
  then show ?thesis
    unfolding relaxed_def using c v r us by (intro bexI [of _ c]) simp_all
qed

lemma visit_dir_visiting:
  assumes wf: "gm_wf m" and vis: "visiting m s d p st" and dir: "dir < 8"
    and run: "visit_dir m (fst d) (snd d) p dir st = Inr (b, st')"
  shows "visiting m s d p st' \<and> evolves st st' \<and>
    (if b then pass m (dir_cell (npool st p) dir) \<longrightarrow> relaxed m st' p (dir_cell (npool st p) dir)
     else pool_max st \<le> length (node_pool st') \<and> (\<exists>v. pass m v \<and> lookup m st' v = None))"
proof -
  let ?p = "npool st p"
  let ?v = "dir_cell ?p dir"
  have sh: "shape m st" and pc: "p \<in> closed st" using vis by (auto simp: visiting_def)
  have adj: "adjacent (npos ?p) ?v" by (rule dir_cell_adjacent(1) [OF dir])
  note run = run [unfolded visit_dir_eq [OF wf sh dir refl refl]]
  show ?thesis
  proof (cases "pass m ?v")
    case False
    then show ?thesis using run vis by auto
  next
    case True
    show ?thesis
    proof (cases "lookup m st ?v")
      case None
      with True have "\<exists>v. pass m v \<and> lookup m st v = None" by blast
      then show ?thesis
        using run vis True None visiting_add [OF vis True None adj refl]
        by (auto split: if_splits simp del: split_paired_Ex)
    next
      case (Some c)
      then have c: "c \<in> nodes st" "npos (npool st c) = ?v"
        using sh passable_in_map [OF True] by (auto simp: shape_def)
      show ?thesis
      proof (cases "nd_mask (npool st c)")
        case True
        then have cc: "c \<in> closed st" using c by (simp add: closed_def)
        show ?thesis
        proof (cases "c = p")
          case True
          then show ?thesis using c(2) adj by (simp add: adjacent_def)
        next
          case False
          text \<open>A closed neighbour is cheapest, and the route through \<open>p\<close> is a route.\<close>
          have "relaxed m st p ?v"
            using cheapest_closed_relaxed [OF vis _ c cc] True adj pc \<open>pass m ?v\<close> closed_nodes by blast
          then show ?thesis using run vis True Some \<open>pass m ?v\<close> by auto
        qed
      next
        case open_c: False
        then have oc: "c \<in> nodes st - closed st" using c(1) by (simp add: closed_def)
        then have "c \<noteq> 0" using vis by (auto simp: visiting_def)
        then have "nd_h (npool st c) = diag (npos (npool st c)) d"
          using vis c(1) unfolding visiting_def parents_def by blast
        then have h: "nd_h (npool st c) = diag ?v d" unfolding c(2) .
        show ?thesis
        proof (cases "nd_g ?p + step_cost (npos ?p) ?v < nd_g (npool st c)")
          case True
          then show ?thesis
            using run vis Some \<open>pass m ?v\<close> h open_c
              visiting_relax [OF vis oc c(2) adj less_imp_le refl]
            by auto
        next
          case False
          then have "relaxed m st p ?v"
            using c by (auto simp: relaxed_def)
          then show ?thesis using run vis Some True open_c h False \<open>pass m ?v\<close> by auto
        qed
      qed
    qed
  qed
qed

section \<open>All directions\<close>

lemma visit_dirs_visiting:
  assumes wf: "gm_wf m" and vis: "visiting m s d p st"
    and dirs: "\<forall>dir \<in> set dirs. dir < 8" and bound: "length (node_pool st) \<le> pool_max st"
  shows "\<exists>b st'. visit_dirs m (fst d) (snd d) p dirs st = Inr (b, st') \<and>
    visiting m s d p st' \<and> evolves st st' \<and> length (node_pool st') \<le> pool_max st' \<and>
    (if b then \<forall>dir \<in> set dirs. pass m (dir_cell (npool st p) dir) \<longrightarrow>
                relaxed m st' p (dir_cell (npool st p) dir)
     else length (node_pool st') = pool_max st' \<and> (\<exists>v. pass m v \<and> lookup m st' v = None))"
  using vis dirs bound
proof (induction dirs arbitrary: st)
  case Nil
  then show ?case by (intro exI [of _ True] exI [of _ st]) simp
next
  case (Cons dir dirs)
  have sh: "shape m st" and pc: "p \<in> closed st"
    using Cons.prems by (auto simp: visiting_def)
  have dir: "dir < 8" using Cons.prems by simp
  have "visit_dir m (fst d) (snd d) p dir st = Inr (projr (visit_dir m (fst d) (snd d) p dir st))"
    by (simp add: visit_dir_eq [OF wf sh dir refl refl] split: option.split)
  then obtain b st1 where run: "visit_dir m (fst d) (snd d) p dir st = Inr (b, st1)"
    by (metis surj_pair)
  note step = visit_dir_visiting [OF wf Cons.prems(1) dir run]
  have bd: "length (node_pool st1) \<le> pool_max st1" "pool_max st1 = pool_max st"
    using run Cons.prems(3)
    by (auto simp: visit_dir_eq [OF wf sh dir refl refl] split: if_splits option.splits)
  have pp: "npool st1 p = npool st p"
    using step pc by (auto simp: evolves_def)
  show ?case
  proof (cases b)
    case False
    then show ?thesis using run step bd by auto
  next
    case True
    obtain b' st' where IH: "visit_dirs m (fst d) (snd d) p dirs st1 = Inr (b', st')"
      "visiting m s d p st'" "evolves st1 st'" "length (node_pool st') \<le> pool_max st'"
      "if b' then \<forall>dir \<in> set dirs. pass m (dir_cell (npool st1 p) dir) \<longrightarrow>
                relaxed m st' p (dir_cell (npool st1 p) dir)
       else length (node_pool st') = pool_max st' \<and> (\<exists>v. pass m v \<and> lookup m st' v = None)"
      using Cons.IH [of st1] step Cons.prems(2) bd(1) by auto
    have pc1: "p \<in> closed st1" using step by (auto simp: visiting_def)
    show ?thesis
      using run True IH step evolves_trans [of st st1 st'] pp
        evolves_relaxed [OF IH(3) _ pc1]
      by (auto split: if_splits)
  qed
qed

section \<open>Taking the best open node\<close>

lemma best_open_spec:
  assumes "\<And>c j. best = Some (c, j) \<Longrightarrow> j < idx \<and> all ! j = c \<and> (\<forall>k < idx. nd_f pool c \<le> nd_f pool (all ! k))"
    and "best = None \<Longrightarrow> idx = 0" and "nds = drop idx all" and "idx \<le> length all"
  shows "case best_open pool nds idx best of
      None \<Rightarrow> all = []
    | Some (c, j) \<Rightarrow> j < length all \<and> all ! j = c \<and> (\<forall>k < length all. nd_f pool c \<le> nd_f pool (all ! k))"
  using assms
proof (induction nds arbitrary: idx best)
  case Nil
  then have "idx = length all" by simp
  with Nil show ?case by (auto split: option.split)
next
  case (Cons nd nds)
  have lt: "idx < length all" using Cons.prems(3,4) by (metis drop_all list.distinct(1) not_less)
  have nd: "nd = all ! idx" "nds = drop (Suc idx) all"
    using Cons.prems(3) lt by (metis Cons_nth_drop_Suc list.inject)+
  let ?best = "case best of None \<Rightarrow> Some (nd, idx)
        | Some (parent, parent_idx) \<Rightarrow> if nd_f pool parent > nd_f pool nd then Some (nd, idx) else best"
  have step: "j < Suc idx \<and> all ! j = c \<and> (\<forall>k < Suc idx. nd_f pool c \<le> nd_f pool (all ! k))"
    if "?best = Some (c, j)" for c j
  proof (cases best)
    case None
    then show ?thesis using that Cons.prems(2) nd(1) by auto
  next
    case (Some b)
    then obtain c0 j0 where b: "best = Some (c0, j0)" by (metis surj_pair)
    note b0 = Cons.prems(1) [OF b]
    show ?thesis
    proof (cases "nd_f pool nd < nd_f pool c0")
      case True
      then have "c = nd" "j = idx" using that b by auto
      then show ?thesis using b0 True nd(1) by (fastforce simp: less_Suc_eq)
    next
      case False
      then have "c = c0" "j = j0" using that b by auto
      then show ?thesis using b0 False nd(1) by (auto simp: less_Suc_eq)
    qed
  qed
  have ne: "?best \<noteq> None" by (auto split: option.splits)
  show ?case
    unfolding best_open.simps(2)
  proof (rule Cons.IH)
    show "Suc idx = 0" if "?best = None" using ne that by contradiction
  qed (use step nd(2) lt in \<open>blast | simp\<close>)+
qed

lemma pop_open_set_spec:
  assumes "distinct (open_set st)"
  shows "case pop_open_set st of
      (None, st') \<Rightarrow> open_set st = [] \<and> st' = st
    | (Some c, st') \<Rightarrow> c \<in> set (open_set st) \<and>
        (\<forall>k \<in> set (open_set st). nd_f (node_pool st) c \<le> nd_f (node_pool st) k) \<and>
        (\<exists>os. st' = st\<lparr>open_set := os\<rparr> \<and> distinct os \<and> set os = set (open_set st) - {c})"
proof (cases "best_open (node_pool st) (open_set st) 0 None")
  case None
  then show ?thesis
    using best_open_spec [of None 0 "open_set st" "node_pool st" "open_set st"]
    by (simp add: pop_open_set_def)
next
  case (Some b)
  then obtain c j where b: "best_open (node_pool st) (open_set st) 0 None = Some (c, j)"
    by (metis surj_pair)
  then have j: "j < length (open_set st)" "open_set st ! j = c"
    and best: "\<forall>k < length (open_set st). nd_f (node_pool st) c \<le> nd_f (node_pool st) (open_set st ! k)"
    using best_open_spec [of None 0 "open_set st" "node_pool st" "open_set st"] by auto
  let ?os = "butlast ((open_set st)[j := last (open_set st)])"
  have ms: "mset ?os = mset (open_set st) - {#c#}"
    using mset_butlast_upd [OF j(1)] j(2) by simp
  then have eq: "mset ?os = mset (remove1 c (open_set st))" by simp
  have "distinct ?os" "set ?os = set (remove1 c (open_set st))"
    using assms mset_eq_imp_distinct_iff [OF eq] mset_eq_setD [OF eq] by simp_all
  then show ?thesis
    using b best j assms
    by (auto simp: pop_open_set_def in_set_conv_nth)
qed

text \<open>Along a route the estimate drops by at most the cost of the route walked.\<close>

lemma route_split:
  assumes "is_route m s r" "P (last r)" "\<not> P (hd r)"
  shows "\<exists>a v u b. r = a @ v # u # b \<and> \<not> P v \<and> P u \<and> pass m v \<and> adjacent u v \<and>
           is_route m s (u # b) \<and> is_route m s (v # u # b)"
  using assms
proof (induction m s r rule: is_route.induct)
  case (3 m s v u us)
  show ?case
  proof (cases "P u")
    case True
    then show ?thesis using "3.prems" by (intro exI [of _ "[]"] exI [of _ v] exI [of _ u] exI [of _ us]) auto
  next
    case False
    then obtain a v' u' b where "u # us = a @ v' # u' # b" "\<not> P v'" "P u'" "pass m v'"
        "adjacent u' v'" "is_route m s (u' # b)" "is_route m s (v' # u' # b)"
      using "3.IH" "3.prems" by auto
    then show ?thesis by (intro exI [of _ "v # a"]) auto
  qed
qed auto

lemma route_cost_append:
  "route_cost (a @ v # b) = route_cost (a @ [v]) + route_cost (v # b)"
  by (induction a rule: route_cost.induct) auto

lemma is_route_last: "is_route m s r \<Longrightarrow> last r = s"
  by (induction m s r rule: is_route.induct) auto

lemma route_estimate:
  assumes "is_route m s (a @ v # b)"
  shows "diag v d \<le> route_cost (a @ [v]) + diag (hd (a @ [v])) d"
  using assms
proof (induction a rule: route_cost.induct [case_names step none one])
  case (step w u us)
  have "adjacent u w" "is_route m s ((u # us) @ v # b)" using step by auto
  then show ?case using step diag_consistent [of u w d] by simp
next
  case (one w)
  then show ?case using diag_consistent [of v w d] by simp
qed simp

text \<open>
  The node with the least \<open>f\<close> among the open ones is cheapest: a route to it leaves the
  closed nodes at some open node, whose \<open>f\<close> is no larger than the cost of the whole route.
\<close>

lemma best_is_cheapest:
  assumes sh: "shape m st" and par: "parents s d st" and z: "0 \<in> closed st"
    and ch: "\<forall>i \<in> closed st. cheapest m s st i" and cr: "closed_relaxed m st (closed st)"
    and c: "c \<in> nodes st - closed st"
    and best: "\<forall>k \<in> nodes st - closed st. nd_f (node_pool st) c \<le> nd_f (node_pool st) k"
  shows "cheapest m s st c"
  unfolding cheapest_def
proof (intro allI impI)
  fix r assume r: "is_route m s r" "hd r = npos (npool st c)"
  define P where "P v \<longleftrightarrow> (\<exists>i \<in> closed st. npos (npool st i) = v)" for v
  have h: "nd_h (npool st i) = diag (npos (npool st i)) d" if "i \<in> nodes st - closed st" for i
    using par that z unfolding parents_def by (metis DiffD1 DiffD2)
  have "P (last r)" using is_route_last [OF r(1)] par z by (auto simp: P_def parents_def)
  moreover have "\<not> P (hd r)"
    using shape_inj [OF sh] c closed_nodes [of st] r(2) by (auto simp: P_def subset_iff)
  ultimately obtain a v u b where rs: "r = a @ v # u # b" "\<not> P v" "P u" "pass m v" "adjacent u v"
      "is_route m s (u # b)" "is_route m s (v # u # b)"
    using route_split [OF r(1)] by blast
  then obtain i where i: "i \<in> closed st" "npos (npool st i) = u" by (auto simp: P_def)
  then obtain k where k: "k \<in> nodes st" "npos (npool st k) = v"
      "nd_g (npool st k) \<le> nd_g (npool st i) + step_cost u v"
    using cr rs(4,5) unfolding closed_relaxed_def relaxed_def by blast
  have "nd_g (npool st i) \<le> route_cost (u # b)"
    using ch i rs(6) by (auto simp: cheapest_def)
  then have gk: "nd_g (npool st k) \<le> route_cost (v # u # b)" using k(3) by simp
  have ko: "k \<in> nodes st - closed st" using k rs(2) by (auto simp: P_def)
  have "nd_f (node_pool st) c \<le> nd_f (node_pool st) k" using best ko by blast
  then have "nd_g (npool st c) + diag (npos (npool st c)) d \<le> nd_g (npool st k) + diag v d"
    using h [OF c] h [OF ko] k(2) by (simp add: nd_f_def)
  moreover have "diag v d \<le> route_cost (a @ [v]) + diag (hd (a @ [v])) d"
    using route_estimate r(1) rs(1) by blast
  moreover have "hd (a @ [v]) = npos (npool st c)" using r(2) rs(1) by (cases a) auto
  ultimately show "nd_g (npool st c) \<le> route_cost r"
    using gk route_cost_append [of a v "u # b"] rs(1) by simp
qed

section \<open>Backtracking\<close>

lemma path_cells_append:
  "even (length ps) \<Longrightarrow> path_cells (ps @ qs) = path_cells ps @ path_cells qs"
  by (induction ps rule: path_cells.induct) auto

text \<open>
  From a node the loop follows the parents to the start, appending a route whose cost is
  the node's \<open>g\<close>; the number of nodes of smaller cost bounds its length.
\<close>

abbreviation below :: "astar \<Rightarrow> nat \<Rightarrow> nat set" where
  "below st i \<equiv> {k \<in> nodes st. nd_g (npool st k) < nd_g (npool st i)}"

lemma backtrace_route:
  assumes sh: "shape m st" and par: "parents s d st" and i: "i \<in> nodes st"
    and room: "length (path st) + 2 * card (below st i) < 1024000"
  shows "\<exists>ps st'. backtrace_loop (Some i) (fst s) (snd s) (gm_height m) st = Inr (True, st') \<and>
           st' = st\<lparr>path := path st @ ps\<rparr> \<and> even (length ps) \<and>
           is_route m s (path_cells ps) \<and> hd (path_cells ps) = npos (npool st i) \<and>
           route_cost (path_cells ps) = nd_g (npool st i)"
  using i room sh par
proof (induction "card (below st i)" arbitrary: i st rule: less_induct)
  case less
  let ?n = "npool st i"
  have pi: "pass m (npos ?n)" using less.prems by (auto simp: shape_def)
  show ?case
  proof (cases "npos ?n = s")
    case True
    have "i = 0"
      using shape_inj [OF less.prems(3,1), of 0] less.prems(4) True by (auto simp: parents_def)
    then show ?thesis
      using True pi less.prems
      by (intro exI [of _ "[nd_x ?n, nd_y ?n]"])
        (auto simp: backtrace_loop.simps [of "Some 0"] parents_def Let_def)
  next
    case False
    then have "i \<noteq> 0" using less.prems(4) by (auto simp: parents_def)
    then obtain j where j: "j \<in> nodes st" "npos (npool st j) = (nd_px ?n, nd_py ?n)"
        "adjacent (npos (npool st j)) (npos ?n)"
        "nd_g ?n = nd_g (npool st j) + step_cost (npos (npool st j)) (npos ?n)"
      using less.prems(1,4) unfolding parents_def by blast
    have lt: "nd_g (npool st j) < nd_g ?n"
      using j(4) step_cost_pos [of "npos (npool st j)" "npos ?n"] by linarith
    have "insert j (below st j) \<subseteq> below st i" using lt j(1) by auto
    then have "card (insert j (below st j)) \<le> card (below st i)" by (intro card_mono) auto
    then have card: "Suc (card (below st j)) \<le> card (below st i)" by simp
    let ?st = "st\<lparr>path := path st @ [nd_x ?n, nd_y ?n]\<rparr>"
    have same: "shape m ?st = shape m st" "parents s d ?st = parents s d st"
      by (auto simp: shape_def parents_def lookup_def)
    obtain ps st' where IH: "backtrace_loop (Some j) (fst s) (snd s) (gm_height m) ?st = Inr (True, st')"
        "st' = ?st\<lparr>path := path ?st @ ps\<rparr>" "even (length ps)" "is_route m s (path_cells ps)"
        "hd (path_cells ps) = npos (npool st j)" "route_cost (path_cells ps) = nd_g (npool st j)"
      using less.hyps [of ?st j] less.prems card j(1) same by auto
    have pj: "pass m (npos (npool st j))" "lookup m st (npos (npool st j)) = Some j"
      using less.prems(3) j(1) by (auto simp: shape_def)
    then have "node_set st ! nat (nd_px ?n * gm_height m + nd_py ?n) = Some j"
      using j(2) by (simp add: lookup_def)
    moreover have "0 \<le> nd_px ?n * gm_height m + nd_py ?n"
        "nd_px ?n * gm_height m + nd_py ?n < int (length (node_set st))"
      using shape_index [OF less.prems(3), of "npos (npool st j)"] passable_in_map [OF pj(1)] j(2)
      by auto
    ultimately have run: "backtrace_loop (Some i) (fst s) (snd s) (gm_height m) st = Inr (True, st')"
      using IH(1) False less.prems(2)
      by (subst backtrace_loop.simps) (auto simp: Let_def prod_eq_iff)
    obtain us where "path_cells ps = npos (npool st j) # us"
      using IH(5) is_route_hd [OF IH(4)] by (metis list.collapse)
    then show ?thesis
      using run IH j pi
      by (intro exI [of _ "[nd_x ?n, nd_y ?n] @ ps"] exI [of _ st']) auto
  qed
qed

section \<open>The main loop\<close>

lemma mark_closed_simps [simp]:
  "length (node_pool (mark_closed p st)) = length (node_pool st)"
  "open_set (mark_closed p st) = open_set st" "node_set (mark_closed p st) = node_set st"
  "path (mark_closed p st) = path st" "pool_max (mark_closed p st) = pool_max st"
  "set_max (mark_closed p st) = set_max st"
  by (simp_all add: mark_closed_def)

lemma mark_closed_npool:
  "i \<in> nodes st \<Longrightarrow> npool (mark_closed p st) i =
     (if i = p then (npool st p)\<lparr>nd_mask := True\<rparr> else npool st i)"
  by (simp add: mark_closed_def)

lemma mark_closed_fields:
  assumes "i \<in> nodes st"
  shows "npos (npool (mark_closed p st) i) = npos (npool st i)"
    "nd_g (npool (mark_closed p st) i) = nd_g (npool st i)"
    "nd_h (npool (mark_closed p st) i) = nd_h (npool st i)"
    "nd_px (npool (mark_closed p st) i) = nd_px (npool st i)"
    "nd_py (npool (mark_closed p st) i) = nd_py (npool st i)"
    "nd_mask (npool (mark_closed p st) i) = (i = p \<or> nd_mask (npool st i))"
  using mark_closed_npool [OF assms, of p] by auto

lemma at_head_mark:
  assumes "at_head m s d p st"
  shows "visiting m s d p (mark_closed p st)" "closed (mark_closed p st) = insert p (closed st)"
proof -
  let ?st = "mark_closed p st"
  note f = mark_closed_fields [of _ st p]
  have p: "p \<in> nodes st" "p \<notin> closed st" using assms by (auto simp: at_head_def)
  show cl: "closed ?st = insert p (closed st)"
    using p f by (auto simp: closed_def)
  have "lookup m ?st v = lookup m st v" for v by (simp add: lookup_def)
  then have "shape m ?st"
    using assms f by (auto simp: at_head_def shape_def)
  moreover have "parents s d ?st"
    unfolding parents_def
  proof (intro conjI ballI impI)
    show "0 \<in> nodes ?st" "npos (npool ?st 0) = s" "nd_g (npool ?st 0) = 0"
      using assms f by (auto simp: at_head_def parents_def)
    fix i assume i: "i \<in> nodes ?st" "i \<noteq> 0"
    then show "nd_h (npool ?st i) = diag (npos (npool ?st i)) d"
      using assms f by (auto simp: at_head_def parents_def)
    obtain j where "j \<in> nodes st" "nd_mask (npool st j)"
        "npos (npool st j) = (nd_px (npool st i), nd_py (npool st i))"
        "adjacent (npos (npool st j)) (npos (npool st i))"
        "nd_g (npool st i) = nd_g (npool st j) + step_cost (npos (npool st j)) (npos (npool st i))"
      using assms i unfolding at_head_def parents_def by (metis mark_closed_simps(1))
    then show "\<exists>j\<in>nodes ?st. nd_mask (npool ?st j) \<and>
        npos (npool ?st j) = (nd_px (npool ?st i), nd_py (npool ?st i)) \<and>
        adjacent (npos (npool ?st j)) (npos (npool ?st i)) \<and>
        nd_g (npool ?st i) = nd_g (npool ?st j) + step_cost (npos (npool ?st j)) (npos (npool ?st i))"
      using i f [of i] f [of j] by (intro bexI [of _ j]) auto
  qed
  moreover have "set (open_set ?st) = nodes ?st - closed ?st" "distinct (open_set ?st)"
      "0 \<in> closed ?st"
    using assms cl by (auto simp: at_head_def)
  moreover have "\<forall>i \<in> closed ?st. cheapest m s ?st i"
    using assms f closed_nodes [of st] p(1) unfolding cl
    by (auto simp: at_head_def cheapest_def subset_iff)
  moreover have "closed_relaxed m ?st (closed st)"
    unfolding closed_relaxed_def relaxed_def
  proof (intro ballI allI impI)
    fix i v assume i: "i \<in> closed st" and v: "adjacent (npos (npool ?st i)) v" "pass m v"
    then have n: "i \<in> nodes st" using closed_nodes by blast
    then obtain k where "k \<in> nodes st" "npos (npool st k) = v"
        "nd_g (npool st k) \<le> nd_g (npool st i) + step_cost (npos (npool st i)) v"
      using assms i v f unfolding at_head_def closed_relaxed_def relaxed_def by metis
    then show "\<exists>k\<in>nodes ?st. npos (npool ?st k) = v \<and>
        nd_g (npool ?st k) \<le> nd_g (npool ?st i) + step_cost (npos (npool ?st i)) v"
      using f [OF n] f [of k] by (intro bexI [of _ k]) auto
  qed
  ultimately show "visiting m s d p ?st"
    using cl p by (auto simp: visiting_def)
qed

lemma visiting_all_relaxed:
  assumes "visiting m s d p st"
    and "\<forall>dir \<in> set [0..<8]. pass m (dir_cell (npool st p) dir) \<longrightarrow>
           relaxed m st p (dir_cell (npool st p) dir)"
  shows "closed_relaxed m st (closed st)"
  unfolding closed_relaxed_def
proof (intro ballI allI impI)
  fix i v assume i: "i \<in> closed st" "adjacent (npos (npool st i)) v" "pass m v"
  show "relaxed m st i v"
  proof (cases "i = p")
    case True
    then obtain dir where "dir < 8" "v = dir_cell (npool st p) dir"
      using adjacent_dir i(2) by blast
    then show ?thesis using assms(2) i(3) True by auto
  next
    case False
    then show ?thesis using assms(1) i unfolding visiting_def closed_relaxed_def by blast
  qed
qed

lemma pop_at_head:
  assumes vis: "visiting m s d p st" and cr: "closed_relaxed m st (closed st)"
    and pop: "pop_open_set st = (Some c, st')"
  shows "at_head m s d c st'" "\<exists>os. st' = st\<lparr>open_set := os\<rparr>"
proof -
  obtain os where os: "st' = st\<lparr>open_set := os\<rparr>" "distinct os" "set os = set (open_set st) - {c}"
    and c: "c \<in> set (open_set st)"
    and best: "\<forall>k \<in> set (open_set st). nd_f (node_pool st) c \<le> nd_f (node_pool st) k"
    using pop_open_set_spec [of st] vis pop by (auto simp: visiting_def)
  show "\<exists>os. st' = st\<lparr>open_set := os\<rparr>" using os(1) by blast
  have "cheapest m s st c"
    using best_is_cheapest [of m st s d c] vis cr c best by (auto simp: visiting_def)
  moreover have "closed st' = closed st" "shape m st' = shape m st" "parents s d st' = parents s d st"
      "cheapest m s st' i = cheapest m s st i" "closed_relaxed m st' I = closed_relaxed m st I" for i I
    by (simp_all add: os(1) closed_def shape_def parents_def cheapest_def closed_relaxed_def
        relaxed_def lookup_def)
  ultimately show "at_head m s d c st'"
    using vis cr c os unfolding at_head_def visiting_def by auto
qed

lemma all_closed_route:
  assumes "parents s d st" "closed_relaxed m st (closed st)" "nodes st \<subseteq> closed st" "is_route m s r"
  shows "\<exists>i \<in> closed st. npos (npool st i) = hd r"
  using assms(4)
proof (induction r rule: route_cost.induct [case_names step none one])
  case (step v u us)
  then obtain i where i: "i \<in> closed st" "npos (npool st i) = u" by auto
  moreover have "adjacent u v" "pass m v" using step by auto
  ultimately have "relaxed m st i v" using assms(2) unfolding closed_relaxed_def by blast
  then show ?case using assms(3) by (auto simp: relaxed_def)
next
  case (one v)
  then show ?case using assms(1,3) by (auto simp: parents_def)
qed simp

definition goal_open :: "cell \<Rightarrow> astar \<Rightarrow> bool" where
  "goal_open d st \<longleftrightarrow> (\<forall>i \<in> closed st. npos (npool st i) \<noteq> d)"

text \<open>
  What the loop returns: on success an optimal route from the goal back to the start, on
  failure either a full pool while some passable cell has no node, or no route at all.
\<close>

definition search_result :: "grid_map \<Rightarrow> cell \<Rightarrow> cell \<Rightarrow> bool \<Rightarrow> astar \<Rightarrow> bool" where
  "search_result m s d b st \<longleftrightarrow>
     (if b then is_route m s (path_cells (path st)) \<and> hd (path_cells (path st)) = d \<and>
                (\<forall>r. is_route m s r \<longrightarrow> hd r = d \<longrightarrow> route_cost (path_cells (path st)) \<le> route_cost r)
      else (\<forall>r. is_route m s r \<longrightarrow> hd r \<noteq> d) \<or>
           (shape m st \<and> length (node_pool st) = pool_max st \<and>
            (\<exists>v. pass m v \<and> lookup m st v = None)))"

lemma search_loop_None [simp]: "search_loop m x y dx dy None st = Inr (False, st)"
  by (simp add: search_loop.simps [of _ _ _ _ _ None])

lemma card_below: "card (below st i) \<le> length (node_pool st)"
proof -
  have "card (below st i) \<le> card (nodes st)" by (rule card_mono) auto
  then show ?thesis by simp
qed

lemma search_loop_goal:
  assumes head: "at_head m s d p st" and goal: "npos (npool st p) = d"
    and "path st = []" "length (node_pool st) \<le> 1024"
  shows "\<exists>st'. backtrace_path p (fst s) (snd s) (gm_height m) st = Inr (True, st') \<and>
           search_result m s d True st' \<and> pool_max st' = pool_max st"
proof -
  have "p \<in> nodes st" using head by (auto simp: at_head_def)
  moreover have "length (path st) + 2 * card (below st p) < 1024000"
    using assms(3,4) card_below [of st p] by simp
  ultimately obtain ps st' where bt: "backtrace_loop (Some p) (fst s) (snd s) (gm_height m) st = Inr (True, st')"
      "st' = st\<lparr>path := path st @ ps\<rparr>" "is_route m s (path_cells ps)"
      "hd (path_cells ps) = npos (npool st p)" "route_cost (path_cells ps) = nd_g (npool st p)"
    using backtrace_route [of m st s d p] head unfolding at_head_def by blast
  then show ?thesis
    using assms by (auto simp: backtrace_path_def search_result_def at_head_def cheapest_def)
qed

lemma search_loop_correct:
  assumes "gm_wf m" "at_head m s d p st" "goal_open d st" "path st = []"
    "length (node_pool st) \<le> pool_max st" "pool_max st \<le> 1024"
  shows "\<exists>b st'. search_loop m (fst s) (snd s) (fst d) (snd d) (Some p) st = Inr (b, st') \<and>
           search_result m s d b st' \<and> pool_max st' = pool_max st"
  using assms(2-)
proof (induction "work (Some p) st" arbitrary: p st rule: less_induct)
  case less
  let ?st = "mark_closed p st"
  note mark = at_head_mark [OF less.prems(1)]
  show ?case
  proof (cases "npos (npool st p) = d")
    case True
    then show ?thesis
      using search_loop_goal [OF less.prems(1) True less.prems(3)] less.prems
      by (subst search_loop.simps) (auto intro!: exI [of _ True])
  next
    case False
    have p: "p \<in> nodes st" using less.prems(1) by (auto simp: at_head_def)
    obtain b st1 where run: "visit_dirs m (fst d) (snd d) p [0..<8] ?st = Inr (b, st1)"
      and v1: "visiting m s d p st1" and ev: "evolves ?st st1"
      and len1: "length (node_pool st1) \<le> pool_max st1"
      and res: "if b then \<forall>dir \<in> set [0..<8]. pass m (dir_cell (npool ?st p) dir) \<longrightarrow>
                  relaxed m st1 p (dir_cell (npool ?st p) dir)
                else length (node_pool st1) = pool_max st1 \<and> (\<exists>v. pass m v \<and> lookup m st1 v = None)"
      using visit_dirs_visiting [OF assms(1) mark(1), of "[0..<8]"] less.prems(4) by auto
    have w1: "pool_max st1 = pool_max st" "path st1 = []" "work None st1 < work (Some p) st"
      using visit_dirs_work [OF run] less.prems(3) by (auto simp: work_def)
    have step: "search_loop m (fst s) (snd s) (fst d) (snd d) (Some p) st =
        (if b then search_loop m (fst s) (snd s) (fst d) (snd d)
                     (fst (pop_open_set st1)) (snd (pop_open_set st1))
         else Inr (False, st1))"
      using run False by (subst search_loop.simps) (auto simp: prod_eq_iff)
    have go: "goal_open d st1"
      using less.prems(2) False evolvesD(2,5) [OF ev] mark(2) mark_closed_fields(1) [of _ st p]
        closed_nodes [of st] p by (auto simp: goal_open_def subset_iff)
    show ?thesis
    proof (cases b)
      case nb: False
      then show ?thesis
        using step res v1 w1 by (auto simp: search_result_def visiting_def)
    next
      case True
      have pp: "npool ?st p = npool st1 p" using evolvesD(5) [OF ev] mark(2) by simp
      have cr: "closed_relaxed m st1 (closed st1)"
        using visiting_all_relaxed [OF v1] res True pp by simp
      show ?thesis
      proof (cases "pop_open_set st1")
        case (Pair c st2)
        show ?thesis
        proof (cases c)
          case None
          then have "nodes st1 \<subseteq> closed st1" "st2 = st1"
            using pop_open_set_spec [of st1] v1 Pair by (auto simp: visiting_def)
          moreover have "parents s d st1" using v1 by (simp add: visiting_def)
          ultimately have "hd r \<noteq> d" if "is_route m s r" for r
            using all_closed_route [OF _ cr _ that, of d] go unfolding goal_open_def by metis
          then have "search_result m s d False st2" by (simp add: search_result_def)
          then show ?thesis
            using step True Pair None w1 \<open>st2 = st1\<close> by (intro exI [of _ False]) auto
        next
          case (Some c')
          note head = pop_at_head [OF v1 cr] and pop = Pair [unfolded Some]
          obtain os where os: "st2 = st1\<lparr>open_set := os\<rparr>" using head(2) [OF pop] by blast
          have wk: "work (Some c') st2 < work (Some p) st"
            using pop_open_set_work [OF pop] w1(3) by simp
          have h: "goal_open d st2" "path st2 = []" "length (node_pool st2) \<le> pool_max st2"
              "pool_max st2 \<le> 1024" "pool_max st2 = pool_max st"
            using go len1 w1 less.prems(5) by (simp_all add: os goal_open_def closed_def)
          have "\<exists>b st'. search_loop m (fst s) (snd s) (fst d) (snd d) (Some c') st2 = Inr (b, st') \<and>
              search_result m s d b st' \<and> pool_max st' = pool_max st2"
            by (rule less.hyps [OF wk head(1) [OF pop] h(1-4)])
          then show ?thesis using step True Pair Some h(5) by auto
        qed
      qed
    qed
  qed
qed

section \<open>A whole search\<close>

text \<open>
  What holds of the search object between two searches: either nothing has been allocated,
  or the array has the default size, whatever \<open>_set_max\<close> says.
\<close>

definition astar_wf :: "astar \<Rightarrow> bool" where
  "astar_wf st \<longleftrightarrow>
     pool_max st \<le> DEFAULT_POOL \<and>
     (set_max st = 0 \<and> node_set st = [] \<or>
      length (node_set st) = DEFAULT_SET \<and> int DEFAULT_SET \<le> set_max st)"

lemma astar_wf_init: "astar_wf astar_init"
  by (simp add: astar_wf_def astar_init_def)

lemma backtrace_loop_frame:
  "backtrace_loop dest dx dy h st = Inr (b, st') \<Longrightarrow>
     length (node_set st') = length (node_set st) \<and> set_max st' = set_max st \<and>
     pool_max st' = pool_max st"
proof (induction dest dx dy h st rule: backtrace_loop.induct)
  case (1 dest dx dy h st)
  show ?case
  proof (cases dest)
    case None
    then show ?thesis using "1.prems" by (simp add: backtrace_loop.simps [of None])
  next
    case (Some i)
    note run = "1.prems" [unfolded Some backtrace_loop.simps [of "Some i"] Let_def option.case]
    note IH = "1.IH" [OF Some _ refl refl refl]
    show ?thesis
      using run IH by (auto split: if_splits)
  qed
qed

lemma pop_open_set_frame:
  "length (node_set (snd (pop_open_set st))) = length (node_set st)"
  "set_max (snd (pop_open_set st)) = set_max st" "pool_max (snd (pop_open_set st)) = pool_max st"
  by (simp_all add: pop_open_set_def split: option.split)

lemma search_loop_frame:
  "search_loop m x y dx dy parent st = Inr (b, st') \<Longrightarrow>
     length (node_set st') = length (node_set st) \<and> set_max st' = set_max st \<and>
     pool_max st' = pool_max st"
proof (induction m x y dx dy parent st rule: search_loop.induct)
  case (1 m x y dx dy parent st)
  show ?case
  proof (cases parent)
    case None
    then show ?thesis using "1.prems" by simp
  next
    case (Some p)
    show ?thesis
    proof (cases "npos (npool st p) = (dx, dy)")
      case True
      then have "backtrace_path p x y (gm_height m) st = Inr (b, st')"
        using "1.prems" Some by (simp add: search_loop.simps [of _ _ _ _ _ "Some p"])
      then show ?thesis
        using backtrace_loop_frame by (simp add: backtrace_path_def split: if_splits)
    next
      case False
      then obtain r where r: "visit_dirs m dx dy p [0..<8] (mark_closed p st) = Inr r"
        and k: "(if fst r then search_loop m x y dx dy (fst (pop_open_set (snd r))) (snd (pop_open_set (snd r)))
                 else Inr (False, snd r)) = Inr (b, st')"
        using "1.prems" Some by (auto simp: search_loop.simps [of _ _ _ _ _ "Some p"] bind_res_eq_Inr)
      obtain ok st1 where okst: "r = (ok, st1)" by (cases r)
      note w = visit_dirs_work [OF r [unfolded okst]]
      show ?thesis
      proof (cases ok)
        case True
        then show ?thesis
          using "1.IH" [OF Some _ r] False k w pop_open_set_frame [of st1] okst by auto
      qed (use k w okst in auto)
    qed
  qed
qed

lemma finite_map: "finite {c. pass m c}"
proof (rule finite_subset)
  show "{c. pass m c} \<subseteq> {0..<gm_width m} \<times> {0..<gm_height m}"
    using passable_in_map by (fastforce simp: in_map_def)
qed simp

lemma full_pool_cells:
  assumes sh: "shape m st" and v: "pass m v" "lookup m st v = None"
  shows "length (node_pool st) < card {c. pass m c}"
proof -
  let ?f = "\<lambda>i. npos (npool st i)"
  have "inj_on ?f (nodes st)"
    using shape_inj [OF sh] by (auto intro: inj_onI)
  then have "card (?f ` nodes st) = length (node_pool st)" by (simp add: card_image)
  moreover have "v \<notin> ?f ` nodes st" using sh v(2) by (auto simp: shape_def)
  moreover have "insert v (?f ` nodes st) \<subseteq> {c. pass m c}"
    using sh v(1) by (auto simp: shape_def)
  then have "card (insert v (?f ` nodes st)) \<le> card {c. pass m c}"
    by (rule card_mono [OF finite_map])
  ultimately show ?thesis by simp
qed

lemma start_at_head:
  assumes size: "0 \<le> gm_width m * gm_height m"
    and len: "gm_width m * gm_height m \<le> int (length (node_set st))"
    and clear: "\<forall>i < nat (gm_width m * gm_height m). node_set st ! i = None"
    and s: "pass m s" and st0: "node_pool st = []" "open_set st = []"
    and st': "st' = st\<lparr>node_pool := [\<lparr>nd_mask = False, nd_g = 0, nd_h = 0, nd_x = fst s,
                 nd_y = snd s, nd_px = 0, nd_py = 0\<rparr>],
               node_set := (node_set st)[nat (fst s * gm_height m + snd s) := Some 0]\<rparr>"
  shows "at_head m s d 0 st'" "goal_open d st'"
proof -
  have im: "in_map m (fst s) (snd s)" using s by (rule passable_in_map)
  have sh: "shape m st"
    using len clear cell_index_bounds [of _ "gm_width m" _ "gm_height m"]
    by (auto simp: shape_def st0 lookup_def in_map_def)
  have look: "lookup m st' c = (if c = s then Some 0 else None)" if "in_map m (fst c) (snd c)" for c
  proof -
    have "lookup m st' c = (if c = s then Some 0 else lookup m st c)"
      using lookup_update [OF sh im that, of "Some 0"] by (simp add: st' lookup_def)
    moreover have "lookup m st c = None"
      using clear that cell_index_bounds [of "fst c" "gm_width m" "snd c" "gm_height m"]
      by (auto simp: lookup_def in_map_def)
    ultimately show ?thesis by simp
  qed
  have "shape m st'"
    using len look im s by (auto simp: shape_def st')
  moreover have cl: "closed st' = {}" by (auto simp: closed_def st')
  ultimately show "at_head m s d 0 st'" "goal_open d st'"
    using route_cost_nonneg
    by (auto simp: at_head_def goal_open_def closed_relaxed_def cheapest_def parents_def st' st0)
qed

lemma search_spec:
  assumes wf: "gm_wf m" and awf: "astar_wf st"
    and fits: "gm_width m * gm_height m \<le> int DEFAULT_SET"
  shows "\<exists>b st'. search m (fst s) (snd s) (fst d) (snd d) st = Inr (b, st') \<and> astar_wf st' \<and>
    (if b then is_route m s (path_cells (path st')) \<and> hd (path_cells (path st')) = d \<and>
               (\<forall>r. is_route m s r \<longrightarrow> hd r = d \<longrightarrow> route_cost (path_cells (path st')) \<le> route_cost r)
     else (\<forall>r. is_route m s r \<longrightarrow> hd r \<noteq> d) \<or> DEFAULT_POOL < card {c. pass m c})"
proof (cases "pass m s \<and> pass m d")
  case False
  have "hd r \<noteq> d" if "is_route m s r" for r
    using False is_route_hd [OF that] is_route_start [OF that] by auto
  moreover have "search m (fst s) (snd s) (fst d) (snd d) st = Inr (False, st)"
  proof -
    obtain c c' where "get_pass_cost m (fst s) (snd s) = Inr c" "c < 0 \<longleftrightarrow> \<not> pass m s"
        "get_pass_cost m (fst d) (snd d) = Inr c'" "c' < 0 \<longleftrightarrow> \<not> pass m d"
      using get_pass_cost_iff [OF wf] by metis
    with False show ?thesis by (simp add: search_def)
  qed
  ultimately show ?thesis using awf by auto
next
  case True
  let ?size = "gm_width m * gm_height m"
  have im: "in_map m (fst s) (snd s)" using True passable_in_map by blast
  have pos: "0 < ?size"
    using im cell_index_bounds [of "fst s" "gm_width m" "snd s" "gm_height m"]
    by (auto simp: in_map_def)
  define st1 where "st1 = (if set_max st < ?size
      then st\<lparr>set_max := max ?size (int DEFAULT_SET), node_set := replicate DEFAULT_SET None\<rparr>
      else st)"
  define st2 where "st2 = (if pool_max st1 < DEFAULT_POOL then st1\<lparr>pool_max := DEFAULT_POOL\<rparr> else st1)"
  define st4 where "st4 = st2\<lparr>node_pool := [], path := [], open_set := [],
      node_set := replicate (nat ?size) None @ drop (nat ?size) (node_set st2)\<rparr>"
  have len: "length (node_set st2) = DEFAULT_SET" "pool_max st2 = DEFAULT_POOL"
      "int DEFAULT_SET \<le> set_max st2"
    using awf pos fits by (auto simp: astar_wf_def st1_def st2_def DEFAULT_POOL_def)
  have len4: "length (node_set st4) = DEFAULT_SET"
    using len(1) fits by (simp add: st4_def)
  have run: "search m (fst s) (snd s) (fst d) (snd d) st = do_search m (fst s) (snd s) (fst d) (snd d) st4"
  proof -
    obtain c c' where c: "get_pass_cost m (fst s) (snd s) = Inr c" "\<not> c < 0"
        "get_pass_cost m (fst d) (snd d) = Inr c'" "\<not> c' < 0"
      using True passableD by (metis not_less)
    have f: "\<not> ?size > int (length (node_set (st2\<lparr>node_pool := [], path := [], open_set := []\<rparr>)))"
      using len(1) fits by simp
    show ?thesis
      unfolding search_def c(1,3) bind_res_simps Let_def st1_def [symmetric] st2_def [symmetric]
        if_not_P [OF c(2)] if_not_P [OF c(4)] if_not_P [OF f]
      by (simp add: st4_def)
  qed
  define st5 where "st5 = st4\<lparr>node_pool := [\<lparr>nd_mask = False, nd_g = 0, nd_h = 0, nd_x = fst s,
                 nd_y = snd s, nd_px = 0, nd_py = 0\<rparr>],
               node_set := (node_set st4)[nat (fst s * gm_height m + snd s) := Some 0]\<rparr>"
  have idx: "0 \<le> fst s * gm_height m + snd s" "fst s * gm_height m + snd s < int DEFAULT_SET"
    using im fits cell_index_bounds [of "fst s" "gm_width m" "snd s" "gm_height m"]
    by (auto simp: in_map_def)
  have run5: "do_search m (fst s) (snd s) (fst d) (snd d) st4
      = search_loop m (fst s) (snd s) (fst d) (snd d) (Some 0) st5"
    using idx len4 len(2)
    by (simp add: do_search_def new_node_def st4_def st5_def DEFAULT_POOL_def)
  have "at_head m s d 0 st5" "goal_open d st5"
    using start_at_head [of m st4 s st5 d] pos fits len4 True
    by (auto simp: st4_def st5_def nth_append)
  moreover have "path st5 = []" "length (node_pool st5) \<le> pool_max st5" "pool_max st5 \<le> 1024"
    using len(2) by (simp_all add: st5_def st4_def DEFAULT_POOL_def)
  ultimately obtain b st' where loop: "search_loop m (fst s) (snd s) (fst d) (snd d) (Some 0) st5 = Inr (b, st')"
      and res: "search_result m s d b st'" and pm: "pool_max st' = pool_max st5"
    using search_loop_correct [OF wf] by blast
  have "DEFAULT_POOL < card {c. pass m c}"
    if "shape m st'" "length (node_pool st') = pool_max st'" "pass m v" "lookup m st' v = None" for v
    using full_pool_cells [OF that(1,3,4)] that(2) pm len(2) by (simp add: st5_def st4_def)
  then have "(\<forall>r. is_route m s r \<longrightarrow> hd r \<noteq> d) \<or> DEFAULT_POOL < card {c. pass m c}" if "\<not> b"
    using res that unfolding search_result_def by (simp only: if_False) blast
  note fail = this
  have ok: "astar_wf st'"
    using search_loop_frame [OF loop] len len4 by (auto simp: astar_wf_def st5_def st4_def)
  show ?thesis
  proof (cases b)
    case True
    then show ?thesis
      using ok run run5 loop res
      by (intro exI [of _ True] exI [of _ st']) (simp add: search_result_def)
  next
    case False
    then show ?thesis
      using ok run run5 loop fail
      by (intro exI [of _ False] exI [of _ st']) simp
  qed
qed

section \<open>Properties\<close>

text \<open>
  C12: on a well-formed map that fits the pointer array, a search from any state the object
  can be in between searches ends without a fault; if it reports success, the path vector
  read in pairs is a route of passable neighbouring cells from the goal back to the start,
  and no route between the two cells is cheaper (straight steps cost 10, diagonal ones 14).
\<close>

theorem search_optimal:
  assumes "gm_wf m" and "astar_wf st" and "gm_width m * gm_height m \<le> int DEFAULT_SET"
  shows "\<exists>b st'. search m x y dx dy st = Inr (b, st') \<and> astar_wf st' \<and>
    (b \<longrightarrow> is_route m (x, y) (path_cells (path st')) \<and> hd (path_cells (path st')) = (dx, dy) \<and>
           (\<forall>r. is_route m (x, y) r \<longrightarrow> hd r = (dx, dy) \<longrightarrow>
                route_cost (path_cells (path st')) \<le> route_cost r))"
  using search_spec [OF assms, of "(x, y)" "(dx, dy)"] by (auto split: if_splits)

text \<open>A map of two by three cells with a wall in the middle of the second column.\<close>

definition wall_map :: grid_map where
  "wall_map = \<lparr>gm_id = 1, gm_width = 2, gm_height = 3, gm_cells = Some [0, 0, 0, 0, -1, 0]\<rparr>"

lemma wall_map_ok:
  "gm_wf wall_map" "gm_width wall_map * gm_height wall_map \<le> int DEFAULT_SET"
  by (simp_all add: wall_map_def gm_wf_def DEFAULT_SET_def)

lemma wall_route: "is_route wall_map (1, 0) [(1, 2), (0, 1), (1, 0)]"
  by (simp add: wall_map_def passable_def get_pass_cost_def adjacent_def Let_def)

theorem search_optimal_witness:
  "\<exists>b st'. search wall_map 1 0 1 2 astar_init = Inr (b, st') \<and> astar_wf st' \<and>
    (b \<longrightarrow> route_cost (path_cells (path st')) \<le> 28)"
proof -
  have "route_cost [(1, 2), (0, 1), (1, 0)] = 28" by (simp add: step_cost_def)
  moreover have "hd [(1, 2), (0, 1), (1, 0)] = (1 :: int, 2 :: int)" by simp
  ultimately show ?thesis
    using search_optimal [OF wall_map_ok(1) astar_wf_init wall_map_ok(2), of 1 0 1 2]
      wall_route by metis
qed


lemma wall_map_small: "card {c. passable wall_map (fst c) (snd c)} \<le> DEFAULT_POOL"
proof -
  have "{c. passable wall_map (fst c) (snd c)} \<subseteq> {0..<2} \<times> {0..<3}"
    using passable_in_map [of wall_map] by (fastforce simp: in_map_def wall_map_def)
  then have "card {c. passable wall_map (fst c) (snd c)} \<le> card ({0..<2::int} \<times> {0..<3::int})"
    by (rule card_mono [rotated]) simp
  then show ?thesis by (simp add: DEFAULT_POOL_def)
qed


text \<open>
  the array is allocated with 128 * 128 entries whatever the size of the map, while the
  clearing of the array and \<open>_set_max\<close> go by the size of the map: on a map with more cells
  than that, which \<open>GridMap::set\<close> accepts up to 256 by 256, every search between two
  passable cells writes past the end of the allocation.
\<close>

theorem search_overflows:
  assumes "gm_wf m" and "astar_wf st" and "int DEFAULT_SET < gm_width m * gm_height m"
    and "passable m x y" and "passable m dx dy"
  shows "search m x y dx dy st = Inl OutOfRange"
proof -
  let ?size = "gm_width m * gm_height m"
  obtain c c' where c: "get_pass_cost m x y = Inr c" "\<not> c < 0"
      "get_pass_cost m dx dy = Inr c'" "\<not> c' < 0"
    using assms(4,5) passableD by (metis not_less)
  define st1 where "st1 = (if set_max st < ?size
      then st\<lparr>set_max := max ?size (int DEFAULT_SET), node_set := replicate DEFAULT_SET None\<rparr>
      else st)"
  define st2 where "st2 = (if pool_max st1 < DEFAULT_POOL then st1\<lparr>pool_max := DEFAULT_POOL\<rparr> else st1)"
  have "length (node_set st2) \<le> DEFAULT_SET"
    using assms(2) by (auto simp: astar_wf_def st1_def st2_def)
  then have f: "?size > int (length (node_set (st2\<lparr>node_pool := [], path := [], open_set := []\<rparr>)))"
    using assms(3) by simp
  show ?thesis
    unfolding search_def c(1,3) bind_res_simps Let_def st1_def [symmetric] st2_def [symmetric]
      if_not_P [OF c(2)] if_not_P [OF c(4)] if_P [OF f] ..
qed

definition big_map :: grid_map where
  "big_map = \<lparr>gm_id = 1, gm_width = 256, gm_height = 256, gm_cells = Some (replicate 65536 0)\<rparr>"

theorem search_overflows_witness:
  "search big_map 0 0 3 4 astar_init = Inl OutOfRange"
proof (rule search_overflows)
  show "gm_wf big_map" "int DEFAULT_SET < gm_width big_map * gm_height big_map"
    by (simp_all add: big_map_def gm_wf_def DEFAULT_SET_def)
  show "passable big_map 0 0" "passable big_map 3 4"
    by (simp_all add: passable_def get_pass_cost_def big_map_def Let_def)
qed (rule astar_wf_init)

text \<open>
  the diagonal heuristic is the exact cost of the cheapest way over an open plain, so
  it never overestimates: no route costs less than it predicts between its two ends.
\<close>

theorem diagonal_admissible:
  assumes "is_route m s r"
  shows "diagonal (fst s) (snd s) (fst (hd r)) (snd (hd r)) \<le> route_cost r"
  using assms
proof (induction r rule: route_cost.induct [case_names step none one])
  case (step v u us)
  then have "adjacent v u" "step_cost v u = step_cost u v"
    by (auto simp: adjacent_def step_cost_def)
  moreover have "diag s v = diag v s" "diag s u = diag u s"
    by (simp_all add: diag_alt abs_minus_commute)
  ultimately show ?case using step diag_consistent [of v u s] by simp
qed auto

theorem diagonal_admissible_witness: "diagonal 1 0 1 2 \<le> route_cost [(1, 2), (0, 1), (1, 0)]"
  using diagonal_admissible [OF wall_route] by simp

end
