(* ===== verification/BufferQueue.thy ===== *)
theory BufferQueue
  imports Buffer
begin

text \<open>
  The buffer is a byte queue. The interface \<open>byte_queue\<close> states what its clients rely on
  (the packet layer appends bytes, looks at the first \<open>n\<close> and drops them); the model of
  the code is an instance of it.
\<close>

section \<open>The interface\<close>

datatype queue_op = Put "byte list" | Get nat

text \<open>
  A client's run: \<open>Put\<close> appends, \<open>Get n\<close> looks at the first \<open>n\<close> bytes and, when they are
  all there, consumes and reports them.
\<close>

fun queue_run ::
  "(byte list \<Rightarrow> 'q \<Rightarrow> 'q result) \<Rightarrow> (nat \<Rightarrow> 'q \<Rightarrow> (byte list option \<times> 'q) result) \<Rightarrow>
   (nat \<Rightarrow> 'q \<Rightarrow> 'q result) \<Rightarrow> queue_op list \<Rightarrow> 'q \<Rightarrow> (byte list \<times> 'q) result" where
  "queue_run put peek drp [] q = Inr ([], q)"
| "queue_run put peek drp (Put xs # ops) q =
     bind_res (put xs q) (queue_run put peek drp ops)"
| "queue_run put peek drp (Get n # ops) q =
     bind_res (peek n q) (\<lambda>(r, q').
       case r of
         None \<Rightarrow> queue_run put peek drp ops q'
       | Some ys \<Rightarrow> bind_res (drp n q') (\<lambda>q''.
           bind_res (queue_run put peek drp ops q'') (\<lambda>(zs, q'''). Inr (ys @ zs, q'''))))"

fun puts :: "queue_op list \<Rightarrow> byte list" where
  "puts [] = []"
| "puts (Put xs # ops) = xs @ puts ops"
| "puts (Get n # ops) = puts ops"

locale byte_queue =
  fixes inv :: "'q \<Rightarrow> bool"
    and bytes :: "'q \<Rightarrow> byte list"
    and put :: "byte list \<Rightarrow> 'q \<Rightarrow> 'q result"
    and peek :: "nat \<Rightarrow> 'q \<Rightarrow> (byte list option \<times> 'q) result"
    and drp :: "nat \<Rightarrow> 'q \<Rightarrow> 'q result"
    and ready :: "'q \<Rightarrow> bool"
  assumes put_spec: "inv q \<Longrightarrow> \<exists>q'. put xs q = Inr q' \<and> inv q' \<and> ready q' \<and> bytes q' = bytes q @ xs"
    and peek_spec: "inv q \<Longrightarrow> ready q \<Longrightarrow>
      \<exists>q'. peek n q =
             Inr (if bytes q = [] \<or> length (bytes q) < n then None else Some (take n (bytes q)), q') \<and>
           inv q' \<and> ready q' \<and> bytes q' = bytes q"
    and drp_spec: "inv q \<Longrightarrow> ready q \<Longrightarrow> n \<le> length (bytes q) \<Longrightarrow>
      \<exists>q'. drp n q = Inr q' \<and> inv q' \<and> ready q' \<and> bytes q' = drop n (bytes q)"
begin

lemma queue_run_fifo:
  assumes "inv q" "ready q"
  shows "\<exists>out q'. queue_run put peek drp ops q = Inr (out, q') \<and> inv q' \<and> ready q' \<and>
           bytes q @ puts ops = out @ bytes q'"
  using assms
proof (induction ops arbitrary: q)
  case Nil
  then show ?case by simp
next
  case (Cons a ops)
  show ?case
  proof (cases a)
    case (Put xs)
    obtain q' where q': "put xs q = Inr q'" "inv q'" "ready q'" "bytes q' = bytes q @ xs"
      using put_spec [OF Cons.prems(1)] by blast
    then show ?thesis using Cons.IH [OF q'(2,3)] Put by auto
  next
    case (Get n)
    let ?r = "if bytes q = [] \<or> length (bytes q) < n then None else Some (take n (bytes q))"
    obtain p where p: "peek n q = Inr (?r, p)" "inv p" "ready p" "bytes p = bytes q"
      using peek_spec [OF Cons.prems] by blast
    show ?thesis
    proof (cases "bytes q = [] \<or> length (bytes q) < n")
      case True
      then show ?thesis using Cons.IH [OF p(2,3)] Get p by auto
    next
      case False
      then have le: "n \<le> length (bytes p)" using p by simp
      obtain q' where q': "drp n p = Inr q'" "inv q'" "ready q'" "bytes q' = drop n (bytes q)"
        using drp_spec [OF p(2,3) le] p(4) by auto
      obtain out q'' where r: "queue_run put peek drp ops q' = Inr (out, q'')" "inv q''" "ready q''"
          "bytes q' @ puts ops = out @ bytes q''"
        using Cons.IH [OF q'(2,3)] by blast
      have "bytes q @ puts ops = take n (bytes q) @ bytes q' @ puts ops"
        unfolding q'(4) append_assoc [symmetric] append_take_drop_id ..
      then show ?thesis using r q'(1) False Get p(1) by auto
    qed
  qed
qed

end

section \<open>Invariant and abstraction\<close>

definition chunk_wf :: "chunk \<Rightarrow> bool" where
  "chunk_wf c \<longleftrightarrow> length (ck_ctx c) = MAX_CTX \<and> used_pos c \<le> free_pos c \<and>
     free_pos c \<le> MAX_CTX \<and> used_pos c < MAX_CTX"

definition chunk_bytes :: "chunk \<Rightarrow> byte list" where
  "chunk_bytes c = take (get_used_size c) (get_used_ctx c)"

definition content :: "buffer \<Rightarrow> byte list" where
  "content b = concat (map chunk_bytes (chunks b))"

text \<open>Every chunk but the last is filled to its end, and none is consumed to its end.\<close>

definition chunks_inv :: "chunk list \<Rightarrow> bool" where
  "chunks_inv cs \<longleftrightarrow>
     (\<forall>c \<in> set cs. chunk_wf c) \<and>
     (\<forall>c \<in> set (butlast cs). free_pos c = MAX_CTX)"

definition buf_inv :: "buffer \<Rightarrow> bool" where
  "buf_inv b \<longleftrightarrow> chunk_size b = int (length (chunks b)) \<and> chunks_inv (chunks b)"

lemma chunks_inv_simps [simp]:
  "chunks_inv []"
  "chunks_inv [c] = chunk_wf c"
  "cs \<noteq> [] \<Longrightarrow> chunks_inv (c # cs) \<longleftrightarrow>
     chunk_wf c \<and> free_pos c = MAX_CTX \<and> chunks_inv cs"
  by (auto simp: chunks_inv_def)

lemma chunks_inv_snoc:
  "chunks_inv (cs @ [c]) \<longleftrightarrow>
     chunk_wf c \<and> (\<forall>d \<in> set cs. chunk_wf d \<and> free_pos d = MAX_CTX)"
  by (auto simp: chunks_inv_def)

lemma chunk_bytes_length [simp]: "chunk_wf c \<Longrightarrow> length (chunk_bytes c) = get_used_size c"
  by (auto simp: chunk_bytes_def get_used_size_def get_used_ctx_def chunk_wf_def)

lemma chunk_new_wf [simp]: "chunk_wf chunk_new" "chunk_bytes chunk_new = []"
  "used_pos chunk_new = 0" "free_pos chunk_new = 0" "get_free_size chunk_new = MAX_CTX"
  by (simp_all add: chunk_wf_def chunk_new_def chunk_bytes_def get_used_size_def get_free_size_def)

lemma chunk_clear_wf [simp]:
  "chunk_wf c \<Longrightarrow> chunk_wf (chunk_clear c)" "chunk_bytes (chunk_clear c) = []"
  by (simp_all add: chunk_wf_def chunk_clear_def chunk_bytes_def get_used_size_def)

lemma chunk_append_ok:
  assumes "chunk_wf c" "length data \<le> get_free_size c"
  shows "\<exists>c'. chunk_append data c = Inr c' \<and> chunk_wf c' \<and> used_pos c' = used_pos c \<and>
           free_pos c' = free_pos c + length data \<and> chunk_bytes c' = chunk_bytes c @ data"
proof -
  let ?ctx = "take (free_pos c) (ck_ctx c) @ data @ drop (free_pos c + length data) (ck_ctx c)"
  let ?c = "c\<lparr>ck_ctx := ?ctx, free_pos := free_pos c + length data\<rparr>"
  have wf: "length (ck_ctx c) = MAX_CTX" "used_pos c \<le> free_pos c" "used_pos c < MAX_CTX"
      "free_pos c + length data \<le> MAX_CTX"
    using assms by (auto simp: chunk_wf_def get_free_size_def)
  have "chunk_append data c = Inr ?c"
    using wf by (simp add: chunk_append_def memcpy_def chunk_add_used_def Let_def)
  moreover have "chunk_wf ?c" using wf by (simp add: chunk_wf_def)
  moreover have "chunk_bytes ?c = chunk_bytes c @ data"
    using wf by (simp add: chunk_bytes_def get_used_size_def get_used_ctx_def drop_take)
  ultimately show ?thesis by (intro exI [of _ ?c]) simp
qed

lemma chunk_remove_ok:
  assumes "chunk_wf c" "len < get_used_size c"
  shows "\<exists>c'. chunk_remove_used len c = Inr c' \<and> chunk_wf c' \<and> free_pos c' = free_pos c \<and>
           chunk_bytes c' = drop len (chunk_bytes c)"
proof -
  let ?c = "c\<lparr>used_pos := used_pos c + len\<rparr>"
  have le: "used_pos c + len < free_pos c" "free_pos c \<le> MAX_CTX"
    using assms by (simp_all add: get_used_size_def chunk_wf_def)
  then have "chunk_remove_used len c = Inr ?c"
    by (simp add: chunk_remove_used_def check_def)
  moreover have "chunk_bytes ?c = drop len (chunk_bytes c)"
    by (simp add: chunk_bytes_def get_used_size_def get_used_ctx_def drop_take add.commute)
  moreover have "chunk_wf ?c" using assms(1) le by (simp add: chunk_wf_def)
  ultimately show ?thesis by (intro exI [of _ ?c]) simp
qed

section \<open>Appending\<close>

lemma content_set_back:
  "chunks b \<noteq> [] \<Longrightarrow> chunk_bytes c = chunk_bytes (last (chunks b)) @ data \<Longrightarrow>
     content (set_back c b) = content b @ data"
  by (cases "chunks b" rule: rev_cases) (simp_all add: content_def set_back_def)

lemma set_back_simps [simp]:
  "chunk_size (set_back c b) = chunk_size b" "chunk_max (set_back c b) = chunk_max b"
  "large (set_back c b) = large b" "chunks (set_back c b) \<noteq> []"
  "chunks b \<noteq> [] \<Longrightarrow> length (chunks (set_back c b)) = length (chunks b)"
  "last (chunks (set_back c b)) = c"
  by (simp_all add: set_back_def)

lemma buf_inv_set_back:
  "buf_inv b \<Longrightarrow> chunks b \<noteq> [] \<Longrightarrow> chunk_wf c \<Longrightarrow> buf_inv (set_back c b)"
  by (cases "chunks b" rule: rev_cases) (auto simp: buf_inv_def set_back_def chunks_inv_snoc)

lemma buf_inv_last: "buf_inv b \<Longrightarrow> chunks b \<noteq> [] \<Longrightarrow> chunk_wf (last (chunks b))"
  by (simp add: buf_inv_def chunks_inv_def)

lemma reserve_ok:
  assumes "buf_inv b"
  shows "buf_inv (snd (reserve b))" "content (snd (reserve b)) = content b"
    "chunks (snd (reserve b)) \<noteq> []"
    "fst (reserve b) = get_free_size (last (chunks (snd (reserve b))))"
    "large (snd (reserve b)) = large b" "chunk_max (snd (reserve b)) = chunk_max b"
proof -
  have full: "free_pos (last (chunks b)) = MAX_CTX"
    if "chunks b \<noteq> []" "get_free_size (last (chunks b)) = 0"
    using that buf_inv_last [OF assms(1) that(1)] by (simp add: get_free_size_def chunk_wf_def)
  show "buf_inv (snd (reserve b))"
  proof (cases "chunks b = [] \<or> get_free_size (last (chunks b)) = 0")
    case True
    have "chunks_inv (chunks b @ [chunk_new])"
    proof (cases "chunks b" rule: rev_cases)
      case (snoc cs c)
      then have "chunks_inv ((cs @ [c]) @ [chunk_new])"
        using assms True full unfolding chunks_inv_snoc by (auto simp: chunks_inv_snoc buf_inv_def)
      then show ?thesis by (simp add: snoc)
    qed simp
    then show ?thesis using True assms(1)
      by (simp add: reserve_def new_chunk_def Let_def buf_inv_def)
  qed (use assms in \<open>simp add: reserve_def\<close>)
  show "content (snd (reserve b)) = content b" "chunks (snd (reserve b)) \<noteq> []"
    "fst (reserve b) = get_free_size (last (chunks (snd (reserve b))))"
    "large (snd (reserve b)) = large b" "chunk_max (snd (reserve b)) = chunk_max b"
    by (auto simp: reserve_def new_chunk_def Let_def content_def)
qed

lemma append_raw_ok:
  assumes "buf_inv b"
  shows "\<exists>b'. append_raw data b = Inr b' \<and> buf_inv b' \<and> chunks b' \<noteq> [] \<and>
           content b' = content b @ data \<and> large b' = large b \<and> chunk_max b' = chunk_max b"
  using assms
proof (induction data b rule: append_raw.induct)
  case (1 data b)
  define b1 where "b1 = snd (reserve b)"
  define size where "size = min (fst (reserve b)) (length data)"
  note res = reserve_ok [OF "1.prems", folded b1_def]
  have free: "length (take size data) \<le> get_free_size (last (chunks b1))"
    using res(4) by (simp add: size_def)
  obtain c where c: "chunk_append (take size data) (last (chunks b1)) = Inr c" "chunk_wf c"
      "chunk_bytes c = chunk_bytes (last (chunks b1)) @ take size data"
    using chunk_append_ok [OF buf_inv_last [OF res(1,3)] free] by blast
  let ?b = "set_back c b1"
  have ok: "buf_inv ?b" "content ?b = content b @ take size data"
    using buf_inv_set_back [OF res(1,3) c(2)] content_set_back [OF res(3) c(3)] res
    by simp_all
  show ?case
  proof (cases "drop size data = []")
    case True
    then have "append_raw data b = Inr ?b"
      using c(1) by (subst append_raw.simps) (simp add: Let_def b1_def size_def)
    moreover have "take size data = data" using True by simp
    ultimately show ?thesis using ok res by simp
  next
    case False
    obtain b' where b': "append_raw (drop size data) ?b = Inr b'" "buf_inv b'"
        "chunks b' \<noteq> []" "content b' = content ?b @ drop size data" "large b' = large ?b"
        "chunk_max b' = chunk_max ?b"
      using "1.IH" [OF refl refl c(1) [unfolded b1_def size_def] refl refl] False ok
      unfolding b1_def size_def by blast
    have "append_raw data b = Inr b'"
      using c(1) False b'(1) by (subst append_raw.simps) (simp add: Let_def b1_def size_def)
    then show ?thesis
      using b' ok(2) res append_take_drop_id [of size data] by simp
  qed
qed

lemma append_ok:
  assumes "buf_inv b"
  shows "\<exists>r b'. append data b = Inr (r, b') \<and> buf_inv b' \<and> chunks b' \<noteq> [] \<and>
           content b' = content b @ data \<and> r = (if is_overflow b' then 1 else 0)"
proof -
  obtain b' where "append_raw data b = Inr b'" "buf_inv b'" "chunks b' \<noteq> []"
      "content b' = content b @ data"
    using append_raw_ok [OF assms] by blast
  then show ?thesis by (intro exI conjI) (auto simp: append_def is_overflow_def)
qed

section \<open>Removing\<close>

lemma chunks_inv_tl: "chunks_inv (c # cs) \<Longrightarrow> chunks_inv cs"
  by (cases "cs = []") simp_all

lemma chunks_inv_hd: "chunks_inv (c # cs) \<Longrightarrow> chunk_wf c"
  by (cases "cs = []") simp_all

lemma get_used_pos: "chunks_inv (c # cs) \<Longrightarrow> cs \<noteq> [] \<Longrightarrow> 0 < get_used_size c"
  by (auto simp: chunk_wf_def get_used_size_def)

lemma concat_bytes_Nil:
  "chunks_inv cs \<Longrightarrow> concat (map chunk_bytes cs) = [] \<Longrightarrow> cs = [] \<or> cs = [last cs]"
proof (cases cs)
  case (Cons c cs')
  assume "chunks_inv cs" "concat (map chunk_bytes cs) = []"
  then have "chunk_bytes c = []" "chunk_wf c" "chunks_inv (c # cs')"
    using Cons chunks_inv_hd by auto
  then have "get_used_size c = 0" by (metis chunk_bytes_length list.size(3))
  with get_used_pos [OF \<open>chunks_inv (c # cs')\<close>] have "cs' = []" by (metis less_irrefl)
  then show ?thesis using Cons by simp
qed simp

lemma remove_loop_ok:
  assumes "chunks_inv cs" "cs \<noteq> []" "len \<le> length (concat (map chunk_bytes cs))"
    and "n = int (length cs)"
  shows "\<exists>r cs' n'. remove_loop len cs n = Inr (r, cs', n') \<and> chunks_inv cs' \<and> cs' \<noteq> [] \<and>
           n' = int (length cs') \<and> concat (map chunk_bytes cs') = drop len (concat (map chunk_bytes cs)) \<and>
           (\<not> r \<longrightarrow> concat (map chunk_bytes cs') = [])"
  using assms
proof (induction cs arbitrary: len n)
  case (Cons c cs)
  note wf = chunks_inv_hd [OF Cons.prems(1)]
  let ?used = "get_used_size c"
  consider (more) "?used > len" | (all) "?used = len" | (less) "?used < len" by linarith
  then show ?case
  proof cases
    case more
    then obtain c' where "chunk_remove_used len c = Inr c'" "chunk_wf c'" "free_pos c' = free_pos c"
        "chunk_bytes c' = drop len (chunk_bytes c)"
      using chunk_remove_ok [OF wf] by blast
    moreover then have "chunks_inv (c' # cs)"
      using Cons.prems(1) by (cases "cs = []") simp_all
    ultimately show ?thesis
      using more Cons.prems(4) wf
      by (intro exI [of _ True] exI [of _ "c' # cs"] exI [of _ n]) (simp add: Let_def)
  next
    case all
    show ?thesis
    proof (cases cs)
      case Nil
      then show ?thesis using all wf Cons.prems(4)
        by (intro exI [of _ False] exI [of _ "[chunk_clear c]"] exI [of _ n]) (simp add: Let_def)
    next
      case (Cons d ds)
      then show ?thesis
        using all wf Cons.prems chunks_inv_tl [OF Cons.prems(1)]
        by (intro exI [of _ True] exI [of _ cs] exI [of _ "n - 1"])
          (simp add: Let_def del_chunk_def)
    qed
  next
    case less
    then have ne: "cs \<noteq> []" and le: "len - ?used \<le> length (concat (map chunk_bytes cs))"
      using Cons.prems(3) wf by auto
    from Cons.IH [OF chunks_inv_tl [OF Cons.prems(1)] ne le, of "n - 1"] show ?thesis
      using less wf Cons.prems(4) ne by (auto simp: Let_def del_chunk_def)
  qed
qed simp

lemma remove_ok:
  assumes "buf_inv b" "chunks b \<noteq> []" "len \<le> length (content b)"
  shows "\<exists>r b'. remove len b = Inr (r, b') \<and> buf_inv b' \<and> chunks b' \<noteq> [] \<and>
           content b' = drop len (content b) \<and> (\<not> r \<longrightarrow> content b' = []) \<and>
           large b' = large b \<and> chunk_max b' = chunk_max b"
proof -
  obtain r cs n where r: "remove_loop len (chunks b) (chunk_size b) = Inr (r, cs, n)"
      "chunks_inv cs" "cs \<noteq> []" "n = int (length cs)"
      "concat (map chunk_bytes cs) = drop len (content b)"
      "\<not> r \<longrightarrow> concat (map chunk_bytes cs) = []"
    using remove_loop_ok [of "chunks b" len "chunk_size b"] assms
    unfolding buf_inv_def content_def by blast
  have "length cs = 1 \<or> get_free_size (hd cs) = 0"
  proof (cases cs)
    case (Cons c cs')
    then show ?thesis using r(2) by (cases "cs' = []") (simp_all add: get_free_size_def)
  qed (use r(3) in simp)
  then show ?thesis
    using r by (intro exI [of _ r] exI [of _ "b\<lparr>chunks := cs, chunk_size := n\<rparr>"])
      (simp add: remove_def buf_inv_def content_def check_def)
qed

lemma remove_loop_short:
  assumes "chunks_inv cs" "length (concat (map chunk_bytes cs)) < len" "n = int (length cs)"
  shows "remove_loop len cs n = Inl (if cs = [] then NullDeref else AssertionFailed)"
  using assms
proof (induction cs arbitrary: len n)
  case (Cons c cs)
  have "get_used_size c < len"
    using chunks_inv_hd [OF Cons.prems(1)] Cons.prems(2) by auto
  then show ?case
    using Cons.IH [OF chunks_inv_tl [OF Cons.prems(1)], of "len - get_used_size c" "n - 1"] Cons.prems
      chunks_inv_hd [OF Cons.prems(1)]
    by (auto simp: Let_def del_chunk_def)
qed simp

section \<open>Reading\<close>

lemma double_until_ge: "0 < l \<Longrightarrow> len \<le> double_until l len"
proof (induction l len rule: double_until.induct)
  case (1 l len)
  then show ?case by (subst double_until.simps) auto
qed

lemma get_large_buffer_simps [simp]:
  "chunks (get_large_buffer len b) = chunks b"
  "chunk_size (get_large_buffer len b) = chunk_size b"
  "chunk_max (get_large_buffer len b) = chunk_max b"
  by (simp_all add: get_large_buffer_def Let_def)

lemma get_large_buffer_length: "len \<le> length (large (get_large_buffer len b))"
  by (auto simp: get_large_buffer_def Let_def double_until_ge)

lemma content_cong: "chunks b = chunks b' \<Longrightarrow> content b = content b'"
  by (simp add: content_def)

lemma buf_inv_cong:
  "chunks b = chunks b' \<Longrightarrow> chunk_size b = chunk_size b' \<Longrightarrow> buf_inv b \<longleftrightarrow> buf_inv b'"
  by (simp add: buf_inv_def)

lemma take_used_bytes:
  "n \<le> get_used_size c \<Longrightarrow> take n (get_used_ctx c) = take n (chunk_bytes c)"
  by (simp add: chunk_bytes_def min_def)

lemma flat_loop_take:
  "\<forall>c \<in> set cs. chunk_wf c \<Longrightarrow> flat_loop len cs = take len (concat (map chunk_bytes cs))"
proof (induction cs arbitrary: len)
  case (Cons c cs)
  then have wf: "length (chunk_bytes c) = get_used_size c" by simp
  have "take (min len (get_used_size c)) (get_used_ctx c) = take len (chunk_bytes c)"
    unfolding take_used_bytes [OF min.cobounded2] using wf by (simp add: min_def)
  then show ?case using Cons wf by (auto simp: Let_def min_def)
qed simp

lemma memcpy_ok:
  "pos + length data \<le> length ctx \<Longrightarrow>
     memcpy ctx pos data = Inr (take pos ctx @ data @ drop (pos + length data) ctx)"
  by (simp add: memcpy_def)

lemma to_flat_ctx_ok:
  assumes "buf_inv b" "chunks b \<noteq> []"
  shows "\<exists>l. to_flat_ctx len b =
      Inr (if content b = [] \<or> length (content b) < len then None else Some (take len (content b)),
           b\<lparr>large := l\<rparr>)"
proof -
  obtain c cs where cs: "chunks b = c # cs" using assms(2) by (cases "chunks b") auto
  note inv = assms(1) [unfolded buf_inv_def cs]
  have wf: "chunk_wf c" "\<forall>c \<in> set (chunks b). chunk_wf c"
    using assms(1) by (auto simp: buf_inv_def chunks_inv_def cs)
  have ct: "content b = chunk_bytes c @ concat (map chunk_bytes cs)"
    by (simp add: content_def cs)
  consider (empty) "get_used_size c = 0" | (front) "0 < get_used_size c" "len \<le> get_used_size c"
    | (more) "0 < get_used_size c" "get_used_size c < len" by linarith
  then show ?thesis
  proof cases
    case empty
    then have "cs = []" "chunk_bytes c = []"
      using get_used_pos [of c cs] inv wf(1) by (auto simp: chunk_bytes_def)
    then have "content b = []" using ct by simp
    then show ?thesis using empty
      by (intro exI [of _ "large b"]) (simp add: to_flat_ctx_def cs)
  next
    case front
    then have "chunk_bytes c \<noteq> []" using chunk_bytes_length [OF wf(1)] by force
    then have "content b \<noteq> []" unfolding ct by simp
    then have "content b \<noteq> []" "\<not> length (content b) < len"
      "take len (get_used_ctx c) = take len (content b)"
      using front(2) wf(1) ct take_used_bytes [OF front(2)] by simp_all
    then show ?thesis using front
      by (intro exI [of _ "large b"]) (simp add: to_flat_ctx_def cs)
  next
    case more
    let ?b = "get_large_buffer len b" and ?d = "take len (content b)"
    have d: "flat_loop len (chunks b) = ?d"
      unfolding content_def by (rule flat_loop_take [OF wf(2)])
    have fit: "0 + length ?d \<le> length (large ?b)"
      using get_large_buffer_length [of len b] by simp
    have "chunk_bytes c \<noteq> []" using chunk_bytes_length [OF wf(1)] more(1) by force
    then have "content b \<noteq> []" unfolding ct by simp
    moreover have "?b\<lparr>large := x\<rparr> = b\<lparr>large := x\<rparr>" for x
      by (simp add: get_large_buffer_def Let_def)
    ultimately show ?thesis using more d
      by (intro exI [of _ "?d @ drop (length ?d) (large ?b)"])
        (simp add: to_flat_ctx_def cs memcpy_ok [OF fit] not_less Let_def del: flat_loop.simps)
  qed
qed

lemma all_flat_loop_ok:
  "\<forall>c \<in> set cs. chunk_wf c \<Longrightarrow> n + length cs * MAX_CTX \<le> m \<Longrightarrow>
     all_flat_loop m n cs = Inr (concat (map chunk_bytes cs))"
proof (induction cs arbitrary: n)
  case (Cons c cs)
  have "get_used_size c \<le> MAX_CTX"
    using Cons.prems(1) by (auto simp: chunk_wf_def get_used_size_def)
  with Cons show ?case by (simp add: Let_def chunk_bytes_def)
qed simp

lemma all_to_flat_ctx_ok:
  assumes "buf_inv b"
  shows "\<exists>l. all_to_flat_ctx b =
      Inr (if chunks b = [] then None else Some (content b), b\<lparr>large := l\<rparr>)"
proof -
  have wf: "\<forall>c \<in> set (chunks b). chunk_wf c" and sz: "chunk_size b = int (length (chunks b))"
    using assms by (auto simp: buf_inv_def chunks_inv_def)
  consider (nil) "chunks b = []" | (one) c where "chunks b = [c]"
    | (more) c d cs where "chunks b = c # d # cs" by (metis list.exhaust)
  then show ?thesis
  proof cases
    case nil
    then show ?thesis by (intro exI [of _ "large b"]) (simp add: all_to_flat_ctx_def)
  next
    case one
    then show ?thesis
      by (intro exI [of _ "large b"]) (simp add: all_to_flat_ctx_def content_def chunk_bytes_def)
  next
    case more
    let ?m = "nat (chunk_size b) * MAX_CTX"
    let ?b = "get_large_buffer ?m b"
    have m: "?m = length (chunks b) * MAX_CTX" using sz by simp
    have all: "all_flat_loop ?m 0 (chunks b) = Inr (content b)"
      unfolding content_def by (rule all_flat_loop_ok [OF wf]) (simp add: m)
    have le: "length (content b) \<le> ?m"
    proof -
      have "length (concat (map chunk_bytes cs')) \<le> length cs' * MAX_CTX"
        if "\<forall>c \<in> set cs'. chunk_wf c" for cs'
        using that by (induction cs') (auto simp: chunk_wf_def get_used_size_def chunk_bytes_def)
      then show ?thesis unfolding m content_def using wf by blast
    qed
    have fit: "0 + length (content b) \<le> length (large ?b)"
      using get_large_buffer_length [of ?m b] le by linarith
    have "0 < get_used_size c"
      using get_used_pos [of c "d # cs"] assms by (simp add: buf_inv_def more)
    then have "chunk_bytes c \<noteq> []" using chunk_bytes_length [of c] wf more by force
    then have ne: "content b \<noteq> []" by (simp add: content_def more)
    have "?b\<lparr>large := x\<rparr> = b\<lparr>large := x\<rparr>" for x
      by (simp add: get_large_buffer_def Let_def)
    note eq = this
    have "all_to_flat_ctx b =
      (let max_ctx = nat (chunk_size b) * MAX_CTX; b1 = get_large_buffer max_ctx b
       in bind_res (all_flat_loop max_ctx 0 (chunks b)) (\<lambda>copied.
          bind_res (check (length copied > 0) AssertionFailed) (\<lambda>_.
          bind_res (memcpy (large b1) 0 copied) (\<lambda>l.
            Inr (Some (take (length copied) l), b1\<lparr>large := l\<rparr>)))))"
      unfolding all_to_flat_ctx_def more by simp
    also have "\<dots> = Inr (Some (content b),
        b\<lparr>large := content b @ drop (length (content b)) (large ?b)\<rparr>)"
      using ne by (simp add: Let_def all memcpy_ok [OF fit] eq del: all_flat_loop.simps)
    finally show ?thesis using more by auto
  qed
qed

lemma check_used_loop_ge:
  "len \<le> check_used_loop len n cs \<longleftrightarrow> len \<le> n + (\<Sum>c\<leftarrow>cs. get_used_size c)"
  by (induction cs arbitrary: n) (auto simp: add.assoc)

lemma content_length:
  assumes "buf_inv b"
  shows "length (content b) = (\<Sum>c\<leftarrow>chunks b. get_used_size c)"
proof -
  have "length (concat (map chunk_bytes cs)) = (\<Sum>c\<leftarrow>cs. get_used_size c)"
    if "\<forall>c \<in> set cs. chunk_wf c" for cs
    using that by (induction cs) auto
  then show ?thesis using assms by (auto simp: buf_inv_def chunks_inv_def content_def)
qed

lemma get_all_used_size_sum: "get_all_used_size b = (\<Sum>c\<leftarrow>chunks b. get_used_size c)"
proof -
  have "foldl (\<lambda>u c. u + get_used_size c) n cs = n + (\<Sum>c\<leftarrow>cs. get_used_size c)" for n cs
    by (induction cs arbitrary: n) auto
  then show ?thesis by (simp add: get_all_used_size_def)
qed

section \<open>Clearing\<close>

lemma clear_loop_ok:
  "cs \<noteq> [] \<Longrightarrow> n = int (length cs) \<Longrightarrow> clear_loop cs n = Inr ([last cs], 1)"
  by (induction cs n rule: clear_loop.induct) (auto simp: del_chunk_def)

lemma clear_ok:
  assumes "buf_inv b"
  shows "\<exists>b'. clear b = Inr b' \<and> buf_inv b' \<and> content b' = [] \<and> length (chunks b') \<le> 1"
proof (cases "chunks b = []")
  case True
  then show ?thesis using assms by (simp add: clear_def content_def)
next
  case False
  have "clear_loop (chunks b) (chunk_size b) = Inr ([last (chunks b)], 1)"
    using clear_loop_ok [OF False] assms by (simp add: buf_inv_def)
  then show ?thesis using False buf_inv_last [OF assms False]
    by (simp add: clear_def buf_inv_def content_def)
qed

section \<open>Reserving and committing\<close>

text \<open>A transaction that still refers to memory it may write.\<close>

definition ts_valid :: "transaction \<Rightarrow> buffer \<Rightarrow> bool" where
  "ts_valid ts b \<longleftrightarrow> chunks b \<noteq> [] \<and>
     (case ts_ctx ts of
        PNull \<Rightarrow> False
      | PChunk off \<Rightarrow> ts_internal ts \<and> off = free_pos (last (chunks b)) \<and>
          ts_len ts \<le> get_free_size (last (chunks b))
      | PLarge \<Rightarrow> \<not> ts_internal ts \<and> ts_len ts \<le> length (large b))"

lemma reserve_idle:
  assumes "chunks b \<noteq> []" "get_free_size (last (chunks b)) \<noteq> 0"
  shows "reserve b = (get_free_size (last (chunks b)), b)"
  using assms by (simp add: reserve_def)

lemma flat_reserve_ok:
  assumes "buf_inv b" "flat_reserve len b = (ts, b')"
  shows "buf_inv b'" "content b' = content b" "ts_valid ts b'" "len \<le> ts_len ts"
proof -
  obtain n b1 where r: "reserve b = (n, b1)" by fastforce
  note ok = reserve_ok [OF assms(1), unfolded r snd_conv fst_conv]
  have "n \<noteq> 0" using reserve_pos [of b] r by simp
  then have r2: "reserve b1 = (n, b1)" using reserve_idle ok by metis
  show "buf_inv b'" "content b' = content b" "ts_valid ts b'" "len \<le> ts_len ts"
    using assms(2) ok r r2 get_large_buffer_length [of len b1]
      buf_inv_cong [of "get_large_buffer len b1" b1] content_cong [of "get_large_buffer len b1" b1]
    by (auto simp: flat_reserve_def ts_valid_def split: if_splits)
qed

lemma any_seserve_ok:
  assumes "buf_inv b" "any_seserve no_overflow b = (ts, b')"
  shows "buf_inv b'" "content b' = content b"
    "no_overflow \<and> is_overflow b \<Longrightarrow> ts = ts_init \<and> b' = b"
    "\<not> (no_overflow \<and> is_overflow b) \<Longrightarrow> ts_valid ts b' \<and> 0 < ts_len ts"
proof -
  obtain n b1 where r: "reserve b = (n, b1)" by fastforce
  note ok = reserve_ok [OF assms(1), unfolded r snd_conv fst_conv]
  have "0 < n" using reserve_pos [of b] r by simp
  then show "buf_inv b'" "content b' = content b"
    "no_overflow \<and> is_overflow b \<Longrightarrow> ts = ts_init \<and> b' = b"
    "\<not> (no_overflow \<and> is_overflow b) \<Longrightarrow> ts_valid ts b' \<and> 0 < ts_len ts"
    using assms ok r
    by (auto simp: any_seserve_def ts_valid_def is_overflow_def not_less split: if_splits)
qed

lemma write_commit_ok:
  assumes inv: "buf_inv b" and ts: "ts_valid ts b" and len: "length data \<le> ts_len ts"
  shows "\<exists>b1 b2. ts_write ts data b = Inr b1 \<and> content b1 = content b \<and>
           commit ts (int (length data)) b1 = Inr b2 \<and> buf_inv b2 \<and> chunks b2 \<noteq> [] \<and>
           content b2 = content b @ data"
proof (cases "ts_ctx ts")
  case PNull
  then show ?thesis using ts by (simp add: ts_valid_def)
next
  case (PChunk off)
  let ?c = "last (chunks b)"
  have ne: "chunks b \<noteq> []" and off: "off = free_pos ?c" and int: "ts_internal ts"
    and fit: "length data \<le> get_free_size ?c"
    using ts PChunk len by (simp_all add: ts_valid_def)
  note wf = buf_inv_last [OF inv ne]
  let ?ctx = "take off (ck_ctx ?c) @ data @ drop (off + length data) (ck_ctx ?c)"
  let ?c1 = "?c\<lparr>ck_ctx := ?ctx\<rparr>"
  have room: "off + length data \<le> length (ck_ctx ?c)"
    using wf fit off by (simp add: chunk_wf_def get_free_size_def le_diff_conv2)
  have c1: "chunk_wf ?c1" "chunk_bytes ?c1 = chunk_bytes ?c"
    using wf room off by (simp_all add: chunk_wf_def chunk_bytes_def get_used_ctx_def
        get_used_size_def drop_take)
  obtain c2 where c2: "chunk_append data ?c = Inr c2" "chunk_wf c2"
      "chunk_bytes c2 = chunk_bytes ?c @ data"
    using chunk_append_ok [OF wf fit] by blast
  then have add: "chunk_add_used (length data) ?c1 = Inr c2"
    using memcpy_ok [OF room] off by (simp add: chunk_append_def)
  let ?b1 = "set_back ?c1 b" and ?b2 = "set_back c2 (set_back ?c1 b)"
  have b1: "ts_write ts data b = Inr ?b1"
    using len PChunk memcpy_ok [OF room] by (simp add: ts_write_def Let_def)
  have ct: "content ?b1 = content b"
    using content_set_back [OF ne, of ?c1 "[]"] c1 by simp
  have inv2: "buf_inv ?b2"
    by (rule buf_inv_set_back [OF buf_inv_set_back [OF inv ne c1(1)] _ c2(2)]) simp
  show ?thesis
  proof (cases "data = []")
    case True
    then show ?thesis using b1 ct buf_inv_set_back [OF inv ne c1(1)]
      by (intro exI [of _ ?b1]) (simp add: commit_def)
  next
    case False
    have "commit ts (int (length data)) ?b1 = Inr ?b2"
      using False PChunk off int add by (simp add: commit_def)
    moreover have "content ?b2 = content ?b1 @ data"
      by (rule content_set_back) (simp_all add: c1 c2)
    ultimately show ?thesis using b1 ct inv2 by (intro exI [of _ ?b1] exI [of _ ?b2]) simp
  qed
next
  case PLarge
  let ?l = "data @ drop (length data) (large b)"
  have ne: "chunks b \<noteq> []" and int: "\<not> ts_internal ts" and fit: "0 + length data \<le> length (large b)"
    using ts PLarge len by (simp_all add: ts_valid_def)
  let ?b1 = "b\<lparr>large := ?l\<rparr>"
  have b1: "ts_write ts data b = Inr ?b1" "buf_inv ?b1" "content ?b1 = content b"
    using len PLarge memcpy_ok [OF fit] inv by (simp_all add: ts_write_def buf_inv_def content_def)
  show ?thesis
  proof (cases "data = []")
    case True
    then show ?thesis using b1 ne by (intro exI [of _ ?b1]) (simp add: commit_def)
  next
    case False
    then have "commit ts (int (length data)) ?b1 = append_raw data ?b1"
      using PLarge int by (simp add: commit_def)
    then show ?thesis using append_raw_ok [OF b1(2), of data] b1 by force
  qed
qed

section \<open>The buffer as a byte queue\<close>

text \<open>The calls a client makes, without the return codes it may ignore.\<close>

definition buf_put :: "byte list \<Rightarrow> buffer \<Rightarrow> buffer result" where
  "buf_put xs b = bind_res (append xs b) (\<lambda>(r, b'). Inr b')"

definition buf_drop :: "nat \<Rightarrow> buffer \<Rightarrow> buffer result" where
  "buf_drop n b = bind_res (remove n b) (\<lambda>(r, b'). Inr b')"

interpretation bq: byte_queue buf_inv content buf_put to_flat_ctx buf_drop "\<lambda>b. chunks b \<noteq> []"
proof
  fix b :: buffer and xs n
  assume inv: "buf_inv b"
  show "\<exists>b'. buf_put xs b = Inr b' \<and> buf_inv b' \<and> chunks b' \<noteq> [] \<and> content b' = content b @ xs"
    using append_ok [OF inv, of xs] by (auto simp: buf_put_def)
  assume ne: "chunks b \<noteq> []"
  show "\<exists>b'. to_flat_ctx n b =
      Inr (if content b = [] \<or> length (content b) < n then None else Some (take n (content b)), b') \<and>
      buf_inv b' \<and> chunks b' \<noteq> [] \<and> content b' = content b"
  proof -
    obtain l where "to_flat_ctx n b = Inr (if content b = [] \<or> length (content b) < n then None
        else Some (take n (content b)), b\<lparr>large := l\<rparr>)"
      using to_flat_ctx_ok [OF inv ne] by blast
    then show ?thesis using inv ne
      by (intro exI [of _ "b\<lparr>large := l\<rparr>"]) (simp add: buf_inv_def content_def)
  qed
  assume "n \<le> length (content b)"
  then show "\<exists>b'. buf_drop n b = Inr b' \<and> buf_inv b' \<and> chunks b' \<noteq> [] \<and>
      content b' = drop n (content b)"
    using remove_ok [OF inv ne] by (fastforce simp: buf_drop_def)
qed

lemma buffer_init_inv [simp]: "buf_inv buffer_init" "content buffer_init = []"
  by (simp_all add: buffer_init_def buf_inv_def content_def)

lemma new_chunk_init [simp]: "buf_inv (new_chunk buffer_init)" "chunks (new_chunk buffer_init) \<noteq> []"
  "content (new_chunk buffer_init) = []"
  by (simp_all add: buffer_init_def new_chunk_def buf_inv_def content_def)

section \<open>Properties\<close>

text \<open>
  C23: The network buffer is a first-in first-out byte queue. Any sequence of appends and
  reads (look at \<open>n\<close> bytes, and remove them when they are there), from any consistent
  non-empty buffer, runs without a fault, and the bytes read, followed by the bytes left,
  are the bytes that were there followed by the bytes appended, in order, whatever the
  chunk boundaries.
\<close>

theorem buffer_fifo:
  assumes "buf_inv b" "chunks b \<noteq> []"
  shows "\<exists>out b'. queue_run buf_put to_flat_ctx buf_drop ops b = Inr (out, b') \<and>
           buf_inv b' \<and> content b @ puts ops = out @ content b'"
  using bq.queue_run_fifo [OF assms] by blast

theorem buffer_fifo_witness:
  "\<exists>out b'. queue_run buf_put to_flat_ctx buf_drop [Put [1, 2, 3], Get 2, Get 2, Put [4], Get 2]
       (new_chunk buffer_init) = Inr (out, b') \<and> buf_inv b' \<and> [1, 2, 3, 4] = out @ content b'"
  using buffer_fifo [of "new_chunk buffer_init" "[Put [1, 2, 3], Get 2, Get 2, Put [4], Get 2]"]
  by simp

text \<open>
  Removing from a buffer. Up to the number of waiting bytes, \<open>remove\<close> drops exactly
  the first \<open>len\<close> bytes, keeps the invariant, and answers \<open>false\<close> only when nothing is
  left; asked for more than is there, it hits its assertion (or a null front chunk).
\<close>

theorem remove_drops:
  assumes "buf_inv b" "chunks b \<noteq> []"
  shows "if len \<le> length (content b)
         then \<exists>r b'. remove len b = Inr (r, b') \<and> buf_inv b' \<and> content b' = drop len (content b) \<and>
                (content b' = [] \<or> r)
         else remove len b = Inl AssertionFailed"
proof (cases "len \<le> length (content b)")
  case True
  then show ?thesis using remove_ok [OF assms] by fastforce
next
  case False
  then have "remove_loop len (chunks b) (chunk_size b) = Inl AssertionFailed"
    using remove_loop_short [of "chunks b" len "chunk_size b"] assms
    by (simp add: buf_inv_def content_def)
  then show ?thesis using False by (simp add: remove_def)
qed

theorem remove_drops_witness: "remove 1 (new_chunk buffer_init) = Inl AssertionFailed"
  using remove_drops [of "new_chunk buffer_init" 1] by simp

text \<open>
  Flat reads. With \<open>len\<close> bytes waiting, \<open>to_flat_ctx\<close> returns exactly the first
  \<open>len\<close> of them, copied through the thread's large buffer when they span chunks; with
  fewer it returns null. It changes nothing but the large buffer. On a buffer that never
  received a chunk it dereferences the null front pointer.
\<close>

theorem to_flat_ctx_prefix:
  assumes "buf_inv b"
  shows "\<exists>l. to_flat_ctx len b =
      (if chunks b = [] then Inl NullDeref
       else Inr (if content b = [] \<or> length (content b) < len then None
                 else Some (take len (content b)), b\<lparr>large := l\<rparr>))"
proof (cases "chunks b = []")
  case True
  then show ?thesis by (simp add: to_flat_ctx_def)
next
  case False
  then show ?thesis using to_flat_ctx_ok [OF assms False, of len] by simp
qed

theorem to_flat_ctx_prefix_witness: "\<exists>l::byte list. to_flat_ctx 3 buffer_init = Inl NullDeref"
  using to_flat_ctx_prefix [of buffer_init 3] by (simp add: buffer_init_def buf_inv_def)

text \<open>
  Reading everything. \<open>all_to_flat_ctx\<close> returns all waiting bytes as one block, and
  \<open>get_all_used_size\<close> and \<open>check_used_size\<close> agree with their number.
\<close>

theorem all_to_flat_ctx_content:
  assumes "buf_inv b"
  shows "(\<exists>l. all_to_flat_ctx b =
            Inr (if chunks b = [] then None else Some (content b), b\<lparr>large := l\<rparr>)) \<and>
         get_all_used_size b = length (content b) \<and>
         (check_used_size len b \<longleftrightarrow> len \<le> length (content b))"
  using all_to_flat_ctx_ok [OF assms] content_length [OF assms]
  by (simp_all add: get_all_used_size_sum check_used_size_def check_used_loop_ge)

theorem all_to_flat_ctx_content_witness: "get_all_used_size (new_chunk buffer_init) = 0"
  using all_to_flat_ctx_content [of "new_chunk buffer_init"] by simp

text \<open>
  Reserve, write, commit. A flat reservation of \<open>len\<close> bytes always succeeds and hands
  out at least \<open>len\<close> bytes, whether in the last chunk or in the large buffer; writing up to
  that many bytes through it changes nothing readable, and committing what was written
  appends exactly those bytes.
\<close>

theorem reserve_commit_appends:
  assumes "buf_inv b" "flat_reserve len b = (ts, b1)" "length data \<le> ts_len ts"
  shows "len \<le> ts_len ts \<and>
         (\<exists>b2 b3. ts_write ts data b1 = Inr b2 \<and> content b2 = content b \<and>
            commit ts (int (length data)) b2 = Inr b3 \<and> buf_inv b3 \<and>
            content b3 = content b @ data)"
  using flat_reserve_ok [OF assms(1,2)] write_commit_ok [of b1 ts data] assms(3) by metis

theorem reserve_commit_appends_witness:
  "\<exists>b2 b3. ts_write (fst (flat_reserve 2 buffer_init)) [7, 8] (snd (flat_reserve 2 buffer_init)) = Inr b2 \<and>
     commit (fst (flat_reserve 2 buffer_init)) 2 b2 = Inr b3 \<and> content b3 = [7, 8]"
proof -
  have "length [7, 8 :: byte] \<le> ts_len (fst (flat_reserve 2 buffer_init))"
    by (simp add: flat_reserve_def reserve_def buffer_init_def new_chunk_def Let_def
        get_free_size_def chunk_new_def MAX_CTX_def)
  then show ?thesis
    using reserve_commit_appends [of buffer_init 2 "fst (flat_reserve 2 buffer_init)"
        "snd (flat_reserve 2 buffer_init)" "[7, 8]"] by simp blast
qed

text \<open>
  The answer of \<open>remove\<close> may be wrong in one direction. When a receiver has reserved a
  new back chunk and not yet committed to it, draining the buffer answers \<open>true\<close> ("there is
  data left") although the buffer is empty.
\<close>

theorem remove_true_but_empty:
  assumes "buf_inv b" "chunks b = [c, d]" "get_used_size d = 0"
  shows "\<exists>b'. remove (length (content b)) b = Inr (True, b') \<and> content b' = []"
proof -
  have wf: "chunk_wf c" "free_pos c = MAX_CTX" "chunk_wf d" "chunk_size b = 2"
    using assms(1,2) by (simp_all add: buf_inv_def)
  have d: "chunk_bytes d = []" using assms(3) by (simp add: chunk_bytes_def)
  have "length (content b) = get_used_size c" using wf d assms(2) by (simp add: content_def)
  then show ?thesis using assms(2) d wf
    by (simp add: remove_def Let_def del_chunk_def content_def)
qed

theorem remove_true_but_empty_witness:
  "\<exists>b'. remove 1 (new_chunk \<lparr>chunks = [\<lparr>ck_ctx = replicate MAX_CTX 5, used_pos = 8191,
       free_pos = 8192\<rparr>], chunk_size = 1, chunk_max = 1, large = []\<rparr>) = Inr (True, b') \<and> content b' = []"
  (is "\<exists>b'. remove 1 ?b = _ \<and> _")
proof -
  have l: "length (content ?b) = 1"
    by (simp add: new_chunk_def content_def chunk_bytes_def get_used_size_def get_used_ctx_def MAX_CTX_def)
  have "buf_inv ?b"
    by (simp add: new_chunk_def buf_inv_def chunk_wf_def MAX_CTX_def chunk_new_def)
  from remove_true_but_empty [OF this, unfolded l] show ?thesis
    by (simp add: new_chunk_def chunk_new_def get_used_size_def)
qed

end
