(* ===== verification/GridAOI.thy ===== *)
theory GridAOI
  imports Prelude "HOL-Library.Word"
begin

text \<open>
  The grid area-of-interest index of \<open>scene/grid_aoi.hpp\<close> and \<open>scene/grid_aoi.cpp\<close>.

  An \<open>EntityCtx *\<close> is modelled by the entity's id: \<open>ga_heap\<close> maps it to the object, and
  reading through an id outside its domain is the fault \<open>Dangling\<close>. The objects live from
  \<open>new_entity_ctx\<close> to \<open>del_entity_ctx\<close>, which is not the time they are in \<open>ga_set\<close>
  (the keys of \<open>_entity_set\<close>): \<open>exit_entity\<close> erases the key first. An entity vector is a
  list of ids, in the order of the C++ vector; the recycling of vectors and contexts
  through the object pools is not visible to the callers and is left out. \<open>_pix_grid\<close> is
  not initialised by the constructor, so \<open>grid_aoi_init\<close> takes its value as an argument.
\<close>

section \<open>State\<close>

record entity_ctx =
  ec_mask :: "8 word"
  ec_x :: int
  ec_y :: int
  ec_interest :: "int list"

record grid_aoi =
  ga_width :: int
  ga_height :: int
  ga_pix :: int
  ga_vw :: int
  ga_vh :: int
  ga_grid :: "int list option list option"
  ga_heap :: "int \<rightharpoonup> entity_ctx"
  ga_set :: "int set"

definition interested :: "entity_ctx \<Rightarrow> bool" where
  "interested c \<longleftrightarrow> and (ec_mask c) 1 \<noteq> 0"

definition grid_aoi_init :: "int \<Rightarrow> grid_aoi" where
  "grid_aoi_init garbage =
     \<lparr>ga_width = 0, ga_height = 0, ga_pix = garbage, ga_vw = 0, ga_vh = 0, ga_grid = None,
      ga_heap = Map.empty, ga_set = {}\<rparr>"

definition pix_div :: "grid_aoi \<Rightarrow> int \<Rightarrow> int result" where
  "pix_div g v = (if ga_pix g = 0 then Inl DivByZero else Inr (c_div v (ga_pix g)))"

definition is_same_pos :: "grid_aoi \<Rightarrow> int \<Rightarrow> int \<Rightarrow> int \<Rightarrow> int \<Rightarrow> bool result" where
  "is_same_pos g x y dx dy =
     bind_res (pix_div g x) (\<lambda>gx. bind_res (pix_div g dx) (\<lambda>gdx.
       if gx \<noteq> gdx then Inr False
       else bind_res (pix_div g y) (\<lambda>gy. bind_res (pix_div g dy) (\<lambda>gdy. Inr (gy = gdy)))))"

definition set_visual_range :: "int \<Rightarrow> int \<Rightarrow> grid_aoi \<Rightarrow> bool \<times> grid_aoi" where
  "set_visual_range width height g =
     (if ga_pix g \<le> 0 then (False, g)
      else (True, g\<lparr>ga_vw := ceil_div width (ga_pix g), ga_vh := ceil_div height (ga_pix g)\<rparr>))"

definition set_size :: "int \<Rightarrow> int \<Rightarrow> int \<Rightarrow> grid_aoi \<Rightarrow> grid_aoi result" where
  "set_size width height pix g =
     bind_res (check (pix > 0 \<and> ga_grid g = None) AssertionFailed) (\<lambda>_.
       let w = ceil_div width pix; h = ceil_div height pix
       in if w * h < 0 then Inl BadAlloc
          else Inr (g\<lparr>ga_pix := pix, ga_width := w, ga_height := h,
                      ga_grid := Some (replicate (nat (w * h)) None)\<rparr>))"

definition valid_pos :: "grid_aoi \<Rightarrow> int \<Rightarrow> int \<Rightarrow> int \<Rightarrow> int \<Rightarrow> bool" where
  "valid_pos g x y dx dy \<longleftrightarrow> \<not> (x < 0 \<or> y < 0 \<or> dx \<ge> ga_width g \<or> dy \<ge> ga_height g)"

section \<open>Cells\<close>

definition grid_at :: "grid_aoi \<Rightarrow> int \<Rightarrow> int \<Rightarrow> int list option result" where
  "grid_at g x y =
     (case ga_grid g of
        None \<Rightarrow> Inl NullDeref
      | Some cells \<Rightarrow>
          (let i = x + ga_width g * y
           in if 0 \<le> i \<and> i < int (length cells) then Inr (cells ! nat i) else Inl OutOfRange))"

definition grid_put :: "int \<Rightarrow> int \<Rightarrow> int list option \<Rightarrow> grid_aoi \<Rightarrow> grid_aoi" where
  "grid_put x y l g = g\<lparr>ga_grid := map_option (\<lambda>cells. cells[nat (x + ga_width g * y) := l]) (ga_grid g)\<rparr>"

definition remove_grid_entity :: "int \<Rightarrow> int \<Rightarrow> int \<Rightarrow> grid_aoi \<Rightarrow> (bool \<times> grid_aoi) result" where
  "remove_grid_entity x y e g =
     bind_res (grid_at g x y) (\<lambda>cell.
       case cell of
         None \<Rightarrow> Inr (False, g)
       | Some l \<Rightarrow>
           (let l' = snd (vec_remove l e)
            in Inr (True, grid_put x y (if l' = [] then None else Some l') g)))"

definition insert_grid_entity :: "int \<Rightarrow> int \<Rightarrow> int \<Rightarrow> grid_aoi \<Rightarrow> grid_aoi result" where
  "insert_grid_entity x y e g =
     bind_res (grid_at g x y) (\<lambda>cell.
       Inr (grid_put x y (Some ((case cell of None \<Rightarrow> [] | Some l \<Rightarrow> l) @ [e])) g))"

text \<open>The two nested loops; the callback gets the entity and the state it changes.\<close>

definition raw_each_range_entity ::
  "grid_aoi \<Rightarrow> (int \<Rightarrow> 's \<Rightarrow> 's result) \<Rightarrow> int \<Rightarrow> int \<Rightarrow> int \<Rightarrow> int \<Rightarrow> 's \<Rightarrow> 's result" where
  "raw_each_range_entity g func x y dx dy =
     fold_res (\<lambda>ix. fold_res (\<lambda>iy s.
       bind_res (grid_at g ix iy) (\<lambda>cell.
         fold_res func (case cell of None \<Rightarrow> [] | Some l \<Rightarrow> l) s)) [y..dy]) [x..dx]"

definition each_range_entity ::
  "grid_aoi \<Rightarrow> (int \<Rightarrow> 's \<Rightarrow> 's result) \<Rightarrow> int \<Rightarrow> int \<Rightarrow> int \<Rightarrow> int \<Rightarrow> 's \<Rightarrow> (int \<times> 's) result" where
  "each_range_entity g func x y dx dy s =
     (if x > dx \<or> y > dy then Inr (-1, s)
      else bind_res (pix_div g x) (\<lambda>x. bind_res (pix_div g y) (\<lambda>y.
           bind_res (pix_div g dx) (\<lambda>dx. bind_res (pix_div g dy) (\<lambda>dy.
             if \<not> valid_pos g x y dx dy then Inr (-1, s)
             else bind_res (raw_each_range_entity g func x y dx dy s) (\<lambda>s'. Inr (0, s')))))))"

definition get_visual_range :: "grid_aoi \<Rightarrow> int \<Rightarrow> int \<Rightarrow> int \<times> int \<times> int \<times> int" where
  "get_visual_range g pos_x pos_y =
     (let x = pos_x - ga_vw g; y = pos_y - ga_vh g; dx = pos_x + ga_vw g; dy = pos_y + ga_vh g
      in (if x < 0 then 0 else x, if y < 0 then 0 else y,
          if dx \<ge> ga_width g then ga_width g - 1 else dx,
          if dy \<ge> ga_height g then ga_height g - 1 else dy))"

section \<open>Interest lists\<close>

type_synonym visit_state = "(int \<rightharpoonup> entity_ctx) \<times> int list option"

definition deref :: "(int \<rightharpoonup> entity_ctx) \<Rightarrow> int \<Rightarrow> entity_ctx result" where
  "deref h e = (case h e of None \<Rightarrow> Inl Dangling | Some c \<Rightarrow> Inr c)"

definition upd_interest :: "int \<Rightarrow> (int list \<Rightarrow> int list) \<Rightarrow> (int \<rightharpoonup> entity_ctx) \<Rightarrow> (int \<rightharpoonup> entity_ctx)" where
  "upd_interest e f h = h(e := map_option (\<lambda>c. c\<lparr>ec_interest := f (ec_interest c)\<rparr>) (h e))"

text \<open>The callbacks of \<open>entity_exit_range\<close> and \<open>entity_enter_range\<close>.\<close>

definition exit_visit :: "int \<Rightarrow> int \<Rightarrow> visit_state \<Rightarrow> visit_state result" where
  "exit_visit me other = (\<lambda>(h, l).
     bind_res (deref h me) (\<lambda>ctx. bind_res (deref h other) (\<lambda>oth.
       let h1 = (if interested ctx then upd_interest other (\<lambda>v. snd (vec_remove v me)) h else h);
           h2 = (if interested oth then upd_interest me (\<lambda>v. snd (vec_remove v other)) h1 else h1)
       in Inr (h2, push_opt l [other]))))"

definition enter_visit :: "int \<Rightarrow> int \<Rightarrow> visit_state \<Rightarrow> visit_state result" where
  "enter_visit me other = (\<lambda>(h, l).
     bind_res (deref h me) (\<lambda>ctx. bind_res (deref h other) (\<lambda>oth.
       let h1 = (if interested ctx then upd_interest other (\<lambda>v. v @ [me]) h else h);
           h2 = (if interested oth then upd_interest me (\<lambda>v. v @ [other]) h1 else h1)
       in Inr (h2, push_opt l [other]))))"

definition entity_exit_range ::
  "grid_aoi \<Rightarrow> int \<Rightarrow> int \<Rightarrow> int \<Rightarrow> int \<Rightarrow> int \<Rightarrow> visit_state \<Rightarrow> visit_state result" where
  "entity_exit_range g me x y dx dy = raw_each_range_entity g (exit_visit me) x y dx dy"

definition entity_enter_range ::
  "grid_aoi \<Rightarrow> int \<Rightarrow> int \<Rightarrow> int \<Rightarrow> int \<Rightarrow> int \<Rightarrow> visit_state \<Rightarrow> visit_state result" where
  "entity_enter_range g me x y dx dy = raw_each_range_entity g (enter_visit me) x y dx dy"

section \<open>Operations\<close>

definition get_entity_ctx :: "grid_aoi \<Rightarrow> int \<Rightarrow> int option" where
  "get_entity_ctx g e = (if e \<in> ga_set g then Some e else None)"

text \<open>\<open>list\<close> is the vector the caller passes, None for the default null pointer; the
  operations return it as they leave it.\<close>

definition exit_entity :: "int \<Rightarrow> int list option \<Rightarrow> grid_aoi \<Rightarrow> (int \<times> int list option \<times> grid_aoi) result" where
  "exit_entity e list g =
     (if e \<notin> ga_set g then Inr (1, list, g)
      else bind_res (deref (ga_heap g) e) (\<lambda>ctx.
           let g1 = g\<lparr>ga_set := ga_set g - {e}\<rparr>
           in bind_res (remove_grid_entity (ec_x ctx) (ec_y ctx) e g1) (\<lambda>(ok, g2).
              let list' = push_opt list (ec_interest ctx)
              in bind_res
                   (if interested ctx
                    then (let (x, y, dx, dy) = get_visual_range g2 (ec_x ctx) (ec_y ctx);
                              h = upd_interest e (\<lambda>_. []) (ga_heap g2)
                          in bind_res (entity_exit_range g2 e x y dx dy (h, None)) (\<lambda>(h', _). Inr h'))
                    else Inr (ga_heap g2))
                   (\<lambda>h. Inr (if ok then 0 else -1, list', g2\<lparr>ga_heap := h(e := None)\<rparr>)))))"

definition enter_entity ::
  "int \<Rightarrow> int \<Rightarrow> int \<Rightarrow> 8 word \<Rightarrow> int list option \<Rightarrow> grid_aoi \<Rightarrow> (int \<times> int list option \<times> grid_aoi) result" where
  "enter_entity e x y msk list g =
     bind_res (pix_div g x) (\<lambda>gx. bind_res (pix_div g y) (\<lambda>gy.
       if \<not> valid_pos g gx gy gx gy then Inr (-1, list, g)
       else if e \<in> ga_set g then Inr (2, list, g)
       else
         let ctx = \<lparr>ec_mask = msk, ec_x = gx, ec_y = gy, ec_interest = []\<rparr>;
             g1 = g\<lparr>ga_set := insert e (ga_set g)\<rparr>;
             (vx, vy, vdx, vdy) = get_visual_range g1 gx gy
         in bind_res (entity_enter_range g1 e vx vy vdx vdy ((ga_heap g1)(e \<mapsto> ctx), list))
              (\<lambda>(h, list'). bind_res (insert_grid_entity gx gy e (g1\<lparr>ga_heap := h\<rparr>))
                 (\<lambda>g2. Inr (0, list', g2)))))"

text \<open>
  The rows of column \<open>ix\<close> outside the intersection \<open>(it_x, it_y)\<close>--\<open>(it_dx, it_dy)\<close>, None
  for \<open>continue\<close>, and the loop over the columns; \<open>update_entity\<close> has it twice.
\<close>

definition outer_rows ::
  "int \<times> int \<times> int \<times> int \<Rightarrow> int \<Rightarrow> int \<Rightarrow> int \<Rightarrow> (int \<times> int) option" where
  "outer_rows it y dy ix =
     (let (it_x, it_y, it_dx, it_dy) = it
      in if ix \<ge> it_x \<and> ix \<le> it_dx
         then (if dy > it_dy then Some (it_dy + 1, dy)
               else if y < it_y then Some (y, it_y - 1)
               else None)
         else Some (y, dy))"

definition outer_loop ::
  "(int \<Rightarrow> int \<Rightarrow> int \<Rightarrow> int \<Rightarrow> 's \<Rightarrow> 's result) \<Rightarrow> int \<times> int \<times> int \<times> int \<Rightarrow>
   int \<times> int \<times> int \<times> int \<Rightarrow> 's \<Rightarrow> 's result" where
  "outer_loop rng it = (\<lambda>(x, y, dx, dy).
     fold_res (\<lambda>ix s.
       case outer_rows it y dy ix of
         None \<Rightarrow> Inr s
       | Some (iy, idy) \<Rightarrow>
           bind_res (check (iy \<le> idy) AssertionFailed) (\<lambda>_. rng ix iy ix idy s)) [x..dx])"

definition update_entity ::
  "int \<Rightarrow> int \<Rightarrow> int \<Rightarrow> int list option \<Rightarrow> int list option \<Rightarrow> grid_aoi \<Rightarrow>
   (int \<times> int list option \<times> int list option \<times> grid_aoi) result" where
  "update_entity e x y list_in list_out g =
     bind_res (pix_div g x) (\<lambda>gx. bind_res (pix_div g y) (\<lambda>gy.
       if \<not> valid_pos g gx gy gx gy then Inr (-1, list_in, list_out, g)
       else case get_entity_ctx g e of
         None \<Rightarrow> Inr (-2, list_in, list_out, g)
       | Some p \<Rightarrow> bind_res (deref (ga_heap g) p) (\<lambda>ctx.
           if gx = ec_x ctx \<and> gy = ec_y ctx then Inr (0, list_in, list_out, g)
           else
             let old = get_visual_range g (ec_x ctx) (ec_y ctx);
                 new = get_visual_range g gx gy;
                 (old_x, old_y, old_dx, old_dy) = old;
                 (new_x, new_y, new_dx, new_dy) = new;
                 it = (max old_x new_x, max old_y new_y, min old_dx new_dx, min old_dy new_dy);
                 (it_x, it_y, it_dx, it_dy) = it;
                 intersection = (\<not> (it_x > it_dx \<or> it_y > it_dy))
             in bind_res (remove_grid_entity (ec_x ctx) (ec_y ctx) p g) (\<lambda>(ok, g1).
                bind_res
                  (if \<not> intersection
                   then bind_res (entity_exit_range g1 p old_x old_y old_dx old_dy
                            (upd_interest p (\<lambda>_. []) (ga_heap g1), list_out)) (\<lambda>(h, list_out').
                        bind_res (entity_enter_range g1 p new_x new_y new_dx new_dy (h, list_in))
                          (\<lambda>(h', list_in'). Inr (h', list_in', list_out')))
                   else bind_res (outer_loop (entity_exit_range g1 p) it old (ga_heap g1, list_out))
                          (\<lambda>(h, list_out').
                        bind_res (outer_loop (entity_enter_range g1 p) it new (h, list_in))
                          (\<lambda>(h', list_in'). Inr (h', list_in', list_out'))))
                  (\<lambda>(h, list_in', list_out').
                     bind_res (deref h p) (\<lambda>c.
                     bind_res (insert_grid_entity gx gy p
                         (g1\<lparr>ga_heap := h(p \<mapsto> c\<lparr>ec_x := gx, ec_y := gy\<rparr>)\<rparr>)) (\<lambda>g2.
                       Inr (if ok then 0 else -2, list_in', list_out', g2))))))))"

end
