(* ===== verification/GridAOICorrect.thy ===== *)
theory GridAOICorrect
  imports GridAOI
begin

text \<open>
  The grid index keeps the area of interest exact. \<open>aoi_inv\<close> states that the cells list the
  entities by position and that the interest list of every entity holds exactly the other
  interested entities within the visual range, each once; every operation keeps it and
  reports exactly the entities that come into and go out of view.
\<close>

declare split_paired_All [simp del] split_paired_Ex [simp del]

section \<open>Reading the state\<close>

definition in_grid :: "grid_aoi \<Rightarrow> int \<times> int \<Rightarrow> bool" where
  "in_grid g p \<longleftrightarrow> 0 \<le> fst p \<and> fst p < ga_width g \<and> 0 \<le> snd p \<and> snd p < ga_height g"

definition near :: "grid_aoi \<Rightarrow> int \<times> int \<Rightarrow> int \<times> int \<Rightarrow> bool" where
  "near g p q \<longleftrightarrow> \<bar>fst p - fst q\<bar> \<le> ga_vw g \<and> \<bar>snd p - snd q\<bar> \<le> ga_vh g"

definition in_rect :: "int \<times> int \<times> int \<times> int \<Rightarrow> int \<times> int \<Rightarrow> bool" where
  "in_rect r p = (case r of (x, y, dx, dy) \<Rightarrow> x \<le> fst p \<and> fst p \<le> dx \<and> y \<le> snd p \<and> snd p \<le> dy)"

definition cell_list :: "grid_aoi \<Rightarrow> int \<Rightarrow> int \<Rightarrow> int list" where
  "cell_list g x y =
     (case the (ga_grid g) ! nat (x + ga_width g * y) of None \<Rightarrow> [] | Some l \<Rightarrow> l)"

definition dat :: "(int \<rightharpoonup> entity_ctx) \<Rightarrow> int \<Rightarrow> (8 word \<times> int \<times> int) option" where
  "dat h e = map_option (\<lambda>c. (ec_mask c, ec_x c, ec_y c)) (h e)"

definition ilist :: "(int \<rightharpoonup> entity_ctx) \<Rightarrow> int \<Rightarrow> int list" where
  "ilist h e = (case h e of None \<Rightarrow> [] | Some c \<Rightarrow> ec_interest c)"

definition posn :: "(int \<rightharpoonup> entity_ctx) \<Rightarrow> int \<Rightarrow> (int \<times> int) option" where
  "posn h e = map_option snd (dat h e)"

definition wants :: "(int \<rightharpoonup> entity_ctx) \<Rightarrow> int \<Rightarrow> bool" where
  "wants h e \<longleftrightarrow> (case dat h e of None \<Rightarrow> False | Some (m, p) \<Rightarrow> and m 1 \<noteq> 0)"

definition grid_ok :: "grid_aoi \<Rightarrow> bool" where
  "grid_ok g \<longleftrightarrow> 0 < ga_pix g \<and> 0 \<le> ga_vw g \<and> 0 \<le> ga_vh g \<and> 0 \<le> ga_width g \<and> 0 \<le> ga_height g \<and>
     (\<exists>cells. ga_grid g = Some cells \<and> int (length cells) = ga_width g * ga_height g)"

definition placed :: "grid_aoi \<Rightarrow> (int \<rightharpoonup> int \<times> int) \<Rightarrow> bool" where
  "placed g P \<longleftrightarrow> (\<forall>e p. P e = Some p \<longrightarrow> in_grid g p) \<and>
     (\<forall>x y. in_grid g (x, y) \<longrightarrow>
        distinct (cell_list g x y) \<and> set (cell_list g x y) = {e. P e = Some (x, y)})"

text \<open>Who is in view of a position: the other entities near it.\<close>

definition around :: "grid_aoi \<Rightarrow> int \<Rightarrow> int \<times> int \<Rightarrow> int set" where
  "around g e p = {k. k \<noteq> e \<and> (\<exists>q. posn (ga_heap g) k = Some q \<and> near g q p)}"

definition aoi_inv :: "grid_aoi \<Rightarrow> bool" where
  "aoi_inv g \<longleftrightarrow> grid_ok g \<and> dom (ga_heap g) = ga_set g \<and> placed g (posn (ga_heap g)) \<and>
     (\<forall>e p. posn (ga_heap g) e = Some p \<longrightarrow>
        distinct (ilist (ga_heap g) e) \<and>
        set (ilist (ga_heap g) e) = {k \<in> around g e p. wants (ga_heap g) k})"

section \<open>Ranges\<close>

lemma fold_res_concat:
  "fold_res f (concat (map F xs)) s = fold_res (\<lambda>x. fold_res f (F x)) xs s"
proof (induction xs arbitrary: s)
  case (Cons x xs)
  have "fold_res f (concat (map F xs)) = fold_res (\<lambda>x. fold_res f (F x)) xs"
    using Cons by blast
  then show ?case by (simp add: fold_res_append)
qed simp

lemma cell_index_bound:
  "grid_ok g \<Longrightarrow> in_grid g (x, y) \<Longrightarrow>
     0 \<le> x + ga_width g * y \<and> x + ga_width g * y < ga_width g * ga_height g"
proof -
  assume a: "grid_ok g" "in_grid g (x, y)"
  have "ga_width g * y + ga_width g \<le> ga_width g * ga_height g"
    using mult_left_mono [of "y + 1" "ga_height g" "ga_width g"] a
    by (simp add: in_grid_def grid_ok_def distrib_left)
  moreover have "0 \<le> ga_width g * y" using a by (simp add: in_grid_def grid_ok_def)
  ultimately show ?thesis using a(2) by (simp add: in_grid_def)
qed

lemma cell_index_eq:
  assumes "in_grid g (x, y)" "in_grid g (x', y')"
    and eq: "x + ga_width g * y = x' + ga_width g * y'"
  shows "x = x' \<and> y = y'"
proof -
  have "(x + ga_width g * y) div ga_width g = y" "(x' + ga_width g * y') div ga_width g = y'"
    using assms(1,2) by (simp_all add: in_grid_def)
  with eq show ?thesis by simp
qed

lemma grid_at_ok:
  assumes "grid_ok g" "in_grid g (x, y)"
  shows "\<exists>cell. grid_at g x y = Inr cell \<and> (case cell of None \<Rightarrow> [] | Some l \<Rightarrow> l) = cell_list g x y"
  using assms cell_index_bound [OF assms] by (auto simp: grid_at_def grid_ok_def cell_list_def Let_def)

definition range_ids :: "grid_aoi \<Rightarrow> int \<times> int \<times> int \<times> int \<Rightarrow> int list" where
  "range_ids g r = (case r of (x, y, dx, dy) \<Rightarrow>
     concat (map (\<lambda>ix. concat (map (cell_list g ix) [y..dy])) [x..dx]))"

definition rect_ok :: "grid_aoi \<Rightarrow> int \<times> int \<times> int \<times> int \<Rightarrow> bool" where
  "rect_ok g r = (case r of (x, y, dx, dy) \<Rightarrow>
     0 \<le> x \<and> 0 \<le> y \<and> dx < ga_width g \<and> dy < ga_height g)"

lemma rect_ok_in_grid: "rect_ok g r \<Longrightarrow> in_rect r p \<Longrightarrow> in_grid g p"
  by (auto simp: rect_ok_def in_rect_def in_grid_def)

lemma raw_each_eq:
  assumes "grid_ok g" "rect_ok g (x, y, dx, dy)"
  shows "raw_each_range_entity g f x y dx dy s = fold_res f (range_ids g (x, y, dx, dy)) s"
proof -
  have cell: "bind_res (grid_at g ix iy) (\<lambda>cell. fold_res f (case cell of None \<Rightarrow> [] | Some l \<Rightarrow> l) t)
      = fold_res f (cell_list g ix iy) t" if "ix \<in> set [x..dx]" "iy \<in> set [y..dy]" for ix iy t
  proof -
    have "in_grid g (ix, iy)"
      using rect_ok_in_grid [OF assms(2), of "(ix, iy)"] that by (simp add: in_rect_def)
    from grid_at_ok [OF assms(1) this] show ?thesis by auto
  qed
  have "raw_each_range_entity g f x y dx dy s =
      fold_res (\<lambda>ix. fold_res (\<lambda>iy. fold_res f (cell_list g ix iy)) [y..dy]) [x..dx] s"
    unfolding raw_each_range_entity_def by (intro fold_res_cong cell) auto
  also have "\<dots> = fold_res (\<lambda>ix. fold_res f (concat (map (cell_list g ix) [y..dy]))) [x..dx] s"
    by (intro fold_res_cong fold_res_concat [symmetric])
  finally show ?thesis unfolding range_ids_def prod.case fold_res_concat .
qed

lemma distinct_concat_map:
  assumes "distinct xs" "\<And>x. x \<in> set xs \<Longrightarrow> distinct (F x)"
    and "\<And>x y. x \<in> set xs \<Longrightarrow> y \<in> set xs \<Longrightarrow> x \<noteq> y \<Longrightarrow> set (F x) \<inter> set (F y) = {}"
  shows "distinct (concat (map F xs))"
  using assms
proof (induction xs)
  case (Cons x xs)
  have "distinct (concat (map F xs))" using Cons by simp
  moreover have "set (F x) \<inter> set (F z) = {}" if "z \<in> set xs" for z
    using Cons.prems(1) that by (intro Cons.prems(3)) auto
  ultimately show ?case using Cons.prems(2) by auto
qed simp

lemma range_ids_set:
  assumes "placed g P" "rect_ok g r"
  shows "set (range_ids g r) = {e. \<exists>p. P e = Some p \<and> in_rect r p}"
proof -
  obtain x y dx dy where r: "r = (x, y, dx, dy)" by (cases r)
  have "set (cell_list g ix iy) = {e. P e = Some (ix, iy)}" if "ix \<in> set [x..dx]" "iy \<in> set [y..dy]" for ix iy
    using assms that rect_ok_in_grid [OF assms(2), of "(ix, iy)"]
    by (simp add: placed_def in_rect_def r)
  then show ?thesis by (auto simp: range_ids_def r in_rect_def)
qed

lemma range_ids_distinct:
  assumes "placed g P" "rect_ok g r"
  shows "distinct (range_ids g r)"
proof -
  obtain x y dx dy where r: "r = (x, y, dx, dy)" by (cases r)
  have c: "distinct (cell_list g ix iy) \<and> set (cell_list g ix iy) = {e. P e = Some (ix, iy)}"
    if "ix \<in> set [x..dx]" "iy \<in> set [y..dy]" for ix iy
    using assms that rect_ok_in_grid [OF assms(2), of "(ix, iy)"]
    by (simp add: placed_def in_rect_def r)
  show ?thesis unfolding range_ids_def r prod.case
  proof (intro distinct_concat_map)
    fix ix iy iy' assume "ix \<in> set [x..dx]" "iy \<in> set [y..dy]" "iy' \<in> set [y..dy]" "iy \<noteq> iy'"
    then show "set (cell_list g ix iy) \<inter> set (cell_list g ix iy') = {}"
      using c [of ix iy] c [of ix iy'] by auto
  next
    fix ix ix' assume ix: "ix \<in> set [x..dx]" "ix' \<in> set [x..dx]" "ix \<noteq> ix'"
    show "set (concat (map (cell_list g ix) [y..dy])) \<inter> set (concat (map (cell_list g ix') [y..dy])) = {}"
    proof (rule equals0I)
      fix e
      assume e: "e \<in> set (concat (map (cell_list g ix) [y..dy])) \<inter>
          set (concat (map (cell_list g ix') [y..dy]))"
      then obtain iy where iy: "iy \<in> set [y..dy]" "e \<in> set (cell_list g ix iy)"
        by (auto simp del: set_upto)
      moreover obtain iy' where iy': "iy' \<in> set [y..dy]" "e \<in> set (cell_list g ix' iy')"
        using e by (auto simp del: set_upto)
      ultimately show False using c [OF ix(1) iy(1)] c [OF ix(2) iy'(1)] ix(3) by simp
    qed
  qed (use c in auto)
qed

lemma visual_range_ok:
  assumes "grid_ok g" "in_grid g p"
  shows "rect_ok g (get_visual_range g (fst p) (snd p))"
    and "in_grid g q \<Longrightarrow> in_rect (get_visual_range g (fst p) (snd p)) q \<longleftrightarrow> near g q p"
  using assms
  by (auto simp: get_visual_range_def rect_ok_def Let_def in_rect_def near_def in_grid_def grid_ok_def)

section \<open>Cells\<close>

lemma grid_put_simps [simp]:
  "ga_width (grid_put x y l g) = ga_width g" "ga_height (grid_put x y l g) = ga_height g"
  "ga_pix (grid_put x y l g) = ga_pix g" "ga_vw (grid_put x y l g) = ga_vw g"
  "ga_vh (grid_put x y l g) = ga_vh g" "ga_heap (grid_put x y l g) = ga_heap g"
  "ga_set (grid_put x y l g) = ga_set g"
  by (simp_all add: grid_put_def)

lemma cell_list_put:
  assumes "grid_ok g" "in_grid g (x, y)" "in_grid g (x', y')"
  shows "cell_list (grid_put x y l g) x' y' =
    (if x' = x \<and> y' = y then (case l of None \<Rightarrow> [] | Some v \<Rightarrow> v) else cell_list g x' y')"
proof -
  obtain cells where cells: "ga_grid g = Some cells" "int (length cells) = ga_width g * ga_height g"
    using assms(1) by (auto simp: grid_ok_def)
  note b = cell_index_bound [OF assms(1,2)] cell_index_bound [OF assms(1,3)]
  have "nat (x + ga_width g * y) = nat (x' + ga_width g * y') \<longleftrightarrow> x' = x \<and> y' = y"
    unfolding eq_nat_nat_iff [OF conjunct1 [OF b(1)] conjunct1 [OF b(2)]]
    using cell_index_eq [OF assms(2,3)] by auto
  moreover have "nat (x + ga_width g * y) < length cells" using b cells(2) by linarith
  ultimately show ?thesis using cells by (simp add: cell_list_def grid_put_def)
qed

lemma grid_ok_put: "grid_ok g \<Longrightarrow> grid_ok (grid_put x y l g)"
  by (auto simp: grid_ok_def grid_put_def)

lemma in_grid_put [simp]: "in_grid (grid_put x y l g) p = in_grid g p"
  by (simp add: in_grid_def)

lemma remove_grid_ok:
  assumes "grid_ok g" "placed g P" "P e = Some (x, y)"
  shows "\<exists>l. remove_grid_entity x y e g = Inr (True, grid_put x y l g) \<and>
             placed (grid_put x y l g) (P(e := None))"
proof -
  have ig: "in_grid g (x, y)" using assms(2,3) by (auto simp: placed_def)
  obtain cell where cell: "grid_at g x y = Inr cell"
      "(case cell of None \<Rightarrow> [] | Some l \<Rightarrow> l) = cell_list g x y"
    using grid_at_ok [OF assms(1) ig] by blast
  have cl: "distinct (cell_list g x y)" "set (cell_list g x y) = {e. P e = Some (x, y)}"
    using assms(2) ig by (auto simp: placed_def)
  then have "e \<in> set (cell_list g x y)" using assms(3) by simp
  then obtain l where l: "cell = Some l" "l = cell_list g x y"
    using cell(2) by (cases cell) auto
  let ?v = "snd (vec_remove l e)"
  let ?l = "if ?v = [] then None else Some ?v"
  have v: "(case ?l of None \<Rightarrow> [] | Some v \<Rightarrow> v) = ?v" by simp
  have v2: "distinct ?v" "set ?v = {e. P e = Some (x, y)} - {e}" using cl l(2) by simp_all
  have "placed (grid_put x y ?l g) (P(e := None))"
    unfolding placed_def in_grid_put
  proof (intro conjI allI impI)
    fix x' y' assume "in_grid g (x', y')"
    with cell_list_put [OF assms(1) ig this, of ?l, unfolded v] v2 assms(2,3)
    show "distinct (cell_list (grid_put x y ?l g) x' y')"
      "set (cell_list (grid_put x y ?l g) x' y') = {k. (P(e := None)) k = Some (x', y')}"
      by (auto simp: placed_def)
  qed (use assms(2) in \<open>auto simp: placed_def split: if_splits\<close>)
  then show ?thesis using cell(1) l(1)
    by (intro exI [of _ ?l]) (simp add: remove_grid_entity_def Let_def)
qed

lemma insert_grid_ok:
  assumes "grid_ok g" "placed g P" "P e = None" "in_grid g (x, y)"
  shows "\<exists>l. insert_grid_entity x y e g = Inr (grid_put x y l g) \<and>
             placed (grid_put x y l g) (P(e \<mapsto> (x, y)))"
proof -
  obtain cell where cell: "grid_at g x y = Inr cell"
      "(case cell of None \<Rightarrow> [] | Some l \<Rightarrow> l) = cell_list g x y"
    using grid_at_ok [OF assms(1,4)] by blast
  let ?l = "Some (cell_list g x y @ [e])"
  have "placed (grid_put x y ?l g) (P(e \<mapsto> (x, y)))"
    unfolding placed_def in_grid_put
    using assms cell_list_put [OF assms(1,4)] by (auto simp: placed_def)
  then show ?thesis using cell
    by (intro exI [of _ ?l]) (simp add: insert_grid_entity_def)
qed

section \<open>Interest lists\<close>

lemma upd_interest_dat [simp]: "dat (upd_interest e f h) = dat h"
  by (rule ext) (simp add: dat_def upd_interest_def option.map_comp comp_def)

lemma upd_interest_wants [simp]: "wants (upd_interest e f h) = wants h"
  by (rule ext) (simp add: wants_def)

lemma upd_interest_ilist:
  "h e \<noteq> None \<Longrightarrow> ilist (upd_interest e f h) k = (if k = e then f (ilist h e) else ilist h k)"
  by (auto simp: ilist_def upd_interest_def)

lemma dat_None: "dat h e = None \<longleftrightarrow> h e = None"
  by (simp add: dat_def)

lemma dom_dat: "dom h = dom (dat h)"
  by (auto simp: dom_def dat_def)

lemma dat_wants: "dat h' = dat h \<Longrightarrow> wants h' = wants h"
  by (rule ext) (simp add: wants_def)

lemma dat_posn: "dat h' = dat h \<Longrightarrow> posn h' = posn h"
  by (rule ext) (simp add: posn_def)

lemma posn_None: "posn h e = None \<longleftrightarrow> h e = None"
  by (simp add: posn_def dat_None)

lemma interested_wants: "h e = Some c \<Longrightarrow> interested c = wants h e"
  by (simp add: interested_def wants_def dat_def)

lemma exit_visit_ok:
  assumes "h me \<noteq> None" "h k \<noteq> None" "k \<noteq> me" "\<forall>e. distinct (ilist h e)"
  shows "\<exists>h'. exit_visit me k (h, l) = Inr (h', push_opt l [k]) \<and> dat h' = dat h \<and>
           (\<forall>e. distinct (ilist h' e) \<and> set (ilist h' e) = set (ilist h e) -
              (if e = me then (if wants h k then {k} else {})
               else if e = k \<and> wants h me then {me} else {}))"
proof -
  obtain c d where cd: "h me = Some c" "h k = Some d" using assms(1,2) by auto
  let ?h1 = "if wants h me then upd_interest k (\<lambda>v. snd (vec_remove v me)) h else h"
  let ?h2 = "if wants h k then upd_interest me (\<lambda>v. snd (vec_remove v k)) ?h1 else ?h1"
  have d1: "dat ?h1 = dat h" by simp
  then have n1: "?h1 me \<noteq> None" using assms(1) unfolding dat_None [symmetric] by metis
  have "exit_visit me k (h, l) = Inr (?h2, push_opt l [k])"
    using cd by (simp add: exit_visit_def deref_def Let_def interested_wants [of h me c, OF cd(1)]
        interested_wants [of h k d, OF cd(2)])
  moreover have "dat ?h2 = dat h" by simp
  moreover have "ilist ?h2 e = (if e = me then (if wants h k then snd (vec_remove (ilist h me) k) else ilist h me)
      else if e = k \<and> wants h me then snd (vec_remove (ilist h k) me) else ilist h e)" for e
    using upd_interest_ilist [of ?h1 me, OF n1, of "\<lambda>v. snd (vec_remove v k)" e]
      upd_interest_ilist [of h k, OF assms(2), of "\<lambda>v. snd (vec_remove v me)"] assms(3) by auto
  ultimately show ?thesis using assms(4) by (intro exI [of _ ?h2]) simp
qed

lemma exit_fold:
  assumes "h me \<noteq> None" "\<forall>k \<in> set ids. h k \<noteq> None" "me \<notin> set ids" "\<forall>e. distinct (ilist h e)"
  shows "\<exists>h'. fold_res (exit_visit me) ids (h, l) = Inr (h', push_opt l ids) \<and> dat h' = dat h \<and>
           (\<forall>e. distinct (ilist h' e) \<and> set (ilist h' e) = set (ilist h e) -
              (if e = me then {k \<in> set ids. wants h k}
               else if e \<in> set ids \<and> wants h me then {me} else {}))"
  using assms
proof (induction ids arbitrary: h l)
  case Nil
  then show ?case by (cases l) auto
next
  case (Cons k ids)
  then have k: "h k \<noteq> None" "k \<noteq> me" by auto
  obtain h1 where h1: "exit_visit me k (h, l) = Inr (h1, push_opt l [k])" "dat h1 = dat h"
      "\<And>e. distinct (ilist h1 e)"
      "\<And>e. set (ilist h1 e) = set (ilist h e) - (if e = me then (if wants h k then {k} else {})
               else if e = k \<and> wants h me then {me} else {})"
    using exit_visit_ok [OF Cons.prems(1) k Cons.prems(4)] by blast
  have "h1 me \<noteq> None" "\<forall>k \<in> set ids. h1 k \<noteq> None"
    using Cons.prems(1,2) h1(2) unfolding dat_None [symmetric] by auto
  then obtain h2 where h2: "fold_res (exit_visit me) ids (h1, push_opt l [k]) =
        Inr (h2, push_opt (push_opt l [k]) ids)" "dat h2 = dat h1"
      "\<And>e. distinct (ilist h2 e)"
      "\<And>e. set (ilist h2 e) = set (ilist h1 e) - (if e = me then {k \<in> set ids. wants h1 k}
               else if e \<in> set ids \<and> wants h1 me then {me} else {})"
    using Cons.IH [of h1 "push_opt l [k]"] Cons.prems(3) h1(3) by auto
  have "push_opt (push_opt l [k]) ids = push_opt l (k # ids)" by (cases l) simp_all
  moreover have "set (ilist h2 e) = set (ilist h e) - (if e = me then {k' \<in> set (k # ids). wants h k'}
               else if e \<in> set (k # ids) \<and> wants h me then {me} else {})" for e
    using h2(4) [of e] h1(4) [of e] dat_wants [OF h1(2)] k(2) by auto
  ultimately show ?case using h1 h2 by (intro exI [of _ h2]) simp
qed

lemma enter_visit_ok:
  assumes "h me \<noteq> None" "h k \<noteq> None" "k \<noteq> me" "\<forall>e. distinct (ilist h e)"
    and "k \<notin> set (ilist h me)" "me \<notin> set (ilist h k)"
  shows "\<exists>h'. enter_visit me k (h, l) = Inr (h', push_opt l [k]) \<and> dat h' = dat h \<and>
           (\<forall>e. distinct (ilist h' e) \<and> set (ilist h' e) = set (ilist h e) \<union>
              (if e = me then (if wants h k then {k} else {})
               else if e = k \<and> wants h me then {me} else {}))"
proof -
  obtain c d where cd: "h me = Some c" "h k = Some d" using assms(1,2) by auto
  let ?h1 = "if wants h me then upd_interest k (\<lambda>v. v @ [me]) h else h"
  let ?h2 = "if wants h k then upd_interest me (\<lambda>v. v @ [k]) ?h1 else ?h1"
  have d1: "dat ?h1 = dat h" by simp
  then have n1: "?h1 me \<noteq> None" using assms(1) unfolding dat_None [symmetric] by metis
  have "enter_visit me k (h, l) = Inr (?h2, push_opt l [k])"
    using cd by (simp add: enter_visit_def deref_def Let_def interested_wants [of h me c, OF cd(1)]
        interested_wants [of h k d, OF cd(2)])
  moreover have "dat ?h2 = dat h" by simp
  moreover have "ilist ?h2 e = (if e = me then (if wants h k then ilist h me @ [k] else ilist h me)
      else if e = k \<and> wants h me then ilist h k @ [me] else ilist h e)" for e
    using upd_interest_ilist [of ?h1 me, OF n1, of "\<lambda>v. v @ [k]" e]
      upd_interest_ilist [of h k, OF assms(2), of "\<lambda>v. v @ [me]"] assms(3) by auto
  ultimately show ?thesis using assms(4-6) by (intro exI [of _ ?h2]) simp
qed

lemma enter_fold:
  assumes "h me \<noteq> None" "\<forall>k \<in> set ids. h k \<noteq> None" "me \<notin> set ids" "\<forall>e. distinct (ilist h e)"
    and "distinct ids" "\<forall>k \<in> set ids. k \<notin> set (ilist h me) \<and> me \<notin> set (ilist h k)"
  shows "\<exists>h'. fold_res (enter_visit me) ids (h, l) = Inr (h', push_opt l ids) \<and> dat h' = dat h \<and>
           (\<forall>e. distinct (ilist h' e) \<and> set (ilist h' e) = set (ilist h e) \<union>
              (if e = me then {k \<in> set ids. wants h k}
               else if e \<in> set ids \<and> wants h me then {me} else {}))"
  using assms
proof (induction ids arbitrary: h l)
  case Nil
  then show ?case by (cases l) auto
next
  case (Cons k ids)
  then have k: "h k \<noteq> None" "k \<noteq> me" "k \<notin> set (ilist h me)" "me \<notin> set (ilist h k)" by auto
  obtain h1 where h1: "enter_visit me k (h, l) = Inr (h1, push_opt l [k])" "dat h1 = dat h"
      "\<And>e. distinct (ilist h1 e)"
      "\<And>e. set (ilist h1 e) = set (ilist h e) \<union> (if e = me then (if wants h k then {k} else {})
               else if e = k \<and> wants h me then {me} else {})"
    using enter_visit_ok [OF Cons.prems(1) k(1,2) Cons.prems(4) k(3,4)] by blast
  have n: "h1 me \<noteq> None" "\<forall>k \<in> set ids. h1 k \<noteq> None"
    using Cons.prems(1,2) h1(2) unfolding dat_None [symmetric] by auto
  moreover have "\<forall>k' \<in> set ids. k' \<notin> set (ilist h1 me) \<and> me \<notin> set (ilist h1 k')"
    using Cons.prems(3,5,6) h1(4) by auto
  ultimately obtain h2 where h2: "fold_res (enter_visit me) ids (h1, push_opt l [k]) =
        Inr (h2, push_opt (push_opt l [k]) ids)" "dat h2 = dat h1"
      "\<And>e. distinct (ilist h2 e)"
      "\<And>e. set (ilist h2 e) = set (ilist h1 e) \<union> (if e = me then {k \<in> set ids. wants h1 k}
               else if e \<in> set ids \<and> wants h1 me then {me} else {})"
    using Cons.IH [of h1 "push_opt l [k]"] Cons.prems(3,5) h1(3) by auto
  have "push_opt (push_opt l [k]) ids = push_opt l (k # ids)" by (cases l) simp_all
  moreover have "set (ilist h2 e) = set (ilist h e) \<union> (if e = me then {k' \<in> set (k # ids). wants h k'}
               else if e \<in> set (k # ids) \<and> wants h me then {me} else {})" for e
    using h2(4) [of e] h1(4) [of e] dat_wants [OF h1(2)] k(2) by auto
  ultimately show ?case using h1 h2 by (intro exI [of _ h2]) simp
qed

section \<open>Consequences of the invariant\<close>

lemma near_sym: "near g p q \<longleftrightarrow> near g q p"
  by (auto simp: near_def abs_minus_commute)

lemma aoi_invD:
  assumes "aoi_inv g"
  shows "grid_ok g" "dom (ga_heap g) = ga_set g" "placed g (posn (ga_heap g))"
    and "posn (ga_heap g) e = Some p \<Longrightarrow> distinct (ilist (ga_heap g) e)"
    and "posn (ga_heap g) e = Some p \<Longrightarrow>
           set (ilist (ga_heap g) e) = {k \<in> around g e p. wants (ga_heap g) k}"
  using assms by (auto simp: aoi_inv_def)

lemma posn_in_grid: "aoi_inv g \<Longrightarrow> posn (ga_heap g) e = Some p \<Longrightarrow> in_grid g p"
  using aoi_invD(3) by (auto simp: placed_def)

lemma ilist_distinct: "aoi_inv g \<Longrightarrow> distinct (ilist (ga_heap g) e)"
  using aoi_invD(4) [of g e] posn_None [of "ga_heap g" e]
  by (cases "posn (ga_heap g) e") (auto simp: ilist_def)

lemma ilist_iff:
  assumes "aoi_inv g"
  shows "k \<in> set (ilist (ga_heap g) e) \<longleftrightarrow>
    k \<noteq> e \<and> wants (ga_heap g) k \<and>
    (\<exists>p q. posn (ga_heap g) e = Some p \<and> posn (ga_heap g) k = Some q \<and> near g q p)"
proof (cases "posn (ga_heap g) e")
  case None
  then have "ga_heap g e = None" by (simp add: posn_None)
  then show ?thesis using None by (simp add: ilist_def)
next
  case (Some p)
  then show ?thesis using aoi_invD(5) [OF assms Some] by (auto simp: around_def)
qed

lemma wants_posn: "wants h e \<Longrightarrow> posn h e \<noteq> None"
  by (auto simp: wants_def posn_def split: option.splits)

lemma range_ids_visual:
  assumes "grid_ok g" "placed g P" "in_grid g p"
  shows "set (range_ids g (get_visual_range g (fst p) (snd p))) = {k. \<exists>q. P k = Some q \<and> near g q p}"
    and "distinct (range_ids g (get_visual_range g (fst p) (snd p)))"
proof -
  note vr = visual_range_ok [OF assms(1,3)]
  show "distinct (range_ids g (get_visual_range g (fst p) (snd p)))"
    using range_ids_distinct [OF assms(2) vr(1)] .
  have "P k = Some q \<Longrightarrow> in_grid g q" for k q using assms(2) by (auto simp: placed_def)
  then show "set (range_ids g (get_visual_range g (fst p) (snd p))) = {k. \<exists>q. P k = Some q \<and> near g q p}"
    unfolding range_ids_set [OF assms(2) vr(1)] using vr(2) by blast
qed

text \<open>The cells do not depend on the other fields.\<close>

lemma grid_frame [simp]:
  "cell_list (g\<lparr>ga_set := S\<rparr>) = cell_list g" "cell_list (g\<lparr>ga_heap := h\<rparr>) = cell_list g"
  "in_grid (g\<lparr>ga_set := S\<rparr>) = in_grid g" "in_grid (g\<lparr>ga_heap := h\<rparr>) = in_grid g"
  "grid_ok (g\<lparr>ga_set := S\<rparr>) = grid_ok g" "grid_ok (g\<lparr>ga_heap := h\<rparr>) = grid_ok g"
  "placed (g\<lparr>ga_set := S\<rparr>) = placed g" "placed (g\<lparr>ga_heap := h\<rparr>) = placed g"
  "get_visual_range (g\<lparr>ga_set := S\<rparr>) = get_visual_range g"
  "near (g\<lparr>ga_set := S\<rparr>) = near g" "near (g\<lparr>ga_heap := h\<rparr>) = near g"
  "near (grid_put x y l g) = near g" "get_visual_range (grid_put x y l g) = get_visual_range g"
  by (simp_all add: fun_eq_iff cell_list_def in_grid_def grid_ok_def placed_def get_visual_range_def
      near_def Let_def)

section \<open>Entering\<close>

lemma enter_entity_ok:
  assumes inv: "aoi_inv g" and new: "e \<notin> ga_set g"
    and p: "p = (c_div x (ga_pix g), c_div y (ga_pix g))" "in_grid g p"
  shows "\<exists>ids g'. enter_entity e x y msk list g = Inr (0, push_opt list ids, g') \<and> aoi_inv g' \<and>
           distinct ids \<and> set ids = around g e p \<and>
           dat (ga_heap g') = (dat (ga_heap g))(e \<mapsto> (msk, p)) \<and> ga_set g' = insert e (ga_set g) \<and>
           ga_vw g' = ga_vw g \<and> ga_vh g' = ga_vh g"
proof -
  let ?h = "ga_heap g"
  let ?c = "\<lparr>ec_mask = msk, ec_x = fst p, ec_y = snd p, ec_interest = []\<rparr>"
  let ?hn = "?h(e \<mapsto> ?c)" and ?g1 = "g\<lparr>ga_set := insert e (ga_set g)\<rparr>"
  note ok = aoi_invD(1) [OF inv] and pl = aoi_invD(3) [OF inv]
  have he: "?h e = None" using aoi_invD(2) [OF inv] new by (metis domIff)
  obtain vx vy vdx vdy where vr: "get_visual_range g (fst p) (snd p) = (vx, vy, vdx, vdy)"
    by (metis prod_cases4)
  define ids where "ids = range_ids ?g1 (vx, vy, vdx, vdy)"
  have "range_ids ?g1 = range_ids g" by (simp add: fun_eq_iff range_ids_def)
  then have ids: "set ids = {k. \<exists>q. posn ?h k = Some q \<and> near g q p}" "distinct ids"
    using range_ids_visual [OF ok pl p(2)] by (simp_all add: ids_def vr)
  have eids: "e \<notin> set ids" using he ids(1) posn_None [of ?h e] by auto
  then have ar: "set ids = around g e p" unfolding ids(1) around_def by blast
  have il: "ilist ?hn = (ilist ?h)(e := [])" by (auto simp: ilist_def)
  have dt: "dat ?hn = (dat ?h)(e \<mapsto> (msk, p))" by (auto simp: dat_def fun_eq_iff)
  have nin: "e \<notin> set (ilist ?h k)" for k
    using ilist_iff [OF inv, of e k] he posn_None [of ?h e] by auto
  have c2: "\<forall>k \<in> set ids. ?hn k \<noteq> None" using ids(1) posn_None [of ?h] by force
  have c4: "\<forall>k. distinct (ilist ?hn k)" using ilist_distinct [OF inv] by (simp add: il)
  have c6: "\<forall>k \<in> set ids. k \<notin> set (ilist ?hn e) \<and> e \<notin> set (ilist ?hn k)" using nin by (simp add: il)
  obtain h' where h': "fold_res (enter_visit e) ids (?hn, list) = Inr (h', push_opt list ids)"
      "dat h' = dat ?hn" "\<And>k. distinct (ilist h' k)"
      "\<And>k. set (ilist h' k) = set (ilist ?hn k) \<union> (if k = e then {k \<in> set ids. wants ?hn k}
         else if k \<in> set ids \<and> wants ?hn e then {e} else {})"
    using enter_fold [of ?hn e ids list, OF _ c2 eids c4 ids(2) c6] by auto
  let ?g2 = "?g1\<lparr>ga_heap := h'\<rparr>"
  have P1: "posn ?h e = None" using he by (simp add: posn_None)
  obtain l where l: "insert_grid_entity (fst p) (snd p) e ?g2 = Inr (grid_put (fst p) (snd p) l ?g2)"
      "placed (grid_put (fst p) (snd p) l ?g2) ((posn ?h)(e \<mapsto> (fst p, snd p)))"
    using insert_grid_ok [of ?g2 "posn ?h" e "fst p" "snd p"] ok pl P1 p(2) by auto
  let ?g' = "grid_put (fst p) (snd p) l ?g2"
  have pos': "posn h' = (posn ?h)(e \<mapsto> p)"
    using h'(2) by (auto simp: fun_eq_iff posn_def dt)
  have w': "wants h' k = (if k = e then wants h' e else wants ?h k)" for k
    using h'(2) by (simp add: wants_def dt)
  have w0: "wants ?hn = wants h'" using dat_wants [OF h'(2)] by simp
  have rect: "rect_ok ?g1 (vx, vy, vdx, vdy)"
    using visual_range_ok(1) [OF ok p(2)] vr by (simp add: rect_ok_def)
  have ok1: "grid_ok ?g1" using ok by simp
  have run: "enter_entity e x y msk list g = Inr (0, push_opt list ids, ?g')"
  proof -
    have "entity_enter_range ?g1 e vx vy vdx vdy (?hn, list) = Inr (h', push_opt list ids)"
      unfolding entity_enter_range_def raw_each_eq [OF ok1 rect] using h'(1) by (simp add: ids_def)
    then show ?thesis using p l(1) new ok vr
      by (simp add: enter_entity_def pix_div_def valid_pos_def in_grid_def grid_ok_def)
  qed
  have nr: "near ?g' = near g" by (simp only: grid_frame)
  have "set (ilist h' k) = {j \<in> around ?g' k q. wants h' j}" if "posn h' k = Some q" for k q
  proof (cases "k = e")
    case True
    then have "q = p" using that pos' by simp
    then show ?thesis using h'(4) [of k] True eids ids(1) nr pos' w0
      by (auto simp: il around_def)
  next
    case False
    then have qk: "posn ?h k = Some q" using that pos' by simp
    have kid: "k \<in> set ids \<longleftrightarrow> near g p q" using ids(1) qk near_sym by auto
    have mem: "j \<in> set (ilist h' k) \<longleftrightarrow> j \<in> set (ilist ?h k) \<or> j = e \<and> near g p q \<and> wants h' e" for j
      using h'(4) [of k] False kid w0 by (auto simp: il)
    show ?thesis
    proof (rule set_eqI)
      fix j
      show "j \<in> set (ilist h' k) \<longleftrightarrow> j \<in> {j \<in> around ?g' k q. wants h' j}"
      proof (cases "j = e")
        case True
        then show ?thesis using mem [of j] nin [of k] False pos' by (simp add: around_def nr)
      next
        case ne: False
        then have "posn h' j = posn ?h j" "wants h' j = wants ?h j" using pos' w' [of j] by simp_all
        then show ?thesis using mem [of j] ilist_iff [OF inv, of j k] qk ne
          by (auto simp: around_def nr)
      qed
    qed
  qed
  moreover have "dom h' = insert e (ga_set g)"
    unfolding dom_dat [of h'] h'(2) dt using aoi_invD(2) [OF inv] dom_dat [of ?h] by simp
  ultimately have "aoi_inv ?g'"
    unfolding aoi_inv_def using l(2) ok h'(3) pos' grid_ok_put by simp
  then show ?thesis using run ids(2) ar h'(2) dt by (intro exI [of _ ids] exI [of _ ?g']) simp
qed

section \<open>Exiting\<close>

lemma exit_entity_ok:
  assumes inv: "aoi_inv g" and e: "e \<in> ga_set g"
  shows "\<exists>g'. exit_entity e list g = Inr (0, push_opt list (ilist (ga_heap g) e), g') \<and> aoi_inv g' \<and>
           dat (ga_heap g') = (dat (ga_heap g))(e := None) \<and> ga_set g' = ga_set g - {e} \<and>
           ga_vw g' = ga_vw g \<and> ga_vh g' = ga_vh g"
proof -
  let ?h = "ga_heap g"
  note ok = aoi_invD(1) [OF inv] and pl = aoi_invD(3) [OF inv]
  obtain c where c: "?h e = Some c" using aoi_invD(2) [OF inv] e by blast
  define p where "p = (ec_x c, ec_y c)"
  have pe: "posn ?h e = Some p" using c by (simp add: posn_def dat_def p_def)
  have ig: "in_grid g p" using posn_in_grid [OF inv pe] .
  have we: "interested c = wants ?h e" using interested_wants [of ?h e c] c by simp
  let ?g1 = "g\<lparr>ga_set := ga_set g - {e}\<rparr>"
  obtain l where l: "remove_grid_entity (fst p) (snd p) e ?g1 = Inr (True, grid_put (fst p) (snd p) l ?g1)"
      "placed (grid_put (fst p) (snd p) l ?g1) ((posn ?h)(e := None))"
    using remove_grid_ok [of ?g1 "posn ?h" e "fst p" "snd p"] ok pl pe by auto
  let ?g2 = "grid_put (fst p) (snd p) l ?g1"
  have ok2: "grid_ok ?g2" using ok by (simp add: grid_ok_put)
  obtain x y dx dy where vr: "get_visual_range g (fst p) (snd p) = (x, y, dx, dy)"
    by (metis prod_cases4)
  define ids where "ids = range_ids ?g2 (x, y, dx, dy)"
  have ids: "set ids = {k. \<exists>q. ((posn ?h)(e := None)) k = Some q \<and> near g q p}"
    using range_ids_visual(1) [OF ok2 l(2), of p] ig by (simp add: ids_def vr)
  have rect: "rect_ok ?g2 (x, y, dx, dy)"
    using visual_range_ok(1) [OF ok ig] vr by (simp add: rect_ok_def)
  define hc where "hc = upd_interest e (\<lambda>_. []) ?h"
  have "\<exists>h'. (if interested c
         then bind_res (entity_exit_range ?g2 e x y dx dy (hc, None)) (\<lambda>(h', _). Inr h')
         else Inr ?h) = Inr h' \<and> dat h' = dat ?h \<and>
         (\<forall>k. k \<noteq> e \<longrightarrow> distinct (ilist h' k) \<and> set (ilist h' k) = set (ilist ?h k) - {e})"
  proof (cases "interested c")
    case True
    have il: "ilist hc k = (if k = e then [] else ilist ?h k)" for k
      using upd_interest_ilist [of ?h e "\<lambda>_. []" k] c by (simp add: hc_def)
    have dh: "dat hc = dat ?h" by (simp add: hc_def)
    have "hc e \<noteq> None" "\<forall>k \<in> set ids. hc k \<noteq> None"
      unfolding posn_None [symmetric] dat_posn [OF dh] using pe ids by (auto split: if_splits)
    moreover have "e \<notin> set ids" "\<forall>k. distinct (ilist hc k)"
      using ids ilist_distinct [OF inv] by (simp_all add: il)
    ultimately obtain h' where h': "fold_res (exit_visit e) ids (hc, None) = Inr (h', push_opt None ids)"
        "dat h' = dat hc" "\<And>k. distinct (ilist h' k)"
        "\<And>k. set (ilist h' k) = set (ilist hc k) - (if k = e then {k \<in> set ids. wants hc k}
               else if k \<in> set ids \<and> wants hc e then {e} else {})"
      using exit_fold [of hc e ids None] by blast
    have "entity_exit_range ?g2 e x y dx dy (hc, None) = Inr (h', push_opt None ids)"
      unfolding entity_exit_range_def raw_each_eq [OF ok2 rect] using h'(1) by (simp add: ids_def)
    moreover have "set (ilist h' k) = set (ilist ?h k) - {e}" if "k \<noteq> e" for k
    proof -
      have "e \<in> set (ilist ?h k) \<Longrightarrow> k \<in> set ids"
        using ilist_iff [OF inv, of e k] pe that ids near_sym by auto
      moreover have "wants hc e" using we True dat_wants [OF dh] by simp
      ultimately show ?thesis using h'(4) [of k] that by (auto simp: il)
    qed
    ultimately show ?thesis using True h'(2,3) dh by (intro exI [of _ h']) simp
  next
    case False
    then have "e \<notin> set (ilist ?h k)" for k using ilist_iff [OF inv, of e k] we by simp
    then show ?thesis using False ilist_distinct [OF inv] by (intro exI [of _ ?h]) simp
  qed
  then obtain h' where run: "(if interested c
         then bind_res (entity_exit_range ?g2 e x y dx dy (hc, None)) (\<lambda>(h', _). Inr h')
         else Inr ?h) = Inr h'" and dh: "dat h' = dat ?h"
      and il: "\<And>k. k \<noteq> e \<Longrightarrow> distinct (ilist h' k) \<and> set (ilist h' k) = set (ilist ?h k) - {e}"
    by blast
  let ?h2 = "h'(e := None)" and ?g' = "?g2\<lparr>ga_heap := h'(e := None)\<rparr>"
  have d2: "dat ?h2 = (dat ?h)(e := None)" using dh by (auto simp: dat_def fun_eq_iff)
  have p2: "posn ?h2 = (posn ?h)(e := None)" by (auto simp: posn_def d2)
  have "exit_entity e list g = Inr (0, push_opt list (ilist ?h e), ?g')"
    using e c l(1) vr run unfolding p_def hc_def fst_conv snd_conv
    by (cases "interested c") (simp_all add: exit_entity_def deref_def ilist_def)
  moreover have "set (ilist ?h2 k) = {j \<in> around ?g' k q. wants ?h2 j} \<and> distinct (ilist ?h2 k)"
    if "posn ?h2 k = Some q" for k q
  proof -
    have k: "k \<noteq> e" "posn ?h k = Some q" using that by (simp_all add: p2 split: if_splits)
    have "ilist ?h2 k = ilist h' k" using k by (simp add: ilist_def)
    moreover have "wants ?h2 j \<longleftrightarrow> j \<noteq> e \<and> wants ?h j" for j by (simp add: wants_def d2)
    ultimately show ?thesis
      using il [OF k(1)] aoi_invD(5) [OF inv k(2)] p2 by (auto simp: around_def split: if_splits)
  qed
  moreover have "dom ?h2 = ga_set g - {e}"
    unfolding dom_dat [of ?h2] d2 using aoi_invD(2) [OF inv] dom_dat [of ?h] by simp
  ultimately show ?thesis
    using l(2) ok2 d2 p2 by (intro exI [of _ ?g']) (simp add: aoi_inv_def)
qed

section \<open>Moving\<close>

text \<open>\<open>it\<close> is a part of \<open>r\<close> that leaves rows free on at most one side.\<close>

definition corner :: "int \<times> int \<times> int \<times> int \<Rightarrow> int \<times> int \<times> int \<times> int \<Rightarrow> bool" where
  "corner it r = (case (it, r) of ((it_x, it_y, it_dx, it_dy), (x, y, dx, dy)) \<Rightarrow>
     x \<le> it_x \<and> it_dx \<le> dx \<and> y \<le> it_y \<and> it_y \<le> it_dy \<and> it_dy \<le> dy \<and> (it_dy = dy \<or> it_y = y))"

definition outer_ids :: "grid_aoi \<Rightarrow> int \<times> int \<times> int \<times> int \<Rightarrow> int \<times> int \<times> int \<times> int \<Rightarrow> int list" where
  "outer_ids g it r = (case r of (x, y, dx, dy) \<Rightarrow>
     concat (map (\<lambda>ix. case outer_rows it y dy ix of None \<Rightarrow> []
       | Some (iy, idy) \<Rightarrow> range_ids g (ix, iy, ix, idy)) [x..dx]))"

lemma outer_rows_cases:
  assumes "corner it (x, y, dx, dy)" "ix \<in> set [x..dx]"
  shows "case outer_rows it y dy ix of
      None \<Rightarrow> \<forall>iy. y \<le> iy \<and> iy \<le> dy \<longrightarrow> in_rect it (ix, iy)
    | Some (a, b) \<Rightarrow> a \<le> b \<and> y \<le> a \<and> b \<le> dy \<and>
        (\<forall>iy. (a \<le> iy \<and> iy \<le> b) = (y \<le> iy \<and> iy \<le> dy \<and> \<not> in_rect it (ix, iy)))"
proof -
  obtain it_x it_y it_dx it_dy where it: "it = (it_x, it_y, it_dx, it_dy)" by (metis prod_cases4)
  show ?thesis using assms unfolding it
    by (auto simp: outer_rows_def corner_def in_rect_def)
qed

lemma outer_loop_eq:
  assumes "grid_ok g" "corner it r" "rect_ok g r"
  shows "outer_loop (raw_each_range_entity g f) it r s = fold_res f (outer_ids g it r) s"
proof -
  obtain x y dx dy where r: "r = (x, y, dx, dy)" by (metis prod_cases4)
  have "(case outer_rows it y dy ix of None \<Rightarrow> Inr t
       | Some (iy, idy) \<Rightarrow> bind_res (check (iy \<le> idy) AssertionFailed)
           (\<lambda>_. raw_each_range_entity g f ix iy ix idy t)) =
      fold_res f (case outer_rows it y dy ix of None \<Rightarrow> []
       | Some (iy, idy) \<Rightarrow> range_ids g (ix, iy, ix, idy)) t" if ix: "ix \<in> set [x..dx]" for ix t
  proof (cases "outer_rows it y dy ix")
    case (Some ab)
    obtain a b where ab: "ab = (a, b)" by (cases ab)
    have le: "a \<le> b" "y \<le> a" "b \<le> dy"
      using outer_rows_cases [OF assms(2) [unfolded r] ix] Some ab by simp_all
    then have "rect_ok g (ix, a, ix, b)" using assms(3) ix by (auto simp: rect_ok_def r)
    then show ?thesis using Some ab le raw_each_eq [OF assms(1)] by (simp add: raw_each_eq [OF assms(1)])
  qed simp
  then show ?thesis unfolding outer_loop_def outer_ids_def r prod.case fold_res_concat
    by (intro fold_res_cong)
qed

lemma outer_ids_set:
  assumes "placed g P" "corner it r" "rect_ok g r"
  shows "set (outer_ids g it r) = {e. \<exists>p. P e = Some p \<and> in_rect r p \<and> \<not> in_rect it p}"
    and "distinct (outer_ids g it r)"
proof -
  obtain x y dx dy where r: "r = (x, y, dx, dy)" by (metis prod_cases4)
  let ?col = "\<lambda>ix. case outer_rows it y dy ix of None \<Rightarrow> []
       | Some (iy, idy) \<Rightarrow> range_ids g (ix, iy, ix, idy)"
  have col: "distinct (?col ix) \<and>
      set (?col ix) = {e. \<exists>iy. P e = Some (ix, iy) \<and> y \<le> iy \<and> iy \<le> dy \<and> \<not> in_rect it (ix, iy)}"
    if ix: "ix \<in> set [x..dx]" for ix
  proof (cases "outer_rows it y dy ix")
    case None
    then show ?thesis using outer_rows_cases [OF assms(2) [unfolded r] ix] by auto
  next
    case (Some ab)
    obtain a b where ab: "ab = (a, b)" by (cases ab)
    have le: "y \<le> a" "b \<le> dy"
        "\<And>iy. (a \<le> iy \<and> iy \<le> b) = (y \<le> iy \<and> iy \<le> dy \<and> \<not> in_rect it (ix, iy))"
      using outer_rows_cases [OF assms(2) [unfolded r] ix] Some ab by simp_all
    then have ok: "rect_ok g (ix, a, ix, b)" using assms(3) ix by (auto simp: rect_ok_def r)
    have "in_rect (ix, a, ix, b) p \<longleftrightarrow> fst p = ix \<and> (a \<le> snd p \<and> snd p \<le> b)" for p
      by (auto simp: in_rect_def)
    then have "set (?col ix) = {e. \<exists>p. P e = Some p \<and> fst p = ix \<and> y \<le> snd p \<and> snd p \<le> dy \<and>
        \<not> in_rect it (ix, snd p)}"
      using Some ab range_ids_set [OF assms(1) ok] le(3) by simp
    moreover have "distinct (?col ix)"
      using Some ab range_ids_distinct [OF assms(1) ok] by simp
    ultimately show ?thesis by (auto simp: split_paired_Ex)
  qed
  have oi: "outer_ids g it r = concat (map ?col [x..dx])" by (simp add: outer_ids_def r)
  show "set (outer_ids g it r) = {e. \<exists>p. P e = Some p \<and> in_rect r p \<and> \<not> in_rect it p}"
  proof (rule set_eqI)
    fix e
    have "e \<in> set (outer_ids g it r) \<longleftrightarrow> (\<exists>ix \<in> set [x..dx]. e \<in> set (?col ix))"
      unfolding oi by simp
    also have "\<dots> \<longleftrightarrow> (\<exists>ix \<in> set [x..dx]. \<exists>iy. P e = Some (ix, iy) \<and> y \<le> iy \<and> iy \<le> dy \<and> \<not> in_rect it (ix, iy))"
      using col by blast
    also have "\<dots> \<longleftrightarrow> (\<exists>p. P e = Some p \<and> in_rect r p \<and> \<not> in_rect it p)"
      by (auto simp: r in_rect_def split_paired_Ex)
    finally show "e \<in> set (outer_ids g it r) \<longleftrightarrow>
        e \<in> {e. \<exists>p. P e = Some p \<and> in_rect r p \<and> \<not> in_rect it p}" by simp
  qed
  show "distinct (outer_ids g it r)" unfolding oi
  proof (rule distinct_concat_map)
    fix ix ix' assume ix: "ix \<in> set [x..dx]" "ix' \<in> set [x..dx]" "ix \<noteq> ix'"
    show "set (?col ix) \<inter> set (?col ix') = {}"
      using col [OF ix(1)] col [OF ix(2)] ix(3) by auto
  qed (use col in auto)
qed

lemma visual_mono:
  assumes "b \<le> b'" "get_visual_range g a b = (x, y, dx, dy)"
    and "get_visual_range g a' b' = (x', y', dx', dy')"
  shows "y \<le> y'" "dy \<le> dy'"
  using assms by (auto simp: get_visual_range_def Let_def split: if_splits)

lemma visual_corner:
  assumes "get_visual_range g a b = (x, y, dx, dy)"
    and "get_visual_range g a' b' = (x', y', dx', dy')"
    and "\<not> (max x x' > min dx dx' \<or> max y y' > min dy dy')"
  shows "corner (max x x', max y y', min dx dx', min dy dy') (x, y, dx, dy)"
    and "corner (max x x', max y y', min dx dx', min dy dy') (x', y', dx', dy')"
  using assms(3) visual_mono [OF _ assms(1,2)] visual_mono [OF _ assms(2,1)] linear [of b b']
  by (auto simp: corner_def)

text \<open>The two passes over the entities that go out of and come into view.\<close>

lemma move_folds:
  assumes inv: "aoi_inv g" and e: "posn (ga_heap g) e = Some p"
    and outs: "set outs = around g e p - around g e p'"
    and ins: "set ins = around g e p' - around g e p" "distinct ins"
    and h1: "dat h1 = dat (ga_heap g)" "\<And>k. k \<noteq> e \<Longrightarrow> ilist h1 k = ilist (ga_heap g) k"
    and il: "distinct (ilist h1 e)" "set (ilist h1 e) \<subseteq> around g e p"
      "set (ilist h1 e) - {k \<in> set outs. wants (ga_heap g) k} =
         {k \<in> around g e p \<inter> around g e p'. wants (ga_heap g) k}"
  shows "\<exists>h2 h3. fold_res (exit_visit e) outs (h1, lo) = Inr (h2, push_opt lo outs) \<and>
           fold_res (enter_visit e) ins (h2, li) = Inr (h3, push_opt li ins) \<and>
           dat h3 = dat (ga_heap g) \<and>
           (\<forall>k. distinct (ilist h3 k) \<and>
              set (ilist h3 k) =
                (if k = e then {j \<in> around g e p'. wants (ga_heap g) j}
                 else set (ilist (ga_heap g) k) - (if k \<in> set outs \<and> wants (ga_heap g) e then {e} else {})
                   \<union> (if k \<in> set ins \<and> wants (ga_heap g) e then {e} else {})))"
proof -
  let ?h = "ga_heap g" and ?A = "around g e p" and ?B = "around g e p'"
  have w: "wants h1 = wants ?h" using dat_wants [OF h1(1)] .
  have live: "h' k \<noteq> None" if "dat h' = dat ?h" "k \<in> ?A \<or> k \<in> ?B \<or> k = e" for h' k
    using that e dat_posn [OF that(1)] posn_None [of h' k] by (auto simp: around_def)
  have "h1 e \<noteq> None" "\<forall>k \<in> set outs. h1 k \<noteq> None" using live [OF h1(1)] outs by auto
  moreover have "e \<notin> set outs" "e \<notin> set ins" using outs ins by (auto simp: around_def)
  moreover have "\<forall>k. distinct (ilist h1 k)"
    using il(1) h1(2) ilist_distinct [OF inv] by metis
  ultimately obtain h2 where h2: "fold_res (exit_visit e) outs (h1, lo) = Inr (h2, push_opt lo outs)"
      "dat h2 = dat h1" "\<And>k. distinct (ilist h2 k)"
      "\<And>k. set (ilist h2 k) = set (ilist h1 k) - (if k = e then {k \<in> set outs. wants h1 k}
               else if k \<in> set outs \<and> wants h1 e then {e} else {})"
    using exit_fold [of h1 e outs lo] by blast
  have d2: "dat h2 = dat ?h" using h2(2) h1(1) by simp
  have ie: "set (ilist h2 e) = {k \<in> ?A \<inter> ?B. wants ?h k}"
    using h2(4) [of e] il(3) by (simp add: w)
  have "e \<notin> set (ilist ?h k)" if "k \<in> set ins" for k
    using ilist_iff [OF inv, of e k] that ins e near_sym by (auto simp: around_def)
  then have "\<forall>k \<in> set ins. k \<notin> set (ilist h2 e) \<and> e \<notin> set (ilist h2 k)"
    using ie ins h2(4) h1(2) \<open>e \<notin> set ins\<close> by auto
  moreover have "h2 e \<noteq> None" "\<forall>k \<in> set ins. h2 k \<noteq> None" using live [OF d2] ins by auto
  ultimately obtain h3 where h3: "fold_res (enter_visit e) ins (h2, li) = Inr (h3, push_opt li ins)"
      "dat h3 = dat h2" "\<And>k. distinct (ilist h3 k)"
      "\<And>k. set (ilist h3 k) = set (ilist h2 k) \<union> (if k = e then {k \<in> set ins. wants h2 k}
               else if k \<in> set ins \<and> wants h2 e then {e} else {})"
    using enter_fold [of h2 e ins li] \<open>e \<notin> set ins\<close> ins(2) h2(3) by blast
  have w2: "wants h2 = wants ?h" using dat_wants [OF d2] .
  have "set (ilist h3 k) = (if k = e then {j \<in> ?B. wants ?h j}
      else set (ilist ?h k) - (if k \<in> set outs \<and> wants ?h e then {e} else {})
        \<union> (if k \<in> set ins \<and> wants ?h e then {e} else {}))" for k
  proof (cases "k = e")
    case True
    then show ?thesis using h3(4) [of e] ie ins by (auto simp: w2)
  next
    case False
    then show ?thesis using h3(4) [of k] h2(4) [of k] h1(2) [of k] by (simp add: w w2)
  qed
  then show ?thesis using h2(1) h3(1-3) d2 by (intro exI [of _ h2] exI [of _ h3]) simp
qed

lemma update_entity_ok:
  assumes inv: "aoi_inv g" and e: "dat (ga_heap g) e = Some (m, p)"
    and p': "p' = (c_div x (ga_pix g), c_div y (ga_pix g))" "in_grid g p'" "p' \<noteq> p"
  shows "\<exists>ins outs g'. update_entity e x y li lo g = Inr (0, push_opt li ins, push_opt lo outs, g') \<and>
           aoi_inv g' \<and> distinct ins \<and> set ins = around g e p' - around g e p \<and>
           distinct outs \<and> set outs = around g e p - around g e p' \<and>
           dat (ga_heap g') = (dat (ga_heap g))(e \<mapsto> (m, p')) \<and> ga_set g' = ga_set g \<and>
           ga_vw g' = ga_vw g \<and> ga_vh g' = ga_vh g"
proof -
  let ?h = "ga_heap g"
  note ok = aoi_invD(1) [OF inv] and pl = aoi_invD(3) [OF inv]
  have pe: "posn ?h e = Some p" using e by (simp add: posn_def)
  obtain c where c: "?h e = Some c" "m = ec_mask c" "p = (ec_x c, ec_y c)"
    using e by (auto simp: dat_def)
  have es: "e \<in> ga_set g" using aoi_invD(2) [OF inv] c(1) by blast
  have ig: "in_grid g p" using posn_in_grid [OF inv pe] .
  obtain l where l: "remove_grid_entity (fst p) (snd p) e g = Inr (True, grid_put (fst p) (snd p) l g)"
      "placed (grid_put (fst p) (snd p) l g) ((posn ?h)(e := None))"
    using remove_grid_ok [of g "posn ?h" e "fst p" "snd p"] ok pl pe by auto
  define g1 where "g1 = grid_put (fst p) (snd p) l g"
  have g1: "ga_heap g1 = ?h" "grid_ok g1" "ga_set g1 = ga_set g" "in_grid g1 = in_grid g"
      "near g1 = near g" "ga_vw g1 = ga_vw g" "ga_vh g1 = ga_vh g"
    using ok by (simp_all add: g1_def grid_ok_put fun_eq_iff)
  have pl1: "placed g1 ((posn ?h)(e := None))" using l(2) by (simp add: g1_def)
  obtain x1 y1 dx1 dy1 where old: "get_visual_range g (fst p) (snd p) = (x1, y1, dx1, dy1)"
    by (metis prod_cases4)
  obtain x2 y2 dx2 dy2 where new: "get_visual_range g (fst p') (snd p') = (x2, y2, dx2, dy2)"
    by (metis prod_cases4)
  let ?old = "(x1, y1, dx1, dy1)" and ?new = "(x2, y2, dx2, dy2)"
  let ?it = "(max x1 x2, max y1 y2, min dx1 dx2, min dy1 dy2)"
  let ?inter = "\<not> (max x1 x2 > min dx1 dx2 \<or> max y1 y2 > min dy1 dy2)"
  have rects: "rect_ok g1 ?old" "rect_ok g1 ?new"
    using visual_range_ok(1) [OF ok ig] visual_range_ok(1) [OF ok p'(2)] old new
    by (simp_all add: rect_ok_def g1_def)
  have view: "in_rect ?old q \<longleftrightarrow> near g q p" "in_rect ?new q \<longleftrightarrow> near g q p'" if "in_grid g q" for q
    using visual_range_ok(2) [OF ok ig that] visual_range_ok(2) [OF ok p'(2) that] old new by simp_all
  have itr: "in_rect ?it q \<longleftrightarrow> in_rect ?old q \<and> in_rect ?new q" for q by (auto simp: in_rect_def)
  have arnd: "around g e q = {k. \<exists>r. ((posn ?h)(e := None)) k = Some r \<and> near g r q}" for q
    by (auto simp: around_def)
  have Pig: "((posn ?h)(e := None)) k = Some r \<Longrightarrow> in_grid g r" for k r
    using pl1 by (auto simp: placed_def g1)
  define Q where "Q = (posn ?h)(e := None)"
  have arnds: "around g e p = {k. \<exists>r. Q k = Some r \<and> in_rect ?old r}"
      "around g e p' = {k. \<exists>r. Q k = Some r \<and> in_rect ?new r}"
    unfolding arnd Q_def [symmetric] using view Pig [folded Q_def] by blast+
  have plQ: "placed g1 Q" using pl1 by (simp add: Q_def)
  define outs where "outs = (if ?inter then outer_ids g1 ?it ?old else range_ids g1 ?old)"
  define ins where "ins = (if ?inter then outer_ids g1 ?it ?new else range_ids g1 ?new)"
  define h1 where "h1 = (if ?inter then ?h else upd_interest e (\<lambda>_. []) ?h)"
  have disj: "\<not> ?inter \<Longrightarrow> \<not> (in_rect ?old q \<and> in_rect ?new q)" for q
    by (auto simp: in_rect_def)
  have corners: "?inter \<Longrightarrow> corner ?it ?old" "?inter \<Longrightarrow> corner ?it ?new"
    using visual_corner [OF old new] by blast+
  have outs: "set outs = around g e p - around g e p'" "distinct outs"
  proof -
    have "set outs = {k. \<exists>r. Q k = Some r \<and> in_rect ?old r \<and> \<not> in_rect ?new r} \<and> distinct outs"
    proof (cases ?inter)
      case True
      then show ?thesis
        using outer_ids_set [OF plQ corners(1) [OF True] rects(1)] unfolding outs_def itr by auto
    next
      case False
      then show ?thesis
        using range_ids_set [OF plQ rects(1)] range_ids_distinct [OF plQ rects(1)] disj [OF False]
        unfolding outs_def if_not_P [OF False] by auto
    qed
    then show "set outs = around g e p - around g e p'" "distinct outs" unfolding arnds by auto
  qed
  have ins: "set ins = around g e p' - around g e p" "distinct ins"
  proof -
    have "set ins = {k. \<exists>r. Q k = Some r \<and> in_rect ?new r \<and> \<not> in_rect ?old r} \<and> distinct ins"
    proof (cases ?inter)
      case True
      then show ?thesis
        using outer_ids_set [OF plQ corners(2) [OF True] rects(2)] unfolding ins_def itr by auto
    next
      case False
      then show ?thesis
        using range_ids_set [OF plQ rects(2)] range_ids_distinct [OF plQ rects(2)] disj [OF False]
        unfolding ins_def if_not_P [OF False] by auto
    qed
    then show "set ins = around g e p' - around g e p" "distinct ins" unfolding arnds by auto
  qed
  have il1: "ilist h1 k = (if k = e \<and> \<not> ?inter then [] else ilist ?h k)" for k
    using upd_interest_ilist [of ?h e "\<lambda>_. []" k] c(1) by (cases "k = e") (simp_all add: h1_def)
  have ile: "set (ilist ?h e) = {k \<in> around g e p. wants ?h k}" "distinct (ilist ?h e)"
    using aoi_invD(4,5) [OF inv pe] by simp_all
  have inter0: "around g e p \<inter> around g e p' = {}" if "\<not> ?inter"
    using disj [OF that] unfolding arnds by auto
  have dh1: "dat h1 = dat ?h" by (simp add: h1_def)
  have ilk: "ilist h1 k = ilist ?h k" if "k \<noteq> e" for k using that by (simp add: il1)
  have mf: "distinct (ilist h1 e)" "set (ilist h1 e) \<subseteq> around g e p"
      "set (ilist h1 e) - {k \<in> set outs. wants ?h k} =
         {k \<in> around g e p \<inter> around g e p'. wants ?h k}"
    using ile inter0 outs(1) by (auto simp: il1)
  obtain h2 h3 where h: "fold_res (exit_visit e) outs (h1, lo) = Inr (h2, push_opt lo outs)"
      "fold_res (enter_visit e) ins (h2, li) = Inr (h3, push_opt li ins)" "dat h3 = dat ?h"
      "\<And>k. distinct (ilist h3 k)"
      "\<And>k. set (ilist h3 k) = (if k = e then {j \<in> around g e p'. wants ?h j}
         else set (ilist ?h k) - (if k \<in> set outs \<and> wants ?h e then {e} else {})
              \<union> (if k \<in> set ins \<and> wants ?h e then {e} else {}))"
    using move_folds [OF inv pe outs(1) ins dh1 ilk mf, of lo li] by blast
  have fe: "entity_exit_range g1 e = raw_each_range_entity g1 (exit_visit e)"
    "entity_enter_range g1 e = raw_each_range_entity g1 (enter_visit e)"
    by (simp_all add: fun_eq_iff entity_exit_range_def entity_enter_range_def)
  have run: "(if \<not> ?inter
       then bind_res (entity_exit_range g1 e x1 y1 dx1 dy1 (upd_interest e (\<lambda>_. []) (ga_heap g1), lo)) (\<lambda>(h, lo').
            bind_res (entity_enter_range g1 e x2 y2 dx2 dy2 (h, li)) (\<lambda>(h', li'). Inr (h', li', lo')))
       else bind_res (outer_loop (entity_exit_range g1 e) ?it ?old (ga_heap g1, lo)) (\<lambda>(h, lo').
            bind_res (outer_loop (entity_enter_range g1 e) ?it ?new (h, li)) (\<lambda>(h', li'). Inr (h', li', lo'))))
     = Inr (h3, push_opt li ins, push_opt lo outs)"
  proof (cases ?inter)
    case True
    then show ?thesis
      using h(1,2) unfolding fe outer_loop_eq [OF g1(2) corners(1) [OF True] rects(1)]
        outer_loop_eq [OF g1(2) corners(2) [OF True] rects(2)] if_not_P [OF not_not [THEN iffD2, OF True]]
      by (simp add: outs_def ins_def h1_def g1(1))
  next
    case False
    then show ?thesis
      using h(1,2) unfolding fe raw_each_eq [OF g1(2) rects(1)] raw_each_eq [OF g1(2) rects(2)] if_P [OF False]
      by (simp add: outs_def ins_def h1_def g1(1))
  qed
  obtain c3 where c3: "h3 e = Some c3" "ec_mask c3 = m"
    using fun_cong [OF h(3), of e] e by (auto simp: dat_def)
  define hf where "hf = h3(e \<mapsto> c3\<lparr>ec_x := fst p', ec_y := snd p'\<rparr>)"
  have df: "dat hf = (dat ?h)(e \<mapsto> (m, p'))"
    unfolding hf_def h(3) [symmetric] using c3(2) by (auto simp: dat_def)
  have pf: "posn hf = (posn ?h)(e \<mapsto> p')" by (auto simp: posn_def df)
  have wf: "wants hf = wants ?h" using e by (auto simp: fun_eq_iff wants_def df)
  have ilf: "ilist hf = ilist h3" using c3(1) by (auto simp: ilist_def hf_def)
  let ?g2 = "g1\<lparr>ga_heap := hf\<rparr>"
  obtain l2 where l2: "insert_grid_entity (fst p') (snd p') e ?g2 = Inr (grid_put (fst p') (snd p') l2 ?g2)"
      "placed (grid_put (fst p') (snd p') l2 ?g2) ((posn ?h)(e := None, e \<mapsto> (fst p', snd p')))"
    using insert_grid_ok [of ?g2 "(posn ?h)(e := None)" e "fst p'" "snd p'"] g1 pl1 p'(2) by auto
  define gf where "gf = grid_put (fst p') (snd p') l2 ?g2"
  have gf: "ga_heap gf = hf" "ga_set gf = ga_set g" "near gf = near g" "grid_ok gf"
      "ga_vw gf = ga_vw g" "ga_vh gf = ga_vh g"
    using g1 by (simp_all add: gf_def grid_ok_put)
  have "update_entity e x y li lo g = Inr (0, push_opt li ins, push_opt lo outs, gf)"
  proof -
    have px: "pix_div g x = Inr (fst p')" "pix_div g y = Inr (snd p')"
      "valid_pos g (fst p') (snd p') (fst p') (snd p')"
      using ok p'(1,2) by (simp_all add: pix_div_def grid_ok_def valid_pos_def in_grid_def)
    have ctx: "get_entity_ctx g e = Some e" "deref (ga_heap g) e = Inr c"
      using es c(1) by (simp_all add: get_entity_ctx_def deref_def)
    have mv: "\<not> (fst p' = ec_x c \<and> snd p' = ec_y c)" using p'(3) c(3) by (auto simp: prod_eq_iff)
    have cp: "ec_x c = fst p" "ec_y c = snd p" using c(3) by simp_all
    show ?thesis
      unfolding update_entity_def px ctx bind_res_simps option.case if_not_P [OF mv] cp old new l(1)
        g1_def [symmetric] Let_def prod.case
      using run px(3) l2(1) c3 mv by (simp add: deref_def cp hf_def [symmetric] gf_def) blast
  qed
  moreover have "set (ilist hf k) = {j \<in> around gf k q. wants hf j}" if q: "posn hf k = Some q" for k q
  proof (cases "k = e")
    case True
    then have "around gf k q = around g e p'" using q pf gf by (auto simp: around_def)
    then show ?thesis using h(5) [of e] True by (simp add: ilf wf)
  next
    case False
    then have qk: "posn ?h k = Some q" using q pf by simp
    have ko: "k \<in> around g e r \<longleftrightarrow> near g q r" for r using qk False by (simp add: around_def)
    show ?thesis
    proof (rule set_eqI)
      fix j
      show "j \<in> set (ilist hf k) \<longleftrightarrow> j \<in> {j \<in> around gf k q. wants hf j}"
      proof (cases "j = e")
        case True
        have "e \<in> set (ilist ?h k) \<longleftrightarrow> wants ?h e \<and> near g q p"
          using ilist_iff [OF inv, of e k] False qk pe near_sym by auto
        moreover have "e \<in> around gf k q \<longleftrightarrow> near g q p'"
          using False pf gf near_sym by (auto simp: around_def)
        ultimately show ?thesis
          using True False h(5) [of k] outs(1) ins(1) by (auto simp: ilf wf ko)
      next
        case ne: False
        have "j \<in> around gf k q \<longleftrightarrow> j \<in> around g k q" using ne pf gf by (simp add: around_def)
        moreover have "j \<in> set (ilist h3 k) \<longleftrightarrow> j \<in> set (ilist ?h k)"
          using h(5) [of k] False ne by auto
        ultimately show ?thesis using aoi_invD(5) [OF inv qk] by (simp add: ilf wf)
      qed
    qed
  qed
  moreover have "dom hf = ga_set g"
    unfolding dom_dat [of hf] df using aoi_invD(2) [OF inv] dom_dat [of ?h] es by auto
  ultimately show ?thesis
    using gf h(4) pf l2(2) ins outs df by (intro exI [of _ ins] exI [of _ outs] exI [of _ gf])
      (simp add: aoi_inv_def ilf gf_def)
qed

section \<open>Runs\<close>

datatype aoi_call = Enter int int int "8 word" | Exit int | Update int int int

text \<open>A call with vectors for the reports; its result is the return code and the reports.\<close>

definition aoi_step :: "aoi_call \<Rightarrow> grid_aoi \<Rightarrow> ((int \<times> int list \<times> int list) \<times> grid_aoi) result" where
  "aoi_step c g =
     (case c of
        Enter e x y m \<Rightarrow> bind_res (enter_entity e x y m (Some []) g) (\<lambda>(r, l, g'). Inr ((r, the l, []), g'))
      | Exit e \<Rightarrow> bind_res (exit_entity e (Some []) g) (\<lambda>(r, l, g'). Inr ((r, [], the l), g'))
      | Update e x y \<Rightarrow> bind_res (update_entity e x y (Some []) (Some []) g)
          (\<lambda>(r, li, lo, g'). Inr ((r, the li, the lo), g')))"

lemma pix_div_ok: "grid_ok g \<Longrightarrow> pix_div g x = Inr (c_div x (ga_pix g))"
  by (simp add: pix_div_def grid_ok_def)

lemma valid_pos_in_grid: "valid_pos g (fst p) (snd p) (fst p) (snd p) = in_grid g p"
  by (auto simp: valid_pos_def in_grid_def)

lemmas aoi_entry = pix_div_ok valid_pos_in_grid [of _ "(a, b)" for a b, simplified]

lemma update_entity_idle:
  assumes inv: "aoi_inv g" and p': "p' = (c_div x (ga_pix g), c_div y (ga_pix g))"
  shows "\<not> in_grid g p' \<Longrightarrow> update_entity e x y li lo g = Inr (-1, li, lo, g)"
    and "in_grid g p' \<Longrightarrow> e \<notin> ga_set g \<Longrightarrow> update_entity e x y li lo g = Inr (-2, li, lo, g)"
    and "in_grid g p' \<Longrightarrow> dat (ga_heap g) e = Some (m, p') \<Longrightarrow> update_entity e x y li lo g = Inr (0, li, lo, g)"
proof -
  note ok = aoi_invD(1) [OF inv]
  show "\<not> in_grid g p' \<Longrightarrow> update_entity e x y li lo g = Inr (-1, li, lo, g)"
    and "in_grid g p' \<Longrightarrow> e \<notin> ga_set g \<Longrightarrow> update_entity e x y li lo g = Inr (-2, li, lo, g)"
    using ok by (simp_all add: update_entity_def aoi_entry p' get_entity_ctx_def)
  assume a: "in_grid g p'" "dat (ga_heap g) e = Some (m, p')"
  then have "e \<in> ga_set g" using aoi_invD(2) [OF inv] unfolding dom_dat by auto
  moreover obtain c where "ga_heap g e = Some c" "p' = (ec_x c, ec_y c)"
    using a(2) by (auto simp: dat_def)
  ultimately show "update_entity e x y li lo g = Inr (0, li, lo, g)"
    using ok a(1) by (simp add: update_entity_def aoi_entry p' get_entity_ctx_def deref_def)
qed

lemma enter_entity_idle:
  assumes inv: "aoi_inv g" and p: "p = (c_div x (ga_pix g), c_div y (ga_pix g))"
  shows "\<not> in_grid g p \<Longrightarrow> enter_entity e x y m list g = Inr (-1, list, g)"
    and "in_grid g p \<Longrightarrow> e \<in> ga_set g \<Longrightarrow> enter_entity e x y m list g = Inr (2, list, g)"
  using aoi_invD(1) [OF inv] by (simp_all add: enter_entity_def aoi_entry p)

lemma in_set_dat:
  assumes "aoi_inv g" "e \<in> ga_set g"
  obtains m p where "dat (ga_heap g) e = Some (m, p)"
proof -
  have "e \<in> dom (dat (ga_heap g))" using assms aoi_invD(2) [OF assms(1)] unfolding dom_dat by simp
  then show ?thesis using that by (cases "dat (ga_heap g) e") auto
qed

lemma aoi_step_ok:
  assumes inv: "aoi_inv g"
  shows "\<exists>r g'. aoi_step c g = Inr (r, g') \<and> aoi_inv g' \<and> ga_vw g' = ga_vw g \<and> ga_vh g' = ga_vh g"
proof (cases c)
  case (Enter e x y m)
  let ?p = "(c_div x (ga_pix g), c_div y (ga_pix g))"
  show ?thesis
    using enter_entity_idle [OF inv refl, of x y e m "Some []"]
      enter_entity_ok [OF inv _ refl, of e x y m "Some []"] inv Enter
    by (cases "in_grid g ?p"; cases "e \<in> ga_set g") (auto simp: aoi_step_def)
next
  case (Exit e)
  then show ?thesis
    using exit_entity_ok [OF inv, of e "Some []"] inv
    by (cases "e \<in> ga_set g") (auto simp: aoi_step_def exit_entity_def)
next
  case (Update e x y)
  let ?p = "(c_div x (ga_pix g), c_div y (ga_pix g))"
  note idle = update_entity_idle [OF inv refl, where x = x and y = y and e = e and li = "Some []" and lo = "Some []"]
  show ?thesis
  proof (cases "in_grid g ?p \<and> e \<in> ga_set g")
    case False
    then show ?thesis using idle(1,2) inv Update
      by (cases "in_grid g ?p") (auto simp: aoi_step_def)
  next
    case True
    then obtain m p where d: "dat (ga_heap g) e = Some (m, p)" using in_set_dat [OF inv] by metis
    then show ?thesis
      using idle(3) [where m = m] update_entity_ok [OF inv d refl, of x y "Some []" "Some []"] True inv Update
      by (cases "?p = p") (auto simp: aoi_step_def)
  qed
qed

interpretation aoi: safe_steps aoi_inv aoi_step
  using aoi_step_ok by unfold_locales blast

text \<open>A scene of \<open>w\<close> times \<open>h\<close> pixels, in cells of \<open>pix\<close> pixels, with a visual range set.\<close>

definition scene :: "int \<Rightarrow> int \<Rightarrow> int \<Rightarrow> int \<Rightarrow> int \<Rightarrow> int \<Rightarrow> grid_aoi result" where
  "scene w h pix vw vh garbage =
     bind_res (set_size w h pix (grid_aoi_init garbage)) (\<lambda>g. Inr (snd (set_visual_range vw vh g)))"

lemma ceil_div_nonneg: "0 < b \<Longrightarrow> 0 \<le> a \<Longrightarrow> 0 \<le> ceil_div a b"
  using ceil_div_bounds(1) [of b a] by (metis mult_neg_pos not_le order_trans)

lemma scene_ok:
  assumes "0 \<le> w" "0 \<le> h" "0 < pix" "0 \<le> vw" "0 \<le> vh"
  shows "\<exists>g. scene w h pix vw vh garbage = Inr g \<and> aoi_inv g \<and> ga_heap g = Map.empty \<and>
           ga_pix g = pix \<and> ga_width g = ceil_div w pix \<and> ga_height g = ceil_div h pix \<and>
           ga_vw g = ceil_div vw pix \<and> ga_vh g = ceil_div vh pix"
proof -
  note nn = ceil_div_nonneg [OF assms(3,1)] ceil_div_nonneg [OF assms(3,2)]
    ceil_div_nonneg [OF assms(3,4)] ceil_div_nonneg [OF assms(3,5)]
  let ?w = "ceil_div w pix" and ?h = "ceil_div h pix"
  let ?g = "\<lparr>ga_width = ?w, ga_height = ?h, ga_pix = pix, ga_vw = ceil_div vw pix,
      ga_vh = ceil_div vh pix, ga_grid = Some (replicate (nat (?w * ?h)) None),
      ga_heap = Map.empty, ga_set = {}\<rparr>"
  have "0 \<le> ?w * ?h" using nn by simp
  then have "scene w h pix vw vh garbage = Inr ?g"
    using assms(3) by (simp add: scene_def set_size_def grid_aoi_init_def set_visual_range_def Let_def)
  moreover have ok: "grid_ok ?g" using assms(3) nn by (simp add: grid_ok_def)
  moreover have "cell_list ?g x y = []" if "in_grid ?g (x, y)" for x y
    using cell_index_bound [OF ok that] by (simp add: cell_list_def)
  ultimately show ?thesis
    by (intro exI [of _ ?g]) (simp add: aoi_inv_def placed_def posn_def dat_def)
qed

lemma aoi_step_frame:
  "aoi_inv g \<Longrightarrow> aoi_step c g = Inr (r, g') \<Longrightarrow> (ga_vw g', ga_vh g') = (ga_vw g, ga_vh g)"
  using aoi_step_ok [of g c] by auto

lemma aoi_inv_explicit:
  assumes "aoi_inv g" "ga_heap g e = Some c"
  shows "distinct (ec_interest c)"
    and "set (ec_interest c) = {k. k \<noteq> e \<and> (\<exists>d. ga_heap g k = Some d \<and> interested d \<and>
           \<bar>ec_x d - ec_x c\<bar> \<le> ga_vw g \<and> \<bar>ec_y d - ec_y c\<bar> \<le> ga_vh g)}"
proof -
  have il: "ilist (ga_heap g) e = ec_interest c" using assms(2) by (simp add: ilist_def)
  then show "distinct (ec_interest c)" using ilist_distinct [OF assms(1), of e] by simp
  have "k \<in> set (ec_interest c) \<longleftrightarrow> k \<noteq> e \<and> (\<exists>d. ga_heap g k = Some d \<and> interested d \<and>
           \<bar>ec_x d - ec_x c\<bar> \<le> ga_vw g \<and> \<bar>ec_y d - ec_y c\<bar> \<le> ga_vh g)" for k
    using ilist_iff [OF assms(1), of k e] assms(2)
    by (auto simp: il posn_def dat_def wants_def interested_def near_def)
  then show "set (ec_interest c) = {k. k \<noteq> e \<and> (\<exists>d. ga_heap g k = Some d \<and> interested d \<and>
           \<bar>ec_x d - ec_x c\<bar> \<le> ga_vw g \<and> \<bar>ec_y d - ec_y c\<bar> \<le> ga_vh g)}" by blast
qed

section \<open>Properties\<close>

text \<open>
  C1: The area of interest is exact on every run. From a newly set up scene, any sequence of
  entering, exiting and updating calls, whatever their arguments, returns without a fault
  (no dangling entity, no cell outside the grid, no failed assertion), and afterwards the
  interest list of every entity holds exactly the other entities with the interest bit
  whose cell is within the visual range of its own, each of them once.
\<close>

theorem grid_aoi_exact:
  assumes "0 \<le> w" "0 \<le> h" "0 < pix" "0 \<le> vw" "0 \<le> vh"
  shows "\<exists>g0 rs g. scene w h pix vw vh garbage = Inr g0 \<and> run_ops aoi_step calls g0 = Inr (rs, g) \<and>
    (\<forall>e c. ga_heap g e = Some c \<longrightarrow> distinct (ec_interest c) \<and>
       set (ec_interest c) = {k. k \<noteq> e \<and> (\<exists>d. ga_heap g k = Some d \<and> interested d \<and>
         \<bar>ec_x d - ec_x c\<bar> \<le> ceil_div vw pix \<and> \<bar>ec_y d - ec_y c\<bar> \<le> ceil_div vh pix)})"
proof -
  obtain g0 where g0: "scene w h pix vw vh garbage = Inr g0" "aoi_inv g0"
      "ga_vw g0 = ceil_div vw pix" "ga_vh g0 = ceil_div vh pix"
    using scene_ok [OF assms] by blast
  obtain rs g where g: "run_ops aoi_step calls g0 = Inr (rs, g)" "aoi_inv g"
    using aoi.run_safe [OF g0(2)] by blast
  have "(ga_vw g, ga_vh g) = (ga_vw g0, ga_vh g0)"
    by (rule aoi.run_keeps [OF _ g0(2) g(1)]) (rule aoi_step_frame)
  then show ?thesis using g0 g aoi_inv_explicit [OF g(2)]
    by (intro exI [of _ g0] exI [of _ rs] exI [of _ g]) simp
qed

theorem grid_aoi_exact_witness:
  "\<exists>g0 rs g. scene 100 100 10 20 20 0 = Inr g0 \<and>
     run_ops aoi_step [Enter 1 5 5 1, Enter 2 25 5 1, Update 2 95 95, Exit 1] g0 = Inr (rs, g)"
  using grid_aoi_exact [of 100 100 10 20 20 0 "[Enter 1 5 5 1, Enter 2 25 5 1, Update 2 95 95, Exit 1]"]
  by auto

text \<open>
  Entering. A call with a cell outside the grid answers -1 and one with a known id
  answers 2, both without effect; otherwise the entity is in the scene at its cell with its
  mask, every other entity keeps its own, and the caller's vector is extended by exactly
  the entities in view, each once.
\<close>

theorem enter_entity_reports:
  assumes "aoi_inv g" "p = (c_div x (ga_pix g), c_div y (ga_pix g))"
  shows "if \<not> in_grid g p then enter_entity e x y m list g = Inr (-1, list, g)
    else if e \<in> ga_set g then enter_entity e x y m list g = Inr (2, list, g)
    else \<exists>ids g'. enter_entity e x y m list g = Inr (0, push_opt list ids, g') \<and> aoi_inv g' \<and>
           distinct ids \<and> set ids = around g e p \<and>
           dat (ga_heap g') = (dat (ga_heap g))(e \<mapsto> (m, p)) \<and> ga_set g' = insert e (ga_set g) \<and>
           ga_vw g' = ga_vw g \<and> ga_vh g' = ga_vh g"
  using enter_entity_idle [OF assms] enter_entity_ok [OF assms(1) _ assms(2)] by auto

theorem enter_entity_reports_witness:
  "\<exists>g ids g'. enter_entity 7 15 3 1 (Some []) g = Inr (0, Some ids, g') \<and> aoi_inv g'"
proof -
  obtain g where g: "aoi_inv g" "ga_pix g = 10" "ga_width g = ceil_div 100 10" "ga_height g = ceil_div 100 10"
      "ga_heap g = Map.empty"
    using scene_ok [of 100 100 10 20 20 0] by auto
  then have "in_grid g (c_div 15 (ga_pix g), c_div 3 (ga_pix g))" "7 \<notin> ga_set g"
    using aoi_invD(2) [OF g(1)] by (auto simp: in_grid_def c_div_def ceil_div_def)
  with enter_entity_reports [OF g(1) refl, of 15 3 7 1 "Some []"] show ?thesis by auto
qed

text \<open>
  C28: Moving. A call with a cell outside the grid answers -1, one with an unknown id -2, one
  that stays in its cell 0, all without effect; otherwise the entity is at its new cell,
  \<open>list_in\<close> is extended by exactly the entities that were out of view and are in view, and
  \<open>list_out\<close> by exactly those that were in view and no longer are, each once.
\<close>

theorem update_entity_reports:
  assumes "aoi_inv g" "p' = (c_div x (ga_pix g), c_div y (ga_pix g))"
  shows "if \<not> in_grid g p' then update_entity e x y li lo g = Inr (-1, li, lo, g)
    else case dat (ga_heap g) e of
      None \<Rightarrow> update_entity e x y li lo g = Inr (-2, li, lo, g)
    | Some (m, p) \<Rightarrow>
        if p' = p then update_entity e x y li lo g = Inr (0, li, lo, g)
        else \<exists>ins outs g'. update_entity e x y li lo g = Inr (0, push_opt li ins, push_opt lo outs, g') \<and>
           aoi_inv g' \<and> distinct ins \<and> set ins = around g e p' - around g e p \<and>
           distinct outs \<and> set outs = around g e p - around g e p' \<and>
           dat (ga_heap g') = (dat (ga_heap g))(e \<mapsto> (m, p')) \<and> ga_set g' = ga_set g \<and>
           ga_vw g' = ga_vw g \<and> ga_vh g' = ga_vh g"
proof (cases "in_grid g p'")
  case False
  then show ?thesis using update_entity_idle(1) [OF assms] by simp
next
  case True
  show ?thesis
  proof (cases "dat (ga_heap g) e")
    case None
    then have "e \<notin> ga_set g" using aoi_invD(2) [OF assms(1)] unfolding dom_dat by auto
    then show ?thesis using True None update_entity_idle(2) [OF assms True] by simp
  next
    case (Some mp)
    obtain m p where mp: "mp = (m, p)" by (cases mp)
    show ?thesis
    proof (cases "p' = p")
      case same: True
      then show ?thesis using True Some mp update_entity_idle(3) [OF assms True, of e m] by simp
    next
      case False
      then show ?thesis
        using True Some mp update_entity_ok [OF assms(1) Some [unfolded mp] assms(2) True False] by simp
    qed
  qed
qed

theorem update_entity_reports_witness:
  "\<exists>g. aoi_inv g \<and> update_entity 7 15 3 (Some []) (Some []) g = Inr (-2, Some [], Some [], g)"
proof -
  obtain g where g: "aoi_inv g" "ga_pix g = 10" "ga_width g = ceil_div 100 10" "ga_height g = ceil_div 100 10"
      "ga_heap g = Map.empty"
    using scene_ok [of 100 100 10 20 20 0] by auto
  have "in_grid g (c_div 15 (ga_pix g), c_div 3 (ga_pix g))" "dat (ga_heap g) 7 = None"
    using g by (auto simp: in_grid_def c_div_def ceil_div_def dat_def)
  with update_entity_reports [OF g(1) refl, of 15 3 7 "Some []" "Some []"] g(1) show ?thesis by auto
qed

text \<open>
  Exiting. Leaving reports exactly the interest list the entity had, removes it from the
  scene and from every other list, and changes nothing else; an unknown id answers 1.
\<close>

theorem exit_entity_reports:
  assumes "aoi_inv g"
  shows "if e \<notin> ga_set g then exit_entity e list g = Inr (1, list, g)
    else \<exists>g'. exit_entity e list g = Inr (0, push_opt list (ilist (ga_heap g) e), g') \<and> aoi_inv g' \<and>
           dat (ga_heap g') = (dat (ga_heap g))(e := None) \<and> ga_set g' = ga_set g - {e} \<and>
           ga_vw g' = ga_vw g \<and> ga_vh g' = ga_vh g \<and> (\<forall>k. e \<notin> set (ilist (ga_heap g') k))"
proof (cases "e \<in> ga_set g")
  case True
  then obtain g' where g': "exit_entity e list g = Inr (0, push_opt list (ilist (ga_heap g) e), g')"
      "aoi_inv g'" "dat (ga_heap g') = (dat (ga_heap g))(e := None)" "ga_set g' = ga_set g - {e}"
      "ga_vw g' = ga_vw g" "ga_vh g' = ga_vh g"
    using exit_entity_ok [OF assms] by blast
  have "e \<notin> set (ilist (ga_heap g') k)" for k
    using ilist_iff [OF g'(2), of e k] g'(3) by (simp add: posn_def)
  then show ?thesis using True g' by auto
qed (simp add: exit_entity_def)

theorem exit_entity_reports_witness: "\<exists>g. aoi_inv g \<and> exit_entity 7 None g = Inr (1, None, g)"
proof -
  obtain g where g: "aoi_inv g" "ga_heap g = Map.empty"
    using scene_ok [of 100 100 10 20 20 0] by auto
  then have "7 \<notin> ga_set g" using aoi_invD(2) [OF g(1)] by auto
  with exit_entity_reports [OF g(1), of 7 None] g(1) show ?thesis by auto
qed

text \<open>
  The coordinate check is on the cell, after a division that truncates towards zero, so
  pixel coordinates left of or above the scene by less than a cell are accepted: the
  entity enters in cell (0, 0).
\<close>

theorem negative_pixels_enter:
  assumes "aoi_inv g" "0 < ga_width g" "0 < ga_height g" "e \<notin> ga_set g"
    and "- ga_pix g < x" "x < 0" "- ga_pix g < y" "y < 0"
  shows "\<exists>l g'. enter_entity e x y m list g = Inr (0, l, g') \<and> dat (ga_heap g') e = Some (m, 0, 0)"
proof -
  have z: "c_div x (ga_pix g) = 0" "c_div y (ga_pix g) = 0"
    using assms(5-8) by (simp_all add: c_div_small)
  have "in_grid g (0, 0)" using assms(2,3) by (simp add: in_grid_def)
  then show ?thesis
    using enter_entity_ok [OF assms(1,4), of "(0, 0)" x y m list] by (auto simp: z)
qed

theorem negative_pixels_enter_witness:
  "\<exists>g l g'. enter_entity 7 (-3) (-9) 1 None g = Inr (0, l, g') \<and> dat (ga_heap g') 7 = Some (1, 0, 0)"
proof -
  obtain g where g: "aoi_inv g" "ga_pix g = 10" "ga_width g = ceil_div 100 10" "ga_height g = ceil_div 100 10"
      "ga_heap g = Map.empty"
    using scene_ok [of 100 100 10 20 20 0] by auto
  then have "0 < ga_width g" "0 < ga_height g" "7 \<notin> ga_set g"
    using aoi_invD(2) [OF g(1)] by (auto simp: ceil_div_def)
  from negative_pixels_enter [OF g(1) this, of "-3" "-9" 1 None] g(2) show ?thesis by auto
qed

end
