(* ===== verification/EvLoop.thy ===== *)
theory EvLoop
  imports TimerHeap
begin

text \<open>
  The main loop's state and its timers, after \<open>ev/ev.cpp\<close>, \<open>ev/ev.hpp\<close> and
  \<open>ev/ev_watcher.cpp\<close>.

  A watcher pointer is one of \<open>WTimer\<close>, \<open>WPeriodic\<close>, \<open>WIo\<close> with the id under which the
  owning map (\<open>_timer_mgr\<close>, \<open>_periodic_mgr\<close>, \<open>_io_mgr\<close>) holds the object; these maps never
  move their elements, so an id that is in the map is a valid address and one that is not
  is a dangling one. \<open>pendings\<close> is the vector of watchers to call back, None a slot that was
  cleared. \<open>timer_q\<close> groups \<open>_timers\<close>, \<open>_timer_mgr\<close> and \<open>_timer_cnt\<close>, \<open>periodic_q\<close> their
  \<open>periodic\<close> counterparts. The loops of \<open>timers_reify\<close> and \<open>periodic_reify\<close> need not end
  for arbitrary states, so they are partial functions; that they end is proved.
\<close>

section \<open>State\<close>

datatype watcher = WTimer int | WPeriodic int | WIo int

datatype io_status = S_NONE | S_STOP | S_START | S_NEW | S_DEL

record evio =
  io_pending :: nat
  io_revents :: "8 word"
  io_fd :: int
  io_state :: io_status
  io_mask :: "8 word"
  io_uevents :: "8 word"
  io_b_uevents :: "8 word"
  io_b_revents :: "8 word"
  io_b_kevents :: "8 word"
  io_b_eevents :: "8 word"
  io_b_fevents :: "8 word"
  io_change_index :: nat
  io_b_uevent_index :: nat
  io_b_fevent_index :: int
  io_b_revent_index :: nat
  io_obj :: bool

record tqueue =
  tq_heap :: theap
  tq_cnt :: int

record ev =
  timer_q :: tqueue
  periodic_q :: tqueue
  pendings :: "watcher option list"
  io_mgr :: "int \<rightharpoonup> evio"
  io_changes :: "int list"
  io_delete_index :: nat
  io_fevents :: "int option list"
  io_revs :: "int option list"
  steady_clk :: int
  system_clk :: int
  system_now :: int
  last_clk_update :: int
  clock_diff :: int

definition EV_READ :: "8 word" where "EV_READ = 0x01"
definition EV_WRITE :: "8 word" where "EV_WRITE = 0x02"
definition EV_ACCEPT :: "8 word" where "EV_ACCEPT = 0x04"
definition EV_CONNECT :: "8 word" where "EV_CONNECT = 0x08"
definition EV_CLOSE :: "8 word" where "EV_CLOSE = 0x10"
definition EV_FLUSH :: "8 word" where "EV_FLUSH = 0x20"
definition EV_TIMER :: "8 word" where "EV_TIMER = 0x80"

definition tqueue_init :: tqueue where
  "tqueue_init = \<lparr>tq_heap = \<lparr>hp_arr = replicate 1024 None, hp_tm = Map.empty\<rparr>, tq_cnt = 0\<rparr>"

text \<open>\<open>_last_system_clock_update\<close> starts at \<open>INT_MIN\<close>, so that the first update reads both clocks.\<close>

definition ev_init :: ev where
  "ev_init = \<lparr>timer_q = tqueue_init, periodic_q = tqueue_init, pendings = [], io_mgr = Map.empty,
     io_changes = [], io_delete_index = 0, io_fevents = [], io_revs = [], steady_clk = 0,
     system_clk = 0, system_now = 0, last_clk_update = - (2 ^ 31), clock_diff = 0\<rparr>"

section \<open>Pending watchers\<close>

text \<open>The base class fields \<open>_pending\<close> and \<open>_revents\<close> of a watcher.\<close>

definition tq_tm :: "tqueue \<Rightarrow> int \<rightharpoonup> timer" where
  "tq_tm q = hp_tm (tq_heap q)"

definition tq_upd :: "int \<Rightarrow> (timer \<Rightarrow> timer) \<Rightarrow> tqueue \<Rightarrow> tqueue" where
  "tq_upd i f q = q\<lparr>tq_heap := (tq_heap q)\<lparr>hp_tm := (tq_tm q)(i := map_option f (tq_tm q i))\<rparr>\<rparr>"

definition w_get :: "ev \<Rightarrow> watcher \<Rightarrow> (nat \<times> 8 word) option" where
  "w_get s w =
     (case w of
        WTimer i \<Rightarrow> map_option (\<lambda>t. (tm_pending t, tm_revents t)) (tq_tm (timer_q s) i)
      | WPeriodic i \<Rightarrow> map_option (\<lambda>t. (tm_pending t, tm_revents t)) (tq_tm (periodic_q s) i)
      | WIo i \<Rightarrow> map_option (\<lambda>w. (io_pending w, io_revents w)) (io_mgr s i))"

definition w_set :: "watcher \<Rightarrow> nat \<Rightarrow> 8 word \<Rightarrow> ev \<Rightarrow> ev" where
  "w_set w p r s =
     (case w of
        WTimer i \<Rightarrow> s\<lparr>timer_q := tq_upd i (\<lambda>t. t\<lparr>tm_pending := p, tm_revents := r\<rparr>) (timer_q s)\<rparr>
      | WPeriodic i \<Rightarrow> s\<lparr>periodic_q := tq_upd i (\<lambda>t. t\<lparr>tm_pending := p, tm_revents := r\<rparr>) (periodic_q s)\<rparr>
      | WIo i \<Rightarrow> s\<lparr>io_mgr := (io_mgr s)(i := map_option (\<lambda>w. w\<lparr>io_pending := p, io_revents := r\<rparr>) (io_mgr s i))\<rparr>)"

definition w_deref :: "ev \<Rightarrow> watcher \<Rightarrow> (nat \<times> 8 word) result" where
  "w_deref s w = (case w_get s w of None \<Rightarrow> Inl Dangling | Some pr \<Rightarrow> Inr pr)"

definition feed_event :: "watcher \<Rightarrow> 8 word \<Rightarrow> ev \<Rightarrow> ev result" where
  "feed_event w revents s =
     bind_res (w_deref s w) (\<lambda>(p, r).
       if p = 0
       then Inr (w_set w (length (pendings s) + 1) (or r revents) (s\<lparr>pendings := pendings s @ [Some w]\<rparr>))
       else Inr (w_set w p (or r revents) s))"

definition clear_pending :: "watcher \<Rightarrow> ev \<Rightarrow> ev result" where
  "clear_pending w s =
     bind_res (w_deref s w) (\<lambda>(p, r).
       if p = 0 then Inr s
       else bind_res (check (p - 1 < length (pendings s)) OutOfRange) (\<lambda>_.
            bind_res (check (pendings s ! (p - 1) = Some w) AssertionFailed) (\<lambda>_.
              Inr (w_set w 0 0 (s\<lparr>pendings := (pendings s)[p - 1 := None]\<rparr>)))))"

text \<open>
  \<open>invoke_pending\<close> iterates over the vector as it is at the start; a callback may clear
  slots, and one that makes the vector grow would invalidate the iteration. \<open>cb\<close> is the
  watcher's virtual \<open>callback\<close>, which runs script code. The calls made are returned.
\<close>

fun invoke_loop ::
  "(watcher \<Rightarrow> 8 word \<Rightarrow> ev \<Rightarrow> ev result) \<Rightarrow> nat list \<Rightarrow> nat \<Rightarrow> ev \<Rightarrow> ((watcher \<times> 8 word) list \<times> ev) result" where
  "invoke_loop cb [] n s = Inr ([], s)"
| "invoke_loop cb (i # is) n s =
     (if length (pendings s) \<noteq> n then Inl Dangling
      else case pendings s ! i of
        None \<Rightarrow> invoke_loop cb is n s
      | Some w \<Rightarrow> bind_res (w_deref s w) (\<lambda>(p, r).
          if p = 0 then invoke_loop cb is n s
          else bind_res (cb w r (w_set w 0 0 s)) (\<lambda>s'.
               bind_res (invoke_loop cb is n s') (\<lambda>(calls, s''). Inr ((w, r) # calls, s'')))))"

definition invoke_pending ::
  "(watcher \<Rightarrow> 8 word \<Rightarrow> ev \<Rightarrow> ev result) \<Rightarrow> ev \<Rightarrow> ((watcher \<times> 8 word) list \<times> ev) result" where
  "invoke_pending cb s =
     bind_res (invoke_loop cb [0..<length (pendings s)] (length (pendings s)) s)
       (\<lambda>(calls, s'). Inr (calls, s'\<lparr>pendings := []\<rparr>))"

section \<open>Timer queues\<close>

text \<open>
  The part of \<open>timer_start\<close> and \<open>periodic_start\<close> after the timer's fields are set: count it,
  make room, put it last and move it up. The result is the returned index.
\<close>

definition tq_push :: "int \<Rightarrow> timer \<Rightarrow> tqueue \<Rightarrow> (int \<times> tqueue) result" where
  "tq_push i t q =
     (let index = tq_cnt q + 1;
          arr = hp_arr (tq_heap q);
          arr1 = (if int (length arr) < index + 1
                  then arr @ replicate (nat (index + 1024) - length arr) None else arr)
      in if index < 0 then Inl OutOfRange
         else bind_res (up_heap (nat index)
                \<lparr>hp_arr = arr1[nat index := Some i], hp_tm = (tq_tm q)(i \<mapsto> t)\<rparr>) (\<lambda>h.
              bind_res (check (index \<ge> 1 \<and> (case hp_tm h i of None \<Rightarrow> False
                  | Some u \<Rightarrow> tm_index u < length (hp_arr h) \<and> hp_arr h ! tm_index u = Some i))
                AssertionFailed) (\<lambda>_.
                Inr (index, \<lparr>tq_heap = h, tq_cnt = index\<rparr>))))"

text \<open>
  The block of \<open>timer_stop\<close> and \<open>periodic_stop\<close> that takes the timer out of the heap.
\<close>

definition tq_remove :: "nat \<Rightarrow> int \<Rightarrow> tqueue \<Rightarrow> tqueue result" where
  "tq_remove index i q =
     (let arr = hp_arr (tq_heap q); cnt = tq_cnt q - 1
      in bind_res (check (index < length arr) OutOfRange) (\<lambda>_.
         bind_res (check (arr ! index = Some i) AssertionFailed) (\<lambda>_.
           if int index < cnt + 1
           then (if nat (cnt + 1) \<ge> length arr then Inl OutOfRange
                 else bind_res (adjust_heap (nat cnt) index
                        ((tq_heap q)\<lparr>hp_arr := arr[index := arr ! nat (cnt + 1)]\<rparr>))
                        (\<lambda>h. Inr \<lparr>tq_heap = h, tq_cnt = cnt\<rparr>))
           else Inr (q\<lparr>tq_cnt := cnt\<rparr>))))"

section \<open>Timers\<close>

definition tm_deref :: "tqueue \<Rightarrow> int \<Rightarrow> timer result" where
  "tm_deref q i = (case tq_tm q i of None \<Rightarrow> Inl Dangling | Some t \<Rightarrow> Inr t)"

definition timer_start :: "int \<Rightarrow> int \<Rightarrow> int \<Rightarrow> int \<Rightarrow> ev \<Rightarrow> (int \<times> ev) result" where
  "timer_start i after rep policy s =
     bind_res (check (rep \<ge> 0) AssertionFailed) (\<lambda>_.
       if tq_tm (timer_q s) i \<noteq> None then Inr (-1, s)
       else bind_res (tq_push i (timer_new\<lparr>tm_at := steady_clk s + after, tm_repeat := rep,
                                           tm_policy := policy\<rparr>) (timer_q s))
              (\<lambda>(index, q). Inr (index, s\<lparr>timer_q := q\<rparr>)))"

text \<open>\<open>timer_stop(EVTimer *)\<close>.\<close>

definition timer_stop_w :: "int \<Rightarrow> ev \<Rightarrow> ev result" where
  "timer_stop_w i s =
     bind_res (clear_pending (WTimer i) s) (\<lambda>s1.
     bind_res (tm_deref (timer_q s1) i) (\<lambda>t.
       if tm_index t = 0 then Inr s1
       else bind_res (tq_remove (tm_index t) i (timer_q s1)) (\<lambda>q.
              Inr (s1\<lparr>timer_q := tq_upd i (\<lambda>u. u\<lparr>tm_at := tm_at u - steady_clk s1, tm_index := 0\<rparr>) q\<rparr>))))"

definition tq_erase :: "int \<Rightarrow> tqueue \<Rightarrow> tqueue" where
  "tq_erase i q = q\<lparr>tq_heap := (tq_heap q)\<lparr>hp_tm := (tq_tm q)(i := None)\<rparr>\<rparr>"

definition timer_stop :: "int \<Rightarrow> ev \<Rightarrow> (int \<times> ev) result" where
  "timer_stop i s =
     (if tq_tm (timer_q s) i = None then Inr (-1, s)
      else bind_res (timer_stop_w i s) (\<lambda>s1. Inr (0, s1\<lparr>timer_q := tq_erase i (timer_q s1)\<rparr>)))"

text \<open>One iteration of \<open>timers_reify\<close>; None when the loop condition fails.\<close>

definition timers_step :: "ev \<Rightarrow> ev option result" where
  "timers_step s =
     (if tq_cnt (timer_q s) = 0 then Inr None
      else bind_res (hnode (tq_heap (timer_q s)) 1) (\<lambda>(i, t).
        if tm_at t > steady_clk s then Inr None
        else bind_res (check (tm_index t \<noteq> 0) AssertionFailed) (\<lambda>_.
          bind_res
            (if tm_repeat t \<noteq> 0
             then (let t1 = t\<lparr>tm_at := tm_at t + tm_repeat t\<rparr>
                   in bind_res (if tm_at t1 < steady_clk s then reschedule (steady_clk s) t1 else Inr t1) (\<lambda>t2.
                      bind_res (check (tm_repeat t2 > 0) AssertionFailed) (\<lambda>_.
                      bind_res (down_heap (nat (tq_cnt (timer_q s))) 1
                          (tq_heap (tq_upd i (\<lambda>_. t2) (timer_q s)))) (\<lambda>h.
                        Inr (s\<lparr>timer_q := (timer_q s)\<lparr>tq_heap := h\<rparr>\<rparr>)))))
             else timer_stop_w i s) (\<lambda>s1.
          bind_res (feed_event (WTimer i) EV_TIMER s1) (\<lambda>s2. Inr (Some s2))))))"

partial_function (option) timers_reify :: "ev \<Rightarrow> ev result option" where
  "timers_reify s =
     (case timers_step s of
        Inl e \<Rightarrow> Some (Inl e)
      | Inr None \<Rightarrow> Some (Inr s)
      | Inr (Some s') \<Rightarrow> timers_reify s')"

section \<open>UTC timers\<close>

definition periodic_start :: "int \<Rightarrow> int \<Rightarrow> int \<Rightarrow> int \<Rightarrow> ev \<Rightarrow> (int \<times> ev) result" where
  "periodic_start i after rep policy s =
     bind_res (check (rep \<ge> 0) AssertionFailed) (\<lambda>_.
       if tq_tm (periodic_q s) i \<noteq> None then Inr (-1, s)
       else bind_res (tq_push i (timer_new\<lparr>tm_at := (system_now s + after) * 1000,
                                           tm_repeat := rep * 1000, tm_policy := policy\<rparr>) (periodic_q s))
              (\<lambda>(index, q). Inr (index, s\<lparr>periodic_q := q\<rparr>)))"

text \<open>\<open>periodic_stop(EVTimer *)\<close>: unlike \<open>timer_stop\<close> it leaves \<open>_index\<close> as it is.\<close>

definition periodic_stop_w :: "int \<Rightarrow> ev \<Rightarrow> ev result" where
  "periodic_stop_w i s =
     bind_res (clear_pending (WPeriodic i) s) (\<lambda>s1.
     bind_res (tm_deref (periodic_q s1) i) (\<lambda>t.
       if tm_index t = 0 then Inr s1
       else bind_res (tq_remove (tm_index t) i (periodic_q s1)) (\<lambda>q. Inr (s1\<lparr>periodic_q := q\<rparr>))))"

definition periodic_stop :: "int \<Rightarrow> ev \<Rightarrow> (int \<times> ev) result" where
  "periodic_stop i s =
     (if tq_tm (periodic_q s) i = None then Inr (-1, s)
      else bind_res (periodic_stop_w i s) (\<lambda>s1. Inr (0, s1\<lparr>periodic_q := tq_erase i (periodic_q s1)\<rparr>)))"

definition periodic_step :: "ev \<Rightarrow> ev option result" where
  "periodic_step s =
     (if tq_cnt (periodic_q s) = 0 then Inr None
      else bind_res (hnode (tq_heap (periodic_q s)) 1) (\<lambda>(i, t).
        if tm_at t > system_clk s then Inr None
        else bind_res (check (tm_index t \<noteq> 0) AssertionFailed) (\<lambda>_.
          bind_res (check (tm_at t \<le> system_now s * 1000) AssertionFailed) (\<lambda>_.
          bind_res (feed_event (WPeriodic i) EV_TIMER s) (\<lambda>s1.
          bind_res (tm_deref (periodic_q s1) i) (\<lambda>u.
            if tm_repeat u \<noteq> 0
            then (let t1 = u\<lparr>tm_at := tm_at u + tm_repeat u\<rparr>
                  in bind_res (if tm_at t1 < system_clk s then reschedule (system_clk s) t1 else Inr t1) (\<lambda>t2.
                     bind_res (down_heap (nat (tq_cnt (periodic_q s1))) 1
                         (tq_heap (tq_upd i (\<lambda>_. t2) (periodic_q s1)))) (\<lambda>h.
                       Inr (Some (s1\<lparr>periodic_q := (periodic_q s1)\<lparr>tq_heap := h\<rparr>\<rparr>)))))
            else bind_res (periodic_stop_w i s1) (\<lambda>s2. Inr (Some s2))))))))"

partial_function (option) periodic_reify :: "ev \<Rightarrow> ev result option" where
  "periodic_reify s =
     (case periodic_step s of
        Inl e \<Rightarrow> Some (Inl e)
      | Inr None \<Rightarrow> Some (Inr s)
      | Inr (Some s') \<Rightarrow> periodic_reify s')"

section \<open>Time\<close>

definition MIN_TIMEJUMP :: int where "MIN_TIMEJUMP = 1000"

text \<open>
  \<open>st k\<close> and \<open>sy k\<close> are the values of the \<open>k\<close>-th reading of the steady and the system clock
  within one call of \<open>time_update\<close>.
\<close>

fun time_loop :: "nat \<Rightarrow> nat \<Rightarrow> int \<Rightarrow> (nat \<Rightarrow> int) \<Rightarrow> (nat \<Rightarrow> int) \<Rightarrow> ev \<Rightarrow> ev" where
  "time_loop 0 k old_diff st sy s = s"
| "time_loop (Suc n) k old_diff st sy s =
     (let s1 = s\<lparr>clock_diff := system_clk s - steady_clk s\<rparr>;
          diff = old_diff - clock_diff s1
      in if \<bar>diff\<bar> < MIN_TIMEJUMP then s1
         else time_loop n (k + 1) old_diff st sy
                (s1\<lparr>system_clk := sy k, system_now := c_div (sy k) 1000, steady_clk := st k,
                    last_clk_update := st k\<rparr>))"

definition time_update :: "(nat \<Rightarrow> int) \<Rightarrow> (nat \<Rightarrow> int) \<Rightarrow> ev \<Rightarrow> ev" where
  "time_update st sy s =
     (let s0 = s\<lparr>steady_clk := st 0\<rparr>
      in if st 0 - last_clk_update s < c_div MIN_TIMEJUMP 2
         then s0\<lparr>system_clk := clock_diff s + st 0, system_now := c_div (clock_diff s + st 0) 1000\<rparr>
         else time_loop 3 1 (clock_diff s) st sy
                (s0\<lparr>last_clk_update := st 0, system_clk := sy 0, system_now := c_div (sy 0) 1000\<rparr>))"

text \<open>The wait of \<open>loop\<close>, in milliseconds.\<close>

definition backend_wait :: "int \<Rightarrow> ev \<Rightarrow> int result" where
  "backend_wait next_backend_time s =
     (let b0 = next_backend_time - steady_clk s
      in bind_res (if tq_cnt (timer_q s) \<noteq> 0
                   then bind_res (hnode (tq_heap (timer_q s)) 1) (\<lambda>(i, t).
                          let to = tm_at t - steady_clk s in Inr (if b0 > to then to else b0))
                   else Inr b0) (\<lambda>b1.
         bind_res (if tq_cnt (periodic_q s) \<noteq> 0
                   then bind_res (hnode (tq_heap (periodic_q s)) 1) (\<lambda>(i, t).
                          let to = tm_at t - system_clk s in Inr (if b1 > to then to else b1))
                   else Inr b1) (\<lambda>b2.
           Inr (if b2 < 1 then 1 else b2))))"

end
