(* ===== verification/EvIo.thy ===== *)
theory EvIo
  imports EvLoop
begin

text \<open>
  The io watchers of the main loop (\<open>ev/ev.cpp\<close>) and the back end thread that polls them
  (\<open>ev/ev_backend.cpp\<close>, \<open>ev/ev_epoll.inl\<close>).

  An \<open>EVIO *\<close> is the id under which \<open>_io_mgr\<close> holds the object (ids are not used twice), so
  an id that is not in \<open>io_mgr\<close> is a dangling pointer. Both threads change the shared state
  under \<open>_mutex\<close>, so one \<open>io_reify\<close>, one \<open>io_receive_event_reify\<close> and one \<open>backend_once\<close>
  are steps; the main thread's other calls touch only fields that the back end does not.
  What the io object and the kernel do is outside: \<open>io\<close> gives the status of the n-th call
  that the back end makes on an io object, and the \<open>epoll_ctl\<close> requests are a log.
\<close>

section \<open>State\<close>

datatype ios = IOS_OK | IOS_READ | IOS_WRITE | IOS_BUSY | IOS_CLOSE | IOS_ERROR

datatype io_req = ReqSend | ReqRecv | ReqAccept | ReqConnect

datatype fd_op = FD_OP_ADD | FD_OP_DEL | FD_OP_MOD

definition M_OVERFLOW_KILL :: "8 word" where "M_OVERFLOW_KILL = 1"

text \<open>\<open>EV_ERROR\<close> does not fit in the eight bits of the stored event sets.\<close>

definition EV_ERROR :: "32 word" where "EV_ERROR = 0x100"

abbreviation ev32 :: "8 word \<Rightarrow> 32 word" where "ev32 \<equiv> ucast"

abbreviation ev8 :: "32 word \<Rightarrow> 8 word" where "ev8 \<equiv> ucast"

text \<open>\<open>be_pending\<close> lists \<open>_pending_watcher\<close> in the order in which the hash map is traversed.\<close>

record backend =
  be_has_ev :: bool
  be_user :: "int list"
  be_fast :: "int option list"
  be_pending :: "(int \<times> int) list"
  be_fdw :: "int option list"
  be_huge :: "int \<rightharpoonup> int"
  be_last :: int
  be_ctl :: "(int \<times> fd_op \<times> 32 word) list"
  be_calls :: nat
  be_wakes :: nat

record iosys =
  se :: ev
  sb :: backend
  has_job :: bool

definition HUGE_FD :: int where "HUGE_FD = 10240"

definition backend_init :: backend where
  "backend_init = \<lparr>be_has_ev = False, be_user = [], be_fast = [], be_pending = [], be_fdw = [],
     be_huge = Map.empty, be_last = 0, be_ctl = [], be_calls = 0, be_wakes = 0\<rparr>"

definition iosys_init :: iosys where
  "iosys_init = \<lparr>se = ev_init, sb = backend_init, has_job = False\<rparr>"

definition evio_new :: "int \<Rightarrow> 32 word \<Rightarrow> evio" where
  "evio_new fd events = \<lparr>io_pending = 0, io_revents = 0, io_fd = fd, io_state = S_NONE, io_mask = 0,
     io_uevents = ev8 events, io_b_uevents = 0, io_b_revents = 0, io_b_kevents = 0, io_b_eevents = 0,
     io_b_fevents = 0, io_change_index = 0, io_b_uevent_index = 0, io_b_fevent_index = -1,
     io_b_revent_index = 0, io_obj = False\<rparr>"

text \<open>Reading and writing through an \<open>EVIO *\<close>.\<close>

definition io_get :: "ev \<Rightarrow> int \<Rightarrow> evio result" where
  "io_get s i = (case io_mgr s i of None \<Rightarrow> Inl Dangling | Some w \<Rightarrow> Inr w)"

definition io_upd :: "int \<Rightarrow> (evio \<Rightarrow> evio) \<Rightarrow> ev \<Rightarrow> ev" where
  "io_upd i f s = s\<lparr>io_mgr := (io_mgr s)(i := map_option f (io_mgr s i))\<rparr>"

definition sys_get :: "iosys \<Rightarrow> int \<Rightarrow> evio result" where
  "sys_get y i = io_get (se y) i"

definition sys_upd :: "int \<Rightarrow> (evio \<Rightarrow> evio) \<Rightarrow> iosys \<Rightarrow> iosys" where
  "sys_upd i f y = y\<lparr>se := io_upd i f (se y)\<rparr>"

section \<open>The main thread's requests\<close>

definition io_change :: "int \<Rightarrow> ev \<Rightarrow> ev result" where
  "io_change i s =
     bind_res (io_get s i) (\<lambda>w.
       if io_change_index w = 0
       then Inr (io_upd i (\<lambda>w. w\<lparr>io_change_index := length (io_changes s) + 1\<rparr>)
                   (s\<lparr>io_changes := io_changes s @ [i]\<rparr>))
       else Inr s)"

text \<open>\<open>io_start\<close> returns the new watcher, or null when the id is taken.\<close>

definition io_start :: "int \<Rightarrow> int \<Rightarrow> 32 word \<Rightarrow> ev \<Rightarrow> (bool \<times> ev) result" where
  "io_start i fd events s =
     (if io_mgr s i \<noteq> None then Inr (False, s)
      else bind_res (io_change i (s\<lparr>io_mgr := (io_mgr s)(i \<mapsto> (evio_new fd events)\<lparr>io_state := S_NEW\<rparr>)\<rparr>))
             (\<lambda>s'. Inr (True, s')))"

definition io_stop :: "int \<Rightarrow> bool \<Rightarrow> ev \<Rightarrow> (int \<times> ev) result" where
  "io_stop i flush s =
     (case io_mgr s i of
        None \<Rightarrow> Inr (-1, s)
      | Some w \<Rightarrow> bind_res (io_change i (io_upd i (\<lambda>w. w\<lparr>
            io_uevents := (if flush then or EV_CLOSE EV_FLUSH else EV_CLOSE),
            io_state := (if io_state w = S_NEW then S_NONE else S_STOP)\<rparr>) s)) (\<lambda>s'. Inr (0, s')))"

definition io_delete :: "int \<Rightarrow> ev \<Rightarrow> (int \<times> ev) result" where
  "io_delete i s =
     (if io_mgr s i = None then Inr (-1, s)
      else let s1 = io_upd i (\<lambda>w. w\<lparr>io_state := S_DEL\<rparr>) s; k = io_delete_index s1
           in if length (io_changes s1) > k
              then (let old = io_changes s1 ! k
                    in if old = i then Inr (0, s1)
                       else bind_res (io_get s1 old) (\<lambda>_.
                            bind_res (io_change old (io_upd old (\<lambda>w. w\<lparr>io_change_index := 0\<rparr>) s1)) (\<lambda>s2.
                              Inr (0, io_upd i (\<lambda>w. w\<lparr>io_change_index := k + 1\<rparr>)
                                        (s2\<lparr>io_changes := (io_changes s2)[k := i], io_delete_index := k + 1\<rparr>)))))
              else bind_res (io_change i s1) (\<lambda>s2. Inr (0, s2\<lparr>io_delete_index := k + 1\<rparr>)))"

text \<open>\<open>EVIO::set\<close>.\<close>

definition io_set :: "int \<Rightarrow> 32 word \<Rightarrow> ev \<Rightarrow> ev result" where
  "io_set i events s = bind_res (io_get s i) (\<lambda>_. io_change i (io_upd i (\<lambda>w. w\<lparr>io_uevents := ev8 events\<rparr>) s))"

text \<open>\<open>io_fast_event\<close>; the Boolean says whether the back end is woken up.\<close>

definition io_fast_event :: "int \<Rightarrow> 32 word \<Rightarrow> ev \<Rightarrow> (bool \<times> ev) result" where
  "io_fast_event i events s =
     bind_res (io_get s i) (\<lambda>_.
       let s1 = io_upd i (\<lambda>w. w\<lparr>io_b_fevents := or (io_b_fevents w) (ev8 events)\<rparr>) s
       in bind_res (io_get s1 i) (\<lambda>w.
            if io_b_fevent_index w = 0
            then Inr (io_fevents s1 = [],
                      io_upd i (\<lambda>w. w\<lparr>io_b_fevent_index := int (length (io_fevents s1)) + 1\<rparr>)
                        (s1\<lparr>io_fevents := io_fevents s1 @ [Some i]\<rparr>))
            else Inr (False, s1)))"

definition clear_io_fast_event :: "int \<Rightarrow> ev \<Rightarrow> ev result" where
  "clear_io_fast_event i s =
     bind_res (io_get s i) (\<lambda>w.
       if io_b_fevent_index w \<noteq> 0
       then bind_res (check (io_b_fevent_index w \<le> int (length (io_fevents s))) AssertionFailed) (\<lambda>_.
            bind_res (check (0 \<le> io_b_fevent_index w - 1) OutOfRange) (\<lambda>_.
              Inr (io_upd i (\<lambda>w. w\<lparr>io_b_fevent_index := 0\<rparr>)
                     (s\<lparr>io_fevents := (io_fevents s)[nat (io_b_fevent_index w - 1) := None]\<rparr>))))
       else Inr s)"

definition clear_io_receive_event :: "int \<Rightarrow> ev \<Rightarrow> ev result" where
  "clear_io_receive_event i s =
     bind_res (io_get s i) (\<lambda>w.
       if io_b_revent_index w \<noteq> 0
       then bind_res (check (io_b_revent_index w \<le> length (io_revs s)) AssertionFailed) (\<lambda>_.
              Inr (io_upd i (\<lambda>w. w\<lparr>io_b_revent_index := 0\<rparr>)
                     (s\<lparr>io_revs := (io_revs s)[io_b_revent_index w - 1 := None]\<rparr>)))
       else Inr s)"

definition io_receive_event :: "int \<Rightarrow> 32 word \<Rightarrow> ev \<Rightarrow> ev result" where
  "io_receive_event i revents s =
     bind_res (io_get s i) (\<lambda>w.
       let s1 = io_upd i (\<lambda>w. w\<lparr>io_b_revents := or (io_b_revents w) (ev8 revents)\<rparr>) s
       in if io_b_revent_index w = 0
          then Inr (io_upd i (\<lambda>w. w\<lparr>io_b_revent_index := length (io_revs s1) + 1\<rparr>)
                      (s1\<lparr>io_revs := io_revs s1 @ [Some i]\<rparr>))
          else Inr s1)"

text \<open>\<open>feed_event\<close> does not touch \<open>_io_revents\<close>, so the loop runs over a fixed vector.\<close>

definition receive_one :: "int option \<Rightarrow> ev \<Rightarrow> ev result" where
  "receive_one slot s =
     (case slot of
        None \<Rightarrow> Inr s
      | Some i \<Rightarrow> bind_res (io_get s i) (\<lambda>w.
          bind_res (feed_event (WIo i) (io_b_revents w) s) (\<lambda>s1.
            Inr (io_upd i (\<lambda>w. w\<lparr>io_b_revents := 0, io_b_revent_index := 0\<rparr>) s1))))"

definition io_receive_event_reify :: "ev \<Rightarrow> ev result" where
  "io_receive_event_reify s =
     bind_res (fold_res receive_one (io_revs s) s) (\<lambda>s1. Inr (s1\<lparr>io_revs := []\<rparr>))"

section \<open>The back end's tables\<close>

definition modify_later :: "int \<Rightarrow> 8 word \<Rightarrow> iosys \<Rightarrow> iosys result" where
  "modify_later i events y =
     bind_res (sys_get y i) (\<lambda>w.
       let y1 = sys_upd i (\<lambda>w. w\<lparr>io_b_uevents := events\<rparr>) y
       in if io_b_uevent_index w = 0
          then Inr (sys_upd i (\<lambda>w. w\<lparr>io_b_uevent_index := length (be_user (sb y)) + 1\<rparr>)
                      (y1\<lparr>sb := (sb y)\<lparr>be_user := be_user (sb y) @ [i]\<rparr>\<rparr>))
          else Inr y1)"

definition modify :: "int \<Rightarrow> iosys \<Rightarrow> iosys result" where
  "modify i y = bind_res (sys_get y i) (\<lambda>w. modify_later i (io_uevents w) y)"

text \<open>\<open>(uint32_t)fd\<close> of a negative \<open>fd\<close> is not below \<open>HUGE_FD\<close>.\<close>

definition set_fd_watcher :: "int \<Rightarrow> int option \<Rightarrow> backend \<Rightarrow> backend result" where
  "set_fd_watcher fd w b =
     (if 0 \<le> fd \<and> fd < HUGE_FD
      then (let tab = (if length (be_fdw b) < nat fd
                       then be_fdw b @ replicate (nat fd + 1024 - length (be_fdw b)) None else be_fdw b)
            in bind_res (check (nat fd < length tab) OutOfRange) (\<lambda>_. Inr (b\<lparr>be_fdw := tab[nat fd := w]\<rparr>)))
      else Inr (b\<lparr>be_huge := (be_huge b)(fd := w)\<rparr>))"

definition get_fd_watcher :: "int \<Rightarrow> backend \<Rightarrow> int option result" where
  "get_fd_watcher fd b =
     (if 0 \<le> fd \<and> fd < HUGE_FD
      then bind_res (check (nat fd < length (be_fdw b)) OutOfRange) (\<lambda>_. Inr (be_fdw b ! nat fd))
      else Inr (be_huge b fd))"

definition modify_fd :: "int \<Rightarrow> fd_op \<Rightarrow> 32 word \<Rightarrow> iosys \<Rightarrow> iosys" where
  "modify_fd fd op new_ev y = y\<lparr>sb := (sb y)\<lparr>be_ctl := be_ctl (sb y) @ [(fd, op, new_ev)]\<rparr>\<rparr>"

definition wake :: "iosys \<Rightarrow> iosys" where
  "wake y = y\<lparr>sb := (sb y)\<lparr>be_wakes := be_wakes (sb y) + 1\<rparr>\<rparr>"

section \<open>Applying the changes\<close>

definition on_ev :: "(ev \<Rightarrow> ev result) \<Rightarrow> iosys \<Rightarrow> iosys result" where
  "on_ev f y = bind_res (f (se y)) (\<lambda>s. Inr (y\<lparr>se := s\<rparr>))"

definition on_be :: "(backend \<Rightarrow> backend result) \<Rightarrow> iosys \<Rightarrow> iosys result" where
  "on_be f y = bind_res (f (sb y)) (\<lambda>b. Inr (y\<lparr>sb := b\<rparr>))"

text \<open>One change; the Boolean is \<open>non_del\<close>.\<close>

definition reify_one :: "int \<Rightarrow> bool \<times> iosys \<Rightarrow> (bool \<times> iosys) result" where
  "reify_one i = (\<lambda>(non_del, y).
     bind_res (sys_get y i) (\<lambda>w.
       let y0 = sys_upd i (\<lambda>w. w\<lparr>io_change_index := 0\<rparr>) y
       in case io_state w of
            S_NONE \<Rightarrow> Inr (True, y0)
          | S_STOP \<Rightarrow> bind_res (modify i y0) (\<lambda>y1. Inr (True, y1))
          | S_START \<Rightarrow> bind_res (modify i y0) (\<lambda>y1. Inr (True, y1))
          | S_NEW \<Rightarrow>
              bind_res (on_be (set_fd_watcher (io_fd w) (Some i)) (sys_upd i (\<lambda>w. w\<lparr>io_state := S_START\<rparr>) y0)) (\<lambda>y1.
              bind_res (modify i y1) (\<lambda>y2.
              bind_res (check (io_b_fevent_index w = -1) AssertionFailed) (\<lambda>_.
                let y3 = sys_upd i (\<lambda>w. w\<lparr>io_b_fevent_index := 0\<rparr>) y2
                in if io_b_fevents w \<noteq> 0
                   then bind_res (io_fast_event i (ev32 (io_b_fevents w)) (se y3)) (\<lambda>(wk, s).
                          Inr (True, (if wk then wake else (\<lambda>y. y)) (y3\<lparr>se := s\<rparr>)))
                   else Inr (True, y3))))
          | S_DEL \<Rightarrow>
              bind_res (check (\<not> non_del) AssertionFailed) (\<lambda>_.
              bind_res (on_ev (clear_pending (WIo i)) y0) (\<lambda>y1.
              bind_res (on_ev (clear_io_fast_event i) y1) (\<lambda>y2.
              bind_res (on_ev (clear_io_receive_event i) y2) (\<lambda>y3.
              bind_res (on_be (set_fd_watcher (io_fd w) None)
                  (y3\<lparr>se := (se y3)\<lparr>io_mgr := (io_mgr (se y3))(i := None)\<rparr>\<rparr>)) (\<lambda>y4. Inr (non_del, y4))))))))"

definition io_reify :: "iosys \<Rightarrow> iosys result" where
  "io_reify y =
     (if io_changes (se y) = [] then Inr y
      else bind_res (fold_res reify_one (io_changes (se y)) (False, y)) (\<lambda>(_, y1).
             let y2 = wake y1 in Inr (y2\<lparr>se := (se y2)\<lparr>io_changes := [], io_delete_index := 0\<rparr>\<rparr>)))"

section \<open>The back end's round\<close>

text \<open>\<open>io r i n\<close> is the status of the \<open>n\<close>-th call on an io object, request \<open>r\<close> of watcher \<open>i\<close>.\<close>

type_synonym io_env = "io_req \<Rightarrow> int \<Rightarrow> nat \<Rightarrow> ios"

text \<open>\<open>EVIO::recv\<close>, \<open>send\<close>, \<open>do_init_accept\<close> and \<open>do_init_connect\<close>.\<close>

definition io_call :: "io_env \<Rightarrow> io_req \<Rightarrow> int \<Rightarrow> iosys \<Rightarrow> (ios \<times> iosys) result" where
  "io_call io r i y =
     bind_res (sys_get y i) (\<lambda>w.
       if \<not> io_obj w \<or> and (io_b_eevents w) EV_CLOSE \<noteq> 0 then Inr (IOS_ERROR, y)
       else Inr (io r i (be_calls (sb y)), y\<lparr>sb := (sb y)\<lparr>be_calls := be_calls (sb y) + 1\<rparr>\<rparr>))"

definition feed_receive_event :: "int \<Rightarrow> 32 word \<Rightarrow> iosys \<Rightarrow> iosys result" where
  "feed_receive_event i e y =
     on_ev (io_receive_event i e) (y\<lparr>sb := (sb y)\<lparr>be_has_ev := True\<rparr>\<rparr>)"

definition add_pending_watcher :: "int \<Rightarrow> int \<Rightarrow> iosys \<Rightarrow> iosys" where
  "add_pending_watcher now fd y =
     (if fd \<in> fst ` set (be_pending (sb y)) then y
      else y\<lparr>sb := (sb y)\<lparr>be_pending := be_pending (sb y) @ [(fd, now)]\<rparr>\<rparr>)"

definition erase_pending :: "int \<Rightarrow> iosys \<Rightarrow> iosys" where
  "erase_pending fd y = y\<lparr>sb := (sb y)\<lparr>be_pending := filter (\<lambda>p. fst p \<noteq> fd) (be_pending (sb y))\<rparr>\<rparr>"

definition close_pending :: "int \<Rightarrow> iosys \<Rightarrow> iosys result" where
  "close_pending i y =
     bind_res (sys_get y i) (\<lambda>w.
     bind_res (feed_receive_event i (ev32 EV_CLOSE)
         (sys_upd i (\<lambda>w. w\<lparr>io_b_eevents := or (io_b_eevents w) EV_CLOSE\<rparr>) y)) (\<lambda>y1.
       Inr (modify_fd (io_fd w) FD_OP_DEL 0 y1)))"

definition del_pending_watcher :: "int \<Rightarrow> int option \<Rightarrow> iosys \<Rightarrow> iosys result" where
  "del_pending_watcher fd w y =
     (case w of
        None \<Rightarrow> bind_res (get_fd_watcher fd (sb y)) (\<lambda>v.
          (case v of None \<Rightarrow> Inr y | Some i \<Rightarrow> close_pending i y))
      | Some i \<Rightarrow> close_pending i (erase_pending fd y))"

text \<open>
  The iterator that \<open>erase\<close> returns points at the next entry, and the loop increments it once
  more; at the end of the map that is undefined.
\<close>

fun check_pending_loop :: "int \<Rightarrow> (int \<times> int) list \<Rightarrow> iosys \<Rightarrow> iosys result" where
  "check_pending_loop now [] y = Inr y"
| "check_pending_loop now ((fd, tm) # rest) y =
     (if now - tm > 10000
      then bind_res (del_pending_watcher fd None y) (\<lambda>y1.
             case rest of
               [] \<Rightarrow> Inl OutOfRange
             | _ # rest' \<Rightarrow> check_pending_loop now rest' (erase_pending fd y1))
      else check_pending_loop now rest y)"

definition check_pending_watcher :: "int \<Rightarrow> iosys \<Rightarrow> iosys result" where
  "check_pending_watcher now y = check_pending_loop now (be_pending (sb y)) y"

definition modify_watcher :: "io_env \<Rightarrow> int \<Rightarrow> int \<Rightarrow> iosys \<Rightarrow> iosys result" where
  "modify_watcher io now i y =
     bind_res (sys_get y i) (\<lambda>w.
       if and (io_b_eevents w) EV_CLOSE \<noteq> 0 then Inr y
       else bind_res
         (if and (io_b_uevents w) EV_FLUSH \<noteq> 0
          then bind_res (io_call io ReqSend i y) (\<lambda>(st, y1).
                 if st = IOS_WRITE
                 then Inr (io_b_eevents w, if io_b_kevents w \<noteq> 0 then FD_OP_MOD else FD_OP_ADD,
                           add_pending_watcher now (io_fd w) y1)
                 else bind_res (del_pending_watcher (io_fd w) (Some i) y1) (\<lambda>y2. Inr (0, FD_OP_DEL, y2)))
          else if and (io_b_uevents w) EV_CLOSE \<noteq> 0
          then bind_res (feed_receive_event i (ev32 EV_CLOSE) y) (\<lambda>y1. Inr (0, FD_OP_DEL, y1))
          else Inr (or (io_b_uevents w) (io_b_eevents w),
                    if io_b_kevents w \<noteq> 0 then FD_OP_MOD else FD_OP_ADD, y))
         (\<lambda>(new_ev, op, y1).
            Inr (modify_fd (io_fd w) op (ev32 new_ev) (sys_upd i (\<lambda>w. w\<lparr>io_b_kevents := new_ev\<rparr>) y1))))"

definition user_one :: "io_env \<Rightarrow> int \<Rightarrow> int \<Rightarrow> iosys \<Rightarrow> iosys result" where
  "user_one io now i y =
     bind_res (sys_get y i) (\<lambda>w.
     bind_res (get_fd_watcher (io_fd w) (sb y)) (\<lambda>v.
     bind_res (check (v \<noteq> None) AssertionFailed) (\<lambda>_.
       modify_watcher io now i (sys_upd i (\<lambda>w. w\<lparr>io_b_uevent_index := 0\<rparr>) y))))"

definition do_user_event :: "io_env \<Rightarrow> int \<Rightarrow> iosys \<Rightarrow> iosys result" where
  "do_user_event io now y =
     bind_res (fold_res (user_one io now) (be_user (sb y)) y) (\<lambda>y1.
       Inr (y1\<lparr>sb := (sb y1)\<lparr>be_user := []\<rparr>\<rparr>))"

definition do_io_status :: "int \<Rightarrow> 8 word \<Rightarrow> ios \<Rightarrow> iosys \<Rightarrow> (bool \<times> iosys) result" where
  "do_io_status i e st y =
     bind_res (sys_get y i) (\<lambda>w.
       case st of
         IOS_OK \<Rightarrow>
           bind_res
             (if e = EV_WRITE
              then (if and (io_b_uevents w) EV_CLOSE \<noteq> 0 then modify_later i EV_CLOSE y
                    else if and (io_b_eevents w) EV_WRITE \<noteq> 0
                    then modify_later i (io_b_uevents w)
                           (sys_upd i (\<lambda>w. w\<lparr>io_b_eevents := and (io_b_eevents w) (not EV_WRITE)\<rparr>) y)
                    else Inr y)
              else Inr y) (\<lambda>y1. Inr (True, y1))
       | IOS_READ \<Rightarrow> Inr (True, y)
       | IOS_WRITE \<Rightarrow>
           (if and (io_b_eevents w) EV_WRITE = 0
            then bind_res (modify_later i (io_b_uevents w)
                   (sys_upd i (\<lambda>w. w\<lparr>io_b_eevents := or (io_b_eevents w) EV_WRITE\<rparr>) y)) (\<lambda>y1. Inr (True, y1))
            else Inr (True, y))
       | IOS_BUSY \<Rightarrow>
           (if and (io_mask w) M_OVERFLOW_KILL \<noteq> 0
            then bind_res (modify_later i EV_CLOSE y) (\<lambda>y1. Inr (False, y1))
            else Inr (True, y))
       | IOS_CLOSE \<Rightarrow> bind_res (modify_later i EV_CLOSE y) (\<lambda>y1. Inr (False, y1))
       | IOS_ERROR \<Rightarrow> bind_res (modify_later i EV_CLOSE y) (\<lambda>y1. Inr (False, y1)))"

text \<open>A call on the io object followed by \<open>do_io_status\<close>, whose result is not used.\<close>

definition call_status :: "io_env \<Rightarrow> io_req \<Rightarrow> 8 word \<Rightarrow> int \<Rightarrow> iosys \<Rightarrow> iosys result" where
  "call_status io r e i y =
     bind_res (io_call io r i y) (\<lambda>(st, y1). bind_res (do_io_status i e st y1) (\<lambda>(_, y2). Inr y2))"

definition do_watcher_fast_event :: "io_env \<Rightarrow> int \<Rightarrow> iosys \<Rightarrow> iosys result" where
  "do_watcher_fast_event io i y =
     bind_res (sys_get y i) (\<lambda>w.
     bind_res (get_fd_watcher (io_fd w) (sb y)) (\<lambda>v.
     bind_res (check (v \<noteq> None) AssertionFailed) (\<lambda>_.
       let events = io_b_fevents w;
           y1 = sys_upd i (\<lambda>w. w\<lparr>io_b_fevents := 0, io_b_fevent_index := 0\<rparr>) y
       in bind_res (check (events \<noteq> 0) AssertionFailed) (\<lambda>_.
          bind_res (if and events EV_ACCEPT \<noteq> 0 then call_status io ReqAccept EV_READ i y1
                    else if and events EV_CONNECT \<noteq> 0 then call_status io ReqConnect EV_WRITE i y1
                    else Inr y1) (\<lambda>y2.
            if and events EV_WRITE \<noteq> 0 then call_status io ReqSend EV_WRITE i y2 else Inr y2)))))"

definition fast_one :: "io_env \<Rightarrow> int option \<Rightarrow> iosys \<Rightarrow> iosys result" where
  "fast_one io slot y = (case slot of None \<Rightarrow> Inr y | Some i \<Rightarrow> do_watcher_fast_event io i y)"

definition do_fast_event :: "io_env \<Rightarrow> iosys \<Rightarrow> iosys result" where
  "do_fast_event io y = fold_res (fast_one io) (be_fast (sb y)) y"

definition do_watcher_wait_event :: "io_env \<Rightarrow> int \<Rightarrow> 32 word \<Rightarrow> iosys \<Rightarrow> iosys result" where
  "do_watcher_wait_event io i revents y =
     bind_res (sys_get y i) (\<lambda>w.
       let expect = or (ev32 (io_b_uevents w)) (or EV_ERROR (ev32 EV_CLOSE));
           kev = io_b_kevents w;
           e1 = (if and revents (ev32 EV_WRITE) \<noteq> 0 then or EV_WRITE EV_CONNECT else 0);
           e2 = (if and revents (ev32 EV_READ) \<noteq> 0 then or EV_READ EV_ACCEPT else 0);
           e3 = (if and revents (or EV_ERROR (ev32 EV_CLOSE)) \<noteq> 0 then EV_CLOSE else 0)
       in bind_res
            (if and revents (ev32 EV_WRITE) \<noteq> 0
             then bind_res (if and kev EV_WRITE \<noteq> 0 then call_status io ReqSend EV_WRITE i y else Inr y) (\<lambda>y1.
                    if and kev EV_CONNECT \<noteq> 0
                    then bind_res (sys_get y1 i) (\<lambda>v. modify_later i (and (io_b_uevents v) (not EV_CONNECT)) y1)
                    else Inr y1)
             else Inr y) (\<lambda>y1.
          bind_res
            (if and revents (ev32 EV_READ) \<noteq> 0 \<and> and kev EV_READ \<noteq> 0
             then call_status io ReqRecv EV_READ i y1 else Inr y1) (\<lambda>y2.
          bind_res
            (if and revents (or EV_ERROR (ev32 EV_CLOSE)) \<noteq> 0 then modify_later i EV_CLOSE y2 else Inr y2) (\<lambda>y3.
            let fed = and expect (ev32 (or e1 (or e2 e3)))
            in if fed \<noteq> 0 then feed_receive_event i fed y3 else Inr y3))))"

text \<open>What \<open>epoll_wait\<close> reports of a descriptor other than the wake-up one.\<close>

record epoll_event =
  ep_fd :: int
  ep_out :: bool
  ep_in :: bool
  ep_err :: bool

definition wait_one :: "io_env \<Rightarrow> epoll_event \<Rightarrow> iosys \<Rightarrow> iosys result" where
  "wait_one io e y =
     bind_res (get_fd_watcher (ep_fd e) (sb y)) (\<lambda>v.
       case v of
         None \<Rightarrow> Inl AssertionFailed
       | Some i \<Rightarrow> do_watcher_wait_event io i
           (ev32 (or (if ep_out e then EV_WRITE else 0)
              (or (if ep_in e then EV_READ else 0) (if ep_err e then EV_CLOSE else 0)))) y)"

definition do_wait_event :: "io_env \<Rightarrow> epoll_event list \<Rightarrow> iosys \<Rightarrow> iosys result" where
  "do_wait_event io es y = fold_res (wait_one io) es y"

text \<open>\<open>now\<close> is the time of the round; the clock that \<open>add_pending_watcher\<close> reads is taken to be it.\<close>

definition backend_once :: "io_env \<Rightarrow> epoll_event list \<Rightarrow> int \<Rightarrow> iosys \<Rightarrow> iosys result" where
  "backend_once io es now y =
     bind_res (do_wait_event io es (y\<lparr>sb := (sb y)\<lparr>be_fast := []\<rparr>\<rparr>)) (\<lambda>y1.
     bind_res (do_fast_event io (y1\<lparr>sb := (sb y1)\<lparr>be_fast := io_fevents (se y1)\<rparr>,
                                   se := (se y1)\<lparr>io_fevents := []\<rparr>\<rparr>)) (\<lambda>y2.
     bind_res (do_user_event io now y2) (\<lambda>y3.
     bind_res (if now - be_last (sb y3) > 2000
               then check_pending_watcher now (y3\<lparr>sb := (sb y3)\<lparr>be_last := now\<rparr>\<rparr>) else Inr y3) (\<lambda>y4.
       Inr (if be_has_ev (sb y4) then y4\<lparr>has_job := True\<rparr> else y4)))))"

end
