(* ===== verification/TimerHeapCorrect.thy ===== *)
theory TimerHeapCorrect
  imports TimerHeap
begin

text \<open>
  The heap functions restore the heap. The reference versions \<open>swim\<close> and \<open>sink\<close> exchange a
  timer with its parent or smaller child in an arrangement of the timers; the source moves
  a hole instead, which is the same arrangement with the timer thought to be in the hole.
\<close>

section \<open>The reference functions\<close>

type_synonym arrangement = "nat \<Rightarrow> int"

definition xchg :: "arrangement \<Rightarrow> nat \<Rightarrow> nat \<Rightarrow> arrangement" where
  "xchg a k p = a(k := a p, p := a k)"

lemma xchg_apply [simp]: "xchg a k p j = (if j = p then a k else if j = k then a p else a j)"
  by (simp add: xchg_def)

function swim :: "(int \<Rightarrow> int) \<Rightarrow> arrangement \<Rightarrow> nat \<Rightarrow> arrangement" where
  "swim key a k =
     (if k div 2 = 0 \<or> key (a (k div 2)) \<le> key (a k) then a
      else swim key (xchg a k (k div 2)) (k div 2))"
  by pat_completeness auto
termination
  by (relation "measure (\<lambda>(key, a, k). k)") auto

definition min_child :: "(int \<Rightarrow> int) \<Rightarrow> nat \<Rightarrow> arrangement \<Rightarrow> nat \<Rightarrow> nat" where
  "min_child key N a k =
     (if 2 * k + 1 \<le> N \<and> key (a (2 * k)) > key (a (2 * k + 1)) then 2 * k + 1 else 2 * k)"

function sink :: "(int \<Rightarrow> int) \<Rightarrow> nat \<Rightarrow> arrangement \<Rightarrow> nat \<Rightarrow> arrangement" where
  "sink key N a k =
     (if k = 0 \<or> 2 * k > N \<or> key (a k) \<le> key (a (min_child key N a k)) then a
      else sink key N (xchg a k (min_child key N a k)) (min_child key N a k))"
  by pat_completeness auto
termination
  by (relation "measure (\<lambda>(key, N, a, k). N + 1 - k)") (auto simp: min_child_def split: if_splits)

declare swim.simps [simp del] sink.simps [simp del]

definition heap_ord :: "(int \<Rightarrow> int) \<Rightarrow> nat \<Rightarrow> arrangement \<Rightarrow> bool" where
  "heap_ord key N a \<longleftrightarrow> (\<forall>j. 2 \<le> j \<and> j \<le> N \<longrightarrow> key (a (j div 2)) \<le> key (a j))"

text \<open>
  In order except possibly between \<open>k\<close> and its parent (\<open>up_ok\<close>), between \<open>k\<close> and its
  children (\<open>down_ok\<close>), or both (\<open>loose\<close>); the parent of \<open>k\<close> is in order with the
  children of \<open>k\<close>.
\<close>

definition bridged :: "(int \<Rightarrow> int) \<Rightarrow> nat \<Rightarrow> arrangement \<Rightarrow> nat \<Rightarrow> bool" where
  "bridged key N a k \<longleftrightarrow>
     (\<forall>j. j \<le> N \<and> j div 2 = k \<and> 2 \<le> k \<longrightarrow> key (a (k div 2)) \<le> key (a j))"

definition up_ok :: "(int \<Rightarrow> int) \<Rightarrow> nat \<Rightarrow> arrangement \<Rightarrow> nat \<Rightarrow> bool" where
  "up_ok key N a k \<longleftrightarrow> bridged key N a k \<and>
     (\<forall>j. 2 \<le> j \<and> j \<le> N \<and> j \<noteq> k \<longrightarrow> key (a (j div 2)) \<le> key (a j))"

definition down_ok :: "(int \<Rightarrow> int) \<Rightarrow> nat \<Rightarrow> arrangement \<Rightarrow> nat \<Rightarrow> bool" where
  "down_ok key N a k \<longleftrightarrow> bridged key N a k \<and>
     (\<forall>j. 2 \<le> j \<and> j \<le> N \<and> j div 2 \<noteq> k \<longrightarrow> key (a (j div 2)) \<le> key (a j))"

definition loose :: "(int \<Rightarrow> int) \<Rightarrow> nat \<Rightarrow> arrangement \<Rightarrow> nat \<Rightarrow> bool" where
  "loose key N a k \<longleftrightarrow> bridged key N a k \<and>
     (\<forall>j. 2 \<le> j \<and> j \<le> N \<and> j \<noteq> k \<and> j div 2 \<noteq> k \<longrightarrow> key (a (j div 2)) \<le> key (a j))"

lemma div2_less: "2 \<le> (j::nat) \<Longrightarrow> j div 2 < j \<and> 1 \<le> j div 2"
  by linarith

lemma up_ok_step:
  assumes "up_ok key N a k" "k \<le> N" "k div 2 \<noteq> 0" "key (a k) < key (a (k div 2))"
  shows "up_ok key N (xchg a k (k div 2)) (k div 2)"
proof -
  let ?p = "k div 2"
  have k: "?p < k" "1 \<le> ?p" "2 \<le> k" using assms(3) by linarith+
  have ord: "key (a (j div 2)) \<le> key (a j)" if "2 \<le> j" "j \<le> N" "j \<noteq> k" for j
    using assms(1) that by (simp add: up_ok_def)
  have br: "key (a ?p) \<le> key (a j)" if "j \<le> N" "j div 2 = k" for j
    using assms(1) that k(3) by (simp add: up_ok_def bridged_def)
  have one: "key (xchg a k ?p (j div 2)) \<le> key (xchg a k ?p j)" if j: "2 \<le> j" "j \<le> N" "j \<noteq> ?p" for j
  proof -
    consider "j = k" | "j \<noteq> k" "j div 2 = k" | "j \<noteq> k" "j div 2 = ?p" | "j \<noteq> k" "j div 2 \<noteq> k" "j div 2 \<noteq> ?p"
      by blast
    then show ?thesis
    proof cases
      case 1
      then show ?thesis using assms(4) k(1) by auto
    next
      case 2
      moreover have "k \<noteq> k div 2" using k(1) by linarith
      ultimately show ?thesis using br [of j] j by simp
    next
      case 3
      then show ?thesis using ord [OF j(1,2)] assms(4) j(3) k(1) by simp
    next
      case 4
      then show ?thesis using ord [OF j(1,2)] j(3) by simp
    qed
  qed
  have "key (xchg a k ?p (?p div 2)) \<le> key (xchg a k ?p j)" if j: "j \<le> N" "j div 2 = ?p" "2 \<le> ?p" for j
  proof -
    have pp: "?p div 2 \<noteq> k" "?p div 2 \<noteq> ?p" "j \<noteq> ?p" using k j by linarith+
    have "key (a (?p div 2)) \<le> key (a ?p)" using ord [of ?p] j(3) k assms(2) by linarith
    moreover have "key (a ?p) \<le> key (a j)" if "j \<noteq> k" using ord [of j] that j by simp
    ultimately show ?thesis using pp by auto
  qed
  then show ?thesis using one by (simp add: up_ok_def bridged_def)
qed

lemma swim_heap:
  "up_ok key N a k \<Longrightarrow> 1 \<le> k \<Longrightarrow> k \<le> N \<Longrightarrow> heap_ord key N (swim key a k)"
proof (induction key a k rule: swim.induct)
  case (1 key a k)
  show ?case
  proof (cases "k div 2 = 0 \<or> key (a (k div 2)) \<le> key (a k)")
    case True
    have "key (a (j div 2)) \<le> key (a j)" if "2 \<le> j" "j \<le> N" for j
      using True "1.prems"(1) that by (cases "j = k") (auto simp: up_ok_def)
    then show ?thesis using True by (simp add: swim.simps [of key a k] heap_ord_def)
  next
    case False
    have "1 \<le> k div 2" "k div 2 \<le> N" "key (a k) < key (a (k div 2))" "k div 2 \<noteq> 0"
      using False "1.prems"(3) by linarith+
    then have "heap_ord key N (swim key (xchg a k (k div 2)) (k div 2))"
      using "1.IH" [OF False up_ok_step [OF "1.prems"(1,3)]] by blast
    then show ?thesis using False by (simp add: swim.simps [of key a k])
  qed
qed

lemma min_child_cases:
  assumes "1 \<le> k" "2 * k \<le> N"
  shows "min_child key N a k div 2 = k" "k < min_child key N a k" "min_child key N a k \<le> N"
    and "\<And>j. j div 2 = k \<Longrightarrow> j \<le> N \<Longrightarrow> key (a (min_child key N a k)) \<le> key (a j)"
proof -
  show "min_child key N a k div 2 = k" "k < min_child key N a k" "min_child key N a k \<le> N"
    using assms by (auto simp: min_child_def)
  fix j assume "j div 2 = k" "j \<le> N"
  then have "j = 2 * k \<or> j = 2 * k + 1" by linarith
  then show "key (a (min_child key N a k)) \<le> key (a j)"
    using \<open>j \<le> N\<close> by (auto simp: min_child_def)
qed

lemma down_ok_step:
  assumes "down_ok key N a k" "1 \<le> k" "2 * k \<le> N"
    and c: "c = min_child key N a k" "key (a c) < key (a k)"
  shows "down_ok key N (xchg a k c) c"
proof -
  note mc = min_child_cases [OF assms(2,3), where key = key and a = a, folded c(1)]
  have ord: "key (a (j div 2)) \<le> key (a j)" if "2 \<le> j" "j \<le> N" "j div 2 \<noteq> k" for j
    using assms(1) that by (simp add: down_ok_def)
  have br: "key (a (k div 2)) \<le> key (a j)" if "j \<le> N" "j div 2 = k" "2 \<le> k" for j
    using assms(1) that by (simp add: down_ok_def bridged_def)
  have one: "key (xchg a k c (j div 2)) \<le> key (xchg a k c j)" if j: "2 \<le> j" "j \<le> N" "j div 2 \<noteq> c" for j
  proof -
    consider "j = c" | "j = k" | "j \<noteq> c" "j \<noteq> k" "j div 2 = k" | "j \<noteq> c" "j \<noteq> k" "j div 2 \<noteq> k"
      by blast
    then show ?thesis
    proof cases
      case 1
      then show ?thesis using mc c(2) by simp
    next
      case 2
      then have "j div 2 \<noteq> k" using j by linarith
      then show ?thesis using 2 br [of c] mc j by simp
    next
      case 3
      then show ?thesis using mc(2) mc(4) [of j] j by simp
    next
      case 4
      then show ?thesis using ord [OF j(1,2)] j(3) by simp
    qed
  qed
  have "key (xchg a k c (c div 2)) \<le> key (xchg a k c j)" if j: "j \<le> N" "j div 2 = c" "2 \<le> c" for j
  proof -
    have "j \<noteq> c" "j \<noteq> k" "c \<noteq> k" "j div 2 \<noteq> k" "2 \<le> j" using j mc(2) by linarith+
    then show ?thesis using ord [of j] j mc(1) by simp
  qed
  then show ?thesis using one by (simp add: down_ok_def bridged_def)
qed

lemma sink_heap:
  "down_ok key N a k \<Longrightarrow> 1 \<le> k \<Longrightarrow> heap_ord key N (sink key N a k)"
proof (induction key N a k rule: sink.induct)
  case (1 key N a k)
  show ?case
  proof (cases "k = 0 \<or> 2 * k > N \<or> key (a k) \<le> key (a (min_child key N a k))")
    case True
    have "key (a (j div 2)) \<le> key (a j)" if j: "2 \<le> j" "j \<le> N" for j
    proof (cases "j div 2 = k")
      case jk: True
      then have "2 * k \<le> N" using j by linarith
      then have "key (a (min_child key N a k)) \<le> key (a j)"
        using min_child_cases(4) [OF "1.prems"(2) _ jk j(2)] by blast
      then show ?thesis using True "1.prems"(2) \<open>2 * k \<le> N\<close> jk by force
    next
      case False
      then show ?thesis using "1.prems"(1) j by (simp add: down_ok_def)
    qed
    then show ?thesis using True by (simp add: sink.simps [of key N a k] heap_ord_def)
  next
    case False
    let ?c = "min_child key N a k"
    have "down_ok key N (xchg a k ?c) ?c"
      using False by (intro down_ok_step [OF "1.prems"(1,2)]) auto
    moreover have "1 \<le> ?c" using min_child_cases(2) [of k N key a] False by linarith
    ultimately have "heap_ord key N (sink key N (xchg a k ?c) ?c)" by (rule "1.IH" [OF False])
    then show ?thesis using False by (simp add: sink.simps [of key N a k])
  qed
qed

text \<open>Exchanging rearranges.\<close>

lemma xchg_arrangement:
  assumes "k \<in> S" "p \<in> S"
  shows "xchg a k p ` S = a ` S" "inj_on a S \<Longrightarrow> inj_on (xchg a k p) S"
proof -
  let ?s = "\<lambda>x. if x = k then p else if x = p then k else x"
  have eq: "xchg a k p x = a (?s x)" for x by simp
  have s: "?s x \<in> S" "?s (?s x) = x" if "x \<in> S" for x using assms that by simp_all
  have "y \<in> xchg a k p ` S \<longleftrightarrow> y \<in> a ` S" for y
    unfolding image_iff eq using s by metis
  then show "xchg a k p ` S = a ` S" by blast
  assume inj: "inj_on a S"
  show "inj_on (xchg a k p) S"
  proof (rule inj_onI)
    fix x y assume "x \<in> S" "y \<in> S" "xchg a k p x = xchg a k p y"
    then show "x = y" unfolding eq using inj_onD [OF inj _ s(1) s(1), of x y] s(2) by metis
  qed
qed

section \<open>The array and the timers\<close>

definition key_of :: "(int \<rightharpoonup> timer) \<Rightarrow> int \<Rightarrow> int" where
  "key_of tm i = (case tm i of None \<Rightarrow> 0 | Some t \<Rightarrow> tm_at t)"

text \<open>
  \<open>a\<close> is the arrangement of the first \<open>N\<close> slots of \<open>h\<close>. In \<open>hole\<close> the slot \<open>k\<close> and the
  index of the timer \<open>a k\<close> thought to be in it may hold anything.
\<close>

definition hole :: "theap \<Rightarrow> nat \<Rightarrow> nat \<Rightarrow> arrangement \<Rightarrow> bool" where
  "hole h N k a \<longleftrightarrow> N < length (hp_arr h) \<and> inj_on a {1..N} \<and>
     (\<forall>j \<in> {1..N}. hp_tm h (a j) \<noteq> None) \<and>
     (\<forall>j \<in> {1..N} - {k}. hp_arr h ! j = Some (a j) \<and> map_option tm_index (hp_tm h (a j)) = Some j)"

definition hrep :: "theap \<Rightarrow> nat \<Rightarrow> arrangement \<Rightarrow> bool" where
  "hrep h N a \<longleftrightarrow> N < length (hp_arr h) \<and> inj_on a {1..N} \<and>
     (\<forall>j \<in> {1..N}. hp_arr h ! j = Some (a j) \<and> map_option tm_index (hp_tm h (a j)) = Some j)"

text \<open>Nothing but the slots in use and the indexes of the timers in \<open>S\<close> differs.\<close>

definition hframe :: "nat \<Rightarrow> int set \<Rightarrow> theap \<Rightarrow> theap \<Rightarrow> bool" where
  "hframe N S h h' \<longleftrightarrow> length (hp_arr h') = length (hp_arr h) \<and>
     (\<forall>j. j \<notin> {1..N} \<longrightarrow> hp_arr h' ! j = hp_arr h ! j) \<and>
     (\<forall>i. map_option (tm_index_update (\<lambda>_. 0)) (hp_tm h' i) =
          map_option (tm_index_update (\<lambda>_. 0)) (hp_tm h i)) \<and>
     (\<forall>i. i \<notin> S \<longrightarrow> hp_tm h' i = hp_tm h i)"

lemma hframe_refl: "hframe N S h h"
  by (simp add: hframe_def)

lemma hframe_trans: "hframe N S h h' \<Longrightarrow> hframe N S h' h'' \<Longrightarrow> hframe N S h h''"
  by (simp add: hframe_def)

lemma hframe_place:
  "k \<in> {1..N} \<Longrightarrow> i \<in> S \<Longrightarrow> hframe N S h (place i k h)"
  by (auto simp: hframe_def place_def option.map_comp comp_def)

lemma hframe_field:
  assumes "hframe N S h h'"
  shows "hp_tm h' i = None \<longleftrightarrow> hp_tm h i = None"
    and "hp_tm h i = Some t \<Longrightarrow> \<exists>k. hp_tm h' i = Some (t\<lparr>tm_index := k\<rparr>)"
proof -
  have eq: "map_option (tm_index_update (\<lambda>_. 0)) (hp_tm h' i) =
      map_option (tm_index_update (\<lambda>_. 0)) (hp_tm h i)"
    using assms by (simp add: hframe_def)
  then show "hp_tm h' i = None \<longleftrightarrow> hp_tm h i = None" by (metis option.map_disc_iff)
  assume "hp_tm h i = Some t"
  with eq obtain t' where t': "hp_tm h' i = Some t'" "t'\<lparr>tm_index := 0\<rparr> = t\<lparr>tm_index := 0\<rparr>"
    by (auto simp: map_option_case split: option.splits)
  then have "t' = t\<lparr>tm_index := tm_index t'\<rparr>" by (cases t; cases t') simp
  then show "\<exists>k. hp_tm h' i = Some (t\<lparr>tm_index := k\<rparr>)" using t'(1) by metis
qed

lemma hframe_key: "hframe N S h h' \<Longrightarrow> key_of (hp_tm h') = key_of (hp_tm h)"
proof (rule ext)
  fix i assume f: "hframe N S h h'"
  show "key_of (hp_tm h') i = key_of (hp_tm h) i"
    using hframe_field [OF f, of i] by (cases "hp_tm h i") (auto simp: key_of_def)
qed

lemma hole_hnode:
  assumes "hole h N k a" "j \<in> {1..N}" "j \<noteq> k"
  shows "\<exists>t. hnode h j = Inr (a j, t) \<and> tm_at t = key_of (hp_tm h) (a j)"
  using assms by (auto simp: hole_def hnode_def key_of_def split: option.splits)

lemma place_simps:
  "length (hp_arr (place i k h)) = length (hp_arr h)"
  "k < length (hp_arr h) \<Longrightarrow> hp_arr (place i k h) ! j = (if j = k then Some i else hp_arr h ! j)"
  "hp_tm (place i k h) m = None \<longleftrightarrow> hp_tm h m = None"
  "m \<noteq> i \<Longrightarrow> hp_tm (place i k h) m = hp_tm h m"
  "hp_tm h i \<noteq> None \<Longrightarrow> map_option tm_index (hp_tm (place i k h) i) = Some k"
  by (auto simp: place_def nth_list_update)

lemma hole_place:
  assumes "hole h N k a" "k \<in> {1..N}"
  shows "hrep (place (a k) k h) N a"
proof -
  have "a j \<noteq> a k" if "j \<in> {1..N}" "j \<noteq> k" for j
    using assms that inj_onD [of a "{1..N}" j k] by (auto simp: hole_def)
  then have "hp_arr (place (a k) k h) ! j = Some (a j) \<and>
      map_option tm_index (hp_tm (place (a k) k h) (a j)) = Some j" if "j \<in> {1..N}" for j
    using assms that place_simps [where i = "a k" and k = k and h = h]
    by (cases "j = k") (simp_all add: hole_def)
  then show ?thesis using assms by (simp add: hole_def hrep_def place_simps)
qed

lemma hole_move:
  assumes "hole h N k a" "k \<in> {1..N}" "p \<in> {1..N}" "p \<noteq> k"
  shows "hole (place (a p) k h) N p (xchg a k p)"
proof -
  have ne: "a i \<noteq> a j" if "i \<in> {1..N}" "j \<in> {1..N}" "i \<noteq> j" for i j
    using assms that inj_onD [of a "{1..N}" i j] by (auto simp: hole_def)
  have "inj_on (xchg a k p) {1..N}" using assms by (intro xchg_arrangement) (auto simp: hole_def)
  moreover have "hp_arr (place (a p) k h) ! j = Some (xchg a k p j) \<and>
      map_option tm_index (hp_tm (place (a p) k h) (xchg a k p j)) = Some j" if "j \<in> {1..N} - {p}" for j
    using assms that ne [of j p] place_simps [where i = "a p" and k = k and h = h]
    by (cases "j = k") (simp_all add: hole_def)
  moreover have "hp_tm (place (a p) k h) (xchg a k p j) \<noteq> None" if "j \<in> {1..N}" for j
    using assms that by (simp add: hole_def place_simps)
  ultimately show ?thesis using assms(1) by (simp add: hole_def place_simps)
qed

lemma up_loop_ok:
  assumes "hole h N k a" "k \<in> {1..N}" "at = key_of (hp_tm h) (a k)"
  shows "\<exists>h'. up_loop (a k) at k h = Inr h' \<and> hframe N (a ` {1..N}) h h' \<and>
           hrep h' N (swim (key_of (hp_tm h)) a k)"
  using assms
proof (induction k arbitrary: h a rule: less_induct)
  case (less k)
  let ?p = "k div 2" and ?key = "key_of (hp_tm h)"
  have ak: "a k \<in> a ` {1..N}" using less.prems(2) by blast
  have stop: "hframe N (a ` {1..N}) h (place (a k) k h)" "hrep (place (a k) k h) N a"
    using hframe_place [OF less.prems(2) ak] hole_place [OF less.prems(1,2)] by auto
  show ?case
  proof (cases "?p = 0")
    case True
    then show ?thesis using stop by (simp add: up_loop.simps [of _ _ k] swim.simps [of _ a k])
  next
    case False
    then have p: "?p \<in> {1..N}" "?p \<noteq> k" "?p < k" using less.prems(2) by auto
    obtain t where t: "hnode h ?p = Inr (a ?p, t)" "tm_at t = ?key (a ?p)"
      using hole_hnode [OF less.prems(1) p(1,2)] by blast
    show ?thesis
    proof (cases "?key (a ?p) \<le> ?key (a k)")
      case True
      then show ?thesis using stop t False less.prems(3)
        by (simp add: up_loop.simps [of _ _ k] swim.simps [of _ a k])
    next
      case gt: False
      let ?h1 = "place (a ?p) k h" and ?a1 = "xchg a k ?p"
      have f1: "hframe N (a ` {1..N}) h ?h1" using p(1) by (intro hframe_place less.prems(2)) blast
      have im: "?a1 ` {1..N} = a ` {1..N}" using xchg_arrangement(1) [OF less.prems(2) p(1)] .
      have a1: "?a1 ?p = a k" using p(2) by simp
      have at: "at = key_of (hp_tm ?h1) (?a1 ?p)"
        unfolding a1 hframe_key [OF f1] by (rule less.prems(3))
      obtain h' where h': "up_loop (a k) at ?p ?h1 = Inr h'" "hframe N (a ` {1..N}) ?h1 h'"
          "hrep h' N (swim ?key ?a1 ?p)"
        using less.IH [OF p(3) hole_move [OF less.prems(1,2) p(1,2)] p(1) at]
        unfolding a1 im hframe_key [OF f1] by blast
      have "up_loop (a k) at k h = up_loop (a k) at ?p ?h1"
        using gt False t less.prems(3) by (simp add: up_loop.simps [of _ _ k] Let_def)
      moreover have "swim ?key a k = swim ?key ?a1 ?p"
        using gt False by (subst swim.simps) simp
      ultimately show ?thesis using h' hframe_trans [OF f1 h'(2)] by auto
    qed
  qed
qed

lemma down_loop_ok:
  assumes "hole h N k a" "k \<in> {1..N}" "at = key_of (hp_tm h) (a k)"
  shows "\<exists>h'. down_loop (a k) at N k h = Inr h' \<and> hframe N (a ` {1..N}) h h' \<and>
           hrep h' N (sink (key_of (hp_tm h)) N a k)"
  using assms
proof (induction "N - k" arbitrary: k h a rule: less_induct)
  case less
  let ?key = "key_of (hp_tm h)"
  have ak: "a k \<in> a ` {1..N}" using less.prems(2) by blast
  have k0: "k \<noteq> 0" "1 \<le> k" using less.prems(2) by auto
  have stop: "hframe N (a ` {1..N}) h (place (a k) k h)" "hrep (place (a k) k h) N a"
    using hframe_place [OF less.prems(2) ak] hole_place [OF less.prems(1,2)] by auto
  show ?case
  proof (cases "2 * k > N")
    case True
    then show ?thesis using stop k0
      by (simp add: down_loop.simps [of _ _ _ k] sink.simps [of _ _ a k])
  next
    case False
    define c where "c = min_child ?key N a k"
    have c: "c div 2 = k" "k < c" "c \<le> N"
      using min_child_cases [OF k0(2), where key = ?key and a = a and N = N] False by (simp_all add: c_def not_less)
    have cN: "c \<in> {1..N}" "c \<noteq> k" using c by auto
    obtain l where l: "hnode h (2 * k) = Inr (a (2 * k), l)" "tm_at l = ?key (a (2 * k))"
      using hole_hnode [OF less.prems(1), of "2 * k"] False k0 by auto
    have pick: "\<exists>t. (if 2 * k + 1 < N + 1
          then bind_res (hnode h (2 * k + 1)) (\<lambda>(r, tr).
                 Inr (if tm_at l > tm_at tr then (2 * k + 1, r, tr) else (2 * k, a (2 * k), l)))
          else Inr (2 * k, a (2 * k), l)) = Inr (c, a c, t) \<and> tm_at t = ?key (a c)"
    proof (cases "2 * k + 1 < N + 1")
      case True
      obtain r where "hnode h (2 * k + 1) = Inr (a (2 * k + 1), r)" "tm_at r = ?key (a (2 * k + 1))"
        using hole_hnode [OF less.prems(1), of "2 * k + 1"] True k0 by auto
      then show ?thesis using True l by (auto simp: c_def min_child_def)
    next
      case False
      then show ?thesis using l by (simp add: c_def min_child_def)
    qed
    then obtain t where t: "(if 2 * k + 1 < N + 1
          then bind_res (hnode h (2 * k + 1)) (\<lambda>(r, tr).
                 Inr (if tm_at l > tm_at tr then (2 * k + 1, r, tr) else (2 * k, a (2 * k), l)))
          else Inr (2 * k, a (2 * k), l)) = Inr (c, a c, t)" "tm_at t = ?key (a c)" by blast
    have run: "down_loop (a k) at N k h =
        (if at \<le> ?key (a c) then Inr (place (a k) k h) else down_loop (a k) at N c (place (a c) k h))"
      using False k0 l(1) t unfolding down_loop.simps [of "a k" at N k h] by simp
    show ?thesis
    proof (cases "?key (a k) \<le> ?key (a c)")
      case True
      then show ?thesis using stop run less.prems(3)
        by (simp add: sink.simps [of _ _ a k] c_def)
    next
      case gt: False
      let ?h1 = "place (a c) k h" and ?a1 = "xchg a k c"
      have f1: "hframe N (a ` {1..N}) h ?h1" using cN(1) by (intro hframe_place less.prems(2)) blast
      have im: "?a1 ` {1..N} = a ` {1..N}" using xchg_arrangement(1) [OF less.prems(2) cN(1)] .
      have a1: "?a1 c = a k" using cN(2) by simp
      have at: "at = key_of (hp_tm ?h1) (?a1 c)"
        unfolding a1 hframe_key [OF f1] by (rule less.prems(3))
      have "N - c < N - k" using c by linarith
      then obtain h' where h': "down_loop (a k) at N c ?h1 = Inr h'" "hframe N (a ` {1..N}) ?h1 h'"
          "hrep h' N (sink ?key N ?a1 c)"
        using less.hyps [OF _ hole_move [OF less.prems(1,2) cN] cN(1) at]
        unfolding a1 im hframe_key [OF f1] by blast
      have "sink ?key N a k = sink ?key N ?a1 c"
        using gt False k0 by (subst sink.simps) (simp add: c_def)
      then show ?thesis using h' hframe_trans [OF f1 h'(2)] run gt less.prems(3) by auto
    qed
  qed
qed

section \<open>Restoring the heap\<close>

lemma swim_arrangement:
  "k \<in> {1..N} \<Longrightarrow> swim key a k ` {1..N} = a ` {1..N}"
proof (induction key a k rule: swim.induct)
  case (1 key a k)
  show ?case
  proof (cases "k div 2 = 0 \<or> key (a (k div 2)) \<le> key (a k)")
    case True
    then show ?thesis by (simp add: swim.simps [of key a k])
  next
    case False
    then have p: "k div 2 \<in> {1..N}" using "1.prems" by auto
    have eq: "swim key a k = swim key (xchg a k (k div 2)) (k div 2)"
      using False by (subst swim.simps) simp
    show ?thesis unfolding eq "1.IH" [OF False p] by (rule xchg_arrangement(1) [OF "1.prems" p])
  qed
qed

lemma sink_arrangement:
  "k \<in> {1..N} \<Longrightarrow> sink key N a k ` {1..N} = a ` {1..N}"
proof (induction key N a k rule: sink.induct)
  case (1 key N a k)
  show ?case
  proof (cases "k = 0 \<or> 2 * k > N \<or> key (a k) \<le> key (a (min_child key N a k))")
    case True
    then show ?thesis by (simp add: sink.simps [of key N a k])
  next
    case False
    let ?c = "min_child key N a k"
    have c: "?c \<in> {1..N}" using min_child_cases(2,3) [of k N key a] False "1.prems" by auto
    have eq: "sink key N a k = sink key N (xchg a k ?c) ?c" using False by (subst sink.simps) simp
    show ?thesis unfolding eq "1.IH" [OF False c] by (rule xchg_arrangement(1) [OF "1.prems" c])
  qed
qed

text \<open>What the callers need: from an arrangement that is loose at \<open>k\<close> to a heap.\<close>

definition restored :: "nat \<Rightarrow> arrangement \<Rightarrow> theap \<Rightarrow> theap \<Rightarrow> bool" where
  "restored N a h h' \<longleftrightarrow> hframe N (a ` {1..N}) h h' \<and>
     (\<exists>a'. hrep h' N a' \<and> a' ` {1..N} = a ` {1..N} \<and> heap_ord (key_of (hp_tm h')) N a')"

lemma hole_hnode_k:
  assumes "hole h N k a" "k \<in> {1..N}" "hp_arr h ! k = Some (a k)"
  shows "\<exists>t. hnode h k = Inr (a k, t) \<and> tm_at t = key_of (hp_tm h) (a k)"
  using assms by (auto simp: hole_def hnode_def key_of_def split: option.splits)

lemma up_heap_ok:
  assumes "hole h N k a" "k \<in> {1..N}" "hp_arr h ! k = Some (a k)" "up_ok (key_of (hp_tm h)) N a k"
  shows "\<exists>h'. up_heap k h = Inr h' \<and> restored N a h h'"
proof -
  let ?key = "key_of (hp_tm h)"
  obtain t where t: "hnode h k = Inr (a k, t)" "tm_at t = ?key (a k)"
    using hole_hnode_k [OF assms(1-3)] by blast
  obtain h' where h': "up_loop (a k) (?key (a k)) k h = Inr h'" "hframe N (a ` {1..N}) h h'"
      "hrep h' N (swim ?key a k)"
    using up_loop_ok [OF assms(1,2) refl] by blast
  have "heap_ord (key_of (hp_tm h')) N (swim ?key a k)"
    unfolding hframe_key [OF h'(2)] using assms(2) by (intro swim_heap [OF assms(4)]) auto
  then show ?thesis
    using h' t swim_arrangement [OF assms(2), of ?key a] by (auto simp: up_heap_def restored_def)
qed

lemma down_heap_ok:
  assumes "hole h N k a" "k \<in> {1..N}" "hp_arr h ! k = Some (a k)" "down_ok (key_of (hp_tm h)) N a k"
  shows "\<exists>h'. down_heap N k h = Inr h' \<and> restored N a h h'"
proof -
  let ?key = "key_of (hp_tm h)"
  obtain t where t: "hnode h k = Inr (a k, t)" "tm_at t = ?key (a k)"
    using hole_hnode_k [OF assms(1-3)] by blast
  obtain h' where h': "down_loop (a k) (?key (a k)) N k h = Inr h'" "hframe N (a ` {1..N}) h h'"
      "hrep h' N (sink ?key N a k)"
    using down_loop_ok [OF assms(1,2) refl] by blast
  have "heap_ord (key_of (hp_tm h')) N (sink ?key N a k)"
    unfolding hframe_key [OF h'(2)] using assms(2) by (intro sink_heap [OF assms(4)]) auto
  then show ?thesis
    using h' t sink_arrangement [OF assms(2), of ?key a] by (auto simp: down_heap_def restored_def)
qed

lemma adjust_heap_ok:
  assumes "hole h N k a" "k \<in> {1..N}" "hp_arr h ! k = Some (a k)" "loose (key_of (hp_tm h)) N a k"
  shows "\<exists>h'. adjust_heap N k h = Inr h' \<and> restored N a h h'"
proof -
  let ?key = "key_of (hp_tm h)"
  obtain t where t: "hnode h k = Inr (a k, t)" "tm_at t = ?key (a k)"
    using hole_hnode_k [OF assms(1-3)] by blast
  have ord: "?key (a (j div 2)) \<le> ?key (a j)" if "2 \<le> j" "j \<le> N" "j \<noteq> k" "j div 2 \<noteq> k" for j
    using assms(4) that by (simp add: loose_def)
  have br: "?key (a (k div 2)) \<le> ?key (a j)" if "j \<le> N" "j div 2 = k" "2 \<le> k" for j
    using assms(4) that by (simp add: loose_def bridged_def)
  have brd: "bridged ?key N a k" using assms(4) by (simp add: loose_def)
  show ?thesis
  proof (cases "k > 1")
    case False
    then have "down_ok ?key N a k" using ord brd assms(2) by (force simp: down_ok_def)
    then show ?thesis using False down_heap_ok [OF assms(1-3)] by (simp add: adjust_heap_def)
  next
    case True
    have p: "k div 2 \<in> {1..N}" "k div 2 \<noteq> k" using True assms(2) by auto
    obtain u where u: "hnode h (k div 2) = Inr (a (k div 2), u)" "tm_at u = ?key (a (k div 2))"
      using hole_hnode [OF assms(1) p] by blast
    show ?thesis
    proof (cases "?key (a k) \<le> ?key (a (k div 2))")
      case le: True
      have "?key (a (j div 2)) \<le> ?key (a j)" if "2 \<le> j" "j \<le> N" "j \<noteq> k" for j
        using ord [OF that] br [of j] le True that by (cases "j div 2 = k") auto
      then have "up_ok ?key N a k" using brd by (simp add: up_ok_def)
      then show ?thesis using le True t u up_heap_ok [OF assms(1-3)] by (simp add: adjust_heap_def)
    next
      case gt: False
      have "?key (a (j div 2)) \<le> ?key (a j)" if "2 \<le> j" "j \<le> N" "j div 2 \<noteq> k" for j
        using ord [OF that(1,2) _ that(3)] gt by (cases "j = k") auto
      then have "down_ok ?key N a k" using brd by (simp add: down_ok_def)
      then show ?thesis using gt True t u down_heap_ok [OF assms(1-3)] by (simp add: adjust_heap_def)
    qed
  qed
qed

end
