(* ===== verification/EvTimers.thy ===== *)
theory EvTimers
  imports EvLoop TimerHeapCorrect
begin

text \<open>
  The timers of the main loop. Starting, stopping and expiring timers keep the heap, its
  back pointers and the pending vector consistent, never fault, and the expiry loop ends
  having queued exactly the timers that are due. The UTC timers share the heap but not
  all of this: their stop and expiry functions differ from the timers', and the last
  section states where that goes wrong.
\<close>

declare split_paired_All [simp del] split_paired_Ex [simp del]

section \<open>Timer queues\<close>

lemma nat_one_int [simp]: "nat (1 + int n) = Suc n"
  by simp

definition idx0 :: "timer option \<Rightarrow> timer option" where
  "idx0 = map_option (tm_index_update (\<lambda>_. 0))"

lemma idx0_simps [simp]: "idx0 None = None" "idx0 (Some t) = Some (t\<lparr>tm_index := 0\<rparr>)"
  by (simp_all add: idx0_def)

lemma idx0_eq_Some:
  assumes "idx0 x = idx0 (Some t)"
  obtains k where "x = Some (t\<lparr>tm_index := k\<rparr>)"
proof -
  obtain u where u: "x = Some u" "u\<lparr>tm_index := 0\<rparr> = t\<lparr>tm_index := 0\<rparr>" using assms by (cases x) auto
  then have "u = t\<lparr>tm_index := tm_index u\<rparr>" by (cases t; cases u) simp
  then show thesis using that u(1) by metis
qed

lemma idx0_fields:
  assumes "idx0 (Some u) = idx0 (Some v)"
  shows "tm_repeat u = tm_repeat v" "tm_at u = tm_at v" "tm_policy u = tm_policy v"
    "tm_pending u = tm_pending v" "tm_revents u = tm_revents v"
proof -
  obtain k where "u = v\<lparr>tm_index := k\<rparr>" using idx0_eq_Some [OF assms] by auto
  then show "tm_repeat u = tm_repeat v" "tm_at u = tm_at v" "tm_policy u = tm_policy v"
    "tm_pending u = tm_pending v" "tm_revents u = tm_revents v" by simp_all
qed

lemma idx0_partner:
  "idx0 x = idx0 y \<Longrightarrow> x = Some u \<Longrightarrow> \<exists>v. y = Some v \<and> idx0 (Some u) = idx0 (Some v)"
  by (cases y) auto

lemma idx0_key:
  assumes "idx0 (f j) = idx0 (g j)"
  shows "key_of f j = key_of g j"
proof (cases "g j")
  case None
  then have "f j = None" using assms by (cases "f j") auto
  then show ?thesis using None by (simp add: key_of_def)
next
  case (Some v)
  then obtain u where "f j = Some u" "idx0 (Some v) = idx0 (Some u)"
    using idx0_partner [OF assms [symmetric] Some] by blast
  then show ?thesis using Some idx0_fields(2) [of v u] by (simp add: key_of_def)
qed

lemma idx0_eq_None: "idx0 x = idx0 None \<longleftrightarrow> x = None" "idx0 x = None \<longleftrightarrow> x = None"
  by (simp_all add: idx0_def)

abbreviation tq_len :: "tqueue \<Rightarrow> nat" where
  "tq_len q \<equiv> nat (tq_cnt q)"

definition tq_rep :: "tqueue \<Rightarrow> arrangement \<Rightarrow> bool" where
  "tq_rep q a \<longleftrightarrow> 0 \<le> tq_cnt q \<and> hrep (tq_heap q) (tq_len q) a \<and>
     heap_ord (key_of (tq_tm q)) (tq_len q) a"

definition tq_active :: "tqueue \<Rightarrow> int set" where
  "tq_active q = {i. \<exists>t. tq_tm q i = Some t \<and> tm_index t \<noteq> 0}"

definition tq_inv :: "tqueue \<Rightarrow> bool" where
  "tq_inv q \<longleftrightarrow> (\<exists>a. tq_rep q a \<and> tq_active q = a ` {1..tq_len q})"

lemma hrep_hole:
  assumes "hrep h N a"
  shows "hole h N k a"
proof -
  have "hp_tm h (a j) \<noteq> None" if "j \<in> {1..N}" for j
    using assms that by (auto simp: hrep_def)
  then show ?thesis using assms by (simp add: hrep_def hole_def)
qed

lemma hrep_active:
  assumes "hrep h N a" "j \<in> {1..N}"
  shows "\<exists>t. hp_tm h (a j) = Some t \<and> tm_index t = j"
  using assms by (auto simp: hrep_def)

lemma tq_repD:
  assumes "tq_rep q a" "j \<in> {1..tq_len q}"
  shows "\<exists>t. tq_tm q (a j) = Some t \<and> tm_index t = j \<and> hnode (tq_heap q) j = Inr (a j, t)"
proof -
  have "hrep (tq_heap q) (tq_len q) a" using assms(1) by (simp add: tq_rep_def)
  moreover obtain t where "hp_tm (tq_heap q) (a j) = Some t" "tm_index t = j"
    using hrep_active [OF calculation assms(2)] by blast
  ultimately show ?thesis
    using assms(2) by (intro exI [of _ t]) (simp add: tq_tm_def hnode_def hrep_def)
qed

lemma tq_rep_sub: "tq_rep q a \<Longrightarrow> a ` {1..tq_len q} \<subseteq> tq_active q"
  using tq_repD by (fastforce simp: tq_active_def)

lemma tq_inv_init: "tq_inv tqueue_init"
  by (auto simp: tq_inv_def tq_rep_def tqueue_init_def hrep_def heap_ord_def tq_active_def tq_tm_def)

lemma heap_root:
  assumes "heap_ord key N a" "1 \<le> j" "j \<le> N"
  shows "key (a 1) \<le> key (a j)"
  using assms(2,3)
proof (induction j rule: less_induct)
  case (less j)
  show ?case
  proof (cases "j = 1")
    case False
    then have j: "2 \<le> j" using less.prems by simp
    then have "j div 2 < j" "1 \<le> j div 2" by linarith+
    then have "key (a 1) \<le> key (a (j div 2))" using less.IH less.prems by simp
    also have "\<dots> \<le> key (a j)" using assms(1) j less.prems(2) by (simp add: heap_ord_def)
    finally show ?thesis .
  qed simp
qed

text \<open>The queue after the heap functions have restored it.\<close>

lemma restored_tq:
  assumes "restored N a h h'"
  shows "\<exists>a'. tq_rep \<lparr>tq_heap = h', tq_cnt = int N\<rparr> a' \<and> a' ` {1..N} = a ` {1..N}"
    and "idx0 (hp_tm h' i) = idx0 (hp_tm h i)" "i \<notin> a ` {1..N} \<Longrightarrow> hp_tm h' i = hp_tm h i"
  using assms by (auto simp: restored_def tq_rep_def tq_tm_def hframe_def idx0_def)

lemma tq_push_ok:
  assumes inv: "tq_inv q" and new: "tq_tm q i = None" and t: "tm_index t = 0"
  shows "\<exists>q'. tq_push i t q = Inr (tq_cnt q + 1, q') \<and> tq_inv q' \<and> tq_cnt q' = tq_cnt q + 1 \<and>
           tq_active q' = insert i (tq_active q) \<and>
           (\<forall>j. idx0 (tq_tm q' j) = idx0 (((tq_tm q)(i \<mapsto> t)) j)) \<and>
           (\<forall>j. j \<notin> tq_active q' \<longrightarrow> tq_tm q' j = tq_tm q j)"
proof -
  obtain a where a: "tq_rep q a" "tq_active q = a ` {1..tq_len q}"
    using inv by (auto simp: tq_inv_def)
  define N where "N = tq_len q"
  have cnt: "tq_cnt q = int N" using a(1) by (simp add: tq_rep_def N_def)
  define arr where "arr = hp_arr (tq_heap q)"
  define arr1 where "arr1 = (if int (length arr) < int N + 1 + 1
      then arr @ replicate (nat (int N + 1 + 1024) - length arr) None else arr)"
  define h where "h = \<lparr>hp_arr = arr1[Suc N := Some i], hp_tm = (tq_tm q)(i \<mapsto> t)\<rparr>"
  let ?b = "a(Suc N := i)"
  have rep: "hrep (tq_heap q) N a" "heap_ord (key_of (tq_tm q)) N a"
    using a(1) by (simp_all add: tq_rep_def N_def)
  have len: "Suc N < length arr1" using rep(1) by (auto simp: arr1_def hrep_def arr_def)
  have same: "arr1 ! j = arr ! j" if "j \<le> N" for j
    using rep(1) that by (auto simp: arr1_def hrep_def arr_def nth_append)
  have na: "a j \<noteq> i" if "j \<in> {1..N}" for j
    using hrep_active [OF rep(1) that] new by (auto simp: tq_tm_def)
  have ins: "{1..Suc N} = insert (Suc N) {1..N}" by auto
  have eqb: "?b ` {1..N} = a ` {1..N}" by (rule image_cong) auto
  have "inj_on ?b {1..N}"
    using rep(1) by (intro inj_on_cong [THEN iffD1, of "{1..N}" a ?b]) (auto simp: hrep_def)
  moreover have "{1..N} - {Suc N} = {1..N}" by auto
  ultimately have inj: "inj_on ?b {1..Suc N}"
    unfolding ins inj_on_insert using na eqb by (metis fun_upd_same imageE)
  have b: "hole h (Suc N) (Suc N) ?b"
  proof -
    have "hp_tm h (?b j) \<noteq> None" if "j \<in> {1..Suc N}" for j
      using hrep_active [OF rep(1), of j] that by (cases "j = Suc N") (auto simp: h_def tq_tm_def)
    moreover have "hp_arr h ! j = Some (?b j) \<and> map_option tm_index (hp_tm h (?b j)) = Some j"
      if "j \<in> {1..Suc N} - {Suc N}" for j
    proof -
      have j: "j \<in> {1..N}" using that by auto
      then have "hp_arr h ! j = arr ! j" using same [of j] by (simp add: h_def)
      then show ?thesis using rep(1) j na [OF j] by (auto simp: hrep_def arr_def h_def tq_tm_def)
    qed
    ultimately show ?thesis using len inj by (simp add: hole_def h_def)
  qed
  have key: "key_of (hp_tm h) (?b j) = key_of (tq_tm q) (a j)" if "j \<in> {1..N}" for j
    using that na [OF that] by (simp add: key_of_def h_def)
  have "up_ok (key_of (hp_tm h)) (Suc N) ?b (Suc N)"
    unfolding up_ok_def bridged_def
  proof (intro conjI allI impI)
    fix j assume j: "2 \<le> j \<and> j \<le> Suc N \<and> j \<noteq> Suc N"
    then have r: "j \<in> {1..N}" "j div 2 \<in> {1..N}" by auto
    show "key_of (hp_tm h) (?b (j div 2)) \<le> key_of (hp_tm h) (?b j)"
      unfolding key [OF r(1)] key [OF r(2)] using rep(2) j by (simp add: heap_ord_def)
  qed auto
  moreover have "hp_arr h ! Suc N = Some (?b (Suc N))" using len by (simp add: h_def)
  ultimately obtain h' where h': "up_heap (Suc N) h = Inr h'" "restored (Suc N) ?b h h'"
    using up_heap_ok [OF b] by auto
  let ?q = "\<lparr>tq_heap = h', tq_cnt = int (Suc N)\<rparr>"
  obtain a' where a': "tq_rep ?q a'" "a' ` {1..Suc N} = ?b ` {1..Suc N}"
    using restored_tq(1) [OF h'(2)] by blast
  have im: "?b ` {1..Suc N} = insert i (tq_active q)"
    unfolding ins image_insert eqb using a(2) by (simp add: N_def)
  have out: "tq_tm ?q j = tq_tm q j" if "j \<notin> insert i (tq_active q)" for j
  proof -
    have "j \<notin> ?b ` {1..Suc N}" using that im by blast
    then show ?thesis using restored_tq(3) [OF h'(2)] that by (simp add: tq_tm_def h_def)
  qed
  have act: "tq_active ?q = insert i (tq_active q)"
  proof
    have "tq_len ?q = Suc N" by simp
    then show "insert i (tq_active q) \<subseteq> tq_active ?q"
      using tq_rep_sub [OF a'(1)] unfolding a'(2) [symmetric] im [symmetric] by metis
    show "tq_active ?q \<subseteq> insert i (tq_active q)"
    proof (rule subsetI, rule ccontr)
      fix j assume "j \<in> tq_active ?q" "j \<notin> insert i (tq_active q)"
      then show False using out [of j] by (auto simp: tq_active_def)
    qed
  qed
  have "i \<in> a' ` {1..Suc N}" unfolding a'(2) im by blast
  then obtain k where k: "k \<in> {1..Suc N}" "a' k = i" by blast
  have hr: "hrep h' (Suc N) a'" using a'(1) by (simp add: tq_rep_def)
  obtain u where "hp_tm h' i = Some u" "tm_index u = k" using hrep_active [OF hr k(1)] k(2) by blast
  then have u: "hp_tm h' i = Some u" "hp_arr h' ! tm_index u = Some i" "tm_index u < length (hp_arr h')"
    using hr k by (auto simp: hrep_def)
  have "tq_push i t q = Inr (int (Suc N), ?q)"
  proof -
    have n: "nat (int N + 1) = Suc N" by simp
    show ?thesis
      unfolding tq_push_def Let_def cnt arr_def [symmetric] arr1_def [symmetric] n h_def [symmetric]
      using h'(1) u by simp
  qed
  then show ?thesis
    using a' act im out restored_tq(2) [OF h'(2)]
    by (intro exI [of _ ?q]) (auto simp: cnt tq_inv_def tq_tm_def h_def)
qed

lemma tq_remove_ok:
  assumes inv: "tq_inv q" and i: "tq_tm q i = Some t" "tm_index t \<noteq> 0"
  shows "\<exists>q' a'. tq_remove (tm_index t) i q = Inr q' \<and> tq_cnt q' = tq_cnt q - 1 \<and> tq_rep q' a' \<and>
           a' ` {1..tq_len q'} = tq_active q - {i} \<and> tq_tm q' i = Some t \<and>
           (\<forall>j. idx0 (tq_tm q' j) = idx0 (tq_tm q j)) \<and>
           (\<forall>j. j \<notin> tq_active q - {i} \<longrightarrow> tq_tm q' j = tq_tm q j)"
proof -
  obtain a where a: "tq_rep q a" "tq_active q = a ` {1..tq_len q}"
    using inv by (auto simp: tq_inv_def)
  define k where "k = tm_index t"
  have "i \<in> tq_active q" using i by (auto simp: tq_active_def)
  then obtain j where j: "j \<in> {1..tq_len q}" "a j = i" using a(2) by auto
  then have jk: "j = k" using tq_repD [OF a(1) j(1)] i by (simp add: k_def)
  then have k: "k \<in> {1..tq_len q}" "a k = i" using j by simp_all
  define N where "N = tq_len q - 1"
  have cnt: "tq_len q = Suc N" "tq_cnt q = int N + 1"
    using k(1) a(1) by (auto simp: N_def tq_rep_def)
  have rep: "hrep (tq_heap q) (Suc N) a" "heap_ord (key_of (tq_tm q)) (Suc N) a"
    using a(1) cnt by (simp_all add: tq_rep_def)
  define arr where "arr = hp_arr (tq_heap q)"
  have arr: "Suc N < length arr" "\<And>j. j \<in> {1..Suc N} \<Longrightarrow> arr ! j = Some (a j)" "inj_on a {1..Suc N}"
    using rep(1) by (auto simp: hrep_def arr_def)
  have k1: "k \<in> {1..Suc N}" using k(1) cnt by simp
  have chk: "k < length arr" "arr ! k = Some i" using arr(1) arr(2) [OF k1] k(2) k1 by auto
  show ?thesis
  proof (cases "k < Suc N")
    case False
    then have kN: "k = Suc N" using k1 by auto
    let ?q = "q\<lparr>tq_cnt := int N\<rparr>"
    have "a ` {1..N} = a ` {1..Suc N} - {i}"
    proof -
      have "{1..N} = {1..Suc N} - {Suc N}" by auto
      moreover have "a ` ({1..Suc N} - {Suc N}) = a ` {1..Suc N} - a ` {Suc N}"
        using arr(3) by (rule inj_on_image_set_diff) auto
      ultimately show ?thesis using k(2) kN by simp
    qed
    moreover have "tq_rep ?q a"
      using rep inj_on_subset [OF arr(3), of "{1..N}"] by (auto simp: tq_rep_def hrep_def heap_ord_def tq_tm_def)
    moreover have "tq_remove k i q = Inr ?q"
      using chk kN by (simp add: tq_remove_def arr_def [symmetric] cnt)
    ultimately show ?thesis
      using i a(2) cnt by (intro exI [of _ ?q] exI [of _ a]) (simp add: k_def tq_tm_def)
  next
    case True
    then have kN: "k \<in> {1..N}" using k1 by auto
    define h where "h = (tq_heap q)\<lparr>hp_arr := arr[k := arr ! Suc N]\<rparr>"
    let ?b = "a(k := a (Suc N))"
    have ne: "a m \<noteq> a (Suc N)" if "m \<in> {1..N}" for m
      using inj_onD [OF arr(3), of m "Suc N"] that by auto
    have im: "?b ` {1..N} = tq_active q - {i}"
    proof -
      have "?b ` {1..N} = insert (a (Suc N)) (a ` ({1..N} - {k}))"
        using kN by (auto simp: image_iff)
      moreover have "a ` ({1..N} - {k}) = a ` {1..N} - {i}"
      proof -
        have "{1..N} - {k} \<subseteq> {1..Suc N}" "{k} \<subseteq> {1..Suc N}" using k1 by auto
        then have "a ` ({1..N} - {k}) = a ` {1..N} - a ` {k}"
          using inj_on_image_set_diff [OF arr(3), of "{1..N}" "{k}"] by blast
        then show ?thesis using k(2) by simp
      qed
      moreover have "a ` {1..Suc N} = insert (a (Suc N)) (a ` {1..N})"
      proof -
        have "{1..Suc N} = insert (Suc N) {1..N}" by auto
        then show ?thesis by simp
      qed
      moreover have "a (Suc N) \<noteq> i" using ne [OF kN] k(2) by simp
      ultimately show ?thesis using a(2) cnt by auto
    qed
    have "inj_on ?b {1..N}"
    proof (rule inj_onI)
      fix x y assume xy: "x \<in> {1..N}" "y \<in> {1..N}" "?b x = ?b y"
      then show "x = y"
        using ne [OF xy(1)] ne [OF xy(2)] inj_onD [OF arr(3), of x y] by (auto split: if_splits)
    qed
    moreover have "hp_tm h (?b j) \<noteq> None" if "j \<in> {1..N}" for j
      using hrep_active [OF rep(1), of j] hrep_active [OF rep(1), of "Suc N"] that
      by (auto simp: h_def)
    moreover have "hp_arr h ! j = Some (?b j) \<and> map_option tm_index (hp_tm h (?b j)) = Some j"
      if "j \<in> {1..N} - {k}" for j
      using that arr(2) [of j] hrep_active [OF rep(1), of j] by (auto simp: h_def)
    ultimately have hole: "hole h N k ?b" using arr(1) by (simp add: hole_def h_def)
    have hk: "hp_arr h ! k = Some (?b k)" using chk(1) arr(2) [of "Suc N"] by (simp add: h_def)
    have ord: "key_of (hp_tm h) (a (j div 2)) \<le> key_of (hp_tm h) (a j)" if "2 \<le> j" "j \<le> Suc N" for j
      using rep(2) that by (simp add: heap_ord_def h_def tq_tm_def)
    have "loose (key_of (hp_tm h)) N ?b k"
      unfolding loose_def bridged_def
    proof (intro conjI allI impI)
      fix j assume j: "j \<le> N \<and> j div 2 = k \<and> 2 \<le> k"
      then have "k div 2 \<noteq> k" "j \<noteq> k" "2 \<le> j" "k \<le> Suc N" by linarith+
      then show "key_of (hp_tm h) (?b (k div 2)) \<le> key_of (hp_tm h) (?b j)"
        using ord [of j] ord [of k] j by simp
    next
      fix j assume "2 \<le> j \<and> j \<le> N \<and> j \<noteq> k \<and> j div 2 \<noteq> k"
      then show "key_of (hp_tm h) (?b (j div 2)) \<le> key_of (hp_tm h) (?b j)" using ord [of j] by simp
    qed
    then obtain h' where h': "adjust_heap N k h = Inr h'" "restored N ?b h h'"
      using adjust_heap_ok [OF hole kN hk] by blast
    let ?q = "\<lparr>tq_heap = h', tq_cnt = int N\<rparr>"
    obtain a' where a': "tq_rep ?q a'" "a' ` {1..N} = ?b ` {1..N}"
      using restored_tq(1) [OF h'(2)] by blast
    have "tq_remove k i q = Inr ?q"
      using chk h'(1) arr(1) True
      by (simp add: tq_remove_def arr_def [symmetric] cnt h_def nat_add_distrib)
    moreover have "tq_tm ?q j = tq_tm q j" if "j \<notin> tq_active q - {i}" for j
    proof -
      have "j \<notin> ?b ` {1..N}" using that im by blast
      then show ?thesis using restored_tq(3) [OF h'(2)] by (simp add: tq_tm_def h_def)
    qed
    ultimately show ?thesis
      using a' im i restored_tq(2) [OF h'(2)]
      by (intro exI [of _ ?q] exI [of _ a']) (simp add: cnt k_def tq_tm_def h_def)
  qed
qed

lemma tq_upd_simps [simp]:
  "tq_tm (tq_upd i f q) j = (if j = i then map_option f (tq_tm q i) else tq_tm q j)"
  "tq_cnt (tq_upd i f q) = tq_cnt q"
  "hp_arr (tq_heap (tq_upd i f q)) = hp_arr (tq_heap q)"
  by (auto simp: tq_upd_def tq_tm_def)

lemma tq_erase_simps [simp]:
  "tq_tm (tq_erase i q) j = (if j = i then None else tq_tm q j)"
  "tq_cnt (tq_erase i q) = tq_cnt q"
  "hp_arr (tq_heap (tq_erase i q)) = hp_arr (tq_heap q)"
  by (auto simp: tq_erase_def tq_tm_def)

lemma tq_upd_same:
  assumes "tq_tm q i = Some t" "f t = t"
  shows "tq_upd i f q = q"
proof -
  have "(tq_tm q)(i := map_option f (tq_tm q i)) = hp_tm (tq_heap q)"
    using assms by (intro fun_upd_idem [THEN trans]) (auto simp: tq_tm_def)
  then show ?thesis by (simp add: tq_upd_def)
qed

lemma tq_rep_cong:
  assumes "tq_rep q a" "tq_cnt q' = tq_cnt q" "hp_arr (tq_heap q') = hp_arr (tq_heap q)"
    and "\<And>j t. j \<in> a ` {1..tq_len q} \<Longrightarrow> tq_tm q j = Some t \<Longrightarrow>
           \<exists>t'. tq_tm q' j = Some t' \<and> tm_index t' = tm_index t \<and> tm_at t' = tm_at t"
  shows "tq_rep q' a"
proof -
  define N where "N = tq_len q"
  have h: "hrep (tq_heap q) N a" "heap_ord (key_of (tq_tm q)) N a" "0 \<le> tq_cnt q"
    using assms(1) by (simp_all add: tq_rep_def N_def)
  have t: "\<exists>t'. tq_tm q' (a j) = Some t' \<and> tm_index t' = j \<and> tm_at t' = key_of (tq_tm q) (a j)"
    if "j \<in> {1..N}" for j
    using hrep_active [OF h(1) that] assms(4) [of "a j"] that
    by (fastforce simp: N_def tq_tm_def key_of_def)
  then have key: "key_of (tq_tm q') (a j) = key_of (tq_tm q) (a j)" if "j \<in> {1..N}" for j
    using t [OF that] by (auto simp: key_of_def)
  have "hrep (tq_heap q') N a"
    using h(1) t assms(3) by (fastforce simp: hrep_def tq_tm_def)
  moreover have "heap_ord (key_of (tq_tm q')) N a"
    unfolding heap_ord_def
  proof (intro allI impI)
    fix j assume j: "2 \<le> j \<and> j \<le> N"
    then have r: "j \<in> {1..N}" "j div 2 \<in> {1..N}" by auto
    show "key_of (tq_tm q') (a (j div 2)) \<le> key_of (tq_tm q') (a j)"
      unfolding key [OF r(1)] key [OF r(2)] using h(2) j by (simp add: heap_ord_def)
  qed
  ultimately show ?thesis using h(3) assms(2) by (simp add: tq_rep_def N_def)
qed

lemma tq_inv_upd:
  assumes "tq_inv q" "\<And>t. tm_index (f t) = tm_index t \<and> tm_at (f t) = tm_at t"
  shows "tq_inv (tq_upd i f q)"
proof -
  obtain a where a: "tq_rep q a" "tq_active q = a ` {1..tq_len q}" using assms(1) by (auto simp: tq_inv_def)
  have "tq_rep (tq_upd i f q) a"
    by (rule tq_rep_cong [OF a(1)]) (use assms(2) in \<open>auto split: if_splits\<close>)
  moreover have "tq_active (tq_upd i f q) = tq_active q"
    using assms(2) by (auto simp: tq_active_def)
  ultimately show ?thesis using a(2) by (auto simp: tq_inv_def)
qed

lemma tq_inv_erase:
  assumes "tq_inv q" "i \<notin> tq_active q"
  shows "tq_inv (tq_erase i q)"
proof -
  obtain a where a: "tq_rep q a" "tq_active q = a ` {1..tq_len q}" using assms(1) by (auto simp: tq_inv_def)
  have "tq_rep (tq_erase i q) a"
    by (rule tq_rep_cong [OF a(1)]) (use assms(2) a(2) in \<open>auto split: if_splits\<close>)
  moreover have "tq_active (tq_erase i q) = tq_active q"
    using assms(2) by (auto simp: tq_active_def)
  ultimately show ?thesis using a(2) by (auto simp: tq_inv_def)
qed

section \<open>Pending watchers\<close>

definition pend_ok :: "ev \<Rightarrow> bool" where
  "pend_ok s \<longleftrightarrow>
     (\<forall>w p r. w_get s w = Some (p, r) \<and> p \<noteq> 0 \<longrightarrow> p \<le> length (pendings s) \<and> pendings s ! (p - 1) = Some w) \<and>
     (\<forall>j w. j < length (pendings s) \<and> pendings s ! j = Some w \<longrightarrow> (\<exists>r. w_get s w = Some (j + 1, r)))"

lemma w_get_simps [simp]:
  "w_get (w_set w p r s) v = (if v = w then map_option (\<lambda>_. (p, r)) (w_get s w) else w_get s v)"
  "w_get (s\<lparr>pendings := ps\<rparr>) = w_get s"
  by (auto simp: w_get_def w_set_def option.map_comp comp_def fun_eq_iff split: watcher.splits)

lemma w_set_simps [simp]:
  "pendings (w_set w p r s) = pendings s" "steady_clk (w_set w p r s) = steady_clk s"
  "system_clk (w_set w p r s) = system_clk s" "system_now (w_set w p r s) = system_now s"
  by (auto simp: w_set_def split: watcher.splits)

lemma pend_ok_cong: "pendings s' = pendings s \<Longrightarrow> w_get s' = w_get s \<Longrightarrow> pend_ok s' = pend_ok s"
  by (simp add: pend_ok_def)

lemma w_set_same:
  assumes "w_get s w = Some (p, r)"
  shows "w_set w p r s = s"
proof (cases w)
  case (WTimer i)
  then obtain t where "tq_tm (timer_q s) i = Some t" "tm_pending t = p" "tm_revents t = r"
    using assms by (auto simp: w_get_def)
  then have "tq_upd i (\<lambda>t. t\<lparr>tm_pending := p, tm_revents := r\<rparr>) (timer_q s) = timer_q s"
    by (intro tq_upd_same) auto
  then show ?thesis using WTimer by (simp add: w_set_def)
next
  case (WPeriodic i)
  then obtain t where "tq_tm (periodic_q s) i = Some t" "tm_pending t = p" "tm_revents t = r"
    using assms by (auto simp: w_get_def)
  then have "tq_upd i (\<lambda>t. t\<lparr>tm_pending := p, tm_revents := r\<rparr>) (periodic_q s) = periodic_q s"
    by (intro tq_upd_same) auto
  then show ?thesis using WPeriodic by (simp add: w_set_def)
next
  case (WIo i)
  then obtain t where "io_mgr s i = Some t" "io_pending t = p" "io_revents t = r"
    using assms by (auto simp: w_get_def)
  then have "(io_mgr s)(i := map_option (\<lambda>w. w\<lparr>io_pending := p, io_revents := r\<rparr>) (io_mgr s i)) = io_mgr s"
    by (intro fun_upd_idem) simp
  then show ?thesis using WIo by (simp add: w_set_def)
qed

lemma feed_event_ok:
  assumes ok: "pend_ok s" and w: "w_get s w = Some (p, r)"
  shows "\<exists>p' ps. feed_event w e s = Inr (w_set w p' (or r e) (s\<lparr>pendings := ps\<rparr>)) \<and> p' \<noteq> 0 \<and>
           pend_ok (w_set w p' (or r e) (s\<lparr>pendings := ps\<rparr>))"
proof (cases "p = 0")
  case True
  let ?s = "w_set w (length (pendings s) + 1) (or r e) (s\<lparr>pendings := pendings s @ [Some w]\<rparr>)"
  have "pend_ok ?s" unfolding pend_ok_def
  proof (intro conjI allI impI)
    fix v q t assume "w_get ?s v = Some (q, t) \<and> q \<noteq> 0"
    then have "v = w \<and> q = length (pendings s) + 1 \<or>
        q - 1 < length (pendings s) \<and> q \<le> length (pendings s) \<and> pendings s ! (q - 1) = Some v"
      using ok w by (fastforce simp: pend_ok_def split: if_splits)
    then show "q \<le> length (pendings ?s)" "pendings ?s ! (q - 1) = Some v"
      by (auto simp: nth_append)
  next
    fix j v assume "j < length (pendings ?s) \<and> pendings ?s ! j = Some v"
    then show "\<exists>t. w_get ?s v = Some (j + 1, t)"
      using ok w True by (fastforce simp: pend_ok_def nth_append less_Suc_eq split: if_splits)
  qed
  then show ?thesis using True w
    by (intro exI [of _ "length (pendings s) + 1"] exI [of _ "pendings s @ [Some w]"])
      (simp add: feed_event_def w_deref_def)
next
  case False
  have "pend_ok (w_set w p (or r e) (s\<lparr>pendings := pendings s\<rparr>))" unfolding pend_ok_def
  proof (intro conjI allI impI)
    fix v q t assume "w_get (w_set w p (or r e) (s\<lparr>pendings := pendings s\<rparr>)) v = Some (q, t) \<and> q \<noteq> 0"
    then show "q \<le> length (pendings (w_set w p (or r e) (s\<lparr>pendings := pendings s\<rparr>)))"
      "pendings (w_set w p (or r e) (s\<lparr>pendings := pendings s\<rparr>)) ! (q - 1) = Some v"
      using ok w by (auto simp: pend_ok_def split: if_splits)
  next
    fix j v
    assume "j < length (pendings (w_set w p (or r e) (s\<lparr>pendings := pendings s\<rparr>))) \<and>
        pendings (w_set w p (or r e) (s\<lparr>pendings := pendings s\<rparr>)) ! j = Some v"
    then show "\<exists>t. w_get (w_set w p (or r e) (s\<lparr>pendings := pendings s\<rparr>)) v = Some (j + 1, t)"
      using ok w by (fastforce simp: pend_ok_def)
  qed
  then show ?thesis using False w
    by (intro exI [of _ p] exI [of _ "pendings s"]) (simp add: feed_event_def w_deref_def)
qed

lemma clear_pending_ok:
  assumes ok: "pend_ok s" and w: "w_get s w = Some (p, r)"
  shows "\<exists>r' ps. clear_pending w s = Inr (w_set w 0 r' (s\<lparr>pendings := ps\<rparr>)) \<and>
           pend_ok (w_set w 0 r' (s\<lparr>pendings := ps\<rparr>))"
proof (cases "p = 0")
  case True
  then have "w_set w 0 r (s\<lparr>pendings := pendings s\<rparr>) = s" using w_set_same w by simp
  then show ?thesis using True w ok
    by (intro exI [of _ r] exI [of _ "pendings s"]) (simp add: clear_pending_def w_deref_def)
next
  case False
  then have "p \<le> length (pendings s)" and p2: "pendings s ! (p - 1) = Some w"
    using ok w by (auto simp: pend_ok_def)
  with False have p: "p - 1 < length (pendings s)" "pendings s ! (p - 1) = Some w" by linarith+
  let ?s = "w_set w 0 0 (s\<lparr>pendings := (pendings s)[p - 1 := None]\<rparr>)"
  have "pend_ok ?s" unfolding pend_ok_def
  proof (intro conjI allI impI)
    fix v q t assume v: "w_get ?s v = Some (q, t) \<and> q \<noteq> 0"
    then have "v \<noteq> w" "w_get s v = Some (q, t)" by (auto split: if_splits)
    then have "q \<le> length (pendings s)" "pendings s ! (q - 1) = Some v" using ok v by (auto simp: pend_ok_def)
    then show "q \<le> length (pendings ?s)" "pendings ?s ! (q - 1) = Some v"
      using p \<open>v \<noteq> w\<close> by (auto simp: nth_list_update)
  next
    fix j v assume j: "j < length (pendings ?s) \<and> pendings ?s ! j = Some v"
    then have "j \<noteq> p - 1" "pendings s ! j = Some v" using p(1) by (auto simp: nth_list_update split: if_splits)
    then have "\<exists>t. w_get s v = Some (j + 1, t)" using ok j by (simp add: pend_ok_def)
    then obtain t where t: "w_get s v = Some (j + 1, t)" by blast
    then have "v \<noteq> w" using w \<open>j \<noteq> p - 1\<close> by auto
    then show "\<exists>t. w_get ?s v = Some (j + 1, t)" using t by simp
  qed
  then show ?thesis using False w p
    by (intro exI [of _ 0] exI [of _ "(pendings s)[p - 1 := None]"])
      (simp add: clear_pending_def w_deref_def)
qed

section \<open>Starting and stopping\<close>

definition ev_inv :: "ev \<Rightarrow> bool" where
  "ev_inv s \<longleftrightarrow> tq_inv (timer_q s) \<and> pend_ok s \<and>
     (\<forall>i t. tq_tm (timer_q s) i = Some t \<longrightarrow> 0 \<le> tm_repeat t)"

lemma ev_inv_init: "ev_inv ev_init"
  using tq_inv_init
  by (auto simp: ev_inv_def ev_init_def pend_ok_def w_get_def tqueue_init_def tq_tm_def split: watcher.splits)

text \<open>The heap functions do not touch the pending fields.\<close>

definition tpr :: "timer option \<Rightarrow> (nat \<times> 8 word) option" where
  "tpr = map_option (\<lambda>t. (tm_pending t, tm_revents t))"

lemma tpr_idx0: "idx0 x = idx0 y \<Longrightarrow> tpr x = tpr y"
proof (cases y)
  case (Some t)
  assume "idx0 x = idx0 y"
  then obtain k where "x = Some (t\<lparr>tm_index := k\<rparr>)" using idx0_eq_Some [of x t] Some by metis
  then show ?thesis using Some by (simp add: tpr_def)
qed (simp add: idx0_eq_None)

lemma w_get_timer_q:
  assumes "\<And>j. tpr (tq_tm q j) = tpr (tq_tm (timer_q s) j)"
  shows "w_get (s\<lparr>timer_q := q\<rparr>) = w_get s"
  using assms by (auto simp: fun_eq_iff w_get_def tpr_def split: watcher.splits)

lemma timer_start_ok:
  assumes inv: "ev_inv s" and new: "tq_tm (timer_q s) i = None" and "0 \<le> rep"
  shows "\<exists>q k. timer_start i after rep policy s = Inr (tq_cnt (timer_q s) + 1, s\<lparr>timer_q := q\<rparr>) \<and>
           ev_inv (s\<lparr>timer_q := q\<rparr>) \<and> tq_active q = insert i (tq_active (timer_q s)) \<and> k \<noteq> 0 \<and>
           tq_tm q i = Some (timer_new\<lparr>tm_at := steady_clk s + after, tm_repeat := rep,
              tm_policy := policy, tm_index := k\<rparr>) \<and>
           (\<forall>j. j \<noteq> i \<longrightarrow> idx0 (tq_tm q j) = idx0 (tq_tm (timer_q s) j))"
proof -
  let ?t = "timer_new\<lparr>tm_at := steady_clk s + after, tm_repeat := rep, tm_policy := policy\<rparr>"
  have tq: "tq_inv (timer_q s)" and pend: "pend_ok s"
    and reps: "\<And>j t. tq_tm (timer_q s) j = Some t \<Longrightarrow> 0 \<le> tm_repeat t"
    using inv by (simp_all add: ev_inv_def)
  have "tm_index ?t = 0" by (simp add: timer_new_def)
  then obtain q where q: "tq_push i ?t (timer_q s) = Inr (tq_cnt (timer_q s) + 1, q)" "tq_inv q"
      "tq_active q = insert i (tq_active (timer_q s))"
      "\<And>j. idx0 (tq_tm q j) = idx0 (((tq_tm (timer_q s))(i \<mapsto> ?t)) j)"
    using tq_push_ok [OF tq new] by blast
  obtain k where k: "tq_tm q i = Some (?t\<lparr>tm_index := k\<rparr>)"
    using q(4) [of i] idx0_eq_Some [of "tq_tm q i" ?t] by auto
  have "i \<in> tq_active q" using q(3) by blast
  then have k0: "k \<noteq> 0" using k by (simp add: tq_active_def)
  have "tpr (tq_tm q j) = tpr (tq_tm (timer_q s) j)" if "j \<noteq> i" for j
    using q(4) [of j] that by (intro tpr_idx0) simp
  then have wg: "w_get (s\<lparr>timer_q := q\<rparr>) w = w_get s w" if "w \<noteq> WTimer i" for w
    using that by (auto simp: w_get_def tpr_def split: watcher.splits)
  have wi: "w_get (s\<lparr>timer_q := q\<rparr>) (WTimer i) = Some (0, 0)" "w_get s (WTimer i) = None"
    using k new by (simp_all add: w_get_def timer_new_def)
  have "pend_ok (s\<lparr>timer_q := q\<rparr>)" unfolding pend_ok_def
  proof (intro conjI allI impI)
    fix w p r assume w: "w_get (s\<lparr>timer_q := q\<rparr>) w = Some (p, r) \<and> p \<noteq> 0"
    then have "w_get s w = Some (p, r)" using wg [of w] wi by (cases "w = WTimer i") auto
    then show "p \<le> length (pendings (s\<lparr>timer_q := q\<rparr>))" "pendings (s\<lparr>timer_q := q\<rparr>) ! (p - 1) = Some w"
      using pend w by (auto simp: pend_ok_def)
  next
    fix j w assume "j < length (pendings (s\<lparr>timer_q := q\<rparr>)) \<and> pendings (s\<lparr>timer_q := q\<rparr>) ! j = Some w"
    then have "\<exists>r. w_get s w = Some (j + 1, r)" using pend by (simp add: pend_ok_def)
    moreover from this have "w \<noteq> WTimer i" using wi by auto
    ultimately show "\<exists>r. w_get (s\<lparr>timer_q := q\<rparr>) w = Some (j + 1, r)" using wg by simp
  qed
  moreover have "0 \<le> tm_repeat u" if u: "tq_tm q j = Some u" for j u
  proof (cases "j = i")
    case True
    then show ?thesis using u k assms(3) by auto
  next
    case False
    then obtain v where "tq_tm (timer_q s) j = Some v" "idx0 (Some u) = idx0 (Some v)"
      using idx0_partner [OF q(4) [of j] u] False by auto
    then show ?thesis using reps idx0_fields by metis
  qed
  ultimately show ?thesis
    using q k k0 new assms(3)
    by (intro exI [of _ q] exI [of _ k]) (simp add: timer_start_def ev_inv_def)
qed

lemma w_set_timer:
  "w_set (WTimer i) p r (s\<lparr>pendings := ps\<rparr>) =
     s\<lparr>timer_q := tq_upd i (\<lambda>t. t\<lparr>tm_pending := p, tm_revents := r\<rparr>) (timer_q s), pendings := ps\<rparr>"
  by (simp add: w_set_def)

lemma tq_active_upd:
  "(\<And>t. tm_index (f t) = tm_index t) \<Longrightarrow> tq_active (tq_upd i f q) = tq_active q"
  by (auto simp: tq_active_def)

lemma timer_stop_w_ok:
  assumes inv: "ev_inv s" and t: "tq_tm (timer_q s) i = Some t"
  shows "\<exists>q ps r. timer_stop_w i s = Inr (s\<lparr>timer_q := q, pendings := ps\<rparr>) \<and>
           ev_inv (s\<lparr>timer_q := q, pendings := ps\<rparr>) \<and> tq_active q = tq_active (timer_q s) - {i} \<and>
           tq_tm q i = Some (t\<lparr>tm_pending := 0, tm_revents := r, tm_index := 0,
             tm_at := if tm_index t = 0 then tm_at t else tm_at t - steady_clk s\<rparr>) \<and>
           (\<forall>j. j \<noteq> i \<longrightarrow> idx0 (tq_tm q j) = idx0 (tq_tm (timer_q s) j)) \<and>
           (\<forall>j. j \<noteq> i \<longrightarrow> j \<notin> tq_active (timer_q s) \<longrightarrow> tq_tm q j = tq_tm (timer_q s) j)"
proof -
  have tq: "tq_inv (timer_q s)" and pend: "pend_ok s"
    and reps: "\<And>j t. tq_tm (timer_q s) j = Some t \<Longrightarrow> 0 \<le> tm_repeat t"
    using inv by (simp_all add: ev_inv_def)
  have "w_get s (WTimer i) = Some (tm_pending t, tm_revents t)" using t by (simp add: w_get_def)
  then obtain r ps where c: "clear_pending (WTimer i) s = Inr (w_set (WTimer i) 0 r (s\<lparr>pendings := ps\<rparr>))"
      "pend_ok (w_set (WTimer i) 0 r (s\<lparr>pendings := ps\<rparr>))"
    using clear_pending_ok [OF pend] by blast
  let ?f = "\<lambda>t. t\<lparr>tm_pending := 0, tm_revents := r\<rparr>"
  define q1 where "q1 = tq_upd i ?f (timer_q s)"
  define s1 where "s1 = s\<lparr>timer_q := q1, pendings := ps\<rparr>"
  have s1: "clear_pending (WTimer i) s = Inr s1" "pend_ok s1" "timer_q s1 = q1" "steady_clk s1 = steady_clk s"
    using c by (simp_all add: w_set_timer s1_def q1_def)
  have q1: "tq_inv q1" "tq_active q1 = tq_active (timer_q s)" "tq_tm q1 i = Some (?f t)"
      "\<And>j. j \<noteq> i \<Longrightarrow> tq_tm q1 j = tq_tm (timer_q s) j"
    using tq_inv_upd [OF tq] t by (simp_all add: q1_def tq_active_upd)
  show ?thesis
  proof (cases "tm_index t = 0")
    case True
    have "timer_stop_w i s = Inr s1"
      using s1 q1(3) True by (simp add: timer_stop_w_def tm_deref_def)
    moreover have "i \<notin> tq_active (timer_q s)" using True t by (simp add: tq_active_def)
    moreover have "ev_inv s1" using s1(2,3) q1(1) reps t
      by (auto simp: ev_inv_def q1_def split: if_splits)
    ultimately show ?thesis using True q1(2-4)
      by (intro exI [of _ q1] exI [of _ ps] exI [of _ r]) (simp add: s1_def)
  next
    case False
    have ne: "tm_index (?f t) \<noteq> 0" using False by simp
    obtain q2 a where q2: "tq_remove (tm_index (?f t)) i q1 = Inr q2" "tq_rep q2 a"
        "a ` {1..tq_len q2} = tq_active q1 - {i}" "tq_tm q2 i = Some (?f t)"
        "\<And>j. idx0 (tq_tm q2 j) = idx0 (tq_tm q1 j)"
        "\<And>j. j \<notin> tq_active q1 - {i} \<Longrightarrow> tq_tm q2 j = tq_tm q1 j"
      using tq_remove_ok [OF q1(1,3) ne] by blast
    let ?g = "\<lambda>u. u\<lparr>tm_at := tm_at u - steady_clk s, tm_index := 0\<rparr>"
    define q where "q = tq_upd i ?g q2"
    have run: "timer_stop_w i s = Inr (s1\<lparr>timer_q := q\<rparr>)"
      using s1 q1(3) False q2(1) by (simp add: timer_stop_w_def tm_deref_def q_def)
    have act: "tq_active q = tq_active q1 - {i}"
    proof (rule set_eqI)
      fix j
      show "j \<in> tq_active q \<longleftrightarrow> j \<in> tq_active q1 - {i}"
      proof (cases "j \<in> tq_active q1 - {i}")
        case True
        then have "j \<in> tq_active q2" using tq_rep_sub [OF q2(2)] q2(3) by auto
        then show ?thesis using True by (auto simp: tq_active_def q_def)
      next
        case False
        then show ?thesis using q2(6) [OF False] by (cases "j = i") (auto simp: tq_active_def q_def q1(3))
      qed
    qed
    have "tq_rep q a" unfolding q_def
      by (rule tq_rep_cong [OF q2(2)]) (use q2(3) in auto)
    moreover have "tq_len q = tq_len q2" by (simp add: q_def)
    ultimately have inv': "tq_inv q" using act q2(3) unfolding tq_inv_def by metis
    have "tpr (tq_tm q j) = tpr (tq_tm q1 j)" for j
      using tpr_idx0 [OF q2(5), of j] q2(4) q1(3) by (auto simp: q_def tpr_def)
    then have "w_get (s1\<lparr>timer_q := q\<rparr>) = w_get s1" using s1(3) by (intro w_get_timer_q) simp
    then have pend': "pend_ok (s1\<lparr>timer_q := q\<rparr>)" using s1(2) pend_ok_cong [of "s1\<lparr>timer_q := q\<rparr>" s1] by simp
    have idx: "idx0 (tq_tm q j) = idx0 (tq_tm (timer_q s) j)" if "j \<noteq> i" for j
      using q2(5) [of j] q1(4) [OF that] that by (simp add: q_def)
    have "0 \<le> tm_repeat u" if u: "tq_tm q j = Some u" for j u
    proof (cases "j = i")
      case True
      then show ?thesis using u q2(4) reps [OF t] by (auto simp: q_def)
    next
      case False
      then obtain v where "tq_tm (timer_q s) j = Some v" "idx0 (Some u) = idx0 (Some v)"
        using idx0_partner [OF idx [OF False] u] by auto
      then show ?thesis using reps idx0_fields by metis
    qed
    then have "ev_inv (s1\<lparr>timer_q := q\<rparr>)" using inv' pend' by (simp add: ev_inv_def)
    moreover have "s1\<lparr>timer_q := q\<rparr> = s\<lparr>timer_q := q, pendings := ps\<rparr>" by (simp add: s1_def)
    ultimately show ?thesis
      using run act q1 q2(4,6) False idx
      by (intro exI [of _ q] exI [of _ ps] exI [of _ r]) (simp add: q_def)
  qed
qed

section \<open>When a timer is due next\<close>

lemma align_at_spec:
  assumes "0 < rep"
  shows "\<exists>n. align_at rep now at = at + int n * rep \<and> now \<le> align_at rep now at \<and>
           (at < now \<longrightarrow> align_at rep now at < now + rep) \<and> (now \<le> at \<longrightarrow> align_at rep now at = at)"
  using assms
proof (induction rep now at rule: align_at.induct)
  case (1 rep now at)
  show ?case
  proof (cases "at < now")
    case True
    then obtain n where n: "align_at rep now (at + rep) = at + rep + int n * rep"
        "now \<le> align_at rep now (at + rep)"
        "at + rep < now \<longrightarrow> align_at rep now (at + rep) < now + rep"
        "now \<le> at + rep \<longrightarrow> align_at rep now (at + rep) = at + rep"
      using "1.IH" "1.prems" by blast
    have "align_at rep now at = align_at rep now (at + rep)"
      using True "1.prems" by (simp add: align_at.simps [of rep now at])
    then show ?thesis using n True by (intro exI [of _ "Suc n"]) (auto simp: algebra_simps)
  next
    case False
    then show ?thesis by (intro exI [of _ 0]) (simp add: align_at.simps [of rep now at])
  qed
qed

text \<open>
  The expiry time of a timer once it is no longer due at \<open>clk\<close>: the first later multiple
  of its interval for the policies that keep the phase, one interval after \<open>clk\<close> for a
  timer that is late by more than an interval under the default policy.
\<close>

definition keeps_phase :: "timer \<Rightarrow> bool" where
  "keeps_phase t \<longleftrightarrow> tm_policy t = P_ALIGN \<or> tm_policy t = P_SPIN"

definition next_at :: "int \<Rightarrow> timer \<Rightarrow> int" where
  "next_at clk t =
     (if tm_at t > clk then tm_at t
      else if keeps_phase t then tm_at t + ((clk - tm_at t) div tm_repeat t + 1) * tm_repeat t
      else if tm_at t + tm_repeat t > clk then tm_at t + tm_repeat t
      else clk + tm_repeat t)"

lemma phase_unique:
  assumes "0 < rep" "clk < at + n * rep" "at + n * rep \<le> clk + rep"
  shows "at + n * rep = at + ((clk - at) div rep + 1) * (rep::int)"
proof -
  have "(clk - at) div rep = n - 1"
  proof (rule int_div_pos_eq [where r = "clk - at - (n - 1) * rep"])
    show "0 \<le> clk - at - (n - 1) * rep" "clk - at - (n - 1) * rep < rep"
      using assms(2,3) by (simp_all add: algebra_simps)
  qed (simp add: algebra_simps)
  then show ?thesis by simp
qed

definition step_timer :: "int \<Rightarrow> timer \<Rightarrow> timer result" where
  "step_timer clk t =
     (let t1 = t\<lparr>tm_at := tm_at t + tm_repeat t\<rparr>
      in if tm_at t1 < clk then reschedule clk t1 else Inr t1)"

lemma step_timer_ok:
  assumes rep: "0 < tm_repeat t" and due: "tm_at t \<le> clk"
  shows "\<exists>at'. step_timer clk t = Inr (t\<lparr>tm_at := at'\<rparr>) \<and> tm_at t < at' \<and>
           next_at clk (t\<lparr>tm_at := at'\<rparr>) = next_at clk t"
proof -
  let ?rep = "tm_repeat t"
  have kp: "keeps_phase (t\<lparr>tm_at := x\<rparr>) = keeps_phase t" for x by (simp add: keeps_phase_def)
  have phase: "next_at clk (t\<lparr>tm_at := tm_at t + int n * ?rep\<rparr>) = next_at clk t"
    if n: "tm_at t + int n * ?rep \<le> clk + ?rep" and k: "keeps_phase t" for n
  proof (cases "tm_at t + int n * ?rep > clk")
    case True
    then have "next_at clk (t\<lparr>tm_at := tm_at t + int n * ?rep\<rparr>) = tm_at t + int n * ?rep"
      by (simp add: next_at_def)
    also have "\<dots> = next_at clk t"
      unfolding phase_unique [OF rep True n] using k due by (simp add: next_at_def)
    finally show ?thesis .
  next
    case False
    have d: "(clk - (tm_at t + int n * ?rep)) div ?rep = (clk - tm_at t) div ?rep - int n"
    proof -
      have eq: "clk - (tm_at t + int n * ?rep) = (clk - tm_at t) + (- int n) * ?rep" by simp
      show ?thesis unfolding eq using rep by (subst div_mult_self1) simp_all
    qed
    have "next_at clk (t\<lparr>tm_at := tm_at t + int n * ?rep\<rparr>) =
        tm_at t + int n * ?rep + ((clk - (tm_at t + int n * ?rep)) div ?rep + 1) * ?rep"
      using False k kp by (simp add: next_at_def)
    also have "\<dots> = tm_at t + ((clk - tm_at t) div ?rep + 1) * ?rep"
      unfolding d by (simp add: left_diff_distrib distrib_right)
    finally show ?thesis using k due by (simp add: next_at_def)
  qed
  show ?thesis
  proof (cases "tm_at t + ?rep < clk")
    case False
    then have "next_at clk (t\<lparr>tm_at := tm_at t + ?rep\<rparr>) = next_at clk t"
      using phase [of 1] due rep kp
      by (cases "keeps_phase t") (auto simp: next_at_def)
    then show ?thesis using False rep
      by (intro exI [of _ "tm_at t + ?rep"]) (simp add: step_timer_def)
  next
    case True
    consider (align) "tm_policy t = P_ALIGN" | (spin) "tm_policy t = P_SPIN" | (none) "\<not> keeps_phase t"
      by (auto simp: keeps_phase_def)
    then show ?thesis
    proof cases
      case align
      obtain n where n: "align_at ?rep clk (tm_at t + ?rep) = tm_at t + ?rep + int n * ?rep"
          "align_at ?rep clk (tm_at t + ?rep) < clk + ?rep" "clk \<le> align_at ?rep clk (tm_at t + ?rep)"
        using align_at_spec [OF rep] True by blast
      then have eq: "align_at ?rep clk (tm_at t + ?rep) = tm_at t + int (Suc n) * ?rep"
        by (simp add: algebra_simps)
      then have "next_at clk (t\<lparr>tm_at := align_at ?rep clk (tm_at t + ?rep)\<rparr>) = next_at clk t"
        unfolding eq using n(2) [unfolded eq] align by (intro phase) (simp_all add: keeps_phase_def)
      moreover have "tm_at t < align_at ?rep clk (tm_at t + ?rep)" using n(3) True rep by linarith
      ultimately show ?thesis using True align rep
        by (intro exI [of _ "align_at ?rep clk (tm_at t + ?rep)"])
          (simp add: step_timer_def reschedule_def)
    next
      case spin
      then have "next_at clk (t\<lparr>tm_at := tm_at t + ?rep\<rparr>) = next_at clk t"
        using phase [of 1] True rep due by (simp add: keeps_phase_def)
      then show ?thesis using True spin rep
        by (intro exI [of _ "tm_at t + ?rep"])
          (simp add: step_timer_def reschedule_def P_ALIGN_def P_SPIN_def)
    next
      case none
      then have "next_at clk (t\<lparr>tm_at := clk\<rparr>) = next_at clk t"
        using True rep kp due by (simp add: next_at_def)
      then show ?thesis using True none rep
        by (intro exI [of _ clk]) (simp add: step_timer_def reschedule_def keeps_phase_def)
    qed
  qed
qed

lemma next_at_later: "0 < tm_repeat t \<Longrightarrow> clk < next_at clk t"
proof -
  assume rep: "0 < tm_repeat t"
  have "(clk - tm_at t) mod tm_repeat t < tm_repeat t" using rep by simp
  moreover have "clk - tm_at t = (clk - tm_at t) div tm_repeat t * tm_repeat t + (clk - tm_at t) mod tm_repeat t"
    by simp
  moreover have "((clk - tm_at t) div tm_repeat t + 1) * tm_repeat t =
      (clk - tm_at t) div tm_repeat t * tm_repeat t + tm_repeat t" by (simp add: distrib_right)
  ultimately have "clk < tm_at t + ((clk - tm_at t) div tm_repeat t + 1) * tm_repeat t" by linarith
  then show ?thesis using rep unfolding next_at_def by (simp split: if_split)
qed

section \<open>Expiring timers\<close>

text \<open>What one round of \<open>timers_reify\<close> may do to a timer.\<close>

definition queued :: "timer \<Rightarrow> bool" where
  "queued t \<longleftrightarrow> tm_pending t \<noteq> 0 \<and> and (tm_revents t) EV_TIMER \<noteq> 0"

definition tm_evolves :: "int \<Rightarrow> timer \<Rightarrow> timer \<Rightarrow> bool" where
  "tm_evolves clk t t' \<longleftrightarrow>
     (if tm_index t = 0 then t' = t
      else tm_repeat t' = tm_repeat t \<and> tm_policy t' = tm_policy t \<and>
        (if tm_index t' = 0 then tm_repeat t = 0 \<and> tm_at t \<le> clk \<and> queued t' \<and> tm_at t' = tm_at t - clk
         else next_at clk t' = next_at clk t \<and>
           (if tm_at t' = tm_at t then tm_pending t' = tm_pending t \<and> tm_revents t' = tm_revents t
            else tm_repeat t \<noteq> 0 \<and> tm_at t \<le> clk \<and> tm_at t < tm_at t' \<and> queued t')))"

lemma tm_evolves_refl: "tm_evolves clk t t"
  by (simp add: tm_evolves_def)

lemma tm_evolves_index: "tm_evolves clk t (t\<lparr>tm_index := k\<rparr>)" if "tm_index t \<noteq> 0" "k \<noteq> 0"
  using that by (simp add: tm_evolves_def next_at_def keeps_phase_def)

lemma tm_evolves_trans:
  assumes "tm_evolves clk t u" "tm_evolves clk u v"
  shows "tm_evolves clk t v"
  using assms unfolding tm_evolves_def queued_def by (auto split: if_splits)

text \<open>Between two states with the same clock that differ only in timers and pendings.\<close>

definition expires :: "ev \<Rightarrow> ev \<Rightarrow> bool" where
  "expires s s' \<longleftrightarrow> (\<exists>q ps. s' = s\<lparr>timer_q := q, pendings := ps\<rparr>) \<and>
     (\<forall>i. rel_option (tm_evolves (steady_clk s)) (tq_tm (timer_q s) i) (tq_tm (timer_q s') i))"

lemma expires_refl: "expires s s"
  by (auto simp: expires_def tm_evolves_refl option.rel_refl intro!: exI [of _ "timer_q s"] exI [of _ "pendings s"])

lemma expires_trans:
  assumes "expires s s'" "expires s' s''"
  shows "expires s s''"
proof -
  obtain q ps where s': "s' = s\<lparr>timer_q := q, pendings := ps\<rparr>" using assms(1) by (auto simp: expires_def)
  then obtain q2 ps2 where s'': "s'' = s\<lparr>timer_q := q2, pendings := ps2\<rparr>"
    using assms(2) by (auto simp: expires_def)
  have clk: "steady_clk s' = steady_clk s" using s' by simp
  have "rel_option (tm_evolves (steady_clk s)) (tq_tm (timer_q s) i) (tq_tm (timer_q s'') i)" for i
  proof -
    have "rel_option (tm_evolves (steady_clk s)) (tq_tm (timer_q s) i) (tq_tm (timer_q s') i)"
      "rel_option (tm_evolves (steady_clk s)) (tq_tm (timer_q s') i) (tq_tm (timer_q s'') i)"
      using assms clk by (simp_all add: expires_def)
    then show ?thesis
      by (cases "tq_tm (timer_q s) i"; cases "tq_tm (timer_q s') i"; cases "tq_tm (timer_q s'') i")
        (auto intro: tm_evolves_trans)
  qed
  then show ?thesis using s'' by (auto simp: expires_def)
qed

text \<open>How far the timers in the heap are behind, plus their number.\<close>

definition lag :: "ev \<Rightarrow> nat" where
  "lag s = (\<Sum>i \<in> tq_active (timer_q s). nat (steady_clk s + 1 - key_of (tq_tm (timer_q s)) i))"

lemma tq_inv_finite: "tq_inv q \<Longrightarrow> finite (tq_active q)"
  by (auto simp: tq_inv_def)

lemma tq_root:
  assumes "tq_inv q" "tq_cnt q \<noteq> 0"
  shows "\<exists>i t. hnode (tq_heap q) 1 = Inr (i, t) \<and> tq_tm q i = Some t \<and> tm_index t = 1 \<and> i \<in> tq_active q \<and>
           (\<forall>j \<in> tq_active q. tm_at t \<le> key_of (tq_tm q) j)"
proof -
  obtain a where a: "tq_rep q a" "tq_active q = a ` {1..tq_len q}" using assms(1) by (auto simp: tq_inv_def)
  have one: "1 \<in> {1..tq_len q}" using a(1) assms(2) by (auto simp: tq_rep_def)
  obtain t where t: "tq_tm q (a 1) = Some t" "tm_index t = 1" "hnode (tq_heap q) 1 = Inr (a 1, t)"
    using tq_repD [OF a(1) one] by blast
  have "key_of (tq_tm q) (a 1) \<le> key_of (tq_tm q) j" if "j \<in> tq_active q" for j
    using that a heap_root [of "key_of (tq_tm q)" "tq_len q" a] by (auto simp: tq_rep_def)
  then show ?thesis using t a(2) one by (intro exI [of _ "a 1"] exI [of _ t]) (auto simp: key_of_def)
qed

lemma tq_empty: "tq_inv q \<Longrightarrow> tq_cnt q = 0 \<Longrightarrow> tq_active q = {}"
  by (auto simp: tq_inv_def)

text \<open>Raising the key of the root and moving it down.\<close>

lemma tq_down_root:
  assumes inv: "tq_inv q" and t: "tq_tm q i = Some t" "tm_index t = 1"
    and up: "tm_index t' = 1" "tm_at t \<le> tm_at t'"
  shows "\<exists>h. down_heap (tq_len q) 1 (tq_heap (tq_upd i (\<lambda>_. t') q)) = Inr h \<and>
           tq_inv (q\<lparr>tq_heap := h\<rparr>) \<and> tq_active (q\<lparr>tq_heap := h\<rparr>) = tq_active q \<and>
           (\<forall>j. idx0 (hp_tm h j) = idx0 (((tq_tm q)(i \<mapsto> t')) j)) \<and>
           (\<forall>j. j \<notin> tq_active q \<longrightarrow> hp_tm h j = tq_tm q j)"
proof -
  obtain a where a: "tq_rep q a" "tq_active q = a ` {1..tq_len q}" using inv by (auto simp: tq_inv_def)
  define N where "N = tq_len q"
  have cnt: "tq_cnt q = int N" using a(1) by (simp add: tq_rep_def N_def)
  have rep: "hrep (tq_heap q) N a" "heap_ord (key_of (tq_tm q)) N a" using a(1) by (simp_all add: tq_rep_def N_def)
  have "i \<in> tq_active q" using t by (auto simp: tq_active_def)
  then obtain j where j: "j \<in> {1..N}" "a j = i" using a(2) by (auto simp: N_def)
  then have "j = 1" using tq_repD [OF a(1), of j] t by (simp add: N_def)
  then have one: "1 \<in> {1..N}" "a 1 = i" using j by auto
  define h where "h = tq_heap (tq_upd i (\<lambda>_. t') q)"
  have htm: "hp_tm h = (tq_tm q)(i \<mapsto> t')" using t(1) by (simp add: h_def tq_upd_def tq_tm_def)
  have harr: "hp_arr h = hp_arr (tq_heap q)" by (simp add: h_def)
  have ne: "a k \<noteq> i" if "k \<in> {1..N}" "k \<noteq> 1" for k
    using inj_onD [of a "{1..N}" k 1] rep(1) that one by (auto simp: hrep_def)
  have "hp_arr h ! k = Some (a k) \<and> map_option tm_index (hp_tm h (a k)) = Some k" if "k \<in> {1..N}" for k
    using rep(1) that ne [OF that] one(2) up(1) by (cases "k = 1") (auto simp: hrep_def htm harr tq_tm_def)
  then have hr: "hrep h N a" using rep(1) by (simp add: hrep_def harr)
  have key: "key_of (hp_tm h) (a k) = (if k = 1 then tm_at t' else key_of (tq_tm q) (a k))" if "k \<in> {1..N}" for k
    using ne [OF that] one(2) by (auto simp: key_of_def htm)
  have ordq: "key_of (tq_tm q) (a (k div 2)) \<le> key_of (tq_tm q) (a k)" if "2 \<le> k" "k \<le> N" for k
    using rep(2) that by (simp add: heap_ord_def)
  have "down_ok (key_of (hp_tm h)) N a 1"
    unfolding down_ok_def bridged_def
  proof (intro conjI allI impI)
    fix k assume k: "2 \<le> k \<and> k \<le> N \<and> k div 2 \<noteq> 1"
    then have r: "k \<in> {1..N}" "k div 2 \<in> {1..N}" "k \<noteq> 1" by auto
    show "key_of (hp_tm h) (a (k div 2)) \<le> key_of (hp_tm h) (a k)"
      unfolding key [OF r(1)] key [OF r(2)] using ordq [of k] k r(3) by simp
  qed auto
  moreover have "hp_arr h ! 1 = Some (a 1)" using hr one by (simp add: hrep_def)
  ultimately obtain h' where h': "down_heap N 1 h = Inr h'" "restored N a h h'"
    using down_heap_ok [OF hrep_hole [OF hr] one(1)] by blast
  obtain a' where a': "tq_rep \<lparr>tq_heap = h', tq_cnt = int N\<rparr> a'" "a' ` {1..N} = a ` {1..N}"
    using restored_tq(1) [OF h'(2)] by blast
  have qe: "q\<lparr>tq_heap := h'\<rparr> = \<lparr>tq_heap = h', tq_cnt = int N\<rparr>" using cnt by simp
  have out: "hp_tm h' k = tq_tm q k" if "k \<notin> tq_active q" for k
  proof -
    have "k \<noteq> i" using that \<open>i \<in> tq_active q\<close> by blast
    moreover have "k \<notin> a ` {1..N}" using that a(2) by (simp add: N_def)
    ultimately show ?thesis using restored_tq(3) [OF h'(2)] by (simp add: htm)
  qed
  have act: "tq_active (q\<lparr>tq_heap := h'\<rparr>) = tq_active q"
  proof
    have "tq_len \<lparr>tq_heap = h', tq_cnt = int N\<rparr> = N" by simp
    then show "tq_active q \<subseteq> tq_active (q\<lparr>tq_heap := h'\<rparr>)"
      unfolding qe using tq_rep_sub [OF a'(1)] a'(2) a(2) by (simp add: N_def)
    show "tq_active (q\<lparr>tq_heap := h'\<rparr>) \<subseteq> tq_active q"
    proof (rule subsetI, rule ccontr)
      fix k assume "k \<in> tq_active (q\<lparr>tq_heap := h'\<rparr>)" "k \<notin> tq_active q"
      then show False using out [of k] by (auto simp: tq_active_def tq_tm_def)
    qed
  qed
  have "tq_inv (q\<lparr>tq_heap := h'\<rparr>)"
    unfolding tq_inv_def act unfolding qe using a' a(2) by (intro exI [of _ a']) (simp add: N_def [symmetric])
  then show ?thesis
    using h' act out restored_tq(2) [OF h'(2)]
    by (intro exI [of _ h']) (simp add: h_def [symmetric] N_def htm)
qed

lemma lag_decreases:
  assumes fin: "finite A" and sub: "B \<subseteq> A" and i: "i \<in> A" "g i < f i \<or> i \<notin> B \<and> 0 < f i"
    and le: "\<And>j. j \<in> B \<Longrightarrow> g j \<le> (f j :: nat)"
  shows "sum g B < sum f A"
proof (cases "i \<in> B")
  case True
  have "sum g B < sum f B"
    using True i le finite_subset [OF sub fin] by (intro sum_strict_mono_ex1) auto
  also have "\<dots> \<le> sum f A" using fin sub by (intro sum_mono2) auto
  finally show ?thesis .
next
  case False
  have pos: "0 < f i" using i(2) by linarith
  have "sum g B \<le> sum f B" using le by (intro sum_mono)
  also have "\<dots> < sum f (insert i B)"
    using False pos finite_subset [OF sub fin] by simp
  also have "\<dots> \<le> sum f A" using fin sub i(1) by (intro sum_mono2) auto
  finally show ?thesis .
qed

text \<open>A timer that is queued with the timer event stays so until its callback.\<close>

lemma feed_timer_ok:
  assumes inv: "ev_inv s" and t: "tq_tm (timer_q s) i = Some t"
  shows "\<exists>q ps t'. feed_event (WTimer i) EV_TIMER s = Inr (s\<lparr>timer_q := q, pendings := ps\<rparr>) \<and>
           ev_inv (s\<lparr>timer_q := q, pendings := ps\<rparr>) \<and> tq_active q = tq_active (timer_q s) \<and>
           tq_tm q i = Some t' \<and> queued t' \<and> tm_index t' = tm_index t \<and> tm_at t' = tm_at t \<and>
           tm_repeat t' = tm_repeat t \<and> tm_policy t' = tm_policy t \<and>
           (\<forall>j. j \<noteq> i \<longrightarrow> tq_tm q j = tq_tm (timer_q s) j)"
proof -
  have wg: "w_get s (WTimer i) = Some (tm_pending t, tm_revents t)" using t by (simp add: w_get_def)
  have pend: "pend_ok s" using inv by (simp add: ev_inv_def)
  obtain p ps where f: "feed_event (WTimer i) EV_TIMER s =
        Inr (w_set (WTimer i) p (or (tm_revents t) EV_TIMER) (s\<lparr>pendings := ps\<rparr>))" "p \<noteq> 0"
      "pend_ok (w_set (WTimer i) p (or (tm_revents t) EV_TIMER) (s\<lparr>pendings := ps\<rparr>))"
    using feed_event_ok [OF pend wg] by blast
  let ?f = "\<lambda>t. t\<lparr>tm_pending := p, tm_revents := or (tm_revents t) EV_TIMER\<rparr>"
  let ?r = "or (tm_revents t) EV_TIMER"
  define q where "q = tq_upd i (\<lambda>t. t\<lparr>tm_pending := p, tm_revents := ?r\<rparr>) (timer_q s)"
  have bit: "and ?r EV_TIMER \<noteq> 0"
  proof -
    have "bit EV_TIMER 7" by (simp add: EV_TIMER_def)
    then have "bit (and ?r EV_TIMER) 7" by (simp add: bit_and_iff bit_or_iff)
    then show ?thesis by auto
  qed
  define t' where "t' = t\<lparr>tm_pending := p, tm_revents := ?r\<rparr>"
  have t': "queued t'" "tm_index t' = tm_index t" "tm_at t' = tm_at t" "tm_repeat t' = tm_repeat t"
      "tm_policy t' = tm_policy t"
    using bit f(2) by (simp_all add: t'_def queued_def)
  have qi: "tq_tm q i = Some t'" "\<And>j. j \<noteq> i \<Longrightarrow> tq_tm q j = tq_tm (timer_q s) j"
    using t by (simp_all add: q_def t'_def)
  have tqi: "tq_inv q" using inv unfolding q_def ev_inv_def by (intro tq_inv_upd) auto
  have act: "tq_active q = tq_active (timer_q s)" unfolding q_def by (intro tq_active_upd) simp
  have eq: "w_set (WTimer i) p ?r (s\<lparr>pendings := ps\<rparr>) = s\<lparr>timer_q := q, pendings := ps\<rparr>"
    by (simp add: w_set_timer q_def)
  have "0 \<le> tm_repeat u" if "tq_tm q j = Some u" for j u
    using that qi t'(4) t inv by (cases "j = i") (auto simp: ev_inv_def)
  then have "ev_inv (s\<lparr>timer_q := q, pendings := ps\<rparr>)"
    using tqi f(3) unfolding eq by (simp add: ev_inv_def)
  then show ?thesis
    using f(1) act qi t' unfolding eq
    by (intro exI [of _ q] exI [of _ ps] exI [of _ t']) blast
qed

lemma timers_step_ok:
  assumes inv: "ev_inv s"
  shows "timers_step s = Inr None \<and> (\<forall>i \<in> tq_active (timer_q s). steady_clk s < key_of (tq_tm (timer_q s)) i) \<or>
         (\<exists>s'. timers_step s = Inr (Some s') \<and> ev_inv s' \<and> expires s s' \<and> lag s' < lag s)"
proof (cases "tq_cnt (timer_q s) = 0")
  case True
  then show ?thesis using tq_empty [of "timer_q s"] inv by (simp add: timers_step_def ev_inv_def)
next
  case cnt: False
  let ?q = "timer_q s" and ?clk = "steady_clk s"
  have tq: "tq_inv ?q" and pend: "pend_ok s"
    and reps: "\<And>j t. tq_tm ?q j = Some t \<Longrightarrow> 0 \<le> tm_repeat t"
    using inv by (simp_all add: ev_inv_def)
  obtain i t where root: "hnode (tq_heap ?q) 1 = Inr (i, t)" "tq_tm ?q i = Some t" "tm_index t = 1"
      "i \<in> tq_active ?q" "\<And>j. j \<in> tq_active ?q \<Longrightarrow> tm_at t \<le> key_of (tq_tm ?q) j"
    using tq_root [OF tq cnt] by blast
  have ki: "key_of (tq_tm ?q) i = tm_at t" using root(2) by (simp add: key_of_def)
  show ?thesis
  proof (cases "tm_at t > ?clk")
    case True
    then show ?thesis using cnt root(1,5) by (fastforce simp: timers_step_def)
  next
    case due: False
    have fin: "finite (tq_active ?q)" using tq_inv_finite [OF tq] .
    show ?thesis
    proof (cases "tm_repeat t = 0")
      case True
      obtain q1 ps1 r where st: "timer_stop_w i s = Inr (s\<lparr>timer_q := q1, pendings := ps1\<rparr>)"
          "ev_inv (s\<lparr>timer_q := q1, pendings := ps1\<rparr>)" "tq_active q1 = tq_active ?q - {i}"
          "tq_tm q1 i = Some (t\<lparr>tm_pending := 0, tm_revents := r, tm_index := 0, tm_at := tm_at t - ?clk\<rparr>)"
          "\<And>j. j \<noteq> i \<Longrightarrow> idx0 (tq_tm q1 j) = idx0 (tq_tm ?q j)"
          "\<And>j. j \<noteq> i \<Longrightarrow> j \<notin> tq_active ?q \<Longrightarrow> tq_tm q1 j = tq_tm ?q j"
        using timer_stop_w_ok [OF inv root(2)] root(3) by auto
      let ?s1 = "s\<lparr>timer_q := q1, pendings := ps1\<rparr>"
      have t1: "tq_tm (timer_q ?s1) i =
          Some (t\<lparr>tm_pending := 0, tm_revents := r, tm_index := 0, tm_at := tm_at t - ?clk\<rparr>)" using st(4) by simp
      obtain q2 ps2 t2 where fd: "feed_event (WTimer i) EV_TIMER ?s1 = Inr (?s1\<lparr>timer_q := q2, pendings := ps2\<rparr>)"
          "ev_inv (?s1\<lparr>timer_q := q2, pendings := ps2\<rparr>)" "tq_active q2 = tq_active q1"
          "tq_tm q2 i = Some t2" "queued t2" "tm_index t2 = 0" "tm_at t2 = tm_at t - ?clk"
          "tm_repeat t2 = tm_repeat t" "tm_policy t2 = tm_policy t"
          "\<And>j. j \<noteq> i \<Longrightarrow> tq_tm q2 j = tq_tm q1 j"
        using feed_timer_ok [OF st(2) t1] by auto
      let ?s2 = "s\<lparr>timer_q := q2, pendings := ps2\<rparr>"
      have s2: "?s1\<lparr>timer_q := q2, pendings := ps2\<rparr> = ?s2" by simp
      have run: "timers_step s = Inr (Some ?s2)"
        using cnt root(1,3) due True st(1) fd(1) by (simp add: timers_step_def)
      have ev: "rel_option (tm_evolves ?clk) (tq_tm ?q j) (tq_tm q2 j)" for j
      proof (cases "j = i")
        case True
        then show ?thesis using root(2,3) fd(4-9) due \<open>tm_repeat t = 0\<close> by (simp add: tm_evolves_def)
      next
        case ne: False
        show ?thesis
        proof (cases "j \<in> tq_active ?q")
          case True
          then obtain u where u: "tq_tm ?q j = Some u" "tm_index u \<noteq> 0" by (auto simp: tq_active_def)
          obtain k where k: "tq_tm q1 j = Some (u\<lparr>tm_index := k\<rparr>)"
            using st(5) [OF ne] u(1) idx0_eq_Some [of "tq_tm q1 j" u] by metis
          have "j \<in> tq_active q1" using st(3) True ne by simp
          then have "k \<noteq> 0" using k by (simp add: tq_active_def)
          then show ?thesis using u k fd(10) [OF ne] tm_evolves_index by simp
        next
          case False
          then show ?thesis using st(6) [OF ne] fd(10) [OF ne] tm_evolves_refl by (simp add: option.rel_refl)
        qed
      qed
      have "key_of (tq_tm q2) j = key_of (tq_tm ?q) j" if "j \<in> tq_active q2" for j
      proof -
        have "j \<noteq> i" using that fd(3) st(3) by blast
        then have "idx0 (tq_tm q2 j) = idx0 (tq_tm ?q j)" using fd(10) st(5) by simp
        then show ?thesis by (rule idx0_key)
      qed
      then have "lag ?s2 < lag s"
        unfolding lag_def using fin fd(3) st(3) root(4) due ki
        by (intro lag_decreases [of _ _ i]) auto
      then show ?thesis using run fd(2) s2 ev by (auto simp: expires_def)
    next
      case False
      then have rep: "0 < tm_repeat t" using reps [OF root(2)] by simp
      obtain at' where at': "step_timer ?clk t = Inr (t\<lparr>tm_at := at'\<rparr>)" "tm_at t < at'"
          "next_at ?clk (t\<lparr>tm_at := at'\<rparr>) = next_at ?clk t"
        using step_timer_ok [OF rep, of ?clk] due by auto
      let ?t' = "t\<lparr>tm_at := at'\<rparr>"
      obtain h where h: "down_heap (tq_len ?q) 1 (tq_heap (tq_upd i (\<lambda>_. ?t') ?q)) = Inr h"
          "tq_inv (?q\<lparr>tq_heap := h\<rparr>)" "tq_active (?q\<lparr>tq_heap := h\<rparr>) = tq_active ?q"
          "\<And>j. idx0 (hp_tm h j) = idx0 (((tq_tm ?q)(i \<mapsto> ?t')) j)"
          "\<And>j. j \<notin> tq_active ?q \<Longrightarrow> hp_tm h j = tq_tm ?q j"
        using tq_down_root [OF tq root(2,3), of ?t'] at'(2) root(3) by auto
      let ?q1 = "?q\<lparr>tq_heap := h\<rparr>"
      let ?s1 = "s\<lparr>timer_q := ?q1\<rparr>"
      have tm1: "tq_tm ?q1 = hp_tm h" by (simp add: tq_tm_def)
      have "tpr (tq_tm ?q1 j) = tpr (tq_tm ?q j)" for j
        using tpr_idx0 [OF h(4), of j] root(2) by (auto simp: tm1 tpr_def)
      then have "pend_ok ?s1" using pend pend_ok_cong [of ?s1 s] w_get_timer_q by simp
      moreover have "0 \<le> tm_repeat u" if "tq_tm ?q1 j = Some u" for j u
      proof -
        have "hp_tm h j = Some u" using that tm1 by simp
        then obtain v where v: "((tq_tm ?q)(i \<mapsto> ?t')) j = Some v" "idx0 (Some u) = idx0 (Some v)"
          using idx0_partner [OF h(4)] by blast
        then show ?thesis using idx0_fields(1) [OF v(2)] reps rep by (auto split: if_splits)
      qed
      ultimately have inv1: "ev_inv ?s1" using h(2) by (simp add: ev_inv_def)
      obtain k where k: "tq_tm (timer_q ?s1) i = Some (?t'\<lparr>tm_index := k\<rparr>)"
        using h(4) [of i] idx0_eq_Some [of "hp_tm h i" ?t'] tm1 by auto
      have "i \<in> tq_active ?q1" using h(3) root(4) by simp
      then have k0: "k \<noteq> 0" using k by (simp add: tq_active_def)
      obtain q2 ps2 t2 where fd: "feed_event (WTimer i) EV_TIMER ?s1 = Inr (?s1\<lparr>timer_q := q2, pendings := ps2\<rparr>)"
          "ev_inv (?s1\<lparr>timer_q := q2, pendings := ps2\<rparr>)" "tq_active q2 = tq_active ?q1"
          "tq_tm q2 i = Some t2" "queued t2" "tm_index t2 = k" "tm_at t2 = at'"
          "tm_repeat t2 = tm_repeat t" "tm_policy t2 = tm_policy t"
          "\<And>j. j \<noteq> i \<Longrightarrow> tq_tm q2 j = tq_tm ?q1 j"
        using feed_timer_ok [OF inv1 k] by auto
      let ?s2 = "s\<lparr>timer_q := q2, pendings := ps2\<rparr>"
      have s2: "?s1\<lparr>timer_q := q2, pendings := ps2\<rparr> = ?s2" by simp
      have step: "(if tm_at t + tm_repeat t < ?clk then reschedule ?clk (t\<lparr>tm_at := tm_at t + tm_repeat t\<rparr>)
          else Inr (t\<lparr>tm_at := tm_at t + tm_repeat t\<rparr>)) = Inr ?t'"
        using at'(1) by (simp add: step_timer_def Let_def split: if_splits)
      have run: "timers_step s = Inr (Some ?s2)"
        using cnt root(1,3) due False rep step h(1) fd(1) by (simp add: timers_step_def Let_def)
      have ev: "rel_option (tm_evolves ?clk) (tq_tm ?q j) (tq_tm q2 j)" for j
      proof (cases "j = i")
        case True
        have "next_at ?clk t2 = next_at ?clk ?t'"
          using fd(7-9) by (simp add: next_at_def keeps_phase_def)
        then show ?thesis using True root(2,3) fd(4-9) due at'(2,3) k0 rep by (simp add: tm_evolves_def)
      next
        case ne: False
        have e: "idx0 (hp_tm h j) = idx0 (tq_tm ?q j)" using h(4) [of j] ne by simp
        show ?thesis
        proof (cases "j \<in> tq_active ?q")
          case True
          then obtain u where u: "tq_tm ?q j = Some u" "tm_index u \<noteq> 0" by (auto simp: tq_active_def)
          obtain m where m: "hp_tm h j = Some (u\<lparr>tm_index := m\<rparr>)"
            using e u(1) idx0_eq_Some [of "hp_tm h j" u] by metis
          have "j \<in> tq_active ?q1" using h(3) True by simp
          then have "m \<noteq> 0" using m tm1 by (simp add: tq_active_def)
          then show ?thesis using u m fd(10) [OF ne] tm1 tm_evolves_index by simp
        next
          case False
          then show ?thesis using h(5) [OF False] fd(10) [OF ne] tm1 tm_evolves_refl by (simp add: option.rel_refl)
        qed
      qed
      have key: "key_of (tq_tm q2) j = (if j = i then at' else key_of (tq_tm ?q) j)" for j
      proof (cases "j = i")
        case True
        then show ?thesis using fd(4,7) by (simp add: key_of_def)
      next
        case ne: False
        have "idx0 (tq_tm q2 j) = idx0 (tq_tm ?q j)" using h(4) [of j] ne fd(10) [OF ne] tm1 by simp
        then have "key_of (tq_tm q2) j = key_of (tq_tm ?q) j" by (rule idx0_key)
        then show ?thesis using ne by simp
      qed
      have act2: "tq_active q2 = tq_active ?q" using fd(3) h(3) by simp
      have "(\<Sum>j \<in> tq_active q2. nat (?clk + 1 - key_of (tq_tm q2) j)) <
          (\<Sum>j \<in> tq_active ?q. nat (?clk + 1 - key_of (tq_tm ?q) j))"
      proof (rule lag_decreases [OF fin _ root(4)])
        show "tq_active q2 \<subseteq> tq_active ?q" using act2 by simp
        have "nat (?clk + 1 - key_of (tq_tm q2) i) < nat (?clk + 1 - key_of (tq_tm ?q) i)"
          using key [of i] ki at'(2) due by simp
        then show "nat (?clk + 1 - key_of (tq_tm q2) i) < nat (?clk + 1 - key_of (tq_tm ?q) i) \<or>
            i \<notin> tq_active q2 \<and> 0 < nat (?clk + 1 - key_of (tq_tm ?q) i)" by simp
        show "nat (?clk + 1 - key_of (tq_tm q2) j) \<le> nat (?clk + 1 - key_of (tq_tm ?q) j)" for j
          using key [of j] ki at'(2) by (cases "j = i") (simp_all add: nat_mono)
      qed
      then have "lag ?s2 < lag s" by (simp add: lag_def)
      then show ?thesis using run fd(2) s2 ev by (auto simp: expires_def)
    qed
  qed
qed

lemma timers_reify_ok:
  assumes "ev_inv s"
  shows "\<exists>s'. timers_reify s = Some (Inr s') \<and> ev_inv s' \<and> expires s s' \<and>
           (\<forall>i \<in> tq_active (timer_q s'). steady_clk s' < key_of (tq_tm (timer_q s')) i)"
  using assms
proof (induction "lag s" arbitrary: s rule: less_induct)
  case less
  from timers_step_ok [OF less.prems] show ?case
  proof
    assume "timers_step s = Inr None \<and> (\<forall>i \<in> tq_active (timer_q s). steady_clk s < key_of (tq_tm (timer_q s)) i)"
    then show ?thesis using less.prems expires_refl
      by (intro exI [of _ s]) (simp add: timers_reify.simps [of s])
  next
    assume "\<exists>s'. timers_step s = Inr (Some s') \<and> ev_inv s' \<and> expires s s' \<and> lag s' < lag s"
    then obtain s1 where s1: "timers_step s = Inr (Some s1)" "ev_inv s1" "expires s s1" "lag s1 < lag s"
      by blast
    from less.hyps [OF s1(4,2)] obtain s2 where s2: "timers_reify s1 = Some (Inr s2)" "ev_inv s2" "expires s1 s2"
        "\<forall>i \<in> tq_active (timer_q s2). steady_clk s2 < key_of (tq_tm (timer_q s2)) i" by blast
    have "timers_reify s = Some (Inr s2)"
      using s1(1) s2(1) by (subst timers_reify.simps) simp
    then show ?thesis using expires_trans [OF s1(3) s2(3)] s2(2,4) by (intro exI [of _ s2]) simp
  qed
qed

section \<open>Runs of timer calls\<close>

datatype timer_call = TStart int int nat int | TStop int | TTick int

text \<open>Starting, stopping, and the loop's round at a new time.\<close>

definition timer_step :: "timer_call \<Rightarrow> ev \<Rightarrow> (int \<times> ev) result" where
  "timer_step c s =
     (case c of
        TStart i after rep policy \<Rightarrow> timer_start i after (int rep) policy s
      | TStop i \<Rightarrow> timer_stop i s
      | TTick clk \<Rightarrow>
          (case timers_reify (s\<lparr>steady_clk := clk\<rparr>) of
             None \<Rightarrow> Inl Diverged
           | Some r \<Rightarrow> bind_res r (\<lambda>s'. Inr (0, s'))))"

lemma timer_stop_ok:
  assumes inv: "ev_inv s"
  shows "\<exists>q ps. timer_stop i s = Inr (if tq_tm (timer_q s) i = None then -1 else 0, s\<lparr>timer_q := q, pendings := ps\<rparr>) \<and>
           ev_inv (s\<lparr>timer_q := q, pendings := ps\<rparr>) \<and> tq_tm q i = None \<and>
           tq_active q = tq_active (timer_q s) - {i} \<and>
           (\<forall>j. j \<noteq> i \<longrightarrow> idx0 (tq_tm q j) = idx0 (tq_tm (timer_q s) j))"
proof (cases "tq_tm (timer_q s) i")
  case None
  then have "i \<notin> tq_active (timer_q s)" by (simp add: tq_active_def)
  then show ?thesis using None inv
    by (intro exI [of _ "timer_q s"] exI [of _ "pendings s"]) (simp add: timer_stop_def)
next
  case (Some t)
  obtain q ps r where st: "timer_stop_w i s = Inr (s\<lparr>timer_q := q, pendings := ps\<rparr>)"
      "ev_inv (s\<lparr>timer_q := q, pendings := ps\<rparr>)" "tq_active q = tq_active (timer_q s) - {i}"
      "tq_tm q i = Some (t\<lparr>tm_pending := 0, tm_revents := r, tm_index := 0,
         tm_at := if tm_index t = 0 then tm_at t else tm_at t - steady_clk s\<rparr>)"
      "\<And>j. j \<noteq> i \<Longrightarrow> idx0 (tq_tm q j) = idx0 (tq_tm (timer_q s) j)"
    using timer_stop_w_ok [OF inv Some] by blast
  let ?s1 = "s\<lparr>timer_q := q, pendings := ps\<rparr>" and ?q = "tq_erase i q"
  let ?s2 = "s\<lparr>timer_q := ?q, pendings := ps\<rparr>"
  have act: "tq_active ?q = tq_active q" using st(3) by (auto simp: tq_active_def)
  have wi: "w_get ?s1 (WTimer i) = Some (0, r)" using st(4) by (simp add: w_get_def)
  have wg: "w_get ?s2 w = (if w = WTimer i then None else w_get ?s1 w)" for w
    by (simp add: w_get_def split: watcher.splits)
  have "pend_ok ?s2" unfolding pend_ok_def
  proof (intro conjI allI impI)
    fix w p r' assume "w_get ?s2 w = Some (p, r') \<and> p \<noteq> 0"
    then show "p \<le> length (pendings ?s2)" "pendings ?s2 ! (p - 1) = Some w"
      using st(2) unfolding wg by (auto simp: ev_inv_def pend_ok_def split: if_splits)
  next
    fix j w assume "j < length (pendings ?s2) \<and> pendings ?s2 ! j = Some w"
    then have "\<exists>r'. w_get ?s1 w = Some (j + 1, r')" using st(2) by (simp add: ev_inv_def pend_ok_def)
    then show "\<exists>r'. w_get ?s2 w = Some (j + 1, r')" unfolding wg using wi by auto
  qed
  moreover have "tq_inv ?q" using st(2,3) by (intro tq_inv_erase) (auto simp: ev_inv_def)
  ultimately have "ev_inv ?s2" using st(2) by (auto simp: ev_inv_def split: if_splits)
  then show ?thesis using Some st act
    by (intro exI [of _ ?q] exI [of _ ps]) (simp add: timer_stop_def)
qed

interpretation timers: safe_steps ev_inv timer_step
proof
  fix s :: ev and c
  assume inv: "ev_inv s"
  show "\<exists>r s'. timer_step c s = Inr (r, s') \<and> ev_inv s'"
  proof (cases c)
    case (TStart i after rep policy)
    show ?thesis
    proof (cases "tq_tm (timer_q s) i = None")
      case True
      then show ?thesis using timer_start_ok [OF inv True, of "int rep" after policy] TStart
        by (auto simp: timer_step_def)
    next
      case False
      then show ?thesis using inv TStart by (auto simp: timer_step_def timer_start_def)
    qed
  next
    case (TStop i)
    then show ?thesis using timer_stop_ok [OF inv, of i] by (auto simp: timer_step_def)
  next
    case (TTick clk)
    have "w_get (s\<lparr>steady_clk := clk\<rparr>) = w_get s"
      by (auto simp: fun_eq_iff w_get_def split: watcher.splits)
    then have "ev_inv (s\<lparr>steady_clk := clk\<rparr>)"
      using inv pend_ok_cong [of "s\<lparr>steady_clk := clk\<rparr>" s] by (simp add: ev_inv_def)
    from timers_reify_ok [OF this] show ?thesis using TTick by (auto simp: timer_step_def)
  qed
qed

section \<open>Calling back\<close>

definition slot_calls :: "ev \<Rightarrow> watcher option list \<Rightarrow> (watcher \<times> 8 word) list" where
  "slot_calls s ps = List.map_filter (map_option (\<lambda>w. (w, snd (the (w_get s w))))) ps"

lemma slot_calls_simps [simp]:
  "slot_calls s [] = []" "slot_calls s (None # ps) = slot_calls s ps"
  "slot_calls s (Some w # ps) = (w, snd (the (w_get s w))) # slot_calls s ps"
  by (simp_all add: slot_calls_def List.map_filter_simps)

lemma slot_calls_cong:
  "(\<And>w. Some w \<in> set ps \<Longrightarrow> w_get s' w = w_get s w) \<Longrightarrow> slot_calls s' ps = slot_calls s ps"
proof (induction ps)
  case (Cons x ps)
  then show ?case by (cases x) auto
qed simp

text \<open>In the middle of the loop: slots from \<open>i\<close> on are live, earlier ones are done.\<close>

definition pend_from :: "nat \<Rightarrow> ev \<Rightarrow> bool" where
  "pend_from i s \<longleftrightarrow>
     (\<forall>w p r. w_get s w = Some (p, r) \<and> p \<noteq> 0 \<longrightarrow> i < p \<and> p \<le> length (pendings s) \<and> pendings s ! (p - 1) = Some w) \<and>
     (\<forall>j w. i \<le> j \<and> j < length (pendings s) \<and> pendings s ! j = Some w \<longrightarrow> (\<exists>r. w_get s w = Some (j + 1, r)))"

lemma invoke_loop_ok:
  assumes cb: "\<And>w r s. \<exists>s'. cb w r s = Inr s' \<and> pendings s' = pendings s \<and> w_get s' = w_get s"
    and "pend_from i s" "i \<le> length (pendings s)"
  shows "\<exists>s'. invoke_loop cb [i..<length (pendings s)] (length (pendings s)) s =
             Inr (slot_calls s (drop i (pendings s)), s') \<and>
           pendings s' = pendings s \<and> pend_from (length (pendings s)) s'"
  using assms(2,3)
proof (induction "length (pendings s) - i" arbitrary: i s)
  case 0
  then show ?case by (intro exI [of _ s]) simp
next
  case (Suc n)
  let ?n = "length (pendings s)"
  have i: "i < ?n" using Suc.hyps(2) by linarith
  have up: "[i..<?n] = i # [Suc i..<?n]" using i by (simp add: upt_conv_Cons)
  have dr: "drop i (pendings s) = pendings s ! i # drop (Suc i) (pendings s)"
    using i by (simp add: Cons_nth_drop_Suc)
  show ?case
  proof (cases "pendings s ! i")
    case None
    have ne: "Suc i < p" if g: "w_get s w = Some (p, r) \<and> p \<noteq> 0" for w p r
    proof -
      have "i < p" "pendings s ! (p - 1) = Some w" using Suc.prems(1) g unfolding pend_from_def by blast+
      then show ?thesis using None by (cases "p = Suc i") auto
    qed
    have "pend_from (Suc i) s" unfolding pend_from_def
    proof (intro conjI allI impI)
      fix w p r assume g: "w_get s w = Some (p, r) \<and> p \<noteq> 0"
      then show "Suc i < p" by (rule ne)
      show "p \<le> ?n" "pendings s ! (p - 1) = Some w" using Suc.prems(1) g unfolding pend_from_def by blast+
    next
      fix j w assume "Suc i \<le> j \<and> j < ?n \<and> pendings s ! j = Some w"
      then show "\<exists>r. w_get s w = Some (j + 1, r)" using Suc.prems(1) unfolding pend_from_def by simp
    qed
    moreover have "n = ?n - Suc i" "Suc i \<le> ?n" using Suc.hyps(2) i by linarith+
    ultimately obtain s' where
      "invoke_loop cb [Suc i..<?n] ?n s = Inr (slot_calls s (drop (Suc i) (pendings s)), s')"
      "pendings s' = pendings s" "pend_from ?n s'" using Suc.hyps(1) [of s "Suc i"] by blast
    then show ?thesis using None by (intro exI [of _ s']) (simp add: up dr)
  next
    case (Some w)
    have "\<exists>r. w_get s w = Some (i + 1, r)" using Suc.prems(1) Some i unfolding pend_from_def by blast
    then obtain r where w: "w_get s w = Some (Suc i, r)" by auto
    let ?s0 = "w_set w 0 0 s"
    obtain s1 where s1: "cb w r ?s0 = Inr s1" "pendings s1 = pendings s" "w_get s1 = w_get ?s0"
      using cb [of w r ?s0] by auto
    have wg: "w_get s1 v = (if v = w then Some (0, 0) else w_get s v)" for v using s1(3) w by simp
    have other: "v \<noteq> w" if "Suc i \<le> j" "j < ?n" "pendings s ! j = Some v" for j v
    proof -
      have "\<exists>r. w_get s v = Some (j + 1, r)" using Suc.prems(1) that by (auto simp: pend_from_def)
      then show ?thesis using w that(1) by auto
    qed
    have "pend_from (Suc i) s1" unfolding pend_from_def s1(2)
    proof (intro conjI allI impI)
      fix v p r' assume v: "w_get s1 v = Some (p, r') \<and> p \<noteq> 0"
      then have vw: "v \<noteq> w" "w_get s v = Some (p, r')" using wg by (auto split: if_splits)
      then show "p \<le> ?n" "pendings s ! (p - 1) = Some v" using Suc.prems(1) v by (auto simp: pend_from_def)
      have "i < p" using Suc.prems(1) vw v by (auto simp: pend_from_def)
      moreover have "pendings s ! (p - 1) = Some v" using Suc.prems(1) vw v unfolding pend_from_def by blast
      then have "p \<noteq> Suc i" using vw(1) Some by auto
      ultimately show "Suc i < p" by linarith
    next
      fix j v assume j: "Suc i \<le> j \<and> j < ?n \<and> pendings s ! j = Some v"
      then have "\<exists>r. w_get s v = Some (j + 1, r)" using Suc.prems(1) by (auto simp: pend_from_def)
      then show "\<exists>r. w_get s1 v = Some (j + 1, r)" using wg other j by auto
    qed
    moreover have "n = ?n - Suc i" "Suc i \<le> ?n" using Suc.hyps(2) i by linarith+
    ultimately obtain s' where
      s': "invoke_loop cb [Suc i..<?n] ?n s1 = Inr (slot_calls s1 (drop (Suc i) (pendings s)), s')"
      "pendings s' = pendings s" "pend_from ?n s'"
      using Suc.hyps(1) [of s1 "Suc i"] unfolding s1(2) by blast
    have "slot_calls s1 (drop (Suc i) (pendings s)) = slot_calls s (drop (Suc i) (pendings s))"
    proof (rule slot_calls_cong)
      fix v assume "Some v \<in> set (drop (Suc i) (pendings s))"
      then obtain m where "m < ?n - Suc i" "pendings s ! (Suc i + m) = Some v"
        by (auto simp: in_set_conv_nth)
      then show "w_get s1 v = w_get s v" using wg other [of "Suc i + m" v] by simp
    qed
    then show ?thesis using Some w s1(1) s' by (intro exI [of _ s']) (simp add: up dr w_deref_def)
  qed
qed

lemma pend_from_end: "pend_from (length (pendings s)) s \<Longrightarrow> w_get s w = Some (p, r) \<Longrightarrow> p = 0"
  by (fastforce simp: pend_from_def)

end
