(* ===== verification/EvCorrect.thy ===== *)
theory EvCorrect
  imports EvTimers
begin

text \<open>
  What the main loop promises of its timers, its pending queue, its wait and its clocks,
  and where the UTC timers break the promises that the timers keep. Everything rests on
  the lemmas of the timer theory; the runs are those of its interpretation of
  \<open>safe_steps\<close>.
\<close>

declare split_paired_All [simp del] split_paired_Ex [simp del]

section \<open>Expiry\<close>

text \<open>What one round of expiry makes of one timer.\<close>

definition expired_to :: "int \<Rightarrow> timer \<Rightarrow> timer \<Rightarrow> bool" where
  "expired_to clk t t' \<longleftrightarrow>
     (if tm_index t = 0 then t' = t
      else if tm_at t > clk then \<exists>k. k \<noteq> 0 \<and> t' = t\<lparr>tm_index := k\<rparr>
      else if tm_repeat t = 0 then queued t' \<and> tm_index t' = 0
      else queued t' \<and> tm_index t' \<noteq> 0 \<and> tm_at t' = next_at clk t \<and> clk < tm_at t' \<and>
           tm_repeat t' = tm_repeat t \<and> tm_policy t' = tm_policy t)"

lemma timer_eqI:
  fixes t u :: timer
  assumes "tm_pending t = tm_pending u" "tm_revents t = tm_revents u" "tm_index t = tm_index u"
    "tm_policy t = tm_policy u" "tm_at t = tm_at u" "tm_repeat t = tm_repeat u"
  shows "t = u"
  using assms by (cases t; cases u) simp

lemma tm_evolves_expired:
  assumes ev: "tm_evolves clk t t'" and later: "tm_index t' \<noteq> 0 \<Longrightarrow> clk < tm_at t'"
  shows "expired_to clk t t'"
proof (cases "tm_index t = 0")
  case True
  then show ?thesis using ev by (simp add: tm_evolves_def expired_to_def)
next
  case act: False
  then have keep: "tm_repeat t' = tm_repeat t" "tm_policy t' = tm_policy t"
    using ev by (simp_all add: tm_evolves_def)
  show ?thesis
  proof (cases "tm_at t > clk")
    case True
    then have idx: "tm_index t' \<noteq> 0" using ev act by (cases "tm_index t' = 0") (simp_all add: tm_evolves_def)
    then have "tm_at t' = tm_at t" "tm_pending t' = tm_pending t" "tm_revents t' = tm_revents t"
      using ev act True by (auto simp: tm_evolves_def split: if_splits)
    then have "t' = t\<lparr>tm_index := tm_index t'\<rparr>" using keep by (intro timer_eqI) simp_all
    then show ?thesis using act True idx by (auto simp: expired_to_def)
  next
    case due: False
    show ?thesis
    proof (cases "tm_index t' = 0")
      case True
      then show ?thesis using ev act due by (simp add: tm_evolves_def expired_to_def)
    next
      case idx: False
      have lt: "clk < tm_at t'" using later idx by simp
      then have ne: "tm_at t' \<noteq> tm_at t" using due by simp
      then have "queued t'" "tm_repeat t \<noteq> 0" "next_at clk t' = next_at clk t"
        using ev act idx by (auto simp: tm_evolves_def)
      moreover have "next_at clk t' = tm_at t'" using lt by (simp add: next_at_def)
      ultimately show ?thesis using act due idx lt keep by (simp add: expired_to_def)
    qed
  qed
qed

text \<open>
  C8: one round of \<open>timers_reify\<close> ends without a fault. A timer that is not due is left alone;
  a one-shot timer that is due leaves the heap and is queued for its callback; a repeating one
  that is due is queued and set to its next time, which its policy determines and which is
  after the clock. The clocks are not touched.
\<close>

theorem timers_reify_due:
  assumes "ev_inv s"
  shows "\<exists>s'. timers_reify s = Some (Inr s') \<and> ev_inv s' \<and>
           steady_clk s' = steady_clk s \<and> periodic_q s' = periodic_q s \<and> io_mgr s' = io_mgr s \<and>
           (\<forall>i. rel_option (expired_to (steady_clk s)) (tq_tm (timer_q s) i) (tq_tm (timer_q s') i))"
proof -
  obtain s' where s': "timers_reify s = Some (Inr s')" "ev_inv s'" "expires s s'"
      "\<And>i. i \<in> tq_active (timer_q s') \<Longrightarrow> steady_clk s' < key_of (tq_tm (timer_q s')) i"
    using timers_reify_ok [OF assms] by blast
  obtain q ps where eq: "s' = s\<lparr>timer_q := q, pendings := ps\<rparr>" using s'(3) by (auto simp: expires_def)
  have "rel_option (expired_to (steady_clk s)) (tq_tm (timer_q s) i) (tq_tm (timer_q s') i)" for i
  proof -
    have r: "rel_option (tm_evolves (steady_clk s)) (tq_tm (timer_q s) i) (tq_tm (timer_q s') i)"
      using s'(3) by (simp add: expires_def)
    show ?thesis
    proof (cases "tq_tm (timer_q s') i")
      case None
      then show ?thesis using r by (simp add: option_rel_Some2)
    next
      case (Some t')
      then obtain t where t: "tq_tm (timer_q s) i = Some t" "tm_evolves (steady_clk s) t t'"
        using r by (cases "tq_tm (timer_q s) i") auto
      have "steady_clk s < tm_at t'" if "tm_index t' \<noteq> 0"
        using s'(4) [of i] that Some eq by (auto simp: tq_active_def key_of_def)
      then show ?thesis using t Some tm_evolves_expired by simp
    qed
  qed
  then show ?thesis using s'(1,2) eq by (intro exI [of _ s']) simp
qed

theorem timers_reify_due_witness:
  "\<exists>s s' t. timer_start 7 (-5) 20 P_ALIGN ev_init = Inr (1, s) \<and> timers_reify s = Some (Inr s') \<and>
     tq_tm (timer_q s') 7 = Some t \<and> queued t \<and> tm_at t = 15"
proof -
  have new: "tq_tm (timer_q ev_init) 7 = None" "tq_cnt (timer_q ev_init) = 0" "steady_clk ev_init = 0"
    by (simp_all add: ev_init_def tqueue_init_def tq_tm_def)
  obtain q k where s: "timer_start 7 (-5) 20 P_ALIGN ev_init = Inr (1, ev_init\<lparr>timer_q := q\<rparr>)"
      "ev_inv (ev_init\<lparr>timer_q := q\<rparr>)" "k \<noteq> 0"
      "tq_tm q 7 = Some (timer_new\<lparr>tm_at := -5, tm_repeat := 20, tm_policy := P_ALIGN, tm_index := k\<rparr>)"
    using timer_start_ok [OF ev_inv_init new(1), of 20 "-5" P_ALIGN] new by auto
  let ?s = "ev_init\<lparr>timer_q := q\<rparr>"
  obtain s' where s': "timers_reify ?s = Some (Inr s')"
      "rel_option (expired_to (steady_clk ?s)) (tq_tm (timer_q ?s) 7) (tq_tm (timer_q s') 7)"
    using timers_reify_due [OF s(2)] by blast
  then obtain t where t: "tq_tm (timer_q s') 7 = Some t"
      "expired_to 0 (timer_new\<lparr>tm_at := -5, tm_repeat := 20, tm_policy := P_ALIGN, tm_index := k\<rparr>) t"
    using s(4) new(3) by (auto simp: option_rel_Some1)
  then have "queued t \<and> tm_at t = 15"
    using s(3) by (simp add: expired_to_def next_at_def keeps_phase_def)
  then show ?thesis using s(1) s' t by (intro exI [of _ ?s] exI [of _ s'] exI [of _ t]) simp
qed

section \<open>Runs\<close>

text \<open>
  C13: no sequence of timer calls (start, stop, a round at any time) faults, and after each
  the heap is consistent: every timer in it sits at the slot its \<open>_index\<close> names, and the root
  is due no later than any other.
\<close>

theorem timer_runs_safe:
  "\<exists>rs s. run_ops timer_step cs ev_init = Inr (rs, s) \<and> length rs = length cs \<and>
     (\<forall>i t. tq_tm (timer_q s) i = Some t \<longrightarrow> tm_index t = 0 \<or>
        hnode (tq_heap (timer_q s)) (tm_index t) = Inr (i, t) \<and>
        (\<exists>j u. hnode (tq_heap (timer_q s)) 1 = Inr (j, u) \<and> tm_at u \<le> tm_at t))"
proof -
  obtain rs s where run: "run_ops timer_step cs ev_init = Inr (rs, s)" "ev_inv s" "length rs = length cs"
    using timers.run_safe [OF ev_inv_init] by blast
  have tq: "tq_inv (timer_q s)" using run(2) by (simp add: ev_inv_def)
  then obtain a where a: "tq_rep (timer_q s) a" "tq_active (timer_q s) = a ` {1..tq_len (timer_q s)}"
    by (auto simp: tq_inv_def)
  have "hnode (tq_heap (timer_q s)) (tm_index t) = Inr (i, t) \<and>
        (\<exists>j u. hnode (tq_heap (timer_q s)) 1 = Inr (j, u) \<and> tm_at u \<le> tm_at t)"
    if t: "tq_tm (timer_q s) i = Some t" "tm_index t \<noteq> 0" for i t
  proof -
    have act: "i \<in> tq_active (timer_q s)" using t by (simp add: tq_active_def)
    then obtain k where k: "k \<in> {1..tq_len (timer_q s)}" "a k = i" using a(2) by auto
    then have "tm_index t = k \<and> hnode (tq_heap (timer_q s)) k = Inr (i, t)"
      using tq_repD [OF a(1) k(1)] t(1) by auto
    moreover have "tq_cnt (timer_q s) \<noteq> 0" using k(1) by auto
    then obtain j u where "hnode (tq_heap (timer_q s)) 1 = Inr (j, u)"
        "tm_at u \<le> key_of (tq_tm (timer_q s)) i"
      using tq_root [OF tq] act by blast
    ultimately show ?thesis using t(1) by (auto simp: key_of_def)
  qed
  then show ?thesis using run by blast
qed

theorem timer_runs_safe_witness:
  "\<exists>rs s. run_ops timer_step [TStart 7 5 20 P_ALIGN, TStart 7 1 0 P_NONE, TTick 30, TStop 7, TStop 8] ev_init
     = Inr (rs, s) \<and> length rs = 5"
  using timer_runs_safe [of "[TStart 7 5 20 P_ALIGN, TStart 7 1 0 P_NONE, TTick 30, TStop 7, TStop 8]"]
  by auto

text \<open>
  C22: stopping a timer takes it out of the manager, the heap and the pending vector, so that
  its address is never used again; the other timers keep their times and their place in the
  pending vector. An unknown id is reported as -1.
\<close>

theorem timer_stop_forgets:
  assumes "ev_inv s"
  shows "\<exists>s'. timer_stop i s = Inr (if tq_tm (timer_q s) i = None then -1 else 0, s') \<and> ev_inv s' \<and>
           tq_tm (timer_q s') i = None \<and> Some (WTimer i) \<notin> set (pendings s') \<and>
           (\<forall>k. k < length (hp_arr (tq_heap (timer_q s'))) \<and> 1 \<le> k \<and> int k \<le> tq_cnt (timer_q s') \<longrightarrow>
              hp_arr (tq_heap (timer_q s')) ! k \<noteq> Some i) \<and>
           (\<forall>j t. j \<noteq> i \<and> tq_tm (timer_q s) j = Some t \<longrightarrow>
              (\<exists>k. tq_tm (timer_q s') j = Some (t\<lparr>tm_index := k\<rparr>)))"
proof -
  obtain q ps where st: "timer_stop i s = Inr (if tq_tm (timer_q s) i = None then -1 else 0,
        s\<lparr>timer_q := q, pendings := ps\<rparr>)" "ev_inv (s\<lparr>timer_q := q, pendings := ps\<rparr>)" "tq_tm q i = None"
      "\<And>j. j \<noteq> i \<Longrightarrow> idx0 (tq_tm q j) = idx0 (tq_tm (timer_q s) j)"
    using timer_stop_ok [OF assms, of i] by blast
  let ?s = "s\<lparr>timer_q := q, pendings := ps\<rparr>"
  have none: "w_get ?s (WTimer i) = None" using st(3) by (simp add: w_get_def)
  have "Some (WTimer i) \<notin> set ps"
  proof
    assume "Some (WTimer i) \<in> set ps"
    then obtain j where "j < length (pendings ?s)" "pendings ?s ! j = Some (WTimer i)"
      by (auto simp: in_set_conv_nth)
    then show False using st(2) none unfolding ev_inv_def pend_ok_def by fastforce
  qed
  moreover have "hp_arr (tq_heap q) ! k \<noteq> Some i" if "1 \<le> k" "int k \<le> tq_cnt q" for k
  proof -
    obtain a where a: "tq_rep q a" using st(2) by (auto simp: ev_inv_def tq_inv_def)
    then have "k \<in> {1..tq_len q}" using that by auto
    then obtain t where t: "tq_tm q (a k) = Some t" "hnode (tq_heap q) k = Inr (a k, t)"
      using tq_repD [OF a] by blast
    then have "hp_arr (tq_heap q) ! k = Some (a k)"
      by (auto simp: hnode_def split: if_splits option.splits)
    then show ?thesis using t(1) st(3) by auto
  qed
  moreover have "\<exists>k. tq_tm q j = Some (t\<lparr>tm_index := k\<rparr>)"
    if "j \<noteq> i" "tq_tm (timer_q s) j = Some t" for j t
    using idx0_eq_Some [of "tq_tm q j" t] st(4) [OF that(1)] that(2) by metis
  ultimately show ?thesis using st by (intro exI [of _ ?s]) simp
qed

theorem timer_stop_forgets_witness:
  "\<exists>s s'. timer_start 7 5 20 P_ALIGN ev_init = Inr (1, s) \<and> timer_stop 7 s = Inr (0, s') \<and>
     tq_tm (timer_q s') 7 = None"
proof -
  have new: "tq_tm (timer_q ev_init) 7 = None" "tq_cnt (timer_q ev_init) = 0"
    by (simp_all add: ev_init_def tqueue_init_def tq_tm_def)
  obtain q k where s: "timer_start 7 5 20 P_ALIGN ev_init = Inr (1, ev_init\<lparr>timer_q := q\<rparr>)"
      "ev_inv (ev_init\<lparr>timer_q := q\<rparr>)"
      "tq_tm q 7 = Some (timer_new\<lparr>tm_at := steady_clk ev_init + 5, tm_repeat := 20, tm_policy := P_ALIGN, tm_index := k\<rparr>)"
    using timer_start_ok [OF ev_inv_init new(1), of 20 5 P_ALIGN] new by auto
  obtain s' where "timer_stop 7 (ev_init\<lparr>timer_q := q\<rparr>) = Inr (0, s')" "tq_tm (timer_q s') 7 = None"
    using timer_stop_forgets [OF s(2), of 7] s(3) by auto
  then show ?thesis using s(1) by blast
qed

section \<open>Calling back\<close>

lemma slot_calls_fst: "map fst (slot_calls s ps) = map the (filter (\<lambda>x. x \<noteq> None) ps)"
proof (induction ps)
  case (Cons x ps)
  then show ?case by (cases x) simp_all
qed simp

lemma slot_calls_set:
  "set (slot_calls s ps) = {(w, r). Some w \<in> set ps \<and> r = snd (the (w_get s w))}"
proof (induction ps)
  case (Cons x ps)
  then show ?case by (cases x) auto
qed simp

lemma pend_slots:
  assumes "pend_ok s"
  shows "Some w \<in> set (pendings s) \<longleftrightarrow> (\<exists>p r. w_get s w = Some (p, r) \<and> p \<noteq> 0)"
proof
  assume "Some w \<in> set (pendings s)"
  then obtain j where "j < length (pendings s)" "pendings s ! j = Some w" by (auto simp: in_set_conv_nth)
  then have "\<exists>r. w_get s w = Some (j + 1, r)" using assms by (simp add: pend_ok_def)
  then show "\<exists>p r. w_get s w = Some (p, r) \<and> p \<noteq> 0" by auto
next
  assume "\<exists>p r. w_get s w = Some (p, r) \<and> p \<noteq> 0"
  then obtain p r where p: "w_get s w = Some (p, r)" "p \<noteq> 0" by blast
  then have "p \<le> length (pendings s)" "pendings s ! (p - 1) = Some w"
    using assms unfolding pend_ok_def by blast+
  moreover have "p - 1 < length (pendings s)" using calculation(1) p(2) by linarith
  ultimately show "Some w \<in> set (pendings s)" using nth_mem by metis
qed

lemma pend_once:
  assumes "pend_ok s" "i < length (pendings s)" "j < length (pendings s)"
    "pendings s ! i = Some w" "pendings s ! j = Some w"
  shows "i = j"
proof -
  have "\<exists>r. w_get s w = Some (i + 1, r)" "\<exists>r. w_get s w = Some (j + 1, r)"
    using assms by (simp_all add: pend_ok_def)
  then show ?thesis by auto
qed

lemma distinct_live:
  assumes "\<And>i j w. i < length ps \<Longrightarrow> j < length ps \<Longrightarrow> ps ! i = Some w \<Longrightarrow> ps ! j = Some w \<Longrightarrow> i = j"
  shows "distinct (map the (filter (\<lambda>x. x \<noteq> None) ps))"
  using assms
proof (induction ps)
  case (Cons x ps)
  have "distinct (map the (filter (\<lambda>x. x \<noteq> None) ps))"
  proof (rule Cons.IH)
    fix i j w assume "i < length ps" "j < length ps" "ps ! i = Some w" "ps ! j = Some w"
    then show "i = j" using Cons.prems [of "Suc i" "Suc j" w] by simp
  qed
  moreover have "Some w \<notin> set ps" if "x = Some w" for w
  proof
    assume "Some w \<in> set ps"
    then obtain j where "j < length ps" "ps ! j = Some w" by (auto simp: in_set_conv_nth)
    then show False using Cons.prems [of 0 "Suc j" w] that by simp
  qed
  ultimately show ?case by (cases x) force+
qed simp

lemma invoke_pending_ok:
  assumes cb: "\<And>w r s. \<exists>s'. cb w r s = Inr s' \<and> pendings s' = pendings s \<and> w_get s' = w_get s"
    and ok: "pend_ok s"
  shows "\<exists>calls s'. invoke_pending cb s = Inr (calls, s') \<and> distinct (map fst calls) \<and>
           set calls = {(w, r). \<exists>p. w_get s w = Some (p, r) \<and> p \<noteq> 0} \<and>
           map fst calls = map the (filter (\<lambda>x. x \<noteq> None) (pendings s)) \<and>
           pendings s' = [] \<and> (\<forall>w p r. w_get s' w = Some (p, r) \<longrightarrow> p = 0)"
proof -
  let ?ps = "pendings s" and ?calls = "slot_calls s (pendings s)"
  have start: "pend_from 0 s" using ok by (auto simp: pend_ok_def pend_from_def)
  have "\<exists>s'. invoke_loop cb [0..<length ?ps] (length ?ps) s = Inr (slot_calls s (drop 0 ?ps), s') \<and>
      pendings s' = ?ps \<and> pend_from (length ?ps) s'"
    by (rule invoke_loop_ok [OF _ start]) (use cb in simp_all)
  then obtain s' where s': "invoke_loop cb [0..<length ?ps] (length ?ps) s = Inr (?calls, s')"
      "pendings s' = ?ps" "pend_from (length ?ps) s'"
    using invoke_loop_ok [OF cb, of 0 s] by auto
  have clean: "w_get s' w = Some (p, r) \<Longrightarrow> p = 0" for w p r
    using pend_from_end [of s' w p r] s'(2,3) by simp
  have "distinct (map fst ?calls)" unfolding slot_calls_fst
    using pend_once [OF ok] by (intro distinct_live) blast
  moreover have "set ?calls = {(w, r). \<exists>p. w_get s w = Some (p, r) \<and> p \<noteq> 0}"
    unfolding slot_calls_set pend_slots [OF ok] by auto
  ultimately show ?thesis using s' clean slot_calls_fst
    by (intro exI [of _ ?calls] exI [of _ "s'\<lparr>pendings := []\<rparr>"]) (simp add: invoke_pending_def)
qed



section \<open>The wait\<close>

lemma tq_inv_root:
  assumes "tq_inv q" "tq_cnt q \<noteq> 0"
  obtains i t where "hnode (tq_heap q) 1 = Inr (i, t)" "i \<in> tq_active q" "tm_at t = key_of (tq_tm q) i"
    "\<And>j. j \<in> tq_active q \<Longrightarrow> key_of (tq_tm q) i \<le> key_of (tq_tm q) j"
  using tq_root [OF assms] that by (auto simp: key_of_def)

text \<open>
  the wait that the loop passes to the back end is the time to the earliest of the next
  back end round, the first timer and the first UTC timer, but at least one millisecond: no
  timer in either heap is slept over by more than that, and the wait is not shorter than
  needed.
\<close>

theorem backend_wait_exact:
  assumes "tq_inv (timer_q s)" "tq_inv (periodic_q s)"
  shows "\<exists>w. backend_wait nb s = Inr w \<and>
           w = max 1 (Min (insert (nb - steady_clk s)
             ((\<lambda>i. key_of (tq_tm (timer_q s)) i - steady_clk s) ` tq_active (timer_q s) \<union>
              (\<lambda>i. key_of (tq_tm (periodic_q s)) i - system_clk s) ` tq_active (periodic_q s))))"
proof -
  define least where "least = (\<lambda>(q::tqueue) (c::int) (b::int). if tq_cnt q = 0 then Inr b
      else bind_res (hnode (tq_heap q) 1) (\<lambda>(i, t). let to = tm_at t - c in Inr (if b > to then to else b)))"
  have least: "least q c b = Inr (Min (insert b ((\<lambda>i. key_of (tq_tm q) i - c) ` tq_active q)))"
    if inv: "tq_inv q" for q c b
  proof (cases "tq_cnt q = 0")
    case True
    then show ?thesis using tq_empty [OF inv] by (simp add: least_def)
  next
    case False
    obtain i t where r: "hnode (tq_heap q) 1 = Inr (i, t)" "i \<in> tq_active q" "tm_at t = key_of (tq_tm q) i"
        "\<And>j. j \<in> tq_active q \<Longrightarrow> key_of (tq_tm q) i \<le> key_of (tq_tm q) j"
      using tq_inv_root [OF inv False] by blast
    let ?K = "(\<lambda>i. key_of (tq_tm q) i - c) ` tq_active q"
    have fin: "finite ?K" using tq_inv_finite [OF inv] by simp
    have ne: "?K \<noteq> {}" using r(2) by blast
    have "Min ?K = key_of (tq_tm q) i - c" using fin r(2,4) by (intro Min_eqI) auto
    then have "Min (insert b ?K) = min b (key_of (tq_tm q) i - c)" using fin ne by simp
    then show ?thesis using False r(1,3) by (simp add: least_def min_def)
  qed
  let ?T = "(\<lambda>i. key_of (tq_tm (timer_q s)) i - steady_clk s) ` tq_active (timer_q s)"
  let ?P = "(\<lambda>i. key_of (tq_tm (periodic_q s)) i - system_clk s) ` tq_active (periodic_q s)"
  let ?b = "nb - steady_clk s"
  have fin: "finite ?T" "finite ?P" using tq_inv_finite assms by simp_all
  have un: "Min (insert (Min (insert ?b ?T)) ?P) = Min (insert ?b (?T \<union> ?P))"
  proof (cases "?P = {}")
    case False
    have "Min (insert ?b ?T \<union> ?P) = min (Min (insert ?b ?T)) (Min ?P)"
      using fin False by (intro Min_Un) simp_all
    then show ?thesis using fin False by simp
  qed simp
  have "backend_wait nb s = bind_res (least (timer_q s) (steady_clk s) ?b)
      (\<lambda>b1. bind_res (least (periodic_q s) (system_clk s) b1) (\<lambda>b2. Inr (if b2 < 1 then 1 else b2)))"
    by (simp add: backend_wait_def least_def Let_def if_distrib [of "\<lambda>x. bind_res x _"] cong: if_cong)
  also have "\<dots> = Inr (max 1 (Min (insert ?b (?T \<union> ?P))))"
    using least assms un by (simp add: max_def)
  finally show ?thesis by simp
qed

theorem backend_wait_exact_witness: "\<exists>w. backend_wait 10 ev_init = Inr w \<and> w = 10"
proof -
  have "tq_inv (timer_q ev_init)" "tq_inv (periodic_q ev_init)"
    by (simp_all add: ev_init_def tq_inv_init)
  from backend_wait_exact [OF this, of 10] show ?thesis
    by (simp add: ev_init_def tq_active_def tqueue_init_def tq_tm_def)
qed

section \<open>Time\<close>

lemma time_loop_steady:
  assumes "\<And>k. sy k = d + st k" "system_clk s = d + steady_clk s" "system_now s = c_div (system_clk s) 1000"
  shows "let s' = time_loop (Suc n) k old st sy s in
           clock_diff s' = d \<and> system_clk s' = d + steady_clk s' \<and>
           system_now s' = c_div (system_clk s') 1000 \<and> steady_clk s' \<in> insert (steady_clk s) (range st)"
  using assms(2,3)
proof (induction n arbitrary: k s)
  case 0
  then show ?case using assms(1) by (simp add: Let_def)
next
  case (Suc n)
  let ?s1 = "s\<lparr>clock_diff := system_clk s - steady_clk s, system_clk := sy k, system_now := c_div (sy k) 1000,
      steady_clk := st k, last_clk_update := st k\<rparr>"
  have "let s' = time_loop (Suc n) (k + 1) old st sy ?s1 in
           clock_diff s' = d \<and> system_clk s' = d + steady_clk s' \<and>
           system_now s' = c_div (system_clk s') 1000 \<and> steady_clk s' \<in> insert (steady_clk ?s1) (range st)"
    by (rule Suc.IH) (simp_all add: assms(1))
  then show ?case using Suc.prems by (subst time_loop.simps) (auto simp: Let_def)
qed

text \<open>
  while the UTC clock runs a constant offset ahead of the steady clock, an update of the
  time leaves both clocks and the cached offset consistent, whether it reads the UTC clock or
  computes it. When the offset has been changed from outside, the update that next reads the
  UTC clock picks the new offset up at once.
\<close>

theorem time_update_consistent:
  assumes "\<And>k. sy k = d + st k"
    and "clock_diff s = d \<or> MIN_TIMEJUMP \<le> 2 * (st 0 - last_clk_update s)"
  shows "let s' = time_update st sy s in
           clock_diff s' = d \<and> system_clk s' = d + steady_clk s' \<and>
           system_now s' = c_div (system_clk s') 1000 \<and> steady_clk s' \<in> range st"
proof (cases "st 0 - last_clk_update s < c_div MIN_TIMEJUMP 2")
  case True
  then have "clock_diff s = d" using assms(2) by (simp add: MIN_TIMEJUMP_def c_div_def)
  then show ?thesis using True by (simp add: time_update_def Let_def)
next
  case False
  let ?b = "s\<lparr>steady_clk := st 0, last_clk_update := st 0, system_clk := sy 0, system_now := c_div (sy 0) 1000\<rparr>"
  have "let s' = time_loop (Suc 2) 1 (clock_diff s) st sy ?b in
           clock_diff s' = d \<and> system_clk s' = d + steady_clk s' \<and>
           system_now s' = c_div (system_clk s') 1000 \<and> steady_clk s' \<in> insert (steady_clk ?b) (range st)"
    by (rule time_loop_steady) (simp_all add: assms(1))
  moreover have "time_update st sy s = time_loop (Suc 2) 1 (clock_diff s) st sy ?b"
    using False by (simp add: time_update_def Let_def numeral_3_eq_3 numeral_2_eq_2 del: time_loop.simps)
  ultimately show ?thesis by (simp add: insert_absorb del: time_loop.simps)
qed

theorem time_update_consistent_witness:
  "system_clk (time_update (\<lambda>k. 7 + int k) (\<lambda>k. 5000 + (7 + int k)) ev_init) \<ge> 5007"
proof -
  have "clock_diff ev_init = 5000 \<or> MIN_TIMEJUMP \<le> 2 * (7 + int 0 - last_clk_update ev_init)"
    by (simp add: ev_init_def MIN_TIMEJUMP_def)
  then have "MIN_TIMEJUMP \<le> 2 * (7 + int 0 - last_clk_update ev_init)"
    by (simp add: ev_init_def MIN_TIMEJUMP_def)
  with time_update_consistent [of "\<lambda>k. 5000 + (7 + int k)" 5000 "\<lambda>k. 7 + int k" ev_init]
  show ?thesis by (auto simp: Let_def)
qed

section \<open>Where the UTC timers differ\<close>

lemma w_set_periodic:
  "w_set (WPeriodic i) p r s = s\<lparr>periodic_q := tq_upd i (\<lambda>t. t\<lparr>tm_pending := p, tm_revents := r\<rparr>) (periodic_q s)\<rparr>"
  by (simp add: w_set_def)

text \<open>
  C33: a one-shot UTC timer that falls due is never called back. \<open>periodic_reify\<close> queues the
  event before it stops the timer, and stopping a timer clears its pending event; so the timer
  leaves the heap and nothing is queued for it. (\<open>timers_reify\<close> stops first and queues then.)
\<close>

theorem periodic_oneshot_lost:
  assumes ok: "pend_ok s" "tq_inv (periodic_q s)" "tq_cnt (periodic_q s) \<noteq> 0"
    and root: "hnode (tq_heap (periodic_q s)) 1 = Inr (i, t)" "tm_repeat t = 0"
    and due: "tm_at t \<le> system_clk s" "tm_at t \<le> system_now s * 1000"
  shows "\<exists>s'. periodic_step s = Inr (Some s') \<and> tq_cnt (periodic_q s') = tq_cnt (periodic_q s) - 1 \<and>
           Some (WPeriodic i) \<notin> set (pendings s') \<and> (\<exists>r. w_get s' (WPeriodic i) = Some (0, r))"
proof -
  let ?w = "WPeriodic i" and ?q = "periodic_q s"
  have t: "tq_tm ?q i = Some t" "tm_index t = 1" using tq_root [OF ok(2,3)] root(1) by auto
  have g: "w_get s ?w = Some (tm_pending t, tm_revents t)" using t by (simp add: w_get_def)
  obtain p1 r1 ps1 where fed: "feed_event ?w EV_TIMER s = Inr (w_set ?w p1 r1 (s\<lparr>pendings := ps1\<rparr>))"
      "pend_ok (w_set ?w p1 r1 (s\<lparr>pendings := ps1\<rparr>))"
    using feed_event_ok [OF ok(1) g] by blast
  let ?a = "w_set ?w p1 r1 (s\<lparr>pendings := ps1\<rparr>)"
  have ga: "w_get ?a ?w = Some (p1, r1)" using g by simp
  obtain r2 ps2 where clr: "clear_pending ?w ?a = Inr (w_set ?w 0 r2 (?a\<lparr>pendings := ps2\<rparr>))"
      "pend_ok (w_set ?w 0 r2 (?a\<lparr>pendings := ps2\<rparr>))"
    using clear_pending_ok [OF fed(2) ga] by blast
  let ?c = "w_set ?w 0 r2 (?a\<lparr>pendings := ps2\<rparr>)"
  let ?u = "t\<lparr>tm_pending := p1, tm_revents := r1\<rparr>" and ?v = "t\<lparr>tm_pending := 0, tm_revents := r2\<rparr>"
  have ta: "tq_tm (periodic_q ?a) i = Some ?u" and tc: "tq_tm (periodic_q ?c) i = Some ?v"
    using t(1) by (simp_all add: w_set_periodic)
  have inv: "tq_inv (periodic_q ?c)" unfolding w_set_periodic using ok(2) by (simp add: tq_inv_upd)
  have cnt: "tq_cnt (periodic_q ?c) = tq_cnt ?q" by (simp add: w_set_periodic)
  obtain q where q: "tq_remove 1 i (periodic_q ?c) = Inr q" "tq_cnt q = tq_cnt ?q - 1"
      "\<And>j. idx0 (tq_tm q j) = idx0 (tq_tm (periodic_q ?c) j)"
    using tq_remove_ok [OF inv tc] t(2) cnt by auto
  let ?d = "?c\<lparr>periodic_q := q\<rparr>"
  have stop: "periodic_stop_w i ?a = Inr ?d"
    using clr(1) tc q(1) t(2) by (simp add: periodic_stop_w_def tm_deref_def)
  have "tpr (tq_tm q j) = tpr (tq_tm (periodic_q ?c) j)" for j using tpr_idx0 [OF q(3)] .
  then have wd: "w_get ?d = w_get ?c" by (auto simp: fun_eq_iff w_get_def tpr_def split: watcher.splits)
  then have "pend_ok ?d" using clr(2) pend_ok_cong [of ?d ?c] by simp
  moreover have gd: "w_get ?d ?w = Some (0, r2)" using wd g by simp
  ultimately have "Some ?w \<notin> set (pendings ?d)" using pend_slots [of ?d ?w] by simp
  moreover have "periodic_step s = Inr (Some ?d)"
    using ok(3) root due t(2) fed(1) ta stop by (simp add: periodic_step_def tm_deref_def)
  ultimately show ?thesis using q(2) gd by (intro exI [of _ ?d]) auto
qed

text \<open>A queue that holds one timer.\<close>

definition one_timer :: "int \<Rightarrow> timer \<Rightarrow> tqueue" where
  "one_timer i t = \<lparr>tq_heap = \<lparr>hp_arr = [None, Some i], hp_tm = [i \<mapsto> t]\<rparr>, tq_cnt = 1\<rparr>"

lemma one_timer_inv: "tm_index t = 1 \<Longrightarrow> tq_inv (one_timer i t)"
  unfolding tq_inv_def
  by (intro exI [of _ "\<lambda>_. i"])
    (auto simp: one_timer_def tq_rep_def hrep_def heap_ord_def tq_active_def tq_tm_def inj_on_def split: if_splits)

lemma one_timer_simps [simp]:
  "tq_cnt (one_timer i t) = 1" "hnode (tq_heap (one_timer i t)) 1 = Inr (i, t)"
  "tq_tm (one_timer i t) = [i \<mapsto> t]"
  by (simp_all add: one_timer_def hnode_def tq_tm_def)

lemma one_timer_pend: "tm_pending t = 0 \<Longrightarrow> pend_ok (ev_init\<lparr>periodic_q := one_timer i t\<rparr>)"
  by (auto simp: pend_ok_def w_get_def ev_init_def tqueue_init_def tq_tm_def one_timer_def
      split: watcher.splits if_splits)

theorem periodic_oneshot_lost_witness:
  "\<exists>s'. periodic_step (ev_init\<lparr>periodic_q := one_timer 7 (timer_new\<lparr>tm_index := 1\<rparr>)\<rparr>) = Inr (Some s') \<and>
        Some (WPeriodic 7) \<notin> set (pendings s')"
proof -
  let ?t = "timer_new\<lparr>tm_index := 1\<rparr>"
  let ?s = "ev_init\<lparr>periodic_q := one_timer 7 ?t\<rparr>"
  have "pend_ok ?s" by (rule one_timer_pend) (simp add: timer_new_def)
  moreover have "tq_inv (periodic_q ?s)" using one_timer_inv [of ?t 7] by simp
  moreover have "tq_cnt (periodic_q ?s) \<noteq> 0" "hnode (tq_heap (periodic_q ?s)) 1 = Inr (7, ?t)"
    by (simp_all del: One_nat_def)
  moreover have "tm_repeat ?t = 0" "tm_at ?t \<le> system_clk ?s" "tm_at ?t \<le> system_now ?s * 1000"
    by (simp_all add: timer_new_def ev_init_def)
  ultimately show ?thesis using periodic_oneshot_lost [of ?s 7 ?t] by blast
qed

text \<open>
  a UTC timer that has fired once and is then stopped brings the loop down: stopping it the
  second time takes it out of the heap again (its \<open>_index\<close> was never reset), the count becomes
  -1, the timer is destroyed, and the next round reads through its address.
\<close>

theorem periodic_stop_twice:
  "\<exists>s1 s2 s3. periodic_start 7 0 0 P_NONE ev_init = Inr (1, s1) \<and> periodic_reify s1 = Some (Inr s2) \<and>
     periodic_stop 7 s2 = Inr (0, s3) \<and> tq_cnt (periodic_q s3) = -1 \<and>
     periodic_reify s3 = Some (Inl Dangling)"
proof -
  define t where "t = timer_new\<lparr>tm_index := 1\<rparr>"
  define arr where "arr = (replicate 1024 None)[1 := Some (7::int)]"
  have arr: "length arr = 1024" "arr ! 1 = Some 7" "arr[1 := Some 7] = arr" by (simp_all add: arr_def)
  define e1 where "e1 = ev_init\<lparr>periodic_q := \<lparr>tq_heap = \<lparr>hp_arr = arr, hp_tm = [7 \<mapsto> t]\<rparr>, tq_cnt = 1\<rparr>\<rparr>"
  define e2 where "e2 = e1\<lparr>periodic_q := (periodic_q e1)\<lparr>tq_cnt := 0\<rparr>, pendings := [None]\<rparr>"
  define e3 where "e3 = e2\<lparr>periodic_q := \<lparr>tq_heap = \<lparr>hp_arr = arr, hp_tm = Map.empty\<rparr>, tq_cnt = -1\<rparr>\<rparr>"
  have "periodic_start 7 0 0 P_NONE ev_init = Inr (1, e1)"
    using arr
    by (simp add: periodic_start_def tq_push_def ev_init_def tqueue_init_def tq_tm_def up_heap_def hnode_def
        up_loop.simps [of _ _ "Suc 0"] place_def timer_new_def P_NONE_def e1_def t_def arr_def)
  moreover have "periodic_step e1 = Inr (Some e2)"
    using arr
    by (simp add: periodic_step_def e1_def e2_def hnode_def t_def timer_new_def ev_init_def tq_tm_def
        feed_event_def w_deref_def w_get_def w_set_def tq_upd_def tm_deref_def periodic_stop_w_def
        clear_pending_def tq_remove_def)
  moreover have "periodic_step e2 = Inr None" by (simp add: periodic_step_def e2_def)
  ultimately have run: "periodic_start 7 0 0 P_NONE ev_init = Inr (1, e1)" "periodic_reify e1 = Some (Inr e2)"
    by (simp_all add: periodic_reify.simps [of e1] periodic_reify.simps [of e2])
  have stop: "periodic_stop 7 e2 = Inr (0, e3)"
    using arr
    by (simp add: periodic_stop_def periodic_stop_w_def clear_pending_def w_deref_def w_get_def e1_def e2_def
        e3_def t_def timer_new_def tq_tm_def tm_deref_def tq_remove_def tq_erase_def ev_init_def)
  have "periodic_step e3 = Inl Dangling"
    using arr by (simp add: periodic_step_def e3_def hnode_def)
  then have "periodic_reify e3 = Some (Inl Dangling)" by (simp add: periodic_reify.simps [of e3])
  then show ?thesis using run stop by (intro exI [of _ e1] exI [of _ e2] exI [of _ e3]) (simp add: e3_def)
qed



text \<open>
  a repeating UTC timer with the default policy that is behind by more than its period
  stops the program whenever the UTC clock is not at a whole second: it is set to the current
  millisecond, is found due again in the same round, and the assertion that a due timer is due
  in whole seconds fails.
\<close>

theorem periodic_lag_asserts:
  assumes ok: "pend_ok s" "tq_inv (periodic_q s)" "tq_cnt (periodic_q s) = 1"
    and root: "hnode (tq_heap (periodic_q s)) 1 = Inr (i, t)" "tm_policy t = P_NONE" "0 < tm_repeat t"
    and lag: "tm_at t + tm_repeat t < system_clk s" "tm_at t \<le> system_now s * 1000"
    and frac: "system_now s = c_div (system_clk s) 1000" "system_now s * 1000 < system_clk s"
  shows "periodic_reify s = Some (Inl AssertionFailed)"
proof -
  let ?w = "WPeriodic i" and ?q = "periodic_q s"
  have t: "tq_tm ?q i = Some t" "tm_index t = 1"
    using tq_root [OF ok(2)] ok(3) root(1) by auto
  have due: "tm_at t \<le> system_clk s" using root(3) lag(1) by linarith
  have g: "w_get s ?w = Some (tm_pending t, tm_revents t)" using t by (simp add: w_get_def)
  obtain p1 r1 ps1 where fed: "feed_event ?w EV_TIMER s = Inr (w_set ?w p1 r1 (s\<lparr>pendings := ps1\<rparr>))"
    using feed_event_ok [OF ok(1) g] by blast
  let ?a = "w_set ?w p1 r1 (s\<lparr>pendings := ps1\<rparr>)"
  let ?u = "t\<lparr>tm_pending := p1, tm_revents := r1\<rparr>" and ?v = "t\<lparr>tm_pending := p1, tm_revents := r1, tm_at := system_clk s\<rparr>"
  have a: "tq_inv (periodic_q ?a)" "tq_tm (periodic_q ?a) i = Some ?u" "tq_cnt (periodic_q ?a) = 1"
    "system_clk ?a = system_clk s" "system_now ?a = system_now s"
    using ok(2,3) t(1) by (simp_all add: w_set_periodic tq_inv_upd)
  obtain h where h: "down_heap 1 1 (tq_heap (tq_upd i (\<lambda>_. ?v) (periodic_q ?a))) = Inr h"
      "tq_inv ((periodic_q ?a)\<lparr>tq_heap := h\<rparr>)" "tq_active ((periodic_q ?a)\<lparr>tq_heap := h\<rparr>) = tq_active (periodic_q ?a)"
      "\<And>j. idx0 (hp_tm h j) = idx0 (((tq_tm (periodic_q ?a))(i \<mapsto> ?v)) j)"
    using tq_down_root [OF a(1,2), of ?v] t(2) a(3) due by auto
  let ?b = "?a\<lparr>periodic_q := (periodic_q ?a)\<lparr>tq_heap := h\<rparr>\<rparr>"
  have step: "periodic_step s = Inr (Some ?b)"
    using ok(3) root due lag t(2) fed a(2,3) h(1)
    by (simp add: periodic_step_def tm_deref_def reschedule_def Let_def P_NONE_def P_ALIGN_def P_SPIN_def)
  have cnt: "tq_cnt (periodic_q ?b) = 1" using a(3) by simp
  then obtain j u where j: "hnode (tq_heap (periodic_q ?b)) 1 = Inr (j, u)" "tq_tm (periodic_q ?b) j = Some u"
      "tm_index u = 1" "j \<in> tq_active (periodic_q ?b)"
    using tq_root [of "periodic_q ?b"] h(2) by auto
  obtain b where "tq_active (periodic_q ?a) = {b (1::nat)}" using a(1,3) by (auto simp: tq_inv_def)
  moreover have "i \<in> tq_active (periodic_q ?a)" using a(2) t(2) by (simp add: tq_active_def)
  ultimately have "j = i" using j(4) h(3) by auto
  then have "idx0 (Some u) = idx0 (Some ?v)" using h(4) [of i] j(2) by (simp add: tq_tm_def)
  then have "tm_at u = system_clk s" using idx0_fields(2) [of u ?v] by simp
  then have "periodic_step ?b = Inl AssertionFailed"
    using cnt j(1,3) frac(2) a(4,5) by (simp add: periodic_step_def check_def)
  then show ?thesis using step by (simp add: periodic_reify.simps [of s] periodic_reify.simps [of ?b])
qed

theorem periodic_lag_asserts_witness:
  "periodic_reify (ev_init\<lparr>periodic_q := one_timer 7 (timer_new\<lparr>tm_index := 1, tm_repeat := 1000\<rparr>),
     system_clk := 1500, system_now := 1\<rparr>) = Some (Inl AssertionFailed)"
proof -
  let ?t = "timer_new\<lparr>tm_index := 1, tm_repeat := 1000\<rparr>"
  let ?b = "ev_init\<lparr>periodic_q := one_timer 7 ?t\<rparr>"
  let ?s = "ev_init\<lparr>periodic_q := one_timer 7 ?t, system_clk := 1500, system_now := 1\<rparr>"
  have "pend_ok ?b" by (rule one_timer_pend) (simp add: timer_new_def)
  moreover have "w_get ?s = w_get ?b" by (auto simp: fun_eq_iff w_get_def split: watcher.splits)
  ultimately have "pend_ok ?s" using pend_ok_cong [of ?s ?b] by simp
  moreover have "tq_inv (periodic_q ?s)" using one_timer_inv [of ?t 7] by simp
  moreover have "tq_cnt (periodic_q ?s) = 1" "hnode (tq_heap (periodic_q ?s)) 1 = Inr (7, ?t)"
    by (simp_all del: One_nat_def)
  moreover have "tm_policy ?t = P_NONE" "0 < tm_repeat ?t" "tm_at ?t + tm_repeat ?t < system_clk ?s"
    "tm_at ?t \<le> system_now ?s * 1000" "system_now ?s = c_div (system_clk ?s) 1000"
    "system_now ?s * 1000 < system_clk ?s"
    by (simp_all add: timer_new_def ev_init_def c_div_def)
  ultimately show ?thesis by (rule periodic_lag_asserts)
qed

end
