(* ===== verification/EvIoCorrect.thy ===== *)
theory EvIoCorrect
  imports EvIo EvCorrect
begin

text \<open>
  Vectors of watcher pointers with the position stored in the watcher occur five times:
  \<open>_pendings\<close>, \<open>_io_changes\<close>, \<open>_io_fevents\<close>, \<open>_io_revents\<close> and \<open>_user_events\<close>. \<open>slots_ok\<close> is
  the consistency they share. Applying the changes of the main thread keeps all five and the
  descriptor table consistent and forgets the deleted watchers everywhere, under conditions
  that the code does not enforce; the last section shows what happens without them.
\<close>

declare split_paired_All [simp del] split_paired_Ex [simp del]

section \<open>Vectors with back indices\<close>

definition slots_ok :: "('w \<Rightarrow> nat option) \<Rightarrow> 'w option list \<Rightarrow> bool" where
  "slots_ok ix xs \<longleftrightarrow>
     (\<forall>w p. ix w = Some p \<and> p \<noteq> 0 \<longrightarrow> p \<le> length xs \<and> xs ! (p - 1) = Some w) \<and>
     (\<forall>j w. j < length xs \<and> xs ! j = Some w \<longrightarrow> ix w = Some (j + 1))"

lemma slots_okD:
  assumes "slots_ok ix xs"
  shows "ix w = Some p \<Longrightarrow> p \<noteq> 0 \<Longrightarrow> p \<le> length xs \<and> xs ! (p - 1) = Some w"
    and "j < length xs \<Longrightarrow> xs ! j = Some w \<Longrightarrow> ix w = Some (j + 1)"
  using assms unfolding slots_ok_def by blast+

lemma slots_okI:
  assumes "\<And>w p. ix w = Some p \<Longrightarrow> p \<noteq> 0 \<Longrightarrow> p \<le> length xs \<and> xs ! (p - 1) = Some w"
    and "\<And>j w. j < length xs \<Longrightarrow> xs ! j = Some w \<Longrightarrow> ix w = Some (j + 1)"
  shows "slots_ok ix xs"
  using assms unfolding slots_ok_def by blast

lemma slots_ok_Nil: "slots_ok ix [] \<longleftrightarrow> (\<forall>w p. ix w = Some p \<longrightarrow> p = 0)"
  by (auto simp: slots_ok_def)

lemma slots_mem:
  assumes "slots_ok ix xs"
  shows "Some w \<in> set xs \<longleftrightarrow> (\<exists>p. ix w = Some p \<and> p \<noteq> 0)"
proof
  assume "Some w \<in> set xs"
  then obtain j where "j < length xs" "xs ! j = Some w" by (auto simp: in_set_conv_nth)
  then show "\<exists>p. ix w = Some p \<and> p \<noteq> 0" using slots_okD(2) [OF assms] by auto
next
  assume "\<exists>p. ix w = Some p \<and> p \<noteq> 0"
  then obtain p where p: "ix w = Some p" "p \<noteq> 0" by blast
  then have "p - 1 < length xs" "xs ! (p - 1) = Some w" using slots_okD(1) [OF assms, of w p] by auto
  then show "Some w \<in> set xs" using nth_mem by metis
qed

lemma slots_push:
  assumes ok: "slots_ok ix xs" and w: "ix w = Some 0"
  shows "slots_ok (ix(w \<mapsto> length xs + 1)) (xs @ [Some w])"
proof (rule slots_okI)
  fix v p assume "(ix(w \<mapsto> length xs + 1)) v = Some p" "p \<noteq> 0"
  then show "p \<le> length (xs @ [Some w]) \<and> (xs @ [Some w]) ! (p - 1) = Some v"
    using slots_okD(1) [OF ok, of v p] by (cases "v = w") (auto simp: nth_append)
next
  fix j v assume j: "j < length (xs @ [Some w])" "(xs @ [Some w]) ! j = Some v"
  show "(ix(w \<mapsto> length xs + 1)) v = Some (j + 1)"
  proof (cases "j = length xs")
    case False
    then have "ix v = Some (j + 1)" using j slots_okD(2) [OF ok, of j v] by (simp add: nth_append)
    then show ?thesis using w by auto
  qed (use j in auto)
qed

lemma slots_clear:
  assumes ok: "slots_ok ix xs" and w: "ix w = Some p" "p \<noteq> 0"
  shows "slots_ok (ix(w \<mapsto> 0)) (xs[p - 1 := None])"
proof (rule slots_okI)
  have p: "p \<le> length xs" "xs ! (p - 1) = Some w" using slots_okD(1) [OF ok w] by auto
  fix v q assume q: "(ix(w \<mapsto> 0)) v = Some q" "q \<noteq> 0"
  then have v: "v \<noteq> w" "ix v = Some q" by (auto split: if_splits)
  then have "q \<le> length xs" "xs ! (q - 1) = Some v" using slots_okD(1) [OF ok, of v q] q(2) by auto
  moreover have "q - 1 \<noteq> p - 1" using calculation(2) p(2) v(1) by auto
  ultimately show "q \<le> length (xs[p - 1 := None]) \<and> xs[p - 1 := None] ! (q - 1) = Some v" by simp
next
  fix j v assume j: "j < length (xs[p - 1 := None])" "xs[p - 1 := None] ! j = Some v"
  then have "j \<noteq> p - 1" by auto
  then have v: "ix v = Some (j + 1)" using j slots_okD(2) [OF ok, of j v] by simp
  then have "v \<noteq> w" using w \<open>j \<noteq> p - 1\<close> by auto
  then show "(ix(w \<mapsto> 0)) v = Some (j + 1)" using v by simp
qed

lemma slots_forget: "slots_ok ix xs \<Longrightarrow> ix w = Some 0 \<Longrightarrow> slots_ok (ix(w := None)) xs"
  unfolding slots_ok_def by (auto split: if_splits)

text \<open>The pending vector is one of them.\<close>

lemma pend_ok_slots: "pend_ok s \<longleftrightarrow> slots_ok (\<lambda>w. map_option fst (w_get s w)) (pendings s)"
proof
  assume ok: "pend_ok s"
  show "slots_ok (\<lambda>w. map_option fst (w_get s w)) (pendings s)"
  proof (rule slots_okI)
    fix w p assume "map_option fst (w_get s w) = Some p" "p \<noteq> 0"
    then obtain r where "w_get s w = Some (p, r)" by auto
    then show "p \<le> length (pendings s) \<and> pendings s ! (p - 1) = Some w"
      using ok \<open>p \<noteq> 0\<close> unfolding pend_ok_def by blast
  next
    fix j w assume "j < length (pendings s)" "pendings s ! j = Some w"
    then have "\<exists>r. w_get s w = Some (j + 1, r)" using ok by (simp add: pend_ok_def)
    then show "map_option fst (w_get s w) = Some (j + 1)" by auto
  qed
next
  assume ok: "slots_ok (\<lambda>w. map_option fst (w_get s w)) (pendings s)"
  show "pend_ok s" unfolding pend_ok_def
  proof (intro conjI allI impI)
    fix w p r assume "w_get s w = Some (p, r) \<and> p \<noteq> 0"
    then show "p \<le> length (pendings s)" "pendings s ! (p - 1) = Some w"
      using slots_okD(1) [OF ok, of w p] by auto
  next
    fix j w assume "j < length (pendings s) \<and> pendings s ! j = Some w"
    then have "map_option fst (w_get s w) = Some (j + 1)" using slots_okD(2) [OF ok, of j w] by simp
    then show "\<exists>r. w_get s w = Some (j + 1, r)" by auto
  qed
qed

section \<open>The io state\<close>

definition rev_ix :: "ev \<Rightarrow> int \<Rightarrow> nat option" where
  "rev_ix s i = map_option io_b_revent_index (io_mgr s i)"

definition fev_ix :: "ev \<Rightarrow> int \<Rightarrow> nat option" where
  "fev_ix s i = map_option (\<lambda>w. nat (io_b_fevent_index w)) (io_mgr s i)"

definition user_ix :: "ev \<Rightarrow> int \<Rightarrow> nat option" where
  "user_ix s i = map_option io_b_uevent_index (io_mgr s i)"

definition pend_ix :: "ev \<Rightarrow> watcher \<Rightarrow> nat option" where
  "pend_ix s w = map_option fst (w_get s w)"

definition fd_small :: "int \<Rightarrow> bool" where
  "fd_small fd \<longleftrightarrow> 0 \<le> fd \<and> fd < HUGE_FD"

definition fd_lookup :: "backend \<Rightarrow> int \<Rightarrow> int option" where
  "fd_lookup b fd =
     (if fd_small fd then (if nat fd < length (be_fdw b) then be_fdw b ! nat fd else None) else be_huge b fd)"

definition fd_fits :: "backend \<Rightarrow> int \<Rightarrow> bool" where
  "fd_fits b fd \<longleftrightarrow> fd_small fd \<longrightarrow> nat fd < length (be_fdw b)"

text \<open>A watcher is registered once its first change has been applied.\<close>

definition reg_fd :: "ev \<Rightarrow> int \<Rightarrow> int option" where
  "reg_fd s i = (case io_mgr s i of
     None \<Rightarrow> None | Some w \<Rightarrow> if 0 \<le> io_b_fevent_index w then Some (io_fd w) else None)"

definition inverse_maps :: "('a \<rightharpoonup> 'b) \<Rightarrow> ('b \<rightharpoonup> 'a) \<Rightarrow> bool" where
  "inverse_maps f g \<longleftrightarrow> (\<forall>a b. f a = Some b \<longleftrightarrow> g b = Some a)"

lemma inverse_remove:
  assumes "inverse_maps f g" "g b = Some a"
  shows "inverse_maps (f(a := None)) (g(b := None))"
proof -
  have inv: "f x = Some y \<longleftrightarrow> g y = Some x" for x y using assms(1) by (simp add: inverse_maps_def)
  show ?thesis unfolding inverse_maps_def
  proof (intro allI)
    fix x y
    show "(f(a := None)) x = Some y \<longleftrightarrow> (g(b := None)) y = Some x"
      using inv [of x y] inv [of a y] inv [of a b] assms(2) by (cases "x = a"; cases "y = b") auto
  qed
qed

lemma inverse_add:
  assumes "inverse_maps f g" "f a = None" "g b = None"
  shows "inverse_maps (f(a \<mapsto> b)) (g(b \<mapsto> a))"
proof -
  have inv: "f x = Some y \<longleftrightarrow> g y = Some x" for x y using assms(1) by (simp add: inverse_maps_def)
  show ?thesis unfolding inverse_maps_def
  proof (intro allI)
    fix x y
    show "(f(a \<mapsto> b)) x = Some y \<longleftrightarrow> (g(b \<mapsto> a)) y = Some x"
      using inv [of x y] inv [of a y] inv [of x b] assms(2,3) by (cases "x = a"; cases "y = b") auto
  qed
qed

definition fd_ok :: "iosys \<Rightarrow> bool" where
  "fd_ok y \<longleftrightarrow> inverse_maps (fd_lookup (sb y)) (reg_fd (se y))"

definition io_slots :: "iosys \<Rightarrow> bool" where
  "io_slots y \<longleftrightarrow> slots_ok (pend_ix (se y)) (pendings (se y)) \<and> slots_ok (rev_ix (se y)) (io_revs (se y)) \<and>
     slots_ok (fev_ix (se y)) (io_fevents (se y)) \<and>
     slots_ok (user_ix (se y)) (map Some (be_user (sb y)))"

definition io_ok :: "iosys \<Rightarrow> bool" where
  "io_ok y \<longleftrightarrow> io_slots y \<and> fd_ok y"

lemma io_upd_simps [simp]:
  "io_mgr (io_upd i f s) j = (if j = i then map_option f (io_mgr s i) else io_mgr s j)"
  "pendings (io_upd i f s) = pendings s" "io_revs (io_upd i f s) = io_revs s"
  "io_fevents (io_upd i f s) = io_fevents s" "io_changes (io_upd i f s) = io_changes s"
  "io_delete_index (io_upd i f s) = io_delete_index s"
  "timer_q (io_upd i f s) = timer_q s" "periodic_q (io_upd i f s) = periodic_q s"
  by (simp_all add: io_upd_def)

lemma ix_upd:
  "rev_ix (io_upd i f s) = (rev_ix s)(i := map_option (\<lambda>w. io_b_revent_index (f w)) (io_mgr s i))"
  "fev_ix (io_upd i f s) = (fev_ix s)(i := map_option (\<lambda>w. nat (io_b_fevent_index (f w))) (io_mgr s i))"
  "user_ix (io_upd i f s) = (user_ix s)(i := map_option (\<lambda>w. io_b_uevent_index (f w)) (io_mgr s i))"
  "pend_ix (io_upd i f s) = (pend_ix s)(WIo i := map_option (\<lambda>w. io_pending (f w)) (io_mgr s i))"
  by (auto simp: rev_ix_def fev_ix_def user_ix_def pend_ix_def w_get_def fun_eq_iff option.map_comp comp_def
      split: watcher.splits)

lemma ix_io:
  assumes "io_mgr s i = Some w"
  shows "rev_ix s i = Some (io_b_revent_index w)" "fev_ix s i = Some (nat (io_b_fevent_index w))"
    "user_ix s i = Some (io_b_uevent_index w)" "pend_ix s (WIo i) = Some (io_pending w)"
  using assms by (simp_all add: rev_ix_def fev_ix_def user_ix_def pend_ix_def w_get_def)

lemma ix_erase:
  "rev_ix (s\<lparr>io_mgr := (io_mgr s)(i := None)\<rparr>) = (rev_ix s)(i := None)"
  "fev_ix (s\<lparr>io_mgr := (io_mgr s)(i := None)\<rparr>) = (fev_ix s)(i := None)"
  "user_ix (s\<lparr>io_mgr := (io_mgr s)(i := None)\<rparr>) = (user_ix s)(i := None)"
  "pend_ix (s\<lparr>io_mgr := (io_mgr s)(i := None)\<rparr>) = (pend_ix s)(WIo i := None)"
  by (auto simp: rev_ix_def fev_ix_def user_ix_def pend_ix_def w_get_def fun_eq_iff split: watcher.splits)

lemma ix_cong:
  "rev_ix (s\<lparr>pendings := ps\<rparr>) = rev_ix s" "fev_ix (s\<lparr>pendings := ps\<rparr>) = fev_ix s"
  "user_ix (s\<lparr>pendings := ps\<rparr>) = user_ix s" "pend_ix (s\<lparr>pendings := ps\<rparr>) = pend_ix s"
  "rev_ix (s\<lparr>io_revs := rs\<rparr>) = rev_ix s" "fev_ix (s\<lparr>io_revs := rs\<rparr>) = fev_ix s"
  "user_ix (s\<lparr>io_revs := rs\<rparr>) = user_ix s" "pend_ix (s\<lparr>io_revs := rs\<rparr>) = pend_ix s"
  "rev_ix (s\<lparr>io_fevents := rs\<rparr>) = rev_ix s" "fev_ix (s\<lparr>io_fevents := rs\<rparr>) = fev_ix s"
  "user_ix (s\<lparr>io_fevents := rs\<rparr>) = user_ix s" "pend_ix (s\<lparr>io_fevents := rs\<rparr>) = pend_ix s"
  "rev_ix (s\<lparr>io_changes := cs\<rparr>) = rev_ix s" "fev_ix (s\<lparr>io_changes := cs\<rparr>) = fev_ix s"
  "user_ix (s\<lparr>io_changes := cs\<rparr>) = user_ix s" "pend_ix (s\<lparr>io_changes := cs\<rparr>) = pend_ix s"
  "rev_ix (s\<lparr>io_delete_index := n\<rparr>) = rev_ix s" "fev_ix (s\<lparr>io_delete_index := n\<rparr>) = fev_ix s"
  "user_ix (s\<lparr>io_delete_index := n\<rparr>) = user_ix s" "pend_ix (s\<lparr>io_delete_index := n\<rparr>) = pend_ix s"
  by (auto simp: rev_ix_def fev_ix_def user_ix_def pend_ix_def w_get_def fun_eq_iff split: watcher.splits)

lemma map_upd_same: "f i = Some x \<Longrightarrow> x = y \<Longrightarrow> f(i \<mapsto> y) = f"
  by auto

text \<open>Updates of fields that no vector depends on.\<close>

lemma io_slots_upd:
  assumes ok: "io_slots y"
    and f: "\<And>w. io_b_revent_index (f w) = io_b_revent_index w" "\<And>w. io_b_fevent_index (f w) = io_b_fevent_index w"
      "\<And>w. io_b_uevent_index (f w) = io_b_uevent_index w" "\<And>w. io_pending (f w) = io_pending w"
  shows "io_slots (sys_upd i f y)"
proof -
  have "rev_ix (io_upd i f (se y)) = rev_ix (se y)" "fev_ix (io_upd i f (se y)) = fev_ix (se y)"
    "user_ix (io_upd i f (se y)) = user_ix (se y)" "pend_ix (io_upd i f (se y)) = pend_ix (se y)"
    unfolding ix_upd using f
    by (auto simp: rev_ix_def fev_ix_def user_ix_def pend_ix_def w_get_def fun_eq_iff option.map_comp comp_def)
  then show ?thesis using ok by (simp add: io_slots_def sys_upd_def)
qed

lemma reg_upd:
  assumes "\<And>w. io_b_fevent_index (f w) = io_b_fevent_index w" "\<And>w. io_fd (f w) = io_fd w"
  shows "reg_fd (io_upd i f s) = reg_fd s"
  using assms by (auto simp: reg_fd_def fun_eq_iff split: option.splits)

section \<open>The descriptor table\<close>

lemma set_fd_ok:
  assumes "fd_fits b fd"
  shows "\<exists>b'. set_fd_watcher fd w b = Inr b' \<and> fd_lookup b' = (fd_lookup b)(fd := w) \<and>
           be_user b' = be_user b \<and> length (be_fdw b') = length (be_fdw b) \<and> be_wakes b' = be_wakes b \<and>
           be_ctl b' = be_ctl b \<and> be_pending b' = be_pending b"
proof (cases "fd_small fd")
  case True
  then have "nat fd < length (be_fdw b)" using assms by (simp add: fd_fits_def)
  then show ?thesis using True
    by (intro exI [of _ "b\<lparr>be_fdw := (be_fdw b)[nat fd := w]\<rparr>"])
      (auto simp: set_fd_watcher_def fd_lookup_def fd_small_def fun_eq_iff nth_list_update)
next
  case False
  then show ?thesis
    by (intro exI [of _ "b\<lparr>be_huge := (be_huge b)(fd := w)\<rparr>"])
      (auto simp: set_fd_watcher_def fd_lookup_def fd_small_def fun_eq_iff)
qed

lemma get_fd_ok: "fd_fits b fd \<Longrightarrow> get_fd_watcher fd b = Inr (fd_lookup b fd)"
  by (auto simp: get_fd_watcher_def fd_lookup_def fd_small_def fd_fits_def)

section \<open>Deleting a watcher\<close>

lemma pend_ix_ok: "pend_ok s \<longleftrightarrow> slots_ok (pend_ix s) (pendings s)"
proof -
  have "pend_ix s = (\<lambda>w. map_option fst (w_get s w))" by (simp add: pend_ix_def fun_eq_iff)
  then show ?thesis using pend_ok_slots by simp
qed

lemma w_set_io: "w_set (WIo i) p r s = io_upd i (\<lambda>w. w\<lparr>io_pending := p, io_revents := r\<rparr>) s"
  by (simp add: w_set_def io_upd_def)

lemma clear_io_fast_ok:
  assumes ok: "slots_ok (fev_ix s) (io_fevents s)" and w: "io_mgr s i = Some w" "0 \<le> io_b_fevent_index w"
  shows "\<exists>fe. clear_io_fast_event i s = Inr (io_upd i (\<lambda>w. w\<lparr>io_b_fevent_index := 0\<rparr>) (s\<lparr>io_fevents := fe\<rparr>)) \<and>
           slots_ok ((fev_ix s)(i \<mapsto> 0)) fe"
proof (cases "io_b_fevent_index w = 0")
  case True
  have "io_upd i (\<lambda>w. w\<lparr>io_b_fevent_index := 0\<rparr>) s = s"
    using True w(1) by (auto simp: io_upd_def fun_eq_iff intro!: fun_upd_idem)
  moreover have "(fev_ix s)(i \<mapsto> 0) = fev_ix s" using True ix_io(2) [OF w(1)] by auto
  ultimately show ?thesis using True w ok
    by (intro exI [of _ "io_fevents s"]) (simp add: clear_io_fast_event_def io_get_def)
next
  case False
  have ix: "fev_ix s i = Some (nat (io_b_fevent_index w))" using ix_io(2) [OF w(1)] .
  have p: "nat (io_b_fevent_index w) \<noteq> 0" using False w(2) by simp
  have "nat (io_b_fevent_index w) \<le> length (io_fevents s)" using slots_okD(1) [OF ok ix p] by simp
  moreover have "nat (io_b_fevent_index w - 1) = nat (io_b_fevent_index w) - 1" by simp
  ultimately show ?thesis using False w slots_clear [OF ok ix p]
    by (intro exI [of _ "(io_fevents s)[nat (io_b_fevent_index w) - 1 := None]"])
      (simp add: clear_io_fast_event_def io_get_def check_def)
qed

lemma clear_io_receive_ok:
  assumes ok: "slots_ok (rev_ix s) (io_revs s)" and w: "io_mgr s i = Some w"
  shows "\<exists>re. clear_io_receive_event i s = Inr (io_upd i (\<lambda>w. w\<lparr>io_b_revent_index := 0\<rparr>) (s\<lparr>io_revs := re\<rparr>)) \<and>
           slots_ok ((rev_ix s)(i \<mapsto> 0)) re"
proof (cases "io_b_revent_index w = 0")
  case True
  have "io_upd i (\<lambda>w. w\<lparr>io_b_revent_index := 0\<rparr>) s = s"
    using True w(1) by (auto simp: io_upd_def fun_eq_iff intro!: fun_upd_idem)
  moreover have "(rev_ix s)(i \<mapsto> 0) = rev_ix s" using True ix_io(1) [OF w(1)] by auto
  ultimately show ?thesis using True w ok
    by (intro exI [of _ "io_revs s"]) (simp add: clear_io_receive_event_def io_get_def)
next
  case False
  have ix: "rev_ix s i = Some (io_b_revent_index w)" using ix_io(1) [OF w(1)] .
  have "io_b_revent_index w \<le> length (io_revs s)" using slots_okD(1) [OF ok ix False] by simp
  then show ?thesis using False w slots_clear [OF ok ix False]
    by (intro exI [of _ "(io_revs s)[io_b_revent_index w - 1 := None]"])
      (simp add: clear_io_receive_event_def io_get_def check_def)
qed

lemma reify_del_ok:
  assumes ok: "io_ok y" and w: "io_mgr (se y) i = Some w" "io_state w = S_DEL"
    and idle: "0 \<le> io_b_fevent_index w" "io_b_uevent_index w = 0" "fd_fits (sb y) (io_fd w)"
  shows "\<exists>ps fe re b. reify_one i (False, y) =
             Inr (False, y\<lparr>se := (se y)\<lparr>io_mgr := (io_mgr (se y))(i := None), pendings := ps, io_fevents := fe, io_revs := re\<rparr>,
                          sb := b\<rparr>) \<and>
           io_ok (y\<lparr>se := (se y)\<lparr>io_mgr := (io_mgr (se y))(i := None), pendings := ps, io_fevents := fe, io_revs := re\<rparr>,
                          sb := b\<rparr>) \<and>
           length (be_fdw b) = length (be_fdw (sb y)) \<and> be_user b = be_user (sb y)"
proof -
  let ?base = "se y" and ?za = "io_upd i (\<lambda>w. w\<lparr>io_change_index := 0\<rparr>) (se y)"
  let ?ya = "sys_upd i (\<lambda>w. w\<lparr>io_change_index := 0\<rparr>) y"
  have ok0: "io_slots ?ya" using ok by (intro io_slots_upd) (simp_all add: io_ok_def)
  have se0: "se ?ya = ?za" "sb ?ya = sb y" by (simp_all add: sys_upd_def)
  have pend: "pend_ok ?za" using ok0 by (simp add: io_slots_def se0 pend_ix_ok)
  have "w_get ?za (WIo i) = Some (io_pending w, io_revents w)" using w(1) by (simp add: w_get_def)
  then obtain r ps where clr: "clear_pending (WIo i) ?za = Inr (w_set (WIo i) 0 r (?za\<lparr>pendings := ps\<rparr>))"
      "pend_ok (w_set (WIo i) 0 r (?za\<lparr>pendings := ps\<rparr>))"
    using clear_pending_ok [OF pend] by blast
  let ?zb = "io_upd i (\<lambda>w. w\<lparr>io_pending := 0, io_revents := r\<rparr>) (?za\<lparr>pendings := ps\<rparr>)"
  have pend1: "slots_ok (pend_ix ?zb) ps" using clr(2) by (simp add: w_set_io pend_ix_ok)
  have ix1: "rev_ix ?zb = rev_ix ?base" "fev_ix ?zb = fev_ix ?base" "user_ix ?zb = user_ix ?base"
    unfolding ix_upd ix_cong using ix_io [OF w(1)] w(1) by (auto simp: fun_eq_iff)
  let ?wb = "w\<lparr>io_change_index := 0, io_pending := 0, io_revents := r\<rparr>"
  have w1: "io_mgr ?zb i = Some ?wb" using w(1) by simp
  have "slots_ok (fev_ix ?zb) (io_fevents ?zb)" using ok ix1(2) by (simp add: io_ok_def io_slots_def)
  then obtain fe where fe: "clear_io_fast_event i ?zb = Inr (io_upd i (\<lambda>w. w\<lparr>io_b_fevent_index := 0\<rparr>) (?zb\<lparr>io_fevents := fe\<rparr>))"
      "slots_ok ((fev_ix ?zb)(i \<mapsto> 0)) fe"
    using clear_io_fast_ok [OF _ w1] idle(1) by auto
  let ?zc = "io_upd i (\<lambda>w. w\<lparr>io_b_fevent_index := 0\<rparr>) (?zb\<lparr>io_fevents := fe\<rparr>)"
  have ix2: "rev_ix ?zc = rev_ix ?base" "user_ix ?zc = user_ix ?base" "pend_ix ?zc = pend_ix ?zb"
    unfolding ix_upd ix_cong using ix_io [OF w(1)] w(1) by (auto simp: fun_eq_iff)
  have w2: "io_mgr ?zc i = Some (?wb\<lparr>io_b_fevent_index := 0\<rparr>)" using w(1) by simp
  have "slots_ok (rev_ix ?zc) (io_revs ?zc)" using ok ix2(1) by (simp add: io_ok_def io_slots_def)
  then obtain re where re: "clear_io_receive_event i ?zc = Inr (io_upd i (\<lambda>w. w\<lparr>io_b_revent_index := 0\<rparr>) (?zc\<lparr>io_revs := re\<rparr>))"
      "slots_ok ((rev_ix ?zc)(i \<mapsto> 0)) re"
    using clear_io_receive_ok [OF _ w2] by auto
  let ?zd = "io_upd i (\<lambda>w. w\<lparr>io_b_revent_index := 0\<rparr>) (?zc\<lparr>io_revs := re\<rparr>)"
  let ?ze = "?base\<lparr>io_mgr := (io_mgr ?base)(i := None), pendings := ps, io_fevents := fe, io_revs := re\<rparr>"
  have s4: "?zd\<lparr>io_mgr := (io_mgr ?zd)(i := None)\<rparr> = ?ze" by (simp add: io_upd_def)
  obtain b where b: "set_fd_watcher (io_fd w) None (sb y) = Inr b"
      "fd_lookup b = (fd_lookup (sb y))(io_fd w := None)" "be_user b = be_user (sb y)"
      "length (be_fdw b) = length (be_fdw (sb y))"
    using set_fd_ok [OF idle(3), of None] by blast
  have run: "reify_one i (False, y) = Inr (False, y\<lparr>se := ?ze, sb := b\<rparr>)"
    using w clr(1) fe(1) re(1) b(1) s4
    by (simp add: reify_one_def sys_get_def io_get_def on_ev_def on_be_def sys_upd_def w_set_io)
  have m4: "rev_ix ?ze = (rev_ix ?base)(i := None)" "fev_ix ?ze = (fev_ix ?base)(i := None)"
    "user_ix ?ze = (user_ix ?base)(i := None)" "pend_ix ?ze = (pend_ix ?zb)(WIo i := None)"
    unfolding ix_cong ix_erase
    by (auto simp: ix_upd ix_cong fun_eq_iff)
  have "slots_ok (rev_ix ?ze) re" "slots_ok (fev_ix ?ze) fe" "slots_ok (pend_ix ?ze) ps"
    "slots_ok (user_ix ?ze) (map Some (be_user b))"
    using slots_forget [OF re(2), of i] slots_forget [OF fe(2), of i] slots_forget [OF pend1, of "WIo i"]
      slots_forget [of "user_ix ?base" _ i] ok b(3) ix_io(3) [OF w(1)] idle(2) ix_io(4) [OF w1]
    by (simp_all add: m4 ix1 ix2 io_ok_def io_slots_def)
  moreover have "fd_ok (y\<lparr>se := ?ze, sb := b\<rparr>)"
  proof -
    have reg: "reg_fd ?ze = (reg_fd ?base)(i := None)" by (auto simp: reg_fd_def fun_eq_iff)
    have ri: "reg_fd ?base i = Some (io_fd w)" using w(1) idle(1) by (simp add: reg_fd_def)
    have "inverse_maps (fd_lookup (sb y)) (reg_fd ?base)" using ok by (simp add: io_ok_def fd_ok_def)
    from inverse_remove [OF this ri] show ?thesis by (simp add: fd_ok_def b(2) reg)
  qed
  ultimately have "io_ok (y\<lparr>se := ?ze, sb := b\<rparr>)" by (simp add: io_ok_def io_slots_def)
  then show ?thesis using run b(3,4) by blast
qed

section \<open>Applying the other changes\<close>

lemma modify_ok:
  assumes ok: "io_slots y" and w: "io_mgr (se y) i = Some w"
  shows "\<exists>k us. modify i y = Inr (y\<lparr>se := io_upd i (\<lambda>w. w\<lparr>io_b_uevents := io_uevents w, io_b_uevent_index := k\<rparr>) (se y),
              sb := (sb y)\<lparr>be_user := us\<rparr>\<rparr>) \<and>
           io_slots (y\<lparr>se := io_upd i (\<lambda>w. w\<lparr>io_b_uevents := io_uevents w, io_b_uevent_index := k\<rparr>) (se y),
              sb := (sb y)\<lparr>be_user := us\<rparr>\<rparr>) \<and> k \<noteq> 0"
proof -
  have u: "slots_ok (user_ix (se y)) (map Some (be_user (sb y)))" using ok by (simp add: io_slots_def)
  have ix: "user_ix (se y) i = Some (io_b_uevent_index w)" using ix_io(3) [OF w] .
  let ?k = "if io_b_uevent_index w = 0 then length (be_user (sb y)) + 1 else io_b_uevent_index w"
  let ?us = "if io_b_uevent_index w = 0 then be_user (sb y) @ [i] else be_user (sb y)"
  let ?x = "io_upd i (\<lambda>w. w\<lparr>io_b_uevents := io_uevents w, io_b_uevent_index := ?k\<rparr>) (se y)"
  have run: "modify i y = Inr (y\<lparr>se := ?x, sb := (sb y)\<lparr>be_user := ?us\<rparr>\<rparr>)"
    using w by (cases y) (auto simp: modify_def modify_later_def sys_get_def io_get_def sys_upd_def io_upd_def)
  have ixs: "rev_ix ?x = rev_ix (se y)" "fev_ix ?x = fev_ix (se y)" "pend_ix ?x = pend_ix (se y)"
    "user_ix ?x = (user_ix (se y))(i \<mapsto> ?k)"
    unfolding ix_upd using ix_io [OF w] w by (auto simp: fun_eq_iff)
  have "slots_ok (user_ix ?x) (map Some ?us)"
  proof (cases "io_b_uevent_index w = 0")
    case True
    then show ?thesis unfolding ixs(4) using slots_push [OF u, of i] ix by simp
  next
    case False
    then have "user_ix ?x = user_ix (se y)" using ix ixs(4) by (auto simp: fun_eq_iff)
    then show ?thesis using u False by simp
  qed
  then have "io_slots (y\<lparr>se := ?x, sb := (sb y)\<lparr>be_user := ?us\<rparr>\<rparr>)"
    using ok ixs by (simp add: io_slots_def)
  then show ?thesis using run by (intro exI [of _ ?k] exI [of _ ?us]) simp
qed

lemma io_fast_event_ok:
  assumes ok: "slots_ok (fev_ix s) (io_fevents s)" and w: "io_mgr s i = Some w" "io_b_fevent_index w = 0"
  shows "io_fast_event i e s = Inr (io_fevents s = [],
           io_upd i (\<lambda>w. w\<lparr>io_b_fevents := or (io_b_fevents w) (ev8 e),
                          io_b_fevent_index := int (length (io_fevents s)) + 1\<rparr>)
             (s\<lparr>io_fevents := io_fevents s @ [Some i]\<rparr>)) \<and>
         slots_ok ((fev_ix s)(i \<mapsto> length (io_fevents s) + 1)) (io_fevents s @ [Some i])"
proof -
  have "fev_ix s i = Some 0" using ix_io(2) [OF w(1)] w(2) by simp
  then show ?thesis using slots_push [OF ok] w
    by (auto simp: io_fast_event_def io_get_def io_upd_def fun_eq_iff)
qed

text \<open>What applying a change does to the watcher.\<close>

definition applied :: "evio \<Rightarrow> evio \<Rightarrow> bool" where
  "applied w w' \<longleftrightarrow> io_fd w' = io_fd w \<and> io_change_index w' = 0 \<and>
     io_state w' = (if io_state w = S_NEW then S_START else io_state w) \<and>
     (io_state w \<noteq> S_NONE \<longrightarrow> io_b_uevents w' = io_uevents w \<and> io_b_uevent_index w' \<noteq> 0) \<and>
     (0 \<le> io_b_fevent_index w' \<longleftrightarrow> 0 \<le> io_b_fevent_index w \<or> io_state w = S_NEW) \<and>
     io_b_revents w' = io_b_revents w \<and> io_pending w' = io_pending w"

lemma iosys_comm: "y\<lparr>sb := b, se := s\<rparr> = y\<lparr>se := s, sb := (b::backend)\<rparr>"
  by (cases y) simp

lemma io_upd_Some: "io_mgr s i = Some w \<Longrightarrow> io_upd i f s = s\<lparr>io_mgr := (io_mgr s)(i \<mapsto> f w)\<rparr>"
  by (simp add: io_upd_def)

lemma reg_upd_io: "reg_fd (s\<lparr>io_mgr := (io_mgr s)(i \<mapsto> w)\<rparr>) = (reg_fd s)(i := if 0 \<le> io_b_fevent_index w then Some (io_fd w) else None)"
  by (auto simp: reg_fd_def fun_eq_iff)

lemma reg_cong: "io_mgr s = io_mgr t \<Longrightarrow> reg_fd s = reg_fd t"
  by (auto simp: reg_fd_def fun_eq_iff)

lemma fd_lookup_user [simp]: "fd_lookup (b\<lparr>be_user := us\<rparr>) = fd_lookup b" "fd_lookup (b\<lparr>be_wakes := n\<rparr>) = fd_lookup b"
  by (auto simp: fd_lookup_def fun_eq_iff)

text \<open>A watcher that stays: apply its status, then queue it for the back end.\<close>

lemma reify_modify_ok:
  assumes ok: "io_ok y" and w: "io_mgr (se y) i = Some w"
    and st: "io_state w = S_STOP \<or> io_state w = S_START"
  shows "\<exists>w' b. reify_one i (nd, y) = Inr (True, y\<lparr>se := (se y)\<lparr>io_mgr := (io_mgr (se y))(i \<mapsto> w')\<rparr>, sb := b\<rparr>) \<and>
           io_ok (y\<lparr>se := (se y)\<lparr>io_mgr := (io_mgr (se y))(i \<mapsto> w')\<rparr>, sb := b\<rparr>) \<and> applied w w' \<and>
           length (be_fdw b) = length (be_fdw (sb y)) \<and> fd_lookup b = fd_lookup (sb y)"
proof -
  let ?ya = "sys_upd i (\<lambda>w. w\<lparr>io_change_index := 0\<rparr>) y" and ?wa = "w\<lparr>io_change_index := 0\<rparr>"
  have ok0: "io_slots ?ya" using ok by (intro io_slots_upd) (simp_all add: io_ok_def)
  have wa: "io_mgr (se ?ya) i = Some ?wa" using w by (simp add: sys_upd_def)
  obtain k us where m: "modify i ?ya = Inr (?ya\<lparr>se := io_upd i (\<lambda>w. w\<lparr>io_b_uevents := io_uevents w, io_b_uevent_index := k\<rparr>) (se ?ya),
              sb := (sb ?ya)\<lparr>be_user := us\<rparr>\<rparr>)"
      "io_slots (?ya\<lparr>se := io_upd i (\<lambda>w. w\<lparr>io_b_uevents := io_uevents w, io_b_uevent_index := k\<rparr>) (se ?ya),
              sb := (sb ?ya)\<lparr>be_user := us\<rparr>\<rparr>)" "k \<noteq> 0"
    using modify_ok [OF ok0 wa] by blast
  let ?wb = "w\<lparr>io_change_index := 0, io_b_uevents := io_uevents w, io_b_uevent_index := k\<rparr>"
  let ?yb = "y\<lparr>se := (se y)\<lparr>io_mgr := (io_mgr (se y))(i \<mapsto> ?wb)\<rparr>, sb := (sb y)\<lparr>be_user := us\<rparr>\<rparr>"
  have eq: "?ya\<lparr>se := io_upd i (\<lambda>w. w\<lparr>io_b_uevents := io_uevents w, io_b_uevent_index := k\<rparr>) (se ?ya),
              sb := (sb ?ya)\<lparr>be_user := us\<rparr>\<rparr> = ?yb"
    using w by (simp add: sys_upd_def io_upd_def)
  have "reify_one i (nd, y) = Inr (True, ?yb)"
    using w st m(1) by (auto simp: reify_one_def sys_get_def io_get_def eq)
  moreover have "reg_fd (se ?yb) = reg_fd (se y)" using w by (auto simp: reg_upd_io reg_fd_def fun_eq_iff)
  then have "io_ok ?yb" using m(2) ok by (simp add: io_ok_def eq fd_ok_def)
  moreover have "applied w ?wb" using st m(3) by (auto simp: applied_def)
  ultimately show ?thesis by (intro exI [of _ ?wb] exI [of _ "(sb y)\<lparr>be_user := us\<rparr>"]) simp
qed

lemma reify_none_ok:
  assumes ok: "io_ok y" and w: "io_mgr (se y) i = Some w" and st: "io_state w = S_NONE"
  shows "reify_one i (nd, y) = Inr (True, y\<lparr>se := (se y)\<lparr>io_mgr := (io_mgr (se y))(i \<mapsto> w\<lparr>io_change_index := 0\<rparr>)\<rparr>\<rparr>) \<and>
         io_ok (y\<lparr>se := (se y)\<lparr>io_mgr := (io_mgr (se y))(i \<mapsto> w\<lparr>io_change_index := 0\<rparr>)\<rparr>\<rparr>) \<and>
         applied w (w\<lparr>io_change_index := 0\<rparr>)"
proof -
  let ?ya = "sys_upd i (\<lambda>w. w\<lparr>io_change_index := 0\<rparr>) y"
  have "io_slots ?ya" using ok by (intro io_slots_upd) (simp_all add: io_ok_def)
  moreover have eq: "?ya = y\<lparr>se := (se y)\<lparr>io_mgr := (io_mgr (se y))(i \<mapsto> w\<lparr>io_change_index := 0\<rparr>)\<rparr>\<rparr>"
    using w by (simp add: sys_upd_def io_upd_def)
  moreover have "fd_ok ?ya" using ok by (simp add: fd_ok_def io_ok_def sys_upd_def reg_upd)
  ultimately show ?thesis using w st
    by (simp add: reify_one_def sys_get_def io_get_def io_ok_def applied_def)
qed

lemma reify_new_ok:
  assumes ok: "io_ok y" and w: "io_mgr (se y) i = Some w" and st: "io_state w = S_NEW"
    and new: "io_b_fevent_index w = -1" "fd_fits (sb y) (io_fd w)" "fd_lookup (sb y) (io_fd w) = None"
  shows "\<exists>w' fe b. reify_one i (nd, y) =
             Inr (True, y\<lparr>se := (se y)\<lparr>io_mgr := (io_mgr (se y))(i \<mapsto> w'), io_fevents := fe\<rparr>, sb := b\<rparr>) \<and>
           io_ok (y\<lparr>se := (se y)\<lparr>io_mgr := (io_mgr (se y))(i \<mapsto> w'), io_fevents := fe\<rparr>, sb := b\<rparr>) \<and>
           applied w w' \<and> length (be_fdw b) = length (be_fdw (sb y)) \<and>
           fd_lookup b = (fd_lookup (sb y))(io_fd w \<mapsto> i)"
proof -
  let ?ya = "sys_upd i (\<lambda>w. w\<lparr>io_change_index := 0, io_state := S_START\<rparr>) y"
  obtain b where b: "set_fd_watcher (io_fd w) (Some i) (sb y) = Inr b"
      "fd_lookup b = (fd_lookup (sb y))(io_fd w \<mapsto> i)" "be_user b = be_user (sb y)"
      "length (be_fdw b) = length (be_fdw (sb y))"
    using set_fd_ok [OF new(2), of "Some i"] by blast
  have ok0: "io_slots ?ya" using ok by (intro io_slots_upd) (simp_all add: io_ok_def)
  let ?yb = "?ya\<lparr>sb := b\<rparr>"
  have okb: "io_slots ?yb" using ok0 b(3) by (simp add: io_slots_def sys_upd_def)
  have wb: "io_mgr (se ?yb) i = Some (w\<lparr>io_change_index := 0, io_state := S_START\<rparr>)" using w by (simp add: sys_upd_def)
  obtain k us where m: "modify i ?yb = Inr (?yb\<lparr>se := io_upd i (\<lambda>w. w\<lparr>io_b_uevents := io_uevents w, io_b_uevent_index := k\<rparr>) (se ?yb),
              sb := (sb ?yb)\<lparr>be_user := us\<rparr>\<rparr>)"
      "io_slots (?yb\<lparr>se := io_upd i (\<lambda>w. w\<lparr>io_b_uevents := io_uevents w, io_b_uevent_index := k\<rparr>) (se ?yb),
              sb := (sb ?yb)\<lparr>be_user := us\<rparr>\<rparr>)" "k \<noteq> 0"
    using modify_ok [OF okb wb] by blast
  let ?wc = "w\<lparr>io_change_index := 0, io_state := S_START, io_b_uevents := io_uevents w, io_b_uevent_index := k\<rparr>"
  let ?b = "b\<lparr>be_user := us\<rparr>"
  let ?yc = "y\<lparr>se := (se y)\<lparr>io_mgr := (io_mgr (se y))(i \<mapsto> ?wc)\<rparr>, sb := ?b\<rparr>"
  have eq: "?yb\<lparr>se := io_upd i (\<lambda>w. w\<lparr>io_b_uevents := io_uevents w, io_b_uevent_index := k\<rparr>) (se ?yb),
              sb := (sb ?yb)\<lparr>be_user := us\<rparr>\<rparr> = ?yc"
    using w by (simp add: sys_upd_def io_upd_def)
  let ?wd = "?wc\<lparr>io_b_fevent_index := 0\<rparr>"
  let ?sd = "(se y)\<lparr>io_mgr := (io_mgr (se y))(i \<mapsto> ?wd)\<rparr>"
  have ixd: "rev_ix ?sd = rev_ix (se ?yc)" "pend_ix ?sd = pend_ix (se ?yc)" "user_ix ?sd = user_ix (se ?yc)"
      "fev_ix ?sd = fev_ix (se ?yc)"
    using new(1) by (auto simp: rev_ix_def fev_ix_def user_ix_def pend_ix_def w_get_def fun_eq_iff split: watcher.splits)
  have sl: "io_slots (y\<lparr>se := ?sd, sb := ?b\<rparr>)" using m(2) unfolding eq by (simp add: io_slots_def ixd)
  have regy: "reg_fd (se y) i = None" using w new(1) by (simp add: reg_fd_def)
  have inv: "inverse_maps (fd_lookup ?b) ((reg_fd (se y))(i \<mapsto> io_fd w))"
    using inverse_add [of "fd_lookup (sb y)" "reg_fd (se y)" "io_fd w" i] new(3) regy ok b(2)
    by (simp add: io_ok_def fd_ok_def)
  have step: "reify_one i (nd, y) =
      (if io_b_fevents w \<noteq> 0
       then bind_res (io_fast_event i (ev32 (io_b_fevents w)) ?sd) (\<lambda>(wk, s).
              Inr (True, (if wk then wake else (\<lambda>y. y)) (y\<lparr>se := s, sb := ?b\<rparr>)))
       else Inr (True, y\<lparr>se := ?sd, sb := ?b\<rparr>))"
    using w st new(1) b(1) m(1)
    by (simp add: reify_one_def sys_get_def io_get_def on_be_def sys_upd_def io_upd_Some iosys_comm eq [unfolded sys_upd_def])
  show ?thesis
  proof (cases "io_b_fevents w = 0")
    case True
    have "reg_fd ?sd = (reg_fd (se y))(i \<mapsto> io_fd w)" by (simp add: reg_upd_io)
    then have "io_ok (y\<lparr>se := ?sd, sb := ?b\<rparr>)" using sl inv by (simp add: io_ok_def fd_ok_def)
    moreover have "applied w ?wd" using st m(3) by (simp add: applied_def)
    ultimately show ?thesis using True step b(2,4)
      by (intro exI [of _ ?wd] exI [of _ "io_fevents (se y)"] exI [of _ ?b]) simp
  next
    case False
    have wd: "io_mgr ?sd i = Some ?wd" by simp
    have sf: "slots_ok (fev_ix ?sd) (io_fevents ?sd)" using sl by (simp add: io_slots_def)
    let ?e = "or (io_b_fevents w) (ev8 (ev32 (io_b_fevents w)))"
    let ?we = "?wd\<lparr>io_b_fevents := ?e, io_b_fevent_index := int (length (io_fevents (se y))) + 1\<rparr>"
    let ?fe = "io_fevents (se y) @ [Some i]"
    let ?st = "(se y)\<lparr>io_mgr := (io_mgr (se y))(i \<mapsto> ?we), io_fevents := ?fe\<rparr>"
    let ?n = "if io_fevents (se y) = [] then be_wakes b + 1 else be_wakes b"
    let ?bn = "?b\<lparr>be_wakes := ?n\<rparr>"
    have fast: "io_fast_event i (ev32 (io_b_fevents w)) ?sd = Inr (io_fevents (se y) = [], ?st)"
      "slots_ok ((fev_ix ?sd)(i \<mapsto> length (io_fevents (se y)) + 1)) ?fe"
      using io_fast_event_ok [OF sf wd, of "ev32 (io_b_fevents w)"] by (simp_all add: io_upd_def)
    have "reify_one i (nd, y) = Inr (True, y\<lparr>se := ?st, sb := ?bn\<rparr>)"
      using False step fast(1) by (simp add: wake_def)
    moreover have "rev_ix ?st = rev_ix ?sd" "pend_ix ?st = pend_ix ?sd" "user_ix ?st = user_ix ?sd"
      "fev_ix ?st = (fev_ix ?sd)(i \<mapsto> length (io_fevents (se y)) + 1)"
      by (auto simp: rev_ix_def fev_ix_def user_ix_def pend_ix_def w_get_def fun_eq_iff split: watcher.splits)
    then have "io_slots (y\<lparr>se := ?st, sb := ?bn\<rparr>)" using sl fast(2) by (simp add: io_slots_def)
    moreover have "reg_fd ?st = (reg_fd (se y))(i \<mapsto> io_fd w)" by (auto simp: reg_fd_def fun_eq_iff)
    then have "fd_ok (y\<lparr>se := ?st, sb := ?bn\<rparr>)" using inv by (simp add: fd_ok_def)
    moreover have "applied w ?we" using st m(3) by (simp add: applied_def)
    ultimately show ?thesis using b(2,4)
      by (intro exI [of _ ?we] exI [of _ ?fe] exI [of _ ?bn]) (simp add: io_ok_def)
  qed
qed

section \<open>Applying all changes\<close>

definition io_state_of :: "iosys \<Rightarrow> int \<Rightarrow> io_status" where
  "io_state_of y i = (case io_mgr (se y) i of None \<Rightarrow> S_NONE | Some w \<Rightarrow> io_state w)"

lemma io_state_of_Some [simp]: "io_mgr (se y) i = Some w \<Longrightarrow> io_state_of y i = io_state w"
  by (simp add: io_state_of_def)

definition del_ready :: "iosys \<Rightarrow> int \<Rightarrow> bool" where
  "del_ready y i \<longleftrightarrow> (\<exists>w. io_mgr (se y) i = Some w \<and> io_state w = S_DEL \<and> 0 \<le> io_b_fevent_index w \<and>
     io_b_uevent_index w = 0 \<and> fd_fits (sb y) (io_fd w))"

definition set_ready :: "iosys \<Rightarrow> int \<Rightarrow> bool" where
  "set_ready y i \<longleftrightarrow> (\<exists>w. io_mgr (se y) i = Some w \<and> io_state w \<noteq> S_DEL \<and>
     (io_state w = S_NEW \<longrightarrow> io_b_fevent_index w = -1 \<and> fd_fits (sb y) (io_fd w)))"

definition fds_differ :: "(int \<rightharpoonup> evio) \<Rightarrow> bool" where
  "fds_differ m \<longleftrightarrow> (\<forall>i j w v. i \<noteq> j \<and> m i = Some w \<and> m j = Some v \<longrightarrow> io_fd w \<noteq> io_fd v)"

lemma fds_differ_upd:
  assumes "fds_differ m" "m c = Some w" "io_fd w' = io_fd w"
  shows "fds_differ (m(c \<mapsto> w'))"
  unfolding fds_differ_def
proof (intro allI impI)
  fix i j a b
  assume h: "i \<noteq> j \<and> (m(c \<mapsto> w')) i = Some a \<and> (m(c \<mapsto> w')) j = Some b"
  have d: "io_fd x \<noteq> io_fd z" if "m i = Some x" "m j = Some z" for x z
    using assms(1) h that unfolding fds_differ_def by blast
  consider "i = c" "j \<noteq> c" | "i \<noteq> c" "j = c" | "i \<noteq> c" "j \<noteq> c" using h by blast
  then show "io_fd a \<noteq> io_fd b"
  proof cases
    case 1
    then have "a = w'" "m j = Some b" using h 1 by auto
    then show ?thesis using d [of w b] 1(1) assms(2,3) by simp
  next
    case 2
    then have "b = w'" "m i = Some a" using h 2 by auto
    then show ?thesis using d [of a w] 2(2) assms(2,3) by simp
  next
    case 3
    then show ?thesis using d [of a b] h by simp
  qed
qed

lemma fits_cong: "length (be_fdw b) = length (be_fdw b') \<Longrightarrow> fd_fits b = fd_fits b'"
  by (simp add: fd_fits_def fun_eq_iff)

lemma dels_ok:
  assumes "io_ok y" "distinct ds" "\<And>i. i \<in> set ds \<Longrightarrow> del_ready y i"
  shows "\<exists>y'. fold_res reify_one ds (False, y) = Inr (False, y') \<and> io_ok y' \<and>
           io_mgr (se y') = (io_mgr (se y)) |` (- set ds) \<and> length (be_fdw (sb y')) = length (be_fdw (sb y))"
  using assms
proof (induction ds arbitrary: y)
  case Nil
  then show ?case by simp
next
  case (Cons d ds)
  obtain w where w: "io_mgr (se y) d = Some w" "io_state w = S_DEL" "0 \<le> io_b_fevent_index w"
      "io_b_uevent_index w = 0" "fd_fits (sb y) (io_fd w)"
    using Cons.prems(3) [of d] by (auto simp: del_ready_def)
  obtain ps fe re b where one: "reify_one d (False, y) =
        Inr (False, y\<lparr>se := (se y)\<lparr>io_mgr := (io_mgr (se y))(d := None), pendings := ps, io_fevents := fe, io_revs := re\<rparr>, sb := b\<rparr>)"
      "io_ok (y\<lparr>se := (se y)\<lparr>io_mgr := (io_mgr (se y))(d := None), pendings := ps, io_fevents := fe, io_revs := re\<rparr>, sb := b\<rparr>)"
      "length (be_fdw b) = length (be_fdw (sb y))"
    using reify_del_ok [OF Cons.prems(1) w] by blast
  let ?z = "y\<lparr>se := (se y)\<lparr>io_mgr := (io_mgr (se y))(d := None), pendings := ps, io_fevents := fe, io_revs := re\<rparr>, sb := b\<rparr>"
  have rdy: "del_ready ?z i" if i: "i \<in> set ds" for i
  proof -
    have "del_ready y i" "i \<noteq> d" using Cons.prems(2,3) i by auto
    then show ?thesis using fits_cong [OF one(3)] by (auto simp: del_ready_def)
  qed
  have dist: "distinct ds" using Cons.prems(2) by simp
  obtain y' where y': "fold_res reify_one ds (False, ?z) = Inr (False, y')" "io_ok y'"
      "io_mgr (se y') = (io_mgr (se ?z)) |` (- set ds)" "length (be_fdw (sb y')) = length (be_fdw (sb ?z))"
    using Cons.IH [OF one(2) dist rdy] by blast
  have "io_mgr (se y') = (io_mgr (se y)) |` (- set (d # ds))"
    unfolding y'(3) by (auto simp: fun_eq_iff restrict_map_def)
  then show ?case using one(1,3) y'(1,2,4) by (intro exI [of _ y']) simp
qed

lemma set_one_ok:
  assumes ok: "io_ok y" and r: "set_ready y i" and diff: "fds_differ (io_mgr (se y))"
  shows "\<exists>w w' y'. reify_one i (nd, y) = Inr (True, y') \<and> io_ok y' \<and> io_mgr (se y) i = Some w \<and>
           io_mgr (se y') = (io_mgr (se y))(i \<mapsto> w') \<and> applied w w' \<and> length (be_fdw (sb y')) = length (be_fdw (sb y))"
proof -
  obtain w where w: "io_mgr (se y) i = Some w" "io_state w \<noteq> S_DEL"
      "io_state w = S_NEW \<Longrightarrow> io_b_fevent_index w = -1 \<and> fd_fits (sb y) (io_fd w)"
    using r by (auto simp: set_ready_def)
  consider "io_state w = S_NONE" | "io_state w = S_STOP \<or> io_state w = S_START" | "io_state w = S_NEW"
    using w(2) by (cases "io_state w") auto
  then show ?thesis
  proof cases
    case 1
    then show ?thesis using reify_none_ok [OF ok w(1), of nd] w(1)
      by (intro exI [of _ w] exI [of _ "w\<lparr>io_change_index := 0\<rparr>"] exI) auto
  next
    case 2
    obtain w' b where "reify_one i (nd, y) = Inr (True, y\<lparr>se := (se y)\<lparr>io_mgr := (io_mgr (se y))(i \<mapsto> w')\<rparr>, sb := b\<rparr>)"
        "io_ok (y\<lparr>se := (se y)\<lparr>io_mgr := (io_mgr (se y))(i \<mapsto> w')\<rparr>, sb := b\<rparr>)" "applied w w'"
        "length (be_fdw b) = length (be_fdw (sb y))"
      using reify_modify_ok [OF ok w(1) 2, of nd] by blast
    then show ?thesis using w(1) by (intro exI [of _ w] exI [of _ w'] exI) auto
  next
    case 3
    have new: "io_b_fevent_index w = -1" "fd_fits (sb y) (io_fd w)" using w(3) 3 by auto
    have "fd_lookup (sb y) (io_fd w) = None"
    proof (rule ccontr)
      assume "fd_lookup (sb y) (io_fd w) \<noteq> None"
      then obtain j where "fd_lookup (sb y) (io_fd w) = Some j" by auto
      then have "reg_fd (se y) j = Some (io_fd w)" using ok by (simp add: io_ok_def fd_ok_def inverse_maps_def)
      then obtain v where v: "io_mgr (se y) j = Some v" "io_fd v = io_fd w" "0 \<le> io_b_fevent_index v"
        by (auto simp: reg_fd_def split: option.splits if_splits)
      then have "j = i" using diff w(1) unfolding fds_differ_def by blast
      then show False using v(1,3) w(1) new(1) by simp
    qed
    then obtain w' fe b where "reify_one i (nd, y) =
          Inr (True, y\<lparr>se := (se y)\<lparr>io_mgr := (io_mgr (se y))(i \<mapsto> w'), io_fevents := fe\<rparr>, sb := b\<rparr>)"
        "io_ok (y\<lparr>se := (se y)\<lparr>io_mgr := (io_mgr (se y))(i \<mapsto> w'), io_fevents := fe\<rparr>, sb := b\<rparr>)" "applied w w'"
        "length (be_fdw b) = length (be_fdw (sb y))"
      using reify_new_ok [OF ok w(1) 3 new, of nd] by blast
    then show ?thesis using w(1) by (intro exI [of _ w] exI [of _ w'] exI) auto
  qed
qed

lemma sets_ok:
  assumes "io_ok y" "distinct cs" "\<And>i. i \<in> set cs \<Longrightarrow> set_ready y i" "fds_differ (io_mgr (se y))"
  shows "\<exists>nd' y'. fold_res reify_one cs (nd, y) = Inr (nd', y') \<and> io_ok y' \<and>
           (\<forall>j. j \<notin> set cs \<longrightarrow> io_mgr (se y') j = io_mgr (se y) j) \<and>
           (\<forall>j \<in> set cs. \<exists>w w'. io_mgr (se y) j = Some w \<and> io_mgr (se y') j = Some w' \<and> applied w w')"
  using assms
proof (induction cs arbitrary: y nd)
  case Nil
  then show ?case by simp
next
  case (Cons c cs)
  obtain w w' z where z: "reify_one c (nd, y) = Inr (True, z)" "io_ok z" "io_mgr (se y) c = Some w"
      "io_mgr (se z) = (io_mgr (se y))(c \<mapsto> w')" "applied w w'" "length (be_fdw (sb z)) = length (be_fdw (sb y))"
    using set_one_ok [OF Cons.prems(1) _ Cons.prems(4), of c nd] Cons.prems(3) [of c] by auto
  have "set_ready z i" if i: "i \<in> set cs" for i
  proof -
    have "set_ready y i" "i \<noteq> c" using Cons.prems(2,3) i by auto
    then show ?thesis using fits_cong [OF z(6)] z(4) by (auto simp: set_ready_def)
  qed
  moreover have "fds_differ (io_mgr (se z))"
    using fds_differ_upd [OF Cons.prems(4) z(3)] z(5) unfolding z(4) applied_def by blast
  ultimately obtain nd' y' where y': "fold_res reify_one cs (True, z) = Inr (nd', y')" "io_ok y'"
      "\<And>j. j \<notin> set cs \<Longrightarrow> io_mgr (se y') j = io_mgr (se z) j"
      "\<And>j. j \<in> set cs \<Longrightarrow> \<exists>w w'. io_mgr (se z) j = Some w \<and> io_mgr (se y') j = Some w' \<and> applied w w'"
    using Cons.IH [OF z(2), of True] Cons.prems(2) by auto
  have "\<exists>w w'. io_mgr (se y) j = Some w \<and> io_mgr (se y') j = Some w' \<and> applied w w'" if "j \<in> set (c # cs)" for j
  proof (cases "j = c")
    case True
    then have "io_mgr (se y') c = Some w'" using y'(3) [of c] Cons.prems(2) z(4) by simp
    then show ?thesis using True z(3,5) by blast
  next
    case False
    then show ?thesis using y'(4) [of j] that z(4) by auto
  qed
  moreover have "io_mgr (se y') j = io_mgr (se y) j" if "j \<notin> set (c # cs)" for j
    using y'(3) [of j] that z(4) by auto
  ultimately show ?case using z(1) y'(1,2) by (intro exI [of _ nd'] exI [of _ y']) simp
qed

text \<open>
  When the changes can be applied: deletions first, no watcher twice; a deleted watcher is
  registered and idle at the back end; a new one is not registered and its descriptor has a
  place in the table; watchers that stay have different descriptors.
\<close>

definition changes_ready :: "iosys \<Rightarrow> bool" where
  "changes_ready y \<longleftrightarrow> distinct (io_changes (se y)) \<and>
     (\<exists>n. (\<forall>i \<in> set (take n (io_changes (se y))). del_ready y i) \<and>
          (\<forall>i \<in> set (drop n (io_changes (se y))). set_ready y i) \<and>
          fds_differ (io_mgr (se y) |` (- set (take n (io_changes (se y))))))"

lemma io_ok_done:
  assumes "io_ok y"
  shows "io_ok (wake y\<lparr>se := (se y)\<lparr>io_changes := [], io_delete_index := 0\<rparr>\<rparr>)"
proof -
  have "reg_fd ((se y)\<lparr>io_changes := [], io_delete_index := 0\<rparr>) = reg_fd (se y)" by (rule reg_cong) simp
  then show ?thesis using assms by (simp add: io_ok_def io_slots_def fd_ok_def ix_cong wake_def)
qed

lemma io_ok_absent:
  assumes "io_ok y" "io_mgr (se y) i = None"
  shows "Some (WIo i) \<notin> set (pendings (se y))" "Some i \<notin> set (io_revs (se y))" "Some i \<notin> set (io_fevents (se y))"
    "i \<notin> set (be_user (sb y))" "fd_lookup (sb y) fd \<noteq> Some i"
proof -
  have none: "pend_ix (se y) (WIo i) = None" "rev_ix (se y) i = None" "fev_ix (se y) i = None"
    "user_ix (se y) i = None" "reg_fd (se y) i = None"
    using assms(2) by (simp_all add: pend_ix_def rev_ix_def fev_ix_def user_ix_def reg_fd_def w_get_def)
  have ok: "io_slots y" "fd_ok y" using assms(1) by (simp_all add: io_ok_def)
  show "Some (WIo i) \<notin> set (pendings (se y))"
    using ok(1) none(1) slots_mem [of "pend_ix (se y)" "pendings (se y)" "WIo i"] by (simp add: io_slots_def)
  show "Some i \<notin> set (io_revs (se y))" "Some i \<notin> set (io_fevents (se y))"
    using ok(1) none(2,3) slots_mem [of "rev_ix (se y)" "io_revs (se y)" i] slots_mem [of "fev_ix (se y)" "io_fevents (se y)" i]
    by (simp_all add: io_slots_def)
  have "Some i \<notin> set (map Some (be_user (sb y)))"
    using ok(1) none(4) slots_mem [of "user_ix (se y)" "map Some (be_user (sb y))" i] by (simp add: io_slots_def)
  then show "i \<notin> set (be_user (sb y))" by (simp add: image_iff)
  show "fd_lookup (sb y) fd \<noteq> Some i" using ok(2) none(5) by (simp add: fd_ok_def inverse_maps_def)
qed


lemma io_ok_init: "io_ok (iosys_init\<lparr>sb := backend_init\<lparr>be_fdw := replicate n None\<rparr>\<rparr>)"
  by (auto simp: io_ok_def io_slots_def iosys_init_def ev_init_def backend_init_def slots_ok_Nil pend_ix_def rev_ix_def
      fev_ix_def user_ix_def w_get_def tqueue_init_def tq_tm_def fd_ok_def inverse_maps_def fd_lookup_def reg_fd_def
      split: watcher.splits)


section \<open>Events from the back end\<close>

lemma receive_one_ok:
  assumes ok: "pend_ok s" and w: "io_mgr s i = Some w"
  shows "\<exists>p ps. receive_one (Some i) s = Inr (s\<lparr>io_mgr := (io_mgr s)(i \<mapsto> w\<lparr>io_pending := p,
             io_revents := or (io_revents w) (io_b_revents w), io_b_revents := 0, io_b_revent_index := 0\<rparr>), pendings := ps\<rparr>) \<and>
           p \<noteq> 0 \<and> pend_ok (s\<lparr>io_mgr := (io_mgr s)(i \<mapsto> w\<lparr>io_pending := p,
             io_revents := or (io_revents w) (io_b_revents w), io_b_revents := 0, io_b_revent_index := 0\<rparr>), pendings := ps\<rparr>)"
proof -
  have "w_get s (WIo i) = Some (io_pending w, io_revents w)" using w by (simp add: w_get_def)
  then obtain p ps where fed: "feed_event (WIo i) (io_b_revents w) s =
        Inr (w_set (WIo i) p (or (io_revents w) (io_b_revents w)) (s\<lparr>pendings := ps\<rparr>))" "p \<noteq> 0"
      "pend_ok (w_set (WIo i) p (or (io_revents w) (io_b_revents w)) (s\<lparr>pendings := ps\<rparr>))"
    using feed_event_ok [OF ok] by blast
  let ?a = "w_set (WIo i) p (or (io_revents w) (io_b_revents w)) (s\<lparr>pendings := ps\<rparr>)"
  let ?b = "s\<lparr>io_mgr := (io_mgr s)(i \<mapsto> w\<lparr>io_pending := p,
             io_revents := or (io_revents w) (io_b_revents w), io_b_revents := 0, io_b_revent_index := 0\<rparr>), pendings := ps\<rparr>"
  have "receive_one (Some i) s = Inr ?b"
    using w fed(1) by (simp add: receive_one_def io_get_def w_set_def io_upd_def)
  moreover have "w_get ?b = w_get ?a" using w by (auto simp: fun_eq_iff w_get_def w_set_def split: watcher.splits)
  then have "pend_ok ?b" using fed(3) pend_ok_cong [of ?b ?a] by simp
  ultimately show ?thesis using fed(2) by blast
qed

definition delivered :: "evio \<Rightarrow> evio \<Rightarrow> bool" where
  "delivered w w' \<longleftrightarrow> io_pending w' \<noteq> 0 \<and> io_revents w' = or (io_revents w) (io_b_revents w) \<and>
     io_b_revents w' = 0 \<and> io_b_revent_index w' = 0"

lemma receive_loop_ok:
  assumes "pend_ok s" "\<And>i. Some i \<in> set xs \<Longrightarrow> io_mgr s i \<noteq> None" "distinct (filter (\<lambda>x. x \<noteq> None) xs)"
  shows "\<exists>m ps. fold_res receive_one xs s = Inr (s\<lparr>io_mgr := m, pendings := ps\<rparr>) \<and>
           pend_ok (s\<lparr>io_mgr := m, pendings := ps\<rparr>) \<and>
           (\<forall>i. Some i \<notin> set xs \<longrightarrow> m i = io_mgr s i) \<and>
           (\<forall>i w. Some i \<in> set xs \<and> io_mgr s i = Some w \<longrightarrow> (\<exists>w'. m i = Some w' \<and> delivered w w'))"
  using assms
proof (induction xs arbitrary: s)
  case Nil
  then show ?case by (intro exI [of _ "io_mgr s"] exI [of _ "pendings s"]) simp
next
  case (Cons x xs)
  show ?case
  proof (cases x)
    case None
    then have "fold_res receive_one (x # xs) s = fold_res receive_one xs s" by (simp add: receive_one_def)
    moreover have "\<exists>m ps. fold_res receive_one xs s = Inr (s\<lparr>io_mgr := m, pendings := ps\<rparr>) \<and>
           pend_ok (s\<lparr>io_mgr := m, pendings := ps\<rparr>) \<and>
           (\<forall>i. Some i \<notin> set xs \<longrightarrow> m i = io_mgr s i) \<and>
           (\<forall>i w. Some i \<in> set xs \<and> io_mgr s i = Some w \<longrightarrow> (\<exists>w'. m i = Some w' \<and> delivered w w'))"
      using Cons.prems None by (intro Cons.IH) auto
    ultimately show ?thesis using None by simp
  next
    case (Some k)
    then obtain w where w: "io_mgr s k = Some w" using Cons.prems(2) [of k] by auto
    obtain p ps where one: "receive_one x s = Inr (s\<lparr>io_mgr := (io_mgr s)(k \<mapsto> w\<lparr>io_pending := p,
             io_revents := or (io_revents w) (io_b_revents w), io_b_revents := 0, io_b_revent_index := 0\<rparr>), pendings := ps\<rparr>)"
        "p \<noteq> 0" "pend_ok (s\<lparr>io_mgr := (io_mgr s)(k \<mapsto> w\<lparr>io_pending := p,
             io_revents := or (io_revents w) (io_b_revents w), io_b_revents := 0, io_b_revent_index := 0\<rparr>), pendings := ps\<rparr>)"
      using receive_one_ok [OF Cons.prems(1) w] unfolding Some by blast
    let ?w = "w\<lparr>io_pending := p, io_revents := or (io_revents w) (io_b_revents w), io_b_revents := 0, io_b_revent_index := 0\<rparr>"
    let ?t = "s\<lparr>io_mgr := (io_mgr s)(k \<mapsto> ?w), pendings := ps\<rparr>"
    have nin: "Some k \<notin> set xs" using Cons.prems(3) Some by simp
    have "\<exists>m ps. fold_res receive_one xs ?t = Inr (?t\<lparr>io_mgr := m, pendings := ps\<rparr>) \<and>
           pend_ok (?t\<lparr>io_mgr := m, pendings := ps\<rparr>) \<and>
           (\<forall>i. Some i \<notin> set xs \<longrightarrow> m i = io_mgr ?t i) \<and>
           (\<forall>i w. Some i \<in> set xs \<and> io_mgr ?t i = Some w \<longrightarrow> (\<exists>w'. m i = Some w' \<and> delivered w w'))"
      using Cons.prems Some by (intro Cons.IH [OF one(3)]) auto
    then obtain m ps' where m: "fold_res receive_one xs ?t = Inr (?t\<lparr>io_mgr := m, pendings := ps'\<rparr>)"
        "pend_ok (?t\<lparr>io_mgr := m, pendings := ps'\<rparr>)"
        "\<And>i. Some i \<notin> set xs \<Longrightarrow> m i = io_mgr ?t i"
        "\<And>i v. Some i \<in> set xs \<Longrightarrow> io_mgr ?t i = Some v \<Longrightarrow> \<exists>w'. m i = Some w' \<and> delivered v w'"
      by blast
    have "delivered w ?w" using one(2) by (simp add: delivered_def)
    then have hit: "\<exists>w'. m i = Some w' \<and> delivered v w'" if "Some i \<in> set (x # xs)" "io_mgr s i = Some v" for i v
      using m(3) [of i] m(4) [of i v] that nin w Some by (cases "i = k") auto
    have miss: "m i = io_mgr s i" if "Some i \<notin> set (x # xs)" for i
      using m(3) [of i] that Some by auto
    have "fold_res receive_one (x # xs) s = Inr (s\<lparr>io_mgr := m, pendings := ps'\<rparr>)" using one(1) m(1) by simp
    moreover have "pend_ok (s\<lparr>io_mgr := m, pendings := ps'\<rparr>)" using m(2) by simp
    ultimately show ?thesis using hit miss by blast
  qed
qed

lemma slots_distinct:
  assumes "slots_ok ix xs"
  shows "distinct (filter (\<lambda>x. x \<noteq> None) xs)"
proof -
  have "i = j" if "i < length xs" "j < length xs" "xs ! i = Some w" "xs ! j = Some w" for i j w
    using slots_okD(2) [OF assms, of i w] slots_okD(2) [OF assms, of j w] that by simp
  then have "distinct (map the (filter (\<lambda>x. x \<noteq> None) xs))" by (intro distinct_live) blast
  then show ?thesis by (simp add: distinct_map)
qed

lemma io_receive_event_reify_ok:
  assumes "pend_ok s" "slots_ok (rev_ix s) (io_revs s)"
  shows "\<exists>s'. io_receive_event_reify s = Inr s' \<and> pend_ok s' \<and> slots_ok (rev_ix s') (io_revs s') \<and> io_revs s' = [] \<and>
           (\<forall>i w. io_mgr s i = Some w \<longrightarrow> (\<exists>w'. io_mgr s' i = Some w' \<and>
              (if io_b_revent_index w = 0 then w' = w else delivered w w')))"
proof -
  have mem: "Some i \<in> set (io_revs s) \<longleftrightarrow> (\<exists>w. io_mgr s i = Some w \<and> io_b_revent_index w \<noteq> 0)" for i
    using slots_mem [OF assms(2), of i] by (auto simp: rev_ix_def)
  obtain m ps where m: "fold_res receive_one (io_revs s) s = Inr (s\<lparr>io_mgr := m, pendings := ps\<rparr>)"
      "pend_ok (s\<lparr>io_mgr := m, pendings := ps\<rparr>)"
      "\<And>i. Some i \<notin> set (io_revs s) \<Longrightarrow> m i = io_mgr s i"
      "\<And>i w. Some i \<in> set (io_revs s) \<Longrightarrow> io_mgr s i = Some w \<Longrightarrow> \<exists>w'. m i = Some w' \<and> delivered w w'"
    using receive_loop_ok [OF assms(1) _ slots_distinct [OF assms(2)]] mem by blast
  let ?t = "s\<lparr>io_mgr := m, pendings := ps, io_revs := []\<rparr>"
  have run: "io_receive_event_reify s = Inr ?t" using m(1) by (simp add: io_receive_event_reify_def)
  have "w_get ?t = w_get (s\<lparr>io_mgr := m, pendings := ps\<rparr>)"
    by (auto simp: fun_eq_iff w_get_def split: watcher.splits)
  then have "pend_ok ?t" using m(2) pend_ok_cong [of ?t "s\<lparr>io_mgr := m, pendings := ps\<rparr>"] by simp
  moreover have each: "\<exists>w'. io_mgr ?t i = Some w' \<and> (if io_b_revent_index w = 0 then w' = w else delivered w w')"
    if w: "io_mgr s i = Some w" for i w
    using m(3) [of i] m(4) [OF _ w] mem [of i] w by (cases "io_b_revent_index w = 0") auto
  moreover have "slots_ok (rev_ix ?t) []" unfolding slots_ok_Nil
  proof (intro allI impI)
    fix i p assume p: "rev_ix ?t i = Some p"
    then obtain v where v: "m i = Some v" "p = io_b_revent_index v" by (auto simp: rev_ix_def)
    show "p = 0"
    proof (cases "io_mgr s i")
      case None
      then have "Some i \<notin> set (io_revs s)" using mem by simp
      then show ?thesis using m(3) [of i] None v(1) by simp
    next
      case (Some w)
      then show ?thesis using each [OF Some] v by (auto simp: delivered_def split: if_splits)
    qed
  qed
  ultimately show ?thesis using run by (intro exI [of _ ?t]) simp
qed



section \<open>What the back end reports\<close>

text \<open>The back end's own bookkeeping for one watcher.\<close>

definition touched :: "int \<Rightarrow> iosys \<Rightarrow> iosys \<Rightarrow> bool" where
  "touched i y y' \<longleftrightarrow> (\<exists>w u e k us n. io_mgr (se y) i = Some w \<and>
     y' = y\<lparr>se := (se y)\<lparr>io_mgr := (io_mgr (se y))(i \<mapsto> w\<lparr>io_b_uevents := u, io_b_eevents := e, io_b_uevent_index := k\<rparr>)\<rparr>,
            sb := (sb y)\<lparr>be_user := us, be_calls := n\<rparr>\<rparr>)"

lemma touchedI:
  assumes "io_mgr (se y) i = Some w"
  shows "touched i y (y\<lparr>se := (se y)\<lparr>io_mgr := (io_mgr (se y))(i \<mapsto> w\<lparr>io_b_uevents := u, io_b_eevents := e, io_b_uevent_index := k\<rparr>)\<rparr>,
            sb := (sb y)\<lparr>be_user := us, be_calls := n\<rparr>\<rparr>)"
  using assms unfolding touched_def by blast

lemma touched_refl:
  assumes "io_mgr (se y) i = Some w"
  shows "touched i y y"
proof -
  have "y = y\<lparr>se := (se y)\<lparr>io_mgr := (io_mgr (se y))(i \<mapsto> w\<lparr>io_b_uevents := io_b_uevents w, io_b_eevents := io_b_eevents w,
        io_b_uevent_index := io_b_uevent_index w\<rparr>)\<rparr>, sb := (sb y)\<lparr>be_user := be_user (sb y), be_calls := be_calls (sb y)\<rparr>\<rparr>"
    using assms by (simp add: fun_upd_idem)
  then show ?thesis using touchedI [OF assms] by metis
qed

lemma touched_trans:
  assumes "touched i y y'" "touched i y' y''"
  shows "touched i y y''"
proof -
  obtain w u e k us n where w: "io_mgr (se y) i = Some w"
    "y' = y\<lparr>se := (se y)\<lparr>io_mgr := (io_mgr (se y))(i \<mapsto> w\<lparr>io_b_uevents := u, io_b_eevents := e, io_b_uevent_index := k\<rparr>)\<rparr>,
            sb := (sb y)\<lparr>be_user := us, be_calls := n\<rparr>\<rparr>"
    using assms(1) unfolding touched_def by blast
  obtain v u' e' k' us' n' where v: "io_mgr (se y') i = Some v"
    "y'' = y'\<lparr>se := (se y')\<lparr>io_mgr := (io_mgr (se y'))(i \<mapsto> v\<lparr>io_b_uevents := u', io_b_eevents := e', io_b_uevent_index := k'\<rparr>)\<rparr>,
            sb := (sb y')\<lparr>be_user := us', be_calls := n'\<rparr>\<rparr>"
    using assms(2) unfolding touched_def by blast
  have "v = w\<lparr>io_b_uevents := u, io_b_eevents := e, io_b_uevent_index := k\<rparr>" using v(1) w(2) by simp
  then have "y'' = y\<lparr>se := (se y)\<lparr>io_mgr := (io_mgr (se y))(i \<mapsto> w\<lparr>io_b_uevents := u', io_b_eevents := e', io_b_uevent_index := k'\<rparr>)\<rparr>,
            sb := (sb y)\<lparr>be_user := us', be_calls := n'\<rparr>\<rparr>"
    using v(2) w(2) by simp
  then show ?thesis using touchedI [OF w(1)] by metis
qed

lemma touched_Some: "touched i y y' \<Longrightarrow> \<exists>w. io_mgr (se y') i = Some w"
  by (auto simp: touched_def)

lemma modify_later_touched:
  assumes "io_mgr (se y) i = Some w"
  shows "\<exists>y'. modify_later i u y = Inr y' \<and> touched i y y'"
proof (cases "io_b_uevent_index w = 0")
  case True
  then show ?thesis
    using assms touchedI [OF assms, where u = u and e = "io_b_eevents w" and k = "length (be_user (sb y)) + 1" and
        us = "be_user (sb y) @ [i]" and n = "be_calls (sb y)"]
    by (simp add: modify_later_def sys_get_def io_get_def sys_upd_def io_upd_def iosys_comm)
next
  case False
  then show ?thesis
    using assms touchedI [OF assms, where u = u and e = "io_b_eevents w" and k = "io_b_uevent_index w" and
        us = "be_user (sb y)" and n = "be_calls (sb y)"]
    by (simp add: modify_later_def sys_get_def io_get_def sys_upd_def io_upd_def iosys_comm)
qed

lemma eevents_touched:
  assumes "io_mgr (se y) i = Some w"
  shows "touched i y (sys_upd i (\<lambda>w. w\<lparr>io_b_eevents := e w\<rparr>) y)"
  using assms touchedI [OF assms, where u = "io_b_uevents w" and e = "e w" and k = "io_b_uevent_index w" and
        us = "be_user (sb y)" and n = "be_calls (sb y)"]
  by (simp add: sys_upd_def io_upd_def)

lemma eevents_modify_touched:
  assumes "io_mgr (se y) i = Some w"
  shows "\<exists>y'. modify_later i u (sys_upd i (\<lambda>w. w\<lparr>io_b_eevents := e w\<rparr>) y) = Inr y' \<and> touched i y y'"
proof -
  let ?y = "sys_upd i (\<lambda>w. w\<lparr>io_b_eevents := e w\<rparr>) y"
  have t: "touched i y ?y" using eevents_touched [OF assms] .
  then obtain v where "io_mgr (se ?y) i = Some v" using touched_Some by blast
  then show ?thesis using modify_later_touched [of ?y i v u] touched_trans [OF t] by blast
qed

lemma do_io_status_touched:
  assumes w: "io_mgr (se y) i = Some w"
  shows "\<exists>b y'. do_io_status i e st y = Inr (b, y') \<and> touched i y y'"
proof -
  have g: "sys_get y i = Inr w" using w by (simp add: sys_get_def io_get_def)
  note m = modify_later_touched [OF w] and em = eevents_modify_touched [OF w] and r = touched_refl [OF w]
  show ?thesis
  proof (cases st)
    case IOS_OK
    show ?thesis
    proof (cases "e = EV_WRITE")
      case True
      obtain y1 y2 where "modify_later i EV_CLOSE y = Inr y1" "touched i y y1"
          "modify_later i (io_b_uevents w) (sys_upd i (\<lambda>w. w\<lparr>io_b_eevents := and (io_b_eevents w) (not EV_WRITE)\<rparr>) y) = Inr y2"
          "touched i y y2"
        using m [of EV_CLOSE] em [of "io_b_uevents w" "\<lambda>w. and (io_b_eevents w) (not EV_WRITE)"] by blast
      then show ?thesis using IOS_OK True g r by (auto simp: do_io_status_def)
    qed (use IOS_OK g r in \<open>auto simp: do_io_status_def\<close>)
  next
    case IOS_WRITE
    obtain y2 where "modify_later i (io_b_uevents w) (sys_upd i (\<lambda>w. w\<lparr>io_b_eevents := or (io_b_eevents w) EV_WRITE\<rparr>) y) = Inr y2"
          "touched i y y2"
      using em [of "io_b_uevents w" "\<lambda>w. or (io_b_eevents w) EV_WRITE"] by blast
    then show ?thesis using IOS_WRITE g r by (auto simp: do_io_status_def)
  qed (use g r m [of EV_CLOSE] in \<open>auto simp: do_io_status_def\<close>)
qed

lemma call_status_touched:
  assumes w: "io_mgr (se y) i = Some w"
  shows "\<exists>y'. call_status io r e i y = Inr y' \<and> touched i y y'"
proof -
  have "\<exists>st y1. io_call io r i y = Inr (st, y1) \<and> touched i y y1"
  proof (cases "\<not> io_obj w \<or> and (io_b_eevents w) EV_CLOSE \<noteq> 0")
    case True
    then show ?thesis using w touched_refl [OF w] by (simp add: io_call_def sys_get_def io_get_def)
  next
    case False
    have "y\<lparr>sb := (sb y)\<lparr>be_calls := be_calls (sb y) + 1\<rparr>\<rparr> = y\<lparr>se := (se y)\<lparr>io_mgr := (io_mgr (se y))(i \<mapsto> w\<lparr>io_b_uevents := io_b_uevents w,
        io_b_eevents := io_b_eevents w, io_b_uevent_index := io_b_uevent_index w\<rparr>)\<rparr>,
        sb := (sb y)\<lparr>be_user := be_user (sb y), be_calls := be_calls (sb y) + 1\<rparr>\<rparr>"
      using w by (simp add: fun_upd_idem)
    then have "touched i y (y\<lparr>sb := (sb y)\<lparr>be_calls := be_calls (sb y) + 1\<rparr>\<rparr>)" using touchedI [OF w] by metis
    then show ?thesis using False w by (simp add: io_call_def sys_get_def io_get_def)
  qed
  then obtain st y1 where c: "io_call io r i y = Inr (st, y1)" "touched i y y1" by blast
  then obtain v where "io_mgr (se y1) i = Some v" using touched_Some by blast
  then obtain b y2 where "do_io_status i e st y1 = Inr (b, y2)" "touched i y1 y2"
    using do_io_status_touched by blast
  then show ?thesis using c touched_trans [of i y y1 y2] by (simp add: call_status_def)
qed

text \<open>What the kernel's report stands for.\<close>

definition happened :: "32 word \<Rightarrow> 8 word" where
  "happened ke =
     or (if and ke (ev32 EV_WRITE) \<noteq> 0 then or EV_WRITE EV_CONNECT else 0)
       (or (if and ke (ev32 EV_READ) \<noteq> 0 then or EV_READ EV_ACCEPT else 0)
           (if and ke (or EV_ERROR (ev32 EV_CLOSE)) \<noteq> 0 then EV_CLOSE else 0))"

lemma ev_cast [simp]: "ev8 (ev32 x) = x"
  by (rule bit_word_eqI) (auto simp: bit_simps)

lemma expected_events:
  "and (or (ev32 u) (or EV_ERROR (ev32 EV_CLOSE))) (ev32 h) = ev32 (and (or u EV_CLOSE) h)"
proof -
  have "and EV_ERROR (ev32 h) = 0"
  proof (rule bit_word_eqI)
    fix n
    have e: "EV_ERROR = push_bit 8 1" by (simp add: EV_ERROR_def push_bit_eq_mult)
    have "bit EV_ERROR n \<Longrightarrow> n = 8" unfolding e by (auto simp add: bit_push_bit_iff bit_1_iff simp del: push_bit_of_1)
    moreover have "bit h n \<Longrightarrow> n < 8" using bit_imp_le_length [of h n] by simp
    ultimately show "bit (and EV_ERROR (ev32 h)) n = bit (0 :: 32 word) n" by (auto simp: bit_simps)
  qed
  moreover have "and (or (ev32 u) (or EV_ERROR (ev32 EV_CLOSE))) (ev32 h) =
      or (and EV_ERROR (ev32 h)) (ev32 (and (or u EV_CLOSE) h))"
    by (rule bit_word_eqI) (auto simp: bit_simps)
  ultimately show ?thesis by simp
qed

text \<open>
  C20: handling a report of the kernel never faults for a known watcher. It reports to the main
  thread exactly the events that happened and that the user asked for, and a close or an error
  always; the watcher is then in the receive vector and the main thread is told to look. No
  other watcher is touched.
\<close>

theorem wait_event_reports:
  assumes "io_mgr (se y) i = Some w"
  shows "\<exists>y' w'. do_watcher_wait_event io i revents y = Inr y' \<and> io_mgr (se y') i = Some w' \<and>
           io_b_revents w' = or (io_b_revents w) (and (or (io_b_uevents w) EV_CLOSE) (happened revents)) \<and>
           (and (or (io_b_uevents w) EV_CLOSE) (happened revents) \<noteq> 0 \<longrightarrow>
              io_b_revent_index w' \<noteq> 0 \<and> be_has_ev (sb y')) \<and>
           (\<forall>j. j \<noteq> i \<longrightarrow> io_mgr (se y') j = io_mgr (se y) j)"
proof -
  let ?fed = "and (or (io_b_uevents w) EV_CLOSE) (happened revents)"
  have live: "\<exists>v. io_mgr (se z) i = Some v" if "touched i y z" for z using touched_Some [OF that] .
  have id: "touched i y y" using touched_refl [OF assms] .
  define a1 where "a1 = (if and revents (ev32 EV_WRITE) \<noteq> 0
     then bind_res (if and (io_b_kevents w) EV_WRITE \<noteq> 0 then call_status io ReqSend EV_WRITE i y else Inr y) (\<lambda>y1.
        if and (io_b_kevents w) EV_CONNECT \<noteq> 0
        then bind_res (sys_get y1 i) (\<lambda>v. modify_later i (and (io_b_uevents v) (not EV_CONNECT)) y1)
        else Inr y1)
     else Inr y)"
  have "\<exists>z. (if and (io_b_kevents w) EV_WRITE \<noteq> 0 then call_status io ReqSend EV_WRITE i y else Inr y) = Inr z \<and> touched i y z"
    using call_status_touched [OF assms] id by simp
  then obtain z where z: "(if and (io_b_kevents w) EV_WRITE \<noteq> 0 then call_status io ReqSend EV_WRITE i y else Inr y) = Inr z"
      "touched i y z" by blast
  obtain v where v: "io_mgr (se z) i = Some v" using live [OF z(2)] by blast
  obtain z' where z': "modify_later i (and (io_b_uevents v) (not EV_CONNECT)) z = Inr z'" "touched i z z'"
    using modify_later_touched [OF v] by blast
  have "\<exists>y1. a1 = Inr y1 \<and> touched i y y1"
    unfolding a1_def z(1) using z(2) z' v touched_trans [OF z(2) z'(2)] id
    by (simp add: sys_get_def io_get_def)
  then obtain y1 where y1: "a1 = Inr y1" "touched i y y1" by blast
  define a2 where "a2 = (if and revents (ev32 EV_READ) \<noteq> 0 \<and> and (io_b_kevents w) EV_READ \<noteq> 0
     then call_status io ReqRecv EV_READ i y1 else Inr y1)"
  obtain v1 where v1: "io_mgr (se y1) i = Some v1" using live [OF y1(2)] by blast
  have "\<exists>y2. a2 = Inr y2 \<and> touched i y y2"
    using call_status_touched [OF v1, of io ReqRecv EV_READ] touched_trans [OF y1(2)] y1(2)
    by (auto simp: a2_def)
  then obtain y2 where y2: "a2 = Inr y2" "touched i y y2" by blast
  define a3 where "a3 = (if and revents (or EV_ERROR (ev32 EV_CLOSE)) \<noteq> 0 then modify_later i EV_CLOSE y2 else Inr y2)"
  obtain v2 where v2: "io_mgr (se y2) i = Some v2" using live [OF y2(2)] by blast
  have "\<exists>y3. a3 = Inr y3 \<and> touched i y y3"
    using modify_later_touched [OF v2, of EV_CLOSE] touched_trans [OF y2(2)] y2(2)
    by (auto simp: a3_def)
  then obtain y3 where y3: "a3 = Inr y3" "touched i y y3" by blast
  have run: "do_watcher_wait_event io i revents y =
      (if ev32 ?fed \<noteq> 0 then feed_receive_event i (ev32 ?fed) y3 else Inr y3)"
  proof -
    have g: "sys_get y i = Inr w" using assms by (simp add: sys_get_def io_get_def)
    show ?thesis
      by (simp only: do_watcher_wait_event_def Let_def expected_events happened_def g bind_res_simps
          y1(1) [unfolded a1_def] y2(1) [unfolded a2_def] y3(1) [unfolded a3_def])
  qed
  obtain u e k us n where eq: "y3 = y\<lparr>se := (se y)\<lparr>io_mgr := (io_mgr (se y))(i \<mapsto> w\<lparr>io_b_uevents := u, io_b_eevents := e, io_b_uevent_index := k\<rparr>)\<rparr>,
            sb := (sb y)\<lparr>be_user := us, be_calls := n\<rparr>\<rparr>"
    using y3(2) assms unfolding touched_def by auto
  have cast: "ev32 ?fed \<noteq> 0 \<longleftrightarrow> ?fed \<noteq> 0" by (metis ev_cast ucast_0)
  show ?thesis
  proof (cases "?fed = 0")
    case True
    then have "do_watcher_wait_event io i revents y = Inr y3" using run cast by simp
    then show ?thesis using True eq by (intro exI [of _ y3] exI) auto
  next
    case False
    then have fed: "do_watcher_wait_event io i revents y = feed_receive_event i (ev32 ?fed) y3" using run cast by simp
    let ?w3 = "w\<lparr>io_b_uevents := u, io_b_eevents := e, io_b_uevent_index := k\<rparr>"
    let ?k = "if io_b_revent_index w = 0 then length (io_revs (se y)) + 1 else io_b_revent_index w"
    let ?w4 = "?w3\<lparr>io_b_revents := or (io_b_revents w) ?fed, io_b_revent_index := ?k\<rparr>"
    let ?rs = "if io_b_revent_index w = 0 then io_revs (se y) @ [Some i] else io_revs (se y)"
    let ?z = "y\<lparr>se := (se y)\<lparr>io_mgr := (io_mgr (se y))(i \<mapsto> ?w4), io_revs := ?rs\<rparr>,
                sb := (sb y)\<lparr>be_has_ev := True, be_user := us, be_calls := n\<rparr>\<rparr>"
    have "feed_receive_event i (ev32 ?fed) y3 = Inr ?z"
      by (cases y) (auto simp: eq feed_receive_event_def on_ev_def io_receive_event_def io_get_def io_upd_def Let_def)
    then show ?thesis using fed by (intro exI [of _ ?z] exI [of _ ?w4]) simp
  qed
qed

theorem wait_event_reports_witness:
  "\<exists>y' w'. do_watcher_wait_event (\<lambda>r i n. IOS_OK) 7 (ev32 EV_READ)
       (iosys_init\<lparr>se := ev_init\<lparr>io_mgr := [7 \<mapsto> (evio_new 3 0)\<lparr>io_b_uevents := EV_READ\<rparr>]\<rparr>\<rparr>) = Inr y' \<and>
     io_mgr (se y') 7 = Some w' \<and> io_b_revents w' = EV_READ"
proof -
  let ?w = "(evio_new 3 0)\<lparr>io_b_uevents := EV_READ\<rparr>"
  let ?y = "iosys_init\<lparr>se := ev_init\<lparr>io_mgr := [7 \<mapsto> ?w]\<rparr>\<rparr>"
  have "io_mgr (se ?y) 7 = Some ?w" by simp
  from wait_event_reports [OF this, of "\<lambda>r i n. IOS_OK" "ev32 EV_READ"] obtain y' w' where
    "do_watcher_wait_event (\<lambda>r i n. IOS_OK) 7 (ev32 EV_READ) ?y = Inr y'" "io_mgr (se y') 7 = Some w'"
    "io_b_revents w' = or (io_b_revents ?w) (and (or (io_b_uevents ?w) EV_CLOSE) (happened (ev32 EV_READ)))"
    by blast
  moreover have "or (io_b_revents ?w) (and (or (io_b_uevents ?w) EV_CLOSE) (happened (ev32 EV_READ))) = EV_READ"
    by (simp add: evio_new_def happened_def EV_READ_def EV_WRITE_def EV_CLOSE_def EV_CONNECT_def EV_ACCEPT_def EV_ERROR_def)
  ultimately show ?thesis by (intro exI [of _ y'] exI [of _ w']) simp
qed

section \<open>Without the conditions\<close>

text \<open>
  a watcher that is deleted before its first change was applied makes \<open>io_reify\<close> write
  outside the fast event vector: its \<open>_b_fevent_index\<close> is still -1, which
  \<open>clear_io_fast_event\<close> takes for a position.
\<close>

theorem io_delete_unregistered:
  assumes "io_changes (se y) = []" "io_delete_index (se y) = 0" "io_mgr (se y) i = None"
  shows "\<exists>s1 s2. io_start i fd e (se y) = Inr (True, s1) \<and> io_delete i s1 = Inr (0, s2) \<and>
           io_reify (y\<lparr>se := s2\<rparr>) = Inl OutOfRange"
proof -
  let ?w = "(evio_new fd e)\<lparr>io_state := S_NEW, io_change_index := 1\<rparr>"
  let ?a = "(se y)\<lparr>io_mgr := (io_mgr (se y))(i \<mapsto> ?w), io_changes := [i]\<rparr>"
  let ?b = "(se y)\<lparr>io_mgr := (io_mgr (se y))(i \<mapsto> ?w\<lparr>io_state := S_DEL\<rparr>), io_changes := [i]\<rparr>"
  have "io_start i fd e (se y) = Inr (True, ?a)"
    using assms by (simp add: io_start_def io_change_def io_get_def io_upd_def evio_new_def)
  moreover have "io_delete i ?a = Inr (0, ?b)"
    using assms(2) by (simp add: io_delete_def io_upd_def)
  moreover have "io_reify (y\<lparr>se := ?b\<rparr>) = Inl OutOfRange"
    by (simp add: io_reify_def reify_one_def sys_get_def io_get_def sys_upd_def io_upd_def on_ev_def clear_pending_def
        w_deref_def w_get_def evio_new_def clear_io_fast_event_def)
  ultimately show ?thesis by blast
qed

theorem io_delete_unregistered_witness:
  "\<exists>s1 s2. io_start 7 3 (ev32 EV_READ) ev_init = Inr (True, s1) \<and> io_delete 7 s1 = Inr (0, s2) \<and>
     io_reify (iosys_init\<lparr>se := s2\<rparr>) = Inl OutOfRange"
  using io_delete_unregistered [of iosys_init 7 3 "ev32 EV_READ"] by (simp add: iosys_init_def ev_init_def)

text \<open>Two registered watchers, both idle.\<close>

definition registered :: "int \<Rightarrow> evio" where
  "registered fd = (evio_new fd 0)\<lparr>io_state := S_START, io_b_fevent_index := 0\<rparr>"

definition two_watchers :: iosys where
  "two_watchers = iosys_init\<lparr>se := ev_init\<lparr>io_mgr := [1 \<mapsto> registered 5, 2 \<mapsto> registered 6]\<rparr>,
     sb := backend_init\<lparr>be_fdw := (replicate 8 None)[5 := Some 1, 6 := Some 2]\<rparr>\<rparr>"

text \<open>
  deleting a watcher that already has a change queued behind another one leaves it in
  the change vector twice; \<open>io_reify\<close> destroys it at the first and reads it at the second.
\<close>

theorem io_delete_queued_twice:
  "\<exists>s1 s2 s3. io_set 1 (ev32 EV_READ) (se two_watchers) = Inr s1 \<and> io_set 2 (ev32 EV_READ) s1 = Inr s2 \<and>
     io_delete 2 s2 = Inr (0, s3) \<and> io_changes s3 = [2, 2, 1] \<and>
     io_reify (two_watchers\<lparr>se := s3\<rparr>) = Inl Dangling"
proof -
  let ?v1 = "(registered 5)\<lparr>io_uevents := EV_READ, io_change_index := 1\<rparr>"
  let ?v2 = "(registered 6)\<lparr>io_uevents := EV_READ, io_change_index := 2\<rparr>"
  let ?a = "ev_init\<lparr>io_mgr := [1 \<mapsto> ?v1, 2 \<mapsto> registered 6], io_changes := [1]\<rparr>"
  let ?b = "ev_init\<lparr>io_mgr := [1 \<mapsto> ?v1, 2 \<mapsto> ?v2], io_changes := [1, 2]\<rparr>"
  let ?c = "ev_init\<lparr>io_mgr := [1 \<mapsto> ?v1\<lparr>io_change_index := 3\<rparr>, 2 \<mapsto> ?v2\<lparr>io_state := S_DEL, io_change_index := 1\<rparr>],
      io_changes := [2, 2, 1], io_delete_index := 1\<rparr>"
  have "io_set 1 (ev32 EV_READ) (se two_watchers) = Inr ?a"
    by (auto simp: io_set_def io_get_def io_change_def io_upd_def two_watchers_def ev_init_def registered_def evio_new_def)
  moreover have "io_set 2 (ev32 EV_READ) ?a = Inr ?b"
    by (auto simp: io_set_def io_get_def io_change_def io_upd_def ev_init_def registered_def evio_new_def)
  moreover have "io_delete 2 ?b = Inr (0, ?c)"
    by (auto simp: io_delete_def io_get_def io_change_def io_upd_def ev_init_def registered_def evio_new_def Let_def)
  moreover have "io_reify (two_watchers\<lparr>se := ?c\<rparr>) = Inl Dangling"
    by (simp add: io_reify_def reify_one_def sys_get_def io_get_def sys_upd_def io_upd_def on_ev_def on_be_def
        clear_pending_def w_deref_def w_get_def clear_io_fast_event_def clear_io_receive_event_def
        two_watchers_def registered_def evio_new_def set_fd_watcher_def HUGE_FD_def backend_init_def)
  ultimately show ?thesis by (intro exI [of _ ?a] exI [of _ ?b] exI [of _ ?c]) simp
qed

text \<open>
  the descriptor table grows one descriptor too late: storing a watcher works for every
  descriptor but the one that equals the size of the table, which is written outside it (on a
  fresh table that is descriptor 0).
\<close>

theorem set_fd_watcher_boundary:
  assumes "0 \<le> fd" "fd < HUGE_FD"
  shows "(set_fd_watcher fd w b = Inl OutOfRange \<longleftrightarrow> nat fd = length (be_fdw b)) \<and>
         (nat fd \<noteq> length (be_fdw b) \<longrightarrow>
            (\<exists>b'. set_fd_watcher fd w b = Inr b' \<and> get_fd_watcher fd b' = Inr w))"
proof (cases "nat fd < length (be_fdw b)")
  case True
  then show ?thesis using assms by (simp add: set_fd_watcher_def get_fd_watcher_def)
next
  case False
  then show ?thesis using assms by (auto simp: set_fd_watcher_def get_fd_watcher_def check_def)
qed

theorem set_fd_watcher_boundary_witness: "set_fd_watcher 0 (Some 7) backend_init = Inl OutOfRange"
  using set_fd_watcher_boundary [of 0 "Some 7" backend_init] by (simp add: HUGE_FD_def backend_init_def)

text \<open>An expired entry that comes last in the traversal makes the iterator step past the end.\<close>

lemma check_pending_last:
  assumes "be_pending (sb y) = [(fd, tm)]" "now - tm > 10000" "del_pending_watcher fd None y = Inr y1"
  shows "check_pending_watcher now y = Inl OutOfRange"
  using assms by (simp add: check_pending_watcher_def)

end
