(* ===== verification/LuaBin.thy ===== *)
theory LuaBin
  imports Prelude "HOL-Library.Word"
begin

text \<open>
  The binary encoding of Lua values for remote calls, \<open>net/codec/luabin_codec.cpp\<close>.

  A Lua value is what the Lua stack holds; integers and floats are their 64 bits, a table is
  the list of its pairs in the order in which \<open>lua_next\<close> visits them, or in which
  \<open>lua_rawset\<close> assigns them. Both directions work on raw memory: the encoder on a buffer of
  \<open>MAX_BUFF\<close> bytes, the decoder on the bytes of the packet, and an access outside is a fault.
  The machine is little-endian with a 64-bit \<open>size_t\<close>. \<open>room n\<close> says whether
  \<open>lua_checkstack\<close> grants the stack \<open>n\<close> slots. Log messages are left out.
\<close>

section \<open>Values\<close>

datatype lua =
    LNil
  | LBool bool
  | LInt "64 word"
  | LNum "64 word"
  | LStr "8 word list"
  | LTab "(lua \<times> lua) list"
  | LOther

text \<open>A double is not a number when its exponent is all ones and its fraction is not zero.\<close>

definition is_nan :: "64 word \<Rightarrow> bool" where
  "is_nan d \<longleftrightarrow> and (drop_bit 52 d) 0x7FF = 0x7FF \<and> take_bit 52 d \<noteq> 0"

definition MAX_BUFF :: nat where "MAX_BUFF = 1024 * 1024"
definition MAX_VARIABLE :: int where "MAX_VARIABLE = 255"

definition LT_NIL :: "8 word" where "LT_NIL = 0"
definition LT_BOOL :: "8 word" where "LT_BOOL = 1"
definition LT_NUM :: "8 word" where "LT_NUM = 2"
definition LT_STR :: "8 word" where "LT_STR = 3"
definition LT_TABLE :: "8 word" where "LT_TABLE = 4"
definition LT_INT :: "8 word" where "LT_INT = 5"

section \<open>Little-endian numbers\<close>

fun le_bytes :: "nat \<Rightarrow> nat \<Rightarrow> 8 word list" where
  "le_bytes 0 x = []"
| "le_bytes (Suc n) x = word_of_nat x # le_bytes n (x div 256)"

fun of_le :: "8 word list \<Rightarrow> nat" where
  "of_le [] = 0"
| "of_le (b # bs) = unat b + 256 * of_le bs"

definition le64 :: "64 word \<Rightarrow> 8 word list" where
  "le64 w = le_bytes 8 (unat w)"

section \<open>Encoding\<close>

text \<open>
  \<open>operator<<\<close> and \<open>append\<close>: the bytes written so far are the buffer up to \<open>_buff_len\<close>. An
  encoder returns None for the error code -1.
\<close>

definition emit :: "8 word list \<Rightarrow> 8 word list \<Rightarrow> 8 word list result" where
  "emit bs out = (if length out + length bs \<le> MAX_BUFF then Inr (out @ bs) else Inl OutOfRange)"

definition emit_some :: "8 word list \<Rightarrow> 8 word list \<Rightarrow> 8 word list option result" where
  "emit_some bs out = bind_res (emit bs out) (\<lambda>out'. Inr (Some out'))"

definition encode_len_ok :: "nat \<Rightarrow> 8 word list \<Rightarrow> bool" where
  "encode_len_ok len out \<longleftrightarrow> \<not> (1 + len + length out \<ge> MAX_BUFF)"

definition put_count :: "nat \<Rightarrow> nat \<Rightarrow> 8 word list \<Rightarrow> 8 word list" where
  "put_count pos n out = take pos out @ le_bytes 8 n @ drop (pos + 8) out"

function (sequential) encode_value :: "lua \<Rightarrow> 8 word list \<Rightarrow> 8 word list option result"
  and encode_pairs :: "(lua \<times> lua) list \<Rightarrow> 8 word list \<Rightarrow> 8 word list option result" where
  "encode_value LNil out = (if encode_len_ok 8 out then emit_some [LT_NIL] out else Inr None)"
| "encode_value (LBool b) out =
     (if encode_len_ok 8 out then emit_some [LT_BOOL, if b then 1 else 0] out else Inr None)"
| "encode_value (LInt i) out = (if encode_len_ok 8 out then emit_some (LT_INT # le64 i) out else Inr None)"
| "encode_value (LNum d) out = (if encode_len_ok 8 out then emit_some (LT_NUM # le64 d) out else Inr None)"
| "encode_value (LStr cs) out =
     (if encode_len_ok (length cs) out
      then emit_some (LT_STR # le_bytes 8 (length cs) @ cs) out else Inr None)"
| "encode_value (LTab kvs) out =
     (if encode_len_ok 16 out
      then bind_res (emit (LT_TABLE # le_bytes 8 0) out) (\<lambda>out1.
           bind_res (encode_pairs kvs out1) (\<lambda>r.
             Inr (map_option (put_count (length out + 1) (length kvs)) r)))
      else Inr None)"
| "encode_value LOther out = Inr None"
| "encode_pairs [] out = Inr (Some out)"
| "encode_pairs ((k, v) # kvs) out =
     bind_res (encode_value k out) (\<lambda>r.
       case r of None \<Rightarrow> Inr None | Some out1 \<Rightarrow>
         bind_res (encode_value v out1) (\<lambda>r'.
           case r' of None \<Rightarrow> Inr None | Some out2 \<Rightarrow> encode_pairs kvs out2))"
  by pat_completeness auto
termination
  by (relation "measure (case_sum (\<lambda>(v, out). size v) (\<lambda>(kvs, out). size_list (size_prod size size) kvs))") auto

fun encode_values :: "lua list \<Rightarrow> 8 word list \<Rightarrow> 8 word list option result" where
  "encode_values [] out = Inr (Some out)"
| "encode_values (v # vs) out =
     bind_res (encode_value v out) (\<lambda>r.
       case r of None \<Rightarrow> Inr None | Some out1 \<Rightarrow> encode_values vs out1)"

text \<open>\<open>encode\<close> of the stack slots from \<open>index\<close> to the top.\<close>

definition encode :: "lua list \<Rightarrow> int \<Rightarrow> 8 word list option result" where
  "encode stack index =
     (let tp = int (length stack)
      in if index > tp \<or> tp - index > MAX_VARIABLE then Inr None
         else bind_res (emit [word_of_int (tp - index + 1)] [])
                (encode_values (drop (nat (index - 1)) stack)))"

section \<open>Decoding\<close>

text \<open>A decoder returns, fails with -1, or is left by an error that Lua raises.\<close>

datatype dec_end = Failed | Raised

type_synonym 'a decoded = "(dec_end + 'a) result"

definition bind_dec :: "'a decoded \<Rightarrow> ('a \<Rightarrow> 'b decoded) \<Rightarrow> 'b decoded" where
  "bind_dec m f = bind_res m (\<lambda>r. case r of Inl e \<Rightarrow> Inr (Inl e) | Inr x \<Rightarrow> f x)"

lemma bind_dec_simps [simp]:
  "bind_dec (Inl e) f = Inl e" "bind_dec (Inr (Inl e')) f = Inr (Inl e')" "bind_dec (Inr (Inr x)) f = f x"
  by (simp_all add: bind_dec_def)

lemma bind_dec_cong [fundef_cong]:
  "m = m' \<Longrightarrow> (\<And>x. m' = Inr (Inr x) \<Longrightarrow> f x = f' x) \<Longrightarrow> bind_dec m f = bind_dec m' f'"
  by (auto simp: bind_dec_def intro!: bind_res_cong split: sum.split)

text \<open>\<open>operator>>\<close> and \<open>subtract\<close>: \<open>n\<close> bytes at \<open>pos\<close>.\<close>

definition fetch :: "8 word list \<Rightarrow> nat \<Rightarrow> nat \<Rightarrow> (8 word list \<times> nat) decoded" where
  "fetch buf n pos =
     (if pos + n \<le> length buf then Inr (Inr (take n (drop pos buf), pos + n)) else Inl OutOfRange)"

text \<open>\<open>CHECK_DECODE_LEN\<close>; the sum of the two \<open>size_t\<close> wraps.\<close>

definition decode_len_ok :: "8 word list \<Rightarrow> nat \<Rightarrow> nat \<Rightarrow> bool" where
  "decode_len_ok buf n pos \<longleftrightarrow> \<not> ((pos + n) mod 2 ^ 64 > length buf)"

definition fetch_checked :: "8 word list \<Rightarrow> nat \<Rightarrow> nat \<Rightarrow> (8 word list \<times> nat) decoded" where
  "fetch_checked buf n pos = (if decode_len_ok buf n pos then fetch buf n pos else Inr (Inl Failed))"

definition raw_key_ok :: "lua \<Rightarrow> bool" where
  "raw_key_ok k = (case k of LNil \<Rightarrow> False | LNum d \<Rightarrow> \<not> is_nan d | _ \<Rightarrow> True)"

text \<open>
  The recursion follows the nesting of tables, which the bytes bound; the fuel is spent one
  per value and per pair, and running out of it is the fault \<open>Diverged\<close>. \<open>top\<close> is the number
  of stack slots in use.
\<close>

fun decode_value :: "(nat \<Rightarrow> bool) \<Rightarrow> 8 word list \<Rightarrow> nat \<Rightarrow> nat \<Rightarrow> nat \<Rightarrow> (lua \<times> nat) decoded"
  and decode_pairs :: "(nat \<Rightarrow> bool) \<Rightarrow> 8 word list \<Rightarrow> nat \<Rightarrow> nat \<Rightarrow> nat \<Rightarrow> nat \<Rightarrow>
        ((lua \<times> lua) list \<times> nat) decoded" where
  "decode_value room buf 0 tp pos = Inl Diverged"
| "decode_value room buf (Suc fuel) tp pos =
     bind_dec (fetch_checked buf 1 pos) (\<lambda>(t, pos1).
       if hd t = LT_NIL then Inr (Inr (LNil, pos1))
       else if hd t = LT_BOOL
       then bind_dec (fetch_checked buf 1 pos1) (\<lambda>(b, pos2). Inr (Inr (LBool (hd b \<noteq> 0), pos2)))
       else if hd t = LT_NUM
       then bind_dec (fetch_checked buf 8 pos1) (\<lambda>(d, pos2). Inr (Inr (LNum (word_of_nat (of_le d)), pos2)))
       else if hd t = LT_STR
       then bind_dec (fetch buf 8 pos1) (\<lambda>(l, pos2).
            bind_dec (fetch_checked buf (of_le l) pos2) (\<lambda>(cs, pos3). Inr (Inr (LStr cs, pos3))))
       else if hd t = LT_INT
       then bind_dec (fetch_checked buf 8 pos1) (\<lambda>(i, pos2). Inr (Inr (LInt (word_of_nat (of_le i)), pos2)))
       else if hd t = LT_TABLE
       then bind_dec (fetch_checked buf 8 pos1) (\<lambda>(n, pos2).
            if \<not> room (tp + 3) then Inr (Inl Failed)
            else bind_dec (decode_pairs room buf fuel (tp + 1) (of_le n) pos2) (\<lambda>(kvs, pos3).
                   Inr (Inr (LTab kvs, pos3))))
       else Inr (Inl Failed))"
| "decode_pairs room buf 0 tp n pos = Inl Diverged"
| "decode_pairs room buf (Suc fuel) tp n pos =
     (if n = 0 then Inr (Inr ([], pos))
      else bind_dec (decode_value room buf fuel tp pos) (\<lambda>(k, pos1).
           bind_dec (decode_value room buf fuel (tp + 1) pos1) (\<lambda>(v, pos2).
             if \<not> raw_key_ok k then Inr (Inl Raised)
             else bind_dec (decode_pairs room buf fuel tp (n - 1) pos2) (\<lambda>(kvs, pos3).
                    Inr (Inr ((k, v) # kvs, pos3))))))"

fun decode_values :: "(nat \<Rightarrow> bool) \<Rightarrow> 8 word list \<Rightarrow> nat \<Rightarrow> nat \<Rightarrow> nat \<Rightarrow> nat \<Rightarrow> (lua list \<times> nat) decoded" where
  "decode_values room buf fuel tp 0 pos = Inr (Inr ([], pos))"
| "decode_values room buf fuel tp (Suc n) pos =
     bind_dec (decode_value room buf fuel tp pos) (\<lambda>(v, pos1).
     bind_dec (decode_values room buf fuel (tp + 1) n pos1) (\<lambda>(vs, pos2). Inr (Inr (v # vs, pos2))))"

definition decode :: "(nat \<Rightarrow> bool) \<Rightarrow> nat \<Rightarrow> 8 word list \<Rightarrow> lua list decoded" where
  "decode room tp buf =
     (if length buf < 1 then Inr (Inl Failed)
      else bind_dec (fetch buf 1 0) (\<lambda>(c, pos).
        if \<not> room (tp + unat (hd c)) then Inr (Inl Failed)
        else bind_dec (decode_values room buf (2 * length buf + 2) tp (unat (hd c)) pos) (\<lambda>(vs, pos').
               Inr (Inr vs))))"

end
