(* ===== verification/LuaBinCorrect.thy ===== *)
theory LuaBinCorrect
  imports LuaBin
begin

text \<open>
  The wire format as a function on values, the encoder as a refinement of it, and the decoder
  as its inverse. The decoder ends on every input; the last section shows the inputs on which
  either side leaves its buffer.
\<close>

section \<open>Numbers\<close>

lemma le_bytes_length [simp]: "length (le_bytes n x) = n"
  by (induction n arbitrary: x) auto

lemma of_le_bytes: "of_le (le_bytes n x) = x mod 256 ^ n"
proof (induction n arbitrary: x)
  case (Suc n)
  have "x mod (256 * 256 ^ n) = 256 * (x div 256 mod 256 ^ n) + x mod 256"
    by (rule mod_mult2_eq)
  then show ?case using Suc by (simp add: unat_of_nat)
qed simp

lemma of_le_bound: "of_le bs < 256 ^ length bs"
proof (induction bs)
  case (Cons b bs)
  have "unat b < 2 ^ LENGTH(8)" by (rule unsigned_less)
  then have "unat b + 256 * of_le bs < 256 * 256 ^ length bs" using Cons by simp
  then show ?case by simp
qed simp

lemma le64_length [simp]: "length (le64 w) = 8"
  by (simp add: le64_def)

lemma of_le64 [simp]: "word_of_nat (of_le (le64 w)) = w"
proof -
  have "unat w < 2 ^ LENGTH(64)" by (rule unsigned_less)
  then show ?thesis by (simp add: le64_def of_le_bytes)
qed

section \<open>The wire format\<close>

function (sequential) wire :: "lua \<Rightarrow> 8 word list" and wires :: "(lua \<times> lua) list \<Rightarrow> 8 word list" where
  "wire LNil = [LT_NIL]"
| "wire (LBool b) = [LT_BOOL, if b then 1 else 0]"
| "wire (LInt i) = LT_INT # le64 i"
| "wire (LNum d) = LT_NUM # le64 d"
| "wire (LStr cs) = LT_STR # le_bytes 8 (length cs) @ cs"
| "wire (LTab kvs) = LT_TABLE # le_bytes 8 (length kvs) @ wires kvs"
| "wire LOther = []"
| "wires [] = []"
| "wires ((k, v) # kvs) = wire k @ wire v @ wires kvs"
  by pat_completeness auto
termination
  by (relation "measure (case_sum size (size_list (size_prod size size)))") auto

lemma emit_some_eq: "emit_some bs out = Inr r \<Longrightarrow> r = Some (out @ bs) \<and> length out + length bs \<le> MAX_BUFF"
  by (auto simp: emit_some_def emit_def split: if_splits)

lemma put_count_mid: "put_count (length out + 1) n (out @ t # le_bytes 8 m @ ws) = out @ t # le_bytes 8 n @ ws"
  by (simp add: put_count_def)

text \<open>Whatever the encoder returns is the wire format, and fits the buffer.\<close>

lemma encode_wire:
  "encode_value v out = Inr (Some out') \<Longrightarrow> length out \<le> MAX_BUFF \<Longrightarrow> out' = out @ wire v \<and> length out' \<le> MAX_BUFF"
  "encode_pairs kvs out = Inr (Some out') \<Longrightarrow> length out \<le> MAX_BUFF \<Longrightarrow> out' = out @ wires kvs \<and> length out' \<le> MAX_BUFF"
proof (induction v out and kvs out arbitrary: out' and out' rule: encode_value_encode_pairs.induct)
  case (6 kvs out)
  from "6.prems" have ok: "encode_len_ok 16 out" by (auto split: if_splits)
  let ?out1 = "out @ LT_TABLE # le_bytes 8 0"
  have fits: "length ?out1 \<le> MAX_BUFF" using ok by (simp add: encode_len_ok_def)
  have e1: "emit (LT_TABLE # le_bytes 8 0) out = Inr ?out1" using fits by (simp add: emit_def)
  obtain o2 where o2: "encode_pairs kvs ?out1 = Inr (Some o2)" "out' = put_count (length out + 1) (length kvs) o2"
    using "6.prems"(1) ok e1 by (auto simp: bind_res_eq_Inr simp del: encode_pairs.simps)
  have w: "o2 = ?out1 @ wires kvs" "length o2 \<le> MAX_BUFF"
    using "6.IH" [OF ok e1 o2(1) fits] by auto
  then have "out' = out @ LT_TABLE # le_bytes 8 (length kvs) @ wires kvs"
    using o2(2) put_count_mid [of out "length kvs" LT_TABLE 0 "wires kvs"] by simp
  then show ?case using w by simp
next
  case (9 k v kvs out)
  obtain o1 where o1: "encode_value k out = Inr (Some o1)"
    using "9.prems"(1) by (auto simp: bind_res_eq_Inr split: option.splits)
  obtain o2 where o2: "encode_value v o1 = Inr (Some o2)" "encode_pairs kvs o2 = Inr (Some out')"
    using "9.prems"(1) o1 by (auto simp: bind_res_eq_Inr split: option.splits)
  have a: "o1 = out @ wire k" "length o1 \<le> MAX_BUFF" using "9.IH"(1) [OF o1 "9.prems"(2)] by auto
  have b: "o2 = o1 @ wire v" "length o2 \<le> MAX_BUFF" using "9.IH"(2) [OF o1 _ o2(1) a(2)] by auto
  show ?case using "9.IH"(3) [OF o1 _ o2(1) _ o2(2) b(2)] a b by auto
qed (auto dest!: emit_some_eq split: if_splits)

section \<open>Decoding the wire format\<close>

text \<open>What Lua guarantees of its tables: no key is nil or not a number. Other types cannot be sent.\<close>

function (sequential) sendable :: "lua \<Rightarrow> bool" and sendables :: "(lua \<times> lua) list \<Rightarrow> bool" where
  "sendable (LTab kvs) = sendables kvs"
| "sendable LOther = False"
| "sendable _ = True"
| "sendables [] = True"
| "sendables ((k, v) # kvs) = (raw_key_ok k \<and> sendable k \<and> sendable v \<and> sendables kvs)"
  by pat_completeness auto
termination
  by (relation "measure (case_sum size (size_list (size_prod size size)))") auto

lemma fetch_mid:
  assumes "buf = pre @ xs @ post" "n = length xs" "length buf < 2 ^ 64"
  shows "fetch buf n (length pre) = Inr (Inr (xs, length pre + n))"
    "fetch_checked buf n (length pre) = Inr (Inr (xs, length pre + n))"
  using assms by (simp_all add: fetch_def fetch_checked_def decode_len_ok_def)

text \<open>The same at a position that is written as a sum.\<close>

lemma fetch_at:
  assumes "buf = pre @ xs @ post" "n = length xs" "length buf < 2 ^ 64" "pos = length pre"
  shows "fetch buf n pos = Inr (Inr (xs, pos + n))" "fetch_checked buf n pos = Inr (Inr (xs, pos + n))"
  using fetch_mid [OF assms(1-3)] assms(4) by simp_all

lemma wire_ne: "sendable v \<Longrightarrow> 0 < length (wire v)"
  by (cases v) auto

lemma types_distinct:
  "LT_BOOL \<noteq> LT_NIL" "LT_NUM \<noteq> LT_NIL" "LT_STR \<noteq> LT_NIL" "LT_TABLE \<noteq> LT_NIL" "LT_INT \<noteq> LT_NIL"
  "LT_NUM \<noteq> LT_BOOL" "LT_STR \<noteq> LT_BOOL" "LT_TABLE \<noteq> LT_BOOL" "LT_INT \<noteq> LT_BOOL"
  "LT_STR \<noteq> LT_NUM" "LT_TABLE \<noteq> LT_NUM" "LT_INT \<noteq> LT_NUM" "LT_TABLE \<noteq> LT_STR" "LT_INT \<noteq> LT_STR"
  "LT_TABLE \<noteq> LT_INT"
  by (simp_all add: LT_NIL_def LT_BOOL_def LT_NUM_def LT_STR_def LT_TABLE_def LT_INT_def)

lemma decode_wire:
  assumes room: "\<And>n. room n" and small: "length buf < 2 ^ 64"
  shows "sendable v \<Longrightarrow> buf = pre @ wire v @ post \<Longrightarrow> length (wire v) \<le> fuel \<Longrightarrow>
           decode_value room buf fuel tp (length pre) = Inr (Inr (v, length pre + length (wire v)))"
    and "sendables kvs \<Longrightarrow> buf = pre @ wires kvs @ post \<Longrightarrow> length (wires kvs) + 1 \<le> fuel \<Longrightarrow>
           decode_pairs room buf fuel tp (length kvs) (length pre) =
             Inr (Inr (kvs, length pre + length (wires kvs)))"
proof (induction v and kvs arbitrary: pre post fuel tp and pre post fuel tp rule: wire_wires.induct)
  case 1
  then obtain f where f: "fuel = Suc f" by (cases fuel) auto
  show ?case using fetch_mid(2) [of buf pre "[LT_NIL]" post 1] 1 small by (simp add: f)
next
  case (2 b)
  then obtain f where f: "fuel = Suc f" by (cases fuel) auto
  have "fetch_checked buf 1 (length pre) = Inr (Inr ([LT_BOOL], length pre + 1))"
    using 2 small by (intro fetch_mid(2) [of buf pre "[LT_BOOL]" "[if b then 1 else 0] @ post"]) simp_all
  moreover have "fetch_checked buf 1 (length pre + 1) = Inr (Inr ([if b then 1 else 0], length pre + 1 + 1))"
    using 2 small by (intro fetch_at(2) [of buf "pre @ [LT_BOOL]" "[if b then 1 else 0]" post]) simp_all
  ultimately show ?case by (simp add: f types_distinct)
next
  case (3 i)
  then obtain f where f: "fuel = Suc f" by (cases fuel) auto
  have "fetch_checked buf 1 (length pre) = Inr (Inr ([LT_INT], length pre + 1))"
    using 3 small by (intro fetch_mid(2) [of buf pre "[LT_INT]" "le64 i @ post"]) simp_all
  moreover have "fetch_checked buf 8 (length pre + 1) = Inr (Inr (le64 i, length pre + 1 + 8))"
    using 3 small by (intro fetch_at(2) [of buf "pre @ [LT_INT]" "le64 i" post]) simp_all
  ultimately show ?case by (simp add: f types_distinct)
next
  case (4 d)
  then obtain f where f: "fuel = Suc f" by (cases fuel) auto
  have "fetch_checked buf 1 (length pre) = Inr (Inr ([LT_NUM], length pre + 1))"
    using 4 small by (intro fetch_mid(2) [of buf pre "[LT_NUM]" "le64 d @ post"]) simp_all
  moreover have "fetch_checked buf 8 (length pre + 1) = Inr (Inr (le64 d, length pre + 1 + 8))"
    using 4 small by (intro fetch_at(2) [of buf "pre @ [LT_NUM]" "le64 d" post]) simp_all
  ultimately show ?case by (simp add: f types_distinct)
next
  case (5 cs)
  then obtain f where f: "fuel = Suc f" by (cases fuel) auto
  have n: "of_le (le_bytes 8 (length cs)) = length cs" using 5(2) small by (simp add: of_le_bytes)
  have "fetch_checked buf 1 (length pre) = Inr (Inr ([LT_STR], length pre + 1))"
    using 5 small by (intro fetch_mid(2) [of buf pre "[LT_STR]" "le_bytes 8 (length cs) @ cs @ post"]) simp_all
  moreover have "fetch buf 8 (length pre + 1) = Inr (Inr (le_bytes 8 (length cs), length pre + 1 + 8))"
    using 5 small by (intro fetch_at(1) [of buf "pre @ [LT_STR]" "le_bytes 8 (length cs)" "cs @ post"]) simp_all
  moreover have "fetch_checked buf (length cs) (length pre + 1 + 8) = Inr (Inr (cs, length pre + 1 + 8 + length cs))"
    using 5 small by (intro fetch_at(2) [of buf "pre @ LT_STR # le_bytes 8 (length cs)" cs post]) simp_all
  ultimately show ?case by (simp add: f n types_distinct)
next
  case (6 kvs)
  then obtain f where f: "fuel = Suc f" by (cases fuel) auto
  have len: "length kvs \<le> length (wires kvs)" if "sendables kvs" for kvs
    using that
  proof (induction kvs rule: list.induct)
    case (Cons kv kvs)
    obtain k v where kv: "kv = (k, v)" by (cases kv)
    then have "0 < length (wire k)" using Cons.prems wire_ne by simp
    moreover have "length kvs \<le> length (wires kvs)" using Cons kv by simp
    ultimately show ?case unfolding kv wires.simps length_append length_Cons by linarith
  qed simp
  have "length kvs < 256 ^ 8" using len [of kvs] 6(2,3) small by simp
  then have n: "of_le (le_bytes 8 (length kvs)) = length kvs" by (simp add: of_le_bytes)
  have "fetch_checked buf 1 (length pre) = Inr (Inr ([LT_TABLE], length pre + 1))"
    using 6(3) small by (intro fetch_mid(2) [of buf pre "[LT_TABLE]" "le_bytes 8 (length kvs) @ wires kvs @ post"]) simp_all
  moreover have "fetch_checked buf 8 (length pre + 1) = Inr (Inr (le_bytes 8 (length kvs), length pre + 1 + 8))"
    using 6(3) small
    by (intro fetch_at(2) [of buf "pre @ [LT_TABLE]" "le_bytes 8 (length kvs)" "wires kvs @ post"]) simp_all
  moreover have "decode_pairs room buf f (tp + 1) (length kvs) (length (pre @ LT_TABLE # le_bytes 8 (length kvs))) =
      Inr (Inr (kvs, length (pre @ LT_TABLE # le_bytes 8 (length kvs)) + length (wires kvs)))"
    using 6(2-4) f by (intro "6.IH" [where post = post]) simp_all
  then have "decode_pairs room buf f (tp + 1) (length kvs) (length pre + 1 + 8) =
      Inr (Inr (kvs, length pre + 1 + 8 + length (wires kvs)))" by (simp add: ac_simps)
  moreover have "room (tp + 3)" by (rule room)
  ultimately show ?case by (simp add: f n types_distinct)
next
  case 7
  then show ?case by simp
next
  case 8
  then obtain f where f: "fuel = Suc f" by (cases fuel) auto
  then show ?case by simp
next
  case (9 k v kvs)
  then obtain f where f: "fuel = Suc f" by (cases fuel) auto
  have pos: "0 < length (wire k)" "0 < length (wire v)" using 9(4) wire_ne [of k] wire_ne [of v] by simp_all
  have fit: "length (wire k) \<le> f" "length (wire v) \<le> f" "length (wires kvs) + 1 \<le> f"
    using 9(6) pos unfolding f wires.simps length_append by linarith+
  have "decode_value room buf f tp (length pre) = Inr (Inr (k, length pre + length (wire k)))"
    using 9(4,5) fit by (intro "9.IH"(1) [where post = "wire v @ wires kvs @ post"]) simp_all
  moreover have "decode_value room buf f (tp + 1) (length (pre @ wire k)) = Inr (Inr (v, length (pre @ wire k) + length (wire v)))"
    using 9(4,5) fit by (intro "9.IH"(2) [where post = "wires kvs @ post"]) simp_all
  moreover have "decode_pairs room buf f tp (length kvs) (length (pre @ wire k @ wire v)) =
      Inr (Inr (kvs, length (pre @ wire k @ wire v) + length (wires kvs)))"
    using 9(4,5) fit by (intro "9.IH"(3) [where post = post]) simp_all
  ultimately show ?case using 9(4) by (simp add: f add.assoc)
qed

section \<open>Packets\<close>

lemma encode_values_wire:
  "encode_values vs out = Inr (Some out') \<Longrightarrow> length out \<le> MAX_BUFF \<Longrightarrow>
     out' = out @ concat (map wire vs) \<and> length out' \<le> MAX_BUFF"
proof (induction vs arbitrary: out)
  case (Cons v vs)
  obtain o1 where o1: "encode_value v out = Inr (Some o1)" "encode_values vs o1 = Inr (Some out')"
    using Cons.prems(1) by (auto simp: bind_res_eq_Inr split: option.splits)
  have eq: "o1 = out @ wire v" "length o1 \<le> MAX_BUFF" using encode_wire(1) [OF o1(1) Cons.prems(2)] by auto
  have r: "out' = o1 @ concat (map wire vs)" "length out' \<le> MAX_BUFF" using Cons.IH [OF o1(2) eq(2)] by auto
  have "out' = out @ concat (map wire (v # vs))" unfolding r(1) eq(1) by simp
  then show ?case using r(2) by blast
qed simp

lemma decode_values_wire:
  assumes room: "\<And>n. room n" and small: "length buf < 2 ^ 64"
  shows "list_all sendable vs \<Longrightarrow> buf = pre @ concat (map wire vs) @ post \<Longrightarrow> length buf \<le> fuel \<Longrightarrow>
     decode_values room buf fuel tp (length vs) (length pre) =
       Inr (Inr (vs, length pre + length (concat (map wire vs))))"
proof (induction vs arbitrary: pre tp)
  case (Cons v vs)
  have "decode_value room buf fuel tp (length pre) = Inr (Inr (v, length pre + length (wire v)))"
    using Cons.prems by (intro decode_wire(1) [OF room small, where post = "concat (map wire vs) @ post"]) simp_all
  moreover have "decode_values room buf fuel (tp + 1) (length vs) (length (pre @ wire v)) =
       Inr (Inr (vs, length (pre @ wire v) + length (concat (map wire vs))))"
    using Cons.prems by (intro Cons.IH) simp_all
  ultimately show ?case by (simp add: add.assoc)
qed simp

lemma decode_encode:
  assumes enc: "encode stack index = Inr (Some bs)" "1 \<le> index" "int (length stack) - index < 255"
    and vals: "list_all sendable (drop (nat (index - 1)) stack)" and room: "\<And>n. room n"
  shows "length bs \<le> MAX_BUFF \<and> decode room tp bs = Inr (Inr (drop (nat (index - 1)) stack))"
proof -
  let ?vs = "drop (nat (index - 1)) stack" and ?c = "word_of_int (int (length stack) - index + 1) :: 8 word"
  have idx: "index \<le> int (length stack)" using enc(1) by (auto simp: encode_def Let_def split: if_splits)
  have n: "int (length ?vs) = int (length stack) - index + 1" using idx enc(2) by simp
  have c: "?c = word_of_nat (length ?vs)" using n by (metis of_int_of_nat_eq)
  have "emit [?c] [] = Inr [?c]" by (simp add: emit_def MAX_BUFF_def)
  then have vs: "encode_values ?vs [?c] = Inr (Some bs)"
    using enc(1,3) idx by (simp add: encode_def Let_def MAX_VARIABLE_def)
  then have bs: "bs = [?c] @ concat (map wire ?vs)" "length bs \<le> MAX_BUFF"
    using encode_values_wire [of ?vs "[?c]" bs] by (auto simp: MAX_BUFF_def)
  have "length ?vs < 256" using n enc(3) by linarith
  then have count: "unat ?c = length ?vs" unfolding c by (simp add: unat_of_nat)
  have small: "length bs < 2 ^ 64" using bs(2) by (simp add: MAX_BUFF_def)
  have "decode_values room bs (2 * length bs + 2) tp (length ?vs) (length [?c]) =
      Inr (Inr (?vs, length [?c] + length (concat (map wire ?vs))))"
    using vals bs(1) by (intro decode_values_wire [OF room small, where post = "[]"]) simp_all
  moreover have "fetch bs 1 0 = Inr (Inr ([?c], 1))" using bs(1) by (simp add: fetch_def)
  moreover have "\<not> length bs < 1" using bs(1) by simp
  ultimately have "decode room tp bs = Inr (Inr ?vs)" using room count by (simp add: decode_def)
  then show ?thesis using bs(2) by simp
qed



section \<open>Every input\<close>

text \<open>A decoder that succeeds has moved forward within the packet; with enough fuel it ends.\<close>

definition ends :: "nat \<Rightarrow> nat \<Rightarrow> ('a \<times> nat) decoded \<Rightarrow> bool" where
  "ends n m r \<longleftrightarrow> r \<noteq> Inl Diverged \<and> (\<forall>x pos. r = Inr (Inr (x, pos)) \<longrightarrow> m \<le> pos \<and> pos \<le> n)"

lemma ends_simps [simp]:
  "ends n m (Inr (Inl e))" "ends n m (Inr (Inr (x, pos))) \<longleftrightarrow> m \<le> pos \<and> pos \<le> n"
  "ends n m (Inl f) \<longleftrightarrow> f \<noteq> Diverged"
  by (auto simp: ends_def)

lemma ends_bind:
  assumes "ends n m r" "\<And>x pos. m \<le> pos \<Longrightarrow> pos \<le> n \<Longrightarrow> ends n m' (f (x, pos))"
  shows "ends n m' (bind_dec r f)"
proof (cases r)
  case (Inl e)
  then show ?thesis using assms(1) by simp
next
  case (Inr d)
  then show ?thesis using assms by (cases d) auto
qed

lemma ends_fetch: "ends (length buf) (pos + n) (fetch buf n pos)"
  by (simp add: fetch_def)

lemma ends_fetch_checked: "ends (length buf) (pos + n) (fetch_checked buf n pos)"
  by (simp add: fetch_checked_def ends_fetch)

lemma decode_ends:
  "(\<forall>tp pos. length buf < fuel + pos \<and> pos \<le> length buf \<longrightarrow>
      ends (length buf) (pos + 1) (decode_value room buf fuel tp pos)) \<and>
   (\<forall>tp n pos. length buf + 1 < fuel + pos \<and> pos \<le> length buf \<longrightarrow>
      ends (length buf) pos (decode_pairs room buf fuel tp n pos))"
proof (induction fuel)
  case 0
  show ?case by simp
next
  case (Suc fuel)
  let ?n = "length buf"
  have val: "ends ?n (pos + 1) (decode_value room buf fuel tp pos)" if "?n < fuel + pos" "pos \<le> ?n" for tp pos
    using Suc that by blast
  have pairs: "ends ?n pos (decode_pairs room buf fuel tp n pos)" if "?n + 1 < fuel + pos" "pos \<le> ?n" for tp n pos
    using Suc that by blast
  have "ends ?n (pos + 1) (decode_value room buf (Suc fuel) tp pos)"
    if h: "?n < Suc fuel + pos" "pos \<le> ?n" for tp pos
    unfolding decode_value.simps
  proof (rule ends_bind [OF ends_fetch_checked])
    fix t pos1 assume p1: "pos + 1 \<le> pos1" "pos1 \<le> ?n"
    have tab: "ends ?n (pos + 1)
        (bind_dec (fetch_checked buf 8 pos1) (\<lambda>(m, pos2).
            if \<not> room (tp + 3) then Inr (Inl Failed)
            else bind_dec (decode_pairs room buf fuel (tp + 1) (of_le m) pos2) (\<lambda>(kvs, pos3).
                   Inr (Inr (LTab kvs, pos3)))))"
    proof (rule ends_bind [OF ends_fetch_checked])
      fix m pos2 assume p2: "pos1 + 8 \<le> pos2" "pos2 \<le> ?n"
      then have "ends ?n pos2 (decode_pairs room buf fuel (tp + 1) (of_le m) pos2)"
        using h p1 by (intro pairs) linarith+
      then have "ends ?n (pos + 1) (bind_dec (decode_pairs room buf fuel (tp + 1) (of_le m) pos2) (\<lambda>(kvs, pos3).
                   Inr (Inr (LTab kvs, pos3))))"
        using p1 p2 by (elim ends_bind) auto
      then show "ends ?n (pos + 1) (case (m, pos2) of (m, pos2) \<Rightarrow>
            if \<not> room (tp + 3) then Inr (Inl Failed)
            else bind_dec (decode_pairs room buf fuel (tp + 1) (of_le m) pos2) (\<lambda>(kvs, pos3).
                   Inr (Inr (LTab kvs, pos3))))" by simp
    qed
    show "ends ?n (pos + 1)
        (case (t, pos1) of (t, pos1) \<Rightarrow>
         if hd t = LT_NIL then Inr (Inr (LNil, pos1))
       else if hd t = LT_BOOL
       then bind_dec (fetch_checked buf 1 pos1) (\<lambda>(b, pos2). Inr (Inr (LBool (hd b \<noteq> 0), pos2)))
       else if hd t = LT_NUM
       then bind_dec (fetch_checked buf 8 pos1) (\<lambda>(d, pos2). Inr (Inr (LNum (word_of_nat (of_le d)), pos2)))
       else if hd t = LT_STR
       then bind_dec (fetch buf 8 pos1) (\<lambda>(l, pos2).
            bind_dec (fetch_checked buf (of_le l) pos2) (\<lambda>(cs, pos3). Inr (Inr (LStr cs, pos3))))
       else if hd t = LT_INT
       then bind_dec (fetch_checked buf 8 pos1) (\<lambda>(i, pos2). Inr (Inr (LInt (word_of_nat (of_le i)), pos2)))
       else if hd t = LT_TABLE
       then bind_dec (fetch_checked buf 8 pos1) (\<lambda>(n, pos2).
            if \<not> room (tp + 3) then Inr (Inl Failed)
            else bind_dec (decode_pairs room buf fuel (tp + 1) (of_le n) pos2) (\<lambda>(kvs, pos3).
                   Inr (Inr (LTab kvs, pos3))))
       else Inr (Inl Failed))"
      using p1 tab by (auto intro!: ends_bind [OF ends_fetch_checked] ends_bind [OF ends_fetch])
  qed
  moreover have "ends ?n pos (decode_pairs room buf (Suc fuel) tp n pos)"
    if h: "?n + 1 < Suc fuel + pos" "pos \<le> ?n" for tp n pos
  proof (cases "n = 0")
    case False
    have key: "ends ?n (pos + 1) (decode_value room buf fuel tp pos)" using h by (intro val) linarith+
    have "ends ?n pos (bind_dec (decode_value room buf fuel tp pos) (\<lambda>(k, pos1).
           bind_dec (decode_value room buf fuel (tp + 1) pos1) (\<lambda>(v, pos2).
             if \<not> raw_key_ok k then Inr (Inl Raised)
             else bind_dec (decode_pairs room buf fuel tp (n - 1) pos2) (\<lambda>(kvs, pos3).
                    Inr (Inr ((k, v) # kvs, pos3))))))"
    proof (rule ends_bind [OF key])
      fix k pos1 assume p1: "pos + 1 \<le> pos1" "pos1 \<le> ?n"
      have item: "ends ?n (pos1 + 1) (decode_value room buf fuel (tp + 1) pos1)" using h p1 by (intro val) linarith+
      have "ends ?n pos (bind_dec (decode_value room buf fuel (tp + 1) pos1) (\<lambda>(v, pos2).
             if \<not> raw_key_ok k then Inr (Inl Raised)
             else bind_dec (decode_pairs room buf fuel tp (n - 1) pos2) (\<lambda>(kvs, pos3).
                    Inr (Inr ((k, v) # kvs, pos3)))))"
      proof (rule ends_bind [OF item])
        fix v pos2 assume p2: "pos1 + 1 \<le> pos2" "pos2 \<le> ?n"
        have rest: "ends ?n pos2 (decode_pairs room buf fuel tp (n - 1) pos2)" using h p1 p2 by (intro pairs) linarith+
        have "ends ?n pos (bind_dec (decode_pairs room buf fuel tp (n - 1) pos2) (\<lambda>(kvs, pos3).
                    Inr (Inr ((k, v) # kvs, pos3))))"
          using p1 p2 by (intro ends_bind [OF rest]) auto
        then show "ends ?n pos (case (v, pos2) of (v, pos2) \<Rightarrow>
             if \<not> raw_key_ok k then Inr (Inl Raised)
             else bind_dec (decode_pairs room buf fuel tp (n - 1) pos2) (\<lambda>(kvs, pos3).
                    Inr (Inr ((k, v) # kvs, pos3))))" by simp
      qed
      then show "ends ?n pos (case (k, pos1) of (k, pos1) \<Rightarrow>
           bind_dec (decode_value room buf fuel (tp + 1) pos1) (\<lambda>(v, pos2).
             if \<not> raw_key_ok k then Inr (Inl Raised)
             else bind_dec (decode_pairs room buf fuel tp (n - 1) pos2) (\<lambda>(kvs, pos3).
                    Inr (Inr ((k, v) # kvs, pos3)))))" by simp
    qed
    then show ?thesis using False by simp
  qed (use h in simp)
  ultimately show ?case by blast
qed

lemma decode_values_ends:
  "length buf < fuel \<Longrightarrow> pos \<le> length buf \<Longrightarrow> ends (length buf) pos (decode_values room buf fuel tp n pos)"
proof (induction n arbitrary: tp pos)
  case (Suc n)
  have v: "ends (length buf) (pos + 1) (decode_value room buf fuel tp pos)"
    using decode_ends [of buf fuel room] Suc.prems by auto
  show ?case unfolding decode_values.simps
  proof (rule ends_bind [OF v])
    fix v pos1 assume p1: "pos + 1 \<le> pos1" "pos1 \<le> length buf"
    then have "ends (length buf) pos1 (decode_values room buf fuel (tp + 1) n pos1)" using Suc by simp
    then have "ends (length buf) pos (bind_dec (decode_values room buf fuel (tp + 1) n pos1)
        (\<lambda>(vs, pos2). Inr (Inr (v # vs, pos2))))"
      using p1 by (elim ends_bind) auto
    then show "ends (length buf) pos (case (v, pos1) of (v, pos1) \<Rightarrow>
        bind_dec (decode_values room buf fuel (tp + 1) n pos1) (\<lambda>(vs, pos2). Inr (Inr (v # vs, pos2))))" by simp
  qed
qed simp

text \<open>
  C15: decoding ends on every packet, however its counts and lengths are chosen: the work is
  bounded by the bytes of the packet.
\<close>

theorem luabin_decode_ends: "decode room tp buf \<noteq> Inl Diverged"
proof (cases "buf = []")
  case False
  have e: "ends (length buf) 1 (decode_values room buf (2 * length buf + 2) (tp) n 1)" for n
    using False by (intro decode_values_ends) (auto simp: Suc_leI)
  have f: "fetch buf 1 0 = Inr (Inr (take 1 buf, 1))" using False by (cases buf) (auto simp: fetch_def)
  show ?thesis using e [of "unat (hd (take 1 buf))"] False f
    by (cases "decode_values room buf (2 * length buf + 2) tp (unat (hd (take 1 buf))) 1")
      (auto simp: decode_def bind_dec_def ends_def split: sum.splits if_splits)
qed (simp add: decode_def)

section \<open>Outside the buffers\<close>

text \<open>
  the length check of a string forgets the eight bytes of the length itself: a single
  string argument is refused from \<open>MAX_BUFF - 2\<close> bytes on, but from \<open>MAX_BUFF - 9\<close> bytes on
  its encoding is written past the end of the buffer.
\<close>

theorem encode_string_bound:
  "encode [LStr cs] 1 =
     (if length cs \<ge> MAX_BUFF - 2 then Inr None
      else if length cs > MAX_BUFF - 10 then Inl OutOfRange
      else Inr (Some (1 # LT_STR # le_bytes 8 (length cs) @ cs)))"
  by (simp add: encode_def emit_def emit_some_def encode_len_ok_def MAX_VARIABLE_def MAX_BUFF_def)

text \<open>
  \<open>encode\<close> accepts 256 values, but the packet's count is one byte: it says 0, and the
  receiver decodes no value at all.
\<close>

theorem encode_count_wraps:
  assumes "\<And>n. room n"
  shows "\<exists>bs. encode (replicate 256 LNil) 1 = Inr (Some bs) \<and> length bs = 257 \<and>
           decode room tp bs = Inr (Inr [])"
proof -
  have nils: "length out + n + 9 < MAX_BUFF \<Longrightarrow> encode_values (replicate n LNil) out = Inr (Some (out @ replicate n LT_NIL))"
    for n and out :: "8 word list"
  proof (induction n arbitrary: out)
    case (Suc n)
    then have "encode_values (replicate n LNil) (out @ [LT_NIL]) = Inr (Some ((out @ [LT_NIL]) @ replicate n LT_NIL))"
      by (intro Suc.IH) simp
    moreover have "encode_value LNil out = Inr (Some (out @ [LT_NIL]))"
      using Suc.prems by (simp add: encode_len_ok_def emit_some_def emit_def)
    ultimately show ?case by simp
  qed simp
  have zero: "(256 :: 8 word) = 0" by simp
  have "encode (replicate 256 LNil) 1 = Inr (Some ([0] @ replicate 256 LT_NIL))"
    using nils [of "[0]" 256] by (simp add: zero encode_def emit_def MAX_VARIABLE_def MAX_BUFF_def)
  moreover have "decode room tp ([0] @ replicate 256 LT_NIL) = Inr (Inr [])"
    using assms by (simp add: decode_def fetch_def)
  ultimately show ?thesis by (intro exI [of _ "[0] @ replicate 256 LT_NIL"]) (simp)
qed

theorem encode_count_wraps_witness:
  "\<exists>bs. encode (replicate 256 LNil) 1 = Inr (Some bs) \<and> decode (\<lambda>n. True) 0 bs = Inr (Inr [])"
  using encode_count_wraps [of "\<lambda>n. True" 0] by blast

text \<open>
  C34: a packet can make the decoder read outside it: the length of a string is fetched without
  a check, so a packet that ends after the type of a string is over-read; and the check of
  the length adds two \<open>size_t\<close>, so a length just below 2^64 passes it.
\<close>

theorem decode_overreads:
  assumes "room (tp + 1)" "n < 2 ^ 64" "2 ^ 64 \<le> n + 10"
  shows "decode room tp [1, LT_STR] = Inl OutOfRange \<and>
         decode room tp (1 # LT_STR # le_bytes 8 n) = Inl OutOfRange"
proof
  have "fetch [1, LT_STR] 1 0 = Inr (Inr ([1], 1))" by (simp add: fetch_def)
  moreover have "fetch_checked [1, LT_STR] 1 1 = Inr (Inr ([LT_STR], 2))"
    by (simp add: fetch_checked_def decode_len_ok_def fetch_def)
  moreover have "fetch [1, LT_STR] 8 2 = Inl OutOfRange" by (simp add: fetch_def)
  ultimately have "decode_values room [1, LT_STR] (Suc f) tp (Suc 0) 1 = Inl OutOfRange" for f
    by (simp add: types_distinct)
  from this [of 5] show "decode room tp [1, LT_STR] = Inl OutOfRange"
    using assms \<open>fetch [1, LT_STR] 1 0 = Inr (Inr ([1], 1))\<close> by (simp add: decode_def)
next
  note n = assms(2,3)
  define buf where "buf = 1 # LT_STR # le_bytes 8 n"
  have len: "length buf = 10" by (simp add: buf_def)
  have f0: "fetch buf 1 0 = Inr (Inr ([1], 1))" by (simp add: fetch_def buf_def)
  have f1: "fetch_checked buf 1 1 = Inr (Inr ([LT_STR], 2))"
    by (simp add: fetch_checked_def decode_len_ok_def fetch_def buf_def)
  have f2: "fetch buf 8 2 = Inr (Inr (le_bytes 8 n, 10))" by (simp add: fetch_def buf_def)
  have m: "of_le (le_bytes 8 n) = n" using n(1) by (simp add: of_le_bytes)
  have "(10 + n) mod 2 ^ 64 = n + 10 - 2 ^ 64"
    using n by (simp add: mod_if)
  then have "decode_len_ok buf n 10" using n len by (simp add: decode_len_ok_def)
  moreover have "\<not> 10 + n \<le> length buf" using n len by simp
  ultimately have f3: "fetch_checked buf n 10 = Inl OutOfRange" by (simp add: fetch_checked_def fetch_def)
  have fuel: "2 * length buf + 2 = Suc 21" by (simp add: len)
  have "decode_values room buf (Suc f) tp (Suc 0) 1 = Inl OutOfRange" for f
    by (simp add: f1 [simplified] f2 f3 m types_distinct)
  from this [of 21] show "decode room tp (1 # LT_STR # le_bytes 8 n) = Inl OutOfRange"
    unfolding buf_def [symmetric] using assms f0 len fuel by (simp add: decode_def)
qed

theorem decode_overreads_witness:
  "decode (\<lambda>n. True) 0 [1, LT_STR] = Inl OutOfRange \<and>
   decode (\<lambda>n. True) 0 (1 # LT_STR # le_bytes 8 (2 ^ 64 - 1)) = Inl OutOfRange"
  using decode_overreads [of "\<lambda>n. True" 0 "2 ^ 64 - 1"] by simp

end
