(* ===== verification/OrthList.thy ===== *)
theory OrthList
  imports Prelude "HOL-Library.Word" "HOL-Library.Monad_Syntax"
begin

text \<open>
  The orthogonal-list area-of-interest index of \<open>scene/orth_list_aoi.hpp\<close> and
  \<open>scene/orth_list_aoi.cpp\<close>.

  Every entity owns three list nodes: itself and the two borders of its view. A node is named
  by its kind and its entity's id, which stands for the \<open>Ctx *\<close>. The fields of all nodes are
  functions of the state, the links per axis, so a template instance over \<open>_pos\<close>, \<open>_next\<close> and
  \<open>_prev\<close> is a definition with an axis argument. \<open>o_heap\<close> holds the live \<open>EntityCtx\<close> objects,
  \<open>o_set\<close> the keys of \<open>_entity_set\<close>; the object pools are left out. An \<open>EntityVector *\<close> argument
  is \<open>None\<close> for a null pointer, otherwise the vector's content.

  An operation returns \<open>None\<close> where the program has no outcome: a failed assertion, a pointer to
  a deleted entity, or a walk over the links that does not end. Coordinates are \<^typ>\<open>int\<close> (signed
  overflow is undefined), marks are 32-bit words.
\<close>

section \<open>State\<close>

datatype ctx_type = CT_VISUAL_PREV | CT_ENTITY | CT_VISUAL_NEXT

fun type_no :: "ctx_type \<Rightarrow> int" where
  "type_no CT_VISUAL_PREV = -1"
| "type_no CT_ENTITY = 0"
| "type_no CT_VISUAL_NEXT = 1"

datatype axis = AX | AY | AZ

datatype node = Ctx (ctype: ctx_type) (owner: int)

abbreviation "PrevV \<equiv> Ctx CT_VISUAL_PREV"
abbreviation "Ent \<equiv> Ctx CT_ENTITY"
abbreviation "NextV \<equiv> Ctx CT_VISUAL_NEXT"

record entity =
  e_mask :: "8 word"
  e_mark :: "32 word"
  e_visual :: int
  e_old_visual :: int
  e_interest :: "int list"

record orth =
  o_use_y :: bool
  o_mark :: "32 word"
  o_now :: "32 word"
  o_first :: "axis \<Rightarrow> node option"
  o_next :: "axis \<Rightarrow> node \<Rightarrow> node option"
  o_prev :: "axis \<Rightarrow> node \<Rightarrow> node option"
  o_pos :: "node \<Rightarrow> axis \<Rightarrow> int"
  o_old :: "node \<Rightarrow> axis \<Rightarrow> int"
  o_heap :: "int \<rightharpoonup> entity"
  o_set :: "int set"

record outs =
  me_in :: "int list option"
  other_in :: "int list option"
  me_out :: "int list option"
  other_out :: "int list option"

type_synonym st = "orth \<times> outs"

definition INTEREST :: "8 word" where
  "INTEREST = 1"

definition wants :: "entity \<Rightarrow> bool" where
  "wants c \<longleftrightarrow> and (e_mask c) INTEREST \<noteq> 0"

definition has_visual :: "entity \<Rightarrow> bool" where
  "has_visual c \<longleftrightarrow> e_visual c > 0 \<and> wants c"

definition ctx_comp :: "orth \<Rightarrow> axis \<Rightarrow> node \<Rightarrow> node \<Rightarrow> int" where
  "ctx_comp s a this other =
     (if o_pos s this a > o_pos s other a then 1
      else if o_pos s this a = o_pos s other a then type_no (ctype this) - type_no (ctype other)
      else -1)"

definition orth_init :: orth where
  "orth_init =
     \<lparr>o_use_y = True, o_mark = 0, o_now = 0, o_first = (\<lambda>_. None), o_next = (\<lambda>_ _. None),
      o_prev = (\<lambda>_ _. None), o_pos = (\<lambda>_ _. 0), o_old = (\<lambda>_ _. 0), o_heap = Map.empty, o_set = {}\<rparr>"

section \<open>Fields of the nodes\<close>

definition set_first :: "axis \<Rightarrow> node option \<Rightarrow> orth \<Rightarrow> orth" where
  "set_first a v s = s\<lparr>o_first := (o_first s)(a := v)\<rparr>"

definition set_next :: "axis \<Rightarrow> node \<Rightarrow> node option \<Rightarrow> orth \<Rightarrow> orth" where
  "set_next a n v s = s\<lparr>o_next := (o_next s)(a := (o_next s a)(n := v))\<rparr>"

definition set_prev :: "axis \<Rightarrow> node \<Rightarrow> node option \<Rightarrow> orth \<Rightarrow> orth" where
  "set_prev a n v s = s\<lparr>o_prev := (o_prev s)(a := (o_prev s a)(n := v))\<rparr>"

definition ctx_reset :: "node \<Rightarrow> orth \<Rightarrow> orth" where
  "ctx_reset n s =
     s\<lparr>o_pos := (o_pos s)(n := \<lambda>_. 0), o_old := (o_old s)(n := \<lambda>_. 0),
       o_next := (\<lambda>a. (o_next s a)(n := None)), o_prev := (\<lambda>a. (o_prev s a)(n := None))\<rparr>"

definition update_old_pos :: "node \<Rightarrow> orth \<Rightarrow> orth" where
  "update_old_pos n s = s\<lparr>o_old := (o_old s)(n := o_pos s n)\<rparr>"

definition update_pos :: "node \<Rightarrow> (axis \<Rightarrow> int) \<Rightarrow> orth \<Rightarrow> orth" where
  "update_pos n p s = (update_old_pos n s)\<lparr>o_pos := (o_pos s)(n := p)\<rparr>"

definition point :: "int \<Rightarrow> int \<Rightarrow> int \<Rightarrow> axis \<Rightarrow> int" where
  "point x y z a = (case a of AX \<Rightarrow> x | AY \<Rightarrow> y | AZ \<Rightarrow> z)"

text \<open>\<open>new_entity_ctx\<close>: an object of the pool, reset, with an empty interest vector.\<close>

definition new_entity_ctx :: "int \<Rightarrow> orth \<Rightarrow> orth" where
  "new_entity_ctx e s =
     (ctx_reset (PrevV e) (ctx_reset (NextV e) (ctx_reset (Ent e) s)))
       \<lparr>o_heap := (o_heap s)(e \<mapsto> \<lparr>e_mask = 0, e_mark = 0, e_visual = 0, e_old_visual = 0, e_interest = []\<rparr>)\<rparr>"

definition ec_update_visual :: "int \<Rightarrow> int \<Rightarrow> orth \<Rightarrow> orth option" where
  "ec_update_visual e visual s = do {
     c \<leftarrow> o_heap s e;
     let s = s\<lparr>o_heap := (o_heap s)(e \<mapsto> c\<lparr>e_old_visual := e_visual c, e_visual := visual\<rparr>)\<rparr>;
     let p = o_pos s (Ent e);
     Some (update_pos (NextV e) (\<lambda>a. p a + visual) (update_pos (PrevV e) (\<lambda>a. p a - visual) s)) }"

definition get_entity_ctx :: "int \<Rightarrow> orth \<Rightarrow> int option" where
  "get_entity_ctx e s = (if e \<in> o_set s then Some e else None)"

section \<open>Views, marks and interest\<close>

definition had_mark :: "orth \<Rightarrow> entity \<Rightarrow> bool" where
  "had_mark s c \<longleftrightarrow> e_mark c \<ge> o_mark s \<and> e_mark c \<noteq> o_now s"

definition in_visual :: "orth \<Rightarrow> int \<Rightarrow> entity \<Rightarrow> (axis \<Rightarrow> int) \<Rightarrow> int \<Rightarrow> bool" where
  "in_visual s e c p visual =
     (let visual = (if visual = -1 then e_visual c else visual)
      in visual > 0 \<and> visual \<ge> \<bar>o_pos s (Ent e) AX - p AX\<bar> \<and> visual \<ge> \<bar>o_pos s (Ent e) AZ - p AZ\<bar>
         \<and> (\<not> o_use_y s \<or> visual \<ge> \<bar>o_pos s (Ent e) AY - p AY\<bar>))"

definition set_ent :: "int \<Rightarrow> entity \<Rightarrow> orth \<Rightarrow> orth" where
  "set_ent e c s = s\<lparr>o_heap := (o_heap s)(e \<mapsto> c)\<rparr>"

definition set_mark :: "int \<Rightarrow> 32 word \<Rightarrow> orth \<Rightarrow> orth option" where
  "set_mark e m s = do { c \<leftarrow> o_heap s e; Some (set_ent e (c\<lparr>e_mark := m\<rparr>) s) }"

definition emplace :: "int list option \<Rightarrow> int \<Rightarrow> int list option" where
  "emplace l e = map_option (\<lambda>xs. xs @ [e]) l"

definition on_enter_range ::
  "int \<Rightarrow> int \<Rightarrow> int list option \<Rightarrow> bool \<Rightarrow> orth \<Rightarrow> (int list option \<times> orth) option" where
  "on_enter_range ctx other list_in me s = do {
     c \<leftarrow> o_heap s ctx;
     d \<leftarrow> o_heap s other;
     if in_visual s ctx c (o_pos s (Ent other)) (-1)
     then Some (emplace list_in (if me then other else ctx),
                if wants c then set_ent other (d\<lparr>e_interest := e_interest d @ [ctx]\<rparr>) s else s)
     else Some (list_in, s) }"

text \<open>The body shared by the three exit handlers once the point is found in view.\<close>

definition leave_view ::
  "int \<Rightarrow> int \<Rightarrow> int list option \<Rightarrow> bool \<Rightarrow> orth \<Rightarrow> (int list option \<times> orth) option" where
  "leave_view ctx other list_out me s = do {
     c \<leftarrow> o_heap s ctx;
     d \<leftarrow> o_heap s other;
     Some (emplace list_out (if me then other else ctx),
           if wants c then set_ent other (d\<lparr>e_interest := snd (vec_remove (e_interest d) ctx)\<rparr>) s else s) }"

definition on_exit_range ::
  "int \<Rightarrow> int \<Rightarrow> int list option \<Rightarrow> bool \<Rightarrow> orth \<Rightarrow> (int list option \<times> orth) option" where
  "on_exit_range ctx other list_out me s = do {
     c \<leftarrow> o_heap s ctx;
     if in_visual s ctx c (o_pos s (Ent other)) (-1) then leave_view ctx other list_out me s
     else Some (list_out, s) }"

definition on_exit_old_range ::
  "int \<Rightarrow> int \<Rightarrow> int list option \<Rightarrow> bool \<Rightarrow> int \<Rightarrow> orth \<Rightarrow> (int list option \<times> orth) option" where
  "on_exit_old_range ctx other list_out me visual s = do {
     c \<leftarrow> o_heap s ctx;
     d \<leftarrow> o_heap s other;
     let visual = (if visual = -1 then e_old_visual c else visual);
     if in_visual s other d (o_old s (Ent ctx)) visual then leave_view ctx other list_out me s
     else Some (list_out, s) }"

definition on_exit_old_pos_range ::
  "int \<Rightarrow> int \<Rightarrow> int list option \<Rightarrow> bool \<Rightarrow> orth \<Rightarrow> (int list option \<times> orth) option" where
  "on_exit_old_pos_range ctx other list_out me s = do {
     c \<leftarrow> o_heap s ctx;
     if in_visual s ctx c (o_old s (Ent other)) (-1) then leave_view ctx other list_out me s
     else Some (list_out, s) }"

definition update_mark :: "orth \<Rightarrow> orth" where
  "update_mark s =
     (let s = (if o_now s \<ge> 0xFFFFFFFF - 3
               then s\<lparr>o_now := 0, o_heap := (\<lambda>e. if e \<in> o_set s then map_option (e_mark_update (\<lambda>_. 0)) (o_heap s e)
                                             else o_heap s e)\<rparr>
               else s)
      in s\<lparr>o_now := o_now s + 3, o_mark := o_now s + 3\<rparr>)"

section \<open>Walks over the links\<close>

text \<open>
  The two loops every operation is built of: to the right while \<open>c\<close> is greater than the next
  node, to the left while it is smaller than the previous one, calling \<open>f\<close> on each node passed.
\<close>

partial_function (option) walk_next ::
  "axis \<Rightarrow> node \<Rightarrow> (node \<Rightarrow> st \<Rightarrow> st option) \<Rightarrow> node option \<Rightarrow> node option \<Rightarrow> st \<Rightarrow>
     (node option \<times> node option \<times> st) option" where
  "walk_next a c f prev next_n st =
     (case next_n of
        None \<Rightarrow> Some (prev, None, st)
      | Some n \<Rightarrow>
          if ctx_comp (fst st) a c n > 0
          then Option.bind (f n st) (\<lambda>st'. walk_next a c f (Some n) (o_next (fst st') a n) st')
          else Some (prev, Some n, st))"

partial_function (option) walk_prev ::
  "axis \<Rightarrow> node \<Rightarrow> (node \<Rightarrow> st \<Rightarrow> st option) \<Rightarrow> node option \<Rightarrow> node option \<Rightarrow> st \<Rightarrow>
     (node option \<times> node option \<times> st) option" where
  "walk_prev a c f prev next_n st =
     (case prev of
        None \<Rightarrow> Some (None, next_n, st)
      | Some n \<Rightarrow>
          if ctx_comp (fst st) a c n < 0
          then Option.bind (f n st) (\<lambda>st'. walk_prev a c f (o_prev (fst st') a n) (Some n) st')
          else Some (Some n, next_n, st))"

text \<open>The two loops of \<open>each_range_entity\<close>, which go by the coordinate alone.\<close>

partial_function (option) range_prev ::
  "int \<Rightarrow> (int \<Rightarrow> st \<Rightarrow> st option) \<Rightarrow> node option \<Rightarrow> st \<Rightarrow> st option" where
  "range_prev lo func prev st =
     (case prev of
        None \<Rightarrow> Some st
      | Some n \<Rightarrow>
          if o_pos (fst st) n AX \<ge> lo
          then Option.bind (if ctype n = CT_ENTITY then func (owner n) st else Some st)
                 (\<lambda>st'. range_prev lo func (o_prev (fst st') AX n) st')
          else Some st)"

partial_function (option) range_next ::
  "int \<Rightarrow> (int \<Rightarrow> st \<Rightarrow> st option) \<Rightarrow> node option \<Rightarrow> st \<Rightarrow> st option" where
  "range_next hi func next_n st =
     (case next_n of
        None \<Rightarrow> Some st
      | Some n \<Rightarrow>
          if o_pos (fst st) n AX \<le> hi
          then Option.bind (if ctype n = CT_ENTITY then func (owner n) st else Some st)
                 (\<lambda>st'. range_next hi func (o_next (fst st') AX n) st')
          else Some st)"

definition ol_each_range_entity ::
  "node \<Rightarrow> int \<Rightarrow> (int \<Rightarrow> st \<Rightarrow> st option) \<Rightarrow> st \<Rightarrow> st option" where
  "ol_each_range_entity c visual func st = do {
     st \<leftarrow> range_prev (o_pos (fst st) c AX - visual) func (o_prev (fst st) AX c) st;
     range_next (o_pos (fst st) c AX + visual) func (o_next (fst st) AX c) st }"

text \<open>\<open>each_entity\<close>: the callback's answer ends the loop.\<close>

partial_function (option) each_entity_from ::
  "(int \<Rightarrow> 'r \<Rightarrow> bool \<times> 'r) \<Rightarrow> orth \<Rightarrow> node option \<Rightarrow> 'r \<Rightarrow> 'r option" where
  "each_entity_from func s ctx r =
     (case ctx of
        None \<Rightarrow> Some r
      | Some n \<Rightarrow>
          if ctype n = CT_ENTITY
          then (let (go, r') = func (owner n) r
                in if \<not> go then Some r' else each_entity_from func s (o_next s AX n) r')
          else each_entity_from func s (o_next s AX n) r)"

definition each_entity :: "(int \<Rightarrow> 'r \<Rightarrow> bool \<times> 'r) \<Rightarrow> orth \<Rightarrow> 'r \<Rightarrow> 'r option" where
  "each_entity func s r = each_entity_from func s (o_first s AX) r"

section \<open>Inserting and removing nodes\<close>

text \<open>
  \<open>list\<close> is the reference argument of \<open>insert_list\<close>: the head of the axis or a local variable
  that points into it. Its new value is returned with the state.
\<close>

definition insert_list ::
  "axis \<Rightarrow> node option \<Rightarrow> node \<Rightarrow> (node \<Rightarrow> st \<Rightarrow> st option) \<Rightarrow> st \<Rightarrow> (node option \<times> st) option" where
  "insert_list a list c f st =
     (case list of
        None \<Rightarrow> Some (Some c, st)
      | Some h \<Rightarrow> do {
          (prev, next_n, (s, out)) \<leftarrow> walk_next a c f (o_prev (fst st) a h) (Some h) st;
          let (list', s) = (case prev of Some p \<Rightarrow> (list, set_next a p (Some c) s) | None \<Rightarrow> (Some c, s));
          let s = set_next a c next_n (set_prev a c prev s);
          let s = (case next_n of Some n \<Rightarrow> set_prev a n (Some c) s | None \<Rightarrow> s);
          Some (list', (s, out)) })"

definition insert_head ::
  "axis \<Rightarrow> node \<Rightarrow> (node \<Rightarrow> st \<Rightarrow> st option) \<Rightarrow> st \<Rightarrow> st option" where
  "insert_head a c f st = do {
     (l, (s, out)) \<leftarrow> insert_list a (o_first (fst st) a) c f st;
     Some (set_first a l s, out) }"

definition ol_insert_entity ::
  "axis \<Rightarrow> int \<Rightarrow> (node \<Rightarrow> st \<Rightarrow> st option) \<Rightarrow> st \<Rightarrow> st option" where
  "ol_insert_entity a e f st = do {
     c \<leftarrow> o_heap (fst st) e;
     if has_visual c then do {
       st \<leftarrow> insert_head a (PrevV e) f st;
       (_, st) \<leftarrow> insert_list a (Some (PrevV e)) (Ent e) f st;
       (_, st) \<leftarrow> insert_list a (Some (Ent e)) (NextV e) f st;
       Some st }
     else insert_head a (Ent e) f st }"

definition remove_list :: "axis \<Rightarrow> node \<Rightarrow> orth \<Rightarrow> orth" where
  "remove_list a c s =
     (let prev = o_prev s a c; next_n = o_next s a c;
          s = (case prev of Some p \<Rightarrow> set_next a p next_n s | None \<Rightarrow> set_first a next_n s)
      in case next_n of Some n \<Rightarrow> set_prev a n prev s | None \<Rightarrow> s)"

definition ol_remove_entity :: "axis \<Rightarrow> int \<Rightarrow> orth \<Rightarrow> orth option" where
  "ol_remove_entity a e s = do {
     c \<leftarrow> o_heap s e;
     let has = has_visual c;
     let s = (if has then remove_list a (NextV e) s else s);
     let s = remove_list a (Ent e) s;
     Some (if has then remove_list a (PrevV e) s else s) }"

definition insert_visual_list ::
  "axis \<Rightarrow> int \<Rightarrow> (node \<Rightarrow> st \<Rightarrow> st option) \<Rightarrow> st \<Rightarrow> st option" where
  "insert_visual_list a e f st =
     (if o_prev (fst st) a (NextV e) \<noteq> None \<or> o_next (fst st) a (NextV e) \<noteq> None then None
      else do {
        (prev, next_n, (s, out)) \<leftarrow> walk_next a (NextV e) f (Some (Ent e)) (o_next (fst st) a (Ent e)) st;
        p \<leftarrow> prev;
        let s = set_next a (NextV e) next_n (set_prev a (NextV e) (Some p) (set_next a p (Some (NextV e)) s));
        let s = (case next_n of Some n \<Rightarrow> set_prev a n (Some (NextV e)) s | None \<Rightarrow> s);
        if o_next s a (PrevV e) \<noteq> None \<or> o_prev s a (PrevV e) \<noteq> None then None
        else do {
          (prev, next_n, (s, out)) \<leftarrow> walk_prev a (PrevV e) f (o_prev s a (Ent e)) (Some (Ent e)) (s, out);
          n \<leftarrow> next_n;
          let s = (case prev of Some p \<Rightarrow> set_next a p (Some (PrevV e)) s | None \<Rightarrow> set_first a (Some (PrevV e)) s);
          Some (set_prev a n (Some (PrevV e)) (set_next a (PrevV e) (Some n) (set_prev a (PrevV e) prev s)), out) } })"

section \<open>Shifting nodes\<close>

definition on_shift_visual :: "node \<Rightarrow> ctx_type \<Rightarrow> node \<Rightarrow> st \<Rightarrow> st option" where
  "on_shift_visual c shift_type other st =
     (if ctype other \<noteq> CT_ENTITY then Some st
      else do {
        d \<leftarrow> o_heap (fst st) (owner other);
        if had_mark (fst st) d then Some st
        else do {
          s \<leftarrow> set_mark (owner other) (o_now (fst st)) (fst st);
          if Ent (owner c) = other then None
          else if shift_type = ctype c
          then do { (l, s) \<leftarrow> on_enter_range (owner c) (owner other) (me_in (snd st)) True s;
                    Some (s, (snd st)\<lparr>me_in := l\<rparr>) }
          else do { (l, s) \<leftarrow> on_exit_old_range (owner c) (owner other) (me_out (snd st)) True (-1) s;
                    Some (s, (snd st)\<lparr>me_out := l\<rparr>) } } })"

definition on_shift_entity :: "int \<Rightarrow> ctx_type \<Rightarrow> node \<Rightarrow> st \<Rightarrow> st option" where
  "on_shift_entity e shift_type other st =
     (if ctype other = CT_ENTITY then Some st
      else if owner other = e then None
      else do {
        d \<leftarrow> o_heap (fst st) (owner other);
        if had_mark (fst st) d then Some st
        else do {
          s \<leftarrow> set_mark (owner other) (o_now (fst st)) (fst st);
          if shift_type = ctype other
          then do { (l, s) \<leftarrow> on_exit_old_pos_range (owner other) e (other_out (snd st)) False s;
                    Some (s, (snd st)\<lparr>other_out := l\<rparr>) }
          else do { (l, s) \<leftarrow> on_enter_range (owner other) e (other_in (snd st)) False s;
                    Some (s, (snd st)\<lparr>other_in := l\<rparr>) } } })"

definition on_shift :: "node \<Rightarrow> ctx_type \<Rightarrow> node \<Rightarrow> st \<Rightarrow> st option" where
  "on_shift c shift_type =
     (if ctype c = CT_ENTITY then on_shift_entity (owner c) shift_type else on_shift_visual c shift_type)"

definition shift_list_next :: "axis \<Rightarrow> node \<Rightarrow> st \<Rightarrow> st option" where
  "shift_list_next a c st = do {
     (prev, next_n, (s, out)) \<leftarrow> walk_next a c (on_shift c CT_VISUAL_NEXT) None (o_next (fst st) a c) st;
     case prev of
       None \<Rightarrow> Some (s, out)
     | Some p \<Rightarrow>
         if p = c \<or> next_n = Some c then None
         else let s = remove_list a c s;
                  s = set_next a c next_n (set_prev a c (Some p) (set_next a p (Some c) s))
              in Some (case next_n of Some n \<Rightarrow> set_prev a n (Some c) s | None \<Rightarrow> s, out) }"

definition shift_list_prev :: "axis \<Rightarrow> node \<Rightarrow> st \<Rightarrow> st option" where
  "shift_list_prev a c st = do {
     (prev, next_n, (s, out)) \<leftarrow> walk_prev a c (on_shift c CT_VISUAL_PREV) (o_prev (fst st) a c) None st;
     case next_n of
       None \<Rightarrow> Some (s, out)
     | Some n \<Rightarrow>
         if prev = Some c \<or> n = c then None
         else let s = remove_list a c s;
                  s = (case prev of Some p \<Rightarrow> set_next a p (Some c) s | None \<Rightarrow> set_first a (Some c) s)
              in Some (set_prev a n (Some c) (set_next a c (Some n) (set_prev a c prev s)), out) }"

definition shift_entity :: "axis \<Rightarrow> int \<Rightarrow> st \<Rightarrow> st option" where
  "shift_entity a e st = do {
     let st = ((fst st)\<lparr>o_now := o_now (fst st) + 1\<rparr>, snd st);
     c \<leftarrow> o_heap (fst st) e;
     let has = has_visual c;
     if o_pos (fst st) (Ent e) a > o_old (fst st) (Ent e) a then do {
       st \<leftarrow> (if has then shift_list_next a (NextV e) st else Some st);
       st \<leftarrow> shift_list_next a (Ent e) st;
       (if has then shift_list_next a (PrevV e) st else Some st) }
     else if o_pos (fst st) (Ent e) a < o_old (fst st) (Ent e) a then do {
       st \<leftarrow> (if has then shift_list_prev a (PrevV e) st else Some st);
       st \<leftarrow> shift_list_prev a (Ent e) st;
       (if has then shift_list_prev a (NextV e) st else Some st) }
     else Some st }"

text \<open>
  The shifts of the borders get only one of the four vectors, the others are null.
\<close>

definition only_me_in :: "outs \<Rightarrow> outs" where
  "only_me_in r = \<lparr>me_in = me_in r, other_in = None, me_out = None, other_out = None\<rparr>"

definition only_me_out :: "outs \<Rightarrow> outs" where
  "only_me_out r = \<lparr>me_in = None, other_in = None, me_out = me_out r, other_out = None\<rparr>"

definition shift_visual :: "axis \<Rightarrow> int \<Rightarrow> int \<Rightarrow> st \<Rightarrow> st option" where
  "shift_visual a e shift_type st = do {
     let (s, out) = ((fst st)\<lparr>o_now := o_now (fst st) + 1\<rparr>, snd st);
     if shift_type > 0 then do {
       st \<leftarrow> shift_list_next a (NextV e) (s, only_me_in out);
       (s, o') \<leftarrow> shift_list_prev a (PrevV e) st;
       Some (s, out\<lparr>me_in := me_in o'\<rparr>) }
     else if shift_type < 0 then do {
       st \<leftarrow> shift_list_prev a (NextV e) (s, only_me_out out);
       (s, o') \<leftarrow> shift_list_next a (PrevV e) st;
       Some (s, out\<lparr>me_out := me_out o'\<rparr>) }
     else Some (s, out) }"


section \<open>The operations\<close>

definition all_axes :: "(axis \<Rightarrow> st \<Rightarrow> st option) \<Rightarrow> st \<Rightarrow> st option" where
  "all_axes f st = do {
     st \<leftarrow> f AX st;
     st \<leftarrow> (if o_use_y (fst st) then f AY st else Some st);
     f AZ st }"

text \<open>The callback of \<open>enter_entity\<close> on the x axis.\<close>

definition enter_func :: "int \<Rightarrow> node \<Rightarrow> st \<Rightarrow> st option" where
  "enter_func e other st =
     (if ctype other = CT_ENTITY
      then if Ent e = other then Some st
           else do { (l, s) \<leftarrow> on_enter_range e (owner other) (me_in (snd st)) True (fst st);
                     Some (s, (snd st)\<lparr>me_in := l\<rparr>) }
      else if owner other = e then Some st
      else do {
        d \<leftarrow> o_heap (fst st) (owner other);
        if had_mark (fst st) d then Some st
        else do {
          s \<leftarrow> set_mark (owner other) (o_now (fst st) + 1) (fst st);
          (l, s) \<leftarrow> on_enter_range (owner other) e (other_in (snd st)) False s;
          Some (s, (snd st)\<lparr>other_in := l\<rparr>) } })"

definition ol_enter_entity ::
  "int \<Rightarrow> int \<Rightarrow> int \<Rightarrow> int \<Rightarrow> int \<Rightarrow> 8 word \<Rightarrow> st \<Rightarrow> (bool \<times> st) option" where
  "ol_enter_entity e x y z visual msk st =
     (let (s, out) = st in
      if e \<in> o_set s then Some (False, st)
      else do {
        let s = new_entity_ctx e (s\<lparr>o_set := insert e (o_set s)\<rparr>);
        c \<leftarrow> o_heap s e;
        let s = update_pos (Ent e) (point x y z) (set_ent e (c\<lparr>e_mask := msk\<rparr>) s);
        s \<leftarrow> ec_update_visual e visual s;
        let s = update_mark s;
        st \<leftarrow> all_axes (\<lambda>a. ol_insert_entity a e (if a = AX then enter_func e else (\<lambda>_. Some))) (s, out);
        Some (True, st) })"

definition del_entity_ctx :: "int \<Rightarrow> orth \<Rightarrow> orth" where
  "del_entity_ctx e s = s\<lparr>o_heap := (o_heap s)(e := None)\<rparr>"

text \<open>\<open>list\<close> is the vector that receives those who watched the entity.\<close>

definition ol_exit_entity ::
  "int \<Rightarrow> int list option \<Rightarrow> orth \<Rightarrow> (int \<times> int list option \<times> orth) option" where
  "ol_exit_entity e list s =
     (if e \<notin> o_set s then Some (1, list, s)
      else do {
        let s = s\<lparr>o_set := o_set s - {e}\<rparr>;
        c \<leftarrow> o_heap s e;
        let out = \<lparr>me_in = None, other_in = None, me_out = None, other_out = None\<rparr>;
        (s, _) \<leftarrow>
          (if has_visual c
           then ol_each_range_entity (Ent e) (e_visual c)
                  (\<lambda>other st. do { (_, s) \<leftarrow> on_exit_range e other None True (fst st); Some (s, snd st) }) (s, out)
           else Some (s, out));
        (s, _) \<leftarrow> all_axes (\<lambda>a st. do { s \<leftarrow> ol_remove_entity a e (fst st); Some (s, snd st) }) (s, out);
        c \<leftarrow> o_heap s e;
        Some (0, map_option (\<lambda>xs. xs @ e_interest c) list, del_entity_ctx e s) })"

definition ol_update_entity :: "int \<Rightarrow> int \<Rightarrow> int \<Rightarrow> int \<Rightarrow> st \<Rightarrow> (int \<times> st) option" where
  "ol_update_entity e x y z st =
     (case get_entity_ctx e (fst st) of
        None \<Rightarrow> Some (-1, st)
      | Some e \<Rightarrow> do {
          let s = update_pos (Ent e) (point x y z) (fst st);
          c \<leftarrow> o_heap s e;
          s \<leftarrow> ec_update_visual e (e_visual c) s;
          let s = update_mark s;
          st \<leftarrow> all_axes (\<lambda>a. shift_entity a e) (s, snd st);
          Some (0, st) })"

definition insert_visual :: "int \<Rightarrow> st \<Rightarrow> st option" where
  "insert_visual e =
     all_axes (\<lambda>a. insert_visual_list a e
       (if a = AX
        then (\<lambda>other st. if ctype other = CT_ENTITY
                then do { (l, s) \<leftarrow> on_enter_range e (owner other) (me_in (snd st)) True (fst st);
                          Some (s, (snd st)\<lparr>me_in := l\<rparr>) }
                else Some st)
        else (\<lambda>_. Some)))"

definition remove_visual :: "int \<Rightarrow> st \<Rightarrow> st option" where
  "remove_visual e st = do {
     c \<leftarrow> o_heap (fst st) e;
     st \<leftarrow> ol_each_range_entity (Ent e) (e_old_visual c)
             (\<lambda>other st. do { (l, s) \<leftarrow> on_exit_old_range e other (me_out (snd st)) True (-1) (fst st);
                              Some (s, (snd st)\<lparr>me_out := l\<rparr>) }) st;
     (s, out) \<leftarrow> all_axes (\<lambda>a st. Some (remove_list a (PrevV e) (remove_list a (NextV e) (fst st)), snd st)) st;
     Some (ctx_reset (PrevV e) (ctx_reset (NextV e) s), out) }"

definition ol_update_visual :: "int \<Rightarrow> int \<Rightarrow> st \<Rightarrow> (int \<times> st) option" where
  "ol_update_visual e visual st =
     (case get_entity_ctx e (fst st) of
        None \<Rightarrow> Some (-1, st)
      | Some e \<Rightarrow> do {
          c \<leftarrow> o_heap (fst st) e;
          s \<leftarrow> ec_update_visual e visual (fst st);
          c' \<leftarrow> o_heap s e;
          if has_visual c \<and> \<not> has_visual c' then do {
            st \<leftarrow> remove_visual e (update_old_pos (Ent e) s, snd st);
            Some (0, st) }
          else if \<not> has_visual c \<and> has_visual c' then do {
            st \<leftarrow> insert_visual e (s, snd st);
            Some (0, st) }
          else do {
            let s = update_old_pos (Ent e) (update_mark s);
            st \<leftarrow> all_axes (\<lambda>a. shift_visual a e (e_visual c' - e_old_visual c')) (s, snd st);
            Some (0, st) } })"

text \<open>\<open>valid_dump\<close> without its printing: no node is greater than the one after it.\<close>

partial_function (option) valid_from :: "axis \<Rightarrow> orth \<Rightarrow> bool \<Rightarrow> node option \<Rightarrow> node option \<Rightarrow> bool option" where
  "valid_from a s ok last_n ctx =
     (case ctx of
        None \<Rightarrow> Some ok
      | Some n \<Rightarrow> valid_from a s (ok \<and> \<not> (case last_n of None \<Rightarrow> False | Some l \<Rightarrow> ctx_comp s a l n > 0))
                    (Some n) (o_next s a n))"

definition valid_dump :: "orth \<Rightarrow> bool option" where
  "valid_dump s = do {
     ok \<leftarrow> valid_from AX s True None (o_first s AX);
     ok \<leftarrow> valid_from AY s ok None (o_first s AY);
     valid_from AZ s ok None (o_first s AZ) }"


text \<open>The equations of the loops evaluate them.\<close>

declare walk_next.simps [code] walk_prev.simps [code] range_prev.simps [code]
  range_next.simps [code] each_entity_from.simps [code] valid_from.simps [code]

end
