(* ===== verification/OrthLinks.thy ===== *)
theory OrthLinks
  imports OrthList
begin

declare split_paired_All [simp del] split_paired_Ex [simp del]

text \<open>
  The links of an axis as a list. \<open>linked nx pv f xs\<close>: from the head \<open>f\<close> the next and previous
  links lead through exactly the nodes \<open>xs\<close>. Inserting, removing and moving a node are the
  expected functions of the list, and a walk calls its callback on a prefix of what lies ahead
  of it, cut off at the first node out of reach.
\<close>

section \<open>Keys\<close>

definition okey :: "orth \<Rightarrow> axis \<Rightarrow> node \<Rightarrow> int" where
  "okey s a n = 3 * o_pos s n a + type_no (ctype n)"

lemma type_no_bounds: "-1 \<le> type_no t" "type_no t \<le> 1"
  by (cases t; simp)+

lemma ctx_comp_pos: "ctx_comp s a c n > 0 \<longleftrightarrow> okey s a n < okey s a c"
  using type_no_bounds [of "ctype c"] type_no_bounds [of "ctype n"]
  by (auto simp: ctx_comp_def okey_def)

lemma ctx_comp_neg: "ctx_comp s a c n < 0 \<longleftrightarrow> okey s a c < okey s a n"
  using type_no_bounds [of "ctype c"] type_no_bounds [of "ctype n"]
  by (auto simp: ctx_comp_def okey_def)

section \<open>Linked segments\<close>

definition hd_or :: "node option \<Rightarrow> node list \<Rightarrow> node option" where
  "hd_or q xs = (case xs of [] \<Rightarrow> q | y # _ \<Rightarrow> Some y)"

definition last_or :: "node option \<Rightarrow> node list \<Rightarrow> node option" where
  "last_or p xs = (if xs = [] then p else Some (last xs))"

lemma hd_or_simps [simp]:
  "hd_or q [] = q" "hd_or q (x # xs) = Some x"
  "hd_or q (xs @ ys) = hd_or (hd_or q ys) xs"
  by (simp_all add: hd_or_def split: list.split)

lemma last_or_simps [simp]:
  "last_or p [] = p" "last_or p (x # xs) = last_or (Some x) xs"
  "last_or p (xs @ ys) = last_or (last_or p xs) ys"
  by (simp_all add: last_or_def)

lemma last_or_snoc: "last_or p (xs @ [x]) = Some x"
  by (simp add: last_or_def)

lemma hd_or_Some: "hd_or None xs = Some n \<longleftrightarrow> (\<exists>ys. xs = n # ys)"
  by (cases xs) auto

lemma last_or_Some: "last_or None xs = Some n \<longleftrightarrow> (\<exists>ys. xs = ys @ [n])"
  by (cases xs rule: rev_cases) (auto simp: last_or_def)

lemma hd_or_in: "hd_or None xs = Some n \<Longrightarrow> n \<in> set xs"
  by (auto simp: hd_or_Some)

lemma last_or_in: "last_or None xs = Some n \<Longrightarrow> n \<in> set xs"
  by (auto simp: last_or_Some)

lemma hd_or_None: "hd_or None xs = None \<longleftrightarrow> xs = []"
  by (cases xs) auto

lemma last_or_None: "last_or None xs = None \<longleftrightarrow> xs = []"
  by (simp add: last_or_def)

type_synonym link = "node \<Rightarrow> node option"

fun seg :: "link \<Rightarrow> link \<Rightarrow> node option \<Rightarrow> node list \<Rightarrow> node option \<Rightarrow> bool" where
  "seg nx pv p [] q \<longleftrightarrow> True"
| "seg nx pv p (x # xs) q \<longleftrightarrow> pv x = p \<and> nx x = hd_or q xs \<and> seg nx pv (Some x) xs q"

lemma seg_append:
  "seg nx pv p (xs @ ys) q \<longleftrightarrow> seg nx pv p xs (hd_or q ys) \<and> seg nx pv (last_or p xs) ys q"
  by (induction xs arbitrary: p) auto

lemma seg_cong:
  "(\<And>x. x \<in> set xs \<Longrightarrow> nx x = nx' x \<and> pv x = pv' x) \<Longrightarrow> seg nx pv p xs q = seg nx' pv' p xs q"
  by (induction xs arbitrary: p) auto

lemma seg_upd [simp]:
  "x \<notin> set xs \<Longrightarrow> seg (nx(x := v)) pv p xs q = seg nx pv p xs q"
  "x \<notin> set xs \<Longrightarrow> seg nx (pv(x := v)) p xs q = seg nx pv p xs q"
  by (rule seg_cong; auto)+

definition linked :: "link \<Rightarrow> link \<Rightarrow> node option \<Rightarrow> node list \<Rightarrow> bool" where
  "linked nx pv f xs \<longleftrightarrow> distinct xs \<and> f = hd_or None xs \<and> seg nx pv None xs None"

lemma linked_distinct: "linked nx pv f xs \<Longrightarrow> distinct xs"
  by (simp add: linked_def)

lemma linked_at:
  assumes "linked nx pv f (A @ c # B)"
  shows "pv c = last_or None A" "nx c = hd_or None B"
  using assms by (simp_all add: linked_def seg_append)

lemma linked_cong:
  "(\<And>x. x \<in> set xs \<Longrightarrow> nx x = nx' x \<and> pv x = pv' x) \<Longrightarrow> linked nx pv f xs = linked nx' pv' f xs"
  unfolding linked_def by (metis seg_cong)

section \<open>Inserting and removing a node\<close>

definition in_next :: "node option \<Rightarrow> node \<Rightarrow> node option \<Rightarrow> link \<Rightarrow> link" where
  "in_next p c q nx = (case p of None \<Rightarrow> nx | Some p \<Rightarrow> nx(p := Some c))(c := q)"

definition in_prev :: "node option \<Rightarrow> node \<Rightarrow> node option \<Rightarrow> link \<Rightarrow> link" where
  "in_prev p c q pv = (case q of None \<Rightarrow> pv(c := p) | Some q \<Rightarrow> (pv(c := p))(q := Some c))"

lemma seg_last_next:
  assumes "seg nx pv p A q" "distinct A"
  shows "seg (case last_or None A of None \<Rightarrow> nx | Some z \<Rightarrow> nx(z := q')) pv p A q'"
proof (cases A rule: rev_cases)
  case (snoc A' z)
  then show ?thesis using assms by (auto simp: seg_append last_or_def)
qed simp

lemma seg_first_prev:
  assumes "seg nx pv p B q" "distinct B"
  shows "seg nx (case hd_or None B of None \<Rightarrow> pv | Some z \<Rightarrow> pv(z := p')) p' B q"
  using assms by (cases B) auto

lemma linked_insert:
  assumes lk: "linked nx pv f (A @ B)" and c: "c \<notin> set (A @ B)"
  shows "linked (in_next (last_or None A) c (hd_or None B) nx) (in_prev (last_or None A) c (hd_or None B) pv)
           (if A = [] then Some c else f) (A @ c # B)"
proof -
  let ?nx = "in_next (last_or None A) c (hd_or None B) nx"
  let ?pv = "in_prev (last_or None A) c (hd_or None B) pv"
  have d: "distinct (A @ B)" and sA: "seg nx pv None A (hd_or None B)"
    and sB: "seg nx pv (last_or None A) B None" and f: "f = hd_or None (A @ B)"
    using lk by (simp_all add: linked_def seg_append)
  have hdB: "z \<in> set B" if "hd_or None B = Some z" for z using that by (auto simp: hd_or_Some)
  have laA: "z \<in> set A" if "last_or None A = Some z" for z using that by (auto simp: last_or_Some)
  have "seg (case last_or None A of None \<Rightarrow> nx | Some z \<Rightarrow> nx(z := Some c)) pv None A (Some c)"
    by (rule seg_last_next [OF sA]) (use d in simp)
  then have A: "seg ?nx ?pv None A (Some c)"
    by (rule iffD1 [OF seg_cong, rotated])
       (use c d hdB in \<open>auto simp: in_next_def in_prev_def split: option.splits\<close>)
  have "seg nx (case hd_or None B of None \<Rightarrow> pv | Some z \<Rightarrow> pv(z := Some c)) (Some c) B None"
    by (rule seg_first_prev [OF sB]) (use d in simp)
  then have B: "seg ?nx ?pv (Some c) B None"
    by (rule iffD1 [OF seg_cong, rotated])
       (use c d laA in \<open>auto simp: in_next_def in_prev_def split: option.splits\<close>)
  have mid: "?pv c = last_or None A" "?nx c = hd_or None B"
    using c hdB by (auto simp: in_next_def in_prev_def split: option.splits)
  have "(if A = [] then Some c else f) = hd_or None (A @ c # B)"
    using f by (cases A) auto
  then show ?thesis
    unfolding linked_def seg_append using A B mid c d by simp
qed

definition out_next :: "node option \<Rightarrow> node option \<Rightarrow> link \<Rightarrow> link" where
  "out_next p q nx = (case p of None \<Rightarrow> nx | Some p \<Rightarrow> nx(p := q))"

definition out_prev :: "node option \<Rightarrow> node option \<Rightarrow> link \<Rightarrow> link" where
  "out_prev p q pv = (case q of None \<Rightarrow> pv | Some q \<Rightarrow> pv(q := p))"

lemma linked_remove:
  assumes lk: "linked nx pv f (A @ c # B)"
  shows "linked (out_next (last_or None A) (hd_or None B) nx) (out_prev (last_or None A) (hd_or None B) pv)
           (if A = [] then hd_or None B else f) (A @ B)"
proof -
  have d: "distinct (A @ B)" and sA: "seg nx pv None A (Some c)"
    and sB: "seg nx pv (Some c) B None" and f: "f = hd_or None (A @ c # B)"
    using lk by (simp_all add: linked_def seg_append)
  have hdB: "z \<in> set B" if "hd_or None B = Some z" for z using that by (auto simp: hd_or_Some)
  have laA: "z \<in> set A" if "last_or None A = Some z" for z using that by (auto simp: last_or_Some)
  let ?nx = "out_next (last_or None A) (hd_or None B) nx"
  let ?pv = "out_prev (last_or None A) (hd_or None B) pv"
  have "seg ?nx pv None A (hd_or None B)"
    unfolding out_next_def by (rule seg_last_next [OF sA]) (use d in simp)
  then have A: "seg ?nx ?pv None A (hd_or None B)"
    by (rule iffD1 [OF seg_cong, rotated]) (use d hdB in \<open>auto simp: out_prev_def split: option.splits\<close>)
  have "seg nx ?pv (last_or None A) B None"
    unfolding out_prev_def by (rule seg_first_prev [OF sB]) (use d in simp)
  then have B: "seg ?nx ?pv (last_or None A) B None"
    by (rule iffD1 [OF seg_cong, rotated]) (use d laA in \<open>auto simp: out_next_def split: option.splits\<close>)
  have "(if A = [] then hd_or None B else f) = hd_or None (A @ B)"
    using f by (cases A) auto
  then show ?thesis unfolding linked_def seg_append using A B d by simp
qed

section \<open>What a callback leaves alone\<close>

text \<open>
  A callback changes marks and interest vectors only: the \<open>shape\<close> of the state, everything else,
  stays the same, so a walk may read links and positions as they were when it began.
\<close>

definition shape :: "orth \<Rightarrow> orth" where
  "shape s = s\<lparr>o_heap := (\<lambda>e. map_option (\<lambda>c. c\<lparr>e_mark := 0, e_interest := []\<rparr>) (o_heap s e))\<rparr>"

lemma shape_fields:
  assumes "shape s = shape t"
  shows "o_use_y s = o_use_y t" "o_mark s = o_mark t" "o_now s = o_now t" "o_first s = o_first t"
    "o_next s = o_next t" "o_prev s = o_prev t" "o_pos s = o_pos t" "o_old s = o_old t" "o_set s = o_set t"
  using arg_cong [OF assms, of o_use_y] arg_cong [OF assms, of o_mark] arg_cong [OF assms, of o_now]
    arg_cong [OF assms, of o_first] arg_cong [OF assms, of o_next] arg_cong [OF assms, of o_prev]
    arg_cong [OF assms, of o_pos] arg_cong [OF assms, of o_old] arg_cong [OF assms, of o_set]
  by (simp_all add: shape_def)

lemma ent_eqD:
  assumes "c\<lparr>e_mark := 0, e_interest := []\<rparr> = d\<lparr>e_mark := 0, e_interest := []\<rparr>"
  shows "e_mask c = e_mask d" "e_visual c = e_visual d" "e_old_visual c = e_old_visual d"
  using arg_cong [OF assms, of e_mask] arg_cong [OF assms, of e_visual] arg_cong [OF assms, of e_old_visual]
  by simp_all

lemma shape_heap:
  assumes "shape s = shape t"
  shows "map_option (\<lambda>c. (e_mask c, e_visual c, e_old_visual c)) (o_heap s e) =
         map_option (\<lambda>c. (e_mask c, e_visual c, e_old_visual c)) (o_heap t e)"
proof -
  have "o_heap (shape s) e = o_heap (shape t) e" using assms by simp
  then show ?thesis
    by (cases "o_heap s e"; cases "o_heap t e") (auto simp: shape_def dest: ent_eqD)
qed

lemma shape_dom: "shape s = shape t \<Longrightarrow> o_heap s e = None \<longleftrightarrow> o_heap t e = None"
  using shape_heap [of s t e] by (cases "o_heap s e"; cases "o_heap t e") simp_all

lemma shape_ent:
  assumes "shape s = shape t" "o_heap t e = Some c"
  obtains d where "o_heap s e = Some d" "e_mask d = e_mask c" "e_visual d = e_visual c"
    "e_old_visual d = e_old_visual c"
  using shape_heap [OF assms(1), of e] assms(2) by (cases "o_heap s e") auto

lemma shape_set_ent:
  assumes "o_heap s e = Some d" "e_mask c = e_mask d" "e_visual c = e_visual d" "e_old_visual c = e_old_visual d"
  shows "shape (set_ent e c s) = shape s"
  using assms by (auto simp: shape_def set_ent_def fun_eq_iff)

lemma shape_okey:
  assumes "shape s = shape t"
  shows "okey s = okey t"
  by (simp add: okey_def shape_fields [OF assms] fun_eq_iff)

section \<open>Walks\<close>

fun fold_opt :: "('a \<Rightarrow> 's \<Rightarrow> 's option) \<Rightarrow> 'a list \<Rightarrow> 's \<Rightarrow> 's option" where
  "fold_opt f [] s = Some s"
| "fold_opt f (x # xs) s = Option.bind (f x s) (fold_opt f xs)"

lemma fold_opt_append: "fold_opt f (xs @ ys) s = Option.bind (fold_opt f xs s) (fold_opt f ys)"
proof (induction xs arbitrary: s)
  case (Cons x xs)
  then show ?case by (cases "f x s") simp_all
qed simp

lemma fold_opt_Some [simp]: "fold_opt (\<lambda>_. Some) xs s = Some s"
  by (induction xs) simp_all

text \<open>The links and the current mark do not matter to whether a callback succeeds.\<close>

definition core :: "orth \<Rightarrow> orth" where
  "core s = (shape s)\<lparr>o_now := 0, o_first := (\<lambda>_. None), o_next := (\<lambda>_ _. None), o_prev := (\<lambda>_ _. None)\<rparr>"

lemma shape_core: "shape s = shape t \<Longrightarrow> core s = core t"
  by (simp add: core_def)

definition keeps :: "orth \<Rightarrow> node set \<Rightarrow> (node \<Rightarrow> st \<Rightarrow> st option) \<Rightarrow> bool" where
  "keeps s N f \<longleftrightarrow>
     (\<forall>n st. n \<in> N \<longrightarrow> core (fst st) = core s \<longrightarrow> (\<exists>st'. f n st = Some st' \<and> shape (fst st') = shape (fst st)))"

lemma keepsD:
  "keeps s N f \<Longrightarrow> n \<in> N \<Longrightarrow> shape (fst st) = shape s \<Longrightarrow> \<exists>st'. f n st = Some st' \<and> shape (fst st') = shape s"
  by (metis keeps_def shape_core)

lemma keeps_Some [simp]: "keeps s N (\<lambda>_. Some)"
  by (simp add: keeps_def)

lemma keeps_mono: "keeps s N f \<Longrightarrow> M \<subseteq> N \<Longrightarrow> keeps s M f"
  by (auto simp: keeps_def)

lemma keeps_core: "keeps s N f \<Longrightarrow> core t = core s \<Longrightarrow> keeps t N f"
  by (simp add: keeps_def)

definition passed :: "orth \<Rightarrow> axis \<Rightarrow> node \<Rightarrow> node list \<Rightarrow> node list" where
  "passed s a c ys = takeWhile (\<lambda>n. okey s a n < okey s a c) ys"

definition beyond :: "orth \<Rightarrow> axis \<Rightarrow> node \<Rightarrow> node list \<Rightarrow> node list" where
  "beyond s a c ys = dropWhile (\<lambda>n. okey s a n < okey s a c) ys"

definition passed_back :: "orth \<Rightarrow> axis \<Rightarrow> node \<Rightarrow> node list \<Rightarrow> node list" where
  "passed_back s a c ys = takeWhile (\<lambda>n. okey s a c < okey s a n) (rev ys)"

definition before :: "orth \<Rightarrow> axis \<Rightarrow> node \<Rightarrow> node list \<Rightarrow> node list" where
  "before s a c ys = rev (dropWhile (\<lambda>n. okey s a c < okey s a n) (rev ys))"

lemma passed_beyond: "passed s a c ys @ beyond s a c ys = ys"
  by (simp add: passed_def beyond_def)

lemma before_passed: "before s a c ys @ rev (passed_back s a c ys) = ys"
  by (metis before_def passed_back_def rev_append rev_rev_ident takeWhile_dropWhile_id)

lemma passed_key: "n \<in> set (passed s a c ys) \<Longrightarrow> okey s a n < okey s a c"
  unfolding passed_def by (blast dest: set_takeWhileD)

lemma passed_back_key: "n \<in> set (passed_back s a c ys) \<Longrightarrow> okey s a c < okey s a n"
  unfolding passed_back_def by (blast dest: set_takeWhileD)

lemma walk_next_run:
  assumes "seg (o_next s a) (o_prev s a) p' ys None" "keeps s (set (passed s a c ys)) f" "shape (fst st) = shape s"
  shows "\<exists>st'. fold_opt f (passed s a c ys) st = Some st' \<and> shape (fst st') = shape s \<and>
     walk_next a c f p (hd_or None ys) st =
       Some (last_or p (passed s a c ys), hd_or None (beyond s a c ys), st')"
  using assms
proof (induction ys arbitrary: p' p st)
  case Nil
  then show ?case by (simp add: walk_next.simps [of a c f p None] passed_def beyond_def)
next
  case (Cons n ys)
  have cmp: "0 < ctx_comp (fst st) a c n \<longleftrightarrow> okey s a n < okey s a c"
    by (simp add: ctx_comp_pos shape_okey [OF Cons.prems(3)])
  show ?case
  proof (cases "okey s a n < okey s a c")
    case False
    then show ?thesis
      using Cons.prems(3) cmp by (simp add: walk_next.simps [of a c f p "Some n"] passed_def beyond_def)
  next
    case True
    obtain st1 where st1: "f n st = Some st1" "shape (fst st1) = shape s"
      using keepsD [OF Cons.prems(2) _ Cons.prems(3), of n] True by (auto simp: passed_def)
    have "keeps s (set (passed s a c ys)) f"
      by (rule keeps_mono [OF Cons.prems(2)]) (use True in \<open>auto simp: passed_def\<close>)
    from Cons.IH [OF _ this st1(2), of "Some n" "Some n"] Cons.prems(1)
    obtain st' where "fold_opt f (passed s a c ys) st1 = Some st'" "shape (fst st') = shape s"
      "walk_next a c f (Some n) (hd_or None ys) st1 =
         Some (last_or (Some n) (passed s a c ys), hd_or None (beyond s a c ys), st')" by auto
    moreover have "o_next (fst st1) a n = hd_or None ys"
      using Cons.prems(1) by (simp add: shape_fields [OF st1(2)])
    ultimately show ?thesis
      using True cmp st1 by (simp add: walk_next.simps [of a c f p "Some n"] passed_def beyond_def)
  qed
qed

lemma walk_prev_run:
  assumes "seg (o_next s a) (o_prev s a) None ys q'" "keeps s (set (passed_back s a c ys)) f" "shape (fst st) = shape s"
  shows "\<exists>st'. fold_opt f (passed_back s a c ys) st = Some st' \<and> shape (fst st') = shape s \<and>
     walk_prev a c f (last_or None ys) q st =
       Some (last_or None (before s a c ys), hd_or q (rev (passed_back s a c ys)), st')"
  using assms
proof (induction ys arbitrary: q' q st rule: rev_induct)
  case Nil
  then show ?case by (simp add: walk_prev.simps [of a c f None] passed_back_def before_def)
next
  case (snoc n ys)
  have cmp: "ctx_comp (fst st) a c n < 0 \<longleftrightarrow> okey s a c < okey s a n"
    by (simp add: ctx_comp_neg shape_okey [OF snoc.prems(3)])
  show ?case
  proof (cases "okey s a c < okey s a n")
    case False
    then show ?thesis
      using snoc.prems(3) cmp
      by (simp add: walk_prev.simps [of a c f "Some n"] passed_back_def before_def last_or_snoc)
  next
    case True
    obtain st1 where st1: "f n st = Some st1" "shape (fst st1) = shape s"
      using keepsD [OF snoc.prems(2) _ snoc.prems(3), of n] True by (auto simp: passed_back_def)
    have "keeps s (set (passed_back s a c ys)) f"
      by (rule keeps_mono [OF snoc.prems(2)]) (use True in \<open>auto simp: passed_back_def\<close>)
    from snoc.IH [OF _ this st1(2), of "Some n" "Some n"] snoc.prems(1)
    obtain st' where "fold_opt f (passed_back s a c ys) st1 = Some st'" "shape (fst st') = shape s"
      "walk_prev a c f (last_or None ys) (Some n) st1 =
         Some (last_or None (before s a c ys), hd_or (Some n) (rev (passed_back s a c ys)), st')"
      by (auto simp: seg_append)
    moreover have "o_prev (fst st1) a n = last_or None ys"
      using snoc.prems(1) by (simp add: shape_fields [OF st1(2)] seg_append)
    ultimately show ?thesis
      using True cmp st1
      by (simp add: walk_prev.simps [of a c f "Some n"] passed_back_def before_def last_or_snoc)
  qed
qed

section \<open>Relinking an axis\<close>

definition alinked :: "orth \<Rightarrow> axis \<Rightarrow> node list \<Rightarrow> bool" where
  "alinked s a xs \<longleftrightarrow> linked (o_next s a) (o_prev s a) (o_first s a) xs"

definition relink :: "axis \<Rightarrow> node option \<Rightarrow> link \<Rightarrow> link \<Rightarrow> orth \<Rightarrow> orth" where
  "relink a f nx pv s =
     s\<lparr>o_first := (o_first s)(a := f), o_next := (o_next s)(a := nx), o_prev := (o_prev s)(a := pv)\<rparr>"

lemma relink_fields [simp]:
  "o_use_y (relink a f nx pv s) = o_use_y s" "o_mark (relink a f nx pv s) = o_mark s"
  "o_now (relink a f nx pv s) = o_now s" "o_pos (relink a f nx pv s) = o_pos s"
  "o_old (relink a f nx pv s) = o_old s" "o_heap (relink a f nx pv s) = o_heap s"
  "o_set (relink a f nx pv s) = o_set s" "o_first (relink a f nx pv s) = (o_first s)(a := f)"
  "o_next (relink a f nx pv s) = (o_next s)(a := nx)" "o_prev (relink a f nx pv s) = (o_prev s)(a := pv)"
  by (simp_all add: relink_def)

lemma relink_relink [simp]: "relink a f nx pv (relink a f' nx' pv' s) = relink a f nx pv s"
  by (simp add: relink_def)

lemma relink_same [simp]: "relink a (o_first s a) (o_next s a) (o_prev s a) s = s"
  by (simp add: relink_def)

lemma set_first_relink: "set_first a v s = relink a v (o_next s a) (o_prev s a) s"
  by (simp add: set_first_def relink_def)

lemma set_next_relink: "set_next a n v s = relink a (o_first s a) ((o_next s a)(n := v)) (o_prev s a) s"
  by (simp add: set_next_def relink_def)

lemma set_prev_relink: "set_prev a n v s = relink a (o_first s a) (o_next s a) ((o_prev s a)(n := v)) s"
  by (simp add: set_prev_def relink_def)

lemmas set_relink = set_first_relink set_next_relink set_prev_relink

lemma okey_relink [simp]: "okey (relink a f nx pv s) = okey s"
  by (simp add: okey_def fun_eq_iff)

text \<open>The links of axis \<open>a\<close> become those of \<open>ys\<close>; only links of nodes of \<open>D\<close> change.\<close>

definition relinked :: "axis \<Rightarrow> node set \<Rightarrow> node list \<Rightarrow> orth \<Rightarrow> orth \<Rightarrow> bool" where
  "relinked a D ys s s' \<longleftrightarrow>
     (\<exists>f nx pv. s' = relink a f nx pv s \<and> linked nx pv f ys \<and>
                (\<forall>n. n \<notin> D \<longrightarrow> nx n = o_next s a n \<and> pv n = o_prev s a n))"

lemma relinkedI:
  "linked nx pv f ys \<Longrightarrow> (\<And>n. n \<notin> D \<Longrightarrow> nx n = o_next s a n \<and> pv n = o_prev s a n) \<Longrightarrow>
     s' = relink a f nx pv s \<Longrightarrow> relinked a D ys s s'"
  unfolding relinked_def by blast

lemma relinked_trans:
  assumes "relinked a D xs s t" "relinked a E ys t u"
  shows "relinked a (D \<union> E) ys s u"
proof -
  obtain f nx pv where 1: "t = relink a f nx pv s" "\<forall>n. n \<notin> D \<longrightarrow> nx n = o_next s a n \<and> pv n = o_prev s a n"
    using assms(1) unfolding relinked_def by blast
  obtain g mx qv where 2: "u = relink a g mx qv t" "linked mx qv g ys"
    "\<forall>n. n \<notin> E \<longrightarrow> mx n = o_next t a n \<and> qv n = o_prev t a n"
    using assms(2) unfolding relinked_def by blast
  show ?thesis
    by (rule relinkedI [OF 2(2)]) (use 1 2 in simp_all)
qed

lemma relinked_mono: "relinked a D xs s t \<Longrightarrow> D \<subseteq> E \<Longrightarrow> relinked a E xs s t"
  unfolding relinked_def by blast

lemma relinked_refl: "alinked s a xs \<Longrightarrow> relinked a {} xs s s"
  by (rule relinkedI [of "o_next s a" "o_prev s a" "o_first s a"]) (simp_all add: alinked_def)

lemma relinked_alinked: "relinked a D xs s t \<Longrightarrow> alinked t a xs"
  unfolding relinked_def alinked_def by auto

lemma relinked_other: "relinked a D xs s t \<Longrightarrow> b \<noteq> a \<Longrightarrow> alinked t b ys = alinked s b ys"
  unfolding relinked_def alinked_def by auto

lemma relinked_fields:
  assumes "relinked a D xs s t"
  shows "o_use_y t = o_use_y s" "o_mark t = o_mark s" "o_now t = o_now s" "o_pos t = o_pos s"
    "o_old t = o_old s" "o_heap t = o_heap s" "o_set t = o_set s" "okey t = okey s"
  using assms unfolding relinked_def by auto

lemma relinked_core: "relinked a D xs s t \<Longrightarrow> core t = core s"
  unfolding relinked_def by (auto simp: core_def shape_def relink_def)

lemma relinked_links:
  assumes "relinked a D xs s t" "n \<notin> D \<or> b \<noteq> a"
  shows "o_next t b n = o_next s b n" "o_prev t b n = o_prev s b n"
  using assms unfolding relinked_def by auto

lemma relinked_keeps: "relinked a D xs s t \<Longrightarrow> b \<noteq> a \<Longrightarrow> o_first t b = o_first s b"
  unfolding relinked_def by auto

section \<open>Specifications of the list operations\<close>

lemma insert_list_spec:
  assumes lk: "alinked (fst st) a (A @ B)" and c: "c \<notin> set (A @ B)" and l: "list = hd_or None B"
    and ne: "B = [] \<Longrightarrow> A = [] \<and> o_next (fst st) a c = None \<and> o_prev (fst st) a c = None"
    and k: "keeps (fst st) (set (passed (fst st) a c B)) f"
  defines "T \<equiv> passed (fst st) a c B" and "R \<equiv> beyond (fst st) a c B"
  shows "\<exists>st1. fold_opt f T st = Some st1 \<and> shape (fst st1) = shape (fst st) \<and>
    insert_list a list c f st =
      Some (if A @ T = [] then Some c else list,
            relink a (o_first (fst st) a) (in_next (last_or None (A @ T)) c (hd_or None R) (o_next (fst st) a))
              (in_prev (last_or None (A @ T)) c (hd_or None R) (o_prev (fst st) a)) (fst st1), snd st1)"
proof (cases B)
  case Nil
  then have "T = []" "R = []" by (simp_all add: T_def R_def passed_def beyond_def)
  moreover have "A = []" "o_next (fst st) a c = None" "o_prev (fst st) a c = None" using ne [OF Nil] by simp_all
  moreover have "(o_next (fst st) a)(c := None) = o_next (fst st) a" "(o_prev (fst st) a)(c := None) = o_prev (fst st) a"
    using calculation by (auto simp: fun_eq_iff)
  ultimately show ?thesis
    using l Nil by (simp add: insert_list_def in_next_def in_prev_def)
next
  case (Cons h B')
  have hB: "list = Some h" using l Cons by simp
  have sg: "seg (o_next (fst st) a) (o_prev (fst st) a) (last_or None A) B None"
    using lk by (simp add: alinked_def linked_def seg_append)
  have ph: "o_prev (fst st) a h = last_or None A" using sg Cons by simp
  obtain st1 where st1: "fold_opt f T st = Some st1" "shape (fst st1) = shape (fst st)"
    "walk_next a c f (last_or None A) (Some h) st = Some (last_or (last_or None A) T, hd_or None R, st1)"
    using walk_next_run [OF sg k refl, of "last_or None A"] Cons unfolding T_def R_def by auto
  define P where "P = last_or None (A @ T)"
  define N where "N = hd_or None R"
  have w: "walk_next a c f (o_prev (fst st) a h) (Some h) st = Some (P, N, st1)"
    using st1(3) ph by (simp add: P_def N_def)
  have lz: "P = None \<longleftrightarrow> A @ T = []" unfolding P_def by (rule last_or_None)
  obtain s1 o1 where so: "st1 = (s1, o1)" by (cases st1)
  have sf: "o_first s1 = o_first (fst st)" "o_next s1 = o_next (fst st)" "o_prev s1 = o_prev (fst st)"
    using shape_fields [OF st1(2)] so by simp_all
  have "insert_list a list c f st =
      Some (if A @ T = [] then Some c else list,
            relink a (o_first (fst st) a) (in_next P c N (o_next (fst st) a))
              (in_prev P c N (o_prev (fst st) a)) s1, o1)"
    unfolding lz [symmetric] using w hB
    by (cases P; cases N)
       (simp_all add: so insert_list_def Let_def set_relink in_next_def in_prev_def
          sf [symmetric] fun_upd_same del: fun_upd_apply)
  then show ?thesis using st1(1,2) so unfolding P_def N_def by simp
qed

lemma insert_head_spec:
  assumes lk: "alinked (fst st) a X" and c: "c \<notin> set X"
    and ne: "X = [] \<Longrightarrow> o_next (fst st) a c = None \<and> o_prev (fst st) a c = None"
    and k: "keeps (fst st) (set (passed (fst st) a c X)) f"
  defines "T \<equiv> passed (fst st) a c X" and "R \<equiv> beyond (fst st) a c X"
  shows "\<exists>st1 s'. fold_opt f T st = Some st1 \<and> shape (fst st1) = shape (fst st) \<and>
    insert_head a c f st = Some (s', snd st1) \<and> relinked a (insert c (set X)) (T @ c # R) (fst st1) s'"
proof -
  have X: "X = T @ R" by (simp add: T_def R_def passed_beyond)
  have f0: "o_first (fst st) a = hd_or None X" using lk by (simp add: alinked_def linked_def)
  let ?nx = "in_next (last_or None T) c (hd_or None R) (o_next (fst st) a)"
  let ?pv = "in_prev (last_or None T) c (hd_or None R) (o_prev (fst st) a)"
  let ?f = "if T = [] then Some c else o_first (fst st) a"
  obtain st1 where st1: "fold_opt f T st = Some st1" "shape (fst st1) = shape (fst st)"
    "insert_list a (o_first (fst st) a) c f st = Some (?f, relink a (o_first (fst st) a) ?nx ?pv (fst st1), snd st1)"
    using insert_list_spec [of st a "[]" X c _ f, OF _ _ f0] lk c ne k unfolding T_def R_def by auto
  have lk': "linked ?nx ?pv ?f (T @ c # R)"
    using linked_insert [of _ _ _ T R c] lk c X unfolding alinked_def by auto
  have "relinked a (insert c (set X)) (T @ c # R) (fst st1) (relink a ?f ?nx ?pv (fst st1))"
  proof (rule relinkedI [OF lk' _ refl])
    fix n assume n: "n \<notin> insert c (set X)"
    have "z \<noteq> n" if "last_or None T = Some z \<or> hd_or None R = Some z" for z
      using that n X by (auto simp: last_or_Some hd_or_Some)
    then show "?nx n = o_next (fst st1) a n \<and> ?pv n = o_prev (fst st1) a n"
      using n by (auto simp: in_next_def in_prev_def shape_fields [OF st1(2)] split: option.splits)
  qed
  moreover have "insert_head a c f st = Some (relink a ?f ?nx ?pv (fst st1), snd st1)"
    using st1(3) by (simp add: insert_head_def set_first_def relink_def)
  ultimately show ?thesis using st1 by blast
qed

text \<open>Insertion from a node \<open>h\<close> of the list that the walk goes past.\<close>

lemma insert_from_spec:
  assumes lk: "alinked (fst st) a (A @ h # B)" and c: "c \<notin> set (A @ h # B)"
    and less: "okey (fst st) a h < okey (fst st) a c"
    and k: "keeps (fst st) (set (h # passed (fst st) a c B)) f"
  defines "T \<equiv> passed (fst st) a c B" and "R \<equiv> beyond (fst st) a c B"
  shows "\<exists>st1 l s'. fold_opt f (h # T) st = Some st1 \<and> shape (fst st1) = shape (fst st) \<and>
    insert_list a (Some h) c f st = Some (l, s', snd st1) \<and>
    relinked a (insert c (set (A @ h # B))) (A @ h # T @ c # R) (fst st1) s'"
proof -
  have B: "B = T @ R" by (simp add: T_def R_def passed_beyond)
  have T: "passed (fst st) a c (h # B) = h # T" "beyond (fst st) a c (h # B) = R"
    using less by (simp_all add: T_def R_def passed_def beyond_def)
  let ?nx = "in_next (last_or None (A @ h # T)) c (hd_or None R) (o_next (fst st) a)"
  let ?pv = "in_prev (last_or None (A @ h # T)) c (hd_or None R) (o_prev (fst st) a)"
  let ?f = "o_first (fst st) a"
  obtain st1 l where st1: "fold_opt f (h # T) st = Some st1" "shape (fst st1) = shape (fst st)"
    "insert_list a (Some h) c f st = Some (l, relink a ?f ?nx ?pv (fst st1), snd st1)"
    using insert_list_spec [of st a A "h # B" c "Some h" f] lk c k unfolding T T_def by auto
  have lk': "linked ?nx ?pv ?f (A @ h # T @ c # R)"
    using linked_insert [of _ _ _ "A @ h # T" R c] lk c B unfolding alinked_def by auto
  have "relinked a (insert c (set (A @ h # B))) (A @ h # T @ c # R) (fst st1) (relink a ?f ?nx ?pv (fst st1))"
  proof (rule relinkedI [OF lk' _ refl])
    fix n assume n: "n \<notin> insert c (set (A @ h # B))"
    have "z \<noteq> n" if "last_or None (A @ h # T) = Some z" for z
    proof -
      have "z \<in> set (A @ h # T)" by (rule last_or_in [OF that])
      with n B show ?thesis by auto
    qed
    moreover have "z \<noteq> n" if "hd_or None R = Some z" for z
      using that n B by (auto simp: hd_or_Some)
    ultimately show "?nx n = o_next (fst st1) a n \<and> ?pv n = o_prev (fst st1) a n"
      using n unfolding in_next_def in_prev_def shape_fields [OF st1(2)] by (auto split: option.splits)
  qed
  then show ?thesis using st1 by blast
qed

lemma remove_list_spec:
  assumes lk: "alinked s a (A @ c # B)"
  shows "relinked a (set (A @ B)) (A @ B) s (remove_list a c s)"
proof -
  have at: "o_prev s a c = last_or None A" "o_next s a c = hd_or None B"
    using linked_at lk unfolding alinked_def by blast+
  have "remove_list a c s =
      relink a (if A = [] then hd_or None B else o_first s a)
        (out_next (last_or None A) (hd_or None B) (o_next s a)) (out_prev (last_or None A) (hd_or None B) (o_prev s a)) s"
    using last_or_None [of A] unfolding remove_list_def at
    by (auto simp: Let_def relink_def out_next_def out_prev_def set_next_def set_prev_def set_first_def split: option.splits)
  moreover have "out_next (last_or None A) (hd_or None B) (o_next s a) n = o_next s a n \<and>
      out_prev (last_or None A) (hd_or None B) (o_prev s a) n = o_prev s a n" if "n \<notin> set (A @ B)" for n
    using that by (auto simp: out_next_def out_prev_def last_or_Some hd_or_Some split: option.splits)
  ultimately show ?thesis
    using linked_remove [of _ _ _ A c B] lk unfolding alinked_def by (intro relinkedI) auto
qed

lemma shape_alinked:
  assumes "shape s = shape t"
  shows "alinked s = alinked t"
  by (simp add: alinked_def shape_fields [OF assms] fun_eq_iff)

definition splice_in :: "axis \<Rightarrow> node option \<Rightarrow> node \<Rightarrow> node option \<Rightarrow> orth \<Rightarrow> orth" where
  "splice_in a p c q s =
     relink a (if p = None then Some c else o_first s a) (in_next p c q (o_next s a)) (in_prev p c q (o_prev s a)) s"

lemma splice_in_spec:
  assumes lk: "alinked s a (A @ B)" and c: "c \<notin> set (A @ B)"
  shows "relinked a (insert c (set (A @ B))) (A @ c # B) s (splice_in a (last_or None A) c (hd_or None B) s)"
proof (rule relinkedI [OF _ _ splice_in_def])
  show "linked (in_next (last_or None A) c (hd_or None B) (o_next s a))
     (in_prev (last_or None A) c (hd_or None B) (o_prev s a))
     (if last_or None A = None then Some c else o_first s a) (A @ c # B)"
    using linked_insert [OF lk [unfolded alinked_def] c] by (simp add: last_or_None)
next
  fix n assume n: "n \<notin> insert c (set (A @ B))"
  have "z \<noteq> n" if "last_or None A = Some z \<or> hd_or None B = Some z" for z
    using that n by (auto dest: last_or_in hd_or_in)
  then show "in_next (last_or None A) c (hd_or None B) (o_next s a) n = o_next s a n \<and>
      in_prev (last_or None A) c (hd_or None B) (o_prev s a) n = o_prev s a n"
    using n by (auto simp: in_next_def in_prev_def split: option.splits)
qed

lemma move_spec:
  assumes lk: "alinked s a (A @ c # B)" and AB: "A @ B = A' @ B'"
  shows "relinked a (set (A @ c # B)) (A' @ c # B') s
    (splice_in a (last_or None A') c (hd_or None B') (remove_list a c s))"
proof -
  have c: "c \<notin> set (A' @ B')"
    using lk AB [symmetric] by (auto simp: alinked_def dest: linked_distinct)
  have r: "relinked a (set (A @ B)) (A' @ B') s (remove_list a c s)"
    using remove_list_spec [OF lk] AB by simp
  have "relinked a (set (A @ B) \<union> insert c (set (A' @ B'))) (A' @ c # B') s
      (splice_in a (last_or None A') c (hd_or None B') (remove_list a c s))"
    by (rule relinked_trans [OF r splice_in_spec [OF relinked_alinked [OF r] c]])
  moreover have "set (A' @ B') = set (A @ B)" using AB by simp
  ultimately show ?thesis by (auto elim!: relinked_mono)
qed

lemma shift_list_next_spec:
  assumes lk: "alinked (fst st) a (A @ c # B)" and k: "keeps (fst st) (set (passed (fst st) a c B)) (on_shift c CT_VISUAL_NEXT)"
  defines "T \<equiv> passed (fst st) a c B" and "R \<equiv> beyond (fst st) a c B"
  shows "\<exists>st1 s'. fold_opt (on_shift c CT_VISUAL_NEXT) T st = Some st1 \<and> shape (fst st1) = shape (fst st) \<and>
    shift_list_next a c st = Some (s', snd st1) \<and>
    relinked a (set (A @ c # B)) (A @ T @ c # R) (fst st1) s'"
proof -
  let ?f = "on_shift c CT_VISUAL_NEXT"
  have B: "B = T @ R" by (simp add: T_def R_def passed_beyond)
  have sg: "seg (o_next (fst st) a) (o_prev (fst st) a) (Some c) B None"
    and nc: "o_next (fst st) a c = hd_or None B" and d: "distinct (A @ c # B)"
    using lk by (simp_all add: alinked_def linked_def seg_append)
  obtain st1 where st1: "fold_opt ?f T st = Some st1" "shape (fst st1) = shape (fst st)"
    "walk_next a c ?f None (o_next (fst st) a c) st = Some (last_or None T, hd_or None R, st1)"
    using walk_next_run [OF sg k refl, of None] unfolding T_def R_def nc by blast
  obtain s1 o1 where so: "st1 = (s1, o1)" by (cases st1)
  have lk1: "alinked s1 a (A @ c # B)" using lk shape_alinked [OF st1(2)] so by simp
  show ?thesis
  proof (cases "T = []")
    case True
    then have "shift_list_next a c st = Some (s1, o1)" using st1(3) so by (simp add: shift_list_next_def)
    moreover have "relinked a (set (A @ c # B)) (A @ T @ c # R) s1 s1"
      by (rule relinked_mono [OF relinked_refl]) (use lk1 True B in auto)
    ultimately show ?thesis using st1 so by auto
  next
    case False
    then obtain T' p where T': "T = T' @ [p]" by (cases T rule: rev_cases) auto
    have ne: "p \<noteq> c" "hd_or None R \<noteq> Some c"
      using d B T' by (auto dest: hd_or_in)
    have "shift_list_next a c st = Some (splice_in a (Some p) c (hd_or None R) (remove_list a c s1), o1)"
      using st1(3) so T' ne
      by (cases "hd_or None R")
         (simp_all add: shift_list_next_def Let_def splice_in_def set_relink in_next_def in_prev_def
            fun_upd_same del: fun_upd_apply)
    moreover have "relinked a (set (A @ c # B)) (A @ T @ c # R) s1
        (splice_in a (Some p) c (hd_or None R) (remove_list a c s1))"
      using move_spec [OF lk1, of "A @ T" R] B T' by simp
    ultimately show ?thesis using st1 so by auto
  qed
qed

lemma shift_list_prev_spec:
  assumes lk: "alinked (fst st) a (A @ c # B)" and k: "keeps (fst st) (set (passed_back (fst st) a c A)) (on_shift c CT_VISUAL_PREV)"
  defines "T \<equiv> passed_back (fst st) a c A" and "R \<equiv> before (fst st) a c A"
  shows "\<exists>st1 s'. fold_opt (on_shift c CT_VISUAL_PREV) T st = Some st1 \<and> shape (fst st1) = shape (fst st) \<and>
    shift_list_prev a c st = Some (s', snd st1) \<and>
    relinked a (set (A @ c # B)) (R @ c # rev T @ B) (fst st1) s'"
proof -
  let ?f = "on_shift c CT_VISUAL_PREV"
  have A: "A = R @ rev T" by (simp add: T_def R_def before_passed)
  have sg: "seg (o_next (fst st) a) (o_prev (fst st) a) None A (Some c)"
    and pc: "o_prev (fst st) a c = last_or None A" and d: "distinct (A @ c # B)"
    using lk by (simp_all add: alinked_def linked_def seg_append)
  obtain st1 where st1: "fold_opt ?f T st = Some st1" "shape (fst st1) = shape (fst st)"
    "walk_prev a c ?f (o_prev (fst st) a c) None st = Some (last_or None R, hd_or None (rev T), st1)"
    using walk_prev_run [OF sg k refl, of None] unfolding T_def R_def pc by blast
  obtain s1 o1 where so: "st1 = (s1, o1)" by (cases st1)
  have lk1: "alinked s1 a (A @ c # B)" using lk shape_alinked [OF st1(2)] so by simp
  show ?thesis
  proof (cases "T = []")
    case True
    then have "shift_list_prev a c st = Some (s1, o1)" using st1(3) so by (simp add: shift_list_prev_def)
    moreover have "relinked a (set (A @ c # B)) (R @ c # rev T @ B) s1 s1"
      by (rule relinked_mono [OF relinked_refl]) (use lk1 True A in auto)
    ultimately show ?thesis using st1 so by auto
  next
    case False
    then obtain T' n where T': "rev T = n # T'" by (cases "rev T") auto
    have ne: "last_or None R \<noteq> Some c" "n \<noteq> c"
      using d A T' by (auto dest: last_or_in)
    have "shift_list_prev a c st = Some (splice_in a (last_or None R) c (Some n) (remove_list a c s1), o1)"
      using st1(3) so T' ne
      by (cases "last_or None R")
         (simp_all add: shift_list_prev_def Let_def splice_in_def set_relink in_next_def in_prev_def
            fun_upd_same del: fun_upd_apply)
    moreover have "relinked a (set (A @ c # B)) (R @ c # rev T @ B) s1
        (splice_in a (last_or None R) c (Some n) (remove_list a c s1))"
      using move_spec [OF lk1, of R "rev T @ B"] A T' by simp
    ultimately show ?thesis using st1 so by auto
  qed
qed

text \<open>The two borders of an entity whose view was empty.\<close>

lemma insert_visual_list_spec:
  assumes lk: "alinked (fst st) a (A @ Ent e # B)" and nw: "NextV e \<notin> set (A @ B)" "PrevV e \<notin> set (A @ B)"
    and un: "o_next (fst st) a (NextV e) = None" "o_prev (fst st) a (NextV e) = None"
      "o_next (fst st) a (PrevV e) = None" "o_prev (fst st) a (PrevV e) = None"
    and k: "keeps (fst st) (set (passed (fst st) a (NextV e) B @ passed_back (fst st) a (PrevV e) A)) f"
  defines "T \<equiv> passed (fst st) a (NextV e) B" and "R \<equiv> beyond (fst st) a (NextV e) B"
    and "U \<equiv> passed_back (fst st) a (PrevV e) A" and "Q \<equiv> before (fst st) a (PrevV e) A"
  shows "\<exists>st1 s1 st2 s'. fold_opt f T st = Some st1 \<and> shape (fst st1) = shape (fst st) \<and>
    relinked a (insert (NextV e) (set (A @ Ent e # B))) (A @ Ent e # T @ NextV e # R) (fst st1) s1 \<and>
    fold_opt f U (s1, snd st1) = Some st2 \<and> shape (fst st2) = shape s1 \<and>
    insert_visual_list a e f st = Some (s', snd st2) \<and>
    relinked a (insert (PrevV e) (insert (NextV e) (set (A @ Ent e # B))))
      (Q @ PrevV e # rev U @ Ent e # T @ NextV e # R) (fst st2) s'"
proof -
  have B: "B = T @ R" by (simp add: T_def R_def passed_beyond)
  have A: "A = Q @ rev U" by (simp add: U_def Q_def before_passed)
  have sg: "seg (o_next (fst st) a) (o_prev (fst st) a) (Some (Ent e)) B None"
    and nc: "o_next (fst st) a (Ent e) = hd_or None B" and d: "distinct (A @ Ent e # B)"
    using lk by (simp_all add: alinked_def linked_def seg_append)
  obtain st1 where st1: "fold_opt f T st = Some st1" "shape (fst st1) = shape (fst st)"
    "walk_next a (NextV e) f (Some (Ent e)) (o_next (fst st) a (Ent e)) st =
       Some (last_or (Some (Ent e)) T, hd_or None R, st1)"
    using walk_next_run [OF sg keeps_mono [OF k] refl, of "NextV e" "Some (Ent e)"] unfolding T_def R_def nc by auto
  define p where "p = last_or (Some (Ent e)) T"
  have p: "p = last_or None (A @ Ent e # T)" by (simp add: p_def)
  have "p \<noteq> None" unfolding p last_or_None by simp
  then obtain p' where p': "p = Some p'" by blast
  define s1 where "s1 = splice_in a p (NextV e) (hd_or None R) (fst st1)"
  have lk1: "alinked (fst st1) a ((A @ Ent e # T) @ R)"
    using lk B by (simp add: shape_alinked [OF st1(2)])
  have r1: "relinked a (insert (NextV e) (set (A @ Ent e # B))) (A @ Ent e # T @ NextV e # R) (fst st1) s1"
    using splice_in_spec [OF lk1, of "NextV e"] nw B unfolding s1_def p by auto
  note f1 = relinked_fields [OF r1] relinked_links [OF r1, of "PrevV e" a]
  have a1: "alinked s1 a (A @ Ent e # T @ NextV e # R)" by (rule relinked_alinked [OF r1])
  have un1: "o_next s1 a (PrevV e) = None" "o_prev s1 a (PrevV e) = None"
    using f1(9,10) nw(2) un(3,4) by (simp_all add: shape_fields [OF st1(2)])
  have sg1: "seg (o_next s1 a) (o_prev s1 a) None A (Some (Ent e))" and pc: "o_prev s1 a (Ent e) = last_or None A"
    using a1 by (simp_all add: alinked_def linked_def seg_append)
  have ok: "okey s1 = okey (fst st)" using f1(8) shape_okey [OF st1(2)] by simp
  have k1: "keeps s1 (set U) f"
    by (rule keeps_mono [OF keeps_core [OF k]])
       (use relinked_core [OF r1] shape_core [OF st1(2)] in \<open>auto simp: U_def\<close>)
  have U: "passed_back s1 a (PrevV e) A = U" "before s1 a (PrevV e) A = Q"
    by (simp_all add: U_def Q_def passed_back_def before_def ok)
  obtain st2 where st2: "fold_opt f U (s1, snd st1) = Some st2" "shape (fst st2) = shape s1"
    "walk_prev a (PrevV e) f (o_prev s1 a (Ent e)) (Some (Ent e)) (s1, snd st1) =
       Some (last_or None Q, hd_or (Some (Ent e)) (rev U), st2)"
    using walk_prev_run [OF sg1, of "PrevV e" f "(s1, snd st1)" "Some (Ent e)"] k1 unfolding pc U by auto
  define q where "q = hd_or (Some (Ent e)) (rev U)"
  have q: "q = hd_or None (rev U @ Ent e # T @ NextV e # R)" by (simp add: q_def)
  have "q \<noteq> None" unfolding q hd_or_None by simp
  then obtain q' where q': "q = Some q'" by blast
  define s2 where "s2 = splice_in a (last_or None Q) (PrevV e) q (fst st2)"
  have lk2: "alinked (fst st2) a (Q @ rev U @ Ent e # T @ NextV e # R)"
    using a1 A by (simp add: shape_alinked [OF st2(2)])
  have r2: "relinked a (insert (PrevV e) (insert (NextV e) (set (A @ Ent e # B))))
      (Q @ PrevV e # rev U @ Ent e # T @ NextV e # R) (fst st2) s2"
    unfolding s2_def q by (rule relinked_mono [OF splice_in_spec [OF lk2]]) (use nw A B in auto)
  have run: "insert_visual_list a e f st = Some (s2, snd st2)"
  proof -
    have w1: "walk_next a (NextV e) f (Some (Ent e)) (o_next (fst st) a (Ent e)) st =
        Some (Some p', hd_or None R, fst st1, snd st1)"
      using st1(3) p' unfolding p_def by simp
    have w2: "walk_prev a (PrevV e) f (o_prev s1 a (Ent e)) (Some (Ent e)) (s1, snd st1) =
        Some (last_or None Q, Some q', fst st2, snd st2)"
      using st2(3) q' unfolding q_def by simp
    have s1': "s1 = (case hd_or None R of None \<Rightarrow> \<lambda>s. s | Some n \<Rightarrow> set_prev a n (Some (NextV e)))
        (set_next a (NextV e) (hd_or None R) (set_prev a (NextV e) (Some p') (set_next a p' (Some (NextV e)) (fst st1))))"
      unfolding s1_def p' splice_in_def
      by (cases "hd_or None R") (simp_all add: set_relink in_next_def in_prev_def fun_upd_same del: fun_upd_apply)
    have s2': "s2 = set_prev a q' (Some (PrevV e)) (set_next a (PrevV e) (Some q') (set_prev a (PrevV e) (last_or None Q)
        (case last_or None Q of Some p \<Rightarrow> set_next a p (Some (PrevV e)) (fst st2) | None \<Rightarrow> set_first a (Some (PrevV e)) (fst st2))))"
      unfolding s2_def q' splice_in_def
      by (cases "last_or None Q") (simp_all add: set_relink in_next_def in_prev_def fun_upd_same del: fun_upd_apply)
    obtain t1 o1 t2 o2 where so: "st1 = (t1, o1)" "st2 = (t2, o2)" by (cases st1; cases st2)
    show ?thesis
      unfolding insert_visual_list_def using un w1 w2 un1 s1' s2'
      by (cases "hd_or None R"; cases "last_or None Q") (simp_all add: so Let_def del: fun_upd_apply)
  qed
  show ?thesis using st1(1,2) r1 st2(1,2) run r2 by blast
qed

end
