(* ===== verification/OrthAxes.thy ===== *)
theory OrthAxes
  imports OrthLinks
begin

declare split_paired_All [simp del] split_paired_Ex [simp del]

text \<open>
  What the operations of \<open>OrthList\<close> do to one axis: a callback on live entities returns and
  leaves the links alone, and inserting, removing and shifting the nodes of an entity turn a
  sorted list into a sorted list of the expected nodes. \<open>tracks\<close> carries a property of the
  nodes a callback was called on through an operation.
\<close>

section \<open>Callbacks\<close>

lemma core_heap:
  assumes "core s = core t"
  shows "map_option (\<lambda>c. (e_mask c, e_visual c, e_old_visual c)) (o_heap s e) =
         map_option (\<lambda>c. (e_mask c, e_visual c, e_old_visual c)) (o_heap t e)"
proof -
  have "o_heap (core s) e = o_heap (core t) e" using assms by simp
  then show ?thesis
    by (cases "o_heap s e"; cases "o_heap t e") (auto simp: core_def shape_def dest: ent_eqD)
qed

lemma core_dom:
  assumes "core s = core t"
  shows "o_heap s e = None \<longleftrightarrow> o_heap t e = None"
  using core_heap [OF assms, of e] by (cases "o_heap s e"; cases "o_heap t e") simp_all

lemma core_ent:
  assumes "core s = core t" "o_heap t e = Some c"
  obtains d where "o_heap s e = Some d" "e_mask d = e_mask c" "e_visual d = e_visual c"
    "e_old_visual d = e_old_visual c"
  using core_heap [OF assms(1), of e] assms(2) by (cases "o_heap s e") auto

lemma core_fields:
  assumes "core s = core t"
  shows "o_use_y s = o_use_y t" "o_mark s = o_mark t" "o_pos s = o_pos t" "o_old s = o_old t" "o_set s = o_set t"
    "okey s = okey t"
  using arg_cong [OF assms, of o_use_y] arg_cong [OF assms, of o_mark]
    arg_cong [OF assms, of o_pos] arg_cong [OF assms, of o_old] arg_cong [OF assms, of o_set]
  by (simp_all add: core_def shape_def okey_def fun_eq_iff)

lemma has_visual_cong: "e_mask c = e_mask d \<Longrightarrow> e_visual c = e_visual d \<Longrightarrow> has_visual c = has_visual d"
  by (simp add: has_visual_def wants_def)

text \<open>A handler that runs on two live entities changes an interest vector or a mark only.\<close>

definition tame :: "orth \<Rightarrow> ('a \<times> orth) option \<Rightarrow> bool" where
  "tame s r \<longleftrightarrow> (\<exists>x t. r = Some (x, t) \<and> shape t = shape s)"

lemma shape_set_mark:
  "o_heap s e \<noteq> None \<Longrightarrow> \<exists>t. set_mark e m s = Some t \<and> shape t = shape s"
  by (auto simp: set_mark_def intro!: shape_set_ent)

lemma tame_enter: "o_heap s c \<noteq> None \<Longrightarrow> o_heap s d \<noteq> None \<Longrightarrow> tame s (on_enter_range c d l me s)"
  by (auto simp: tame_def on_enter_range_def intro!: shape_set_ent)

lemma tame_leave: "o_heap s c \<noteq> None \<Longrightarrow> o_heap s d \<noteq> None \<Longrightarrow> tame s (leave_view c d l me s)"
  by (auto simp: tame_def leave_view_def intro!: shape_set_ent)

lemma tame_exits:
  assumes "o_heap s c \<noteq> None" "o_heap s d \<noteq> None"
  shows "tame s (on_exit_range c d l me s)" "tame s (on_exit_old_range c d l me v s)"
    "tame s (on_exit_old_pos_range c d l me s)"
  using tame_leave [OF assms, of l me] assms
  by (auto simp: tame_def on_exit_range_def on_exit_old_range_def on_exit_old_pos_range_def Let_def)

definition steps_to :: "orth \<Rightarrow> (orth \<times> 'a) option \<Rightarrow> bool" where
  "steps_to s r \<longleftrightarrow> (\<exists>st. r = Some st \<and> shape (fst st) = shape s)"

lemma steps_to_tame:
  "tame s r \<Longrightarrow> (\<And>x t. \<exists>y. g (x, t) = Some (t, y)) \<Longrightarrow> steps_to s (Option.bind r g)"
  unfolding tame_def steps_to_def by force

lemma steps_to_marked:
  assumes "o_heap s e \<noteq> None" "\<And>t. shape t = shape s \<Longrightarrow> steps_to t (g t)"
  shows "steps_to s (Option.bind (set_mark e m s) g)"
  using shape_set_mark [OF assms(1), of m] assms(2) by (fastforce simp: steps_to_def)

lemma on_shift_steps:
  assumes "o_heap (fst st) (owner c) \<noteq> None" "o_heap (fst st) (owner n) \<noteq> None" "owner n \<noteq> owner c"
  shows "steps_to (fst st) (on_shift c t n st)"
proof -
  have live: "o_heap s' (owner c) \<noteq> None" "o_heap s' (owner n) \<noteq> None" if "shape s' = shape (fst st)" for s'
    using shape_dom [OF that] assms by simp_all
  have skip: "steps_to (fst st) (Some st)" by (simp add: steps_to_def)
  have run: "steps_to (fst st) (Option.bind (set_mark (owner n) m (fst st)) g)"
    if "\<And>s'. o_heap s' (owner c) \<noteq> None \<Longrightarrow> o_heap s' (owner n) \<noteq> None \<Longrightarrow> steps_to s' (g s')" for m and g :: "orth \<Rightarrow> st option"
    by (rule steps_to_marked [OF assms(2)]) (use that live in blast)
  obtain d where d: "o_heap (fst st) (owner n) = Some d" using assms(2) by blast
  have vis: "steps_to (fst st) (on_shift_visual c t n st)" if "ctype n = CT_ENTITY"
  proof -
    have "Ent (owner c) \<noteq> n" using assms(3) by auto
    moreover have "steps_to (fst st) (Option.bind (set_mark (owner n) (o_now (fst st)) (fst st)) (\<lambda>s.
        if t = ctype c
        then do { (l, s) \<leftarrow> on_enter_range (owner c) (owner n) (me_in (snd st)) True s;
                  Some (s, (snd st)\<lparr>me_in := l\<rparr>) }
        else do { (l, s) \<leftarrow> on_exit_old_range (owner c) (owner n) (me_out (snd st)) True (-1) s;
                  Some (s, (snd st)\<lparr>me_out := l\<rparr>) }))"
      by (rule run) (auto intro!: steps_to_tame [OF tame_enter] steps_to_tame [OF tame_exits(2)])
    ultimately show ?thesis
      unfolding on_shift_visual_def using d that skip by (cases "had_mark (fst st) d") simp_all
  qed
  have "steps_to (fst st) (Option.bind (set_mark (owner n) (o_now (fst st)) (fst st)) (\<lambda>s.
      if t = ctype n
      then do { (l, s) \<leftarrow> on_exit_old_pos_range (owner n) (owner c) (other_out (snd st)) False s;
                Some (s, (snd st)\<lparr>other_out := l\<rparr>) }
      else do { (l, s) \<leftarrow> on_enter_range (owner n) (owner c) (other_in (snd st)) False s;
                Some (s, (snd st)\<lparr>other_in := l\<rparr>) }))"
    by (rule run) (auto intro!: steps_to_tame [OF tame_enter] steps_to_tame [OF tame_exits(3)])
  then have ent: "steps_to (fst st) (on_shift_entity (owner c) t n st)"
    unfolding on_shift_entity_def using d assms(3) skip by (cases "had_mark (fst st) d") simp_all
  show ?thesis
    using vis ent skip by (auto simp: on_shift_def on_shift_visual_def)
qed

lemma keeps_steps:
  assumes "\<And>n st. n \<in> N \<Longrightarrow> core (fst st) = core s \<Longrightarrow> steps_to (fst st) (f n st)"
  shows "keeps s N f"
  using assms by (auto simp: keeps_def steps_to_def)

lemma keeps_on_shift:
  assumes "o_heap s (owner c) \<noteq> None" "\<And>n. n \<in> N \<Longrightarrow> o_heap s (owner n) \<noteq> None \<and> owner n \<noteq> owner c"
  shows "keeps s N (on_shift c t)"
proof (rule keeps_steps)
  fix n and st :: st assume n: "n \<in> N" and c: "core (fst st) = core s"
  show "steps_to (fst st) (on_shift c t n st)"
    by (rule on_shift_steps) (use assms(1) assms(2) [OF n] core_dom [OF c] in auto)
qed

lemma keeps_enter_func:
  assumes "o_heap s e \<noteq> None" "\<And>n. n \<in> N \<Longrightarrow> o_heap s (owner n) \<noteq> None"
  shows "keeps s N (enter_func e)"
proof (rule keeps_steps)
  fix n and st :: st assume n: "n \<in> N" and c: "core (fst st) = core s"
  have live: "o_heap (fst st) e \<noteq> None" "o_heap (fst st) (owner n) \<noteq> None"
    using assms(1) assms(2) [OF n] core_dom [OF c, of e] core_dom [OF c, of "owner n"] by simp_all
  obtain d where d: "o_heap (fst st) (owner n) = Some d" using live(2) by blast
  have skip: "steps_to (fst st) (Some st)" by (simp add: steps_to_def)
  have live': "o_heap s' e \<noteq> None" "o_heap s' (owner n) \<noteq> None" if "shape s' = shape (fst st)" for s'
    using shape_dom [OF that] live by simp_all
  have run: "steps_to (fst st) (Option.bind (set_mark (owner n) m (fst st)) g)"
    if "\<And>s'. o_heap s' e \<noteq> None \<Longrightarrow> o_heap s' (owner n) \<noteq> None \<Longrightarrow> steps_to s' (g s')" for m and g :: "orth \<Rightarrow> st option"
    by (rule steps_to_marked [OF live(2)]) (use that live' in blast)
  have "steps_to (fst st) (Option.bind (set_mark (owner n) (o_now (fst st) + 1) (fst st)) (\<lambda>s. do {
          (l, s) \<leftarrow> on_enter_range (owner n) e (other_in (snd st)) False s;
          Some (s, (snd st)\<lparr>other_in := l\<rparr>) }))"
    by (rule run) (auto intro!: steps_to_tame [OF tame_enter])
  moreover have "steps_to (fst st) (do { (l, s) \<leftarrow> on_enter_range e (owner n) (me_in (snd st)) True (fst st);
                     Some (s, (snd st)\<lparr>me_in := l\<rparr>) })"
    by (rule steps_to_tame [OF tame_enter]) (use live in auto)
  ultimately show "steps_to (fst st) (enter_func e n st)"
    unfolding enter_func_def using d skip by (cases "had_mark (fst st) d") simp_all
qed

section \<open>Sorted axes\<close>

definition osorted :: "(node \<Rightarrow> int) \<Rightarrow> node list \<Rightarrow> bool" where
  "osorted k xs \<longleftrightarrow> sorted_wrt (\<lambda>m n. k m \<le> k n) xs"

lemma osorted_append:
  "osorted k (xs @ ys) \<longleftrightarrow> osorted k xs \<and> osorted k ys \<and> (\<forall>x\<in>set xs. \<forall>y\<in>set ys. k x \<le> k y)"
  by (simp add: osorted_def sorted_wrt_append)

lemma osorted_Cons: "osorted k (x # ys) \<longleftrightarrow> (\<forall>y\<in>set ys. k x \<le> k y) \<and> osorted k ys"
  by (simp add: osorted_def)

lemmas osorted_simps = osorted_append osorted_Cons

lemma osorted_cong: "(\<And>x. x \<in> set xs \<Longrightarrow> k x = l x) \<Longrightarrow> osorted k xs = osorted l xs"
  by (induction xs) (auto simp: osorted_def)

lemma beyond_key:
  "osorted (okey s a) ys \<Longrightarrow> n \<in> set (beyond s a c ys) \<Longrightarrow> okey s a c \<le> okey s a n"
  by (induction ys) (auto simp: beyond_def osorted_Cons split: if_splits)

lemma before_key:
  "osorted (okey s a) ys \<Longrightarrow> n \<in> set (before s a c ys) \<Longrightarrow> okey s a n \<le> okey s a c"
  by (induction ys rule: rev_induct) (auto simp: before_def osorted_simps split: if_splits)

lemma osorted_insert:
  assumes "osorted (okey s a) (A @ B)" "\<And>x. x \<in> set A \<Longrightarrow> okey s a x \<le> okey s a c"
  shows "osorted (okey s a) (A @ passed s a c B @ c # beyond s a c B)"
proof -
  have "osorted (okey s a) (A @ passed s a c B @ beyond s a c B)" using assms(1) by (simp add: passed_beyond)
  moreover have "okey s a n \<le> okey s a c" if "n \<in> set (passed s a c B)" for n
    using passed_key [OF that] by simp
  moreover have "okey s a c \<le> okey s a n" if "n \<in> set (beyond s a c B)" for n
    using beyond_key [OF _ that] assms(1) by (simp add: osorted_append)
  ultimately show ?thesis using assms(2) by (auto simp: osorted_simps)
qed

lemma osorted_insert_back:
  assumes "osorted (okey s a) (A @ B)" "\<And>x. x \<in> set B \<Longrightarrow> okey s a c \<le> okey s a x"
  shows "osorted (okey s a) (before s a c A @ c # rev (passed_back s a c A) @ B)"
proof -
  have "osorted (okey s a) ((before s a c A @ rev (passed_back s a c A)) @ B)"
    using assms(1) by (simp only: before_passed)
  moreover have "okey s a c \<le> okey s a n" if "n \<in> set (passed_back s a c A)" for n
    using passed_back_key [OF that] by simp
  moreover have "okey s a n \<le> okey s a c" if "n \<in> set (before s a c A)" for n
    using before_key [OF _ that] assms(1) by (simp add: osorted_append)
  ultimately show ?thesis using assms(2) by (auto simp: osorted_simps)
qed

lemma set_passed_beyond: "set (passed s a c ys) \<union> set (beyond s a c ys) = set ys"
  by (metis passed_beyond set_append)

lemma set_before_passed: "set (before s a c ys) \<union> set (passed_back s a c ys) = set ys"
  by (metis before_passed set_append set_rev)

text \<open>
  One axis: a sorted list of exactly the nodes \<open>N\<close>, and no links at the nodes \<open>M\<close>.
\<close>

definition axis_ok :: "orth \<Rightarrow> axis \<Rightarrow> node set \<Rightarrow> node set \<Rightarrow> bool" where
  "axis_ok s a N M \<longleftrightarrow>
     (\<exists>X. alinked s a X \<and> set X = N \<and> osorted (okey s a) X) \<and>
     (\<forall>n\<in>M. o_next s a n = None \<and> o_prev s a n = None)"

definition on_axis :: "axis \<Rightarrow> orth \<Rightarrow> orth \<Rightarrow> bool" where
  "on_axis b s t \<longleftrightarrow> o_first t b = o_first s b \<and> o_next t b = o_next s b \<and> o_prev t b = o_prev s b"

definition off_axis :: "axis \<Rightarrow> orth \<Rightarrow> orth \<Rightarrow> bool" where
  "off_axis a s t \<longleftrightarrow> (\<forall>b. b \<noteq> a \<longrightarrow> on_axis b s t)"

lemma axis_ok_on_axis:
  "axis_ok s b N M \<Longrightarrow> on_axis b s t \<Longrightarrow> core t = core s \<Longrightarrow> axis_ok t b N M"
  by (simp add: axis_ok_def on_axis_def alinked_def core_fields [of t s])

lemma relinked_off: "relinked a D xs s t \<Longrightarrow> off_axis a s t"
  unfolding relinked_def off_axis_def on_axis_def by auto

lemma shape_on_axis: "shape s = shape t \<Longrightarrow> on_axis b s t"
  unfolding on_axis_def using shape_fields [of s t] by simp

lemma off_axis_trans: "off_axis a s t \<Longrightarrow> off_axis a t u \<Longrightarrow> off_axis a s u"
  by (simp add: off_axis_def on_axis_def)

lemma off_axis_refl [simp]: "off_axis a s s"
  by (simp add: off_axis_def on_axis_def)

text \<open>What a callback achieves, as a property of the nodes it was called on.\<close>

definition tracks :: "axis \<Rightarrow> (node \<Rightarrow> st \<Rightarrow> st option) \<Rightarrow> (node list \<Rightarrow> st \<Rightarrow> bool) \<Rightarrow> bool" where
  "tracks a f J \<longleftrightarrow>
     (\<forall>D n st st'. J D st \<longrightarrow> f n st = Some st' \<longrightarrow> J (D @ [n]) st') \<and>
     (\<forall>D s out g nx pv. J D (s, out) \<longrightarrow> J D (relink a g nx pv s, out))"

lemma tracks_fold: "tracks a f J \<Longrightarrow> J D st \<Longrightarrow> fold_opt f T st = Some st' \<Longrightarrow> J (D @ T) st'"
proof (induction T arbitrary: D st)
  case (Cons n T)
  obtain st1 where st1: "f n st = Some st1" "fold_opt f T st1 = Some st'"
    using Cons.prems(3) by (cases "f n st") auto
  have "J (D @ [n]) st1" using Cons.prems(1,2) st1(1) unfolding tracks_def by blast
  from Cons.IH [OF Cons.prems(1) this st1(2)] show ?case by simp
qed simp

lemma tracks_relinked:
  assumes "tracks a f J" "J D st" "relinked a E xs (fst st) s'"
  shows "J D (s', snd st)"
proof -
  obtain g nx pv where "s' = relink a g nx pv (fst st)" using assms(3) unfolding relinked_def by blast
  then show ?thesis using assms(1,2) by (cases st) (simp add: tracks_def)
qed

lemma tracks_True [simp]: "tracks a f (\<lambda>_ _. True)"
  by (simp add: tracks_def)

text \<open>One list operation on an axis: callbacks, then new links.\<close>

definition stepped :: "axis \<Rightarrow> node set \<Rightarrow> node list \<Rightarrow> orth \<Rightarrow> orth \<Rightarrow> bool" where
  "stepped a E xs s t \<longleftrightarrow> core t = core s \<and> off_axis a s t \<and> alinked t a xs \<and>
     (\<forall>n. n \<notin> E \<longrightarrow> o_next t a n = o_next s a n \<and> o_prev t a n = o_prev s a n)"

lemma steppedI:
  assumes "shape t = shape s" "relinked a E xs t u"
  shows "stepped a E xs s u"
  using relinked_core [OF assms(2)] relinked_alinked [OF assms(2)] shape_core [OF assms(1)]
    off_axis_trans [OF _ relinked_off [OF assms(2)]] shape_on_axis [OF assms(1) [symmetric]]
    relinked_links [OF assms(2)] shape_fields [OF assms(1)]
  by (simp add: stepped_def off_axis_def)

lemma stepped_trans:
  assumes "stepped a D xs s t" "stepped a E ys t u" "D \<subseteq> F" "E \<subseteq> F"
  shows "stepped a F ys s u"
proof -
  have off: "off_axis a s u" using assms(1,2) off_axis_trans unfolding stepped_def by blast
  have "n \<notin> D" "n \<notin> E" if "n \<notin> F" for n using assms(3,4) that by auto
  then show ?thesis using assms(1,2) off unfolding stepped_def by simp
qed

lemma stepped_mono: "stepped a E xs s t \<Longrightarrow> E \<subseteq> F \<Longrightarrow> stepped a F xs s t"
  unfolding stepped_def by blast

lemma stepped_key: "stepped a E xs s t \<Longrightarrow> okey t = okey s"
  unfolding stepped_def by (blast dest: core_fields(6))

lemma stepped_refl: "alinked s a xs \<Longrightarrow> stepped a {} xs s s"
  by (simp add: stepped_def)

lemma stepped_axis_ok:
  assumes "stepped a E xs s t" "osorted (okey s a) xs" "set xs = N" "axis_ok s a N0 M0" "M \<subseteq> M0" "M \<inter> E = {}"
  shows "axis_ok t a N M"
proof -
  have "o_next t a n = None \<and> o_prev t a n = None" if "n \<in> M" for n
  proof -
    have "n \<notin> E" "n \<in> M0" using that assms(5,6) by auto
    then show ?thesis using assms(1,4) unfolding stepped_def axis_ok_def by simp
  qed
  then show ?thesis
    unfolding axis_ok_def stepped_key [OF assms(1)] using assms(1-3) unfolding stepped_def by blast
qed

lemma head_step:
  assumes "alinked (fst st) a X" "c \<notin> set X" "X = [] \<Longrightarrow> o_next (fst st) a c = None \<and> o_prev (fst st) a c = None"
    and "keeps (fst st) (set (passed (fst st) a c X)) f" "tracks a f J" "J D st"
  shows "\<exists>st'. insert_head a c f st = Some st' \<and> J (D @ passed (fst st) a c X) st' \<and>
    stepped a (insert c (set X)) (passed (fst st) a c X @ c # beyond (fst st) a c X) (fst st) (fst st')"
proof -
  obtain st1 s' where *: "fold_opt f (passed (fst st) a c X) st = Some st1" "shape (fst st1) = shape (fst st)"
    "insert_head a c f st = Some (s', snd st1)"
    "relinked a (insert c (set X)) (passed (fst st) a c X @ c # beyond (fst st) a c X) (fst st1) s'"
    using insert_head_spec [OF assms(1-4)] by blast
  have "J (D @ passed (fst st) a c X) (s', snd st1)"
    by (rule tracks_relinked [OF assms(5) tracks_fold [OF assms(5,6) *(1)] *(4)])
  with *(3) steppedI [OF *(2,4)] show ?thesis by auto
qed

lemma from_step:
  assumes "alinked (fst st) a (A @ h # B)" "c \<notin> set (A @ h # B)" "okey (fst st) a h < okey (fst st) a c"
    and "keeps (fst st) (set (h # passed (fst st) a c B)) f" "tracks a f J" "J D st"
  shows "\<exists>l st'. insert_list a (Some h) c f st = Some (l, st') \<and> J (D @ h # passed (fst st) a c B) st' \<and>
    stepped a (insert c (set (A @ h # B))) (A @ h # passed (fst st) a c B @ c # beyond (fst st) a c B) (fst st) (fst st')"
proof -
  obtain st1 l s' where *: "fold_opt f (h # passed (fst st) a c B) st = Some st1" "shape (fst st1) = shape (fst st)"
    "insert_list a (Some h) c f st = Some (l, s', snd st1)"
    "relinked a (insert c (set (A @ h # B))) (A @ h # passed (fst st) a c B @ c # beyond (fst st) a c B) (fst st1) s'"
    using insert_from_spec [OF assms(1-4)] by blast
  have "J (D @ h # passed (fst st) a c B) (s', snd st1)"
    by (rule tracks_relinked [OF assms(5) tracks_fold [OF assms(5,6) *(1)] *(4)])
  with *(3) steppedI [OF *(2,4)] show ?thesis by auto
qed

definition own :: "int \<Rightarrow> node set" where
  "own e = {PrevV e, Ent e, NextV e}"

lemma own_iff: "n \<in> own e \<longleftrightarrow> owner n = e"
  by (cases n; cases "ctype n") (auto simp: own_def)

section \<open>Inserting an entity\<close>

text \<open>\<open>D\<close> is what the callback was called on: everything left of the last node inserted.\<close>

lemma insert_entity_axis:
  assumes ax: "axis_ok (fst st) a N M" and new: "N \<inter> own e = {}" "own e \<subseteq> M"
    and c: "o_heap (fst st) e = Some c" "has_visual c"
    and key: "okey (fst st) a (PrevV e) < okey (fst st) a (Ent e)" "okey (fst st) a (Ent e) < okey (fst st) a (NextV e)"
    and k: "keeps (fst st) (N \<union> own e) f" and tr: "tracks a f J" "J [] st"
  shows "\<exists>st' D S. ol_insert_entity a e f st = Some st' \<and> J D st' \<and>
    osorted (okey (fst st) a) (D @ NextV e # S) \<and> set (D @ S) = N \<union> {PrevV e, Ent e} \<and>
    stepped a (N \<union> own e) (D @ NextV e # S) (fst st) (fst st')"
proof -
  let ?k = "okey (fst st) a"
  obtain X where X: "alinked (fst st) a X" "set X = N" "osorted ?k X"
    using ax unfolding axis_ok_def by blast
  have un: "o_next (fst st) a n = None \<and> o_prev (fst st) a n = None" if "n \<in> own e" for n
    using ax new(2) that unfolding axis_ok_def by blast
  define P where "P = passed (fst st) a (PrevV e) X"
  define R where "R = beyond (fst st) a (PrevV e) X"
  have XPR: "set X = set P \<union> set R" unfolding P_def R_def by (rule set_passed_beyond [symmetric])
  have fresh: "PrevV e \<notin> N" "Ent e \<notin> N" "NextV e \<notin> N" using new(1) by (auto simp: own_def)
  have kp: "keeps (fst st) (set (passed (fst st) a (PrevV e) X)) f"
    by (rule keeps_mono [OF k]) (use XPR X(2) in \<open>auto simp: P_def\<close>)
  have nP: "PrevV e \<notin> set X" using fresh X(2) by simp
  obtain st1 where st1: "insert_head a (PrevV e) f st = Some st1" "J P st1"
    "stepped a (insert (PrevV e) (set X)) (P @ PrevV e # R) (fst st) (fst st1)"
    using head_step [OF X(1) nP _ kp tr] un unfolding P_def R_def by (auto simp: own_def)
  have s1: "osorted ?k (P @ PrevV e # R)"
    using osorted_insert [of "fst st" a "[]" X "PrevV e"] X(3) by (simp add: P_def R_def)
  note k1 = stepped_key [OF st1(3)]
  define Q where "Q = passed (fst st) a (Ent e) R"
  define R' where "R' = beyond (fst st) a (Ent e) R"
  have RQ: "set R = set Q \<union> set R'" unfolding Q_def R'_def by (rule set_passed_beyond [symmetric])
  have c1: "core (fst st) = core (fst st1)" using st1(3) by (simp add: stepped_def)
  have a1: "alinked (fst st1) a (P @ PrevV e # R)" using st1(3) by (simp add: stepped_def)
  have q: "passed (fst st1) a (Ent e) R = Q" "beyond (fst st1) a (Ent e) R = R'"
    by (simp_all add: Q_def R'_def passed_def beyond_def k1)
  have kq: "keeps (fst st1) (set (PrevV e # passed (fst st1) a (Ent e) R)) f"
    by (rule keeps_mono [OF keeps_core [OF k c1 [symmetric]]]) (use XPR RQ X(2) in \<open>auto simp: own_def q\<close>)
  have nE: "Ent e \<notin> set (P @ PrevV e # R)" using fresh XPR X(2) by auto
  obtain st2 l2 where st2: "insert_list a (Some (PrevV e)) (Ent e) f st1 = Some (l2, st2)" "J (P @ PrevV e # Q) st2"
    "stepped a (insert (Ent e) (set (P @ PrevV e # R))) (P @ PrevV e # Q @ Ent e # R') (fst st1) (fst st2)"
    using from_step [OF a1 nE _ kq tr(1) st1(2)] key(1) unfolding q k1 by auto
  have s2: "osorted ?k (P @ PrevV e # Q @ Ent e # R')"
    using osorted_insert [of "fst st" a "P @ [PrevV e]" R "Ent e"] s1 key(1)
    by (fastforce simp: Q_def R'_def osorted_simps)
  note k2 = stepped_key [OF st2(3)]
  define T where "T = passed (fst st) a (NextV e) R'"
  define S where "S = beyond (fst st) a (NextV e) R'"
  have RT: "set R' = set T \<union> set S" unfolding T_def S_def by (rule set_passed_beyond [symmetric])
  have c2: "core (fst st1) = core (fst st2)" using st2(3) by (simp add: stepped_def)
  have a2: "alinked (fst st2) a ((P @ PrevV e # Q) @ Ent e # R')" using st2(3) by (simp add: stepped_def)
  have t: "passed (fst st2) a (NextV e) R' = T" "beyond (fst st2) a (NextV e) R' = S"
    by (simp_all add: T_def S_def passed_def beyond_def k1 k2)
  have kt: "keeps (fst st2) (set (Ent e # passed (fst st2) a (NextV e) R')) f"
    by (rule keeps_mono [OF keeps_core [OF k c1 [symmetric, unfolded c2]]])
       (use XPR RQ RT X(2) in \<open>auto simp: own_def t\<close>)
  have nN: "NextV e \<notin> set ((P @ PrevV e # Q) @ Ent e # R')" using fresh XPR RQ X(2) by auto
  obtain st3 l3 where st3: "insert_list a (Some (Ent e)) (NextV e) f st2 = Some (l3, st3)"
    "J ((P @ PrevV e # Q) @ Ent e # T) st3"
    "stepped a (insert (NextV e) (set ((P @ PrevV e # Q) @ Ent e # R')))
       ((P @ PrevV e # Q) @ Ent e # T @ NextV e # S) (fst st2) (fst st3)"
    using from_step [OF a2 nN _ kt tr(1) st2(2)] key(2) unfolding t k1 k2 by auto
  have s3: "osorted ?k ((P @ PrevV e # Q @ [Ent e]) @ T @ NextV e # S)"
    unfolding T_def S_def
  proof (rule osorted_insert)
    show "osorted ?k ((P @ PrevV e # Q @ [Ent e]) @ R')" using s2 by simp
    show "?k x \<le> ?k (NextV e)" if "x \<in> set (P @ PrevV e # Q @ [Ent e])" for x
      using that s2 key(2) by (fastforce simp: osorted_simps)
  qed
  have run: "ol_insert_entity a e f st = Some st3"
    unfolding ol_insert_entity_def using c st1(1) st2(1) st3(1) by simp
  have E: "insert (PrevV e) (set X) \<subseteq> N \<union> own e" "insert (Ent e) (set (P @ PrevV e # R)) \<subseteq> N \<union> own e"
    "insert (NextV e) (set ((P @ PrevV e # Q) @ Ent e # R')) \<subseteq> N \<union> own e"
    using X(2) XPR RQ by (auto simp: own_def)
  have st: "stepped a (N \<union> own e) ((P @ PrevV e # Q) @ Ent e # T @ NextV e # S) (fst st) (fst st3)"
    by (rule stepped_trans [OF stepped_trans [OF st1(3) st2(3) E(1,2)] st3(3) order_refl E(3)])
  have set: "set (((P @ PrevV e # Q) @ Ent e # T) @ S) = N \<union> {PrevV e, Ent e}"
    using X(2) XPR RQ RT by auto
  show ?thesis
    by (rule exI [of _ st3], rule exI [of _ "(P @ PrevV e # Q) @ Ent e # T"], rule exI [of _ S])
       (use run st3(2) s3 st set in simp)
qed

lemma insert_single_axis:
  assumes ax: "axis_ok (fst st) a N M" and new: "Ent e \<notin> N" "Ent e \<in> M"
    and c: "o_heap (fst st) e = Some c" "\<not> has_visual c"
    and k: "keeps (fst st) N f" and tr: "tracks a f J" "J [] st"
  shows "\<exists>st' D S. ol_insert_entity a e f st = Some st' \<and> J D st' \<and>
    osorted (okey (fst st) a) (D @ Ent e # S) \<and> set (D @ S) = N \<and>
    stepped a (insert (Ent e) N) (D @ Ent e # S) (fst st) (fst st')"
proof -
  obtain X where X: "alinked (fst st) a X" "set X = N" "osorted (okey (fst st) a) X"
    using ax unfolding axis_ok_def by blast
  have un: "o_next (fst st) a (Ent e) = None \<and> o_prev (fst st) a (Ent e) = None"
    using ax new(2) unfolding axis_ok_def by blast
  define P where "P = passed (fst st) a (Ent e) X"
  define R where "R = beyond (fst st) a (Ent e) X"
  have PR: "P @ R = X" unfolding P_def R_def by (rule passed_beyond)
  have kp: "keeps (fst st) (set (passed (fst st) a (Ent e) X)) f"
    by (rule keeps_mono [OF k]) (use set_passed_beyond X(2) in blast)
  have nE: "Ent e \<notin> set X" using new(1) X(2) by simp
  obtain st' where st': "insert_head a (Ent e) f st = Some st'" "J P st'"
    "stepped a (insert (Ent e) (set X)) (P @ Ent e # R) (fst st) (fst st')"
    using head_step [OF X(1) nE un kp tr] unfolding P_def R_def by auto
  have "osorted (okey (fst st) a) (P @ Ent e # R)"
    using osorted_insert [of "fst st" a "[]" X "Ent e"] X(3) by (simp add: P_def R_def)
  moreover have "ol_insert_entity a e f st = Some st'"
    unfolding ol_insert_entity_def using c st'(1) by simp
  ultimately show ?thesis using st' X(2) PR by (metis set_append)
qed

section \<open>Removing nodes\<close>

lemma relink_quiet:
  "core (relink a f nx pv s) = core s" "off_axis a s (relink a f nx pv s)"
  by (simp_all add: core_def shape_def relink_def off_axis_def on_axis_def)

lemma remove_axis:
  assumes ax: "axis_ok s a N M" and c: "c \<in> N" and d: "M \<inter> N = {}"
  shows "axis_ok (remove_list a c s) a (N - {c}) M \<and> (\<exists>f nx pv. remove_list a c s = relink a f nx pv s)"
proof -
  obtain X where X: "alinked s a X" "set X = N" "osorted (okey s a) X"
    using ax unfolding axis_ok_def by blast
  obtain A B where AB: "X = A @ c # B" using c X(2) by (metis split_list)
  have dX: "distinct X" using X(1) unfolding alinked_def by (rule linked_distinct)
  have r: "relinked a (set (A @ B)) (A @ B) s (remove_list a c s)"
    using remove_list_spec X(1) AB by simp
  have "axis_ok (remove_list a c s) a (N - {c}) M"
  proof (rule stepped_axis_ok [OF steppedI [OF refl r] _ _ ax order_refl])
    show "osorted (okey s a) (A @ B)" using X(3) AB by (simp add: osorted_simps)
    show "set (A @ B) = N - {c}" using dX AB X(2) by auto
    show "M \<inter> set (A @ B) = {}" using d AB X(2) by auto
  qed
  then show ?thesis using r unfolding relinked_def by blast
qed

lemma remove_entity_axis:
  assumes ax: "axis_ok s a N M" and d: "M \<inter> N = {}" and c: "o_heap s e = Some c"
    and N: "Ent e \<in> N" "has_visual c \<Longrightarrow> PrevV e \<in> N \<and> NextV e \<in> N"
  shows "\<exists>s'. ol_remove_entity a e s = Some s' \<and>
    axis_ok s' a (N - (if has_visual c then own e else {Ent e})) M \<and> (\<exists>f nx pv. s' = relink a f nx pv s)"
proof (cases "has_visual c")
  case False
  then show ?thesis
    using remove_axis [OF ax N(1) d] c by (auto simp: ol_remove_entity_def Let_def)
next
  case True
  let ?s1 = "remove_list a (NextV e) s"
  let ?s2 = "remove_list a (Ent e) ?s1"
  let ?s3 = "remove_list a (PrevV e) ?s2"
  have 1: "axis_ok ?s1 a (N - {NextV e}) M" "\<exists>f nx pv. ?s1 = relink a f nx pv s"
    using remove_axis [OF ax _ d] N(2) [OF True] by blast+
  have 2: "axis_ok ?s2 a (N - {NextV e} - {Ent e}) M" "\<exists>f nx pv. ?s2 = relink a f nx pv ?s1"
    using remove_axis [OF 1(1), of "Ent e"] N(1) d by blast+
  have 3: "axis_ok ?s3 a (N - {NextV e} - {Ent e} - {PrevV e}) M" "\<exists>f nx pv. ?s3 = relink a f nx pv ?s2"
    using remove_axis [OF 2(1), of "PrevV e"] N(2) [OF True] d by blast+
  have "N - {NextV e} - {Ent e} - {PrevV e} = N - own e" by (auto simp: own_def)
  moreover have "\<exists>f nx pv. ?s3 = relink a f nx pv s" using 1(2) 2(2) 3(2) by force
  moreover have "ol_remove_entity a e s = Some ?s3"
    using c True by (simp add: ol_remove_entity_def Let_def)
  ultimately show ?thesis using True 3(1) by simp
qed

section \<open>Shifting nodes\<close>

lemma shift_next_step:
  assumes "alinked (fst st) a (A @ c # B)" "o_heap (fst st) (owner c) \<noteq> None"
    and "\<And>n. n \<in> set (passed (fst st) a c B) \<Longrightarrow> o_heap (fst st) (owner n) \<noteq> None \<and> owner n \<noteq> owner c"
    and "tracks a (on_shift c CT_VISUAL_NEXT) J" "J D st"
  shows "\<exists>st'. shift_list_next a c st = Some st' \<and> J (D @ passed (fst st) a c B) st' \<and>
    stepped a (set (A @ c # B)) (A @ passed (fst st) a c B @ c # beyond (fst st) a c B) (fst st) (fst st')"
proof -
  obtain st1 s' where *: "fold_opt (on_shift c CT_VISUAL_NEXT) (passed (fst st) a c B) st = Some st1"
    "shape (fst st1) = shape (fst st)" "shift_list_next a c st = Some (s', snd st1)"
    "relinked a (set (A @ c # B)) (A @ passed (fst st) a c B @ c # beyond (fst st) a c B) (fst st1) s'"
    using shift_list_next_spec [OF assms(1) keeps_on_shift [OF assms(2,3)]] by blast
  have "J (D @ passed (fst st) a c B) (s', snd st1)"
    by (rule tracks_relinked [OF assms(4) tracks_fold [OF assms(4,5) *(1)] *(4)])
  with *(3) steppedI [OF *(2,4)] show ?thesis by auto
qed

lemma shift_prev_step:
  assumes "alinked (fst st) a (A @ c # B)" "o_heap (fst st) (owner c) \<noteq> None"
    and "\<And>n. n \<in> set (passed_back (fst st) a c A) \<Longrightarrow> o_heap (fst st) (owner n) \<noteq> None \<and> owner n \<noteq> owner c"
    and "tracks a (on_shift c CT_VISUAL_PREV) J" "J D st"
  shows "\<exists>st'. shift_list_prev a c st = Some st' \<and> J (D @ passed_back (fst st) a c A) st' \<and>
    stepped a (set (A @ c # B)) (before (fst st) a c A @ c # rev (passed_back (fst st) a c A) @ B) (fst st) (fst st')"
proof -
  obtain st1 s' where *: "fold_opt (on_shift c CT_VISUAL_PREV) (passed_back (fst st) a c A) st = Some st1"
    "shape (fst st1) = shape (fst st)" "shift_list_prev a c st = Some (s', snd st1)"
    "relinked a (set (A @ c # B)) (before (fst st) a c A @ c # rev (passed_back (fst st) a c A) @ B) (fst st1) s'"
    using shift_list_prev_spec [OF assms(1) keeps_on_shift [OF assms(2,3)]] by blast
  have "J (D @ passed_back (fst st) a c A) (s', snd st1)"
    by (rule tracks_relinked [OF assms(4) tracks_fold [OF assms(4,5) *(1)] *(4)])
  with *(3) steppedI [OF *(2,4)] show ?thesis by auto
qed

lemma shift_next_plain:
  assumes "alinked (fst st) a (A @ c # B)" "passed (fst st) a c B = T" "beyond (fst st) a c B = R"
    and "o_heap (fst st) (owner c) \<noteq> None"
    and "\<And>n. n \<in> set T \<Longrightarrow> o_heap (fst st) (owner n) \<noteq> None \<and> owner n \<noteq> owner c"
    and "tracks a (on_shift c CT_VISUAL_NEXT) (\<lambda>_. I)" "I st"
  shows "\<exists>st'. shift_list_next a c st = Some st' \<and> I st' \<and>
    stepped a (set (A @ c # B)) (A @ T @ c # R) (fst st) (fst st')"
  using shift_next_step [of st a A c B "\<lambda>_. I" "[]"] assms by auto

lemma shift_prev_plain:
  assumes "alinked (fst st) a (A @ c # B)" "passed_back (fst st) a c A = T" "before (fst st) a c A = R"
    and "o_heap (fst st) (owner c) \<noteq> None"
    and "\<And>n. n \<in> set T \<Longrightarrow> o_heap (fst st) (owner n) \<noteq> None \<and> owner n \<noteq> owner c"
    and "tracks a (on_shift c CT_VISUAL_PREV) (\<lambda>_. I)" "I st"
  shows "\<exists>st'. shift_list_prev a c st = Some st' \<and> I st' \<and>
    stepped a (set (A @ c # B)) (R @ c # rev T @ B) (fst st) (fst st')"
  using shift_prev_step [of st a A c B "\<lambda>_. I" "[]"] assms by auto

text \<open>
  An entity moves to the right: its three nodes are moved in the order right border, entity,
  left border, each past the nodes it has become greater than.
\<close>

lemma shift_right_visual:
  assumes X: "alinked (fst st) a (P @ PrevV e # Q @ Ent e # R @ NextV e # S)"
    and srt: "osorted (okey (fst st) a) (P @ Q @ R @ S)"
    and le: "\<And>x. x \<in> set P \<Longrightarrow> okey (fst st) a x \<le> okey (fst st) a (PrevV e)"
      "\<And>x. x \<in> set (P @ Q) \<Longrightarrow> okey (fst st) a x \<le> okey (fst st) a (Ent e)"
      "\<And>x. x \<in> set (P @ Q @ R) \<Longrightarrow> okey (fst st) a x \<le> okey (fst st) a (NextV e)"
    and key: "okey (fst st) a (PrevV e) < okey (fst st) a (Ent e)" "okey (fst st) a (Ent e) < okey (fst st) a (NextV e)"
    and live: "\<And>n. n \<in> set (P @ Q @ R @ S) \<Longrightarrow> o_heap (fst st) (owner n) \<noteq> None \<and> owner n \<noteq> e"
    and e: "o_heap (fst st) e \<noteq> None"
    and I: "\<And>c t. tracks a (on_shift c t) (\<lambda>_. I)" "I st"
  shows "\<exists>st1 st2 st3 Y. shift_list_next a (NextV e) st = Some st1 \<and> shift_list_next a (Ent e) st1 = Some st2 \<and>
    shift_list_next a (PrevV e) st2 = Some st3 \<and> I st3 \<and> osorted (okey (fst st) a) Y \<and>
    set Y = set (P @ PrevV e # Q @ Ent e # R @ NextV e # S) \<and>
    stepped a (set (P @ PrevV e # Q @ Ent e # R @ NextV e # S)) Y (fst st) (fst st3)"
proof -
  let ?k = "okey (fst st) a"
  let ?N = "set (P @ PrevV e # Q @ Ent e # R @ NextV e # S)"
  define T1 where "T1 = passed (fst st) a (NextV e) S"
  define S1 where "S1 = beyond (fst st) a (NextV e) S"
  have t1: "set T1 \<union> set S1 = set S" unfolding T1_def S1_def by (rule set_passed_beyond)
  have X': "alinked (fst st) a ((P @ PrevV e # Q @ Ent e # R) @ NextV e # S)" using X by simp
  have l1: "o_heap (fst st) (owner n) \<noteq> None \<and> owner n \<noteq> owner (NextV e)" if "n \<in> set T1" for n
    using live [of n] that t1 by auto
  obtain st1 where st1: "shift_list_next a (NextV e) st = Some st1" "I st1"
    "stepped a ?N ((P @ PrevV e # Q) @ Ent e # R @ T1 @ NextV e # S1) (fst st) (fst st1)"
    using shift_next_plain [OF X' T1_def [symmetric] S1_def [symmetric] _ l1 I] e by auto
  have so1: "osorted ?k ((P @ Q @ R) @ T1 @ NextV e # S1)"
    unfolding T1_def S1_def by (rule osorted_insert) (use srt le(3) in auto)
  note k1 = stepped_key [OF st1(3)]
  have c1: "core (fst st1) = core (fst st)" and a1: "alinked (fst st1) a ((P @ PrevV e # Q) @ Ent e # R @ T1 @ NextV e # S1)"
    using st1(3) by (simp_all add: stepped_def)
  define T2 where "T2 = passed (fst st) a (Ent e) (R @ T1 @ NextV e # S1)"
  define S2 where "S2 = beyond (fst st) a (Ent e) (R @ T1 @ NextV e # S1)"
  have t2: "set T2 \<union> set S2 = set (R @ T1 @ NextV e # S1)" unfolding T2_def S2_def by (rule set_passed_beyond)
  have p2: "passed (fst st1) a (Ent e) (R @ T1 @ NextV e # S1) = T2" "beyond (fst st1) a (Ent e) (R @ T1 @ NextV e # S1) = S2"
    by (simp_all add: T2_def S2_def passed_def beyond_def k1)
  have l2: "o_heap (fst st1) (owner n) \<noteq> None \<and> owner n \<noteq> owner (Ent e)" if "n \<in> set T2" for n
  proof -
    have "?k n < ?k (Ent e)" using that unfolding T2_def by (rule passed_key)
    then have "n \<noteq> NextV e" using key(2) by auto
    then have "n \<in> set (P @ Q @ R @ S)" using that t1 t2 by auto
    then show ?thesis using live core_dom [OF c1] by simp
  qed
  obtain st2 where st2: "shift_list_next a (Ent e) st1 = Some st2" "I st2"
    "stepped a (set ((P @ PrevV e # Q) @ Ent e # R @ T1 @ NextV e # S1)) ((P @ PrevV e # Q) @ T2 @ Ent e # S2) (fst st1) (fst st2)"
    using shift_next_plain [OF a1 p2 _ l2 I(1) st1(2)] e core_dom [OF c1] by auto
  have so2: "osorted ?k ((P @ Q) @ T2 @ Ent e # S2)"
    unfolding T2_def S2_def by (rule osorted_insert) (use so1 le(2) in auto)
  note k2 = stepped_key [OF st2(3)]
  have c2: "core (fst st2) = core (fst st)" and a2: "alinked (fst st2) a (P @ PrevV e # Q @ T2 @ Ent e # S2)"
    using st2(3) c1 by (simp_all add: stepped_def)
  define T3 where "T3 = passed (fst st) a (PrevV e) (Q @ T2 @ Ent e # S2)"
  define S3 where "S3 = beyond (fst st) a (PrevV e) (Q @ T2 @ Ent e # S2)"
  have t3: "set T3 \<union> set S3 = set (Q @ T2 @ Ent e # S2)" unfolding T3_def S3_def by (rule set_passed_beyond)
  have p3: "passed (fst st2) a (PrevV e) (Q @ T2 @ Ent e # S2) = T3" "beyond (fst st2) a (PrevV e) (Q @ T2 @ Ent e # S2) = S3"
    by (simp_all add: T3_def S3_def passed_def beyond_def k1 k2)
  have l3: "o_heap (fst st2) (owner n) \<noteq> None \<and> owner n \<noteq> owner (PrevV e)" if "n \<in> set T3" for n
  proof -
    have "?k n < ?k (PrevV e)" using that unfolding T3_def by (rule passed_key)
    then have "n \<noteq> NextV e" "n \<noteq> Ent e" using key by auto
    then have "n \<in> set (P @ Q @ R @ S)" using that t1 t2 t3 by auto
    then show ?thesis using live core_dom [OF c2] by simp
  qed
  obtain st3 where st3: "shift_list_next a (PrevV e) st2 = Some st3" "I st3"
    "stepped a (set (P @ PrevV e # Q @ T2 @ Ent e # S2)) (P @ T3 @ PrevV e # S3) (fst st2) (fst st3)"
    using shift_next_plain [OF a2 p3 _ l3 I(1) st2(2)] e core_dom [OF c2] by auto
  have so3: "osorted ?k (P @ T3 @ PrevV e # S3)"
    unfolding T3_def S3_def by (rule osorted_insert) (use so2 le(1) in auto)
  have sets: "set ((P @ PrevV e # Q) @ Ent e # R @ T1 @ NextV e # S1) = ?N"
    "set (P @ PrevV e # Q @ T2 @ Ent e # S2) = ?N" "set (P @ T3 @ PrevV e # S3) = ?N"
    using t1 t2 t3 by auto
  have "stepped a ?N ((P @ PrevV e # Q) @ T2 @ Ent e # S2) (fst st) (fst st2)"
    by (rule stepped_trans [OF st1(3) st2(3)]) (simp_all only: sets order_refl)
  then have "stepped a ?N (P @ T3 @ PrevV e # S3) (fst st) (fst st3)"
    by (rule stepped_trans [OF _ st3(3)]) (simp_all only: sets order_refl)
  then show ?thesis using st1(1) st2(1) st3(1,2) so3 sets(3) by blast
qed


text \<open>To the left, the mirror image: left border, entity, right border.\<close>

lemma shift_left_visual:
  assumes X: "alinked (fst st) a (P @ PrevV e # Q @ Ent e # R @ NextV e # S)"
    and srt: "osorted (okey (fst st) a) (P @ Q @ R @ S)"
    and le: "\<And>x. x \<in> set S \<Longrightarrow> okey (fst st) a (NextV e) \<le> okey (fst st) a x"
      "\<And>x. x \<in> set (R @ S) \<Longrightarrow> okey (fst st) a (Ent e) \<le> okey (fst st) a x"
      "\<And>x. x \<in> set (Q @ R @ S) \<Longrightarrow> okey (fst st) a (PrevV e) \<le> okey (fst st) a x"
    and key: "okey (fst st) a (PrevV e) < okey (fst st) a (Ent e)" "okey (fst st) a (Ent e) < okey (fst st) a (NextV e)"
    and live: "\<And>n. n \<in> set (P @ Q @ R @ S) \<Longrightarrow> o_heap (fst st) (owner n) \<noteq> None \<and> owner n \<noteq> e"
    and e: "o_heap (fst st) e \<noteq> None"
    and I: "\<And>c t. tracks a (on_shift c t) (\<lambda>_. I)" "I st"
  shows "\<exists>st1 st2 st3 Y. shift_list_prev a (PrevV e) st = Some st1 \<and> shift_list_prev a (Ent e) st1 = Some st2 \<and>
    shift_list_prev a (NextV e) st2 = Some st3 \<and> I st3 \<and> osorted (okey (fst st) a) Y \<and>
    set Y = set (P @ PrevV e # Q @ Ent e # R @ NextV e # S) \<and>
    stepped a (set (P @ PrevV e # Q @ Ent e # R @ NextV e # S)) Y (fst st) (fst st3)"
proof -
  let ?k = "okey (fst st) a"
  let ?N = "set (P @ PrevV e # Q @ Ent e # R @ NextV e # S)"
  define T1 where "T1 = passed_back (fst st) a (PrevV e) P"
  define S1 where "S1 = before (fst st) a (PrevV e) P"
  have t1: "set S1 \<union> set T1 = set P" unfolding T1_def S1_def by (rule set_before_passed)
  have l1: "o_heap (fst st) (owner n) \<noteq> None \<and> owner n \<noteq> owner (PrevV e)" if "n \<in> set T1" for n
    using live [of n] that t1 by auto
  obtain st1 where st1: "shift_list_prev a (PrevV e) st = Some st1" "I st1"
    "stepped a ?N (S1 @ PrevV e # rev T1 @ Q @ Ent e # R @ NextV e # S) (fst st) (fst st1)"
    using shift_prev_plain [OF X T1_def [symmetric] S1_def [symmetric] _ l1 I] e by auto
  have so1: "osorted ?k (S1 @ PrevV e # rev T1 @ Q @ R @ S)"
    unfolding T1_def S1_def by (rule osorted_insert_back) (use srt le(3) in auto)
  note k1 = stepped_key [OF st1(3)]
  have c1: "core (fst st1) = core (fst st)"
    and a1: "alinked (fst st1) a ((S1 @ PrevV e # rev T1 @ Q) @ Ent e # R @ NextV e # S)"
    using st1(3) by (simp_all add: stepped_def)
  define T2 where "T2 = passed_back (fst st) a (Ent e) (S1 @ PrevV e # rev T1 @ Q)"
  define S2 where "S2 = before (fst st) a (Ent e) (S1 @ PrevV e # rev T1 @ Q)"
  have t2: "set S2 \<union> set T2 = set (S1 @ PrevV e # rev T1 @ Q)" unfolding T2_def S2_def by (rule set_before_passed)
  have p2: "passed_back (fst st1) a (Ent e) (S1 @ PrevV e # rev T1 @ Q) = T2"
    "before (fst st1) a (Ent e) (S1 @ PrevV e # rev T1 @ Q) = S2"
    by (simp_all add: T2_def S2_def passed_back_def before_def k1)
  have l2: "o_heap (fst st1) (owner n) \<noteq> None \<and> owner n \<noteq> owner (Ent e)" if "n \<in> set T2" for n
  proof -
    have "?k (Ent e) < ?k n" using that unfolding T2_def by (rule passed_back_key)
    then have "n \<noteq> PrevV e" using key(1) by auto
    then have "n \<in> set (P @ Q @ R @ S)" using that t1 t2 by auto
    then show ?thesis using live core_dom [OF c1] by simp
  qed
  obtain st2 where st2: "shift_list_prev a (Ent e) st1 = Some st2" "I st2"
    "stepped a (set ((S1 @ PrevV e # rev T1 @ Q) @ Ent e # R @ NextV e # S)) (S2 @ Ent e # rev T2 @ R @ NextV e # S) (fst st1) (fst st2)"
    using shift_prev_plain [OF a1 p2 _ l2 I(1) st1(2)] e core_dom [OF c1] by auto
  have so2: "osorted ?k (S2 @ Ent e # rev T2 @ R @ S)"
    unfolding T2_def S2_def by (rule osorted_insert_back) (use so1 le(2) in auto)
  note k2 = stepped_key [OF st2(3)]
  have c2: "core (fst st2) = core (fst st)" and a2: "alinked (fst st2) a ((S2 @ Ent e # rev T2 @ R) @ NextV e # S)"
    using st2(3) c1 by (simp_all add: stepped_def)
  define T3 where "T3 = passed_back (fst st) a (NextV e) (S2 @ Ent e # rev T2 @ R)"
  define S3 where "S3 = before (fst st) a (NextV e) (S2 @ Ent e # rev T2 @ R)"
  have t3: "set S3 \<union> set T3 = set (S2 @ Ent e # rev T2 @ R)" unfolding T3_def S3_def by (rule set_before_passed)
  have p3: "passed_back (fst st2) a (NextV e) (S2 @ Ent e # rev T2 @ R) = T3"
    "before (fst st2) a (NextV e) (S2 @ Ent e # rev T2 @ R) = S3"
    by (simp_all add: T3_def S3_def passed_back_def before_def k1 k2)
  have l3: "o_heap (fst st2) (owner n) \<noteq> None \<and> owner n \<noteq> owner (NextV e)" if "n \<in> set T3" for n
  proof -
    have "?k (NextV e) < ?k n" using that unfolding T3_def by (rule passed_back_key)
    then have "n \<noteq> PrevV e" "n \<noteq> Ent e" using key by auto
    then have "n \<in> set (P @ Q @ R @ S)" using that t1 t2 t3 by auto
    then show ?thesis using live core_dom [OF c2] by simp
  qed
  obtain st3 where st3: "shift_list_prev a (NextV e) st2 = Some st3" "I st3"
    "stepped a (set ((S2 @ Ent e # rev T2 @ R) @ NextV e # S)) (S3 @ NextV e # rev T3 @ S) (fst st2) (fst st3)"
    using shift_prev_plain [OF a2 p3 _ l3 I(1) st2(2)] e core_dom [OF c2] by auto
  have so3: "osorted ?k (S3 @ NextV e # rev T3 @ S)"
    unfolding T3_def S3_def by (rule osorted_insert_back) (use so2 le(1) in auto)
  have sets: "set ((S1 @ PrevV e # rev T1 @ Q) @ Ent e # R @ NextV e # S) = ?N"
    "set ((S2 @ Ent e # rev T2 @ R) @ NextV e # S) = ?N" "set (S3 @ NextV e # rev T3 @ S) = ?N"
    using t1 t2 t3 by auto
  have "stepped a ?N (S2 @ Ent e # rev T2 @ R @ NextV e # S) (fst st) (fst st2)"
    by (rule stepped_trans [OF st1(3) st2(3)]) (simp_all only: sets order_refl)
  then have "stepped a ?N (S3 @ NextV e # rev T3 @ S) (fst st) (fst st3)"
    by (rule stepped_trans [OF _ st3(3)]) (simp_all only: sets order_refl)
  then show ?thesis using st1(1) st2(1) st3(1,2) so3 sets(3) by blast
qed

text \<open>An entity without a view is a single node.\<close>

lemma shift_right_single:
  assumes X: "alinked (fst st) a (A @ Ent e # B)" and srt: "osorted (okey (fst st) a) (A @ B)"
    and le: "\<And>x. x \<in> set A \<Longrightarrow> okey (fst st) a x \<le> okey (fst st) a (Ent e)"
    and live: "\<And>n. n \<in> set (A @ B) \<Longrightarrow> o_heap (fst st) (owner n) \<noteq> None \<and> owner n \<noteq> e"
    and e: "o_heap (fst st) e \<noteq> None"
    and I: "\<And>c t. tracks a (on_shift c t) (\<lambda>_. I)" "I st"
  shows "\<exists>st' Y. shift_list_next a (Ent e) st = Some st' \<and> I st' \<and> osorted (okey (fst st) a) Y \<and>
    set Y = set (A @ Ent e # B) \<and> stepped a (set (A @ Ent e # B)) Y (fst st) (fst st')"
proof -
  have l: "o_heap (fst st) (owner n) \<noteq> None \<and> owner n \<noteq> owner (Ent e)" if "n \<in> set (passed (fst st) a (Ent e) B)" for n
    using live [of n] that set_passed_beyond [of "fst st" a "Ent e" B] by auto
  obtain st' where "shift_list_next a (Ent e) st = Some st'" "I st'"
    "stepped a (set (A @ Ent e # B)) (A @ passed (fst st) a (Ent e) B @ Ent e # beyond (fst st) a (Ent e) B) (fst st) (fst st')"
    using shift_next_plain [OF X refl refl _ l I] e by auto
  then show ?thesis
    using osorted_insert [OF srt le] set_passed_beyond [of "fst st" a "Ent e" B]
    by (intro exI [of _ st'] exI [of _ "A @ passed (fst st) a (Ent e) B @ Ent e # beyond (fst st) a (Ent e) B"]) auto
qed

lemma shift_left_single:
  assumes X: "alinked (fst st) a (A @ Ent e # B)" and srt: "osorted (okey (fst st) a) (A @ B)"
    and le: "\<And>x. x \<in> set B \<Longrightarrow> okey (fst st) a (Ent e) \<le> okey (fst st) a x"
    and live: "\<And>n. n \<in> set (A @ B) \<Longrightarrow> o_heap (fst st) (owner n) \<noteq> None \<and> owner n \<noteq> e"
    and e: "o_heap (fst st) e \<noteq> None"
    and I: "\<And>c t. tracks a (on_shift c t) (\<lambda>_. I)" "I st"
  shows "\<exists>st' Y. shift_list_prev a (Ent e) st = Some st' \<and> I st' \<and> osorted (okey (fst st) a) Y \<and>
    set Y = set (A @ Ent e # B) \<and> stepped a (set (A @ Ent e # B)) Y (fst st) (fst st')"
proof -
  have l: "o_heap (fst st) (owner n) \<noteq> None \<and> owner n \<noteq> owner (Ent e)" if "n \<in> set (passed_back (fst st) a (Ent e) A)" for n
    using live [of n] that set_before_passed [of "fst st" a "Ent e" A] by auto
  obtain st' where "shift_list_prev a (Ent e) st = Some st'" "I st'"
    "stepped a (set (A @ Ent e # B)) (before (fst st) a (Ent e) A @ Ent e # rev (passed_back (fst st) a (Ent e) A) @ B) (fst st) (fst st')"
    using shift_prev_plain [OF X refl refl _ l I] e by auto
  then show ?thesis
    using osorted_insert_back [OF srt le] set_before_passed [of "fst st" a "Ent e" A]
    by (intro exI [of _ st'] exI [of _ "before (fst st) a (Ent e) A @ Ent e # rev (passed_back (fst st) a (Ent e) A) @ B"]) auto
qed

lemma osorted_split:
  assumes "osorted k (A @ c # B)" "d \<in> set (A @ c # B)" "k c < k d"
  obtains B1 B2 where "B = B1 @ d # B2"
proof -
  have "d \<notin> set A" using assms(1,3) by (fastforce simp: osorted_simps)
  then have "d \<in> set B" using assms(2,3) by auto
  then show ?thesis using that by (metis split_list)
qed

text \<open>The nodes of an entity with a view, in a list sorted by keys that order them.\<close>

lemma visual_split:
  assumes "osorted k X" "own e \<subseteq> set X" "k (PrevV e) < k (Ent e)" "k (Ent e) < k (NextV e)"
  obtains P Q R S where "X = P @ PrevV e # Q @ Ent e # R @ NextV e # S"
proof -
  obtain P Y where Y: "X = P @ PrevV e # Y" using assms(2) by (metis own_iff node.sel(2) split_list subsetD)
  obtain Q Z where Z: "Y = Q @ Ent e # Z"
    using osorted_split [of k P "PrevV e" Y "Ent e"] assms(1-3) Y by (auto simp: own_def)
  have X: "X = (P @ PrevV e # Q) @ Ent e # Z" using Y Z by simp
  have "osorted k ((P @ PrevV e # Q) @ Ent e # Z)" using assms(1) X by simp
  moreover have "NextV e \<in> set ((P @ PrevV e # Q) @ Ent e # Z)" using assms(2) X by (auto simp: own_def)
  ultimately obtain R S where "Z = R @ NextV e # S" using assms(4) by (rule osorted_split)
  with Y Z that show ?thesis by simp
qed

definition has_axis :: "orth \<Rightarrow> axis \<Rightarrow> (node \<Rightarrow> int) \<Rightarrow> node set \<Rightarrow> node set \<Rightarrow> bool" where
  "has_axis s a k N M \<longleftrightarrow>
     (\<exists>X. alinked s a X \<and> set X = N \<and> osorted k X) \<and>
     (\<forall>n\<in>M. o_next s a n = None \<and> o_prev s a n = None)"

lemma axis_ok_iff: "axis_ok s a N M \<longleftrightarrow> has_axis s a (okey s a) N M"
  by (simp add: axis_ok_def has_axis_def)

lemma stepped_has_axis:
  assumes "stepped a E xs s t" "osorted (okey s a) xs" "set xs = N" "has_axis s a k N0 M" "M \<inter> E = {}"
  shows "axis_ok t a N M"
proof -
  have "o_next t a n = None \<and> o_prev t a n = None" if "n \<in> M" for n
  proof -
    have "n \<notin> E" using that assms(5) by auto
    then show ?thesis using assms(1,4) that unfolding stepped_def has_axis_def by simp
  qed
  then show ?thesis
    unfolding axis_ok_def stepped_key [OF assms(1)] using assms(1-3) unfolding stepped_def by blast
qed

definition tick :: "orth \<Rightarrow> orth" where
  "tick s = s\<lparr>o_now := o_now s + 1\<rparr>"

lemma tick_fields [simp]:
  "o_use_y (tick s) = o_use_y s" "o_mark (tick s) = o_mark s" "o_first (tick s) = o_first s"
  "o_next (tick s) = o_next s" "o_prev (tick s) = o_prev s" "o_pos (tick s) = o_pos s"
  "o_old (tick s) = o_old s" "o_heap (tick s) = o_heap s" "o_set (tick s) = o_set s"
  "core (tick s) = core s" "okey (tick s) = okey s" "alinked (tick s) = alinked s" "o_now (tick s) = o_now s + 1"
  by (simp_all add: tick_def core_def shape_def okey_def alinked_def fun_eq_iff)

lemma tick_axis [simp]:
  "has_axis (tick s) a k N M = has_axis s a k N M" "off_axis a (tick s) t = off_axis a s t"
  by (simp_all add: has_axis_def off_axis_def on_axis_def)

lemma shift_entity_axis:
  assumes ax: "has_axis (fst st) a k N M" and d: "M \<inter> N = {}"
    and same: "\<And>n. owner n \<noteq> e \<Longrightarrow> okey (fst st) a n = k n"
    and moved: "\<And>n. n \<in> N \<Longrightarrow> owner n = e \<Longrightarrow>
      okey (fst st) a n = k n + 3 * (o_pos (fst st) (Ent e) a - o_old (fst st) (Ent e) a)"
    and c: "o_heap (fst st) e = Some c" and N: "N \<inter> own e = (if has_visual c then own e else {Ent e})"
    and live: "\<And>n. n \<in> N \<Longrightarrow> o_heap (fst st) (owner n) \<noteq> None"
    and key: "has_visual c \<Longrightarrow> okey (fst st) a (PrevV e) < okey (fst st) a (Ent e) \<and> okey (fst st) a (Ent e) < okey (fst st) a (NextV e)"
    and I: "\<And>c t. tracks a (on_shift c t) (\<lambda>_. I)" "I (tick (fst st), snd st)"
  shows "\<exists>st'. shift_entity a e st = Some st' \<and> I st' \<and> core (fst st') = core (fst st) \<and>
    off_axis a (fst st) (fst st') \<and> axis_ok (fst st') a N M"
proof -
  define t where "t = (tick (fst st), snd st)"
  define dl where "dl = o_pos (fst st) (Ent e) a - o_old (fst st) (Ent e) a"
  obtain X where X: "alinked (fst t) a X" "set X = N" "osorted k X"
    using ax unfolding has_axis_def t_def by auto
  have dX: "distinct X" using X(1) unfolding alinked_def by (rule linked_distinct)
  have finish: ?thesis if run: "shift_entity a e st = Some st'" and "I st'" and so: "osorted (okey (fst t) a) Y" "set Y = set X"
    and stp: "stepped a (set X) Y (fst t) (fst st')" for st' Y
    using stepped_has_axis [OF stp so(1) _ _] ax stp d so(2) X(2) run that(2) unfolding stepped_def t_def by auto
  have It: "I t" using I(2) by (simp add: t_def)
  have e: "o_heap (fst t) e \<noteq> None" using c by (simp add: t_def)
  show ?thesis
  proof (cases "has_visual c")
    case True
    have k': "okey (fst t) a n = k n + 3 * dl" if "owner n = e" for n
      using moved [of n] N True that own_iff [of n e] unfolding t_def dl_def by auto
    have ks: "okey (fst t) a n = k n" if "owner n \<noteq> e" for n using same [OF that] by (simp add: t_def)
    have kk: "k (PrevV e) < k (Ent e)" "k (Ent e) < k (NextV e)"
      using key [OF True] k' by (simp_all add: t_def)
    obtain P Q R S where X': "X = P @ PrevV e # Q @ Ent e # R @ NextV e # S"
      using visual_split [OF X(3) _ kk] N True X(2) by (metis inf_le1)
    have oth: "n \<in> N \<and> owner n \<noteq> e" if "n \<in> set (P @ Q @ R @ S)" for n
      using that X' X(2) dX own_iff [of n e] by (auto simp: own_def)
    have ks': "okey (fst t) a n = k n" if "n \<in> set (P @ Q @ R @ S)" for n using oth [OF that] ks by simp
    have "osorted k (P @ Q @ R @ S)" using X(3) unfolding X' by (simp add: osorted_simps)
    then have srt: "osorted (okey (fst t) a) (P @ Q @ R @ S)"
      using osorted_cong [of "P @ Q @ R @ S" "okey (fst t) a" k] ks' by blast
    have lv: "o_heap (fst t) (owner n) \<noteq> None \<and> owner n \<noteq> e" if "n \<in> set (P @ Q @ R @ S)" for n
      using oth [OF that] live by (simp add: t_def)
    have kt: "okey (fst t) a (PrevV e) < okey (fst t) a (Ent e)" "okey (fst t) a (Ent e) < okey (fst t) a (NextV e)"
      using key [OF True] by (simp_all add: t_def)
    note X1 = X(1) [unfolded X']
    have ord: "x \<in> set P \<Longrightarrow> k x \<le> k (PrevV e)" "x \<in> set (P @ Q) \<Longrightarrow> k x \<le> k (Ent e)"
      "x \<in> set (P @ Q @ R) \<Longrightarrow> k x \<le> k (NextV e)" "x \<in> set S \<Longrightarrow> k (NextV e) \<le> k x"
      "x \<in> set (R @ S) \<Longrightarrow> k (Ent e) \<le> k x" "x \<in> set (Q @ R @ S) \<Longrightarrow> k (PrevV e) \<le> k x" for x
      using X(3) unfolding X' by (auto simp: osorted_simps)
    consider "dl > 0" | "dl < 0" | "dl = 0" by linarith
    then show ?thesis
    proof cases
      case 1
      have le: "okey (fst t) a x \<le> okey (fst t) a (PrevV e)" if "x \<in> set P" for x
        using ord(1) [OF that] ks' [of x] that k' [of "PrevV e"] 1 by auto
      have le2: "okey (fst t) a x \<le> okey (fst t) a (Ent e)" if "x \<in> set (P @ Q)" for x
        using ord(2) [OF that] ks' [of x] that k' [of "Ent e"] 1 by auto
      have le3: "okey (fst t) a x \<le> okey (fst t) a (NextV e)" if "x \<in> set (P @ Q @ R)" for x
        using ord(3) [OF that] ks' [of x] that k' [of "NextV e"] 1 by auto
      show ?thesis
        using shift_right_visual [OF X1 srt le le2 le3 kt lv e I(1) It] finish c True 1 X'
        by (auto simp: shift_entity_def t_def dl_def tick_def)
    next
      case 2
      have le: "okey (fst t) a (NextV e) \<le> okey (fst t) a x" if "x \<in> set S" for x
        using ord(4) [OF that] ks' [of x] that k' [of "NextV e"] 2 by auto
      have le2: "okey (fst t) a (Ent e) \<le> okey (fst t) a x" if "x \<in> set (R @ S)" for x
        using ord(5) [OF that] ks' [of x] that k' [of "Ent e"] 2 by auto
      have le3: "okey (fst t) a (PrevV e) \<le> okey (fst t) a x" if "x \<in> set (Q @ R @ S)" for x
        using ord(6) [OF that] ks' [of x] that k' [of "PrevV e"] 2 by auto
      show ?thesis
        using shift_left_visual [OF X1 srt le le2 le3 kt lv e I(1) It] finish c True 2 X'
        by (auto simp: shift_entity_def t_def dl_def tick_def)
    next
      case 3
      have "okey (fst t) a = k" using ks k' 3 by (metis (no_types) add.right_neutral ext mult_zero_right)
      then show ?thesis
        using finish [of t X] It stepped_mono [OF stepped_refl [OF X(1)]] X(3) c 3
        by (auto simp: shift_entity_def t_def dl_def tick_def)
    qed
  next
    case False
    have eN: "Ent e \<in> set X" using N False X(2) by auto
    obtain A B where X': "X = A @ Ent e # B" using split_list [OF eN] by blast
    have k': "okey (fst t) a (Ent e) = k (Ent e) + 3 * dl"
      using moved [of "Ent e"] eN X(2) by (simp add: t_def dl_def)
    have oth: "n \<in> N \<and> owner n \<noteq> e" if "n \<in> set (A @ B)" for n
    proof -
      have "n \<in> N" "n \<noteq> Ent e" using that X' X(2) dX by auto
      then show ?thesis using N False own_iff [of n e] by auto
    qed
    have ks': "okey (fst t) a n = k n" if "n \<in> set (A @ B)" for n using oth [OF that] same by (simp add: t_def)
    have "osorted k (A @ B)" using X(3) unfolding X' by (simp add: osorted_simps)
    then have srt: "osorted (okey (fst t) a) (A @ B)"
      using osorted_cong [of "A @ B" "okey (fst t) a" k] ks' by blast
    have lv: "o_heap (fst t) (owner n) \<noteq> None \<and> owner n \<noteq> e" if "n \<in> set (A @ B)" for n
      using oth [OF that] live by (simp add: t_def)
    note X1 = X(1) [unfolded X'] note so = X(3) [unfolded X', simplified osorted_simps]
    consider "dl > 0" | "dl < 0" | "dl = 0" by linarith
    then show ?thesis
    proof cases
      case 1
      have le: "okey (fst t) a x \<le> okey (fst t) a (Ent e)" if "x \<in> set A" for x
        using so that ks' [of x] k' 1 by force
      show ?thesis
        using shift_right_single [OF X1 srt le lv e I(1) It] finish c False 1 X'
        by (auto simp: shift_entity_def t_def dl_def tick_def)
    next
      case 2
      have le: "okey (fst t) a (Ent e) \<le> okey (fst t) a x" if "x \<in> set B" for x
        using so that ks' [of x] k' 2 by force
      show ?thesis
        using shift_left_single [OF X1 srt le lv e I(1) It] finish c False 2 X'
        by (auto simp: shift_entity_def t_def dl_def tick_def)
    next
      case 3
      have "osorted (okey (fst t) a) X"
        using osorted_cong [of X "okey (fst t) a" k] ks' k' 3 X(3) X' by auto
      then show ?thesis
        using finish [of t X] It stepped_mono [OF stepped_refl [OF X(1)]] c 3
        by (auto simp: shift_entity_def t_def dl_def tick_def)
    qed
  qed
qed

section \<open>The borders of a view\<close>

lemma insert_visual_axis:
  assumes ax: "axis_ok (fst st) a N M" and d: "M \<inter> N = {}" and N: "Ent e \<in> N" "PrevV e \<in> M" "NextV e \<in> M"
    and key: "okey (fst st) a (PrevV e) < okey (fst st) a (Ent e)" "okey (fst st) a (Ent e) < okey (fst st) a (NextV e)"
    and k: "keeps (fst st) N f" and tr: "tracks a f J" "J [] st"
  shows "\<exists>st' P Q R S. insert_visual_list a e f st = Some st' \<and> J (R @ rev Q) st' \<and>
    osorted (okey (fst st) a) (P @ PrevV e # Q @ Ent e # R @ NextV e # S) \<and>
    set (P @ Q @ Ent e # R @ S) = N \<and>
    stepped a (N \<union> own e) (P @ PrevV e # Q @ Ent e # R @ NextV e # S) (fst st) (fst st')"
proof -
  let ?k = "okey (fst st) a"
  obtain X where X: "alinked (fst st) a X" "set X = N" "osorted ?k X"
    using ax unfolding axis_ok_def by blast
  obtain A B where AB: "X = A @ Ent e # B" using N(1) X(2) by (metis split_list)
  define T where "T = passed (fst st) a (NextV e) B"
  define R where "R = beyond (fst st) a (NextV e) B"
  define U where "U = passed_back (fst st) a (PrevV e) A"
  define Q where "Q = before (fst st) a (PrevV e) A"
  have setB: "set T \<union> set R = set B" unfolding T_def R_def by (rule set_passed_beyond)
  have setA: "set Q \<union> set U = set A" unfolding U_def Q_def by (rule set_before_passed)
  have lk: "alinked (fst st) a (A @ Ent e # B)" using X(1) AB by simp
  have nw: "NextV e \<notin> set (A @ B)" "PrevV e \<notin> set (A @ B)"
    using d N X(2) AB by auto
  have un: "o_next (fst st) a n = None" "o_prev (fst st) a n = None" if "n \<in> M" for n
    using ax that unfolding axis_ok_def by blast+
  have kf: "keeps (fst st) (set (passed (fst st) a (NextV e) B @ passed_back (fst st) a (PrevV e) A)) f"
    by (rule keeps_mono [OF k]) (use setA setB X(2) AB in \<open>auto simp: T_def U_def\<close>)
  obtain st1 s1 st2 s' where *: "fold_opt f T st = Some st1" "shape (fst st1) = shape (fst st)"
    "relinked a (insert (NextV e) (set (A @ Ent e # B))) (A @ Ent e # T @ NextV e # R) (fst st1) s1"
    "fold_opt f U (s1, snd st1) = Some st2" "shape (fst st2) = shape s1"
    "insert_visual_list a e f st = Some (s', snd st2)"
    "relinked a (insert (PrevV e) (insert (NextV e) (set (A @ Ent e # B))))
      (Q @ PrevV e # rev U @ Ent e # T @ NextV e # R) (fst st2) s'"
    using insert_visual_list_spec [OF lk nw un(1) un(2) un(1) un(2) kf] N unfolding T_def R_def U_def Q_def by blast
  have j1: "J T (s1, snd st1)"
    using tracks_relinked [OF tr(1) tracks_fold [OF tr *(1)] *(3)] by simp
  have j2: "J (T @ U) (s', snd st2)"
    by (rule tracks_relinked [OF tr(1) tracks_fold [OF tr(1) j1 *(4)] *(7)])
  have s0: "osorted ?k ((A @ [Ent e]) @ T @ NextV e # R)"
    unfolding T_def R_def
  proof (rule osorted_insert)
    show "osorted ?k ((A @ [Ent e]) @ B)" using X(3) AB by simp
    show "?k x \<le> ?k (NextV e)" if "x \<in> set (A @ [Ent e])" for x
    proof -
      have "?k x \<le> ?k (Ent e)" using that X(3) AB by (auto simp: osorted_simps)
      then show ?thesis using key(2) by linarith
    qed
  qed
  have s1: "osorted ?k (Q @ PrevV e # rev U @ Ent e # T @ NextV e # R)"
    unfolding U_def Q_def
  proof (rule osorted_insert_back)
    show "osorted ?k (A @ Ent e # T @ NextV e # R)" using s0 by simp
    show "?k (PrevV e) \<le> ?k x" if "x \<in> set (Ent e # T @ NextV e # R)" for x
    proof -
      have "?k (Ent e) \<le> ?k x" using that s0 by (auto simp: osorted_simps)
      then show ?thesis using key(1) by linarith
    qed
  qed
  have E: "insert (NextV e) (set (A @ Ent e # B)) \<subseteq> N \<union> own e"
    "insert (PrevV e) (insert (NextV e) (set (A @ Ent e # B))) \<subseteq> N \<union> own e"
    using X(2) AB by (auto simp: own_def)
  have "stepped a (N \<union> own e) (Q @ PrevV e # rev U @ Ent e # T @ NextV e # R) (fst st) s'"
    by (rule stepped_trans [OF steppedI [OF *(2,3)] steppedI [OF *(5,7)] E])
  moreover have "set (Q @ rev U @ Ent e # T @ R) = N" using setA setB X(2) AB by auto
  ultimately show ?thesis using *(6) j2 s1
    by (intro exI [of _ "(s', snd st2)"] exI [of _ Q] exI [of _ "rev U"] exI [of _ T] exI [of _ R]) simp
qed

lemma passed_back_stop:
  assumes "\<not> okey s a c < okey s a x"
  shows "passed_back s a c (A @ x # B) = passed_back s a c B" "before s a c (A @ x # B) = A @ x # before s a c B"
  using assms by (simp_all add: passed_back_def before_def takeWhile_tail dropWhile_append3)

lemma passed_stop:
  assumes "\<not> okey s a x < okey s a c"
  shows "passed s a c (A @ x # B) = passed s a c A" "beyond s a c (A @ x # B) = beyond s a c A @ x # B"
  using assms by (simp_all add: passed_def beyond_def takeWhile_tail dropWhile_append3)

text \<open>A growing view: the right border moves right, then the left border left.\<close>

lemma grow_view:
  assumes X: "alinked (fst st) a (P @ PrevV e # Q @ Ent e # R @ NextV e # S)"
    and srt: "osorted (okey (fst st) a) (P @ Q @ Ent e # R @ S)"
    and le: "\<And>x. x \<in> set (P @ Q @ Ent e # R) \<Longrightarrow> okey (fst st) a x \<le> okey (fst st) a (NextV e)"
      "\<And>x. x \<in> set (Q @ Ent e # R @ S) \<Longrightarrow> okey (fst st) a (PrevV e) \<le> okey (fst st) a x"
    and key: "okey (fst st) a (PrevV e) \<le> okey (fst st) a (NextV e)"
    and live: "\<And>n. n \<in> set (P @ Q @ R @ S) \<Longrightarrow> o_heap (fst st) (owner n) \<noteq> None \<and> owner n \<noteq> e"
    and e: "o_heap (fst st) e \<noteq> None"
    and tr: "tracks a (on_shift (NextV e) CT_VISUAL_NEXT) J" "tracks a (on_shift (PrevV e) CT_VISUAL_PREV) J" "J [] st"
  shows "\<exists>st1 st2 B T T' B'. shift_list_next a (NextV e) st = Some st1 \<and> shift_list_prev a (PrevV e) st1 = Some st2 \<and>
    P = B @ T \<and> S = T' @ B' \<and> J (T' @ rev T) st2 \<and>
    osorted (okey (fst st) a) (B @ PrevV e # T @ Q @ Ent e # R @ T' @ NextV e # B') \<and>
    stepped a (set (P @ PrevV e # Q @ Ent e # R @ NextV e # S))
      (B @ PrevV e # T @ Q @ Ent e # R @ T' @ NextV e # B') (fst st) (fst st2)"
proof -
  let ?k = "okey (fst st) a"
  let ?N = "set (P @ PrevV e # Q @ Ent e # R @ NextV e # S)"
  define T1 where "T1 = passed (fst st) a (NextV e) S"
  define S1 where "S1 = beyond (fst st) a (NextV e) S"
  have t1: "T1 @ S1 = S" unfolding T1_def S1_def by (rule passed_beyond)
  have X': "alinked (fst st) a ((P @ PrevV e # Q @ Ent e # R) @ NextV e # S)" using X by simp
  have l1: "o_heap (fst st) (owner n) \<noteq> None \<and> owner n \<noteq> owner (NextV e)"
    if "n \<in> set (passed (fst st) a (NextV e) S)" for n
    using live [of n] that t1 unfolding T1_def by (metis Un_iff node.sel(2) set_append)
  obtain st1 where st1: "shift_list_next a (NextV e) st = Some st1" "J T1 st1"
    "stepped a ?N (P @ PrevV e # Q @ Ent e # R @ T1 @ NextV e # S1) (fst st) (fst st1)"
    using shift_next_step [OF X' _ l1 tr(1,3)] e unfolding T1_def S1_def by auto
  have so1: "osorted ?k ((P @ Q @ Ent e # R) @ T1 @ NextV e # S1)"
    unfolding T1_def S1_def by (rule osorted_insert) (use srt le(1) in auto)
  note k1 = stepped_key [OF st1(3)]
  have c1: "core (fst st1) = core (fst st)" and a1: "alinked (fst st1) a (P @ PrevV e # Q @ Ent e # R @ T1 @ NextV e # S1)"
    using st1(3) by (simp_all add: stepped_def)
  define T2 where "T2 = passed_back (fst st) a (PrevV e) P"
  define S2 where "S2 = before (fst st) a (PrevV e) P"
  have t2: "S2 @ rev T2 = P" unfolding T2_def S2_def by (rule before_passed)
  have p2: "passed_back (fst st1) a (PrevV e) P = T2" "before (fst st1) a (PrevV e) P = S2"
    by (simp_all add: T2_def S2_def passed_back_def before_def k1)
  have l2: "o_heap (fst st1) (owner n) \<noteq> None \<and> owner n \<noteq> owner (PrevV e)"
    if "n \<in> set (passed_back (fst st1) a (PrevV e) P)" for n
  proof -
    have "n \<in> set P" using that t2 unfolding p2 by (metis Un_iff set_append set_rev)
    then show ?thesis using live [of n] core_dom [OF c1] by simp
  qed
  have e1: "o_heap (fst st1) (owner (PrevV e)) \<noteq> None" using e core_dom [OF c1] by simp
  obtain st2 where st2: "shift_list_prev a (PrevV e) st1 = Some st2" "J (T1 @ T2) st2"
    "stepped a (set (P @ PrevV e # Q @ Ent e # R @ T1 @ NextV e # S1))
      (S2 @ PrevV e # rev T2 @ Q @ Ent e # R @ T1 @ NextV e # S1) (fst st1) (fst st2)"
    using shift_prev_step [OF a1 e1 l2 tr(2) st1(2)] unfolding p2 by auto
  have so2: "osorted ?k (S2 @ PrevV e # rev T2 @ Q @ Ent e # R @ T1 @ NextV e # S1)"
    unfolding T2_def S2_def
  proof (rule osorted_insert_back)
    show "osorted ?k (P @ Q @ Ent e # R @ T1 @ NextV e # S1)" using so1 by simp
    show "?k (PrevV e) \<le> ?k x" if "x \<in> set (Q @ Ent e # R @ T1 @ NextV e # S1)" for x
      using that le(2) [of x] key t1 by auto
  qed
  have "set (P @ PrevV e # Q @ Ent e # R @ T1 @ NextV e # S1) = ?N" using t1 by auto
  then have "stepped a ?N (S2 @ PrevV e # rev T2 @ Q @ Ent e # R @ T1 @ NextV e # S1) (fst st) (fst st2)"
    by (intro stepped_trans [OF st1(3) st2(3)]) simp_all
  then show ?thesis
    using st1(1) st2(1,2) so2 t1 t2
    by (intro exI [of _ st1] exI [of _ st2] exI [of _ S2] exI [of _ "rev T2"] exI [of _ T1] exI [of _ S1]) simp
qed

text \<open>A shrinking view: the right border moves left, then the left border right; the entity stops both.\<close>

lemma shrink_view:
  assumes X: "alinked (fst st) a (P @ PrevV e # Q @ Ent e # R @ NextV e # S)"
    and srt: "osorted (okey (fst st) a) (P @ Q @ Ent e # R @ S)"
    and le: "\<And>x. x \<in> set P \<Longrightarrow> okey (fst st) a x \<le> okey (fst st) a (PrevV e)"
      "\<And>x. x \<in> set S \<Longrightarrow> okey (fst st) a (NextV e) \<le> okey (fst st) a x"
    and key: "okey (fst st) a (PrevV e) < okey (fst st) a (Ent e)" "okey (fst st) a (Ent e) < okey (fst st) a (NextV e)"
    and live: "\<And>n. n \<in> set (P @ Q @ R @ S) \<Longrightarrow> o_heap (fst st) (owner n) \<noteq> None \<and> owner n \<noteq> e"
    and e: "o_heap (fst st) e \<noteq> None"
    and tr: "tracks a (on_shift (NextV e) CT_VISUAL_PREV) J" "tracks a (on_shift (PrevV e) CT_VISUAL_NEXT) J" "J [] st"
  shows "\<exists>st1 st2 B T T' B'. shift_list_prev a (NextV e) st = Some st1 \<and> shift_list_next a (PrevV e) st1 = Some st2 \<and>
    Q = T @ B \<and> R = B' @ T' \<and> J (rev T' @ T) st2 \<and>
    osorted (okey (fst st) a) (P @ T @ PrevV e # B @ Ent e # B' @ NextV e # T' @ S) \<and>
    stepped a (set (P @ PrevV e # Q @ Ent e # R @ NextV e # S))
      (P @ T @ PrevV e # B @ Ent e # B' @ NextV e # T' @ S) (fst st) (fst st2)"
proof -
  let ?k = "okey (fst st) a"
  let ?N = "set (P @ PrevV e # Q @ Ent e # R @ NextV e # S)"
  define T1 where "T1 = passed_back (fst st) a (NextV e) R"
  define S1 where "S1 = before (fst st) a (NextV e) R"
  have t1: "S1 @ rev T1 = R" unfolding T1_def S1_def by (rule before_passed)
  have X': "alinked (fst st) a ((P @ PrevV e # Q @ Ent e # R) @ NextV e # S)" using X by simp
  have p1: "passed_back (fst st) a (NextV e) (P @ PrevV e # Q @ Ent e # R) = T1"
    "before (fst st) a (NextV e) (P @ PrevV e # Q @ Ent e # R) = P @ PrevV e # Q @ Ent e # S1"
    using passed_back_stop [of "fst st" a "NextV e" "Ent e" "P @ PrevV e # Q" R] key(2) by (simp_all add: T1_def S1_def)
  have l1: "o_heap (fst st) (owner n) \<noteq> None \<and> owner n \<noteq> owner (NextV e)"
    if "n \<in> set (passed_back (fst st) a (NextV e) (P @ PrevV e # Q @ Ent e # R))" for n
  proof -
    have "n \<in> set R" using that t1 unfolding p1 by (metis Un_iff set_append set_rev)
    then show ?thesis using live [of n] by simp
  qed
  obtain st1 where st1: "shift_list_prev a (NextV e) st = Some st1" "J T1 st1"
    "stepped a ?N (P @ PrevV e # Q @ Ent e # S1 @ NextV e # rev T1 @ S) (fst st) (fst st1)"
    using shift_prev_step [OF X' _ l1 tr(1,3)] e unfolding p1 by auto
  have so1: "osorted ?k (P @ Q @ Ent e # S1 @ NextV e # rev T1 @ S)"
    using osorted_insert_back [of "fst st" a "P @ Q @ Ent e # R" S "NextV e"] srt le(2) key(2)
      passed_back_stop [of "fst st" a "NextV e" "Ent e" "P @ Q" R] by (simp add: T1_def S1_def)
  note k1 = stepped_key [OF st1(3)]
  have c1: "core (fst st1) = core (fst st)" and a1: "alinked (fst st1) a (P @ PrevV e # Q @ Ent e # S1 @ NextV e # rev T1 @ S)"
    using st1(3) by (simp_all add: stepped_def)
  define T2 where "T2 = passed (fst st) a (PrevV e) Q"
  define S2 where "S2 = beyond (fst st) a (PrevV e) Q"
  have t2: "T2 @ S2 = Q" unfolding T2_def S2_def by (rule passed_beyond)
  have st: "\<not> okey (fst st1) a (Ent e) < okey (fst st1) a (PrevV e)" using key(1) by (simp add: k1)
  have p2: "passed (fst st1) a (PrevV e) (Q @ Ent e # S1 @ NextV e # rev T1 @ S) = T2"
    "beyond (fst st1) a (PrevV e) (Q @ Ent e # S1 @ NextV e # rev T1 @ S) = S2 @ Ent e # S1 @ NextV e # rev T1 @ S"
    using passed_stop [OF st, of Q] by (simp_all add: T2_def S2_def passed_def beyond_def k1)
  have l2: "o_heap (fst st1) (owner n) \<noteq> None \<and> owner n \<noteq> owner (PrevV e)"
    if "n \<in> set (passed (fst st1) a (PrevV e) (Q @ Ent e # S1 @ NextV e # rev T1 @ S))" for n
  proof -
    have "n \<in> set Q" using that t2 unfolding p2 by (metis Un_iff set_append)
    then show ?thesis using live [of n] core_dom [OF c1] by simp
  qed
  have e1: "o_heap (fst st1) (owner (PrevV e)) \<noteq> None" using e core_dom [OF c1] by simp
  obtain st2 where st2: "shift_list_next a (PrevV e) st1 = Some st2" "J (T1 @ T2) st2"
    "stepped a (set (P @ PrevV e # Q @ Ent e # S1 @ NextV e # rev T1 @ S))
      (P @ T2 @ PrevV e # S2 @ Ent e # S1 @ NextV e # rev T1 @ S) (fst st1) (fst st2)"
    using shift_next_step [OF a1 e1 l2 tr(2) st1(2)] unfolding p2 by auto
  have so2: "osorted ?k (P @ T2 @ PrevV e # S2 @ Ent e # S1 @ NextV e # rev T1 @ S)"
    using osorted_insert [of "fst st" a P "Q @ Ent e # S1 @ NextV e # rev T1 @ S" "PrevV e"] so1 le(1)
      passed_stop [of "fst st" a "Ent e" "PrevV e" Q] key(1) by (simp add: T2_def S2_def)
  have "set (P @ PrevV e # Q @ Ent e # S1 @ NextV e # rev T1 @ S) = ?N" using t1 by auto
  then have "stepped a ?N (P @ T2 @ PrevV e # S2 @ Ent e # S1 @ NextV e # rev T1 @ S) (fst st) (fst st2)"
    by (intro stepped_trans [OF st1(3) st2(3)]) simp_all
  then show ?thesis
    using st1(1) st2(1,2) so2 t1 t2
    by (intro exI [of _ st1] exI [of _ st2] exI [of _ S2] exI [of _ T2] exI [of _ "rev T1"] exI [of _ S1]) simp
qed

section \<open>Walking a range\<close>

definition on_ent :: "(int \<Rightarrow> st \<Rightarrow> st option) \<Rightarrow> node \<Rightarrow> st \<Rightarrow> st option" where
  "on_ent func n st = (if ctype n = CT_ENTITY then func (owner n) st else Some st)"

lemma on_ent_ent: "ctype n = CT_ENTITY \<Longrightarrow> on_ent func n = func (owner n)"
  and on_ent_other: "ctype n \<noteq> CT_ENTITY \<Longrightarrow> on_ent func n = Some"
  by (simp_all add: on_ent_def fun_eq_iff)

lemma fold_on_ent:
  "fold_opt (on_ent func) xs st = fold_opt func (map owner (filter (\<lambda>n. ctype n = CT_ENTITY) xs)) st"
proof (induction xs arbitrary: st)
  case (Cons n xs)
  then have "fold_opt (on_ent func) xs = fold_opt func (map owner (filter (\<lambda>n. ctype n = CT_ENTITY) xs))"
    by (simp add: fun_eq_iff)
  then show ?case
    by (cases "ctype n = CT_ENTITY") (simp_all add: on_ent_ent on_ent_other)
qed simp

lemma range_next_run:
  assumes "seg (o_next s AX) (o_prev s AX) p ys None" "keeps s (set ys) (on_ent func)" "shape (fst st) = shape s"
  shows "\<exists>st'. fold_opt (on_ent func) (takeWhile (\<lambda>n. o_pos s n AX \<le> hi) ys) st = Some st' \<and>
    shape (fst st') = shape s \<and> range_next hi func (hd_or None ys) st = Some st'"
  using assms
proof (induction ys arbitrary: p st)
  case Nil
  then show ?case by (simp add: range_next.simps [of hi func None])
next
  case (Cons n ys)
  have cmp: "o_pos (fst st) n AX = o_pos s n AX" using shape_fields(7) [OF Cons.prems(3)] by simp
  show ?case
  proof (cases "o_pos s n AX \<le> hi")
    case False
    then show ?thesis using Cons.prems(3) cmp by (simp add: range_next.simps [of hi func "Some n"])
  next
    case True
    obtain st1 where st1: "on_ent func n st = Some st1" "shape (fst st1) = shape s"
      using keepsD [OF Cons.prems(2) _ Cons.prems(3), of n] by auto
    have "keeps s (set ys) (on_ent func)" by (rule keeps_mono [OF Cons.prems(2)]) auto
    from Cons.IH [OF _ this st1(2), of "Some n"] Cons.prems(1)
    obtain st' where "fold_opt (on_ent func) (takeWhile (\<lambda>n. o_pos s n AX \<le> hi) ys) st1 = Some st'"
      "shape (fst st') = shape s" "range_next hi func (hd_or None ys) st1 = Some st'" by auto
    moreover have "o_next (fst st1) AX n = hd_or None ys"
      using Cons.prems(1) by (simp add: shape_fields [OF st1(2)])
    ultimately show ?thesis
      using True cmp st1 unfolding on_ent_def by (simp add: range_next.simps [of hi func "Some n"] on_ent_def)
  qed
qed

lemma range_prev_run:
  assumes "seg (o_next s AX) (o_prev s AX) None ys q" "keeps s (set ys) (on_ent func)" "shape (fst st) = shape s"
  shows "\<exists>st'. fold_opt (on_ent func) (takeWhile (\<lambda>n. o_pos s n AX \<ge> lo) (rev ys)) st = Some st' \<and>
    shape (fst st') = shape s \<and> range_prev lo func (last_or None ys) st = Some st'"
  using assms
proof (induction ys arbitrary: q st rule: rev_induct)
  case Nil
  then show ?case by (simp add: range_prev.simps [of lo func None])
next
  case (snoc n ys)
  have cmp: "o_pos (fst st) n AX = o_pos s n AX" using shape_fields(7) [OF snoc.prems(3)] by simp
  show ?case
  proof (cases "o_pos s n AX \<ge> lo")
    case False
    then show ?thesis using snoc.prems(3) cmp by (simp add: range_prev.simps [of lo func "Some n"] last_or_snoc)
  next
    case True
    obtain st1 where st1: "on_ent func n st = Some st1" "shape (fst st1) = shape s"
      using keepsD [OF snoc.prems(2) _ snoc.prems(3), of n] by auto
    have "keeps s (set ys) (on_ent func)" by (rule keeps_mono [OF snoc.prems(2)]) auto
    from snoc.IH [OF _ this st1(2), of "Some n"] snoc.prems(1)
    obtain st' where "fold_opt (on_ent func) (takeWhile (\<lambda>n. o_pos s n AX \<ge> lo) (rev ys)) st1 = Some st'"
      "shape (fst st') = shape s" "range_prev lo func (last_or None ys) st1 = Some st'" by (auto simp: seg_append)
    moreover have "o_prev (fst st1) AX n = last_or None ys"
      using snoc.prems(1) by (simp add: shape_fields [OF st1(2)] seg_append)
    ultimately show ?thesis
      using True cmp st1 unfolding on_ent_def
      by (simp add: range_prev.simps [of lo func "Some n"] on_ent_def last_or_snoc)
  qed
qed

definition in_range :: "orth \<Rightarrow> int \<Rightarrow> int \<Rightarrow> node list \<Rightarrow> node list \<Rightarrow> int list" where
  "in_range s x v A B = map owner (filter (\<lambda>n. ctype n = CT_ENTITY)
     (takeWhile (\<lambda>n. o_pos s n AX \<ge> x - v) (rev A) @ takeWhile (\<lambda>n. o_pos s n AX \<le> x + v) B))"

lemma each_range_run:
  assumes "alinked (fst st) AX (A @ c # B)" "keeps (fst st) (set (A @ B)) (on_ent func)"
  shows "\<exists>st'. ol_each_range_entity c v func st = Some st' \<and> shape (fst st') = shape (fst st) \<and>
    fold_opt func (in_range (fst st) (o_pos (fst st) c AX) v A B) st = Some st'"
proof -
  let ?s = "fst st"
  have sg: "seg (o_next ?s AX) (o_prev ?s AX) None A (Some c)" "seg (o_next ?s AX) (o_prev ?s AX) (Some c) B None"
    and at: "o_prev ?s AX c = last_or None A" "o_next ?s AX c = hd_or None B"
    using assms(1) by (simp_all add: alinked_def linked_def seg_append)
  have kA: "keeps ?s (set A) (on_ent func)" and kB: "keeps ?s (set B) (on_ent func)"
    by (rule keeps_mono [OF assms(2)]; auto)+
  obtain st1 where st1: "fold_opt (on_ent func) (takeWhile (\<lambda>n. o_pos ?s n AX \<ge> o_pos ?s c AX - v) (rev A)) st = Some st1"
    "shape (fst st1) = shape ?s" "range_prev (o_pos ?s c AX - v) func (last_or None A) st = Some st1"
    using range_prev_run [OF sg(1) kA refl] by blast
  obtain st2 where st2: "fold_opt (on_ent func) (takeWhile (\<lambda>n. o_pos ?s n AX \<le> o_pos ?s c AX + v) B) st1 = Some st2"
    "shape (fst st2) = shape ?s" "range_next (o_pos ?s c AX + v) func (hd_or None B) st1 = Some st2"
    using range_next_run [OF sg(2) kB st1(2)] by blast
  have "fold_opt func (in_range ?s (o_pos ?s c AX) v A B) st = Some st2"
    unfolding in_range_def fold_on_ent [symmetric] fold_opt_append using st1(1) st2(1) by simp
  moreover have "ol_each_range_entity c v func st = Some st2"
    using st1 st2 at by (simp add: ol_each_range_entity_def shape_fields [OF st1(2)])
  ultimately show ?thesis using st2(2) by blast
qed

text \<open>On a sorted axis the two loops stop exactly where the range ends.\<close>

lemma takeWhile_sorted:
  "sorted_wrt (\<lambda>m n. (k m :: int) \<le> k n) xs \<Longrightarrow> takeWhile (\<lambda>n. k n \<le> hi) xs = filter (\<lambda>n. k n \<le> hi) xs"
proof (induction xs)
  case (Cons n xs)
  show ?case
  proof (cases "k n \<le> hi")
    case False
    then have "\<forall>m\<in>set xs. \<not> k m \<le> hi" using Cons.prems by fastforce
    then show ?thesis using False by (simp add: filter_False)
  qed (use Cons in simp)
qed simp

lemma osorted_pos: "osorted (okey s a) xs \<Longrightarrow> sorted_wrt (\<lambda>m n. o_pos s m a \<le> o_pos s n a) xs"
  unfolding osorted_def
proof (rule sorted_wrt_mono_rel)
  fix m n assume "okey s a m \<le> okey s a n"
  then show "o_pos s m a \<le> o_pos s n a"
    using type_no_bounds [of "ctype m"] type_no_bounds [of "ctype n"] by (simp add: okey_def)
qed

lemma in_range_set:
  assumes srt: "osorted (okey s AX) (A @ c # B)" and d: "distinct (A @ c # B)"
  shows "distinct (in_range s (o_pos s c AX) v A B)"
    "set (in_range s (o_pos s c AX) v A B) =
       {w. Ent w \<in> set (A @ c # B) \<and> Ent w \<noteq> c \<and> \<bar>o_pos s c AX - o_pos s (Ent w) AX\<bar> \<le> v}"
proof -
  let ?x = "o_pos s c AX"
  note ps = osorted_pos [OF srt]
  have sB: "sorted_wrt (\<lambda>m n. o_pos s m AX \<le> o_pos s n AX) B" and sA: "sorted_wrt (\<lambda>m n. o_pos s m AX \<le> o_pos s n AX) A"
    and mid: "\<And>n. n \<in> set A \<Longrightarrow> o_pos s n AX \<le> ?x" "\<And>n. n \<in> set B \<Longrightarrow> ?x \<le> o_pos s n AX"
    using ps by (auto simp: sorted_wrt_append)
  have "sorted_wrt (\<lambda>m n. - o_pos s m AX \<le> - o_pos s n AX) (rev A)"
    using sA by (simp add: sorted_wrt_rev)
  then have tA: "takeWhile (\<lambda>n. o_pos s n AX \<ge> ?x - v) (rev A) = filter (\<lambda>n. o_pos s n AX \<ge> ?x - v) (rev A)"
  proof -
    have "(- o_pos s n AX \<le> - (?x - v)) = (?x - v \<le> o_pos s n AX)" for n by linarith
    then show ?thesis
      using takeWhile_sorted [of "\<lambda>n. - o_pos s n AX" "rev A" "- (?x - v)"] \<open>sorted_wrt _ (rev A)\<close> by simp
  qed
  note tB = takeWhile_sorted [OF sB, of "?x + v"]
  let ?L = "filter (\<lambda>n. ctype n = CT_ENTITY) (filter (\<lambda>n. o_pos s n AX \<ge> ?x - v) (rev A) @ filter (\<lambda>n. o_pos s n AX \<le> ?x + v) B)"
  have L: "in_range s ?x v A B = map owner ?L" unfolding in_range_def tA tB ..
  have "inj_on owner {n. ctype n = CT_ENTITY}" by (metis (mono_tags, lifting) inj_onI mem_Collect_eq node.expand)
  then have "inj_on owner (set ?L)" by (rule inj_on_subset) auto
  then show "distinct (in_range s ?x v A B)" unfolding L distinct_map using d by auto
  have setL: "n \<in> set ?L \<longleftrightarrow> ctype n = CT_ENTITY \<and> n \<in> set (A @ c # B) \<and> n \<noteq> c \<and> \<bar>?x - o_pos s n AX\<bar> \<le> v" for n
    using mid(1) [of n] mid(2) [of n] d by auto
  show "set (in_range s ?x v A B) = {w. Ent w \<in> set (A @ c # B) \<and> Ent w \<noteq> c \<and> \<bar>?x - o_pos s (Ent w) AX\<bar> \<le> v}"
  proof (intro set_eqI)
    fix w
    have "w \<in> set (in_range s ?x v A B) \<longleftrightarrow> Ent w \<in> set ?L"
      unfolding L set_map
    proof
      assume "w \<in> owner ` set ?L"
      then obtain n where n: "w = owner n" "n \<in> set ?L" by (rule imageE)
      have "ctype n = CT_ENTITY" using n(2) unfolding setL by simp
      then have "n = Ent w" using n(1) by (cases n) simp
      then show "Ent w \<in> set ?L" using n(2) by simp
    next
      assume "Ent w \<in> set ?L"
      then have "owner (Ent w) \<in> owner ` set ?L" by (rule imageI)
      then show "w \<in> owner ` set ?L" by simp
    qed
    then show "w \<in> set (in_range s ?x v A B) \<longleftrightarrow>
        w \<in> {w. Ent w \<in> set (A @ c # B) \<and> Ent w \<noteq> c \<and> \<bar>?x - o_pos s (Ent w) AX\<bar> \<le> v}"
      unfolding setL by simp
  qed
qed

end
