(* ===== verification/OrthListCorrect.thy ===== *)
theory OrthListCorrect
  imports OrthAxes
begin

declare split_paired_All [simp del] split_paired_Ex [simp del]

text \<open>
  The orthogonal lists are correct: every operation of \<open>OrthList\<close> returns, none of its
  assertions fails, and it leaves each axis' list sorted, linked both ways and made of exactly
  the nodes of the entities in the scene.
\<close>

section \<open>The invariant\<close>

definition used :: "orth \<Rightarrow> axis \<Rightarrow> bool" where
  "used s a \<longleftrightarrow> a = AY \<longrightarrow> o_use_y s"

definition nodes_of :: "orth \<Rightarrow> node set" where
  "nodes_of s = {n. \<exists>c. o_heap s (owner n) = Some c \<and> (ctype n = CT_ENTITY \<or> has_visual c)}"

definition hidden_of :: "orth \<Rightarrow> node set" where
  "hidden_of s = {n. \<exists>c. o_heap s (owner n) = Some c \<and> ctype n \<noteq> CT_ENTITY \<and> \<not> has_visual c}"

definition views_ok :: "orth \<Rightarrow> bool" where
  "views_ok s \<longleftrightarrow> (\<forall>e c a. o_heap s e = Some c \<longrightarrow> has_visual c \<longrightarrow>
     o_pos s (PrevV e) a = o_pos s (Ent e) a - e_visual c \<and> o_pos s (NextV e) a = o_pos s (Ent e) a + e_visual c)"

definition orth_ok :: "orth \<Rightarrow> bool" where
  "orth_ok s \<longleftrightarrow> (\<forall>e. e \<in> o_set s \<longleftrightarrow> o_heap s e \<noteq> None) \<and>
     (\<forall>a. used s a \<longrightarrow> axis_ok s a (nodes_of s) (hidden_of s)) \<and> views_ok s"

text \<open>The marks of the entities never run ahead of the counter.\<close>

definition marks_le :: "32 word \<Rightarrow> orth \<Rightarrow> bool" where
  "marks_le w s \<longleftrightarrow> (\<forall>e c. o_heap s e = Some c \<longrightarrow> unat (e_mark c) \<le> unat w + 1)"

definition marks_ok :: "orth \<Rightarrow> bool" where
  "marks_ok s \<longleftrightarrow> o_use_y s \<and> 3 dvd unat (o_now s) \<and> marks_le (o_now s) s"

lemma nodes_hidden: "hidden_of s \<inter> nodes_of s = {}"
  by (auto simp: nodes_of_def hidden_of_def)

lemma nodes_live: "n \<in> nodes_of s \<Longrightarrow> o_heap s (owner n) \<noteq> None"
  by (auto simp: nodes_of_def)

lemma core_nodes:
  assumes "core s = core t"
  shows "nodes_of s = nodes_of t" "hidden_of s = hidden_of t" "used s = used t" "views_ok s = views_ok t"
proof -
  have h: "(\<exists>c. o_heap s e = Some c \<and> Q c) = (\<exists>c. o_heap t e = Some c \<and> Q c)"
    and v: "(\<forall>c. o_heap s e = Some c \<longrightarrow> Q c) = (\<forall>c. o_heap t e = Some c \<longrightarrow> Q c)"
    if that: "\<And>c d. e_mask c = e_mask d \<Longrightarrow> e_visual c = e_visual d \<Longrightarrow> Q c = Q d" for e and Q :: "entity \<Rightarrow> bool"
  proof -
    have "(\<exists>c. o_heap s e = Some c \<and> Q c) = (\<exists>c. o_heap t e = Some c \<and> Q c) \<and>
      (\<forall>c. o_heap s e = Some c \<longrightarrow> Q c) = (\<forall>c. o_heap t e = Some c \<longrightarrow> Q c)"
    proof (cases "o_heap t e")
      case None
      then show ?thesis using core_dom [OF assms, of e] by simp
    next
      case (Some d)
      obtain c where "o_heap s e = Some c" "e_mask c = e_mask d" "e_visual c = e_visual d"
        using core_ent [OF assms Some] by blast
      then show ?thesis using Some that [of c d] by simp
    qed
    then show "(\<exists>c. o_heap s e = Some c \<and> Q c) = (\<exists>c. o_heap t e = Some c \<and> Q c)"
      "(\<forall>c. o_heap s e = Some c \<longrightarrow> Q c) = (\<forall>c. o_heap t e = Some c \<longrightarrow> Q c)" by blast+
  qed
  show "nodes_of s = nodes_of t" unfolding nodes_of_def
    by (intro Collect_cong h) (simp add: has_visual_def wants_def)
  show "hidden_of s = hidden_of t" unfolding hidden_of_def
    by (intro Collect_cong h) (simp add: has_visual_def wants_def)
  show "used s = used t" by (simp add: used_def fun_eq_iff core_fields [OF assms])
  have "(\<forall>c. o_heap s e = Some c \<longrightarrow> (\<forall>a. has_visual c \<longrightarrow> o_pos t (PrevV e) a = o_pos t (Ent e) a - e_visual c \<and>
      o_pos t (NextV e) a = o_pos t (Ent e) a + e_visual c)) =
    (\<forall>c. o_heap t e = Some c \<longrightarrow> (\<forall>a. has_visual c \<longrightarrow> o_pos t (PrevV e) a = o_pos t (Ent e) a - e_visual c \<and>
      o_pos t (NextV e) a = o_pos t (Ent e) a + e_visual c))" for e
    by (rule v) (simp add: has_visual_def wants_def)
  then show "views_ok s = views_ok t"
    unfolding views_ok_def core_fields(3) [OF assms] by blast
qed

section \<open>All axes in turn\<close>

lemma all_axes_chain:
  assumes step: "\<And>a st. used (fst st) a \<Longrightarrow> core (fst st) = core s \<Longrightarrow> I a st \<Longrightarrow> Pre a (fst st) \<Longrightarrow>
      \<exists>st'. f a st = Some st' \<and> I' a st' \<and> Post a (fst st') \<and> core (fst st') = core (fst st) \<and> off_axis a (fst st) (fst st')"
    and pre: "\<And>b s t. Pre b s \<Longrightarrow> core t = core s \<Longrightarrow> on_axis b s t \<Longrightarrow> Pre b t"
    and post: "\<And>b s t. Post b s \<Longrightarrow> core t = core s \<Longrightarrow> on_axis b s t \<Longrightarrow> Post b t"
    and st: "core (fst st) = core s" "I AX st" "\<And>a. used s a \<Longrightarrow> Pre a (fst st)"
    and chain: "\<And>st. I' AX st \<Longrightarrow> if used s AY then I AY st else I AZ st" "\<And>st. used s AY \<Longrightarrow> I' AY st \<Longrightarrow> I AZ st"
  shows "\<exists>st'. all_axes f st = Some st' \<and> I' AZ st' \<and> core (fst st') = core s \<and> (\<forall>a. used s a \<longrightarrow> Post a (fst st'))"
proof -
  have u: "used t = used s" if "core t = core s" for t using core_nodes(3) [OF that] .
  have ux: "used s AX" "used s AZ" by (simp_all add: used_def)
  obtain st1 where 1: "f AX st = Some st1" "I' AX st1" "Post AX (fst st1)" "core (fst st1) = core s" "off_axis AX (fst st) (fst st1)"
    using step [OF _ st(1), of AX] st(1,2) st(3) [OF ux(1)] ux(1) u [OF st(1)] by auto
  have on1: "on_axis b (fst st) (fst st1)" if "b \<noteq> AX" for b using 1(5) that by (simp add: off_axis_def)
  have y: "o_use_y (fst st1) = used s AY"
    using core_fields(1) [OF 1(4)] by (simp add: used_def)
  obtain st2 where 2: "(if o_use_y (fst st1) then f AY st1 else Some st1) = Some st2" "I AZ st2" "core (fst st2) = core s"
    "used s AY \<Longrightarrow> Post AY (fst st2)" "off_axis AY (fst st1) (fst st2)"
  proof (cases "used s AY")
    case True
    have "Pre AY (fst st1)" by (rule pre [OF st(3) [OF True]]) (use 1(4) st(1) on1 in auto)
    then obtain st2 where "f AY st1 = Some st2" "I' AY st2" "core (fst st2) = core (fst st1)" "Post AY (fst st2)"
      "off_axis AY (fst st1) (fst st2)"
      using step [OF _ 1(4), of AY] chain(1) [OF 1(2)] True u [OF 1(4)] by auto
    then show ?thesis using that 1(4) True y chain(2) by simp
  next
    case False
    then show ?thesis using that [of st1] y 1 chain(1) [OF 1(2)] by simp
  qed
  have on2: "on_axis b (fst st1) (fst st2)" if "b \<noteq> AY" for b using 2(5) that by (simp add: off_axis_def)
  have "Pre AZ (fst st1)" by (rule pre [OF st(3) [OF ux(2)]]) (use 1(4) st(1) on1 in auto)
  then have "Pre AZ (fst st2)" by (rule pre) (use 1(4) 2(3) on2 in auto)
  then obtain st3 where 3: "f AZ st2 = Some st3" "I' AZ st3" "Post AZ (fst st3)" "core (fst st3) = core s" "off_axis AZ (fst st2) (fst st3)"
    using step [OF _ 2(3), of AZ] 2(2,3) ux(2) u [OF 2(3)] by auto
  have on3: "on_axis b (fst st2) (fst st3)" if "b \<noteq> AZ" for b using 3(5) that by (simp add: off_axis_def)
  have "Post a (fst st3)" if "used s a" for a
  proof (cases a)
    case AX
    have "Post AX (fst st2)" by (rule post [OF 1(3)]) (use 1(4) 2(3) on2 in auto)
    then show ?thesis unfolding AX by (rule post) (use 3(4) 2(3) on3 in auto)
  next
    case AY
    have "Post AY (fst st2)" using 2(4) that AY by simp
    then show ?thesis unfolding AY by (rule post) (use 3(4) 2(3) on3 in auto)
  next
    case AZ
    then show ?thesis using 3(3) by simp
  qed
  then show ?thesis using 1(1) 2(1) 3 by (auto simp: all_axes_def)
qed

lemma all_axes_run:
  assumes "\<And>a st. used (fst st) a \<Longrightarrow> core (fst st) = core s \<Longrightarrow> (if a = AX then I0 st else I1 st) \<Longrightarrow>
      Pre a (fst st) \<Longrightarrow>
      \<exists>st'. f a st = Some st' \<and> I1 st' \<and> Post a (fst st') \<and> core (fst st') = core (fst st) \<and> off_axis a (fst st) (fst st')"
    and "\<And>b s t. Pre b s \<Longrightarrow> core t = core s \<Longrightarrow> on_axis b s t \<Longrightarrow> Pre b t"
    and "\<And>b s t. Post b s \<Longrightarrow> core t = core s \<Longrightarrow> on_axis b s t \<Longrightarrow> Post b t"
    and "core (fst st) = core s" "I0 st" "\<And>a. used s a \<Longrightarrow> Pre a (fst st)"
  shows "\<exists>st'. all_axes f st = Some st' \<and> I1 st' \<and> core (fst st') = core s \<and> (\<forall>a. used s a \<longrightarrow> Post a (fst st'))"
proof (rule all_axes_chain [where I = "\<lambda>a. if a = AX then I0 else I1" and I' = "\<lambda>_. I1" and Pre = Pre and Post = Post])
  fix a and st :: st
  assume "used (fst st) a" "core (fst st) = core s" "(if a = AX then I0 else I1) st" "Pre a (fst st)"
  then show "\<exists>st'. f a st = Some st' \<and> I1 st' \<and> Post a (fst st') \<and> core (fst st') = core (fst st) \<and> off_axis a (fst st) (fst st')"
    by (intro assms(1)) (simp_all split: if_splits)
qed (use assms(2-) in auto)

section \<open>Entering the scene\<close>

definition enter_state :: "int \<Rightarrow> int \<Rightarrow> int \<Rightarrow> int \<Rightarrow> int \<Rightarrow> 8 word \<Rightarrow> orth \<Rightarrow> orth" where
  "enter_state e x y z v m s = update_mark (s\<lparr>
     o_set := insert e (o_set s),
     o_heap := (o_heap s)(e \<mapsto> \<lparr>e_mask = m, e_mark = 0, e_visual = v, e_old_visual = 0, e_interest = []\<rparr>),
     o_pos := (\<lambda>n. if n = Ent e then point x y z else if n = PrevV e then (\<lambda>a. point x y z a - v)
                   else if n = NextV e then (\<lambda>a. point x y z a + v) else o_pos s n),
     o_old := (\<lambda>n. if n \<in> own e then (\<lambda>_. 0) else o_old s n),
     o_next := (\<lambda>a n. if n \<in> own e then None else o_next s a n),
     o_prev := (\<lambda>a n. if n \<in> own e then None else o_prev s a n)\<rparr>)"

lemma node_cases: "n = Ent (owner n) \<or> n = PrevV (owner n) \<or> n = NextV (owner n)"
  by (cases n; cases "ctype n") auto

lemma enter_run:
  assumes "e \<notin> o_set s"
  shows "ol_enter_entity e x y z v m (s, out) =
    Option.bind (all_axes (\<lambda>a. ol_insert_entity a e (if a = AX then enter_func e else (\<lambda>_. Some)))
      (enter_state e x y z v m s, out)) (\<lambda>st. Some (True, st))"
proof -
  define c where "c = \<lparr>e_mask = 0, e_mark = 0, e_visual = 0, e_old_visual = 0, e_interest = []\<rparr>"
  define s1 where "s1 = new_entity_ctx e (s\<lparr>o_set := insert e (o_set s)\<rparr>)"
  have c1: "o_heap s1 e = Some c" by (simp add: s1_def new_entity_ctx_def c_def ctx_reset_def)
  define s2 where "s2 = update_pos (Ent e) (point x y z) (set_ent e (c\<lparr>e_mask := m\<rparr>) s1)"
  obtain s3 where s3: "ec_update_visual e v s2 = Some s3"
    by (auto simp: ec_update_visual_def s2_def update_pos_def update_old_pos_def set_ent_def Let_def)
  have "update_mark s3 = enter_state e x y z v m s"
  proof -
    have "s3 = s\<lparr>o_set := insert e (o_set s),
       o_heap := (o_heap s)(e \<mapsto> \<lparr>e_mask = m, e_mark = 0, e_visual = v, e_old_visual = 0, e_interest = []\<rparr>),
       o_pos := (\<lambda>n. if n = Ent e then point x y z else if n = PrevV e then (\<lambda>a. point x y z a - v)
                     else if n = NextV e then (\<lambda>a. point x y z a + v) else o_pos s n),
       o_old := (\<lambda>n. if n \<in> own e then (\<lambda>_. 0) else o_old s n),
       o_next := (\<lambda>a n. if n \<in> own e then None else o_next s a n),
       o_prev := (\<lambda>a n. if n \<in> own e then None else o_prev s a n)\<rparr>"
      using s3
      by (auto simp: own_def ec_update_visual_def s2_def s1_def c_def update_pos_def update_old_pos_def set_ent_def
          new_entity_ctx_def ctx_reset_def Let_def fun_eq_iff intro!: orth.equality)
    then show ?thesis by (simp add: enter_state_def)
  qed
  then show ?thesis
    using assms c1 s3 unfolding ol_enter_entity_def s1_def [symmetric]
    by (simp add: Let_def s2_def [symmetric] flip: s1_def)
qed

lemma update_mark_core_fields [simp]:
  "o_use_y (update_mark s) = o_use_y s" "o_first (update_mark s) = o_first s" "o_next (update_mark s) = o_next s"
  "o_prev (update_mark s) = o_prev s" "o_pos (update_mark s) = o_pos s" "o_old (update_mark s) = o_old s"
  "o_set (update_mark s) = o_set s"
  by (simp_all add: update_mark_def Let_def)

lemma update_mark_heap:
  "o_heap (update_mark s) e = (if o_now s \<ge> 0xFFFFFFFF - 3 \<and> e \<in> o_set s
     then map_option (e_mark_update (\<lambda>_. 0)) (o_heap s e) else o_heap s e)"
  by (simp add: update_mark_def Let_def)

lemma update_mark_ent:
  assumes "o_heap s e = Some c"
  obtains m where "o_heap (update_mark s) e = Some (c\<lparr>e_mark := m\<rparr>)"
proof (cases "o_now s \<ge> 0xFFFFFFFF - 3 \<and> e \<in> o_set s")
  case True
  then show ?thesis using assms that [of 0] by (simp add: update_mark_heap)
next
  case False
  then show ?thesis using assms that [of "e_mark c"] by (auto simp: update_mark_heap)
qed

lemma okey_own:
  assumes "o_pos s (PrevV e) a = o_pos s (Ent e) a - v" "o_pos s (NextV e) a = o_pos s (Ent e) a + v" "v > 0"
  shows "okey s a (PrevV e) < okey s a (Ent e)" "okey s a (Ent e) < okey s a (NextV e)"
  using assms by (simp_all add: okey_def)

definition new_ent :: "int \<Rightarrow> 8 word \<Rightarrow> entity" where
  "new_ent v m = \<lparr>e_mask = m, e_mark = 0, e_visual = v, e_old_visual = 0, e_interest = []\<rparr>"

lemma enter_fields:
  "o_use_y (enter_state e x y z v m s) = o_use_y s" "o_set (enter_state e x y z v m s) = insert e (o_set s)" "o_first (enter_state e x y z v m s) = o_first s"
  "n \<notin> own e \<Longrightarrow> o_next (enter_state e x y z v m s) a n = o_next s a n \<and> o_prev (enter_state e x y z v m s) a n = o_prev s a n \<and> o_pos (enter_state e x y z v m s) n = o_pos s n"
  "n \<in> own e \<Longrightarrow> o_next (enter_state e x y z v m s) a n = None \<and> o_prev (enter_state e x y z v m s) a n = None"
  "o_pos (enter_state e x y z v m s) (Ent e) = point x y z" "o_pos (enter_state e x y z v m s) (PrevV e) a = o_pos (enter_state e x y z v m s) (Ent e) a - v"
  "o_pos (enter_state e x y z v m s) (NextV e) a = o_pos (enter_state e x y z v m s) (Ent e) a + v" "used (enter_state e x y z v m s) = used s"
  by (auto simp: enter_state_def own_def used_def fun_eq_iff)

lemma enter_heap_new: "o_heap (enter_state e x y z v m s) e = Some (new_ent v m)"
  by (simp add: new_ent_def enter_state_def update_mark_heap)

lemma heap_new:
  assumes ok: "orth_ok s" and new: "e \<notin> o_set s"
  shows "o_heap s e = None"
  using ok new by (simp add: orth_ok_def)

lemma enter_heap_old:
  assumes "e' \<noteq> e"
  shows "map_option (\<lambda>c. (e_mask c, e_visual c, e_old_visual c, e_interest c)) (o_heap (enter_state e x y z v m s) e') =
    map_option (\<lambda>c. (e_mask c, e_visual c, e_old_visual c, e_interest c)) (o_heap s e')"
  using assms by (cases "o_heap s e'") (auto simp: enter_state_def update_mark_heap)

lemma enter_nodes:
  assumes ok: "orth_ok s" and new: "e \<notin> o_set s"
  shows   "nodes_of (enter_state e x y z v m s) = nodes_of s \<union> (if has_visual (new_ent v m) then own e else {Ent e})"
  "hidden_of (enter_state e x y z v m s) = hidden_of s \<union> (if has_visual (new_ent v m) then {} else {PrevV e, NextV e})"
proof -
  have h: "(\<exists>d. o_heap (enter_state e x y z v m s) (owner n) = Some d \<and> Q d) \<longleftrightarrow>
      (if owner n = e then Q (new_ent v m) else (\<exists>d. o_heap s (owner n) = Some d \<and> Q d))"
    if that: "\<And>c d. e_mask c = e_mask d \<Longrightarrow> e_visual c = e_visual d \<Longrightarrow> Q c = Q d" for n and Q :: "entity \<Rightarrow> bool"
  proof (cases "owner n = e")
    case False
    then have *: "map_option (\<lambda>c. (e_mask c, e_visual c, e_old_visual c, e_interest c)) (o_heap (enter_state e x y z v m s) (owner n)) =
        map_option (\<lambda>c. (e_mask c, e_visual c, e_old_visual c, e_interest c)) (o_heap s (owner n))"
      by (rule enter_heap_old)
    show ?thesis
    proof (cases "o_heap s (owner n)")
      case None
      then show ?thesis using * False by simp
    next
      case (Some d)
      then obtain d' where "o_heap (enter_state e x y z v m s) (owner n) = Some d'" "e_mask d' = e_mask d" "e_visual d' = e_visual d"
        using * by (cases "o_heap (enter_state e x y z v m s) (owner n)") auto
      then show ?thesis using Some that [of d' d] False by simp
    qed
  qed (simp add: enter_heap_new)
  have hv: "(ctype n = CT_ENTITY \<or> has_visual c') = (ctype n = CT_ENTITY \<or> has_visual d')"
    "(ctype n \<noteq> CT_ENTITY \<and> \<not> has_visual c') = (ctype n \<noteq> CT_ENTITY \<and> \<not> has_visual d')"
    if "e_mask c' = e_mask d'" "e_visual c' = e_visual d'" for n c' d'
    using has_visual_cong [OF that] by simp_all
  have n1: "n \<in> nodes_of (enter_state e x y z v m s) \<longleftrightarrow>
      (if owner n = e then ctype n = CT_ENTITY \<or> has_visual (new_ent v m) else n \<in> nodes_of s)" for n
    unfolding nodes_of_def mem_Collect_eq by (rule h [of "\<lambda>c. ctype n = CT_ENTITY \<or> has_visual c"], rule hv(1))
  have n2: "n \<in> hidden_of (enter_state e x y z v m s) \<longleftrightarrow>
      (if owner n = e then ctype n \<noteq> CT_ENTITY \<and> \<not> has_visual (new_ent v m) else n \<in> hidden_of s)" for n
    unfolding hidden_of_def mem_Collect_eq
    by (rule h [of "\<lambda>c. ctype n \<noteq> CT_ENTITY \<and> \<not> has_visual c"], rule hv(2))
  have none: "n \<notin> nodes_of s" "n \<notin> hidden_of s" if "owner n = e" for n
    using that heap_new [OF ok new] by (simp_all add: nodes_of_def hidden_of_def)
  have kind: "n = Ent e \<longleftrightarrow> ctype n = CT_ENTITY" if "owner n = e" for n
    using that by (cases n) auto
  have kinds: "n \<in> {PrevV e, NextV e} \<longleftrightarrow> ctype n \<noteq> CT_ENTITY" if "owner n = e" for n
    using that by (cases n; cases "ctype n") auto
  have "n \<in> nodes_of (enter_state e x y z v m s) \<longleftrightarrow>
      n \<in> nodes_of s \<union> (if has_visual (new_ent v m) then own e else {Ent e})" for n
    using n1 [of n] none(1) [of n] kind [of n] by (cases "owner n = e") (auto simp: own_iff)
  then show "nodes_of (enter_state e x y z v m s) = nodes_of s \<union> (if has_visual (new_ent v m) then own e else {Ent e})"
    by blast
  have "n \<in> hidden_of (enter_state e x y z v m s) \<longleftrightarrow>
      n \<in> hidden_of s \<union> (if has_visual (new_ent v m) then {} else {PrevV e, NextV e})" for n
    using n2 [of n] none(2) [of n] kinds [of n] by (cases "owner n = e") auto
  then show "hidden_of (enter_state e x y z v m s) = hidden_of s \<union> (if has_visual (new_ent v m) then {} else {PrevV e, NextV e})"
    by blast
qed

lemma enter_fresh:
  assumes ok: "orth_ok s" and new: "e \<notin> o_set s"
  shows "n \<in> nodes_of s \<union> hidden_of s \<Longrightarrow> n \<notin> own e"
  using heap_new [OF ok new] by (auto simp: nodes_of_def hidden_of_def own_iff)

lemma enter_axis:
  assumes ok: "orth_ok s" and new: "e \<notin> o_set s" and us: "used s a"
  shows "axis_ok (enter_state e x y z v m s) a (nodes_of s) (hidden_of s \<union> own e)"
proof -
  obtain X where X: "alinked s a X" "set X = nodes_of s" "osorted (okey s a) X"
    using ok us unfolding orth_ok_def axis_ok_def by blast
  have nw: "n \<notin> own e" if "n \<in> set X" for n using enter_fresh [OF ok new] that X(2) by blast
  have "alinked (enter_state e x y z v m s) a X"
    using X(1) linked_cong [of X "o_next (enter_state e x y z v m s) a" "o_next s a" "o_prev (enter_state e x y z v m s) a" "o_prev s a" "o_first s a"] nw enter_fields(3,4)
    unfolding alinked_def by auto
  moreover have "osorted (okey (enter_state e x y z v m s) a) X"
    using X(3) osorted_cong [of X "okey (enter_state e x y z v m s) a" "okey s a"] nw enter_fields(4) by (auto simp: okey_def)
  moreover have "o_next (enter_state e x y z v m s) a n = None \<and> o_prev (enter_state e x y z v m s) a n = None" if "n \<in> hidden_of s \<union> own e" for n
  proof (cases "n \<in> own e")
    case False
    then have "n \<in> hidden_of s" using that by blast
    moreover have "\<forall>n\<in>hidden_of s. o_next s a n = None \<and> o_prev s a n = None"
      using ok us unfolding orth_ok_def axis_ok_def by blast
    ultimately show ?thesis using enter_fields(4) [OF False] by auto
  qed (use enter_fields(5) in blast)
  ultimately show ?thesis using X(2) unfolding axis_ok_def by blast
qed

lemma enter_views:
  assumes ok: "orth_ok s" and new: "e \<notin> o_set s"
  shows "views_ok (enter_state e x y z v m s)"
  unfolding views_ok_def
proof (intro allI impI)
  fix e' c' a assume *: "o_heap (enter_state e x y z v m s) e' = Some c'" "has_visual c'"
  show "o_pos (enter_state e x y z v m s) (PrevV e') a = o_pos (enter_state e x y z v m s) (Ent e') a - e_visual c' \<and> o_pos (enter_state e x y z v m s) (NextV e') a = o_pos (enter_state e x y z v m s) (Ent e') a + e_visual c'"
  proof (cases "e' = e")
    case True
    then show ?thesis using * enter_heap_new enter_fields(7,8) by (auto simp: new_ent_def)
  next
    case False
    then obtain d where d: "o_heap s e' = Some d" "e_mask d = e_mask c'" "e_visual d = e_visual c'"
      using enter_heap_old [OF False, of x y z v m s] *(1) by (cases "o_heap s e'") auto
    have "Ent e' \<notin> own e" "PrevV e' \<notin> own e" "NextV e' \<notin> own e" using False by (auto simp: own_def)
    then have p: "o_pos (enter_state e x y z v m s) (Ent e') = o_pos s (Ent e')" "o_pos (enter_state e x y z v m s) (PrevV e') = o_pos s (PrevV e')"
      "o_pos (enter_state e x y z v m s) (NextV e') = o_pos s (NextV e')" using enter_fields(4) by blast+
    have "has_visual d" using *(2) has_visual_cong d by metis
    then show ?thesis using ok d(1) unfolding orth_ok_def views_ok_def p d(3) [symmetric] by blast
  qed
qed

lemma enter_keys:
  "v > 0 \<Longrightarrow> okey (enter_state e x y z v m s) a (PrevV e) < okey (enter_state e x y z v m s) a (Ent e)" "v > 0 \<Longrightarrow> okey (enter_state e x y z v m s) a (Ent e) < okey (enter_state e x y z v m s) a (NextV e)"
  by (rule okey_own [OF enter_fields(7,8)]; simp)+

lemma enter_live:
  assumes ok: "orth_ok s" and new: "e \<notin> o_set s"
  shows "n \<in> nodes_of s \<union> own e \<Longrightarrow> o_heap (enter_state e x y z v m s) (owner n) \<noteq> None"
  using enter_nodes(1) [OF ok new] nodes_live [of n "enter_state e x y z v m s"] enter_heap_new by (auto simp: own_iff)

text \<open>What the callback of the x axis was called on: all that is left of the last node inserted.\<close>

definition called_on :: "orth \<Rightarrow> node \<Rightarrow> node list \<Rightarrow> bool" where
  "called_on s l D \<longleftrightarrow> (\<exists>S. osorted (okey s AX) (D @ l # S) \<and> set (D @ l # S) = nodes_of s \<and> distinct (D @ l # S))"

lemma insert_axis:
  assumes ok: "orth_ok s" and new: "e \<notin> o_set s" and us: "used s a"
    and st: "core (fst st) = core (enter_state e x y z v m s)"
    and ax: "axis_ok (fst st) a (nodes_of s) (hidden_of s \<union> own e)"
    and k: "keeps (fst st) (nodes_of s \<union> own e) f" and tr: "tracks a f J" "J [] st"
  shows "\<exists>st' D S. ol_insert_entity a e f st = Some st' \<and> J D st' \<and>
    osorted (okey (fst st) a) (D @ (if has_visual (new_ent v m) then NextV e else Ent e) # S) \<and>
    set (D @ (if has_visual (new_ent v m) then NextV e else Ent e) # S) = nodes_of (enter_state e x y z v m s) \<and>
    distinct (D @ (if has_visual (new_ent v m) then NextV e else Ent e) # S) \<and>
    axis_ok (fst st') a (nodes_of (enter_state e x y z v m s)) (hidden_of (enter_state e x y z v m s)) \<and>
    core (fst st') = core (fst st) \<and> off_axis a (fst st) (fst st')"
proof -
  let ?s4 = "enter_state e x y z v m s" and ?c = "new_ent v m"
  obtain c where c: "o_heap (fst st) e = Some c" "e_mask c = e_mask ?c" "e_visual c = e_visual ?c"
    using core_ent [OF st enter_heap_new] by blast
  have hv: "has_visual c = has_visual ?c" by (rule has_visual_cong [OF c(2,3)])
  have dis: "nodes_of s \<inter> own e = {}" "hidden_of s \<inter> own e = {}" using enter_fresh [OF ok new] by blast+
  have hn: "hidden_of s \<inter> nodes_of s = {}" by (rule nodes_hidden)
  have key: "okey (fst st) a (PrevV e) < okey (fst st) a (Ent e)" "okey (fst st) a (Ent e) < okey (fst st) a (NextV e)"
    if "has_visual c"
    using enter_keys [of v] that hv core_fields(6) [OF st] by (simp_all add: has_visual_def new_ent_def)
  have dist: "distinct xs" if "stepped a E xs (fst st) t" for E xs t
    using that unfolding stepped_def alinked_def by (blast dest: linked_distinct)
  show ?thesis
  proof (cases "has_visual c")
    case True
    obtain st' D S where *: "ol_insert_entity a e f st = Some st'" "J D st'"
      "osorted (okey (fst st) a) (D @ NextV e # S)" "set (D @ S) = nodes_of s \<union> {PrevV e, Ent e}"
      "stepped a (nodes_of s \<union> own e) (D @ NextV e # S) (fst st) (fst st')"
      using insert_entity_axis [OF ax dis(1) _ c(1) True key [OF True] k tr] by auto
    have set: "set (D @ NextV e # S) = nodes_of ?s4"
      unfolding enter_nodes(1) [OF ok new] using *(4) hv True by (auto simp: own_def)
    have M: "hidden_of ?s4 = hidden_of s" using enter_nodes(2) [OF ok new] hv True by simp
    have "axis_ok (fst st') a (nodes_of ?s4) (hidden_of ?s4)"
      by (rule stepped_axis_ok [OF *(5) *(3) set ax]) (use M dis hn in auto)
    then show ?thesis using *(1,2,3,5) set dist [OF *(5)] hv True unfolding stepped_def by auto
  next
    case False
    have "Ent e \<notin> nodes_of s" "Ent e \<in> hidden_of s \<union> own e" using dis by (auto simp: own_def)
    then obtain st' D S where *: "ol_insert_entity a e f st = Some st'" "J D st'"
      "osorted (okey (fst st) a) (D @ Ent e # S)" "set (D @ S) = nodes_of s"
      "stepped a (insert (Ent e) (nodes_of s)) (D @ Ent e # S) (fst st) (fst st')"
      using insert_single_axis [OF ax _ _ c(1) False keeps_mono [OF k] tr] by auto
    have set: "set (D @ Ent e # S) = nodes_of ?s4"
      unfolding enter_nodes(1) [OF ok new] using *(4) hv False by auto
    have M: "hidden_of ?s4 = hidden_of s \<union> {PrevV e, NextV e}" using enter_nodes(2) [OF ok new] hv False by simp
    have "axis_ok (fst st') a (nodes_of ?s4) (hidden_of ?s4)"
      by (rule stepped_axis_ok [OF *(5) *(3) set ax]) (use M dis hn in \<open>auto simp: own_def\<close>)
    then show ?thesis using *(1,2,3,5) set dist [OF *(5)] hv False unfolding stepped_def by auto
  qed
qed

lemma orth_ok_core:
  assumes "core t = core s" "\<And>e. e \<in> o_set s \<longleftrightarrow> o_heap s e \<noteq> None" "views_ok s"
    "\<And>a. used s a \<Longrightarrow> axis_ok t a (nodes_of s) (hidden_of s)"
  shows "orth_ok t"
  using assms core_nodes [OF assms(1)] core_fields(5) [OF assms(1)] core_dom [OF assms(1)]
  unfolding orth_ok_def by simp

lemma enter_correct:
  assumes ok: "orth_ok s" and new: "e \<notin> o_set s"
    and tr: "\<And>a. tracks a (enter_func e) J" "J [] (enter_state e x y z v m s, out)"
  shows "\<exists>st' D. ol_enter_entity e x y z v m (s, out) = Some (True, st') \<and> orth_ok (fst st') \<and>
    core (fst st') = core (enter_state e x y z v m s) \<and> J D st' \<and>
    called_on (enter_state e x y z v m s) (if has_visual (new_ent v m) then NextV e else Ent e) D"
proof -
  let ?s4 = "enter_state e x y z v m s" and ?l = "if has_visual (new_ent v m) then NextV e else Ent e"
  let ?f = "\<lambda>a. ol_insert_entity a e (if a = AX then enter_func e else (\<lambda>_. Some))"
  let ?I = "\<lambda>st. \<exists>D. J D st \<and> called_on ?s4 ?l D"
  have us: "used ?s4 = used s" by (rule enter_fields(9))
  have live: "o_heap t (owner n) \<noteq> None" if "n \<in> nodes_of s \<union> own e" "core t = core ?s4" for n t
    using enter_live [OF ok new that(1)] core_dom [OF that(2)] by simp
  have kx: "keeps t (nodes_of s \<union> own e) (enter_func e)" if "core t = core ?s4" for t
    by (rule keeps_enter_func) (use live that own_iff [of "Ent e" e] in force)+
  have trI: "tracks a (\<lambda>_. Some) (\<lambda>_. ?I)" for a
    using tr(1) unfolding tracks_def by blast
  have "\<exists>st'. all_axes ?f (?s4, out) = Some st' \<and> ?I st' \<and> core (fst st') = core ?s4 \<and>
      (\<forall>a. used ?s4 a \<longrightarrow> axis_ok (fst st') a (nodes_of ?s4) (hidden_of ?s4))"
  proof (rule all_axes_run [where Pre = "\<lambda>a t. axis_ok t a (nodes_of s) (hidden_of s \<union> own e)" and ?I0.0 = "J []"])
    fix a and st :: st
    assume a: "used (fst st) a" "core (fst st) = core ?s4" "if a = AX then J [] st else ?I st"
      "axis_ok (fst st) a (nodes_of s) (hidden_of s \<union> own e)"
    have ua: "used s a" using a(1) core_nodes(3) [OF a(2)] us by simp
    note ins = insert_axis [OF ok new ua a(2,4)]
    show "\<exists>st'. ?f a st = Some st' \<and> ?I st' \<and> axis_ok (fst st') a (nodes_of ?s4) (hidden_of ?s4) \<and>
        core (fst st') = core (fst st) \<and> off_axis a (fst st) (fst st')"
    proof (cases "a = AX")
      case True
      have j: "J [] st" using a(3) True by simp
      obtain st' D S where r: "ol_insert_entity a e (enter_func e) st = Some st'" "J D st'"
        "osorted (okey (fst st) a) (D @ ?l # S)" "set (D @ ?l # S) = nodes_of ?s4" "distinct (D @ ?l # S)"
        "axis_ok (fst st') a (nodes_of ?s4) (hidden_of ?s4)" "core (fst st') = core (fst st)" "off_axis a (fst st) (fst st')"
        using ins [OF kx [OF a(2)] tr(1) j] by blast
      have "osorted (okey ?s4 AX) (D @ ?l # S)" using r(3) True core_fields(6) [OF a(2)] by simp
      then have "called_on ?s4 ?l D" unfolding called_on_def using r(4,5) by blast
      then have "?I st'" using r(2) by blast
      then show ?thesis using r(1,6,7,8) True by auto
    next
      case False
      then have j: "?I st" using a(3) by simp
      show ?thesis using ins [OF keeps_Some trI j] False by auto
    qed
  next
    show "axis_ok (fst (?s4, out)) a (nodes_of s) (hidden_of s \<union> own e)" if "used ?s4 a" for a
      using enter_axis [OF ok new] that us by simp
  qed (use axis_ok_on_axis tr(2) in auto)
  then obtain st' where *: "all_axes ?f (?s4, out) = Some st'" "?I st'" "core (fst st') = core ?s4"
    "\<And>a. used ?s4 a \<Longrightarrow> axis_ok (fst st') a (nodes_of ?s4) (hidden_of ?s4)" by blast
  have heap: "e' \<in> o_set ?s4 \<longleftrightarrow> o_heap ?s4 e' \<noteq> None" for e'
  proof (cases "e' = e")
    case False
    have "(o_heap ?s4 e' = None) = (o_heap s e' = None)"
      using enter_heap_old [OF False, of x y z v m s] by (cases "o_heap ?s4 e'"; cases "o_heap s e'") auto
    then show ?thesis using ok False enter_fields(2) by (auto simp: orth_ok_def)
  qed (simp add: enter_heap_new enter_fields(2))
  have "orth_ok (fst st')" by (rule orth_ok_core [OF *(3) heap enter_views [OF ok new] *(4)])
  then show ?thesis using enter_run [OF new] * by auto
qed

section \<open>Leaving the scene\<close>

definition sees :: "orth \<Rightarrow> int \<Rightarrow> int \<Rightarrow> bool" where
  "sees s w e \<longleftrightarrow> (\<exists>c. o_heap s w = Some c \<and> in_visual s w c (o_pos s (Ent e)) (-1))"

definition watches :: "orth \<Rightarrow> int \<Rightarrow> int \<Rightarrow> bool" where
  "watches s w e \<longleftrightarrow> sees s w e \<and> (\<exists>c. o_heap s w = Some c \<and> wants c)"

lemma in_visual_core:
  assumes "core s = core t" "e_visual c = e_visual d"
  shows "in_visual s w c p v = in_visual t w d p v"
  using assms(2) by (simp add: in_visual_def core_fields [OF assms(1)])

lemma sees_core:
  assumes "core s = core t"
  shows "sees s = sees t" "watches s = watches t"
proof -
  have *: "sees s w e = sees t w e" for w e
  proof (cases "o_heap t w")
    case None
    then show ?thesis using core_dom [OF assms, of w] by (simp add: sees_def)
  next
    case (Some d)
    obtain c where "o_heap s w = Some c" "e_visual c = e_visual d" using core_ent [OF assms Some] by blast
    then show ?thesis
      using Some in_visual_core [OF assms, of c d] by (simp add: sees_def core_fields [OF assms])
  qed
  have "(\<exists>c. o_heap s w = Some c \<and> wants c) = (\<exists>c. o_heap t w = Some c \<and> wants c)" for w
  proof (cases "o_heap t w")
    case None
    then show ?thesis using core_dom [OF assms, of w] by simp
  next
    case (Some d)
    obtain c where "o_heap s w = Some c" "e_mask c = e_mask d" using core_ent [OF assms Some] by blast
    then show ?thesis using Some by (simp add: wants_def)
  qed
  with * show "sees s = sees t" "watches s = watches t" by (auto simp: watches_def fun_eq_iff)
qed

lemma axis_all: "(\<forall>a. Q a) \<longleftrightarrow> Q AX \<and> Q AY \<and> Q AZ"
  by (metis axis.exhaust)

lemma in_visual_iff:
  "in_visual s w c p (-1) \<longleftrightarrow> e_visual c > 0 \<and> (\<forall>a. used s a \<longrightarrow> \<bar>o_pos s (Ent w) a - p a\<bar> \<le> e_visual c)"
  by (subst axis_all) (auto simp: in_visual_def used_def Let_def)

lemma sees_iff:
  "sees s w e \<longleftrightarrow> (\<exists>c. o_heap s w = Some c \<and> e_visual c > 0 \<and>
     (\<forall>a. used s a \<longrightarrow> \<bar>o_pos s (Ent w) a - o_pos s (Ent e) a\<bar> \<le> e_visual c))"
  by (simp add: sees_def in_visual_iff)

definition forget :: "int \<Rightarrow> entity \<Rightarrow> entity" where
  "forget e c = c\<lparr>e_interest := snd (vec_remove (e_interest c) e)\<rparr>"

lemma forget_fields [simp]:
  "e_mask (forget e c) = e_mask c" "e_mark (forget e c) = e_mark c" "e_visual (forget e c) = e_visual c"
  "e_old_visual (forget e c) = e_old_visual c" "e_interest (forget e c) = snd (vec_remove (e_interest c) e)"
  "has_visual (forget e c) = has_visual c" "wants (forget e c) = wants c"
  by (simp_all add: forget_def has_visual_def wants_def)

definition exit_func :: "int \<Rightarrow> int \<Rightarrow> st \<Rightarrow> st option" where
  "exit_func e other st = do { (_, s) \<leftarrow> on_exit_range e other None True (fst st); Some (s, snd st) }"

definition forgotten :: "int \<Rightarrow> int set \<Rightarrow> orth \<Rightarrow> orth" where
  "forgotten e L s = s\<lparr>o_heap := (\<lambda>w. if w \<in> L \<and> watches s e w then map_option (forget e) (o_heap s w) else o_heap s w)\<rparr>"

lemma forgotten_fields [simp]:
  "o_use_y (forgotten e L s) = o_use_y s" "o_mark (forgotten e L s) = o_mark s" "o_now (forgotten e L s) = o_now s"
  "o_first (forgotten e L s) = o_first s" "o_next (forgotten e L s) = o_next s" "o_prev (forgotten e L s) = o_prev s"
  "o_pos (forgotten e L s) = o_pos s" "o_old (forgotten e L s) = o_old s" "o_set (forgotten e L s) = o_set s"
  by (simp_all add: forgotten_def)

lemma shape_forgotten: "shape (forgotten e L s) = shape s"
proof -
  have "map_option (\<lambda>c. c\<lparr>e_mark := 0, e_interest := []\<rparr>) (o_heap (forgotten e L s) w) =
      map_option (\<lambda>c. c\<lparr>e_mark := 0, e_interest := []\<rparr>) (o_heap s w)" for w
    by (cases "o_heap s w") (simp_all add: forgotten_def forget_def)
  then show ?thesis by (simp add: shape_def forgotten_def)
qed

lemma exit_func_run:
  assumes "o_heap t e = Some C" "o_heap t w = Some E"
  shows "exit_func e w (t, out) = Some (forgotten e {w} t, out)"
proof -
  have "forgotten e {w} t = (if watches t e w then set_ent w (forget e E) t else t)"
    using assms(2) by (cases "watches t e w") (auto simp: forgotten_def set_ent_def fun_eq_iff intro!: orth.equality)
  then show ?thesis
    using assms unfolding exit_func_def on_exit_range_def leave_view_def
    by (auto simp: sees_def watches_def emplace_def forget_def [symmetric])
qed

lemma exit_views_fold:
  assumes "distinct L" "e \<notin> set L" "o_heap t e \<noteq> None" "\<And>w. w \<in> set L \<Longrightarrow> o_heap t w \<noteq> None"
  shows "fold_opt (exit_func e) L (t, out) = Some (forgotten e (set L) t, out)"
  using assms
proof (induction L arbitrary: t)
  case Nil
  then show ?case by (simp add: forgotten_def)
next
  case (Cons w L)
  obtain C E where h: "o_heap t e = Some C" "o_heap t w = Some E" using Cons.prems(3,4) by force
  let ?t = "forgotten e {w} t"
  have sh: "shape ?t = shape t" by (rule shape_forgotten)
  have "fold_opt (exit_func e) L (?t, out) = Some (forgotten e (set L) ?t, out)"
    using Cons.prems shape_dom [OF sh] by (intro Cons.IH) auto
  moreover have "forgotten e (set L) ?t = forgotten e (set (w # L)) t"
    using Cons.prems(1) sees_core(2) [OF shape_core [OF sh]]
    by (auto simp: forgotten_def fun_eq_iff intro!: orth.equality)
  ultimately show ?case using exit_func_run [OF h] by simp
qed

lemma exit_axes:
  assumes core: "core (fst st) = core s" and ax: "\<And>a. used s a \<Longrightarrow> axis_ok (fst st) a (nodes_of s) (hidden_of s)"
    and c: "o_heap (fst st) e = Some c"
  shows "\<exists>t. all_axes (\<lambda>a st. do { s \<leftarrow> ol_remove_entity a e (fst st); Some (s, snd st) }) st = Some (t, snd st) \<and>
    core t = core s \<and> o_heap t = o_heap (fst st) \<and> o_now t = o_now (fst st) \<and>
    (\<forall>a. used s a \<longrightarrow> axis_ok t a (nodes_of s - own e) (hidden_of s))"
proof -
  let ?f = "\<lambda>a (st :: st). do { s \<leftarrow> ol_remove_entity a e (fst st); Some (s, snd st) }"
  let ?I = "\<lambda>st' :: st. o_heap (fst st') = o_heap (fst st) \<and> o_now (fst st') = o_now (fst st) \<and> snd st' = snd st"
  obtain d where d: "o_heap s e = Some d" using core_dom [OF core, of e] c by (cases "o_heap s e") auto
  have hv: "has_visual d = has_visual c"
    using core_heap [OF core, of e] c d by (simp add: has_visual_def wants_def)
  have N: "Ent e \<in> nodes_of s" "has_visual c \<Longrightarrow> PrevV e \<in> nodes_of s \<and> NextV e \<in> nodes_of s"
    using d hv by (simp_all add: nodes_of_def)
  have sub: "nodes_of s - (if has_visual c then own e else {Ent e}) = nodes_of s - own e"
    using d hv by (auto simp: nodes_of_def own_def)
  have "\<exists>st'. all_axes ?f st = Some st' \<and> ?I st' \<and> core (fst st') = core s \<and>
      (\<forall>a. used s a \<longrightarrow> axis_ok (fst st') a (nodes_of s - own e) (hidden_of s))"
  proof (rule all_axes_run [where Pre = "\<lambda>a t. axis_ok t a (nodes_of s) (hidden_of s)" and ?I0.0 = "?I"])
    fix a and st1 :: st
    assume a: "if a = AX then ?I st1 else ?I st1" "axis_ok (fst st1) a (nodes_of s) (hidden_of s)"
    have i: "?I st1" using a(1) by (auto split: if_splits)
    obtain s' where s': "ol_remove_entity a e (fst st1) = Some s'"
      "axis_ok s' a (nodes_of s - own e) (hidden_of s)" "\<exists>f nx pv. s' = relink a f nx pv (fst st1)"
      using remove_entity_axis [OF a(2) nodes_hidden _ N] i c sub by auto
    then show "\<exists>st'. ?f a st1 = Some st' \<and> ?I st' \<and> axis_ok (fst st') a (nodes_of s - own e) (hidden_of s) \<and>
        core (fst st') = core (fst st1) \<and> off_axis a (fst st1) (fst st')"
      using i relink_quiet by auto
  qed (use axis_ok_on_axis core ax in auto)
  then obtain st' where "all_axes ?f st = Some st'" "?I st'" "core (fst st') = core s"
    "\<forall>a. used s a \<longrightarrow> axis_ok (fst st') a (nodes_of s - own e) (hidden_of s)" by blast
  then show ?thesis by (cases st') auto
qed

lemma del_fields [simp]:
  "o_use_y (del_entity_ctx e s) = o_use_y s" "o_mark (del_entity_ctx e s) = o_mark s" "o_now (del_entity_ctx e s) = o_now s"
  "o_first (del_entity_ctx e s) = o_first s" "o_next (del_entity_ctx e s) = o_next s" "o_prev (del_entity_ctx e s) = o_prev s"
  "o_pos (del_entity_ctx e s) = o_pos s" "o_old (del_entity_ctx e s) = o_old s" "o_set (del_entity_ctx e s) = o_set s"
  "o_heap (del_entity_ctx e s) = (o_heap s)(e := None)"
  by (simp_all add: del_entity_ctx_def)

lemma axis_ok_links:
  assumes "axis_ok s a N M" "o_first t a = o_first s a" "o_next t a = o_next s a" "o_prev t a = o_prev s a"
    "\<And>n. n \<in> N \<Longrightarrow> o_pos t n a = o_pos s n a" "M' \<subseteq> M"
  shows "axis_ok t a N M'"
proof -
  obtain X where X: "alinked s a X" "set X = N" "osorted (okey s a) X" using assms(1) unfolding axis_ok_def by blast
  have "alinked t a X" using X(1) assms(2-4) by (simp add: alinked_def)
  moreover have "osorted (okey t a) X"
    using X(2,3) assms(5) osorted_cong [of X "okey t a" "okey s a"] by (auto simp: okey_def)
  ultimately show ?thesis using X(2) assms(1,3,4,6) unfolding axis_ok_def by auto
qed

text \<open>
  Leaving: what is left of the scene, and the interest lists without the entity that left.
\<close>

lemma exit_exact_aux:
  assumes ok: "orth_ok s" and e: "o_heap s e = Some c"
  obtains s' where "ol_exit_entity e list s = Some (0, map_option (\<lambda>xs. xs @ e_interest c) list, s')"
    "orth_ok s'" "o_set s' = o_set s - {e}" "o_now s' = o_now s" "o_use_y s' = o_use_y s" "o_pos s' = o_pos s"
    "o_heap s' e = None"
    "\<And>w. w \<noteq> e \<Longrightarrow> o_heap s' w = (if watches s e w then map_option (forget e) (o_heap s w) else o_heap s w)"
proof -
  have es: "e \<in> o_set s" using ok e by (simp add: orth_ok_def)
  define s1 where "s1 = s\<lparr>o_set := o_set s - {e}\<rparr>"
  have f1: "o_heap s1 = o_heap s" "o_first s1 = o_first s" "o_next s1 = o_next s" "o_prev s1 = o_prev s"
    "o_pos s1 = o_pos s" "o_use_y s1 = o_use_y s" "o_now s1 = o_now s" "o_set s1 = o_set s - {e}" by (simp_all add: s1_def)
  have w1: "watches s1 = watches s" "sees s1 = sees s" "used s1 = used s" "nodes_of s1 = nodes_of s" "hidden_of s1 = hidden_of s"
    by (simp_all add: watches_def sees_def in_visual_def used_def nodes_of_def hidden_of_def f1 fun_eq_iff)
  let ?out = "\<lparr>me_in = None, other_in = None, me_out = None, other_out = None\<rparr>"
  have ax1: "axis_ok s1 a (nodes_of s) (hidden_of s)" if "used s a" for a
  proof -
    have "axis_ok s a (nodes_of s) (hidden_of s)" using ok that by (simp add: orth_ok_def)
    then show ?thesis by (rule axis_ok_links) (simp_all add: f1)
  qed
  obtain s2 where s2: "(if has_visual c then ol_each_range_entity (Ent e) (e_visual c) (exit_func e) (s1, ?out)
      else Some (s1, ?out)) = Some (s2, ?out)" "core s2 = core s1"  "o_now s2 = o_now s"
    "o_first s2 = o_first s" "o_next s2 = o_next s" "o_prev s2 = o_prev s" "o_pos s2 = o_pos s" "o_use_y s2 = o_use_y s" "o_set s2 = o_set s - {e}"
    "\<And>w. o_heap s2 w = (if w \<noteq> e \<and> watches s e w then map_option (forget e) (o_heap s w) else o_heap s w)"
  proof (cases "has_visual c")
    case False
    have "\<not> watches s e w" for w using False e by (auto simp: watches_def sees_iff has_visual_def)
    then show ?thesis using that [of s1] False f1 by simp
  next
    case True
    have ux: "used s AX" by (simp add: used_def)
    obtain X where X: "alinked s1 AX X" "set X = nodes_of s" "osorted (okey s1 AX) X"
      using ax1 [OF ux] unfolding axis_ok_def by blast
    have dX: "distinct X" using X(1) unfolding alinked_def by (rule linked_distinct)
    have "Ent e \<in> set X" using e X(2) by (simp add: nodes_of_def)
    then obtain A B where AB: "X = A @ Ent e # B" by (metis split_list)
    have live: "o_heap t (owner n) \<noteq> None" if "n \<in> set (A @ B)" "core t = core s1" for n t
    proof -
      have "n \<in> nodes_of s" using that(1) X(2) AB by auto
      then show ?thesis using nodes_live [of n s] core_dom [OF that(2)] f1 by simp
    qed
    have k: "keeps s1 (set (A @ B)) (on_ent (exit_func e))"
    proof (rule keeps_steps)
      fix n and st :: st assume n: "n \<in> set (A @ B)" "core (fst st) = core s1"
      obtain t out where st: "st = (t, out)" by (cases st)
      obtain C where C: "o_heap t e = Some C" using core_dom [OF n(2), of e] e f1 st by auto
      obtain E where E: "o_heap t (owner n) = Some E" using live [OF n(1), of t] n(2) st by auto
      show "steps_to (fst st) (on_ent (exit_func e) n st)"
        unfolding on_ent_def st using exit_func_run [OF C E] shape_forgotten by (auto simp: steps_to_def)
    qed
    let ?L = "in_range s1 (o_pos s1 (Ent e) AX) (e_visual c) A B"
    obtain st' where st': "ol_each_range_entity (Ent e) (e_visual c) (exit_func e) (s1, ?out) = Some st'"
      "fold_opt (exit_func e) ?L (s1, ?out) = Some st'"
      using each_range_run [of "(s1, ?out)" A "Ent e" B "exit_func e" "e_visual c"] X(1) AB k by auto
    have L: "distinct ?L" "set ?L = {w. Ent w \<in> set (A @ Ent e # B) \<and> Ent w \<noteq> Ent e \<and>
        \<bar>o_pos s1 (Ent e) AX - o_pos s1 (Ent w) AX\<bar> \<le> e_visual c}"
      using in_range_set [of s1 A "Ent e" B "e_visual c"] X(3) dX AB by auto
    have Lw: "w \<noteq> e \<and> o_heap s1 w \<noteq> None" if "w \<in> set ?L" for w
    proof -
      have w: "Ent w \<in> nodes_of s" "w \<noteq> e" using that X(2) AB unfolding L(2) by auto
      then show ?thesis using nodes_live [OF w(1)] f1 by simp
    qed
    have "fold_opt (exit_func e) ?L (s1, ?out) = Some (forgotten e (set ?L) s1, ?out)"
      by (rule exit_views_fold [OF L(1)]) (use Lw e f1 in auto)
    then have stf: "st' = (forgotten e (set ?L) s1, ?out)" using st'(2) by simp
    have in_L: "w \<in> set ?L" if "w \<noteq> e" "watches s e w" "o_heap s w \<noteq> None" for w
    proof -
      have "\<bar>o_pos s (Ent e) AX - o_pos s (Ent w) AX\<bar> \<le> e_visual c"
        using that(2) e ux by (auto simp: watches_def sees_iff)
      moreover have "Ent w \<in> nodes_of s" using that(3) by (auto simp: nodes_of_def)
      ultimately show ?thesis using that(1) X(2) AB f1 unfolding L(2) by simp
    qed
    have heap: "o_heap (forgotten e (set ?L) s1) w = (if w \<noteq> e \<and> watches s e w then map_option (forget e) (o_heap s w) else o_heap s w)" for w
      using in_L [of w] Lw [of w] by (cases "o_heap s w") (auto simp: forgotten_def f1 w1)
    show ?thesis
      by (rule that [of "forgotten e (set ?L) s1"])
         (use True st' stf heap f1 shape_core [OF shape_forgotten] in simp_all)
  qed
  have c2: "\<exists>d. o_heap s2 e = Some d \<and> e_interest d = e_interest c" using s2(10) [of e] e by simp
  then obtain d where d: "o_heap s2 e = Some d" "e_interest d = e_interest c" by blast
  have ax2: "axis_ok s2 a (nodes_of s1) (hidden_of s1)" if "used s1 a" for a
    using axis_ok_links [OF ax1, of a s2] that w1 f1 s2(4-7) by simp
  obtain t where t: "all_axes (\<lambda>a st. do { s \<leftarrow> ol_remove_entity a e (fst st); Some (s, snd st) }) (s2, ?out) = Some (t, ?out)"
    "core t = core s2" "o_heap t = o_heap s2" "o_now t = o_now s2"
    "\<And>a. used s a \<Longrightarrow> axis_ok t a (nodes_of s - own e) (hidden_of s)"
  proof -
    have "\<exists>t. all_axes (\<lambda>a st. do { s \<leftarrow> ol_remove_entity a e (fst st); Some (s, snd st) }) (s2, ?out) = Some (t, ?out) \<and>
        core t = core s2 \<and> o_heap t = o_heap s2 \<and> o_now t = o_now s2 \<and>
        (\<forall>a. used s2 a \<longrightarrow> axis_ok t a (nodes_of s2 - own e) (hidden_of s2))"
      using exit_axes [of "(s2, ?out)" s2 e d] ax2 core_nodes [OF s2(2)] d(1) by simp
    then show ?thesis using that core_nodes [OF s2(2)] w1 by auto
  qed
  define s' where "s' = del_entity_ctx e t"
  note ct = core_fields [OF t(2)]
  have heap: "o_heap s' w = (if w = e then None else if watches s e w then map_option (forget e) (o_heap s w) else o_heap s w)" for w
    using t(3) s2(10) [of w] by (simp add: s'_def)
  have ent: "(\<exists>d. o_heap s' w = Some d \<and> Q d) \<longleftrightarrow> w \<noteq> e \<and> (\<exists>d. o_heap s w = Some d \<and> Q d)"
    if "\<And>d. Q (forget e d) = Q d" for w and Q :: "entity \<Rightarrow> bool"
    unfolding heap using that by (cases "o_heap s w") auto
  have nodes: "nodes_of s' = nodes_of s - own e" "hidden_of s' = hidden_of s - own e"
    unfolding nodes_of_def hidden_of_def by (auto simp: ent own_iff)
  have pos: "o_pos s' = o_pos s" using s2(7) ct by (simp add: s'_def)
  have "axis_ok s' a (nodes_of s') (hidden_of s')" if "used s a" for a
    unfolding nodes by (rule axis_ok_links [OF t(5) [OF that]]) (simp_all add: s'_def)
  moreover have "used s' = used s" using s2(8) ct by (simp add: used_def s'_def fun_eq_iff)
  moreover have "views_ok s'"
    unfolding views_ok_def pos
  proof (intro allI impI)
    fix w d a assume "o_heap s' w = Some d" "has_visual d"
    then obtain d' where "o_heap s w = Some d'" "has_visual d'" "e_visual d' = e_visual d"
      using heap [of w] by (cases "o_heap s w") (auto split: if_splits)
    then show "o_pos s (PrevV w) a = o_pos s (Ent w) a - e_visual d \<and> o_pos s (NextV w) a = o_pos s (Ent w) a + e_visual d"
      using ok unfolding orth_ok_def views_ok_def by metis
  qed
  moreover have os: "o_set s' = o_set s - {e}" using s2(9) ct by (simp add: s'_def)
  moreover have "w \<in> o_set s' \<longleftrightarrow> o_heap s' w \<noteq> None" for w
    using ok unfolding os heap orth_ok_def by auto
  ultimately have ok': "orth_ok s'" unfolding orth_ok_def by simp
  have run: "ol_exit_entity e list s = Some (0, map_option (\<lambda>xs. xs @ e_interest c) list, s')"
  proof -
    have fx: "(\<lambda>other st. do { (_, s) \<leftarrow> on_exit_range e other None True (fst st); Some (s, snd st) }) = exit_func e"
      by (simp add: exit_func_def fun_eq_iff)
    have td: "o_heap t e = Some d" using t(3) d(1) by simp
    show ?thesis
      unfolding ol_exit_entity_def fx Let_def s1_def [symmetric]
      using es e f1 s2(1) t(1) td d(2) by (simp add: s'_def)
  qed
  have "o_now s' = o_now s" "o_use_y s' = o_use_y s" using t(4) s2(3,8) ct by (simp_all add: s'_def)
  then show ?thesis
    by (rule that [OF run ok' os _ _ pos]) (simp_all add: heap)
qed

end
