(* ===== verification/OrthListExact.thy ===== *)
theory OrthListExact
  imports OrthListCorrect
begin

declare split_paired_All [simp del] split_paired_Ex [simp del]

text \<open>
  What the operations report: the vectors they fill and the interest lists they keep, in terms
  of who sees whom.
\<close>

section \<open>Fresh marks\<close>

definition fresh :: "orth \<Rightarrow> bool" where
  "fresh s \<longleftrightarrow> o_mark s = o_now s \<and> 3 dvd unat (o_now s) \<and> unat (o_now s) + 3 < 2 ^ 32 \<and>
     (\<forall>e c. o_heap s e = Some c \<longrightarrow> unat (e_mark c) < unat (o_now s))"

lemma update_mark_fresh:
  assumes "3 dvd unat (o_now s)" "marks_le (o_now s) s" "\<And>e. o_heap s e \<noteq> None \<Longrightarrow> e \<in> o_set s"
  shows "fresh (update_mark s)"
proof (cases "o_now s \<ge> 0xFFFFFFFF - 3")
  case True
  have now: "o_now (update_mark s) = 3" "o_mark (update_mark s) = 3"
    using True by (simp_all add: update_mark_def Let_def)
  have "e_mark c = 0" if "o_heap (update_mark s) e = Some c" for e c
    using that True assms(3) [of e] by (cases "o_heap s e") (auto simp: update_mark_heap split: if_splits)
  then show ?thesis by (simp add: fresh_def now)
next
  case False
  have now: "o_now (update_mark s) = o_now s + 3" "o_mark (update_mark s) = o_now s + 3"
    using False by (simp_all add: update_mark_def Let_def)
  have "unat (o_now s) < 4294967292" using False by (simp add: word_le_nat_alt not_le)
  then have u: "unat (o_now s + 3) = unat (o_now s) + 3"
    by (subst unat_add_lem [THEN iffD1]) simp_all
  have "o_heap (update_mark s) e = o_heap s e" for e using False by (simp add: update_mark_heap)
  moreover have "unat (o_now s) + 6 < 2 ^ 32"
  proof -
    obtain k where k: "unat (o_now s) = 3 * k" using assms(1) by blast
    have "3 * k < 4294967292" using k \<open>unat (o_now s) < 4294967292\<close> by simp
    then show ?thesis using k by simp
  qed
  ultimately show ?thesis
    using assms(1,2) unfolding fresh_def now u marks_le_def by fastforce
qed

lemma enter_state_fresh:
  assumes "orth_ok s" "marks_ok s"
  shows "fresh (enter_state e x y z v m s)"
  unfolding enter_state_def
  by (rule update_mark_fresh)
     (use assms in \<open>auto simp: marks_ok_def marks_le_def orth_ok_def split: if_splits\<close>)

section \<open>Who sees whom\<close>

lemma on_enter_range_run:
  assumes "o_heap s c = Some C" "o_heap s d = Some E"
  shows "on_enter_range c d l me s = Some (if sees s c d then emplace l (if me then d else c) else l,
    if watches s c d then set_ent d (E\<lparr>e_interest := e_interest E @ [c]\<rparr>) s else s)"
  using assms by (simp add: on_enter_range_def sees_def watches_def)

section \<open>The effect of entering\<close>

definition firsts :: "int \<Rightarrow> node list \<Rightarrow> int list" where
  "firsts e D = foldl (\<lambda>acc n. if ctype n \<noteq> CT_ENTITY \<and> owner n \<noteq> e \<and> owner n \<notin> set acc
                               then acc @ [owner n] else acc) [] D"

lemma firsts_snoc:
  "firsts e (D @ [n]) = (if ctype n \<noteq> CT_ENTITY \<and> owner n \<noteq> e \<and> owner n \<notin> set (firsts e D)
     then firsts e D @ [owner n] else firsts e D)"
  by (simp add: firsts_def)

lemma firsts_set: "set (firsts e D) = {owner n | n. n \<in> set D \<and> ctype n \<noteq> CT_ENTITY \<and> owner n \<noteq> e}"
  by (induction D rule: rev_induct) (auto simp: firsts_snoc firsts_def [of e "[]"])

lemma firsts_distinct: "distinct (firsts e D)"
  by (induction D rule: rev_induct) (auto simp: firsts_snoc firsts_def [of e "[]"])

definition seen_by_me :: "orth \<Rightarrow> int \<Rightarrow> node list \<Rightarrow> int list" where
  "seen_by_me s e D = map owner (filter (\<lambda>n. ctype n = CT_ENTITY \<and> owner n \<noteq> e \<and> sees s e (owner n)) D)"

definition seeing_me :: "orth \<Rightarrow> int \<Rightarrow> node list \<Rightarrow> int list" where
  "seeing_me s e D = filter (\<lambda>w. sees s w e) (firsts e D)"

definition entered :: "orth \<Rightarrow> outs \<Rightarrow> int \<Rightarrow> node list \<Rightarrow> st \<Rightarrow> bool" where
  "entered s out e D st \<longleftrightarrow> core (fst st) = core s \<and> o_now (fst st) = o_now s \<and>
     snd st = out\<lparr>me_in := map_option (\<lambda>l. l @ seen_by_me s e D) (me_in out),
                  other_in := map_option (\<lambda>l. l @ seeing_me s e D) (other_in out)\<rparr> \<and>
     (\<forall>w c. o_heap s w = Some c \<longrightarrow> (\<exists>m. o_heap (fst st) w = Some (c\<lparr>
        e_mark := m,
        e_interest := (if w = e then e_interest c @ filter (\<lambda>u. watches s u e) (firsts e D)
                       else e_interest c @ (if watches s e w then replicate (count_list (seen_by_me s e D) w) e else []))\<rparr>) \<and>
        m = (if w \<in> set (firsts e D) then o_now s + 1 else e_mark c)))"

lemma had_mark_entered:
  assumes "fresh s" "entered s out e D st" "o_heap (fst st) w = Some d"
  shows "had_mark (fst st) d \<longleftrightarrow> w \<in> set (firsts e D)"
proof -
  have c: "core (fst st) = core s" using assms(2) by (simp add: entered_def)
  obtain c where w: "o_heap s w = Some c" using core_dom [OF c, of w] assms(3) by (cases "o_heap s w") auto
  have m: "e_mark d = (if w \<in> set (firsts e D) then o_now s + 1 else e_mark c)"
    using assms(2,3) w unfolding entered_def by fastforce
  have now: "o_now (fst st) = o_now s" "o_mark (fst st) = o_now s"
    using assms(1,2) core_fields(2) [OF c] by (simp_all add: entered_def fresh_def)
  have "unat (o_now s + 1) = unat (o_now s) + 1"
    by (subst unat_add_lem [THEN iffD1]) (use assms(1) in \<open>simp_all add: fresh_def\<close>)
  then have "o_now s \<le> o_now s + 1" "o_now s + 1 \<noteq> o_now s"
    by (simp_all add: word_le_nat_alt)
  moreover have "\<not> o_now s \<le> e_mark c" using assms(1) w by (auto simp: fresh_def word_le_nat_alt not_le)
  ultimately show ?thesis unfolding had_mark_def now m by simp
qed

text \<open>The three things the callback can do to a state that \<open>entered\<close> describes.\<close>

lemma entered_skip:
  assumes "entered s out e D st"
    and "ctype n = CT_ENTITY \<Longrightarrow> owner n = e" "ctype n \<noteq> CT_ENTITY \<Longrightarrow> owner n = e \<or> owner n \<in> set (firsts e D)"
  shows "entered s out e (D @ [n]) st"
proof -
  have "firsts e (D @ [n]) = firsts e D" using assms(3) by (auto simp: firsts_snoc)
  moreover have "seen_by_me s e (D @ [n]) = seen_by_me s e D" using assms(2) by (auto simp: seen_by_me_def)
  ultimately show ?thesis using assms(1) by (simp add: entered_def seeing_me_def)
qed

lemma entered_seen:
  assumes ent: "entered s out e D (t, out')" and n: "ctype n = CT_ENTITY" "owner n \<noteq> e"
    and h: "o_heap t e = Some C" "o_heap t (owner n) = Some E"
  shows "entered s out e (D @ [n])
    (if watches t e (owner n) then set_ent (owner n) (E\<lparr>e_interest := e_interest E @ [e]\<rparr>) t else t,
     out'\<lparr>me_in := if sees t e (owner n) then emplace (me_in out') (owner n) else me_in out'\<rparr>)"
proof -
  let ?w = "owner n"
  have c: "core t = core s" using ent by (simp add: entered_def)
  note sw = sees_core [OF c]
  have f: "firsts e (D @ [n]) = firsts e D" using n by (simp add: firsts_snoc)
  have b: "seen_by_me s e (D @ [n]) = seen_by_me s e D @ (if sees s e ?w then [?w] else [])"
    using n by (simp add: seen_by_me_def)
  have ct: "count_list (seen_by_me s e (D @ [n])) w = count_list (seen_by_me s e D) w + (if sees s e ?w \<and> w = ?w then 1 else 0)" for w
    unfolding b by simp
  have core': "core (if watches t e ?w then set_ent ?w (E\<lparr>e_interest := e_interest E @ [e]\<rparr>) t else t) = core s"
    using shape_core [OF shape_set_ent [OF h(2), of "E\<lparr>e_interest := e_interest E @ [e]\<rparr>"]] c by auto
  have ws: "watches s e ?w \<Longrightarrow> sees s e ?w" by (simp add: watches_def)
  show ?thesis
    unfolding entered_def
  proof (intro conjI allI impI)
    fix w d assume w: "o_heap s w = Some d"
    obtain m where m: "o_heap t w = Some (d\<lparr>e_mark := m,
        e_interest := (if w = e then e_interest d @ filter (\<lambda>u. watches s u e) (firsts e D)
                       else e_interest d @ (if watches s e w then replicate (count_list (seen_by_me s e D) w) e else []))\<rparr>)"
      "m = (if w \<in> set (firsts e D) then o_now s + 1 else e_mark d)"
      using ent w unfolding entered_def by (metis fst_conv)
    show "\<exists>m. o_heap (fst (if watches t e ?w then set_ent ?w (E\<lparr>e_interest := e_interest E @ [e]\<rparr>) t else t,
        out'\<lparr>me_in := if sees t e ?w then emplace (me_in out') ?w else me_in out'\<rparr>)) w = Some (d\<lparr>e_mark := m,
        e_interest := (if w = e then e_interest d @ filter (\<lambda>u. watches s u e) (firsts e (D @ [n]))
           else e_interest d @ (if watches s e w then replicate (count_list (seen_by_me s e (D @ [n])) w) e else []))\<rparr>) \<and>
        m = (if w \<in> set (firsts e (D @ [n])) then o_now s + 1 else e_mark d)"
    proof (cases "watches s e ?w \<and> w = ?w")
      case True
      then have "E = d\<lparr>e_mark := m, e_interest := e_interest d @ replicate (count_list (seen_by_me s e D) w) e\<rparr>"
        using h(2) m(1) n(2) by simp
      then show ?thesis
        using True ws n(2) m(2) by (simp add: sw ct f set_ent_def replicate_append_same)
    next
      case False
      then show ?thesis using m by (auto simp: sw ct f set_ent_def)
    qed
  qed (use ent core' in \<open>auto simp: entered_def sw b f seeing_me_def set_ent_def emplace_def option.map_comp comp_def
      intro!: outs.equality\<close>)
qed

lemma entered_seeing:
  assumes ent: "entered s out e D (t, out')" and n: "ctype n \<noteq> CT_ENTITY" "owner n \<noteq> e" "owner n \<notin> set (firsts e D)"
    and h: "o_heap t e = Some C" "o_heap t (owner n) = Some E"
  shows "entered s out e (D @ [n])
    (if watches t (owner n) e
     then set_ent e (C\<lparr>e_interest := e_interest C @ [owner n]\<rparr>) (set_ent (owner n) (E\<lparr>e_mark := o_now t + 1\<rparr>) t)
     else set_ent (owner n) (E\<lparr>e_mark := o_now t + 1\<rparr>) t,
     out'\<lparr>other_in := if sees t (owner n) e then emplace (other_in out') (owner n) else other_in out'\<rparr>)"
proof -
  let ?w = "owner n"
  let ?t1 = "set_ent ?w (E\<lparr>e_mark := o_now t + 1\<rparr>) t"
  let ?t2 = "if watches t ?w e then set_ent e (C\<lparr>e_interest := e_interest C @ [?w]\<rparr>) ?t1 else ?t1"
  have c: "core t = core s" using ent by (simp add: entered_def)
  note sw = sees_core [OF c]
  have f: "firsts e (D @ [n]) = firsts e D @ [?w]" using n by (simp add: firsts_snoc)
  have b: "seen_by_me s e (D @ [n]) = seen_by_me s e D" using n by (simp add: seen_by_me_def)
  have c1: "core ?t1 = core s"
    using shape_core [OF shape_set_ent [OF h(2), of "E\<lparr>e_mark := o_now t + 1\<rparr>"]] c by simp
  have h1: "o_heap ?t1 e = Some C" using h n(2) by (simp add: set_ent_def)
  have core': "core ?t2 = core s"
    using shape_core [OF shape_set_ent [OF h1, of "C\<lparr>e_interest := e_interest C @ [?w]\<rparr>"]] c1 by simp
  show ?thesis
    unfolding entered_def
  proof (intro conjI allI impI)
    fix w d assume w: "o_heap s w = Some d"
    obtain m where m: "o_heap t w = Some (d\<lparr>e_mark := m,
        e_interest := (if w = e then e_interest d @ filter (\<lambda>u. watches s u e) (firsts e D)
                       else e_interest d @ (if watches s e w then replicate (count_list (seen_by_me s e D) w) e else []))\<rparr>)"
      "m = (if w \<in> set (firsts e D) then o_now s + 1 else e_mark d)"
      using ent w unfolding entered_def by (metis fst_conv)
    have now: "o_now t = o_now s" using ent by (simp add: entered_def)
    show "\<exists>m. o_heap (fst (?t2, out'\<lparr>other_in := if sees t ?w e then emplace (other_in out') ?w else other_in out'\<rparr>)) w =
        Some (d\<lparr>e_mark := m,
        e_interest := (if w = e then e_interest d @ filter (\<lambda>u. watches s u e) (firsts e (D @ [n]))
           else e_interest d @ (if watches s e w then replicate (count_list (seen_by_me s e (D @ [n])) w) e else []))\<rparr>) \<and>
        m = (if w \<in> set (firsts e (D @ [n])) then o_now s + 1 else e_mark d)"
    proof (cases "w = ?w")
      case True
      then show ?thesis using m h(2) n(2) now by (auto simp: sw f b set_ent_def)
    next
      case False
      show ?thesis
      proof (cases "w = e")
        case True
        then show ?thesis using m h(1) n(2) False by (auto simp: sw f b set_ent_def)
      next
        case ne: False
        then show ?thesis using m False by (auto simp: sw f b set_ent_def)
      qed
    qed
  qed (use ent core' in \<open>auto simp: entered_def sw b f seeing_me_def set_ent_def emplace_def option.map_comp comp_def
      intro!: outs.equality\<close>)
qed

lemma tracks_entered:
  assumes fr: "fresh s" and live: "o_heap s e \<noteq> None"
  shows "tracks a (enter_func e) (entered s out e)"
  unfolding tracks_def
proof (intro conjI allI impI)
  fix D n and st st' :: st assume ent: "entered s out e D st" and run: "enter_func e n st = Some st'"
  obtain t out' where st: "st = (t, out')" by (cases st)
  note ent' = ent [unfolded st]
  have c: "core t = core s" using ent' by (simp add: entered_def)
  obtain C where C: "o_heap t e = Some C" using live core_dom [OF c, of e] by auto
  show "entered s out e (D @ [n]) st'"
  proof (cases "ctype n = CT_ENTITY")
    case True
    show ?thesis
    proof (cases "owner n = e")
      case own: True
      then have "Ent e = n" using True by (cases n) simp
      then have "st' = st" using run True by (simp add: enter_func_def)
      then show ?thesis using entered_skip [OF ent] True own by simp
    next
      case False
      then have ne: "Ent e \<noteq> n" by auto
      obtain E where E: "o_heap t (owner n) = Some E"
        using run True ne st C by (cases "o_heap t (owner n)") (simp_all add: enter_func_def on_enter_range_def)
      have "st' = (if watches t e (owner n) then set_ent (owner n) (E\<lparr>e_interest := e_interest E @ [e]\<rparr>) t else t,
          out'\<lparr>me_in := if sees t e (owner n) then emplace (me_in out') (owner n) else me_in out'\<rparr>)"
        using run True ne st by (auto simp: enter_func_def on_enter_range_run [OF C E])
      then show ?thesis using entered_seen [OF ent' True False C E] by simp
    qed
  next
    case False
    show ?thesis
    proof (cases "owner n = e \<or> owner n \<in> set (firsts e D)")
      case True
      have "st' = st"
      proof (cases "owner n = e")
        case own: False
        obtain E where E: "o_heap t (owner n) = Some E"
          using run False own st by (cases "o_heap t (owner n)") (simp_all add: enter_func_def)
        have "had_mark t E" using had_mark_entered [OF fr ent, of "owner n" E] E own True st by simp
        then show ?thesis using run False own st E by (simp add: enter_func_def)
      qed (use run False in \<open>simp add: enter_func_def\<close>)
      then show ?thesis using True False ent by (auto intro!: entered_skip)
    next
      case ne: False
      obtain E where E: "o_heap t (owner n) = Some E"
        using run False ne st by (cases "o_heap t (owner n)") (simp_all add: enter_func_def)
      have nm: "\<not> had_mark t E" using had_mark_entered [OF fr ent, of "owner n" E] E ne st by simp
      let ?t1 = "set_ent (owner n) (E\<lparr>e_mark := o_now t + 1\<rparr>) t"
      have h1: "o_heap ?t1 (owner n) = Some (E\<lparr>e_mark := o_now t + 1\<rparr>)" "o_heap ?t1 e = Some C"
        using C ne by (simp_all add: set_ent_def)
      have c1: "core ?t1 = core t" by (rule shape_core [OF shape_set_ent [OF E]]) simp_all
      note sw = sees_core [OF c1]
      have "st' = (if watches t (owner n) e
             then set_ent e (C\<lparr>e_interest := e_interest C @ [owner n]\<rparr>) ?t1 else ?t1,
           out'\<lparr>other_in := if sees t (owner n) e then emplace (other_in out') (owner n) else other_in out'\<rparr>)"
        using run False ne st E nm
        by (auto simp: enter_func_def set_mark_def on_enter_range_run [OF h1] sw)
      then show ?thesis using entered_seeing [OF ent' False _ _ C E] ne by simp
    qed
  qed
next
  fix D t out' g nx pv assume "entered s out e D (t, out')"
  then show "entered s out e D (relink a g nx pv t, out')"
    by (simp add: entered_def relink_quiet)
qed

lemma entered_start: "entered s out e [] (s, out)"
  unfolding entered_def
proof (intro conjI allI impI)
  have "map_option (\<lambda>l. l @ []) x = x" for x :: "int list option" by (cases x) simp_all
  then show "snd (s, out) = out\<lparr>me_in := map_option (\<lambda>l. l @ seen_by_me s e []) (me_in out),
      other_in := map_option (\<lambda>l. l @ seeing_me s e []) (other_in out)\<rparr>"
    by (simp add: seen_by_me_def seeing_me_def firsts_def)
next
  fix w c assume w: "o_heap s w = Some c"
  show "\<exists>m. o_heap (fst (s, out)) w = Some (c\<lparr>e_mark := m,
        e_interest := (if w = e then e_interest c @ filter (\<lambda>u. watches s u e) (firsts e [])
          else e_interest c @ (if watches s e w then replicate (count_list (seen_by_me s e []) w) e else []))\<rparr>) \<and>
      m = (if w \<in> set (firsts e []) then o_now s + 1 else e_mark c)"
    using w by (intro exI [of _ "e_mark c"]) (simp add: seen_by_me_def firsts_def)
qed simp_all

text \<open>Everything in view lies left of the last node inserted.\<close>

lemma called_on_mine:
  assumes co: "called_on s (NextV e) D" and vs: "views_ok s" and c: "o_heap s e = Some c" "has_visual c"
    and s: "sees s e w" and n: "Ent w \<in> nodes_of s" "w \<noteq> e"
  shows "Ent w \<in> set D"
proof -
  obtain S where S: "osorted (okey s AX) (D @ NextV e # S)" "set (D @ NextV e # S) = nodes_of s"
    using co unfolding called_on_def by blast
  have "\<bar>o_pos s (Ent e) AX - o_pos s (Ent w) AX\<bar> \<le> e_visual c"
    using s c(1) by (auto simp: sees_iff used_def)
  moreover have "o_pos s (NextV e) AX = o_pos s (Ent e) AX + e_visual c"
    using vs c unfolding views_ok_def by blast
  ultimately have "okey s AX (Ent w) < okey s AX (NextV e)" by (simp add: okey_def)
  then have "Ent w \<notin> set (NextV e # S)" using S(1) by (fastforce simp: osorted_simps)
  then show ?thesis using S(2) n(1) by auto
qed

lemma called_on_other:
  assumes co: "called_on s l D" and l: "l = NextV e \<and> okey s AX (Ent e) < okey s AX (NextV e) \<or> l = Ent e" and vs: "views_ok s"
    and c: "o_heap s w = Some c" "has_visual c" and s: "sees s w e" and we: "w \<noteq> e"
  shows "PrevV w \<in> set D"
proof -
  obtain S where S: "osorted (okey s AX) (D @ l # S)" "set (D @ l # S) = nodes_of s"
    using co unfolding called_on_def by blast
  have "\<bar>o_pos s (Ent w) AX - o_pos s (Ent e) AX\<bar> \<le> e_visual c"
    using s c(1) by (auto simp: sees_iff used_def)
  moreover have "o_pos s (PrevV w) AX = o_pos s (Ent w) AX - e_visual c"
    using vs c unfolding views_ok_def by blast
  ultimately have "okey s AX (PrevV w) < okey s AX (Ent e)" by (simp add: okey_def)
  also have "\<dots> \<le> okey s AX l" using l by auto
  finally have "okey s AX (PrevV w) < okey s AX l" .
  then have "PrevV w \<notin> set (l # S)" using S(1) by (fastforce simp: osorted_simps)
  moreover have "PrevV w \<in> nodes_of s" using c by (simp add: nodes_of_def)
  ultimately show ?thesis using S(2) by auto
qed

lemma count_distinct: "distinct xs \<Longrightarrow> count_list xs w = (if w \<in> set xs then 1 else 0)"
  by (induction xs) auto

lemma seen_by_me_set: "set (seen_by_me s e D) = {w. w \<noteq> e \<and> sees s e w \<and> Ent w \<in> set D}"
proof (intro set_eqI)
  fix w
  have "(\<exists>n\<in>set D. ctype n = CT_ENTITY \<and> owner n = w) \<longleftrightarrow> Ent w \<in> set D"
    by (metis node.collapse node.sel)
  then show "w \<in> set (seen_by_me s e D) \<longleftrightarrow> w \<in> {w. w \<noteq> e \<and> sees s e w \<and> Ent w \<in> set D}"
    unfolding seen_by_me_def by auto
qed

lemma seen_by_me_distinct:
  assumes "distinct D"
  shows "distinct (seen_by_me s e D)"
proof -
  have "inj_on owner {n. ctype n = CT_ENTITY}" by (metis (mono_tags, lifting) inj_onI mem_Collect_eq node.expand)
  then have "inj_on owner (set (filter (\<lambda>n. ctype n = CT_ENTITY \<and> owner n \<noteq> e \<and> sees s e (owner n)) D))"
    by (rule inj_on_subset) auto
  then show ?thesis
    unfolding seen_by_me_def distinct_map using assms by simp
qed

text \<open>
  Entering reports exactly the entities in the new one's view and exactly the viewers that see
  it, each once, and puts the new entity and its viewers in the interest lists.
\<close>

lemma enter_exact_aux:
  assumes ok: "orth_ok s" "marks_ok s" and new: "e \<notin> o_set s"
    and vis: "has_visual (new_ent v m) \<or> v \<le> 0"
  obtains s' L1 L2 where
    "ol_enter_entity e x y z v m (s, out) =
       Some (True, s', out\<lparr>me_in := map_option (\<lambda>l. l @ L1) (me_in out), other_in := map_option (\<lambda>l. l @ L2) (other_in out)\<rparr>)"
    "orth_ok s'" "marks_ok s'" "core s' = core (enter_state e x y z v m s)" "distinct L1" "distinct L2"
    "set L1 = {w \<in> o_set s. sees s' e w}" "set L2 = {w \<in> o_set s. watches s' w e}"
    "\<And>w c. o_heap s w = Some c \<Longrightarrow> \<exists>c'. o_heap s' w = Some c' \<and>
       e_mask c' = e_mask c \<and> e_visual c' = e_visual c \<and>
       e_interest c' = e_interest c @ (if watches s' e w then [e] else [])"
    "\<exists>c'. o_heap s' e = Some c' \<and> e_mask c' = m \<and> e_visual c' = v \<and> e_interest c' = L2"
proof -
  let ?s4 = "enter_state e x y z v m s" and ?l = "if has_visual (new_ent v m) then NextV e else Ent e"
  have fr: "fresh ?s4" by (rule enter_state_fresh [OF ok])
  have live: "o_heap ?s4 e \<noteq> None" by (simp add: enter_heap_new)
  obtain st' D where r: "ol_enter_entity e x y z v m (s, out) = Some (True, st')" "orth_ok (fst st')"
    "core (fst st') = core ?s4" "entered ?s4 out e D st'" "called_on ?s4 ?l D"
    using enter_correct [OF ok(1) new tracks_entered [OF fr live] entered_start] by blast
  obtain s' out' where st: "st' = (s', out')" by (cases st')
  note sw = sees_core [OF r(3), unfolded st fst_conv]
  have vs: "views_ok ?s4" by (rule enter_views [OF ok(1) new])
  have dD: "distinct D" using r(5) unfolding called_on_def by auto
  have sD: "set D \<subseteq> nodes_of ?s4" using r(5) unfolding called_on_def by auto
  have live_iff: "(o_heap ?s4 w \<noteq> None) \<longleftrightarrow> w = e \<or> w \<in> o_set s" for w
    using r(2) core_dom [OF r(3), of w] core_fields(5) [OF r(3)] enter_fields(2) [of e x y z v m s]
    unfolding orth_ok_def by auto
  let ?L1 = "seen_by_me ?s4 e D" and ?L2 = "seeing_me ?s4 e D"
  have L1: "set ?L1 = {w \<in> o_set s. sees s' e w}"
  proof (intro set_eqI iffI)
    fix w assume "w \<in> set ?L1"
    then have w: "w \<noteq> e" "sees ?s4 e w" "Ent w \<in> nodes_of ?s4" using sD by (auto simp: seen_by_me_set)
    then show "w \<in> {w \<in> o_set s. sees s' e w}" using nodes_live [OF w(3)] live_iff [of w] sw by simp
  next
    fix w assume w: "w \<in> {w \<in> o_set s. sees s' e w}"
    then have s: "sees ?s4 e w" and we: "w \<noteq> e" using sw new by auto
    have "v > 0" using s by (auto simp: sees_iff enter_heap_new new_ent_def)
    then have hv: "has_visual (new_ent v m)" using vis by simp
    have "Ent w \<in> nodes_of ?s4" using live_iff [of w] w by (auto simp: nodes_of_def)
    then have "Ent w \<in> set D"
      using called_on_mine [OF _ vs enter_heap_new hv s _ we] r(5) hv by simp
    then show "w \<in> set ?L1" using s we by (simp add: seen_by_me_set)
  qed
  have fD: "u \<in> set (firsts e D) \<Longrightarrow> u \<noteq> e \<and> (\<exists>c. o_heap ?s4 u = Some c \<and> has_visual c)" for u
    using sD by (auto simp: firsts_set nodes_of_def)
  have wt: "watches ?s4 u e \<longleftrightarrow> sees ?s4 u e" if "u \<in> set (firsts e D)" for u
    using fD [OF that] by (auto simp: watches_def has_visual_def)
  have L2w: "filter (\<lambda>u. watches ?s4 u e) (firsts e D) = ?L2"
    unfolding seeing_me_def by (rule filter_cong [OF refl wt])
  have L2: "set ?L2 = {w \<in> o_set s. watches s' w e}"
  proof (intro set_eqI iffI)
    fix w assume w: "w \<in> set ?L2"
    then have "w \<in> set (firsts e D)" "sees ?s4 w e" by (auto simp: seeing_me_def)
    then show "w \<in> {w \<in> o_set s. watches s' w e}" using fD [of w] wt [of w] live_iff [of w] sw by auto
  next
    fix w assume w: "w \<in> {w \<in> o_set s. watches s' w e}"
    then have s: "watches ?s4 w e" and we: "w \<noteq> e" using sw new by auto
    obtain c where c: "o_heap ?s4 w = Some c" "wants c" using s by (auto simp: watches_def)
    have sw': "sees ?s4 w e" using s by (simp add: watches_def)
    then have hv: "has_visual c" using c by (auto simp: sees_iff has_visual_def)
    have l: "?l = NextV e \<and> okey ?s4 AX (Ent e) < okey ?s4 AX (NextV e) \<or> ?l = Ent e"
      using enter_keys(2) [of v e x y z m s AX] by (simp add: has_visual_def new_ent_def)
    have "PrevV w \<in> set D" by (rule called_on_other [OF r(5) l vs c(1) hv sw' we])
    then have "w \<in> set (firsts e D)" using we by (force simp: firsts_set)
    then show "w \<in> set ?L2" using sw' by (simp add: seeing_me_def)
  qed
  have heap: "\<exists>mk. o_heap s' w = Some (c\<lparr>e_mark := mk,
      e_interest := (if w = e then e_interest c @ ?L2 else e_interest c @ (if watches s' e w then [e] else []))\<rparr>) \<and>
      unat mk \<le> unat (o_now ?s4) + 1" if w: "o_heap ?s4 w = Some c" for w c
  proof -
    have "count_list ?L1 w = 1" if "watches ?s4 e w" "w \<noteq> e"
    proof -
      have "w \<in> o_set s" using w that(2) live_iff [of w] by simp
      then have "w \<in> set ?L1" using that(1) L1 sw by (simp add: watches_def)
      then show ?thesis using seen_by_me_distinct [OF dD] by (simp add: count_distinct)
    qed
    moreover obtain mk where "o_heap s' w = Some (c\<lparr>e_mark := mk,
        e_interest := (if w = e then e_interest c @ ?L2
          else e_interest c @ (if watches ?s4 e w then replicate (count_list ?L1 w) e else []))\<rparr>)"
      "mk = (if w \<in> set (firsts e D) then o_now ?s4 + 1 else e_mark c)"
      using r(4) w unfolding entered_def st L2w fst_conv by blast
    moreover have "unat (o_now ?s4 + 1) = unat (o_now ?s4) + 1"
      by (subst unat_add_lem [THEN iffD1]) (use fr in \<open>simp_all add: fresh_def\<close>)
    moreover have "unat (e_mark c) < unat (o_now ?s4)" using fr w by (simp add: fresh_def)
    ultimately show ?thesis
      by (intro exI [of _ mk]) (cases "w = e"; cases "watches ?s4 e w"; simp add: sw)
  qed
  have now: "o_now s' = o_now ?s4" using r(4) by (simp add: entered_def st)
  have mk: "marks_ok s'"
  proof -
    have "unat (e_mark d) \<le> unat (o_now s') + 1" if d: "o_heap s' w = Some d" for w d
    proof -
      obtain c where "o_heap ?s4 w = Some c" using d core_dom [OF r(3), of w] st by (cases "o_heap ?s4 w") auto
      from heap [OF this] d now show ?thesis by auto
    qed
    then show ?thesis
      using fr ok(2) core_fields(1) [OF r(3)] enter_fields(1) [of e x y z v m s]
      by (simp add: marks_ok_def marks_le_def fresh_def now st)
  qed
  have old: "\<exists>c'. o_heap s' w = Some c' \<and> e_mask c' = e_mask c \<and> e_visual c' = e_visual c \<and>
      e_interest c' = e_interest c @ (if watches s' e w then [e] else [])" if w: "o_heap s w = Some c" for w c
  proof -
    have we: "w \<noteq> e" using w new ok(1) by (auto simp: orth_ok_def)
    obtain d where d: "o_heap ?s4 w = Some d" "e_mask d = e_mask c" "e_visual d = e_visual c" "e_interest d = e_interest c"
      using enter_heap_old [OF we, of x y z v m s] w by (cases "o_heap ?s4 w") auto
    show ?thesis using heap [OF d(1)] d we by auto
  qed
  have me: "\<exists>c'. o_heap s' e = Some c' \<and> e_mask c' = m \<and> e_visual c' = v \<and> e_interest c' = ?L2"
    using heap [OF enter_heap_new] by (auto simp: new_ent_def)
  show ?thesis
    by (rule that [OF _ _ mk _ seen_by_me_distinct [OF dD] _ L1 L2 old me])
       (use r st in \<open>simp_all add: entered_def seeing_me_def firsts_distinct\<close>)
qed


text \<open>The first entity of a scene.\<close>

lemma orth_init_ok: "orth_ok orth_init" "marks_ok orth_init"
proof -
  have "axis_ok orth_init a {} {}" for a
    by (simp add: axis_ok_def orth_init_def alinked_def linked_def osorted_def)
  moreover have "nodes_of orth_init = {}" "hidden_of orth_init = {}"
    by (simp_all add: nodes_of_def hidden_of_def orth_init_def)
  ultimately show "orth_ok orth_init"
    by (simp add: orth_ok_def views_ok_def) (simp add: orth_init_def)
  show "marks_ok orth_init" by (simp add: marks_ok_def marks_le_def orth_init_def)
qed


end
