(* ===== verification/OrthListMove.thy ===== *)
theory OrthListMove
  imports OrthListExact
begin

declare split_paired_All [simp del] split_paired_Ex [simp del]

text \<open>
  Moving an entity and changing its view keep the orthogonal lists correct; with the marks of
  the entities never ahead of the counter. The last section puts the four operations together.
\<close>

section \<open>Marks\<close>

text \<open>A callback of a shift sets marks to the current mark and nothing else.\<close>

definition marked :: "32 word \<Rightarrow> orth \<Rightarrow> orth \<Rightarrow> bool" where
  "marked w s t \<longleftrightarrow> o_now t = o_now s \<and>
     (\<forall>e c. o_heap t e = Some c \<longrightarrow> e_mark c = w \<or> (\<exists>d. o_heap s e = Some d \<and> e_mark c = e_mark d))"

lemma marked_refl [simp]: "marked w s s"
  by (simp add: marked_def)

lemma marked_trans: "marked w s t \<Longrightarrow> marked w t u \<Longrightarrow> marked w s u"
  unfolding marked_def by metis

lemma marked_set_ent:
  "o_heap s e = Some d \<Longrightarrow> e_mark c = e_mark d \<or> e_mark c = w \<Longrightarrow> marked w s (set_ent e c s)"
  by (auto simp: marked_def set_ent_def)

lemma marked_le: "marked w s t \<Longrightarrow> marks_le w s \<Longrightarrow> marks_le w t"
  unfolding marked_def marks_le_def by (metis le_add1)

lemma marked_handlers:
  "on_enter_range c d l me s = Some (x, t) \<Longrightarrow> marked w s t"
  "leave_view c d l me s = Some (x, t) \<Longrightarrow> marked w s t"
  by (auto simp: on_enter_range_def leave_view_def bind_eq_Some_conv intro!: marked_set_ent split: if_splits)

lemma marked_exits:
  "on_exit_old_range c d l me v s = Some (x, t) \<Longrightarrow> marked w s t"
  "on_exit_old_pos_range c d l me s = Some (x, t) \<Longrightarrow> marked w s t"
  by (auto simp: on_exit_old_range_def on_exit_old_pos_range_def bind_eq_Some_conv Let_def
      dest: marked_handlers split: if_splits)

lemma marked_set_mark: "set_mark e w s = Some t \<Longrightarrow> marked w s t"
  by (auto simp: set_mark_def bind_eq_Some_conv intro!: marked_set_ent)

lemma marked_bind:
  assumes "Option.bind r (\<lambda>(l, s). Some (s, h l)) = Some st'" "\<And>x t. r = Some (x, t) \<Longrightarrow> marked w s t"
  shows "marked w s (fst st')"
  using assms by (cases r) auto

lemma marked_after_mark:
  assumes "Option.bind (set_mark e w s) g = Some st'" "\<And>t. g t = Some st' \<Longrightarrow> marked w t (fst st')"
  shows "marked w s (fst st')"
proof -
  obtain t where "set_mark e w s = Some t" "g t = Some st'" using assms(1) by (auto simp: bind_eq_Some_conv)
  then show ?thesis using marked_trans [OF marked_set_mark] assms(2) by blast
qed

lemma marked_on_shift:
  assumes "on_shift c ty n st = Some st'"
  shows "marked (o_now (fst st)) (fst st) (fst st')"
proof (cases "st' = st")
  case False
  let ?w = "o_now (fst st)"
  show ?thesis
  proof (cases "ctype c = CT_ENTITY")
    case True
    then have "Option.bind (set_mark (owner n) ?w (fst st)) (\<lambda>s.
        if ty = ctype n
        then do { (l, s) \<leftarrow> on_exit_old_pos_range (owner n) (owner c) (other_out (snd st)) False s;
                  Some (s, (snd st)\<lparr>other_out := l\<rparr>) }
        else do { (l, s) \<leftarrow> on_enter_range (owner n) (owner c) (other_in (snd st)) False s;
                  Some (s, (snd st)\<lparr>other_in := l\<rparr>) }) = Some st'"
      using assms False by (auto simp: on_shift_def on_shift_entity_def bind_eq_Some_conv split: if_splits)
    then show ?thesis
    proof (rule marked_after_mark)
      fix t
      assume "(if ty = ctype n
        then do { (l, s) \<leftarrow> on_exit_old_pos_range (owner n) (owner c) (other_out (snd st)) False t;
                  Some (s, (snd st)\<lparr>other_out := l\<rparr>) }
        else do { (l, s) \<leftarrow> on_enter_range (owner n) (owner c) (other_in (snd st)) False t;
                  Some (s, (snd st)\<lparr>other_in := l\<rparr>) }) = Some st'"
      then show "marked ?w t (fst st')"
        by (cases "ty = ctype n") (auto elim!: marked_bind dest: marked_handlers marked_exits)
    qed
  next
    case vis: False
    then have "Option.bind (set_mark (owner n) ?w (fst st)) (\<lambda>s.
        if ty = ctype c
        then do { (l, s) \<leftarrow> on_enter_range (owner c) (owner n) (me_in (snd st)) True s;
                  Some (s, (snd st)\<lparr>me_in := l\<rparr>) }
        else do { (l, s) \<leftarrow> on_exit_old_range (owner c) (owner n) (me_out (snd st)) True (-1) s;
                  Some (s, (snd st)\<lparr>me_out := l\<rparr>) }) = Some st'"
      using assms False by (auto simp: on_shift_def on_shift_visual_def bind_eq_Some_conv split: if_splits)
    then show ?thesis
    proof (rule marked_after_mark)
      fix t
      assume "(if ty = ctype c
        then do { (l, s) \<leftarrow> on_enter_range (owner c) (owner n) (me_in (snd st)) True t;
                  Some (s, (snd st)\<lparr>me_in := l\<rparr>) }
        else do { (l, s) \<leftarrow> on_exit_old_range (owner c) (owner n) (me_out (snd st)) True (-1) t;
                  Some (s, (snd st)\<lparr>me_out := l\<rparr>) }) = Some st'"
      then show "marked ?w t (fst st')"
        by (cases "ty = ctype c") (auto elim!: marked_bind dest: marked_handlers marked_exits)
    qed
  qed
qed simp

lemma tracks_marks: "tracks a (on_shift c ty) (\<lambda>_ st. o_now (fst st) = w \<and> marks_le w (fst st))"
  unfolding tracks_def
proof (intro conjI allI impI)
  fix n and st st' :: st assume st: "o_now (fst st) = w \<and> marks_le w (fst st)" and "on_shift c ty n st = Some st'"
  then have m: "marked w (fst st) (fst st')" using marked_on_shift by blast
  then show "o_now (fst st') = w" using st by (simp add: marked_def)
  show "marks_le w (fst st')" using marked_le [OF m] st by blast
qed (simp_all add: marks_le_def)

section \<open>Entities with the same view\<close>

text \<open>\<open>alike s t\<close>: the same entities, with the same masks and views.\<close>

definition alike :: "orth \<Rightarrow> orth \<Rightarrow> bool" where
  "alike s t \<longleftrightarrow> (\<forall>e. map_option (\<lambda>c. (e_mask c, e_visual c)) (o_heap s e) = map_option (\<lambda>c. (e_mask c, e_visual c)) (o_heap t e))"

lemma alike_Some:
  assumes "alike s t" "o_heap t e = Some d"
  obtains c where "o_heap s e = Some c" "e_mask c = e_mask d" "e_visual c = e_visual d" "has_visual c = has_visual d"
proof -
  have "map_option (\<lambda>c. (e_mask c, e_visual c)) (o_heap s e) = Some (e_mask d, e_visual d)"
    using assms by (simp add: alike_def)
  then show ?thesis using that by (auto simp: has_visual_def wants_def)
qed

lemma alike_sym: "alike s t \<Longrightarrow> alike t s"
  by (simp add: alike_def)

lemma alike_at:
  "alike s t \<Longrightarrow> map_option (\<lambda>c. (e_mask c, e_visual c)) (o_heap s e) = map_option (\<lambda>c. (e_mask c, e_visual c)) (o_heap t e)"
  by (simp add: alike_def)

lemma alike_None:
  assumes "alike s t"
  shows "o_heap s e = None \<longleftrightarrow> o_heap t e = None"
  using alike_at [OF assms, of e] by (cases "o_heap s e"; cases "o_heap t e") simp_all

lemma alike_nodes:
  assumes "alike s t"
  shows "nodes_of s = nodes_of t" "hidden_of s = hidden_of t"
proof -
  have *: "n \<in> nodes_of u \<Longrightarrow> n \<in> nodes_of v" "n \<in> hidden_of u \<Longrightarrow> n \<in> hidden_of v" if "alike u v" for n u v
  proof -
    show "n \<in> nodes_of v" if n: "n \<in> nodes_of u"
    proof -
      obtain c where c: "o_heap u (owner n) = Some c" "ctype n = CT_ENTITY \<or> has_visual c"
        using n by (auto simp: nodes_of_def)
      obtain d where "o_heap v (owner n) = Some d" "has_visual d = has_visual c"
        using alike_Some [OF alike_sym [OF \<open>alike u v\<close>] c(1)] by blast
      then show ?thesis using c(2) by (simp add: nodes_of_def)
    qed
    show "n \<in> hidden_of v" if n: "n \<in> hidden_of u"
    proof -
      obtain c where c: "o_heap u (owner n) = Some c" "ctype n \<noteq> CT_ENTITY" "\<not> has_visual c"
        using n by (auto simp: hidden_of_def)
      obtain d where "o_heap v (owner n) = Some d" "has_visual d = has_visual c"
        using alike_Some [OF alike_sym [OF \<open>alike u v\<close>] c(1)] by blast
      then show ?thesis using c(2,3) by (simp add: hidden_of_def)
    qed
  qed
  show "nodes_of s = nodes_of t" "hidden_of s = hidden_of t"
    using *[OF assms] *[OF alike_sym [OF assms]] by blast+
qed

lemma alike_update_mark: "alike (update_mark s) s"
  unfolding alike_def update_mark_heap by (auto simp: option.map_comp comp_def)

section \<open>Moving an entity\<close>

definition move_state :: "int \<Rightarrow> entity \<Rightarrow> int \<Rightarrow> int \<Rightarrow> int \<Rightarrow> orth \<Rightarrow> orth" where
  "move_state e c x y z s = update_mark (s\<lparr>
     o_heap := (o_heap s)(e \<mapsto> c\<lparr>e_old_visual := e_visual c\<rparr>),
     o_pos := (\<lambda>n. if n = Ent e then point x y z else if n = PrevV e then (\<lambda>a. point x y z a - e_visual c)
                   else if n = NextV e then (\<lambda>a. point x y z a + e_visual c) else o_pos s n),
     o_old := (\<lambda>n. if n \<in> own e then o_pos s n else o_old s n)\<rparr>)"

lemma move_run:
  assumes "e \<in> o_set s" "o_heap s e = Some c"
  shows "ol_update_entity e x y z (s, out) =
    Option.bind (all_axes (\<lambda>a. shift_entity a e) (move_state e c x y z s, out)) (\<lambda>st. Some (0, st))"
proof -
  have "ec_update_visual e (e_visual c) (update_pos (Ent e) (point x y z) s) =
    Some (s\<lparr>o_heap := (o_heap s)(e \<mapsto> c\<lparr>e_old_visual := e_visual c\<rparr>),
     o_pos := (\<lambda>n. if n = Ent e then point x y z else if n = PrevV e then (\<lambda>a. point x y z a - e_visual c)
                   else if n = NextV e then (\<lambda>a. point x y z a + e_visual c) else o_pos s n),
     o_old := (\<lambda>n. if n \<in> own e then o_pos s n else o_old s n)\<rparr>)"
    using assms(2)
    by (auto simp: ec_update_visual_def update_pos_def update_old_pos_def own_def Let_def fun_eq_iff intro!: orth.equality)
  then show ?thesis
    using assms by (simp add: ol_update_entity_def get_entity_ctx_def move_state_def update_pos_def update_old_pos_def Let_def)
qed

lemma move_fields:
  assumes "o_heap s e = Some c"
  shows "alike (move_state e c x y z s) s" "o_set (move_state e c x y z s) = o_set s"
    "o_use_y (move_state e c x y z s) = o_use_y s" "o_first (move_state e c x y z s) = o_first s"
    "o_next (move_state e c x y z s) = o_next s" "o_prev (move_state e c x y z s) = o_prev s"
    "owner n \<noteq> e \<Longrightarrow> o_pos (move_state e c x y z s) n = o_pos s n"
    "o_pos (move_state e c x y z s) (Ent e) = point x y z"
    "o_pos (move_state e c x y z s) (PrevV e) a = point x y z a - e_visual c"
    "o_pos (move_state e c x y z s) (NextV e) a = point x y z a + e_visual c"
    "o_old (move_state e c x y z s) (Ent e) = o_pos s (Ent e)" "used (move_state e c x y z s) = used s"
proof -
  show "alike (move_state e c x y z s) s"
    using assms unfolding alike_def move_state_def update_mark_heap by (auto simp: option.map_comp comp_def)
qed (auto simp: move_state_def own_def used_def fun_eq_iff)

lemma move_views:
  assumes "orth_ok s" "o_heap s e = Some c"
  shows "views_ok (move_state e c x y z s)"
  unfolding views_ok_def
proof (intro allI impI)
  fix w d a assume w: "o_heap (move_state e c x y z s) w = Some d" "has_visual d"
  note mf = move_fields [OF assms(2)]
  obtain d' where d': "o_heap s w = Some d'" "e_visual d' = e_visual d" "has_visual d'"
    using alike_Some [OF alike_sym [OF mf(1)] w(1)] w(2) by metis
  show "o_pos (move_state e c x y z s) (PrevV w) a = o_pos (move_state e c x y z s) (Ent w) a - e_visual d \<and>
      o_pos (move_state e c x y z s) (NextV w) a = o_pos (move_state e c x y z s) (Ent w) a + e_visual d"
  proof (cases "w = e")
    case True
    then show ?thesis using mf(8-10) d' assms(2) by simp
  next
    case False
    then show ?thesis
      using mf(7) [of "PrevV w" x y z] mf(7) [of "NextV w" x y z] mf(7) [of "Ent w" x y z] d' assms(1)
      unfolding orth_ok_def views_ok_def by (metis node.sel(2))
  qed
qed

lemma has_axis_on_axis: "has_axis s b k N M \<Longrightarrow> on_axis b s t \<Longrightarrow> has_axis t b k N M"
  by (simp add: has_axis_def on_axis_def alinked_def)

text \<open>The mark counter goes up by one on every axis.\<close>

definition ticks :: "orth \<Rightarrow> axis \<Rightarrow> nat" where
  "ticks s a = (case a of AX \<Rightarrow> 0 | AY \<Rightarrow> 1 | AZ \<Rightarrow> if o_use_y s then 2 else 1)"

definition counted :: "orth \<Rightarrow> nat \<Rightarrow> orth \<Rightarrow> bool" where
  "counted s n t \<longleftrightarrow> (fresh s \<longrightarrow> o_now t = o_now s + of_nat n \<and> marks_le (o_now s + of_nat n) t)"

lemma counted_tick:
  assumes "counted s n t" "n < 3"
  shows "counted s (Suc n) (tick t)"
  unfolding counted_def
proof
  assume fr: "fresh s"
  then have t: "o_now t = o_now s + of_nat n" "marks_le (o_now s + of_nat n) t" using assms(1) by (auto simp: counted_def)
  have b: "unat (o_now s) + 3 < 2 ^ 32" using fr by (simp add: fresh_def)
  have u: "unat (o_now s + of_nat k) = unat (o_now s) + k" if "k \<le> 3" for k
  proof -
    have "unat (of_nat k :: 32 word) = k" using that by (simp add: unat_of_nat)
    then show ?thesis by (subst unat_add_lem [THEN iffD1]) (use b that in simp_all)
  qed
  have "marks_le (o_now s + of_nat (Suc n)) (tick t)"
    using t(2) u [of n] u [of "Suc n"] assms(2) unfolding marks_le_def by fastforce
  then show "o_now (tick t) = o_now s + of_nat (Suc n) \<and> marks_le (o_now s + of_nat (Suc n)) (tick t)"
    using t(1) by (simp add: add.assoc add.commute)
qed

lemma counted_end:
  assumes "counted s 3 t" "fresh s" "o_use_y t"
  shows "marks_ok t"
proof -
  have t: "o_now t = o_now s + 3" "marks_le (o_now s + 3) t" using assms(1,2) by (auto simp: counted_def)
  have "unat (o_now s + 3) = unat (o_now s) + 3"
    by (subst unat_add_lem [THEN iffD1]) (use assms(2) in \<open>simp_all add: fresh_def\<close>)
  then show ?thesis using t assms(2,3) by (simp add: marks_ok_def fresh_def)
qed

lemma counted_tracks: "tracks a (on_shift c ty) (\<lambda>_ st. counted s n (fst st))"
proof (cases "fresh s")
  case True
  have eq: "(\<lambda>_ st. counted s n (fst st)) = (\<lambda>(_ :: node list) st. o_now (fst st) = o_now s + of_nat n \<and> marks_le (o_now s + of_nat n) (fst st))"
    if "\<And>t. o_now t = o_now s + of_nat n \<Longrightarrow> True" using True by (auto simp: counted_def fun_eq_iff)
  show ?thesis unfolding eq [OF TrueI] by (rule tracks_marks)
qed (simp add: tracks_def counted_def)

text \<open>All axes shifted by an operation that ticks on each of them.\<close>

lemma all_axes_counted:
  assumes step: "\<And>a st n. used (fst st) a \<Longrightarrow> core (fst st) = core s \<Longrightarrow> Pre a (fst st) \<Longrightarrow>
      counted s (Suc n) (tick (fst st)) \<Longrightarrow>
      \<exists>st'. f a st = Some st' \<and> counted s (Suc n) (fst st') \<and> Post a (fst st') \<and>
        core (fst st') = core (fst st) \<and> off_axis a (fst st) (fst st')"
    and pre: "\<And>b s t. Pre b s \<Longrightarrow> core t = core s \<Longrightarrow> on_axis b s t \<Longrightarrow> Pre b t"
    and post: "\<And>b s t. Post b s \<Longrightarrow> core t = core s \<Longrightarrow> on_axis b s t \<Longrightarrow> Post b t"
    and st: "\<And>a. used s a \<Longrightarrow> Pre a s"
  shows "\<exists>st'. all_axes f (s, out) = Some st' \<and> (o_use_y s \<longrightarrow> counted s 3 (fst st')) \<and> core (fst st') = core s \<and>
    (\<forall>a. used s a \<longrightarrow> Post a (fst st'))"
proof -
  let ?I = "\<lambda>a (st :: st). counted s (ticks s a) (fst st)" and ?I' = "\<lambda>a (st :: st). counted s (Suc (ticks s a)) (fst st)"
  have "\<exists>st'. all_axes f (s, out) = Some st' \<and> ?I' AZ st' \<and> core (fst st') = core s \<and> (\<forall>a. used s a \<longrightarrow> Post a (fst st'))"
  proof (rule all_axes_chain [where I = ?I and I' = ?I' and Pre = Pre and Post = Post])
    fix a and st1 :: st
    assume a: "used (fst st1) a" "core (fst st1) = core s" "?I a st1" "Pre a (fst st1)"
    have "ticks s a < 3" by (cases a) (simp_all add: ticks_def)
    from step [OF a(1,2,4) counted_tick [OF a(3) this]]
    show "\<exists>st'. f a st1 = Some st' \<and> ?I' a st' \<and> Post a (fst st') \<and>
        core (fst st') = core (fst st1) \<and> off_axis a (fst st1) (fst st')" .
  next
    have "unat (e_mark c) \<le> unat (o_now s) + 1" if "o_heap s e = Some c" "fresh s" for e c
      using that by (fastforce simp: fresh_def)
    then show "?I AX (s, out)" by (simp add: ticks_def counted_def marks_le_def)
  qed (use pre post st in \<open>auto simp: ticks_def used_def numeral_2_eq_2\<close>)
  then show ?thesis by (auto simp: ticks_def numeral_3_eq_3)
qed

lemma move_correct:
  assumes ok: "orth_ok s" and c: "o_heap s e = Some c"
  shows "\<exists>st'. ol_update_entity e x y z (s, out) = Some (0, st') \<and> orth_ok (fst st') \<and> o_set (fst st') = o_set s \<and>
    o_use_y (fst st') = o_use_y s \<and> (marks_ok s \<longrightarrow> marks_ok (fst st'))"
proof -
  let ?s4 = "move_state e c x y z s"
  note mf = move_fields [OF c]
  have es: "e \<in> o_set s" using ok c by (simp add: orth_ok_def)
  have nodes: "nodes_of ?s4 = nodes_of s" "hidden_of ?s4 = hidden_of s" by (rule alike_nodes [OF mf(1)])+
  have "\<exists>st'. all_axes (\<lambda>a. shift_entity a e) (?s4, out) = Some st' \<and> (o_use_y ?s4 \<longrightarrow> counted ?s4 3 (fst st')) \<and>
    core (fst st') = core ?s4 \<and> (\<forall>a. used ?s4 a \<longrightarrow> axis_ok (fst st') a (nodes_of s) (hidden_of s))"
  proof (rule all_axes_counted [where Pre = "\<lambda>a t. has_axis t a (okey s a) (nodes_of s) (hidden_of s)"])
    fix a n and st :: st
    assume a: "used (fst st) a" "core (fst st) = core ?s4" "has_axis (fst st) a (okey s a) (nodes_of s) (hidden_of s)"
      "counted ?s4 (Suc n) (tick (fst st))"
    note cf = core_fields [OF a(2)]
    obtain c' where c': "o_heap (fst st) e = Some c'" "has_visual c' = has_visual c" "e_visual c' = e_visual c"
    proof -
      obtain d where d: "o_heap ?s4 e = Some d" "e_visual d = e_visual c" "has_visual d = has_visual c"
        using alike_Some [OF mf(1) c] by metis
      obtain c' where "o_heap (fst st) e = Some c'" "e_mask c' = e_mask d" "e_visual c' = e_visual d"
        using core_ent [OF a(2) d(1)] by metis
      then show ?thesis using that d has_visual_cong [of c' d] by simp
    qed
    have same: "okey (fst st) a m = okey s a m" if "owner m \<noteq> e" for m
      using mf(7) [OF that, of x y z] cf(3) by (simp add: okey_def)
    have moved: "okey (fst st) a m = okey s a m + 3 * (o_pos (fst st) (Ent e) a - o_old (fst st) (Ent e) a)"
      if m: "m \<in> nodes_of s" "owner m = e" for m
    proof -
      have v: "ctype m \<noteq> CT_ENTITY \<Longrightarrow> has_visual c" using m c by (auto simp: nodes_of_def)
      then have p: "ctype m \<noteq> CT_ENTITY \<Longrightarrow> o_pos s (PrevV e) a = o_pos s (Ent e) a - e_visual c \<and> o_pos s (NextV e) a = o_pos s (Ent e) a + e_visual c"
        using ok c unfolding orth_ok_def views_ok_def by blast
      have "m = Ent e \<or> m = PrevV e \<or> m = NextV e" using node_cases [of m] m(2) by auto
      then show ?thesis
        using p mf(8) [of x y z] mf(9,10) [of x y z a] mf(11) [of x y z] by (auto simp: okey_def cf)
    qed
    have N: "nodes_of s \<inter> own e = (if has_visual c' then own e else {Ent e})"
      using c c'(2) by (auto simp: nodes_of_def own_def)
    have live: "o_heap (fst st) (owner m) \<noteq> None" if "m \<in> nodes_of s" for m
      using nodes_live [OF that] alike_None [OF mf(1) [of x y z], of "owner m"] core_dom [OF a(2)] by simp
    have key: "okey (fst st) a (PrevV e) < okey (fst st) a (Ent e) \<and> okey (fst st) a (Ent e) < okey (fst st) a (NextV e)"
      if "has_visual c'"
    proof -
      have "0 < e_visual c" using that c'(3) by (simp add: has_visual_def)
      then show ?thesis using okey_own [of "fst st" e a "e_visual c"] mf(8) [of x y z] mf(9,10) [of x y z a] cf(3) by simp
    qed
    have I: "counted ?s4 (Suc n) (fst (tick (fst st), snd st))" using a(4) by simp
    from shift_entity_axis [OF a(3) nodes_hidden same moved c'(1) N live key counted_tracks I]
    show "\<exists>st'. shift_entity a e st = Some st' \<and> counted ?s4 (Suc n) (fst st') \<and>
        axis_ok (fst st') a (nodes_of s) (hidden_of s) \<and> core (fst st') = core (fst st) \<and> off_axis a (fst st) (fst st')"
      by blast
  next
    fix a assume "used ?s4 a"
    then have "axis_ok s a (nodes_of s) (hidden_of s)" using ok mf(12) by (simp add: orth_ok_def)
    then show "has_axis ?s4 a (okey s a) (nodes_of s) (hidden_of s)"
      unfolding axis_ok_iff by (rule has_axis_on_axis) (simp add: on_axis_def mf(4-6))
  qed (use axis_ok_on_axis has_axis_on_axis in auto)
  then obtain st' where *: "all_axes (\<lambda>a. shift_entity a e) (?s4, out) = Some st'" "o_use_y ?s4 \<longrightarrow> counted ?s4 3 (fst st')"
    "core (fst st') = core ?s4" "\<And>a. used ?s4 a \<Longrightarrow> axis_ok (fst st') a (nodes_of ?s4) (hidden_of ?s4)"
    unfolding nodes by blast
  have "w \<in> o_set ?s4 \<longleftrightarrow> o_heap ?s4 w \<noteq> None" for w
    using ok alike_None [OF mf(1) [of x y z], of w] mf(2) by (simp add: orth_ok_def)
  then have ok': "orth_ok (fst st')" by (rule orth_ok_core [OF *(3) _ move_views [OF ok c] *(4)])
  have "marks_ok (fst st')" if mk: "marks_ok s"
  proof -
    have "fresh ?s4"
      unfolding move_state_def
      by (rule update_mark_fresh) (use mk ok c in \<open>auto simp: marks_ok_def marks_le_def orth_ok_def split: if_splits\<close>)
    moreover have "o_use_y ?s4" using mk mf(3) by (simp add: marks_ok_def)
    ultimately show ?thesis using counted_end *(2) core_fields(1) [OF *(3)] by simp
  qed
  then show ?thesis
    using move_run [OF es c] *(1) ok' core_fields(1,5) [OF *(3)] mf(2,3) by auto
qed

section \<open>Changing a view\<close>

definition view_state :: "int \<Rightarrow> entity \<Rightarrow> int \<Rightarrow> orth \<Rightarrow> orth" where
  "view_state e c v s = s\<lparr>
     o_heap := (o_heap s)(e \<mapsto> c\<lparr>e_old_visual := e_visual c, e_visual := v\<rparr>),
     o_pos := (\<lambda>n. if n = PrevV e then (\<lambda>a. o_pos s (Ent e) a - v)
                   else if n = NextV e then (\<lambda>a. o_pos s (Ent e) a + v) else o_pos s n),
     o_old := (\<lambda>n. if n = PrevV e \<or> n = NextV e then o_pos s n else o_old s n)\<rparr>"

lemma view_run:
  assumes "o_heap s e = Some c"
  shows "ec_update_visual e v s = Some (view_state e c v s)"
  using assms
  by (auto simp: ec_update_visual_def view_state_def update_pos_def update_old_pos_def Let_def fun_eq_iff intro!: orth.equality)

lemma view_fields [simp]:
  "o_use_y (view_state e c v s) = o_use_y s" "o_mark (view_state e c v s) = o_mark s" "o_now (view_state e c v s) = o_now s"
  "o_first (view_state e c v s) = o_first s" "o_next (view_state e c v s) = o_next s" "o_prev (view_state e c v s) = o_prev s"
  "o_set (view_state e c v s) = o_set s" "used (view_state e c v s) = used s"
  "o_heap (view_state e c v s) = (o_heap s)(e \<mapsto> c\<lparr>e_old_visual := e_visual c, e_visual := v\<rparr>)"
  "o_pos (view_state e c v s) (Ent w) = o_pos s (Ent w)"
  "o_pos (view_state e c v s) (PrevV e) a = o_pos s (Ent e) a - v"
  "o_pos (view_state e c v s) (NextV e) a = o_pos s (Ent e) a + v"
  "owner n \<noteq> e \<Longrightarrow> o_pos (view_state e c v s) n = o_pos s n"
  by (auto simp: view_state_def used_def fun_eq_iff)

lemma view_views:
  assumes "orth_ok s" "o_heap s e = Some c"
  shows "views_ok (view_state e c v s)"
  unfolding views_ok_def
proof (intro allI impI)
  fix w d a assume w: "o_heap (view_state e c v s) w = Some d" "has_visual d"
  show "o_pos (view_state e c v s) (PrevV w) a = o_pos (view_state e c v s) (Ent w) a - e_visual d \<and>
      o_pos (view_state e c v s) (NextV w) a = o_pos (view_state e c v s) (Ent w) a + e_visual d"
  proof (cases "w = e")
    case True
    then show ?thesis using w by auto
  next
    case False
    then show ?thesis using w assms(1) unfolding orth_ok_def views_ok_def by simp
  qed
qed

lemma old_pos_fields [simp]:
  "o_use_y (update_old_pos n s) = o_use_y s" "o_mark (update_old_pos n s) = o_mark s" "o_now (update_old_pos n s) = o_now s"
  "o_first (update_old_pos n s) = o_first s" "o_next (update_old_pos n s) = o_next s" "o_prev (update_old_pos n s) = o_prev s"
  "o_set (update_old_pos n s) = o_set s" "used (update_old_pos n s) = used s" "o_heap (update_old_pos n s) = o_heap s"
  "o_pos (update_old_pos n s) = o_pos s" "okey (update_old_pos n s) = okey s"
  by (simp_all add: update_old_pos_def used_def okey_def fun_eq_iff)

lemma views_cong:
  "o_heap t = o_heap s \<Longrightarrow> o_pos t = o_pos s \<Longrightarrow> views_ok t = views_ok s"
  by (simp add: views_ok_def)

text \<open>One axis, for an entity that has a view before and after.\<close>

lemma shift_visual_axis:
  assumes ax: "has_axis (fst st) a k N M" and d: "M \<inter> N = {}" and N: "own e \<subseteq> N"
    and same: "\<And>n. n \<noteq> PrevV e \<Longrightarrow> n \<noteq> NextV e \<Longrightarrow> okey (fst st) a n = k n"
    and moved: "okey (fst st) a (NextV e) = k (NextV e) + 3 * dl" "okey (fst st) a (PrevV e) = k (PrevV e) - 3 * dl"
    and kk: "k (PrevV e) < k (Ent e)" "k (Ent e) < k (NextV e)"
    and key: "okey (fst st) a (PrevV e) < okey (fst st) a (Ent e)" "okey (fst st) a (Ent e) < okey (fst st) a (NextV e)"
    and live: "\<And>n. n \<in> N \<Longrightarrow> o_heap (fst st) (owner n) \<noteq> None"
    and I: "\<And>c t. tracks a (on_shift c t) (\<lambda>_ st. I (fst st))" "I (tick (fst st))"
  shows "\<exists>st'. shift_visual a e dl st = Some st' \<and> I (fst st') \<and> core (fst st') = core (fst st) \<and>
    off_axis a (fst st) (fst st') \<and> axis_ok (fst st') a N M"
proof -
  let ?t = "tick (fst st)"
  obtain X where X: "alinked ?t a X" "set X = N" "osorted k X" using ax unfolding has_axis_def by auto
  have dX: "distinct X" using X(1) unfolding alinked_def by (rule linked_distinct)
  obtain P Q R S where X': "X = P @ PrevV e # Q @ Ent e # R @ NextV e # S"
    using visual_split [OF X(3) _ kk] N X(2) by metis
  have oth: "n \<in> N \<and> owner n \<noteq> e" if "n \<in> set (P @ Q @ R @ S)" for n
    using that X' X(2) dX own_iff [of n e] by (auto simp: own_def)
  have ks: "okey ?t a n = k n" if "n \<in> set (P @ Q @ Ent e # R @ S)" for n
  proof -
    have "n \<noteq> PrevV e" "n \<noteq> NextV e" using that dX X' by auto
    then show ?thesis using same by simp
  qed
  have "osorted k (P @ Q @ Ent e # R @ S)" using X(3) unfolding X' by (simp add: osorted_simps)
  then have srt: "osorted (okey ?t a) (P @ Q @ Ent e # R @ S)"
    using osorted_cong [of "P @ Q @ Ent e # R @ S" "okey ?t a" k] ks by blast
  have ord: "x \<in> set P \<Longrightarrow> k x \<le> k (PrevV e)" "x \<in> set (P @ Q @ Ent e # R) \<Longrightarrow> k x \<le> k (NextV e)"
    "x \<in> set S \<Longrightarrow> k (NextV e) \<le> k x" "x \<in> set (Q @ Ent e # R @ S) \<Longrightarrow> k (PrevV e) \<le> k x" for x
    using X(3) unfolding X' by (auto simp: osorted_simps)
  have lv: "o_heap ?t (owner n) \<noteq> None \<and> owner n \<noteq> e" if "n \<in> set (P @ Q @ R @ S)" for n
    using oth [OF that] live by simp
  have en: "o_heap ?t e \<noteq> None" using live [of "Ent e"] N by (simp add: own_def)
  have kt: "okey ?t a (PrevV e) < okey ?t a (Ent e)" "okey ?t a (Ent e) < okey ?t a (NextV e)" using key by simp_all
  have mv: "okey ?t a (NextV e) = k (NextV e) + 3 * dl" "okey ?t a (PrevV e) = k (PrevV e) - 3 * dl" using moved by simp_all
  note X1 = X(1) [unfolded X']
  have finish: "core t' = core (fst st) \<and> off_axis a (fst st) t' \<and> axis_ok t' a N M"
    if "osorted (okey ?t a) Y" "set Y = N" "stepped a (set X) Y ?t t'" for t' Y
    using stepped_has_axis [OF that(3,1,2)] ax that(3) d X(2) unfolding stepped_def by auto
  consider "dl > 0" | "dl < 0" | "dl = 0" by linarith
  then show ?thesis
  proof cases
    case 1
    have le: "okey ?t a x \<le> okey ?t a (NextV e)" if "x \<in> set (P @ Q @ Ent e # R)" for x
      using ord(2) [OF that] ks [of x] that mv 1 by auto
    have le2: "okey ?t a (PrevV e) \<le> okey ?t a x" if "x \<in> set (Q @ Ent e # R @ S)" for x
      using ord(4) [OF that] ks [of x] that mv 1 by auto
    have ke: "okey ?t a (PrevV e) \<le> okey ?t a (NextV e)" using kt by linarith
    obtain st1 st2 B T T' B' where *: "shift_list_next a (NextV e) (?t, only_me_in (snd st)) = Some st1"
      "shift_list_prev a (PrevV e) st1 = Some st2" "P = B @ T" "S = T' @ B'" "I (fst st2)"
      "osorted (okey ?t a) (B @ PrevV e # T @ Q @ Ent e # R @ T' @ NextV e # B')"
      "stepped a (set X) (B @ PrevV e # T @ Q @ Ent e # R @ T' @ NextV e # B') ?t (fst st2)"
      using grow_view [of "(?t, only_me_in (snd st))" a P e Q R S "\<lambda>_ st. I (fst st)"] X1 srt le le2 ke lv en I
      unfolding X' fst_conv by blast
    have "set (B @ PrevV e # T @ Q @ Ent e # R @ T' @ NextV e # B') = N" using *(3,4) X' X(2) by auto
    from finish [OF *(6) this *(7)] show ?thesis
      using *(1,2,5) 1 by (cases st2) (auto simp: shift_visual_def tick_def Let_def)
  next
    case 2
    have le: "okey ?t a x \<le> okey ?t a (PrevV e)" if "x \<in> set P" for x
      using ord(1) [OF that] ks [of x] that mv 2 by auto
    have le2: "okey ?t a (NextV e) \<le> okey ?t a x" if "x \<in> set S" for x
      using ord(3) [OF that] ks [of x] that mv 2 by auto
    obtain st1 st2 B T T' B' where *: "shift_list_prev a (NextV e) (?t, only_me_out (snd st)) = Some st1"
      "shift_list_next a (PrevV e) st1 = Some st2" "Q = T @ B" "R = B' @ T'" "I (fst st2)"
      "osorted (okey ?t a) (P @ T @ PrevV e # B @ Ent e # B' @ NextV e # T' @ S)"
      "stepped a (set X) (P @ T @ PrevV e # B @ Ent e # B' @ NextV e # T' @ S) ?t (fst st2)"
      using shrink_view [of "(?t, only_me_out (snd st))" a P e Q R S "\<lambda>_ st. I (fst st)"] X1 srt le le2 kt lv en I
      unfolding X' fst_conv by blast
    have "set (P @ T @ PrevV e # B @ Ent e # B' @ NextV e # T' @ S) = N" using *(3,4) X' X(2) by auto
    from finish [OF *(6) this *(7)] show ?thesis
      using *(1,2,5) 2 by (cases st2) (auto simp: shift_visual_def tick_def Let_def)
  next
    case 3
    have "okey ?t a n = k n" if "n \<in> set X" for n
      using that ks [of n] mv 3 X' by auto
    then have "osorted (okey ?t a) X" using osorted_cong [of X "okey ?t a" k] X(3) by blast
    from finish [OF this X(2) stepped_mono [OF stepped_refl [OF X(1)]]] show ?thesis
      using 3 I(2) by (auto simp: shift_visual_def tick_def Let_def)
  qed
qed

text \<open>One axis, for an entity that has no view before or after: its border nodes are not linked.\<close>

lemma shift_visual_none:
  assumes ax: "has_axis (fst st) a k N M" and M: "PrevV e \<in> M" "NextV e \<in> M"
    and same: "\<And>n. n \<in> N \<Longrightarrow> okey (fst st) a n = k n" and I: "I (tick (fst st))"
  shows "\<exists>st'. shift_visual a e dl st = Some st' \<and> I (fst st') \<and> core (fst st') = core (fst st) \<and>
    off_axis a (fst st) (fst st') \<and> axis_ok (fst st') a N M"
proof -
  have un: "o_next (fst st) a n = None \<and> o_prev (fst st) a n = None" if "n \<in> M" for n
    using ax that by (simp add: has_axis_def)
  have stay: "shift_list_next a n (tick (fst st), o1) = Some (tick (fst st), o1)"
    "shift_list_prev a n (tick (fst st), o1) = Some (tick (fst st), o1)" if "n \<in> M" for n o1
    using un [OF that]
    by (simp_all add: shift_list_next_def shift_list_prev_def walk_next.simps [of a n _ None None]
        walk_prev.simps [of a n _ None None])
  have "shift_visual a e dl st = Some (tick (fst st), snd st)"
    using stay [OF M(1)] stay [OF M(2)]
    by (simp add: shift_visual_def tick_def [symmetric] Let_def only_me_in_def only_me_out_def)
  moreover have "axis_ok (tick (fst st)) a N M"
  proof -
    obtain X where X: "alinked (fst st) a X" "set X = N" "osorted k X" using ax unfolding has_axis_def by blast
    have "osorted (okey (fst st) a) X" using X(2,3) same osorted_cong [of X "okey (fst st) a" k] by blast
    then show ?thesis using X(1,2) ax unfolding axis_ok_iff has_axis_def by auto
  qed
  ultimately show ?thesis using I by (auto simp: off_axis_def on_axis_def)
qed

text \<open>Removing a view: the callback, the removal of the two borders, their reset.\<close>

definition unview_func :: "int \<Rightarrow> int \<Rightarrow> st \<Rightarrow> st option" where
  "unview_func e other st = do { (l, s) \<leftarrow> on_exit_old_range e other (me_out (snd st)) True (-1) (fst st);
     Some (s, (snd st)\<lparr>me_out := l\<rparr>) }"

lemma remove_has_axis:
  assumes ax: "has_axis s a k N M" and c: "c \<in> N" and d: "M \<inter> N = {}"
  shows "has_axis (remove_list a c s) a k (N - {c}) M \<and> (\<exists>f nx pv. remove_list a c s = relink a f nx pv s)"
proof -
  obtain X where X: "alinked s a X" "set X = N" "osorted k X"
    using ax unfolding has_axis_def by blast
  obtain A B where AB: "X = A @ c # B" using c X(2) by (metis split_list)
  have dX: "distinct X" using X(1) unfolding alinked_def by (rule linked_distinct)
  have r: "relinked a (set (A @ B)) (A @ B) s (remove_list a c s)"
    using remove_list_spec X(1) AB by simp
  have so: "osorted k (A @ B)" using X(3) AB by (simp add: osorted_simps)
  have se: "set (A @ B) = N - {c}" using dX AB X(2) by auto
  have "o_next (remove_list a c s) a n = None \<and> o_prev (remove_list a c s) a n = None" if "n \<in> M" for n
  proof -
    have "n \<notin> set (A @ B)" using that d AB X(2) by auto
    then show ?thesis using relinked_links [OF r, of n a] ax that unfolding has_axis_def by simp
  qed
  then have "has_axis (remove_list a c s) a k (N - {c}) M"
    unfolding has_axis_def using relinked_alinked [OF r] so se by blast
  then show ?thesis using r unfolding relinked_def by blast
qed

lemma fold_opt_inv:
  assumes "\<And>x st st'. I st \<Longrightarrow> f x st = Some st' \<Longrightarrow> I st'"
  shows "I st \<Longrightarrow> fold_opt f xs st = Some st' \<Longrightarrow> I st'"
proof (induction xs arbitrary: st)
  case (Cons x xs)
  obtain st1 where "f x st = Some st1" "fold_opt f xs st1 = Some st'" using Cons.prems(2) by (cases "f x st") auto
  then show ?case using Cons.IH assms Cons.prems(1) by blast
qed simp

lemma reset_fields [simp]:
  "o_use_y (ctx_reset n s) = o_use_y s" "o_mark (ctx_reset n s) = o_mark s" "o_now (ctx_reset n s) = o_now s"
  "o_first (ctx_reset n s) = o_first s" "o_set (ctx_reset n s) = o_set s" "o_heap (ctx_reset n s) = o_heap s"
  "o_next (ctx_reset n s) a m = (if m = n then None else o_next s a m)"
  "o_prev (ctx_reset n s) a m = (if m = n then None else o_prev s a m)"
  "m \<noteq> n \<Longrightarrow> o_pos (ctx_reset n s) m = o_pos s m" "used (ctx_reset n s) = used s"
  by (auto simp: ctx_reset_def used_def fun_eq_iff)

lemma reset_axis:
  assumes "axis_ok s a N M" "n \<notin> N"
  shows "axis_ok (ctx_reset n s) a N (insert n M)"
proof -
  obtain X where X: "alinked s a X" "set X = N" "osorted (okey s a) X" using assms(1) unfolding axis_ok_def by blast
  have "linked (o_next (ctx_reset n s) a) (o_prev (ctx_reset n s) a) (o_first s a) X =
      linked (o_next s a) (o_prev s a) (o_first s a) X"
    by (rule linked_cong) (use X(2) assms(2) in auto)
  then have "alinked (ctx_reset n s) a X" using X(1) unfolding alinked_def by simp
  moreover have "okey (ctx_reset n s) a x = okey s a x" if "x \<in> set X" for x
  proof -
    have "x \<noteq> n" using that X(2) assms(2) by blast
    then show ?thesis by (simp add: okey_def)
  qed
  then have "osorted (okey (ctx_reset n s) a) X" using osorted_cong [of X "okey (ctx_reset n s) a" "okey s a"] X(3) by blast
  ultimately show ?thesis using X(2) assms(1) unfolding axis_ok_def by auto
qed

lemma remove_visual_correct:
  assumes s: "\<And>a. used s a \<Longrightarrow> has_axis s a (k a) N M" and d: "M \<inter> N = {}" and N: "own e \<subseteq> N"
    and c: "o_heap s e = Some c" and live: "\<And>n. n \<in> N \<Longrightarrow> o_heap s (owner n) \<noteq> None"
    and same: "\<And>n a. n \<noteq> PrevV e \<Longrightarrow> n \<noteq> NextV e \<Longrightarrow> okey s a n = k a n"
  shows "\<exists>t out'. remove_visual e (s, out) = Some (t, out') \<and>
    (\<forall>a. used s a \<longrightarrow> axis_ok t a (N - {PrevV e, NextV e}) (M \<union> {PrevV e, NextV e})) \<and>
    o_set t = o_set s \<and> o_use_y t = o_use_y s \<and> o_now t = o_now s \<and> alike t s \<and>
    (\<forall>n. n \<noteq> PrevV e \<longrightarrow> n \<noteq> NextV e \<longrightarrow> o_pos t n = o_pos s n) \<and> (marks_le (o_now s) s \<longrightarrow> marks_le (o_now s) t)"
proof -
  let ?f = "unview_func e"
  have ux: "used s AX" by (simp add: used_def)
  obtain X where X: "alinked s AX X" "set X = N" using s [OF ux] unfolding has_axis_def by blast
  have dX: "distinct X" using X(1) unfolding alinked_def by (rule linked_distinct)
  obtain A B where AB: "X = A @ Ent e # B" using N X(2) by (metis in_mono own_iff node.sel(2) split_list)
  have k: "keeps s (set (A @ B)) (on_ent ?f)"
  proof (rule keeps_steps)
    fix n and st :: st assume n: "n \<in> set (A @ B)" "core (fst st) = core s"
    have "o_heap (fst st) e \<noteq> None" "o_heap (fst st) (owner n) \<noteq> None"
      using core_dom [OF n(2)] c live [of n] n(1) X(2) AB by auto
    then have "steps_to (fst st) (?f (owner n) st)"
      unfolding unview_func_def by (intro steps_to_tame [OF tame_exits(2)]) auto
    then show "steps_to (fst st) (on_ent ?f n st)" by (simp add: on_ent_def steps_to_def)
  qed
  obtain st1 where st1: "ol_each_range_entity (Ent e) (e_old_visual c) ?f (s, out) = Some st1"
    "shape (fst st1) = shape s"
    "fold_opt ?f (in_range s (o_pos s (Ent e) AX) (e_old_visual c) A B) (s, out) = Some st1"
    using each_range_run [of "(s, out)" A "Ent e" B ?f "e_old_visual c"] X(1) AB k by auto
  obtain s1 o1 where so: "st1 = (s1, o1)" by (cases st1)
  have mk: "marks_le (o_now s) s1" if "marks_le (o_now s) s"
  proof -
    have step: "marks_le (o_now s) (fst st')" if "marks_le (o_now s) (fst st)" "?f x st = Some st'" for x and st st' :: st
    proof -
      have "marked (o_now s) (fst st) (fst st')"
        using that(2) unfolding unview_func_def by (auto elim!: marked_bind dest: marked_exits)
      then show ?thesis using that(1) by (rule marked_le)
    qed
    have "marks_le (o_now s) (fst (s, out))" using that by simp
    from fold_opt_inv [of "\<lambda>st. marks_le (o_now s) (fst st)" ?f, OF step this st1(3)]
    show ?thesis by (simp add: so)
  qed
  have c1: "core s1 = core s" using shape_core [OF st1(2)] so by simp
  have s1: "has_axis s1 a (k a) N M" if "used s a" for a
    using s [OF that] by (rule has_axis_on_axis) (use shape_on_axis [OF st1(2) [symmetric]] so in simp)
  let ?g = "\<lambda>a (st :: st). Some (remove_list a (PrevV e) (remove_list a (NextV e) (fst st)), snd st)"
  let ?I = "\<lambda>st :: st. o_heap (fst st) = o_heap s1 \<and> o_now (fst st) = o_now s1 \<and> snd st = o1"
  have "\<exists>st'. all_axes ?g (s1, o1) = Some st' \<and> ?I st' \<and> core (fst st') = core s1 \<and>
      (\<forall>a. used s1 a \<longrightarrow> has_axis (fst st') a (k a) (N - {NextV e} - {PrevV e}) M)"
  proof (rule all_axes_run [where Pre = "\<lambda>a t. has_axis t a (k a) N M" and ?I0.0 = ?I])
    fix a and st :: st assume a: "if a = AX then ?I st else ?I st" "has_axis (fst st) a (k a) N M"
    have 1: "has_axis (remove_list a (NextV e) (fst st)) a (k a) (N - {NextV e}) M"
      "\<exists>f nx pv. remove_list a (NextV e) (fst st) = relink a f nx pv (fst st)"
      using remove_has_axis [OF a(2), of "NextV e"] N d by (auto simp: own_def)
    have 2: "has_axis (remove_list a (PrevV e) (remove_list a (NextV e) (fst st))) a (k a) (N - {NextV e} - {PrevV e}) M"
      "\<exists>f nx pv. remove_list a (PrevV e) (remove_list a (NextV e) (fst st)) = relink a f nx pv (remove_list a (NextV e) (fst st))"
      using remove_has_axis [OF 1(1), of "PrevV e"] N d by (auto simp: own_def)
    obtain f nx pv where r: "remove_list a (PrevV e) (remove_list a (NextV e) (fst st)) = relink a f nx pv (fst st)"
      using 1(2) 2(2) by auto
    show "\<exists>st'. ?g a st = Some st' \<and> ?I st' \<and> has_axis (fst st') a (k a) (N - {NextV e} - {PrevV e}) M \<and>
        core (fst st') = core (fst st) \<and> off_axis a (fst st) (fst st')"
      using 2(1) a(1) unfolding r by (auto simp: relink_quiet split: if_splits)
  qed (use s1 core_nodes(3) [OF c1] has_axis_on_axis in auto)
  then obtain t where t: "all_axes ?g (s1, o1) = Some (t, o1)" "o_heap t = o_heap s1" "o_now t = o_now s1" "core t = core s1"
    "\<And>a. used s a \<Longrightarrow> has_axis t a (k a) (N - {NextV e} - {PrevV e}) M"
    using core_nodes(3) [OF c1] by (metis prod.collapse)
  let ?t = "ctx_reset (PrevV e) (ctx_reset (NextV e) t)"
  have ct: "core t = core s" using t(4) c1 by simp
  note cf = core_fields [OF ct]
  have ax: "axis_ok ?t a (N - {PrevV e, NextV e}) (M \<union> {PrevV e, NextV e})" if us: "used s a" for a
  proof -
    have set: "N - {NextV e} - {PrevV e} = N - {PrevV e, NextV e}" by auto
    obtain X where X: "alinked t a X" "set X = N - {PrevV e, NextV e}" "osorted (k a) X"
      using t(5) [OF us] unfolding has_axis_def set by blast
    have "osorted (okey t a) X"
      using X(2,3) same osorted_cong [of X "okey t a" "k a"] cf(6) by auto
    then have "axis_ok t a (N - {PrevV e, NextV e}) M"
      using X t(5) [OF us] unfolding axis_ok_def has_axis_def by blast
    from reset_axis [OF reset_axis [OF this, of "NextV e"], of "PrevV e"]
    show ?thesis by (simp add: insert_commute)
  qed
  have "remove_visual e (s, out) = Some (?t, o1)"
    using st1(1) so c t(1) unfolding remove_visual_def unview_func_def [symmetric] by (simp add: unview_func_def [abs_def])
  moreover have "alike ?t s"
    unfolding alike_def
  proof
    fix w
    show "map_option (\<lambda>c. (e_mask c, e_visual c)) (o_heap ?t w) = map_option (\<lambda>c. (e_mask c, e_visual c)) (o_heap s w)"
      using core_heap [OF c1, of w] t(2) by (cases "o_heap s1 w"; cases "o_heap s w") auto
  qed
  moreover have "marks_le (o_now s) s \<longrightarrow> marks_le (o_now s) ?t" using mk t(2) by (simp add: marks_le_def)
  ultimately show ?thesis
    using ax cf(1,3,5) t(3) shape_fields(3) [OF st1(2)] so by (intro exI [of _ ?t] exI [of _ o1]) simp
qed

text \<open>Inserting a view: the two borders of an entity that has none in the lists.\<close>

definition view_func :: "int \<Rightarrow> node \<Rightarrow> st \<Rightarrow> st option" where
  "view_func e other st =
     (if ctype other = CT_ENTITY
      then do { (l, s) \<leftarrow> on_enter_range e (owner other) (me_in (snd st)) True (fst st);
                Some (s, (snd st)\<lparr>me_in := l\<rparr>) }
      else Some st)"

lemma insert_visual_func: "insert_visual e = all_axes (\<lambda>a. insert_visual_list a e (if a = AX then view_func e else (\<lambda>_. Some)))"
  unfolding insert_visual_def view_func_def [abs_def] ..

lemma keeps_view_func:
  assumes "o_heap s e \<noteq> None" "\<And>n. n \<in> N \<Longrightarrow> o_heap s (owner n) \<noteq> None"
  shows "keeps s N (view_func e)"
proof (rule keeps_steps)
  fix n and st :: st assume n: "n \<in> N" "core (fst st) = core s"
  have "o_heap (fst st) e \<noteq> None" "o_heap (fst st) (owner n) \<noteq> None"
    using core_dom [OF n(2)] assms(1) assms(2) [OF n(1)] by auto
  then have "steps_to (fst st) (Option.bind (on_enter_range e (owner n) (me_in (snd st)) True (fst st))
      (\<lambda>(l, s). Some (s, (snd st)\<lparr>me_in := l\<rparr>)))"
    by (intro steps_to_tame [OF tame_enter]) auto
  then show "steps_to (fst st) (view_func e n st)" by (simp add: view_func_def steps_to_def)
qed

lemma insert_visual_correct:
  assumes ax: "\<And>a. used s a \<Longrightarrow> axis_ok s a N M" and d: "M \<inter> N = {}" and N: "Ent e \<in> N" "PrevV e \<in> M" "NextV e \<in> M"
    and live: "\<And>n. n \<in> N \<Longrightarrow> o_heap s (owner n) \<noteq> None"
    and key: "\<And>a. okey s a (PrevV e) < okey s a (Ent e) \<and> okey s a (Ent e) < okey s a (NextV e)"
  shows "\<exists>st'. insert_visual e (s, out) = Some st' \<and>
    (\<forall>a. used s a \<longrightarrow> axis_ok (fst st') a (N \<union> {PrevV e, NextV e}) (M - {PrevV e, NextV e})) \<and>
    core (fst st') = core s \<and> o_now (fst st') = o_now s \<and> (marks_le (o_now s) s \<longrightarrow> marks_le (o_now s) (fst st'))"
proof -
  let ?I = "\<lambda>st. o_now (fst st) = o_now s \<and> (marks_le (o_now s) s \<longrightarrow> marks_le (o_now s) (fst st))"
  let ?f = "\<lambda>a. insert_visual_list a e (if a = AX then view_func e else (\<lambda>_. Some))"
  have step: "?I st'" if "?I st" "view_func e n st = Some st'" for n and st st' :: st
  proof -
    have "marked (o_now s) (fst st) (fst st')"
      using that(2) unfolding view_func_def by (auto elim!: marked_bind dest: marked_handlers split: if_splits)
    then show ?thesis using that(1) marked_le [of "o_now s" "fst st" "fst st'"] by (simp add: marked_def)
  qed
  have tr: "tracks a (if a = AX then view_func e else (\<lambda>_. Some)) (\<lambda>_. ?I)" for a
    unfolding tracks_def
  proof (intro conjI allI impI)
    fix n and st st' :: st assume st: "?I st" and r: "(if a = AX then view_func e else (\<lambda>_. Some)) n st = Some st'"
    have "?I st'" using step [OF st, of n] st r by (cases "a = AX") auto
    then show "o_now (fst st') = o_now s" "marks_le (o_now s) s \<Longrightarrow> marks_le (o_now s) (fst st')" by simp_all
  qed (simp_all add: marks_le_def)
  have "\<exists>st'. all_axes ?f (s, out) = Some st' \<and> ?I st' \<and> core (fst st') = core s \<and>
      (\<forall>a. used s a \<longrightarrow> axis_ok (fst st') a (N \<union> {PrevV e, NextV e}) (M - {PrevV e, NextV e}))"
  proof (rule all_axes_run [where Pre = "\<lambda>a t. axis_ok t a N M" and ?I0.0 = ?I])
    fix a and st :: st
    assume a: "core (fst st) = core s" "if a = AX then ?I st else ?I st" "axis_ok (fst st) a N M"
    have lv: "o_heap (fst st) (owner n) \<noteq> None" if "n \<in> N" for n using live [OF that] core_dom [OF a(1)] by simp
    have k: "keeps (fst st) N (if a = AX then view_func e else (\<lambda>_. Some))"
      using keeps_view_func [of "fst st" e N] lv N(1) lv [OF N(1)] keeps_Some by simp
    have ky: "okey (fst st) a (PrevV e) < okey (fst st) a (Ent e)" "okey (fst st) a (Ent e) < okey (fst st) a (NextV e)"
      using key [of a] core_fields(6) [OF a(1)] by simp_all
    have I: "?I st" using a(2) by (simp split: if_splits)
    obtain st' P Q R S where *: "?f a st = Some st'" "?I st'"
      "osorted (okey (fst st) a) (P @ PrevV e # Q @ Ent e # R @ NextV e # S)" "set (P @ Q @ Ent e # R @ S) = N"
      "stepped a (N \<union> own e) (P @ PrevV e # Q @ Ent e # R @ NextV e # S) (fst st) (fst st')"
      using insert_visual_axis [OF a(3) d N ky k tr I] by blast
    have "set (P @ PrevV e # Q @ Ent e # R @ NextV e # S) = N \<union> {PrevV e, NextV e}" using *(4) by auto
    from stepped_axis_ok [OF *(5,3) this a(3), of "M - {PrevV e, NextV e}"]
    have "axis_ok (fst st') a (N \<union> {PrevV e, NextV e}) (M - {PrevV e, NextV e})" using d N by (auto simp: own_def)
    then show "\<exists>st'. ?f a st = Some st' \<and> ?I st' \<and> axis_ok (fst st') a (N \<union> {PrevV e, NextV e}) (M - {PrevV e, NextV e}) \<and>
        core (fst st') = core (fst st) \<and> off_axis a (fst st) (fst st')"
      using *(1,2,5) unfolding stepped_def by blast
  qed (use ax axis_ok_on_axis in auto)
  then show ?thesis unfolding insert_visual_func by blast
qed

text \<open>What a view change does to the nodes, before the lists are touched.\<close>

lemma view_nodes:
  assumes "o_heap s e = Some c" and c'_def: "c' = c\<lparr>e_old_visual := e_visual c, e_visual := v\<rparr>"
  shows "nodes_of (view_state e c v s) = (nodes_of s - {PrevV e, NextV e}) \<union> (if has_visual c' then {PrevV e, NextV e} else {})"
    "hidden_of (view_state e c v s) = (hidden_of s - {PrevV e, NextV e}) \<union> (if has_visual c' then {} else {PrevV e, NextV e})"
proof -
  have v: "n = PrevV e \<or> n = NextV e \<longleftrightarrow> owner n = e \<and> ctype n \<noteq> CT_ENTITY" for n
    by (cases n; cases "ctype n") auto
  show "nodes_of (view_state e c v s) = (nodes_of s - {PrevV e, NextV e}) \<union> (if has_visual c' then {PrevV e, NextV e} else {})"
    "hidden_of (view_state e c v s) = (hidden_of s - {PrevV e, NextV e}) \<union> (if has_visual c' then {} else {PrevV e, NextV e})"
    unfolding set_eq_iff
    by (auto simp: nodes_of_def hidden_of_def v assms(1) c'_def split: if_splits)
qed

lemma own_nodes:
  assumes "o_heap s e = Some c"
  shows "Ent e \<in> nodes_of s" "has_visual c \<Longrightarrow> own e \<subseteq> nodes_of s" "\<not> has_visual c \<Longrightarrow> {PrevV e, NextV e} \<subseteq> hidden_of s"
    "\<not> has_visual c \<Longrightarrow> {PrevV e, NextV e} \<inter> nodes_of s = {}" "has_visual c \<Longrightarrow> own e \<inter> hidden_of s = {}"
  using assms by (auto simp: nodes_of_def hidden_of_def own_def)

lemma view_key:
  assumes "n \<noteq> PrevV e" "n \<noteq> NextV e"
  shows "okey (view_state e c v s) a n = okey s a n"
  using assms by (simp add: okey_def view_state_def)

lemma view_axis:
  assumes "orth_ok s" "used s a"
  shows "has_axis (view_state e c v s) a (okey s a) (nodes_of s) (hidden_of s)"
  by (rule has_axis_on_axis [of s]) (use assms in \<open>simp_all add: orth_ok_def axis_ok_iff on_axis_def\<close>)

lemma has_axis_ok:
  assumes "has_axis s a k N M" "\<And>n. n \<in> N \<Longrightarrow> okey s a n = k n"
  shows "axis_ok s a N M"
proof -
  obtain X where X: "alinked s a X" "set X = N" "osorted k X" using assms(1) unfolding has_axis_def by blast
  have "osorted (okey s a) X" using X(2,3) assms(2) osorted_cong [of X "okey s a" k] by blast
  then show ?thesis using X(1,2) assms(1) unfolding axis_ok_iff has_axis_def by blast
qed

lemma marks_view: "marks_le w (view_state e c v s) \<longleftrightarrow> marks_le w s" if "o_heap s e = Some c"
  using that by (auto simp: marks_le_def)

text \<open>The three ways a view can change.\<close>

lemma view_gone:
  assumes ok: "orth_ok s" and c: "o_heap s e = Some c" "has_visual c"
    and n: "\<not> has_visual (c\<lparr>e_old_visual := e_visual c, e_visual := v\<rparr>)"
  shows "\<exists>st'. remove_visual e (update_old_pos (Ent e) (view_state e c v s), out) = Some st' \<and> orth_ok (fst st') \<and>
    o_set (fst st') = o_set s \<and> o_use_y (fst st') = o_use_y s \<and> (marks_ok s \<longrightarrow> marks_ok (fst st'))"
proof -
  let ?s1 = "view_state e c v s"
  let ?s2 = "update_old_pos (Ent e) ?s1"
  have ax: "has_axis ?s2 a (okey s a) (nodes_of s) (hidden_of s)" if "used ?s2 a" for a
    by (rule has_axis_on_axis [OF view_axis [OF ok]]) (use that in \<open>simp_all add: on_axis_def\<close>)
  have live: "o_heap ?s2 (owner m) \<noteq> None" if "m \<in> nodes_of s" for m using nodes_live [OF that] by auto
  have key: "okey ?s2 a m = okey s a m" if "m \<noteq> PrevV e" "m \<noteq> NextV e" for m a using view_key [OF that] by simp
  have he: "o_heap ?s2 e = Some (c\<lparr>e_old_visual := e_visual c, e_visual := v\<rparr>)" by simp
  obtain t out' where t: "remove_visual e (?s2, out) = Some (t, out')"
    "\<And>a. used ?s2 a \<Longrightarrow> axis_ok t a (nodes_of s - {PrevV e, NextV e}) (hidden_of s \<union> {PrevV e, NextV e})"
    "o_set t = o_set ?s2" "o_use_y t = o_use_y ?s2" "o_now t = o_now ?s2" "alike t ?s2"
    "\<And>m. m \<noteq> PrevV e \<Longrightarrow> m \<noteq> NextV e \<Longrightarrow> o_pos t m = o_pos ?s2 m" "marks_le (o_now ?s2) ?s2 \<longrightarrow> marks_le (o_now ?s2) t"
    using remove_visual_correct [OF ax nodes_hidden own_nodes(2) [OF c] he live key, of out] by blast
  have al: "alike t ?s1" using t(6) by (simp add: alike_def)
  have hid: "hidden_of s \<union> {PrevV e, NextV e} = hidden_of s - {PrevV e, NextV e} \<union> {PrevV e, NextV e}" by auto
  have nodes: "nodes_of t = nodes_of s - {PrevV e, NextV e}" "hidden_of t = hidden_of s \<union> {PrevV e, NextV e}"
    unfolding alike_nodes [OF al] view_nodes [OF c(1) refl] hid using n by simp_all
  have us: "used t = used s" using t(4) by (simp add: used_def fun_eq_iff)
  have heap: "w \<in> o_set t \<longleftrightarrow> o_heap t w \<noteq> None" for w
    using ok c alike_None [OF al, of w] t(3) by (auto simp: orth_ok_def)
  have "views_ok t"
    unfolding views_ok_def
  proof (intro allI impI)
    fix w d a assume w: "o_heap t w = Some d" "has_visual d"
    obtain d' where d': "o_heap ?s1 w = Some d'" "e_visual d' = e_visual d" "has_visual d'"
      using alike_Some [OF alike_sym [OF al] w(1)] w(2) by metis
    have we: "w \<noteq> e" using d' n by auto
    have "o_heap s w = Some d'" using d'(1) we by simp
    then have "o_pos s (PrevV w) a = o_pos s (Ent w) a - e_visual d \<and> o_pos s (NextV w) a = o_pos s (Ent w) a + e_visual d"
      using ok d'(2,3) unfolding orth_ok_def views_ok_def by metis
    then show "o_pos t (PrevV w) a = o_pos t (Ent w) a - e_visual d \<and> o_pos t (NextV w) a = o_pos t (Ent w) a + e_visual d"
      using we t(7) [of "PrevV w"] t(7) [of "NextV w"] t(7) [of "Ent w"] by simp
  qed
  then have "orth_ok t" unfolding orth_ok_def using heap t(2) nodes us by simp
  moreover have "marks_ok s \<longrightarrow> marks_ok t"
  proof -
    have u: "o_use_y t = o_use_y s" "o_now t = o_now s" using t(4,5) by simp_all
    have "marks_le (o_now s) ?s2 = marks_le (o_now s) ?s1" by (simp only: marks_le_def old_pos_fields)
    then have "marks_le (o_now s) s \<longrightarrow> marks_le (o_now s) t"
      using t(8) marks_view [OF c(1), of "o_now s" v] by simp
    then show ?thesis unfolding marks_ok_def u by blast
  qed
  ultimately show ?thesis using t(1,3,4) by auto
qed

lemma view_new:
  assumes ok: "orth_ok s" and c: "o_heap s e = Some c" "\<not> has_visual c"
    and n: "has_visual (c\<lparr>e_old_visual := e_visual c, e_visual := v\<rparr>)"
  shows "\<exists>st'. insert_visual e (view_state e c v s, out) = Some st' \<and> orth_ok (fst st') \<and>
    o_set (fst st') = o_set s \<and> o_use_y (fst st') = o_use_y s \<and> (marks_ok s \<longrightarrow> marks_ok (fst st'))"
proof -
  let ?s1 = "view_state e c v s"
  have ax: "axis_ok ?s1 a (nodes_of s) (hidden_of s)" if us: "used ?s1 a" for a
  proof (rule has_axis_ok)
    show "has_axis ?s1 a (okey s a) (nodes_of s) (hidden_of s)" using view_axis [OF ok] us by simp
    fix m assume "m \<in> nodes_of s"
    then show "okey ?s1 a m = okey s a m" using own_nodes(4) [OF c] by (intro view_key) auto
  qed
  have live: "o_heap ?s1 (owner m) \<noteq> None" if "m \<in> nodes_of s" for m using nodes_live [OF that] by auto
  have key: "okey ?s1 a (PrevV e) < okey ?s1 a (Ent e) \<and> okey ?s1 a (Ent e) < okey ?s1 a (NextV e)" for a
    using n okey_own [of ?s1 e a v] by (simp add: has_visual_def)
  have M: "PrevV e \<in> hidden_of s" "NextV e \<in> hidden_of s" using own_nodes(3) [OF c] by simp_all
  obtain st' where t: "insert_visual e (?s1, out) = Some st'"
    "\<And>a. used ?s1 a \<Longrightarrow> axis_ok (fst st') a (nodes_of s \<union> {PrevV e, NextV e}) (hidden_of s - {PrevV e, NextV e})"
    "core (fst st') = core ?s1" "o_now (fst st') = o_now ?s1" "marks_le (o_now ?s1) ?s1 \<longrightarrow> marks_le (o_now ?s1) (fst st')"
    using insert_visual_correct [OF ax nodes_hidden own_nodes(1) [OF c(1)] M live key, of out] by blast
  have nodes: "nodes_of ?s1 = nodes_of s \<union> {PrevV e, NextV e}" "hidden_of ?s1 = hidden_of s - {PrevV e, NextV e}"
    unfolding view_nodes [OF c(1) refl] using n by auto
  have "w \<in> o_set ?s1 \<longleftrightarrow> o_heap ?s1 w \<noteq> None" for w using ok c by (auto simp: orth_ok_def)
  then have "orth_ok (fst st')"
    by (rule orth_ok_core [OF t(3) _ view_views [OF ok c(1)]]) (use t(2) nodes in simp)
  moreover have "marks_ok s \<longrightarrow> marks_ok (fst st')"
    using core_fields(1) [OF t(3)] t(4,5) marks_view [OF c(1), of "o_now s" v] by (auto simp: marks_ok_def)
  ultimately show ?thesis using t(1) core_fields(1,5) [OF t(3)] by auto
qed

lemma view_shifted:
  assumes ok: "orth_ok s" and c: "o_heap s e = Some c"
    and n: "has_visual (c\<lparr>e_old_visual := e_visual c, e_visual := v\<rparr>) = has_visual c"
  shows "\<exists>st'. all_axes (\<lambda>a. shift_visual a e (v - e_visual c)) (update_old_pos (Ent e) (update_mark (view_state e c v s)), out) = Some st' \<and>
    orth_ok (fst st') \<and> o_set (fst st') = o_set s \<and> o_use_y (fst st') = o_use_y s \<and> (marks_ok s \<longrightarrow> marks_ok (fst st'))"
proof -
  let ?s1 = "view_state e c v s"
  let ?s2 = "update_old_pos (Ent e) (update_mark ?s1)"
  have al: "alike ?s2 ?s1" using alike_update_mark [of ?s1] by (simp add: alike_def)
  have nodes: "nodes_of ?s2 = nodes_of s" "hidden_of ?s2 = hidden_of s"
    unfolding alike_nodes [OF al] view_nodes [OF c refl] using n own_nodes [OF c] by (auto simp: own_def split: if_splits)
  have ks: "okey ?s2 a = okey ?s1 a" for a by (simp add: okey_def fun_eq_iff)
  have us: "used ?s2 = used s" by (simp add: used_def fun_eq_iff)
  have live: "o_heap ?s2 (owner m) \<noteq> None" if "m \<in> nodes_of s" for m
    using alike_None [OF al, of "owner m"] nodes_live [OF that] by auto
  have "\<exists>st'. all_axes (\<lambda>a. shift_visual a e (v - e_visual c)) (?s2, out) = Some st' \<and> (o_use_y ?s2 \<longrightarrow> counted ?s2 3 (fst st')) \<and>
    core (fst st') = core ?s2 \<and> (\<forall>a. used ?s2 a \<longrightarrow> axis_ok (fst st') a (nodes_of s) (hidden_of s))"
  proof (rule all_axes_counted [where Pre = "\<lambda>a t. has_axis t a (okey s a) (nodes_of s) (hidden_of s)"])
    fix a m and st :: st
    assume a: "core (fst st) = core ?s2" "has_axis (fst st) a (okey s a) (nodes_of s) (hidden_of s)"
      "counted ?s2 (Suc m) (tick (fst st))"
    have kt: "okey (fst st) a = okey ?s1 a" using core_fields(6) [OF a(1)] ks by simp
    have same: "okey (fst st) a n = okey s a n" if "n \<noteq> PrevV e" "n \<noteq> NextV e" for n
      using view_key [OF that] kt by simp
    have lv: "o_heap (fst st) (owner n) \<noteq> None" if "n \<in> nodes_of s" for n
      using live [OF that] core_dom [OF a(1)] by simp
    show "\<exists>st'. shift_visual a e (v - e_visual c) st = Some st' \<and> counted ?s2 (Suc m) (fst st') \<and>
        axis_ok (fst st') a (nodes_of s) (hidden_of s) \<and> core (fst st') = core (fst st) \<and> off_axis a (fst st) (fst st')"
    proof (cases "has_visual c")
      case True
      have p: "o_pos s (PrevV e) a = o_pos s (Ent e) a - e_visual c" "o_pos s (NextV e) a = o_pos s (Ent e) a + e_visual c"
        using ok c True unfolding orth_ok_def views_ok_def by blast+
      have "e_visual c > 0" "v > 0" using True n by (simp_all add: has_visual_def)
      then have kk: "okey s a (PrevV e) < okey s a (Ent e)" "okey s a (Ent e) < okey s a (NextV e)"
        and key: "okey (fst st) a (PrevV e) < okey (fst st) a (Ent e)" "okey (fst st) a (Ent e) < okey (fst st) a (NextV e)"
        using okey_own [OF p] okey_own [of ?s1 e a v] kt by simp_all
      have mv: "okey (fst st) a (NextV e) = okey s a (NextV e) + 3 * (v - e_visual c)"
        "okey (fst st) a (PrevV e) = okey s a (PrevV e) - 3 * (v - e_visual c)"
        unfolding kt using p by (simp_all add: okey_def)
      show ?thesis
        using shift_visual_axis [OF a(2) nodes_hidden own_nodes(2) [OF c True] same mv kk key lv counted_tracks a(3)] by blast
    next
      case False
      have "okey (fst st) a n = okey s a n" if "n \<in> nodes_of s" for n
        using own_nodes(4) [OF c False] that by (intro same) auto
      then show ?thesis
        using shift_visual_none [where I = "counted ?s2 (Suc m)", OF a(2) _ _ _ a(3)] own_nodes(3) [OF c False] by blast
    qed
  next
    fix a assume "used ?s2 a"
    then have "has_axis ?s1 a (okey s a) (nodes_of s) (hidden_of s)" using view_axis [OF ok] us by simp
    then show "has_axis ?s2 a (okey s a) (nodes_of s) (hidden_of s)" by (rule has_axis_on_axis) (simp add: on_axis_def)
  qed (use axis_ok_on_axis has_axis_on_axis in auto)
  then obtain st' where *: "all_axes (\<lambda>a. shift_visual a e (v - e_visual c)) (?s2, out) = Some st'"
    "o_use_y ?s2 \<longrightarrow> counted ?s2 3 (fst st')" "core (fst st') = core ?s2"
    "\<And>a. used ?s2 a \<Longrightarrow> axis_ok (fst st') a (nodes_of ?s2) (hidden_of ?s2)"
    unfolding nodes by blast
  have heap: "w \<in> o_set ?s2 \<longleftrightarrow> o_heap ?s2 w \<noteq> None" for w
    using ok c alike_None [OF al, of w] by (auto simp: orth_ok_def)
  have "views_ok ?s2"
    unfolding views_ok_def
  proof (intro allI impI)
    fix w d a assume w: "o_heap ?s2 w = Some d" "has_visual d"
    obtain d' where "o_heap ?s1 w = Some d'" "e_visual d' = e_visual d" "has_visual d'"
      using alike_Some [OF alike_sym [OF al] w(1)] w(2) by metis
    then show "o_pos ?s2 (PrevV w) a = o_pos ?s2 (Ent w) a - e_visual d \<and> o_pos ?s2 (NextV w) a = o_pos ?s2 (Ent w) a + e_visual d"
      using view_views [OF ok c, of v] unfolding views_ok_def by (metis old_pos_fields(10) update_mark_core_fields(5))
  qed
  then have ok': "orth_ok (fst st')" by (rule orth_ok_core [OF *(3) heap _ *(4)])
  have "marks_ok (fst st')" if mk: "marks_ok s"
  proof -
    have "fresh (update_mark ?s1)"
    proof (rule update_mark_fresh)
      show "3 dvd unat (o_now ?s1)" "marks_le (o_now ?s1) ?s1" using mk marks_view [OF c] by (simp_all add: marks_ok_def)
      show "w \<in> o_set ?s1" if "o_heap ?s1 w \<noteq> None" for w using that ok c by (auto simp: orth_ok_def split: if_splits)
    qed
    then have "fresh ?s2" by (simp add: fresh_def)
    moreover have "o_use_y ?s2" using mk by (simp add: marks_ok_def)
    ultimately show ?thesis using counted_end *(2) core_fields(1) [OF *(3)] by simp
  qed
  then show ?thesis using *(1) ok' core_fields(1,5) [OF *(3)] by auto
qed

text \<open>Every call of \<open>update_visual\<close>.\<close>

lemma view_correct:
  assumes ok: "orth_ok s" and c: "o_heap s e = Some c"
  shows "\<exists>st'. ol_update_visual e v (s, out) = Some (0, st') \<and> orth_ok (fst st') \<and> o_set (fst st') = o_set s \<and>
    o_use_y (fst st') = o_use_y s \<and> (marks_ok s \<longrightarrow> marks_ok (fst st'))"
proof -
  let ?c = "c\<lparr>e_old_visual := e_visual c, e_visual := v\<rparr>"
  have es: "get_entity_ctx e s = Some e" using ok c by (simp add: orth_ok_def get_entity_ctx_def)
  note run = ol_update_visual_def es c view_run [OF c]
  consider "has_visual c" "\<not> has_visual ?c" | "\<not> has_visual c" "has_visual ?c" | "has_visual ?c = has_visual c" by blast
  then show ?thesis
  proof cases
    case 1
    show ?thesis using view_gone [OF ok c 1, of out] 1 by (auto simp: run)
  next
    case 2
    show ?thesis using view_new [OF ok c 2, of out] 2 by (auto simp: run)
  next
    case 3
    show ?thesis using view_shifted [OF ok c 3, of out] 3 by (auto simp: run Let_def)
  qed
qed

end
