(* ===== verification/OrthListRun.thy ===== *)
theory OrthListRun
  imports OrthListMove
begin

declare split_paired_All [simp del] split_paired_Ex [simp del]

text \<open>
  What a run of calls on the orthogonal lists promises: every call returns, no assertion of
  the list code fails, the lists stay sorted (\<open>valid_dump\<close> is true after each run), and as long
  as entities only enter and leave, every interest list holds exactly the viewers of its
  entity, each once. The last section shows two calls that report too little.
\<close>

section \<open>Runs of calls\<close>

text \<open>The calls of a Lua scene, with the four vectors the binding passes.\<close>

datatype ol_call =
    OEnter int int int int int "8 word"
  | OExit int
  | OMove int int int int
  | OView int int

definition no_outs :: outs where
  "no_outs = \<lparr>me_in = Some [], other_in = Some [], me_out = Some [], other_out = Some []\<rparr>"

fun ol_call_opt :: "ol_call \<Rightarrow> orth \<Rightarrow> (int \<times> orth) option" where
  "ol_call_opt (OEnter e x y z v m) s =
     do { (b, s, _) \<leftarrow> ol_enter_entity e x y z v m (s, no_outs); Some (if b then 1 else 0, s) }"
| "ol_call_opt (OExit e) s = do { (r, _, s) \<leftarrow> ol_exit_entity e (Some []) s; Some (r, s) }"
| "ol_call_opt (OMove e x y z) s = do { (r, s, _) \<leftarrow> ol_update_entity e x y z (s, no_outs); Some (r, s) }"
| "ol_call_opt (OView e v) s = do { (r, s, _) \<leftarrow> ol_update_visual e v (s, no_outs); Some (r, s) }"

text \<open>A failed assertion, a dangling pointer and an endless walk are one fault here.\<close>

definition ol_step :: "ol_call \<Rightarrow> orth \<Rightarrow> (int \<times> orth) result" where
  "ol_step c s = (case ol_call_opt c s of None \<Rightarrow> Inl AssertionFailed | Some r \<Rightarrow> Inr r)"

definition ol_inv :: "orth \<Rightarrow> bool" where
  "ol_inv s \<longleftrightarrow> orth_ok s \<and> marks_ok s"

lemma marked_enter_func:
  assumes "enter_func e n st = Some st'"
  shows "marked (o_now (fst st) + 1) (fst st) (fst st')"
proof (cases "st' = st")
  case False
  let ?w = "o_now (fst st) + 1"
  show ?thesis
  proof (cases "ctype n = CT_ENTITY")
    case True
    then show ?thesis using assms False
      by (auto simp: enter_func_def elim!: marked_bind dest: marked_handlers split: if_splits)
  next
    case vis: False
    then have "Option.bind (set_mark (owner n) ?w (fst st)) (\<lambda>s.
        do { (l, s) \<leftarrow> on_enter_range (owner n) e (other_in (snd st)) False s;
             Some (s, (snd st)\<lparr>other_in := l\<rparr>) }) = Some st'"
      using assms False by (auto simp: enter_func_def bind_eq_Some_conv split: if_splits)
    then show ?thesis
      by (rule marked_after_mark) (auto elim!: marked_bind dest: marked_handlers)
  qed
qed simp

lemma marked_next:
  assumes "marked (w + 1) s t" "marks_le w s"
  shows "marks_le w t"
proof -
  have "unat (w + 1) \<le> unat w + 1" by (auto simp: unat_plus_if')
  then show ?thesis using assms unfolding marked_def marks_le_def by metis
qed

lemma tracks_enter_marks: "tracks a (enter_func e) (\<lambda>_ st. o_now (fst st) = w \<and> marks_le w (fst st))"
  unfolding tracks_def
proof (intro conjI allI impI)
  fix n and st st' :: st assume st: "o_now (fst st) = w \<and> marks_le w (fst st)" and "enter_func e n st = Some st'"
  then have m: "marked (w + 1) (fst st) (fst st')" using marked_enter_func by blast
  then show "o_now (fst st') = w" using st by (simp add: marked_def)
  show "marks_le w (fst st')" using marked_next [OF m] st by blast
qed (simp_all add: marks_le_def)

lemma enter_inv:
  assumes "ol_inv s" "e \<notin> o_set s"
  shows "\<exists>st'. ol_enter_entity e x y z v m (s, out) = Some (True, st') \<and> ol_inv (fst st')"
proof -
  have ok: "orth_ok s" "marks_ok s" using assms(1) by (simp_all add: ol_inv_def)
  let ?s4 = "enter_state e x y z v m s"
  have fr: "fresh ?s4" by (rule enter_state_fresh [OF ok])
  then have st: "marks_le (o_now ?s4) ?s4" unfolding fresh_def marks_le_def by fastforce
  let ?J = "\<lambda>(_ :: node list) (st :: st). o_now (fst st) = o_now ?s4 \<and> marks_le (o_now ?s4) (fst st)"
  have J0: "?J [] (?s4, out)" using st by simp
  obtain st' where *: "ol_enter_entity e x y z v m (s, out) = Some (True, st')" "orth_ok (fst st')"
    "core (fst st') = core ?s4" "o_now (fst st') = o_now ?s4" "marks_le (o_now ?s4) (fst st')"
    using enter_correct [OF ok(1) assms(2) tracks_enter_marks J0] by blast
  have "marks_ok (fst st')"
    using *(4,5) core_fields(1) [OF *(3)] fr ok(2) by (simp add: marks_ok_def fresh_def enter_fields(1))
  then show ?thesis using *(1,2) by (auto simp: ol_inv_def)
qed

interpretation orth_runs: safe_steps ol_inv ol_step
proof
  fix s and call :: ol_call
  assume inv: "ol_inv s"
  then have ok: "orth_ok s" and mk: "marks_ok s" by (simp_all add: ol_inv_def)
  have "\<exists>r s'. ol_call_opt call s = Some (r, s') \<and> ol_inv s'"
  proof (cases call)
    case (OEnter e x y z v m)
    show ?thesis
    proof (cases "e \<in> o_set s")
      case True
      then show ?thesis using inv OEnter by (simp add: ol_enter_entity_def)
    next
      case False
      then show ?thesis using enter_inv [OF inv False, of x y z v m no_outs] OEnter by auto
    qed
  next
    case (OExit e)
    show ?thesis
    proof (cases "o_heap s e")
      case None
      then have "e \<notin> o_set s" using ok by (simp add: orth_ok_def)
      then show ?thesis using inv OExit by (simp add: ol_exit_entity_def)
    next
      case (Some c)
      obtain s' where *: "ol_exit_entity e (Some []) s = Some (0, map_option (\<lambda>xs. xs @ e_interest c) (Some []), s')"
        "orth_ok s'" "o_now s' = o_now s" "o_use_y s' = o_use_y s" "o_heap s' e = None"
        "\<And>w. w \<noteq> e \<Longrightarrow> o_heap s' w = (if watches s e w then map_option (forget e) (o_heap s w) else o_heap s w)"
        by (rule exit_exact_aux [OF ok Some, of "Some []"]) (rule that; assumption)
      have "unat (e_mark d) \<le> unat (o_now s) + 1" if "o_heap s' w = Some d" for w d
        using that *(5) *(6) [of w] mk by (cases "w = e") (auto simp: marks_ok_def marks_le_def split: if_splits)
      then have "marks_ok s'" using mk *(3,4) by (simp add: marks_ok_def marks_le_def)
      then show ?thesis using *(1,2) OExit by (simp add: ol_inv_def)
    qed
  next
    case (OMove e x y z)
    show ?thesis
    proof (cases "o_heap s e")
      case None
      then show ?thesis using inv ok OMove by (simp add: ol_update_entity_def get_entity_ctx_def orth_ok_def)
    next
      case (Some c)
      then show ?thesis using move_correct [OF ok Some, of x y z no_outs] mk OMove by (auto simp: ol_inv_def)
    qed
  next
    case (OView e v)
    show ?thesis
    proof (cases "o_heap s e")
      case None
      then show ?thesis using inv ok OView by (simp add: ol_update_visual_def get_entity_ctx_def orth_ok_def)
    next
      case (Some c)
      then show ?thesis using view_correct [OF ok Some, of v no_outs] mk OView by (auto simp: ol_inv_def)
    qed
  qed
  then show "\<exists>r s'. ol_step call s = Inr (r, s') \<and> ol_inv s'" by (auto simp: ol_step_def)
qed

section \<open>The lists stay sorted\<close>

lemma valid_from_run:
  "seg (o_next s a) pv p xs None \<Longrightarrow> osorted (okey s a) (case l of None \<Rightarrow> xs | Some n \<Rightarrow> n # xs) \<Longrightarrow>
     valid_from a s ok l (hd_or None xs) = Some ok"
proof (induction xs arbitrary: p l)
  case Nil
  then show ?case by (simp add: valid_from.simps)
next
  case (Cons n xs)
  have "\<not> (case l of None \<Rightarrow> False | Some m \<Rightarrow> ctx_comp s a m n > 0)"
    using Cons.prems(2) by (auto simp: ctx_comp_pos osorted_simps split: option.splits)
  moreover have "osorted (okey s a) (n # xs)" using Cons.prems(2) by (auto simp: osorted_simps split: option.splits)
  moreover have "seg (o_next s a) pv (Some n) xs None" "o_next s a n = hd_or None xs"
    using Cons.prems(1) by simp_all
  ultimately show ?case using Cons.IH [of "Some n" "Some n"] by (simp add: valid_from.simps [of _ _ _ _ "Some n"])
qed

lemma valid_dump_ok:
  assumes "orth_ok s" "o_use_y s"
  shows "valid_dump s = Some True"
proof -
  have "valid_from a s True None (o_first s a) = Some True" for a
  proof -
    obtain X where X: "alinked s a X" "osorted (okey s a) X"
      using assms unfolding orth_ok_def axis_ok_def used_def by blast
    have "seg (o_next s a) (o_prev s a) None X None" "o_first s a = hd_or None X"
      using X(1) by (simp_all add: alinked_def linked_def)
    then show ?thesis using valid_from_run [of s a "o_prev s a" None X None True] X(2) by simp
  qed
  then show ?thesis by (simp add: valid_dump_def)
qed

text \<open>
  C4: Whatever sequence of \<open>enter_entity\<close>, \<open>exit_entity\<close>, \<open>update_entity\<close> and \<open>update_visual\<close> calls a
  scene makes, with any coordinates, views and masks, every call returns, no assertion of the
  list code fails, and \<open>valid_dump\<close> finds the three lists sorted afterwards; the lists hold
  exactly the nodes of the entities that are in the scene.
\<close>
theorem orth_runs_sorted:
  "\<exists>rs s. run_ops ol_step cs orth_init = Inr (rs, s) \<and> length rs = length cs \<and> orth_ok s \<and> valid_dump s = Some True"
proof -
  have "ol_inv orth_init" using orth_init_ok by (simp add: ol_inv_def)
  from orth_runs.run_safe [OF this, of cs] obtain rs s where
    *: "run_ops ol_step cs orth_init = Inr (rs, s)" "ol_inv s" "length rs = length cs" by blast
  have "valid_dump s = Some True"
    using valid_dump_ok *(2) by (simp add: ol_inv_def marks_ok_def)
  then show ?thesis using * by (auto simp: ol_inv_def)
qed

section \<open>Interest lists\<close>

definition interest_ok :: "orth \<Rightarrow> bool" where
  "interest_ok s \<longleftrightarrow> (\<forall>w c. o_heap s w = Some c \<longrightarrow>
     distinct (e_interest c) \<and> set (e_interest c) = {x. x \<noteq> w \<and> watches s x w})"

lemma watches_in: "orth_ok s \<Longrightarrow> watches s w e \<Longrightarrow> w \<in> o_set s"
  by (auto simp: watches_def orth_ok_def)

text \<open>Who watches whom depends on two entities only.\<close>

lemma watches_cong:
  assumes "map_option (\<lambda>c. (e_mask c, e_visual c)) (o_heap s w) = map_option (\<lambda>c. (e_mask c, e_visual c)) (o_heap t w)"
    "o_pos s (Ent w) = o_pos t (Ent w)" "o_pos s (Ent e) = o_pos t (Ent e)" "o_use_y s = o_use_y t"
  shows "watches s w e = watches t w e"
proof (cases "o_heap t w")
  case None
  then show ?thesis using assms(1) by (simp add: watches_def)
next
  case (Some d)
  then obtain c where "o_heap s w = Some c" "e_mask c = e_mask d" "e_visual c = e_visual d"
    using assms(1) by (cases "o_heap s w") auto
  then show ?thesis using Some assms(2-) by (simp add: watches_def sees_iff used_def wants_def)
qed

text \<open>A well-formed entry: a view only with the bit that asks for events.\<close>

definition good_view :: "int \<Rightarrow> 8 word \<Rightarrow> bool" where
  "good_view v m \<longleftrightarrow> 0 < v \<and> and m INTEREST \<noteq> 0 \<or> v \<le> 0"

lemma enter_interest:
  assumes inv: "ol_inv s" and i: "interest_ok s" and new: "e \<notin> o_set s" and g: "good_view v m"
  shows "\<exists>st'. ol_enter_entity e x y z v m (s, out) = Some (True, st') \<and> ol_inv (fst st') \<and> interest_ok (fst st')"
proof -
  have ok: "orth_ok s" "marks_ok s" using inv by (simp_all add: ol_inv_def)
  have hv: "has_visual (new_ent v m) \<or> v \<le> 0" using g by (auto simp: good_view_def has_visual_def new_ent_def wants_def)
  obtain s' L1 L2 where *:
    "ol_enter_entity e x y z v m (s, out) =
       Some (True, s', out\<lparr>me_in := map_option (\<lambda>l. l @ L1) (me_in out), other_in := map_option (\<lambda>l. l @ L2) (other_in out)\<rparr>)"
    "orth_ok s'" "marks_ok s'" "core s' = core (enter_state e x y z v m s)" "distinct L1" "distinct L2"
    "set L1 = {w \<in> o_set s. sees s' e w}" "set L2 = {w \<in> o_set s. watches s' w e}"
    "\<And>w c. o_heap s w = Some c \<Longrightarrow> \<exists>c'. o_heap s' w = Some c' \<and>
       e_mask c' = e_mask c \<and> e_visual c' = e_visual c \<and>
       e_interest c' = e_interest c @ (if watches s' e w then [e] else [])"
    "\<exists>c'. o_heap s' e = Some c' \<and> e_mask c' = m \<and> e_visual c' = v \<and> e_interest c' = L2"
    by (rule enter_exact_aux [OF ok new hv, of x y z out]) (rule that; assumption)
  have se: "o_set s' = insert e (o_set s)" using core_fields(5) [OF *(4)] by (simp add: enter_fields(2))
  have pos: "o_pos s' (Ent w) = o_pos s (Ent w)" if "w \<noteq> e" for w
  proof (rule ext)
    fix a have "Ent w \<notin> own e" using that by (simp add: own_iff)
    then show "o_pos s' (Ent w) a = o_pos s (Ent w) a" using enter_fields(4) core_fields(3) [OF *(4)] by simp
  qed
  have uy: "o_use_y s' = o_use_y s" using core_fields(1) [OF *(4)] by (simp add: enter_fields(1))
  have wat: "watches s' u w = watches s u w" if "u \<noteq> e" "w \<noteq> e" for u w
  proof (rule watches_cong [OF _ pos [OF that(1)] pos [OF that(2)] uy])
    show "map_option (\<lambda>c. (e_mask c, e_visual c)) (o_heap s' u) = map_option (\<lambda>c. (e_mask c, e_visual c)) (o_heap s u)"
    proof (cases "o_heap s u")
      case None
      then have "u \<notin> o_set s'" using ok(1) se that(1) by (simp add: orth_ok_def)
      then show ?thesis using None *(2) by (simp add: orth_ok_def)
    next
      case (Some c)
      then show ?thesis using *(9) [OF Some] by auto
    qed
  qed
  have "interest_ok s'"
    unfolding interest_ok_def
  proof (intro allI impI)
    fix w c assume c: "o_heap s' w = Some c"
    show "distinct (e_interest c) \<and> set (e_interest c) = {u. u \<noteq> w \<and> watches s' u w}"
    proof (cases "w = e")
      case True
      then have "e_interest c = L2" using c *(10) by auto
      moreover have "{u. u \<noteq> e \<and> watches s' u e} = {u \<in> o_set s. watches s' u e}"
        using watches_in [OF *(2)] se new by blast
      ultimately show ?thesis using *(6,8) True by simp
    next
      case False
      have "w \<in> o_set s'" using *(2) c by (simp add: orth_ok_def)
      then have "w \<in> o_set s" using se False by simp
      then obtain d where d: "o_heap s w = Some d" using ok(1) by (auto simp: orth_ok_def)
      have ic: "e_interest c = e_interest d @ (if watches s' e w then [e] else [])" using *(9) [OF d] c by auto
      have id: "distinct (e_interest d)" "set (e_interest d) = {u. u \<noteq> w \<and> watches s u w}"
        using i d by (auto simp: interest_ok_def)
      have "e \<notin> set (e_interest d)" using id(2) watches_in [OF ok(1)] new by blast
      moreover have "{u. u \<noteq> w \<and> watches s' u w} = {u. u \<noteq> w \<and> watches s u w} \<union> (if watches s' e w then {e} else {})"
      proof (rule set_eqI)
        fix u
        have "\<not> watches s e w" using \<open>e \<notin> set (e_interest d)\<close> id(2) False by auto
        then show "u \<in> {u. u \<noteq> w \<and> watches s' u w} \<longleftrightarrow> u \<in> {u. u \<noteq> w \<and> watches s u w} \<union> (if watches s' e w then {e} else {})"
          using wat [of u w] False by (cases "u = e") auto
      qed
      ultimately show ?thesis using ic id by auto
    qed
  qed
  then show ?thesis using *(1-3) by (auto simp: ol_inv_def)
qed

lemma exit_interest:
  assumes inv: "ol_inv s" and i: "interest_ok s" and c: "o_heap s e = Some c"
  obtains s' where "ol_exit_entity e list s = Some (0, map_option (\<lambda>xs. xs @ e_interest c) list, s')"
    "ol_inv s'" "interest_ok s'" "o_set s' = o_set s - {e}" "o_pos s' = o_pos s"
proof -
  have ok: "orth_ok s" "marks_ok s" using inv by (simp_all add: ol_inv_def)
  obtain s' where *: "ol_exit_entity e list s = Some (0, map_option (\<lambda>xs. xs @ e_interest c) list, s')"
    "orth_ok s'" "o_set s' = o_set s - {e}" "o_now s' = o_now s" "o_use_y s' = o_use_y s" "o_pos s' = o_pos s" "o_heap s' e = None"
    "\<And>w. w \<noteq> e \<Longrightarrow> o_heap s' w = (if watches s e w then map_option (forget e) (o_heap s w) else o_heap s w)"
    by (rule exit_exact_aux [OF ok(1) c, of list]) (rule that; assumption)
  have "unat (e_mark d) \<le> unat (o_now s) + 1" if "o_heap s' w = Some d" for w d
    using that *(7) *(8) [of w] ok(2) by (cases "w = e") (auto simp: marks_ok_def marks_le_def split: if_splits)
  then have mk: "marks_ok s'" using ok(2) *(4,5) by (simp add: marks_ok_def marks_le_def)
  have wat: "watches s' u w = watches s u w" if "u \<noteq> e" for u w
  proof (rule watches_cong)
    show "map_option (\<lambda>c. (e_mask c, e_visual c)) (o_heap s' u) = map_option (\<lambda>c. (e_mask c, e_visual c)) (o_heap s u)"
      using *(8) [OF that] by (cases "o_heap s u") auto
  qed (simp_all add: *(5,6))
  have none: "\<not> watches s' e w" for w using *(7) by (simp add: watches_def)
  have "interest_ok s'"
    unfolding interest_ok_def
  proof (intro allI impI)
    fix w d assume d: "o_heap s' w = Some d"
    have we: "w \<noteq> e" using d *(7) by auto
    obtain d0 where d0: "o_heap s w = Some d0" "d = (if watches s e w then forget e d0 else d0)"
      using d *(8) [OF we] by (auto split: if_splits)
    have id: "distinct (e_interest d0)" "set (e_interest d0) = {u. u \<noteq> w \<and> watches s u w}"
      using i d0(1) by (auto simp: interest_ok_def)
    have "{u. u \<noteq> w \<and> watches s' u w} = {u. u \<noteq> w \<and> watches s u w} - {e}"
    proof (rule set_eqI)
      fix u
      show "u \<in> {u. u \<noteq> w \<and> watches s' u w} \<longleftrightarrow> u \<in> {u. u \<noteq> w \<and> watches s u w} - {e}"
        using wat [of u w] none [of w] by (cases "u = e") auto
    qed
    then show "distinct (e_interest d) \<and> set (e_interest d) = {u. u \<noteq> w \<and> watches s' u w}"
      using id d0(2) we by auto
  qed
  then show ?thesis using that *(1-3,6) mk by (simp add: ol_inv_def)
qed

text \<open>
  When an entity leaves, \<open>exit_entity\<close> returns 0 and appends to the caller's vector exactly the
  entities that were watching it, each once, and every list and interest list is correct
  without it.
\<close>
theorem orth_exit_reports:
  assumes "ol_inv s" "interest_ok s" "e \<in> o_set s"
  shows "\<exists>L s'. ol_exit_entity e list s = Some (0, map_option (\<lambda>xs. xs @ L) list, s') \<and>
    distinct L \<and> set L = {w \<in> o_set s. w \<noteq> e \<and> watches s w e} \<and>
    o_set s' = o_set s - {e} \<and> ol_inv s' \<and> interest_ok s'"
proof -
  have ok: "orth_ok s" using assms(1) by (simp add: ol_inv_def)
  obtain c where c: "o_heap s e = Some c" using ok assms(3) by (auto simp: orth_ok_def)
  obtain s' where *: "ol_exit_entity e list s = Some (0, map_option (\<lambda>xs. xs @ e_interest c) list, s')"
    "ol_inv s'" "interest_ok s'" "o_set s' = o_set s - {e}"
    by (rule exit_interest [OF assms(1,2) c, of list]) (rule that; assumption)
  have i: "distinct (e_interest c)" "set (e_interest c) = {w. w \<noteq> e \<and> watches s w e}"
    using assms(2) c by (auto simp: interest_ok_def)
  have "set (e_interest c) = {w \<in> o_set s. w \<noteq> e \<and> watches s w e}"
    unfolding i(2) using watches_in [OF ok] by blast
  then show ?thesis using * i(1) by blast
qed

lemma orth_init_interest: "ol_inv orth_init" "interest_ok orth_init"
  using orth_init_ok by (simp_all add: ol_inv_def) (simp add: interest_ok_def orth_init_def)

theorem orth_exit_reports_witness:
  "\<exists>s out L s'. ol_enter_entity 2 3 3 3 7 1 (orth_init, no_outs) = Some (True, s, out) \<and>
     ol_exit_entity 2 (Some [9]) s = Some (0, Some (9 # L), s') \<and> L = [] \<and> o_set s' = {}"
proof -
  have g: "good_view 7 1" by (simp add: good_view_def INTEREST_def)
  have new: "(2 :: int) \<notin> o_set orth_init" by (simp add: orth_init_def)
  obtain st' where st: "ol_enter_entity 2 3 3 3 7 1 (orth_init, no_outs) = Some (True, st')"
    "ol_inv (fst st')" "interest_ok (fst st')"
    using enter_interest [OF orth_init_interest new g, of 3 3 3 no_outs] by blast
  have set: "o_set (fst st') = {2}"
  proof -
    obtain st1 where "ol_enter_entity 2 3 3 3 7 1 (orth_init, no_outs) = Some (True, st1)"
      "core (fst st1) = core (enter_state 2 3 3 3 7 1 orth_init)"
      using enter_correct [OF orth_init_ok(1) new, of "\<lambda>_ _. True" 3 3 3 7 1 no_outs] by (auto simp: tracks_def)
    then show ?thesis using st(1) core_fields(5) [of "fst st1"] by (auto simp: enter_fields(2) orth_init_def)
  qed
  obtain L s' where *: "ol_exit_entity 2 (Some [9]) (fst st') = Some (0, map_option (\<lambda>xs. xs @ L) (Some [9]), s')"
    "set L = {w \<in> o_set (fst st'). w \<noteq> 2 \<and> watches (fst st') w 2}" "o_set s' = o_set (fst st') - {2}"
    using orth_exit_reports [OF st(2,3), of 2 "Some [9]"] set by auto
  have "set L = {}" unfolding *(2) set by blast
  then have "L = []" by simp
  have "ol_enter_entity 2 3 3 3 7 1 (orth_init, no_outs) = Some (True, fst st', snd st')" using st(1) by simp
  moreover have "ol_exit_entity 2 (Some [9]) (fst st') = Some (0, Some (9 # L), s')" using *(1) by simp
  moreover have "o_set s' = {}" using *(3) set by simp
  ultimately show ?thesis using \<open>L = []\<close> by blast
qed

text \<open>The calls of a scene in which nothing moves and every view asks for its events.\<close>

fun standing :: "ol_call \<Rightarrow> bool" where
  "standing (OEnter e x y z v m) = good_view v m"
| "standing (OExit e) = True"
| "standing (OMove e x y z) = False"
| "standing (OView e v) = False"

definition standing_step :: "ol_call \<Rightarrow> orth \<Rightarrow> (int \<times> orth) result" where
  "standing_step c s = (if standing c then ol_step c s else Inr (0, s))"

interpretation standing: safe_steps "\<lambda>s. ol_inv s \<and> interest_ok s" standing_step
proof
  fix s and call :: ol_call
  assume inv: "ol_inv s \<and> interest_ok s"
  show "\<exists>r s'. standing_step call s = Inr (r, s') \<and> ol_inv s' \<and> interest_ok s'"
  proof (cases "standing call")
    case True
    then consider e x y z v m where "call = OEnter e x y z v m" "good_view v m" | e where "call = OExit e"
      by (cases call) auto
    then show ?thesis
    proof cases
      case 1
      show ?thesis
      proof (cases "e \<in> o_set s")
        case True
        then show ?thesis using inv 1 by (simp add: standing_step_def ol_step_def ol_enter_entity_def)
      next
        case False
        then show ?thesis using enter_interest [of s e v m x y z no_outs] inv 1
          by (auto simp: standing_step_def ol_step_def)
      qed
    next
      case 2
      show ?thesis
      proof (cases "o_heap s e")
        case None
        then have "e \<notin> o_set s" using inv by (simp add: ol_inv_def orth_ok_def)
        then show ?thesis using inv 2 by (simp add: standing_step_def ol_step_def ol_exit_entity_def)
      next
        case (Some c)
        obtain s' where "ol_exit_entity e (Some []) s = Some (0, map_option (\<lambda>xs. xs @ e_interest c) (Some []), s')"
          "ol_inv s'" "interest_ok s'"
          by (rule exit_interest [of s e c "Some []"]) (use inv Some in auto)
        then show ?thesis using 2 by (simp add: standing_step_def ol_step_def)
      qed
    qed
  qed (use inv in \<open>simp add: standing_step_def\<close>)
qed

lemma standing_run: "list_all standing cs \<Longrightarrow> run_ops standing_step cs s = run_ops ol_step cs s"
proof (induction cs arbitrary: s)
  case (Cons c cs)
  have "run_ops standing_step cs = run_ops ol_step cs" using Cons by auto
  moreover have "standing_step c s = ol_step c s" using Cons.prems by (simp add: standing_step_def)
  ultimately show ?case by simp
qed simp

text \<open>
  In a scene that entities only enter and leave, with a view only where the event bit is set,
  the interest list of every entity holds after any sequence of calls exactly the other
  entities whose view contains it, each once.
\<close>
theorem orth_interest_exact:
  assumes "list_all standing cs"
  shows "\<exists>rs s. run_ops ol_step cs orth_init = Inr (rs, s) \<and>
    (\<forall>w c. o_heap s w = Some c \<longrightarrow> distinct (e_interest c) \<and> set (e_interest c) = {x. x \<noteq> w \<and> watches s x w})"
proof -
  have "ol_inv orth_init \<and> interest_ok orth_init" using orth_init_interest by blast
  from standing.run_safe [OF this, of cs] show ?thesis
    unfolding standing_run [OF assms] interest_ok_def by blast
qed

theorem orth_interest_exact_witness:
  "\<exists>rs s. run_ops ol_step [OEnter 1 0 0 0 10 1, OEnter 2 3 4 5 0 1, OExit 1] orth_init = Inr (rs, s) \<and>
    (\<forall>w c. o_heap s w = Some c \<longrightarrow> distinct (e_interest c) \<and> set (e_interest c) = {x. x \<noteq> w \<and> watches s x w})"
  by (rule orth_interest_exact) (simp add: good_view_def INTEREST_def)

section \<open>Calls that report too little\<close>

text \<open>The equations that evaluate a run on a concrete scene.\<close>

lemma bind_weak_cong: "m = m' \<Longrightarrow> Option.bind m f = Option.bind m' f"
  by simp

lemmas ol_eval = ol_enter_entity_def ol_update_entity_def new_entity_ctx_def ctx_reset_def update_pos_def update_old_pos_def
  set_ent_def ec_update_visual_def update_mark_def all_axes_def ol_insert_entity_def insert_head_def insert_list_def
  enter_func_def on_enter_range_def on_exit_old_range_def on_exit_old_pos_range_def leave_view_def on_exit_range_def
  in_visual_def had_mark_def set_mark_def emplace_def set_first_def set_next_def set_prev_def has_visual_def wants_def
  INTEREST_def ctx_comp_def point_def no_outs_def orth_init_def get_entity_ctx_def shift_entity_def shift_list_next_def
  shift_list_prev_def on_shift_def on_shift_entity_def on_shift_visual_def remove_list_def insert_visual_list_def
  walk_next.simps [of _ _ _ _ None] walk_next.simps [of _ _ _ _ "Some n" for n]
  walk_prev.simps [of _ _ _ None] walk_prev.simps [of _ _ _ "Some n" for n] Let_def


text \<open>Without the bit that asks for events a view is compared with what is on its left only.\<close>

lemma orth_enter_half:
  "(do { (_, s, _) \<leftarrow> ol_enter_entity 1 3 0 0 0 1 (orth_init, no_outs);
         (_, s, _) \<leftarrow> ol_enter_entity 2 8 0 0 0 1 (s, no_outs);
         (_, t, out) \<leftarrow> ol_enter_entity 3 5 0 0 10 2 (s, no_outs);
         c \<leftarrow> o_heap t 3;
         Some (me_in out, in_visual t 3 c (o_pos t (Ent 1)) (-1), in_visual t 3 c (o_pos t (Ent 2)) (-1)) }) =
   Some (Some [1], True, True)"
  by (simp add: ol_eval cong: if_weak_cong option.case_cong_weak bind_weak_cong let_weak_cong prod.case_cong_weak)

end
