(* ===== verification/SkipList.thy ===== *)
theory SkipList
  imports Prelude "HOL-Library.Word"
begin

text \<open>
  The skip-list area-of-interest index of \<open>scene/skip_list_aoi.hpp\<close> and
  \<open>scene/skip_list_aoi.cpp\<close>: one list of all entities along the x axis, with index nodes at
  fixed distances among them.

  An element of \<open>_list\<close> is an \<open>EntityCtx *\<close>: \<open>Idx i\<close> is the i-th index node, \<open>Ent e\<close> the entity \<open>e\<close>.
  Every pointer occurs once in the list, so an iterator is the element it points to, or None for
  \<open>end()\<close>; \<open>_iter\<close> of an entity is the entity. Moving before \<open>begin()\<close>, an iterator that is not in the
  list, and reading through the pointer of a deleted entity are faults. \<open>sl_heap\<close> is both
  \<open>_entity_set\<close> and the objects it points to; of an index node only the position matters. The
  object pools and log messages are left out. Coordinates are \<^typ>\<open>int\<close>: signed overflow is undefined.
\<close>

section \<open>State\<close>

datatype snode = Idx nat | Ent int

fun node_id :: "snode \<Rightarrow> int" where
  "node_id (Idx i) = 0"
| "node_id (Ent e) = e"

record skip_ent =
  sp_mask :: "8 word"
  sp_x :: int
  sp_y :: int
  sp_z :: int
  sp_visual :: int
  sp_interest :: "int list"

record skip =
  sl_max :: int
  sl_visual :: "(int \<times> int) list"
  sl_heap :: "int \<rightharpoonup> skip_ent"
  sl_index :: int
  sl_list :: "snode list"
  sl_indexer :: "int list"

definition skip_init :: skip where
  "skip_init = \<lparr>sl_max = 0, sl_visual = [], sl_heap = Map.empty, sl_index = 0, sl_list = [], sl_indexer = []\<rparr>"

definition interest :: "skip_ent \<Rightarrow> bool" where
  "interest c \<longleftrightarrow> and (sp_mask c) 1 \<noteq> 0"

definition sl_deref :: "(int \<rightharpoonup> skip_ent) \<Rightarrow> int \<Rightarrow> skip_ent result" where
  "sl_deref h e = (case h e of None \<Rightarrow> Inl Dangling | Some c \<Rightarrow> Inr c)"

definition push_interest :: "int \<Rightarrow> (int list \<Rightarrow> int list) \<Rightarrow> (int \<rightharpoonup> skip_ent) \<Rightarrow> (int \<rightharpoonup> skip_ent)" where
  "push_interest e f h = h(e := map_option (\<lambda>c. c\<lparr>sp_interest := f (sp_interest c)\<rparr>) (h e))"

section \<open>The views in use\<close>

fun visual_up :: "int \<Rightarrow> (int \<times> int) list \<Rightarrow> (int \<times> int) list option" where
  "visual_up v [] = None"
| "visual_up v ((w, c) # vs) = (if w = v then Some ((w, c + 1) # vs) else map_option (Cons (w, c)) (visual_up v vs))"

definition add_visual :: "int \<Rightarrow> skip \<Rightarrow> skip result" where
  "add_visual v s =
     bind_res (check (v \<noteq> 0) AssertionFailed) (\<lambda>_.
       case visual_up v (sl_visual s) of
         Some vs \<Rightarrow> Inr (s\<lparr>sl_visual := vs\<rparr>)
       | None \<Rightarrow> Inr (s\<lparr>sl_visual := sl_visual s @ [(v, 1)], sl_max := (if v > sl_max s then v else sl_max s)\<rparr>))"

definition del_visual :: "int \<Rightarrow> skip \<Rightarrow> skip result" where
  "del_visual v s =
     bind_res (check (v \<noteq> 0) AssertionFailed) (\<lambda>_.
       case first_index v (map fst (sl_visual s)) of
         None \<Rightarrow> Inl AssertionFailed
       | Some i \<Rightarrow>
           (let n = snd (sl_visual s ! i) - 1; vs = (sl_visual s)[i := (v, n)]
            in if n \<le> 0
               then (let ws = butlast (vs[i := last vs])
                     in Inr (s\<lparr>sl_visual := ws,
                               sl_max := (if v = sl_max s then (if ws = [] then 0 else fst (last ws)) else sl_max s)\<rparr>))
               else Inr (s\<lparr>sl_visual := vs\<rparr>)))"

section \<open>The list\<close>

definition set_index :: "int \<Rightarrow> int \<Rightarrow> skip \<Rightarrow> skip result" where
  "set_index index max_x s =
     bind_res (check (sl_index s = 0 \<and> index \<noteq> 0 \<and> max_x > 0) AssertionFailed) (\<lambda>_.
       let size = ceil_div max_x index
       in if size < 0 then Inl BadAlloc
          else Inr (fold (\<lambda>i s. s\<lparr>sl_list := sl_list s @ [Idx (length (sl_indexer s))],
                                   sl_indexer := sl_indexer s @ [int i * index]\<rparr>)
                      [0..<nat size] (s\<lparr>sl_index := index\<rparr>)))"

definition node_x :: "skip \<Rightarrow> snode \<Rightarrow> int result" where
  "node_x s n = (case n of
     Idx i \<Rightarrow> if i < length (sl_indexer s) then Inr (sl_indexer s ! i) else Inl Dangling
   | Ent e \<Rightarrow> bind_res (sl_deref (sl_heap s) e) (\<lambda>c. Inr (sp_x c)))"

text \<open>The two comparison operators of \<open>EntityCtx\<close>.\<close>

definition ctx_less :: "skip \<Rightarrow> snode \<Rightarrow> snode \<Rightarrow> bool result" where
  "ctx_less s a b = bind_res (node_x s a) (\<lambda>xa. bind_res (node_x s b) (\<lambda>xb.
     Inr (if xa = xb then node_id a = 0 \<and> node_id b \<noteq> 0 else xa < xb)))"

definition ctx_greater :: "skip \<Rightarrow> snode \<Rightarrow> snode \<Rightarrow> bool result" where
  "ctx_greater s a b = bind_res (node_x s a) (\<lambda>xa. bind_res (node_x s b) (\<lambda>xb.
     Inr (if xa = xb then node_id b = 0 \<and> node_id a \<noteq> 0 else xa > xb)))"

text \<open>The elements before an iterator, nearest first, and those after it.\<close>

definition left_of :: "snode \<Rightarrow> snode list \<Rightarrow> snode list" where
  "left_of n xs = rev (takeWhile (\<lambda>m. m \<noteq> n) xs)"

definition right_of :: "snode \<Rightarrow> snode list \<Rightarrow> snode list" where
  "right_of n xs = tl (dropWhile (\<lambda>m. m \<noteq> n) xs)"

definition first_of :: "snode list \<Rightarrow> snode option" where
  "first_of xs = (case xs of [] \<Rightarrow> None | m # ms \<Rightarrow> Some m)"

definition list_insert :: "snode option \<Rightarrow> snode \<Rightarrow> skip \<Rightarrow> skip result" where
  "list_insert it n s =
     (case it of
        None \<Rightarrow> Inr (s\<lparr>sl_list := sl_list s @ [n]\<rparr>)
      | Some m \<Rightarrow>
          if m \<notin> set (sl_list s) then Inl Dangling
          else Inr (s\<lparr>sl_list := takeWhile (\<lambda>k. k \<noteq> m) (sl_list s) @ n # dropWhile (\<lambda>k. k \<noteq> m) (sl_list s)\<rparr>))"

definition list_erase :: "snode \<Rightarrow> skip \<Rightarrow> skip" where
  "list_erase n s = s\<lparr>sl_list := remove1 n (sl_list s)\<rparr>"

section \<open>Walks over the list\<close>

text \<open>
  A callback gets the entity and a state of its own; it changes interest lists and reports, not the
  list or a position.
\<close>

definition visit_node :: "(int \<Rightarrow> 's \<Rightarrow> 's result) \<Rightarrow> snode \<Rightarrow> 's \<Rightarrow> 's result" where
  "visit_node f n st = (if node_id n \<noteq> 0 then f (node_id n) st else Inr st)"

fun walk_left :: "skip \<Rightarrow> int \<Rightarrow> (int \<Rightarrow> 's \<Rightarrow> 's result) \<Rightarrow> snode list \<Rightarrow> 's \<Rightarrow> 's result" where
  "walk_left s prev_visual f [] st = Inl OutOfRange"
| "walk_left s prev_visual f [b] st = Inr st"
| "walk_left s prev_visual f (n # m # ms) st =
     bind_res (node_x s n) (\<lambda>x.
       if x \<ge> prev_visual then bind_res (visit_node f n st) (walk_left s prev_visual f (m # ms)) else Inr st)"

fun walk_right :: "skip \<Rightarrow> int \<Rightarrow> (int \<Rightarrow> 's \<Rightarrow> 's result) \<Rightarrow> snode list \<Rightarrow> 's \<Rightarrow> 's result" where
  "walk_right s next_visual f [] st = Inr st"
| "walk_right s next_visual f (n # ns) st =
     bind_res (node_x s n) (\<lambda>x.
       if x \<le> next_visual then bind_res (visit_node f n st) (walk_right s next_visual f ns) else Inr st)"

definition each_range :: "skip \<Rightarrow> int \<Rightarrow> int \<Rightarrow> int \<Rightarrow> (int \<Rightarrow> 's \<Rightarrow> 's result) \<Rightarrow> 's \<Rightarrow> 's result" where
  "each_range s e prev_visual next_visual f st =
     bind_res (walk_left s prev_visual f (left_of (Ent e) (sl_list s)) st)
       (walk_right s next_visual f (right_of (Ent e) (sl_list s)))"

definition each_range_visual :: "skip \<Rightarrow> int \<Rightarrow> int \<Rightarrow> (int \<Rightarrow> 's \<Rightarrow> 's result) \<Rightarrow> 's \<Rightarrow> 's result" where
  "each_range_visual s e v f st =
     bind_res (sl_deref (sl_heap s) e) (\<lambda>c. each_range s e (sp_x c - v) (sp_x c + v) f st)"

text \<open>The first element that is not less, from an iterator on.\<close>

fun find_not_less :: "skip \<Rightarrow> snode \<Rightarrow> snode list \<Rightarrow> snode option result" where
  "find_not_less s n [] = Inr None"
| "find_not_less s n (m # ms) =
     bind_res (ctx_less s m n) (\<lambda>b. if b then find_not_less s n ms else Inr (Some m))"

definition insert_entity :: "int \<Rightarrow> skip \<Rightarrow> skip result" where
  "insert_entity e s =
     bind_res (sl_deref (sl_heap s) e) (\<lambda>c.
       let q = c_div (sp_x c) (sl_index s)
       in bind_res (check (sl_index s \<noteq> 0 \<and> 0 \<le> q \<and> q < int (length (sl_indexer s))) AssertionFailed) (\<lambda>_.
          bind_res (find_not_less s (Ent e) (dropWhile (\<lambda>m. m \<noteq> Idx (nat q)) (sl_list s))) (\<lambda>it.
            list_insert it (Ent e) s)))"

text \<open>The loops of \<open>sl_shift_entity\<close>; the flag is \<open>update\<close>, the last element on the left is \<open>begin()\<close>.\<close>

fun shift_right :: "skip \<Rightarrow> snode \<Rightarrow> snode list \<Rightarrow> bool \<Rightarrow> (snode option \<times> bool) result" where
  "shift_right s n [] update = Inr (None, update)"
| "shift_right s n (m # ms) update =
     bind_res (ctx_less s m n) (\<lambda>b. if b then shift_right s n ms True else Inr (Some m, update))"

fun shift_left :: "skip \<Rightarrow> snode \<Rightarrow> snode list \<Rightarrow> bool \<Rightarrow> (snode \<times> bool) result" where
  "shift_left s n [] update = Inl OutOfRange"
| "shift_left s n [b] update = Inr (b, update)"
| "shift_left s n (m # k # ks) update =
     bind_res (ctx_greater s m n) (\<lambda>b. if b then shift_left s n (k # ks) True else Inr (m, update))"

definition sl_shift_entity :: "int \<Rightarrow> int \<Rightarrow> skip \<Rightarrow> skip result" where
  "sl_shift_entity e old_x s =
     bind_res (sl_deref (sl_heap s) e) (\<lambda>c.
       bind_res
         (if sp_x c > old_x then shift_right s (Ent e) (right_of (Ent e) (sl_list s)) False
          else if sp_x c < old_x
          then bind_res (shift_left s (Ent e) (left_of (Ent e) (sl_list s)) False) (\<lambda>(m, update).
                 Inr (if update then first_of (right_of m (sl_list s)) else Some m, update))
          else Inr (Some (Ent e), False))
         (\<lambda>(it, update). if update then list_insert it (Ent e) (list_erase (Ent e) s) else Inr s))"

section \<open>Views\<close>

definition sl_in_visual :: "skip_ent \<Rightarrow> int \<Rightarrow> int \<Rightarrow> int \<Rightarrow> int \<Rightarrow> bool" where
  "sl_in_visual c x y z v \<longleftrightarrow> v > 0 \<and> v \<ge> \<bar>sp_x c - x\<bar> \<and> v \<ge> \<bar>sp_z c - z\<bar> \<and> v \<ge> \<bar>sp_y c - y\<bar>"

definition in_view :: "skip_ent \<Rightarrow> skip_ent \<Rightarrow> bool" where
  "in_view c d = sl_in_visual c (sp_x d) (sp_y d) (sp_z d) (sp_visual c)"

text \<open>\<open>me\<close> tells which of the two the report names.\<close>

definition sl_on_enter_range ::
  "int \<Rightarrow> int \<Rightarrow> int list option \<Rightarrow> bool \<Rightarrow> (int \<rightharpoonup> skip_ent) \<Rightarrow> ((int \<rightharpoonup> skip_ent) \<times> int list option) result" where
  "sl_on_enter_range ctx other list_in me h =
     bind_res (sl_deref h ctx) (\<lambda>c. bind_res (sl_deref h other) (\<lambda>d.
       Inr (if in_view c d
            then (if interest c then push_interest other (\<lambda>v. v @ [ctx]) h else h,
                  push_opt list_in [if me then other else ctx])
            else (h, list_in))))"

definition sl_on_exit_range ::
  "int \<Rightarrow> int \<Rightarrow> int list option \<Rightarrow> bool \<Rightarrow> (int \<rightharpoonup> skip_ent) \<Rightarrow> ((int \<rightharpoonup> skip_ent) \<times> int list option) result" where
  "sl_on_exit_range ctx other list_out me h =
     bind_res (sl_deref h ctx) (\<lambda>c. bind_res (sl_deref h other) (\<lambda>d.
       Inr (if in_view c d
            then (if interest c then push_interest other (\<lambda>v. snd (vec_remove v ctx)) h else h,
                  push_opt list_out [if me then other else ctx])
            else (h, list_out))))"

definition on_change_range ::
  "int \<Rightarrow> int \<Rightarrow> bool \<Rightarrow> bool \<Rightarrow> int list option \<Rightarrow> int list option \<Rightarrow> bool \<Rightarrow> (int \<rightharpoonup> skip_ent) \<Rightarrow>
   (int \<rightharpoonup> skip_ent) \<times> int list option \<times> int list option" where
  "on_change_range ctx other is_in was_in list_in list_out me h =
     (if is_in \<and> \<not> was_in
      then (push_interest other (\<lambda>v. v @ [ctx]) h, push_opt list_in [if me then other else ctx], list_out)
      else if \<not> is_in \<and> was_in
      then (push_interest other (\<lambda>v. snd (vec_remove v ctx)) h, list_in, push_opt list_out [if me then other else ctx])
      else (h, list_in, list_out))"

section \<open>Operations\<close>

text \<open>
  The vectors an operation is given: \<open>list_me_in\<close>, \<open>list_other_in\<close>, \<open>list_me_out\<close>, \<open>list_other_out\<close>,
  None for a null pointer. A callback changes them and the interest lists.
\<close>

type_synonym lists = "int list option \<times> int list option \<times> int list option \<times> int list option"

definition sl_enter_visit :: "int \<Rightarrow> int \<Rightarrow> (int \<rightharpoonup> skip_ent) \<times> lists \<Rightarrow> ((int \<rightharpoonup> skip_ent) \<times> lists) result" where
  "sl_enter_visit e other = (\<lambda>(h, mi, oi, mo, oo).
     bind_res (sl_on_enter_range e other mi True h) (\<lambda>(h1, mi1).
     bind_res (sl_on_enter_range other e oi False h1) (\<lambda>(h2, oi1). Inr (h2, mi1, oi1, mo, oo))))"

definition sl_enter_entity ::
  "int \<Rightarrow> int \<Rightarrow> int \<Rightarrow> int \<Rightarrow> int \<Rightarrow> 8 word \<Rightarrow> lists \<Rightarrow> skip \<Rightarrow> (bool \<times> lists \<times> skip) result" where
  "sl_enter_entity e x y z visual msk ls s =
     (if sl_heap s e \<noteq> None then Inr (False, ls, s)
      else
        let c = \<lparr>sp_mask = msk, sp_x = x, sp_y = y, sp_z = z, sp_visual = visual, sp_interest = []\<rparr>;
            s1 = s\<lparr>sl_heap := (sl_heap s)(e \<mapsto> c)\<rparr>
        in bind_res (if visual \<noteq> 0 \<and> interest c then add_visual visual s1 else Inr s1) (\<lambda>s2.
           bind_res (insert_entity e s2) (\<lambda>s3.
           bind_res (each_range_visual s3 e (sl_max s3) (sl_enter_visit e) (sl_heap s3, ls)) (\<lambda>(h, ls').
             Inr (True, ls', s3\<lparr>sl_heap := h\<rparr>)))))"

definition sl_exit_visit ::
  "int \<Rightarrow> int \<Rightarrow> (int \<rightharpoonup> skip_ent) \<times> int list option \<Rightarrow> ((int \<rightharpoonup> skip_ent) \<times> int list option) result" where
  "sl_exit_visit e other = (\<lambda>(h, l). sl_on_exit_range e other l True h)"

text \<open>\<open>exit_entity\<close> erases the key first and deletes the object last; the walk sees the object only.\<close>

definition sl_exit_entity :: "int \<Rightarrow> int list option \<Rightarrow> skip \<Rightarrow> (int \<times> int list option \<times> skip) result" where
  "sl_exit_entity e list s =
     (case sl_heap s e of
        None \<Rightarrow> Inr (1, list, s)
      | Some c \<Rightarrow>
          bind_res
            (if sp_visual c > 0 \<and> interest c then each_range_visual s e (sp_visual c) (sl_exit_visit e) (sl_heap s, None)
             else Inr (sl_heap s, None)) (\<lambda>(h, _).
          bind_res (sl_deref h e) (\<lambda>c'.
            Inr (0, push_opt list (sp_interest c'), list_erase (Ent e) (s\<lparr>sl_heap := h(e := None)\<rparr>)))))"

text \<open>
  The callbacks of \<open>update_entity_short\<close> and \<open>update_entity_long\<close> differ only in what they pass for
  \<open>is_in\<close> and \<open>was_in\<close>; \<open>old\<close> is the position before the move.
\<close>

definition change_visit ::
  "(skip_ent \<Rightarrow> skip_ent \<Rightarrow> bool) \<Rightarrow> (skip_ent \<Rightarrow> skip_ent \<Rightarrow> bool) \<Rightarrow> (skip_ent \<Rightarrow> skip_ent \<Rightarrow> bool) \<Rightarrow>
   (skip_ent \<Rightarrow> skip_ent \<Rightarrow> bool) \<Rightarrow> int \<Rightarrow> int \<Rightarrow> (int \<rightharpoonup> skip_ent) \<times> lists \<Rightarrow> ((int \<rightharpoonup> skip_ent) \<times> lists) result" where
  "change_visit is_in_me was_in_me is_in_other was_in_other e other = (\<lambda>(h, mi, oi, mo, oo).
     bind_res (sl_deref h e) (\<lambda>c. bind_res (sl_deref h other) (\<lambda>d.
       let (h1, mi1, mo1) = (if sp_visual c \<noteq> 0 \<and> interest c
             then on_change_range e other (is_in_me c d) (was_in_me c d) mi mo True h else (h, mi, mo));
           (h2, oi1, oo1) = (if sp_visual d \<noteq> 0 \<and> interest d
             then on_change_range other e (is_in_other c d) (was_in_other c d) oi oo False h1 else (h1, oi, oo))
       in Inr (h2, mi1, oi1, mo1, oo1))))"

definition was_me :: "int \<times> int \<times> int \<Rightarrow> skip_ent \<Rightarrow> skip_ent \<Rightarrow> bool" where
  "was_me old c d = (case old of (x, y, z) \<Rightarrow> sl_in_visual d x y z (sp_visual c))"

definition was_other :: "int \<times> int \<times> int \<Rightarrow> skip_ent \<Rightarrow> skip_ent \<Rightarrow> bool" where
  "was_other old c d = (case old of (x, y, z) \<Rightarrow> sl_in_visual d x y z (sp_visual d))"

definition update_entity_short :: "int \<Rightarrow> int \<times> int \<times> int \<Rightarrow> lists \<Rightarrow> skip \<Rightarrow> (int \<times> lists \<times> skip) result" where
  "update_entity_short e old ls s =
     bind_res (sl_deref (sl_heap s) e) (\<lambda>c.
       let x = sp_x c; old_x = fst old;
           (prev_visual, next_visual) =
             (if x > old_x then (old_x - sl_max s, x + sl_max s) else (x - sl_max s, old_x + sl_max s))
       in bind_res (sl_shift_entity e old_x s) (\<lambda>s1.
          bind_res (each_range s1 e prev_visual next_visual
              (change_visit in_view (was_me old) (\<lambda>c d. in_view d c) (was_other old) e) (sl_heap s1, ls)) (\<lambda>(h, ls').
            Inr (0, ls', s1\<lparr>sl_heap := h\<rparr>))))"

definition update_entity_long :: "int \<Rightarrow> int \<times> int \<times> int \<Rightarrow> lists \<Rightarrow> skip \<Rightarrow> (int \<times> lists \<times> skip) result" where
  "update_entity_long e old ls s =
     bind_res (each_range s e (fst old - sl_max s) (fst old + sl_max s)
         (change_visit (\<lambda>c d. False) (was_me old) (\<lambda>c d. False) (was_other old) e) (sl_heap s, ls)) (\<lambda>(h1, ls1).
     bind_res (sl_deref h1 e) (\<lambda>c.
       if sl_index s = 0 then Inl DivByZero
       else
         let s1 = s\<lparr>sl_heap := h1\<rparr>;
             old_index = c_div (fst old) (sl_index s); new_index = c_div (sp_x c) (sl_index s)
         in bind_res
              (if \<bar>new_index - old_index\<bar> > 1 then insert_entity e (list_erase (Ent e) s1)
               else sl_shift_entity e (fst old) s1) (\<lambda>s2.
            bind_res (each_range_visual s2 e (sl_max s2)
                (change_visit in_view (\<lambda>c d. False) (\<lambda>c d. in_view d c) (\<lambda>c d. False) e) (sl_heap s2, ls1)) (\<lambda>(h2, ls2).
              Inr (0, ls2, s2\<lparr>sl_heap := h2\<rparr>)))))"

definition sl_update_entity :: "int \<Rightarrow> int \<Rightarrow> int \<Rightarrow> int \<Rightarrow> lists \<Rightarrow> skip \<Rightarrow> (int \<times> lists \<times> skip) result" where
  "sl_update_entity e x y z ls s =
     (case sl_heap s e of
        None \<Rightarrow> Inr (-1, ls, s)
      | Some c \<Rightarrow>
          let old = (sp_x c, sp_y c, sp_z c);
              s1 = s\<lparr>sl_heap := (sl_heap s)(e \<mapsto> c\<lparr>sp_x := x, sp_y := y, sp_z := z\<rparr>)\<rparr>
          in if \<bar>x - sp_x c\<bar> > 2 * sl_max s then update_entity_long e old ls s1
             else update_entity_short e old ls s1)"

definition visual_visit :: "int \<Rightarrow> int \<Rightarrow> int \<Rightarrow> (int \<rightharpoonup> skip_ent) \<times> lists \<Rightarrow> ((int \<rightharpoonup> skip_ent) \<times> lists) result" where
  "visual_visit old_visual e other = (\<lambda>(h, mi, oi, mo, oo).
     bind_res (sl_deref h e) (\<lambda>c. bind_res (sl_deref h other) (\<lambda>d.
       let (h1, mi1, mo1) = on_change_range e other (in_view c d)
             (sl_in_visual c (sp_x d) (sp_y d) (sp_z d) old_visual) mi mo True h
       in Inr (h1, mi1, oi, mo1, oo))))"

definition sl_update_visual :: "int \<Rightarrow> int \<Rightarrow> lists \<Rightarrow> skip \<Rightarrow> (int \<times> lists \<times> skip) result" where
  "sl_update_visual e visual ls s =
     (case sl_heap s e of
        None \<Rightarrow> Inr (-1, ls, s)
      | Some c \<Rightarrow>
          if visual = sp_visual c then Inr (0, ls, s)
          else
            bind_res (check (interest c) AssertionFailed) (\<lambda>_.
            bind_res (if sp_visual c \<noteq> 0 then del_visual (sp_visual c) s else Inr s) (\<lambda>s1.
              let s2 = s1\<lparr>sl_heap := (sl_heap s1)(e \<mapsto> c\<lparr>sp_visual := visual\<rparr>)\<rparr>
              in bind_res (if visual \<noteq> 0 then add_visual visual s2 else Inr s2) (\<lambda>s3.
                 let max_visual = max (sp_visual c) visual
                 in bind_res (each_range s3 e (sp_x c - max_visual) (sp_x c + max_visual)
                        (visual_visit (sp_visual c) e) (sl_heap s3, ls)) (\<lambda>(h, ls').
                      Inr (0, ls', s3\<lparr>sl_heap := h\<rparr>))))))"

text \<open>The result of the function passed to \<open>each_entity\<close> is not looked at.\<close>

definition sl_each_entity :: "(int \<Rightarrow> 's \<Rightarrow> (bool \<times> 's) result) \<Rightarrow> skip \<Rightarrow> 's \<Rightarrow> 's result" where
  "sl_each_entity f s = fold_res (visit_node (\<lambda>e st. bind_res (f e st) (\<lambda>(_, st'). Inr st'))) (sl_list s)"

fun sl_valid_from :: "skip \<Rightarrow> snode option \<Rightarrow> bool \<Rightarrow> snode list \<Rightarrow> bool result" where
  "sl_valid_from s prev ok [] = Inr ok"
| "sl_valid_from s prev ok (n # ns) =
     bind_res (case prev of None \<Rightarrow> Inr False | Some m \<Rightarrow> ctx_greater s m n) (\<lambda>g.
       sl_valid_from s (Some n) (ok \<and> \<not> g) ns)"

definition sl_valid_dump :: "skip \<Rightarrow> bool result" where
  "sl_valid_dump s = sl_valid_from s None True (sl_list s)"

section \<open>Calls\<close>

datatype sl_call = SEnter int int int int int "8 word" | SExit int | SMove int int int int | SView int int

text \<open>A call with vectors for the reports; its result is the return code and the reports.\<close>

definition sl_step :: "sl_call \<Rightarrow> skip \<Rightarrow> ((int \<times> lists) \<times> skip) result" where
  "sl_step c s =
     (let ls = (Some [], Some [], Some [], Some [])
      in case c of
        SEnter e x y z v m \<Rightarrow> bind_res (sl_enter_entity e x y z v m ls s) (\<lambda>(r, ls', s'). Inr ((if r then 1 else 0, ls'), s'))
      | SExit e \<Rightarrow> bind_res (sl_exit_entity e (Some []) s) (\<lambda>(r, l, s'). Inr ((r, l, None, None, None), s'))
      | SMove e x y z \<Rightarrow> bind_res (sl_update_entity e x y z ls s) (\<lambda>(r, ls', s'). Inr ((r, ls'), s'))
      | SView e v \<Rightarrow> bind_res (sl_update_visual e v ls s) (\<lambda>(r, ls', s'). Inr ((r, ls'), s')))"

end
