(* ===== verification/SkipListOrder.thy ===== *)
theory SkipListOrder
  imports SkipList
begin

text \<open>
  The list of the skip-list index: behind the first index node it is sorted, an entity splits it in
  two, and a walk from the entity visits exactly the entities of a range of the x axis.
\<close>

section \<open>Keys\<close>

text \<open>The two comparison operators compare \<open>key\<close>: by position, an index before an entity.\<close>

definition npos :: "skip \<Rightarrow> snode \<Rightarrow> int" where
  "npos s n = (case n of Idx i \<Rightarrow> sl_indexer s ! i | Ent e \<Rightarrow> sp_x (the (sl_heap s e)))"

definition key :: "skip \<Rightarrow> snode \<Rightarrow> int" where
  "key s n = 2 * npos s n + (if node_id n = 0 then 0 else 1)"

definition known :: "skip \<Rightarrow> snode \<Rightarrow> bool" where
  "known s n = (case n of Idx i \<Rightarrow> i < length (sl_indexer s) | Ent e \<Rightarrow> sl_heap s e \<noteq> None)"

lemma node_x_known: "known s n \<Longrightarrow> node_x s n = Inr (npos s n)"
  by (auto simp: known_def node_x_def npos_def sl_deref_def split: snode.splits)

lemma ctx_less_key: "known s m \<Longrightarrow> known s n \<Longrightarrow> ctx_less s m n = Inr (key s m < key s n)"
  by (auto simp: ctx_less_def node_x_known key_def)

lemma ctx_greater_key: "known s m \<Longrightarrow> known s n \<Longrightarrow> ctx_greater s m n = Inr (key s m > key s n)"
  by (auto simp: ctx_greater_def node_x_known key_def)

lemma key_npos: "key s m \<le> key s n \<Longrightarrow> npos s m \<le> npos s n"
  by (auto simp: key_def split: if_splits)

lemma key_cong:
  "npos s' n = npos s n \<Longrightarrow> key s' n = key s n"
  by (simp add: key_def)

section \<open>Searching\<close>

lemma find_not_less_key:
  "\<forall>m \<in> set ms. known s m \<Longrightarrow> known s n \<Longrightarrow>
     find_not_less s n ms = Inr (first_of (dropWhile (\<lambda>m. key s m < key s n) ms))"
  by (induction ms) (auto simp: ctx_less_key first_of_def)

lemma shift_right_key:
  "\<forall>m \<in> set ms. known s m \<Longrightarrow> known s n \<Longrightarrow>
     shift_right s n ms upd = Inr (first_of (dropWhile (\<lambda>m. key s m < key s n) ms),
       upd \<or> takeWhile (\<lambda>m. key s m < key s n) ms \<noteq> [])"
  by (induction ms arbitrary: upd) (auto simp: ctx_less_key first_of_def)

lemma shift_left_key:
  "\<forall>m \<in> set ms. known s m \<Longrightarrow> known s n \<Longrightarrow>
     shift_left s n (ms @ [b]) upd = Inr (hd (dropWhile (\<lambda>m. key s m > key s n) ms @ [b]),
       upd \<or> takeWhile (\<lambda>m. key s m > key s n) ms \<noteq> [])"
proof (induction ms arbitrary: upd)
  case (Cons m ms)
  obtain k ks where "ms @ [b] = k # ks" by (cases "ms @ [b]") auto
  then show ?case using Cons by (auto simp: ctx_greater_key)
qed simp

lemma list_insert_split:
  assumes "sl_list s = xs @ ys" "distinct (xs @ ys)"
  shows "list_insert (first_of ys) n s = Inr (s\<lparr>sl_list := xs @ n # ys\<rparr>)"
proof (cases ys)
  case (Cons m ms)
  then have "m \<notin> set xs" using assms(2) by auto
  then have "takeWhile (\<lambda>k. k \<noteq> m) (xs @ m # ms) = xs" "dropWhile (\<lambda>k. k \<noteq> m) (xs @ m # ms) = m # ms"
    by (auto simp: takeWhile_append dropWhile_append takeWhile_eq_all_conv)
  then show ?thesis using Cons assms(1) by (simp add: list_insert_def first_of_def)
qed (use assms in \<open>simp add: list_insert_def first_of_def\<close>)

lemma sides_split:
  assumes "distinct (xs @ n # ys)"
  shows "left_of n (xs @ n # ys) = rev xs" "right_of n (xs @ n # ys) = ys" "remove1 n (xs @ n # ys) = xs @ ys"
proof -
  have "n \<notin> set xs" using assms by auto
  then show "left_of n (xs @ n # ys) = rev xs" "right_of n (xs @ n # ys) = ys" "remove1 n (xs @ n # ys) = xs @ ys"
    by (auto simp: left_of_def right_of_def takeWhile_append dropWhile_append takeWhile_eq_all_conv remove1_append)
qed

section \<open>The shape of the list\<close>

text \<open>
  \<open>frame\<close> is the shape without an order; \<open>split s e as bs\<close>: the list is cut at the entity \<open>e\<close> and sorted
  apart from it, \<open>placed\<close> that \<open>e\<close> itself stands right.
\<close>

definition frame :: "skip \<Rightarrow> bool" where
  "frame s \<longleftrightarrow> 0 < sl_index s \<and> sl_indexer s \<noteq> [] \<and>
     (\<forall>i < length (sl_indexer s). sl_indexer s ! i = int i * sl_index s) \<and>
     distinct (sl_list s) \<and> (\<exists>ns. sl_list s = Idx 0 # ns) \<and> 0 \<notin> dom (sl_heap s) \<and>
     set (sl_list s) = Idx ` {..< length (sl_indexer s)} \<union> Ent ` dom (sl_heap s)"

abbreviation in_order :: "skip \<Rightarrow> snode list \<Rightarrow> bool" where
  "in_order s \<equiv> sorted_wrt (\<lambda>m n. key s m \<le> key s n)"

definition sorted_list :: "skip \<Rightarrow> bool" where
  "sorted_list s \<longleftrightarrow> frame s \<and> in_order s (tl (sl_list s))"

definition split :: "skip \<Rightarrow> int \<Rightarrow> snode list \<Rightarrow> snode list \<Rightarrow> bool" where
  "split s e as bs \<longleftrightarrow> frame s \<and> sl_list s = Idx 0 # as @ Ent e # bs \<and> in_order s (as @ bs)"

definition placed :: "skip \<Rightarrow> int \<Rightarrow> int \<Rightarrow> snode list \<Rightarrow> snode list \<Rightarrow> bool" where
  "placed s p e as bs \<longleftrightarrow> (\<forall>a \<in> set as. key s a \<le> 2 * p + 1) \<and> (\<forall>b \<in> set bs. 2 * p + 1 \<le> key s b)"

lemma frame_known: "frame s \<Longrightarrow> n \<in> set (sl_list s) \<Longrightarrow> known s n"
  by (auto simp: frame_def known_def)

lemma frame_Ent: "frame s \<Longrightarrow> Ent e \<in> set (sl_list s) \<longleftrightarrow> sl_heap s e \<noteq> None"
  by (auto simp: frame_def)

lemma frame_id: "frame s \<Longrightarrow> sl_heap s e \<noteq> None \<Longrightarrow> e \<noteq> 0"
  by (auto simp: frame_def)

lemma sorted_list_split:
  assumes "sorted_list s" "sl_heap s e = Some c"
  shows "\<exists>as bs. split s e as bs \<and> placed s (sp_x c) e as bs"
proof -
  have fr: "frame s" using assms(1) by (simp add: sorted_list_def)
  then obtain ns where ns: "sl_list s = Idx 0 # ns" by (auto simp: frame_def)
  have "Ent e \<in> set ns" using frame_Ent [OF fr, of e] assms(2) ns by auto
  then obtain as bs where ab: "ns = as @ Ent e # bs" by (meson split_list)
  have "key s (Ent e) = 2 * sp_x c + 1" using assms(2) frame_id [OF fr, of e] by (simp add: key_def npos_def)
  then show ?thesis using assms(1) fr ns ab
    by (intro exI [of _ as] exI [of _ bs])
      (auto simp: sorted_list_def split_def placed_def sorted_wrt_append)
qed

lemma split_sorted_list:
  assumes "split s e as bs" "placed s (sp_x c) e as bs" "sl_heap s e = Some c"
  shows "sorted_list s"
proof -
  have fr: "frame s" using assms(1) by (simp add: split_def)
  have "key s (Ent e) = 2 * sp_x c + 1" using assms(3) frame_id [OF fr, of e] by (simp add: key_def npos_def)
  then show ?thesis using assms by (auto simp: sorted_list_def split_def placed_def sorted_wrt_append)
qed

section \<open>Walking a range\<close>

definition ents :: "snode list \<Rightarrow> int list" where
  "ents ns = filter (\<lambda>e. e \<noteq> 0) (map node_id ns)"

lemma ents_simps [simp]: "ents [] = []" "ents (xs @ ys) = ents xs @ ents ys"
  by (simp_all add: ents_def)

lemma fold_visit: "fold_res (visit_node f) ns st = fold_res f (ents ns) st"
  by (induction ns arbitrary: st) (auto simp: ents_def visit_node_def intro: bind_res_cong)

lemma set_ents: "0 \<notin> {e. Ent e \<in> set ns} \<Longrightarrow> set (ents ns) = {e. Ent e \<in> set ns}"
proof -
  assume z: "0 \<notin> {e. Ent e \<in> set ns}"
  have n: "node_id n \<noteq> 0 \<Longrightarrow> n = Ent (node_id n)" for n by (cases n) auto
  have "e \<in> set (ents ns) \<longleftrightarrow> e \<noteq> 0 \<and> Ent e \<in> set ns" for e
  proof
    assume "e \<in> set (ents ns)"
    then obtain m where "m \<in> set ns" "e = node_id m" "e \<noteq> 0" by (auto simp: ents_def)
    then show "e \<noteq> 0 \<and> Ent e \<in> set ns" using n [of m] by simp
  qed (force simp: ents_def)
  then show ?thesis using z by auto
qed

lemma distinct_ents: "distinct ns \<Longrightarrow> distinct (ents ns)"
proof (induction ns)
  case (Cons n ns)
  have "node_id m = node_id n \<Longrightarrow> node_id n \<noteq> 0 \<Longrightarrow> m = n" for m by (cases m; cases n) auto
  then have "node_id n \<noteq> 0 \<Longrightarrow> node_id n \<notin> set (ents ns)" using Cons.prems by (auto simp: ents_def)
  then show ?case using Cons by (auto simp: ents_def)
qed simp

lemma walk_left_take:
  "\<forall>n \<in> set ns. known s n \<Longrightarrow>
     walk_left s lo f (ns @ [b]) st = fold_res (visit_node f) (takeWhile (\<lambda>n. npos s n \<ge> lo) ns) st"
proof (induction ns arbitrary: st)
  case (Cons n ns)
  obtain m ms where "ns @ [b] = m # ms" by (cases "ns @ [b]") auto
  then show ?case using Cons by (auto simp: node_x_known intro: bind_res_cong)
qed simp

lemma walk_right_take:
  "\<forall>n \<in> set ns. known s n \<Longrightarrow>
     walk_right s hi f ns st = fold_res (visit_node f) (takeWhile (\<lambda>n. npos s n \<le> hi) ns) st"
  by (induction ns arbitrary: st) (auto simp: node_x_known intro: bind_res_cong)

lemma takeWhile_mono_key:
  "sorted_wrt R ns \<Longrightarrow> (\<And>m n. m \<in> set ns \<Longrightarrow> n \<in> set ns \<Longrightarrow> R m n \<Longrightarrow> P n \<Longrightarrow> P m) \<Longrightarrow> takeWhile P ns = filter P ns"
proof (induction ns)
  case (Cons n ns)
  then have "\<not> P n \<Longrightarrow> filter P ns = []" by (auto simp: filter_empty_conv)
  moreover have "takeWhile P ns = filter P ns"
    by (rule Cons.IH) (use Cons.prems in auto)
  ultimately show ?case by simp
qed simp

definition range_ids :: "skip \<Rightarrow> snode list \<Rightarrow> snode list \<Rightarrow> int \<Rightarrow> int \<Rightarrow> int list" where
  "range_ids s as bs lo hi = ents (rev (filter (\<lambda>n. npos s n \<ge> lo) as) @ filter (\<lambda>n. npos s n \<le> hi) bs)"

lemma each_range_ids:
  assumes "split s e as bs"
  shows "each_range s e lo hi f st = fold_res f (range_ids s as bs lo hi) st"
proof -
  have fr: "frame s" and l: "sl_list s = Idx 0 # as @ Ent e # bs" and o: "in_order s (as @ bs)"
    using assms by (simp_all add: split_def)
  have d: "distinct ((Idx 0 # as) @ Ent e # bs)" using fr l by (simp add: frame_def)
  have k: "\<forall>n \<in> set (rev as). known s n" "\<forall>n \<in> set bs. known s n" using frame_known [OF fr] l by auto
  have so: "sorted_wrt (\<lambda>m n. key s n \<le> key s m) (rev as)" "in_order s bs"
    using o by (simp_all add: sorted_wrt_append sorted_wrt_rev)
  have "takeWhile (\<lambda>n. npos s n \<ge> lo) (rev as) = rev (filter (\<lambda>n. npos s n \<ge> lo) as)"
    unfolding rev_filter by (rule takeWhile_mono_key [OF so(1)]) (use key_npos order_trans in blast)
  moreover have "takeWhile (\<lambda>n. npos s n \<le> hi) bs = filter (\<lambda>n. npos s n \<le> hi) bs"
    by (rule takeWhile_mono_key [OF so(2)]) (use key_npos order_trans in blast)
  moreover have "left_of (Ent e) (sl_list s) = rev as @ [Idx 0]" "right_of (Ent e) (sl_list s) = bs"
    using sides_split [OF d] l by simp_all
  ultimately show ?thesis
    by (simp add: each_range_def walk_left_take [OF k(1)] walk_right_take [OF k(2)] fold_visit range_ids_def fold_res_append)
      (rule bind_res_cong, simp_all add: walk_right_take [OF k(2)] fold_visit)
qed

lemma sl_range_ids_set:
  assumes "split s e as bs" "placed s p e as bs" "lo \<le> p \<longleftrightarrow> p \<le> hi"
  shows "set (range_ids s as bs lo hi) = {k. k \<noteq> e \<and> (\<exists>d. sl_heap s k = Some d \<and> lo \<le> sp_x d \<and> sp_x d \<le> hi)}"
    and "distinct (range_ids s as bs lo hi)"
proof -
  have fr: "frame s" and l: "sl_list s = Idx 0 # as @ Ent e # bs"
    using assms(1) by (simp_all add: split_def)
  then have d: "distinct (as @ Ent e # bs)" by (simp add: frame_def)
  let ?ns = "rev (filter (\<lambda>n. npos s n \<ge> lo) as) @ filter (\<lambda>n. npos s n \<le> hi) bs"
  have k: "Ent k \<in> set (as @ bs) \<longleftrightarrow> k \<noteq> e \<and> sl_heap s k \<noteq> None" for k
    using frame_Ent [OF fr, of k] l d by auto
  have z: "sl_heap s 0 = None" using fr by (auto simp: frame_def)
  have ke: "key s (Ent k) = 2 * npos s (Ent k) + 1" if "Ent k \<in> set (as @ bs)" for k
    using iffD1 [OF k that] z by (cases "k = 0") (simp_all add: key_def)
  have pa: "npos s (Ent k) \<le> p" if "Ent k \<in> set as" for k
  proof -
    have "key s (Ent k) \<le> 2 * p + 1" using assms(2) that by (simp add: placed_def)
    then show ?thesis using ke [of k] that by simp
  qed
  have pb: "p \<le> npos s (Ent k)" if "Ent k \<in> set bs" for k
  proof -
    have "2 * p + 1 \<le> key s (Ent k)" using assms(2) that by (simp add: placed_def)
    then show ?thesis using ke [of k] that by simp
  qed
  have "Ent k \<in> set ?ns \<longleftrightarrow> k \<noteq> e \<and> (\<exists>d. sl_heap s k = Some d \<and> lo \<le> sp_x d \<and> sp_x d \<le> hi)" for k
  proof -
    have "Ent k \<in> set as \<Longrightarrow> lo \<le> npos s (Ent k) \<Longrightarrow> npos s (Ent k) \<le> hi"
      "Ent k \<in> set bs \<Longrightarrow> npos s (Ent k) \<le> hi \<Longrightarrow> lo \<le> npos s (Ent k)"
      using assms(3) pa [of k] pb [of k] by linarith+
    then have "Ent k \<in> set ?ns \<longleftrightarrow> Ent k \<in> set (as @ bs) \<and> lo \<le> npos s (Ent k) \<and> npos s (Ent k) \<le> hi"
      unfolding set_append set_rev set_filter Un_iff mem_Collect_eq by blast
    moreover have "npos s (Ent k) = sp_x d" if "sl_heap s k = Some d" for d using that by (simp add: npos_def)
    ultimately show ?thesis unfolding k by (cases "sl_heap s k") simp_all
  qed
  moreover from this have "0 \<notin> {k. Ent k \<in> set ?ns}" using z by simp
  ultimately show "set (range_ids s as bs lo hi) = {k. k \<noteq> e \<and> (\<exists>d. sl_heap s k = Some d \<and> lo \<le> sp_x d \<and> sp_x d \<le> hi)}"
    unfolding range_ids_def using set_ents by blast
  show "distinct (range_ids s as bs lo hi)" unfolding range_ids_def by (rule distinct_ents) (use d in auto)
qed

section \<open>Moving an entity in the list\<close>

lemma key_frame [simp]:
  "npos (s\<lparr>sl_list := l\<rparr>) = npos s" "key (s\<lparr>sl_list := l\<rparr>) = key s" "known (s\<lparr>sl_list := l\<rparr>) = known s"
  "placed (s\<lparr>sl_list := l\<rparr>) = placed s"
  by (auto simp: fun_eq_iff npos_def key_def known_def placed_def split: snode.split)

lemma frame_relist:
  "frame s \<Longrightarrow> mset l = mset (sl_list s) \<Longrightarrow> l = Idx 0 # ns \<Longrightarrow> frame (s\<lparr>sl_list := l\<rparr>)"
  using mset_eq_setD [of l "sl_list s"] mset_eq_imp_distinct_iff [of l "sl_list s"]
  by (simp add: frame_def)

lemma split_relist:
  assumes "split s e as bs" "as' @ bs' = as @ bs"
  shows "split (s\<lparr>sl_list := Idx 0 # as' @ Ent e # bs'\<rparr>) e as' bs'"
proof -
  have "mset (as' @ bs') = mset (as @ bs)" using assms(2) by simp
  then have "mset (Idx 0 # as' @ Ent e # bs') = mset (sl_list s)" using assms(1) by (simp add: split_def)
  from frame_relist [OF _ this refl] show ?thesis using assms by (simp add: split_def)
qed

lemma split_less:
  assumes "in_order s bs"
  shows "\<forall>b \<in> set (dropWhile (\<lambda>m. key s m < k) bs). k \<le> key s b"
proof (cases "dropWhile (\<lambda>m. key s m < k) bs")
  case (Cons b ds)
  then have "k \<le> key s b" using hd_dropWhile [of "\<lambda>m. key s m < k" bs] by simp
  moreover have "in_order s (b # ds)" using sorted_wrt_dropWhile [OF assms] Cons by metis
  ultimately show ?thesis unfolding Cons by auto
next
  case Nil
  show ?thesis unfolding Nil by simp
qed

lemma split_greater:
  assumes "in_order s as"
  shows "\<forall>a \<in> set (dropWhile (\<lambda>m. key s m > k) (rev as)). key s a \<le> k"
proof (cases "dropWhile (\<lambda>m. key s m > k) (rev as)")
  case (Cons b ds)
  then have "key s b \<le> k" using hd_dropWhile [of "\<lambda>m. key s m > k" "rev as"] by simp
  moreover have "sorted_wrt (\<lambda>m n. key s n \<le> key s m) (rev as)" using assms by (simp add: sorted_wrt_rev)
  then have "sorted_wrt (\<lambda>m n. key s n \<le> key s m) (b # ds)" unfolding Cons [symmetric] by (rule sorted_wrt_dropWhile)
  ultimately show ?thesis unfolding Cons by auto
next
  case Nil
  show ?thesis unfolding Nil by simp
qed

lemma placed_shift_right:
  assumes "in_order s (as @ bs)" "placed s old e as bs" "old \<le> p"
  shows "placed s p e (as @ takeWhile (\<lambda>m. key s m < 2 * p + 1) bs) (dropWhile (\<lambda>m. key s m < 2 * p + 1) bs)"
proof -
  have "in_order s bs" using assms(1) by (simp add: sorted_wrt_append)
  from split_less [OF this] have "\<forall>b \<in> set (dropWhile (\<lambda>m. key s m < 2 * p + 1) bs). 2 * p + 1 \<le> key s b" .
  then show ?thesis using assms(2,3) by (auto simp: placed_def dest: set_takeWhileD)
qed

lemma placed_shift_left:
  assumes "in_order s (as @ bs)" "placed s old e as bs" "p \<le> old"
  shows "placed s p e (rev (dropWhile (\<lambda>m. key s m > 2 * p + 1) (rev as)))
    (rev (takeWhile (\<lambda>m. key s m > 2 * p + 1) (rev as)) @ bs)"
proof -
  have "in_order s as" using assms(1) by (simp add: sorted_wrt_append)
  from split_greater [OF this] have "\<forall>a \<in> set (dropWhile (\<lambda>m. key s m > 2 * p + 1) (rev as)). key s a \<le> 2 * p + 1" .
  then show ?thesis using assms(2,3) by (auto simp: placed_def dest: set_takeWhileD)
qed

lemma right_of_hd:
  assumes "distinct (b # rev ds @ ys)"
  shows "right_of (hd (ds @ [b])) (b # rev ds @ ys) = ys"
proof (cases ds)
  case (Cons d ds')
  then show ?thesis using assms sides_split(2) [of "b # rev ds'" d ys] by simp
qed (simp add: right_of_def)

lemma shift_entity_ok:
  assumes sp: "split s e as bs" and pl: "placed s old e as bs" and c: "sl_heap s e = Some c"
  shows "\<exists>as' bs'. sl_shift_entity e old s = Inr (s\<lparr>sl_list := Idx 0 # as' @ Ent e # bs'\<rparr>) \<and> as' @ bs' = as @ bs \<and>
    placed s (sp_x c) e as' bs'"
proof -
  let ?p = "sp_x c"
  have fr: "frame s" and l: "sl_list s = Idx 0 # as @ Ent e # bs" and o: "in_order s (as @ bs)"
    using sp by (simp_all add: split_def)
  have d: "distinct ((Idx 0 # as) @ Ent e # bs)" using fr l by (simp add: frame_def)
  have k: "\<forall>n \<in> set (rev as). known s n" "\<forall>n \<in> set bs. known s n" "known s (Ent e)"
    using frame_known [OF fr] l by auto
  have ke: "key s (Ent e) = 2 * ?p + 1" using c frame_id [OF fr, of e] by (simp add: key_def npos_def)
  note sides = sides_split [OF d] and er = list_erase_def [of "Ent e" s]
  consider "?p > old" | "?p < old" | "?p = old" by linarith
  then show ?thesis
  proof cases
    case 1
    let ?T = "takeWhile (\<lambda>m. key s m < 2 * ?p + 1) bs" and ?D = "dropWhile (\<lambda>m. key s m < 2 * ?p + 1) bs"
    have "list_insert (first_of ?D) (Ent e) (list_erase (Ent e) s) = Inr (s\<lparr>sl_list := Idx 0 # as @ ?T @ Ent e # ?D\<rparr>)"
      using list_insert_split [of "list_erase (Ent e) s" "Idx 0 # as @ ?T" ?D] sides(3) d l by (simp add: er)
    moreover have "?T = [] \<Longrightarrow> s\<lparr>sl_list := Idx 0 # as @ ?T @ Ent e # ?D\<rparr> = s"
      using l takeWhile_dropWhile_id [of "\<lambda>m. key s m < 2 * ?p + 1" bs] by simp
    ultimately have "sl_shift_entity e old s = Inr (s\<lparr>sl_list := Idx 0 # (as @ ?T) @ Ent e # ?D\<rparr>)"
      using 1 c l sides(2) by (simp add: sl_shift_entity_def sl_deref_def shift_right_key [OF k(2,3)] ke)
    then show ?thesis using placed_shift_right [OF o pl, of ?p] 1
      by (intro exI [of _ "as @ ?T"] exI [of _ ?D]) simp
  next
    case 2
    define ts where "ts = rev (takeWhile (\<lambda>m. key s m > 2 * ?p + 1) (rev as))"
    define ds where "ds = dropWhile (\<lambda>m. key s m > 2 * ?p + 1) (rev as)"
    have as: "as = rev ds @ ts" unfolding ts_def ds_def by (metis rev_append rev_rev_ident takeWhile_dropWhile_id)
    have l2: "sl_list s = Idx 0 # rev ds @ ts @ Ent e # bs" using l as by simp
    have di: "distinct (Idx 0 # rev ds @ ts @ Ent e # bs)" using d as by simp
    let ?s' = "s\<lparr>sl_list := Idx 0 # rev ds @ Ent e # ts @ bs\<rparr>"
    have ri: "right_of (hd (ds @ [Idx 0])) (sl_list s) = ts @ Ent e # bs"
      unfolding l2 by (rule right_of_hd [OF di])
    have er2: "sl_list (list_erase (Ent e) s) = (Idx 0 # rev ds) @ ts @ bs" using sides(3) l as by (simp add: er)
    have "distinct ((Idx 0 # rev ds) @ ts @ bs)" using di by auto
    then have "list_insert (first_of (ts @ bs)) (Ent e) (list_erase (Ent e) s) = Inr ?s'"
      using list_insert_split [OF er2] by (simp add: er)
    moreover have "ts \<noteq> [] \<Longrightarrow> first_of (ts @ Ent e # bs) = first_of (ts @ bs)" by (cases ts) (simp_all add: first_of_def)
    moreover have "ts = [] \<Longrightarrow> ?s' = s" using l2 by simp
    moreover have "shift_left s (Ent e) (rev as @ [Idx 0]) False = Inr (hd (ds @ [Idx 0]), ts \<noteq> [])"
      using shift_left_key [OF k(1,3)] by (simp add: ke ts_def ds_def)
    moreover have "left_of (Ent e) (sl_list s) = rev as @ [Idx 0]" using sides(1) l by simp
    ultimately have "sl_shift_entity e old s = Inr ?s'"
      using 2 c ri by (cases "ts = []") (simp_all add: sl_shift_entity_def sl_deref_def)
    moreover have "placed s ?p e (rev ds) (ts @ bs)"
      unfolding ts_def ds_def by (rule placed_shift_left [OF o pl]) (use 2 in simp)
    moreover have "rev ds @ ts @ bs = as @ bs" unfolding as by simp
    ultimately show ?thesis by blast
  next
    case 3
    then show ?thesis using c l pl by (intro exI [of _ as] exI [of _ bs]) (simp add: sl_shift_entity_def sl_deref_def)
  qed
qed

section \<open>Inserting an entity\<close>

text \<open>The list without the entity that is about to be inserted.\<close>

definition without :: "int \<Rightarrow> skip \<Rightarrow> skip" where
  "without e s = s\<lparr>sl_heap := (sl_heap s)(e := None)\<rparr>"

lemma without_frame [simp]:
  "sl_list (without e s) = sl_list s" "sl_index (without e s) = sl_index s" "sl_indexer (without e s) = sl_indexer s"
  "sl_heap (without e s) = (sl_heap s)(e := None)"
  by (simp_all add: without_def)

lemma without_known: "known (without e s) n \<Longrightarrow> known s n \<and> key (without e s) n = key s n"
  by (auto simp: known_def key_def npos_def split: snode.splits if_splits)

lemma frame_insert:
  assumes "frame (without e s)" "sl_heap s e \<noteq> None" "e \<noteq> 0" "sl_list s = Idx 0 # as @ bs"
  shows "frame (s\<lparr>sl_list := Idx 0 # as @ Ent e # bs\<rparr>)"
proof -
  have "Ent e \<notin> set (sl_list s)" using assms(1) by (auto simp: frame_def)
  moreover have "insert e (dom (sl_heap s) - {e}) = dom (sl_heap s)" using assms(2) by auto
  then have "Ent ` dom (sl_heap s) = insert (Ent e) (Ent ` (dom (sl_heap s) - {e}))" by (metis image_insert)
  moreover have "set (Idx 0 # as @ Ent e # bs) = insert (Ent e) (set (sl_list s))" using assms(4) by auto
  moreover have "distinct (Idx 0 # as @ Ent e # bs) \<longleftrightarrow> Ent e \<notin> set (sl_list s) \<and> distinct (sl_list s)"
    using assms(4) by auto
  moreover have "dom ((sl_heap s)(e := None)) = dom (sl_heap s) - {e}" by auto
  ultimately show ?thesis using assms(1,3) by (simp add: frame_def domIff)
qed

lemma insert_entity_ok:
  assumes so: "sorted_list (without e s)" and c: "sl_heap s e = Some c" and e: "e \<noteq> 0"
    and x: "0 \<le> sp_x c" "sp_x c div sl_index s < int (length (sl_indexer s))"
  shows "\<exists>as bs. insert_entity e s = Inr (s\<lparr>sl_list := Idx 0 # as @ Ent e # bs\<rparr>) \<and> sl_list s = Idx 0 # as @ bs \<and>
    split (s\<lparr>sl_list := Idx 0 # as @ Ent e # bs\<rparr>) e as bs \<and> placed s (sp_x c) e as bs"
proof -
  let ?p = "sp_x c"
  define q where "q = nat (?p div sl_index s)"
  have fr: "frame (without e s)" and o': "in_order (without e s) (tl (sl_list s))"
    using so by (simp_all add: sorted_list_def)
  have ix: "0 < sl_index s" and q: "q < length (sl_indexer s)" "int q = ?p div sl_index s"
    using fr x by (auto simp: frame_def q_def pos_imp_zdiv_nonneg_iff)
  have pos: "int q * sl_index s \<le> ?p" unfolding q(2)
    using pos_mod_sign [OF ix, of ?p] div_mult_mod_eq [of ?p "sl_index s"] by linarith
  have kn: "known s n \<and> key (without e s) n = key s n" if "n \<in> set (sl_list s)" for n
    by (rule without_known, rule frame_known [OF fr]) (simp add: that)
  obtain ns where ns: "sl_list s = Idx 0 # ns" using fr by (auto simp: frame_def)
  have o: "in_order s ns" using o' kn ns by (simp add: sorted_wrt_iff_nth_less)
  have ke: "key s (Ent e) = 2 * ?p + 1" and kne: "known s (Ent e)" using c e by (simp_all add: key_def npos_def known_def)
  have ki: "key s (Idx q) < 2 * ?p + 1"
  proof -
    have "sl_indexer s ! q = int q * sl_index s" using fr q(1) by (simp add: frame_def)
    then show ?thesis using pos by (simp add: key_def npos_def)
  qed
  have "Idx q \<in> set (sl_list s)" using fr q(1) by (auto simp: frame_def)
  then obtain pre post where pp: "sl_list s = pre @ Idx q # post" "Idx q \<notin> set pre" by (meson split_list_first)
  define T where "T = takeWhile (\<lambda>m. key s m < 2 * ?p + 1) post"
  define bs where "bs = dropWhile (\<lambda>m. key s m < 2 * ?p + 1) post"
  have post: "post = T @ bs" by (simp add: T_def bs_def)
  define as where "as = tl (pre @ Idx q # T)"
  have hd: "pre @ Idx q # T = Idx 0 # as"
    using pp(1) ns by (cases pre) (auto simp: as_def)
  then have l: "sl_list s = Idx 0 # as @ bs" using pp(1) post by (metis append.assoc append_Cons)
  have oab: "in_order s (as @ bs)" using o ns l by simp
  have "dropWhile (\<lambda>m. m \<noteq> Idx q) (sl_list s) = Idx q # post" using pp by (simp add: dropWhile_append)
  moreover have "find_not_less s (Ent e) (Idx q # post) = Inr (first_of bs)"
    using find_not_less_key [of "Idx q # post" s "Ent e"] kne kn pp(1) ki by (auto simp: ke bs_def)
  moreover have "list_insert (first_of bs) (Ent e) s = Inr (s\<lparr>sl_list := Idx 0 # as @ Ent e # bs\<rparr>)"
    using list_insert_split [of s "Idx 0 # as" bs] fr l by (simp add: frame_def)
  ultimately have run: "insert_entity e s = Inr (s\<lparr>sl_list := Idx 0 # as @ Ent e # bs\<rparr>)"
    using c ix x q by (simp add: insert_entity_def sl_deref_def c_div_nonneg Let_def q_def [symmetric])
  have "key s a \<le> 2 * ?p + 1" if "a \<in> set as" for a
  proof (cases "a \<in> set T")
    case True
    then show ?thesis using set_takeWhileD unfolding T_def by fastforce
  next
    case False
    show ?thesis
    proof (cases pre)
      case Nil
      then show ?thesis using hd that False by simp
    next
      case (Cons b pre')
      then have "as = pre' @ Idx q # T" using hd by simp
      then have "key s a \<le> key s (Idx q)" using that False oab by (auto simp: sorted_wrt_append)
      then show ?thesis using ki by simp
    qed
  qed
  moreover have "in_order s post"
  proof (cases pre)
    case (Cons b pre')
    then have "ns = pre' @ Idx q # post" using pp(1) ns by simp
    with o show ?thesis by (simp add: sorted_wrt_append)
  qed (use o ns pp(1) in simp)
  then have "\<forall>b \<in> set bs. 2 * ?p + 1 \<le> key s b" unfolding bs_def by (rule split_less)
  ultimately have "placed s ?p e as bs" by (simp add: placed_def)
  moreover have "split (s\<lparr>sl_list := Idx 0 # as @ Ent e # bs\<rparr>) e as bs"
    using frame_insert [OF fr _ e l] c oab by (simp add: split_def)
  ultimately show ?thesis using run l by blast
qed

text \<open>Left of the scene by less than an index distance, an entity ends up in front of the first index node.\<close>

lemma insert_entity_bad:
  assumes fr: "frame (without e s)" and c: "sl_heap s e = Some c"
  shows "sp_x c \<ge> 0 \<Longrightarrow> sp_x c div sl_index s \<ge> int (length (sl_indexer s)) \<Longrightarrow> insert_entity e s = Inl AssertionFailed"
    and "sp_x c \<le> - sl_index s \<Longrightarrow> insert_entity e s = Inl AssertionFailed"
    and "- sl_index s < sp_x c \<Longrightarrow> sp_x c < 0 \<Longrightarrow> insert_entity e s = Inr (s\<lparr>sl_list := Ent e # sl_list s\<rparr>)"
proof -
  have ix: "0 < sl_index s" "sl_indexer s \<noteq> []" "sl_indexer s ! 0 = 0" using fr by (auto simp: frame_def)
  show "sp_x c \<ge> 0 \<Longrightarrow> sp_x c div sl_index s \<ge> int (length (sl_indexer s)) \<Longrightarrow> insert_entity e s = Inl AssertionFailed"
    using c ix by (simp add: insert_entity_def sl_deref_def c_div_nonneg check_def)
  show "insert_entity e s = Inl AssertionFailed" if "sp_x c \<le> - sl_index s"
  proof -
    have "c_div (sp_x c) (sl_index s) = - ((- sp_x c) div sl_index s)" using that ix(1) by (simp add: c_div_def)
    moreover have "0 < (- sp_x c) div sl_index s" using that ix(1) by (simp add: pos_imp_zdiv_pos_iff)
    ultimately show ?thesis using c by (simp add: insert_entity_def sl_deref_def check_def Let_def)
  qed
  show "insert_entity e s = Inr (s\<lparr>sl_list := Ent e # sl_list s\<rparr>)" if x: "- sl_index s < sp_x c" "sp_x c < 0"
  proof -
    obtain ns where ns: "sl_list s = Idx 0 # ns" using fr by (auto simp: frame_def)
    have "c_div (sp_x c) (sl_index s) = 0" using x by (intro c_div_small) simp
    moreover have "ctx_less s (Idx 0) (Ent e) = Inr False"
      using c ix x by (simp add: ctx_less_key known_def key_def npos_def ctx_less_def node_x_def sl_deref_def)
    ultimately show ?thesis using c ix ns
      by (simp add: insert_entity_def sl_deref_def list_insert_def)
  qed
qed

end
