(* ===== verification/SkipListCorrect.thy ===== *)
theory SkipListCorrect
  imports SkipListOrder
begin

text \<open>
  Who sees whom in the skip-list index: a callback that visits the entities of a range brings the
  interest lists and the reports up to date, and with the range that an operation walks, every
  interest list holds exactly the entities whose view contains its owner.
\<close>

declare split_paired_All [simp del] split_paired_Ex [simp del]

section \<open>Interest lists\<close>

text \<open>\<open>stat\<close> is the heap without the interest lists, which no callback changes.\<close>

definition stat :: "(int \<rightharpoonup> skip_ent) \<Rightarrow> (int \<rightharpoonup> skip_ent)" where
  "stat h k = map_option (\<lambda>c. c\<lparr>sp_interest := []\<rparr>) (h k)"

definition il :: "(int \<rightharpoonup> skip_ent) \<Rightarrow> int \<Rightarrow> int list" where
  "il h k = (case h k of None \<Rightarrow> [] | Some c \<Rightarrow> sp_interest c)"

definition lists_ok :: "(int \<rightharpoonup> skip_ent) \<Rightarrow> bool" where
  "lists_ok h \<longleftrightarrow> (\<forall>k. distinct (il h k))"

lemma stat_None: "stat h k = None \<longleftrightarrow> h k = None"
  by (simp add: stat_def)

lemma stat_live: "stat h' = stat h \<Longrightarrow> h' k = None \<longleftrightarrow> h k = None"
  by (metis stat_None)

lemma stat_push [simp]: "stat (push_interest e f h) = stat h"
  by (rule ext) (simp add: stat_def push_interest_def option.map_comp comp_def)

lemma il_push: "h e \<noteq> None \<Longrightarrow> il (push_interest e f h) k = (if k = e then f (il h e) else il h k)"
  by (auto simp: il_def push_interest_def)

lemma blind [simp]:
  "interest (c\<lparr>sp_interest := v\<rparr>) = interest c" "sl_in_visual (c\<lparr>sp_interest := v\<rparr>) = sl_in_visual c"
  "in_view (c\<lparr>sp_interest := v\<rparr>) d = in_view c d" "in_view c (d\<lparr>sp_interest := w\<rparr>) = in_view c d"
  "was_me old (c\<lparr>sp_interest := v\<rparr>) d = was_me old c d" "was_me old c (d\<lparr>sp_interest := w\<rparr>) = was_me old c d"
  "was_other old (c\<lparr>sp_interest := v\<rparr>) d = was_other old c d"
  "was_other old c (d\<lparr>sp_interest := w\<rparr>) = was_other old c d"
  by (auto simp: fun_eq_iff interest_def sl_in_visual_def in_view_def was_me_def was_other_def split: prod.split)

text \<open>A relation between two entities of the heap, one of which has the interest bit.\<close>

definition rel :: "(skip_ent \<Rightarrow> skip_ent \<Rightarrow> bool) \<Rightarrow> (int \<rightharpoonup> skip_ent) \<Rightarrow> int \<Rightarrow> int \<Rightarrow> bool" where
  "rel r D v k \<longleftrightarrow> (\<exists>c d. D v = Some c \<and> D k = Some d \<and> r c d)"

definition wants :: "(skip_ent \<Rightarrow> skip_ent \<Rightarrow> bool) \<Rightarrow> skip_ent \<Rightarrow> skip_ent \<Rightarrow> bool" where
  "wants r c d \<longleftrightarrow> interest c \<and> r c d"

text \<open>\<open>watch D v k\<close>: \<open>v\<close> is told about \<open>k\<close>. \<open>exact\<close>: the interest lists say so.\<close>

definition watch :: "(int \<rightharpoonup> skip_ent) \<Rightarrow> int \<Rightarrow> int \<Rightarrow> bool" where
  "watch D v k \<longleftrightarrow> v \<noteq> k \<and> rel (wants in_view) D v k"

definition exact :: "(int \<rightharpoonup> skip_ent) \<Rightarrow> bool" where
  "exact h \<longleftrightarrow> lists_ok h \<and> (\<forall>k v. v \<in> set (il h k) \<longleftrightarrow> watch (stat h) v k)"

section \<open>Visiting\<close>

text \<open>
  The contract of a callback for the entity \<open>e\<close>: where \<open>P0\<close> and \<open>Q0\<close> tell of an entity \<open>d\<close> whether \<open>e\<close> is
  in its list and it is in that of \<open>e\<close>, afterwards \<open>P\<close> and \<open>Q\<close> do. A walk then does it for all it visits.
\<close>

locale visits =
  fixes e :: int
    and f :: "int \<Rightarrow> (int \<rightharpoonup> skip_ent) \<times> 'r \<Rightarrow> ((int \<rightharpoonup> skip_ent) \<times> 'r) result"
    and P0 Q0 P Q :: "(int \<rightharpoonup> skip_ent) \<Rightarrow> int \<Rightarrow> bool"
    and rep :: "(int \<rightharpoonup> skip_ent) \<Rightarrow> int \<Rightarrow> 'r \<Rightarrow> 'r"
  assumes visit: "h e \<noteq> None \<Longrightarrow> h d \<noteq> None \<Longrightarrow> d \<noteq> e \<Longrightarrow> lists_ok h \<Longrightarrow>
    e \<in> set (il h d) \<longleftrightarrow> P0 (stat h) d \<Longrightarrow> d \<in> set (il h e) \<longleftrightarrow> Q0 (stat h) d \<Longrightarrow>
    \<exists>h'. f d (h, r) = Inr (h', rep (stat h) d r) \<and> stat h' = stat h \<and> lists_ok h' \<and>
      (\<forall>k v. v \<in> set (il h' k) \<longleftrightarrow>
         (if k = d \<and> v = e then P (stat h) d else if k = e \<and> v = d then Q (stat h) d else v \<in> set (il h k)))"
begin

lemma visit_all:
  assumes "h e \<noteq> None" "distinct ids" "e \<notin> set ids" "lists_ok h"
    and "\<And>d. d \<in> set ids \<Longrightarrow> h d \<noteq> None \<and> (e \<in> set (il h d) \<longleftrightarrow> P0 (stat h) d) \<and> (d \<in> set (il h e) \<longleftrightarrow> Q0 (stat h) d)"
  shows "\<exists>h'. fold_res f ids (h, r) = Inr (h', fold (rep (stat h)) ids r) \<and> stat h' = stat h \<and> lists_ok h' \<and>
    (\<forall>k v. v \<in> set (il h' k) \<longleftrightarrow>
       (if k \<in> set ids \<and> v = e then P (stat h) k else if k = e \<and> v \<in> set ids then Q (stat h) v else v \<in> set (il h k)))"
  using assms
proof (induction ids arbitrary: h r)
  case (Cons d ids)
  have d: "h d \<noteq> None" "d \<noteq> e" "d \<notin> set ids" "e \<in> set (il h d) \<longleftrightarrow> P0 (stat h) d" "d \<in> set (il h e) \<longleftrightarrow> Q0 (stat h) d"
    using Cons.prems(2,3,5) by auto
  obtain h1 where h1: "f d (h, r) = Inr (h1, rep (stat h) d r)" "stat h1 = stat h" "lists_ok h1"
      "\<And>k v. v \<in> set (il h1 k) \<longleftrightarrow>
         (if k = d \<and> v = e then P (stat h) d else if k = e \<and> v = d then Q (stat h) d else v \<in> set (il h k))"
    using visit [OF Cons.prems(1) d(1,2) Cons.prems(4) d(4,5), of r] by blast
  have rest: "h1 k \<noteq> None \<and> (e \<in> set (il h1 k) \<longleftrightarrow> P0 (stat h1) k) \<and> (k \<in> set (il h1 e) \<longleftrightarrow> Q0 (stat h1) k)"
    if "k \<in> set ids" for k
    using Cons.prems(3) Cons.prems(5) [of k] that d(3) h1(4) [of e k] h1(4) [of k e] stat_live [OF h1(2), of k] h1(2) by auto
  obtain h2 where h2: "fold_res f ids (h1, rep (stat h) d r) = Inr (h2, fold (rep (stat h1)) ids (rep (stat h) d r))"
      "stat h2 = stat h1" "lists_ok h2"
      "\<And>k v. v \<in> set (il h2 k) \<longleftrightarrow>
       (if k \<in> set ids \<and> v = e then P (stat h1) k else if k = e \<and> v \<in> set ids then Q (stat h1) v else v \<in> set (il h1 k))"
    using Cons.IH [of h1 "rep (stat h) d r", OF _ _ _ h1(3) rest] Cons.prems(1-3) stat_live [OF h1(2), of e] by auto
  have "v \<in> set (il h2 k) \<longleftrightarrow> (if k \<in> set (d # ids) \<and> v = e then P (stat h) k
      else if k = e \<and> v \<in> set (d # ids) then Q (stat h) v else v \<in> set (il h k))" for k v
    using h2(4) [of v k] h1(4) [of v k] h1(2) Cons.prems(3) d(3) by auto
  then show ?case using h1 h2 by (intro exI [of _ h2]) simp
qed simp

end

text \<open>The reports of a walk: each vector gets the visited entities that satisfy its predicate.\<close>

definition report :: "(int \<Rightarrow> bool) \<Rightarrow> int \<Rightarrow> int list option \<Rightarrow> int list option" where
  "report A d l = (if A d then push_opt l [d] else l)"

definition reports :: "(int \<Rightarrow> bool) \<Rightarrow> (int \<Rightarrow> bool) \<Rightarrow> (int \<Rightarrow> bool) \<Rightarrow> (int \<Rightarrow> bool) \<Rightarrow> int \<Rightarrow> lists \<Rightarrow> lists" where
  "reports A B C D d = (\<lambda>(mi, oi, mo, oo). (report A d mi, report B d oi, report C d mo, report D d oo))"

lemma push_opt_nest [simp]: "push_opt (push_opt l xs) ys = push_opt l (xs @ ys)" "push_opt l [] = l"
  by (cases l; simp)+

lemma fold_report: "fold (report A) ids l = push_opt l (filter A ids)"
  by (induction ids arbitrary: l) (simp_all add: report_def)

lemma fold_reports:
  "fold (reports A B C D) ids (mi, oi, mo, oo) =
     (push_opt mi (filter A ids), push_opt oi (filter B ids), push_opt mo (filter C ids), push_opt oo (filter D ids))"
  by (induction ids arbitrary: mi oi mo oo) (simp_all add: reports_def report_def)

section \<open>The callbacks\<close>

lemma rel_stat: "h a = Some c \<Longrightarrow> h b = Some d \<Longrightarrow> (\<And>v w. r (c\<lparr>sp_interest := v\<rparr>) (d\<lparr>sp_interest := w\<rparr>) = r c d) \<Longrightarrow> rel r (stat h) a b = r c d"
  by (simp add: rel_def stat_def)

lemma lists_ok_add:
  assumes "lists_ok h" "h b \<noteq> None" "a \<notin> set (il h b)"
  shows "lists_ok (push_interest b (\<lambda>v. v @ [a]) h)"
    and "v \<in> set (il (push_interest b (\<lambda>v. v @ [a]) h) k) \<longleftrightarrow> k = b \<and> v = a \<or> v \<in> set (il h k)"
  using assms by (auto simp: lists_ok_def il_push)

lemma lists_ok_remove:
  assumes "lists_ok h" "h b \<noteq> None"
  shows "lists_ok (push_interest b (\<lambda>v. snd (vec_remove v a)) h)"
    and "v \<in> set (il (push_interest b (\<lambda>v. snd (vec_remove v a)) h) k) \<longleftrightarrow> \<not> (k = b \<and> v = a) \<and> v \<in> set (il h k)"
  using assms by (auto simp: lists_ok_def il_push)

text \<open>One of the two directions of a callback: \<open>a\<close> in the list of \<open>b\<close>.\<close>

definition directed :: "int \<Rightarrow> int \<Rightarrow> bool \<Rightarrow> (int \<rightharpoonup> skip_ent) \<Rightarrow> (int \<rightharpoonup> skip_ent) \<Rightarrow> bool" where
  "directed a b p h h' \<longleftrightarrow> stat h' = stat h \<and> lists_ok h' \<and>
     (\<forall>k v. v \<in> set (il h' k) \<longleftrightarrow> (if k = b \<and> v = a then p else v \<in> set (il h k)))"

lemma directed_same: "lists_ok h \<Longrightarrow> a \<in> set (il h b) \<longleftrightarrow> p \<Longrightarrow> directed a b p h h"
  by (auto simp: directed_def)

lemma directed_add: "lists_ok h \<Longrightarrow> h b \<noteq> None \<Longrightarrow> a \<notin> set (il h b) \<Longrightarrow> directed a b True h (push_interest b (\<lambda>v. v @ [a]) h)"
  by (auto simp: directed_def lists_ok_add)

lemma directed_remove: "lists_ok h \<Longrightarrow> h b \<noteq> None \<Longrightarrow> directed a b False h (push_interest b (\<lambda>v. snd (vec_remove v a)) h)"
  by (auto simp: directed_def lists_ok_remove)

lemma on_enter_range_ok:
  assumes "h a \<noteq> None" "h b \<noteq> None" "lists_ok h" "a \<notin> set (il h b)"
  shows "\<exists>h'. sl_on_enter_range a b l me h = Inr (h', report (\<lambda>_. rel in_view (stat h) a b) (if me then b else a) l) \<and>
    directed a b (rel (wants in_view) (stat h) a b) h h'"
proof -
  obtain c d where cd: "h a = Some c" "h b = Some d" using assms by auto
  have r: "rel in_view (stat h) a b = in_view c d" "rel (wants in_view) (stat h) a b = (interest c \<and> in_view c d)"
    using cd by (simp_all add: rel_stat wants_def)
  have f: "sl_deref h a = Inr c" "sl_deref h b = Inr d" using cd by (simp_all add: sl_deref_def)
  show ?thesis
  proof (cases "interest c \<and> in_view c d")
    case True
    then show ?thesis using directed_add [OF assms(3,2,4)] by (auto simp: sl_on_enter_range_def f r report_def)
  next
    case False
    then show ?thesis using directed_same [OF assms(3), of a b False] assms(4)
      by (auto simp: sl_on_enter_range_def f r report_def)
  qed
qed

lemma on_exit_range_ok:
  assumes "h a \<noteq> None" "h b \<noteq> None" "lists_ok h" "a \<in> set (il h b) \<longleftrightarrow> rel (wants in_view) (stat h) a b"
  shows "\<exists>h'. sl_on_exit_range a b l me h = Inr (h', report (\<lambda>_. rel in_view (stat h) a b) (if me then b else a) l) \<and>
    directed a b False h h'"
proof -
  obtain c d where cd: "h a = Some c" "h b = Some d" using assms by auto
  have r: "rel in_view (stat h) a b = in_view c d" "rel (wants in_view) (stat h) a b = (interest c \<and> in_view c d)"
    using cd by (simp_all add: rel_stat wants_def)
  have f: "sl_deref h a = Inr c" "sl_deref h b = Inr d" using cd by (simp_all add: sl_deref_def)
  show ?thesis
  proof (cases "interest c \<and> in_view c d")
    case True
    then show ?thesis using directed_remove [OF assms(3,2)] by (auto simp: sl_on_exit_range_def f r report_def)
  next
    case False
    then show ?thesis using directed_same [OF assms(3), of a b False] assms(4)
      by (auto simp: sl_on_exit_range_def f r report_def)
  qed
qed

lemma on_change_range_ok:
  assumes "h b \<noteq> None" "lists_ok h" "a \<in> set (il h b) \<longleftrightarrow> g \<and> was"
  shows "\<exists>h'. (if g then on_change_range a b new was li lo me h else (h, li, lo)) =
      (h', report (\<lambda>_. g \<and> new \<and> \<not> was) (if me then b else a) li, report (\<lambda>_. g \<and> \<not> new \<and> was) (if me then b else a) lo) \<and>
    directed a b (g \<and> new) h h'"
  using assms directed_add [OF assms(2,1)] directed_remove [OF assms(2,1)] directed_same [OF assms(2), of a b]
  by (cases g; cases new; cases was) (auto simp: on_change_range_def report_def)

lemma directed_both:
  assumes "directed e d p h h1" "directed d e q h1 h2" "d \<noteq> e"
  shows "stat h2 = stat h \<and> lists_ok h2 \<and>
      (\<forall>k v. v \<in> set (il h2 k) \<longleftrightarrow> (if k = d \<and> v = e then p else if k = e \<and> v = d then q else v \<in> set (il h k)))"
  using assms by (auto simp: directed_def)

lemma directed_keeps:
  assumes "directed e d p h h1" "d \<noteq> e"
  shows "h1 k = None \<longleftrightarrow> h k = None" "lists_ok h1" "d \<in> set (il h1 e) \<longleftrightarrow> d \<in> set (il h e)" "stat h1 = stat h"
  using assms stat_live [of h1 h k] by (simp_all add: directed_def)

abbreviation seen :: "int \<Rightarrow> (int \<rightharpoonup> skip_ent) \<Rightarrow> int \<Rightarrow> bool" where
  "seen e D d \<equiv> rel (wants in_view) D e d"

abbreviation sees :: "int \<Rightarrow> (int \<rightharpoonup> skip_ent) \<Rightarrow> int \<Rightarrow> bool" where
  "sees e D d \<equiv> rel (wants in_view) D d e"

interpretation entering: visits e "sl_enter_visit e" "\<lambda>D d. False" "\<lambda>D d. False" "seen e" "sees e"
  "\<lambda>D d. reports (rel in_view D e) (\<lambda>d. rel in_view D d e) (\<lambda>_. False) (\<lambda>_. False) d" for e
proof
  fix h :: "int \<rightharpoonup> skip_ent" and d and r :: lists
  assume a: "h e \<noteq> None" "h d \<noteq> None" "d \<noteq> e" "lists_ok h" "e \<in> set (il h d) \<longleftrightarrow> False" "d \<in> set (il h e) \<longleftrightarrow> False"
  obtain mi oi mo oo where r: "r = (mi, oi, mo, oo)" by (metis prod_cases4)
  obtain h1 where h1: "sl_on_enter_range e d mi True h = Inr (h1, report (\<lambda>_. rel in_view (stat h) e d) d mi)"
      "directed e d (seen e (stat h) d) h h1"
    using on_enter_range_ok [OF a(1,2,4), of mi True] a(5) by auto
  note k = directed_keeps [OF h1(2) a(3)]
  obtain h2 where h2: "sl_on_enter_range d e oi False h1 = Inr (h2, report (\<lambda>_. rel in_view (stat h) d e) d oi)"
      "directed d e (sees e (stat h) d) h1 h2"
    using on_enter_range_ok [of h1 d e oi False] a k by auto
  show "\<exists>h'. sl_enter_visit e d (h, r) =
      Inr (h', reports (rel in_view (stat h) e) (\<lambda>d. rel in_view (stat h) d e) (\<lambda>_. False) (\<lambda>_. False) d r) \<and>
    stat h' = stat h \<and> lists_ok h' \<and> (\<forall>k v. v \<in> set (il h' k) \<longleftrightarrow>
      (if k = d \<and> v = e then seen e (stat h) d else if k = e \<and> v = d then sees e (stat h) d else v \<in> set (il h k)))"
    using directed_both [OF h1(2) h2(2) a(3)] h1(1) h2(1)
    by (intro exI [of _ h2]) (simp add: sl_enter_visit_def r reports_def report_def)
qed

interpretation leaving: visits e "sl_exit_visit e" "seen e" "sees e" "\<lambda>D d. False" "sees e"
  "\<lambda>D. report (rel in_view D e)" for e
proof
  fix h :: "int \<rightharpoonup> skip_ent" and d and r :: "int list option"
  assume a: "h e \<noteq> None" "h d \<noteq> None" "d \<noteq> e" "lists_ok h"
    "e \<in> set (il h d) \<longleftrightarrow> seen e (stat h) d" "d \<in> set (il h e) \<longleftrightarrow> sees e (stat h) d"
  obtain h1 where h1: "sl_on_exit_range e d r True h = Inr (h1, report (\<lambda>_. rel in_view (stat h) e d) d r)"
      "directed e d False h h1"
    using on_exit_range_ok [OF a(1,2,4,5), of r True] by auto
  note k = directed_keeps [OF h1(2) a(3)]
  show "\<exists>h'. sl_exit_visit e d (h, r) = Inr (h', report (rel in_view (stat h) e) d r) \<and> stat h' = stat h \<and> lists_ok h' \<and>
    (\<forall>k v. v \<in> set (il h' k) \<longleftrightarrow>
      (if k = d \<and> v = e then False else if k = e \<and> v = d then sees e (stat h) d else v \<in> set (il h k)))"
    using h1 a(6) by (intro exI [of _ h1]) (auto simp: sl_exit_visit_def directed_def report_def)
qed

text \<open>The callbacks of a move: an entity that can see at all, and what it sees before and after.\<close>

definition seer :: "(skip_ent \<Rightarrow> skip_ent \<Rightarrow> bool) \<Rightarrow> skip_ent \<Rightarrow> skip_ent \<Rightarrow> bool" where
  "seer r c d \<longleftrightarrow> sp_visual c \<noteq> 0 \<and> interest c \<and> r c d"

definition plain :: "(skip_ent \<Rightarrow> skip_ent \<Rightarrow> bool) \<Rightarrow> bool" where
  "plain r \<longleftrightarrow> (\<forall>c d v w. r (c\<lparr>sp_interest := v\<rparr>) (d\<lparr>sp_interest := w\<rparr>) = r c d)"

lemma plain_rel:
  "plain r \<Longrightarrow> h a = Some c \<Longrightarrow> h b = Some d \<Longrightarrow> rel (seer r) (stat h) a b = (sp_visual c \<noteq> 0 \<and> interest c \<and> r c d)"
  by (simp add: rel_stat seer_def plain_def)

lemma change_visit_ok:
  assumes a: "h e \<noteq> None" "h d \<noteq> None" "d \<noteq> e" "lists_ok h"
    and p: "plain im" "plain wm" "plain (\<lambda>d c. io c d)" "plain (\<lambda>d c. wo c d)"
    and mem: "e \<in> set (il h d) \<longleftrightarrow> rel (seer wm) (stat h) e d"
      "d \<in> set (il h e) \<longleftrightarrow> rel (seer (\<lambda>d c. wo c d)) (stat h) d e"
  shows "\<exists>h'. change_visit im wm io wo e d (h, r) =
      Inr (h', reports (\<lambda>d. rel (seer im) (stat h) e d \<and> \<not> rel (seer wm) (stat h) e d)
        (\<lambda>d. rel (seer (\<lambda>d c. io c d)) (stat h) d e \<and> \<not> rel (seer (\<lambda>d c. wo c d)) (stat h) d e)
        (\<lambda>d. \<not> rel (seer im) (stat h) e d \<and> rel (seer wm) (stat h) e d)
        (\<lambda>d. \<not> rel (seer (\<lambda>d c. io c d)) (stat h) d e \<and> rel (seer (\<lambda>d c. wo c d)) (stat h) d e) d r) \<and>
    stat h' = stat h \<and> lists_ok h' \<and> (\<forall>k v. v \<in> set (il h' k) \<longleftrightarrow>
      (if k = d \<and> v = e then rel (seer im) (stat h) e d
       else if k = e \<and> v = d then rel (seer (\<lambda>d c. io c d)) (stat h) d e else v \<in> set (il h k)))"
proof -
  obtain c x where cx: "h e = Some c" "h d = Some x" using a by auto
  obtain mi oi mo oo where r: "r = (mi, oi, mo, oo)" by (metis prod_cases4)
  let ?ge = "sp_visual c \<noteq> 0 \<and> interest c" and ?gd = "sp_visual x \<noteq> 0 \<and> interest x"
  have rels: "rel (seer im) (stat h) e d = (?ge \<and> im c x)" "rel (seer wm) (stat h) e d = (?ge \<and> wm c x)"
    "rel (seer (\<lambda>d c. io c d)) (stat h) d e = (?gd \<and> io c x)" "rel (seer (\<lambda>d c. wo c d)) (stat h) d e = (?gd \<and> wo c x)"
    using plain_rel [OF p(1) cx] plain_rel [OF p(2) cx] plain_rel [OF p(3) cx(2,1)] plain_rel [OF p(4) cx(2,1)] by auto
  obtain h1 where h1: "(if ?ge then on_change_range e d (im c x) (wm c x) mi mo True h else (h, mi, mo)) =
      (h1, report (\<lambda>_. ?ge \<and> im c x \<and> \<not> wm c x) d mi, report (\<lambda>_. ?ge \<and> \<not> im c x \<and> wm c x) d mo)"
      "directed e d (?ge \<and> im c x) h h1"
    using on_change_range_ok [OF a(2,4), of e ?ge "wm c x" "im c x" mi mo True] mem(1) rels(2) by auto
  note k = directed_keeps [OF h1(2) a(3)]
  obtain h2 where h2: "(if ?gd then on_change_range d e (io c x) (wo c x) oi oo False h1 else (h1, oi, oo)) =
      (h2, report (\<lambda>_. ?gd \<and> io c x \<and> \<not> wo c x) d oi, report (\<lambda>_. ?gd \<and> \<not> io c x \<and> wo c x) d oo)"
      "directed d e (?gd \<and> io c x) h1 h2"
    using on_change_range_ok [of h1 e d ?gd "wo c x" "io c x" oi oo False] mem(2) rels(4) a(1) k by auto
  have "change_visit im wm io wo e d (h, r) = Inr (h2, report (\<lambda>_. ?ge \<and> im c x \<and> \<not> wm c x) d mi,
      report (\<lambda>_. ?gd \<and> io c x \<and> \<not> wo c x) d oi, report (\<lambda>_. ?ge \<and> \<not> im c x \<and> wm c x) d mo,
      report (\<lambda>_. ?gd \<and> \<not> io c x \<and> wo c x) d oo)"
    unfolding change_visit_def r prod.case sl_deref_def cx option.case bind_res_simps h1(1) Let_def h2(1) ..
  moreover note directed_both [OF h1(2) h2(2) a(3)]
  ultimately show ?thesis unfolding rels r reports_def prod.case report_def
    by (intro exI [of _ h2]) (simp only: conj_assoc conj_disj_distribL de_Morgan_conj simp_thms not_not; auto)
qed

lemma plain_views [simp]:
  "plain in_view" "plain (\<lambda>d c. in_view d c)" "plain (was_me old)" "plain (\<lambda>d c. was_other old c d)" "plain (\<lambda>c d. False)"
  by (simp_all add: plain_def)

lemma seer_view [simp]: "seer in_view = wants in_view"
  by (auto simp: fun_eq_iff seer_def wants_def in_view_def sl_in_visual_def)

abbreviation saw :: "int \<times> int \<times> int \<Rightarrow> int \<Rightarrow> (int \<rightharpoonup> skip_ent) \<Rightarrow> int \<Rightarrow> bool" where
  "saw old e D d \<equiv> rel (seer (was_me old)) D e d"

abbreviation was_seen :: "int \<times> int \<times> int \<Rightarrow> int \<Rightarrow> (int \<rightharpoonup> skip_ent) \<Rightarrow> int \<Rightarrow> bool" where
  "was_seen old e D d \<equiv> rel (seer (\<lambda>d c. was_other old c d)) D d e"

lemma rel_False [simp]: "rel (seer (\<lambda>c d. False)) D a b \<longleftrightarrow> False"
  by (simp add: rel_def seer_def)

interpretation moving: visits e "change_visit in_view (was_me old) (\<lambda>c d. in_view d c) (was_other old) e"
  "saw old e" "was_seen old e" "seen e" "sees e"
  "\<lambda>D. reports (\<lambda>d. seen e D d \<and> \<not> saw old e D d) (\<lambda>d. sees e D d \<and> \<not> was_seen old e D d)
     (\<lambda>d. \<not> seen e D d \<and> saw old e D d) (\<lambda>d. \<not> sees e D d \<and> was_seen old e D d)" for old e
proof
  fix h :: "int \<rightharpoonup> skip_ent" and d and r :: lists
  assume a: "h e \<noteq> None" "h d \<noteq> None" "d \<noteq> e" "lists_ok h"
    "e \<in> set (il h d) \<longleftrightarrow> saw old e (stat h) d" "d \<in> set (il h e) \<longleftrightarrow> was_seen old e (stat h) d"
  show "\<exists>h'. change_visit in_view (was_me old) (\<lambda>c d. in_view d c) (was_other old) e d (h, r) =
      Inr (h', reports (\<lambda>d. seen e (stat h) d \<and> \<not> saw old e (stat h) d) (\<lambda>d. sees e (stat h) d \<and> \<not> was_seen old e (stat h) d)
     (\<lambda>d. \<not> seen e (stat h) d \<and> saw old e (stat h) d) (\<lambda>d. \<not> sees e (stat h) d \<and> was_seen old e (stat h) d) d r) \<and>
    stat h' = stat h \<and> lists_ok h' \<and> (\<forall>k v. v \<in> set (il h' k) \<longleftrightarrow>
      (if k = d \<and> v = e then seen e (stat h) d else if k = e \<and> v = d then sees e (stat h) d else v \<in> set (il h k)))"
    by (rule change_visit_ok [of h e d in_view "was_me old" "\<lambda>c d. in_view d c" "was_other old" r, unfolded seer_view rel_False simp_thms]) (use a in simp_all)
qed

interpretation parting: visits e "change_visit (\<lambda>c d. False) (was_me old) (\<lambda>c d. False) (was_other old) e"
  "saw old e" "was_seen old e" "\<lambda>D d. False" "\<lambda>D d. False"
  "\<lambda>D. reports (\<lambda>d. False) (\<lambda>d. False) (saw old e D) (was_seen old e D)" for old e
proof
  fix h :: "int \<rightharpoonup> skip_ent" and d and r :: lists
  assume a: "h e \<noteq> None" "h d \<noteq> None" "d \<noteq> e" "lists_ok h"
    "e \<in> set (il h d) \<longleftrightarrow> saw old e (stat h) d" "d \<in> set (il h e) \<longleftrightarrow> was_seen old e (stat h) d"
  show "\<exists>h'. change_visit (\<lambda>c d. False) (was_me old) (\<lambda>c d. False) (was_other old) e d (h, r) =
      Inr (h', reports (\<lambda>d. False) (\<lambda>d. False) (saw old e (stat h)) (was_seen old e (stat h)) d r) \<and>
    stat h' = stat h \<and> lists_ok h' \<and> (\<forall>k v. v \<in> set (il h' k) \<longleftrightarrow>
      (if k = d \<and> v = e then False else if k = e \<and> v = d then False else v \<in> set (il h k)))"
    by (rule change_visit_ok [of h e d "\<lambda>c d. False" "was_me old" "\<lambda>c d. False" "was_other old" r, unfolded seer_view rel_False simp_thms]) (use a in simp_all)
qed

interpretation arriving: visits e "change_visit in_view (\<lambda>c d. False) (\<lambda>c d. in_view d c) (\<lambda>c d. False) e"
  "\<lambda>D d. False" "\<lambda>D d. False" "seen e" "sees e"
  "\<lambda>D. reports (seen e D) (sees e D) (\<lambda>d. False) (\<lambda>d. False)" for e
proof
  fix h :: "int \<rightharpoonup> skip_ent" and d and r :: lists
  assume a: "h e \<noteq> None" "h d \<noteq> None" "d \<noteq> e" "lists_ok h"
    "e \<in> set (il h d) \<longleftrightarrow> False" "d \<in> set (il h e) \<longleftrightarrow> False"
  show "\<exists>h'. change_visit in_view (\<lambda>c d. False) (\<lambda>c d. in_view d c) (\<lambda>c d. False) e d (h, r) =
      Inr (h', reports (seen e (stat h)) (sees e (stat h)) (\<lambda>d. False) (\<lambda>d. False) d r) \<and>
    stat h' = stat h \<and> lists_ok h' \<and> (\<forall>k v. v \<in> set (il h' k) \<longleftrightarrow>
      (if k = d \<and> v = e then seen e (stat h) d else if k = e \<and> v = d then sees e (stat h) d else v \<in> set (il h k)))"
    by (rule change_visit_ok [of h e d in_view "\<lambda>c d. False" "\<lambda>c d. in_view d c" "\<lambda>c d. False" r, unfolded seer_view rel_False simp_thms]) (use a in simp_all)
qed

text \<open>The callback of a change of view; only an entity with the interest bit changes its view.\<close>

definition viewed :: "int \<Rightarrow> skip_ent \<Rightarrow> skip_ent \<Rightarrow> bool" where
  "viewed v c d \<longleftrightarrow> sl_in_visual c (sp_x d) (sp_y d) (sp_z d) v"

lemma viewed_blind [simp]: "viewed v (c\<lparr>sp_interest := a\<rparr>) (d\<lparr>sp_interest := b\<rparr>) = viewed v c d"
  by (simp add: viewed_def)

interpretation looking: visits e "visual_visit v e" "\<lambda>D d. rel (viewed v) D e d" "sees e" "\<lambda>D d. rel in_view D e d" "sees e"
  "\<lambda>D. reports (\<lambda>d. rel in_view D e d \<and> \<not> rel (viewed v) D e d) (\<lambda>d. False)
     (\<lambda>d. \<not> rel in_view D e d \<and> rel (viewed v) D e d) (\<lambda>d. False)" for v e
proof
  fix h :: "int \<rightharpoonup> skip_ent" and d and r :: lists
  assume a: "h e \<noteq> None" "h d \<noteq> None" "d \<noteq> e" "lists_ok h"
    "e \<in> set (il h d) \<longleftrightarrow> rel (viewed v) (stat h) e d" "d \<in> set (il h e) \<longleftrightarrow> sees e (stat h) d"
  obtain mi oi mo oo where r: "r = (mi, oi, mo, oo)" by (metis prod_cases4)
  obtain c x where cx: "h e = Some c" "h d = Some x" using a by auto
  have rels: "rel (viewed v) (stat h) e d = sl_in_visual c (sp_x x) (sp_y x) (sp_z x) v" "rel in_view (stat h) e d = in_view c x"
    using cx by (simp_all add: rel_stat viewed_def)
  obtain h1 where h1: "on_change_range e d (in_view c x) (sl_in_visual c (sp_x x) (sp_y x) (sp_z x) v) mi mo True h =
      (h1, report (\<lambda>_. in_view c x \<and> \<not> sl_in_visual c (sp_x x) (sp_y x) (sp_z x) v) d mi,
        report (\<lambda>_. \<not> in_view c x \<and> sl_in_visual c (sp_x x) (sp_y x) (sp_z x) v) d mo)" "directed e d (in_view c x) h h1"
    using on_change_range_ok [OF a(2,4), of e True "sl_in_visual c (sp_x x) (sp_y x) (sp_z x) v" "in_view c x" mi mo True] a(5) rels by auto
  show "\<exists>h'. visual_visit v e d (h, r) = Inr (h', reports (\<lambda>d. rel in_view (stat h) e d \<and> \<not> rel (viewed v) (stat h) e d) (\<lambda>d. False)
       (\<lambda>d. \<not> rel in_view (stat h) e d \<and> rel (viewed v) (stat h) e d) (\<lambda>d. False) d r) \<and>
    stat h' = stat h \<and> lists_ok h' \<and> (\<forall>k w. w \<in> set (il h' k) \<longleftrightarrow>
      (if k = d \<and> w = e then rel in_view (stat h) e d else if k = e \<and> w = d then sees e (stat h) d else w \<in> set (il h k)))"
    using h1 a(6) by (intro exI [of _ h1]) (auto simp: visual_visit_def directed_def reports_def report_def r rels cx sl_deref_def)
qed

end
