(* ===== verification/SkipListViews.thy ===== *)
theory SkipListViews
  imports SkipListCorrect
begin

text \<open>
  The views in use of the skip-list index: \<open>_visual\<close> counts at least the entities that have a view, so
  releasing one finds it; \<open>_max_visual\<close> bounds them as long as the largest view is not released.
\<close>

section \<open>Counting views\<close>

definition tally :: "(int \<rightharpoonup> skip_ent) \<Rightarrow> int \<Rightarrow> nat" where
  "tally h v = card {k. \<exists>d. h k = Some d \<and> interest d \<and> sp_visual d = v}"

definition count_of :: "(int \<times> int) list \<Rightarrow> int \<Rightarrow> int" where
  "count_of vs v = (case map_of vs v of None \<Rightarrow> 0 | Some n \<Rightarrow> n)"

definition counted :: "skip \<Rightarrow> bool" where
  "counted s \<longleftrightarrow> distinct (map fst (sl_visual s)) \<and> (\<forall>v. v \<noteq> 0 \<longrightarrow> int (tally (sl_heap s) v) \<le> count_of (sl_visual s) v)"

definition covers :: "skip \<Rightarrow> bool" where
  "covers s \<longleftrightarrow> 0 \<le> sl_max s \<and> (\<forall>v \<in> fst ` set (sl_visual s). v \<le> sl_max s)"

lemma count_of_notin: "v \<notin> fst ` set vs \<Longrightarrow> count_of vs v = 0"
  by (simp add: count_of_def map_of_eq_None_iff [symmetric])

lemma count_of_in: "distinct (map fst vs) \<Longrightarrow> (v, n) \<in> set vs \<Longrightarrow> count_of vs v = n"
  by (simp add: count_of_def)

lemma tally_add:
  assumes "h e = None" "finite (dom h)"
  shows "tally (h(e \<mapsto> c)) v = tally h v + (if interest c \<and> sp_visual c = v then 1 else 0)"
proof -
  let ?S = "\<lambda>h. {k. \<exists>d. h k = Some d \<and> interest d \<and> sp_visual d = v}"
  have "finite (?S h)" by (rule finite_subset [OF _ assms(2)]) auto
  moreover have "e \<notin> ?S h" using assms(1) by simp
  moreover have "?S (h(e \<mapsto> c)) = (if interest c \<and> sp_visual c = v then insert e (?S h) else ?S h)"
    using assms(1) by (auto split: if_splits)
  ultimately show ?thesis by (simp add: tally_def)
qed

lemma tally_split:
  assumes "h e = Some c" "finite (dom h)"
  shows "tally h v = tally (h(e := None)) v + (if interest c \<and> sp_visual c = v then 1 else 0)"
proof -
  have "(h(e := None))(e \<mapsto> c) = h" using assms(1) by auto
  then show ?thesis using tally_add [of "h(e := None)" e c v] assms(2) by simp
qed

lemma tally_stat: "stat h' = stat h \<Longrightarrow> tally h' v = tally h v"
proof -
  have "(\<exists>d. h k = Some d \<and> interest d \<and> sp_visual d = v) \<longleftrightarrow> (\<exists>d. stat h k = Some d \<and> interest d \<and> sp_visual d = v)" for h k
    by (auto simp: stat_def)
  then have "tally h v = tally (stat h) v" for h by (simp add: tally_def)
  then show "stat h' = stat h \<Longrightarrow> tally h' v = tally h v" by metis
qed

section \<open>Adding and releasing a view\<close>

lemma visual_up_spec:
  "case visual_up v vs of None \<Rightarrow> v \<notin> fst ` set vs
   | Some ws \<Rightarrow> v \<in> fst ` set vs \<and> map fst ws = map fst vs \<and> count_of ws w = count_of vs w + (if w = v then 1 else 0)"
  by (induction vs) (auto simp: count_of_def split: option.splits if_splits)

lemma add_visual_ok:
  assumes "v \<noteq> 0" "distinct (map fst (sl_visual s))"
  shows "\<exists>vs m. add_visual v s = Inr (s\<lparr>sl_visual := vs, sl_max := m\<rparr>) \<and> distinct (map fst vs) \<and>
    fst ` set vs = insert v (fst ` set (sl_visual s)) \<and> (\<forall>w. count_of vs w = count_of (sl_visual s) w + (if w = v then 1 else 0)) \<and>
    m = (if v \<in> fst ` set (sl_visual s) then sl_max s else max v (sl_max s))"
proof (cases "visual_up v (sl_visual s)")
  case (Some vs)
  have mf: "map fst vs = map fst (sl_visual s)" and vin: "v \<in> fst ` set (sl_visual s)"
    using visual_up_spec [of v "sl_visual s"] Some by auto
  have "count_of vs w = count_of (sl_visual s) w + (if w = v then 1 else 0)" for w
    using visual_up_spec [of v "sl_visual s" w] Some by simp
  moreover have "fst ` set vs = insert v (fst ` set (sl_visual s))" using mf vin by (metis insert_absorb list.set_map)
  ultimately show ?thesis using Some assms vin mf
    by (intro exI [of _ vs] exI [of _ "sl_max s"]) (simp add: add_visual_def)
next
  case None
  then have out: "v \<notin> fst ` set (sl_visual s)" using visual_up_spec [of v "sl_visual s"] by simp
  let ?vs = "sl_visual s @ [(v, 1)]"
  have "map_of (sl_visual s) v = None" using out by (simp add: map_of_eq_None_iff)
  then have "count_of ?vs w = count_of (sl_visual s) w + (if w = v then 1 else 0)" for w
    by (auto simp: count_of_def map_add_def split: option.split)
  then show ?thesis using None assms out
    by (intro exI [of _ ?vs] exI [of _ "if v > sl_max s then v else sl_max s"]) (auto simp: add_visual_def)
qed

lemma vec_drop:
  assumes "i < length vs" "distinct (map fst vs)"
  shows "mset (butlast (vs[i := last vs])) = mset vs - {#vs ! i#}" "distinct (map fst (butlast (vs[i := last vs])))"
    "set (butlast (vs[i := last vs])) = set vs - {vs ! i}"
proof -
  let ?ws = "butlast (vs[i := last vs])"
  show m: "mset ?ws = mset vs - {#vs ! i#}" by (rule mset_butlast_upd [OF assms(1)])
  then have "mset vs = add_mset (vs ! i) (mset ?ws)" using assms(1) by simp
  then have p: "mset (vs ! i # ?ws) = mset vs" by simp
  then have "mset (map fst (vs ! i # ?ws)) = mset (map fst vs)" by (metis mset_map)
  then have d: "distinct (map fst (vs ! i # ?ws))" using assms(2) mset_eq_imp_distinct_iff by blast
  then show "distinct (map fst ?ws)" by simp
  have "vs ! i \<notin> set ?ws" using d by auto
  then show "set ?ws = set vs - {vs ! i}" using mset_eq_setD [OF p] by auto
qed

lemma del_visual_ok:
  assumes "v \<noteq> 0" "distinct (map fst (sl_visual s))" "v \<in> fst ` set (sl_visual s)"
  shows "\<exists>vs m. del_visual v s = Inr (s\<lparr>sl_visual := vs, sl_max := m\<rparr>) \<and> distinct (map fst vs) \<and>
    fst ` set vs \<subseteq> fst ` set (sl_visual s) \<and> (\<forall>w. w \<noteq> v \<longrightarrow> count_of vs w = count_of (sl_visual s) w) \<and>
    count_of vs v \<ge> count_of (sl_visual s) v - 1 \<and> (m \<noteq> sl_max s \<longrightarrow> v = sl_max s \<and> v \<notin> fst ` set vs)"
proof -
  let ?vs = "sl_visual s"
  obtain i where i: "first_index v (map fst ?vs) = Some i" using assms(3) first_index_None [of v "map fst ?vs"]
    by (cases "first_index v (map fst ?vs)") auto
  have il: "i < length ?vs" and iv: "fst (?vs ! i) = v" using first_index_SomeD [OF i] by auto
  obtain n where n: "?vs ! i = (v, n)" using iv by (cases "?vs ! i") auto
  let ?us = "?vs[i := (v, n - 1)]"
  have mf: "map fst ?us = map fst ?vs" using il n by (simp add: map_update) (metis fst_conv list_update_id map_update n)
  have du: "distinct (map fst ?us)" using mf assms(2) by simp
  have cu: "count_of ?us w = (if w = v then n - 1 else count_of ?vs w)" for w
  proof (cases "w \<in> fst ` set ?vs \<and> w \<noteq> v")
    case True
    then obtain k where k: "(w, k) \<in> set ?vs" by auto
    then obtain j where j: "j < length ?vs" "?vs ! j = (w, k)" by (auto simp: in_set_conv_nth)
    then have "?us ! j = (w, k)" using True n by (cases "j = i") auto
    then have "(w, k) \<in> set ?us" using j(1) by (metis length_list_update nth_mem)
    then show ?thesis using count_of_in [OF du] count_of_in [OF assms(2) k] True by simp
  next
    case False
    have "w \<noteq> v \<Longrightarrow> w \<notin> fst ` set ?us" using False mf by (metis list.set_map)
    then have "w \<noteq> v \<Longrightarrow> count_of ?us w = 0 \<and> count_of ?vs w = 0" using count_of_notin False by blast
    moreover have "count_of ?us v = n - 1" by (rule count_of_in [OF du]) (use il in \<open>simp add: set_update_memI\<close>)
    ultimately show ?thesis by (cases "w = v") simp_all
  qed
  have cv: "count_of ?vs v = n" using count_of_in [OF assms(2), of v n] n il nth_mem by metis
  show ?thesis
  proof (cases "n - 1 \<le> 0")
    case False
    then show ?thesis using i n assms du cu cv mf
      by (intro exI [of _ ?us] exI [of _ "sl_max s"]) (simp add: del_visual_def Let_def; metis list.set_map subset_refl)
  next
    case True
    let ?ws = "butlast (?us[i := last ?us])"
    have ui: "i < length ?us" "?us ! i = (v, n - 1)" using il by simp_all
    note vd = vec_drop [OF ui(1) du, unfolded ui(2)]
    have vout: "v \<notin> fst ` set ?ws"
    proof
      assume "v \<in> fst ` set ?ws"
      then obtain k where "(v, k) \<in> set ?ws" by auto
      then have k: "(v, k) \<in> set ?us" "k \<noteq> n - 1" unfolding vd(3) by auto
      then show False using count_of_in [OF du k(1)] cu [of v] by simp
    qed
    have cw: "count_of ?ws w = count_of ?vs w" if "w \<noteq> v" for w
    proof (cases "w \<in> fst ` set ?us")
      case True
      then obtain k where k: "(w, k) \<in> set ?us" by auto
      then have "(w, k) \<in> set ?ws" using that unfolding vd(3) by simp
      then show ?thesis using count_of_in [OF vd(2)] count_of_in [OF du k] cu [of w] that by simp
    next
      case False
      then have "w \<notin> fst ` set ?ws" unfolding vd(3) by auto
      then show ?thesis using False count_of_notin [of w] cu [of w] that by metis
    qed
    have sub: "fst ` set ?ws \<subseteq> fst ` set ?vs" using mf unfolding vd(3) by (metis Diff_subset image_mono list.set_map)
    show ?thesis using i n True assms(1) vd(2) vout cw sub cv count_of_notin [OF vout]
      by (intro exI [of _ ?ws] exI [of _ "if v = sl_max s then (if ?ws = [] then 0 else fst (last ?ws)) else sl_max s"])
        (simp add: del_visual_def Let_def)
  qed
qed

end
