(* ===== verification/SkipListOps.thy ===== *)
theory SkipListOps
  imports SkipListViews
begin

text \<open>
  Every operation of the skip-list index keeps the list sorted, the views counted and the interest
  lists exact, and reports exactly who comes into and goes out of view.
\<close>

declare split_paired_All [simp del] split_paired_Ex [simp del]

section \<open>The invariant\<close>

definition sl_sound :: "skip \<Rightarrow> bool" where
  "sl_sound s \<longleftrightarrow> sorted_list s \<and> counted s \<and> exact (sl_heap s)"

definition sl_inv :: "skip \<Rightarrow> bool" where
  "sl_inv s \<longleftrightarrow> sl_sound s \<and> covers s"

definition inside :: "skip \<Rightarrow> int \<Rightarrow> bool" where
  "inside s x \<longleftrightarrow> 0 \<le> x \<and> x div sl_index s < int (length (sl_indexer s))"

lemma frame_finite: "frame s \<Longrightarrow> finite (dom (sl_heap s))"
proof -
  assume "frame s"
  then have "Ent ` dom (sl_heap s) \<subseteq> set (sl_list s)" by (auto simp: frame_def)
  then have "finite (Ent ` dom (sl_heap s))" by (rule finite_subset) simp
  then show ?thesis by (rule finite_imageD) (simp add: inj_on_def)
qed

lemma sl_soundD:
  assumes "sl_sound s"
  shows "sorted_list s" "frame s" "finite (dom (sl_heap s))" "counted s" "exact (sl_heap s)" "lists_ok (sl_heap s)"
    "v \<in> set (il (sl_heap s) k) \<longleftrightarrow> watch (stat (sl_heap s)) v k"
  using assms frame_finite [of s] by (auto simp: sl_sound_def sorted_list_def exact_def)

lemma view_counted:
  assumes "counted s" "finite (dom (sl_heap s))" "sl_heap s k = Some d" "interest d" "sp_visual d \<noteq> 0"
  shows "sp_visual d \<in> fst ` set (sl_visual s)"
proof (rule ccontr)
  assume "sp_visual d \<notin> fst ` set (sl_visual s)"
  then have "count_of (sl_visual s) (sp_visual d) = 0" by (rule count_of_notin)
  moreover have "int (tally (sl_heap s) (sp_visual d)) \<le> count_of (sl_visual s) (sp_visual d)"
    using assms(1,5) by (simp add: counted_def)
  ultimately show False using tally_split [of "sl_heap s" k d "sp_visual d"] assms by simp
qed

lemma view_bounded:
  assumes "counted s" "covers s" "finite (dom (sl_heap s))" "sl_heap s k = Some d" "interest d"
  shows "sp_visual d \<le> sl_max s"
  using view_counted [OF assms(1,3-5)] assms(2) by (cases "sp_visual d = 0") (auto simp: covers_def)

text \<open>Where two heaps have the same positions, the list is sorted by the one as by the other.\<close>

lemma key_same:
  assumes "sl_indexer s' = sl_indexer s" "\<And>k. n = Ent k \<Longrightarrow> map_option sp_x (sl_heap s' k) = map_option sp_x (sl_heap s k)"
    "known s n"
  shows "key s' n = key s n"
proof (cases n)
  case (Ent k)
  then obtain c where "sl_heap s k = Some c" using assms(3) by (auto simp: known_def)
  then show ?thesis using assms(2) [OF Ent] Ent by (auto simp: key_def npos_def)
qed (use assms(1) in \<open>simp add: key_def npos_def\<close>)

lemma frame_same:
  "frame s \<Longrightarrow> sl_list s' = sl_list s \<Longrightarrow> sl_index s' = sl_index s \<Longrightarrow> sl_indexer s' = sl_indexer s \<Longrightarrow>
     dom (sl_heap s') = dom (sl_heap s) \<Longrightarrow> frame s'"
  by (simp add: frame_def)

lemma split_same:
  assumes sp: "split s e as bs" and same: "sl_list s' = sl_list s" "sl_index s' = sl_index s" "sl_indexer s' = sl_indexer s"
      "dom (sl_heap s') = dom (sl_heap s)"
    and x: "\<And>k. k \<noteq> e \<Longrightarrow> map_option sp_x (sl_heap s' k) = map_option sp_x (sl_heap s k)"
  shows "split s' e as bs" "placed s p e as bs \<Longrightarrow> placed s' p e as bs"
proof -
  have fr: "frame s" and l: "sl_list s = Idx 0 # as @ Ent e # bs" and o: "in_order s (as @ bs)"
    using sp by (simp_all add: split_def)
  have k: "key s' n = key s n" if "n \<in> set (as @ bs)" for n
  proof (rule key_same [OF same(3) x])
    show "known s n" using frame_known [OF fr] that l by auto
    have "Ent e \<notin> set (as @ bs)" using fr l by (simp add: frame_def)
    then show "k \<noteq> e" if "n = Ent k" for k using that \<open>n \<in> set (as @ bs)\<close> by auto
  qed
  have "in_order s' (as @ bs)" by (rule sorted_wrt_mono_rel [OF _ o]) (simp only: k)
  then show "split s' e as bs" using frame_same [OF fr same] l same(1) by (simp add: split_def)
  show "placed s p e as bs \<Longrightarrow> placed s' p e as bs" using k by (simp add: placed_def)
qed

lemma sorted_list_same:
  assumes so: "sorted_list s" and same: "sl_list s' = sl_list s" "sl_index s' = sl_index s" "sl_indexer s' = sl_indexer s"
    and x: "\<And>k. map_option sp_x (sl_heap s' k) = map_option sp_x (sl_heap s k)"
  shows "sorted_list s'"
proof -
  have fr: "frame s" and o: "in_order s (tl (sl_list s))" using so by (simp_all add: sorted_list_def)
  have "dom (sl_heap s') = dom (sl_heap s)" using x by (metis domIff map_option_is_None subsetI subset_antisym)
  then have "frame s'" using frame_same [OF fr same] by simp
  moreover have "key s' n = key s n" if "n \<in> set (tl (sl_list s))" for n
    by (rule key_same [OF same(3) x], rule frame_known [OF fr]) (use that in \<open>cases "sl_list s"; auto\<close>)
  then have "in_order s' (tl (sl_list s))" by (intro sorted_wrt_mono_rel [OF _ o]) (simp only:)
  ultimately show ?thesis using same(1) by (simp add: sorted_list_def)
qed

lemma stat_x: "stat h' = stat h \<Longrightarrow> map_option sp_x (h' k) = map_option sp_x (h k)"
proof -
  have "map_option sp_x (h k) = map_option sp_x (stat h k)" for h by (simp add: stat_def option.map_comp comp_def)
  then show "stat h' = stat h \<Longrightarrow> map_option sp_x (h' k) = map_option sp_x (h k)" by metis
qed

lemma counted_stat:
  "counted s \<Longrightarrow> sl_visual s' = sl_visual s \<Longrightarrow> stat (sl_heap s') = stat (sl_heap s) \<Longrightarrow> counted s'"
  by (simp add: counted_def tally_stat [of "sl_heap s'" "sl_heap s"])

section \<open>Exactness\<close>

text \<open>Exact apart from the entity \<open>e\<close>.\<close>

definition exact_but :: "int \<Rightarrow> (int \<rightharpoonup> skip_ent) \<Rightarrow> bool" where
  "exact_but e h \<longleftrightarrow> lists_ok h \<and> e \<notin> set (il h e) \<and>
     (\<forall>k v. k \<noteq> e \<longrightarrow> v \<noteq> e \<longrightarrow> (v \<in> set (il h k) \<longleftrightarrow> watch (stat h) v k))"

text \<open>A walk over \<open>ids\<close> makes the lists exact if the entities it does not visit do not matter.\<close>

lemma exact_walk:
  assumes ex: "exact_but e h" and st: "stat h' = stat h" and ok: "lists_ok h'" and e: "e \<notin> set ids"
    and mem: "\<And>k v. v \<in> set (il h' k) \<longleftrightarrow>
       (if k \<in> set ids \<and> v = e then P k else if k = e \<and> v \<in> set ids then Q v else v \<in> set (il h k))"
    and P: "\<And>d. d \<in> set ids \<Longrightarrow> P d \<longleftrightarrow> watch (stat h) e d" and Q: "\<And>d. d \<in> set ids \<Longrightarrow> Q d \<longleftrightarrow> watch (stat h) d e"
    and out: "\<And>d. d \<noteq> e \<Longrightarrow> d \<notin> set ids \<Longrightarrow> (e \<in> set (il h d) \<longleftrightarrow> watch (stat h) e d) \<and> (d \<in> set (il h e) \<longleftrightarrow> watch (stat h) d e)"
  shows "exact h'"
proof -
  have "v \<in> set (il h' k) \<longleftrightarrow> watch (stat h) v k" for k v
  proof -
    consider "k = e" "v = e" | "k = e" "v \<noteq> e" | "k \<noteq> e" "v = e" | "k \<noteq> e" "v \<noteq> e" by blast
    then show ?thesis
    proof cases
      case 1
      then show ?thesis using mem [of v k] e ex by (simp add: exact_but_def watch_def)
    next
      case 2
      then show ?thesis using mem [of v k] Q [of v] out [of v] by (cases "v \<in> set ids") simp_all
    next
      case 3
      then show ?thesis using mem [of v k] P [of k] out [of k] by (cases "k \<in> set ids") simp_all
    next
      case 4
      then show ?thesis using mem [of v k] ex by (simp add: exact_but_def)
    qed
  qed
  then show ?thesis using ok st by (simp add: exact_def)
qed

lemma watch_near: "watch D v k \<Longrightarrow> \<exists>c d. D v = Some c \<and> D k = Some d \<and> interest c \<and> \<bar>sp_x c - sp_x d\<bar> \<le> sp_visual c \<and> 0 < sp_visual c"
  by (auto simp: watch_def rel_def wants_def in_view_def sl_in_visual_def)

lemma watch_upd: "k \<noteq> e \<Longrightarrow> v \<noteq> e \<Longrightarrow> watch (D(e := c)) v k \<longleftrightarrow> watch D v k"
  by (simp add: watch_def rel_def)

lemma stat_upd: "stat (h(e \<mapsto> c)) = (stat h)(e \<mapsto> c\<lparr>sp_interest := []\<rparr>)"
  by (rule ext) (simp add: stat_def)

lemma exact_but_set:
  assumes "exact h" "sp_interest c = il h e"
  shows "exact_but e (h(e \<mapsto> c))" "il (h(e \<mapsto> c)) = il h"
proof -
  show i: "il (h(e \<mapsto> c)) = il h" using assms(2) by (auto simp: fun_eq_iff il_def)
  have "e \<notin> set (il h e)" using assms(1) by (simp add: exact_def watch_def)
  then show "exact_but e (h(e \<mapsto> c))"
    using assms(1) by (simp add: exact_but_def exact_def lists_ok_def i stat_upd watch_upd)
qed

lemma exact_dead: "exact h \<Longrightarrow> h e = None \<Longrightarrow> e \<notin> set (il h k) \<and> il h e = []"
  by (auto simp: exact_def watch_def rel_def stat_def il_def)

section \<open>Entering\<close>

lemma add_visual_keeps:
  assumes "counted s" "covers s" "sl_heap s e = None" "finite (dom (sl_heap s))"
  shows "\<exists>vs m. (if sp_visual c \<noteq> 0 \<and> interest c then add_visual (sp_visual c) (s\<lparr>sl_heap := (sl_heap s)(e \<mapsto> c)\<rparr>)
      else Inr (s\<lparr>sl_heap := (sl_heap s)(e \<mapsto> c)\<rparr>)) = Inr (s\<lparr>sl_heap := (sl_heap s)(e \<mapsto> c), sl_visual := vs, sl_max := m\<rparr>) \<and>
    counted (s\<lparr>sl_heap := (sl_heap s)(e \<mapsto> c), sl_visual := vs, sl_max := m\<rparr>) \<and>
    covers (s\<lparr>sl_heap := (sl_heap s)(e \<mapsto> c), sl_visual := vs, sl_max := m\<rparr>)"
proof (cases "sp_visual c \<noteq> 0 \<and> interest c")
  case True
  let ?s1 = "s\<lparr>sl_heap := (sl_heap s)(e \<mapsto> c)\<rparr>"
  have dis: "distinct (map fst (sl_visual ?s1))" using assms(1) by (simp add: counted_def)
  obtain vs m where a: "add_visual (sp_visual c) ?s1 = Inr (?s1\<lparr>sl_visual := vs, sl_max := m\<rparr>)" "distinct (map fst vs)"
      "fst ` set vs = insert (sp_visual c) (fst ` set (sl_visual ?s1))"
      "\<And>w. count_of vs w = count_of (sl_visual ?s1) w + (if w = sp_visual c then 1 else 0)"
      "m = (if sp_visual c \<in> fst ` set (sl_visual ?s1) then sl_max ?s1 else max (sp_visual c) (sl_max ?s1))"
    using add_visual_ok [OF conjunct1 [OF True] dis] by blast
  have "int (tally ((sl_heap s)(e \<mapsto> c)) w) \<le> count_of vs w" if "w \<noteq> 0" for w
    using tally_add [OF assms(3,4), of c w] a(4) [of w] assms(1) that True by (auto simp: counted_def)
  moreover have "0 \<le> m \<and> (\<forall>v \<in> fst ` set vs. v \<le> m)" using assms(2) a(5) unfolding a(3) by (auto simp: covers_def)
  ultimately show ?thesis using True a(1,2) by (intro exI [of _ vs] exI [of _ m]) (simp add: counted_def covers_def)
next
  case False
  have "int (tally ((sl_heap s)(e \<mapsto> c)) w) \<le> count_of (sl_visual s) w" if "w \<noteq> 0" for w
    using tally_add [OF assms(3,4), of c w] assms(1) that False by (auto simp: counted_def)
  then show ?thesis using assms(1,2) unfolding if_not_P [OF False]
    by (intro exI [of _ "sl_visual s"] exI [of _ "sl_max s"]) (simp add: counted_def covers_def)
qed

lemma range_ids_stat:
  assumes "split s e as bs" "placed s p e as bs" "lo \<le> p \<longleftrightarrow> p \<le> hi"
  shows "set (range_ids s as bs lo hi) = {k. k \<noteq> e \<and> (\<exists>d. stat (sl_heap s) k = Some d \<and> lo \<le> sp_x d \<and> sp_x d \<le> hi)}"
    and "distinct (range_ids s as bs lo hi)" "e \<notin> set (range_ids s as bs lo hi)"
    and "k \<in> set (range_ids s as bs lo hi) \<Longrightarrow> sl_heap s k \<noteq> None"
  using sl_range_ids_set [OF assms] by (auto simp: stat_def)

lemma walk_sound:
  assumes "split s e as bs" "placed s (sp_x c) e as bs" "sl_heap s e = Some c" "counted s" "exact h" "stat h = stat (sl_heap s)"
  shows "sl_sound (s\<lparr>sl_heap := h\<rparr>)"
proof -
  have "sorted_list s" using split_sorted_list [OF assms(1-3)] .
  then have "sorted_list (s\<lparr>sl_heap := h\<rparr>)" by (rule sorted_list_same) (simp_all add: stat_x [OF assms(6)])
  moreover have "counted (s\<lparr>sl_heap := h\<rparr>)" using counted_stat [OF assms(4)] assms(6) by simp
  ultimately show ?thesis using assms(5) by (simp add: sl_sound_def)
qed

lemma watch_bounded:
  assumes "counted s" "covers s" "finite (dom (sl_heap s))" "watch (stat (sl_heap s)) v k"
  shows "\<exists>c d. stat (sl_heap s) v = Some c \<and> stat (sl_heap s) k = Some d \<and>
    sp_x c - sp_x d \<le> sl_max s \<and> sp_x d - sp_x c \<le> sl_max s"
proof -
  obtain c d where cd: "stat (sl_heap s) v = Some c" "stat (sl_heap s) k = Some d" "interest c"
      "\<bar>sp_x c - sp_x d\<bar> \<le> sp_visual c" using watch_near [OF assms(4)] by auto
  obtain b where b: "sl_heap s v = Some b" "c = b\<lparr>sp_interest := []\<rparr>" using cd(1) by (auto simp: stat_def)
  then have "sp_visual c \<le> sl_max s" using view_bounded [OF assms(1-3) b(1)] cd(3) by simp
  then show ?thesis using cd by auto
qed

lemma sl_enter_ok:
  assumes inv: "sl_inv s" and new: "sl_heap s e = None" "e \<noteq> 0" and x: "inside s x"
    and c: "c = \<lparr>sp_mask = m, sp_x = x, sp_y = y, sp_z = z, sp_visual = v, sp_interest = []\<rparr>"
    and D: "D = (stat (sl_heap s))(e \<mapsto> c)"
  shows "\<exists>ids s'. sl_enter_entity e x y z v m (mi, oi, mo, oo) s =
      Inr (True, (push_opt mi (filter (rel in_view D e) ids), push_opt oi (filter (\<lambda>d. rel in_view D d e) ids), mo, oo), s') \<and>
    sl_inv s' \<and> stat (sl_heap s') = D \<and> sl_index s' = sl_index s \<and> sl_indexer s' = sl_indexer s \<and>
    distinct ids \<and> set ids = {k. k \<noteq> e \<and> (\<exists>d. D k = Some d \<and> \<bar>sp_x d - x\<bar> \<le> sl_max s')}"
proof -
  have so: "sl_sound s" "covers s" using inv by (simp_all add: sl_inv_def)
  note snd = sl_soundD [OF so(1)]
  have cf: "sp_visual c = v" "sp_x c = x" "sp_interest c = []" "c\<lparr>sp_interest := []\<rparr> = c" using c by simp_all
  let ?h = "(sl_heap s)(e \<mapsto> c)"
  obtain vs w where add: "(if v \<noteq> 0 \<and> interest c then add_visual v (s\<lparr>sl_heap := ?h\<rparr>) else Inr (s\<lparr>sl_heap := ?h\<rparr>)) =
      Inr (s\<lparr>sl_heap := ?h, sl_visual := vs, sl_max := w\<rparr>)"
    and cnt: "counted (s\<lparr>sl_heap := ?h, sl_visual := vs, sl_max := w\<rparr>)" "covers (s\<lparr>sl_heap := ?h, sl_visual := vs, sl_max := w\<rparr>)"
    using add_visual_keeps [OF snd(4) so(2) new(1) snd(3), of c, unfolded cf] by blast
  define s2 where "s2 = s\<lparr>sl_heap := ?h, sl_visual := vs, sl_max := w\<rparr>"
  have f2: "sl_heap s2 = ?h" "sl_list s2 = sl_list s" "sl_index s2 = sl_index s" "sl_indexer s2 = sl_indexer s" "sl_max s2 = w"
    by (simp_all add: s2_def)
  have so2: "sorted_list (without e s2)" by (rule sorted_list_same [OF snd(1)]) (simp_all add: f2 new(1))
  obtain as bs where ins: "insert_entity e s2 = Inr (s2\<lparr>sl_list := Idx 0 # as @ Ent e # bs\<rparr>)"
    and sp2: "split (s2\<lparr>sl_list := Idx 0 # as @ Ent e # bs\<rparr>) e as bs" and pl: "placed s2 x e as bs"
    using insert_entity_ok [OF so2 _ new(2), of c, unfolded cf] x by (auto simp: f2 inside_def)
  define s3 where "s3 = s2\<lparr>sl_list := Idx 0 # as @ Ent e # bs\<rparr>"
  have f3: "sl_heap s3 = ?h" "sl_max s3 = w" "sl_visual s3 = vs" "sl_index s3 = sl_index s" "sl_indexer s3 = sl_indexer s"
    by (simp_all add: s3_def s2_def)
  have sp: "split s3 e as bs" "placed s3 x e as bs" using sp2 pl by (simp_all add: s3_def)
  have c3: "counted s3" "covers s3" using cnt by (simp_all add: s3_def s2_def counted_def covers_def)
  have st: "stat ?h = D" by (simp add: D stat_upd cf)
  define ids where "ids = range_ids s3 as bs (x - w) (x + w)"
  note rng = range_ids_stat [OF sp, of "x - w" "x + w", simplified, folded ids_def, unfolded f3 st]
  have eb: "exact_but e ?h" "il ?h = il (sl_heap s)"
    using exact_but_set [OF snd(5), of c e] exact_dead [OF snd(5) new(1)] cf(3) by simp_all
  have dead: "e \<notin> set (il ?h k)" "il ?h e = []" for k using exact_dead [OF snd(5) new(1)] eb(2) by simp_all
  obtain h' where h': "fold_res (sl_enter_visit e) ids (?h, mi, oi, mo, oo) =
      Inr (h', fold (\<lambda>d. reports (rel in_view D e) (\<lambda>d. rel in_view D d e) (\<lambda>_. False) (\<lambda>_. False) d) ids (mi, oi, mo, oo))"
      "stat h' = D" "lists_ok h'"
      "\<And>k v. v \<in> set (il h' k) \<longleftrightarrow> (if k \<in> set ids \<and> v = e then seen e D k else if k = e \<and> v \<in> set ids then sees e D v else v \<in> set (il ?h k))"
    using entering.visit_all [of ?h e ids "(mi, oi, mo, oo)"] rng(2-4) eb(1) dead unfolding st exact_but_def by auto
  have bound: "d \<in> set ids" if "watch D e d \<or> watch D d e" for d
    using that watch_bounded [OF c3, of e d] watch_bounded [OF c3, of d e] snd(3)
    unfolding rng(1) by (auto simp: f3 st D cf watch_def)
  have ex: "exact h'"
    by (rule exact_walk [OF eb(1), where ids = ids and P = "seen e D" and Q = "sees e D"])
      (use h' rng(3) bound dead in \<open>auto simp: st watch_def\<close>)
  have "each_range_visual s3 e w (sl_enter_visit e) (?h, mi, oi, mo, oo) = fold_res (sl_enter_visit e) ids (?h, mi, oi, mo, oo)"
    using each_range_ids [OF sp(1)] by (simp add: each_range_visual_def sl_deref_def f3 ids_def cf)
  then have run: "sl_enter_entity e x y z v m (mi, oi, mo, oo) s =
      Inr (True, (push_opt mi (filter (rel in_view D e) ids), push_opt oi (filter (\<lambda>d. rel in_view D d e) ids), mo, oo), s3\<lparr>sl_heap := h'\<rparr>)"
    using new(1) add ins h'(1)
    by (simp add: sl_enter_entity_def c [symmetric] s2_def [symmetric] s3_def [symmetric] f3 fold_reports)
  have "sl_inv (s3\<lparr>sl_heap := h'\<rparr>)"
    using walk_sound [OF sp(1) _ _ c3(1) ex, of c] sp(2) c3(2) h'(2) st by (simp add: sl_inv_def covers_def f3 cf)
  then show ?thesis using run h'(2) rng(1,2) by (intro exI [of _ ids] exI [of _ "s3\<lparr>sl_heap := h'\<rparr>"]) (auto simp: f3)
qed

section \<open>Leaving\<close>

lemma erase_sorted:
  assumes "split s e as bs"
  shows "sorted_list (list_erase (Ent e) (without e s))"
proof -
  have fr: "frame s" and l: "sl_list s = Idx 0 # as @ Ent e # bs" and o: "in_order s (as @ bs)"
    using assms by (simp_all add: split_def)
  have d: "distinct ((Idx 0 # as) @ Ent e # bs)" using fr l by (simp add: frame_def)
  let ?s = "list_erase (Ent e) (without e s)"
  have le: "sl_list ?s = Idx 0 # as @ bs" using sides_split(3) [OF d] l by (simp add: list_erase_def)
  have same: "sl_index ?s = sl_index s" "sl_indexer ?s = sl_indexer s" "sl_heap ?s = (sl_heap s)(e := None)"
    by (simp_all add: list_erase_def)
  have "set (Idx 0 # as @ bs) = set (sl_list s) - {Ent e}" "distinct (Idx 0 # as @ bs)" using d unfolding l by auto
  moreover have "Ent ` (dom (sl_heap s) - {e}) = Ent ` dom (sl_heap s) - {Ent e}" by auto
  moreover have "dom ((sl_heap s)(e := None)) = dom (sl_heap s) - {e}" by auto
  ultimately have "frame ?s" using fr unfolding frame_def le same by auto
  moreover have "key ?s n = key s n" if "n \<in> set (as @ bs)" for n
  proof (rule key_same [OF same(2)])
    show "known s n" using frame_known [OF fr] that l by auto
    show "map_option sp_x (sl_heap ?s k) = map_option sp_x (sl_heap s k)" if "n = Ent k" for k
      using that \<open>n \<in> set (as @ bs)\<close> d same(3) by auto
  qed
  then have "in_order ?s (as @ bs)" by (intro sorted_wrt_mono_rel [OF _ o]) (simp only:)
  ultimately show ?thesis by (simp add: sorted_list_def le)
qed

lemma exit_walk:
  assumes so: "sl_sound s" and c: "sl_heap s e = Some c"
  shows "\<exists>h l. (if sp_visual c > 0 \<and> interest c then each_range_visual s e (sp_visual c) (sl_exit_visit e) (sl_heap s, None)
      else Inr (sl_heap s, None)) = Inr (h, l) \<and> stat h = stat (sl_heap s) \<and> lists_ok h \<and>
    (\<forall>k v. v \<in> set (il h k) \<longleftrightarrow> v \<noteq> e \<and> v \<in> set (il (sl_heap s) k))"
proof -
  note snd = sl_soundD [OF so]
  let ?h = "sl_heap s"
  have self: "e \<notin> set (il ?h e)" using snd(7) by (simp add: watch_def)
  show ?thesis
  proof (cases "sp_visual c > 0 \<and> interest c")
    case False
    have "\<not> watch (stat ?h) e k" for k
      using False c by (auto simp: watch_def rel_def wants_def in_view_def sl_in_visual_def stat_def)
    then show ?thesis unfolding if_not_P [OF False] using snd(6,7) by (intro exI [of _ ?h]) auto
  next
    case True
    obtain as bs where sp: "split s e as bs" "placed s (sp_x c) e as bs" using sorted_list_split [OF snd(1) c] by blast
    define ids where "ids = range_ids s as bs (sp_x c - sp_visual c) (sp_x c + sp_visual c)"
    note rng = range_ids_stat [OF sp, of "sp_x c - sp_visual c" "sp_x c + sp_visual c", simplified, folded ids_def]
    have mem: "?h d \<noteq> None \<and> (e \<in> set (il ?h d) \<longleftrightarrow> seen e (stat ?h) d) \<and> (d \<in> set (il ?h e) \<longleftrightarrow> sees e (stat ?h) d)"
      if "d \<in> set ids" for d
      using rng(4) [OF that] that rng(3) by (auto simp: snd(7) watch_def)
    obtain h' where h': "fold_res (sl_exit_visit e) ids (?h, None) = Inr (h', fold (report (rel in_view (stat ?h) e)) ids None)"
        "stat h' = stat ?h" "lists_ok h'"
        "\<And>k v. v \<in> set (il h' k) \<longleftrightarrow> (if k \<in> set ids \<and> v = e then False else if k = e \<and> v \<in> set ids then sees e (stat ?h) v else v \<in> set (il ?h k))"
      using leaving.visit_all [of ?h e ids None] c rng(2,3) snd(6) mem by auto
    have "k \<in> set ids" if "e \<in> set (il ?h k)" for k
      using that watch_near [of "stat ?h" e k] c unfolding snd(7) rng(1) by (auto simp: stat_def watch_def)
    then have "v \<in> set (il h' k) \<longleftrightarrow> v \<noteq> e \<and> v \<in> set (il ?h k)" for k v
      using h'(4) [of v k] mem [of v] self by (cases "v = e") auto
    moreover have "each_range_visual s e (sp_visual c) (sl_exit_visit e) (?h, None) = fold_res (sl_exit_visit e) ids (?h, None)"
      using c by (simp add: each_range_visual_def sl_deref_def each_range_ids [OF sp(1)] ids_def)
    ultimately show ?thesis using h'(1-3) unfolding if_P [OF True] by auto
  qed
qed

lemma sl_exit_ok:
  assumes inv: "sl_inv s" and c: "sl_heap s e = Some c"
  shows "\<exists>l s'. sl_exit_entity e list s = Inr (0, push_opt list l, s') \<and> sl_inv s' \<and>
    stat (sl_heap s') = (stat (sl_heap s))(e := None) \<and> sl_index s' = sl_index s \<and> sl_indexer s' = sl_indexer s \<and>
    distinct l \<and> set l = {v. watch (stat (sl_heap s)) v e}"
proof -
  have so: "sl_sound s" "covers s" using inv by (simp_all add: sl_inv_def)
  note snd = sl_soundD [OF so(1)]
  let ?h = "sl_heap s"
  obtain h l where h: "(if sp_visual c > 0 \<and> interest c then each_range_visual s e (sp_visual c) (sl_exit_visit e) (?h, None)
      else Inr (?h, None)) = Inr (h, l)" "stat h = stat ?h" "lists_ok h"
      "\<And>k v. v \<in> set (il h k) \<longleftrightarrow> v \<noteq> e \<and> v \<in> set (il ?h k)"
    using exit_walk [OF so(1) c] by blast
  have "h e \<noteq> None" using stat_live [OF h(2), of e] c by simp
  then obtain c' where c': "h e = Some c'" by auto
  have ile: "il h e = sp_interest c'" using c' by (simp add: il_def)
  obtain as bs where sp: "split s e as bs" using sorted_list_split [OF snd(1) c] by blast
  let ?s' = "list_erase (Ent e) (s\<lparr>sl_heap := h(e := None)\<rparr>)"
  have f: "sl_heap ?s' = h(e := None)" "sl_visual ?s' = sl_visual s" "sl_max ?s' = sl_max s" "sl_index ?s' = sl_index s"
    "sl_indexer ?s' = sl_indexer s" by (simp_all add: list_erase_def)
  have run: "sl_exit_entity e list s = Inr (0, push_opt list (sp_interest c'), ?s')"
    using c h(1) c' by (simp add: sl_exit_entity_def sl_deref_def)
  have st: "stat (h(e := None)) = (stat ?h)(e := None)" using h(2) by (auto simp: fun_eq_iff stat_def)
  have "sorted_list ?s'"
  proof (rule sorted_list_same [OF erase_sorted [OF sp]])
    show "map_option sp_x (sl_heap ?s' k) = map_option sp_x (sl_heap (list_erase (Ent e) (without e s)) k)" for k
      using stat_x [OF h(2), of k] by (simp add: list_erase_def)
  qed (simp_all add: list_erase_def)
  moreover have "counted ?s'"
  proof -
    have "tally (h(e := None)) v \<le> tally ?h v" for v
      using tally_split [OF c snd(3), of v] tally_stat [of "h(e := None)" "?h(e := None)" v] st by (simp add: stat_upd fun_upd_def stat_def fun_eq_iff)
    then show ?thesis using snd(4) unfolding counted_def f by (meson le_trans of_nat_le_iff order_trans)
  qed
  moreover have "exact (h(e := None))"
  proof -
    have il: "il (h(e := None)) k = (if k = e then [] else il h k)" for k by (simp add: il_def)
    have "watch ((stat ?h)(e := None)) v k \<longleftrightarrow> v \<noteq> e \<and> k \<noteq> e \<and> watch (stat ?h) v k" for v k
      by (auto simp: watch_def rel_def)
    then show ?thesis using h(3,4) snd(7) by (auto simp: exact_def lists_ok_def il st)
  qed
  ultimately have "sl_inv ?s'" using so(2) by (simp add: sl_inv_def sl_sound_def f covers_def)
  moreover have "distinct (sp_interest c')" "set (sp_interest c') = {v. watch (stat ?h) v e}"
    using h(3) h(4) [of _ e] snd(7) [of _ e] unfolding ile [symmetric] by (auto simp: lists_ok_def watch_def)
  ultimately show ?thesis using run st by (intro exI [of _ "sp_interest c'"] exI [of _ ?s']) (simp add: f)
qed

section \<open>Moving\<close>

text \<open>
  The reports of a move from the heap \<open>D\<close> to \<open>D'\<close>: who comes into the view of \<open>e\<close> and whose view \<open>e\<close> comes
  into, and who and whose it leaves.
\<close>

definition list_of :: "int set \<Rightarrow> int list \<Rightarrow> bool" where
  "list_of A l \<longleftrightarrow> distinct l \<and> set l = A"

definition moved :: "(int \<rightharpoonup> skip_ent) \<Rightarrow> (int \<rightharpoonup> skip_ent) \<Rightarrow> int \<Rightarrow> lists \<Rightarrow> lists \<Rightarrow> bool" where
  "moved D D' e ls ls' \<longleftrightarrow> (case ls of (mi, oi, mo, oo) \<Rightarrow> \<exists>a b c d.
     ls' = (push_opt mi a, push_opt oi b, push_opt mo c, push_opt oo d) \<and>
     list_of {k. watch D' e k \<and> \<not> watch D e k} a \<and> list_of {k. watch D' k e \<and> \<not> watch D k e} b \<and>
     list_of {k. watch D e k \<and> \<not> watch D' e k} c \<and> list_of {k. watch D k e \<and> \<not> watch D' k e} d)"

lemma list_of_filter: "distinct ids \<Longrightarrow> (\<And>k. k \<in> A \<longleftrightarrow> k \<in> set ids \<and> P k) \<Longrightarrow> list_of A (filter P ids)"
  by (auto simp: list_of_def)

text \<open>A state \<open>s1\<close> that differs from \<open>s\<close> in the position of the entity \<open>e\<close> only.\<close>

definition relocated :: "skip \<Rightarrow> skip \<Rightarrow> int \<Rightarrow> skip_ent \<Rightarrow> int \<times> int \<times> int \<Rightarrow> bool" where
  "relocated s s1 e c new \<longleftrightarrow> sl_inv s \<and> sl_heap s e = Some c \<and>
     s1 = s\<lparr>sl_heap := (sl_heap s)(e \<mapsto> c\<lparr>sp_x := fst new, sp_y := fst (snd new), sp_z := snd (snd new)\<rparr>)\<rparr>"

definition place :: "skip_ent \<Rightarrow> int \<times> int \<times> int" where
  "place c = (sp_x c, sp_y c, sp_z c)"

lemma relocatedD:
  assumes "relocated s s1 e c new"
  shows "sl_inv s" "sl_sound s" "covers s" "sl_heap s e = Some c"
    "sl_heap s1 = (sl_heap s)(e \<mapsto> c\<lparr>sp_x := fst new, sp_y := fst (snd new), sp_z := snd (snd new)\<rparr>)"
    "sl_max s1 = sl_max s" "sl_index s1 = sl_index s" "sl_indexer s1 = sl_indexer s" "sl_list s1 = sl_list s" "sl_visual s1 = sl_visual s"
  using assms by (simp_all add: relocated_def sl_inv_def)

lemma relocated_e:
  assumes "relocated s s1 e c new"
  shows "stat (sl_heap s1) e = Some (c\<lparr>sp_x := fst new, sp_y := fst (snd new), sp_z := snd (snd new), sp_interest := []\<rparr>)"
    "stat (sl_heap s) e = Some (c\<lparr>sp_interest := []\<rparr>)" "d \<noteq> e \<Longrightarrow> stat (sl_heap s1) d = stat (sl_heap s) d"
  using relocatedD(4,5) [OF assms] by (simp_all add: stat_def)

lemma relocated_before:
  assumes "relocated s s1 e c new" "d \<noteq> e"
  shows "saw (place c) e (stat (sl_heap s1)) d \<longleftrightarrow> watch (stat (sl_heap s)) e d"
    "was_seen (place c) e (stat (sl_heap s1)) d \<longleftrightarrow> watch (stat (sl_heap s)) d e"
  using relocated_e [OF assms(1)] assms(2)
  by (auto simp: watch_def rel_def seer_def wants_def was_me_def was_other_def in_view_def sl_in_visual_def interest_def place_def
      abs_minus_commute)

lemma relocated_lists:
  assumes "relocated s s1 e c new"
  shows "exact_but e (sl_heap s1)" "lists_ok (sl_heap s1)" "v \<in> set (il (sl_heap s1) k) \<longleftrightarrow> watch (stat (sl_heap s)) v k"
proof -
  note r = relocatedD [OF assms]
  have "sp_interest (c\<lparr>sp_x := fst new, sp_y := fst (snd new), sp_z := snd (snd new)\<rparr>) = il (sl_heap s) e"
    using r(4) by (simp add: il_def)
  from exact_but_set [OF sl_soundD(5) [OF r(2)] this]
  have i: "il (sl_heap s1) = il (sl_heap s)" and eb: "exact_but e (sl_heap s1)" by (simp_all add: r)
  show "exact_but e (sl_heap s1)" by (rule eb)
  then show "lists_ok (sl_heap s1)" by (simp add: exact_but_def)
  show "v \<in> set (il (sl_heap s1) k) \<longleftrightarrow> watch (stat (sl_heap s)) v k" unfolding i by (rule sl_soundD(7) [OF r(2)])
qed

lemma relocated_split:
  assumes "relocated s s1 e c new"
  shows "\<exists>as bs. split s1 e as bs \<and> placed s1 (sp_x c) e as bs"
proof -
  note r = relocatedD [OF assms]
  obtain as bs where sp: "split s e as bs" "placed s (sp_x c) e as bs"
    using sorted_list_split [OF sl_soundD(1) [OF r(2)] r(4)] by blast
  have "dom (sl_heap s1) = dom (sl_heap s)" using r(4) by (auto simp: r(5))
  then show ?thesis using split_same [OF sp(1), of s1] sp(2) by (intro exI [of _ as] exI [of _ bs]) (simp add: r(5-9))
qed

lemma relocated_count:
  assumes "relocated s s1 e c new"
  shows "counted s1" "covers s1" "finite (dom (sl_heap s1))"
proof -
  note r = relocatedD [OF assms] and f = sl_soundD(3) [OF relocatedD(2) [OF assms]]
  let ?c = "c\<lparr>sp_x := fst new, sp_y := fst (snd new), sp_z := snd (snd new)\<rparr>"
  have h: "sl_heap s1 = ((sl_heap s)(e := None))(e \<mapsto> ?c)" by (simp add: r(5))
  have "tally (sl_heap s1) v = tally (sl_heap s) v" for v
    unfolding h using tally_add [of "(sl_heap s)(e := None)" e ?c v] tally_split [OF r(4) f, of v] f by (simp add: interest_def)
  then show "counted s1" using sl_soundD(4) [OF r(2)] by (simp add: counted_def r(10))
  show "covers s1" using r(3) by (simp add: covers_def r(6,10))
  show "finite (dom (sl_heap s1))" using f by (simp add: r(5))
qed

text \<open>Who is seen, before or after, is within the largest view of the one position or the other.\<close>

lemma relocated_near:
  assumes "relocated s s1 e c new"
  shows "watch (stat (sl_heap s)) e d \<or> watch (stat (sl_heap s)) d e \<Longrightarrow>
      \<exists>b. stat (sl_heap s1) d = Some b \<and> sp_x c - sl_max s \<le> sp_x b \<and> sp_x b \<le> sp_x c + sl_max s"
    and "watch (stat (sl_heap s1)) e d \<or> watch (stat (sl_heap s1)) d e \<Longrightarrow>
      \<exists>b. stat (sl_heap s1) d = Some b \<and> fst new - sl_max s \<le> sp_x b \<and> sp_x b \<le> fst new + sl_max s"
proof -
  note r = relocatedD [OF assms] and re = relocated_e [OF assms]
  note w0 = watch_bounded [OF sl_soundD(4) [OF r(2)] r(3) sl_soundD(3) [OF r(2)]]
    and w1 = watch_bounded [OF relocated_count [OF assms], unfolded r(6)]
  show "\<exists>b. stat (sl_heap s1) d = Some b \<and> sp_x c - sl_max s \<le> sp_x b \<and> sp_x b \<le> sp_x c + sl_max s"
    if w: "watch (stat (sl_heap s)) e d \<or> watch (stat (sl_heap s)) d e"
  proof -
    have "d \<noteq> e" using w by (auto simp: watch_def)
    then show ?thesis using w w0 [of e d] w0 [of d e] re(2) re(3) [of d] by auto
  qed
  show "\<exists>b. stat (sl_heap s1) d = Some b \<and> fst new - sl_max s \<le> sp_x b \<and> sp_x b \<le> fst new + sl_max s"
    if w: "watch (stat (sl_heap s1)) e d \<or> watch (stat (sl_heap s1)) d e"
    using w w1 [of e d] w1 [of d e] re(1) by auto
qed

lemma reports_moved:
  assumes "fold (reports A B C E) ids ls = ls'" "distinct ids"
    and "\<And>k. watch D' e k \<and> \<not> watch D e k \<longleftrightarrow> k \<in> set ids \<and> A k" "\<And>k. watch D' k e \<and> \<not> watch D k e \<longleftrightarrow> k \<in> set ids \<and> B k"
    and "\<And>k. watch D e k \<and> \<not> watch D' e k \<longleftrightarrow> k \<in> set ids \<and> C k" "\<And>k. watch D k e \<and> \<not> watch D' k e \<longleftrightarrow> k \<in> set ids \<and> E k"
  shows "moved D D' e ls ls'"
proof -
  obtain mi oi mo oo where ls: "ls = (mi, oi, mo, oo)" by (metis prod_cases4)
  have "list_of {k. watch D' e k \<and> \<not> watch D e k} (filter A ids)" "list_of {k. watch D' k e \<and> \<not> watch D k e} (filter B ids)"
    "list_of {k. watch D e k \<and> \<not> watch D' e k} (filter C ids)" "list_of {k. watch D k e \<and> \<not> watch D' k e} (filter E ids)"
    by (rule list_of_filter [OF assms(2)]; simp add: assms(3-6))+
  then show ?thesis using assms(1) unfolding moved_def ls fold_reports prod.case by blast
qed

lemma update_short_ok:
  assumes rl: "relocated s s1 e c new"
  shows "\<exists>ls' s'. update_entity_short e (place c) ls s1 = Inr (0, ls', s') \<and> sl_inv s' \<and> stat (sl_heap s') = stat (sl_heap s1) \<and>
    sl_index s' = sl_index s \<and> sl_indexer s' = sl_indexer s \<and> moved (stat (sl_heap s)) (stat (sl_heap s1)) e ls ls'"
proof -
  note r = relocatedD [OF rl] and re = relocated_e [OF rl] and rb = relocated_before [OF rl] and rn = relocated_near [OF rl]
    and rc = relocated_count [OF rl] and rli = relocated_lists [OF rl]
  let ?x = "fst new" and ?m = "sl_max s"
  define c1 where "c1 = c\<lparr>sp_x := ?x, sp_y := fst (snd new), sp_z := snd (snd new)\<rparr>"
  have h1: "sl_heap s1 e = Some c1" "sp_x c1 = ?x" by (simp_all add: r(5) c1_def)
  have m: "0 \<le> ?m" using r(3) by (simp add: covers_def)
  define lo where "lo = (if ?x > sp_x c then sp_x c - ?m else ?x - ?m)"
  define hi where "hi = (if ?x > sp_x c then ?x + ?m else sp_x c + ?m)"
  have lh: "lo \<le> ?x" "?x \<le> hi" "lo \<le> sp_x c - ?m" "sp_x c + ?m \<le> hi" "lo \<le> ?x - ?m" "?x + ?m \<le> hi"
    using m by (auto simp: lo_def hi_def)
  obtain as bs where sp: "split s1 e as bs" "placed s1 (sp_x c) e as bs" using relocated_split [OF rl] by blast
  obtain as' bs' where sh: "sl_shift_entity e (sp_x c) s1 = Inr (s1\<lparr>sl_list := Idx 0 # as' @ Ent e # bs'\<rparr>)" "as' @ bs' = as @ bs"
      "placed s1 ?x e as' bs'"
    using shift_entity_ok [OF sp h1(1)] h1(2) by auto
  define s2 where "s2 = s1\<lparr>sl_list := Idx 0 # as' @ Ent e # bs'\<rparr>"
  have f2: "sl_heap s2 = sl_heap s1" "sl_max s2 = ?m" "sl_visual s2 = sl_visual s" "sl_index s2 = sl_index s" "sl_indexer s2 = sl_indexer s"
    by (simp_all add: s2_def r)
  have sp2: "split s2 e as' bs'" "placed s2 ?x e as' bs'"
    using split_relist [OF sp(1) sh(2)] sh(3) by (simp_all add: s2_def)
  define ids where "ids = range_ids s2 as' bs' lo hi"
  have iff: "lo \<le> ?x \<longleftrightarrow> ?x \<le> hi" using lh by simp
  note rng = range_ids_stat [OF sp2 iff, folded ids_def, unfolded f2]
  let ?D = "stat (sl_heap s)" and ?D1 = "stat (sl_heap s1)"
  have old: "saw (place c) e ?D1 d \<longleftrightarrow> watch ?D e d" "was_seen (place c) e ?D1 d \<longleftrightarrow> watch ?D d e" if "d \<in> set ids" for d
    using rb that rng(3) by metis+
  have now: "seen e ?D1 d \<longleftrightarrow> watch ?D1 e d" "sees e ?D1 d \<longleftrightarrow> watch ?D1 d e" if "d \<in> set ids" for d
    using that rng(3) by (auto simp: watch_def)
  have out: "d \<in> set ids" if w: "watch ?D e d \<or> watch ?D d e \<or> watch ?D1 e d \<or> watch ?D1 d e" for d
  proof -
    have "d \<noteq> e" using w by (auto simp: watch_def)
    moreover have "\<exists>b. ?D1 d = Some b \<and> lo \<le> sp_x b \<and> sp_x b \<le> hi" using w rn [of d] lh by fastforce
    ultimately show ?thesis unfolding rng(1) by blast
  qed
  have mem: "sl_heap s1 d \<noteq> None \<and> (e \<in> set (il (sl_heap s1) d) \<longleftrightarrow> saw (place c) e ?D1 d) \<and>
      (d \<in> set (il (sl_heap s1) e) \<longleftrightarrow> was_seen (place c) e ?D1 d)" if "d \<in> set ids" for d
    using rng(4) [OF that] by (simp add: rli(3) old [OF that])
  have live: "sl_heap s1 e \<noteq> None" using h1 by simp
  obtain h' where h': "fold_res (change_visit in_view (was_me (place c)) (\<lambda>c d. in_view d c) (was_other (place c)) e) ids (sl_heap s1, ls) =
      Inr (h', fold (reports (\<lambda>d. seen e ?D1 d \<and> \<not> saw (place c) e ?D1 d) (\<lambda>d. sees e ?D1 d \<and> \<not> was_seen (place c) e ?D1 d)
        (\<lambda>d. \<not> seen e ?D1 d \<and> saw (place c) e ?D1 d) (\<lambda>d. \<not> sees e ?D1 d \<and> was_seen (place c) e ?D1 d)) ids ls)"
      "stat h' = ?D1" "lists_ok h'"
      "\<And>k v. v \<in> set (il h' k) \<longleftrightarrow> (if k \<in> set ids \<and> v = e then seen e ?D1 k else if k = e \<and> v \<in> set ids then sees e ?D1 v
         else v \<in> set (il (sl_heap s1) k))"
    using moving.visit_all [OF live rng(2,3) rli(2) mem, of ls] by blast
  have ex: "exact h'"
  proof (rule exact_walk [OF rli(1) h'(2,3) rng(3) h'(4)])
    show "(e \<in> set (il (sl_heap s1) d) \<longleftrightarrow> watch ?D1 e d) \<and> (d \<in> set (il (sl_heap s1) e) \<longleftrightarrow> watch ?D1 d e)"
      if "d \<notin> set ids" for d using out [of d] that unfolding rli(3) by blast
  qed (use now in blast)+
  have run: "update_entity_short e (place c) ls s1 = Inr (0, fold (reports (\<lambda>d. seen e ?D1 d \<and> \<not> saw (place c) e ?D1 d)
      (\<lambda>d. sees e ?D1 d \<and> \<not> was_seen (place c) e ?D1 d) (\<lambda>d. \<not> seen e ?D1 d \<and> saw (place c) e ?D1 d)
      (\<lambda>d. \<not> sees e ?D1 d \<and> was_seen (place c) e ?D1 d)) ids ls, s2\<lparr>sl_heap := h'\<rparr>)"
  proof -
    have f: "fst (place c) = sp_x c" by (simp add: place_def)
    have p: "(if sp_x c < ?x then (fst (place c) - sl_max s1, sp_x c1 + sl_max s1) else (sp_x c1 - sl_max s1, fst (place c) + sl_max s1)) = (lo, hi)"
      by (simp add: lo_def hi_def r(6) f h1)
    show ?thesis using h1 sh(1) h'(1) unfolding update_entity_short_def Let_def
      by (simp add: p f sl_deref_def s2_def [symmetric] f2 each_range_ids [OF sp2(1)] ids_def split del: if_split)
  qed
  have "sl_inv (s2\<lparr>sl_heap := h'\<rparr>)"
  proof -
    have "counted s2" "covers s2" using rc(1,2) by (simp_all add: s2_def counted_def covers_def)
    then show ?thesis using walk_sound [OF sp2(1) _ _ _ ex, of c1] sp2(2) h1 h'(2) by (simp add: sl_inv_def covers_def f2)
  qed
  moreover have "moved ?D ?D1 e ls (fold (reports (\<lambda>d. seen e ?D1 d \<and> \<not> saw (place c) e ?D1 d)
      (\<lambda>d. sees e ?D1 d \<and> \<not> was_seen (place c) e ?D1 d) (\<lambda>d. \<not> seen e ?D1 d \<and> saw (place c) e ?D1 d)
      (\<lambda>d. \<not> sees e ?D1 d \<and> was_seen (place c) e ?D1 d)) ids ls)"
    by (rule reports_moved [OF refl rng(2)]; use old now out in blast)
  ultimately show ?thesis using run h'(2) f2
    by (intro exI [of _ "s2\<lparr>sl_heap := h'\<rparr>"] exI) auto
qed

text \<open>A far move finds its new place from an index node, a near one by walking.\<close>

lemma relist_ok:
  assumes sp: "split s e as bs" "placed s old e as bs" and c: "sl_heap s e = Some c"
    and x: "far \<longrightarrow> inside s (sp_x c)"
  shows "\<exists>as' bs'. (if far then insert_entity e (list_erase (Ent e) s) else sl_shift_entity e old s) =
      Inr (s\<lparr>sl_list := Idx 0 # as' @ Ent e # bs'\<rparr>) \<and>
    split (s\<lparr>sl_list := Idx 0 # as' @ Ent e # bs'\<rparr>) e as' bs' \<and> placed (s\<lparr>sl_list := Idx 0 # as' @ Ent e # bs'\<rparr>) (sp_x c) e as' bs'"
proof (cases far)
  case True
  let ?s = "list_erase (Ent e) s"
  have "frame s" using sp(1) by (simp add: split_def)
  then have "e \<noteq> 0" using frame_id c by simp
  moreover have "without e ?s = list_erase (Ent e) (without e s)" by (simp add: without_def list_erase_def)
  then have "sorted_list (without e ?s)" using erase_sorted [OF sp(1)] by simp
  moreover have f: "sl_heap ?s e = Some c" "sl_index ?s = sl_index s" "sl_indexer ?s = sl_indexer s" "?s\<lparr>sl_list := l\<rparr> = s\<lparr>sl_list := l\<rparr>" for l
    using c by (simp_all add: list_erase_def)
  ultimately obtain as' bs' where "insert_entity e ?s = Inr (?s\<lparr>sl_list := Idx 0 # as' @ Ent e # bs'\<rparr>)"
      "split (?s\<lparr>sl_list := Idx 0 # as' @ Ent e # bs'\<rparr>) e as' bs'" "placed ?s (sp_x c) e as' bs'"
    using insert_entity_ok [of e ?s c] x True by (auto simp: inside_def)
  moreover from this(3) have "placed s (sp_x c) e as' bs'"
    by (simp add: placed_def key_def npos_def list_erase_def cong: snode.case_cong)
  ultimately show ?thesis using True unfolding f(4) by auto
next
  case False
  obtain as' bs' where "sl_shift_entity e old s = Inr (s\<lparr>sl_list := Idx 0 # as' @ Ent e # bs'\<rparr>)" "as' @ bs' = as @ bs"
      "placed s (sp_x c) e as' bs'" using shift_entity_ok [OF sp c] by blast
  then show ?thesis using False split_relist [OF sp(1)] by auto
qed

lemma parting_ok:
  assumes rl: "relocated s s1 e c new" and sp: "split s1 e as bs" "placed s1 (sp_x c) e as bs"
  defines "ids \<equiv> range_ids s1 as bs (sp_x c - sl_max s) (sp_x c + sl_max s)" and "D \<equiv> stat (sl_heap s)"
  shows "\<exists>h'. each_range s1 e (sp_x c - sl_max s) (sp_x c + sl_max s)
        (change_visit (\<lambda>c d. False) (was_me (place c)) (\<lambda>c d. False) (was_other (place c)) e) (sl_heap s1, ls) =
      Inr (h', fold (reports (\<lambda>d. False) (\<lambda>d. False) (watch D e) (\<lambda>d. watch D d e)) ids ls) \<and>
    stat h' = stat (sl_heap s1) \<and> exact_but e h' \<and> (\<forall>k. e \<notin> set (il h' k)) \<and> il h' e = [] \<and> distinct ids \<and>
    (\<forall>d. watch D e d \<or> watch D d e \<longrightarrow> d \<in> set ids)"
proof -
  note r = relocatedD [OF rl] and rb = relocated_before [OF rl] and rli = relocated_lists [OF rl]
  let ?D1 = "stat (sl_heap s1)"
  have "0 \<le> sl_max s" using r(3) by (simp add: covers_def)
  then have iff: "sp_x c - sl_max s \<le> sp_x c \<longleftrightarrow> sp_x c \<le> sp_x c + sl_max s" by simp
  note rng = range_ids_stat [OF sp iff, folded ids_def]
  have old: "saw (place c) e ?D1 d \<longleftrightarrow> watch D e d" "was_seen (place c) e ?D1 d \<longleftrightarrow> watch D d e" if "d \<in> set ids" for d
    using rb that rng(3) unfolding D_def by metis+
  have out: "d \<in> set ids" if w: "watch D e d \<or> watch D d e" for d
  proof -
    have "d \<noteq> e" using w by (auto simp: watch_def)
    then show ?thesis using relocated_near(1) [OF rl] w unfolding D_def rng(1) by blast
  qed
  have mem: "sl_heap s1 d \<noteq> None \<and> (e \<in> set (il (sl_heap s1) d) \<longleftrightarrow> saw (place c) e ?D1 d) \<and>
      (d \<in> set (il (sl_heap s1) e) \<longleftrightarrow> was_seen (place c) e ?D1 d)" if "d \<in> set ids" for d
    using rng(4) [OF that] by (simp add: rli(3) old [OF that] D_def)
  have live: "sl_heap s1 e \<noteq> None" by (simp add: r)
  obtain h' where h': "fold_res (change_visit (\<lambda>c d. False) (was_me (place c)) (\<lambda>c d. False) (was_other (place c)) e) ids (sl_heap s1, ls) =
      Inr (h', fold (reports (\<lambda>d. False) (\<lambda>d. False) (saw (place c) e ?D1) (was_seen (place c) e ?D1)) ids ls)"
      "stat h' = ?D1" "lists_ok h'"
      "\<And>k v. v \<in> set (il h' k) \<longleftrightarrow> (if k \<in> set ids \<and> v = e then False else if k = e \<and> v \<in> set ids then False
         else v \<in> set (il (sl_heap s1) k))"
    using parting.visit_all [OF live rng(2,3) rli(2) mem, of ls] by blast
  have rest: "v \<in> set (il h' k) \<longleftrightarrow> k \<noteq> e \<and> v \<noteq> e \<and> watch D v k" for k v
    using h'(4) [of v k] out [of k] out [of v] unfolding rli(3) D_def by (auto simp: watch_def)
  have "watch ?D1 v k \<longleftrightarrow> watch D v k" if "k \<noteq> e" "v \<noteq> e" for k v
    using relocated_e(3) [OF rl] that by (simp add: watch_def rel_def D_def)
  then have "exact_but e h'" using h'(2,3) rest by (simp add: exact_but_def)
  moreover have "fold (reports (\<lambda>d. False) (\<lambda>d. False) (saw (place c) e ?D1) (was_seen (place c) e ?D1)) ids ls =
      fold (reports (\<lambda>d. False) (\<lambda>d. False) (watch D e) (\<lambda>d. watch D d e)) ids ls"
    by (rule fold_cong) (auto simp: reports_def report_def old fun_eq_iff)
  moreover have "il h' e = []" using rest [of _ e] by (cases "il h' e") auto
  moreover have "\<forall>k. e \<notin> set (il h' k)" using rest by simp
  moreover have "\<forall>d. watch D e d \<or> watch D d e \<longrightarrow> d \<in> set ids" using out by blast
  ultimately show ?thesis using h'(1,2) rng(2) unfolding each_range_ids [OF sp(1)] ids_def [symmetric]
    by (intro exI [of _ h']) simp
qed

lemma update_long_ok:
  assumes rl: "relocated s s1 e c new" and far: "\<bar>fst new - sp_x c\<bar> > 2 * sl_max s" and x: "inside s (fst new)"
  shows "\<exists>ls' s'. update_entity_long e (place c) ls s1 = Inr (0, ls', s') \<and> sl_inv s' \<and> stat (sl_heap s') = stat (sl_heap s1) \<and>
    sl_index s' = sl_index s \<and> sl_indexer s' = sl_indexer s \<and> moved (stat (sl_heap s)) (stat (sl_heap s1)) e ls ls'"
proof -
  note r = relocatedD [OF rl] and re = relocated_e [OF rl] and rn = relocated_near [OF rl] and rc = relocated_count [OF rl]
  let ?x = "fst new" and ?m = "sl_max s" and ?D = "stat (sl_heap s)" and ?D1 = "stat (sl_heap s1)"
  define c1 where "c1 = c\<lparr>sp_x := ?x, sp_y := fst (snd new), sp_z := snd (snd new)\<rparr>"
  have h1: "sl_heap s1 e = Some c1" "sp_x c1 = ?x" by (simp_all add: r(5) c1_def)
  have m: "0 \<le> ?m" using r(3) by (simp add: covers_def)
  obtain as bs where sp: "split s1 e as bs" "placed s1 (sp_x c) e as bs" using relocated_split [OF rl] by blast
  define ids where "ids = range_ids s1 as bs (sp_x c - ?m) (sp_x c + ?m)"
  define ls1 where "ls1 = fold (reports (\<lambda>d. False) (\<lambda>d. False) (watch ?D e) (\<lambda>d. watch ?D d e)) ids ls"
  obtain h2 where h2: "each_range s1 e (sp_x c - ?m) (sp_x c + ?m)
        (change_visit (\<lambda>c d. False) (was_me (place c)) (\<lambda>c d. False) (was_other (place c)) e) (sl_heap s1, ls) = Inr (h2, ls1)"
      "stat h2 = ?D1" "exact_but e h2" "\<And>k. e \<notin> set (il h2 k)" "il h2 e = []" "distinct ids"
      "\<And>d. watch ?D e d \<or> watch ?D d e \<Longrightarrow> d \<in> set ids"
    using parting_ok [OF rl sp, of ls] unfolding ids_def ls1_def by blast
  define s2 where "s2 = s1\<lparr>sl_heap := h2\<rparr>"
  have f2: "sl_heap s2 = h2" "sl_max s2 = ?m" "sl_index s2 = sl_index s" "sl_indexer s2 = sl_indexer s" "sl_visual s2 = sl_visual s"
    by (simp_all add: s2_def r)
  obtain c2 where c2: "h2 e = Some c2" "sp_x c2 = ?x" using stat_x [OF h2(2), of e] h1 by auto
  have "dom (sl_heap s2) = dom (sl_heap s1)" unfolding f2 dom_def stat_live [OF h2(2)] ..
  then have sp2: "split s2 e as bs" "placed s2 (sp_x c) e as bs"
    using split_same [OF sp(1), of s2] sp(2) stat_x [OF h2(2)] by (simp_all add: s2_def)
  let ?far = "\<bar>c_div (sp_x c2) (sl_index s) - c_div (sp_x c) (sl_index s)\<bar> > 1"
  obtain as' bs' where re: "(if ?far then insert_entity e (list_erase (Ent e) s2) else sl_shift_entity e (sp_x c) s2) =
        Inr (s2\<lparr>sl_list := Idx 0 # as' @ Ent e # bs'\<rparr>)"
      "split (s2\<lparr>sl_list := Idx 0 # as' @ Ent e # bs'\<rparr>) e as' bs'"
      "placed (s2\<lparr>sl_list := Idx 0 # as' @ Ent e # bs'\<rparr>) (sp_x c2) e as' bs'"
    using relist_ok [OF sp2, of c2 ?far] c2 x by (auto simp: f2 inside_def)
  define s3 where "s3 = s2\<lparr>sl_list := Idx 0 # as' @ Ent e # bs'\<rparr>"
  have f3: "sl_heap s3 = h2" "sl_max s3 = ?m" "sl_index s3 = sl_index s" "sl_indexer s3 = sl_indexer s"
    by (simp_all add: s3_def f2)
  have sp3: "split s3 e as' bs'" "placed s3 ?x e as' bs'" using re(2,3) c2 by (simp_all add: s3_def)
  define jds where "jds = range_ids s3 as' bs' (?x - ?m) (?x + ?m)"
  have iff: "?x - ?m \<le> ?x \<longleftrightarrow> ?x \<le> ?x + ?m" using m by simp
  note rng = range_ids_stat [OF sp3 iff, folded jds_def, unfolded f3 h2(2)]
  have now: "seen e ?D1 d \<longleftrightarrow> watch ?D1 e d" "sees e ?D1 d \<longleftrightarrow> watch ?D1 d e" if "d \<in> set jds" for d
    using that rng(3) by (auto simp: watch_def)
  have out: "d \<in> set jds" if w: "watch ?D1 e d \<or> watch ?D1 d e" for d
  proof -
    have "d \<noteq> e" using w by (auto simp: watch_def)
    then show ?thesis using rn(2) w unfolding rng(1) by blast
  qed
  have disj: "\<not> ((watch ?D e d \<or> watch ?D d e) \<and> (watch ?D1 e d \<or> watch ?D1 d e))" for d
    using rn [of d] far by fastforce
  have live: "h2 e \<noteq> None" using c2 by simp
  obtain h' where h': "fold_res (change_visit in_view (\<lambda>c d. False) (\<lambda>c d. in_view d c) (\<lambda>c d. False) e) jds (h2, ls1) =
      Inr (h', fold (reports (seen e ?D1) (sees e ?D1) (\<lambda>d. False) (\<lambda>d. False)) jds ls1)"
      "stat h' = ?D1" "lists_ok h'"
      "\<And>k v. v \<in> set (il h' k) \<longleftrightarrow> (if k \<in> set jds \<and> v = e then seen e ?D1 k else if k = e \<and> v \<in> set jds then sees e ?D1 v
         else v \<in> set (il h2 k))"
    using arriving.visit_all [of h2 e jds ls1, OF live rng(2,3)] rng(4) h2(3-5) unfolding h2(2) exact_but_def by auto
  have ex: "exact h'"
  proof (rule exact_walk [OF h2(3) h'(2) [folded h2(2)] h'(3) rng(3) h'(4)])
    show "(e \<in> set (il h2 d) \<longleftrightarrow> watch (stat h2) e d) \<and> (d \<in> set (il h2 e) \<longleftrightarrow> watch (stat h2) d e)"
      if "d \<notin> set jds" for d using out [of d] that h2(4,5) unfolding h2(2) by auto
  qed (use now in \<open>simp_all add: h2(2)\<close>)
  define ls2 where "ls2 = fold (reports (seen e ?D1) (sees e ?D1) (\<lambda>d. False) (\<lambda>d. False)) jds ls1"
  have run: "update_entity_long e (place c) ls s1 = Inr (0, ls2, s3\<lparr>sl_heap := h'\<rparr>)"
  proof -
    have f: "fst (place c) = sp_x c" by (simp add: place_def)
    have i: "(if 1 < \<bar>c_div ?x (sl_index s) - c_div (sp_x c) (sl_index s)\<bar> then insert_entity e (list_erase (Ent e) (s1\<lparr>sl_heap := h2\<rparr>))
        else sl_shift_entity e (fst (place c)) (s1\<lparr>sl_heap := h2\<rparr>)) = Inr s3"
      using re(1) unfolding c2(2) f s2_def [symmetric] s3_def [symmetric] .
    have "sl_index s \<noteq> 0" using sp(1) by (auto simp: split_def frame_def r)
    then show ?thesis using h2(1) c2 h'(1)
      by (simp add: update_entity_long_def sl_deref_def Let_def r(6,7) i f f3 each_range_visual_def each_range_ids [OF sp3(1)]
          jds_def ls2_def split del: if_split)
  qed
  have "sl_inv (s3\<lparr>sl_heap := h'\<rparr>)"
  proof -
    have "counted s3" "covers s3"
      using counted_stat [OF rc(1), of s3] rc(2) h2(2) by (simp_all add: s3_def s2_def covers_def)
    then show ?thesis using walk_sound [OF sp3(1) _ _ _ ex, of c2] sp3(2) c2 h'(2) h2(2)
      by (simp add: sl_inv_def covers_def f3)
  qed
  moreover have "moved ?D ?D1 e ls ls2"
  proof -
    obtain mi oi mo oo where ls: "ls = (mi, oi, mo, oo)" by (metis prod_cases4)
    have "ls2 = (push_opt mi (filter (seen e ?D1) jds), push_opt oi (filter (sees e ?D1) jds),
        push_opt mo (filter (watch ?D e) ids), push_opt oo (filter (\<lambda>d. watch ?D d e) ids))"
      by (simp add: ls2_def ls1_def ls fold_reports)
    moreover have "list_of {k. watch ?D1 e k \<and> \<not> watch ?D e k} (filter (seen e ?D1) jds)"
      "list_of {k. watch ?D1 k e \<and> \<not> watch ?D k e} (filter (sees e ?D1) jds)"
      by (rule list_of_filter [OF rng(2)]; use now out disj in blast)+
    moreover have "list_of {k. watch ?D e k \<and> \<not> watch ?D1 e k} (filter (watch ?D e) ids)"
      "list_of {k. watch ?D k e \<and> \<not> watch ?D1 k e} (filter (\<lambda>d. watch ?D d e) ids)"
      by (rule list_of_filter [OF h2(6)]; use h2(7) disj in blast)+
    ultimately show ?thesis unfolding moved_def ls prod.case by blast
  qed
  ultimately show ?thesis using run h'(2) by (intro exI [of _ ls2] exI [of _ "s3\<lparr>sl_heap := h'\<rparr>"]) (simp add: f3)
qed

lemma sl_update_ok:
  assumes inv: "sl_inv s" and c: "sl_heap s e = Some c" and x: "inside s x"
  shows "\<exists>ls' s'. sl_update_entity e x y z ls s = Inr (0, ls', s') \<and> sl_inv s' \<and>
    stat (sl_heap s') = (stat (sl_heap s))(e \<mapsto> c\<lparr>sp_x := x, sp_y := y, sp_z := z, sp_interest := []\<rparr>) \<and>
    sl_index s' = sl_index s \<and> sl_indexer s' = sl_indexer s \<and> moved (stat (sl_heap s)) (stat (sl_heap s')) e ls ls'"
proof -
  define s1 where "s1 = s\<lparr>sl_heap := (sl_heap s)(e \<mapsto> c\<lparr>sp_x := x, sp_y := y, sp_z := z\<rparr>)\<rparr>"
  have rl: "relocated s s1 e c (x, y, z)" using inv c by (simp add: relocated_def s1_def)
  have st: "stat (sl_heap s1) = (stat (sl_heap s))(e \<mapsto> c\<lparr>sp_x := x, sp_y := y, sp_z := z, sp_interest := []\<rparr>)"
    by (simp add: s1_def stat_upd)
  show ?thesis
  proof (cases "\<bar>x - sp_x c\<bar> > 2 * sl_max s")
    case True
    have "sl_update_entity e x y z ls s = update_entity_long e (place c) ls s1"
      using True c by (simp add: sl_update_entity_def s1_def place_def)
    then show ?thesis using update_long_ok [OF rl, of ls] True x st by auto
  next
    case False
    have "sl_update_entity e x y z ls s = update_entity_short e (place c) ls s1"
      using False c by (simp add: sl_update_entity_def s1_def place_def)
    then show ?thesis using update_short_ok [OF rl, of ls] st by auto
  qed
qed

section \<open>Changing a view\<close>

lemma release_view:
  assumes "counted s" "finite (dom (sl_heap s))" "sl_heap s e = Some c" "interest c"
  shows "\<exists>vs m. (if sp_visual c \<noteq> 0 then del_visual (sp_visual c) s else Inr s) = Inr (s\<lparr>sl_visual := vs, sl_max := m\<rparr>) \<and>
    distinct (map fst vs) \<and> fst ` set vs \<subseteq> fst ` set (sl_visual s) \<and>
    (\<forall>w. w \<noteq> 0 \<longrightarrow> int (tally ((sl_heap s)(e := None)) w) \<le> count_of vs w) \<and>
    (m \<noteq> sl_max s \<longrightarrow> sp_visual c = sl_max s \<and> sl_max s \<notin> fst ` set vs)"
proof -
  have dis: "distinct (map fst (sl_visual s))" using assms(1) by (simp add: counted_def)
  have t: "tally (sl_heap s) w = tally ((sl_heap s)(e := None)) w + (if sp_visual c = w then 1 else 0)" for w
    using tally_split [OF assms(3,2), of w] assms(4) by simp
  have cnt: "w \<noteq> 0 \<Longrightarrow> int (tally (sl_heap s) w) \<le> count_of (sl_visual s) w" for w using assms(1) by (simp add: counted_def)
  show ?thesis
  proof (cases "sp_visual c = 0")
    case True
    have "int (tally ((sl_heap s)(e := None)) w) \<le> count_of (sl_visual s) w" if "w \<noteq> 0" for w
      using t [of w] cnt [OF that] that True by simp
    then show ?thesis using True dis by (intro exI [of _ "sl_visual s"] exI [of _ "sl_max s"]) simp
  next
    case False
    obtain vs m where d: "del_visual (sp_visual c) s = Inr (s\<lparr>sl_visual := vs, sl_max := m\<rparr>)" "distinct (map fst vs)"
        "fst ` set vs \<subseteq> fst ` set (sl_visual s)" "\<And>w. w \<noteq> sp_visual c \<Longrightarrow> count_of vs w = count_of (sl_visual s) w"
        "count_of vs (sp_visual c) \<ge> count_of (sl_visual s) (sp_visual c) - 1"
        "m \<noteq> sl_max s \<longrightarrow> sp_visual c = sl_max s \<and> sp_visual c \<notin> fst ` set vs"
      using del_visual_ok [OF False dis view_counted [OF assms False]] by blast
    have "int (tally ((sl_heap s)(e := None)) w) \<le> count_of vs w" if "w \<noteq> 0" for w
      using t [of w] cnt [OF that] d(4) [of w] d(5) by (cases "w = sp_visual c") simp_all
    moreover have "m \<noteq> sl_max s \<longrightarrow> sp_visual c = sl_max s \<and> sl_max s \<notin> fst ` set vs" using d(6) by metis
    ultimately show ?thesis unfolding if_P [OF False] using d(1-3) by blast
  qed
qed

lemma take_view:
  assumes "distinct (map fst (sl_visual s))" "\<And>w. w \<noteq> 0 \<Longrightarrow> int (tally h w) \<le> count_of (sl_visual s) w"
    and "finite (dom h)" "h e = None" "sl_heap s = h(e \<mapsto> c)"
  shows "\<exists>vs m. (if sp_visual c \<noteq> 0 then add_visual (sp_visual c) s else Inr s) = Inr (s\<lparr>sl_visual := vs, sl_max := m\<rparr>) \<and>
    counted (s\<lparr>sl_visual := vs, sl_max := m\<rparr>) \<and>
    (covers s \<longrightarrow> covers (s\<lparr>sl_visual := vs, sl_max := m\<rparr>)) \<and>
    (0 < sp_visual c \<longrightarrow> (\<forall>w \<in> fst ` set (sl_visual s). w < sp_visual c) \<longrightarrow> covers (s\<lparr>sl_visual := vs, sl_max := m\<rparr>))"
proof (cases "sp_visual c = 0")
  case True
  have "int (tally (sl_heap s) w) \<le> count_of (sl_visual s) w" if "w \<noteq> 0" for w
    using tally_add [OF assms(4,3), of c w] assms(2) [OF that] that True unfolding assms(5) by simp
  then show ?thesis using True assms(1) by (intro exI [of _ "sl_visual s"] exI [of _ "sl_max s"]) (simp add: counted_def)
next
  case False
  obtain vs m where a: "add_visual (sp_visual c) s = Inr (s\<lparr>sl_visual := vs, sl_max := m\<rparr>)" "distinct (map fst vs)"
      "fst ` set vs = insert (sp_visual c) (fst ` set (sl_visual s))"
      "\<And>w. count_of vs w = count_of (sl_visual s) w + (if w = sp_visual c then 1 else 0)"
      "m = (if sp_visual c \<in> fst ` set (sl_visual s) then sl_max s else max (sp_visual c) (sl_max s))"
    using add_visual_ok [OF False assms(1)] by blast
  have "int (tally (sl_heap s) w) \<le> count_of vs w" if "w \<noteq> 0" for w
    using tally_add [OF assms(4,3), of c w] assms(2) [OF that] a(4) [of w] unfolding assms(5) by (auto split: if_splits)
  then have "counted (s\<lparr>sl_visual := vs, sl_max := m\<rparr>)" using a(2) by (simp add: counted_def)
  moreover have "covers s \<Longrightarrow> covers (s\<lparr>sl_visual := vs, sl_max := m\<rparr>)" using a(3,5) by (auto simp: covers_def)
  moreover have "0 < sp_visual c \<Longrightarrow> \<forall>w \<in> fst ` set (sl_visual s). w < sp_visual c \<Longrightarrow> covers (s\<lparr>sl_visual := vs, sl_max := m\<rparr>)"
    using a(3,5) by (fastforce simp: covers_def)
  ultimately show ?thesis using False a(1) by (intro exI [of _ vs] exI [of _ m]) simp
qed

lemma switch_view:
  assumes inv: "sl_inv s" and c: "sl_heap s e = Some c" "interest c" "c' = c\<lparr>sp_visual := v\<rparr>"
  shows "\<exists>vs1 m1 vs m. (if sp_visual c \<noteq> 0 then del_visual (sp_visual c) s else Inr s) = Inr (s\<lparr>sl_visual := vs1, sl_max := m1\<rparr>) \<and>
    (if v \<noteq> 0 then add_visual v (s\<lparr>sl_heap := (sl_heap s)(e \<mapsto> c'), sl_visual := vs1, sl_max := m1\<rparr>)
     else Inr (s\<lparr>sl_heap := (sl_heap s)(e \<mapsto> c'), sl_visual := vs1, sl_max := m1\<rparr>)) =
      Inr (s\<lparr>sl_heap := (sl_heap s)(e \<mapsto> c'), sl_visual := vs, sl_max := m\<rparr>) \<and>
    counted (s\<lparr>sl_heap := (sl_heap s)(e \<mapsto> c'), sl_visual := vs, sl_max := m\<rparr>) \<and>
    (sp_visual c < v \<or> sp_visual c < sl_max s \<longrightarrow> covers (s\<lparr>sl_heap := (sl_heap s)(e \<mapsto> c'), sl_visual := vs, sl_max := m\<rparr>))"
proof -
  have so: "sl_sound s" "covers s" using inv by (simp_all add: sl_inv_def)
  note snd = sl_soundD [OF so(1)]
  obtain vs1 m1 where d: "(if sp_visual c \<noteq> 0 then del_visual (sp_visual c) s else Inr s) = Inr (s\<lparr>sl_visual := vs1, sl_max := m1\<rparr>)"
      "distinct (map fst vs1)" "fst ` set vs1 \<subseteq> fst ` set (sl_visual s)"
      "\<And>w. w \<noteq> 0 \<Longrightarrow> int (tally ((sl_heap s)(e := None)) w) \<le> count_of vs1 w"
      "m1 \<noteq> sl_max s \<longrightarrow> sp_visual c = sl_max s \<and> sl_max s \<notin> fst ` set vs1"
    using release_view [OF snd(4,3) c(1,2)] by blast
  let ?s1 = "s\<lparr>sl_heap := (sl_heap s)(e \<mapsto> c'), sl_visual := vs1, sl_max := m1\<rparr>"
  have f: "finite (dom ((sl_heap s)(e := None)))" using snd(3) by simp
  have c': "sp_visual c' = v" by (simp add: c(3))
  have s1: "distinct (map fst (sl_visual ?s1))" "\<And>w. w \<noteq> 0 \<Longrightarrow> int (tally ((sl_heap s)(e := None)) w) \<le> count_of (sl_visual ?s1) w"
    "((sl_heap s)(e := None)) e = None" "sl_heap ?s1 = ((sl_heap s)(e := None))(e \<mapsto> c')"
    using d(2,4) by simp_all
  obtain vs m where a: "(if v \<noteq> 0 then add_visual v ?s1 else Inr ?s1) = Inr (?s1\<lparr>sl_visual := vs, sl_max := m\<rparr>)"
      "counted (?s1\<lparr>sl_visual := vs, sl_max := m\<rparr>)" "covers ?s1 \<longrightarrow> covers (?s1\<lparr>sl_visual := vs, sl_max := m\<rparr>)"
      "0 < v \<longrightarrow> (\<forall>w \<in> fst ` set (sl_visual ?s1). w < v) \<longrightarrow> covers (?s1\<lparr>sl_visual := vs, sl_max := m\<rparr>)"
    using take_view [OF s1(1,2) f s1(3,4), unfolded c'] by blast
  have "covers (?s1\<lparr>sl_visual := vs, sl_max := m\<rparr>)" if g: "sp_visual c < v \<or> sp_visual c < sl_max s"
  proof (cases "m1 = sl_max s")
    case True
    have "\<forall>w \<in> fst ` set vs1. w \<le> sl_max s" using so(2) d(3) unfolding covers_def by blast
    then have "covers ?s1" using so(2) True by (simp add: covers_def)
    then show ?thesis using a(3) by blast
  next
    case False
    then have "sp_visual c = sl_max s" "0 \<le> sl_max s" using d(5) so(2) by (auto simp: covers_def)
    then have v: "0 < v" "sl_max s < v" using g by auto
    have "\<forall>w \<in> fst ` set vs1. w \<le> sl_max s" using so(2) d(3) unfolding covers_def by blast
    then have "\<forall>w \<in> fst ` set (sl_visual ?s1). w < v" using v(2) by fastforce
    then show ?thesis using a(4) v by blast
  qed
  then show ?thesis using d(1) a(1,2) by (intro exI [of _ vs1] exI [of _ m1] exI [of _ vs] exI [of _ m]) simp
qed

lemma upd_swap: "s\<lparr>sl_visual := a, sl_max := b, sl_heap := h\<rparr> = s\<lparr>sl_heap := h, sl_visual := a, sl_max := b\<rparr>"
  by simp

lemma sl_view_ok:
  assumes inv: "sl_inv s" and c: "sl_heap s e = Some c" "interest c" and v: "v \<noteq> sp_visual c"
    and D: "D = (stat (sl_heap s))(e \<mapsto> c\<lparr>sp_visual := v, sp_interest := []\<rparr>)"
  shows "\<exists>ls' s'. sl_update_visual e v ls s = Inr (0, ls', s') \<and> sl_sound s' \<and> stat (sl_heap s') = D \<and>
    sl_index s' = sl_index s \<and> sl_indexer s' = sl_indexer s \<and> moved (stat (sl_heap s)) D e ls ls' \<and>
    (sp_visual c < v \<or> sp_visual c < sl_max s \<longrightarrow> covers s')"
proof -
  have so: "sl_sound s" using inv by (simp add: sl_inv_def)
  note snd = sl_soundD [OF so]
  define c' where "c' = c\<lparr>sp_visual := v\<rparr>"
  let ?h = "(sl_heap s)(e \<mapsto> c')" and ?D = "stat (sl_heap s)"
  obtain vs1 m1 vs m where sw: "(if sp_visual c \<noteq> 0 then del_visual (sp_visual c) s else Inr s) = Inr (s\<lparr>sl_visual := vs1, sl_max := m1\<rparr>)"
      "(if v \<noteq> 0 then add_visual v (s\<lparr>sl_heap := ?h, sl_visual := vs1, sl_max := m1\<rparr>)
        else Inr (s\<lparr>sl_heap := ?h, sl_visual := vs1, sl_max := m1\<rparr>)) = Inr (s\<lparr>sl_heap := ?h, sl_visual := vs, sl_max := m\<rparr>)"
      "counted (s\<lparr>sl_heap := ?h, sl_visual := vs, sl_max := m\<rparr>)"
      "sp_visual c < v \<or> sp_visual c < sl_max s \<longrightarrow> covers (s\<lparr>sl_heap := ?h, sl_visual := vs, sl_max := m\<rparr>)"
    using switch_view [OF inv c c'_def] by blast
  define s3 where "s3 = s\<lparr>sl_heap := ?h, sl_visual := vs, sl_max := m\<rparr>"
  have f3: "sl_heap s3 = ?h" "sl_index s3 = sl_index s" "sl_indexer s3 = sl_indexer s" "sl_list s3 = sl_list s" "sl_max s3 = m" by (simp_all add: s3_def)
  obtain as bs where sp0: "split s e as bs" "placed s (sp_x c) e as bs" using sorted_list_split [OF snd(1) c(1)] by blast
  have "dom ?h = dom (sl_heap s)" using c(1) by auto
  then have sp: "split s3 e as bs" "placed s3 (sp_x c) e as bs"
    using split_same [OF sp0(1), of s3] sp0(2) by (simp_all add: f3)
  let ?w = "max (sp_visual c) v"
  define ids where "ids = range_ids s3 as bs (sp_x c - ?w) (sp_x c + ?w)"
  have iff: "sp_x c - ?w \<le> sp_x c \<longleftrightarrow> sp_x c \<le> sp_x c + ?w" by simp
  have st: "stat ?h = D" by (simp add: D stat_upd c'_def)
  note rng = range_ids_stat [OF sp iff, folded ids_def, unfolded f3 st]
  have De: "D e = Some (c'\<lparr>sp_interest := []\<rparr>)" "?D e = Some (c\<lparr>sp_interest := []\<rparr>)" "d \<noteq> e \<Longrightarrow> D d = ?D d" for d
    using c(1) by (simp_all add: D c'_def stat_def)
  have "sp_interest c' = il (sl_heap s) e" using c(1) by (simp add: il_def c'_def)
  from exact_but_set [OF snd(5) this] have eb: "exact_but e ?h" "il ?h = il (sl_heap s)" .
  have old: "rel (viewed (sp_visual c)) D e d \<longleftrightarrow> watch ?D e d" and now: "rel in_view D e d \<longleftrightarrow> watch D e d"
    and same: "sees e D d \<longleftrightarrow> watch D d e" "watch D d e \<longleftrightarrow> watch ?D d e" if "d \<noteq> e" for d
    using that De(1,2) De(3) [OF that] c(2)
    by (auto simp: watch_def rel_def wants_def viewed_def in_view_def sl_in_visual_def interest_def c'_def)
  have mem: "?h d \<noteq> None \<and> (e \<in> set (il ?h d) \<longleftrightarrow> rel (viewed (sp_visual c)) (stat ?h) e d) \<and> (d \<in> set (il ?h e) \<longleftrightarrow> sees e (stat ?h) d)"
    if "d \<in> set ids" for d
  proof -
    have "d \<noteq> e" using that rng(3) by auto
    then show ?thesis using rng(4) [OF that] old same unfolding eb(2) snd(7) st by simp
  qed
  have out: "d \<in> set ids" if w: "watch ?D e d \<or> watch D e d" for d
  proof -
    have "d \<noteq> e" using w by (auto simp: watch_def)
    moreover have "\<exists>b. D d = Some b \<and> \<bar>sp_x c - sp_x b\<bar> \<le> ?w"
      using w watch_near [of ?D e d] watch_near [of D e d] De(1,2) De(3) [OF \<open>d \<noteq> e\<close>] by (auto simp: c'_def)
    ultimately show ?thesis unfolding rng(1) by (auto simp: abs_le_iff)
  qed
  let ?R = "reports (\<lambda>d. rel in_view D e d \<and> \<not> rel (viewed (sp_visual c)) D e d) (\<lambda>d. False)
     (\<lambda>d. \<not> rel in_view D e d \<and> rel (viewed (sp_visual c)) D e d) (\<lambda>d. False)"
  have live: "?h e \<noteq> None" by simp
  have lo: "lists_ok ?h" using eb(1) by (simp add: exact_but_def)
  obtain h' where h': "fold_res (visual_visit (sp_visual c) e) ids (?h, ls) = Inr (h', fold ?R ids ls)" "stat h' = D" "lists_ok h'"
      "\<And>k w. w \<in> set (il h' k) \<longleftrightarrow> (if k \<in> set ids \<and> w = e then rel in_view D e k else if k = e \<and> w \<in> set ids then sees e D w
         else w \<in> set (il ?h k))"
    using looking.visit_all [of ?h e ids "sp_visual c" ls, OF live rng(2,3) lo mem] unfolding st by blast
  have ex: "exact h'"
  proof (rule exact_walk [OF eb(1) h'(2) [folded st] h'(3) rng(3) h'(4)])
    show "rel in_view D e d \<longleftrightarrow> watch (stat ?h) e d" "sees e D d \<longleftrightarrow> watch (stat ?h) d e" if "d \<in> set ids" for d
      using that rng(3) now [of d] same [of d] unfolding st by metis+
    show "(e \<in> set (il ?h d) \<longleftrightarrow> watch (stat ?h) e d) \<and> (d \<in> set (il ?h e) \<longleftrightarrow> watch (stat ?h) d e)"
      if "d \<noteq> e" "d \<notin> set ids" for d using out [of d] that same(2) unfolding eb(2) snd(7) st by blast
  qed
  have run: "sl_update_visual e v ls s = Inr (0, fold ?R ids ls, s3\<lparr>sl_heap := h'\<rparr>)"
  proof -
    let ?s1 = "s\<lparr>sl_visual := vs1, sl_max := m1\<rparr>"
    have "?s1\<lparr>sl_heap := (sl_heap ?s1)(e \<mapsto> c\<lparr>sp_visual := v\<rparr>)\<rparr> = s\<lparr>sl_heap := ?h, sl_visual := vs1, sl_max := m1\<rparr>"
      by (simp add: c'_def)
    then have "(if v \<noteq> 0 then add_visual v (?s1\<lparr>sl_heap := (sl_heap ?s1)(e \<mapsto> c\<lparr>sp_visual := v\<rparr>)\<rparr>)
        else Inr (?s1\<lparr>sl_heap := (sl_heap ?s1)(e \<mapsto> c\<lparr>sp_visual := v\<rparr>)\<rparr>)) = Inr s3"
      using sw(2) unfolding s3_def [symmetric] by (simp only:)
    then show ?thesis using c v sw(1) h'(1) unfolding sl_update_visual_def Let_def
      by (simp add: f3 each_range_ids [OF sp(1)] ids_def split del: if_split)
  qed
  have "sl_sound (s3\<lparr>sl_heap := h'\<rparr>)"
    using walk_sound [OF sp(1) _ _ _ ex, of c'] sp(2) sw(3) [folded s3_def] h'(2) st by (simp add: f3 c'_def)
  moreover have "moved ?D D e ls (fold ?R ids ls)"
  proof (rule reports_moved [OF refl rng(2)])
    have i: "d \<in> set ids \<Longrightarrow> d \<noteq> e" for d using rng(3) by metis
    show "watch D e k \<and> \<not> watch ?D e k \<longleftrightarrow> k \<in> set ids \<and> rel in_view D e k \<and> \<not> rel (viewed (sp_visual c)) D e k"
      "watch ?D e k \<and> \<not> watch D e k \<longleftrightarrow> k \<in> set ids \<and> \<not> rel in_view D e k \<and> rel (viewed (sp_visual c)) D e k" for k
      using old now out i by blast+
    have "watch D k e \<longleftrightarrow> watch ?D k e" for k by (cases "k = e") (simp_all add: same(2), simp_all add: watch_def)
    then show "watch D k e \<and> \<not> watch ?D k e \<longleftrightarrow> k \<in> set ids \<and> False" "watch ?D k e \<and> \<not> watch D k e \<longleftrightarrow> k \<in> set ids \<and> False" for k
      by blast+
  qed
  moreover have "sp_visual c < v \<or> sp_visual c < sl_max s \<longrightarrow> covers (s3\<lparr>sl_heap := h'\<rparr>)"
    using sw(4) [folded s3_def] by (simp add: covers_def)
  ultimately show ?thesis using run h'(2)
    by (intro exI [of _ "fold ?R ids ls"] exI [of _ "s3\<lparr>sl_heap := h'\<rparr>"]) (simp add: f3)
qed

end
