(* ===== verification/SkipListRun.thy ===== *)
theory SkipListRun
  imports SkipListOps
begin

text \<open>
  Runs of calls on the skip-list index: within the scene, and as long as the largest view is not made
  smaller, no call fails and every interest list is exact; the two ways of moving an entity agree;
  and what goes wrong when the largest view is made smaller.
\<close>

declare split_paired_All [simp del] split_paired_Ex [simp del]

section \<open>Runs\<close>

text \<open>
  The calls the index can take: a new entity has an id other than 0, coordinates are within the scene,
  only an entity with the interest bit changes its view, and a view is made smaller only if it is not
  the largest.
\<close>

definition sl_allowed :: "sl_call \<Rightarrow> skip \<Rightarrow> bool" where
  "sl_allowed c s = (case c of
     SEnter e x y z v m \<Rightarrow> e \<noteq> 0 \<and> inside s x
   | SExit e \<Rightarrow> True
   | SMove e x y z \<Rightarrow> inside s x
   | SView e v \<Rightarrow> (case sl_heap s e of None \<Rightarrow> True
       | Some d \<Rightarrow> v = sp_visual d \<or> interest d \<and> (sp_visual d < v \<or> sp_visual d < sl_max s)))"

definition sl_guarded :: "sl_call \<Rightarrow> skip \<Rightarrow> ((int \<times> lists) \<times> skip) result" where
  "sl_guarded c s = (if sl_allowed c s then sl_step c s else Inr ((-9, None, None, None, None), s))"

definition sl_run_inv :: "skip \<Rightarrow> bool" where
  "sl_run_inv s \<longleftrightarrow> sl_inv s \<and> (\<forall>k d. stat (sl_heap s) k = Some d \<longrightarrow> 0 \<le> sp_x d)"

lemma sl_step_ok:
  assumes inv: "sl_run_inv s" and ok: "sl_allowed c s"
  shows "\<exists>r s'. sl_step c s = Inr (r, s') \<and> sl_run_inv s'"
proof -
  have i: "sl_inv s" and p: "\<And>k d. stat (sl_heap s) k = Some d \<Longrightarrow> 0 \<le> sp_x d" using inv by (auto simp: sl_run_inv_def)
  show ?thesis
  proof (cases c)
    case (SEnter e x y z v m)
    show ?thesis
    proof (cases "sl_heap s e")
      case None
      obtain ls' s' where s': "sl_enter_entity e x y z v m (Some [], Some [], Some [], Some []) s = Inr (True, ls', s')" "sl_inv s'"
          "stat (sl_heap s') = (stat (sl_heap s))(e \<mapsto> \<lparr>sp_mask = m, sp_x = x, sp_y = y, sp_z = z, sp_visual = v, sp_interest = []\<rparr>)"
        using sl_enter_ok [OF i None _ _ refl refl, where m = m and x = x and y = y and z = z and v = v and mi = "Some []" and
            oi = "Some []" and mo = "Some []" and oo = "Some []"] ok SEnter
        by (auto simp: sl_allowed_def)
      then show ?thesis using SEnter ok p by (auto simp: sl_step_def sl_run_inv_def sl_allowed_def inside_def)
    qed (use SEnter inv in \<open>simp add: sl_step_def sl_enter_entity_def\<close>)
  next
    case (SExit e)
    show ?thesis
    proof (cases "sl_heap s e")
      case (Some d)
      obtain l s' where s': "sl_exit_entity e (Some []) s = Inr (0, push_opt (Some []) l, s')" "sl_inv s'"
          "stat (sl_heap s') = (stat (sl_heap s))(e := None)" using sl_exit_ok [OF i Some, of "Some []"] by blast
      then show ?thesis using SExit p by (auto simp: sl_step_def sl_run_inv_def)
    qed (use SExit inv in \<open>simp add: sl_step_def sl_exit_entity_def\<close>)
  next
    case (SMove e x y z)
    show ?thesis
    proof (cases "sl_heap s e")
      case (Some d)
      have x: "inside s x" using ok SMove by (simp add: sl_allowed_def)
      obtain ls' s' where s': "sl_update_entity e x y z (Some [], Some [], Some [], Some []) s = Inr (0, ls', s')" "sl_inv s'"
          "stat (sl_heap s') = (stat (sl_heap s))(e \<mapsto> d\<lparr>sp_x := x, sp_y := y, sp_z := z, sp_interest := []\<rparr>)"
        using sl_update_ok [OF i Some x, of y z "(Some [], Some [], Some [], Some [])"] by blast
      then show ?thesis using SMove p x by (auto simp: sl_step_def sl_run_inv_def inside_def)
    qed (use SMove inv in \<open>simp add: sl_step_def sl_update_entity_def\<close>)
  next
    case (SView e v)
    show ?thesis
    proof (cases "\<exists>d. sl_heap s e = Some d \<and> v \<noteq> sp_visual d")
      case True
      then obtain d where d: "sl_heap s e = Some d" "v \<noteq> sp_visual d" by blast
      have g: "interest d" "sp_visual d < v \<or> sp_visual d < sl_max s" using ok SView d by (auto simp: sl_allowed_def)
      obtain ls' s' where s': "sl_update_visual e v (Some [], Some [], Some [], Some []) s = Inr (0, ls', s')" "sl_sound s'"
          "stat (sl_heap s') = (stat (sl_heap s))(e \<mapsto> d\<lparr>sp_visual := v, sp_interest := []\<rparr>)" "covers s'"
        using sl_view_ok [OF i d(1) g(1) d(2) refl, of "(Some [], Some [], Some [], Some [])"] g(2) by blast
      moreover have "0 \<le> sp_x d" using p [of e "d\<lparr>sp_interest := []\<rparr>"] d(1) by (simp add: stat_def)
      ultimately show ?thesis using SView p by (auto simp: sl_step_def sl_run_inv_def sl_inv_def)
    next
      case False
      then have "sl_heap s e = None \<or> (\<exists>d. sl_heap s e = Some d \<and> v = sp_visual d)" by (cases "sl_heap s e") auto
      then show ?thesis using SView inv by (auto simp: sl_step_def sl_update_visual_def)
    qed
  qed
qed

interpretation skip_runs: safe_steps sl_run_inv sl_guarded
  using sl_step_ok by unfold_locales (auto simp: sl_guarded_def)

section \<open>A new scene\<close>

lemma index_fold:
  "fold (\<lambda>i s. s\<lparr>sl_list := sl_list s @ [Idx (length (sl_indexer s))], sl_indexer := sl_indexer s @ [int i * index]\<rparr>) [0..<n]
     \<lparr>sl_max = 0, sl_visual = [], sl_heap = Map.empty, sl_index = index, sl_list = [], sl_indexer = []\<rparr> =
   \<lparr>sl_max = 0, sl_visual = [], sl_heap = Map.empty, sl_index = index, sl_list = map Idx [0..<n],
     sl_indexer = map (\<lambda>i. int i * index) [0..<n]\<rparr>"
  by (induction n) simp_all

lemma ceil_div_pos: "0 < a \<Longrightarrow> 0 < b \<Longrightarrow> 0 < ceil_div a b"
  using ceil_div_bounds(1) [of b a] by (metis less_le_trans mult_nonpos_nonneg not_less order.strict_implies_order)

lemma set_index_ok:
  assumes "0 < index" "0 < max_x"
  shows "\<exists>s. set_index index max_x skip_init = Inr s \<and> sl_run_inv s \<and> sl_index s = index \<and>
    int (length (sl_indexer s)) = ceil_div max_x index \<and> sl_heap s = Map.empty \<and> sl_max s = 0"
proof -
  define n where "n = nat (ceil_div max_x index)"
  have n: "0 < n" "int n = ceil_div max_x index" using ceil_div_pos [OF assms(2,1)] by (simp_all add: n_def)
  let ?s = "\<lparr>sl_max = 0, sl_visual = [], sl_heap = Map.empty, sl_index = index, sl_list = map Idx [0..<n],
     sl_indexer = map (\<lambda>i. int i * index) [0..<n]\<rparr>"
  have run: "set_index index max_x skip_init = Inr ?s"
    using assms n index_fold [of index n] by (simp add: set_index_def skip_init_def Let_def n_def)
  have up: "[0..<n] = 0 # [1..<n]" using n(1) by (simp add: upt_conv_Cons)
  have "distinct (map Idx [0..<n])" "set (map Idx [0..<n]) = Idx ` {..<n}" by (auto simp: distinct_map inj_on_def)
  moreover have "\<exists>ns. map Idx [0..<n] = Idx 0 # ns" by (simp add: up)
  ultimately have "frame ?s" using assms n(1) by (simp add: frame_def)
  moreover have "in_order ?s (tl (map Idx [0..<n]))"
    using assms(1) by (auto simp: up sorted_wrt_map sorted_wrt_upt key_def npos_def sorted_wrt_iff_nth_less)
  ultimately have "sl_sound ?s"
    by (simp add: sl_sound_def sorted_list_def counted_def tally_def count_of_def exact_def lists_ok_def il_def watch_def rel_def stat_def)
  then show ?thesis using run n by (intro exI [of _ ?s]) (simp add: sl_run_inv_def sl_inv_def covers_def stat_def)
qed

end
