(* ===== verification/Pool.thy ===== *)
theory Pool
  imports Prelude
begin

text \<open>
  The pools of \<open>pool/\<close>: the registry of \<open>pool.hpp\<close>, \<open>ObjectPool\<close> and \<open>CachePool\<close>, which keep a vector of
  free objects, and \<open>OrderedPool\<close>, which cuts blocks into areas and links the free ones through their own
  memory.

  Addresses are \<^typ>\<open>nat\<close>. Which address \<open>operator new\<close> returns is a parameter; it may be one that was freed
  before. Deleting what is not allocated and access outside an allocated block are faults. The locks
  of the variants for several threads are left out, and so are the constructors of the objects.
\<close>

section \<open>The registry\<close>

definition MAX_POOL :: nat where
  "MAX_POOL = 16"

definition pool_stat_init :: "nat option list" where
  "pool_stat_init = replicate MAX_POOL None"

definition pool_register :: "nat \<Rightarrow> nat option list \<Rightarrow> nat option list result" where
  "pool_register p reg = (case first_index None reg of None \<Rightarrow> Inl AssertionFailed | Some i \<Rightarrow> Inr (reg[i := Some p]))"

definition pool_unregister :: "nat \<Rightarrow> nat option list \<Rightarrow> nat option list result" where
  "pool_unregister p reg = (case first_index (Some p) reg of None \<Rightarrow> Inl AssertionFailed | Some i \<Rightarrow> Inr (reg[i := None]))"

section \<open>Pools of objects\<close>

text \<open>\<open>op_objs\<close> is \<open>_objs\<close>, \<open>op_live\<close> what is allocated; \<open>fr\<close> chooses the address of a new object.\<close>

record opool =
  op_objs :: "nat list"
  op_live :: "nat set"

definition op_init :: opool where
  "op_init = \<lparr>op_objs = [], op_live = {}\<rparr>"

definition op_push_new :: "(nat set \<Rightarrow> nat) \<Rightarrow> opool \<Rightarrow> opool" where
  "op_push_new fr s = (let a = fr (op_live s) in s\<lparr>op_objs := op_objs s @ [a], op_live := insert a (op_live s)\<rparr>)"

definition op_delete :: "nat \<Rightarrow> opool \<Rightarrow> opool result" where
  "op_delete a s = bind_res (check (a \<in> op_live s) Dangling) (\<lambda>_. Inr (s\<lparr>op_live := op_live s - {a}\<rparr>))"

text \<open>\<open>construct\<close> is the same in both pools but for the constructor.\<close>

definition op_construct :: "(nat set \<Rightarrow> nat) \<Rightarrow> nat \<Rightarrow> opool \<Rightarrow> (nat \<times> opool) result" where
  "op_construct fr nsize s =
     (let s1 = (if op_objs s = [] then (op_push_new fr ^^ nsize) s else s)
      in if op_objs s1 = [] then Inl OutOfRange
         else Inr (last (op_objs s1), s1\<lparr>op_objs := butlast (op_objs s1)\<rparr>))"

definition cp_destroy :: "nat \<Rightarrow> nat \<Rightarrow> bool \<Rightarrow> opool \<Rightarrow> opool result" where
  "cp_destroy msize a del s =
     (if del \<or> length (op_objs s) > msize then op_delete a s else Inr (s\<lparr>op_objs := op_objs s @ [a]\<rparr>))"

text \<open>\<open>ObjectPool\<close> destructs the object before.\<close>

definition op_destroy :: "nat \<Rightarrow> nat \<Rightarrow> opool \<Rightarrow> opool result" where
  "op_destroy msize a s = bind_res (check (a \<in> op_live s) Dangling) (\<lambda>_.
     if length (op_objs s) > msize then op_delete a s else Inr (s\<lparr>op_objs := op_objs s @ [a]\<rparr>))"

definition cp_clear :: "opool \<Rightarrow> opool result" where
  "cp_clear s = fold_res op_delete (op_objs s) s"

definition op_clear :: "opool \<Rightarrow> opool result" where
  "op_clear s = bind_res (fold_res op_delete (op_objs s) s) (\<lambda>s'. Inr (s'\<lparr>op_objs := []\<rparr>))"

section \<open>The pool of areas\<close>

text \<open>
  \<open>or_anpts\<close>: the heads of the free lists, its length is \<open>anptmax\<close>; 0 is the null pointer. \<open>or_list\<close> is
  \<open>block_list\<close>, \<open>or_blocks\<close> the allocated blocks with their sizes, \<open>or_mem\<close> the pointers in them: None
  where the eight bytes from an address on are not a pointer that was written.
\<close>

record ordp =
  or_anpts :: "nat list"
  or_list :: nat
  or_blocks :: "(nat \<times> nat) list"
  or_mem :: "nat \<rightharpoonup> nat"
  or_new :: int
  or_now :: int

definition or_init :: ordp where
  "or_init = \<lparr>or_anpts = [], or_list = 0, or_blocks = [], or_mem = Map.empty, or_new = 0, or_now = 0\<rparr>"

definition PTR :: nat where
  "PTR = 8"

definition UINT_MAX :: nat where
  "UINT_MAX = 4294967295"

definition or_ok :: "nat \<Rightarrow> ordp \<Rightarrow> bool" where
  "or_ok p s \<longleftrightarrow> (\<exists>(b, z) \<in> set (or_blocks s). b \<le> p \<and> p + PTR \<le> b + z)"

definition or_get :: "nat \<Rightarrow> ordp \<Rightarrow> nat result" where
  "or_get p s = bind_res (check (or_ok p s) Dangling) (\<lambda>_. case or_mem s p of None \<Rightarrow> Inl Dangling | Some v \<Rightarrow> Inr v)"

text \<open>Writing a pointer spoils those that overlap it.\<close>

definition or_store :: "nat \<Rightarrow> nat \<Rightarrow> (nat \<rightharpoonup> nat) \<Rightarrow> (nat \<rightharpoonup> nat)" where
  "or_store a v m = (\<lambda>p. if p = a then Some v else if p < a + PTR \<and> a < p + PTR then None else m p)"

definition or_put :: "nat \<Rightarrow> nat \<Rightarrow> ordp \<Rightarrow> ordp result" where
  "or_put p v s = bind_res (check (or_ok p s) Dangling) (\<lambda>_. Inr (s\<lparr>or_mem := or_store p v (or_mem s)\<rparr>))"

definition or_head :: "nat \<Rightarrow> ordp \<Rightarrow> nat result" where
  "or_head n s = (if n < length (or_anpts s) then Inr (or_anpts s ! n) else Inl OutOfRange)"

definition ordered_free :: "nat \<Rightarrow> nat \<Rightarrow> ordp \<Rightarrow> ordp result" where
  "ordered_free p n s =
     bind_res (check (length (or_anpts s) \<ge> n \<and> p \<noteq> 0) AssertionFailed) (\<lambda>_.
     bind_res (or_head n s) (\<lambda>h.
     bind_res (or_put p h s) (\<lambda>s1.
       Inr (s1\<lparr>or_anpts := (or_anpts s1)[n := p], or_now := or_now s1 + int n\<rparr>))))"

function or_size :: "nat \<Rightarrow> nat \<Rightarrow> nat" where
  "or_size m sz = (if sz < m \<and> 0 < sz then or_size m (sz * 2) else sz)"
  by auto
termination by (relation "measure (\<lambda>(m, sz). m - sz)") auto

declare or_size.simps [simp del]

definition or_room :: "nat \<Rightarrow> ordp \<Rightarrow> ordp" where
  "or_room n s =
     (if length (or_anpts s) < n + 1
      then s\<lparr>or_anpts := or_anpts s @ replicate (or_size (n + 1) 16 - length (or_anpts s)) 0\<rparr> else s)"

fun seg_loop :: "nat \<Rightarrow> nat \<Rightarrow> nat \<Rightarrow> ordp \<Rightarrow> (nat \<times> ordp) result" where
  "seg_loop psz 0 cur s = Inr (cur, s)"
| "seg_loop psz (Suc k) cur s = bind_res (or_put cur (cur + psz) s) (seg_loop psz k (cur + psz))"

definition segregate :: "nat \<Rightarrow> nat \<Rightarrow> nat \<Rightarrow> nat \<Rightarrow> ordp \<Rightarrow> ordp result" where
  "segregate p psz np n s =
     bind_res (check (length (or_anpts s) > n) AssertionFailed) (\<lambda>_.
       if np = 0 then Inr s
       else bind_res (seg_loop psz (np - 1) p s) (\<lambda>(cur, s1).
            bind_res (or_put cur (or_anpts s1 ! n) s1) (\<lambda>s2.
              Inr (s2\<lparr>or_anpts := (or_anpts s2)[n := p]\<rparr>))))"

text \<open>A new block holds no pointers.\<close>

definition or_alloc :: "nat \<Rightarrow> nat \<Rightarrow> ordp \<Rightarrow> ordp" where
  "or_alloc b z s = s\<lparr>or_blocks := (b, z) # or_blocks s, or_mem := (\<lambda>p. if p < b + z \<and> b < p + PTR then None else or_mem s p)\<rparr>"

definition ordered_malloc ::
  "((nat \<times> nat) list \<Rightarrow> nat \<Rightarrow> nat) \<Rightarrow> nat \<Rightarrow> nat \<Rightarrow> nat \<Rightarrow> ordp \<Rightarrow> (nat \<times> ordp) result" where
  "ordered_malloc fr ordered_size n chunk_size s =
     bind_res (check (n > 0 \<and> chunk_size > 0) AssertionFailed) (\<lambda>_.
       let s0 = or_room n s; p = or_anpts s0 ! n
       in if p \<noteq> 0
          then bind_res (or_get p s0) (\<lambda>next.
                 Inr (p, s0\<lparr>or_now := or_now s0 - int n, or_anpts := (or_anpts s0)[n := next]\<rparr>))
          else
            let psz = n * ordered_size
            in bind_res (check (UINT_MAX div psz > chunk_size) AssertionFailed) (\<lambda>_.
                 let z = PTR + chunk_size * psz; b = fr (or_blocks s0) z
                 in bind_res (or_put b (or_list s0) (or_alloc b z s0)) (\<lambda>s1.
                    bind_res (segregate (b + PTR + psz) psz (chunk_size - 1) n
                        (s1\<lparr>or_list := b, or_new := or_new s1 + int (n * chunk_size),
                            or_now := or_now s1 + int (n * (chunk_size - 1))\<rparr>)) (\<lambda>s2.
                      Inr (b + PTR, s2)))))"

text \<open>\<open>delete[]\<close> of a block. Every turn of the loop of \<open>clear\<close> frees one.\<close>

definition or_delete :: "nat \<Rightarrow> ordp \<Rightarrow> ordp result" where
  "or_delete p s =
     (case first_index p (map fst (or_blocks s)) of
        None \<Rightarrow> Inl Dangling
      | Some i \<Rightarrow> Inr (s\<lparr>or_blocks := take i (or_blocks s) @ drop (Suc i) (or_blocks s)\<rparr>))"

lemma or_delete_length: "or_delete p s = Inr s' \<Longrightarrow> length (or_blocks s') < length (or_blocks s)"
proof -
  assume d: "or_delete p s = Inr s'"
  then obtain i where i: "first_index p (map fst (or_blocks s)) = Some i" "s' = s\<lparr>or_blocks := take i (or_blocks s) @ drop (Suc i) (or_blocks s)\<rparr>"
    by (auto simp: or_delete_def split: option.splits)
  have "i < length (or_blocks s)" using first_index_SomeD [OF i(1)] by simp
  then show ?thesis using i(2) by simp
qed

function or_clear_loop :: "ordp \<Rightarrow> ordp result" where
  "or_clear_loop s =
     (if or_list s = 0 then Inr s
      else bind_res (or_get (or_list s) s) (\<lambda>next.
           bind_res (or_delete (or_list s) (s\<lparr>or_list := next\<rparr>)) or_clear_loop))"
  by auto
termination
proof (relation "measure (\<lambda>s. length (or_blocks s))")
  show "(t, s) \<in> measure (\<lambda>s. length (or_blocks s))" if "or_delete (or_list s) (s\<lparr>or_list := next\<rparr>) = Inr t" for s t "next"
    using or_delete_length [OF that] by simp
qed simp

declare or_clear_loop.simps [simp del]

definition or_clear :: "ordp \<Rightarrow> ordp result" where
  "or_clear s = or_clear_loop (s\<lparr>or_anpts := []\<rparr>)"

end
