(* ===== verification/PoolCorrect.thy ===== *)
theory PoolCorrect
  imports Pool
begin

text \<open>
  The object pools never hand out an object twice and lose none; what the client holds of an ordered pool
  never overlaps, whatever it writes there.
\<close>

section \<open>The registry\<close>

lemma pool_register_full: "pool_register p reg = Inl AssertionFailed \<longleftrightarrow> None \<notin> set reg"
  by (simp add: pool_register_def first_index_None [symmetric] split: option.split)

lemma pool_register_ok: "None \<in> set reg \<Longrightarrow> \<exists>i < length reg. reg ! i = None \<and> pool_register p reg = Inr (reg[i := Some p])"
  using first_index_SomeD [of None reg] first_index_None [of None reg] by (auto simp: pool_register_def split: option.splits)

section \<open>Object pools\<close>

text \<open>
  A client of a pool: it gives back only what it holds, and it does not purge a \<open>CachePool\<close>. The second
  component is what it holds.
\<close>

datatype pool_call = PGet | PPut nat | PDel nat | PPurge

definition drop_nth :: "nat \<Rightarrow> 'a list \<Rightarrow> 'a list" where
  "drop_nth i xs = take i xs @ drop (Suc i) xs"

fun op_step :: "bool \<Rightarrow> (nat set \<Rightarrow> nat) \<Rightarrow> nat \<Rightarrow> nat \<Rightarrow> pool_call \<Rightarrow> opool \<times> nat list \<Rightarrow> (nat option \<times> opool \<times> nat list) result" where
  "op_step cache fr msize nsize PGet (s, held) = bind_res (op_construct fr nsize s) (\<lambda>(a, s'). Inr (Some a, s', held @ [a]))"
| "op_step cache fr msize nsize (PPut i) (s, held) =
     (if i < length held
      then bind_res (if cache then cp_destroy msize (held ! i) False s else op_destroy msize (held ! i) s)
             (\<lambda>s'. Inr (None, s', drop_nth i held))
      else Inr (None, s, held))"
| "op_step cache fr msize nsize (PDel i) (s, held) =
     (if i < length held
      then bind_res (if cache then cp_destroy msize (held ! i) True s else op_destroy msize (held ! i) s)
             (\<lambda>s'. Inr (None, s', drop_nth i held))
      else Inr (None, s, held))"
| "op_step cache fr msize nsize PPurge (s, held) =
     (if cache then Inr (None, s, held) else bind_res (op_clear s) (\<lambda>s'. Inr (None, s', held)))"

definition op_inv :: "nat \<Rightarrow> nat \<Rightarrow> opool \<times> nat list \<Rightarrow> bool" where
  "op_inv msize nsize = (\<lambda>(s, held). finite (op_live s) \<and> distinct (op_objs s @ held) \<and>
     set (op_objs s) \<union> set held = op_live s \<and> length (op_objs s) \<le> max (Suc msize) nsize)"

definition op_fresh :: "(nat set \<Rightarrow> nat) \<Rightarrow> bool" where
  "op_fresh fr \<longleftrightarrow> (\<forall>A. finite A \<longrightarrow> fr A \<notin> A)"

lemma drop_nth_split:
  assumes "i < length xs"
  shows "set xs = insert (xs ! i) (set (drop_nth i xs))" "distinct xs \<Longrightarrow> xs ! i \<notin> set (drop_nth i xs) \<and> distinct (drop_nth i xs)"
    "set (drop_nth i xs) \<subseteq> set xs"
proof -
  have s: "xs = take i xs @ xs ! i # drop (Suc i) xs" by (rule id_take_nth_drop [OF assms])
  show "set xs = insert (xs ! i) (set (drop_nth i xs))" by (subst s) (simp add: drop_nth_def)
  then show "set (drop_nth i xs) \<subseteq> set xs" by blast
  show "xs ! i \<notin> set (drop_nth i xs) \<and> distinct (drop_nth i xs)" if "distinct xs"
  proof -
    have "distinct (take i xs @ xs ! i # drop (Suc i) xs)" using that s by simp
    then show ?thesis by (auto simp: drop_nth_def)
  qed
qed

lemma push_new_one:
  assumes "op_fresh fr" "finite (op_live s)" "distinct (op_objs s @ held)" "set (op_objs s) \<union> set held = op_live s"
  shows "finite (op_live (op_push_new fr s))" "distinct (op_objs (op_push_new fr s) @ held)"
    "set (op_objs (op_push_new fr s)) \<union> set held = op_live (op_push_new fr s)"
    "length (op_objs (op_push_new fr s)) = Suc (length (op_objs s))"
proof -
  have "fr (op_live s) \<notin> set (op_objs s) \<union> set held" unfolding assms(4) using assms(1,2) by (simp add: op_fresh_def)
  then show "finite (op_live (op_push_new fr s))" "distinct (op_objs (op_push_new fr s) @ held)"
    "set (op_objs (op_push_new fr s)) \<union> set held = op_live (op_push_new fr s)"
    "length (op_objs (op_push_new fr s)) = Suc (length (op_objs s))"
    using assms(2-4) by (auto simp: op_push_new_def Let_def)
qed

lemma push_new_many:
  assumes "op_fresh fr" "finite (op_live s)" "distinct (op_objs s @ held)" "set (op_objs s) \<union> set held = op_live s"
    and "t = (op_push_new fr ^^ n) s"
  shows "finite (op_live t) \<and> distinct (op_objs t @ held) \<and> set (op_objs t) \<union> set held = op_live t \<and>
    length (op_objs t) = length (op_objs s) + n"
  unfolding assms(5)
proof (induction n)
  case (Suc n)
  then show ?case using push_new_one [OF assms(1), of "(op_push_new fr ^^ n) s" held] by simp
qed (use assms in simp)

lemma op_construct_ok:
  assumes fr: "op_fresh fr" and n: "0 < nsize" and inv: "op_inv msize nsize (s, held)"
  shows "\<exists>a t. op_construct fr nsize s = Inr (a, t) \<and> op_inv msize nsize (t, held @ [a])"
proof -
  define t where "t = (if op_objs s = [] then (op_push_new fr ^^ nsize) s else s)"
  have t: "op_inv msize nsize (t, held)" "op_objs t \<noteq> []"
    using inv n push_new_many [OF fr, of s held "(op_push_new fr ^^ nsize) s" nsize] by (auto simp: t_def op_inv_def)
  obtain os a where o: "op_objs t = os @ [a]" using t(2) by (metis append_butlast_last_id)
  have "op_construct fr nsize s = Inr (a, t\<lparr>op_objs := os\<rparr>)"
    using o by (simp add: op_construct_def t_def [symmetric])
  moreover have "op_inv msize nsize (t\<lparr>op_objs := os\<rparr>, held @ [a])" using t(1) o by (auto simp: op_inv_def)
  ultimately show ?thesis by blast
qed

lemma op_give_back:
  assumes inv: "op_inv msize nsize (s, held)" and i: "i < length held"
  shows "\<exists>t. op_delete (held ! i) s = Inr t \<and> op_inv msize nsize (t, drop_nth i held)"
    "length (op_objs s) \<le> msize \<Longrightarrow> op_inv msize nsize (s\<lparr>op_objs := op_objs s @ [held ! i]\<rparr>, drop_nth i held)"
    "held ! i \<in> op_live s"
proof -
  define a where "a = held ! i"
  define r where "r = drop_nth i held"
  have h: "distinct held" "set (op_objs s) \<inter> set held = {}" "set (op_objs s) \<union> set held = op_live s"
    "finite (op_live s)" "distinct (op_objs s)" "length (op_objs s) \<le> max (Suc msize) nsize" using inv by (auto simp: op_inv_def)
  have r: "set held = insert a (set r)" "a \<notin> set r" "distinct r"
    using drop_nth_split [OF i] h(1) by (simp_all add: a_def r_def)
  show "\<exists>t. op_delete (held ! i) s = Inr t \<and> op_inv msize nsize (t, drop_nth i held)"
  proof -
    have "a \<in> op_live s" "set (op_objs s) \<union> set r = op_live s - {a}" "set (op_objs s) \<inter> set r = {}" using h(2,3) r(1,2) by auto
    then show ?thesis unfolding a_def [symmetric] r_def [symmetric] using h(4-6) r(3) by (simp add: op_delete_def op_inv_def)
  qed
  show "length (op_objs s) \<le> msize \<Longrightarrow> op_inv msize nsize (s\<lparr>op_objs := op_objs s @ [held ! i]\<rparr>, drop_nth i held)"
    unfolding a_def [symmetric] r_def [symmetric] using h r by (auto simp: op_inv_def)
  show "held ! i \<in> op_live s" using h(3) i by force
qed

lemma delete_many:
  "distinct as \<Longrightarrow> set as \<subseteq> op_live s \<Longrightarrow> fold_res op_delete as s = Inr (s\<lparr>op_live := op_live s - set as\<rparr>)"
proof (induction as arbitrary: s)
  case (Cons a as)
  have "fold_res op_delete as (s\<lparr>op_live := op_live s - {a}\<rparr>) = Inr (s\<lparr>op_live := op_live s - {a} - set as\<rparr>)"
    using Cons by (subst Cons.IH) auto
  moreover have "op_live s - {a} - set as = op_live s - set (a # as)" unfolding list.set by (rule Diff_insert2 [symmetric])
  ultimately have "bind_res (op_delete a s) (fold_res op_delete as) = Inr (s\<lparr>op_live := op_live s - set (a # as)\<rparr>)"
    using Cons.prems(2) by (simp only: op_delete_def) (simp only: list.set insert_subset check_simps bind_res_simps)
  then show ?case by simp
qed simp

lemma op_step_ok:
  assumes fr: "op_fresh fr" and n: "0 < nsize" and inv: "op_inv msize nsize x"
  shows "\<exists>r y. op_step cache fr msize nsize c x = Inr (r, y) \<and> op_inv msize nsize y"
proof -
  obtain s held where x: "x = (s, held)" by (cases x)
  have live: "i < length held \<Longrightarrow> held ! i \<in> op_live s" for i using inv by (auto simp: op_inv_def x)
  show ?thesis
  proof (cases c)
    case PGet
    then show ?thesis using op_construct_ok [OF fr n inv [unfolded x]] by (auto simp: x)
  next
    case (PPut i)
    then show ?thesis
    proof (cases "i < length held")
      case True
      note g = op_give_back [OF inv [unfolded x] True] True
      show ?thesis
      proof (cases "msize < length (op_objs s)")
        case True
        then show ?thesis using PPut g by (auto simp: x cp_destroy_def op_destroy_def)
      qed (use PPut g in \<open>simp add: x cp_destroy_def op_destroy_def\<close>)
    qed (use inv in \<open>simp add: x\<close>)
  next
    case (PDel i)
    then show ?thesis
    proof (cases "i < length held")
      case True
      note g = op_give_back [OF inv [unfolded x] True] True
      show ?thesis
      proof (cases "cache \<or> msize < length (op_objs s)")
        case True
        then show ?thesis using PDel g by (auto simp: x cp_destroy_def op_destroy_def)
      qed (use PDel g in \<open>simp add: x cp_destroy_def op_destroy_def\<close>)
    qed (use inv in \<open>simp add: x\<close>)
  next
    case PPurge
    have "fold_res op_delete (op_objs s) s = Inr (s\<lparr>op_live := op_live s - set (op_objs s)\<rparr>)"
      by (rule delete_many) (use inv in \<open>auto simp: x op_inv_def\<close>)
    then show ?thesis using PPurge inv by (auto simp: x op_clear_def op_inv_def)
  qed
qed

text \<open>The invariant together with the assumptions on the pool's parameters.\<close>

definition op_good :: "(nat set \<Rightarrow> nat) \<Rightarrow> nat \<Rightarrow> nat \<Rightarrow> opool \<times> nat list \<Rightarrow> bool" where
  "op_good fr msize nsize x \<longleftrightarrow> op_fresh fr \<and> 0 < nsize \<and> op_inv msize nsize x"

interpretation pools: safe_steps "op_good fr msize nsize" "op_step cache fr msize nsize"
  using op_step_ok by unfold_locales (fastforce simp: op_good_def)

lemma pool_run:
  assumes "0 < nsize" "\<forall>A. finite A \<longrightarrow> fr A \<notin> A"
  shows "\<exists>rs s held. run_ops (op_step cache fr msize nsize) cs (op_init, []) = Inr (rs, s, held) \<and> op_inv msize nsize (s, held)"
proof -
  have "op_good fr msize nsize (op_init, [])" using assms by (simp add: op_good_def op_fresh_def op_inv_def op_init_def)
  then obtain rs y where "run_ops (op_step cache fr msize nsize) cs (op_init, []) = Inr (rs, y)" "op_good fr msize nsize y"
    using pools.run_safe by blast
  then show ?thesis by (cases y) (auto simp: op_good_def)
qed


lemma above_all: "finite A \<Longrightarrow> Suc (Max (insert 0 A)) \<notin> A"
  using Max_ge [of "insert 0 A"] by (metis finite_insert insertCI not_less_eq_eq order_refl)


text \<open>
  C37: purge of a cache pool deletes what it keeps but does not empty the vector: the next construct
  hands out an object that is not allocated, and the destructor, or another purge, deletes twice.
\<close>

theorem cache_purge_dangles:
  assumes "0 < nsize" "\<forall>A. finite A \<longrightarrow> fr A \<notin> A"
    and "run_ops (op_step True fr msize nsize) cs (op_init, []) = Inr (rs, s, held)" "op_objs s \<noteq> []"
  shows "\<exists>t a u. cp_clear s = Inr t \<and> op_construct fr nsize t = Inr (a, u) \<and> a \<notin> op_live u \<and> cp_clear t = Inl Dangling"
proof -
  have inv: "op_inv msize nsize (s, held)" using pool_run [OF assms(1,2), of True msize cs] assms(3) by simp
  let ?t = "s\<lparr>op_live := op_live s - set (op_objs s)\<rparr>"
  have "cp_clear s = Inr ?t" unfolding cp_clear_def by (rule delete_many) (use inv in \<open>auto simp: op_inv_def\<close>)
  moreover have "op_construct fr nsize ?t = Inr (last (op_objs s), ?t\<lparr>op_objs := butlast (op_objs s)\<rparr>)"
    using assms(4) by (simp add: op_construct_def)
  moreover have "cp_clear ?t = Inl Dangling" using assms(4) by (cases "op_objs s") (simp_all add: cp_clear_def op_delete_def)
  ultimately show ?thesis using assms(4) by auto
qed

lemma cache_purge_dangles_witness:
  "\<exists>s t a u. op_objs s = [1] \<and> cp_clear s = Inr t \<and> op_construct (\<lambda>A. Suc (Max (insert 0 A))) 1 t = Inr (a, u) \<and> a \<notin> op_live u"
proof -
  have "run_ops (op_step True (\<lambda>A. Suc (Max (insert 0 A))) 2 1) [PGet, PPut 0] (op_init, []) =
      Inr ([Some 1, None], \<lparr>op_objs = [1], op_live = {1}\<rparr>, [])"
    by (simp add: op_construct_def op_push_new_def op_init_def cp_destroy_def drop_nth_def)
  from cache_purge_dangles [OF _ _ this] obtain t a u where
      "cp_clear \<lparr>op_objs = [1], op_live = {1}\<rparr> = Inr t"
      "op_construct (\<lambda>A. Suc (Max (insert 0 A))) 1 t = Inr (a, u)" "a \<notin> op_live u" using above_all by auto
  moreover have "op_objs \<lparr>op_objs = [1], op_live = {1}\<rparr> = [1]" by simp
  ultimately show ?thesis by blast
qed

end
