(* ===== verification/PoolAreas.thy ===== *)
theory PoolAreas
  imports PoolCorrect
begin

text \<open>
  The ordered pool: its blocks are cut into areas that do not overlap, each of which heads a block, is
  linked into a free list or is held by the client.
\<close>

declare split_paired_All [simp del] split_paired_Ex [simp del]

section \<open>Areas\<close>

datatype owner = Header | Free nat | Held nat

definition olen :: "nat \<Rightarrow> owner \<Rightarrow> nat" where
  "olen os w = (case w of Header \<Rightarrow> PTR | Free n \<Rightarrow> n * os | Held n \<Rightarrow> n * os)"

definition within :: "nat \<Rightarrow> nat \<Rightarrow> (nat \<times> nat) list \<Rightarrow> bool" where
  "within a l blocks \<longleftrightarrow> (\<exists>(b, z) \<in> set blocks. b \<le> a \<and> a + l \<le> b + z)"

text \<open>\<open>own\<close>: which areas there are, by their addresses.\<close>

definition layout :: "nat \<Rightarrow> (nat \<rightharpoonup> owner) \<Rightarrow> (nat \<times> nat) list \<Rightarrow> bool" where
  "layout os own blocks \<longleftrightarrow>
     (\<forall>a w. own a = Some w \<longrightarrow> a \<noteq> 0 \<and> PTR \<le> olen os w \<and> within a (olen os w) blocks) \<and>
     (\<forall>a b v w. a \<noteq> b \<longrightarrow> own a = Some v \<longrightarrow> own b = Some w \<longrightarrow> a + olen os v \<le> b \<or> b + olen os w \<le> a)"

text \<open>A list of areas linked through their memory.\<close>

fun chain :: "(nat \<rightharpoonup> nat) \<Rightarrow> nat \<Rightarrow> nat list \<Rightarrow> bool" where
  "chain m h [] \<longleftrightarrow> h = 0"
| "chain m h (x # xs) \<longleftrightarrow> h = x \<and> x \<noteq> 0 \<and> (\<exists>v. m x = Some v \<and> chain m v xs)"

lemma chain_cong: "(\<And>a. a \<in> set xs \<Longrightarrow> m' a = m a) \<Longrightarrow> chain m' h xs = chain m h xs"
  by (induction xs arbitrary: h) auto

lemma chain_head: "chain m h xs \<Longrightarrow> h = 0 \<longleftrightarrow> xs = []"
  by (cases xs) auto

text \<open>\<open>fl n\<close>: the free list of areas of \<open>n\<close> units, \<open>hs\<close>: the blocks in the order of \<open>block_list\<close>.\<close>

definition blocks_rep :: "(nat \<rightharpoonup> owner) \<Rightarrow> nat list \<Rightarrow> ordp \<Rightarrow> bool" where
  "blocks_rep own hs s \<longleftrightarrow> chain (or_mem s) (or_list s) hs \<and> distinct hs \<and> set hs = {a. own a = Some Header} \<and>
     distinct (map fst (or_blocks s)) \<and> fst ` set (or_blocks s) = set hs \<and> (\<forall>(b, z) \<in> set (or_blocks s). PTR \<le> z)"

definition frees_rep :: "(nat \<rightharpoonup> owner) \<Rightarrow> (nat \<Rightarrow> nat list) \<Rightarrow> ordp \<Rightarrow> bool" where
  "frees_rep own fl s \<longleftrightarrow> (\<forall>n. distinct (fl n) \<and> set (fl n) = {a. own a = Some (Free n)}) \<and>
     (\<forall>n < length (or_anpts s). chain (or_mem s) (or_anpts s ! n) (fl n)) \<and> (\<forall>n \<ge> length (or_anpts s). fl n = [])"

definition or_rep :: "nat \<Rightarrow> (nat \<rightharpoonup> owner) \<Rightarrow> (nat \<Rightarrow> nat list) \<Rightarrow> nat list \<Rightarrow> ordp \<Rightarrow> bool" where
  "or_rep os own fl hs s \<longleftrightarrow> layout os own (or_blocks s) \<and> blocks_rep own hs s \<and> frees_rep own fl s"

lemma within_mono: "within a l blocks \<Longrightarrow> l' \<le> l \<Longrightarrow> within a l' blocks"
  by (force simp: within_def)

lemma layoutD:
  assumes "layout os own blocks" "own a = Some w"
  shows "a \<noteq> 0" "PTR \<le> olen os w" "within a (olen os w) blocks" "within a PTR blocks"
    "own b = Some v \<Longrightarrow> b \<noteq> a \<Longrightarrow> a + PTR \<le> b \<or> b + PTR \<le> a"
proof -
  show 1: "a \<noteq> 0" "PTR \<le> olen os w" "within a (olen os w) blocks" using assms by (simp_all add: layout_def)
  show "within a PTR blocks" by (rule within_mono [OF 1(3,2)])
  show "a + PTR \<le> b \<or> b + PTR \<le> a" if b: "own b = Some v" "b \<noteq> a"
  proof -
    have "PTR \<le> olen os v" "a + olen os w \<le> b \<or> b + olen os v \<le> a" using assms b by (auto simp: layout_def)
    then show ?thesis using 1(2) by linarith
  qed
qed

lemma layout_relabel:
  assumes "layout os own blocks" "own a = Some v" "olen os w = olen os v"
  shows "layout os (own(a \<mapsto> w)) blocks"
  using assms by (auto simp: layout_def)

lemma or_ok_within: "or_ok p s \<longleftrightarrow> within p PTR (or_blocks s)"
  by (simp add: or_ok_def within_def)

lemma put_area:
  assumes "layout os own (or_blocks s)" "own p = Some w"
  shows "or_put p v s = Inr (s\<lparr>or_mem := or_store p v (or_mem s)\<rparr>)"
    and "own q = Some u \<Longrightarrow> q \<noteq> p \<Longrightarrow> or_store p v m q = m q" and "or_store p v m p = Some v"
proof -
  note d = layoutD [OF assms]
  show "or_put p v s = Inr (s\<lparr>or_mem := or_store p v (or_mem s)\<rparr>)" using d(4) by (simp add: or_put_def or_ok_within)
  show "or_store p v m p = Some v" by (simp add: or_store_def)
  show "or_store p v m q = m q" if "own q = Some u" "q \<noteq> p" using d(5) [OF that] that(2) by (auto simp: or_store_def)
qed

text \<open>Memory outside the areas of the pool's own lists does not matter.\<close>

lemma rep_mem:
  assumes "or_rep os own fl hs s" "\<And>a. own a = Some Header \<or> (\<exists>n. own a = Some (Free n)) \<Longrightarrow> m a = or_mem s a"
  shows "or_rep os own fl hs (s\<lparr>or_mem := m\<rparr>)"
proof -
  have "chain m h hs = chain (or_mem s) h hs" for h
    by (rule chain_cong) (use assms in \<open>auto simp: or_rep_def blocks_rep_def\<close>)
  moreover have "chain m h (fl n) = chain (or_mem s) h (fl n)" for h n
    by (rule chain_cong) (use assms in \<open>auto simp: or_rep_def frees_rep_def\<close>)
  ultimately show ?thesis using assms(1) by (simp add: or_rep_def blocks_rep_def frees_rep_def)
qed

section \<open>Giving back\<close>

lemma ordered_free_ok:
  assumes rep: "or_rep os own fl hs s" and p: "own p = Some (Held n)" and n: "n < length (or_anpts s)"
  shows "\<exists>m. ordered_free p n s = Inr (s\<lparr>or_mem := m, or_anpts := (or_anpts s)[n := p], or_now := or_now s + int n\<rparr>) \<and>
    or_rep os (own(p \<mapsto> Free n)) (fl(n := p # fl n)) hs
      (s\<lparr>or_mem := m, or_anpts := (or_anpts s)[n := p], or_now := or_now s + int n\<rparr>)"
proof -
  have l: "layout os own (or_blocks s)" and b: "blocks_rep own hs s" and f: "frees_rep own fl s" using rep by (simp_all add: or_rep_def)
  let ?m = "or_store p (or_anpts s ! n) (or_mem s)" and ?own = "own(p \<mapsto> Free n)"
  note put = put_area [OF l p]
  have run: "ordered_free p n s = Inr (s\<lparr>or_mem := ?m, or_anpts := (or_anpts s)[n := p], or_now := or_now s + int n\<rparr>)"
    using n layoutD(1) [OF l p] put(1) by (simp add: ordered_free_def or_head_def)
  have "layout os ?own (or_blocks s)" by (rule layout_relabel [OF l p]) (simp add: olen_def)
  moreover have ch: "chain ?m h xs = chain (or_mem s) h xs" if "\<And>a. a \<in> set xs \<Longrightarrow> \<exists>w. own a = Some w \<and> w \<noteq> Held n" for h xs
    by (rule chain_cong) (use put(2) that p in fastforce)
  have "chain ?m (or_list s) hs" using ch [of hs] b by (auto simp: blocks_rep_def)
  then have "blocks_rep ?own hs (s\<lparr>or_mem := ?m, or_anpts := (or_anpts s)[n := p], or_now := or_now s + int n\<rparr>)"
    using b p by (auto simp: blocks_rep_def)
  moreover have "chain ?m h (fl k) = chain (or_mem s) h (fl k)" for h k by (rule ch) (use f in \<open>auto simp: frees_rep_def\<close>)
  then have "frees_rep ?own (fl(n := p # fl n)) (s\<lparr>or_mem := ?m, or_anpts := (or_anpts s)[n := p], or_now := or_now s + int n\<rparr>)"
    using f p n put(3) layoutD(1) [OF l p] by (auto simp: frees_rep_def nth_list_update)
  ultimately show ?thesis using run by (intro exI [of _ ?m]) (simp add: or_rep_def)
qed


section \<open>Taking from a free list\<close>

lemma reuse_ok:
  assumes rep: "or_rep os own fl hs s" and n: "n < length (or_anpts s)" and p: "or_anpts s ! n \<noteq> 0"
  shows "\<exists>p next rest. or_anpts s ! n = p \<and> or_get p s = Inr next \<and> own p = Some (Free n) \<and> fl n = p # rest \<and>
    or_rep os (own(p \<mapsto> Held n)) (fl(n := rest)) hs (s\<lparr>or_now := or_now s - int n, or_anpts := (or_anpts s)[n := next]\<rparr>)"
proof -
  have l: "layout os own (or_blocks s)" and b: "blocks_rep own hs s" and f: "frees_rep own fl s" using rep by (simp_all add: or_rep_def)
  have c: "chain (or_mem s) (or_anpts s ! n) (fl n)" using f n by (simp add: frees_rep_def)
  then obtain rest v where r: "fl n = (or_anpts s ! n) # rest" "or_mem s (or_anpts s ! n) = Some v" "chain (or_mem s) v rest"
    using p by (cases "fl n") auto
  define a where "a = or_anpts s ! n"
  have d: "distinct (a # rest)" "set (a # rest) = {a. own a = Some (Free n)}" using f r(1) by (metis frees_rep_def a_def)+
  then have own: "own a = Some (Free n)" by auto
  have "layout os (own(a \<mapsto> Held n)) (or_blocks s)" by (rule layout_relabel [OF l own]) (simp add: olen_def)
  moreover have "blocks_rep (own(a \<mapsto> Held n)) hs (s\<lparr>or_now := or_now s - int n, or_anpts := (or_anpts s)[n := v]\<rparr>)"
    using b own by (auto simp: blocks_rep_def)
  moreover have "frees_rep (own(a \<mapsto> Held n)) (fl(n := rest)) (s\<lparr>or_now := or_now s - int n, or_anpts := (or_anpts s)[n := v]\<rparr>)"
    using f n d own r(3) by (auto simp: frees_rep_def nth_list_update)
  moreover have "or_get a s = Inr v" using layoutD(4) [OF l own] r(2) by (simp add: or_get_def or_ok_within a_def)
  ultimately show ?thesis using own r(1) by (intro exI [of _ a] exI [of _ v] exI [of _ rest]) (simp add: or_rep_def a_def)
qed

lemma or_size_ge: "0 < sz \<Longrightarrow> m \<le> or_size m sz"
  by (induction m sz rule: or_size.induct) (subst or_size.simps, auto)

lemma or_room_ok:
  assumes "or_rep os own fl hs s"
  shows "or_rep os own fl hs (or_room n s)" "n < length (or_anpts (or_room n s))"
    "length (or_anpts s) \<le> length (or_anpts (or_room n s))"
    "\<exists>xs. or_room n s = s\<lparr>or_anpts := or_anpts s @ xs\<rparr>"
proof -
  have "n + 1 \<le> or_size (n + 1) 16" by (rule or_size_ge) simp
  then show "n < length (or_anpts (or_room n s))" "length (or_anpts s) \<le> length (or_anpts (or_room n s))"
    by (auto simp: or_room_def)
  have x: "or_room n s = s\<lparr>or_anpts := or_anpts s @ replicate (length (or_anpts (or_room n s)) - length (or_anpts s)) 0\<rparr>"
    by (simp add: or_room_def)
  then show "\<exists>xs. or_room n s = s\<lparr>or_anpts := or_anpts s @ xs\<rparr>" by blast
  show "or_rep os own fl hs (or_room n s)"
    using assms by (subst x) (auto simp: or_rep_def blocks_rep_def frees_rep_def nth_append)
qed

section \<open>Cutting a block\<close>

lemma seg_loop_ok:
  assumes "\<And>i. i < k \<Longrightarrow> or_ok (p + i * psz) s" "PTR \<le> psz"
  shows "\<exists>m. seg_loop psz k p s = Inr (p + k * psz, s\<lparr>or_mem := m\<rparr>) \<and> (\<forall>i < k. m (p + i * psz) = Some (p + Suc i * psz)) \<and>
    (\<forall>q. q + PTR \<le> p \<or> p + k * psz \<le> q \<longrightarrow> m q = or_mem s q)"
  using assms(1)
proof (induction k arbitrary: p s)
  case (Suc k)
  let ?m = "or_store p (p + psz) (or_mem s)"
  have put: "or_put p (p + psz) s = Inr (s\<lparr>or_mem := ?m\<rparr>)" using Suc.prems [of 0] by (simp add: or_put_def)
  have "or_ok (p + psz + i * psz) (s\<lparr>or_mem := ?m\<rparr>)" if "i < k" for i
    using Suc.prems [of "Suc i"] that by (simp add: or_ok_def add.assoc)
  from Suc.IH [OF this] obtain m where m: "seg_loop psz k (p + psz) (s\<lparr>or_mem := ?m\<rparr>) = Inr (p + psz + k * psz, s\<lparr>or_mem := m\<rparr>)"
      "\<And>i. i < k \<Longrightarrow> m (p + psz + i * psz) = Some (p + psz + Suc i * psz)"
      "\<And>q. q + PTR \<le> p + psz \<or> p + psz + k * psz \<le> q \<Longrightarrow> m q = ?m q" by auto
  have "m (p + i * psz) = Some (p + Suc i * psz)" if "i < Suc k" for i
  proof (cases i)
    case 0
    then show ?thesis using m(3) [of p] assms(2) by (simp add: or_store_def)
  next
    case (Suc j)
    then show ?thesis using m(2) [of j] that by (simp add: add.assoc)
  qed
  moreover have "m q = or_mem s q" if "q + PTR \<le> p \<or> p + Suc k * psz \<le> q" for q
    using m(3) [of q] that assms(2) by (auto simp: or_store_def PTR_def)
  ultimately show ?case using put m(1) by (intro exI [of _ m]) (simp add: add.assoc)
next
  case 0
  show ?case by (rule exI [of _ "or_mem s"]) simp
qed

lemma segregate_ok:
  assumes ok: "\<And>i. i < np \<Longrightarrow> or_ok (p + i * psz) s" and psz: "PTR \<le> psz" and n: "n < length (or_anpts s)"
  shows "\<exists>m. segregate p psz np n s = Inr (s\<lparr>or_mem := m, or_anpts := (or_anpts s)[n := if np = 0 then or_anpts s ! n else p]\<rparr>) \<and>
    (\<forall>i < np. m (p + i * psz) = Some (if Suc i = np then or_anpts s ! n else p + Suc i * psz)) \<and>
    (\<forall>q. q + PTR \<le> p \<or> p + np * psz \<le> q \<longrightarrow> m q = or_mem s q)"
proof (cases np)
  case 0
  then show ?thesis using n by (intro exI [of _ "or_mem s"]) (simp add: segregate_def)
next
  case (Suc k)
  obtain m where m: "seg_loop psz k p s = Inr (p + k * psz, s\<lparr>or_mem := m\<rparr>)" "\<And>i. i < k \<Longrightarrow> m (p + i * psz) = Some (p + Suc i * psz)"
      "\<And>q. q + PTR \<le> p \<or> p + k * psz \<le> q \<Longrightarrow> m q = or_mem s q"
    using seg_loop_ok [of k p psz s] ok psz Suc by auto
  let ?h = "or_anpts s ! n" and ?l = "p + k * psz"
  let ?m = "or_store ?l ?h m"
  have "or_ok ?l (s\<lparr>or_mem := m\<rparr>)" using ok [of k] Suc by (simp add: or_ok_def)
  then have put: "or_put ?l ?h (s\<lparr>or_mem := m\<rparr>) = Inr (s\<lparr>or_mem := ?m\<rparr>)" by (simp add: or_put_def)
  have "?m (p + i * psz) = Some (if Suc i = np then ?h else p + Suc i * psz)" if i: "i < np" for i
  proof (cases "i = k")
    case False
    then have "Suc i \<le> k" using i Suc by simp
    then have "Suc i * psz \<le> k * psz" by (rule mult_le_mono1)
    then have "p + i * psz + PTR \<le> ?l" using psz by simp
    then have "p + i * psz + PTR \<le> ?l \<and> p + i * psz < ?l" unfolding PTR_def by linarith
    then show ?thesis using False i Suc m(2) [of i] by (simp add: or_store_def)
  qed (use Suc in \<open>simp add: or_store_def\<close>)
  moreover have "?m q = or_mem s q" if "q + PTR \<le> p \<or> p + np * psz \<le> q" for q
    using m(3) [of q] that psz Suc by (auto simp: or_store_def PTR_def)
  ultimately show ?thesis using n Suc m(1) put by (intro exI [of _ ?m]) (simp add: segregate_def)
qed

lemma chain_cells:
  assumes "\<And>i. i < np \<Longrightarrow> m (p + i * psz) = Some (if Suc i = np then 0 else p + Suc i * psz)" "0 < p" "j \<le> np"
  shows "chain m (if j < np then p + j * psz else 0) (map (\<lambda>i. p + i * psz) [j..<np])"
  using assms(3)
proof (induction "np - j" arbitrary: j)
  case (Suc k)
  then have j: "j < np" "[j..<np] = j # [Suc j..<np]" by (simp_all add: upt_conv_Cons)
  have "chain m (if Suc j < np then p + Suc j * psz else 0) (map (\<lambda>i. p + i * psz) [Suc j..<np])" using Suc by auto
  moreover have "(if Suc j < np then p + Suc j * psz else 0) = (if Suc j = np then 0 else p + Suc j * psz)" using j(1) by auto
  ultimately show ?case using j assms(1) [OF j(1)] assms(2) by simp
qed simp


text \<open>
  A new block at \<open>b\<close> that overlaps no other, with \<open>k\<close> areas of \<open>psz\<close> behind its header; the first is
  handed out.
\<close>

definition cut :: "nat \<Rightarrow> nat \<Rightarrow> nat \<Rightarrow> nat \<Rightarrow> (nat \<rightharpoonup> owner) \<Rightarrow> (nat \<rightharpoonup> owner)" where
  "cut b psz k n own = (\<lambda>a. if a = b then Some Header else if a = b + PTR then Some (Held n)
     else if \<exists>i < k - 1. a = b + PTR + psz + i * psz then Some (Free n) else own a)"

definition apart :: "nat \<Rightarrow> nat \<Rightarrow> (nat \<times> nat) list \<Rightarrow> bool" where
  "apart b z blocks \<longleftrightarrow> (\<forall>(c, y) \<in> set blocks. b + z \<le> c \<or> c + y \<le> b)"

lemma apart_own:
  assumes "layout os own blocks" "apart b z blocks" "own a = Some w"
  shows "b + z \<le> a \<or> a + olen os w \<le> b"
  using layoutD(3) [OF assms(1,3)] assms(2) by (fastforce simp: within_def apart_def)

lemma cell_in: "i < k \<Longrightarrow> i * psz + psz \<le> k * (psz::nat)"
  by (metis Suc_leI add.commute mult_Suc mult_le_mono1)

lemma cells_apart: "i \<noteq> j \<Longrightarrow> i * psz + psz \<le> j * psz \<or> j * psz + psz \<le> i * (psz::nat)"
  using cell_in [of i j psz] cell_in [of j i psz] by linarith

lemma cut_cases:
  assumes "cut b psz k n own a = Some w" "0 < k" "psz = n * os"
  shows "a = b \<and> w = Header \<or> (\<exists>i < k. a = b + PTR + i * psz \<and> olen os w = psz) \<or>
    own a = Some w"
proof -
  consider "a = b" | "a = b + PTR" "a \<noteq> b" | i where "i < k - 1" "a = b + PTR + psz + i * psz" "a \<noteq> b" "a \<noteq> b + PTR"
    | "own a = Some w" using assms(1) by (auto simp: cut_def split: if_splits)
  then show ?thesis
  proof cases
    case 2
    then have "w = Held n" using assms(1) by (simp add: cut_def)
    then have "0 < k \<and> a = b + PTR + 0 * psz \<and> olen os w = psz" using 2 assms(2,3) by (simp add: olen_def)
    then show ?thesis by blast
  next
    case 3
    have "w = Free n" using 3 assms(1) by (auto simp: cut_def)
    then have "Suc i < k \<and> a = b + PTR + Suc i * psz \<and> olen os w = psz" using 3 assms(3) by (auto simp: olen_def)
    then show ?thesis by blast
  qed (use assms in \<open>auto simp: cut_def\<close>)
qed

lemma layout_cut:
  assumes l: "layout os own blocks" and ap: "apart b (PTR + k * psz) blocks" and b: "b \<noteq> 0" and k: "0 < k" and psz: "PTR \<le> psz" "psz = n * os"
  shows "layout os (cut b psz k n own) ((b, PTR + k * psz) # blocks)"
proof -
  let ?own = "cut b psz k n own" and ?z = "PTR + k * psz"
  have new: "a = b \<and> w = Header \<or> (\<exists>i < k. a = b + PTR + i * psz \<and> olen os w = psz) \<or> own a = Some w" if "?own a = Some w" for a w
    by (rule cut_cases [OF that k psz(2)])
  have old: "b + ?z \<le> a \<or> a + olen os w \<le> b" if "own a = Some w" for a w by (rule apart_own [OF l ap that])
  have "a \<noteq> 0 \<and> PTR \<le> olen os w \<and> within a (olen os w) ((b, ?z) # blocks)" if "?own a = Some w" for a w
    using new [OF that]
  proof (elim disjE exE conjE)
    show ?thesis if "a = b" "w = Header" using that b by (simp add: olen_def within_def)
    show ?thesis if "own a = Some w" using layoutD [OF l that] by (auto simp: within_def)
    show ?thesis if "i < k" "a = b + PTR + i * psz" "olen os w = psz" for i
      using cell_in [OF that(1), of psz] that b psz(1) by (simp add: within_def)
  qed
  moreover have "a + olen os v \<le> c \<or> c + olen os w \<le> a" if n: "a \<noteq> c" "?own a = Some v" "?own c = Some w" for a c v w
  proof -
    have in_new: "b \<le> a \<and> a + olen os w \<le> b + ?z" if "a = b \<and> w = Header \<or> (\<exists>i < k. a = b + PTR + i * psz \<and> olen os w = psz)" for a w
      using that cell_in [of _ k psz] by (auto simp: olen_def)
    consider (both) "own a = Some v" "own c = Some w"
      | (left) "a = b \<and> v = Header \<or> (\<exists>i < k. a = b + PTR + i * psz \<and> olen os v = psz)" "own c = Some w"
      | (right) "own a = Some v" "c = b \<and> w = Header \<or> (\<exists>i < k. c = b + PTR + i * psz \<and> olen os w = psz)"
      | (none) "a = b \<and> v = Header \<or> (\<exists>i < k. a = b + PTR + i * psz \<and> olen os v = psz)"
          "c = b \<and> w = Header \<or> (\<exists>i < k. c = b + PTR + i * psz \<and> olen os w = psz)"
      using new [OF n(2)] new [OF n(3)] by blast
    then show ?thesis
    proof cases
      case both
      then show ?thesis using l n(1) by (simp add: layout_def)
    next
      case left
      then show ?thesis using in_new [OF left(1)] old [OF left(2)] by linarith
    next
      case right
      then show ?thesis using in_new [OF right(2)] old [OF right(1)] by linarith
    next
      case none
      consider "a = b" "v = Header" | i where "i < k" "a = b + PTR + i * psz" "olen os v = psz" using none(1) by blast
      then show ?thesis
      proof cases
        case 1
        then show ?thesis using none(2) n(1) by (auto simp: olen_def)
      next
        case 2
        consider "c = b" "w = Header" | j where "j < k" "c = b + PTR + j * psz" "olen os w = psz" using none(2) by blast
        then show ?thesis
        proof cases
          case j: 2
          have "i \<noteq> j" using 2 j n(1) by auto
          from cells_apart [OF this, of psz] show ?thesis unfolding 2 j by linarith
        qed (use 2 in \<open>simp add: olen_def\<close>)
      qed
    qed
  qed
  ultimately show ?thesis by (simp add: layout_def)
qed


lemma cut_owner:
  assumes "0 < k" "PTR \<le> psz" "\<And>a w. own a = Some w \<Longrightarrow> b + (PTR + k * psz) \<le> a \<or> a + PTR \<le> b"
  shows "cut b psz k n own a = Some Header \<longleftrightarrow> a = b \<or> own a = Some Header"
    "cut b psz k n own a = Some (Free j) \<longleftrightarrow> (j = n \<and> (\<exists>i < k - 1. a = b + PTR + psz + i * psz)) \<or> own a = Some (Free j)"
    "cut b psz k n own a = Some (Held j) \<longleftrightarrow> (a = b + PTR \<and> j = n) \<or> own a = Some (Held j)"
proof -
  have none: "own a = None" if "b \<le> a" "a < b + (PTR + k * psz)" for a
    using assms(3) [of a] that by (cases "own a") (auto simp: PTR_def)
  have "psz \<le> k * psz" "0 < psz" using assms(1,2) by (simp_all add: PTR_def)
  then have b: "own b = None" "own (b + PTR) = None" using none [of b] none [of "b + PTR"] by (simp_all add: PTR_def)
  have c: "own (b + PTR + psz + i * psz) = None" if "i < k - 1" for i
  proof (rule none)
    have "Suc i * psz + psz \<le> k * psz" by (rule cell_in) (use that in simp)
    then show "b + PTR + psz + i * psz < b + (PTR + k * psz)" using \<open>0 < psz\<close> by simp
  qed simp
  show "cut b psz k n own a = Some Header \<longleftrightarrow> a = b \<or> own a = Some Header"
    "cut b psz k n own a = Some (Free j) \<longleftrightarrow> (j = n \<and> (\<exists>i < k - 1. a = b + PTR + psz + i * psz)) \<or> own a = Some (Free j)"
    "cut b psz k n own a = Some (Held j) \<longleftrightarrow> (a = b + PTR \<and> j = n) \<or> own a = Some (Held j)"
    using b c \<open>0 < psz\<close> by (auto simp: cut_def PTR_def)
qed

text \<open>The part of \<open>ordered_malloc\<close> that asks for a block.\<close>

definition new_block :: "nat \<Rightarrow> nat \<Rightarrow> nat \<Rightarrow> nat \<Rightarrow> ordp \<Rightarrow> (nat \<times> ordp) result" where
  "new_block b psz k n s =
     bind_res (or_put b (or_list s) (or_alloc b (PTR + k * psz) s)) (\<lambda>s1.
     bind_res (segregate (b + PTR + psz) psz (k - 1) n
         (s1\<lparr>or_list := b, or_new := or_new s1 + int (n * k), or_now := or_now s1 + int (n * (k - 1))\<rparr>)) (\<lambda>s2.
       Inr (b + PTR, s2)))"

lemma new_block_run:
  assumes k: "0 < k" and psz: "PTR \<le> psz" and n: "n < length (or_anpts s)" and z: "or_anpts s ! n = 0"
  shows "\<exists>m. new_block b psz k n s = Inr (b + PTR, s\<lparr>or_anpts := (or_anpts s)[n := if k = 1 then 0 else b + PTR + psz], or_list := b,
      or_blocks := (b, PTR + k * psz) # or_blocks s, or_mem := m, or_new := or_new s + int (n * k), or_now := or_now s + int (n * (k - 1))\<rparr>) \<and>
    m b = Some (or_list s) \<and>
    (\<forall>i < k - 1. m (b + PTR + psz + i * psz) = Some (if Suc i = k - 1 then 0 else b + PTR + psz + Suc i * psz)) \<and>
    (\<forall>q. q + PTR \<le> b \<or> b + (PTR + k * psz) \<le> q \<longrightarrow> m q = or_mem s q)"
proof -
  let ?z = "PTR + k * psz" and ?c = "b + PTR + psz"
  define s1 where "s1 = (or_alloc b ?z s)\<lparr>or_mem := or_store b (or_list s) (or_mem (or_alloc b ?z s))\<rparr>"
  define s2 where "s2 = s1\<lparr>or_list := b, or_new := or_new s + int (n * k), or_now := or_now s + int (n * (k - 1))\<rparr>"
  have f: "or_anpts s2 = or_anpts s" "or_blocks s2 = (b, ?z) # or_blocks s" "or_new s1 = or_new s" "or_now s1 = or_now s"
    by (simp_all add: s2_def s1_def or_alloc_def)
  have put: "or_put b (or_list s) (or_alloc b ?z s) = Inr s1" by (simp add: or_put_def or_ok_def or_alloc_def s1_def)
  have stop: "?c + (k - 1) * psz = b + ?z" using k by (cases k) simp_all
  have ok: "or_ok (?c + i * psz) s2" if "i < k - 1" for i
  proof -
    have "?c + i * psz + PTR \<le> b + ?z" using cell_in [OF that, of psz] stop psz by linarith
    then show ?thesis by (simp add: or_ok_def f)
  qed
  obtain m where m: "segregate ?c psz (k - 1) n s2 =
      Inr (s2\<lparr>or_mem := m, or_anpts := (or_anpts s)[n := if k - 1 = 0 then 0 else ?c]\<rparr>)"
      "\<And>i. i < k - 1 \<Longrightarrow> m (?c + i * psz) = Some (if Suc i = k - 1 then 0 else ?c + Suc i * psz)"
      "\<And>q. q + PTR \<le> ?c \<or> b + ?z \<le> q \<Longrightarrow> m q = or_mem s2 q"
    using segregate_ok [of "k - 1" ?c psz s2 n, OF ok psz, unfolded f stop z, OF _ n] by blast
  have mem: "or_mem s2 b = Some (or_list s)" "q + PTR \<le> b \<or> b + ?z \<le> q \<Longrightarrow> or_mem s2 q = or_mem s q" for q
    by (auto simp: s2_def s1_def or_store_def or_alloc_def PTR_def)
  have "m b = Some (or_list s)" using m(3) [of b] mem(1) psz by simp
  moreover have "m q = or_mem s q" if "q + PTR \<le> b \<or> b + ?z \<le> q" for q
    using m(3) [of q] mem(2) [OF that] that by auto
  moreover have "s2\<lparr>or_mem := m, or_anpts := (or_anpts s)[n := if k - 1 = 0 then 0 else ?c]\<rparr> =
      s\<lparr>or_anpts := (or_anpts s)[n := if k = 1 then 0 else ?c], or_list := b, or_blocks := (b, ?z) # or_blocks s, or_mem := m,
        or_new := or_new s + int (n * k), or_now := or_now s + int (n * (k - 1))\<rparr>"
    using k by (auto simp: s2_def s1_def or_alloc_def)
  then have "new_block b psz k n s = Inr (b + PTR, s\<lparr>or_anpts := (or_anpts s)[n := if k = 1 then 0 else ?c], or_list := b,
      or_blocks := (b, ?z) # or_blocks s, or_mem := m, or_new := or_new s + int (n * k), or_now := or_now s + int (n * (k - 1))\<rparr>)"
    using m(1) unfolding new_block_def put bind_res_simps f s2_def [symmetric] by (simp only: bind_res_simps)
  ultimately show ?thesis using m(2) by blast
qed

lemma new_block_ok:
  assumes rep: "or_rep os own fl hs s" and k: "0 < k" and psz: "PTR \<le> psz" "psz = n * os" and n: "n < length (or_anpts s)"
    and z: "or_anpts s ! n = 0" and b: "b \<noteq> 0" and ap: "apart b (PTR + k * psz) (or_blocks s)"
  shows "\<exists>t. new_block b psz k n s = Inr (b + PTR, t) \<and> length (or_anpts t) = length (or_anpts s) \<and>
    or_rep os (cut b psz k n own) (fl(n := map (\<lambda>i. b + PTR + psz + i * psz) [0..<k - 1])) (b # hs) t \<and>
    or_new t = or_new s + int (n * k) \<and> or_now t = or_now s + int (n * (k - 1)) \<and> fl n = []"
proof -
  have l: "layout os own (or_blocks s)" and bl: "blocks_rep own hs s" and f: "frees_rep own fl s" using rep by (simp_all add: or_rep_def)
  let ?c = "b + PTR + psz"
  obtain m where m: "new_block b psz k n s = Inr (b + PTR, s\<lparr>or_anpts := (or_anpts s)[n := if k = 1 then 0 else ?c], or_list := b,
      or_blocks := (b, PTR + k * psz) # or_blocks s, or_mem := m, or_new := or_new s + int (n * k), or_now := or_now s + int (n * (k - 1))\<rparr>)"
      "m b = Some (or_list s)" "\<And>i. i < k - 1 \<Longrightarrow> m (?c + i * psz) = Some (if Suc i = k - 1 then 0 else ?c + Suc i * psz)"
      "\<And>q. q + PTR \<le> b \<or> b + (PTR + k * psz) \<le> q \<Longrightarrow> m q = or_mem s q"
    using new_block_run [OF k psz(1) n z, of b] by blast
  define t where "t = s\<lparr>or_anpts := (or_anpts s)[n := if k = 1 then 0 else ?c], or_list := b,
      or_blocks := (b, PTR + k * psz) # or_blocks s, or_mem := m, or_new := or_new s + int (n * k), or_now := or_now s + int (n * (k - 1))\<rparr>"
  let ?own = "cut b psz k n own" and ?cells = "map (\<lambda>i. ?c + i * psz) [0..<k - 1]"
  have far: "b + (PTR + k * psz) \<le> a \<or> a + PTR \<le> b" if "own a = Some w" for a w
    using apart_own [OF l ap that] layoutD(2) [OF l that] by linarith
  note cut = cut_owner [OF k psz(1) far, where n = n]
  have ch: "chain m h xs = chain (or_mem s) h xs" if "\<And>a. a \<in> set xs \<Longrightarrow> \<exists>w. own a = Some w" for h xs
    by (rule chain_cong) (use that far m(4) in blast)
  have nb: "own b = None" using far [of b] psz(1) k by (cases "own b") (auto simp: PTR_def)
  have "chain m (or_list s) hs" using ch [of hs] bl by (auto simp: blocks_rep_def)
  moreover have "b \<notin> set hs" using bl nb by (auto simp: blocks_rep_def)
  ultimately have "blocks_rep ?own (b # hs) t" using bl b m(2) by (auto simp: blocks_rep_def t_def cut(1))
  moreover have "layout os ?own (or_blocks t)" using layout_cut [OF l ap b k psz] by (simp add: t_def)
  moreover have e: "fl n = []" using f n z chain_head [of "or_mem s" "or_anpts s ! n" "fl n"] by (simp add: frees_rep_def)
  then have no: "own a \<noteq> Some (Free n)" for a using f by (metis (mono_tags, lifting) empty_iff frees_rep_def list.set(1) mem_Collect_eq)
  have "0 < ?c" "0 < psz" using b psz(1) by (simp_all add: PTR_def)
  have "distinct ?cells" using \<open>0 < psz\<close> by (simp add: distinct_map inj_on_def)
  moreover have "chain m (or_anpts t ! n) ?cells"
    using chain_cells [of "k - 1" m ?c psz 0, OF m(3) \<open>0 < ?c\<close>] n k by (cases "k = 1") (simp_all add: t_def)
  moreover have "chain m h (fl j) = chain (or_mem s) h (fl j)" for h j by (rule ch) (use f in \<open>auto simp: frees_rep_def\<close>)
  ultimately have "frees_rep ?own (fl(n := ?cells)) t" using f n no
    by (auto simp: frees_rep_def t_def cut(2) nth_list_update)
  then show ?thesis using m(1) \<open>blocks_rep ?own (b # hs) t\<close> \<open>layout os ?own (or_blocks t)\<close> e
    by (intro exI [of _ t]) (simp add: or_rep_def t_def)
qed

end
