(* ===== verification/PoolRun.thy ===== *)
theory PoolRun
  imports PoolAreas
begin

text \<open>
  Runs of a client of the ordered pool, which may write anything into what it holds.
\<close>

declare split_paired_All [simp del] split_paired_Ex [simp del]

section \<open>A client\<close>

text \<open>
  \<open>OMalloc n k\<close>, unless an assertion refuses it; \<open>OFree i\<close> gives back the i-th area the client holds, and
  \<open>OWrite i f\<close> overwrites it. The areas it holds, with their sizes, are the second component.
\<close>

datatype ord_call = OMalloc nat nat | OFree nat | OWrite nat "nat \<rightharpoonup> nat"

definition or_write :: "nat \<Rightarrow> nat \<Rightarrow> (nat \<rightharpoonup> nat) \<Rightarrow> ordp \<Rightarrow> ordp" where
  "or_write a l f s = s\<lparr>or_mem := (\<lambda>p. if p < a + l \<and> a < p + PTR then f p else or_mem s p)\<rparr>"

fun or_step :: "((nat \<times> nat) list \<Rightarrow> nat \<Rightarrow> nat) \<Rightarrow> nat \<Rightarrow> ord_call \<Rightarrow> ordp \<times> (nat \<times> nat) list \<Rightarrow>
    (nat option \<times> ordp \<times> (nat \<times> nat) list) result" where
  "or_step fr os (OMalloc n k) (s, held) =
     (if 0 < n \<and> 0 < k \<and> k < UINT_MAX div (n * os)
      then bind_res (ordered_malloc fr os n k s) (\<lambda>(p, s'). Inr (Some p, s', held @ [(p, n)]))
      else Inr (None, s, held))"
| "or_step fr os (OFree i) (s, held) =
     (if i < length held
      then bind_res (ordered_free (fst (held ! i)) (snd (held ! i)) s) (\<lambda>s'. Inr (None, s', drop_nth i held))
      else Inr (None, s, held))"
| "or_step fr os (OWrite i f) (s, held) =
     (if i < length held
      then Inr (None, or_write (fst (held ! i)) (snd (held ! i) * os) f s, held) else Inr (None, s, held))"

text \<open>What \<open>operator new\<close> promises.\<close>

definition or_fresh :: "((nat \<times> nat) list \<Rightarrow> nat \<Rightarrow> nat) \<Rightarrow> bool" where
  "or_fresh fr \<longleftrightarrow> (\<forall>blocks z. fr blocks z \<noteq> 0 \<and> apart (fr blocks z) z blocks)"

section \<open>Counters\<close>

definition free_units :: "(nat \<Rightarrow> nat list) \<Rightarrow> nat \<Rightarrow> int" where
  "free_units fl N = (\<Sum>n < N. int (n * length (fl n)))"

lemma free_units_upd:
  assumes "n < N"
  shows "free_units (fl(n := xs)) N = free_units fl N - int (n * length (fl n)) + int (n * length xs)"
proof -
  have "(\<Sum>i \<in> {..<N} - {n}. int (i * length ((fl(n := xs)) i))) = (\<Sum>i \<in> {..<N} - {n}. int (i * length (fl i)))"
    by (rule sum.cong) auto
  then show ?thesis using assms sum.remove [of "{..<N}" n "\<lambda>i. int (i * length ((fl(n := xs)) i))"]
      sum.remove [of "{..<N}" n "\<lambda>i. int (i * length (fl i))"] by (simp add: free_units_def)
qed

lemma free_units_more:
  assumes "N \<le> M" "\<forall>n \<ge> N. fl n = []"
  shows "free_units fl M = free_units fl N"
  unfolding free_units_def by (rule sum.mono_neutral_right) (use assms in auto)

section \<open>The invariant\<close>

definition held_rep :: "(nat \<rightharpoonup> owner) \<Rightarrow> nat \<Rightarrow> (nat \<times> nat) list \<Rightarrow> bool" where
  "held_rep own N held \<longleftrightarrow> distinct held \<and> (\<forall>a n. (a, n) \<in> set held \<longleftrightarrow> own a = Some (Held n)) \<and> (\<forall>(a, n) \<in> set held. n < N)"

definition or_inv :: "nat \<Rightarrow> ordp \<times> (nat \<times> nat) list \<Rightarrow> bool" where
  "or_inv os = (\<lambda>(s, held). \<exists>own fl hs. or_rep os own fl hs s \<and> held_rep own (length (or_anpts s)) held \<and>
     or_now s = free_units fl (length (or_anpts s)) \<and> or_new s = or_now s + int (sum_list (map snd held)))"

lemma drop_nth_sum: "i < length xs \<Longrightarrow> sum_list (map snd (xs :: (nat \<times> nat) list)) = snd (xs ! i) + sum_list (map snd (drop_nth i xs))"
proof -
  assume i: "i < length xs"
  have "sum_list (map snd xs) = sum_list (map snd (take i xs @ xs ! i # drop (Suc i) xs))" using id_take_nth_drop [OF i] by metis
  then show ?thesis by (simp add: drop_nth_def)
qed

lemma or_step_free:
  assumes inv: "or_inv os (s, held)" and i: "i < length held"
  shows "\<exists>t. ordered_free (fst (held ! i)) (snd (held ! i)) s = Inr t \<and> or_inv os (t, drop_nth i held)"
proof -
  obtain own fl hs where r: "or_rep os own fl hs s" "held_rep own (length (or_anpts s)) held"
      "or_now s = free_units fl (length (or_anpts s))" "or_new s = or_now s + int (sum_list (map snd held))"
    using inv by (auto simp: or_inv_def)
  obtain p n where pn: "held ! i = (p, n)" by (cases "held ! i")
  define rest where "rest = drop_nth i held"
  have h: "set held = insert (p, n) (set rest)" "(p, n) \<notin> set rest" "distinct rest"
    using drop_nth_split [OF i] r(2) pn by (simp_all add: held_rep_def rest_def)
  have p: "own p = Some (Held n)" "n < length (or_anpts s)" using r(2) h(1) by (fastforce simp: held_rep_def)+
  let ?fl = "fl(n := p # fl n)"
  obtain m where m: "ordered_free p n s = Inr (s\<lparr>or_mem := m, or_anpts := (or_anpts s)[n := p], or_now := or_now s + int n\<rparr>)"
      "or_rep os (own(p \<mapsto> Free n)) ?fl hs (s\<lparr>or_mem := m, or_anpts := (or_anpts s)[n := p], or_now := or_now s + int n\<rparr>)"
    using ordered_free_ok [OF r(1) p] by blast
  have "(a, k) \<in> set rest \<longleftrightarrow> (own(p \<mapsto> Free n)) a = Some (Held k)" for a k
  proof -
    have "(a, k) \<in> insert (p, n) (set rest) \<longleftrightarrow> own a = Some (Held k)" using r(2) h(1) by (simp add: held_rep_def)
    then show ?thesis using h(2) p(1) by auto
  qed
  moreover have "\<forall>(a, k) \<in> set rest. k < length (or_anpts s)" using r(2) h(1) by (auto simp: held_rep_def)
  ultimately have "held_rep (own(p \<mapsto> Free n)) (length (or_anpts s)) rest" using h(3) by (simp add: held_rep_def)
  moreover have "or_now s + int n = free_units ?fl (length (or_anpts s))" 
    using free_units_upd [OF p(2), of fl "p # fl n"] r(3) by (simp add: algebra_simps)
  moreover have "sum_list (map snd held) = n + sum_list (map snd rest)" using drop_nth_sum [OF i] pn by (simp add: rest_def)
  ultimately show ?thesis using m r(4) unfolding pn fst_conv snd_conv rest_def [symmetric]
    by (intro exI [of _ "s\<lparr>or_mem := m, or_anpts := (or_anpts s)[n := p], or_now := or_now s + int n\<rparr>"]) (auto simp: or_inv_def)
qed

lemma or_step_write:
  assumes inv: "or_inv os (s, held)" and i: "i < length held"
  shows "or_inv os (or_write (fst (held ! i)) (snd (held ! i) * os) f s, held)"
proof -
  obtain own fl hs where r: "or_rep os own fl hs s" "held_rep own (length (or_anpts s)) held"
      "or_now s = free_units fl (length (or_anpts s))" "or_new s = or_now s + int (sum_list (map snd held))"
    using inv by (auto simp: or_inv_def)
  obtain p n where pn: "held ! i = (p, n)" by (cases "held ! i")
  have p: "own p = Some (Held n)" using r(2) i pn by (metis held_rep_def nth_mem)
  have l: "layout os own (or_blocks s)" using r(1) by (simp add: or_rep_def)
  have "or_rep os own fl hs (s\<lparr>or_mem := (\<lambda>q. if q < p + n * os \<and> p < q + PTR then f q else or_mem s q)\<rparr>)"
  proof (rule rep_mem [OF r(1)])
    fix a
    assume "own a = Some Header \<or> (\<exists>n. own a = Some (Free n))"
    then have "\<exists>w. own a = Some w \<and> a \<noteq> p" using p by auto
    then obtain w where w: "own a = Some w" "a \<noteq> p" by blast
    have "p + n * os \<le> a \<or> a + PTR \<le> p"
    proof -
      have "p + olen os (Held n) \<le> a \<or> a + olen os w \<le> p" using l p w unfolding layout_def by blast
      then show ?thesis using layoutD(2) [OF l w(1)] by (auto simp: olen_def)
    qed
    then show "(if a < p + n * os \<and> p < a + PTR then f a else or_mem s a) = or_mem s a" by auto
  qed
  then show ?thesis using r(2-4) pn by (auto simp: or_inv_def or_write_def)
qed


lemma ordered_malloc_eq:
  assumes "0 < n" "0 < k" "k < UINT_MAX div (n * os)"
  shows "ordered_malloc fr os n k s =
    (let t = or_room n s; p = or_anpts t ! n
     in if p \<noteq> 0 then bind_res (or_get p t) (\<lambda>v. Inr (p, t\<lparr>or_now := or_now t - int n, or_anpts := (or_anpts t)[n := v]\<rparr>))
        else new_block (fr (or_blocks t) (PTR + k * (n * os))) (n * os) k n t)"
  using assms by (simp add: ordered_malloc_def new_block_def Let_def)

lemma held_add:
  assumes "held_rep own N held" "\<And>a k. own' a = Some (Held k) \<longleftrightarrow> (a = p \<and> k = n) \<or> own a = Some (Held k)"
    and "own p \<noteq> Some (Held n)" "n < M" "N \<le> M"
  shows "held_rep own' M (held @ [(p, n)])"
  using assms by (auto simp: held_rep_def)

lemma or_step_malloc:
  assumes fr: "or_fresh fr" and os: "PTR \<le> os" and inv: "or_inv os (s, held)" and c: "0 < n" "0 < k" "k < UINT_MAX div (n * os)"
  shows "\<exists>p t. ordered_malloc fr os n k s = Inr (p, t) \<and> or_inv os (t, held @ [(p, n)])"
proof -
  obtain own fl hs where r: "or_rep os own fl hs s" "held_rep own (length (or_anpts s)) held"
      "or_now s = free_units fl (length (or_anpts s))" "or_new s = or_now s + int (sum_list (map snd held))"
    using inv by (auto simp: or_inv_def)
  define t where "t = or_room n s"
  obtain xs where xs: "t = s\<lparr>or_anpts := or_anpts s @ xs\<rparr>" using or_room_ok(4) [OF r(1), of n] unfolding t_def by blast
  note room = or_room_ok(1-3) [OF r(1), of n, folded t_def]
  let ?N = "length (or_anpts t)"
  have f: "or_now t = free_units fl ?N" "or_new t = or_now t + int (sum_list (map snd held))"
    using free_units_more [OF room(3), of fl] r by (simp_all add: xs or_rep_def frees_rep_def)
  have fr0: "frees_rep own fl t" using room(1) by (simp add: or_rep_def)
  have run: "ordered_malloc fr os n k s =
    (if or_anpts t ! n \<noteq> 0 then bind_res (or_get (or_anpts t ! n) t) (\<lambda>v. Inr (or_anpts t ! n, t\<lparr>or_now := or_now t - int n, or_anpts := (or_anpts t)[n := v]\<rparr>))
     else new_block (fr (or_blocks t) (PTR + k * (n * os))) (n * os) k n t)"
    unfolding ordered_malloc_eq [OF c] t_def Let_def ..
  show ?thesis
  proof (cases "or_anpts t ! n = 0")
    case False
    obtain p v rest where p: "or_anpts t ! n = p" "or_get p t = Inr v" "own p = Some (Free n)" "fl n = p # rest"
        "or_rep os (own(p \<mapsto> Held n)) (fl(n := rest)) hs (t\<lparr>or_now := or_now t - int n, or_anpts := (or_anpts t)[n := v]\<rparr>)"
      using reuse_ok [OF room(1,2) False] by blast
    have "held_rep (own(p \<mapsto> Held n)) ?N (held @ [(p, n)])"
      by (rule held_add [OF r(2) _ _ room(2,3)]) (use p(3) in auto)
    moreover have "or_now t - int n = free_units (fl(n := rest)) ?N"
      using free_units_upd [OF room(2), of fl rest] f(1) p(4) by (simp add: algebra_simps)
    ultimately have "or_inv os (t\<lparr>or_now := or_now t - int n, or_anpts := (or_anpts t)[n := v]\<rparr>, held @ [(p, n)])"
      using p(5) f(2) by (auto simp: or_inv_def)
    then show ?thesis using False p(1,2) by (simp add: run)
  next
    case True
    let ?b = "fr (or_blocks t) (PTR + k * (n * os))"
    have b: "?b \<noteq> 0" "apart ?b (PTR + k * (n * os)) (or_blocks t)" using fr by (simp_all add: or_fresh_def)
    have psz: "PTR \<le> n * os" using os c(1) by (cases n) (auto intro: trans_le_add1)
    obtain u where u: "new_block ?b (n * os) k n t = Inr (?b + PTR, u)" "length (or_anpts u) = ?N"
        "or_rep os (cut ?b (n * os) k n own) (fl(n := map (\<lambda>i. ?b + PTR + n * os + i * (n * os)) [0..<k - 1])) (?b # hs) u"
        "or_new u = or_new t + int (n * k)" "or_now u = or_now t + int (n * (k - 1))" "fl n = []"
      using new_block_ok [OF room(1) c(2) psz refl room(2) True b] by blast
    have l: "layout os own (or_blocks t)" using room(1) by (simp add: or_rep_def)
    have far: "?b + (PTR + k * (n * os)) \<le> a \<or> a + PTR \<le> ?b" if "own a = Some w" for a w
      using apart_own [OF l b(2) that] layoutD(2) [OF l that] by linarith
    have "0 < k * (n * os)" using os c(1,2) by (simp add: PTR_def)
    then have none: "own (?b + PTR) = None" using far [of "?b + PTR"] by (cases "own (?b + PTR)") (auto simp: PTR_def)
    have "held_rep (cut ?b (n * os) k n own) ?N (held @ [(?b + PTR, n)])"
    proof (rule held_add [OF r(2) _ _ room(2,3)])
      show "cut ?b (n * os) k n own a = Some (Held j) \<longleftrightarrow> (a = ?b + PTR \<and> j = n) \<or> own a = Some (Held j)" for a j
        by (rule cut_owner(3) [OF c(2) psz]) (use far in blast)
    qed (simp add: none)
    moreover have "or_now u = free_units (fl(n := map (\<lambda>i. ?b + PTR + n * os + i * (n * os)) [0..<k - 1])) ?N"
      using free_units_upd [OF room(2), of fl] f(1) u(5,6) by simp
    moreover have "int (n * k) = int (n * (k - 1)) + int n" using c(2) by (cases k) simp_all
    ultimately have "or_inv os (u, held @ [(?b + PTR, n)])" using u(2-4) u(5) f(2) unfolding or_inv_def prod.case
      by (intro exI conjI) (assumption | simp)+
    then show ?thesis using True u(1) by (simp add: run)
  qed
qed

section \<open>Clearing\<close>

lemma clear_all:
  assumes "chain (or_mem s) (or_list s) hs" "distinct hs" "distinct (map fst (or_blocks s))" "fst ` set (or_blocks s) = set hs"
    and "\<forall>(b, z) \<in> set (or_blocks s). PTR \<le> z"
  shows "\<exists>t. or_clear_loop s = Inr t \<and> or_blocks t = []"
  using assms
proof (induction hs arbitrary: s)
  case Nil
  then show ?case by (subst or_clear_loop.simps) simp
next
  case (Cons h hs)
  then obtain v where v: "or_list s = h" "h \<noteq> 0" "or_mem s h = Some v" "chain (or_mem s) v hs" by auto
  obtain z where z: "(h, z) \<in> set (or_blocks s)" using Cons.prems(4) by force
  then have "or_ok h s" using Cons.prems(5) by (fastforce simp: or_ok_def)
  then have get: "or_get h s = Inr v" using v(3) by (simp add: or_get_def)
  obtain i where i: "first_index h (map fst (or_blocks s)) = Some i"
  proof -
    have "h \<in> set (map fst (or_blocks s))" using z by (metis fst_conv image_eqI set_map)
    then have "first_index h (map fst (or_blocks s)) \<noteq> None" by (simp add: first_index_None)
    then show ?thesis using that by blast
  qed
  have il: "i < length (or_blocks s)" "fst (or_blocks s ! i) = h" using first_index_SomeD [OF i] by auto
  let ?bs = "drop_nth i (or_blocks s)" and ?t = "s\<lparr>or_list := v, or_blocks := drop_nth i (or_blocks s)\<rparr>"
  have del: "or_delete h (s\<lparr>or_list := v\<rparr>) = Inr ?t" using i by (simp add: or_delete_def drop_nth_def)
  have d: "distinct (map fst (take i (or_blocks s) @ or_blocks s ! i # drop (Suc i) (or_blocks s)))"
    using Cons.prems(3) id_take_nth_drop [OF il(1)] by metis
  then have d': "distinct (map fst ?bs)" "h \<notin> fst ` set ?bs" using il(2) by (auto simp: drop_nth_def)
  have "set (or_blocks s) = insert (or_blocks s ! i) (set ?bs)" by (rule drop_nth_split(1) [OF il(1)])
  then have "insert h (fst ` set ?bs) = insert h (set hs)" using Cons.prems(4) il(2) by (metis image_insert list.simps(15))
  then have "fst ` set ?bs = set hs" using d'(2) Cons.prems(2) by (metis distinct.simps(2) insert_ident)
  moreover have "\<forall>(b, z) \<in> set ?bs. PTR \<le> z" using drop_nth_split(3) [OF il(1)] Cons.prems(5) by blast
  ultimately have "\<exists>u. or_clear_loop ?t = Inr u \<and> or_blocks u = []"
    using Cons.prems(2) v(4) d'(1) by (intro Cons.IH) simp_all
  then show ?case using get del v(1,2) by (subst or_clear_loop.simps) simp
qed

lemma areas_clear_ok:
  assumes "or_inv os (s, held)"
  shows "\<exists>t. or_clear s = Inr t \<and> or_blocks t = []"
proof -
  obtain own fl hs where "or_rep os own fl hs s" using assms by (auto simp: or_inv_def)
  then have "chain (or_mem s) (or_list s) hs" "distinct hs" "distinct (map fst (or_blocks s))" "fst ` set (or_blocks s) = set hs"
    "\<forall>(b, z) \<in> set (or_blocks s). PTR \<le> z" by (simp_all add: or_rep_def blocks_rep_def)
  then show ?thesis using clear_all [of "s\<lparr>or_anpts := []\<rparr>" hs] by (simp add: or_clear_def)
qed


section \<open>Runs\<close>

definition or_good :: "((nat \<times> nat) list \<Rightarrow> nat \<Rightarrow> nat) \<Rightarrow> nat \<Rightarrow> ordp \<times> (nat \<times> nat) list \<Rightarrow> bool" where
  "or_good fr os x \<longleftrightarrow> or_fresh fr \<and> PTR \<le> os \<and> or_inv os x"

lemma or_step_ok:
  assumes "or_good fr os x"
  shows "\<exists>r y. or_step fr os c x = Inr (r, y) \<and> or_good fr os y"
proof -
  obtain s held where x: "x = (s, held)" by (cases x)
  have a: "or_fresh fr" "PTR \<le> os" "or_inv os (s, held)" using assms by (simp_all add: or_good_def x)
  show ?thesis
  proof (cases c)
    case (OMalloc n k)
    then show ?thesis using or_step_malloc [OF a, of n k] a by (fastforce simp: x or_good_def)
  next
    case (OFree i)
    then show ?thesis using or_step_free [OF a(3), of i] a by (fastforce simp: x or_good_def)
  next
    case (OWrite i f)
    then show ?thesis using or_step_write [OF a(3), of i f] a by (simp add: x or_good_def)
  qed
qed

interpretation areas: safe_steps "or_good fr os" "or_step fr os"
  using or_step_ok by unfold_locales blast

lemma or_init_inv: "or_inv os (or_init, [])"
proof -
  have "or_rep os Map.empty (\<lambda>n. []) [] or_init"
    by (simp add: or_rep_def layout_def blocks_rep_def frees_rep_def or_init_def)
  then show ?thesis unfolding or_inv_def prod.case
    by (intro exI conjI) (assumption | simp add: held_rep_def free_units_def or_init_def)+
qed

lemma held_areas:
  assumes "or_inv os (s, held)"
  shows "i < length held \<Longrightarrow> within (fst (held ! i)) (snd (held ! i) * os) (or_blocks s)"
    "i < length held \<Longrightarrow> j < length held \<Longrightarrow> i \<noteq> j \<Longrightarrow>
       fst (held ! i) + snd (held ! i) * os \<le> fst (held ! j) \<or> fst (held ! j) + snd (held ! j) * os \<le> fst (held ! i)"
proof -
  obtain own fl hs where r: "or_rep os own fl hs s" "held_rep own (length (or_anpts s)) held" using assms by (auto simp: or_inv_def)
  have l: "layout os own (or_blocks s)" using r(1) by (simp add: or_rep_def)
  have own: "own (fst (held ! i)) = Some (Held (snd (held ! i)))" if "i < length held" for i
    using r(2) nth_mem [OF that] by (metis held_rep_def prod.collapse)
  show "within (fst (held ! i)) (snd (held ! i) * os) (or_blocks s)" if "i < length held"
    using layoutD(3) [OF l own [OF that]] by (simp add: olen_def)
  show "fst (held ! i) + snd (held ! i) * os \<le> fst (held ! j) \<or> fst (held ! j) + snd (held ! j) * os \<le> fst (held ! i)"
    if ij: "i < length held" "j < length held" "i \<noteq> j"
  proof -
    have "held ! i \<noteq> held ! j" using r(2) ij by (simp add: held_rep_def nth_eq_iff_index_eq)
    then have "fst (held ! i) \<noteq> fst (held ! j)" using own [OF ij(1)] own [OF ij(2)] by (auto simp: prod_eq_iff)
    then have "fst (held ! i) + olen os (Held (snd (held ! i))) \<le> fst (held ! j) \<or>
        fst (held ! j) + olen os (Held (snd (held ! j))) \<le> fst (held ! i)"
      using l own [OF ij(1)] own [OF ij(2)] unfolding layout_def by blast
    then show ?thesis by (simp add: olen_def)
  qed
qed

text \<open>
  C24: a client of the ordered pool asks for areas, gives them back and writes what it likes into those
  it holds, in any order. As long as \<open>operator new\<close> returns blocks that overlap no other, nothing fails,
  what it holds lies inside allocated blocks and never overlaps, the counters add up, and clearing
  the pool frees every block exactly once.
\<close>

theorem ordered_pool_areas:
  assumes "8 \<le> os" "\<forall>blocks z. fr blocks z \<noteq> 0 \<and> apart (fr blocks z) z blocks"
  shows "\<exists>rs s held. run_ops (or_step fr os) cs (or_init, []) = Inr (rs, s, held) \<and>
    (\<forall>i < length held. within (fst (held ! i)) (snd (held ! i) * os) (or_blocks s)) \<and>
    (\<forall>i < length held. \<forall>j < length held. i \<noteq> j \<longrightarrow>
       fst (held ! i) + snd (held ! i) * os \<le> fst (held ! j) \<or> fst (held ! j) + snd (held ! j) * os \<le> fst (held ! i)) \<and>
    or_new s = or_now s + int (sum_list (map snd held)) \<and> (\<exists>t. or_clear s = Inr t \<and> or_blocks t = [])"
proof -
  have "or_good fr os (or_init, [])" using assms or_init_inv by (simp add: or_good_def or_fresh_def PTR_def)
  then obtain rs y where y: "run_ops (or_step fr os) cs (or_init, []) = Inr (rs, y)" "or_good fr os y" using areas.run_safe by blast
  obtain s held where sh: "y = (s, held)" by (cases y)
  have inv: "or_inv os (s, held)" using y(2) by (simp add: or_good_def sh)
  then have "or_new s = or_now s + int (sum_list (map snd held))" by (auto simp: or_inv_def)
  then show ?thesis using y(1) held_areas [OF inv] areas_clear_ok [OF inv] unfolding sh by blast
qed

definition bump :: "(nat \<times> nat) list \<Rightarrow> nat \<Rightarrow> nat" where
  "bump blocks z = Suc (sum_list (map (\<lambda>(b, y). b + y) blocks))"

lemma bump_fresh: "bump blocks z \<noteq> 0 \<and> apart (bump blocks z) z blocks"
proof -
  have "b + y \<le> sum_list (map (\<lambda>(b, y). b + y) blocks)" if "(b, y) \<in> set blocks" for b y
    using that by (induction blocks) auto
  then show ?thesis by (fastforce simp: bump_def apart_def)
qed

lemma ordered_pool_areas_witness:
  "\<exists>rs s held. run_ops (or_step bump 16) [OMalloc 2 3, OMalloc 2 3, OWrite 0 (\<lambda>p. Some p), OMalloc 1 1, OFree 0, OMalloc 2 4]
     (or_init, []) = Inr (rs, s, held) \<and> (\<exists>t. or_clear s = Inr t \<and> or_blocks t = [])"
  using ordered_pool_areas [of 16 bump "[OMalloc 2 3, OMalloc 2 3, OWrite 0 (\<lambda>p. Some p), OMalloc 1 1, OFree 0, OMalloc 2 4]"]
    bump_fresh by auto

text \<open>
  The assertion of \<open>ordered_free\<close> admits the index one past the end of the array of free lists, as for a
  pool that has allocated nothing and a size of 0.
\<close>

lemma ordered_free_overruns: "p \<noteq> 0 \<Longrightarrow> ordered_free p (length (or_anpts s)) s = Inl OutOfRange"
  by (simp add: ordered_free_def or_head_def)

end
