(* ===== verification/NetMsg.thy ===== *)
theory NetMsg
  imports LuaBinCorrect
begin

text \<open>
  The packet headers of \<open>net/net_header.hpp\<close>: packed structs in little-endian byte order.
  A header is read through a pointer into the receive buffer: \<open>mem\<close> is the memory that is
  readable from that pointer on, and a read outside it is a fault.
\<close>

definition MAX_PACKET_LEN :: nat where "MAX_PACKET_LEN = 65535"
definition MAX_CLT_CAST :: int where "MAX_CLT_CAST = 256"

text \<open>\<open>StreamPacketType\<close>, \<open>clt_multicast_t\<close>, \<open>CmdCfg::MK_DYNAMIC\<close>.\<close>

definition SPT_CSPK :: "16 word" where "SPT_CSPK = 1"
definition SPT_SCPK :: "16 word" where "SPT_SCPK = 2"
definition SPT_SSPK :: "16 word" where "SPT_SSPK = 3"
definition SPT_RPCS :: "16 word" where "SPT_RPCS = 4"
definition SPT_RPCR :: "16 word" where "SPT_RPCR = 5"
definition SPT_CBCP :: "16 word" where "SPT_CBCP = 6"
definition CLT_MC_OWNER :: int where "CLT_MC_OWNER = 1"
definition MK_DYNAMIC :: int where "MK_DYNAMIC = 2"

text \<open>The sizes of the packed structs.\<close>

definition base_size :: nat where "base_size = 4"
definition c2s_size :: nat where "c2s_size = 4"
definition s2c_size :: nat where "s2c_size = 6"
definition s2s_size :: nat where "s2s_size = 14"

named_theorems msg_defs \<open>constants of the packet format\<close>

lemmas [msg_defs] = MAX_PACKET_LEN_def MAX_CLT_CAST_def SPT_CSPK_def SPT_SCPK_def SPT_SSPK_def SPT_RPCS_def
  SPT_RPCR_def SPT_CBCP_def CLT_MC_OWNER_def MK_DYNAMIC_def base_size_def c2s_size_def s2c_size_def s2s_size_def

text \<open>Conversions to \<open>int32_t\<close> and to \<open>uint16_t\<close>.\<close>

definition to_i32 :: "int \<Rightarrow> int" where
  "to_i32 i = sint (word_of_int i :: 32 word)"

definition le16 :: "16 word \<Rightarrow> 8 word list" where
  "le16 w = le_bytes 2 (unat w)"

definition le32 :: "int \<Rightarrow> 8 word list" where
  "le32 i = le_bytes 4 (unat (word_of_int i :: 32 word))"

section \<open>Writing headers\<close>

text \<open>\<open>SET_HEADER_LENGTH\<close>: the length to store, or None where the macro runs \<open>SET_FAIL\<close>.\<close>

definition header_length :: "nat \<Rightarrow> nat \<Rightarrow> 16 word option" where
  "header_length hsize l =
     (if sint (word_of_nat l :: 32 word) < 0 then None
      else if hsize + l > MAX_PACKET_LEN then None else Some (word_of_nat (hsize + l)))"

definition c2s_header :: "16 word \<Rightarrow> 16 word \<Rightarrow> 8 word list" where
  "c2s_header len cmd = le16 len @ le16 cmd"

definition s2c_header :: "16 word \<Rightarrow> 16 word \<Rightarrow> 16 word \<Rightarrow> 8 word list" where
  "s2c_header len cmd ecode = le16 len @ le16 cmd @ le16 ecode"

definition s2s_header :: "16 word \<Rightarrow> 16 word \<Rightarrow> 16 word \<Rightarrow> 16 word \<Rightarrow> 16 word \<Rightarrow> int \<Rightarrow> 8 word list" where
  "s2s_header len cmd ecode packet codec own =
     le16 len @ le16 cmd @ le16 ecode @ le16 packet @ le16 codec @ le32 own"

section \<open>Reading headers\<close>

definition read_mem :: "nat \<Rightarrow> nat \<Rightarrow> 8 word list \<Rightarrow> 8 word list result" where
  "read_mem off n mem = (if off + n \<le> length mem then Inr (take n (drop off mem)) else Inl OutOfRange)"

definition read_u16 :: "nat \<Rightarrow> 8 word list \<Rightarrow> 16 word result" where
  "read_u16 off mem = bind_res (read_mem off 2 mem) (\<lambda>bs. Inr (word_of_nat (of_le bs)))"

definition read_i32 :: "nat \<Rightarrow> 8 word list \<Rightarrow> int result" where
  "read_i32 off mem = bind_res (read_mem off 4 mem) (\<lambda>bs. Inr (sint (word_of_nat (of_le bs) :: 32 word)))"

text \<open>\<open>PACKET_BUFFER_LEN\<close>: a \<open>size_t\<close>, which wraps when the length field is below the header.\<close>

definition packet_buffer_len :: "nat \<Rightarrow> 16 word \<Rightarrow> nat" where
  "packet_buffer_len hsize len = unat (word_of_nat (unat len) - word_of_nat hsize :: 64 word)"

section \<open>What is written can be read\<close>

lemma le16_length [simp]: "length (le16 w) = 2"
  by (simp add: le16_def)

lemma le32_length [simp]: "length (le32 i) = 4"
  by (simp add: le32_def)

lemma of_le_le16 [simp]: "of_le (le16 w) = unat w"
proof -
  have "unat w < 2 ^ 16" using unsigned_less [where w = w and ?'a = nat] by simp
  then show ?thesis by (simp add: le16_def of_le_bytes)
qed

lemma of_le_le32 [simp]: "of_le (le32 i) = unat (word_of_int i :: 32 word)"
proof -
  have "unat (word_of_int i :: 32 word) < 2 ^ 32"
    using unsigned_less [where w = "word_of_int i :: 32 word" and ?'a = nat] by simp
  then show ?thesis by (simp add: le32_def of_le_bytes)
qed

lemma header_length_Some:
  "header_length hsize l = Some len \<longleftrightarrow> hsize + l \<le> MAX_PACKET_LEN \<and> len = word_of_nat (hsize + l)"
proof -
  have "\<not> sint (word_of_nat l :: 32 word) < 0" if "l \<le> MAX_PACKET_LEN"
  proof -
    have "l mod 2 ^ 32 = l" "l < 2 ^ 31" using that by (simp_all add: MAX_PACKET_LEN_def)
    then have "uint (word_of_nat l :: 32 word) = int l" "int l < 2 ^ 31"
      by (simp_all add: unsigned_of_nat take_bit_nat_def)
    then have "sint (word_of_nat l :: 32 word) = int l"
      by (simp add: sint_uint signed_take_bit_int_eq_self_iff)
    then show ?thesis by simp
  qed
  then show ?thesis by (auto simp: header_length_def)
qed

lemma read_mem_at:
  "off = length pre \<Longrightarrow> n = length bs \<Longrightarrow> read_mem off n (pre @ bs @ post) = Inr bs"
  by (simp add: read_mem_def)

lemma read_u16_at: "off = length pre \<Longrightarrow> read_u16 off (pre @ le16 w @ post) = Inr w"
  using read_mem_at [of off pre 2 "le16 w" post] by (simp add: read_u16_def)

lemma read_i32_at: "off = length pre \<Longrightarrow> read_i32 off (pre @ le32 i @ post) = Inr (to_i32 i)"
  using read_mem_at [of off pre 4 "le32 i" post] by (simp add: read_i32_def to_i32_def)

text \<open>The fields of each header, read back from a packet that starts with it.\<close>

lemma s2s_header_length [simp]: "length (s2s_header len cmd ecode packet codec own) = s2s_size"
  by (simp add: s2s_header_def s2s_size_def)

lemma s2c_header_length [simp]: "length (s2c_header len cmd ecode) = s2c_size"
  by (simp add: s2c_header_def s2c_size_def)

lemma c2s_header_length [simp]: "length (c2s_header len cmd) = c2s_size"
  by (simp add: c2s_header_def c2s_size_def)

lemma read_c2s:
  "read_u16 0 (c2s_header len cmd @ post) = Inr len" "read_u16 2 (c2s_header len cmd @ post) = Inr cmd"
  using read_u16_at [of 0 "[]" len "le16 cmd @ post"] read_u16_at [of 2 "le16 len" cmd post]
  by (simp_all add: c2s_header_def)

lemma read_s2c:
  "read_u16 0 (s2c_header len cmd ecode @ post) = Inr len" "read_u16 2 (s2c_header len cmd ecode @ post) = Inr cmd"
  "read_u16 4 (s2c_header len cmd ecode @ post) = Inr ecode"
  using read_u16_at [of 0 "[]" len "le16 cmd @ le16 ecode @ post"] read_u16_at [of 2 "le16 len" cmd "le16 ecode @ post"]
    read_u16_at [of 4 "le16 len @ le16 cmd" ecode post]
  by (simp_all add: s2c_header_def)

lemma read_s2s:
  "read_u16 0 (s2s_header len cmd ecode packet codec own @ post) = Inr len"
  "read_u16 2 (s2s_header len cmd ecode packet codec own @ post) = Inr cmd"
  "read_u16 4 (s2s_header len cmd ecode packet codec own @ post) = Inr ecode"
  "read_u16 6 (s2s_header len cmd ecode packet codec own @ post) = Inr packet"
  "read_u16 8 (s2s_header len cmd ecode packet codec own @ post) = Inr codec"
  "read_i32 10 (s2s_header len cmd ecode packet codec own @ post) = Inr (to_i32 own)"
  using read_u16_at [of 0 "[]" len "le16 cmd @ le16 ecode @ le16 packet @ le16 codec @ le32 own @ post"]
    read_u16_at [of 2 "le16 len" cmd "le16 ecode @ le16 packet @ le16 codec @ le32 own @ post"]
    read_u16_at [of 4 "le16 len @ le16 cmd" ecode "le16 packet @ le16 codec @ le32 own @ post"]
    read_u16_at [of 6 "le16 len @ le16 cmd @ le16 ecode" packet "le16 codec @ le32 own @ post"]
    read_u16_at [of 8 "le16 len @ le16 cmd @ le16 ecode @ le16 packet" codec "le32 own @ post"]
    read_i32_at [of 10 "le16 len @ le16 cmd @ le16 ecode @ le16 packet @ le16 codec" own post]
  by (simp_all add: s2s_header_def)

lemma packet_buffer_len_ok: "hsize \<le> unat len \<Longrightarrow> packet_buffer_len hsize len = unat len - hsize"
proof -
  assume a: "hsize \<le> unat len"
  have "unat len < 2 ^ 16" using unsigned_less [where w = len and ?'a = nat] by simp
  then have "unat (word_of_nat (unat len - hsize) :: 64 word) = unat len - hsize"
    by (simp add: unat_of_nat)
  moreover have "(word_of_nat (unat len) - word_of_nat hsize :: 64 word) = word_of_nat (unat len - hsize)"
    using a by (simp add: of_nat_diff)
  ultimately show ?thesis by (simp add: packet_buffer_len_def)
qed

end
