(* ===== verification/Net.thy ===== *)
theory Net
  imports NetMsg Buffer EvIo
begin

text \<open>
  Connections and the network manager: \<open>net/socket.cpp\<close>, \<open>lua_cpplib/lnetwork_mgr.cpp\<close> and
  \<open>net/codec/codec_mgr.cpp\<close>.

  A \<open>Socket *\<close> is the connection's id: \<open>nt_heap\<close> holds the objects, \<open>nt_map\<close> the ids in
  \<open>_socket_map\<close>. \<open>sk_w\<close> says whether \<open>_w\<close> is not null; the watcher itself is in \<open>nt_io\<close>, the model of
  the event loop, and its two buffers are \<open>nt_recv\<close> and \<open>nt_send\<close>. \<open>nt_calls\<close> records the script
  functions that were called. Statistics and log messages are left out.

  What the C++ code calls outside itself is the environment \<open>env\<close>: script functions, which may
  call back into the network and so return a new state, Lua's own conversions, the codecs
  that wrap third-party libraries, the kernel's answers, and the classes of the other packet
  types.
\<close>

section \<open>State\<close>

datatype conn_type = CT_NONE | CT_CSCN | CT_SCCN | CT_SSCN

datatype packet_type = PT_HTTP | PT_STREAM | PT_WEBSOCKET | PT_WSSTREAM

text \<open>\<open>CS_CLOSING\<close> has the value of \<open>CS_OPENED\<close> in the source.\<close>

definition CS_NONE :: int where "CS_NONE = 0"
definition CS_OPENED :: int where "CS_OPENED = 1"
definition CS_CLOSING :: int where "CS_CLOSING = 1"
definition CS_CLOSED :: int where "CS_CLOSED = 2"

definition CT_LUABIN :: int where "CT_LUABIN = 1"
definition CT_FLATBUF :: int where "CT_FLATBUF = 3"
definition CT_PROTOBUF :: int where "CT_PROTOBUF = 4"
definition CODEC_NONE :: int where "CODEC_NONE = 0"
definition CODEC_MAX :: int where "CODEC_MAX = 5"

definition M_OVERFLOW_PEND :: "8 word" where "M_OVERFLOW_PEND = 2"

record cmd_cfg =
  cc_cmd :: int
  cc_mask :: int
  cc_session :: int
  cc_schema :: "8 word list"
  cc_object :: "8 word list"

record sock =
  sk_type :: conn_type
  sk_status :: int
  sk_fd :: int
  sk_object :: int
  sk_w :: bool
  sk_io :: "int option"
  sk_packet :: "packet_type option"
  sk_codec :: int

definition sock_new :: "conn_type \<Rightarrow> sock" where
  "sock_new ty = \<lparr>sk_type = ty, sk_status = CS_NONE, sk_fd = -1, sk_object = 0, sk_w = False,
     sk_io = None, sk_packet = None, sk_codec = CODEC_NONE\<rparr>"

text \<open>\<open>nt_deleting\<close> lists the map in the order in which it is traversed.\<close>

record net =
  nt_session :: int
  nt_seed :: int
  cs_cmds :: "int \<rightharpoonup> cmd_cfg"
  ss_cmds :: "int \<rightharpoonup> cmd_cfg"
  sc_cmds :: "int \<rightharpoonup> cmd_cfg"
  nt_heap :: "int \<rightharpoonup> sock"
  nt_map :: "int set"
  nt_deleting :: "(int \<times> int) list"
  nt_owners :: "int \<rightharpoonup> int"
  nt_owner_session :: "int \<rightharpoonup> int"
  nt_sessions :: "int \<rightharpoonup> int"
  nt_conn_session :: "int \<rightharpoonup> int"
  nt_io :: iosys
  nt_recv :: "int \<Rightarrow> buffer"
  nt_send :: "int \<Rightarrow> buffer"
  nt_calls :: "(string \<times> lua list) list"

definition net_init :: net where
  "net_init = \<lparr>nt_session = 0, nt_seed = 0, cs_cmds = Map.empty, ss_cmds = Map.empty, sc_cmds = Map.empty,
     nt_heap = Map.empty, nt_map = {}, nt_deleting = [], nt_owners = Map.empty, nt_owner_session = Map.empty,
     nt_sessions = Map.empty, nt_conn_session = Map.empty, nt_io = iosys_init,
     nt_recv = (\<lambda>_. buffer_init), nt_send = (\<lambda>_. buffer_init), nt_calls = []\<rparr>"

text \<open>\<open>luaL_error\<close> leaves a Lua function with a value of \<open>lua_error\<close>, keeping what was done so far.\<close>

datatype lua_error = ArgExpected | TableExpected | IntegerExpected | NoCommand | NoCodec | IllegalCodec
  | PacketSize | OverMax | CannotPack | NoSocket | SocketClosed | IllegalConnection | NoPacket
  | IllegalPacket | RpcFailed | IllegalIo | OsError

type_synonym 'a api = "((lua_error + 'a) \<times> net) result"

text \<open>
  The environment. A script call returns whether \<open>lua_pcall\<close> succeeded and the results or the
  error object. \<open>k_encode\<close> and \<open>k_decode\<close> are the codecs around FlatBuffers and protobuf by their
  number; an encoder sees the Lua stack and the index of its argument.
\<close>

record env =
  k_script :: "string \<Rightarrow> lua list \<Rightarrow> net \<Rightarrow> ((bool \<times> lua list) \<times> net) result"
  k_room :: "nat \<Rightarrow> bool"
  k_tointeger :: "lua \<Rightarrow> int option"
  k_encode :: "int \<Rightarrow> lua list \<Rightarrow> int \<Rightarrow> cmd_cfg option \<Rightarrow> 8 word list option result"
  k_decode :: "int \<Rightarrow> 8 word list \<Rightarrow> cmd_cfg option \<Rightarrow> lua list decoded"
  k_tostring :: "lua \<Rightarrow> 8 word list option"
  k_ssl_init :: "int \<Rightarrow> net \<Rightarrow> (int \<times> net) result"
  k_pack_srv :: "packet_type \<Rightarrow> int \<Rightarrow> lua list \<Rightarrow> int \<Rightarrow> net \<Rightarrow> int api"
  k_pack_clt :: "packet_type \<Rightarrow> int \<Rightarrow> lua list \<Rightarrow> int \<Rightarrow> net \<Rightarrow> int api"
  k_error :: "int \<Rightarrow> net \<Rightarrow> int"
  k_unpack :: "packet_type \<Rightarrow> int \<Rightarrow> net \<Rightarrow> (int \<times> net) result"
  k_raw_clt :: "packet_type \<Rightarrow> int \<Rightarrow> int \<Rightarrow> 16 word \<Rightarrow> 8 word list \<Rightarrow> net \<Rightarrow> (int \<times> net) result"
  k_on_closed :: "packet_type \<Rightarrow> int \<Rightarrow> net \<Rightarrow> net result"

section \<open>Access\<close>

definition deref :: "int \<Rightarrow> net \<Rightarrow> sock result" where
  "deref c n = (case nt_heap n c of None \<Rightarrow> Inl Dangling | Some sk \<Rightarrow> Inr sk)"

definition sk_upd :: "int \<Rightarrow> (sock \<Rightarrow> sock) \<Rightarrow> net \<Rightarrow> net" where
  "sk_upd c f n = n\<lparr>nt_heap := (nt_heap n)(c := map_option f (nt_heap n c))\<rparr>"

text \<open>An operation of the event loop.\<close>

definition net_ev :: "(ev \<Rightarrow> ('a \<times> ev) result) \<Rightarrow> net \<Rightarrow> ('a \<times> net) result" where
  "net_ev f n = bind_res (f (se (nt_io n))) (\<lambda>(r, s). Inr (r, n\<lparr>nt_io := (nt_io n)\<lparr>se := s\<rparr>\<rparr>))"

definition script :: "env \<Rightarrow> string \<Rightarrow> lua list \<Rightarrow> net \<Rightarrow> ((bool \<times> lua list) \<times> net) result" where
  "script E fn args n = k_script E fn args (n\<lparr>nt_calls := nt_calls n @ [(fn, args)]\<rparr>)"

definition lint :: "int \<Rightarrow> lua" where
  "lint i = LInt (word_of_int i)"

section \<open>Codecs\<close>

record codec =
  cd_encode :: "lua list \<Rightarrow> int \<Rightarrow> cmd_cfg option \<Rightarrow> 8 word list option result"
  cd_decode :: "8 word list \<Rightarrow> cmd_cfg option \<Rightarrow> lua list decoded"

text \<open>\<open>LuaBin\<close> pushes the decoded values on the stack: the slots in use do not matter here.\<close>

definition luabin_codec :: "env \<Rightarrow> codec" where
  "luabin_codec E = \<lparr>cd_encode = (\<lambda>stack i cfg. LuaBin.encode stack i), cd_decode = (\<lambda>bs cfg. LuaBin.decode (k_room E) 0 bs)\<rparr>"

definition get_codec :: "env \<Rightarrow> int \<Rightarrow> codec option" where
  "get_codec E ty =
     (if ty < CODEC_NONE \<or> ty \<ge> CODEC_MAX then None
      else if ty = CT_LUABIN then Some (luabin_codec E)
      else if ty = CT_FLATBUF \<or> ty = CT_PROTOBUF then Some \<lparr>cd_encode = k_encode E ty, cd_decode = k_decode E ty\<rparr>
      else None)"

section \<open>The socket: sending and stopping\<close>

text \<open>\<open>connect_del\<close>: \<open>emplace\<close> keeps an entry that is already there.\<close>

definition connect_del :: "int \<Rightarrow> int \<Rightarrow> net \<Rightarrow> net" where
  "connect_del c e n = n\<lparr>nt_deleting := (if c \<in> fst ` set (nt_deleting n) then nt_deleting n else nt_deleting n @ [(c, e)]),
     nt_io := (nt_io n)\<lparr>has_job := True\<rparr>\<rparr>"

definition close_cb :: "env \<Rightarrow> bool \<Rightarrow> int \<Rightarrow> net \<Rightarrow> net result" where
  "close_cb E term c n =
     bind_res (deref c n) (\<lambda>sk.
       if term then Inr (sk_upd c (\<lambda>sk. sk\<lparr>sk_w := False\<rparr>) n)
       else
         bind_res (case sk_packet sk of
             Some p \<Rightarrow> if sk_status sk = CS_OPENED \<and> p \<noteq> PT_STREAM then k_on_closed E p c n else Inr n
           | None \<Rightarrow> Inr n) (\<lambda>n1.
         bind_res (deref c n1) (\<lambda>_.
         let e = k_error E c n1;
             n2 = sk_upd c (\<lambda>sk. sk\<lparr>sk_status := CS_CLOSED, sk_fd := -1, sk_w := False\<rparr>) n1
         in bind_res (net_ev (io_delete c) n2) (\<lambda>(_, n3). Inr (connect_del c e n3)))))"

definition stop :: "env \<Rightarrow> bool \<Rightarrow> bool \<Rightarrow> int \<Rightarrow> net \<Rightarrow> net result" where
  "stop E flsh term c n =
     bind_res (deref c n) (\<lambda>sk.
       let n1 = sk_upd c (\<lambda>sk. sk\<lparr>sk_status := CS_CLOSING\<rparr>) n
       in bind_res (if sk_w sk then net_ev (io_stop c flsh) n1 else Inr (0, n1)) (\<lambda>(_, n2).
            if term \<or> \<not> sk_w sk then close_cb E True c n2 else Inr n2))"

definition sk_flush :: "int \<Rightarrow> net \<Rightarrow> net result" where
  "sk_flush c n =
     bind_res (deref c n) (\<lambda>sk.
     bind_res (check (sk_w sk) NullDeref) (\<lambda>_.
     bind_res (net_ev (io_fast_event c (ev32 EV_WRITE)) n) (\<lambda>(wk, n1).
       Inr (if wk then n1\<lparr>nt_io := wake (nt_io n1)\<rparr> else n1))))"

text \<open>
  \<open>append\<close>. On overflow a connection is stopped, or waits a while for the back end; the waiting
  changes nothing but the time.
\<close>

definition sk_append :: "env \<Rightarrow> int \<Rightarrow> 8 word list \<Rightarrow> net \<Rightarrow> net result" where
  "sk_append E c data n =
     bind_res (deref c n) (\<lambda>sk.
     bind_res (check (sk_w sk) NullDeref) (\<lambda>_.
     bind_res (Buffer.append data (nt_send n c)) (\<lambda>(e, b).
       let n1 = n\<lparr>nt_send := (nt_send n)(c := b)\<rparr>
       in if e = 0 then Inr n1
          else bind_res (sys_get (nt_io n1) c) (\<lambda>w.
                 if and (io_mask w) M_OVERFLOW_KILL \<noteq> 0 then stop E False False c n1
                 else if and (io_mask w) M_OVERFLOW_PEND \<noteq> 0 then sk_flush c n1
                 else Inr n1))))"

definition is_closed :: "sock \<Rightarrow> bool" where
  "is_closed sk \<longleftrightarrow> CS_OPENED \<noteq> sk_status sk"

section \<open>Looking connections up\<close>

text \<open>A null pointer is None.\<close>

definition get_conn_by_conn_id :: "int \<Rightarrow> net \<Rightarrow> int option" where
  "get_conn_by_conn_id c n = (if c \<in> nt_map n then Some c else None)"

definition get_conn_by_session :: "int \<Rightarrow> net \<Rightarrow> int option" where
  "get_conn_by_session session n =
     (case nt_sessions n session of None \<Rightarrow> None | Some c \<Rightarrow> get_conn_by_conn_id c n)"

definition get_session_by_conn_id :: "int \<Rightarrow> net \<Rightarrow> int" where
  "get_session_by_conn_id c n = (case nt_conn_session n c of None \<Rightarrow> 0 | Some s \<Rightarrow> s)"

definition get_conn_id_by_owner :: "int \<Rightarrow> net \<Rightarrow> int" where
  "get_conn_id_by_owner own n = (case nt_owners n own of None \<Rightarrow> 0 | Some c \<Rightarrow> c)"

definition get_conn_by_owner :: "int \<Rightarrow> net \<Rightarrow> int option result" where
  "get_conn_by_owner own n =
     (let c = get_conn_id_by_owner own n
      in if c = 0 \<or> c \<notin> nt_map n then Inr None
         else bind_res (deref c n) (\<lambda>sk. Inr (if sk_object sk \<noteq> own then None else Some c)))"

section \<open>Forwarding client packets\<close>

definition get_cmd_session :: "int \<Rightarrow> int \<Rightarrow> net \<Rightarrow> int" where
  "get_cmd_session object_id cmd n =
     (case cs_cmds n cmd of
        None \<Rightarrow> -1
      | Some cfg \<Rightarrow>
          if and (cc_mask cfg) MK_DYNAMIC = 0 then cc_session cfg
          else if object_id = 0 then -1
          else (case nt_owner_session n (to_i32 object_id) of None \<Rightarrow> -1 | Some s \<Rightarrow> s))"

text \<open>
  \<open>cs_dispatch\<close>: 0 says that the packet is for this process. \<open>ctx\<close> is the memory from the
  payload on and \<open>len\<close> how much of it is sent. A payload that does not fit in a server
  packet leaves through \<open>SET_LENGTH_FAIL_BOOL\<close>, whose \<open>false\<close> is 0.
\<close>

definition cs_dispatch :: "env \<Rightarrow> 16 word \<Rightarrow> int \<Rightarrow> 8 word list \<Rightarrow> nat \<Rightarrow> net \<Rightarrow> (int \<times> net) result" where
  "cs_dispatch E cmd src ctx len n =
     bind_res (deref src n) (\<lambda>sk.
       let session = get_cmd_session (sk_object sk) (uint cmd) n
       in if session < 0 then Inr (-1, n)
          else if session = nt_session n then Inr (0, n)
          else (case get_conn_by_session session n of
             None \<Rightarrow> Inr (1, n)
           | Some dest \<Rightarrow>
               (case header_length s2s_size len of
                  None \<Rightarrow> Inr (0, n)
                | Some hl \<Rightarrow>
                    bind_res (sk_append E dest (s2s_header hl cmd 0 SPT_CSPK (word_of_int (sk_codec sk)) (sk_object sk)) n) (\<lambda>n1.
                    bind_res (read_mem 0 len ctx) (\<lambda>data.
                    bind_res (sk_append E dest data n1) (\<lambda>n2.
                    bind_res (sk_flush dest n2) (\<lambda>n3. Inr (1, n3))))))))"

end
