(* ===== verification/NetStream.thy ===== *)
theory NetStream
  imports Net
begin

text \<open>
  The binary packets of \<open>net/packet/stream_packet.cpp\<close>: packing for the three kinds of
  connection, unpacking from the receive buffer and the handlers behind it.

  The packers are Lua functions: \<open>stack\<close> is the Lua stack and \<open>i\<close> the index of the first
  argument.
  A handler reads the packet through \<open>mem\<close>, the memory readable from the header on.
\<close>

section \<open>Lua functions\<close>

definition bind_arg :: "lua_error + 'a \<Rightarrow> net \<Rightarrow> ('a \<Rightarrow> 'b api) \<Rightarrow> 'b api" where
  "bind_arg a n f = (case a of Inl e \<Rightarrow> Inr (Inl e, n) | Inr x \<Rightarrow> f x)"

lemma bind_arg_simps [simp]: "bind_arg (Inl e) n f = Inr (Inl e, n)" "bind_arg (Inr x) n f = f x"
  by (simp_all add: bind_arg_def)

text \<open>A slot above the top is none, which no argument check accepts.\<close>

definition stack_at :: "lua list \<Rightarrow> int \<Rightarrow> lua" where
  "stack_at stack i = (if 1 \<le> i \<and> i \<le> int (length stack) then stack ! nat (i - 1) else LNil)"

definition check_integer :: "env \<Rightarrow> lua list \<Rightarrow> int \<Rightarrow> lua_error + int" where
  "check_integer E stack i =
     (case stack_at stack i of
        LInt w \<Rightarrow> Inr (sint w)
      | v \<Rightarrow> (case k_tointeger E v of None \<Rightarrow> Inl ArgExpected | Some k \<Rightarrow> Inr k))"

definition check_int32 :: "env \<Rightarrow> lua list \<Rightarrow> int \<Rightarrow> lua_error + int" where
  "check_int32 E stack i = map_sum id to_i32 (check_integer E stack i)"

definition check_u16 :: "env \<Rightarrow> lua list \<Rightarrow> int \<Rightarrow> lua_error + 16 word" where
  "check_u16 E stack i = map_sum id word_of_int (check_integer E stack i)"

definition check_table :: "lua list \<Rightarrow> int \<Rightarrow> lua_error + (lua \<times> lua) list" where
  "check_table stack i = (case stack_at stack i of LTab kvs \<Rightarrow> Inr kvs | _ \<Rightarrow> Inl TableExpected)"

definition check_some :: "lua_error \<Rightarrow> 'a option \<Rightarrow> lua_error + 'a" where
  "check_some e m = (case m of None \<Rightarrow> Inl e | Some x \<Rightarrow> Inr x)"

definition check_cond :: "lua_error \<Rightarrow> bool \<Rightarrow> lua_error + unit" where
  "check_cond e b = (if b then Inr () else Inl e)"

section \<open>Packing\<close>

text \<open>A header, then the payload, then the wake-up.\<close>

definition send_msg :: "env \<Rightarrow> int \<Rightarrow> 8 word list \<Rightarrow> 8 word list \<Rightarrow> nat \<Rightarrow> net \<Rightarrow> net result" where
  "send_msg E c header ctx len n =
     bind_res (sk_append E c header n) (\<lambda>n1.
     bind_res (if len > 0 then bind_res (read_mem 0 len ctx) (\<lambda>data. sk_append E c data n1) else Inr n1) (\<lambda>n2.
       sk_flush c n2))"

definition raw_pack_clt :: "env \<Rightarrow> int \<Rightarrow> int \<Rightarrow> 16 word \<Rightarrow> 8 word list \<Rightarrow> nat \<Rightarrow> net \<Rightarrow> (int \<times> net) result" where
  "raw_pack_clt E c cmd ecode ctx len n =
     (case header_length s2c_size len of
        None \<Rightarrow> Inr (-1, n)
      | Some hl \<Rightarrow> bind_res (send_msg E c (s2c_header hl (word_of_int cmd) ecode) ctx len n) (\<lambda>n1. Inr (0, n1)))"

definition raw_pack_ss :: "env \<Rightarrow> int \<Rightarrow> int \<Rightarrow> 16 word \<Rightarrow> int \<Rightarrow> 8 word list \<Rightarrow> nat \<Rightarrow> net \<Rightarrow> (int \<times> net) result" where
  "raw_pack_ss E c cmd ecode session ctx len n =
     (case header_length s2s_size len of
        None \<Rightarrow> Inr (-1, n)
      | Some hl \<Rightarrow> bind_res (send_msg E c (s2s_header hl (word_of_int cmd) ecode SPT_SSPK 0 session) ctx len n)
                    (\<lambda>n1. Inr (0, n1)))"

definition do_pack_rpc :: "env \<Rightarrow> int \<Rightarrow> int \<Rightarrow> 16 word \<Rightarrow> 16 word \<Rightarrow> lua list \<Rightarrow> int \<Rightarrow> net \<Rightarrow> (int \<times> net) result" where
  "do_pack_rpc E c unique_id ecode pkt stack i n =
     bind_res (if ecode = 0 then LuaBin.encode stack i else Inr (Some [])) (\<lambda>enc.
       if enc = None \<and> pkt = SPT_RPCS then Inr (-1, n)
       else let buffer = (case enc of None \<Rightarrow> [] | Some bs \<Rightarrow> bs);
                ecode' = (if enc = None then 0xFFFF - 1 else ecode)
            in case header_length s2s_size (length buffer) of
                 None \<Rightarrow> Inr (-1, n)
               | Some hl \<Rightarrow> bind_res (send_msg E c (s2s_header hl 0 ecode' pkt 0 unique_id) buffer (length buffer) n)
                             (\<lambda>n1. Inr (0, n1)))"

definition pack_clt :: "env \<Rightarrow> int \<Rightarrow> lua list \<Rightarrow> int \<Rightarrow> net \<Rightarrow> int api" where
  "pack_clt E c stack i n =
     bind_arg (check_int32 E stack i) n (\<lambda>cmd.
     bind_arg (check_u16 E stack (i + 1)) n (\<lambda>ecode.
     bind_arg (check_some NoCommand (sc_cmds n cmd)) n (\<lambda>cfg.
     bind_res (deref c n) (\<lambda>sk.
     bind_arg (check_some NoCodec (get_codec E (sk_codec sk))) n (\<lambda>encoder.
     bind_res (cd_encode encoder stack (i + 2) (Some cfg)) (\<lambda>enc.
       case enc of
         None \<Rightarrow> Inr (Inr (-1), n)
       | Some buffer \<Rightarrow>
           bind_arg (check_cond OverMax (length buffer \<le> MAX_PACKET_LEN)) n (\<lambda>_.
           bind_res (raw_pack_clt E c cmd ecode buffer (length buffer) n) (\<lambda>(r, n1).
             if r < 0 then Inr (Inl CannotPack, n1) else Inr (Inr 0, n1)))))))))"

definition pack_srv :: "env \<Rightarrow> int \<Rightarrow> lua list \<Rightarrow> int \<Rightarrow> net \<Rightarrow> int api" where
  "pack_srv E c stack i n =
     bind_arg (check_int32 E stack i) n (\<lambda>cmd.
     bind_arg (check_table stack (i + 1)) n (\<lambda>_.
     bind_arg (check_some NoCommand (cs_cmds n cmd)) n (\<lambda>cfg.
     bind_res (deref c n) (\<lambda>sk.
     bind_arg (check_some NoCodec (get_codec E (sk_codec sk))) n (\<lambda>encoder.
     bind_res (cd_encode encoder stack (i + 1) (Some cfg)) (\<lambda>enc.
       case enc of
         None \<Rightarrow> Inr (Inr (-1), n)
       | Some buffer \<Rightarrow>
           bind_arg (check_some PacketSize (header_length c2s_size (length buffer))) n (\<lambda>hl.
           bind_res (send_msg E c (c2s_header hl (word_of_int cmd)) buffer (length buffer) n) (\<lambda>n1.
             Inr (Inr 0, n1)))))))))"

definition pack_ss :: "env \<Rightarrow> int \<Rightarrow> lua list \<Rightarrow> int \<Rightarrow> net \<Rightarrow> int api" where
  "pack_ss E c stack i n =
     bind_arg (check_int32 E stack i) n (\<lambda>cmd.
     bind_arg (check_u16 E stack (i + 1)) n (\<lambda>ecode.
     bind_arg (check_table stack (i + 2)) n (\<lambda>_.
     bind_arg (check_some NoCommand (ss_cmds n cmd)) n (\<lambda>cfg.
     bind_res (deref c n) (\<lambda>sk.
     bind_arg (check_some NoCodec (get_codec E (sk_codec sk))) n (\<lambda>encoder.
     bind_res (cd_encode encoder stack (i + 2) (Some cfg)) (\<lambda>enc.
       case enc of
         None \<Rightarrow> Inr (Inr (-1), n)
       | Some buffer \<Rightarrow>
           bind_arg (check_cond OverMax (length buffer \<le> MAX_PACKET_LEN)) n (\<lambda>_.
           bind_res (raw_pack_ss E c cmd ecode (nt_session n) buffer (length buffer) n) (\<lambda>(r, n1).
             if r < 0 then Inr (Inl CannotPack, n1) else Inr (Inr 0, n1))))))))))"

definition pack_rpc :: "env \<Rightarrow> int \<Rightarrow> lua list \<Rightarrow> int \<Rightarrow> net \<Rightarrow> int api" where
  "pack_rpc E c stack i n =
     bind_arg (check_int32 E stack i) n (\<lambda>unique_id.
     bind_res (do_pack_rpc E c unique_id 0 SPT_RPCS stack (i + 1) n) (\<lambda>(r, n1). Inr (Inr r, n1)))"

definition codec_type_ok :: "int \<Rightarrow> bool" where
  "codec_type_ok ty \<longleftrightarrow> \<not> (ty < CODEC_NONE \<or> ty \<ge> CODEC_MAX)"

definition pack_ssc :: "env \<Rightarrow> int \<Rightarrow> lua list \<Rightarrow> int \<Rightarrow> net \<Rightarrow> int api" where
  "pack_ssc E c stack i n =
     bind_arg (check_int32 E stack i) n (\<lambda>own.
     bind_arg (check_int32 E stack (i + 1)) n (\<lambda>codec_ty.
     bind_arg (check_int32 E stack (i + 2)) n (\<lambda>cmd.
     bind_arg (check_u16 E stack (i + 3)) n (\<lambda>ecode.
     bind_arg (check_cond IllegalCodec (codec_type_ok codec_ty)) n (\<lambda>_.
     bind_arg (check_table stack (i + 4)) n (\<lambda>_.
     bind_arg (check_some NoCommand (sc_cmds n cmd)) n (\<lambda>cfg.
     bind_arg (check_some NoCommand (get_codec E codec_ty)) n (\<lambda>encoder.
     bind_res (cd_encode encoder stack (i + 4) (Some cfg)) (\<lambda>enc.
       case enc of
         None \<Rightarrow> Inr (Inr (-1), n)
       | Some buffer \<Rightarrow>
           bind_arg (check_some PacketSize (header_length s2s_size (length buffer))) n (\<lambda>hl.
           bind_res (send_msg E c (s2s_header hl (word_of_int cmd) ecode SPT_SCPK 0 own) buffer (length buffer) n) (\<lambda>n1.
             Inr (Inr 0, n1))))))))))))"

text \<open>
  The loop over the receivers' table of \<open>pack_ssc_multicast\<close>. \<open>idx\<close> is the next free place of the
  array, whose first two hold the mask and the count.
\<close>

fun cast_list :: "(lua \<times> lua) list \<Rightarrow> int \<Rightarrow> lua_error + int list" where
  "cast_list [] idx = Inr []"
| "cast_list ((k, v) # kvs) idx =
     (case v of
        LInt w \<Rightarrow>
          if idx \<ge> MAX_CLT_CAST then Inr []
          else map_sum id (\<lambda>os. to_i32 (sint w) # os) (cast_list kvs (idx + 1))
      | _ \<Rightarrow> Inl IntegerExpected)"

definition pack_ssc_multicast :: "env \<Rightarrow> int \<Rightarrow> lua list \<Rightarrow> int \<Rightarrow> net \<Rightarrow> int api" where
  "pack_ssc_multicast E c stack i n =
     bind_arg (check_int32 E stack i) n (\<lambda>mask.
     bind_arg (check_int32 E stack (i + 2)) n (\<lambda>codec_ty.
     bind_arg (check_int32 E stack (i + 3)) n (\<lambda>cmd.
     bind_arg (check_u16 E stack (i + 4)) n (\<lambda>ecode.
     bind_arg (check_table stack (i + 1)) n (\<lambda>list.
     bind_arg (check_table stack (i + 5)) n (\<lambda>_.
     bind_arg (cast_list list 2) n (\<lambda>os.
     let raw = concat (map le32 (mask # int (length os) # os)) in
     bind_arg (check_cond IllegalCodec (codec_type_ok codec_ty)) n (\<lambda>_.
     bind_arg (check_some NoCommand (sc_cmds n cmd)) n (\<lambda>cfg.
     bind_arg (check_some NoCommand (get_codec E codec_ty)) n (\<lambda>encoder.
     bind_res (cd_encode encoder stack (i + 5) (Some cfg)) (\<lambda>enc.
       case enc of
         None \<Rightarrow> Inr (Inr (-1), n)
       | Some buffer \<Rightarrow>
           bind_arg (check_some PacketSize (header_length s2s_size (length raw + length buffer))) n (\<lambda>hl.
           bind_res (sk_append E c (s2s_header hl (word_of_int cmd) ecode SPT_CBCP 0 0) n) (\<lambda>n1.
           bind_res (send_msg E c raw buffer (length buffer) n1) (\<lambda>n2. Inr (Inr 0, n2)))))))))))))))"

section \<open>Handlers\<close>

text \<open>The packet of a client connection, whatever its class; only two classes can pack it.\<close>

definition pkt_raw_clt :: "env \<Rightarrow> packet_type option \<Rightarrow> int \<Rightarrow> int \<Rightarrow> 16 word \<Rightarrow> 8 word list \<Rightarrow> nat \<Rightarrow> net \<Rightarrow> (int \<times> net) result" where
  "pkt_raw_clt E p c cmd ecode ctx len n =
     (case p of
        None \<Rightarrow> Inl NullDeref
      | Some PT_STREAM \<Rightarrow> raw_pack_clt E c cmd ecode ctx len n
      | Some PT_WSSTREAM \<Rightarrow> bind_res (read_mem 0 len ctx) (\<lambda>data. k_raw_clt E PT_WSSTREAM c cmd ecode data n)
      | Some _ \<Rightarrow> Inl AssertionFailed)"

text \<open>
  Decoding the payload and calling the script. A decoder that raises a Lua error does so
  outside any protected call. None is a negative count.
\<close>

definition decode_payload :: "env \<Rightarrow> codec \<Rightarrow> 8 word list \<Rightarrow> nat \<Rightarrow> cmd_cfg option \<Rightarrow> lua list option result" where
  "decode_payload E cd ctx len cfg =
     bind_res (read_mem 0 len ctx) (\<lambda>bs.
     bind_res (cd_decode cd bs cfg) (\<lambda>r.
       case r of Inl Failed \<Rightarrow> Inr None | Inl Raised \<Rightarrow> Inl Uncaught | Inr vs \<Rightarrow> Inr (Some vs)))"

definition decode_and_call ::
  "env \<Rightarrow> int \<Rightarrow> 8 word list \<Rightarrow> nat \<Rightarrow> cmd_cfg option \<Rightarrow> string \<Rightarrow> lua list \<Rightarrow> net \<Rightarrow> net result" where
  "decode_and_call E codec_ty ctx len cfg fn args n =
     (case get_codec E codec_ty of
        None \<Rightarrow> Inr n
      | Some cd \<Rightarrow> bind_res (decode_payload E cd ctx len cfg) (\<lambda>r.
          case r of None \<Rightarrow> Inr n | Some vs \<Rightarrow> bind_res (script E fn (args @ vs) n) (\<lambda>(_, n1). Inr n1)))"

definition sc_command :: "env \<Rightarrow> int \<Rightarrow> 8 word list \<Rightarrow> net \<Rightarrow> net result" where
  "sc_command E c mem n =
     bind_res (read_u16 2 mem) (\<lambda>cmd.
       case sc_cmds n (uint cmd) of
         None \<Rightarrow> Inr n
       | Some cfg \<Rightarrow>
           bind_res (read_u16 0 mem) (\<lambda>len.
           bind_res (read_u16 4 mem) (\<lambda>ecode.
           bind_res (deref c n) (\<lambda>sk.
             decode_and_call E (sk_codec sk) (drop s2c_size mem) (packet_buffer_len s2c_size len) (Some cfg)
               ''command_new'' [lint c, lint (uint cmd), lint (uint ecode)] n))))"

definition cs_command :: "env \<Rightarrow> int \<Rightarrow> 16 word \<Rightarrow> 8 word list \<Rightarrow> nat \<Rightarrow> net \<Rightarrow> net result" where
  "cs_command E c cmd ctx len n =
     (case cs_cmds n (uint cmd) of
        None \<Rightarrow> Inr n
      | Some cfg \<Rightarrow>
          bind_res (deref c n) (\<lambda>sk.
            decode_and_call E (sk_codec sk) ctx len (Some cfg) ''command_new'' [lint c, lint (uint cmd)] n))"

definition sp_cs_dispatch :: "env \<Rightarrow> int \<Rightarrow> 8 word list \<Rightarrow> net \<Rightarrow> net result" where
  "sp_cs_dispatch E c mem n =
     bind_res (read_u16 2 mem) (\<lambda>cmd.
     bind_res (read_u16 0 mem) (\<lambda>len.
       let sz = packet_buffer_len c2s_size len; ctx = drop c2s_size mem
       in bind_res (cs_dispatch E cmd c ctx sz n) (\<lambda>(r, n1).
            if r \<noteq> 0 then Inr n1 else cs_command E c cmd ctx sz n1)))"

definition ss_command :: "env \<Rightarrow> int \<Rightarrow> 8 word list \<Rightarrow> cmd_cfg \<Rightarrow> net \<Rightarrow> net result" where
  "ss_command E c mem cfg n =
     bind_res (read_u16 0 mem) (\<lambda>len.
     bind_res (read_u16 2 mem) (\<lambda>cmd.
     bind_res (read_u16 4 mem) (\<lambda>ecode.
     bind_res (read_i32 10 mem) (\<lambda>own.
     bind_res (deref c n) (\<lambda>sk.
       decode_and_call E (sk_codec sk) (drop s2s_size mem) (packet_buffer_len s2s_size len) (Some cfg)
         ''command_new'' [lint c, lint own, lint (uint cmd), lint (uint ecode)] n)))))"

definition ss_dispatch :: "env \<Rightarrow> int \<Rightarrow> 8 word list \<Rightarrow> net \<Rightarrow> net result" where
  "ss_dispatch E c mem n =
     bind_res (read_u16 2 mem) (\<lambda>cmd.
       case ss_cmds n (uint cmd) of None \<Rightarrow> Inr n | Some cfg \<Rightarrow> ss_command E c mem cfg n)"

definition css_command :: "env \<Rightarrow> int \<Rightarrow> 8 word list \<Rightarrow> net \<Rightarrow> net result" where
  "css_command E c mem n =
     bind_res (read_u16 2 mem) (\<lambda>cmd.
       case cs_cmds n (uint cmd) of
         None \<Rightarrow> Inr n
       | Some cfg \<Rightarrow>
           bind_res (read_u16 0 mem) (\<lambda>len.
           bind_res (read_u16 8 mem) (\<lambda>codec_ty.
           bind_res (read_i32 10 mem) (\<lambda>own.
             decode_and_call E (uint codec_ty) (drop s2s_size mem) (packet_buffer_len s2s_size len) (Some cfg)
               ''css_command_new'' [lint c, lint own, lint (uint cmd)] n))))"

definition ssc_command :: "env \<Rightarrow> 8 word list \<Rightarrow> net \<Rightarrow> net result" where
  "ssc_command E mem n =
     bind_res (read_i32 10 mem) (\<lambda>own.
     bind_res (get_conn_by_owner own n) (\<lambda>r.
       case r of
         None \<Rightarrow> Inr n
       | Some c \<Rightarrow>
           bind_res (deref c n) (\<lambda>sk.
             if sk_type sk \<noteq> CT_SCCN then Inr n
             else bind_res (read_u16 0 mem) (\<lambda>len.
                  bind_res (read_u16 2 mem) (\<lambda>cmd.
                  bind_res (read_u16 4 mem) (\<lambda>ecode.
                  bind_res (pkt_raw_clt E (sk_packet sk) c (uint cmd) ecode (drop s2s_size mem)
                              (packet_buffer_len s2s_size len) n) (\<lambda>(_, n1). Inr n1)))))))"

text \<open>
  A remote call. \<open>LuaBin\<close> decodes the function's name and the arguments; the results, or the
  error object, are left above the traceback function in slot 1.
\<close>

definition rpc_command :: "env \<Rightarrow> int \<Rightarrow> 8 word list \<Rightarrow> net \<Rightarrow> net result" where
  "rpc_command E c mem n =
     bind_res (read_u16 0 mem) (\<lambda>len.
     bind_res (read_i32 10 mem) (\<lambda>own.
     bind_res (decode_payload E (luabin_codec E) (drop s2s_size mem) (packet_buffer_len s2s_size len) None) (\<lambda>r.
       case r of
         None \<Rightarrow> Inr n
       | Some vs \<Rightarrow>
           if vs = [] then Inr n
           else bind_res (script E ''rpc_command_new'' ([lint c, lint own] @ vs) n) (\<lambda>((ok, rets), n1).
                  if own > 0
                  then bind_res (do_pack_rpc E c own (if ok then 0 else 0xFFFF) SPT_RPCR (LOther # rets) 2 n1)
                         (\<lambda>(_, n2). Inr n2)
                  else Inr n1))))"

text \<open>
  The reply. A count of -1 is not tested: \<open>lua_pcall\<close> then takes the connection's id for the
  function and fails, so no script function runs.
\<close>

definition rpc_return :: "env \<Rightarrow> int \<Rightarrow> 8 word list \<Rightarrow> net \<Rightarrow> net result" where
  "rpc_return E c mem n =
     bind_res (read_u16 0 mem) (\<lambda>len.
     bind_res (read_i32 10 mem) (\<lambda>own.
     bind_res (read_u16 4 mem) (\<lambda>ecode.
       let sz = packet_buffer_len s2s_size len
       in bind_res (if sz > 0 then decode_payload E (luabin_codec E) (drop s2s_size mem) sz None else Inr (Some [])) (\<lambda>r.
            case r of
              None \<Rightarrow> Inr n
            | Some vs \<Rightarrow> bind_res (script E ''rpc_command_return'' ([lint c, lint own, lint (uint ecode)] @ vs) n)
                            (\<lambda>(_, n1). Inr n1)))))"

definition ssc_one_multicast :: "env \<Rightarrow> int \<Rightarrow> int \<Rightarrow> 16 word \<Rightarrow> 8 word list \<Rightarrow> nat \<Rightarrow> net \<Rightarrow> net result" where
  "ssc_one_multicast E own cmd ecode ctx len n =
     bind_res (get_conn_by_owner own n) (\<lambda>r.
       case r of
         None \<Rightarrow> Inr n
       | Some c \<Rightarrow>
           bind_res (deref c n) (\<lambda>sk.
             if is_closed sk \<or> sk_type sk \<noteq> CT_SCCN \<or> sk_packet sk = None then Inr n
             else bind_res (pkt_raw_clt E (sk_packet sk) c cmd ecode ctx len n) (\<lambda>(_, n1). Inr n1)))"

text \<open>The loop over the table that the script returned stops at the first value that is not an integer.\<close>

fun cast_table :: "env \<Rightarrow> (lua \<times> lua) list \<Rightarrow> int \<Rightarrow> 16 word \<Rightarrow> 8 word list \<Rightarrow> nat \<Rightarrow> net \<Rightarrow> net result" where
  "cast_table E [] cmd ecode ctx len n = Inr n"
| "cast_table E ((k, v) # kvs) cmd ecode ctx len n =
     (case v of
        LInt w \<Rightarrow> bind_res (ssc_one_multicast E (to_i32 (sint w)) cmd ecode ctx len n) (\<lambda>n1.
                    cast_table E kvs cmd ecode ctx len n1)
      | _ \<Rightarrow> Inr n)"

text \<open>
  \<open>count\<close> is not tested for being negative. The length of the list is a \<open>size_t\<close>: for -1 and -2
  it is 4 and 0, for less it wraps and exceeds the packet. A \<open>lua_pcall\<close> with a count of -1
  takes the mask for the function, with -2 it is undefined.
\<close>

definition ssc_multicast :: "env \<Rightarrow> 8 word list \<Rightarrow> net \<Rightarrow> net result" where
  "ssc_multicast E mem n =
     bind_res (read_i32 14 mem) (\<lambda>mask.
     bind_res (read_i32 18 mem) (\<lambda>count.
       if MAX_CLT_CAST < count then Inr n
       else
         bind_res (read_u16 0 mem) (\<lambda>len.
         bind_res (read_u16 2 mem) (\<lambda>cmd.
         bind_res (read_u16 4 mem) (\<lambda>ecode.
           let sz = packet_buffer_len s2s_size len;
               list_len = unat (4 * word_of_int (count + 2) :: 64 word)
           in if sz < list_len then Inr n
              else
                let ctx = drop (s2s_size + list_len) mem;
                    rest = sz - list_len
                in if mask = CLT_MC_OWNER then
                     fold_res (\<lambda>idx n. bind_res (read_i32 (22 + 4 * idx) mem) (\<lambda>own.
                         ssc_one_multicast E own (uint cmd) ecode ctx rest n)) [0..<nat count] n
                   else if count > 16 then Inr n
                   else if count = -1 then Inr n
                   else if count < -1 then Inl OutOfRange
                   else
                     bind_res (fold_res (\<lambda>idx os. bind_res (read_i32 (22 + 4 * idx) mem) (\<lambda>own. Inr (os @ [own])))
                                 [0..<nat count] []) (\<lambda>os.
                     bind_res (script E ''clt_multicast_new'' (map lint (mask # os)) n) (\<lambda>((ok, rets), n1).
                       if \<not> ok then Inr n1
                       else case rets of
                         LTab kvs # _ \<Rightarrow> cast_table E kvs (uint cmd) ecode ctx rest n1
                       | _ \<Rightarrow> Inr n1)))))))"

definition process_ss_command :: "env \<Rightarrow> int \<Rightarrow> 8 word list \<Rightarrow> net \<Rightarrow> net result" where
  "process_ss_command E c mem n =
     bind_res (read_u16 6 mem) (\<lambda>packet.
       if packet = SPT_SSPK then ss_dispatch E c mem n
       else if packet = SPT_CSPK then css_command E c mem n
       else if packet = SPT_SCPK then ssc_command E mem n
       else if packet = SPT_RPCS then rpc_command E c mem n
       else if packet = SPT_RPCR then rpc_return E c mem n
       else if packet = SPT_CBCP then ssc_multicast E mem n
       else Inr n)"

definition dispatch :: "env \<Rightarrow> int \<Rightarrow> 8 word list \<Rightarrow> net \<Rightarrow> net result" where
  "dispatch E c mem n =
     bind_res (deref c n) (\<lambda>sk.
       case sk_type sk of
         CT_CSCN \<Rightarrow> sc_command E c mem n
       | CT_SCCN \<Rightarrow> sp_cs_dispatch E c mem n
       | CT_SSCN \<Rightarrow> process_ss_command E c mem n
       | CT_NONE \<Rightarrow> Inr n)"

section \<open>Unpacking\<close>

text \<open>
  The memory behind the pointer that \<open>to_flat_ctx\<close> returns: the rest of the front chunk, or the
  thread's large buffer.
\<close>

definition flat_mem :: "nat \<Rightarrow> buffer \<Rightarrow> (8 word list option \<times> buffer) result" where
  "flat_mem len b =
     bind_res (to_flat_ctx len b) (\<lambda>(r, b1).
       Inr (case r of
              None \<Rightarrow> None
            | Some _ \<Rightarrow> Some (if get_used_size (hd (chunks b)) \<ge> len then get_used_ctx (hd (chunks b)) else large b1), b1))"

definition set_recv :: "int \<Rightarrow> buffer \<Rightarrow> net \<Rightarrow> net" where
  "set_recv c b n = n\<lparr>nt_recv := (nt_recv n)(c := b)\<rparr>"

definition sp_unpack :: "env \<Rightarrow> int \<Rightarrow> net \<Rightarrow> (int \<times> net) result" where
  "sp_unpack E c n =
     bind_res (flat_mem base_size (nt_recv n c)) (\<lambda>(r, b1).
       case r of
         None \<Rightarrow> Inr (0, set_recv c b1 n)
       | Some mem \<Rightarrow>
           bind_res (read_u16 0 mem) (\<lambda>len.
             if \<not> check_used_size (unat len) b1 then Inr (0, set_recv c b1 n)
             else
               bind_res (flat_mem (unat len) b1) (\<lambda>(r2, b2).
                 case r2 of
                   None \<Rightarrow> Inl NullDeref
                 | Some mem2 \<Rightarrow>
                     bind_res (dispatch E c mem2 (set_recv c b2 n)) (\<lambda>n1.
                     bind_res (Buffer.remove (unat len) (nt_recv n1 c)) (\<lambda>(next_used, b3).
                       Inr (if next_used then 1 else 0, set_recv c b3 n1))))))"

end
