(* ===== verification/NetSocket.thy ===== *)
theory NetSocket
  imports NetStream
begin

text \<open>
  The life of a connection (\<open>net/socket.cpp\<close>) and the functions that the network manager gives
  to scripts (\<open>lua_cpplib/lnetwork_mgr.cpp\<close>).

  What the kernel answers is an argument: the descriptor of a system call, or whether it and
  the socket options after it succeeded.
\<close>

section \<open>Connection ids\<close>

text \<open>The loop ends when an id is free.\<close>

partial_function (option) new_id_from :: "int \<Rightarrow> int set \<Rightarrow> int option" where
  "new_id_from seed ids =
     (let s = (if 0x7FFFFFFF \<le> seed then 1 else seed + 1)
      in if s \<in> ids then new_id_from s ids else Some s)"

definition new_connect_id :: "net \<Rightarrow> (int \<times> net) result" where
  "new_connect_id n =
     (case new_id_from (nt_seed n) (nt_map n) of
        None \<Rightarrow> Inl Diverged
      | Some s \<Rightarrow> Inr (s, n\<lparr>nt_seed := s\<rparr>))"

definition new_sock :: "int \<Rightarrow> conn_type \<Rightarrow> net \<Rightarrow> net" where
  "new_sock c ty n = n\<lparr>nt_heap := (nt_heap n)(c \<mapsto> sock_new ty)\<rparr>"

definition del_sock :: "int \<Rightarrow> net \<Rightarrow> net" where
  "del_sock c n = n\<lparr>nt_heap := (nt_heap n)(c := None)\<rparr>"

section \<open>Starting\<close>

text \<open>A watcher for a descriptor, with empty buffers; false when the event loop refuses the id.\<close>

definition start_io :: "int \<Rightarrow> int \<Rightarrow> 32 word \<Rightarrow> net \<Rightarrow> (bool \<times> net) result" where
  "start_io c fd events n =
     bind_res (net_ev (io_start c fd events) n) (\<lambda>(ok, n1).
       if ok then Inr (True, sk_upd c (\<lambda>sk. sk\<lparr>sk_w := True\<rparr>)
                       (n1\<lparr>nt_recv := (nt_recv n1)(c := buffer_init), nt_send := (nt_send n1)(c := buffer_init)\<rparr>))
       else Inr (False, n1))"

definition sk_start :: "int \<Rightarrow> int \<Rightarrow> net \<Rightarrow> (bool \<times> net) result" where
  "sk_start c fd n =
     bind_res (deref c n) (\<lambda>sk.
     bind_res (check (sk_fd sk = -1 \<and> \<not> sk_w sk) AssertionFailed) (\<lambda>_.
       start_io c fd (ev32 EV_READ) (sk_upd c (\<lambda>sk. sk\<lparr>sk_fd := fd, sk_status := CS_OPENED\<rparr>) n)))"

text \<open>None is a system call that failed; the function then returns -1.\<close>

definition sk_connect :: "int \<Rightarrow> int option \<Rightarrow> net \<Rightarrow> (int \<times> net) result" where
  "sk_connect c os n =
     bind_res (deref c n) (\<lambda>sk.
     bind_res (check (sk_fd sk = -1) AssertionFailed) (\<lambda>_.
       case os of
         None \<Rightarrow> Inr (-1, n)
       | Some fd \<Rightarrow>
           bind_res (check (\<not> sk_w sk) AssertionFailed) (\<lambda>_.
           bind_res (start_io c fd (ev32 EV_CONNECT) n) (\<lambda>(ok, n1).
             if ok then Inr (fd, sk_upd c (\<lambda>sk. sk\<lparr>sk_fd := fd, sk_status := CS_OPENED\<rparr>) n1)
             else Inr (-1, n1)))))"

definition sk_listen :: "int \<Rightarrow> int option \<Rightarrow> net \<Rightarrow> (int \<times> net) result" where
  "sk_listen c os n =
     bind_res (deref c n) (\<lambda>sk.
       if sk_w sk then Inr (-1, n)
       else case os of
         None \<Rightarrow> Inr (-1, sk_upd c (\<lambda>sk. sk\<lparr>sk_fd := -1\<rparr>) n)
       | Some fd \<Rightarrow>
           bind_res (start_io c fd (ev32 EV_ACCEPT) (sk_upd c (\<lambda>sk. sk\<lparr>sk_fd := fd\<rparr>) n)) (\<lambda>(ok, n1).
             if ok then Inr (fd, sk_upd c (\<lambda>sk. sk\<lparr>sk_status := CS_OPENED\<rparr>) n1)
             else Inr (-1, sk_upd c (\<lambda>sk. sk\<lparr>sk_fd := -1\<rparr>) n1)))"

section \<open>Script events of connections\<close>

definition accept_new :: "env \<Rightarrow> int \<Rightarrow> int \<Rightarrow> net \<Rightarrow> (bool \<times> net) result" where
  "accept_new E c new n =
     bind_res (script E ''conn_accept'' [lint c, lint new] (n\<lparr>nt_map := insert new (nt_map n)\<rparr>)) (\<lambda>((ok, _), n1). Inr (ok, n1))"

definition connect_new :: "env \<Rightarrow> int \<Rightarrow> int \<Rightarrow> net \<Rightarrow> (bool \<times> net) result" where
  "connect_new E c ecode n =
     bind_res (script E ''conn_new'' [lint c, lint ecode] n) (\<lambda>((ok, _), n1). Inr (ok, n1))"

definition io_ok :: "env \<Rightarrow> int \<Rightarrow> net \<Rightarrow> (bool \<times> net) result" where
  "io_ok E c n = bind_res (script E ''io_ok'' [lint c] n) (\<lambda>((ok, _), n1). Inr (ok, n1))"

text \<open>\<open>EVIO::init_accept\<close> and \<open>init_connect\<close> with the \<open>IO\<close> object behind them.\<close>

definition init_io :: "env \<Rightarrow> int \<Rightarrow> net \<Rightarrow> net result" where
  "init_io E c n =
     bind_res (deref c n) (\<lambda>sk.
     bind_res (check (sk_w sk) NullDeref) (\<lambda>_.
     bind_res (case sk_io sk of
         None \<Rightarrow> Inl NullDeref
       | Some ty \<Rightarrow> if ty = 0 then bind_res (io_ok E c n) (\<lambda>(_, n1). Inr (0, n1)) else k_ssl_init E c n) (\<lambda>(e, n1).
       if e = 0 then Inr n1
       else bind_res (net_ev (io_fast_event c (word_of_int e)) n1) (\<lambda>(wk, n2).
              Inr (if wk then n2\<lparr>nt_io := wake (nt_io n2)\<rparr> else n2)))))"

section \<open>Events of the event loop\<close>

text \<open>
  An answer to \<open>accept\<close>: an error, or a descriptor and whether setting its options succeeded.
  The end of the list is \<open>EAGAIN\<close>.
\<close>

datatype accepted = AcError | AcFd int bool

fun listen_cb :: "env \<Rightarrow> accepted list \<Rightarrow> int \<Rightarrow> net \<Rightarrow> net result" where
  "listen_cb E answers c n =
     bind_res (deref c n) (\<lambda>sk.
       if sk_status sk \<noteq> CS_OPENED then Inr n
       else case answers of
         [] \<Rightarrow> Inr n
       | AcError # _ \<Rightarrow> Inr n
       | AcFd fd opts # rest \<Rightarrow>
           if \<not> opts then listen_cb E rest c n
           else
             bind_res (new_connect_id n) (\<lambda>(new, n1).
             bind_res (sk_start new fd (new_sock new (sk_type sk) n1)) (\<lambda>(started, n2).
               if \<not> started then stop E False False new n2
               else
                 bind_res (accept_new E c new n2) (\<lambda>(ok, n3).
                 bind_res (deref new n3) (\<lambda>nk.
                 bind_res (if ok \<and> sk_fd nk \<noteq> -1 \<and> sk_packet nk \<noteq> None \<and> sk_io nk \<noteq> None
                           then init_io E new n3 else stop E False False new n3) (\<lambda>n4.
                   listen_cb E rest c n4))))))"

definition connect_cb :: "env \<Rightarrow> bool \<Rightarrow> int \<Rightarrow> net \<Rightarrow> net result" where
  "connect_cb E opts c n =
     (let ecode = k_error E c n in
      if ecode = 0 \<and> \<not> opts then stop E False False c n
      else
        bind_res (deref c n) (\<lambda>sk.
        bind_res (if ecode = 0
                  then bind_res (check (sk_w sk) NullDeref) (\<lambda>_.
                       bind_res (net_ev (\<lambda>s. bind_res (io_set c (ev32 EV_READ) s) (\<lambda>s'. Inr ((), s'))) n) (\<lambda>(_, n1). Inr n1))
                  else Inr n) (\<lambda>n1.
        bind_res (connect_new E c ecode n1) (\<lambda>(ok, n2).
        bind_res (deref c n2) (\<lambda>sk2.
          if ok \<and> ecode = 0 \<and> sk_fd sk2 \<noteq> -1 \<and> sk_packet sk2 \<noteq> None \<and> sk_io sk2 \<noteq> None
          then init_io E c n2 else stop E False False c n2)))))"

definition pkt_unpack :: "env \<Rightarrow> int \<Rightarrow> net \<Rightarrow> (int \<times> net) result" where
  "pkt_unpack E c n =
     bind_res (deref c n) (\<lambda>sk.
       case sk_packet sk of
         None \<Rightarrow> Inl NullDeref
       | Some PT_STREAM \<Rightarrow> sp_unpack E c n
       | Some p \<Rightarrow> k_unpack E p c n)"

text \<open>The \<open>do\<close> loop of \<open>command_cb\<close>; None is a loop without end.\<close>

partial_function (option) command_loop :: "env \<Rightarrow> int \<Rightarrow> net \<Rightarrow> (int \<times> net) result option" where
  "command_loop E c n =
     (case pkt_unpack E c n of
        Inl e \<Rightarrow> Some (Inl e)
      | Inr (ret, n1) \<Rightarrow>
          if ret \<le> 0 then Some (Inr (ret, n1))
          else (case deref c n1 of
                  Inl e \<Rightarrow> Some (Inl e)
                | Inr sk \<Rightarrow> if sk_status sk = CS_OPENED then command_loop E c n1 else Some (Inr (ret, n1))))"

definition command_cb :: "env \<Rightarrow> int \<Rightarrow> net \<Rightarrow> net result" where
  "command_cb E c n =
     bind_res (deref c n) (\<lambda>sk.
       if sk_packet sk = None then stop E False False c n
       else
         bind_res (check (sk_w sk) NullDeref) (\<lambda>_.
           case command_loop E c n of
             None \<Rightarrow> Inl Diverged
           | Some r \<Rightarrow> bind_res r (\<lambda>(ret, n1). if ret < 0 then stop E False False c n1 else Inr n1)))"

text \<open>\<open>answers\<close> and \<open>opts\<close> are for the accepting and the connecting socket.\<close>

definition io_cb :: "env \<Rightarrow> accepted list \<Rightarrow> bool \<Rightarrow> int \<Rightarrow> 8 word \<Rightarrow> net \<Rightarrow> net result" where
  "io_cb E answers opts c revents n =
     (if and revents EV_CLOSE \<noteq> 0 then close_cb E False c n
      else
        bind_res (if and revents EV_ACCEPT \<noteq> 0 then listen_cb E answers c n
                  else if and revents EV_CONNECT \<noteq> 0 then connect_cb E opts c n else Inr n) (\<lambda>n1.
          if and revents EV_READ \<noteq> 0 then command_cb E c n1 else Inr n1))"

section \<open>The manager's upkeep\<close>

text \<open>The loop of \<open>invoke_delete\<close>: the script is told, then the socket is deleted.\<close>

fun delete_loop :: "env \<Rightarrow> (int \<times> int) list \<Rightarrow> net \<Rightarrow> net result" where
  "delete_loop E [] n = Inr n"
| "delete_loop E ((c, e) # ds) n =
     (if c \<notin> nt_map n then delete_loop E ds n
      else
        bind_res (deref c n) (\<lambda>sk.
        bind_res (check (is_closed sk) AssertionFailed) (\<lambda>_.
        bind_res (script E ''conn_del'' [lint c, lint e] n) (\<lambda>(_, n1).
          let n2 = del_sock c n1 in delete_loop E ds (n2\<lparr>nt_map := nt_map n2 - {c}\<rparr>)))))"

definition invoke_delete :: "env \<Rightarrow> net \<Rightarrow> net result" where
  "invoke_delete E n =
     (if nt_deleting n = [] then Inr n
      else bind_res (delete_loop E (nt_deleting n) n) (\<lambda>n1. Inr (n1\<lparr>nt_deleting := []\<rparr>)))"

text \<open>\<open>cs\<close> is the order in which the map of sockets is traversed.\<close>

definition mgr_clear :: "env \<Rightarrow> int list \<Rightarrow> net \<Rightarrow> net result" where
  "mgr_clear E cs n =
     bind_res (fold_res (\<lambda>c n. bind_res (stop E False True c n) (\<lambda>n1. Inr (del_sock c n1))) cs n) (\<lambda>n1.
       Inr (n1\<lparr>nt_owners := Map.empty, nt_map := {}, nt_sessions := Map.empty, nt_conn_session := Map.empty\<rparr>))"

section \<open>Script functions: configuration\<close>

definition check_string :: "env \<Rightarrow> lua list \<Rightarrow> int \<Rightarrow> lua_error + 8 word list" where
  "check_string E stack i =
     (case stack_at stack i of
        LStr cs \<Rightarrow> Inr cs
      | v \<Rightarrow> check_some ArgExpected (k_tostring E v))"

definition opt_int32 :: "env \<Rightarrow> lua list \<Rightarrow> int \<Rightarrow> int \<Rightarrow> lua_error + int" where
  "opt_int32 E stack i d = (if stack_at stack i = LNil then Inr d else check_int32 E stack i)"

text \<open>\<open>snprintf\<close> into an array of \<open>MAX_SCHEMA_NAME\<close> characters.\<close>

definition c_name :: "8 word list \<Rightarrow> 8 word list" where
  "c_name cs = take 63 (takeWhile (\<lambda>b. b \<noteq> 0) cs)"

definition cmd_args :: "env \<Rightarrow> lua list \<Rightarrow> int \<Rightarrow> lua_error + cmd_cfg" where
  "cmd_args E stack session =
     (case check_int32 E stack 1 of Inl e \<Rightarrow> Inl e | Inr cmd \<Rightarrow>
     (case check_string E stack 2 of Inl e \<Rightarrow> Inl e | Inr schema \<Rightarrow>
     (case check_string E stack 3 of Inl e \<Rightarrow> Inl e | Inr object \<Rightarrow>
     (case opt_int32 E stack 4 0 of Inl e \<Rightarrow> Inl e | Inr msk \<Rightarrow>
     (case opt_int32 E stack 5 session of Inl e \<Rightarrow> Inl e | Inr sess \<Rightarrow>
        Inr \<lparr>cc_cmd = cmd, cc_mask = msk, cc_session = sess, cc_schema = c_name schema, cc_object = c_name object\<rparr>)))))"

definition set_cs_cmd :: "env \<Rightarrow> lua list \<Rightarrow> net \<Rightarrow> unit api" where
  "set_cs_cmd E stack n = bind_arg (cmd_args E stack (nt_session n)) n (\<lambda>cfg.
     Inr (Inr (), n\<lparr>cs_cmds := (cs_cmds n)(cc_cmd cfg \<mapsto> cfg)\<rparr>))"

definition set_ss_cmd :: "env \<Rightarrow> lua list \<Rightarrow> net \<Rightarrow> unit api" where
  "set_ss_cmd E stack n = bind_arg (cmd_args E stack (nt_session n)) n (\<lambda>cfg.
     Inr (Inr (), n\<lparr>ss_cmds := (ss_cmds n)(cc_cmd cfg \<mapsto> cfg)\<rparr>))"

definition set_sc_cmd :: "env \<Rightarrow> lua list \<Rightarrow> net \<Rightarrow> unit api" where
  "set_sc_cmd E stack n = bind_arg (cmd_args E stack (nt_session n)) n (\<lambda>cfg.
     Inr (Inr (), n\<lparr>sc_cmds := (sc_cmds n)(cc_cmd cfg \<mapsto> cfg)\<rparr>))"

definition set_curr_session :: "env \<Rightarrow> lua list \<Rightarrow> net \<Rightarrow> unit api" where
  "set_curr_session E stack n = bind_arg (check_int32 E stack 1) n (\<lambda>s. Inr (Inr (), n\<lparr>nt_session := s\<rparr>))"

definition set_conn_owner :: "env \<Rightarrow> lua list \<Rightarrow> net \<Rightarrow> unit api" where
  "set_conn_owner E stack n =
     bind_arg (check_int32 E stack 1) n (\<lambda>c.
     bind_arg (check_int32 E stack 2) n (\<lambda>own.
     bind_arg (check_some NoSocket (get_conn_by_conn_id c n)) n (\<lambda>c.
     bind_res (deref c n) (\<lambda>sk.
     bind_arg (check_cond IllegalConnection (sk_type sk = CT_SCCN)) n (\<lambda>_.
       let n1 = sk_upd c (\<lambda>sk. sk\<lparr>sk_object := own\<rparr>) n
       in Inr (Inr (), n1\<lparr>nt_owners := (nt_owners n1)(own \<mapsto> c)\<rparr>))))))"

definition unset_conn_owner :: "env \<Rightarrow> lua list \<Rightarrow> net \<Rightarrow> unit api" where
  "unset_conn_owner E stack n =
     bind_arg (check_int32 E stack 1) n (\<lambda>c.
     bind_arg (check_int32 E stack 2) n (\<lambda>own.
       let n1 = n\<lparr>nt_owners := (nt_owners n)(own := None)\<rparr>
       in case get_conn_by_conn_id c n1 of
            None \<Rightarrow> Inr (Inr (), n1)
          | Some c \<Rightarrow> bind_res (deref c n1) (\<lambda>_. Inr (Inr (), sk_upd c (\<lambda>sk. sk\<lparr>sk_object := 0\<rparr>) n1))))"

definition set_conn_session :: "env \<Rightarrow> lua list \<Rightarrow> net \<Rightarrow> unit api" where
  "set_conn_session E stack n =
     bind_arg (check_int32 E stack 1) n (\<lambda>c.
     bind_arg (check_int32 E stack 2) n (\<lambda>session.
     bind_arg (check_some NoSocket (get_conn_by_conn_id c n)) n (\<lambda>c.
     bind_res (deref c n) (\<lambda>sk.
     bind_arg (check_cond IllegalConnection (sk_type sk = CT_SSCN)) n (\<lambda>_.
       Inr (Inr (), n\<lparr>nt_sessions := (nt_sessions n)(session \<mapsto> c),
         nt_conn_session := (nt_conn_session n)(c \<mapsto> session)\<rparr>))))))"

definition set_player_session :: "env \<Rightarrow> lua list \<Rightarrow> net \<Rightarrow> unit api" where
  "set_player_session E stack n =
     bind_arg (check_int32 E stack 1) n (\<lambda>own.
     bind_arg (check_int32 E stack 2) n (\<lambda>session.
       Inr (Inr (), n\<lparr>nt_owner_session := (nt_owner_session n)(own := (if session \<le> 0 then None else Some session))\<rparr>)))"

definition get_player_session :: "env \<Rightarrow> lua list \<Rightarrow> net \<Rightarrow> int api" where
  "get_player_session E stack n =
     bind_arg (check_int32 E stack 1) n (\<lambda>own.
       Inr (Inr (case nt_owner_session n own of None \<Rightarrow> -1 | Some s \<Rightarrow> s), n))"

end
