(* ===== verification/NetApi.thy ===== *)
theory NetApi
  imports NetSocket
begin

text \<open>
  The functions of \<open>lua_cpplib/lnetwork_mgr.cpp\<close> with which scripts open, set up and use
  connections. \<open>stack\<close> holds the arguments from slot 1 on.
\<close>

section \<open>Opening and setting up\<close>

definition conn_type_of :: "int \<Rightarrow> conn_type option" where
  "conn_type_of t = (if t = 1 then Some CT_CSCN else if t = 2 then Some CT_SCCN else if t = 3 then Some CT_SSCN else None)"

definition conn_type_no :: "conn_type \<Rightarrow> int" where
  "conn_type_no ty = (case ty of CT_NONE \<Rightarrow> 0 | CT_CSCN \<Rightarrow> 1 | CT_SCCN \<Rightarrow> 2 | CT_SSCN \<Rightarrow> 3)"

text \<open>-1 is what \<open>listen\<close> returns next to a message; \<open>os\<close> is the kernel's descriptor.\<close>

definition mgr_listen :: "env \<Rightarrow> int option \<Rightarrow> lua list \<Rightarrow> net \<Rightarrow> int api" where
  "mgr_listen E os stack n =
     bind_arg (check_string E stack 1) n (\<lambda>_.
     bind_arg (check_int32 E stack 2) n (\<lambda>_.
     bind_arg (check_int32 E stack 3) n (\<lambda>t.
       case conn_type_of t of
         None \<Rightarrow> Inr (Inr (-1), n)
       | Some ty \<Rightarrow>
           bind_res (new_connect_id n) (\<lambda>(c, n1).
           bind_res (sk_listen c os (new_sock c ty n1)) (\<lambda>(fd, n2).
             if fd < 0 then Inr (Inr (-1), del_sock c n2)
             else Inr (Inr c, n2\<lparr>nt_map := insert c (nt_map n2)\<rparr>))))))"

definition mgr_connect :: "env \<Rightarrow> int option \<Rightarrow> lua list \<Rightarrow> net \<Rightarrow> int api" where
  "mgr_connect E os stack n =
     bind_arg (check_string E stack 1) n (\<lambda>_.
     bind_arg (check_int32 E stack 2) n (\<lambda>_.
     bind_arg (check_int32 E stack 3) n (\<lambda>t.
     bind_arg (check_some IllegalConnection (conn_type_of t)) n (\<lambda>ty.
     bind_res (new_connect_id n) (\<lambda>(c, n1).
     bind_res (sk_connect c os (new_sock c ty n1)) (\<lambda>(fd, n2).
       if fd = -1 then Inr (Inl OsError, del_sock c n2)
       else Inr (Inr c, n2\<lparr>nt_map := insert c (nt_map n2)\<rparr>)))))))"

text \<open>The socket of an argument.\<close>

definition with_sock :: "int \<Rightarrow> net \<Rightarrow> (sock \<Rightarrow> 'a api) \<Rightarrow> 'a api" where
  "with_sock c n f =
     bind_arg (check_some NoSocket (get_conn_by_conn_id c n)) n (\<lambda>c. bind_res (deref c n) f)"

definition mgr_close :: "env \<Rightarrow> lua list \<Rightarrow> net \<Rightarrow> unit api" where
  "mgr_close E stack n =
     bind_arg (check_int32 E stack 1) n (\<lambda>c.
     with_sock c n (\<lambda>_.
       let flsh = (case stack_at stack 2 of LNil \<Rightarrow> False | LBool b \<Rightarrow> b | _ \<Rightarrow> True)
       in bind_res (stop E flsh False c n) (\<lambda>n1. Inr (Inr (), n1))))"

definition get_connect_type :: "env \<Rightarrow> lua list \<Rightarrow> net \<Rightarrow> int api" where
  "get_connect_type E stack n =
     bind_arg (check_int32 E stack 1) n (\<lambda>c. with_sock c n (\<lambda>sk. Inr (Inr (conn_type_no (sk_type sk)), n)))"

definition set_conn_io :: "env \<Rightarrow> lua list \<Rightarrow> net \<Rightarrow> unit api" where
  "set_conn_io E stack n =
     bind_arg (check_int32 E stack 1) n (\<lambda>c.
     bind_arg (check_int32 E stack 2) n (\<lambda>io.
     bind_arg (opt_int32 E stack 3 0) n (\<lambda>_.
     with_sock c n (\<lambda>sk.
       if io < 0 \<or> io \<ge> 2 then Inr (Inl IllegalIo, n)
       else
         bind_res (check (sk_w sk) AssertionFailed) (\<lambda>_.
         let n1 = sk_upd c (\<lambda>sk. sk\<lparr>sk_io := Some io\<rparr>) n
         in Inr (Inr (), n1\<lparr>nt_io := sys_upd c (\<lambda>w. w\<lparr>io_obj := True\<rparr>) (nt_io n1)\<rparr>))))))"

definition set_conn_codec :: "env \<Rightarrow> lua list \<Rightarrow> net \<Rightarrow> unit api" where
  "set_conn_codec E stack n =
     bind_arg (check_int32 E stack 1) n (\<lambda>c.
     bind_arg (check_int32 E stack 2) n (\<lambda>ty.
     with_sock c n (\<lambda>_.
       if codec_type_ok ty then Inr (Inr (), sk_upd c (\<lambda>sk. sk\<lparr>sk_codec := ty\<rparr>) n)
       else Inr (Inl IllegalCodec, n))))"

definition packet_type_of :: "int \<Rightarrow> packet_type option" where
  "packet_type_of t = (if t = 1 then Some PT_HTTP else if t = 2 then Some PT_STREAM
     else if t = 3 then Some PT_WEBSOCKET else if t = 4 then Some PT_WSSTREAM else None)"

text \<open>\<open>PT_NONE\<close> passes the check of its range and then deletes the packet object.\<close>

definition set_conn_packet :: "env \<Rightarrow> lua list \<Rightarrow> net \<Rightarrow> unit api" where
  "set_conn_packet E stack n =
     bind_arg (check_int32 E stack 1) n (\<lambda>c.
     bind_arg (check_int32 E stack 2) n (\<lambda>t.
     with_sock c n (\<lambda>_.
       if t < 0 \<or> t \<ge> 5 then Inr (Inl IllegalPacket, n)
       else let n1 = sk_upd c (\<lambda>sk. sk\<lparr>sk_packet := packet_type_of t\<rparr>) n
            in Inr (if packet_type_of t = None then Inl IllegalPacket else Inr (), n1))))"

definition set_buffer_params :: "env \<Rightarrow> lua list \<Rightarrow> net \<Rightarrow> unit api" where
  "set_buffer_params E stack n =
     bind_arg (check_int32 E stack 1) n (\<lambda>c.
     bind_arg (check_int32 E stack 2) n (\<lambda>send_max.
     bind_arg (check_int32 E stack 3) n (\<lambda>recv_max.
     bind_arg (opt_int32 E stack 4 0) n (\<lambda>msk.
     with_sock c n (\<lambda>sk.
       bind_res (check (sk_w sk) AssertionFailed) (\<lambda>_.
         Inr (Inr (), n\<lparr>nt_io := sys_upd c (\<lambda>w. w\<lparr>io_mask := or (io_mask w) (word_of_int msk)\<rparr>) (nt_io n),
           nt_send := (nt_send n)(c := set_chunk_size send_max (nt_send n c)),
           nt_recv := (nt_recv n)(c := set_chunk_size recv_max (nt_recv n c))\<rparr>)))))))"

section \<open>Sending\<close>

text \<open>\<open>CT_NONE\<close> stands for any type of connection. None is null, which no path returns.\<close>

definition raw_check_packet :: "int \<Rightarrow> conn_type \<Rightarrow> net \<Rightarrow> packet_type api" where
  "raw_check_packet c ty n =
     with_sock c n (\<lambda>sk.
       if is_closed sk then Inr (Inl SocketClosed, n)
       else if ty \<noteq> CT_NONE \<and> ty \<noteq> sk_type sk then Inr (Inl IllegalConnection, n)
       else case sk_packet sk of None \<Rightarrow> Inr (Inl NoPacket, n) | Some p \<Rightarrow> Inr (Inr p, n))"

definition bind_api :: "'a api \<Rightarrow> ('a \<Rightarrow> net \<Rightarrow> 'b api) \<Rightarrow> 'b api" where
  "bind_api m f = bind_res m (\<lambda>(r, n). case r of Inl e \<Rightarrow> Inr (Inl e, n) | Inr x \<Rightarrow> f x n)"

lemma bind_api_simps [simp]:
  "bind_api (Inl e) f = Inl e" "bind_api (Inr (Inl e', n)) f = Inr (Inl e', n)" "bind_api (Inr (Inr x, n)) f = f x n"
  by (simp_all add: bind_api_def)

definition lua_check_packet :: "env \<Rightarrow> lua list \<Rightarrow> conn_type \<Rightarrow> net \<Rightarrow> (int \<times> packet_type) api" where
  "lua_check_packet E stack ty n =
     bind_arg (check_int32 E stack 1) n (\<lambda>c. bind_api (raw_check_packet c ty n) (\<lambda>p n. Inr (Inr (c, p), n)))"

definition send_srv_packet :: "env \<Rightarrow> lua list \<Rightarrow> net \<Rightarrow> unit api" where
  "send_srv_packet E stack n =
     bind_api (lua_check_packet E stack CT_NONE n) (\<lambda>(c, p) n.
     bind_api (if p = PT_STREAM then pack_srv E c stack 2 n else k_pack_srv E p c stack 2 n) (\<lambda>_ n. Inr (Inr (), n)))"

definition send_clt_packet :: "env \<Rightarrow> lua list \<Rightarrow> net \<Rightarrow> unit api" where
  "send_clt_packet E stack n =
     bind_api (lua_check_packet E stack CT_NONE n) (\<lambda>(c, p) n.
     bind_api (if p = PT_STREAM then pack_clt E c stack 2 n else k_pack_clt E p c stack 2 n) (\<lambda>_ n. Inr (Inr (), n)))"

text \<open>The packets between servers, which only a stream packet can pack.\<close>

definition stream_only :: "env \<Rightarrow> lua list \<Rightarrow> net \<Rightarrow> (int \<Rightarrow> net \<Rightarrow> 'a api) \<Rightarrow> 'a api" where
  "stream_only E stack n f =
     bind_api (lua_check_packet E stack CT_SSCN n) (\<lambda>(c, p) n.
       if p \<noteq> PT_STREAM then Inr (Inl IllegalPacket, n) else f c n)"

definition send_s2s_packet :: "env \<Rightarrow> lua list \<Rightarrow> net \<Rightarrow> unit api" where
  "send_s2s_packet E stack n =
     stream_only E stack n (\<lambda>c n. bind_api (pack_ss E c stack 2 n) (\<lambda>_ n. Inr (Inr (), n)))"

definition send_ssc_packet :: "env \<Rightarrow> lua list \<Rightarrow> net \<Rightarrow> unit api" where
  "send_ssc_packet E stack n =
     stream_only E stack n (\<lambda>c n. bind_api (pack_ssc E c stack 2 n) (\<lambda>_ n. Inr (Inr (), n)))"

definition send_rpc_packet :: "env \<Rightarrow> lua list \<Rightarrow> net \<Rightarrow> unit api" where
  "send_rpc_packet E stack n =
     stream_only E stack n (\<lambda>c n. bind_api (pack_rpc E c stack 2 n) (\<lambda>r n.
       Inr (if r \<noteq> 0 then Inl RpcFailed else Inr (), n)))"

definition mgr_ssc_multicast :: "env \<Rightarrow> lua list \<Rightarrow> net \<Rightarrow> unit api" where
  "mgr_ssc_multicast E stack n =
     stream_only E stack n (\<lambda>c n. bind_api (pack_ssc_multicast E c stack 2 n) (\<lambda>_ n. Inr (Inr (), n)))"

definition send_raw_packet :: "env \<Rightarrow> lua list \<Rightarrow> net \<Rightarrow> unit api" where
  "send_raw_packet E stack n =
     bind_arg (check_int32 E stack 1) n (\<lambda>c.
     with_sock c n (\<lambda>sk.
       if is_closed sk then Inr (Inl NoSocket, n)
       else
         bind_arg (check_string E stack 2) n (\<lambda>data.
         bind_res (sk_append E c data n) (\<lambda>n1.
         bind_res (sk_flush c n1) (\<lambda>n2. Inr (Inr (), n2))))))"

section \<open>Broadcasting\<close>

text \<open>The loop over the table of connections; a connection that fails the check raises an error.\<close>

fun multicast_loop ::
  "(int \<Rightarrow> packet_type \<Rightarrow> net \<Rightarrow> (int \<times> net) result) \<Rightarrow> (lua \<times> lua) list \<Rightarrow> net \<Rightarrow> unit api" where
  "multicast_loop pack [] n = Inr (Inr (), n)"
| "multicast_loop pack ((k, v) # kvs) n =
     (case v of
        LInt w \<Rightarrow>
          bind_api (raw_check_packet (to_i32 (sint w)) CT_SSCN n) (\<lambda>p n1.
          bind_res (pack (to_i32 (sint w)) p n1) (\<lambda>(_, n2). multicast_loop pack kvs n2))
      | _ \<Rightarrow> Inr (Inl IntegerExpected, n))"

text \<open>
  What the two broadcasts share: the arguments, the encoding, the loop. The encoder is not
  tested for null; the test is made on the command's configuration a second time.
\<close>

definition multicast ::
  "env \<Rightarrow> (int \<rightharpoonup> cmd_cfg) \<Rightarrow> (int \<Rightarrow> packet_type \<Rightarrow> 16 word \<Rightarrow> 16 word \<Rightarrow> 8 word list \<Rightarrow> net \<Rightarrow> (int \<times> net) result) \<Rightarrow>
   lua list \<Rightarrow> net \<Rightarrow> unit api" where
  "multicast E cmds pack stack n =
     bind_arg (check_table stack 1) n (\<lambda>conns.
     bind_arg (check_int32 E stack 2) n (\<lambda>codec_ty.
     bind_arg (check_u16 E stack 3) n (\<lambda>cmd.
     bind_arg (check_u16 E stack 4) n (\<lambda>ecode.
     bind_arg (check_cond IllegalCodec (codec_type_ok codec_ty)) n (\<lambda>_.
     bind_arg (check_table stack 5) n (\<lambda>_.
     bind_arg (check_some NoCommand (cmds (uint cmd))) n (\<lambda>cfg.
       case get_codec E codec_ty of
         None \<Rightarrow> Inl NullDeref
       | Some encoder \<Rightarrow>
           bind_res (cd_encode encoder stack 5 (Some cfg)) (\<lambda>enc.
             case enc of
               None \<Rightarrow> Inr (Inr (), n)
             | Some buffer \<Rightarrow>
                 bind_arg (check_cond OverMax (length buffer \<le> MAX_PACKET_LEN)) n (\<lambda>_.
                   multicast_loop (\<lambda>c p. pack c p cmd ecode buffer) conns n)))))))))"

definition srv_multicast :: "env \<Rightarrow> lua list \<Rightarrow> net \<Rightarrow> unit api" where
  "srv_multicast E stack n =
     multicast E (ss_cmds n) (\<lambda>c p cmd ecode buffer n1.
       if p = PT_STREAM then raw_pack_ss E c (uint cmd) ecode (nt_session n1) buffer (length buffer) n1
       else Inl AssertionFailed) stack n"

definition clt_multicast :: "env \<Rightarrow> lua list \<Rightarrow> net \<Rightarrow> unit api" where
  "clt_multicast E stack n =
     multicast E (sc_cmds n) (\<lambda>c p cmd ecode buffer n1.
       pkt_raw_clt E (Some p) c (uint cmd) ecode buffer (length buffer) n1) stack n"

end
