(* ===== verification/NetCorrect.thy ===== *)
theory NetCorrect
  imports NetApi BufferQueue
begin

text \<open>
  Framing: however the bytes arrive, the packets that the loop of \<open>command_cb\<close> hands to the
  handlers are exactly those that a reference parser finds in the byte string.
\<close>

section \<open>Reading from the buffer\<close>

lemma to_flat_large:
  assumes "to_flat_ctx len b = Inr (Some bs, b1)" "chunks b = c # cs" "get_used_size c < len"
  shows "bs = take len (large b1)"
proof -
  let ?b1 = "get_large_buffer len b" and ?d = "flat_loop len (c # cs)"
  have "get_used_size c \<noteq> 0" 
  proof
    assume "get_used_size c = 0"
    then show False using assms(1,2) by (simp add: to_flat_ctx_def)
  qed
  then have "bind_res (check (length ?d \<le> len) AssertionFailed) (\<lambda>_. bind_res (memcpy (large ?b1) 0 ?d) (\<lambda>l.
      Inr (if length ?d = len then Some (take len l) else None, ?b1\<lparr>large := l\<rparr>))) = Inr (Some bs, b1)"
    using assms by (simp add: to_flat_ctx_def Let_def)
  then show ?thesis by (auto simp: bind_res_eq_Inr split: if_splits)
qed

lemma flat_mem_ok:
  assumes "buf_inv b" "chunks b \<noteq> []"
  shows "\<exists>m l. flat_mem len b = Inr (m, b\<lparr>large := l\<rparr>) \<and>
    (m = None \<longleftrightarrow> content b = [] \<or> length (content b) < len) \<and>
    (\<forall>x. m = Some x \<longrightarrow> take len x = take len (content b))"
proof -
  obtain c cs where cs: "chunks b = c # cs" using assms(2) by (cases "chunks b") auto
  have wf: "chunk_wf c" using assms(1) cs by (auto simp: buf_inv_def intro: chunks_inv_hd)
  obtain l where l: "to_flat_ctx len b =
      Inr (if content b = [] \<or> length (content b) < len then None else Some (take len (content b)), b\<lparr>large := l\<rparr>)"
    using to_flat_ctx_ok [OF assms] by blast
  let ?m = "if content b = [] \<or> length (content b) < len then None
    else Some (if len \<le> get_used_size c then get_used_ctx c else l)"
  have "flat_mem len b = Inr (?m, b\<lparr>large := l\<rparr>)" unfolding flat_mem_def l by (simp add: cs)
  moreover have "take len x = take len (content b)" if "?m = Some x" for x
  proof (cases "len \<le> get_used_size c")
    case True
    then have "take len (get_used_ctx c) = take len (content b)"
      using take_used_bytes [OF True] wf by (simp add: content_def cs)
    then show ?thesis using that True by (auto split: if_splits)
  next
    case False
    then have "to_flat_ctx len b = Inr (Some (take len (content b)), b\<lparr>large := l\<rparr>)" "x = l"
      using l that by (auto split: if_splits)
    then show ?thesis using to_flat_large [OF _ cs, of len "take len (content b)"] False by auto
  qed
  ultimately show ?thesis by auto
qed

lemma check_used_size_ok: "buf_inv b \<Longrightarrow> check_used_size len b \<longleftrightarrow> len \<le> length (content b)"
  by (simp add: check_used_size_def check_used_loop_ge content_length)

text \<open>The length field at the front of a byte string.\<close>

definition len_field :: "8 word list \<Rightarrow> nat" where
  "len_field bs = unat (word_of_nat (of_le (take 2 bs)) :: 16 word)"

lemma read_len: "2 \<le> length mem \<Longrightarrow> read_u16 0 mem = Inr (word_of_nat (of_le (take 2 mem)))"
  by (simp add: read_u16_def read_mem_def)

lemma take_mono_eq: "take n xs = take n ys \<Longrightarrow> m \<le> n \<Longrightarrow> take m xs = take m ys"
  by (metis min.absorb1 take_take)

lemma take_length_ge: "take n xs = take n ys \<Longrightarrow> n \<le> length ys \<Longrightarrow> n \<le> length xs"
  by (metis length_take min.absorb_iff2 min.cobounded1)

text \<open>
  One \<open>unpack\<close>: too few bytes for the header or the packet and it waits, otherwise it
  dispatches the packet and removes it.
\<close>

lemma sp_unpack_wait:
  assumes "buf_inv (nt_recv n c)" "chunks (nt_recv n c) \<noteq> []"
    and "length (content (nt_recv n c)) < 4 \<or> length (content (nt_recv n c)) < len_field (content (nt_recv n c))"
  shows "\<exists>l. sp_unpack E c n = Inr (0, set_recv c ((nt_recv n c)\<lparr>large := l\<rparr>) n)"
proof -
  let ?b = "nt_recv n c"
  obtain m l where m: "flat_mem base_size ?b = Inr (m, ?b\<lparr>large := l\<rparr>)"
    "m = None \<longleftrightarrow> content ?b = [] \<or> length (content ?b) < base_size"
    "\<And>x. m = Some x \<Longrightarrow> take base_size x = take base_size (content ?b)"
    using flat_mem_ok [OF assms(1,2), of base_size] by blast
  have inv: "buf_inv (?b\<lparr>large := l\<rparr>)" "content (?b\<lparr>large := l\<rparr>) = content ?b"
    using assms(1) by (simp_all add: buf_inv_def content_def)
  show ?thesis
  proof (cases m)
    case None
    then show ?thesis using m(1) by (auto simp: sp_unpack_def)
  next
    case (Some mem)
    then have ge: "4 \<le> length (content ?b)" using m(2) by (simp add: base_size_def not_less)
    have t: "take 4 mem = take 4 (content ?b)" using m(3) [OF Some] by (simp add: base_size_def)
    have "take 2 mem = take 2 (content ?b)" "2 \<le> length mem"
      using take_mono_eq [OF t, of 2] take_length_ge [OF t ge] by simp_all
    then have r: "read_u16 0 mem = Inr (word_of_nat (of_le (take 2 (content ?b))))" by (simp add: read_len)
    have "length (content ?b) < len_field (content ?b)" using assms(3) ge by simp
    then have "\<not> check_used_size (unat (word_of_nat (of_le (take 2 (content ?b))) :: 16 word)) (?b\<lparr>large := l\<rparr>)"
      using check_used_size_ok [OF inv(1)] inv(2) by (simp add: len_field_def)
    then show ?thesis using m(1) Some r by (auto simp: sp_unpack_def)
  qed
qed

lemma sp_unpack_packet:
  assumes "buf_inv (nt_recv n c)" "chunks (nt_recv n c) \<noteq> []"
    and "4 \<le> length (content (nt_recv n c))" "len_field (content (nt_recv n c)) \<le> length (content (nt_recv n c))"
  shows "\<exists>mem l. take (len_field (content (nt_recv n c))) mem = take (len_field (content (nt_recv n c))) (content (nt_recv n c)) \<and>
    sp_unpack E c n = bind_res (dispatch E c mem (set_recv c ((nt_recv n c)\<lparr>large := l\<rparr>) n)) (\<lambda>n1.
      bind_res (Buffer.remove (len_field (content (nt_recv n c))) (nt_recv n1 c)) (\<lambda>(next_used, b).
        Inr (if next_used then 1 else 0, set_recv c b n1)))"
proof -
  let ?b = "nt_recv n c" and ?w = "word_of_nat (of_le (take 2 (content (nt_recv n c)))) :: 16 word"
  obtain m l where m: "flat_mem base_size ?b = Inr (m, ?b\<lparr>large := l\<rparr>)"
    "m = None \<longleftrightarrow> content ?b = [] \<or> length (content ?b) < base_size"
    "\<And>x. m = Some x \<Longrightarrow> take base_size x = take base_size (content ?b)"
    using flat_mem_ok [OF assms(1,2), of base_size] by blast
  let ?b1 = "?b\<lparr>large := l\<rparr>"
  have inv: "buf_inv ?b1" "content ?b1 = content ?b" "chunks ?b1 \<noteq> []"
    using assms(1,2) by (simp_all add: buf_inv_def content_def)
  have ne: "content ?b \<noteq> []" using assms(3) by auto
  then obtain mem where Some: "m = Some mem" using m(2) assms(3) by (cases m) (auto simp: base_size_def)
  have t: "take 4 mem = take 4 (content ?b)" using m(3) [OF Some] by (simp add: base_size_def)
  have "take 2 mem = take 2 (content ?b)" "2 \<le> length mem"
    using take_mono_eq [OF t, of 2] take_length_ge [OF t assms(3)] by simp_all
  then have r: "read_u16 0 mem = Inr ?w" by (simp add: read_len)
  obtain m2 l2 where m2: "flat_mem (unat ?w) ?b1 = Inr (m2, ?b1\<lparr>large := l2\<rparr>)"
    "m2 = None \<longleftrightarrow> content ?b1 = [] \<or> length (content ?b1) < unat ?w"
    "\<And>x. m2 = Some x \<Longrightarrow> take (unat ?w) x = take (unat ?w) (content ?b1)"
    using flat_mem_ok [OF inv(1,3), of "unat ?w"] by blast
  have chk: "check_used_size (unat ?w) ?b1"
    using check_used_size_ok [OF inv(1)] inv(2) assms(4) by (simp add: len_field_def)
  obtain mem2 where Some2: "m2 = Some mem2" using m2(2) ne assms(4) inv(2) by (cases m2) (auto simp: len_field_def)
  have "take (len_field (content ?b)) mem2 = take (len_field (content ?b)) (content ?b)"
    using m2(3) [OF Some2] inv(2) by (simp add: len_field_def)
  moreover have "sp_unpack E c n = bind_res (dispatch E c mem2 (set_recv c (?b\<lparr>large := l2\<rparr>) n)) (\<lambda>n1.
      bind_res (Buffer.remove (len_field (content ?b)) (nt_recv n1 c)) (\<lambda>(next_used, b).
        Inr (if next_used then 1 else 0, set_recv c b n1)))"
    using m(1) Some r chk m2(1) Some2 unfolding sp_unpack_def len_field_def by simp
  ultimately show ?thesis by blast
qed

section \<open>A handler reads its packet only\<close>

lemma read_prefix [simp]:
  "off + k \<le> length p \<Longrightarrow> read_mem off k (p @ j) = read_mem off k p"
  "off + 2 \<le> length p \<Longrightarrow> read_u16 off (p @ j) = read_u16 off p"
  "off + 4 \<le> length p \<Longrightarrow> read_i32 off (p @ j) = read_i32 off p"
  by (simp_all add: read_mem_def read_u16_def read_i32_def)

lemma payload_prefix:
  assumes "len \<le> length ctx"
  shows "decode_payload E cd (ctx @ j) len cfg = decode_payload E cd ctx len cfg"
    "decode_and_call E ty (ctx @ j) len cfg fn args n = decode_and_call E ty ctx len cfg fn args n"
    "send_msg E c h (ctx @ j) len n = send_msg E c h ctx len n"
    "raw_pack_clt E c cmd ecode (ctx @ j) len n = raw_pack_clt E c cmd ecode ctx len n"
    "pkt_raw_clt E pk c cmd ecode (ctx @ j) len n = pkt_raw_clt E pk c cmd ecode ctx len n"
    "cs_dispatch E w c (ctx @ j) len n = cs_dispatch E w c ctx len n"
    "cs_command E c w (ctx @ j) len n = cs_command E c w ctx len n"
    "ssc_one_multicast E own cmd ecode (ctx @ j) len n = ssc_one_multicast E own cmd ecode ctx len n"
proof -
  have r: "read_mem 0 len (ctx @ j) = read_mem 0 len ctx" using assms by simp
  show 1: "decode_payload E cd (ctx @ j) len cfg = decode_payload E cd ctx len cfg" for cd cfg
    by (simp add: decode_payload_def r cong: option.case_cong if_cong packet_type.case_cong)
  show 2: "decode_and_call E ty (ctx @ j) len cfg fn args n = decode_and_call E ty ctx len cfg fn args n" for ty cfg fn args n
    by (simp add: decode_and_call_def 1 cong: option.case_cong if_cong packet_type.case_cong)
  show 3: "send_msg E c h (ctx @ j) len n = send_msg E c h ctx len n" for c h n
    by (simp add: send_msg_def r cong: option.case_cong if_cong packet_type.case_cong)
  show 4: "raw_pack_clt E c cmd ecode (ctx @ j) len n = raw_pack_clt E c cmd ecode ctx len n" for c cmd ecode n
    by (simp add: raw_pack_clt_def 3 cong: option.case_cong if_cong packet_type.case_cong)
  show 5: "pkt_raw_clt E pk c cmd ecode (ctx @ j) len n = pkt_raw_clt E pk c cmd ecode ctx len n" for pk c cmd ecode n
    by (simp add: pkt_raw_clt_def 4 r cong: option.case_cong if_cong packet_type.case_cong)
  show "cs_dispatch E w c (ctx @ j) len n = cs_dispatch E w c ctx len n"
    by (simp add: cs_dispatch_def r cong: option.case_cong if_cong packet_type.case_cong)
  show "cs_command E c w (ctx @ j) len n = cs_command E c w ctx len n"
    by (simp add: cs_command_def 2 cong: option.case_cong if_cong packet_type.case_cong)
  show "ssc_one_multicast E own cmd ecode (ctx @ j) len n = ssc_one_multicast E own cmd ecode ctx len n"
    by (simp add: ssc_one_multicast_def 5 cong: option.case_cong if_cong packet_type.case_cong)
qed

lemma cast_table_prefix:
  "len \<le> length ctx \<Longrightarrow> cast_table E kvs cmd ecode (ctx @ j) len n = cast_table E kvs cmd ecode ctx len n"
  by (induction kvs arbitrary: n rule: list.induct)
     (auto simp: payload_prefix split: lua.splits intro!: bind_res_cong)

text \<open>A packet that is as long as it says and holds the fixed part of its header.\<close>

definition head_size :: "conn_type \<Rightarrow> 8 word list \<Rightarrow> nat" where
  "head_size ty p = (case ty of CT_NONE \<Rightarrow> base_size | CT_CSCN \<Rightarrow> s2c_size | CT_SCCN \<Rightarrow> c2s_size
     | CT_SSCN \<Rightarrow> if read_u16 6 p = Inr SPT_CBCP then s2s_size + 8 else s2s_size)"

definition whole :: "conn_type \<Rightarrow> 8 word list \<Rightarrow> bool" where
  "whole ty p \<longleftrightarrow> len_field p = length p \<and> head_size ty p \<le> length p"

lemma head_size_ge: "4 \<le> head_size ty p"
  by (auto simp: head_size_def msg_defs split: conn_type.splits)

lemma whole_len:
  assumes "whole ty p"
  shows "read_u16 0 p = Inr (word_of_nat (length p))" "unat (word_of_nat (length p) :: 16 word) = length p" "4 \<le> length p"
proof -
  show ge: "4 \<le> length p" using assms head_size_ge [of ty p] by (simp add: whole_def)
  have l: "len_field p = length p" using assms by (simp add: whole_def)
  let ?w = "word_of_nat (of_le (take 2 p)) :: 16 word"
  have w: "unat ?w = length p" using l by (simp add: len_field_def)
  moreover have "word_of_nat (unat ?w) = ?w" by simp
  ultimately have "?w = word_of_nat (length p)" by metis
  then show "read_u16 0 p = Inr (word_of_nat (length p))" "unat (word_of_nat (length p) :: 16 word) = length p"
    using read_len [of p] ge w by simp_all
qed

lemma whole_payload:
  assumes "whole ty p" "hs \<le> length p"
  shows "packet_buffer_len hs (word_of_nat (length p)) = length p - hs"
  using packet_buffer_len_ok [of hs "word_of_nat (length p)"] whole_len(2) [OF assms(1)] assms(2) by simp

lemma multicast_prefix:
  assumes w: "whole CT_SSCN p" and ge: "22 \<le> length p"
  shows "ssc_multicast E (p @ j) n = ssc_multicast E p n"
proof -
  have f: "read_i32 14 (p @ j) = read_i32 14 p" "read_i32 18 (p @ j) = read_i32 18 p" "read_u16 0 (p @ j) = read_u16 0 p"
    "read_u16 2 (p @ j) = read_u16 2 p" "read_u16 4 (p @ j) = read_u16 4 p"
    using ge by simp_all
  have len: "read_u16 0 p = Inr (word_of_nat (length p))" by (rule whole_len(1) [OF w])
  have sz: "packet_buffer_len s2s_size (word_of_nat (length p)) = length p - s2s_size"
    using whole_payload [OF w, of s2s_size] ge by (simp add: s2s_size_def)
  show ?thesis
    unfolding ssc_multicast_def f len sz
  proof (intro bind_res_cong refl if_cong, goal_cases)
    case (1 mask count len cmd ecode)
    then have len': "len = word_of_nat (length p)" by simp
    let ?ll = "unat (4 * word_of_int (count + 2) :: 64 word)"
    have reads: "read_i32 (22 + 4 * i) (p @ j) = read_i32 (22 + 4 * i) p"
      if "?ll \<le> length p - s2s_size" "i < nat count" "count \<le> 256" for i
    proof -
      have "0 \<le> count" using that(2) by simp
      then have "4 * word_of_int (count + 2) = (word_of_nat (4 * nat (count + 2)) :: 64 word)"
        by (simp add: of_nat_nat)
      then have "?ll = unat (word_of_nat (4 * nat (count + 2)) :: 64 word)" by (simp only:)
      also have "\<dots> = 4 * nat (count + 2)"
        unfolding unsigned_of_nat take_bit_nat_def using that(3) by simp
      finally have "?ll = 4 * nat (count + 2)" .
      then have "4 * nat (count + 2) + 14 \<le> length p" using that(1) ge by (simp add: s2s_size_def)
      then have "22 + 4 * i + 4 \<le> length p" using that(2) by linarith
      then show ?thesis by simp
    qed
    show ?case
    proof (cases "packet_buffer_len s2s_size len < ?ll")
      case False
      then have le: "?ll \<le> length p - s2s_size" by (simp add: len' sz)
      have d: "drop (s2s_size + ?ll) (p @ j) = drop (s2s_size + ?ll) p @ j"
        and l: "length p - s2s_size - ?ll \<le> length (drop (s2s_size + ?ll) p)"
        using le ge by (simp_all add: s2s_size_def)
      have a: "fold_res (\<lambda>idx n. bind_res (read_i32 (22 + 4 * idx) (p @ j)) (\<lambda>own.
            ssc_one_multicast E own (uint cmd) ecode (drop (s2s_size + ?ll) p @ j) (length p - s2s_size - ?ll) n)) [0..<nat count] n =
          fold_res (\<lambda>idx n. bind_res (read_i32 (22 + 4 * idx) p) (\<lambda>own.
            ssc_one_multicast E own (uint cmd) ecode (drop (s2s_size + ?ll) p) (length p - s2s_size - ?ll) n)) [0..<nat count] n"
        by (rule fold_res_cong) (use 1 reads [OF le] payload_prefix(8) [OF l] in \<open>simp add: MAX_CLT_CAST_def\<close>)
      have b: "fold_res (\<lambda>idx os. bind_res (read_i32 (22 + 4 * idx) (p @ j)) (\<lambda>own. Inr (os @ [own]))) [0..<nat count] [] =
          fold_res (\<lambda>idx os. bind_res (read_i32 (22 + 4 * idx) p) (\<lambda>own. Inr (os @ [own]))) [0..<nat count] []"
        by (rule fold_res_cong) (use 1 reads [OF le] in \<open>simp add: MAX_CLT_CAST_def\<close>)
      show ?thesis unfolding len' sz Let_def d a b cast_table_prefix [OF l] ..
    qed (simp add: Let_def)
  qed
qed

lemma dispatch_prefix:
  assumes "nt_heap n c = Some sk" and w: "whole (sk_type sk) p"
  shows "dispatch E c (p @ j) n = dispatch E c p n"
proof -
  have len: "read_u16 0 p = Inr (word_of_nat (length p))" "4 \<le> length p" using whole_len [OF w] by blast+
  have pay: "packet_buffer_len hs (word_of_nat (length p)) = length p - hs" if "hs \<le> length p" for hs
    by (rule whole_payload [OF w that])
  have dr: "drop hs (p @ j) = drop hs p @ j" "length p - hs \<le> length (drop hs p)" if "hs \<le> length p" for hs
    using that by simp_all
  show ?thesis
  proof (cases "sk_type sk")
    case CT_NONE
    then show ?thesis using assms(1) by (simp add: dispatch_def deref_def)
  next
    case CT_CSCN
    then have ge: "6 \<le> length p" using w by (simp add: whole_def head_size_def s2c_size_def)
    have "sc_command E c (p @ j) n = sc_command E c p n"
      using ge len pay [of s2c_size] dr [of s2c_size]
      by (simp add: sc_command_def s2c_size_def payload_prefix cong: option.case_cong)
    then show ?thesis using assms(1) CT_CSCN by (simp add: dispatch_def deref_def)
  next
    case CT_SCCN
    have "sp_cs_dispatch E c (p @ j) n = sp_cs_dispatch E c p n"
      using len pay [of c2s_size] dr [of c2s_size]
      by (simp add: sp_cs_dispatch_def c2s_size_def payload_prefix Let_def cong: if_cong)
    then show ?thesis using assms(1) CT_SCCN by (simp add: dispatch_def deref_def)
  next
    case CT_SSCN
    then have ge: "14 \<le> length p" and cb: "read_u16 6 p = Inr SPT_CBCP \<Longrightarrow> 22 \<le> length p"
      using w by (auto simp: whole_def head_size_def s2s_size_def split: if_splits)
    have ps: "packet_buffer_len s2s_size (word_of_nat (length p)) = length p - s2s_size"
      "drop s2s_size (p @ j) = drop s2s_size p @ j" "length p - s2s_size \<le> length (drop s2s_size p)"
      using ge pay [of s2s_size] dr [of s2s_size] by (simp_all add: s2s_size_def)
    have "ss_dispatch E c (p @ j) n = ss_dispatch E c p n" "css_command E c (p @ j) n = css_command E c p n"
      "ssc_command E (p @ j) n = ssc_command E p n" "rpc_command E c (p @ j) n = rpc_command E c p n"
      "rpc_return E c (p @ j) n = rpc_return E c p n"
      using ge len(1) ps
      by (simp_all add: ss_dispatch_def ss_command_def css_command_def ssc_command_def rpc_command_def rpc_return_def
          payload_prefix Let_def cong: option.case_cong if_cong)
    moreover have "ssc_multicast E (p @ j) n = ssc_multicast E p n" if "read_u16 6 p = Inr SPT_CBCP"
      using multicast_prefix w CT_SSCN cb [OF that] by simp
    moreover have "read_u16 6 (p @ j) = read_u16 6 p" using ge by simp
    ultimately have "process_ss_command E c (p @ j) n = process_ss_command E c p n"
      unfolding process_ss_command_def by (auto intro!: bind_res_cong)
    then show ?thesis using assms(1) CT_SSCN by (simp add: dispatch_def deref_def)
  qed
qed

section \<open>What a handler leaves alone\<close>

text \<open>
  Handlers and scripts do not take bytes out of a receive buffer, change the kind of a
  connection, replace its packet object or take its watcher away, and an open connection
  stays open: even \<open>stop\<close> leaves the status at 1, the value of both \<open>CS_OPENED\<close> and \<open>CS_CLOSING\<close>.
\<close>

definition stable :: "net \<Rightarrow> net \<Rightarrow> bool" where
  "stable n n' \<longleftrightarrow> (\<forall>c sk. nt_heap n c = Some sk \<longrightarrow>
     chunks (nt_recv n' c) = chunks (nt_recv n c) \<and> chunk_size (nt_recv n' c) = chunk_size (nt_recv n c) \<and>
     (\<exists>sk'. nt_heap n' c = Some sk' \<and> sk_type sk' = sk_type sk \<and> sk_packet sk' = sk_packet sk \<and>
        (sk_status sk = CS_OPENED \<longrightarrow> sk_status sk' = CS_OPENED) \<and> (sk_w sk \<longrightarrow> sk_w sk')))"

lemma stable_trans [trans]: "stable n n1 \<Longrightarrow> stable n1 n2 \<Longrightarrow> stable n n2"
  unfolding stable_def by (metis (no_types, lifting))

lemma stable_same: "nt_heap n' = nt_heap n \<Longrightarrow> nt_recv n' = nt_recv n \<Longrightarrow> stable n n'"
  by (simp add: stable_def)

lemma stable_refl [simp]: "stable n n"
  by (simp add: stable_def)

lemma stable_sk_upd:
  assumes "\<And>sk. nt_heap n c = Some sk \<Longrightarrow> sk_type (f sk) = sk_type sk \<and> sk_packet (f sk) = sk_packet sk \<and>
    (sk_status sk = CS_OPENED \<longrightarrow> sk_status (f sk) = CS_OPENED) \<and> (sk_w sk \<longrightarrow> sk_w (f sk))"
  shows "stable n (sk_upd c f n)"
  using assms by (auto simp: stable_def sk_upd_def)

text \<open>What the environment must keep to.\<close>

definition tame_env :: "env \<Rightarrow> bool" where
  "tame_env E \<longleftrightarrow>
     (\<forall>fn args n r n'. k_script E fn args n = Inr (r, n') \<longrightarrow> stable n n') \<and>
     (\<forall>p c cmd ecode data n r n'. k_raw_clt E p c cmd ecode data n = Inr (r, n') \<longrightarrow> stable n n')"

abbreviation "nstep \<equiv> ret_keeps stable"

abbreviation "pstep \<equiv> val_keeps stable"

interpretation st: keeps stable
  by unfold_locales (simp_all add: stable_trans)

lemmas nstep_def = ret_keeps_def [of stable] and pstep_def = val_keeps_def [of stable]

named_theorems steps \<open>operations that leave the state stable\<close>

lemma step_upd:
  "nt_heap n' = nt_heap n \<Longrightarrow> nt_recv n' = nt_recv n \<Longrightarrow> nstep n' r \<Longrightarrow> nstep n r"
  "nt_heap n' = nt_heap n \<Longrightarrow> nt_recv n' = nt_recv n \<Longrightarrow> pstep n' r' \<Longrightarrow> pstep n r'"
  using st.from_state [OF stable_same [of n' n]] by blast+

lemma step_send: "nstep (n\<lparr>nt_send := f\<rparr>) r \<Longrightarrow> nstep n r"
  by (rule step_upd(1) [of "n\<lparr>nt_send := f\<rparr>"]) simp_all

lemma step_ret_upd: "nt_heap n' = nt_heap n \<Longrightarrow> nt_recv n' = nt_recv n \<Longrightarrow> nstep n (Inr n')"
  by (simp add: nstep_def stable_same)

lemma net_ev_stable [steps]: "pstep n (net_ev f n)"
  by (auto simp: pstep_def net_ev_def bind_res_eq_Inr intro!: stable_same)

lemma stop_stable [steps]: "nstep n (stop E flsh False c n)"
proof (cases "nt_heap n c")
  case None
  then show ?thesis by (simp add: stop_def deref_def st.ret)
next
  case (Some sk)
  let ?n1 = "sk_upd c (sk_status_update (\<lambda>_. CS_CLOSING)) n"
  have 1: "stable n ?n1" by (rule stable_sk_upd) (simp add: CS_OPENED_def CS_CLOSING_def)
  have at: "nt_heap ?n1 c = Some (sk\<lparr>sk_status := CS_CLOSING\<rparr>)" using Some by (simp add: sk_upd_def)
  show ?thesis
  proof (cases "sk_w sk")
    case True
    have "nstep ?n1 (bind_res (net_ev (io_stop c flsh) ?n1) (\<lambda>(_, n2). Inr n2))"
      by (rule st.rules steps)+
    then show ?thesis using st.from_state(1) [OF 1] Some True by (simp add: stop_def deref_def)
  next
    case False
    have "stable ?n1 (sk_upd c (\<lambda>sk. sk\<lparr>sk_w := False\<rparr>) ?n1)"
      by (rule stable_sk_upd) (use at False in simp)
    then have "nstep ?n1 (close_cb E True c ?n1)" using at by (simp add: close_cb_def deref_def nstep_def)
    then show ?thesis using st.from_state(1) [OF 1] Some False by (simp add: stop_def deref_def)
  qed
qed

lemma flush_stable [steps]: "nstep n (sk_flush c n)"
  unfolding sk_flush_def by ((rule st.rules steps)+; (rule step_ret_upd; simp))

lemma append_stable [steps]: "nstep n (sk_append E c data n)"
  unfolding sk_append_def Let_def
  by (rule st.bind_pure, rule st.bind_pure, rule st.bind_pure, rule st.cases, rule st.cases)
    (rule step_send, (rule st.rules steps)+)+

lemma send_msg_stable [steps]: "nstep n (send_msg E c h ctx len n)"
  unfolding send_msg_def by (rule st.rules steps)+

lemma pack_stable [steps]:
  "pstep n (raw_pack_clt E c cmd ecode ctx len n)" "pstep n (do_pack_rpc E c uid ecode pkt stack i n)"
  unfolding raw_pack_clt_def do_pack_rpc_def Let_def by (rule st.rules steps)+

lemma cs_dispatch_stable [steps]: "pstep n (cs_dispatch E w c ctx len n)"
  unfolding cs_dispatch_def Let_def by (rule st.rules steps)+

lemma script_stable: "tame_env E \<Longrightarrow> pstep n (script E fn args n)"
proof -
  assume "tame_env E"
  then have "pstep (n\<lparr>nt_calls := nt_calls n @ [(fn, args)]\<rparr>) (script E fn args n)"
    unfolding tame_env_def script_def pstep_def by blast
  then show ?thesis by (rule step_upd(2) [rotated 2]) simp_all
qed

lemma raw_clt_stable: "tame_env E \<Longrightarrow> pstep n (k_raw_clt E p c cmd ecode data n)"
  unfolding tame_env_def pstep_def by blast

lemma pkt_raw_clt_stable: "tame_env E \<Longrightarrow> pstep n (pkt_raw_clt E p c cmd ecode ctx len n)"
  unfolding pkt_raw_clt_def
  by (auto simp: st.ret steps intro!: st.bind_pure raw_clt_stable split: option.split packet_type.split)

lemma decode_and_call_stable: "tame_env E \<Longrightarrow> nstep n (decode_and_call E ty ctx len cfg fn args n)"
  unfolding decode_and_call_def by ((rule st.pair st.bind_val st.bind_pure st.cases st.ret script_stable; assumption?)+)

lemma one_multicast_stable: "tame_env E \<Longrightarrow> nstep n (ssc_one_multicast E own cmd ecode ctx len n)"
  unfolding ssc_one_multicast_def by ((rule st.pair st.bind_val st.bind_pure st.cases st.ret pkt_raw_clt_stable; assumption?)+)

lemma cast_table_stable: "tame_env E \<Longrightarrow> nstep n (cast_table E kvs cmd ecode ctx len n)"
proof (induction kvs arbitrary: n)
  case (Cons kv kvs)
  have "nstep n (bind_res (ssc_one_multicast E own cmd ecode ctx len n) (\<lambda>n1. cast_table E kvs cmd ecode ctx len n1))" for own
    by (rule st.bind_ret(1) [OF one_multicast_stable [OF Cons.prems] Cons.IH [OF Cons.prems]])
  then show ?case by (cases kv; cases "snd kv") (auto simp: st.ret)
qed (simp add: st.ret)

lemma ssc_multicast_stable: "tame_env E \<Longrightarrow> nstep n (ssc_multicast E mem n)"
proof -
  assume t: "tame_env E"
  have f: "nstep n (fold_res (\<lambda>idx n. bind_res (read_i32 (22 + 4 * idx) mem) (\<lambda>own.
      ssc_one_multicast E own cmd ecode ctx k n)) xs n)" for cmd ecode ctx k xs n
    by (rule st.fold, rule st.bind_pure, rule one_multicast_stable [OF t])
  have g: "nstep n (case rets of LTab kvs # _ \<Rightarrow> cast_table E kvs cmd ecode ctx k n | _ \<Rightarrow> Inr n)" for rets cmd ecode ctx k n
    by (auto simp: st.ret cast_table_stable [OF t] split: list.split lua.split)
  show ?thesis
    unfolding ssc_multicast_def Let_def
    by (rule st.pair st.bind_val script_stable [OF t] st.bind_pure st.cases st.ret f g)+
qed

lemma dispatch_stable:
  assumes t: "tame_env E"
  shows "nstep n (dispatch E c mem n)"
proof -
  note [steps] = decode_and_call_stable [OF t] script_stable [OF t] pkt_raw_clt_stable [OF t] ssc_multicast_stable [OF t]
  have [steps]: "nstep n (sc_command E c mem n)" "nstep n (sp_cs_dispatch E c mem n)" "nstep n (ss_dispatch E c mem n)"
    "nstep n (css_command E c mem n)" "nstep n (ssc_command E mem n)" "nstep n (rpc_command E c mem n)"
    "nstep n (rpc_return E c mem n)" for n
    unfolding sc_command_def sp_cs_dispatch_def cs_command_def ss_dispatch_def ss_command_def css_command_def
      ssc_command_def rpc_command_def rpc_return_def Let_def
    by (rule st.rules steps)+
  have [steps]: "nstep n (process_ss_command E c mem n)" for n
    unfolding process_ss_command_def by (rule st.rules steps)+
  show ?thesis
    unfolding dispatch_def by (rule st.bind_pure) (auto simp: steps st.ret split: conn_type.split)
qed

end
