(* ===== verification/NetFrame.thy ===== *)
theory NetFrame
  imports NetCorrect
begin

text \<open>
  The loop of \<open>command_cb\<close> against a reference parser: the packets given to the handlers are
  those that \<open>frames\<close> cuts out of the bytes received, in their order, and what is left of the
  bytes stays in the receive buffer.
\<close>

section \<open>The reference parser\<close>

text \<open>The bytes split at the length fields: the complete packets and the rest.\<close>

function frames :: "8 word list \<Rightarrow> 8 word list list \<times> 8 word list" where
  "frames bs =
     (if length bs < 4 \<or> length bs < len_field bs \<or> len_field bs < 4 then ([], bs)
      else let (ps, rest) = frames (drop (len_field bs) bs) in (take (len_field bs) bs # ps, rest))"
  by pat_completeness auto
termination by (relation "measure length") auto

declare frames.simps [simp del]

lemma len_field_append: "4 \<le> length bs \<Longrightarrow> len_field (bs @ cs) = len_field bs"
  by (simp add: len_field_def)

lemma frames_Nil [simp]: "frames [] = ([], [])"
  by (subst frames.simps) simp

lemma frames_packet:
  "4 \<le> length p \<Longrightarrow> len_field p = length p \<Longrightarrow> frames (p @ bs) = (p # fst (frames bs), snd (frames bs))"
  by (subst frames.simps) (simp add: len_field_append split_beta)

lemma frames_concat: "frames bs = (ps, rest) \<Longrightarrow> bs = concat ps @ rest"
proof (induction bs arbitrary: ps rule: frames.induct)
  case (1 bs)
  show ?case
  proof (cases "length bs < 4 \<or> length bs < len_field bs \<or> len_field bs < 4")
    case True
    then show ?thesis using "1.prems" by (simp add: frames.simps [of bs])
  next
    case False
    then obtain qs where q: "frames (drop (len_field bs) bs) = (qs, rest)" "ps = take (len_field bs) bs # qs"
      using "1.prems" by (auto simp: frames.simps [of bs] split: prod.splits)
    have "drop (len_field bs) bs = concat qs @ rest" by (rule "1.IH" [OF False q(1)])
    then show ?thesis using q(2) by (metis append_take_drop_id concat.simps(2) append.assoc)
  qed
qed

text \<open>Bytes that come later do not change the packets found before.\<close>

lemma frames_append:
  "frames bs = (ps, rest) \<Longrightarrow> frames (bs @ cs) = (ps @ fst (frames (rest @ cs)), snd (frames (rest @ cs)))"
proof (induction bs arbitrary: ps rule: frames.induct)
  case (1 bs)
  show ?case
  proof (cases "length bs < 4 \<or> length bs < len_field bs \<or> len_field bs < 4")
    case True
    then show ?thesis using "1.prems" by (simp add: frames.simps [of bs])
  next
    case False
    then obtain qs where q: "frames (drop (len_field bs) bs) = (qs, rest)" "ps = take (len_field bs) bs # qs"
      using "1.prems" by (auto simp: frames.simps [of bs] split: prod.splits)
    have "frames (drop (len_field bs) bs @ cs) = (qs @ fst (frames (rest @ cs)), snd (frames (rest @ cs)))"
      by (rule "1.IH" [OF False q(1)])
    moreover have "frames (bs @ cs) = (take (len_field bs) bs # fst (frames (drop (len_field bs) bs @ cs)),
        snd (frames (drop (len_field bs) bs @ cs)))"
      using False by (subst frames.simps) (simp add: len_field_append split_beta)
    ultimately show ?thesis using q(2) by simp
  qed
qed

text \<open>The handlers were called for these packets in turn. Between two calls only the receive buffer changes.\<close>

inductive handled :: "env \<Rightarrow> int \<Rightarrow> 8 word list list \<Rightarrow> net \<Rightarrow> net \<Rightarrow> bool" for E c where
  handled_Nil: "handled E c [] n (set_recv c b n)"
| handled_Cons: "dispatch E c p (set_recv c b n) = Inr n1 \<Longrightarrow> handled E c ps n1 n' \<Longrightarrow> handled E c (p # ps) n n'"

inductive_simps handled_Nil_iff: "handled E c [] n n'"
inductive_simps handled_Cons_iff: "handled E c (p # ps) n n'"

lemma set_recv_simps [simp]:
  "nt_recv (set_recv c b n) = (nt_recv n)(c := b)" "nt_heap (set_recv c b n) = nt_heap n"
  "set_recv c b (set_recv c b' n) = set_recv c b n" "set_recv c (nt_recv n c) n = n"
  by (simp_all add: set_recv_def)

lemma handled_set_recv: "handled E c ps (set_recv c b n) n' = handled E c ps n n'"
  by (cases ps) (simp_all add: handled_Nil_iff handled_Cons_iff)

lemma handled_append:
  "handled E c ps n n1 \<Longrightarrow> handled E c qs n1 n' \<Longrightarrow> handled E c (ps @ qs) n n'"
  by (induction rule: handled.induct) (auto simp: handled_set_recv intro: handled_Cons)

section \<open>The loop\<close>

text \<open>An open connection with a stream packet and a receive buffer in order.\<close>

definition stream_ready :: "conn_type \<Rightarrow> int \<Rightarrow> net \<Rightarrow> bool" where
  "stream_ready ty c n \<longleftrightarrow> buf_inv (nt_recv n c) \<and> chunks (nt_recv n c) \<noteq> [] \<and>
     (\<exists>sk. nt_heap n c = Some sk \<and> sk_type sk = ty \<and> sk_packet sk = Some PT_STREAM \<and> sk_status sk = CS_OPENED \<and> sk_w sk)"

lemma stream_ready_stable:
  assumes "stream_ready ty c n" "stable n n'"
  shows "stream_ready ty c n'" "content (nt_recv n' c) = content (nt_recv n c)"
proof -
  obtain sk where sk: "nt_heap n c = Some sk" "sk_type sk = ty" "sk_packet sk = Some PT_STREAM" "sk_status sk = CS_OPENED" "sk_w sk"
    using assms(1) by (auto simp: stream_ready_def)
  have s: "chunks (nt_recv n' c) = chunks (nt_recv n c)" "chunk_size (nt_recv n' c) = chunk_size (nt_recv n c)"
    using assms(2) sk(1) by (auto simp: stable_def)
  show "content (nt_recv n' c) = content (nt_recv n c)" by (rule content_cong [OF s(1)])
  obtain sk' where "nt_heap n' c = Some sk'" "sk_type sk' = sk_type sk" "sk_packet sk' = sk_packet sk" "sk_status sk' = CS_OPENED" "sk_w sk'"
    using assms(2) sk(1,4,5) unfolding stable_def by blast
  then show "stream_ready ty c n'"
    using assms(1) sk s buf_inv_cong [OF s] by (simp add: stream_ready_def)
qed

lemma stream_ready_set:
  assumes "stream_ready ty c n" "buf_inv b" "chunks b \<noteq> []"
  shows "stream_ready ty c (set_recv c b n)"
  using assms by (auto simp: stream_ready_def)

lemma stream_ready_large [simp]:
  "stream_ready ty c n \<Longrightarrow> stream_ready ty c (set_recv c ((nt_recv n c)\<lparr>large := l\<rparr>) n)"
  by (rule stream_ready_set) (auto simp: stream_ready_def buf_inv_def)

text \<open>One packet: the handler gets it, then it is removed.\<close>

lemma unpack_packet:
  assumes t: "tame_env E" and r: "stream_ready ty c n" and p: "content (nt_recv n c) = p @ rest" "whole ty p"
  obtains b where
    "\<And>e. dispatch E c p (set_recv c b n) = Inl e \<Longrightarrow> pkt_unpack E c n = Inl e"
    "\<And>n1. dispatch E c p (set_recv c b n) = Inr n1 \<Longrightarrow> \<exists>ret b'. pkt_unpack E c n = Inr (ret, set_recv c b' n1) \<and>
       stream_ready ty c (set_recv c b' n1) \<and> content b' = rest \<and> 0 \<le> ret \<and> (ret = 0 \<longrightarrow> rest = [])"
proof -
  obtain sk where sk: "nt_heap n c = Some sk" "sk_type sk = ty" "sk_packet sk = Some PT_STREAM"
    using r by (auto simp: stream_ready_def)
  have len: "4 \<le> length p" "len_field p = length p" using whole_len [OF p(2)] p(2) by (auto simp: whole_def)
  have lf: "len_field (content (nt_recv n c)) = length p" using len by (simp add: p(1) len_field_append)
  have "buf_inv (nt_recv n c)" "chunks (nt_recv n c) \<noteq> []" "4 \<le> length (content (nt_recv n c))"
    "len_field (content (nt_recv n c)) \<le> length (content (nt_recv n c))"
    using r len lf p(1) by (auto simp: stream_ready_def)
  then obtain mem l where mem: "take (length p) mem = take (length p) (p @ rest)"
    and u: "sp_unpack E c n = bind_res (dispatch E c mem (set_recv c ((nt_recv n c)\<lparr>large := l\<rparr>) n)) (\<lambda>n1.
      bind_res (Buffer.remove (length p) (nt_recv n1 c)) (\<lambda>(next_used, b). Inr (if next_used then 1 else 0, set_recv c b n1)))"
    using sp_unpack_packet [of n c E] unfolding lf unfolding p(1) by blast
  let ?n = "set_recv c ((nt_recv n c)\<lparr>large := l\<rparr>) n"
  have "mem = p @ drop (length p) mem" using mem by (metis append_eq_conv_conj append_take_drop_id)
  then have d: "dispatch E c mem ?n = dispatch E c p ?n"
    using dispatch_prefix [of ?n c sk p E "drop (length p) mem"] sk p(2) by simp
  have up: "pkt_unpack E c n = bind_res (dispatch E c p ?n) (\<lambda>n1.
      bind_res (Buffer.remove (length p) (nt_recv n1 c)) (\<lambda>(next_used, b). Inr (if next_used then 1 else 0, set_recv c b n1)))"
    using sk u d by (simp add: pkt_unpack_def deref_def)
  show thesis
  proof (rule that [of "(nt_recv n c)\<lparr>large := l\<rparr>"])
    show "pkt_unpack E c n = Inl e" if "dispatch E c p ?n = Inl e" for e
      using that by (simp add: up)
    show "\<exists>ret b'. pkt_unpack E c n = Inr (ret, set_recv c b' n1) \<and>
       stream_ready ty c (set_recv c b' n1) \<and> content b' = rest \<and> 0 \<le> ret \<and> (ret = 0 \<longrightarrow> rest = [])"
      if n1: "dispatch E c p ?n = Inr n1" for n1
    proof -
      have st: "stable ?n n1" using dispatch_stable [OF t, of ?n c p] n1 by (simp add: nstep_def)
      have r1: "stream_ready ty c n1" and c1: "content (nt_recv n1 c) = content (nt_recv n c)"
        using stream_ready_stable [OF stream_ready_large [OF r, of l] st] by (simp_all add: content_def)
      have "buf_inv (nt_recv n1 c)" "chunks (nt_recv n1 c) \<noteq> []" "length p \<le> length (content (nt_recv n1 c))"
        using r1 c1 p(1) by (auto simp: stream_ready_def)
      from remove_ok [OF this] obtain nx b' where b': "Buffer.remove (length p) (nt_recv n1 c) = Inr (nx, b')" "buf_inv b'"
        "chunks b' \<noteq> []" "content b' = drop (length p) (content (nt_recv n1 c))" "\<not> nx \<longrightarrow> content b' = []" by blast
      have "content b' = rest" using b'(4) c1 p(1) by simp
      moreover have "pkt_unpack E c n = Inr (if nx then 1 else 0, set_recv c b' n1)" using up n1 b'(1) by simp
      moreover have "\<not> nx \<Longrightarrow> content b' = []" using b'(5) by blast
      ultimately show ?thesis using stream_ready_set [OF r1 b'(2,3)]
        by (intro exI [of _ "if nx then 1 else 0"] exI [of _ b']) auto
    qed
  qed
qed

text \<open>No complete packet: the loop waits for more.\<close>

lemma unpack_wait:
  assumes r: "stream_ready ty c n" and "length (content (nt_recv n c)) < 4 \<or> length (content (nt_recv n c)) < len_field (content (nt_recv n c))"
  obtains l where "pkt_unpack E c n = Inr (0, set_recv c ((nt_recv n c)\<lparr>large := l\<rparr>) n)"
proof -
  have "buf_inv (nt_recv n c)" "chunks (nt_recv n c) \<noteq> []" using r by (auto simp: stream_ready_def)
  then obtain l where "sp_unpack E c n = Inr (0, set_recv c ((nt_recv n c)\<lparr>large := l\<rparr>) n)"
    using sp_unpack_wait assms(2) by blast
  moreover have "pkt_unpack E c n = sp_unpack E c n" using r by (auto simp: pkt_unpack_def deref_def stream_ready_def)
  ultimately show thesis using that by simp
qed

lemma loop_next:
  assumes "pkt_unpack E c n = Inr (ret, n1)" "0 < ret" "stream_ready ty c n1"
  shows "command_loop E c n = command_loop E c n1"
  using assms by (subst command_loop.simps) (auto simp: stream_ready_def deref_def)

lemma loop_stop: "pkt_unpack E c n = Inr (0, n1) \<Longrightarrow> command_loop E c n = Some (Inr (0, n1))"
  by (subst command_loop.simps) simp

lemma loop_fault: "pkt_unpack E c n = Inl e \<Longrightarrow> command_loop E c n = Some (Inl e)"
  by (subst command_loop.simps) simp

text \<open>What is left over holds no complete packet, and its length field is not below the header's size.\<close>

definition waits :: "8 word list \<Rightarrow> bool" where
  "waits bs \<longleftrightarrow> length bs < 4 \<or> length bs < len_field bs"

text \<open>All packets handled, or a handler faulted on one of them after those before it.\<close>

definition loop_done :: "env \<Rightarrow> conn_type \<Rightarrow> int \<Rightarrow> 8 word list list \<Rightarrow> 8 word list \<Rightarrow> net \<Rightarrow> net result \<Rightarrow> bool" where
  "loop_done E ty c ps rest n r \<longleftrightarrow>
     (\<exists>n'. r = Inr n' \<and> handled E c ps n n' \<and> stream_ready ty c n' \<and> content (nt_recv n' c) = rest) \<or>
     (\<exists>e ps1 p ps2 n1 b. r = Inl e \<and> ps = ps1 @ p # ps2 \<and> handled E c ps1 n n1 \<and> dispatch E c p (set_recv c b n1) = Inl e)"

lemma loop_done_Cons:
  assumes "dispatch E c p (set_recv c b n) = Inr n1" "loop_done E ty c ps rest n1 r"
  shows "loop_done E ty c (p # ps) rest n r"
  using assms(2) unfolding loop_done_def
proof
  assume "\<exists>n'. r = Inr n' \<and> handled E c ps n1 n' \<and> stream_ready ty c n' \<and> content (nt_recv n' c) = rest"
  then show "(\<exists>n'. r = Inr n' \<and> handled E c (p # ps) n n' \<and> stream_ready ty c n' \<and> content (nt_recv n' c) = rest) \<or>
     (\<exists>e ps1 q ps2 n1 b. r = Inl e \<and> p # ps = ps1 @ q # ps2 \<and> handled E c ps1 n n1 \<and> dispatch E c q (set_recv c b n1) = Inl e)"
    using handled_Cons [OF assms(1)] by blast
next
  assume "\<exists>e ps1 q ps2 n2 b. r = Inl e \<and> ps = ps1 @ q # ps2 \<and> handled E c ps1 n1 n2 \<and> dispatch E c q (set_recv c b n2) = Inl e"
  then obtain e ps1 q ps2 n2 b2 where "r = Inl e" "ps = ps1 @ q # ps2" "handled E c ps1 n1 n2" "dispatch E c q (set_recv c b2 n2) = Inl e"
    by blast
  moreover from this(3) have "handled E c (p # ps1) n n2" by (rule handled_Cons [OF assms(1)])
  moreover have "p # ps = (p # ps1) @ q # ps2" using calculation(2) by simp
  ultimately show "(\<exists>n'. r = Inr n' \<and> handled E c (p # ps) n n' \<and> stream_ready ty c n' \<and> content (nt_recv n' c) = rest) \<or>
     (\<exists>e ps1 q ps2 n1 b. r = Inl e \<and> p # ps = ps1 @ q # ps2 \<and> handled E c ps1 n n1 \<and> dispatch E c q (set_recv c b n1) = Inl e)"
    by blast
qed

lemma loop_done_set: "loop_done E ty c ps rest (set_recv c b n) r = loop_done E ty c ps rest n r"
  by (simp add: loop_done_def handled_set_recv)

lemma command_loop_done:
  assumes t: "tame_env E" and "stream_ready ty c n" "content (nt_recv n c) = concat ps @ rest"
    "\<forall>p \<in> set ps. whole ty p" "waits rest"
  shows "\<exists>r. command_loop E c n = Some (map_sum id (Pair 0) r) \<and> loop_done E ty c ps rest n r"
  using assms(2-4)
proof (induction ps arbitrary: n)
  case Nil
  then have w: "length (content (nt_recv n c)) < 4 \<or> length (content (nt_recv n c)) < len_field (content (nt_recv n c))"
    using assms(5) by (simp add: waits_def)
  obtain l where l: "pkt_unpack E c n = Inr (0, set_recv c ((nt_recv n c)\<lparr>large := l\<rparr>) n)"
    using unpack_wait [OF Nil.prems(1) w] by blast
  have "loop_done E ty c [] rest n (Inr (set_recv c ((nt_recv n c)\<lparr>large := l\<rparr>) n))"
    unfolding loop_done_def using handled_Nil stream_ready_large [OF Nil.prems(1)] Nil.prems(2) by (auto simp: content_def)
  then show ?case using loop_stop [OF l] by (intro exI [of _ "Inr (set_recv c ((nt_recv n c)\<lparr>large := l\<rparr>) n)"]) simp
next
  case (Cons p ps)
  have p: "content (nt_recv n c) = p @ (concat ps @ rest)" "whole ty p" using Cons.prems by simp_all
  obtain b where fault: "\<And>e. dispatch E c p (set_recv c b n) = Inl e \<Longrightarrow> pkt_unpack E c n = Inl e"
    and ok: "\<And>n1. dispatch E c p (set_recv c b n) = Inr n1 \<Longrightarrow> \<exists>ret b'. pkt_unpack E c n = Inr (ret, set_recv c b' n1) \<and>
       stream_ready ty c (set_recv c b' n1) \<and> content b' = concat ps @ rest \<and> 0 \<le> ret \<and> (ret = 0 \<longrightarrow> concat ps @ rest = [])"
    using unpack_packet [OF t Cons.prems(1) p] by blast
  show ?case
  proof (cases "dispatch E c p (set_recv c b n)")
    case (Inl e)
    have "loop_done E ty c (p # ps) rest n (Inl e)"
      unfolding loop_done_def using Inl handled_Nil [of E c n "nt_recv n c"]
      by (intro disjI2 exI [of _ e] exI [of _ "[]"] exI [of _ p] exI [of _ ps] exI [of _ n] exI [of _ b]) simp
    then show ?thesis using loop_fault [OF fault [OF Inl]] by (intro exI [of _ "Inl e"]) simp
  next
    case (Inr n1)
    obtain ret b' where u: "pkt_unpack E c n = Inr (ret, set_recv c b' n1)" "stream_ready ty c (set_recv c b' n1)"
      "content b' = concat ps @ rest" "0 \<le> ret" "ret = 0 \<longrightarrow> concat ps @ rest = []"
      using ok [OF Inr] by blast
    have eq: "content (nt_recv (set_recv c b' n1) c) = concat ps @ rest" using u(3) by simp
    show ?thesis
    proof (cases "ret = 0")
      case True
      then have "rest = []" "\<forall>q \<in> set ps. q = []" using u(5) by auto
      moreover have "ps = []"
      proof (rule ccontr)
        assume "ps \<noteq> []"
        then have "hd ps = []" "whole ty (hd ps)" using calculation(2) Cons.prems(3) by auto
        then show False using whole_len(3) [of ty "hd ps"] by simp
      qed
      moreover have "loop_done E ty c [] [] n1 (Inr (set_recv c b' n1))"
        unfolding loop_done_def using handled_Nil u(2,3) calculation by auto
      ultimately show ?thesis
        using loop_stop [of E c n "set_recv c b' n1"] u(1) True loop_done_Cons [OF Inr]
        by (intro exI [of _ "Inr (set_recv c b' n1)"]) simp
    next
      case False
      obtain r where r: "command_loop E c (set_recv c b' n1) = Some (map_sum id (Pair 0) r)" "loop_done E ty c ps rest (set_recv c b' n1) r"
        using Cons.IH [OF u(2) eq] Cons.prems(3) by (metis list.set_intros(2))
      have "0 < ret" using u(4) False by simp
      then show ?thesis
        using loop_next [OF u(1) _ u(2)] r loop_done_Cons [OF Inr, of ty ps rest r]
        by (intro exI [of _ r]) (simp add: loop_done_set id_def)
    qed
  qed
qed

lemma command_cb_done:
  assumes t: "tame_env E" and r: "stream_ready ty c n" and c: "content (nt_recv n c) = concat ps @ rest"
    "\<forall>p \<in> set ps. whole ty p" "waits rest"
  shows "loop_done E ty c ps rest n (command_cb E c n)"
proof -
  obtain r where l: "command_loop E c n = Some (map_sum id (Pair 0) r)" "loop_done E ty c ps rest n r"
    using command_loop_done [OF assms] by blast
  obtain sk where "nt_heap n c = Some sk" "sk_packet sk = Some PT_STREAM" "sk_w sk" using r by (auto simp: stream_ready_def)
  then have "command_cb E c n = r" using l(1) by (cases r) (simp_all add: command_cb_def deref_def)
  then show ?thesis using l(2) by simp
qed

end
