(* ===== verification/NetIo.thy ===== *)
theory NetIo
  imports NetFrame
begin

text \<open>
  Reading and writing a socket (\<open>net/io/io.cpp\<close>), and how the bytes get from the kernel to the
  handlers.
  The kernel's receive queue is the argument \<open>q\<close>; \<open>ks\<close> says how much each call of \<open>::recv\<close> may
  return, \<open>fin\<close> what it says when the queue is empty. For \<open>::send\<close> the answers are a list.
\<close>

section \<open>Operations\<close>

datatype rx_end = RxAgain | RxClosed | RxError

text \<open>What \<open>::recv\<close> returns from a queue that is not empty: at least one byte, at most the room there is.\<close>

definition rx_len :: "nat list \<Rightarrow> nat \<Rightarrow> nat \<Rightarrow> nat" where
  "rx_len ks room avail = max 1 (min (case ks of [] \<Rightarrow> avail | k # _ \<Rightarrow> k) (min room avail))"

function io_recv :: "nat list \<Rightarrow> rx_end \<Rightarrow> 8 word list \<Rightarrow> buffer \<Rightarrow> (ios \<times> 8 word list \<times> buffer) result" where
  "io_recv ks fin q b =
     (let (ts, b1) = any_seserve True b in
      if ts_len ts = 0 then Inr (IOS_BUSY, q, b1)
      else if q = [] then
        bind_res (commit ts (if fin = RxClosed then 0 else -1) b1) (\<lambda>b2.
          Inr (case fin of RxAgain \<Rightarrow> IOS_READ | RxClosed \<Rightarrow> IOS_CLOSE | RxError \<Rightarrow> IOS_ERROR, q, b2))
      else
        let len = rx_len ks (ts_len ts) (length q)
        in bind_res (ts_write ts (take len q) b1) (\<lambda>b2.
           bind_res (commit ts (int len) b2) (\<lambda>b3.
             if len < ts_len ts then Inr (IOS_OK, drop len q, b3)
             else io_recv (tl ks) fin (drop len q) b3)))"
  by pat_completeness auto
termination by (relation "measure (\<lambda>(ks, fin, q, b). length q)") (auto simp: rx_len_def)

declare io_recv.simps [simp del]

text \<open>The answers of \<open>::send\<close>: how many bytes it took, or why it took none. The end of the list is \<open>EAGAIN\<close>.\<close>

datatype tx = TxSent nat | TxClosed | TxAgain | TxError

text \<open>The status, and the bytes that went out.\<close>

fun io_send :: "tx list \<Rightarrow> buffer \<Rightarrow> (ios \<times> 8 word list \<times> buffer) result" where
  "io_send ans b =
     (let (data, bytes, nxt) = get_front_used b in
      if bytes = 0 then Inr (IOS_OK, [], b)
      else case ans of
        [] \<Rightarrow> Inr (IOS_WRITE, [], b)
      | TxAgain # _ \<Rightarrow> Inr (IOS_WRITE, [], b)
      | TxClosed # _ \<Rightarrow> Inr (IOS_CLOSE, [], b)
      | TxError # _ \<Rightarrow> Inr (IOS_ERROR, [], b)
      | TxSent k # rest \<Rightarrow>
          let len = max 1 (min k bytes); out = take len (the data)
          in bind_res (Buffer.remove len b) (\<lambda>(_, b1).
               if len < bytes then Inr (IOS_WRITE, out, b1)
               else if \<not> nxt then Inr (IOS_OK, out, b1)
               else bind_res (io_send rest b1) (\<lambda>(st, more, b2). Inr (st, out @ more, b2))))"

declare io_send.simps [simp del]

section \<open>Receiving\<close>

lemma rx_len_le: "q \<noteq> [] \<Longrightarrow> 0 < room \<Longrightarrow> 1 \<le> rx_len ks room (length q) \<and> rx_len ks room (length q) \<le> room \<and> rx_len ks room (length q) \<le> length q"
  by (cases q) (auto simp: rx_len_def)

text \<open>
  \<open>recv\<close> never faults; what it takes from the kernel is exactly what it adds to the buffer. It
  says busy only when the buffer is over its limit, and asks to be called again, or reports
  the end or an error, only when the kernel has nothing left.
\<close>

definition received :: "8 word list \<Rightarrow> buffer \<Rightarrow> ios \<times> 8 word list \<times> buffer \<Rightarrow> bool" where
  "received q b = (\<lambda>(st, q', b'). buf_inv b' \<and> (\<exists>got. q = got @ q' \<and> content b' = content b @ got) \<and>
     (chunks b \<noteq> [] \<or> \<not> is_overflow b \<longrightarrow> chunks b' \<noteq> []) \<and> (st = IOS_BUSY \<longrightarrow> is_overflow b') \<and>
     (st \<in> {IOS_READ, IOS_CLOSE, IOS_ERROR} \<longrightarrow> q' = []) \<and> st \<noteq> IOS_WRITE)"

lemma io_recv_ok:
  assumes "buf_inv b"
  shows "\<exists>x. io_recv ks fin q b = Inr x \<and> received q b x"
  using assms
proof (induction ks fin q b rule: io_recv.induct)
  case (1 ks fin q b)
  obtain ts b1 where ts: "any_seserve True b = (ts, b1)" by fastforce
  note ok = any_seserve_ok [OF "1.prems" ts]
  show ?case
  proof (cases "is_overflow b")
    case True
    then have "ts = ts_init" "b1 = b" using ok(3) by simp_all
    then have "io_recv ks fin q b = Inr (IOS_BUSY, q, b)" using ts by (simp add: io_recv.simps [of ks] ts_init_def)
    then show ?thesis using "1.prems" True by (auto simp: received_def)
  next
    case False
    then have v: "ts_valid ts b1" "0 < ts_len ts" using ok(4) by simp_all
    then have ne: "chunks b1 \<noteq> []" by (simp add: ts_valid_def)
    show ?thesis
    proof (cases "q = []")
      case True
      have "io_recv ks fin q b = Inr (case fin of RxAgain \<Rightarrow> IOS_READ | RxClosed \<Rightarrow> IOS_CLOSE | RxError \<Rightarrow> IOS_ERROR, [], b1)"
        using ts v(2) True by (simp add: io_recv.simps [of ks] commit_def)
      then show ?thesis using ok(1,2) ne True by (auto simp: received_def split: rx_end.splits)
    next
      case q: False
      let ?len = "rx_len ks (ts_len ts) (length q)"
      have le: "?len \<le> ts_len ts" "?len \<le> length q" using rx_len_le [OF q v(2)] by simp_all
      have l: "length (take ?len q) = ?len" using le(2) by simp
      from write_commit_ok [OF ok(1) v(1), of "take ?len q", unfolded l, OF le(1)] obtain b2 b3 where b:
        "ts_write ts (take ?len q) b1 = Inr b2" "commit ts (int ?len) b2 = Inr b3" "buf_inv b3" "chunks b3 \<noteq> []"
        "content b3 = content b1 @ take ?len q"
        by blast
      show ?thesis
      proof (cases "?len < ts_len ts")
        case True
        have "io_recv ks fin q b = Inr (IOS_OK, drop ?len q, b3)"
          using ts v(2) q b(1,2) True by (simp add: io_recv.simps [of ks] Let_def)
        then show ?thesis using b(3-5) ok(2) by (auto simp: received_def intro!: exI [of _ "take ?len q"])
      next
        case full: False
        have "io_recv ks fin q b = io_recv (tl ks) fin (drop ?len q) b3"
          using ts v(2) q b(1,2) full by (simp add: io_recv.simps [of ks] Let_def)
        moreover obtain st q' b' where r: "io_recv (tl ks) fin (drop ?len q) b3 = Inr (st, q', b')"
          "received (drop ?len q) b3 (st, q', b')"
          using "1.IH" [of "(ts, b1)" ts b1 ?len b2 b3] ts v(2) q b(1-3) full by auto
        moreover from r(2) obtain got where got: "drop ?len q = got @ q'" "content b' = content b3 @ got"
          by (auto simp: received_def)
        moreover have "q = (take ?len q @ got) @ q'" using got(1) by (metis append.assoc append_take_drop_id)
        moreover have "content b' = content b @ (take ?len q @ got)" using got(2) b(5) ok(2) by simp
        ultimately show ?thesis using r(2) b(4) unfolding received_def by (intro exI [of _ "(st, q', b')"]) auto
      qed
    qed
  qed
qed

section \<open>Sending\<close>

lemma front_empty: "buf_inv b \<Longrightarrow> chunks b = c # cs \<Longrightarrow> get_used_size c = 0 \<Longrightarrow> content b = []"
proof -
  assume a: "buf_inv b" "chunks b = c # cs" "get_used_size c = 0"
  then have "cs = []" using get_used_pos [of c cs] by (auto simp: buf_inv_def)
  moreover have "chunk_wf c" using a by (auto simp: buf_inv_def intro: chunks_inv_hd)
  ultimately show ?thesis using a by (simp add: content_def chunk_bytes_def)
qed

lemma io_send_ok:
  assumes "buf_inv b"
  shows "\<exists>st out b'. io_send ans b = Inr (st, out, b') \<and> buf_inv b' \<and> out @ content b' = content b \<and>
    (st = IOS_OK \<longrightarrow> content b' = [])"
  using assms
proof (induction ans arbitrary: b)
  case Nil
  show ?case
  proof (cases "chunks b")
    case Nil
    then show ?thesis using \<open>buf_inv b\<close> by (simp add: io_send.simps get_front_used_def content_def)
  next
    case (Cons c cs)
    then show ?thesis using Nil.prems front_empty [OF Nil.prems Cons]
      by (simp add: io_send.simps [of "[]"] get_front_used_def)
  qed
next
  case (Cons a ans)
  show ?case
  proof (cases "chunks b")
    case Nil
    then show ?thesis using Cons.prems by (simp add: io_send.simps [of "a # ans"] get_front_used_def content_def)
  next
    case C: (Cons c cs)
    show ?thesis
    proof (cases "get_used_size c = 0")
      case True
      then show ?thesis using Cons.prems front_empty [OF Cons.prems C]
        by (simp add: io_send.simps [of "a # ans"] get_front_used_def C)
    next
      case False
      have wf: "chunk_wf c" using Cons.prems C by (auto simp: buf_inv_def intro: chunks_inv_hd)
      show ?thesis
      proof (cases "\<exists>k. a = TxSent k")
        case True
        then obtain k where a: "a = TxSent k" by blast
        define len where "len = max 1 (min k (get_used_size c))"
        have le: "len \<le> get_used_size c" "0 < len" using False by (auto simp: len_def)
        have used: "get_used_size c \<le> length (content b)" using wf by (simp add: content_def C)
        have out: "take len (get_used_ctx c) = take len (content b)"
          using take_used_bytes [OF le(1)] wf le(1) by (simp add: content_def C)
        have "chunks b \<noteq> []" "len \<le> length (content b)" using C le used by auto
        from remove_ok [OF Cons.prems this] obtain r b1 where b1: "Buffer.remove len b = Inr (r, b1)"
          "buf_inv b1" "content b1 = drop len (content b)" by blast
        have f: "get_front_used b = (Some (get_used_ctx c), get_used_size c, chunk_size b > 1)"
          by (simp add: get_front_used_def C)
        have s: "io_send (a # ans) b = (if len < get_used_size c then Inr (IOS_WRITE, take len (content b), b1)
            else if \<not> chunk_size b > 1 then Inr (IOS_OK, take len (content b), b1)
            else bind_res (io_send ans b1) (\<lambda>(st, more, b2). Inr (st, take len (content b) @ more, b2)))"
          by (subst io_send.simps, unfold f a prod.case list.case tx.case option.sel Let_def len_def [symmetric])
            (simp add: False b1(1) out)
        show ?thesis
        proof (cases "len < get_used_size c")
          case True
          then show ?thesis using s b1 by simp
        next
          case full: False
          show ?thesis
          proof (cases "chunk_size b > 1")
            case True
            obtain st out b' where r: "io_send ans b1 = Inr (st, out, b')" "buf_inv b'" "out @ content b' = content b1"
              "st = IOS_OK \<longrightarrow> content b' = []" using Cons.IH [OF b1(2)] by blast
            have "(take len (content b) @ out) @ content b' = content b"
              using r(3) b1(3) by (metis append.assoc append_take_drop_id)
            then show ?thesis using s full True r by simp
          next
            case last: False
            then have "cs = []" using Cons.prems C by (simp add: buf_inv_def)
            then have "length (content b) = get_used_size c" using wf by (simp add: content_def C)
            then have "content b1 = []" using b1(3) full by simp
            then show ?thesis using s full last b1 by simp
          qed
        qed
      next
        case other: False
        then show ?thesis using Cons.prems False
          by (cases a) (simp_all add: io_send.simps [of "TxClosed # ans"] io_send.simps [of "TxAgain # ans"]
              io_send.simps [of "TxError # ans"] get_front_used_def C)
      qed
    qed
  qed
qed

section \<open>From the kernel to the handlers\<close>

text \<open>
  The receiving side of one connection: in each round more bytes have come into the kernel's
  queue, the back end reads, and the event loop runs \<open>command_cb\<close>.
\<close>

fun serve :: "env \<Rightarrow> int \<Rightarrow> (nat list \<times> 8 word list) list \<Rightarrow> 8 word list \<Rightarrow> net \<Rightarrow> (8 word list \<times> net) result" where
  "serve E c [] q n = Inr (q, n)"
| "serve E c ((ks, came) # rs) q n =
     bind_res (io_recv ks RxAgain (q @ came) (nt_recv n c)) (\<lambda>(_, q', b).
     bind_res (command_cb E c (set_recv c b n)) (\<lambda>n1. serve E c rs q' n1))"

text \<open>No length field below the size of a header.\<close>

definition no_short :: "8 word list \<Rightarrow> bool" where
  "no_short bs \<longleftrightarrow> length bs < 4 \<or> 4 \<le> len_field bs"

text \<open>A well-formed stream for a kind of connection.\<close>

definition good_stream :: "conn_type \<Rightarrow> 8 word list \<Rightarrow> bool" where
  "good_stream ty bs \<longleftrightarrow> (\<forall>p \<in> set (fst (frames bs)). whole ty p) \<and> no_short (snd (frames bs))"

lemma frames_whole: "\<forall>p \<in> set ps. whole ty p \<Longrightarrow> frames (concat ps) = (ps, [])"
proof (induction ps)
  case (Cons p ps)
  then have "whole ty p" by simp
  then have "4 \<le> length p" "len_field p = length p" using whole_len(3) by (auto simp: whole_def)
  then show ?case using frames_packet Cons by simp
qed simp

lemma good_prefix:
  assumes "good_stream ty (a @ b)"
  shows "good_stream ty a" "waits (snd (frames a))"
proof -
  obtain ps r where f: "frames a = (ps, r)" by fastforce
  note ap = frames_append [OF f, of b]
  have r: "frames r = ([], r)"
    using f
  proof (induction a arbitrary: ps rule: frames.induct)
    case (1 bs)
    show ?case
    proof (cases "length bs < 4 \<or> length bs < len_field bs \<or> len_field bs < 4")
      case True
      then show ?thesis using "1.prems" by (auto simp: frames.simps [of bs] frames.simps [of r])
    next
      case False
      then obtain qs where "frames (drop (len_field bs) bs) = (qs, r)"
        using "1.prems" by (auto simp: frames.simps [of bs] split: prod.splits)
      then show ?thesis by (rule "1.IH" [OF False])
    qed
  qed
  have n: "no_short r"
  proof (rule ccontr)
    assume "\<not> no_short r"
    then have l: "4 \<le> length r" "len_field r < 4" by (simp_all add: no_short_def)
    then have "frames (r @ b) = ([], r @ b)" by (subst frames.simps) (simp add: len_field_append)
    then have "\<not> no_short (snd (frames (a @ b)))" using ap l by (simp add: no_short_def len_field_append)
    then show False using assms by (simp add: good_stream_def)
  qed
  show "good_stream ty a" using assms ap n f by (auto simp: good_stream_def)
  show "waits (snd (frames a))"
    using r n f by (subst (asm) frames.simps) (auto simp: waits_def no_short_def split: if_splits prod.splits)
qed

text \<open>
  What a serving run did: of the bytes that came it consumed \<open>got\<close>, and either handled
  exactly the packets that are complete in it and kept the rest, or stopped at a handler's fault.
\<close>

definition served :: "env \<Rightarrow> int \<Rightarrow> 8 word list \<Rightarrow> net \<Rightarrow> (8 word list \<times> net) result \<Rightarrow> bool" where
  "served E c bs n r \<longleftrightarrow>
     (\<exists>q' n' got ps rest. r = Inr (q', n') \<and> bs = got @ q' \<and> frames got = (ps, rest) \<and>
        handled E c ps n n' \<and> content (nt_recv n' c) = rest) \<or>
     (\<exists>e q' got ps1 p ps2 rest n1 b. r = Inl e \<and> bs = got @ q' \<and> frames got = (ps1 @ p # ps2, rest) \<and>
        handled E c ps1 n n1 \<and> dispatch E c p (set_recv c b n1) = Inl e)"

lemma serve_ok:
  assumes t: "tame_env E" and "stream_ready ty c n" "good_stream ty (done' @ content (nt_recv n c) @ q @ concat (map snd rs))"
    "frames done' = (ps0, [])" "handled E c ps0 n0 n"
    "waits (content (nt_recv n c))"
  shows "served E c (done' @ content (nt_recv n c) @ q @ concat (map snd rs)) n0 (serve E c rs q n)"
  using assms(2-)
proof (induction rs arbitrary: n q done' ps0)
  case Nil
  have "frames (done' @ content (nt_recv n c)) = (ps0, content (nt_recv n c))"
    using frames_append [OF Nil.prems(3), of "content (nt_recv n c)"] Nil.prems(5)
    by (subst (asm) (2 3) frames.simps) (auto simp: waits_def)
  then show ?case using Nil.prems(4) unfolding served_def
    by (intro disjI1 exI [of _ q] exI [of _ n] exI [of _ "done' @ content (nt_recv n c)"]) simp
next
  case (Cons x rs)
  obtain ks came where x: "x = (ks, came)" by (cases x)
  let ?c = "content (nt_recv n c)" and ?all = "done' @ content (nt_recv n c) @ q @ concat (map snd (x # rs))"
  have inv: "buf_inv (nt_recv n c)" "chunks (nt_recv n c) \<noteq> []" using Cons.prems(1) by (auto simp: stream_ready_def)
  obtain st q' b where r: "io_recv ks RxAgain (q @ came) (nt_recv n c) = Inr (st, q', b)"
    "received (q @ came) (nt_recv n c) (st, q', b)"
    using io_recv_ok [OF inv(1)] by (metis prod_cases3)
  obtain got where got: "q @ came = got @ q'" "content b = ?c @ got" and b: "buf_inv b" "chunks b \<noteq> []"
    using r(2) inv(2) by (auto simp: received_def)
  let ?n = "set_recv c b n"
  have all: "?all = (done' @ ?c @ got) @ q' @ concat (map snd rs)" using got(1) x by simp
  have ready: "stream_ready ty c ?n" by (rule stream_ready_set [OF Cons.prems(1) b])
  obtain ps rest where f: "frames (?c @ got) = (ps, rest)" by fastforce
  have fd: "frames (done' @ ?c @ got) = (ps0 @ ps, rest)"
    using frames_append [OF Cons.prems(3), of "?c @ got"] f by simp
  have good: "\<forall>p \<in> set ps. whole ty p" "waits rest"
    using good_prefix [of ty "done' @ ?c @ got" "q' @ concat (map snd rs)"] Cons.prems(2) fd unfolding all
    by (auto simp: good_stream_def)
  have "loop_done E ty c ps rest ?n (command_cb E c ?n)"
    by (rule command_cb_done [OF t ready _ good]) (use got(2) frames_concat [OF f] in simp)
  then consider (ok) n' where "command_cb E c ?n = Inr n'" "handled E c ps n n'" "stream_ready ty c n'" "content (nt_recv n' c) = rest"
    | (fault) e ps1 p ps2 n1 b' where "command_cb E c ?n = Inl e" "ps = ps1 @ p # ps2" "handled E c ps1 n n1"
        "dispatch E c p (set_recv c b' n1) = Inl e"
    unfolding loop_done_def handled_set_recv by blast
  then show ?case
  proof cases
    case ok
    have fc: "frames (done' @ concat ps) = (ps0 @ ps, [])"
      using frames_append [OF Cons.prems(3), of "concat ps"] frames_whole [OF good(1)] by simp
    have split: "done' @ ?c @ got = (done' @ concat ps) @ rest" using frames_concat [OF f] by simp
    have "served E c ((done' @ concat ps) @ content (nt_recv n' c) @ q' @ concat (map snd rs)) n0 (serve E c rs q' n')"
      by (rule Cons.IH [OF ok(3) _ fc handled_append [OF Cons.prems(4) ok(2)]])
        (use Cons.prems(2) good(2) ok(4) all split in \<open>simp_all del: concat.simps list.map\<close>)
    moreover have "serve E c (x # rs) q n = serve E c rs q' n'" using r(1) ok(1) x by simp
    moreover have "?all = (done' @ concat ps) @ content (nt_recv n' c) @ q' @ concat (map snd rs)"
      using all split ok(4) by (simp del: concat.simps list.map)
    ultimately show ?thesis by metis
  next
    case fault
    have "serve E c (x # rs) q n = Inl e" using r(1) fault(1) x by simp
    moreover have "handled E c (ps0 @ ps1) n0 n1" by (rule handled_append [OF Cons.prems(4) fault(3)])
    moreover have "frames (done' @ ?c @ got) = ((ps0 @ ps1) @ p # ps2, rest)" using fd fault(2) by simp
    ultimately show ?thesis unfolding served_def all using fault(4) by blast
  qed
qed

end
