(* ===== verification/NetSend.thy ===== *)
theory NetSend
  imports NetIo
begin

text \<open>
  What sending does, and the packets that one process writes for another to read.
\<close>

section \<open>Appending to a connection\<close>

text \<open>An open connection whose watcher is known to the event loop.\<close>

definition can_send :: "int \<Rightarrow> net \<Rightarrow> bool" where
  "can_send d n \<longleftrightarrow> buf_inv (nt_send n d) \<and> io_mgr (se (nt_io n)) d \<noteq> None \<and>
     (\<exists>sk. nt_heap n d = Some sk \<and> sk_w sk \<and> sk_status sk = CS_OPENED)"

text \<open>
  The bytes \<open>data\<close> went into the send buffer of \<open>d\<close>. Besides it only the event loop changed,
  where no watcher came or went.
\<close>

definition sent :: "int \<Rightarrow> 8 word list \<Rightarrow> net \<Rightarrow> net \<Rightarrow> bool" where
  "sent d data n n' \<longleftrightarrow> (\<exists>b y. n' = n\<lparr>nt_send := (nt_send n)(d := b), nt_io := y\<rparr> \<and> buf_inv b \<and>
     content b = content (nt_send n d) @ data \<and> (\<forall>k. io_mgr (se y) k = None \<longleftrightarrow> io_mgr (se (nt_io n)) k = None))"

lemma sent_same:
  "sent d data n n' \<Longrightarrow> nt_heap n' = nt_heap n" "sent d data n n' \<Longrightarrow> nt_map n' = nt_map n"
  "sent d data n n' \<Longrightarrow> nt_owners n' = nt_owners n" "sent d data n n' \<Longrightarrow> nt_recv n' = nt_recv n"
  "sent d data n n' \<Longrightarrow> nt_calls n' = nt_calls n" "sent d data n n' \<Longrightarrow> sc_cmds n' = sc_cmds n"
  by (auto simp: sent_def)

lemma sent_content: "sent d data n n' \<Longrightarrow> content (nt_send n' d) = content (nt_send n d) @ data"
  by (auto simp: sent_def)

lemma sent_can: "sent d data n n' \<Longrightarrow> can_send k n \<Longrightarrow> can_send k n'"
  unfolding sent_def can_send_def by (elim exE conjE) simp

lemma sent_trans:
  assumes "sent d x n n1" "sent d y n1 n2"
  shows "sent d (x @ y) n n2"
proof -
  obtain b z where 1: "n1 = n\<lparr>nt_send := (nt_send n)(d := b), nt_io := z\<rparr>" "content b = content (nt_send n d) @ x"
    "\<forall>k. io_mgr (se z) k = None \<longleftrightarrow> io_mgr (se (nt_io n)) k = None" using assms(1) by (auto simp: sent_def)
  obtain b' z' where 2: "n2 = n1\<lparr>nt_send := (nt_send n1)(d := b'), nt_io := z'\<rparr>" "buf_inv b'" "content b' = content (nt_send n1 d) @ y"
    "\<forall>k. io_mgr (se z') k = None \<longleftrightarrow> io_mgr (se (nt_io n1)) k = None" using assms(2) by (auto simp: sent_def)
  show ?thesis unfolding sent_def
    by (rule exI [of _ b'], rule exI [of _ z']) (use 1 2 in simp)
qed

lemma io_upd_dom [simp]: "io_mgr (io_upd i f s) k = None \<longleftrightarrow> io_mgr s k = None"
  by (simp add: io_upd_def)

lemma fast_event_ok:
  assumes "io_mgr s i \<noteq> None"
  shows "\<exists>wk s'. io_fast_event i e s = Inr (wk, s') \<and> (\<forall>k. io_mgr s' k = None \<longleftrightarrow> io_mgr s k = None)"
proof -
  let ?f = "\<lambda>w. w\<lparr>io_b_fevents := or (io_b_fevents w) (ev8 e)\<rparr>"
  obtain w where w: "io_get s i = Inr w" "io_get (io_upd i ?f s) i = Inr (?f w)"
    using assms by (auto simp: io_get_def io_upd_def)
  show ?thesis unfolding io_fast_event_def Let_def w bind_res_simps
    by (auto simp: io_upd_def)
qed

lemma io_stop_ok:
  assumes "io_mgr s i \<noteq> None"
  shows "\<exists>r s'. io_stop i flsh s = Inr (r, s') \<and> (\<forall>k. io_mgr s' k = None \<longleftrightarrow> io_mgr s k = None)"
proof -
  obtain w where w: "io_mgr s i = Some w" using assms by blast
  let ?s = "io_upd i (\<lambda>w. w\<lparr>io_uevents := (if flsh then or EV_CLOSE EV_FLUSH else EV_CLOSE),
            io_state := (if io_state w = S_NEW then S_NONE else S_STOP)\<rparr>) s"
  obtain v where v: "io_get ?s i = Inr v" using w by (simp add: io_get_def io_upd_def)
  have "\<exists>s'. io_change i ?s = Inr s' \<and> (\<forall>k. io_mgr s' k = None \<longleftrightarrow> io_mgr s k = None)"
    unfolding io_change_def v by (auto simp: io_upd_def)
  then show ?thesis using w by (auto simp: io_stop_def)
qed

lemma sent_io:
  "buf_inv (nt_send n d) \<Longrightarrow> \<forall>k. io_mgr (se y) k = None \<longleftrightarrow> io_mgr (se (nt_io n)) k = None \<Longrightarrow> sent d [] n (n\<lparr>nt_io := y\<rparr>)"
  unfolding sent_def by (rule exI [of _ "nt_send n d"], rule exI [of _ y]) simp

lemma flush_sent:
  assumes "can_send d n"
  shows "\<exists>n'. sk_flush d n = Inr n' \<and> sent d [] n n'"
proof -
  obtain sk where sk: "nt_heap n d = Some sk" "sk_w sk" and b: "buf_inv (nt_send n d)" and i: "io_mgr (se (nt_io n)) d \<noteq> None"
    using assms by (auto simp: can_send_def)
  obtain wk s' where s: "io_fast_event d (ev32 EV_WRITE) (se (nt_io n)) = Inr (wk, s')"
    "\<forall>k. io_mgr s' k = None \<longleftrightarrow> io_mgr (se (nt_io n)) k = None" using fast_event_ok [OF i] by blast
  let ?y = "(nt_io n)\<lparr>se := s'\<rparr>"
  have "sk_flush d n = Inr (n\<lparr>nt_io := (if wk then wake ?y else ?y)\<rparr>)"
    using sk s(1) by (simp add: sk_flush_def deref_def net_ev_def)
  moreover have "sent d [] n (n\<lparr>nt_io := (if wk then wake ?y else ?y)\<rparr>)"
    by (rule sent_io [OF b]) (use s(2) in \<open>simp add: wake_def\<close>)
  ultimately show ?thesis by blast
qed

lemma stop_sent:
  assumes "can_send d n"
  shows "\<exists>n'. stop E flsh False d n = Inr n' \<and> sent d [] n n'"
proof -
  obtain sk where sk: "nt_heap n d = Some sk" "sk_w sk" "sk_status sk = CS_OPENED" and b: "buf_inv (nt_send n d)"
    and i: "io_mgr (se (nt_io n)) d \<noteq> None" using assms by (auto simp: can_send_def)
  have same: "sk_upd d (\<lambda>sk. sk\<lparr>sk_status := CS_CLOSING\<rparr>) n = n"
    using sk by (simp add: sk_upd_def CS_CLOSING_def CS_OPENED_def map_upd_triv)
  obtain r s' where s: "io_stop d flsh (se (nt_io n)) = Inr (r, s')"
    "\<forall>k. io_mgr s' k = None \<longleftrightarrow> io_mgr (se (nt_io n)) k = None" using io_stop_ok [OF i] by blast
  have "stop E flsh False d n = Inr (n\<lparr>nt_io := (nt_io n)\<lparr>se := s'\<rparr>\<rparr>)"
    using sk s(1) same by (simp add: stop_def deref_def net_ev_def)
  moreover have "sent d [] n (n\<lparr>nt_io := (nt_io n)\<lparr>se := s'\<rparr>\<rparr>)" by (rule sent_io [OF b]) (use s(2) in simp)
  ultimately show ?thesis by blast
qed

lemma append_sent:
  assumes "can_send d n"
  shows "\<exists>n'. sk_append E d data n = Inr n' \<and> sent d data n n'"
proof -
  obtain sk where sk: "nt_heap n d = Some sk" "sk_w sk" and b: "buf_inv (nt_send n d)" and i: "io_mgr (se (nt_io n)) d \<noteq> None"
    using assms by (auto simp: can_send_def)
  obtain r b' where a: "Buffer.append data (nt_send n d) = Inr (r, b')" "buf_inv b'" "content b' = content (nt_send n d) @ data"
    using append_ok [OF b] by blast
  let ?n = "n\<lparr>nt_send := (nt_send n)(d := b')\<rparr>"
  have s: "sent d data n ?n" unfolding sent_def
    by (rule exI [of _ b'], rule exI [of _ "nt_io n"]) (use a in simp)
  have c: "can_send d ?n" by (rule sent_can [OF s assms])
  obtain w where w: "sys_get (nt_io ?n) d = Inr w" using i by (auto simp: sys_get_def io_get_def)
  have s2: "sent d data n n'" if "sent d [] ?n n'" for n' using sent_trans [OF s that] by simp
  show ?thesis
    using sk a(1) w stop_sent [OF c, of E False] flush_sent [OF c] s s2
    by (auto simp: sk_append_def deref_def Let_def)
qed

lemma send_msg_sent:
  assumes "can_send d n" "len \<le> length ctx"
  shows "\<exists>n'. send_msg E d h ctx len n = Inr n' \<and> sent d (h @ take len ctx) n n'"
proof -
  obtain n1 where n1: "sk_append E d h n = Inr n1" "sent d h n n1" using append_sent [OF assms(1)] by blast
  note c1 = sent_can [OF n1(2) assms(1)]
  obtain n2 where n2: "(if len > 0 then bind_res (read_mem 0 len ctx) (\<lambda>data. sk_append E d data n1) else Inr n1) = Inr n2"
    "sent d (h @ take len ctx) n n2"
  proof (cases "len = 0")
    case True
    then show thesis using that n1 by simp
  next
    case False
    obtain m where "sk_append E d (take len ctx) n1 = Inr m" "sent d (take len ctx) n1 m" using append_sent [OF c1] by blast
    then show thesis using that [of m] False assms(2) sent_trans [OF n1(2)] by (simp add: read_mem_def)
  qed
  obtain n3 where n3: "sk_flush d n2 = Inr n3" "sent d [] n2 n3"
    using flush_sent [OF sent_can [OF n2(2) assms(1)]] by blast
  show ?thesis using n1(1) n2 n3 sent_trans [OF n2(2) n3(2)] by (simp add: send_msg_def)
qed

section \<open>Packets between processes\<close>

lemma len_field_le16 [simp]: "len_field (le16 w @ r) = unat w"
  by (simp add: len_field_def take_append)

lemma hl_unat: "header_length hs l = Some hl \<Longrightarrow> unat hl = hs + l"
proof -
  assume "header_length hs l = Some hl"
  then have h: "hs + l < 65536" "hl = word_of_nat (hs + l)" by (simp_all add: header_length_Some MAX_PACKET_LEN_def)
  show "unat hl = hs + l" unfolding h(2) unsigned_of_nat take_bit_nat_def using h(1) by simp
qed

lemma whole_headers:
  "header_length s2s_size (length buf) = Some hl \<Longrightarrow> pkt \<noteq> SPT_CBCP \<Longrightarrow> whole CT_SSCN (s2s_header hl cmd ecode pkt codec own @ buf)"
  "header_length s2c_size (length buf) = Some hl \<Longrightarrow> whole CT_CSCN (s2c_header hl cmd ecode @ buf)"
  "header_length c2s_size (length buf) = Some hl \<Longrightarrow> whole CT_SCCN (c2s_header hl cmd @ buf)"
  by (simp_all add: whole_def head_size_def read_s2s s2s_header_def s2c_header_def c2s_header_def hl_unat
      s2s_size_def s2c_size_def c2s_size_def, simp_all add: read_s2s(4) [unfolded s2s_header_def, simplified])

lemma frames_headers:
  "whole ty p \<Longrightarrow> frames p = ([p], [])"
  using frames_whole [of "[p]" ty] by simp

lemma payload_len: "header_length hs (length buf) = Some hl \<Longrightarrow> packet_buffer_len hs hl = length buf"
  using packet_buffer_len_ok [of hs hl] hl_unat by simp

text \<open>The payload of a packet whose header was written with the lengths of its parts.\<close>

lemma s2s_parts:
  assumes "header_length s2s_size (length buf) = Some hl"
  shows "drop s2s_size (s2s_header hl cmd ecode pkt codec own @ buf) = buf" "packet_buffer_len s2s_size hl = length buf"
  using payload_len [OF assms] by simp_all

lemma css_command_reads:
  assumes "header_length s2s_size (length buf) = Some hl" "cs_cmds m (uint cmd) = Some cfg"
  shows "css_command E e (s2s_header hl cmd ecode pkt codec own @ buf) m =
    decode_and_call E (uint codec) buf (length buf) (Some cfg) ''css_command_new'' [lint e, lint (to_i32 own), lint (uint cmd)] m"
  by (simp add: css_command_def read_s2s assms s2s_parts [OF assms(1)])

lemma sc_command_reads:
  assumes "header_length s2c_size (length buf) = Some hl" "sc_cmds m (uint cmd) = Some cfg" "nt_heap m e = Some sk"
  shows "sc_command E e (s2c_header hl cmd ecode @ buf) m =
    decode_and_call E (sk_codec sk) buf (length buf) (Some cfg) ''command_new'' [lint e, lint (uint cmd), lint (uint ecode)] m"
  using payload_len [OF assms(1)] by (simp add: sc_command_def read_s2c assms deref_def)

lemma ssc_command_reads:
  assumes "header_length s2s_size (length buf) = Some hl" "get_conn_by_owner (to_i32 own) m = Inr (Some c)"
    "nt_heap m c = Some sk" "sk_type sk = CT_SCCN" "sk_packet sk = Some PT_STREAM"
  shows "ssc_command E (s2s_header hl cmd ecode pkt codec own @ buf) m =
    bind_res (raw_pack_clt E c (uint cmd) ecode buf (length buf) m) (\<lambda>(_, n1). Inr n1)"
  by (simp add: ssc_command_def read_s2s assms s2s_parts [OF assms(1)] deref_def pkt_raw_clt_def)

lemma dispatch_sscn:
  assumes "nt_heap m e = Some ek" "sk_type ek = CT_SSCN"
  shows "dispatch E e (s2s_header hl cmd ecode pkt codec own @ buf) m =
    (if pkt = SPT_SSPK then ss_dispatch E e (s2s_header hl cmd ecode pkt codec own @ buf) m
     else if pkt = SPT_CSPK then css_command E e (s2s_header hl cmd ecode pkt codec own @ buf) m
     else if pkt = SPT_SCPK then ssc_command E (s2s_header hl cmd ecode pkt codec own @ buf) m
     else if pkt = SPT_RPCS then rpc_command E e (s2s_header hl cmd ecode pkt codec own @ buf) m
     else if pkt = SPT_RPCR then rpc_return E e (s2s_header hl cmd ecode pkt codec own @ buf) m
     else if pkt = SPT_CBCP then ssc_multicast E (s2s_header hl cmd ecode pkt codec own @ buf) m
     else Inr m)"
  by (simp add: dispatch_def process_ss_command_def deref_def assms read_s2s)

lemma raw_pack_clt_sent:
  assumes "can_send c n" "header_length s2c_size (length buf) = Some hl"
  shows "\<exists>n'. raw_pack_clt E c cmd ecode buf (length buf) n = Inr (0, n') \<and>
    sent c (s2c_header hl (word_of_int cmd) ecode @ buf) n n'"
  using send_msg_sent [OF assms(1), of "length buf" buf E "s2c_header hl (word_of_int cmd) ecode"] assms(2)
  by (auto simp: raw_pack_clt_def)

end
