(* ===== verification/NetInv.thy ===== *)
theory NetInv
  imports NetSend NetApi
begin

text \<open>
  The invariant of the network manager and its preservation by everything that changes the
  manager: the functions scripts call, the callbacks of the event loop and the back end's
  reads and writes.
\<close>

section \<open>The invariant\<close>

text \<open>
  Ids are positive 32-bit numbers; buffers are in order; a watcher that a socket holds is known
  to the event loop; and every id in the map has its object.
\<close>

definition base_ok :: "net \<Rightarrow> bool" where
  "base_ok n \<longleftrightarrow> nt_map n \<subseteq> {1..0x7FFFFFFF} \<and> 0 \<le> nt_seed n \<and> nt_seed n \<le> 0x7FFFFFFF \<and>
     (\<forall>c. buf_inv (nt_recv n c) \<and> buf_inv (nt_send n c)) \<and>
     (\<forall>c sk. nt_heap n c = Some sk \<longrightarrow> sk_w sk \<longrightarrow> io_mgr (se (nt_io n)) c \<noteq> None)"

definition net_ok :: "net \<Rightarrow> bool" where
  "net_ok n \<longleftrightarrow> base_ok n \<and> nt_map n \<subseteq> dom (nt_heap n)"

text \<open>
  Operations that only work on existing sockets are \<open>calm\<close>; all are \<open>sound\<close>.
\<close>

definition calm :: "net \<Rightarrow> net \<Rightarrow> bool" where
  "calm n n' \<longleftrightarrow> (base_ok n \<longrightarrow> base_ok n') \<and> dom (nt_heap n') = dom (nt_heap n) \<and> nt_map n' = nt_map n"

definition based :: "net \<Rightarrow> net \<Rightarrow> bool" where
  "based n n' \<longleftrightarrow> (base_ok n \<longrightarrow> base_ok n')"

definition sound :: "net \<Rightarrow> net \<Rightarrow> bool" where
  "sound n n' \<longleftrightarrow> (net_ok n \<longrightarrow> net_ok n')"

interpretation cm: keeps calm
  by unfold_locales (auto simp: calm_def)

interpretation bs: keeps based
  by unfold_locales (auto simp: based_def)

interpretation sd: keeps sound
  by unfold_locales (auto simp: sound_def)

lemma calm_sound: "calm n n' \<Longrightarrow> sound n n'"
  by (simp add: calm_def sound_def net_ok_def)

lemma calm_keeps_sound:
  "ret_keeps calm n r \<Longrightarrow> ret_keeps sound n r" "val_keeps calm n r' \<Longrightarrow> val_keeps sound n r'"
  by (auto simp: ret_keeps_def val_keeps_def intro: calm_sound)

named_theorems calms \<open>operations that keep the invariant and the sockets there are\<close>
named_theorems sounds \<open>operations that keep the invariant\<close>

section \<open>Small steps\<close>

lemma calm_same:
  "nt_heap n' = nt_heap n \<Longrightarrow> nt_map n' = nt_map n \<Longrightarrow> nt_seed n' = nt_seed n \<Longrightarrow> nt_recv n' = nt_recv n \<Longrightarrow>
   nt_send n' = nt_send n \<Longrightarrow> nt_io n' = nt_io n \<Longrightarrow> calm n n'"
  by (simp add: calm_def base_ok_def)

lemma calm_sk_upd:
  assumes "\<And>sk. sk_w (f sk) \<Longrightarrow> sk_w sk"
  shows "calm n (sk_upd c f n)"
  using assms by (auto simp: calm_def base_ok_def sk_upd_def)

lemma calm_send: "buf_inv b \<Longrightarrow> calm n (n\<lparr>nt_send := (nt_send n)(c := b)\<rparr>)"
  by (auto simp: calm_def base_ok_def)

lemma calm_recv: "buf_inv b \<Longrightarrow> calm n (set_recv c b n)"
  by (auto simp: calm_def base_ok_def set_recv_def)

lemma calm_io: "\<forall>k. io_mgr (se (nt_io n)) k \<noteq> None \<longrightarrow> io_mgr (se y) k \<noteq> None \<Longrightarrow> calm n (n\<lparr>nt_io := y\<rparr>)"
  unfolding calm_def base_ok_def by simp

lemma calm_wake [calms]: "ret_keeps calm n (Inr (if wk then n\<lparr>nt_io := wake (nt_io n)\<rparr> else n))"
  by (auto simp: ret_keeps_def cm.R_refl wake_def intro!: calm_io)

lemma deref_cases: "deref c n = Inr sk \<longleftrightarrow> nt_heap n c = Some sk"
  by (auto simp: deref_def split: option.split)

text \<open>Operations of the event loop forget no watcher.\<close>

lemma calm_net_ev:
  assumes "\<And>s r s' k. f s = Inr (r, s') \<Longrightarrow> io_mgr s k \<noteq> None \<Longrightarrow> io_mgr s' k \<noteq> None"
  shows "val_keeps calm n (net_ev f n)"
  unfolding val_keeps_def
proof (intro allI impI)
  fix x n'
  assume "net_ev f n = Inr (x, n')"
  then obtain s' where s': "f (se (nt_io n)) = Inr (x, s')" "n' = n\<lparr>nt_io := (nt_io n)\<lparr>se := s'\<rparr>\<rparr>"
    by (auto simp: net_ev_def bind_res_eq_Inr)
  show "calm n n'" unfolding s'(2) by (rule calm_io) (use assms [OF s'(1)] in simp)
qed

lemma calm_net_ev_iff:
  assumes "\<And>s r s' k. f s = Inr (r, s') \<Longrightarrow> io_mgr s' k = None \<longleftrightarrow> io_mgr s k = None"
  shows "val_keeps calm n (net_ev f n)"
  by (rule calm_net_ev) (simp add: assms)

lemma io_change_dom: "io_change i s = Inr s' \<Longrightarrow> io_mgr s' k = None \<longleftrightarrow> io_mgr s k = None"
  by (auto simp: io_change_def bind_res_eq_Inr split: if_splits)

lemma ev_ops_dom:
  "io_fast_event i e s = Inr (wk, s') \<Longrightarrow> io_mgr s' k = None \<longleftrightarrow> io_mgr s k = None"
  "io_stop i flsh s = Inr (r, s') \<Longrightarrow> io_mgr s' k = None \<longleftrightarrow> io_mgr s k = None"
  "io_set i e s = Inr s' \<Longrightarrow> io_mgr s' k = None \<longleftrightarrow> io_mgr s k = None"
  using io_change_dom
  by (auto simp: io_fast_event_def io_stop_def io_set_def Let_def bind_res_eq_Inr split: if_splits option.splits)

lemma io_delete_dom:
  assumes "io_delete i s = Inr (r, s')"
  shows "io_mgr s' k = None \<longleftrightarrow> io_mgr s k = None"
proof (cases "io_mgr s i = None")
  case True
  then show ?thesis using assms by (simp add: io_delete_def)
next
  case False
  define s1 where "s1 = io_upd i (\<lambda>w. w\<lparr>io_state := S_DEL\<rparr>) s"
  have s1: "io_mgr s1 k = None \<longleftrightarrow> io_mgr s k = None" by (simp add: s1_def)
  define j where "j = io_delete_index s1"
  define old where "old = io_changes s1 ! j"
  have u: "(if length (io_changes s1) > j
      then (if old = i then Inr (0, s1)
            else bind_res (io_get s1 old) (\<lambda>_. bind_res (io_change old (io_upd old (\<lambda>w. w\<lparr>io_change_index := 0\<rparr>) s1)) (\<lambda>s2.
                   Inr (0, io_upd i (\<lambda>w. w\<lparr>io_change_index := j + 1\<rparr>) (s2\<lparr>io_changes := (io_changes s2)[j := i], io_delete_index := j + 1\<rparr>)))))
      else bind_res (io_change i s1) (\<lambda>s2. Inr (0, s2\<lparr>io_delete_index := j + 1\<rparr>))) = Inr (r, s')"
    using assms False unfolding io_delete_def Let_def s1_def [symmetric] j_def [symmetric] old_def [symmetric] by simp
  consider "s' = s1"
    | s2 where "io_change old (io_upd old (\<lambda>w. w\<lparr>io_change_index := 0\<rparr>) s1) = Inr s2"
        "s' = io_upd i (\<lambda>w. w\<lparr>io_change_index := j + 1\<rparr>) (s2\<lparr>io_changes := (io_changes s2)[j := i], io_delete_index := j + 1\<rparr>)"
    | s2 where "io_change i s1 = Inr s2" "s' = s2\<lparr>io_delete_index := j + 1\<rparr>"
    using u by (cases "length (io_changes s1) > j"; cases "old = i") (auto simp: bind_res_eq_Inr)
  then show ?thesis
  proof cases
    case 1
    then show ?thesis using s1 by simp
  next
    case 2
    have "io_mgr s' k = None \<longleftrightarrow> io_mgr s2 k = None" unfolding 2(2) io_upd_dom by simp
    then show ?thesis using io_change_dom [OF 2(1), of k] s1 by simp
  next
    case 3
    then show ?thesis using io_change_dom [OF 3(1), of k] s1 by simp
  qed
qed

lemma io_start_dom:
  assumes "io_start i fd e s = Inr (ok, s')"
  shows "io_mgr s k \<noteq> None \<Longrightarrow> io_mgr s' k \<noteq> None" "ok \<Longrightarrow> io_mgr s' i \<noteq> None"
proof -
  have "s' = s \<and> \<not> ok \<or> io_change i (s\<lparr>io_mgr := (io_mgr s)(i \<mapsto> (evio_new fd e)\<lparr>io_state := S_NEW\<rparr>)\<rparr>) = Inr s'"
    using assms by (auto simp: io_start_def bind_res_eq_Inr split: if_splits)
  then show "io_mgr s k \<noteq> None \<Longrightarrow> io_mgr s' k \<noteq> None" "ok \<Longrightarrow> io_mgr s' i \<noteq> None"
    using io_change_dom [of i "s\<lparr>io_mgr := (io_mgr s)(i \<mapsto> (evio_new fd e)\<lparr>io_state := S_NEW\<rparr>)\<rparr>" s' k]
      io_change_dom [of i "s\<lparr>io_mgr := (io_mgr s)(i \<mapsto> (evio_new fd e)\<lparr>io_state := S_NEW\<rparr>)\<rparr>" s' i]
    by (auto split: if_splits simp del: not_None_eq)
qed

lemma ev_ops_calm [calms]:
  "val_keeps calm n (net_ev (io_fast_event c e) n)" "val_keeps calm n (net_ev (io_stop c flsh) n)"
  "val_keeps calm n (net_ev (io_delete c) n)" "val_keeps calm n (net_ev (io_start c fd e) n)"
  "val_keeps calm n (net_ev (\<lambda>s. bind_res (io_set c e s) (\<lambda>s'. Inr ((), s'))) n)"
proof -
  show "val_keeps calm n (net_ev (io_fast_event c e) n)"
    by (rule calm_net_ev_iff) (rule ev_ops_dom(1))
  show "val_keeps calm n (net_ev (io_stop c flsh) n)"
    by (rule calm_net_ev_iff) (rule ev_ops_dom(2))
  show "val_keeps calm n (net_ev (io_delete c) n)"
    by (rule calm_net_ev_iff) (rule io_delete_dom)
  show "val_keeps calm n (net_ev (io_start c fd e) n)"
    by (rule calm_net_ev) (rule io_start_dom(1))
  show "val_keeps calm n (net_ev (\<lambda>s. bind_res (io_set c e s) (\<lambda>s'. Inr ((), s'))) n)"
  proof (rule calm_net_ev)
    fix s r s' k
    assume "bind_res (io_set c e s) (\<lambda>s'. Inr ((), s')) = Inr (r, s')" "io_mgr s k \<noteq> None"
    moreover from this(1) have "io_set c e s = Inr s'" by (simp add: bind_res_eq_Inr)
    ultimately show "io_mgr s' k \<noteq> None" using ev_ops_dom(3) [of c e s s' k] by simp
  qed
qed

section \<open>Sockets\<close>

lemma close_cb_calm [calms]: "ret_keeps calm n (close_cb E True c n)"
proof -
  have "calm n (sk_upd c (\<lambda>sk. sk\<lparr>sk_w := False\<rparr>) n)" by (rule calm_sk_upd) simp
  then show ?thesis unfolding close_cb_def by (intro cm.bind_pure(1)) (simp add: ret_keeps_def)
qed

lemma stop_calm [calms]: "ret_keeps calm n (stop E flsh trm c n)"
proof -
  have "calm n (sk_upd c (sk_status_update (\<lambda>_. CS_CLOSING)) n)" by (rule calm_sk_upd) simp
  then have 1: "ret_keeps calm n r" if "ret_keeps calm (sk_upd c (sk_status_update (\<lambda>_. CS_CLOSING)) n) r" for r
    using cm.from_state(1) that by blast
  show ?thesis unfolding stop_def Let_def by (rule cm.bind_pure(1), rule 1) (rule cm.rules calms)+
qed

lemma flush_calm [calms]: "ret_keeps calm n (sk_flush c n)"
  unfolding sk_flush_def by (rule cm.rules calms)+

lemma append_calm [calms]: "ret_keeps calm n (sk_append E c data n)"
proof -
  have b: "calm n (n\<lparr>nt_send := (nt_send n)(c := snd x)\<rparr>)" if "Buffer.append data (nt_send n c) = Inr x" for x
  proof (cases "base_ok n")
    case True
    then have "buf_inv (nt_send n c)" by (simp add: base_ok_def)
    from append_ok [OF this, of data] that have "buf_inv (snd x)" by fastforce
    then show ?thesis by (rule calm_send)
  qed (simp add: calm_def)
  have 1: "ret_keeps calm (n\<lparr>nt_send := f\<rparr>) (if e = 0 then Inr (n\<lparr>nt_send := f\<rparr>)
      else bind_res (sys_get (nt_io (n\<lparr>nt_send := f\<rparr>)) c) (\<lambda>w.
        if and (io_mask w) M_OVERFLOW_KILL \<noteq> 0 then stop E False False c (n\<lparr>nt_send := f\<rparr>)
        else if and (io_mask w) M_OVERFLOW_PEND \<noteq> 0 then sk_flush c (n\<lparr>nt_send := f\<rparr>) else Inr (n\<lparr>nt_send := f\<rparr>)))" for e f
    by (rule cm.rules calms)+
  show ?thesis unfolding sk_append_def Let_def
    by (rule cm.bind_pure(1), rule cm.bind_pure(1), rule cm.bind_eq(1), simp only: split_beta, rule cm.from_state(1) [OF b 1])
qed

lemma send_msg_calm [calms]: "ret_keeps calm n (send_msg E c h ctx len n)"
  unfolding send_msg_def by (rule cm.rules calms)+

lemma pack_calm [calms]:
  "val_keeps calm n (raw_pack_clt E c cmd ecode ctx len n)" "val_keeps calm n (raw_pack_ss E c cmd ecode session ctx len n)"
  "val_keeps calm n (do_pack_rpc E c uid ecode pkt stack i n)" "val_keeps calm n (cs_dispatch E w c ctx len n)"
  unfolding raw_pack_clt_def raw_pack_ss_def do_pack_rpc_def cs_dispatch_def Let_def by (rule cm.rules calms)+

section \<open>Starting\<close>

lemma calm_watcher:
  assumes "io_mgr (se (nt_io n)) c \<noteq> None"
  shows "calm n (sk_upd c f (n\<lparr>nt_recv := (nt_recv n)(c := buffer_init), nt_send := (nt_send n)(c := buffer_init)\<rparr>))"
  using assms by (auto simp: calm_def base_ok_def sk_upd_def)

lemma start_io_calm [calms]: "val_keeps calm n (start_io c fd events n)"
  unfolding val_keeps_def
proof (intro allI impI)
  fix ok n'
  assume a: "start_io c fd events n = Inr (ok, n')"
  then obtain ok1 n1 where n1: "net_ev (io_start c fd events) n = Inr (ok1, n1)" by (auto simp: start_io_def bind_res_eq_Inr)
  then have c: "calm n n1" using ev_ops_calm(4) [of n c fd events] by (simp add: val_keeps_def)
  show "calm n n'"
  proof (cases ok1)
    case True
    obtain s where s: "io_start c fd events (se (nt_io n)) = Inr (ok1, s)" "n1 = n\<lparr>nt_io := (nt_io n)\<lparr>se := s\<rparr>\<rparr>"
      using n1 by (auto simp: net_ev_def bind_res_eq_Inr)
    then have "io_mgr (se (nt_io n1)) c \<noteq> None" using io_start_dom(2) [OF s(1)] True by simp
    moreover have "n' = sk_upd c (\<lambda>sk. sk\<lparr>sk_w := True\<rparr>)
        (n1\<lparr>nt_recv := (nt_recv n1)(c := buffer_init), nt_send := (nt_send n1)(c := buffer_init)\<rparr>)"
      using a n1 True by (simp add: start_io_def)
    ultimately have "calm n1 n'" using calm_watcher by simp
    then show ?thesis by (rule cm.R_trans [OF c])
  next
    case False
    then show ?thesis using a n1 c by (simp add: start_io_def)
  qed
qed

lemma calm_upd_val: "(\<And>sk. sk_w (f sk) \<Longrightarrow> sk_w sk) \<Longrightarrow> val_keeps calm n (Inr (x, sk_upd c f n))"
  by (simp add: val_keeps_def calm_sk_upd)

lemma sk_open_calm [calms]:
  "val_keeps calm n (sk_start c fd n)" "val_keeps calm n (sk_connect c os n)" "val_keeps calm n (sk_listen c os n)"
proof -
  have u: "calm n (sk_upd c (\<lambda>sk. sk\<lparr>sk_fd := fd, sk_status := CS_OPENED\<rparr>) n)" "calm n (sk_upd c (\<lambda>sk. sk\<lparr>sk_fd := fd\<rparr>) n)" for fd n
    by (rule calm_sk_upd; simp)+
  show "val_keeps calm n (sk_start c fd n)" unfolding sk_start_def
    by (rule cm.bind_pure(2), rule cm.bind_pure(2), rule cm.from_state(2) [OF u(1) start_io_calm])
  show "val_keeps calm n (sk_connect c os n)" unfolding sk_connect_def
    by (rule cm.rules calms calm_upd_val | simp)+
  have l: "val_keeps calm n (bind_res (start_io c fd e (sk_upd c (\<lambda>sk. sk\<lparr>sk_fd := fd\<rparr>) n)) (\<lambda>(ok, n1).
      if ok then Inr (fd, sk_upd c (\<lambda>sk. sk\<lparr>sk_status := CS_OPENED\<rparr>) n1) else Inr (-1, sk_upd c (\<lambda>sk. sk\<lparr>sk_fd := -1\<rparr>) n1)))" for fd e
    by (rule cm.from_state(2) [OF u(2)]) (rule cm.rules calms calm_upd_val | simp)+
  show "val_keeps calm n (sk_listen c os n)" unfolding sk_listen_def
    by (rule cm.bind_pure(2)) (rule cm.cases cm.ret l calm_upd_val | simp)+
qed

section \<open>New sockets\<close>

lemma new_id_range:
  assumes "new_id_from seed ids = Some r" "0 \<le> seed"
  shows "r \<notin> ids \<and> 1 \<le> r \<and> r \<le> 0x7FFFFFFF"
proof -
  have "0 \<le> seed \<longrightarrow> r \<notin> ids \<and> 1 \<le> r \<and> r \<le> 0x7FFFFFFF"
  proof (rule new_id_from.raw_induct [where P = "\<lambda>seed ids r. 0 \<le> seed \<longrightarrow> r \<notin> ids \<and> 1 \<le> r \<and> r \<le> 0x7FFFFFFF", OF _ assms(1)])
    fix f :: "int \<Rightarrow> int set \<Rightarrow> int option" and seed r :: int and ids
    assume ih: "\<And>seed ids r. f seed ids = Some r \<Longrightarrow> 0 \<le> seed \<longrightarrow> r \<notin> ids \<and> 1 \<le> r \<and> r \<le> 0x7FFFFFFF"
      and r: "(let s = if 0x7FFFFFFF \<le> seed then 1 else seed + 1 in if s \<in> ids then f s ids else Some s) = Some r"
    then show "0 \<le> seed \<longrightarrow> r \<notin> ids \<and> 1 \<le> r \<and> r \<le> 0x7FFFFFFF"
      using ih [of "if 0x7FFFFFFF \<le> seed then 1 else seed + 1" ids r] by (auto simp: Let_def split: if_splits)
  qed
  then show ?thesis using assms(2) by simp
qed

text \<open>A new id and its object; the manager's map does not know it yet.\<close>

lemma new_connect_id_ok:
  assumes "new_connect_id n = Inr (c, n1)" "net_ok n"
  shows "net_ok (new_sock c ty n1)" "c \<notin> nt_map n1" "c \<in> {1..0x7FFFFFFF}" "c \<in> dom (nt_heap (new_sock c ty n1))"
    "nt_map (new_sock c ty n1) = nt_map n1"
proof -
  have r: "new_id_from (nt_seed n) (nt_map n) = Some c" "n1 = n\<lparr>nt_seed := c\<rparr>"
    using assms(1) by (auto simp: new_connect_id_def split: option.splits)
  have s: "0 \<le> nt_seed n" using assms(2) by (simp add: net_ok_def base_ok_def)
  note nr = new_id_range [OF r(1) s]
  show "net_ok (new_sock c ty n1)" "c \<notin> nt_map n1" "c \<in> {1..0x7FFFFFFF}" "c \<in> dom (nt_heap (new_sock c ty n1))"
    "nt_map (new_sock c ty n1) = nt_map n1"
    using assms(2) nr r(2) by (auto simp: net_ok_def base_ok_def new_sock_def sock_new_def)
qed

lemma calm_from: "net_ok n \<Longrightarrow> calm n n' \<Longrightarrow> net_ok n' \<and> nt_map n' = nt_map n \<and> dom (nt_heap n') = dom (nt_heap n)"
  by (simp add: calm_def net_ok_def)

lemma net_ok_insert: "net_ok n \<Longrightarrow> c \<in> {1..0x7FFFFFFF} \<Longrightarrow> c \<in> dom (nt_heap n) \<Longrightarrow> net_ok (n\<lparr>nt_map := insert c (nt_map n)\<rparr>)"
  by (auto simp: net_ok_def base_ok_def)

lemma net_ok_del: "net_ok n \<Longrightarrow> net_ok ((del_sock c n)\<lparr>nt_map := nt_map n - {c}\<rparr>)"
  by (auto simp: net_ok_def base_ok_def del_sock_def)

lemma net_ok_del_unused: "net_ok n \<Longrightarrow> c \<notin> nt_map n \<Longrightarrow> net_ok (del_sock c n)"
  using net_ok_del [of n c] by (simp add: del_sock_def)

text \<open>Opening: a fresh object, a start that is calm, and then the map or the end of the object.\<close>

lemma opened_sound:
  assumes id: "new_connect_id n = Inr (c, n1)" and start: "val_keeps calm (new_sock c ty n1) (Inr (x, n2))"
  shows "sound n (del_sock c n2)" "sound n (n2\<lparr>nt_map := insert c (nt_map n2)\<rparr>)"
proof -
  have c: "calm (new_sock c ty n1) n2" using start by (simp add: val_keeps_def)
  have "net_ok n2" "c \<notin> nt_map n2" "c \<in> {1..0x7FFFFFFF}" "c \<in> dom (nt_heap n2)" if "net_ok n"
    using calm_from [OF new_connect_id_ok(1) [OF id that] c] new_connect_id_ok(2-5) [OF id that] by simp_all
  then show "sound n (del_sock c n2)" "sound n (n2\<lparr>nt_map := insert c (nt_map n2)\<rparr>)"
    unfolding sound_def using net_ok_del_unused [of n2 c] net_ok_insert [of n2 c] by blast+
qed

lemma arg_sound: "(\<And>x. val_keeps sound n (f x)) \<Longrightarrow> val_keeps sound n (bind_arg a n f)"
  by (auto simp: bind_arg_def sd.ret split: sum.split)

lemma arg_calm: "(\<And>x. val_keeps calm n (f x)) \<Longrightarrow> val_keeps calm n (bind_arg a n f)"
  by (auto simp: bind_arg_def cm.ret split: sum.split)

lemma api_sound: "val_keeps sound n m \<Longrightarrow> (\<And>x t. val_keeps sound t (f x t)) \<Longrightarrow> val_keeps sound n (bind_api m f)"
  unfolding bind_api_def by (rule sd.bind_val(2)) (auto simp: sd.ret split: sum.split)

lemma sock_sound: "(\<And>sk. val_keeps sound n (f sk)) \<Longrightarrow> val_keeps sound n (with_sock c n f)"
  unfolding with_sock_def by (intro arg_sound sd.bind_pure(2))

lemma listen_sound [sounds]: "val_keeps sound n (mgr_listen E os stack n)"
proof -
  have "val_keeps sound n (bind_res (sk_listen c os (new_sock c ty n1)) (\<lambda>(fd, n2).
      if fd < 0 then Inr (Inr (-1), del_sock c n2) else Inr (Inr c, n2\<lparr>nt_map := insert c (nt_map n2)\<rparr>)))"
    if "new_connect_id n = Inr (c, n1)" for c n1 ty
  proof (rule sd.bind_eq(2), simp only: split_paired_all prod.case)
    fix fd n2
    assume s: "sk_listen c os (new_sock c ty n1) = Inr (fd, n2)"
    have "val_keeps calm (new_sock c ty n1) (Inr (fd, n2))" using sk_open_calm(3) [of "new_sock c ty n1" c os] s by simp
    from opened_sound [OF that this]
    show "val_keeps sound n (if fd < 0 then Inr (Inr (-1), del_sock c n2) else Inr (Inr c, n2\<lparr>nt_map := insert c (nt_map n2)\<rparr>))"
      by (simp add: val_keeps_def)
  qed
  then show ?thesis unfolding mgr_listen_def
    by (intro arg_sound sd.cases(4) sd.ret) (rule sd.bind_eq(2), auto)
qed

lemma connect_sound [sounds]: "val_keeps sound n (mgr_connect E os stack n)"
proof -
  have "val_keeps sound n (bind_res (sk_connect c os (new_sock c ty n1)) (\<lambda>(fd, n2).
      if fd = -1 then Inr (Inl OsError, del_sock c n2) else Inr (Inr c, n2\<lparr>nt_map := insert c (nt_map n2)\<rparr>)))"
    if "new_connect_id n = Inr (c, n1)" for c n1 ty
  proof (rule sd.bind_eq(2), simp only: split_paired_all prod.case)
    fix fd n2
    assume s: "sk_connect c os (new_sock c ty n1) = Inr (fd, n2)"
    have "val_keeps calm (new_sock c ty n1) (Inr (fd, n2))" using sk_open_calm(2) [of "new_sock c ty n1" c os] s by simp
    from opened_sound [OF that this]
    show "val_keeps sound n (if fd = -1 then Inr (Inl OsError, del_sock c n2) else Inr (Inr c, n2\<lparr>nt_map := insert c (nt_map n2)\<rparr>))"
      by (simp add: val_keeps_def)
  qed
  then show ?thesis unfolding mgr_connect_def
    by (intro arg_sound) (rule sd.bind_eq(2), auto)
qed

section \<open>The environment\<close>

text \<open>What the rest of the program may do to the manager: anything that keeps the invariant.\<close>

definition ok_env :: "env \<Rightarrow> bool" where
  "ok_env E \<longleftrightarrow>
     (\<forall>fn args n. val_keeps sound n (k_script E fn args n)) \<and> (\<forall>c n. val_keeps sound n (k_ssl_init E c n)) \<and>
     (\<forall>p c stack i n. val_keeps sound n (k_pack_srv E p c stack i n)) \<and>
     (\<forall>p c stack i n. val_keeps sound n (k_pack_clt E p c stack i n)) \<and>
     (\<forall>p c n. val_keeps sound n (k_unpack E p c n)) \<and>
     (\<forall>p c cmd ecode data n. val_keeps sound n (k_raw_clt E p c cmd ecode data n)) \<and>
     (\<forall>p c n. ret_keeps sound n (k_on_closed E p c n))"

lemma ok_envD:
  assumes "ok_env E"
  shows "val_keeps sound n (script E fn args n)" "val_keeps sound n (k_ssl_init E c n)"
    "val_keeps sound n (k_pack_srv E p c stack i n)" "val_keeps sound n (k_pack_clt E p c stack i n)"
    "val_keeps sound n (k_unpack E p c n)" "val_keeps sound n (k_raw_clt E p c cmd ecode data n)"
    "ret_keeps sound n (k_on_closed E p c n)"
proof -
  have "sound n (n\<lparr>nt_calls := nt_calls n @ [(fn, args)]\<rparr>)" by (rule calm_sound, rule calm_same) simp_all
  moreover have "val_keeps sound m (k_script E fn args m)" for m using assms by (simp add: ok_env_def)
  ultimately show "val_keeps sound n (script E fn args n)" unfolding script_def by (rule sd.from_state(2))
qed (use assms in \<open>simp_all add: ok_env_def\<close>)

lemmas calm_ops [sounds] = calm_wake [THEN calm_keeps_sound(1)] close_cb_calm [THEN calm_keeps_sound(1)]
  stop_calm [THEN calm_keeps_sound(1)] flush_calm [THEN calm_keeps_sound(1)] append_calm [THEN calm_keeps_sound(1)]
  send_msg_calm [THEN calm_keeps_sound(1)] pack_calm [THEN calm_keeps_sound(2)] ev_ops_calm [THEN calm_keeps_sound(2)]
  start_io_calm [THEN calm_keeps_sound(2)] sk_open_calm [THEN calm_keeps_sound(2)]

section \<open>Handlers\<close>

lemma pkt_raw_clt_sound: "ok_env E \<Longrightarrow> val_keeps sound n (pkt_raw_clt E p c cmd ecode ctx len n)"
  unfolding pkt_raw_clt_def
  by (auto simp: sd.ret sounds intro!: sd.bind_pure ok_envD split: option.split packet_type.split)

lemma decode_and_call_sound: "ok_env E \<Longrightarrow> ret_keeps sound n (decode_and_call E ty ctx len cfg fn args n)"
  unfolding decode_and_call_def by ((rule sd.pair sd.bind_val sd.bind_pure sd.cases sd.ret ok_envD; assumption?)+)

lemma one_multicast_sound: "ok_env E \<Longrightarrow> ret_keeps sound n (ssc_one_multicast E own cmd ecode ctx len n)"
  unfolding ssc_one_multicast_def by ((rule sd.pair sd.bind_val sd.bind_pure sd.cases sd.ret pkt_raw_clt_sound; assumption?)+)

lemma cast_table_sound: "ok_env E \<Longrightarrow> ret_keeps sound n (cast_table E kvs cmd ecode ctx len n)"
proof (induction kvs arbitrary: n)
  case (Cons kv kvs)
  have "ret_keeps sound n (bind_res (ssc_one_multicast E own cmd ecode ctx len n) (\<lambda>n1. cast_table E kvs cmd ecode ctx len n1))" for own
    by (rule sd.bind_ret(1) [OF one_multicast_sound [OF Cons.prems] Cons.IH [OF Cons.prems]])
  then show ?case by (cases kv; cases "snd kv") (auto simp: sd.ret)
qed (simp add: sd.ret)

lemma ssc_multicast_sound: "ok_env E \<Longrightarrow> ret_keeps sound n (ssc_multicast E mem n)"
proof -
  assume t: "ok_env E"
  have f: "ret_keeps sound n (fold_res (\<lambda>idx n. bind_res (read_i32 (22 + 4 * idx) mem) (\<lambda>own.
      ssc_one_multicast E own cmd ecode ctx k n)) xs n)" for cmd ecode ctx k xs n
    by (rule sd.fold, rule sd.bind_pure, rule one_multicast_sound [OF t])
  have g: "ret_keeps sound n (case rets of LTab kvs # _ \<Rightarrow> cast_table E kvs cmd ecode ctx k n | _ \<Rightarrow> Inr n)" for rets cmd ecode ctx k n
    by (auto simp: sd.ret cast_table_sound [OF t] split: list.split lua.split)
  show ?thesis
    unfolding ssc_multicast_def Let_def
    by (rule sd.pair sd.bind_val ok_envD(1) [OF t] sd.bind_pure sd.cases sd.ret f g)+
qed

lemma dispatch_sound:
  assumes t: "ok_env E"
  shows "ret_keeps sound n (dispatch E c mem n)"
proof -
  note [sounds] = decode_and_call_sound [OF t] ok_envD(1) [OF t] pkt_raw_clt_sound [OF t] ssc_multicast_sound [OF t]
  have [sounds]: "ret_keeps sound n (sc_command E c mem n)" "ret_keeps sound n (sp_cs_dispatch E c mem n)"
    "ret_keeps sound n (ss_dispatch E c mem n)" "ret_keeps sound n (css_command E c mem n)" "ret_keeps sound n (ssc_command E mem n)"
    "ret_keeps sound n (rpc_command E c mem n)" "ret_keeps sound n (rpc_return E c mem n)" for n
    unfolding sc_command_def sp_cs_dispatch_def cs_command_def ss_dispatch_def ss_command_def css_command_def
      ssc_command_def rpc_command_def rpc_return_def Let_def
    by (rule sd.rules sounds)+
  have [sounds]: "ret_keeps sound n (process_ss_command E c mem n)" for n
    unfolding process_ss_command_def by (rule sd.rules sounds)+
  show ?thesis
    unfolding dispatch_def by (rule sd.bind_pure) (auto simp: sounds sd.ret split: conn_type.split)
qed

section \<open>Unpacking\<close>

lemma flat_mem_inv: "buf_inv b \<Longrightarrow> flat_mem len b = Inr (m, b1) \<Longrightarrow> buf_inv b1"
proof -
  assume a: "buf_inv b" "flat_mem len b = Inr (m, b1)"
  then have ne: "chunks b \<noteq> []" by (auto simp: flat_mem_def to_flat_ctx_def)
  obtain m' l where "flat_mem len b = Inr (m', b\<lparr>large := l\<rparr>)" using flat_mem_ok [OF a(1) ne, of len] by blast
  then have "b1 = b\<lparr>large := l\<rparr>" using a(2) by simp
  then show ?thesis using a(1) by (simp add: buf_inv_def)
qed

lemma remove_inv: "buf_inv b \<Longrightarrow> Buffer.remove len b = Inr (r, b1) \<Longrightarrow> buf_inv b1"
proof -
  assume a: "buf_inv b" "Buffer.remove len b = Inr (r, b1)"
  have inv: "chunks_inv (chunks b)" "chunk_size b = int (length (chunks b))" using a(1) by (simp_all add: buf_inv_def)
  have ne: "chunks b \<noteq> []" using a(2) by (auto simp: Buffer.remove_def)
  have le: "len \<le> length (content b)"
  proof (rule ccontr)
    assume "\<not> len \<le> length (content b)"
    then have "remove_loop len (chunks b) (chunk_size b) = Inl (if chunks b = [] then NullDeref else AssertionFailed)"
      using remove_loop_short [OF inv(1) _ inv(2)] by (simp add: content_def)
    then show False using a(2) by (simp add: Buffer.remove_def)
  qed
  obtain r' b' where "Buffer.remove len b = Inr (r', b')" "buf_inv b'" using remove_ok [OF a(1) ne le] by blast
  then show ?thesis using a(2) by simp
qed

lemma recv_sound: "(base_ok n \<Longrightarrow> buf_inv b) \<Longrightarrow> sound n (set_recv c b n)"
  using calm_recv [of b n c] by (auto simp: sound_def net_ok_def calm_def)

lemma sp_unpack_sound:
  assumes "ok_env E"
  shows "val_keeps sound n (sp_unpack E c n)"
proof -
  have inv: "buf_inv (nt_recv n c)" if "base_ok n" for n using that by (simp add: base_ok_def)
  have last: "val_keeps sound n1 (bind_res (Buffer.remove len (nt_recv n1 c)) (\<lambda>(nx, b). Inr (if nx then 1 else 0, set_recv c b n1)))" for n1 len
    by (rule sd.bind_eq(2)) (auto simp: val_keeps_def intro!: recv_sound dest: remove_inv [OF inv])
  show ?thesis unfolding sp_unpack_def
  proof (rule sd.bind_eq(2), simp only: split_paired_all prod.case)
    fix r b1
    assume f1: "flat_mem base_size (nt_recv n c) = Inr (r, b1)"
    have b1: "buf_inv b1" if "base_ok n" by (rule flat_mem_inv [OF inv [OF that] f1])
    have w: "val_keeps sound n (Inr (0, set_recv c b1 n))" by (simp add: val_keeps_def recv_sound b1)
    have d: "val_keeps sound n (bind_res (dispatch E c mem2 (set_recv c b2 n)) (\<lambda>n1. bind_res (Buffer.remove len (nt_recv n1 c))
        (\<lambda>(nx, b). Inr (if nx then 1 else 0, set_recv c b n1))))"
      if f2: "flat_mem k b1 = Inr (r2, b2)" for mem2 b2 len k r2
      by (rule sd.from_state(2) [OF recv_sound [of n b2 c] sd.bind_ret(2) [OF dispatch_sound [OF assms] last]])
        (use flat_mem_inv f2 b1 in blast)
    show "val_keeps sound n (case r of None \<Rightarrow> Inr (0, set_recv c b1 n)
       | Some mem \<Rightarrow> bind_res (read_u16 0 mem) (\<lambda>len. if \<not> check_used_size (unat len) b1 then Inr (0, set_recv c b1 n)
           else bind_res (flat_mem (unat len) b1) (\<lambda>(r2, b2). case r2 of None \<Rightarrow> Inl NullDeref
               | Some mem2 \<Rightarrow> bind_res (dispatch E c mem2 (set_recv c b2 n)) (\<lambda>n1.
                     bind_res (Buffer.remove (unat len) (nt_recv n1 c)) (\<lambda>(nx, b3). Inr (if nx then 1 else 0, set_recv c b3 n1))))))"
      by (cases r) (auto intro!: w sd.bind_pure(2) sd.bind_eq(2) d sd.ret split: option.split)
  qed
qed

lemma pkt_unpack_sound: "ok_env E \<Longrightarrow> val_keeps sound n (pkt_unpack E c n)"
  unfolding pkt_unpack_def
  by (rule sd.bind_pure(2)) (auto simp: sd.ret ok_envD sp_unpack_sound split: option.split packet_type.split)

lemma command_loop_sound:
  assumes ok: "ok_env E" and r: "command_loop E c n = Some r"
  shows "val_keeps sound n r"
proof -
  have "E = E \<longrightarrow> val_keeps sound n r"
  proof (rule command_loop.raw_induct [where P = "\<lambda>E' c n r. E' = E \<longrightarrow> val_keeps sound n r", OF _ r])
    fix f :: "env \<Rightarrow> int \<Rightarrow> net \<Rightarrow> (int \<times> net) result option" and E' c n r
    assume ih: "\<And>E' c n r. f E' c n = Some r \<Longrightarrow> E' = E \<longrightarrow> val_keeps sound n r"
      and s: "(case pkt_unpack E' c n of Inl e \<Rightarrow> Some (Inl e)
        | Inr (ret, n1) \<Rightarrow> if ret \<le> 0 then Some (Inr (ret, n1))
          else (case deref c n1 of Inl e \<Rightarrow> Some (Inl e)
                | Inr sk \<Rightarrow> if sk_status sk = CS_OPENED then f E' c n1 else Some (Inr (ret, n1)))) = Some r"
    show "E' = E \<longrightarrow> val_keeps sound n r"
    proof
      assume e: "E' = E"
      show "val_keeps sound n r"
      proof (cases "pkt_unpack E' c n")
        case (Inl x)
        then have "r = Inl x" using s by simp
        then show ?thesis by (simp add: sd.ret)
      next
        case (Inr x)
        obtain ret n1 where x: "x = (ret, n1)" by (cases x)
        have n1: "sound n n1" using pkt_unpack_sound [OF ok, of n c] Inr x e by (simp add: val_keeps_def)
        have n1': "val_keeps sound n (Inr (ret, n1))" using n1 by (simp add: val_keeps_def)
        show ?thesis
          using s Inr x n1' sd.from_state(2) [OF n1] ih [of E' c n1 r] e
          by (auto simp: sd.ret split: if_splits sum.splits)
      qed
    qed
  qed
  then show ?thesis by simp
qed

section \<open>Callbacks of the event loop\<close>

lemma connect_del_calm: "calm n (connect_del c e n)"
  by (simp add: calm_def base_ok_def connect_del_def)

lemma close_cb_sound:
  assumes "ok_env E"
  shows "ret_keeps sound n (close_cb E trm c n)"
proof -
  have d: "ret_keeps sound n (Inr (connect_del c e n))" for e n
    by (simp add: ret_keeps_def calm_sound connect_del_calm)
  have u: "sound n (sk_upd c (\<lambda>sk. sk\<lparr>sk_status := CS_CLOSED, sk_fd := -1, sk_w := False\<rparr>) n)"
    "sound n (sk_upd c (\<lambda>sk. sk\<lparr>sk_w := False\<rparr>) n)" for n
    by (rule calm_sound, rule calm_sk_upd, simp)+
  have m: "ret_keeps sound n (bind_res (net_ev (io_delete c) (sk_upd c (\<lambda>sk. sk\<lparr>sk_status := CS_CLOSED, sk_fd := -1, sk_w := False\<rparr>) n))
      (\<lambda>(_, n3). Inr (connect_del c e n3)))" for e n
    by (rule sd.from_state(1) [OF u(1)]) (rule sd.pair sd.cases sd.bind_val sounds d)+
  have t: "ret_keeps sound n (Inr (sk_upd c (\<lambda>sk. sk\<lparr>sk_w := False\<rparr>) n))" by (simp add: ret_keeps_def u)
  have k: "ret_keeps sound n (case sk_packet sk of Some p \<Rightarrow> if sk_status sk = CS_OPENED \<and> p \<noteq> PT_STREAM then k_on_closed E p c n else Inr n
      | None \<Rightarrow> Inr n)" for sk
    by (auto simp: sd.ret ok_envD [OF assms] split: option.split)
  show ?thesis unfolding close_cb_def Let_def
    by (rule sd.bind_pure(1), rule sd.cases(1) [OF t], rule sd.bind_ret(1) [OF k], rule sd.bind_pure(1), rule m)
qed

lemma init_io_sound:
  assumes "ok_env E"
  shows "ret_keeps sound n (init_io E c n)"
proof -
  have io: "val_keeps sound n (io_ok E c n)" for n unfolding io_ok_def
    by (rule sd.pair sd.bind_val ok_envD(1) [OF assms] sd.cases sd.ret)+
  show ?thesis unfolding init_io_def by (rule sd.rules sounds io ok_envD(2) [OF assms])+
qed

lemma script_events_sound:
  assumes "ok_env E"
  shows "val_keeps sound n (connect_new E c e n)"
  unfolding connect_new_def by (rule sd.pair sd.bind_val ok_envD(1) [OF assms] sd.cases sd.ret)+

lemma accept_sound:
  assumes "ok_env E" "c' \<in> {1..0x7FFFFFFF}" "c' \<in> dom (nt_heap n)"
  shows "val_keeps sound n (accept_new E c c' n)"
proof -
  have "sound n (n\<lparr>nt_map := insert c' (nt_map n)\<rparr>)" using net_ok_insert [of n c'] assms(2,3) by (simp add: sound_def)
  then show ?thesis unfolding accept_new_def
    by (rule sd.from_state(2)) (rule sd.pair sd.bind_val ok_envD(1) [OF assms(1)] sd.cases sd.ret)+
qed

lemma listen_cb_sound:
  assumes ok: "ok_env E"
  shows "ret_keeps sound n (listen_cb E answers c n)"
proof (induction answers arbitrary: n)
  case Nil
  show ?case by (simp add: sd.bind_pure sd.ret)
next
  case (Cons a rest)
  have new: "ret_keeps sound n (bind_res (sk_start c' fd (new_sock c' ty n1)) (\<lambda>(started, n2).
      if \<not> started then stop E False False c' n2
      else bind_res (accept_new E c c' n2) (\<lambda>(okk, n3). bind_res (deref c' n3) (\<lambda>nk.
           bind_res (if okk \<and> sk_fd nk \<noteq> -1 \<and> sk_packet nk \<noteq> None \<and> sk_io nk \<noteq> None
                     then init_io E c' n3 else stop E False False c' n3) (\<lambda>n4. listen_cb E rest c n4)))))"
    if id: "new_connect_id n = Inr (c', n1)" for c' n1 fd ty n
  proof (cases "net_ok n")
    case False
    then show ?thesis by (auto simp: ret_keeps_def sound_def)
  next
    case True
    note ni = new_connect_id_ok [OF id True]
    have s0: "sound n (new_sock c' ty n1)" using ni(1) by (simp add: sound_def)
    show ?thesis
    proof (rule sd.from_state(1) [OF s0], rule sd.bind_eq(1), simp only: split_paired_all prod.case)
      fix started n2
      assume st: "sk_start c' fd (new_sock c' ty n1) = Inr (started, n2)"
      have cm: "calm (new_sock c' ty n1) n2" using sk_open_calm(1) [of "new_sock c' ty n1" c' fd] st by (simp add: val_keeps_def)
      have c': "c' \<in> dom (nt_heap n2)" using cm ni(4) [of ty] by (simp add: calm_def)
      have rest: "ret_keeps sound n2 (bind_res (accept_new E c c' n2) (\<lambda>(okk, n3). bind_res (deref c' n3) (\<lambda>nk.
           bind_res (if okk \<and> sk_fd nk \<noteq> -1 \<and> sk_packet nk \<noteq> None \<and> sk_io nk \<noteq> None
                     then init_io E c' n3 else stop E False False c' n3) (\<lambda>n4. listen_cb E rest c n4))))"
        by (rule sd.bind_val(1) [OF accept_sound [OF ok ni(3) c']])
          (rule sd.pair sd.cases sd.bind_pure(1) sd.bind_ret init_io_sound [OF ok] sounds Cons.IH)+
      show "ret_keeps sound (new_sock c' ty n1) (if \<not> started then stop E False False c' n2
          else bind_res (accept_new E c c' n2) (\<lambda>(okk, n3). bind_res (deref c' n3) (\<lambda>nk.
           bind_res (if okk \<and> sk_fd nk \<noteq> -1 \<and> sk_packet nk \<noteq> None \<and> sk_io nk \<noteq> None
                     then init_io E c' n3 else stop E False False c' n3) (\<lambda>n4. listen_cb E rest c n4))))"
        by (rule sd.from_state(1) [OF calm_sound [OF cm]], rule sd.cases(1)) (rule sounds rest)+
    qed
  qed
  show ?case
  proof (subst listen_cb.simps, rule sd.bind_pure(1), rule sd.cases(1) [OF sd.ret(1)])
    fix sk
    show "ret_keeps sound n (case a # rest of [] \<Rightarrow> Inr n | AcError # _ \<Rightarrow> Inr n
       | AcFd fd opts # rest \<Rightarrow> if \<not> opts then listen_cb E rest c n
           else bind_res (new_connect_id n) (\<lambda>(new, n1). bind_res (sk_start new fd (new_sock new (sk_type sk) n1)) (\<lambda>(started, n2).
               if \<not> started then stop E False False new n2
               else bind_res (accept_new E c new n2) (\<lambda>(ok, n3). bind_res (deref new n3) (\<lambda>nk.
                    bind_res (if ok \<and> sk_fd nk \<noteq> -1 \<and> sk_packet nk \<noteq> None \<and> sk_io nk \<noteq> None
                           then init_io E new n3 else stop E False False new n3) (\<lambda>n4. listen_cb E rest c n4))))))"
    proof (cases a)
      case (AcFd fd opts)
      have "ret_keeps sound n (if \<not> opts then listen_cb E rest c n
           else bind_res (new_connect_id n) (\<lambda>(new, n1). bind_res (sk_start new fd (new_sock new (sk_type sk) n1)) (\<lambda>(started, n2).
               if \<not> started then stop E False False new n2
               else bind_res (accept_new E c new n2) (\<lambda>(ok, n3). bind_res (deref new n3) (\<lambda>nk.
                    bind_res (if ok \<and> sk_fd nk \<noteq> -1 \<and> sk_packet nk \<noteq> None \<and> sk_io nk \<noteq> None
                           then init_io E new n3 else stop E False False new n3) (\<lambda>n4. listen_cb E rest c n4))))))"
        by (rule sd.cases(1) [OF Cons.IH], rule sd.bind_eq(1), simp only: split_paired_all prod.case, rule new)
      then show ?thesis unfolding AcFd list.case accepted.case .
    qed (simp add: sd.ret)
  qed
qed

lemma connect_cb_sound:
  assumes ok: "ok_env E"
  shows "ret_keeps sound n (connect_cb E opts c n)"
  unfolding connect_cb_def Let_def by (rule sd.rules sounds init_io_sound [OF ok] script_events_sound [OF ok])+

lemma command_cb_sound:
  assumes ok: "ok_env E"
  shows "ret_keeps sound n (command_cb E c n)"
proof -
  have l: "ret_keeps sound n (case command_loop E c n of None \<Rightarrow> Inl Diverged
      | Some r \<Rightarrow> bind_res r (\<lambda>(ret, n1). if ret < 0 then stop E False False c n1 else Inr n1))"
  proof (cases "command_loop E c n")
    case (Some r)
    show ?thesis unfolding Some option.case
      by (rule sd.bind_val(1) [OF command_loop_sound [OF ok Some]]) (rule sd.rules sounds)+
  qed (simp add: sd.ret)
  show ?thesis unfolding command_cb_def
    by (rule sd.bind_pure(1), rule sd.cases(1) [OF calm_ops(3) sd.bind_pure(1) [OF l]])
qed

lemma io_cb_sound:
  assumes ok: "ok_env E"
  shows "ret_keeps sound n (io_cb E answers opts c revents n)"
  unfolding io_cb_def
  by (rule sd.rules close_cb_sound [OF ok] listen_cb_sound [OF ok] connect_cb_sound [OF ok] command_cb_sound [OF ok])+

section \<open>Deleting\<close>

lemma delete_loop_sound:
  assumes ok: "ok_env E"
  shows "ret_keeps sound n (delete_loop E ds n)"
proof (induction ds arbitrary: n)
  case (Cons d ds)
  obtain c e where d: "d = (c, e)" by (cases d)
  have s: "sound n ((del_sock c n)\<lparr>nt_map := nt_map (del_sock c n) - {c}\<rparr>)" for n
    using net_ok_del [of n c] by (simp add: sound_def del_sock_def)
  have l: "ret_keeps sound n (let n2 = del_sock c n in delete_loop E ds (n2\<lparr>nt_map := nt_map n2 - {c}\<rparr>))" for n
    unfolding Let_def by (rule sd.from_state(1) [OF s Cons.IH])
  show ?case unfolding d delete_loop.simps
    by (rule sd.cases(1) [OF Cons.IH], rule sd.bind_pure(1), rule sd.bind_pure(1), rule sd.bind_val(1) [OF ok_envD(1) [OF ok]])
      (simp only: prod.case, rule l)
qed (simp add: sd.ret)

lemma invoke_delete_sound: "ok_env E \<Longrightarrow> ret_keeps sound n (invoke_delete E n)"
  unfolding invoke_delete_def
proof (rule sd.cases(1) [OF sd.ret(1)], rule sd.bind_ret(1) [OF delete_loop_sound])
  show "ret_keeps sound n1 (Inr (n1\<lparr>nt_deleting := []\<rparr>))" for n1
    by (simp add: ret_keeps_def calm_sound calm_same)
qed

lemma clear_sound: "ret_keeps sound n (mgr_clear E cs n)"
proof -
  have st: "ret_keeps based n (bind_res (stop E False True c n) (\<lambda>n1. Inr (del_sock c n1)))" for c n
    using stop_calm [of n E False True c]
    by (auto simp: ret_keeps_def bind_res_eq_Inr based_def calm_def) (auto simp: base_ok_def del_sock_def split: if_splits)
  have "ret_keeps based n (fold_res (\<lambda>c n. bind_res (stop E False True c n) (\<lambda>n1. Inr (del_sock c n1))) cs n)"
    by (rule bs.fold, rule st)
  then show ?thesis unfolding mgr_clear_def
    by (auto simp: ret_keeps_def bind_res_eq_Inr based_def sound_def net_ok_def) (simp add: base_ok_def)
qed

section \<open>Functions of scripts\<close>

datatype api_call = ApiListen "int option" | ApiConnect "int option" | ApiClose | ApiType | ApiIo | ApiCodec | ApiPacket
  | ApiParams | ApiSrv | ApiClt | ApiS2s | ApiSsc | ApiRpc | ApiSscMulticast | ApiRaw | ApiSrvMulticast | ApiCltMulticast
  | ApiCsCmd | ApiSsCmd | ApiScCmd | ApiSession | ApiOwner | ApiUnsetOwner | ApiConnSession | ApiPlayer | ApiGetPlayer

definition state_of :: "'a api \<Rightarrow> net result" where
  "state_of r = bind_res r (\<lambda>(_, n). Inr n)"

fun api :: "env \<Rightarrow> api_call \<Rightarrow> lua list \<Rightarrow> net \<Rightarrow> net result" where
  "api E (ApiListen os) stack n = state_of (mgr_listen E os stack n)"
| "api E (ApiConnect os) stack n = state_of (mgr_connect E os stack n)"
| "api E ApiClose stack n = state_of (mgr_close E stack n)"
| "api E ApiType stack n = state_of (get_connect_type E stack n)"
| "api E ApiIo stack n = state_of (set_conn_io E stack n)"
| "api E ApiCodec stack n = state_of (set_conn_codec E stack n)"
| "api E ApiPacket stack n = state_of (set_conn_packet E stack n)"
| "api E ApiParams stack n = state_of (set_buffer_params E stack n)"
| "api E ApiSrv stack n = state_of (send_srv_packet E stack n)"
| "api E ApiClt stack n = state_of (send_clt_packet E stack n)"
| "api E ApiS2s stack n = state_of (send_s2s_packet E stack n)"
| "api E ApiSsc stack n = state_of (send_ssc_packet E stack n)"
| "api E ApiRpc stack n = state_of (send_rpc_packet E stack n)"
| "api E ApiSscMulticast stack n = state_of (mgr_ssc_multicast E stack n)"
| "api E ApiRaw stack n = state_of (send_raw_packet E stack n)"
| "api E ApiSrvMulticast stack n = state_of (srv_multicast E stack n)"
| "api E ApiCltMulticast stack n = state_of (clt_multicast E stack n)"
| "api E ApiCsCmd stack n = state_of (set_cs_cmd E stack n)"
| "api E ApiSsCmd stack n = state_of (set_ss_cmd E stack n)"
| "api E ApiScCmd stack n = state_of (set_sc_cmd E stack n)"
| "api E ApiSession stack n = state_of (set_curr_session E stack n)"
| "api E ApiOwner stack n = state_of (set_conn_owner E stack n)"
| "api E ApiUnsetOwner stack n = state_of (unset_conn_owner E stack n)"
| "api E ApiConnSession stack n = state_of (set_conn_session E stack n)"
| "api E ApiPlayer stack n = state_of (set_player_session E stack n)"
| "api E ApiGetPlayer stack n = state_of (get_player_session E stack n)"

lemma state_of_sound: "val_keeps sound n r \<Longrightarrow> ret_keeps sound n (state_of r)"
  unfolding state_of_def by (rule sd.bind_val(1)) (auto simp: sd.ret)

lemma calm_val: "calm n n' \<Longrightarrow> val_keeps sound n (Inr (x, n'))"
  by (simp add: val_keeps_def calm_sound)

lemma sound_from_same: "ret_keeps sound n r \<Longrightarrow> val_keeps sound n (bind_res r (\<lambda>n1. Inr (x, n1)))"
  by (rule sd.bind_ret(2)) (simp_all add: sd.ret)

lemma packs_sound [sounds]:
  "val_keeps sound n (pack_clt E c stack i n)" "val_keeps sound n (pack_srv E c stack i n)"
  "val_keeps sound n (pack_ss E c stack i n)" "val_keeps sound n (pack_rpc E c stack i n)"
  "val_keeps sound n (pack_ssc E c stack i n)" "val_keeps sound n (pack_ssc_multicast E c stack i n)"
  unfolding pack_clt_def pack_srv_def pack_ss_def pack_rpc_def pack_ssc_def pack_ssc_multicast_def Let_def
  by (rule arg_sound sd.rules sounds)+

lemma check_packet_sound:
  "val_keeps sound n (raw_check_packet c ty n)" "val_keeps sound n (lua_check_packet E stack ty n)"
proof -
  show 1: "val_keeps sound n (raw_check_packet c ty n)" for c ty n
    unfolding raw_check_packet_def by (rule sock_sound sd.cases sd.ret)+
  show "val_keeps sound n (lua_check_packet E stack ty n)"
    unfolding lua_check_packet_def by (rule arg_sound api_sound 1 sd.ret)+
qed

lemma sends_sound:
  assumes ok: "ok_env E"
  shows "val_keeps sound n (send_srv_packet E stack n)" "val_keeps sound n (send_clt_packet E stack n)"
    "val_keeps sound n (send_s2s_packet E stack n)" "val_keeps sound n (send_ssc_packet E stack n)"
    "val_keeps sound n (send_rpc_packet E stack n)" "val_keeps sound n (mgr_ssc_multicast E stack n)"
    "val_keeps sound n (send_raw_packet E stack n)"
  unfolding send_srv_packet_def send_clt_packet_def send_s2s_packet_def send_ssc_packet_def send_rpc_packet_def
    mgr_ssc_multicast_def send_raw_packet_def stream_only_def
  by (rule sd.pair arg_sound api_sound sock_sound check_packet_sound sd.cases ok_envD(3,4) [OF ok] packs_sound sd.bind_ret sounds sd.ret)+

lemma multicast_sound:
  assumes "\<And>c p cmd ecode buffer n. val_keeps sound n (pack c p cmd ecode buffer n)"
  shows "val_keeps sound n (multicast E cmds pack stack n)"
proof -
  have l: "val_keeps sound n (multicast_loop (\<lambda>c p. pack c p cmd ecode buffer) kvs n)" for cmd ecode buffer kvs n
  proof (induction kvs arbitrary: n)
    case (Cons kv kvs)
    obtain k v where kv: "kv = (k, v)" by (cases kv)
    have "val_keeps sound n (bind_api (raw_check_packet w CT_SSCN n) (\<lambda>p n1.
        bind_res (pack w p cmd ecode buffer n1) (\<lambda>(_, n2). multicast_loop (\<lambda>c p. pack c p cmd ecode buffer) kvs n2)))" for w
      by (rule api_sound check_packet_sound sd.bind_val(2) assms)+ (simp only: prod.case, rule Cons.IH)
    then show ?case by (auto simp: kv sd.ret split: lua.split)
  qed (simp add: sd.ret)
  show ?thesis unfolding multicast_def by (rule arg_sound sd.rules l)+
qed

lemma multicasts_sound:
  assumes ok: "ok_env E"
  shows "val_keeps sound n (srv_multicast E stack n)" "val_keeps sound n (clt_multicast E stack n)"
  unfolding srv_multicast_def clt_multicast_def
  by (rule multicast_sound, auto simp: sd.ret sounds pkt_raw_clt_sound [OF ok])+

lemma config_sound:
  "val_keeps sound n (set_cs_cmd E stack n)" "val_keeps sound n (set_ss_cmd E stack n)" "val_keeps sound n (set_sc_cmd E stack n)"
  "val_keeps sound n (set_curr_session E stack n)" "val_keeps sound n (set_player_session E stack n)"
  "val_keeps sound n (get_player_session E stack n)" "val_keeps sound n (get_connect_type E stack n)"
  unfolding set_cs_cmd_def set_ss_cmd_def set_sc_cmd_def set_curr_session_def set_player_session_def get_player_session_def
    get_connect_type_def
  by ((rule arg_sound sock_sound sd.ret)+; rule calm_val, rule calm_same; simp)+

lemma calm_owners: "calm n (n\<lparr>nt_owners := f\<rparr>)"
  by (rule calm_same) simp_all

lemma calm_params: "calm n (n\<lparr>nt_io := sys_upd c f (nt_io n), nt_send := (nt_send n)(c := set_chunk_size a (nt_send n c)),
    nt_recv := (nt_recv n)(c := set_chunk_size b (nt_recv n c))\<rparr>)"
  by (auto simp: calm_def base_ok_def set_chunk_size_def buf_inv_def sys_upd_def io_upd_def)

lemma sock_setters_sound:
  "val_keeps sound n (mgr_close E stack n)" "val_keeps sound n (set_conn_codec E stack n)" "val_keeps sound n (set_conn_packet E stack n)"
  "val_keeps sound n (set_conn_io E stack n)" "val_keeps sound n (set_buffer_params E stack n)"
  "val_keeps sound n (set_conn_owner E stack n)" "val_keeps sound n (unset_conn_owner E stack n)" "val_keeps sound n (set_conn_session E stack n)"
proof -
  show "val_keeps sound n (mgr_close E stack n)" unfolding mgr_close_def Let_def
    by (rule arg_sound sock_sound sd.bind_ret(2) sounds sd.ret)+
  show "val_keeps sound n (set_conn_codec E stack n)" unfolding set_conn_codec_def
    by (rule arg_sound sock_sound sd.cases sd.ret calm_val calm_sk_upd | simp)+
  show "val_keeps sound n (set_conn_packet E stack n)" unfolding set_conn_packet_def Let_def
    by (rule arg_sound sock_sound sd.cases sd.ret calm_val calm_sk_upd | simp)+
  have io: "calm n (n1\<lparr>nt_io := sys_upd c (\<lambda>w. w\<lparr>io_obj := True\<rparr>) (nt_io n1)\<rparr>)"
    if "n1 = sk_upd c (\<lambda>sk. sk\<lparr>sk_io := Some k\<rparr>) n" for n1 c k n
    unfolding that by (rule cm.R_trans [OF calm_sk_upd calm_io]) (auto simp: sys_upd_def io_upd_def)
  show "val_keeps sound n (set_conn_io E stack n)" unfolding set_conn_io_def Let_def
    by (rule arg_sound sock_sound sd.cases sd.bind_pure(2) sd.ret)+ (rule calm_val, rule io, simp)
  show "val_keeps sound n (set_buffer_params E stack n)" unfolding set_buffer_params_def
    by (rule arg_sound sock_sound sd.bind_pure(2))+ (rule calm_val, rule calm_params)
  have own: "calm n ((sk_upd c (\<lambda>sk. sk\<lparr>sk_object := k\<rparr>) n)\<lparr>nt_owners := f\<rparr>)" for c k f n
    by (rule cm.R_trans [OF calm_sk_upd calm_owners]) simp
  show "val_keeps sound n (set_conn_owner E stack n)" unfolding set_conn_owner_def Let_def
    by (rule arg_sound sd.bind_pure(2))+ (rule calm_val, rule own)
  have un: "calm n (sk_upd c (\<lambda>sk. sk\<lparr>sk_object := 0\<rparr>) (n\<lparr>nt_owners := f\<rparr>))" for c f n
    by (rule cm.R_trans [OF calm_owners calm_sk_upd]) simp
  show "val_keeps sound n (unset_conn_owner E stack n)" unfolding unset_conn_owner_def Let_def
    by ((rule arg_sound)+, rule sd.cases(4), rule calm_val, rule calm_owners, rule sd.bind_pure(2), rule calm_val, rule un)
  show "val_keeps sound n (set_conn_session E stack n)" unfolding set_conn_session_def
    by (rule arg_sound sd.bind_pure(2))+ (rule calm_val, rule calm_same, simp_all)
qed

lemma api_call_sound:
  assumes ok: "ok_env E"
  shows "ret_keeps sound n (api E call stack n)"
  by (cases call) (simp_all add: state_of_sound listen_sound connect_sound sock_setters_sound config_sound sends_sound [OF ok] multicasts_sound [OF ok])

section \<open>Reachable states\<close>

text \<open>
  The manager from its start on: calls of scripts, callbacks of the event loop, the end of
  connections, the back end's reads and writes, and the event loop itself, which may do
  anything but forget a watcher that a socket still holds.
\<close>

inductive net_reach :: "env \<Rightarrow> net \<Rightarrow> bool" for E where
  reach_init: "net_reach E net_init"
| reach_api: "net_reach E n \<Longrightarrow> api E call stack n = Inr n' \<Longrightarrow> net_reach E n'"
| reach_event: "net_reach E n \<Longrightarrow> io_cb E answers opts c revents n = Inr n' \<Longrightarrow> net_reach E n'"
| reach_delete: "net_reach E n \<Longrightarrow> invoke_delete E n = Inr n' \<Longrightarrow> net_reach E n'"
| reach_clear: "net_reach E n \<Longrightarrow> mgr_clear E cs n = Inr n' \<Longrightarrow> net_reach E n'"
| reach_recv: "net_reach E n \<Longrightarrow> io_recv ks fin q (nt_recv n c) = Inr (st, q', b) \<Longrightarrow> net_reach E (set_recv c b n)"
| reach_send: "net_reach E n \<Longrightarrow> io_send ans (nt_send n c) = Inr (st, out, b) \<Longrightarrow> net_reach E (n\<lparr>nt_send := (nt_send n)(c := b)\<rparr>)"
| reach_loop: "net_reach E n \<Longrightarrow> \<forall>c sk. nt_heap n c = Some sk \<longrightarrow> sk_w sk \<longrightarrow> io_mgr (se y) c \<noteq> None \<Longrightarrow> net_reach E (n\<lparr>nt_io := y\<rparr>)"

lemma net_init_ok: "net_ok net_init"
  by (simp add: net_ok_def base_ok_def net_init_def)

lemma net_reach_net_ok:
  assumes ok: "ok_env E" and "net_reach E n"
  shows "net_ok n"
  using assms(2)
proof (induction rule: net_reach.induct)
  case (reach_api n call stack n')
  then show ?case using api_call_sound [OF ok, of n call stack] by (simp add: ret_keeps_def sound_def)
next
  case (reach_event n answers opts c revents n')
  then show ?case using io_cb_sound [OF ok, of n answers opts c revents] by (simp add: ret_keeps_def sound_def)
next
  case (reach_delete n n')
  then show ?case using invoke_delete_sound [OF ok, of n] by (simp add: ret_keeps_def sound_def)
next
  case (reach_clear n cs n')
  then show ?case using clear_sound [of n E cs] by (simp add: ret_keeps_def sound_def)
next
  case (reach_recv n ks fin q c st q' b)
  have "buf_inv (nt_recv n c)" using reach_recv.IH by (simp add: net_ok_def base_ok_def)
  then have "buf_inv b" using io_recv_ok [of "nt_recv n c" ks fin q] reach_recv.hyps(2) by (auto simp: received_def)
  then show ?case using calm_sound [OF calm_recv] reach_recv.IH by (simp add: sound_def)
next
  case (reach_send n ans c st out b)
  have "buf_inv (nt_send n c)" using reach_send.IH by (simp add: net_ok_def base_ok_def)
  then have "buf_inv b" using io_send_ok [of "nt_send n c" ans] reach_send.hyps(2) by auto
  then show ?case using calm_sound [OF calm_send] reach_send.IH by (simp add: sound_def)
next
  case (reach_loop n y)
  then show ?case by (simp add: net_ok_def base_ok_def)
qed (rule net_init_ok)

end
