(* ===== verification/NetProps.thy ===== *)
theory NetProps
  imports NetInv
begin

text \<open>
  The properties of the network: framing, reading and writing sockets, forwarding between
  client, gateway and back end, remote calls, connection ids, and where the code goes wrong.
\<close>

section \<open>A small network\<close>

text \<open>
  An environment whose scripts return nothing, and a process with a client connection 7, a
  server connection 8 and a few commands, for evaluating the operations.
\<close>

definition quiet :: env where
  "quiet = \<lparr>k_script = (\<lambda>fn args n. Inr ((True, []), n)), k_room = (\<lambda>_. True), k_tointeger = (\<lambda>_. None),
     k_encode = (\<lambda>ty stack i cfg. Inr None), k_decode = (\<lambda>ty bs cfg. Inr (Inl Failed)), k_tostring = (\<lambda>_. None),
     k_ssl_init = (\<lambda>c n. Inr (0, n)), k_pack_srv = (\<lambda>p c stack i n. Inr (Inr 0, n)),
     k_pack_clt = (\<lambda>p c stack i n. Inr (Inr 0, n)), k_error = (\<lambda>c n. 0), k_unpack = (\<lambda>p c n. Inr (0, n)),
     k_raw_clt = (\<lambda>p c cmd ecode data n. Inr (0, n)), k_on_closed = (\<lambda>p c n. Inr n)\<rparr>"

definition open_sock :: "conn_type \<Rightarrow> int \<Rightarrow> sock" where
  "open_sock ty own = \<lparr>sk_type = ty, sk_status = CS_OPENED, sk_fd = 3, sk_object = own, sk_w = True,
     sk_io = Some 0, sk_packet = Some PT_STREAM, sk_codec = CT_LUABIN\<rparr>"

definition cmd_to :: "int \<Rightarrow> int \<Rightarrow> cmd_cfg" where
  "cmd_to cmd session = \<lparr>cc_cmd = cmd, cc_mask = 0, cc_session = session, cc_schema = [], cc_object = []\<rparr>"

definition small_net :: net where
  "small_net = net_init\<lparr>nt_session := 1, cs_cmds := [5 \<mapsto> cmd_to 5 2, 6 \<mapsto> cmd_to 6 1], sc_cmds := [9 \<mapsto> cmd_to 9 1],
     nt_heap := [7 \<mapsto> open_sock CT_SCCN 500, 8 \<mapsto> open_sock CT_SSCN 0, 10 \<mapsto> open_sock CT_CSCN 0], nt_map := {7, 8, 10}, nt_owners := [500 \<mapsto> 7],
     nt_sessions := [2 \<mapsto> 8], nt_conn_session := [8 \<mapsto> 2],
     nt_io := iosys_init\<lparr>se := ev_init\<lparr>io_mgr := [7 \<mapsto> evio_new 3 0, 8 \<mapsto> evio_new 4 0, 10 \<mapsto> evio_new 5 0]\<rparr>\<rparr>,
     nt_recv := (\<lambda>_. new_chunk buffer_init)\<rparr>"

lemma quiet_tame [simp]: "tame_env quiet"
  by (simp add: tame_env_def quiet_def)

lemma small_ready [simp]: "stream_ready CT_SCCN 7 small_net" "stream_ready CT_SSCN 8 small_net"
  by (simp_all add: stream_ready_def small_net_def open_sock_def)

lemma small_can_send [simp]: "can_send 7 small_net" "can_send 8 small_net"
  by (simp_all add: can_send_def small_net_def open_sock_def iosys_init_def ev_init_def net_init_def)

section \<open>Framing\<close>

text \<open>
  C2: framing. However the bytes of a well-formed stream are cut into arrivals and however
  little each \<open>recv\<close> returns, reading and running \<open>command_cb\<close> after each arrival calls the
  handlers exactly for the packets that the reference parser finds in the bytes consumed, in
  their order, and keeps what is not complete; only a fault in a handler ends this early. In
  particular no run is endless.
\<close>

theorem serve_frames:
  assumes "tame_env E" "stream_ready ty c n" "waits (content (nt_recv n c))"
    and "good_stream ty (content (nt_recv n c) @ q @ concat (map snd rs))"
  shows "served E c (content (nt_recv n c) @ q @ concat (map snd rs)) n (serve E c rs q n)"
proof -
  have "handled E c [] n n" using handled_Nil [of E c n "nt_recv n c"] by simp
  then show ?thesis using serve_ok [of E ty c n "[]" q rs "[]" n] assms by simp
qed

theorem serve_frames_witness:
  "served quiet 7 ([4, 0, 1, 0, 5, 0] @ [2, 0, 9]) small_net
     (serve quiet 7 [([], [4, 0, 1]), ([2, 1], [0, 5, 0]), ([], [2, 0, 9])] [] small_net)"
proof -
  have c: "content (nt_recv small_net 7) = []" by (simp add: small_net_def content_def new_chunk_def buffer_init_def)
  have f: "frames [4, 0, 1, 0, 5, 0, 2, 0, 9] = ([[4, 0, 1, 0], [5, 0, 2, 0, 9]], [])"
    by (simp add: frames.simps [of "_ # _"] len_field_def)
  have "good_stream CT_SCCN ([] @ [] @ concat (map snd [([]::nat list, [4, 0, 1]), ([2, 1], [0, 5, 0]), ([], [2, 0, 9])]))"
    using f by (simp add: good_stream_def whole_def head_size_def c2s_size_def len_field_def no_short_def)
  then show ?thesis
    using serve_frames [of quiet CT_SCCN 7 small_net "[]" "[([], [4, 0, 1]), ([2, 1], [0, 5, 0]), ([], [2, 0, 9])]"]
    by (simp add: c waits_def)
qed

text \<open>
  C29: a length field of 0 hangs the process. It passes the size test of \<open>unpack\<close>, the handler
  looks at the command, nothing is removed from the buffer and the loop of \<open>command_cb\<close> goes
  round: four bytes from a client with a command that is not configured are enough.
\<close>

lemma zero_unpack:
  assumes r: "stream_ready CT_SCCN c n" and ch: "chunks (nt_recv n c) = ck # cks" "take 4 (get_used_ctx ck) = [0, 0, a, b]"
    "4 \<le> get_used_size ck" and cmd: "cs_cmds n (uint (word_of_nat (of_le [a, b]) :: 16 word)) = None"
  shows "pkt_unpack E c n = Inr (1, n)"
proof -
  let ?b = "nt_recv n c" and ?mem = "get_used_ctx ck"
  obtain sk where sk: "nt_heap n c = Some sk" "sk_type sk = CT_SCCN" "sk_packet sk = Some PT_STREAM"
    using r by (auto simp: stream_ready_def)
  have f: "flat_mem len ?b = Inr (Some ?mem, ?b)" if "len \<le> 4" for len
    using that assms(4) by (simp add: flat_mem_def to_flat_ctx_def ch(1) Let_def)
  have "length (take 4 ?mem) = 4" using ch(2) by simp
  then have ln: "4 \<le> length ?mem" by (simp add: min_def split: if_splits)
  have t: "take 2 ?mem = [0, 0]" "take 2 (drop 2 ?mem) = [a, b]"
    using arg_cong [OF ch(2), of "take 2"] arg_cong [OF ch(2), of "drop 2"] by (simp_all add: min_def take_drop)
  have r0: "read_u16 0 ?mem = Inr 0" "read_u16 2 ?mem = Inr (word_of_nat (of_le [a, b]))"
    using ln t by (simp_all add: read_u16_def read_mem_def)
  have d: "dispatch E c ?mem n = Inr n"
    using sk r0 cmd by (simp add: dispatch_def deref_def sp_cs_dispatch_def cs_dispatch_def get_cmd_session_def)
  have rm: "Buffer.remove 0 ?b = Inr (True, ?b)"
    using r ch(1) assms(4) by (cases "cks = []")
      (auto simp: Buffer.remove_def chunk_remove_used_def Let_def stream_ready_def buf_inv_def get_used_size_def get_free_size_def chunk_wf_def)
  show ?thesis
    using sk r0 d rm f [of base_size] f [of 0]
    by (simp add: pkt_unpack_def deref_def sp_unpack_def base_size_def check_used_size_def set_recv_def)
qed

lemma loop_stuck:
  assumes "pkt_unpack E c n = Inr (1, n)" "nt_heap n c = Some sk" "sk_status sk = CS_OPENED"
  shows "command_loop E c n = None"
proof (rule ccontr)
  assume "command_loop E c n \<noteq> None"
  then obtain r where r: "command_loop E c n = Some r" by blast
  have "\<not> (E = E \<and> c = c \<and> n = n)"
    by (rule command_loop.raw_induct [where P = "\<lambda>E' c' n' y. \<not> (E' = E \<and> c' = c \<and> n' = n)", OF _ r])
      (use assms in \<open>auto simp: deref_def, blast\<close>)
  then show False by simp
qed

theorem zero_length_hangs:
  assumes "stream_ready CT_SCCN c n" "chunks (nt_recv n c) = ck # cks" "4 \<le> get_used_size ck"
    "take 4 (get_used_ctx ck) = [0, 0, a, b]" "cs_cmds n (uint (word_of_nat (of_le [a, b]) :: 16 word)) = None"
  shows "command_cb E c n = Inl Diverged"
proof -
  obtain sk where "nt_heap n c = Some sk" "sk_packet sk = Some PT_STREAM" "sk_w sk" "sk_status sk = CS_OPENED"
    using assms(1) by (auto simp: stream_ready_def)
  then show ?thesis using loop_stuck [OF zero_unpack [OF assms(1,2,4,3,5)]] by (simp add: command_cb_def deref_def)
qed

theorem zero_length_hangs_witness:
  "\<exists>b. Buffer.append [0, 0, 3, 0] buffer_init = Inr (0, b) \<and> command_cb quiet 7 (set_recv 7 b small_net) = Inl Diverged"
proof -
  obtain r b where b: "Buffer.append [0, 0, 3, 0] buffer_init = Inr (r, b)" "buf_inv b" "chunks b \<noteq> []" "content b = [0, 0, 3, 0]"
    using append_ok [of buffer_init "[0, 0, 3, 0]"] by auto
  have one: "r = 0" "length (chunks b) = 1"
    using b(1) by (auto simp: Buffer.append_def append_raw.simps [of "_ # _"] reserve_def buffer_init_def new_chunk_def
        chunk_new_def Let_def set_back_def get_free_size_def MAX_CTX_def chunk_append_def chunk_add_used_def memcpy_def
        bind_res_def check_def split: if_splits)
  then obtain ck where ck: "chunks b = [ck]" by (cases "chunks b") auto
  then have cb: "chunk_bytes ck = [0, 0, 3, 0]" "get_used_size ck = length (chunk_bytes ck)"
    using b(2,4) chunk_bytes_length [of ck] by (simp_all add: content_def buf_inv_def)
  then have "get_used_size ck = 4" by simp
  moreover have "take 4 (get_used_ctx ck) = [0, 0, 3, 0]" using cb(1) \<open>get_used_size ck = 4\<close> by (simp add: chunk_bytes_def)
  moreover have "stream_ready CT_SCCN 7 (set_recv 7 b small_net)" by (rule stream_ready_set [OF small_ready(1) b(2,3)])
  ultimately have "command_cb quiet 7 (set_recv 7 b small_net) = Inl Diverged"
    using ck by (intro zero_length_hangs [where ck = ck and cks = "[]" and a = 3 and b = 0])
      (simp_all add: set_recv_def small_net_def cmd_to_def)
  then show ?thesis using b(1) one by blast
qed

section \<open>Sockets\<close>



text \<open>
  \<open>IO::send\<close> returns without a fault; the bytes that went out followed by what is still
  in the buffer are what was there, and it reports \<open>IOS_OK\<close> only when the buffer is empty.
\<close>

theorem io_send_exact:
  assumes "buf_inv b"
  shows "\<exists>st out b'. io_send ans b = Inr (st, out, b') \<and> buf_inv b' \<and> out @ content b' = content b \<and>
    (st = IOS_OK \<longrightarrow> content b' = [])"
  using io_send_ok [OF assms] .

theorem io_send_exact_witness:
  "\<exists>st out b'. io_send [TxSent 3, TxAgain] buffer_init = Inr (st, out, b') \<and> out @ content b' = []"
  using io_send_exact [of buffer_init "[TxSent 3, TxAgain]"] by auto

section \<open>Connection ids\<close>

text \<open>
  C31: \<open>new_connect_id\<close> ends as soon as one positive 32-bit id is free, and its answer is such
  an id.
\<close>

lemma new_id_found:
  assumes "s \<notin> ids" "0 \<le> seed" "seed < s" "s \<le> 0x7FFFFFFF"
  shows "\<exists>r. new_id_from seed ids = Some r \<and> r \<notin> ids \<and> seed < r \<and> r \<le> 0x7FFFFFFF"
  using assms(2,3)
proof (induction "nat (s - seed)" arbitrary: seed rule: less_induct)
  case less
  have n: "new_id_from seed ids = (if seed + 1 \<in> ids then new_id_from (seed + 1) ids else Some (seed + 1))"
    using less.prems assms(4) by (subst new_id_from.simps) (simp add: Let_def)
  show ?case
  proof (cases "seed + 1 \<in> ids")
    case True
    then have "seed + 1 < s" using less.prems assms(1) by (cases "seed + 1 = s") auto
    then obtain r where "new_id_from (seed + 1) ids = Some r" "r \<notin> ids" "seed + 1 < r" "r \<le> 0x7FFFFFFF"
      using less.hyps [of "seed + 1"] less.prems by auto
    then show ?thesis using n True by auto
  qed (use n less.prems assms(4) in auto)
qed

lemma new_id_step: "seed < 0x7FFFFFFF \<Longrightarrow> seed + 1 \<in> ids \<Longrightarrow> new_id_from seed ids = new_id_from (seed + 1) ids"
  by (subst new_id_from.simps) (simp add: Let_def)

lemma new_id_wrap:
  assumes "\<forall>r. seed < r \<and> r \<le> 0x7FFFFFFF \<longrightarrow> r \<in> ids" "0 \<le> seed" "seed \<le> 0x7FFFFFFF"
  shows "new_id_from seed ids = new_id_from 0x7FFFFFFF ids"
  using assms
proof (induction "nat (0x7FFFFFFF - seed)" arbitrary: seed rule: less_induct)
  case less
  show ?case
  proof (cases "seed = 0x7FFFFFFF")
    case False
    then have lt: "seed < 0x7FFFFFFF" using less.prems(3) by simp
    then have "seed + 1 \<in> ids" using less.prems(1) by auto
    then have "new_id_from seed ids = new_id_from (seed + 1) ids" by (rule new_id_step [OF lt])
    also have "\<dots> = new_id_from 0x7FFFFFFF ids" using less.hyps [of "seed + 1"] less.prems lt by auto
    finally show ?thesis .
  qed simp
qed

theorem new_connect_id_free:
  assumes "s \<notin> nt_map n" "1 \<le> s" "s \<le> 0x7FFFFFFF" "0 \<le> nt_seed n" "nt_seed n \<le> 0x7FFFFFFF"
  shows "\<exists>r. new_connect_id n = Inr (r, n\<lparr>nt_seed := r\<rparr>) \<and> r \<notin> nt_map n \<and> 1 \<le> r \<and> r \<le> 0x7FFFFFFF"
proof (cases "\<exists>r. nt_seed n < r \<and> r \<le> 0x7FFFFFFF \<and> r \<notin> nt_map n")
  case True
  then obtain r where "new_id_from (nt_seed n) (nt_map n) = Some r" "r \<notin> nt_map n" "nt_seed n < r" "r \<le> 0x7FFFFFFF"
    using new_id_found [OF _ assms(4)] by metis
  then show ?thesis using assms(4) by (auto simp: new_connect_id_def)
next
  case False
  then have w: "new_id_from (nt_seed n) (nt_map n) = new_id_from 0x7FFFFFFF (nt_map n)"
    by (intro new_id_wrap) (use assms(4,5) in auto)
  have one: "new_id_from 0x7FFFFFFF (nt_map n) = (if 1 \<in> nt_map n then new_id_from 1 (nt_map n) else Some 1)"
    by (subst new_id_from.simps) (simp add: Let_def)
  show ?thesis
  proof (cases "1 \<in> nt_map n")
    case True
    then have "1 < s" using assms(1,2) by (cases "s = 1") auto
    then obtain r where "new_id_from 1 (nt_map n) = Some r" "r \<notin> nt_map n" "1 < r" "r \<le> 0x7FFFFFFF"
      using new_id_found [OF assms(1), of 1] assms(3) by auto
    then show ?thesis using w one True by (auto simp: new_connect_id_def)
  qed (use w one in \<open>auto simp: new_connect_id_def\<close>)
qed

theorem new_connect_id_free_witness:
  "\<exists>r. new_connect_id (small_net\<lparr>nt_seed := 0x7FFFFFFF\<rparr>) = Inr (r, small_net\<lparr>nt_seed := r\<rparr>) \<and> r \<notin> {7, 8, 10}"
  using new_connect_id_free [of 1 "small_net\<lparr>nt_seed := 0x7FFFFFFF\<rparr>"] by (auto simp: small_net_def)

section \<open>Client, gateway and back end\<close>

text \<open>
  C5: forwarding. A gateway that gets a client's packet for a command of another session
  returns with one packet in the send buffer of that session's connection and nothing else
  changed, and the back end that dispatches this packet runs the command's script function with
  the connection, the client's owner and command, and what the client's codec makes of the
  client's payload.
\<close>

theorem gateway_forwards:
  assumes conn: "nt_heap n c = Some sk" "sk_type sk = CT_SCCN" "0 \<le> sk_codec sk" "sk_codec sk < CODEC_MAX"
      "to_i32 (sk_object sk) = sk_object sk"
    and dest: "get_cmd_session (sk_object sk) (uint cmd) n = s" "0 \<le> s" "s \<noteq> nt_session n"
      "get_conn_by_session s n = Some d" "can_send d n"
    and pl: "header_length c2s_size (length pl) = Some hl" "length pl + s2s_size \<le> MAX_PACKET_LEN"
    and backend: "nt_heap m e = Some ek" "sk_type ek = CT_SSCN" "cs_cmds m (uint cmd) = Some cfg"
  shows "\<exists>n' q. dispatch E c (c2s_header hl cmd @ pl) n = Inr n' \<and> sent d q n n' \<and> frames q = ([q], []) \<and>
    dispatch E' e q m = decode_and_call E' (sk_codec sk) pl (length pl) (Some cfg) ''css_command_new''
      [lint e, lint (sk_object sk), lint (uint cmd)] m"
proof -
  obtain hl' where hl': "header_length s2s_size (length pl) = Some hl'" using pl(2) by (simp add: header_length_Some add.commute)
  let ?h = "s2s_header hl' cmd 0 SPT_CSPK (word_of_int (sk_codec sk)) (sk_object sk)"
  obtain n1 where n1: "sk_append E d ?h n = Inr n1" "sent d ?h n n1" using append_sent [OF dest(5)] by blast
  obtain n2 where n2: "sk_append E d pl n1 = Inr n2" "sent d pl n1 n2"
    using append_sent [OF sent_can [OF n1(2) dest(5)]] by blast
  note s2 = sent_trans [OF n1(2) n2(2)]
  obtain n3 where n3: "sk_flush d n2 = Inr n3" "sent d [] n2 n3" using flush_sent [OF sent_can [OF s2 dest(5)]] by blast
  have q: "sent d (?h @ pl) n n3" using sent_trans [OF s2 n3(2)] by simp
  have "cs_dispatch E cmd c pl (length pl) n = Inr (1, n3)"
    using conn(1) dest hl' n1(1) n2(1) n3(1) by (simp add: cs_dispatch_def deref_def read_mem_def)
  then have d: "dispatch E c (c2s_header hl cmd @ pl) n = Inr n3"
    using conn(1,2) payload_len [OF pl(1)] by (simp add: dispatch_def deref_def sp_cs_dispatch_def read_c2s)
  have w: "frames (?h @ pl) = ([?h @ pl], [])"
    by (rule frames_headers, rule whole_headers(1) [OF hl']) (simp add: msg_defs)
  have codec: "uint (word_of_int (sk_codec sk) :: 16 word) = sk_codec sk"
    using conn(3,4) by (simp add: CODEC_MAX_def uint_word_of_int_eq take_bit_int_eq_self)
  have "dispatch E' e (?h @ pl) m = decode_and_call E' (sk_codec sk) pl (length pl) (Some cfg) ''css_command_new''
      [lint e, lint (sk_object sk), lint (uint cmd)] m"
    using dispatch_sscn [OF backend(1,2)] css_command_reads [OF hl' backend(3)] conn(5) codec by (simp add: msg_defs)
  then show ?thesis using d q w by blast
qed

theorem gateway_forwards_witness:
  "\<exists>n' q. dispatch quiet 7 (c2s_header 5 5 @ [0]) small_net = Inr n' \<and> sent 8 q small_net n' \<and>
     dispatch quiet 8 q small_net = decode_and_call quiet 1 [0] 1 (Some (cmd_to 5 2)) ''css_command_new''
       [lint 8, lint 500, lint 5] small_net"
proof -
  have h: "nt_heap small_net 7 = Some (open_sock CT_SCCN 500)" "nt_heap small_net 8 = Some (open_sock CT_SSCN 0)"
    "cs_cmds small_net 5 = Some (cmd_to 5 2)" "get_cmd_session 500 5 small_net = 2" "nt_session small_net = 1"
    "get_conn_by_session 2 small_net = Some 8" "to_i32 500 = 500"
    by (simp_all add: small_net_def get_cmd_session_def cmd_to_def get_conn_by_session_def get_conn_by_conn_id_def to_i32_def)
  have hl: "header_length c2s_size 1 = Some 5" by (simp add: header_length_Some msg_defs)
  show ?thesis
    using gateway_forwards [of small_net 7 "open_sock CT_SCCN 500" 5 2 8 "[0]" 5 small_net 8 "open_sock CT_SSCN 0" "cmd_to 5 2" quiet quiet] h hl
    by (simp add: open_sock_def CT_LUABIN_def CODEC_MAX_def msg_defs) blast
qed

text \<open>
  C40: a client's packet that a server packet has no room for is not refused: the macro that
  should report the failure answers 0, "for this process", and the gateway runs the command
  itself although it belongs to another session.
\<close>

theorem oversized_runs_locally:
  assumes "nt_heap n c = Some sk" "sk_type sk = CT_SCCN" "header_length c2s_size (length pl) = Some hl"
    and "get_cmd_session (sk_object sk) (uint cmd) n = s" "0 \<le> s" "s \<noteq> nt_session n" "get_conn_by_session s n = Some d"
    and "MAX_PACKET_LEN < length pl + s2s_size"
  shows "dispatch E c (c2s_header hl cmd @ pl) n = cs_command E c cmd pl (length pl) n"
proof -
  have "header_length s2s_size (length pl) = None"
    using header_length_Some [of s2s_size "length pl"] assms(8) by (cases "header_length s2s_size (length pl)") auto
  then have "cs_dispatch E cmd c pl (length pl) n = Inr (0, n)"
    using assms by (simp add: cs_dispatch_def deref_def)
  then show ?thesis
    using assms(1,2) payload_len [OF assms(3)] by (simp add: dispatch_def deref_def sp_cs_dispatch_def read_c2s)
qed

theorem oversized_runs_locally_witness:
  "\<exists>hl. dispatch quiet 7 (c2s_header hl 5 @ replicate 65525 0) small_net = cs_command quiet 7 5 (replicate 65525 0) 65525 small_net"
proof -
  have h: "nt_heap small_net 7 = Some (open_sock CT_SCCN 500)" "get_cmd_session 500 5 small_net = 2" "nt_session small_net = 1"
    "get_conn_by_session 2 small_net = Some 8"
    by (simp_all add: small_net_def get_cmd_session_def cmd_to_def get_conn_by_session_def get_conn_by_conn_id_def)
  obtain hl where "header_length c2s_size (length (replicate 65525 (0 :: 8 word))) = Some hl"
    by (simp add: header_length_Some msg_defs)
  then show ?thesis
    using oversized_runs_locally [of small_net 7 "open_sock CT_SCCN 500" "replicate 65525 0" hl 5 2 8 quiet] h
    by (auto simp: open_sock_def msg_defs)
qed

lemma to_i32_check: "check_int32 E stack i = Inr k \<Longrightarrow> to_i32 k = k"
  by (auto simp: check_int32_def to_i32_def map_sum_def split: sum.splits)

text \<open>
  C16: a back end sends a client a packet through the gateway. What \<open>pack_ssc\<close> appends to the
  gateway's connection is one packet; the gateway that dispatches it appends one packet to the
  connection of the owner; and the client that dispatches this runs its script function with
  the command and error code given and the payload that the back end's codec made.
\<close>

theorem client_packet_relayed:
  assumes args: "check_int32 E stack i = Inr own" "check_int32 E stack (i + 1) = Inr ct" "check_int32 E stack (i + 2) = Inr cmd"
      "check_u16 E stack (i + 3) = Inr ecode" "check_table stack (i + 4) = Inr tbl" "codec_type_ok ct"
    and enc: "sc_cmds n cmd = Some cfg" "get_codec E ct = Some cd" "cd_encode cd stack (i + 4) (Some cfg) = Inr (Some buf)"
      "length buf + s2s_size \<le> MAX_PACKET_LEN"
    and b: "can_send b n"
    and gate: "nt_heap m e = Some ek" "sk_type ek = CT_SSCN" "get_conn_by_owner own m = Inr (Some c)"
      "nt_heap m c = Some sk" "sk_type sk = CT_SCCN" "sk_packet sk = Some PT_STREAM" "can_send c m"
    and client: "nt_heap w k = Some ks" "sk_type ks = CT_CSCN" "sc_cmds w (uint (word_of_int cmd :: 16 word)) = Some cfg'"
  shows "\<exists>n' q m' r. pack_ssc E b stack i n = Inr (Inr 0, n') \<and> sent b q n n' \<and> frames q = ([q], []) \<and>
    dispatch E' e q m = Inr m' \<and> sent c r m m' \<and> frames r = ([r], []) \<and>
    dispatch E'' k r w = decode_and_call E'' (sk_codec ks) buf (length buf) (Some cfg') ''command_new''
      [lint k, lint (uint (word_of_int cmd :: 16 word)), lint (uint ecode)] w"
proof -
  obtain hl where hl: "header_length s2s_size (length buf) = Some hl" using enc(4) by (simp add: header_length_Some add.commute)
  obtain hl' where hl': "header_length s2c_size (length buf) = Some hl'" using enc(4) by (simp add: header_length_Some msg_defs)
  let ?q = "s2s_header hl (word_of_int cmd) ecode SPT_SCPK 0 own @ buf"
  let ?r = "s2c_header hl' (word_of_int cmd) ecode @ buf"
  obtain n' where n': "send_msg E b (s2s_header hl (word_of_int cmd) ecode SPT_SCPK 0 own) buf (length buf) n = Inr n'" "sent b ?q n n'"
    using send_msg_sent [OF b, of "length buf" buf E] by auto
  have p: "pack_ssc E b stack i n = Inr (Inr 0, n')"
    using args enc hl n'(1) by (simp add: pack_ssc_def check_cond_def check_some_def)
  have w: "frames ?q = ([?q], [])" by (rule frames_headers, rule whole_headers(1) [OF hl]) (simp add: msg_defs)
  have w': "frames ?r = ([?r], [])" by (rule frames_headers, rule whole_headers(2) [OF hl'])
  have cl: "dispatch E'' k ?r w = decode_and_call E'' (sk_codec ks) buf (length buf) (Some cfg') ''command_new''
      [lint k, lint (uint (word_of_int cmd :: 16 word)), lint (uint ecode)] w"
    using sc_command_reads [OF hl' client(3,1)] client by (simp add: dispatch_def deref_def)
  have "get_conn_by_owner (to_i32 own) m = Inr (Some c)" using gate(3) to_i32_check [OF args(1)] by simp
  note cmd = ssc_command_reads [OF hl this gate(4,5,6)]
  obtain m' where m': "raw_pack_clt E' c (uint (word_of_int cmd :: 16 word)) ecode buf (length buf) m = Inr (0, m')" "sent c ?r m m'"
    using raw_pack_clt_sent [OF gate(7) hl', of E' "uint (word_of_int cmd :: 16 word)" ecode] by auto
  have "dispatch E' e ?q m = Inr m'" using dispatch_sscn [OF gate(1,2)] cmd m'(1) by (simp add: msg_defs)
  then show ?thesis using p n'(2) w w' cl m'(2) by blast
qed

theorem client_packet_relayed_witness:
  "\<exists>buf n' q m' r. pack_ssc quiet 8 [LInt 500, LInt 1, LInt 9, LInt 3, LTab []] 1 small_net = Inr (Inr 0, n') \<and>
     sent 8 q small_net n' \<and> dispatch quiet 8 q small_net = Inr m' \<and> sent 7 r small_net m' \<and>
     dispatch quiet 10 r small_net = decode_and_call quiet 1 buf (length buf) (Some (cmd_to 9 1)) ''command_new''
       [lint 10, lint 9, lint 3] small_net"
proof -
  let ?st = "[LInt 500, LInt 1, LInt 9, LInt 3, LTab []]"
  have h: "nt_heap small_net 7 = Some (open_sock CT_SCCN 500)" "nt_heap small_net 8 = Some (open_sock CT_SSCN 0)"
    "nt_heap small_net 10 = Some (open_sock CT_CSCN 0)" "sc_cmds small_net 9 = Some (cmd_to 9 1)"
    "get_conn_by_owner 500 small_net = Inr (Some 7)"
    by (simp_all add: small_net_def get_conn_by_owner_def get_conn_id_by_owner_def deref_def open_sock_def)
  have a: "check_int32 quiet ?st 1 = Inr 500" "check_int32 quiet ?st 2 = Inr 1" "check_int32 quiet ?st 3 = Inr 9"
    "check_u16 quiet ?st 4 = Inr 3" "check_table ?st 5 = Inr []" "codec_type_ok 1"
    by (simp_all add: check_int32_def check_integer_def check_u16_def check_table_def stack_at_def to_i32_def codec_type_ok_def msg_defs
        CODEC_NONE_def CODEC_MAX_def)
  have cd: "get_codec quiet 1 = Some (luabin_codec quiet)" by (simp add: get_codec_def CODEC_NONE_def CODEC_MAX_def CT_LUABIN_def)
  obtain buf where buf: "cd_encode (luabin_codec quiet) ?st 5 (Some (cmd_to 9 1)) = Inr (Some buf)" "length buf < 100"
    by (simp add: luabin_codec_def LuaBin.encode_def emit_def emit_some_def encode_len_ok_def put_count_def MAX_BUFF_def MAX_VARIABLE_def)
  have l: "length buf + s2s_size \<le> MAX_PACKET_LEN" using buf(2) by (simp add: msg_defs)
  have t: "sk_type (open_sock CT_SCCN 500) = CT_SCCN" "sk_packet (open_sock CT_SCCN 500) = Some PT_STREAM"
    "sk_type (open_sock CT_SSCN 0) = CT_SSCN" "sk_type (open_sock CT_CSCN 0) = CT_CSCN" "sk_codec (open_sock CT_CSCN 0) = 1"
    by (simp_all add: open_sock_def CT_LUABIN_def)
  have n9: "uint (word_of_int 9 :: 16 word) = 9" "uint (3 :: 16 word) = 3" by simp_all
  show ?thesis
    using client_packet_relayed [of quiet ?st 1 500 1 9 3 "[]" small_net "cmd_to 9 1" "luabin_codec quiet" buf 8
        small_net 8 "open_sock CT_SSCN 0" 7 "open_sock CT_SCCN 500" small_net 10 "open_sock CT_CSCN 0" "cmd_to 9 1" quiet quiet]
      a h cd buf(1) l t n9 by simp blast
qed

section \<open>Remote calls\<close>

lemma decode_payload_sent:
  assumes "LuaBin.encode stack i = Inr (Some bs)" "1 \<le> i" "int (length stack) - i < 255"
    "list_all sendable (drop (nat (i - 1)) stack)" "\<And>k. k_room E k"
  shows "decode_payload E (luabin_codec E) bs (length bs) cfg = Inr (Some (drop (nat (i - 1)) stack))"
proof -
  have "LuaBin.decode (k_room E) 0 bs = Inr (Inr (drop (nat (i - 1)) stack))"
    using decode_encode [OF assms(1-4), of "k_room E"] assms(5) by blast
  then show ?thesis by (simp add: decode_payload_def luabin_codec_def read_mem_def)
qed

lemma do_pack_rpc_sent:
  assumes "can_send d n" "(if ecode = 0 then LuaBin.encode stack i else Inr (Some [])) = Inr enc"
    "enc \<noteq> None \<or> pkt \<noteq> SPT_RPCS" "header_length s2s_size (length (case enc of None \<Rightarrow> [] | Some bs \<Rightarrow> bs)) = Some hl"
  shows "\<exists>n'. do_pack_rpc E d uid ecode pkt stack i n = Inr (0, n') \<and>
    sent d (s2s_header hl 0 (if enc = None then 0xFFFE else ecode) pkt 0 uid @ (case enc of None \<Rightarrow> [] | Some bs \<Rightarrow> bs)) n n'"
  using send_msg_sent [OF assms(1), of "length (case enc of None \<Rightarrow> [] | Some bs \<Rightarrow> bs)" "case enc of None \<Rightarrow> [] | Some bs \<Rightarrow> bs" E
      "s2s_header hl 0 (if enc = None then 0xFFFE else ecode) pkt 0 uid"] assms(2-4)
  by (auto simp: do_pack_rpc_def Let_def)

text \<open>
  C17: a remote call arrives. The packet that \<open>pack_rpc\<close> puts into the send buffer makes the
  peer call its script with the connection, the call's number and exactly the values that the
  caller passed, tables included; the reply, when the number is positive, goes back over the
  same connection.
\<close>

theorem rpc_call_arrives:
  assumes args: "check_int32 E stack i = Inr uid" "0 \<le> i" "int (length stack) - i \<le> 255" "list_all sendable (drop (nat i) stack)"
    and enc: "LuaBin.encode stack (i + 1) = Inr (Some bs)" "length bs + s2s_size \<le> MAX_PACKET_LEN"
    and d: "can_send d n"
    and peer: "nt_heap m e = Some ek" "sk_type ek = CT_SSCN" "\<And>k. k_room E' k"
  shows "\<exists>n' q. pack_rpc E d stack i n = Inr (Inr 0, n') \<and> sent d q n n' \<and> frames q = ([q], []) \<and>
    dispatch E' e q m = bind_res (script E' ''rpc_command_new'' ([lint e, lint uid] @ drop (nat i) stack) m) (\<lambda>((ok, rets), m1).
      if uid > 0 then bind_res (do_pack_rpc E' e uid (if ok then 0 else 0xFFFF) SPT_RPCR (LOther # rets) 2 m1) (\<lambda>(_, m2). Inr m2)
      else Inr m1)"
proof -
  obtain hl where hl: "header_length s2s_size (length bs) = Some hl" using enc(2) by (simp add: header_length_Some add.commute)
  let ?q = "s2s_header hl 0 0 SPT_RPCS 0 uid @ bs"
  obtain n' where n': "do_pack_rpc E d uid 0 SPT_RPCS stack (i + 1) n = Inr (0, n')" "sent d ?q n n'"
    using do_pack_rpc_sent [OF d, of 0 stack "i + 1" "Some bs" SPT_RPCS hl E uid] enc(1) hl by auto
  have w: "frames ?q = ([?q], [])" by (rule frames_headers, rule whole_headers(1) [OF hl]) (simp add: msg_defs)
  have dp: "decode_payload E' (luabin_codec E') bs (length bs) None = Inr (Some (drop (nat i) stack))"
    using decode_payload_sent [OF enc(1), of E'] args(2-4) peer(3) by simp
  have ne: "drop (nat i) stack \<noteq> []" using enc(1) args(2) by (auto simp: LuaBin.encode_def Let_def split: if_splits)
  have "rpc_command E' e ?q m = bind_res (script E' ''rpc_command_new'' ([lint e, lint uid] @ drop (nat i) stack) m) (\<lambda>((ok, rets), m1).
      if uid > 0 then bind_res (do_pack_rpc E' e uid (if ok then 0 else 0xFFFF) SPT_RPCR (LOther # rets) 2 m1) (\<lambda>(_, m2). Inr m2)
      else Inr m1)"
    unfolding rpc_command_def read_s2s s2s_parts [OF hl] bind_res_simps dp to_i32_check [OF args(1)] using ne by simp
  then have "dispatch E' e ?q m = bind_res (script E' ''rpc_command_new'' ([lint e, lint uid] @ drop (nat i) stack) m) (\<lambda>((ok, rets), m1).
      if uid > 0 then bind_res (do_pack_rpc E' e uid (if ok then 0 else 0xFFFF) SPT_RPCR (LOther # rets) 2 m1) (\<lambda>(_, m2). Inr m2)
      else Inr m1)"
    using dispatch_sscn [OF peer(1,2)] by (simp add: msg_defs)
  then show ?thesis using n' w by (auto simp: pack_rpc_def args(1) intro!: exI [of _ ?q])
qed

theorem rpc_call_arrives_witness:
  "\<exists>n' q m'. pack_rpc quiet 8 [LInt 77, LStr [102], LBool True] 1 small_net = Inr (Inr 0, n') \<and> sent 8 q small_net n' \<and>
     dispatch quiet 8 q small_net = bind_res (script quiet ''rpc_command_new'' [lint 8, lint 77, LStr [102], LBool True] small_net)
       (\<lambda>((ok, rets), m1). bind_res (do_pack_rpc quiet 8 77 (if ok then 0 else 0xFFFF) SPT_RPCR (LOther # rets) 2 m1) (\<lambda>(_, m2). Inr m2))"
proof -
  let ?st = "[LInt 77, LStr [102], LBool True]"
  have a: "check_int32 quiet ?st 1 = Inr 77" by (simp add: check_int32_def check_integer_def stack_at_def to_i32_def)
  obtain bs where bs: "LuaBin.encode ?st (1 + 1) = Inr (Some bs)" "length bs < 100"
    by (simp add: LuaBin.encode_def emit_def emit_some_def encode_len_ok_def put_count_def MAX_BUFF_def MAX_VARIABLE_def)
  have h: "nt_heap small_net 8 = Some (open_sock CT_SSCN 0)" "sk_type (open_sock CT_SSCN 0) = CT_SSCN" "\<And>k. k_room quiet k"
    by (simp_all add: small_net_def open_sock_def quiet_def)
  have l: "length bs + s2s_size \<le> MAX_PACKET_LEN" using bs(2) by (simp add: msg_defs)
  show ?thesis
    using rpc_call_arrives [OF a _ _ _ bs(1) l small_can_send(2) h] by simp blast
qed

text \<open>
  C18: the reply. For a positive call number and a script function that succeeded with one or
  more results the caller's script gets the call's number, error code 0 and exactly those
  results.
\<close>

theorem rpc_reply_arrives:
  assumes call: "script E ''rpc_command_new'' ([lint e, lint uid] @ vs) m = Inr ((True, rets), m1)" "vs \<noteq> []" "0 < uid" "to_i32 uid = uid"
    and req: "header_length s2s_size (length bs) = Some hl" "decode_payload E (luabin_codec E) bs (length bs) None = Inr (Some vs)"
      "nt_heap m e = Some ek" "sk_type ek = CT_SSCN"
    and enc: "LuaBin.encode (LOther # rets) 2 = Inr (Some rs)" "length rs + s2s_size \<le> MAX_PACKET_LEN" "length rets \<le> 255"
      "list_all sendable rets" "can_send e m1"
    and caller: "nt_heap n d = Some dk" "sk_type dk = CT_SSCN" "\<And>k. k_room E' k"
  shows "\<exists>m2 r. dispatch E e (s2s_header hl 0 0 SPT_RPCS 0 uid @ bs) m = Inr m2 \<and> sent e r m1 m2 \<and> frames r = ([r], []) \<and>
    dispatch E' d r n = bind_res (script E' ''rpc_command_return'' ([lint d, lint uid, lint 0] @ rets) n) (\<lambda>(_, n1). Inr n1)"
proof -
  obtain hr where hr: "header_length s2s_size (length rs) = Some hr" using enc(2) by (simp add: header_length_Some add.commute)
  let ?r = "s2s_header hr 0 0 SPT_RPCR 0 uid @ rs"
  obtain m2 where m2: "do_pack_rpc E e uid 0 SPT_RPCR (LOther # rets) 2 m1 = Inr (0, m2)" "sent e ?r m1 m2"
    using do_pack_rpc_sent [OF enc(5), of 0 "LOther # rets" 2 "Some rs" SPT_RPCR hr E uid] enc(1) hr by auto
  have w: "frames ?r = ([?r], [])" by (rule frames_headers, rule whole_headers(1) [OF hr]) (simp add: msg_defs)
  have "rpc_command E e (s2s_header hl 0 0 SPT_RPCS 0 uid @ bs) m = Inr m2"
    unfolding rpc_command_def read_s2s s2s_parts [OF req(1)] bind_res_simps req(2) call(4)
    using call m2(1) by simp
  then have s: "dispatch E e (s2s_header hl 0 0 SPT_RPCS 0 uid @ bs) m = Inr m2"
    using dispatch_sscn [OF req(3,4)] by (simp add: msg_defs)
  have dp: "decode_payload E' (luabin_codec E') rs (length rs) None = Inr (Some rets)"
    using decode_payload_sent [OF enc(1), of E'] enc(3,4) caller(3) by simp
  have "0 < length rs" using dp by (cases rs) (auto simp: decode_payload_def read_mem_def luabin_codec_def LuaBin.decode_def)
  then have "rpc_return E' d ?r n = bind_res (script E' ''rpc_command_return'' ([lint d, lint uid, lint 0] @ rets) n) (\<lambda>(_, n1). Inr n1)"
    unfolding rpc_return_def read_s2s s2s_parts [OF hr] bind_res_simps call(4) Let_def using dp by simp
  then show ?thesis using s m2(2) w dispatch_sscn [OF caller(1,2)] by (auto simp: msg_defs intro!: exI [of _ ?r])
qed

lemma small_call:
  "can_send 8 (small_net\<lparr>nt_calls := cs\<rparr>)" "nt_heap small_net 8 = Some (open_sock CT_SSCN 0)"
  "sk_type (open_sock CT_SSCN 0) = CT_SSCN" "to_i32 77 = 77"
  using small_can_send(2) by (simp_all add: can_send_def small_net_def open_sock_def to_i32_def)

lemma small_request:
  assumes "\<And>k. k_room E k"
  shows "\<exists>bs hl. header_length s2s_size (length bs) = Some hl \<and>
    decode_payload E (luabin_codec E) bs (length bs) None = Inr (Some [LStr [102]])"
proof -
  obtain bs where bs: "LuaBin.encode [LStr [102]] 1 = Inr (Some bs)" "length bs < 100"
    by (simp add: LuaBin.encode_def emit_def emit_some_def encode_len_ok_def MAX_BUFF_def MAX_VARIABLE_def)
  have "decode_payload E (luabin_codec E) bs (length bs) None = Inr (Some [LStr [102]])"
    using decode_payload_sent [OF bs(1) _ _ _ assms] by simp
  moreover have "header_length s2s_size (length bs) = Some (word_of_nat (s2s_size + length bs))"
    using bs(2) by (simp add: header_length_Some msg_defs)
  ultimately show ?thesis by blast
qed

theorem rpc_reply_arrives_witness:
  "\<exists>E bs hl m1 m2 r. k_script E = (\<lambda>fn args n. Inr ((True, [LInt 3]), n)) \<and> m1 = small_net\<lparr>nt_calls := [(''rpc_command_new'', [lint 8, lint 77, LStr [102]])]\<rparr> \<and>
     dispatch E 8 (s2s_header hl 0 0 SPT_RPCS 0 77 @ bs) small_net = Inr m2 \<and> sent 8 r m1 m2 \<and>
     dispatch quiet 8 r small_net = bind_res (script quiet ''rpc_command_return'' [lint 8, lint 77, lint 0, LInt 3] small_net) (\<lambda>(_, n1). Inr n1)"
proof -
  let ?E = "quiet\<lparr>k_script := (\<lambda>fn args n. Inr ((True, [LInt 3]), n))\<rparr>"
  have room: "\<And>k. k_room ?E k" "\<And>k. k_room quiet k" by (simp_all add: quiet_def)
  obtain bs hl where b: "header_length s2s_size (length bs) = Some hl"
    "decode_payload ?E (luabin_codec ?E) bs (length bs) None = Inr (Some [LStr [102]])" using small_request [of ?E] room(1) by blast
  obtain rs where rs: "LuaBin.encode (LOther # [LInt 3]) 2 = Inr (Some rs)" "length rs < 100"
    by (simp add: LuaBin.encode_def emit_def emit_some_def encode_len_ok_def MAX_BUFF_def MAX_VARIABLE_def)
  have l: "length rs + s2s_size \<le> MAX_PACKET_LEN" using rs(2) by (simp add: msg_defs)
  let ?m1 = "small_net\<lparr>nt_calls := [(''rpc_command_new'', [lint 8, lint 77, LStr [102]])]\<rparr>"
  have s: "script ?E ''rpc_command_new'' ([lint 8, lint 77] @ [LStr [102]]) small_net = Inr ((True, [LInt 3]), ?m1)"
    by (simp add: script_def small_net_def net_init_def)
  obtain m2 r where "dispatch ?E 8 (s2s_header hl 0 0 SPT_RPCS 0 77 @ bs) small_net = Inr m2" "sent 8 r ?m1 m2"
    "dispatch quiet 8 r small_net = bind_res (script quiet ''rpc_command_return'' [lint 8, lint 77, lint 0, LInt 3] small_net) (\<lambda>(_, n1). Inr n1)"
    using rpc_reply_arrives [OF s _ _ small_call(4) b small_call(2,3) rs(1) l _ _ small_call(1) small_call(2,3) room(2)] by auto
  moreover have "k_script ?E = (\<lambda>fn args n. Inr ((True, [LInt 3]), n))" by simp
  ultimately show ?thesis by blast
qed

text \<open>
  C39: a remote function that returns nothing is reported to its caller as failed: encoding no
  values is an error for \<open>LuaBin\<close>, so the reply carries the error code 0xFFFE.
\<close>

theorem rpc_void_reply_fails:
  assumes call: "script E ''rpc_command_new'' ([lint e, lint uid] @ vs) m = Inr ((True, []), m1)" "vs \<noteq> []" "0 < uid" "to_i32 uid = uid"
    and req: "header_length s2s_size (length bs) = Some hl" "decode_payload E (luabin_codec E) bs (length bs) None = Inr (Some vs)"
      "nt_heap m e = Some ek" "sk_type ek = CT_SSCN"
    and e: "can_send e m1"
    and caller: "nt_heap n d = Some dk" "sk_type dk = CT_SSCN"
  shows "\<exists>m2 r. dispatch E e (s2s_header hl 0 0 SPT_RPCS 0 uid @ bs) m = Inr m2 \<and> sent e r m1 m2 \<and>
    dispatch E' d r n = bind_res (script E' ''rpc_command_return'' [lint d, lint uid, lint 0xFFFE] n) (\<lambda>(_, n1). Inr n1)"
proof -
  have hr: "header_length s2s_size (length ([] :: 8 word list)) = Some 14" by (simp add: header_length_Some msg_defs)
  let ?r = "s2s_header 14 0 0xFFFE SPT_RPCR 0 uid @ []"
  have "LuaBin.encode (LOther # []) 2 = Inr None" by (simp add: LuaBin.encode_def)
  then obtain m2 where m2: "do_pack_rpc E e uid 0 SPT_RPCR [LOther] 2 m1 = Inr (0, m2)" "sent e ?r m1 m2"
    using do_pack_rpc_sent [OF e, of 0 "[LOther]" 2 None SPT_RPCR 14 E uid] hr by (auto simp: msg_defs)
  have "rpc_command E e (s2s_header hl 0 0 SPT_RPCS 0 uid @ bs) m = Inr m2"
    unfolding rpc_command_def read_s2s s2s_parts [OF req(1)] bind_res_simps req(2) call(4)
    using call m2(1) by simp
  then have s: "dispatch E e (s2s_header hl 0 0 SPT_RPCS 0 uid @ bs) m = Inr m2"
    using dispatch_sscn [OF req(3,4)] by (simp add: msg_defs)
  have "rpc_return E' d ?r n = bind_res (script E' ''rpc_command_return'' [lint d, lint uid, lint 0xFFFE] n) (\<lambda>(_, n1). Inr n1)"
    unfolding rpc_return_def read_s2s s2s_parts [OF hr] bind_res_simps call(4) Let_def by simp
  then show ?thesis using s m2(2) dispatch_sscn [OF caller, where E = E' and hl = 14 and cmd = 0 and ecode = "0xFFFE" and pkt = SPT_RPCR and codec = 0 and own = uid and buf = "[]"]
    by (auto simp: msg_defs intro!: exI [of _ ?r])
qed

theorem rpc_void_reply_fails_witness:
  "\<exists>bs hl m1 m2 r. m1 = small_net\<lparr>nt_calls := [(''rpc_command_new'', [lint 8, lint 77, LStr [102]])]\<rparr> \<and>
     dispatch quiet 8 (s2s_header hl 0 0 SPT_RPCS 0 77 @ bs) small_net = Inr m2 \<and> sent 8 r m1 m2 \<and>
     dispatch quiet 8 r small_net = bind_res (script quiet ''rpc_command_return'' [lint 8, lint 77, lint 0xFFFE] small_net) (\<lambda>(_, n1). Inr n1)"
proof -
  have room: "\<And>k. k_room quiet k" by (simp add: quiet_def)
  obtain bs hl where b: "header_length s2s_size (length bs) = Some hl"
    "decode_payload quiet (luabin_codec quiet) bs (length bs) None = Inr (Some [LStr [102]])" using small_request [of quiet] room by blast
  let ?m1 = "small_net\<lparr>nt_calls := [(''rpc_command_new'', [lint 8, lint 77, LStr [102]])]\<rparr>"
  have s: "script quiet ''rpc_command_new'' ([lint 8, lint 77] @ [LStr [102]]) small_net = Inr ((True, []), ?m1)"
    by (simp add: script_def small_net_def net_init_def quiet_def)
  obtain m2 r where "dispatch quiet 8 (s2s_header hl 0 0 SPT_RPCS 0 77 @ bs) small_net = Inr m2" "sent 8 r ?m1 m2"
    "dispatch quiet 8 r small_net = bind_res (script quiet ''rpc_command_return'' [lint 8, lint 77, lint 0xFFFE] small_net) (\<lambda>(_, n1). Inr n1)"
    using rpc_void_reply_fails [OF s _ _ small_call(4) b small_call(2,3) small_call(1) small_call(2,3), of quiet] by auto
  then show ?thesis by blast
qed

end
