(* ===== verification/NetCast.thy ===== *)
theory NetCast
  imports NetProps
begin

text \<open>
  The manager's invariant as a property of every reachable state, broadcasting to clients, and
  calls that the code gets wrong.
\<close>

section \<open>The manager\<close>

lemma quiet_ok [simp]: "ok_env quiet"
  by (simp add: ok_env_def quiet_def sd.ret)



section \<open>Closing twice\<close>

text \<open>
  C30: closing a connection that has just been closed breaks the manager. \<open>CS_CLOSING\<close> has the
  value of \<open>CS_OPENED\<close>, so a script that calls \<open>close\<close> between \<open>close_cb\<close> and the deletion makes
  the dead socket look open: the assertion of \<open>invoke_delete\<close> fails, and sending to the
  connection in between goes through a null pointer.
\<close>

theorem close_twice_asserts:
  assumes "nt_heap n c = Some sk" "sk_packet sk = Some PT_STREAM" "c \<in> nt_map n" "1 \<le> c" "c \<le> 0x7FFFFFFF"
    and "nt_deleting n = []" "close_cb E False c n = Inr n1"
  shows "\<exists>n2. mgr_close E [lint c] n1 = Inr (Inr (), n2) \<and> invoke_delete E n2 = Inl AssertionFailed \<and>
    sk_append E c data n2 = Inl NullDeref"
proof -
  let ?f = "\<lambda>sk. sk\<lparr>sk_status := CS_CLOSED, sk_fd := -1, sk_w := False\<rparr>"
  obtain r n0 where n0: "net_ev (io_delete c) (sk_upd c ?f n) = Inr (r, n0)" "n1 = connect_del c (k_error E c n) n0"
    using assms(1,2,7) by (auto simp: close_cb_def deref_def Let_def bind_res_eq_Inr split: if_splits)
  then have n1: "nt_heap n1 c = Some (?f sk)" "nt_map n1 = nt_map n" "nt_deleting n1 = [(c, k_error E c n)]"
    using assms(1,6) by (auto simp: net_ev_def bind_res_eq_Inr connect_del_def sk_upd_def)
  have i: "check_int32 E [lint c] 1 = Inr c"
    using assms(4,5) by (simp add: check_int32_def check_integer_def stack_at_def lint_def to_i32_def signed_of_int signed_take_bit_int_eq_self_iff)
  let ?n2 = "sk_upd c (\<lambda>sk. sk\<lparr>sk_w := False\<rparr>) (sk_upd c (\<lambda>sk. sk\<lparr>sk_status := CS_CLOSING\<rparr>) n1)"
  have st: "stop E flsh False c n1 = Inr ?n2" for flsh
    using n1(1) by (simp add: stop_def deref_def close_cb_def sk_upd_def)
  have n2: "nt_heap ?n2 c = Some (?f sk\<lparr>sk_status := CS_CLOSING\<rparr>)" "nt_map ?n2 = nt_map n" "nt_deleting ?n2 = [(c, k_error E c n)]"
    using n1 by (simp_all add: sk_upd_def)
  have "mgr_close E [lint c] n1 = Inr (Inr (), ?n2)"
    using i st n1(1,2) assms(3) by (simp add: mgr_close_def with_sock_def get_conn_by_conn_id_def check_some_def deref_def)
  moreover have "invoke_delete E ?n2 = Inl AssertionFailed"
    using n2 assms(3) by (simp add: invoke_delete_def deref_def is_closed_def CS_CLOSING_def CS_OPENED_def)
  moreover have "sk_append E c data ?n2 = Inl NullDeref"
    using n2(1) by (simp add: sk_append_def deref_def)
  ultimately show ?thesis by blast
qed

theorem close_twice_asserts_witness:
  "\<exists>n1 n2. close_cb quiet False 7 small_net = Inr n1 \<and> mgr_close quiet [lint 7] n1 = Inr (Inr (), n2) \<and>
     invoke_delete quiet n2 = Inl AssertionFailed \<and> sk_append quiet 7 [1] n2 = Inl NullDeref"
proof -
  have h: "nt_heap small_net 7 = Some (open_sock CT_SCCN 500)" "sk_packet (open_sock CT_SCCN 500) = Some PT_STREAM"
    "7 \<in> nt_map small_net" "nt_deleting small_net = []"
    by (simp_all add: small_net_def net_init_def open_sock_def)
  obtain n1 where n1: "close_cb quiet False 7 small_net = Inr n1"
    by (auto simp: close_cb_def deref_def h(1) open_sock_def sk_upd_def net_ev_def io_delete_def io_change_def io_get_def io_upd_def
        small_net_def net_init_def iosys_init_def ev_init_def evio_new_def Let_def)
  show ?thesis using close_twice_asserts [OF h(1-3) _ _ h(4) n1, of "[1]"] n1 by auto
qed

section \<open>Broadcasts\<close>

text \<open>
  C38: a broadcast to clients cannot reach a client. \<open>clt_multicast\<close> demands the connection type
  of servers, so the first client in the list raises an error and nothing is sent.
\<close>

theorem clt_multicast_rejects_clients:
  assumes args: "check_table stack 1 = Inr ((k, LInt w) # kvs)" "check_int32 E stack 2 = Inr ct" "check_u16 E stack 3 = Inr cmd"
      "check_u16 E stack 4 = Inr ecode" "codec_type_ok ct" "check_table stack 5 = Inr tbl"
    and enc: "sc_cmds n (uint cmd) = Some cfg" "get_codec E ct = Some cd" "cd_encode cd stack 5 (Some cfg) = Inr (Some buf)"
      "length buf \<le> MAX_PACKET_LEN"
    and conn: "to_i32 (sint w) = c" "c \<in> nt_map n" "nt_heap n c = Some sk" "sk_status sk = CS_OPENED" "sk_type sk = CT_SCCN"
  shows "clt_multicast E stack n = Inr (Inl IllegalConnection, n)"
proof -
  have "raw_check_packet c CT_SSCN n = Inr (Inl IllegalConnection, n)"
    using conn by (simp add: raw_check_packet_def with_sock_def get_conn_by_conn_id_def check_some_def deref_def is_closed_def)
  then show ?thesis using args enc conn(1) by (simp add: clt_multicast_def multicast_def check_cond_def check_some_def)
qed

theorem clt_multicast_rejects_clients_witness:
  "clt_multicast quiet [LTab [(LInt 1, LInt 7)], LInt 1, LInt 9, LInt 0, LTab []] small_net = Inr (Inl IllegalConnection, small_net)"
proof -
  let ?st = "[LTab [(LInt 1, LInt 7)], LInt 1, LInt 9, LInt 0, LTab []]"
  have a: "check_table ?st 1 = Inr [(LInt 1, LInt 7)]" "check_int32 quiet ?st 2 = Inr 1" "check_u16 quiet ?st 3 = Inr 9"
    "check_u16 quiet ?st 4 = Inr 0" "codec_type_ok 1" "check_table ?st 5 = Inr []"
    by (simp_all add: check_int32_def check_integer_def check_u16_def check_table_def stack_at_def to_i32_def codec_type_ok_def
        CODEC_NONE_def CODEC_MAX_def)
  have cd: "get_codec quiet 1 = Some (luabin_codec quiet)" by (simp add: get_codec_def CODEC_NONE_def CODEC_MAX_def CT_LUABIN_def)
  obtain buf where buf: "cd_encode (luabin_codec quiet) ?st 5 (Some (cmd_to 9 1)) = Inr (Some buf)" "length buf \<le> MAX_PACKET_LEN"
    by (simp add: luabin_codec_def LuaBin.encode_def emit_def emit_some_def encode_len_ok_def put_count_def MAX_BUFF_def MAX_VARIABLE_def
        MAX_PACKET_LEN_def)
  have h: "sc_cmds small_net (uint (9 :: 16 word)) = Some (cmd_to 9 1)" "to_i32 (sint (7 :: 64 word)) = 7" "7 \<in> nt_map small_net"
    "nt_heap small_net 7 = Some (open_sock CT_SCCN 500)"
    by (simp_all add: small_net_def to_i32_def)
  show ?thesis
    by (rule clt_multicast_rejects_clients [OF a h(1) cd buf h(2-4)]) (simp_all add: open_sock_def)
qed

text \<open>The list of owners in a broadcast packet.\<close>

lemma read_i32_list:
  assumes "i < length xs" "off = length pre + 4 * i"
  shows "read_i32 off (pre @ concat (map le32 xs) @ post) = Inr (to_i32 (xs ! i))"
proof -
  have "xs = take i xs @ xs ! i # drop (Suc i) xs" by (rule id_take_nth_drop [OF assms(1)])
  then have c: "concat (map le32 xs) = concat (map le32 (take i xs)) @ le32 (xs ! i) @ concat (map le32 (drop (Suc i) xs))"
    by (metis concat.simps(2) concat_append list.map(2) map_append)
  have "length (concat (map le32 ys)) = 4 * length ys" for ys by (induction ys) auto
  then have "length (pre @ concat (map le32 (take i xs))) = off" using assms by (simp add: min_def)
  then show ?thesis
    using read_i32_at [of off "pre @ concat (map le32 (take i xs))" "xs ! i" "concat (map le32 (drop (Suc i) xs)) @ post"]
    by (simp add: c)
qed

lemma cast_list_spec: "cast_list kvs idx = Inr os \<Longrightarrow> 0 \<le> idx \<Longrightarrow> idx \<le> MAX_CLT_CAST \<Longrightarrow>
  idx + int (length os) \<le> MAX_CLT_CAST \<and> (\<forall>own \<in> set os. to_i32 own = own)"
proof (induction kvs idx arbitrary: os rule: cast_list.induct)
  case (2 k v kvs idx)
  show ?case
  proof (cases v)
    case (LInt w)
    show ?thesis
    proof (cases "idx \<ge> MAX_CLT_CAST")
      case False
      then obtain os' where "cast_list kvs (idx + 1) = Inr os'" "os = to_i32 (sint w) # os'"
        using "2.prems"(1) LInt by (auto simp: map_sum_def split: sum.splits)
      then show ?thesis using "2.IH" [OF LInt False, of os'] "2.prems"(2) False by (auto simp: to_i32_def)
    qed (use "2.prems" LInt in auto)
  qed (use "2.prems" in auto)
qed auto

text \<open>A client of the gateway that the broadcast reaches.\<close>

definition client_of :: "net \<Rightarrow> int \<Rightarrow> int \<Rightarrow> bool" where
  "client_of n own c \<longleftrightarrow> get_conn_by_owner own n = Inr (Some c) \<and> can_send c n \<and>
     (\<exists>sk. nt_heap n c = Some sk \<and> sk_type sk = CT_SCCN \<and> sk_packet sk = Some PT_STREAM)"

lemma one_multicast_sent:
  assumes "client_of n own c" "header_length s2c_size (length buf) = Some hl"
  shows "\<exists>n'. ssc_one_multicast E own cmd ecode buf (length buf) n = Inr n' \<and>
    sent c (s2c_header hl (word_of_int cmd) ecode @ buf) n n'"
proof -
  obtain sk where sk: "nt_heap n c = Some sk" "sk_type sk = CT_SCCN" "sk_packet sk = Some PT_STREAM" "sk_status sk = CS_OPENED"
    and o: "get_conn_by_owner own n = Inr (Some c)" "can_send c n" using assms(1) by (auto simp: client_of_def can_send_def)
  show ?thesis
    using raw_pack_clt_sent [OF o(2) assms(2), of E cmd ecode] sk o(1)
    by (auto simp: ssc_one_multicast_def deref_def is_closed_def pkt_raw_clt_def)
qed

lemma client_of_sent:
  assumes "sent d x n n'" "client_of n own c"
  shows "client_of n' own c"
proof -
  note same = sent_same [OF assms(1)]
  have "get_conn_by_owner own n' = get_conn_by_owner own n"
    unfolding get_conn_by_owner_def get_conn_id_by_owner_def deref_def same ..
  then show ?thesis using assms(2) sent_can [OF assms(1), of c] same(1) by (simp add: client_of_def)
qed

lemma sent_other: "sent d x n n' \<Longrightarrow> c \<noteq> d \<Longrightarrow> nt_send n' c = nt_send n c"
  by (auto simp: sent_def)

lemma multicast_sends:
  assumes "header_length s2c_size (length buf) = Some hl"
  shows "distinct (map f os) \<Longrightarrow> \<forall>own \<in> set os. client_of n own (f own) \<Longrightarrow>
    \<exists>n'. fold_res (\<lambda>own. ssc_one_multicast E own cmd ecode buf (length buf)) os n = Inr n' \<and>
      (\<forall>own \<in> set os. content (nt_send n' (f own)) = content (nt_send n (f own)) @ s2c_header hl (word_of_int cmd) ecode @ buf) \<and>
      (\<forall>c. c \<notin> f ` set os \<longrightarrow> nt_send n' c = nt_send n c)"
proof (induction os arbitrary: n)
  case (Cons own os)
  obtain n1 where n1: "ssc_one_multicast E own cmd ecode buf (length buf) n = Inr n1"
    "sent (f own) (s2c_header hl (word_of_int cmd) ecode @ buf) n n1"
    using one_multicast_sent [OF _ assms] Cons.prems(2) by (metis list.set_intros(1))
  have "\<forall>k \<in> set os. client_of n1 k (f k)" using client_of_sent [OF n1(2)] Cons.prems(2) by simp
  then obtain n' where n': "fold_res (\<lambda>own. ssc_one_multicast E own cmd ecode buf (length buf)) os n1 = Inr n'"
    "\<forall>k \<in> set os. content (nt_send n' (f k)) = content (nt_send n1 (f k)) @ s2c_header hl (word_of_int cmd) ecode @ buf"
    "\<forall>c. c \<notin> f ` set os \<longrightarrow> nt_send n' c = nt_send n1 c"
    using Cons.IH [of n1] Cons.prems(1) by auto
  have new: "f own \<notin> f ` set os" using Cons.prems(1) by simp
  have "content (nt_send n' (f own)) = content (nt_send n (f own)) @ s2c_header hl (word_of_int cmd) ecode @ buf"
    using n'(3) new sent_content [OF n1(2)] by simp
  moreover have "content (nt_send n' (f k)) = content (nt_send n (f k)) @ s2c_header hl (word_of_int cmd) ecode @ buf" if "k \<in> set os" for k
  proof -
    have "f k \<noteq> f own" using imageI [OF that, of f] new by metis
    then show ?thesis using n'(2) that sent_other [OF n1(2)] by simp
  qed
  moreover have "nt_send n' c = nt_send n c" if "c \<notin> f ` set (own # os)" for c
    using n'(3) sent_other [OF n1(2), of c] that by simp
  ultimately show ?case using n1(1) n'(1) by auto
qed simp

lemma fold_res_map: "fold_res g (map h xs) s = fold_res (\<lambda>x. g (h x)) xs s"
  by (induction xs arbitrary: s) (auto intro!: bind_res_cong)

lemma fold_res_index: "fold_res (\<lambda>i s. g (xs ! i) s) [0..<length xs] s = fold_res g xs s"
  using fold_res_map [of g "nth xs" "[0..<length xs]" s] by (simp add: map_nth)

lemma fold_res_index_cong:
  assumes "\<And>i s. i < length xs \<Longrightarrow> h i s = g (xs ! i) s"
  shows "fold_res h [0..<length xs] s = fold_res g xs s"
proof -
  have "fold_res h [0..<length xs] s = fold_res (\<lambda>i s. g (xs ! i) s) [0..<length xs] s"
    by (rule fold_res_cong) (simp add: assms)
  then show ?thesis by (simp only: fold_res_index)
qed

lemma to_i32_small: "- (2 ^ 31) \<le> i \<Longrightarrow> i < 2 ^ 31 \<Longrightarrow> to_i32 i = i"
  unfolding to_i32_def signed_of_int by (simp add: signed_take_bit_int_eq_self)

text \<open>What the gateway reads in a broadcast packet.\<close>

lemma ssc_multicast_reads:
  assumes hl: "header_length s2s_size (length (concat (map le32 (CLT_MC_OWNER # int (length os) # os))) + length buf) = Some hl"
    and os: "int (length os) + 2 \<le> MAX_CLT_CAST" "\<forall>own \<in> set os. to_i32 own = own"
  shows "ssc_multicast E (s2s_header hl cmd ecode pkt codec own0 @ concat (map le32 (CLT_MC_OWNER # int (length os) # os)) @ buf) m =
    fold_res (\<lambda>own. ssc_one_multicast E own (uint cmd) ecode buf (length buf)) os m"
proof -
  let ?xs = "CLT_MC_OWNER # int (length os) # os" and ?h = "s2s_header hl cmd ecode pkt codec own0"
  let ?p = "?h @ concat (map le32 ?xs) @ buf"
  have len: "length (concat (map le32 ys)) = 4 * length ys" for ys by (induction ys) auto
  have l256: "length os + 2 \<le> 256" using os(1) by (simp add: MAX_CLT_CAST_def)
  have rd: "read_i32 (14 + 4 * i) ?p = Inr (to_i32 (?xs ! i))" if "i < length ?xs" for i
    by (rule read_i32_list [OF that]) (simp add: s2s_size_def)
  have c: "to_i32 (int (length os)) = int (length os)" "to_i32 CLT_MC_OWNER = CLT_MC_OWNER"
    using l256 by (simp_all add: to_i32_small CLT_MC_OWNER_def)
  have r14: "read_i32 14 ?p = Inr CLT_MC_OWNER" using rd [of 0] c by simp
  have r18: "read_i32 18 ?p = Inr (int (length os))" using rd [of 1] c by simp
  have ll: "unat (4 * word_of_int (int (length os) + 2) :: 64 word) = 4 * (length os + 2)"
  proof -
    have "4 * word_of_int (int (length os) + 2) = (word_of_nat (4 * (length os + 2)) :: 64 word)" by simp
    then have "unat (4 * word_of_int (int (length os) + 2) :: 64 word) = unat (word_of_nat (4 * (length os + 2)) :: 64 word)" by (simp only:)
    also have "\<dots> = 4 * (length os + 2)" unfolding unsigned_of_nat take_bit_nat_def using l256 by simp
    finally show ?thesis .
  qed
  have uhl: "unat hl = s2s_size + (length (concat (map le32 ?xs)) + length buf)" by (rule hl_unat [OF hl])
  have "packet_buffer_len s2s_size hl = unat hl - s2s_size" by (rule packet_buffer_len_ok) (simp add: uhl)
  also have "\<dots> = 4 * (length os + 2) + length buf" unfolding uhl len by simp
  finally have sz: "packet_buffer_len s2s_size hl = 4 * (length os + 2) + length buf" .
  have d: "drop (s2s_size + 4 * (length os + 2)) ?p = buf"
  proof -
    have "length (concat (map le32 ?xs)) = 4 * (length os + 2)" unfolding len by simp
    then have "drop (4 * (length os + 2)) (concat (map le32 ?xs) @ buf) = buf" by (metis append_eq_conv_conj)
    moreover have "drop (s2s_size + k) ?p = drop k (concat (map le32 ?xs) @ buf)" for k by simp
    ultimately show ?thesis by (simp only:)
  qed
  have f: "fold_res (\<lambda>idx n. bind_res (read_i32 (22 + 4 * idx) ?p) (\<lambda>own. ssc_one_multicast E own (uint cmd) ecode buf (length buf) n))
      [0..<length os] m = fold_res (\<lambda>own. ssc_one_multicast E own (uint cmd) ecode buf (length buf)) os m"
  proof (rule fold_res_index_cong)
    fix i s
    assume i: "i < length os"
    have "read_i32 (22 + 4 * i) ?p = Inr (os ! i)" using rd [of "i + 2"] i os(2) by simp
    then show "bind_res (read_i32 (22 + 4 * i) ?p) (\<lambda>own. ssc_one_multicast E own (uint cmd) ecode buf (length buf) s) =
        ssc_one_multicast E (os ! i) (uint cmd) ecode buf (length buf) s" by simp
  qed
  have mx: "\<not> MAX_CLT_CAST < int (length os)" using os(1) by simp
  show ?thesis
    unfolding ssc_multicast_def r14 r18 bind_res_simps read_s2s if_not_P [OF mx] Let_def ll sz d nat_int
    using f by simp
qed

text \<open>
  C9: a broadcast. One \<open>pack_ssc_multicast\<close> to the owners in a table puts one packet into the
  gateway's connection; the gateway that dispatches it appends to the connection of every
  owner in the list, and to no other connection, one packet with the command, the error code and
  the payload. The list holds at most 254 owners.
\<close>

theorem broadcast_relayed:
  assumes args: "check_int32 E stack i = Inr CLT_MC_OWNER" "check_int32 E stack (i + 2) = Inr ct" "check_int32 E stack (i + 3) = Inr cmd"
      "check_u16 E stack (i + 4) = Inr ecode" "check_table stack (i + 1) = Inr lst" "check_table stack (i + 5) = Inr tbl"
      "cast_list lst 2 = Inr os" "codec_type_ok ct"
    and enc: "sc_cmds n cmd = Some cfg" "get_codec E ct = Some cd" "cd_encode cd stack (i + 5) (Some cfg) = Inr (Some buf)"
      "length buf + 4 * (length os + 2) + s2s_size \<le> MAX_PACKET_LEN" "can_send b n"
    and gate: "nt_heap m e = Some ek" "sk_type ek = CT_SSCN" "distinct (map f os)" "\<forall>own \<in> set os. client_of m own (f own)"
  shows "\<exists>n' q m' r. pack_ssc_multicast E b stack i n = Inr (Inr 0, n') \<and> sent b q n n' \<and> frames q = ([q], []) \<and>
    length os \<le> 254 \<and> dispatch E' e q m = Inr m' \<and> frames r = ([r], []) \<and>
    r = s2c_header (word_of_nat (s2c_size + length buf)) (word_of_int cmd) ecode @ buf \<and>
    (\<forall>own \<in> set os. content (nt_send m' (f own)) = content (nt_send m (f own)) @ r) \<and>
    (\<forall>c. c \<notin> f ` set os \<longrightarrow> nt_send m' c = nt_send m c)"
proof -
  let ?raw = "concat (map le32 (CLT_MC_OWNER # int (length os) # os))"
  have len: "length (concat (map le32 ys)) = 4 * length ys" for ys by (induction ys) auto
  have os: "int (length os) + 2 \<le> MAX_CLT_CAST" "\<forall>own \<in> set os. to_i32 own = own"
    using cast_list_spec [OF args(7)] by (simp_all add: MAX_CLT_CAST_def)
  have "s2s_size + (length ?raw + length buf) \<le> MAX_PACKET_LEN" unfolding len using enc(4) by simp
  then obtain hl where hl: "header_length s2s_size (length ?raw + length buf) = Some hl" by (simp add: header_length_Some)
  have hl': "header_length s2c_size (length buf) = Some (word_of_nat (s2c_size + length buf))"
    using enc(4) by (simp add: header_length_Some msg_defs)
  let ?h = "s2s_header hl (word_of_int cmd) ecode SPT_CBCP 0 0"
  let ?q = "?h @ ?raw @ buf" and ?r = "s2c_header (word_of_nat (s2c_size + length buf)) (word_of_int cmd) ecode @ buf"
  obtain n1 where n1: "sk_append E b ?h n = Inr n1" "sent b ?h n n1" using append_sent [OF enc(5)] by blast
  obtain n2 where n2: "send_msg E b ?raw buf (length buf) n1 = Inr n2" "sent b (?raw @ buf) n1 n2"
    using send_msg_sent [OF sent_can [OF n1(2) enc(5)], of "length buf" buf E ?raw] by auto
  have p: "pack_ssc_multicast E b stack i n = Inr (Inr 0, n2)"
    using args enc(1-3) hl n1(1) n2(1) by (simp add: pack_ssc_multicast_def check_cond_def check_some_def Let_def)
  have lq: "length ?q = unat hl" using hl_unat [OF hl] by simp
  have "22 \<le> length ?q" unfolding length_append len by (simp add: s2s_size_def)
  moreover have "len_field ?q = unat hl" by (simp add: s2s_header_def)
  ultimately have "whole CT_SSCN ?q" unfolding whole_def head_size_def using lq by (simp add: s2s_size_def)
  then have w: "frames ?q = ([?q], [])" by (rule frames_headers)
  have w': "frames ?r = ([?r], [])" by (rule frames_headers, rule whole_headers(2) [OF hl'])
  obtain m' where m': "fold_res (\<lambda>own. ssc_one_multicast E' own (uint (word_of_int cmd :: 16 word)) ecode buf (length buf)) os m = Inr m'"
    "\<forall>own \<in> set os. content (nt_send m' (f own)) = content (nt_send m (f own)) @ ?r"
    "\<forall>c. c \<notin> f ` set os \<longrightarrow> nt_send m' c = nt_send m c"
    using multicast_sends [OF hl' gate(3,4), of E' "uint (word_of_int cmd :: 16 word)" ecode] by auto
  have "dispatch E' e ?q m = Inr m'"
    using dispatch_sscn [OF gate(1,2), where E = E' and hl = hl and cmd = "word_of_int cmd" and ecode = ecode and pkt = SPT_CBCP
        and codec = 0 and own = 0 and buf = "?raw @ buf"]
      ssc_multicast_reads [OF hl os, of E' "word_of_int cmd" ecode SPT_CBCP 0 0 m] m'(1) by (simp add: msg_defs)
  moreover have "length os \<le> 254" using os(1) by (simp add: MAX_CLT_CAST_def)
  ultimately show ?thesis using p sent_trans [OF n1(2) n2(2)] w w' m'(2,3) by blast
qed

theorem broadcast_relayed_witness:
  "\<exists>n' q m' buf. pack_ssc_multicast quiet 8 [LInt 1, LTab [(LInt 1, LInt 500)], LInt 1, LInt 9, LInt 0, LTab []] 1 small_net = Inr (Inr 0, n') \<and>
     sent 8 q small_net n' \<and> dispatch quiet 8 q small_net = Inr m' \<and>
     content (nt_send m' 7) = s2c_header (word_of_nat (6 + length buf)) 9 0 @ buf"
proof -
  let ?st = "[LInt 1, LTab [(LInt 1, LInt 500)], LInt 1, LInt 9, LInt 0, LTab []]"
  have a: "check_int32 quiet ?st 1 = Inr CLT_MC_OWNER" "check_int32 quiet ?st (1 + 2) = Inr 1" "check_int32 quiet ?st (1 + 3) = Inr 9"
    "check_u16 quiet ?st (1 + 4) = Inr 0" "check_table ?st (1 + 1) = Inr [(LInt 1, LInt 500)]" "check_table ?st (1 + 5) = Inr []"
    "cast_list [(LInt 1, LInt 500)] 2 = Inr [500]" "codec_type_ok 1"
    by (simp_all add: check_int32_def check_integer_def check_u16_def check_table_def stack_at_def to_i32_def codec_type_ok_def
        CODEC_NONE_def CODEC_MAX_def msg_defs)
  have cd: "get_codec quiet 1 = Some (luabin_codec quiet)" by (simp add: get_codec_def CODEC_NONE_def CODEC_MAX_def CT_LUABIN_def)
  obtain buf where buf: "cd_encode (luabin_codec quiet) ?st (1 + 5) (Some (cmd_to 9 1)) = Inr (Some buf)" "length buf < 100"
    by (simp add: luabin_codec_def LuaBin.encode_def emit_def emit_some_def encode_len_ok_def put_count_def MAX_BUFF_def MAX_VARIABLE_def)
  have h: "sc_cmds small_net 9 = Some (cmd_to 9 1)" "nt_heap small_net 8 = Some (open_sock CT_SSCN 0)" "sk_type (open_sock CT_SSCN 0) = CT_SSCN"
    by (simp_all add: small_net_def open_sock_def)
  have l: "length buf + 4 * (length [500::int] + 2) + s2s_size \<le> MAX_PACKET_LEN" using buf(2) by (simp add: msg_defs)
  have c: "\<forall>own \<in> set [500]. client_of small_net own ((\<lambda>_. 7) own)"
  proof -
    have "get_conn_by_owner 500 small_net = Inr (Some 7)" "nt_heap small_net 7 = Some (open_sock CT_SCCN 500)"
      by (simp_all add: small_net_def get_conn_by_owner_def get_conn_id_by_owner_def deref_def open_sock_def)
    then show ?thesis by (simp add: client_of_def open_sock_def)
  qed
  have e: "content (nt_send small_net 7) = []" by (simp add: small_net_def net_init_def)
  have d: "distinct (map (\<lambda>_. 7 :: int) [500 :: int])" by simp
  from broadcast_relayed [OF a h(1) cd buf(1) l small_can_send(2) h(2,3) d c, of quiet]
  show ?thesis using e by (auto simp: s2c_size_def)
qed

end
