(* ===== verification/Spec2Isabelle.thy ===== *)
theory Spec2Isabelle
  imports AStarCorrect BufferQueue GridAOICorrect EvIoCorrect LuaBinCorrect OrthListRun SkipListProps PoolRun NetCast
begin

text \<open>
  A model of the engine of MServer, the C++ game server framework under \<open>src/engine/src\<close>, and
  what makes it correct.

  \<^bold>\<open>The program.\<close> A server process runs one main loop (\<open>ev\<close>) that expires timers, takes over
  the events of the back end thread and calls watchers. The back end waits on epoll, reads and
  writes the sockets through io objects (\<open>net/io\<close>) and moves bytes in and out of buffers
  (\<open>ev/buffer\<close>). A socket (\<open>net/socket\<close>) reacts to its watcher: it accepts, connects, cuts the
  received bytes into packets (\<open>net/packet\<close>), decodes them (\<open>net/codec\<close>) and calls a Lua
  function, or forwards them to another process as the network manager
  (\<open>lua_cpplib/lnetwork_mgr\<close>) decides. Scripts send through the same manager. Beside this stand the
  scene libraries (\<open>scene\<close>): a walkability map, a path finder and indices of who sees whom.

  \<^bold>\<open>Theories.\<close>

  \<^item> \<open>Prelude\<close>: the result type. A fault (\<open>Inl\<close>) is a point at which the C++ program has no
    defined continuation: a failed assertion, an access outside an array, a null or dangling
    pointer, a loop that does not end. Locale \<open>safe_steps\<close> lifts the safety of single operations
    to runs; locale \<open>keeps\<close> shows that composed operations preserve a reflexive and transitive
    relation whatever their control flow. Division as in C++ and removal from unordered vectors.

  \<^item> \<open>GridMap\<close>: \<open>scene/grid_map.cpp\<close>. A record with the array of costs; an invariant on its size.

  \<^item> \<open>AStar\<close>, \<open>AStarCorrect\<close>: \<open>scene/a_star.cpp\<close>. The state has the node pool, the node table and the
    open set; a node pointer is an index of the pool. The search ends, what it finds is a route
    of least cost, and it fails only when there is no route or the pool is used up.

  \<^item> \<open>Buffer\<close>, \<open>BufferQueue\<close>: \<open>ev/buffer.cpp\<close>. Chunks with their write and read positions. Locale
    \<open>byte_queue\<close> states what the clients rely on; the buffer interprets it, so its operations
    refine appending and removing at the ends of a list of bytes.

  \<^item> \<open>GridAOI\<close>, \<open>GridAOICorrect\<close>: \<open>scene/grid_aoi.cpp\<close>. Cells hold vectors of entities. The invariant
    says that cells, entities and interest lists agree; from it every call reports exactly who
    comes into and goes out of view.

  \<^item> \<open>OrthList\<close> (\<open>scene/orth_list_aoi.cpp\<close>); \<open>OrthLinks\<close>, \<open>OrthAxes\<close>, \<open>OrthListCorrect\<close>, \<open>OrthListExact\<close>,
    \<open>OrthListMove\<close>, \<open>OrthListRun\<close>. Three doubly linked lists over the same nodes. \<open>OrthLinks\<close> reads the
    links as lists, \<open>OrthAxes\<close> follows a node through one axis, the others put the axes together:
    the lists stay linked and sorted, entering and leaving report exactly, and one move that
    does not.

  \<^item> \<open>SkipList\<close> (\<open>scene/skip_list_aoi.cpp\<close>); \<open>SkipListOrder\<close>, \<open>SkipListCorrect\<close>, \<open>SkipListViews\<close>, \<open>SkipListOps\<close>,
    \<open>SkipListRun\<close>, \<open>SkipListProps\<close>. One list along the x axis with index nodes at fixed distances.
    \<open>SkipListOrder\<close>: the list stays sorted and a walk visits exactly a range. \<open>SkipListCorrect\<close>: locale
    \<open>visits\<close> states what a callback does to one pair of entities and derives what a walk does; each
    callback of the code interprets it. \<open>SkipListViews\<close>: the vector of views in use bounds every
    view. \<open>SkipListOps\<close> puts them together for each operation, \<open>SkipListRun\<close> for runs. The two ways of
    moving agree; releasing the largest view breaks the bound.

  \<^item> \<open>Pool\<close>, \<open>PoolCorrect\<close>, \<open>PoolAreas\<close>, \<open>PoolRun\<close>: \<open>pool/\<close>. Object pools are a vector of free objects and the set
    of what is allocated. The ordered pool is modelled with the pointers in its memory: the invariant
    gives every area of a block an owner (block header, free list, client) and reads the free lists
    off the memory. The other models allocate where the code takes from a pool.

  \<^item> \<open>TimerHeap\<close>, \<open>TimerHeapCorrect\<close>: \<open>up_heap\<close>, \<open>down_heap\<close>, \<open>adjust_heap\<close> of \<open>ev/ev.cpp\<close>, on the array
    with the back pointers, shown equal to sifting on a plain list.

  \<^item> \<open>EvLoop\<close>, \<open>EvTimers\<close>, \<open>EvCorrect\<close>: timers, UTC timers, the pending vector, the wait and the
    cached clocks of \<open>ev/ev.cpp\<close>, and \<open>EVTimer\<close> of \<open>ev/ev_watcher.cpp\<close>.

  \<^item> \<open>EvIo\<close>, \<open>EvIoCorrect\<close>: io watchers, the vectors that the two threads exchange, and the back
    end of \<open>ev/ev_backend.cpp\<close> and \<open>ev/ev_epoll.inl\<close>. Five vectors of watchers with their position in
    the watcher are handled by one group of lemmas (\<open>slots_ok\<close>).

  \<^item> \<open>LuaBin\<close>, \<open>LuaBinCorrect\<close>: \<open>net/codec/luabin_codec.cpp\<close> on raw memory. A wire format on values;
    the encoder writes it, the decoder inverts it and ends on every input.

  \<^item> \<open>NetMsg\<close>: the headers of \<open>net/net_header.hpp\<close>, byte by byte. \<open>Net\<close>: the state of the network, a
    socket's sending and closing (\<open>net/socket.cpp\<close>), the choice of a codec, the lookups and the
    forwarding of client packets (\<open>lua_cpplib/lnetwork_mgr.cpp\<close>). \<open>NetStream\<close>:
    \<open>net/packet/stream_packet.cpp\<close>, packers, handlers and \<open>unpack\<close>. \<open>NetSocket\<close>: opening, accepting,
    connecting, receiving, deleting. \<open>NetApi\<close>: the functions of the manager that scripts call.
    \<open>NetIo\<close>: \<open>net/io/io.cpp\<close>.

  \<^item> \<open>NetCorrect\<close>, \<open>NetFrame\<close>: a handler reads only its packet, and the loop of \<open>command_cb\<close> agrees
    with a reference parser (\<open>frames\<close>). \<open>NetSend\<close>: what sending adds to a connection, and that a
    header that was written can be read. \<open>NetInv\<close>: the invariant of the manager and that everything
    that changes the state keeps it. \<open>NetProps\<close>, \<open>NetCast\<close>: the properties, among them the way of a
    packet through client, gateway and back end.

  \<^bold>\<open>Composition.\<close> The network's state contains the io state (\<open>nt_io\<close>), which contains the state of
    the event loop; each connection has two buffers of the buffer model. Starting, stopping and
    writing a socket are the operations of those models, and the properties of the network use
    their invariants and the interpretation of \<open>byte_queue\<close>. Remote calls use the round trip of
    the Lua codec.

  \<^bold>\<open>Loops and bounds.\<close> Recursion ends by a measure where it can. \<open>timers_reify\<close> and
  \<open>periodic_reify\<close>, the walks over the links of the orthogonal lists, the search for a free
  connection id and the loop of \<open>command_cb\<close> are \<open>partial_function (option)\<close>: not returning is
  \<open>None\<close>, which the network turns into the fault \<open>Diverged\<close>. That they return is proved where they do
  (for \<open>timers_reify\<close> by the lag of the timers behind the clock), and that they do not where they
  do not. The decoder of \<open>LuaBin\<close> has fuel, one unit for a value and one for a pair; twice the length
  of the packet and two is enough, since every value takes at least a byte. Integers have the width of
  the source where the code depends on it (header fields, marks, lengths, ids); coordinates,
  times and costs are unbounded, since signed overflow has no meaning in C++.

  \<^bold>\<open>Outside the model\<close> and therefore parameters: script functions, which may call back into the
  network and return any state, Lua's conversions, \<open>lua_checkstack\<close>, the other packet types and the codecs
  that wrap libraries (all in the record \<open>env\<close>); the callbacks of watchers; the status that an io
  object returns to the back end; the answers of \<open>recv\<close>, \<open>send\<close>, \<open>accept\<close> and of epoll; the order
  in which \<open>unordered_map\<close> is walked; the addresses \<open>operator new\<close> returns to the pools (\<open>op_fresh\<close>, \<open>or_fresh\<close>:
  they are not in use). Two conditions on the environment occur. \<open>tame_env\<close>: a script that
  is called while packets are read leaves the receive buffer, the type and the packet class of
  existing connections as they are; only the event loop deletes a socket, after the loop.
  \<open>ok_env\<close>: scripts and the other packet types change the network only in ways that keep its
  invariant, which the functions given to them do (\<open>NetInv\<close>).

  \<^bold>\<open>Not modelled.\<close> HTTP and WebSocket packets, FlatBuffers, protobuf, SSL, MySQL, MongoDB and BSON (thin
  layers over libraries that are not in the repository, or generated as llhttp is); the use of the
  object pools by the other parts (their models never reuse memory); threads and locks below the exchange of vectors between the two sides of the loop;
  the calls of \<open>io_fast_event\<close> that fall between two steps of the other side; logs and statistics;
  the remaining Lua bindings, which check arguments around the operations modelled here; in the
  network manager \<open>address\<close>, \<open>get_http_header\<close>, \<open>send_ctrl_packet\<close>, \<open>new_ssl_ctx\<close> and the loading of
  schemas. Socket options and addresses are answers of the kernel.
\<close>

end
